(* ===== verification/Xv6_Prelude.thy ===== *)
theory Xv6_Prelude
  imports Main "HOL-Library.Word" "HOL-Library.Monad_Syntax"
begin

text \<open>
  Shared vocabulary of the development: machine types, byte memory addressed by integers,
  the outcome of kernel code that may panic, and the generic facts on integers, lists,
  options and words that the component theories use.
\<close>

unbundle bit_operations_syntax

section \<open>Types\<close>

type_synonym byte = "8 word"
type_synonym u16 = "16 word"
type_synonym u32 = "32 word"

text \<open>
  An address is an integer (an offset from the base of the object at hand), and memory maps
  every address to the byte stored there. The bytes outside the object an operation owns are
  part of the map, so "nothing outside the object is written" is a frame property.
\<close>

type_synonym addr = int
type_synonym memory = "int \<Rightarrow> byte"

text \<open>A kernel function that calls \<open>panic\<close> never returns: the left injection carries the message.\<close>

type_synonym 'a kernel = "string + 'a"

abbreviation panic :: "string \<Rightarrow> 'a kernel" where
  "panic msg \<equiv> Inl msg"

text \<open>Collections the component proofs are driven by.\<close>

named_theorems mem_simps \<open>facts on byte memory and slices of it\<close>
named_theorems vi_defs \<open>definitions of the editor's straight-line operations\<close>
named_theorems frame_simps \<open>fields an operation leaves alone\<close>

section \<open>Characters\<close>

text \<open>The C type \<open>char\<close> is signed on this machine: comparisons go through \<open>sint\<close>.\<close>

abbreviation schar :: "byte \<Rightarrow> int" where
  "schar c \<equiv> sint c"

abbreviation NL :: byte where "NL \<equiv> 10"
abbreviation TAB :: byte where "TAB \<equiv> 9"
abbreviation SPC :: byte where "SPC \<equiv> 32"
abbreviation NUL :: byte where "NUL \<equiv> 0"

text \<open>A string literal of the program as the bytes it stands for (without the final NUL).\<close>

definition bytes_of :: "string \<Rightarrow> byte list" where
  "bytes_of s = map (\<lambda>c. of_nat (of_char c)) s"

section \<open>Slices of memory\<close>

text \<open>\<open>bytes_at m p n\<close>: the \<open>n\<close> bytes of \<open>m\<close> from address \<open>p\<close> on.\<close>

fun bytes_at :: "memory \<Rightarrow> addr \<Rightarrow> nat \<Rightarrow> byte list" where
  "bytes_at m p 0 = []"
| "bytes_at m p (Suc n) = m p # bytes_at m (p + 1) n"

lemma length_bytes_at [simp, mem_simps]: "length (bytes_at m p n) = n"
  by (induction n arbitrary: p) auto

lemma nth_bytes_at [simp, mem_simps]: "i < n \<Longrightarrow> bytes_at m p n ! i = m (p + int i)"
  by (induction n arbitrary: p i) (auto simp: nth_Cons algebra_simps split: nat.splits)

lemma bytes_at_append: "bytes_at m p (a + b) = bytes_at m p a @ bytes_at m (p + int a) b"
  by (induction a arbitrary: p) (auto simp: algebra_simps)

lemma bytes_at_Suc_snoc: "bytes_at m p (Suc n) = bytes_at m p n @ [m (p + int n)]"
  using bytes_at_append[of m p n 1] by simp

lemma take_bytes_at [mem_simps]: "take k (bytes_at m p n) = bytes_at m p (min k n)"
  by (rule nth_equalityI) auto

lemma drop_bytes_at [mem_simps]: "drop k (bytes_at m p n) = bytes_at m (p + int k) (n - k)"
  by (rule nth_equalityI) (auto simp: algebra_simps)

lemma bytes_at_cong:
  assumes "\<And>i. p \<le> i \<Longrightarrow> i < p + int n \<Longrightarrow> m i = m' i"
  shows "bytes_at m p n = bytes_at m' p n"
  by (rule nth_equalityI) (auto intro: assms)

lemma set_bytes_at: "set (bytes_at m p n) = m ` {p..<p + int n}"
proof -
  have "m i \<in> set (bytes_at m p n)" if "p \<le> i" "i < p + int n" for i
    using that nth_mem[of "nat (i - p)" "bytes_at m p n"] by auto
  then show ?thesis
    by (auto simp: in_set_conv_nth)
qed

lemma bytes_at_shift: "bytes_at (\<lambda>i. m (i + k)) p n = bytes_at m (p + k) n"
  by (rule nth_equalityI) (auto simp: algebra_simps)

lemma bytes_at_upd_outside [mem_simps]:
  "i < p \<or> p + int n \<le> i \<Longrightarrow> bytes_at (m(i := v)) p n = bytes_at m p n"
  by (rule bytes_at_cong) auto

lemma bytes_at_upd_inside [mem_simps]:
  "p \<le> i \<Longrightarrow> i < p + int n \<Longrightarrow> bytes_at (m(i := v)) p n = (bytes_at m p n)[nat (i - p) := v]"
  by (rule nth_equalityI) (auto simp: nth_list_update)

section \<open>Options and sums\<close>

lemma bind_eq_Some_conv': "(Option.bind x f = Some y) = (\<exists>z. x = Some z \<and> f z = Some y)"
  by (cases x) auto

definition kbind :: "'a kernel \<Rightarrow> ('a \<Rightarrow> 'b kernel) \<Rightarrow> 'b kernel" where
  "kbind x f = (case x of Inl e \<Rightarrow> Inl e | Inr v \<Rightarrow> f v)"

lemma kbind_simps [simp]: "kbind (Inl e) f = Inl e" "kbind (Inr v) f = f v"
  by (auto simp: kbind_def)

lemma kbind_Inr: "kbind x f = Inr y \<longleftrightarrow> (\<exists>v. x = Inr v \<and> f v = Inr y)"
  by (cases x) auto

section \<open>Lists\<close>

lemma replicate_nth_eq: "xs = replicate n x \<longleftrightarrow> length xs = n \<and> (\<forall>i < n. xs ! i = x)"
  by (auto intro: nth_equalityI)

text \<open>The first index of an array that satisfies a test, as a C loop finds it.\<close>

lemma find_upt_Some: "List.find P [0..<n] = Some i \<longleftrightarrow> i < n \<and> P i \<and> (\<forall>k < i. \<not> P k)"
  by (auto simp: find_Some_iff simp del: upt_rec_numeral)

lemma find_upt_None: "List.find P [0..<n] = None \<longleftrightarrow> (\<forall>i < n. \<not> P i)"
  by (auto simp: find_None_iff simp del: upt_rec_numeral)

section \<open>Words\<close>

lemma sint_of_nat_small:
  "n < 2 ^ (LENGTH('a::len) - 1) \<Longrightarrow> sint (of_nat n :: 'a word) = int n"
proof -
  assume n: "n < 2 ^ (LENGTH('a) - 1)"
  have "- (2 ^ (LENGTH('a) - 1)) \<le> int n"
    by (rule order_trans[of _ 0]) auto
  moreover have "int n < 2 ^ (LENGTH('a) - 1)"
    using n by (metis of_nat_less_iff of_nat_numeral of_nat_power)
  ultimately show ?thesis
    by (simp add: signed_of_nat signed_take_bit_int_eq_self)
qed

lemma unat_less_2p32: "unat (y :: u32) < 2 ^ 32"
  using unsigned_less[of y, where ?'a = nat] by simp

end
