(* ===== verification/Cstring.thy ===== *)
theory Cstring
  imports Xv6_Prelude
begin

text \<open>
  The byte and string routines of the kernel (\<open>string.c\<close>) and of user programs (\<open>ulib.c\<close>),
  on byte memory. Loops whose end depends on a NUL byte are partial functions: \<open>None\<close> is a
  loop that never meets one. Each routine is proved equal to a reference definition: a fill,
  a simultaneous copy, an operation on the list of bytes of a C string.
\<close>

section \<open>Kernel routines (string.c)\<close>

text \<open>The string instructions \<open>rep stosb\<close> and \<open>rep stosl\<close> of \<open>x86.h\<close>.\<close>

definition stosb :: "memory \<Rightarrow> addr \<Rightarrow> u32 \<Rightarrow> nat \<Rightarrow> memory" where
  "stosb m a data cnt = (\<lambda>i. if a \<le> i \<and> i < a + int cnt then ucast data else m i)"

definition stosl :: "memory \<Rightarrow> addr \<Rightarrow> u32 \<Rightarrow> nat \<Rightarrow> memory" where
  "stosl m a data cnt =
     (\<lambda>i. if a \<le> i \<and> i < a + 4 * int cnt
          then ucast (drop_bit (8 * nat ((i - a) mod 4)) data) else m i)"

definition memset :: "memory \<Rightarrow> addr \<Rightarrow> u32 \<Rightarrow> nat \<Rightarrow> memory" where
  "memset m dst c n =
     (if dst mod 4 = 0 \<and> n mod 4 = 0 then
        let c' = c AND 0xFF in
        stosl m dst (push_bit 24 c' OR push_bit 16 c' OR push_bit 8 c' OR c') (n div 4)
      else stosb m dst c n)"

fun memcmp :: "memory \<Rightarrow> addr \<Rightarrow> addr \<Rightarrow> nat \<Rightarrow> int" where
  "memcmp m s1 s2 0 = 0"
| "memcmp m s1 s2 (Suc n) =
     (if m s1 \<noteq> m s2 then uint (m s1) - uint (m s2) else memcmp m (s1 + 1) (s2 + 1) n)"

fun copy_up :: "memory \<Rightarrow> addr \<Rightarrow> addr \<Rightarrow> nat \<Rightarrow> memory" where
  "copy_up m d s 0 = m"
| "copy_up m d s (Suc n) = copy_up (m(d := m s)) (d + 1) (s + 1) n"

fun copy_down :: "memory \<Rightarrow> addr \<Rightarrow> addr \<Rightarrow> nat \<Rightarrow> memory" where
  "copy_down m d s 0 = m"
| "copy_down m d s (Suc n) = copy_down (m(d - 1 := m (s - 1))) (d - 1) (s - 1) n"

definition memmove :: "memory \<Rightarrow> addr \<Rightarrow> addr \<Rightarrow> nat \<Rightarrow> memory" where
  "memmove m dst src n =
     (if src < dst \<and> src + int n > dst
      then copy_down m (dst + int n) (src + int n) n
      else copy_up m dst src n)"

definition memcpy :: "memory \<Rightarrow> addr \<Rightarrow> addr \<Rightarrow> nat \<Rightarrow> memory" where
  "memcpy m dst src n = memmove m dst src n"

fun strncmp :: "memory \<Rightarrow> addr \<Rightarrow> addr \<Rightarrow> nat \<Rightarrow> int" where
  "strncmp m p q 0 = 0"
| "strncmp m p q (Suc n) =
     (if m p \<noteq> NUL \<and> m p = m q then strncmp m (p + 1) (q + 1) n
      else uint (m p) - uint (m q))"

fun zero_fill :: "memory \<Rightarrow> addr \<Rightarrow> nat \<Rightarrow> memory" where
  "zero_fill m s 0 = m"
| "zero_fill m s (Suc n) = zero_fill (m(s := NUL)) (s + 1) n"

fun strncpy_loop :: "memory \<Rightarrow> addr \<Rightarrow> addr \<Rightarrow> nat \<Rightarrow> memory" where
  "strncpy_loop m s t 0 = m"
| "strncpy_loop m s t (Suc n) =
     (if m t \<noteq> NUL then strncpy_loop (m(s := m t)) (s + 1) (t + 1) n
      else zero_fill (m(s := NUL)) (s + 1) n)"

definition strncpy :: "memory \<Rightarrow> addr \<Rightarrow> addr \<Rightarrow> int \<Rightarrow> memory" where
  "strncpy m s t n = strncpy_loop m s t (nat n)"

text \<open>
  \<open>safestrcpy\<close>: the loop counter is decremented before the test, and the pointer has passed
  the copied NUL when the final store writes a second one.
\<close>

fun safestrcpy_loop :: "memory \<Rightarrow> addr \<Rightarrow> addr \<Rightarrow> nat \<Rightarrow> memory" where
  "safestrcpy_loop m s t 0 = m(s := NUL)"
| "safestrcpy_loop m s t (Suc n) =
     (if m t \<noteq> NUL then safestrcpy_loop (m(s := m t)) (s + 1) (t + 1) n
      else m(s := NUL, s + 1 := NUL))"

definition safestrcpy :: "memory \<Rightarrow> addr \<Rightarrow> addr \<Rightarrow> int \<Rightarrow> memory" where
  "safestrcpy m s t n = (if n \<le> 0 then m else safestrcpy_loop m s t (nat (n - 1)))"

partial_function (option) strlen_loop :: "memory \<Rightarrow> addr \<Rightarrow> int \<Rightarrow> int option" where
  "strlen_loop m s n = (if m (s + n) = NUL then Some n else strlen_loop m s (n + 1))"

definition strlen :: "memory \<Rightarrow> addr \<Rightarrow> int option" where
  "strlen m s = strlen_loop m s 0"

section \<open>User library routines (ulib.c)\<close>

partial_function (option) strcpy :: "memory \<Rightarrow> addr \<Rightarrow> addr \<Rightarrow> memory option" where
  "strcpy m s t =
     (if m t = NUL then Some (m(s := NUL)) else strcpy (m(s := m t)) (s + 1) (t + 1))"

partial_function (option) strcmp :: "memory \<Rightarrow> addr \<Rightarrow> addr \<Rightarrow> int option" where
  "strcmp m p q =
     (if m p \<noteq> NUL \<and> m p = m q then strcmp m (p + 1) (q + 1)
      else Some (uint (m p) - uint (m q)))"

definition umemset :: "memory \<Rightarrow> addr \<Rightarrow> u32 \<Rightarrow> nat \<Rightarrow> memory" where
  "umemset m dst c n = stosb m dst c n"

text \<open>\<open>strchr\<close> returns a pointer or 0: the inner \<open>None\<close> is the null pointer.\<close>

partial_function (option) strchr :: "memory \<Rightarrow> addr \<Rightarrow> byte \<Rightarrow> addr option option" where
  "strchr m s c =
     (if m s = NUL then Some None
      else if m s = c then Some (Some s)
      else strchr m (s + 1) c)"

text \<open>\<open>gets\<close> over the bytes \<open>read\<close> still delivers; the end of the list is a read below 1.\<close>

fun gets_loop :: "memory \<Rightarrow> addr \<Rightarrow> nat \<Rightarrow> nat \<Rightarrow> byte list \<Rightarrow> memory \<times> nat \<times> byte list" where
  "gets_loop m buf i 0 inp = (m, i, inp)"
| "gets_loop m buf i (Suc room) [] = (m, i, [])"
| "gets_loop m buf i (Suc room) (c # inp) =
     (if c = NL \<or> c = 13 then (m(buf + int i := c), Suc i, inp)
      else gets_loop (m(buf + int i := c)) buf (Suc i) room inp)"

definition gets :: "memory \<Rightarrow> addr \<Rightarrow> int \<Rightarrow> byte list \<Rightarrow> memory \<times> byte list" where
  "gets m buf mx inp =
     (case gets_loop m buf 0 (nat (mx - 1)) inp of
        (m', i, inp') \<Rightarrow> (m'(buf + int i := NUL), inp'))"

partial_function (option) atoi_loop :: "memory \<Rightarrow> addr \<Rightarrow> u32 \<Rightarrow> u32 option" where
  "atoi_loop m s n =
     (if 48 \<le> schar (m s) \<and> schar (m s) \<le> 57
      then atoi_loop m (s + 1) (n * 10 + scast (m s) - 48)
      else Some n)"

definition atoi :: "memory \<Rightarrow> addr \<Rightarrow> int option" where
  "atoi m s = map_option sint (atoi_loop m s 0)"

definition umemmove :: "memory \<Rightarrow> addr \<Rightarrow> addr \<Rightarrow> int \<Rightarrow> memory" where
  "umemmove m dst src n = copy_up m dst src (nat n)"

section \<open>Reference definitions\<close>

definition fill_ref :: "memory \<Rightarrow> addr \<Rightarrow> byte \<Rightarrow> nat \<Rightarrow> memory" where
  "fill_ref m a c n = (\<lambda>i. if a \<le> i \<and> i < a + int n then c else m i)"

definition move_ref :: "memory \<Rightarrow> addr \<Rightarrow> addr \<Rightarrow> nat \<Rightarrow> memory" where
  "move_ref m d s n = (\<lambda>i. if d \<le> i \<and> i < d + int n then m (s + (i - d)) else m i)"

text \<open>\<open>cstr m p xs\<close>: the NUL-terminated string at \<open>p\<close> has the bytes \<open>xs\<close>.\<close>

definition cstr :: "memory \<Rightarrow> addr \<Rightarrow> byte list \<Rightarrow> bool" where
  "cstr m p xs \<longleftrightarrow>
     bytes_at m p (length xs) = xs \<and> NUL \<notin> set xs \<and> m (p + int (length xs)) = NUL"

section \<open>Fill and copy\<close>

definition word_of_byte4 :: "u32 \<Rightarrow> u32" where
  "word_of_byte4 c = (let c' = c AND 0xFF in
     push_bit 24 c' OR push_bit 16 c' OR push_bit 8 c' OR c')"

lemma ucast_bytes_of_word:
  assumes "k < 4"
  shows "(ucast (drop_bit (8 * k) (word_of_byte4 c)) :: byte) = ucast c"
proof -
  have mask: "c AND 0xFF = take_bit 8 c"
    by (simp add: take_bit_eq_mask mask_eq_exp_minus_1)
  show ?thesis
  proof (rule bit_word_eqI)
    fix j assume j: "j < LENGTH(8)"
    have "k = 0 \<or> k = 1 \<or> k = 2 \<or> k = 3" using assms by auto
    then show "bit (ucast (drop_bit (8 * k) (word_of_byte4 c)) :: byte) j = bit (ucast c :: byte) j"
      using j unfolding word_of_byte4_def mask Let_def
      by (elim disjE) (auto simp: bit_simps)
  qed
qed

lemma memset_fill: "memset m dst c n = fill_ref m dst (ucast c) n"
proof (cases "dst mod 4 = 0 \<and> n mod 4 = 0")
  case True
  then have "n = 4 * (n div 4)" by presburger
  then have n: "int n = 4 * int (n div 4)" by linarith
  have k: "nat ((i - dst) mod 4) < 4" for i by (simp add: nat_less_iff)
  have "memset m dst c n = stosl m dst (word_of_byte4 c) (n div 4)"
    using True by (simp add: memset_def word_of_byte4_def Let_def)
  then show ?thesis
    by (simp add: stosl_def fill_ref_def fun_eq_iff ucast_bytes_of_word[OF k] flip: n)
next
  case False
  then show ?thesis by (auto simp: memset_def stosb_def fill_ref_def)
qed

lemma umemset_fill: "umemset m dst c n = fill_ref m dst (ucast c) n"
  by (simp add: umemset_def stosb_def fill_ref_def)

lemma copy_up_ref:
  "d \<le> s \<or> s + int n \<le> d \<Longrightarrow> copy_up m d s n = move_ref m d s n"
proof (induction n arbitrary: m d s)
  case 0
  then show ?case by (auto simp: move_ref_def fun_eq_iff)
next
  case (Suc n)
  have "copy_up m d s (Suc n) = move_ref (m(d := m s)) (d + 1) (s + 1) n"
    using Suc.prems by (auto intro!: Suc.IH)
  also have "\<dots> = move_ref m d s (Suc n)"
    using Suc.prems by (auto simp: move_ref_def fun_eq_iff)
  finally show ?case .
qed

lemma copy_down_ref:
  "s \<le> d \<Longrightarrow> copy_down m (d + int n) (s + int n) n = move_ref m d s n"
proof (induction n arbitrary: m)
  case 0
  then show ?case by (auto simp: move_ref_def fun_eq_iff)
next
  case (Suc n)
  have eq: "d + int (Suc n) - 1 = d + int n" "s + int (Suc n) - 1 = s + int n" by auto
  have "copy_down m (d + int (Suc n)) (s + int (Suc n)) (Suc n)
        = move_ref (m(d + int n := m (s + int n))) d s n"
    unfolding copy_down.simps eq by (rule Suc.IH[OF Suc.prems])
  also have "\<dots> = move_ref m d s (Suc n)"
    using Suc.prems by (auto simp: move_ref_def fun_eq_iff)
  finally show ?case .
qed

text \<open>
  the kernel's \<open>memmove\<close> (\<open>string.c\<close>) moves the bytes as if they were all read before any
  is written, whatever the overlap of the two regions, and changes nothing outside the target.
\<close>

theorem memmove_ref: "memmove m dst src n = move_ref m dst src n"
  by (auto simp: memmove_def copy_up_ref copy_down_ref)

lemma bytes_at_move_ref: "bytes_at (move_ref m d s n) d n = bytes_at m s n"
  by (rule nth_equalityI) (auto simp: move_ref_def)

section \<open>Strings\<close>

lemma cstr_Nil [simp]: "cstr m p [] \<longleftrightarrow> m p = NUL"
  by (simp add: cstr_def)

lemma cstr_Cons [simp]: "cstr m p (x # xs) \<longleftrightarrow> m p = x \<and> x \<noteq> NUL \<and> cstr m (p + 1) xs"
  by (auto simp: cstr_def algebra_simps)

lemma cstr_cong:
  assumes "\<And>i. p \<le> i \<Longrightarrow> i \<le> p + int (length xs) \<Longrightarrow> m i = m' i"
  shows "cstr m p xs = cstr m' p xs"
  using assms by (induction xs arbitrary: p) auto

lemma strlen_loop_cstr: "cstr m (s + n) xs \<Longrightarrow> strlen_loop m s n = Some (n + int (length xs))"
proof (induction xs arbitrary: n)
  case Nil
  then show ?case by (simp add: strlen_loop.simps)
next
  case (Cons x xs)
  then have "strlen_loop m s (n + 1) = Some (n + 1 + int (length xs))"
    by (intro Cons.IH) (simp add: add.assoc)
  with Cons.prems show ?case by (simp add: strlen_loop.simps[of m s n])
qed

lemma strlen_cstr: "cstr m s xs \<Longrightarrow> strlen m s = Some (int (length xs))"
  using strlen_loop_cstr[of m s 0 xs] by (simp add: strlen_def)

fun strcmp_ref :: "byte list \<Rightarrow> byte list \<Rightarrow> int" where
  "strcmp_ref [] [] = 0"
| "strcmp_ref [] (y # ys) = - uint y"
| "strcmp_ref (x # xs) [] = uint x"
| "strcmp_ref (x # xs) (y # ys) = (if x = y then strcmp_ref xs ys else uint x - uint y)"

lemma strcmp_cstr: "cstr m p xs \<Longrightarrow> cstr m q ys \<Longrightarrow> strcmp m p q = Some (strcmp_ref xs ys)"
  by (induction xs ys arbitrary: p q rule: strcmp_ref.induct)
     (auto simp: strcmp.simps[of m])

lemma strncmp_cstr:
  "cstr m p xs \<Longrightarrow> cstr m q ys \<Longrightarrow> strncmp m p q n = strcmp_ref (take n xs) (take n ys)"
proof (induction n arbitrary: p q xs ys)
  case 0
  then show ?case by simp
next
  case (Suc n)
  then show ?case by (cases xs; cases ys) auto
qed

lemma strcmp_ref_0:
  "NUL \<notin> set xs \<Longrightarrow> NUL \<notin> set ys \<Longrightarrow> strcmp_ref xs ys = 0 \<longleftrightarrow> xs = ys"
  by (induction xs ys rule: strcmp_ref.induct) (auto simp: uint_0_iff simp flip: word_uint_eq_iff)

lemma strcmp_ref_neg:
  "NUL \<notin> set xs \<Longrightarrow> NUL \<notin> set ys \<Longrightarrow> strcmp_ref xs ys < 0 \<longleftrightarrow> ord_class.lexordp xs ys"
  by (induction xs ys rule: strcmp_ref.induct) 
     (auto simp: word_less_def word_uint_eq_iff less_le)

lemma cstr_no_NUL: "cstr m p xs \<Longrightarrow> NUL \<notin> set xs"
  by (simp add: cstr_def)

lemma cstr_unique: "cstr m p xs \<Longrightarrow> cstr m p ys \<Longrightarrow> xs = ys"
  by (induction xs arbitrary: p ys) (case_tac ys; auto)+

text \<open>
  user-level \<open>strcmp\<close> (\<open>ulib.c\<close>) returns on every pair of C strings; its result is 0
  exactly when the strings are equal and negative exactly when the first is smaller in the
  lexicographic order of unsigned bytes.
\<close>

theorem strcmp_correct:
  assumes "cstr m p xs" and "cstr m q ys"
  shows "\<exists>r. strcmp m p q = Some r \<and> (r = 0 \<longleftrightarrow> xs = ys) \<and> (r < 0 \<longleftrightarrow> ord_class.lexordp xs ys)"
  using assms strcmp_cstr[OF assms] strcmp_ref_0 strcmp_ref_neg cstr_no_NUL by metis

theorem strcmp_correct_witness:
  "\<exists>r. strcmp ((\<lambda>_. 0)(0 := 97, 10 := 97, 11 := 98)) 0 10 = Some r \<and>
     (r = 0 \<longleftrightarrow> [97 :: byte] = [97, 98]) \<and> (r < 0 \<longleftrightarrow> ord_class.lexordp [97 :: byte] [97, 98])"
  by (rule strcmp_correct) simp_all

lemma strcpy_cstr:
  "cstr m t xs \<Longrightarrow> s \<le> t \<or> t + int (length xs) < s \<Longrightarrow>
   strcpy m s t = Some (move_ref m s t (Suc (length xs)))"
proof (induction xs arbitrary: m s t)
  case Nil
  then show ?case by (auto simp: strcpy.simps[of m] move_ref_def fun_eq_iff)
next
  case (Cons x xs)
  let ?m = "m(s := m t)"
  have "cstr ?m (t + 1) xs"
    using Cons.prems by (subst cstr_cong[where m' = m]) auto
  then have "strcpy ?m (s + 1) (t + 1) = Some (move_ref ?m (s + 1) (t + 1) (Suc (length xs)))"
    using Cons.IH[of ?m "t + 1" "s + 1"] Cons.prems(2) by (auto simp del: fun_upd_apply)
  also have "move_ref ?m (s + 1) (t + 1) (Suc (length xs)) = move_ref m s t (Suc (length (x # xs)))"
    using Cons.prems(2) by (auto simp: move_ref_def fun_eq_iff)
  finally show ?case
    using Cons.prems(1) by (simp add: strcpy.simps[of m] del: fun_upd_apply)
qed

lemma zero_fill_ref: "zero_fill m s n = fill_ref m s NUL n"
  by (induction n arbitrary: m s) (auto simp: fill_ref_def fun_eq_iff)

lemma strncpy_loop_ref:
  "cstr m t xs \<Longrightarrow> t + int (length xs) < s \<or> s + int n \<le> t \<Longrightarrow>
   strncpy_loop m s t n =
     (\<lambda>i. if s \<le> i \<and> i < s + int n
          then (xs @ replicate n NUL) ! nat (i - s) else m i)"
proof (induction n arbitrary: m s t xs)
  case 0
  then show ?case by (auto simp: fun_eq_iff)
next
  case (Suc n)
  show ?case
  proof (cases xs)
    case Nil
    with Suc.prems show ?thesis
      by (auto simp: zero_fill_ref fill_ref_def fun_eq_iff nth_Cons' simp del: replicate_Suc)
  next
    case (Cons x xs')
    let ?m = "m(s := m t)"
    have "cstr ?m (t + 1) xs'"
      using Suc.prems Cons by (subst cstr_cong[where m' = m]) auto
    then have IH: "strncpy_loop ?m (s + 1) (t + 1) n =
       (\<lambda>i. if s + 1 \<le> i \<and> i < s + 1 + int n
            then (xs' @ replicate n NUL) ! nat (i - (s + 1)) else ?m i)"
      using Suc.IH[of ?m "t + 1" xs' "s + 1"] Suc.prems(2) Cons by (auto simp del: fun_upd_apply)
    have nth: "(xs' @ NUL # replicate n NUL) ! (nat (i - s) - Suc 0) = (xs' @ replicate n NUL) ! nat (i - (s + 1))"
      if "s + 1 \<le> i" "i < s + 1 + int n" for i
    proof -
      have "nat (i - s) = Suc (nat (i - (s + 1)))" using that by linarith
      moreover have "(xs' @ NUL # replicate n NUL) ! k = (xs' @ replicate n NUL) ! k" if "k < n" for k
        using that by (auto simp: nth_append nth_Cons')
      ultimately show ?thesis using that by simp
    qed
    show ?thesis
      using Suc.prems Cons IH by (auto simp: fun_eq_iff nth)
  qed
qed

lemma safestrcpy_loop_frame:
  "i < s \<or> s + int n < i \<Longrightarrow> safestrcpy_loop m s t n i = m i"
  by (induction n arbitrary: m s t) auto

lemma safestrcpy_loop_cstr:
  "cstr m t xs \<Longrightarrow> t + int (length xs) < s \<or> s + int n < t \<Longrightarrow>
   cstr (safestrcpy_loop m s t n) s (take n xs)"
proof (induction n arbitrary: m s t xs)
  case 0
  then show ?case by simp
next
  case (Suc n)
  show ?case
  proof (cases xs)
    case Nil
    with Suc.prems show ?thesis by simp
  next
    case (Cons x xs')
    let ?m = "m(s := m t)"
    have "cstr ?m (t + 1) xs'"
      using Suc.prems Cons by (subst cstr_cong[where m' = m]) auto
    then have "cstr (safestrcpy_loop ?m (s + 1) (t + 1) n) (s + 1) (take n xs')"
      using Suc.IH[of ?m "t + 1" xs' "s + 1"] Suc.prems(2) Cons by (auto simp del: fun_upd_apply)
    then show ?thesis
      using Suc.prems Cons by (simp add: safestrcpy_loop_frame)
  qed
qed

text \<open>
  \<open>safestrcpy\<close> (\<open>string.c\<close>) with a positive size copies the longest prefix of the source
  that fits, always leaves a NUL-terminated string, and writes only inside the target's
  \<open>n\<close> bytes.
\<close>

theorem safestrcpy_correct:
  assumes "cstr m t xs" and "0 < n" and "t + int (length xs) < s \<or> s + n \<le> t"
  shows "cstr (safestrcpy m s t n) s (take (nat (n - 1)) xs) \<and>
         (\<forall>i. \<not> (s \<le> i \<and> i < s + n) \<longrightarrow> safestrcpy m s t n i = m i)"
  using assms safestrcpy_loop_cstr[of m t xs s "nat (n - 1)"]
  by (auto simp: safestrcpy_def intro!: safestrcpy_loop_frame)

theorem safestrcpy_correct_witness:
  "cstr (safestrcpy ((\<lambda>_. 0)(10 := 97, 11 := 98)) 0 10 2) 0 [97] \<and>
   safestrcpy ((\<lambda>_. 0)(10 := 97, 11 := 98)) 0 10 2 11 = 98"
proof -
  have "cstr ((\<lambda>_. 0)(10 := 97, 11 := 98)) 10 [97, 98 :: byte]" by simp
  from safestrcpy_correct[OF this, of 2 0] show ?thesis by simp
qed

lemma strchr_cstr:
  "cstr m s xs \<Longrightarrow> strchr m s c =
     Some (if c \<in> set xs then Some (s + int (length (takeWhile (\<lambda>x. x \<noteq> c) xs))) else None)"
  by (induction xs arbitrary: s) (auto simp: strchr.simps[of m])

fun gets_ref :: "nat \<Rightarrow> byte list \<Rightarrow> byte list \<times> byte list" where
  "gets_ref 0 inp = ([], inp)"
| "gets_ref (Suc room) [] = ([], [])"
| "gets_ref (Suc room) (c # inp) =
     (if c = NL \<or> c = 13 then ([c], inp)
      else (let (l, rest) = gets_ref room inp in (c # l, rest)))"

lemma gets_loop_ref:
  "gets_loop m buf i room inp = (m', j, inp') \<Longrightarrow> gets_ref room inp = (l, rest) \<Longrightarrow>
   inp' = rest \<and> j = i + length l \<and> length l \<le> room \<and>
   m' = (\<lambda>a. if buf + int i \<le> a \<and> a < buf + int j then l ! nat (a - buf - int i) else m a)"
proof (induction m buf i room inp arbitrary: l rest rule: gets_loop.induct)
  case (3 m buf i room c inp)
  show ?case
  proof (cases "c = NL \<or> c = 13")
    case True
    with "3.prems" have "m' = m(buf + int i := c)" "j = Suc i" "l = [c]" "inp' = rest"
      by auto
    then show ?thesis by (auto simp: fun_eq_iff)
  next
    case False
    obtain l0 rest0 where r: "gets_ref room inp = (l0, rest0)" by (cases "gets_ref room inp")
    with False "3.prems" have l: "l = c # l0" "rest = rest0" by auto
    from False "3.prems" have "gets_loop (m(buf + int i := c)) buf (Suc i) room inp = (m', j, inp')"
      by simp
    from "3.IH"[OF False this r] have *: "inp' = rest0" "j = Suc i + length l0" "length l0 \<le> room"
      "m' = (\<lambda>a. if buf + int (Suc i) \<le> a \<and> a < buf + int j
                 then l0 ! nat (a - buf - int (Suc i)) else (m(buf + int i := c)) a)"
      by auto
    have "(c # l0) ! nat (a - buf - int i) = l0 ! nat (a - buf - int (Suc i))"
      if "buf + int (Suc i) \<le> a" for a
    proof -
      have "nat (a - buf - int i) = Suc (nat (a - buf - int (Suc i)))" using that by linarith
      then show ?thesis by simp
    qed
    with * l show ?thesis by (auto simp: fun_eq_iff)
  qed
qed (auto simp: fun_eq_iff)

lemma gets_ref_split: "gets_ref room inp = (l, rest) \<Longrightarrow> inp = l @ rest"
  by (induction room inp arbitrary: l rest rule: gets_ref.induct)
     (auto split: prod.splits if_splits)

text \<open>
  \<open>gets\<close> (\<open>ulib.c\<close>) with a positive size takes one line off the input (up to and with its
  line end, or as much as fits), stores exactly those bytes followed by a NUL, and writes only
  inside the \<open>mx\<close> bytes of the buffer; no input byte is lost.
\<close>

theorem gets_correct:
  assumes "0 < mx" and "gets m buf mx inp = (m', rest)"
  shows "\<exists>l. gets_ref (nat (mx - 1)) inp = (l, rest) \<and> inp = l @ rest \<and> int (length l) < mx \<and>
             bytes_at m' buf (length l) = l \<and> m' (buf + int (length l)) = NUL \<and>
             (\<forall>a. \<not> (buf \<le> a \<and> a < buf + mx) \<longrightarrow> m' a = m a)"
proof -
  obtain m1 j inp1 where g: "gets_loop m buf 0 (nat (mx - 1)) inp = (m1, j, inp1)"
    by (metis prod_cases3)
  obtain l r where l: "gets_ref (nat (mx - 1)) inp = (l, r)" by (metis prod.exhaust)
  note ref = gets_loop_ref[OF g l]
  have m': "m' = m1(buf + int j := NUL)" "rest = inp1"
    using assms(2) g by (auto simp: gets_def)
  have len: "int (length l) < mx" using ref assms(1) by auto
  have "bytes_at m' buf (length l) = l"
    by (rule nth_equalityI) (use ref m' in auto)
  moreover have "\<forall>a. \<not> (buf \<le> a \<and> a < buf + mx) \<longrightarrow> m' a = m a"
    using ref m' len by auto
  ultimately show ?thesis
    using ref m' l len gets_ref_split[OF l] by auto
qed

theorem gets_correct_witness:
  "\<exists>l. gets_ref (nat (4 - 1)) [97, NL, 98] = (l, [98]) \<and> [97, NL, 98] = l @ [98] \<and> int (length l) < 4 \<and>
     bytes_at ((\<lambda>_. 1)(0 := 97, 1 := NL, 2 := NUL)) 0 (length l) = l \<and>
     ((\<lambda>_. 1)(0 := 97, 1 := NL, 2 := NUL)) (0 + int (length l)) = NUL \<and>
     (\<forall>a. \<not> (0 \<le> a \<and> a < (0::int) + 4) \<longrightarrow> ((\<lambda>_. 1)(0 := 97, 1 := NL, 2 := NUL)) a = (\<lambda>_. 1 :: byte) a)"
  by (rule gets_correct) (simp_all add: gets_def numeral_3_eq_3)

text \<open>The value of a decimal numeral, most significant digit first.\<close>

definition decimal :: "nat list \<Rightarrow> nat" where
  "decimal ds = foldl (\<lambda>a d. a * 10 + d) 0 ds"

definition digit_bytes :: "nat list \<Rightarrow> byte list" where
  "digit_bytes ds = map (\<lambda>d. of_nat (48 + d)) ds"

definition is_digit :: "byte \<Rightarrow> bool" where
  "is_digit c \<longleftrightarrow> 48 \<le> schar c \<and> schar c \<le> 57"

lemma sint_digit: "d < 10 \<Longrightarrow> sint (of_nat (48 + d) :: byte) = 48 + int d"
  by (subst sint_of_nat_small) auto

lemma foldl_of_nat:
  "foldl (\<lambda>a d. a * 10 + of_nat d) (of_nat n :: u32) ds = of_nat (foldl (\<lambda>a d. a * 10 + d) n ds)"
proof (induction ds arbitrary: n)
  case (Cons d ds)
  have "of_nat n * 10 + of_nat d = (of_nat (n * 10 + d) :: u32)" by simp
  then show ?case using Cons.IH[of "n * 10 + d"] by (simp only: foldl.simps)
qed simp

lemma atoi_loop_digits:
  "bytes_at m s (length ds) = digit_bytes ds \<Longrightarrow> \<forall>d \<in> set ds. d < 10 \<Longrightarrow>
   \<not> is_digit (m (s + int (length ds))) \<Longrightarrow>
   atoi_loop m s n = Some (foldl (\<lambda>a d. a * 10 + of_nat d) n ds)"
proof (induction ds arbitrary: s n)
  case Nil
  then show ?case by (subst atoi_loop.simps) (auto simp: is_digit_def)
next
  case (Cons d ds)
  have d: "d < 10" using Cons.prems(2) by simp
  have ms: "m s = of_nat (48 + d)" and rest: "bytes_at m (s + 1) (length ds) = digit_bytes ds"
    using Cons.prems(1) by (simp_all only: digit_bytes_def list.size bytes_at.simps list.map list.inject add_Suc_right add_0_right)
  have si: "sint (m s) = 48 + int d" unfolding ms by (rule sint_digit[OF d])
  have "scast (m s) = (of_int (sint (m s)) :: u32)" by simp
  then have sc: "n * 10 + scast (m s) - 48 = (n * 10 + of_nat d :: u32)"
    unfolding si by simp
  have nd: "\<not> is_digit (m (s + 1 + int (length ds)))"
    using Cons.prems(3) by (simp add: add.assoc)
  have "atoi_loop m (s + 1) (n * 10 + of_nat d)
        = Some (foldl (\<lambda>a d. a * 10 + of_nat d) (n * 10 + of_nat d) ds)"
    using Cons.prems(2) by (intro Cons.IH[OF rest _ nd]) simp
  then show ?case
    using d by (simp only: atoi_loop.simps[of m s n] si sc) simp
qed

text \<open>
  \<open>atoi\<close> (\<open>ulib.c\<close>) on a run of decimal digits that is not followed by another digit
  returns the number they denote, when that number fits in an \<open>int\<close>.
\<close>

theorem atoi_decimal:
  assumes "bytes_at m s (length ds) = digit_bytes ds" and "\<forall>d \<in> set ds. d < 10"
    and "\<not> is_digit (m (s + int (length ds)))" and "decimal ds < 2 ^ 31"
  shows "atoi m s = Some (int (decimal ds))"
proof -
  have "atoi_loop m s 0 = Some (of_nat (decimal ds))"
    using atoi_loop_digits[OF assms(1-3), of 0] foldl_of_nat[of 0 ds] by (simp add: decimal_def)
  moreover have "sint (of_nat (decimal ds) :: u32) = int (decimal ds)"
    using assms(4) by (subst sint_of_nat_small) auto
  ultimately show ?thesis by (simp add: atoi_def)
qed

theorem atoi_decimal_witness:
  "atoi ((\<lambda>_. 0)(0 := 52, 1 := 50)) 0 = Some (int (decimal [4, 2]))"
  by (rule atoi_decimal) (simp_all add: digit_bytes_def decimal_def is_digit_def)

end
