(* ===== verification/Printf.thy ===== *)
theory Printf
  imports Cstring
begin

text \<open>
  Formatted output: \<open>printint\<close> and \<open>printf\<close> of user programs (\<open>printf.c\<close>) and \<open>printint\<close> and
  the format loop of the kernel's \<open>cprintf\<close> (\<open>console.c\<close>). The value of each function is the
  sequence of bytes it puts out. Variable arguments are the 32-bit words on the stack after
  the format; \<open>deref\<close> gives the C string at an address.
\<close>

text \<open>The digits of a number, least significant first, as the \<open>do\<close> loop stores them in \<open>buf\<close>.\<close>

function digit_loop :: "nat \<Rightarrow> nat \<Rightarrow> nat list" where
  "digit_loop base x =
     (x mod base) # (if x div base \<noteq> 0 \<and> 1 < base then digit_loop base (x div base) else [])"
  by pat_completeness auto
termination
  by (relation "measure snd") (auto intro: div_less_dividend simp: div_greater_zero_iff)

declare digit_loop.simps [simp del]

definition printint_buf :: "string \<Rightarrow> u32 \<Rightarrow> nat \<Rightarrow> bool \<Rightarrow> byte list" where
  "printint_buf digits xx base sg =
     (let neg = (sg \<and> sint xx < 0);
          x = (if neg then - xx else xx)
      in map (\<lambda>d. bytes_of digits ! d) (digit_loop base (unat x)) @ (if neg then [45] else []))"

definition printint :: "u32 \<Rightarrow> nat \<Rightarrow> bool \<Rightarrow> byte list" where
  "printint xx base sg = rev (printint_buf ''0123456789ABCDEF'' xx base sg)"

definition kprintint :: "u32 \<Rightarrow> nat \<Rightarrow> bool \<Rightarrow> byte list" where
  "kprintint xx base sg = rev (printint_buf ''0123456789abcdef'' xx base sg)"

text \<open>User-level \<open>printf\<close>: the flag is the variable \<open>state\<close> (true for \<open>'%'\<close>).\<close>

fun printf :: "(u32 \<Rightarrow> byte list) \<Rightarrow> bool \<Rightarrow> byte list \<Rightarrow> (nat \<Rightarrow> u32) \<Rightarrow> byte list" where
  "printf deref state [] ap = []"
| "printf deref False (c # fmt) ap =
     (if c = 37 then printf deref True fmt ap
      else c # printf deref False fmt ap)"
| "printf deref True (c # fmt) ap =
     (if c = 100 then printint (ap 0) 10 True @ printf deref False fmt (\<lambda>i. ap (Suc i))
      else if c = 120 \<or> c = 112 then printint (ap 0) 16 False @ printf deref False fmt (\<lambda>i. ap (Suc i))
      else if c = 115 then
        (if ap 0 = 0 then bytes_of ''(null)'' else deref (ap 0)) @ printf deref False fmt (\<lambda>i. ap (Suc i))
      else if c = 99 then ucast (ap 0) # printf deref False fmt (\<lambda>i. ap (Suc i))
      else if c = 37 then c # printf deref False fmt ap
      else 37 # c # printf deref False fmt ap)"

text \<open>The kernel's format loop: a lone \<open>%\<close> at the end of the format ends the output.\<close>

fun cprintf_out :: "(u32 \<Rightarrow> byte list) \<Rightarrow> byte list \<Rightarrow> (nat \<Rightarrow> u32) \<Rightarrow> byte list" where
  "cprintf_out deref [] ap = []"
| "cprintf_out deref [c] ap = (if c \<noteq> 37 then [c] else [])"
| "cprintf_out deref (c # d # fmt) ap =
     (if c \<noteq> 37 then c # cprintf_out deref (d # fmt) ap
      else if d = 100 then kprintint (ap 0) 10 True @ cprintf_out deref fmt (\<lambda>i. ap (Suc i))
      else if d = 120 \<or> d = 112 then kprintint (ap 0) 16 False @ cprintf_out deref fmt (\<lambda>i. ap (Suc i))
      else if d = 115 then
        (if ap 0 = 0 then bytes_of ''(null)'' else deref (ap 0)) @ cprintf_out deref fmt (\<lambda>i. ap (Suc i))
      else if d = 37 then 37 # cprintf_out deref fmt ap
      else 37 # d # cprintf_out deref fmt ap)"

section \<open>Digits\<close>

lemma digit_loop_less: "0 < base \<Longrightarrow> \<forall>d \<in> set (digit_loop base x). d < base"
proof (induction base x rule: digit_loop.induct)
  case (1 base x)
  have "set (digit_loop base x) \<subseteq> insert (x mod base)
          (if x div base \<noteq> 0 \<and> 1 < base then set (digit_loop base (x div base)) else {})"
    by (subst digit_loop.simps) auto
  moreover have "x mod base < base" using "1.prems" by simp
  moreover have "\<forall>d \<in> (if x div base \<noteq> 0 \<and> 1 < base then set (digit_loop base (x div base)) else {}). d < base"
    using "1.IH"[OF _ "1.prems"] by (cases "x div base \<noteq> 0 \<and> 1 < base") (simp_all only: if_True if_False ball_empty simp_thms True_implies_equals)
  ultimately show ?case by blast
qed

lemma decimal_snoc: "decimal (ds @ [d]) = decimal ds * 10 + d"
  by (simp add: decimal_def)

lemma decimal_digit_loop: "decimal (rev (digit_loop 10 x)) = x"
proof (induction "10 :: nat" x rule: digit_loop.induct)
  case (1 x)
  then show ?case
    by (subst digit_loop.simps) (auto simp: decimal_snoc div_eq_0_iff, simp add: decimal_def)
qed

lemma length_digit_loop: "1 < base \<Longrightarrow> x < base ^ Suc n \<Longrightarrow> length (digit_loop base x) \<le> Suc n"
proof (induction n arbitrary: x)
  case 0
  then show ?case by (subst digit_loop.simps) simp
next
  case (Suc n)
  have "x div base < base ^ Suc n"
    using Suc.prems by (intro less_mult_imp_div_less) (simp add: mult.commute)
  with Suc.IH Suc.prems(1) show ?case by (subst digit_loop.simps) auto
qed

lemma digit_table: "d < 10 \<Longrightarrow> bytes_of ''0123456789ABCDEF'' ! d = of_nat (48 + d)"
  "d < 10 \<Longrightarrow> bytes_of ''0123456789abcdef'' ! d = of_nat (48 + d)"
  by (auto simp: less_Suc_eq numeral_eq_Suc bytes_of_def)

lemma printint_buf_decimal:
  assumes "digits = ''0123456789ABCDEF'' \<or> digits = ''0123456789abcdef''"
  shows "map (\<lambda>d. bytes_of digits ! d) (digit_loop 10 x) = digit_bytes (digit_loop 10 x)"
  using assms digit_loop_less[of 10 x] by (auto simp: digit_bytes_def digit_table)

text \<open>
  \<open>printint\<close> of \<open>printf.c\<close> in base 10 prints the exact decimal numeral of any \<open>int\<close>, with a
  minus sign exactly for negative numbers, the most negative one included.
\<close>

theorem printint_signed_decimal:
  "\<exists>ds. list_all (\<lambda>d. d < 10) ds \<and>
     printint xx 10 True = (if sint xx < 0 then [45] else []) @ digit_bytes ds \<and>
     int (decimal ds) = \<bar>sint xx\<bar>"
proof -
  let ?x = "if sint xx < 0 then - xx else xx"
  have abs: "int (unat ?x) = \<bar>sint xx\<bar>"
  proof (cases "sint xx < 0")
    case True
    have "- (2 ^ 31) \<le> sint xx" using sint_ge[of xx] by simp
    have "- xx = word_of_int (- sint xx)" by simp
    then have "uint (- xx) = (- sint xx) mod 2 ^ 32" by (simp only: uint_word_of_int) simp
    then have "uint (- xx) = - sint xx"
      using True \<open>- (2 ^ 31) \<le> sint xx\<close> by (simp add: mod_pos_pos_trivial)
    then show ?thesis using True by simp
  next
    case False
    have "uint (word_of_int (sint xx) :: u32) = sint xx mod 2 ^ 32"
      by (simp only: uint_word_of_int) simp
    then have "uint xx = sint xx mod 2 ^ 32" by simp
    then have "sint xx = uint xx"
      using False sint_lt[of xx] by (simp add: mod_pos_pos_trivial)
    then show ?thesis using False by simp
  qed
  have "printint xx 10 True = (if sint xx < 0 then [45] else []) @ rev (digit_bytes (digit_loop 10 (unat ?x)))"
    by (simp add: printint_def printint_buf_def Let_def printint_buf_decimal)
  then show ?thesis
    using abs digit_loop_less[of 10 "unat ?x"]
    by (intro exI[of _ "rev (digit_loop 10 (unat ?x))"])
       (auto simp: decimal_digit_loop digit_bytes_def rev_map list_all_iff)
qed

lemma printint_nonneg:
  assumes "0 \<le> sint xx"
  shows "\<exists>ds. (\<forall>d \<in> set ds. d < 10) \<and> printint xx 10 True = digit_bytes ds \<and> int (decimal ds) = sint xx"
proof -
  have "uint (word_of_int (sint xx) :: u32) = sint xx mod 2 ^ 32"
    by (simp only: uint_word_of_int) simp
  then have u: "uint xx = sint xx"
    using assms sint_lt[of xx] by (simp add: mod_pos_pos_trivial)
  have "printint xx 10 True = rev (digit_bytes (digit_loop 10 (unat xx)))"
    using assms by (simp add: printint_def printint_buf_def Let_def printint_buf_decimal)
  then show ?thesis
    using u digit_loop_less[of 10 "unat xx"]
    by (intro exI[of _ "rev (digit_loop 10 (unat xx))"])
       (simp add: decimal_digit_loop digit_bytes_def rev_map)
qed

text \<open>
  the two conversions are inverse on non-negative numbers: \<open>atoi\<close> (\<open>ulib.c\<close>) on the bytes
  that \<open>printf("%d")\<close> puts out, not followed by a digit, returns the number printed.
\<close>

theorem atoi_printint_roundtrip:
  assumes "0 \<le> sint xx" and "bytes_at m s (length (printint xx 10 True)) = printint xx 10 True"
    and "\<not> is_digit (m (s + int (length (printint xx 10 True))))"
  shows "atoi m s = Some (sint xx)"
proof -
  from printint_nonneg[OF assms(1)] obtain ds where
    ds: "\<forall>d \<in> set ds. d < 10" "printint xx 10 True = digit_bytes ds" "int (decimal ds) = sint xx" by blast
  have len: "length (printint xx 10 True) = length ds" using ds(2) by (simp add: digit_bytes_def)
  have "decimal ds < 2 ^ 31" using ds(3) sint_lt[of xx] by simp
  from atoi_decimal[OF _ ds(1) _ this] show ?thesis
    using assms(2,3) ds len by simp
qed

lemma digit_loop_42: "digit_loop 10 42 = [2, 4]"
  by (simp add: digit_loop.simps)

theorem atoi_printint_roundtrip_witness:
  "atoi ((\<lambda>_. 0)(0 := 52, 1 := 50)) 0 = Some (sint (42 :: u32))"
  by (rule atoi_printint_roundtrip)
     (simp_all add: printint_def printint_buf_def digit_loop_42 bytes_of_def is_digit_def)

text \<open>
  \<open>printint\<close> of \<open>printf.c\<close> and of \<open>console.c\<close>, in the two bases they are called with, never
  stores past the 16 bytes of its stack buffer.
\<close>

theorem printint_buf_bound:
  assumes "base = 10 \<or> base = 16"
  shows "length (printint_buf digits xx base sg) \<le> 16"
proof -
  have lt: "unat y < base ^ Suc 9" for y :: u32
  proof -
    have "unat y < 2 ^ 32" by (rule unat_less_2p32)
    also have "(2 :: nat) ^ 32 \<le> base ^ Suc 9" using assms by auto
    finally show ?thesis .
  qed
  have "length (digit_loop base (unat y)) \<le> 10" for y :: u32
    using length_digit_loop[OF _ lt] assms by force
  from this[of xx] this[of "- xx"] show ?thesis by (simp add: printint_buf_def Let_def)
qed

theorem printint_buf_bound_witness:
  "length (printint_buf ''0123456789ABCDEF'' 42 10 True) \<le> 16"
  by (rule printint_buf_bound) simp

end
