(* ===== verification/Ring_Buffer.thy ===== *)
theory Ring_Buffer
  imports Xv6_Prelude
begin

text \<open>
  Ring buffers addressed by free-running 32-bit counters, as \<open>pipe.c\<close> (512 bytes) and the
  input queue of \<open>console.c\<close> (128 bytes) use them: an element lives at its counter modulo the
  size of the buffer, and the counters wrap around at 2 to the 32. The interface is the locale
  \<open>ring\<close>, whose laws hold because the size divides 2 to the 32; the two components interpret
  it at their own sizes.
\<close>

text \<open>The bytes between two counters, oldest first.\<close>

definition ring_list :: "nat \<Rightarrow> (nat \<Rightarrow> byte) \<Rightarrow> u32 \<Rightarrow> u32 \<Rightarrow> byte list" where
  "ring_list N buf r w = map (\<lambda>i. buf (unat (r + of_nat i) mod N)) [0..<unat (w - r)]"

lemma length_ring_list [simp]: "length (ring_list N buf r w) = unat (w - r)"
  by (simp add: ring_list_def)

lemma ring_list_empty [simp]: "ring_list N buf r r = []"
  by (simp add: ring_list_def)

lemma ring_list_Nil_iff [simp]: "ring_list N buf r w = [] \<longleftrightarrow> r = w"
  by (auto simp flip: length_0_conv simp: unat_eq_0)

lemma unat_diff_Suc: "(w :: u32) \<noteq> r - 1 \<Longrightarrow> unat (w + 1 - r) = Suc (unat (w - r))"
proof -
  assume "w \<noteq> r - 1"
  then have "1 + (w - r) \<noteq> 0" by (auto simp: algebra_simps eq_neg_iff_add_eq_0)
  then have "unat (1 + (w - r)) = Suc (unat (w - r))" by (rule unatSuc)
  then show ?thesis by (simp add: algebra_simps)
qed

lemma unat_diff_pred: "(w :: u32) \<noteq> r \<Longrightarrow> unat (w - r) = Suc (unat (w - (r + 1)))"
  using unat_diff_Suc[of "w - 1" r] by (simp add: algebra_simps)

lemma ring_list_Cons:
  assumes "r \<noteq> w"
  shows "ring_list N buf r w = buf (unat r mod N) # ring_list N buf (r + 1) w"
proof -
  have "unat (w - r) = Suc (unat (w - (r + 1)))"
    using assms by (intro unat_diff_pred) auto
  then show ?thesis
    by (simp add: ring_list_def upt_conv_Cons map_Suc_upt[symmetric] algebra_simps del: upt_Suc)
qed

lemma ring_list_snoc:
  assumes "w \<noteq> r - 1"
  shows "ring_list N buf r (w + 1) = ring_list N buf r w @ [buf (unat w mod N)]"
  using unat_diff_Suc[OF assms] by (simp add: ring_list_def)

lemma ring_list_butlast:
  assumes "r \<noteq> e"
  shows "ring_list N buf r e = ring_list N buf r (e - 1) @ [buf (unat (e - 1) mod N)]"
  using ring_list_snoc[of "e - 1" r N buf] assms by (auto simp: algebra_simps)

lemma ring_list_split:
  assumes "unat (w - r) \<le> unat (e - r)"
  shows "ring_list N buf r e = ring_list N buf r w @ ring_list N buf w e"
proof -
  have "unat (e - r) = unat (w - r) + unat (e - w)"
    using unat_sub[of "w - r" "e - r"] assms by (simp add: word_le_nat_alt)
  moreover have "r + of_nat (unat (w - r) + i) = w + of_nat i" for i
    by simp
  ultimately show ?thesis
    by (auto simp: ring_list_def intro!: nth_equalityI simp: nth_append add.commute)
qed

locale ring =
  fixes N :: nat
  assumes N_pos: "0 < N" and N_dvd: "N dvd 2 ^ 32"
begin

lemma slot_add: "unat (r + of_nat i :: u32) mod N = (unat r + i) mod N"
proof -
  have "unat (r + of_nat i :: u32) = (unat r + i) mod 2 ^ 32"
    by (simp add: unat_word_ariths unat_of_nat mod_add_right_eq)
  then show ?thesis using N_dvd by (simp add: mod_mod_cancel)
qed

lemma slot_distinct:
  assumes "i < j" and "j - i < N"
  shows "unat (r + of_nat i :: u32) mod N \<noteq> unat (r + of_nat j :: u32) mod N"
proof
  assume "unat (r + of_nat i :: u32) mod N = unat (r + of_nat j :: u32) mod N"
  then have "(unat r + i) mod N = (unat r + j) mod N" by (simp only: slot_add)
  then have "N dvd (unat r + j) - (unat r + i)"
    using mod_eq_dvd_iff_nat[of "unat r + i" "unat r + j" N] assms(1) by auto
  then show False using assms N_pos by (auto dest: dvd_imp_le)
qed

text \<open>Storing at the write counter leaves the queued bytes alone while the ring is not full.\<close>

lemma ring_store:
  assumes "unat (w - r) < N"
  shows "ring_list N (buf(unat w mod N := c)) r w = ring_list N buf r w"
proof -
  have "unat (r + of_nat i) mod N \<noteq> unat w mod N" if "i < unat (w - r)" for i
    using slot_distinct[of i "unat (w - r)" r] that assms by auto
  then show ?thesis by (auto simp: ring_list_def)
qed

lemma ring_push:
  assumes "unat (w - r) < N" and "N < 2 ^ 32"
  shows "ring_list N (buf(unat w mod N := c)) r (w + 1) = ring_list N buf r w @ [c]"
proof -
  have "w \<noteq> r - 1"
  proof
    assume "w = r - 1"
    then have "unat (w - r) = unat (- 1 :: u32)" by simp
    also have "\<dots> = 2 ^ 32 - 1" by (simp add: unsigned_minus_1_eq_mask mask_eq_exp_minus_1)
    finally show False using assms by simp
  qed
  then show ?thesis using ring_store[OF assms(1)] by (simp add: ring_list_snoc)
qed

end

end
