(* ===== verification/Pipe.thy ===== *)
theory Pipe
  imports Ring_Buffer
begin

text \<open>
  Pipes (\<open>pipe.c\<close>). A call runs under the pipe's lock until it returns or sleeps, so one
  uninterrupted run is one function; a call that slept is resumed by running it again on the
  bytes it still has. Concurrent readers and writers are the interleavings of such runs: the
  step relation \<open>pipe_step\<close>, whose invariant is that the bytes read so far followed by the
  bytes in the ring are the bytes written so far, for ever-growing counters that wrap around.
\<close>

abbreviation PIPESIZE :: nat where "PIPESIZE \<equiv> 512"

record pipe =
  pdata :: "nat \<Rightarrow> byte"
  nread :: u32
  nwrite :: u32
  readopen :: bool
  writeopen :: bool

text \<open>How a run ends: the call returns a value, or the process sleeps.\<close>

datatype run = Return int | Sleep

text \<open>The fields \<open>pipealloc\<close> sets (the page itself comes from \<open>kalloc\<close>).\<close>

definition pipe_init :: "(nat \<Rightarrow> byte) \<Rightarrow> pipe" where
  "pipe_init junk = \<lparr>pdata = junk, nread = 0, nwrite = 0, readopen = True, writeopen = True\<rparr>"

text \<open>
  \<open>pipeclose\<close>: the new pipe, the channels woken (the readers' \<open>nread\<close>, the writers'
  \<open>nwrite\<close>), and whether the page is freed.
\<close>

definition pipeclose :: "pipe \<Rightarrow> bool \<Rightarrow> pipe \<times> bool \<times> bool \<times> bool" where
  "pipeclose p writable =
     (let p' = (if writable then p\<lparr>writeopen := False\<rparr> else p\<lparr>readopen := False\<rparr>)
      in (p', writable, \<not> writable, \<not> readopen p' \<and> \<not> writeopen p'))"

text \<open>
  \<open>pipewrite\<close>: the bytes not yet copied, the way the run ends, and whether the readers are
  woken. The early return leaves the readers asleep.
\<close>

fun pipewrite_loop :: "bool \<Rightarrow> int \<Rightarrow> byte list \<Rightarrow> pipe \<Rightarrow> pipe \<times> byte list \<times> run \<times> bool" where
  "pipewrite_loop killed n [] p = (p, [], Return n, True)"
| "pipewrite_loop killed n (b # bs) p =
     (if nwrite p = nread p + of_nat PIPESIZE then
        (if \<not> readopen p \<or> killed then (p, b # bs, Return (- 1), False)
         else (p, b # bs, Sleep, True))
      else pipewrite_loop killed n bs
             (p\<lparr>pdata := (pdata p)(unat (nwrite p) mod PIPESIZE := b), nwrite := nwrite p + 1\<rparr>))"

definition pipewrite :: "bool \<Rightarrow> byte list \<Rightarrow> pipe \<Rightarrow> pipe \<times> byte list \<times> run \<times> bool" where
  "pipewrite killed addr p = pipewrite_loop killed (int (length addr)) addr p"

text \<open>\<open>piperead\<close>: the bytes copied out, the way the run ends, whether the writers are woken.\<close>

fun piperead_loop :: "nat \<Rightarrow> pipe \<Rightarrow> pipe \<times> byte list" where
  "piperead_loop 0 p = (p, [])"
| "piperead_loop (Suc n) p =
     (if nread p = nwrite p then (p, [])
      else let (p', bs) = piperead_loop n (p\<lparr>nread := nread p + 1\<rparr>)
           in (p', pdata p (unat (nread p) mod PIPESIZE) # bs))"

definition piperead :: "bool \<Rightarrow> int \<Rightarrow> pipe \<Rightarrow> pipe \<times> byte list \<times> run \<times> bool" where
  "piperead killed n p =
     (if nread p = nwrite p \<and> writeopen p then
        (if killed then (p, [], Return (- 1), False) else (p, [], Sleep, False))
      else let (p', bs) = piperead_loop (nat n) p
           in (p', bs, Return (int (length bs)), True))"

section \<open>A pipe and the processes around it\<close>

text \<open>
  Some process sleeps on \<open>nwrite\<close> (\<open>wsleep\<close>), some on \<open>nread\<close> (\<open>rsleep\<close>); \<open>sent\<close> and \<open>got\<close>
  record every byte copied in and out. A wake-up wakes every sleeper of the channel.
\<close>

record pipe_sys =
  the_pipe :: pipe
  wsleep :: bool
  rsleep :: bool
  sent :: "byte list"
  got :: "byte list"

definition pipe_sys_init :: "(nat \<Rightarrow> byte) \<Rightarrow> pipe_sys" where
  "pipe_sys_init junk = \<lparr>the_pipe = pipe_init junk, wsleep = False, rsleep = False, sent = [], got = []\<rparr>"

definition do_write :: "bool \<Rightarrow> int \<Rightarrow> byte list \<Rightarrow> pipe_sys \<Rightarrow> pipe_sys" where
  "do_write killed n bs s =
     (case pipewrite_loop killed n bs (the_pipe s) of (p', rest, out, wake) \<Rightarrow>
        s\<lparr>the_pipe := p',
          sent := sent s @ take (length bs - length rest) bs,
          rsleep := (rsleep s \<and> \<not> wake),
          wsleep := (wsleep s \<or> out = Sleep)\<rparr>)"

definition do_read :: "bool \<Rightarrow> int \<Rightarrow> pipe_sys \<Rightarrow> pipe_sys" where
  "do_read killed n s =
     (case piperead killed n (the_pipe s) of (p', bs, out, wake) \<Rightarrow>
        s\<lparr>the_pipe := p', got := got s @ bs,
          wsleep := (wsleep s \<and> \<not> wake),
          rsleep := (rsleep s \<or> out = Sleep)\<rparr>)"

definition do_close :: "bool \<Rightarrow> pipe_sys \<Rightarrow> pipe_sys" where
  "do_close writable s =
     (case pipeclose (the_pipe s) writable of (p', wake_r, wake_w, _) \<Rightarrow>
        s\<lparr>the_pipe := p', rsleep := (rsleep s \<and> \<not> wake_r), wsleep := (wsleep s \<and> \<not> wake_w)\<rparr>)"

text \<open>
  One step is one run of one process; the flag says whether that process has been killed. A
  call goes through an open file of its end, and an end is closed when the last reference to
  its file goes, so nobody sleeps in a call on it.
\<close>

inductive pipe_step :: "bool \<Rightarrow> pipe_sys \<Rightarrow> pipe_sys \<Rightarrow> bool" where
  step_write: "writeopen (the_pipe s) \<Longrightarrow> pipe_step killed s (do_write killed n bs s)"
| step_read: "readopen (the_pipe s) \<Longrightarrow> pipe_step killed s (do_read killed n s)"
| step_close: "\<not> (if writable then wsleep s else rsleep s) \<Longrightarrow> pipe_step killed s (do_close writable s)"

text \<open>Reachable states; \<open>kill\<close> says whether calls of killed processes are among the steps.\<close>

inductive pipe_reach :: "bool \<Rightarrow> pipe_sys \<Rightarrow> bool" for kill where
  reach_init: "pipe_reach kill (pipe_sys_init junk)"
| reach_step: "pipe_reach kill s \<Longrightarrow> pipe_step killed s t \<Longrightarrow> (killed \<longrightarrow> kill) \<Longrightarrow> pipe_reach kill t"

inductive_cases pipe_stepE: "pipe_step killed s t"

section \<open>The ring laws at 512 bytes\<close>

interpretation pipe_ring: ring PIPESIZE
  by unfold_locales simp_all

definition pipe_queue :: "pipe \<Rightarrow> byte list" where
  "pipe_queue p = ring_list PIPESIZE (pdata p) (nread p) (nwrite p)"

definition pipe_inv :: "pipe \<Rightarrow> bool" where
  "pipe_inv p \<longleftrightarrow> unat (nwrite p - nread p) \<le> PIPESIZE"

lemma length_pipe_queue: "length (pipe_queue p) = unat (nwrite p - nread p)"
  by (simp add: pipe_queue_def)

lemma pipe_full_iff: "nwrite p = nread p + 512 \<longleftrightarrow> length (pipe_queue p) = 512"
proof -
  have "nwrite p = nread p + 512 \<longleftrightarrow> nwrite p - nread p = 512" by (auto simp: algebra_simps)
  then show ?thesis by (simp add: length_pipe_queue word_unat_eq_iff)
qed

lemma pipewrite_loop_spec:
  "pipe_inv p \<Longrightarrow> pipewrite_loop killed n bs p = (p', rest, out, wake) \<Longrightarrow>
   \<exists>done. bs = done @ rest \<and> pipe_inv p' \<and> pipe_queue p' = pipe_queue p @ done \<and>
     length done = min (length bs) (512 - length (pipe_queue p)) \<and>
     nread p' = nread p \<and> readopen p' = readopen p \<and> writeopen p' = writeopen p \<and>
     (out = (if rest = [] then Return n else if \<not> readopen p \<or> killed then Return (- 1) else Sleep)) \<and>
     (wake \<longleftrightarrow> rest = [] \<or> (readopen p \<and> \<not> killed)) \<and>
     (rest \<noteq> [] \<longrightarrow> nwrite p' = nread p' + 512)"
proof (induction killed n bs p arbitrary: p' rest out wake rule: pipewrite_loop.induct)
  case (1 killed n p)
  then show ?case by auto
next
  case (2 killed n b bs p)
  show ?case
  proof (cases "nwrite p = nread p + 512")
    case True
    then have "length (pipe_queue p) = 512" by (simp only: pipe_full_iff)
    with True "2.prems" show ?thesis by (auto split: if_splits)
  next
    case False
    let ?p = "p\<lparr>pdata := (pdata p)(unat (nwrite p) mod PIPESIZE := b), nwrite := nwrite p + 1\<rparr>"
    have lt: "length (pipe_queue p) < 512"
      using False "2.prems"(1) by (simp add: pipe_full_iff pipe_inv_def length_pipe_queue)
    have q: "pipe_queue ?p = pipe_queue p @ [b]"
      using pipe_ring.ring_push[of "nwrite p" "nread p"] lt
      by (simp add: length_pipe_queue) (simp add: pipe_queue_def)
    have inv: "pipe_inv ?p"
      using lt length_pipe_queue[of ?p] q by (simp add: pipe_inv_def)
    have run: "pipewrite_loop killed n bs ?p = (p', rest, out, wake)"
      using False "2.prems"(2) by simp
    have False': "\<not> nwrite p = nread p + word_of_nat PIPESIZE" using False by simp
    from "2.IH"[OF False' inv run] obtain d where
      "bs = d @ rest" "pipe_inv p'" "pipe_queue p' = pipe_queue ?p @ d"
      "length d = min (length bs) (512 - length (pipe_queue ?p))" and
      others: "nread p' = nread ?p" "readopen p' = readopen ?p" "writeopen p' = writeopen ?p"
      "out = (if rest = [] then Return n else if \<not> readopen ?p \<or> killed then Return (- 1) else Sleep)"
      "wake \<longleftrightarrow> rest = [] \<or> (readopen ?p \<and> \<not> killed)" "rest \<noteq> [] \<longrightarrow> nwrite p' = nread p' + 512"
      by blast
    then have "b # bs = (b # d) @ rest" "pipe_queue p' = pipe_queue p @ (b # d)"
      "length (b # d) = min (length (b # bs)) (512 - length (pipe_queue p))"
      using q lt by auto
    then show ?thesis using \<open>pipe_inv p'\<close> others by (intro exI[of _ "b # d"]) simp
  qed
qed

lemma piperead_loop_spec:
  "piperead_loop n p = (p', bs) \<Longrightarrow>
   bs = take n (pipe_queue p) \<and> pipe_queue p' = drop n (pipe_queue p) \<and>
   unat (nwrite p' - nread p') = unat (nwrite p - nread p) - length bs \<and>
   readopen p' = readopen p \<and> writeopen p' = writeopen p"
proof (induction n p arbitrary: p' bs rule: piperead_loop.induct)
  case (2 n p)
  show ?case
  proof (cases "nread p = nwrite p")
    case True
    with "2.prems" show ?thesis by (auto simp: pipe_queue_def)
  next
    case False
    obtain p1 b1 where r: "piperead_loop n (p\<lparr>nread := nread p + 1\<rparr>) = (p1, b1)"
      by (metis prod.exhaust)
    have q: "pipe_queue p = pdata p (unat (nread p) mod PIPESIZE) # pipe_queue (p\<lparr>nread := nread p + 1\<rparr>)"
      using False by (simp add: pipe_queue_def ring_list_Cons)
    have "unat (nwrite p - nread p) = Suc (unat (nwrite p - (nread p + 1)))"
      using False by (intro unat_diff_pred) auto
    then show ?thesis
      using "2.IH"[OF False r] "2.prems" False r q by (auto simp: Let_def)
  qed
qed auto

lemma piperead_spec:
  assumes "piperead killed n p = (p', bs, out, wake)"
  shows "bs = (if out = Return (int (length bs)) then take (nat n) (pipe_queue p) else []) \<and>
     pipe_queue p = bs @ pipe_queue p' \<and>
     (out = Sleep \<longleftrightarrow> pipe_queue p = [] \<and> writeopen p \<and> \<not> killed) \<and>
     (out = Return (- 1) \<longleftrightarrow> pipe_queue p = [] \<and> writeopen p \<and> killed) \<and>
     (wake \<longleftrightarrow> \<not> (pipe_queue p = [] \<and> writeopen p)) \<and>
     readopen p' = readopen p \<and> writeopen p' = writeopen p"
proof (cases "nread p = nwrite p \<and> writeopen p")
  case True
  with assms show ?thesis by (auto simp: piperead_def pipe_queue_def split: if_splits)
next
  case False
  obtain p1 b1 where r: "piperead_loop (nat n) p = (p1, b1)" by (metis prod.exhaust)
  with assms False have e: "p' = p1" "bs = b1" "out = Return (int (length b1))" "wake"
    by (auto simp: piperead_def)
  have "\<not> (pipe_queue p = [] \<and> writeopen p)" using False by (simp add: pipe_queue_def)
  with e piperead_loop_spec[OF r] show ?thesis
    by (auto simp del: length_take)
qed

section \<open>Properties of the concurrent system\<close>

definition pipe_fifo :: "pipe_sys \<Rightarrow> bool" where
  "pipe_fifo s \<longleftrightarrow> sent s = got s @ pipe_queue (the_pipe s) \<and> length (pipe_queue (the_pipe s)) \<le> 512"

lemma pipe_inv_length: "pipe_inv p \<longleftrightarrow> length (pipe_queue p) \<le> 512"
  by (simp add: pipe_inv_def length_pipe_queue)

lemma pipe_fifo_write:
  assumes "pipe_fifo s" shows "pipe_fifo (do_write killed n bs s)"
proof -
  obtain p' rest out wake where r: "pipewrite_loop killed n bs (the_pipe s) = (p', rest, out, wake)"
    by (metis prod_cases4)
  have inv: "pipe_inv (the_pipe s)" using assms by (simp add: pipe_fifo_def pipe_inv_length)
  from pipewrite_loop_spec[OF inv r] obtain d where
    "bs = d @ rest" "pipe_inv p'" "pipe_queue p' = pipe_queue (the_pipe s) @ d" by blast
  with assms r show ?thesis by (simp add: pipe_fifo_def do_write_def pipe_inv_length)
qed

lemma pipe_fifo_read:
  assumes "pipe_fifo s" shows "pipe_fifo (do_read killed n s)"
proof -
  obtain p' bs out wake where r: "piperead killed n (the_pipe s) = (p', bs, out, wake)"
    by (metis prod_cases4)
  from piperead_spec[OF r] have "pipe_queue (the_pipe s) = bs @ pipe_queue p'" by blast
  with assms r show ?thesis by (simp add: pipe_fifo_def do_read_def)
qed

lemma pipe_fifo_close: "pipe_fifo s \<Longrightarrow> pipe_fifo (do_close writable s)"
  by (auto simp: pipe_fifo_def do_close_def pipeclose_def pipe_queue_def Let_def)

lemma pipe_fifo_step: "pipe_step killed s t \<Longrightarrow> pipe_fifo s \<Longrightarrow> pipe_fifo t"
  by (auto elim!: pipe_stepE intro: pipe_fifo_write pipe_fifo_read pipe_fifo_close)

lemma pipe_fifo_reach: "pipe_reach kill s \<Longrightarrow> pipe_fifo s"
proof (induction rule: pipe_reach.induct)
  case (reach_init junk)
  then show ?case by (simp add: pipe_fifo_def pipe_sys_init_def pipe_init_def pipe_queue_def)
qed (rule pipe_fifo_step)

text \<open>
  C36: whatever the interleaving of readers, writers and closes, and across wrap-around of the
  32-bit counters, the bytes read from a pipe followed by the bytes it holds are exactly the
  bytes written, in order, and it never holds more than 512.
\<close>

theorem pipe_fifo_correct:
  assumes "pipe_reach kill s"
  shows "sent s = got s @ pipe_queue (the_pipe s) \<and> length (pipe_queue (the_pipe s)) \<le> 512"
  using pipe_fifo_reach[OF assms] by (simp add: pipe_fifo_def)

theorem pipe_fifo_correct_witness:
  "sent (do_write False 1 [7] (pipe_sys_init (\<lambda>_. 0))) =
     got (do_write False 1 [7] (pipe_sys_init (\<lambda>_. 0))) @
     pipe_queue (the_pipe (do_write False 1 [7] (pipe_sys_init (\<lambda>_. 0)))) \<and>
   length (pipe_queue (the_pipe (do_write False 1 [7] (pipe_sys_init (\<lambda>_. 0))))) \<le> 512"
  by (rule pipe_fifo_correct[of True], rule reach_step[OF reach_init step_write])
     (simp_all add: pipe_sys_init_def pipe_init_def)

definition sleepers_wait :: "pipe_sys \<Rightarrow> bool" where
  "sleepers_wait s \<longleftrightarrow>
     (wsleep s \<longrightarrow> length (pipe_queue (the_pipe s)) = 512 \<and> readopen (the_pipe s)) \<and>
     (rsleep s \<longrightarrow> pipe_queue (the_pipe s) = [] \<and> writeopen (the_pipe s) \<and> readopen (the_pipe s))"

lemma sleepers_write:
  assumes "pipe_fifo s" "sleepers_wait s" shows "sleepers_wait (do_write False n bs s)"
proof -
  obtain p' rest out wake where r: "pipewrite_loop False n bs (the_pipe s) = (p', rest, out, wake)"
    by (metis prod_cases4)
  have inv: "pipe_inv (the_pipe s)" using assms by (simp add: pipe_fifo_def pipe_inv_length)
  from pipewrite_loop_spec[OF inv r] obtain d where d:
    "bs = d @ rest" "pipe_inv p'" "pipe_queue p' = pipe_queue (the_pipe s) @ d"
    "length d = min (length bs) (512 - length (pipe_queue (the_pipe s)))"
    "readopen p' = readopen (the_pipe s)"
    "out = (if rest = [] then Return n else if \<not> readopen (the_pipe s) \<or> False then Return (- 1) else Sleep)"
    "wake \<longleftrightarrow> rest = [] \<or> (readopen (the_pipe s) \<and> \<not> False)"
    "rest \<noteq> [] \<longrightarrow> nwrite p' = nread p' + 512" by blast
  have full: "rest \<noteq> [] \<Longrightarrow> length (pipe_queue p') = 512" using d pipe_full_iff by blast
  have "wsleep s \<Longrightarrow> d = []" using assms(2) d(4) by (simp add: sleepers_wait_def)
  with d full assms r show ?thesis
    by (auto simp: sleepers_wait_def do_write_def)
qed

lemma sleepers_read:
  assumes "sleepers_wait s" shows "readopen (the_pipe s) \<Longrightarrow> sleepers_wait (do_read killed n s)"
proof -
  assume op: "readopen (the_pipe s)"
  obtain p' bs out wake where r: "piperead killed n (the_pipe s) = (p', bs, out, wake)"
    by (metis prod_cases4)
  from piperead_spec[OF r] have *: "pipe_queue (the_pipe s) = bs @ pipe_queue p'"
    "out = Sleep \<longleftrightarrow> pipe_queue (the_pipe s) = [] \<and> writeopen (the_pipe s) \<and> \<not> killed"
    "wake \<longleftrightarrow> \<not> (pipe_queue (the_pipe s) = [] \<and> writeopen (the_pipe s))"
    "readopen p' = readopen (the_pipe s)" "writeopen p' = writeopen (the_pipe s)" by blast+
  with assms r op show ?thesis by (auto simp: sleepers_wait_def do_read_def)
qed

lemma sleepers_close:
  assumes "sleepers_wait s" "\<not> (if writable then wsleep s else rsleep s)"
  shows "sleepers_wait (do_close writable s)"
  using assms
  by (auto simp: sleepers_wait_def do_close_def pipeclose_def pipe_queue_def Let_def split: if_splits)

lemma sleepers_step:
  "pipe_step killed s t \<Longrightarrow> \<not> killed \<Longrightarrow> pipe_fifo s \<Longrightarrow> sleepers_wait s \<Longrightarrow> sleepers_wait t"
  by (auto elim!: pipe_stepE intro: sleepers_write sleepers_read sleepers_close)

text \<open>
  C37: as long as no killed process makes a call, no wake-up is lost: a writer is asleep only
  while the pipe is full and has a reader, a reader only while it is empty and has a writer.
\<close>

theorem pipe_no_lost_wakeup:
  assumes "pipe_reach False s"
  shows "(wsleep s \<longrightarrow> length (pipe_queue (the_pipe s)) = 512 \<and> readopen (the_pipe s)) \<and>
         (rsleep s \<longrightarrow> pipe_queue (the_pipe s) = [] \<and> writeopen (the_pipe s))"
proof -
  have "sleepers_wait s"
    using assms
  proof (induction rule: pipe_reach.induct)
    case (reach_init junk)
    then show ?case by (simp add: sleepers_wait_def pipe_sys_init_def)
  next
    case (reach_step s killed t)
    then show ?case by (blast intro: sleepers_step pipe_fifo_reach)
  qed
  then show ?thesis by (auto simp: sleepers_wait_def)
qed

theorem pipe_no_lost_wakeup_witness:
  "rsleep (do_read False 1 (pipe_sys_init (\<lambda>_. 0))) \<and>
   pipe_queue (the_pipe (do_read False 1 (pipe_sys_init (\<lambda>_. 0)))) = [] \<and>
   writeopen (the_pipe (do_read False 1 (pipe_sys_init (\<lambda>_. 0))))"
proof -
  have "pipe_reach False (do_read False 1 (pipe_sys_init (\<lambda>_. 0)))"
    by (rule reach_step[OF reach_init step_read]) (simp_all add: pipe_sys_init_def pipe_init_def)
  moreover have "rsleep (do_read False 1 (pipe_sys_init (\<lambda>_. 0)))"
    by (simp add: do_read_def piperead_def pipe_sys_init_def pipe_init_def)
  ultimately show ?thesis using pipe_no_lost_wakeup by blast
qed

text \<open>
  a write by a killed process can lose a wake-up: it may fill the pipe and return -1 without
  waking the readers, so a reader stays asleep on a full pipe whose two ends are open.
\<close>

theorem pipe_killed_writer_loses_wakeup:
  "\<exists>s. pipe_reach True s \<and> rsleep s \<and> length (pipe_queue (the_pipe s)) = 512 \<and>
       readopen (the_pipe s) \<and> writeopen (the_pipe s)"
proof -
  let ?s0 = "pipe_sys_init (\<lambda>_. 0)"
  let ?s1 = "do_read False 1 ?s0"
  let ?bs = "replicate 513 (0 :: byte)"
  let ?s2 = "do_write True 513 ?bs ?s1"
  have s1: "rsleep ?s1" "the_pipe ?s1 = pipe_init (\<lambda>_. 0)"
    by (simp_all add: do_read_def piperead_def pipe_sys_init_def pipe_init_def)
  have "pipe_reach True ?s1"
    by (rule reach_step[OF reach_init step_read]) (simp_all add: pipe_sys_init_def pipe_init_def)
  then have reach: "pipe_reach True ?s2"
    by (rule reach_step[OF _ step_write]) (simp_all add: s1 pipe_init_def)
  have inv: "pipe_inv (the_pipe ?s1)" "pipe_queue (the_pipe ?s1) = []"
    by (simp_all add: s1 pipe_inv_def pipe_init_def pipe_queue_def)
  obtain p' rest out wake where r: "pipewrite_loop True 513 ?bs (the_pipe ?s1) = (p', rest, out, wake)"
    by (metis prod_cases4)
  from pipewrite_loop_spec[OF inv(1) r] obtain d where d: "?bs = d @ rest"
    "pipe_queue p' = pipe_queue (the_pipe ?s1) @ d"
    "length d = min (length ?bs) (512 - length (pipe_queue (the_pipe ?s1)))"
    "readopen p' = readopen (the_pipe ?s1)" "writeopen p' = writeopen (the_pipe ?s1)"
    "wake \<longleftrightarrow> rest = [] \<or> (readopen (the_pipe ?s1) \<and> \<not> True)" by blast
  have len: "length d = 512" using d(3) inv(2) by simp
  have "length ?bs = length d + length rest" using d(1) by (metis length_append)
  then have "rest \<noteq> []" using len by auto
  then have "rsleep ?s2 \<and> length (pipe_queue (the_pipe ?s2)) = 512 \<and> readopen (the_pipe ?s2) \<and> writeopen (the_pipe ?s2)"
    using r d(2,4,5,6) len inv(2) s1 by (simp add: do_write_def pipe_init_def)
  with reach show ?thesis by blast
qed

end
