(* ===== verification/Console.thy ===== *)
theory Console
  imports Ring_Buffer Printf Pipe
begin

text \<open>
  The console (\<open>console.c\<close>): the 25 by 80 text screen with its cursor register, the calls added
  for the editor (cursor, screen and mode control), and the keyboard input queue with its line
  discipline. A call that panics has the left injection as its value. Serial output is not
  modelled. Results: the character writer stays on the screen and panics in one case only; the
  input queue refines an abstract line discipline on lists.
\<close>

section \<open>State\<close>

record console =
  crt :: "int \<Rightarrow> u16"
  crtpos :: u16
  bufferFlag :: int
  showAtonce :: int
  inbuf :: "nat \<Rightarrow> byte"
  in_r :: u32
  in_w :: u32
  in_e :: u32

abbreviation INPUT_BUF :: nat where "INPUT_BUF \<equiv> 128"
abbreviation BACKSPACE :: int where "BACKSPACE \<equiv> 0x100"
abbreviation blank :: u16 where "blank \<equiv> 0x0720"

definition setBufferFlag :: "int \<Rightarrow> console \<Rightarrow> console" where
  "setBufferFlag flag con = con\<lparr>bufferFlag := flag\<rparr>"

definition setShowAtOnce :: "int \<Rightarrow> console \<Rightarrow> console" where
  "setShowAtOnce flag con = con\<lparr>showAtonce := flag\<rparr>"

section \<open>Screen\<close>

text \<open>The cursor register is two bytes wide: writing a position keeps its low 16 bits.\<close>

definition getCursorPos :: "console \<Rightarrow> int" where
  "getCursorPos con = uint (crtpos con)"

definition cell :: "int \<Rightarrow> u16" where
  "cell c = (word_of_int c AND 0xFF) OR 0x0700"

definition scroll_up :: "(int \<Rightarrow> u16) \<Rightarrow> int \<Rightarrow> (int \<Rightarrow> u16)" where
  "scroll_up cr pos =
     (\<lambda>i. if pos \<le> i \<and> i < 25 * 80 then 0
          else if 0 \<le> i \<and> i < 24 * 80 then cr (i + 80) else cr i)"

definition cga_put :: "int \<Rightarrow> int \<Rightarrow> (int \<Rightarrow> u16) \<Rightarrow> int \<times> (int \<Rightarrow> u16)" where
  "cga_put c pos cr =
     (if c = 10 then (pos + (80 - pos mod 80), cr)
      else if c = BACKSPACE then (if 0 < pos then pos - 1 else pos, cr)
      else if c = 9 then
        (pos + 4, cr(pos := blank, pos + 1 := blank, pos + 2 := blank, pos + 3 := blank))
      else (pos + 1, cr(pos := cell c)))"

definition cgaputc :: "int \<Rightarrow> console \<Rightarrow> console kernel" where
  "cgaputc c con =
     (let (pos1, cr1) = cga_put c (getCursorPos con) (crt con)
      in if pos1 < 0 \<or> 25 * 80 < pos1 then panic ''pos under/overflow''
         else let (pos2, cr2) = (if 24 < pos1 div 80 then (pos1 - 80, scroll_up cr1 (pos1 - 80))
                                 else (pos1, cr1))
              in Inr (con\<lparr>crtpos := word_of_int pos2, crt := cr2(pos2 := blank)\<rparr>))"

definition consputc :: "int \<Rightarrow> console \<Rightarrow> console kernel" where
  "consputc c con = cgaputc c con"

definition clearScreen :: "console \<Rightarrow> console" where
  "clearScreen con =
     con\<lparr>crtpos := 0,
         crt := (\<lambda>i. if 0 \<le> i \<and> i < 25 * 80 then 0 else crt con i)(0 := blank)\<rparr>"

definition setCursorPos :: "int \<Rightarrow> int \<Rightarrow> console \<Rightarrow> console kernel" where
  "setCursorPos x y con =
     (if x < 0 \<or> 24 < x \<or> y < 0 \<or> 79 < y then panic ''setCursorPos: x or y under/overflow''
      else let pos = x * 80 + y
           in Inr (con\<lparr>crtpos := word_of_int pos, crt := (crt con)(pos := crt con pos OR 0x0700)\<rparr>))"

definition writeAt :: "int \<Rightarrow> int \<Rightarrow> byte \<Rightarrow> console \<Rightarrow> console kernel" where
  "writeAt x y c con = kbind (setCursorPos x y con) (cgaputc (schar c))"

fun copy_text_loop :: "memory \<Rightarrow> addr \<Rightarrow> nat \<Rightarrow> console \<Rightarrow> console kernel" where
  "copy_text_loop m p 0 con = Inr con"
| "copy_text_loop m p (Suc n) con =
     (if m p = NUL then Inr con
      else kbind (cgaputc (schar (m p)) con)
        (\<lambda>con'. let pos = getCursorPos con'
                in if pos = 25 * 80 - 1 \<or> (24 * 80 \<le> pos \<and> m (p + 1) = NL) then Inr con'
                   else copy_text_loop m (p + 1) n con'))"

definition copyFromTextToScreen :: "memory \<Rightarrow> addr \<Rightarrow> int \<Rightarrow> int \<Rightarrow> console \<Rightarrow> console kernel" where
  "copyFromTextToScreen m text pos len con =
     kbind (setCursorPos (pos div 80) (pos mod 80) con) (copy_text_loop m text (nat len))"

definition getCharOnCursor :: "console \<Rightarrow> byte" where
  "getCharOnCursor con = ucast (crt con (getCursorPos con))"

fun consolewrite :: "byte list \<Rightarrow> console \<Rightarrow> console kernel" where
  "consolewrite [] con = Inr con"
| "consolewrite (b # buf) con = kbind (consputc (uint b) con) (consolewrite buf)"

section \<open>Input\<close>

text \<open>
  \<open>consoleintr\<close> for one key code: the second component says that \<open>procdump\<close> is requested. The
  kill-line loop is bounded by the number of uncommitted bytes.
\<close>

fun kill_line :: "nat \<Rightarrow> console \<Rightarrow> console kernel" where
  "kill_line 0 con = Inr con"
| "kill_line (Suc n) con =
     (if in_e con \<noteq> in_w con \<and> inbuf con (unat (in_e con - 1) mod INPUT_BUF) \<noteq> NL
      then kbind (consputc BACKSPACE (con\<lparr>in_e := in_e con - 1\<rparr>)) (kill_line n)
      else Inr con)"

definition key_default :: "int \<Rightarrow> console \<Rightarrow> console kernel" where
  "key_default c con =
     (if c \<noteq> 0 \<and> unat (in_e con - in_r con) < INPUT_BUF then
        let c' = (if c = 13 then 10 else c);
            con1 = con\<lparr>inbuf := (inbuf con)(unat (in_e con) mod INPUT_BUF := word_of_int c'),
                       in_e := in_e con + 1\<rparr>
        in kbind (if showAtonce con \<noteq> 0 then consputc c' con1 else Inr con1)
             (\<lambda>con2. Inr (if bufferFlag con2 = 0 \<or> c' = 10 \<or> c' = 4 \<or> in_e con2 = in_r con2 + of_nat INPUT_BUF
                          then con2\<lparr>in_w := in_e con2\<rparr> else con2))
      else Inr con)"

definition consoleintr_key :: "int \<Rightarrow> console \<Rightarrow> (console \<times> bool) kernel" where
  "consoleintr_key c con =
     (if c = 16 then Inr (con, True)
      else if c = 21 then
        kbind (kill_line (unat (in_e con - in_w con)) con) (\<lambda>con'. Inr (con', False))
      else if c = 8 \<or> c = 127 then
        (if in_e con \<noteq> in_w con
         then kbind (consputc BACKSPACE (con\<lparr>in_e := in_e con - 1\<rparr>)) (\<lambda>con'. Inr (con', False))
         else Inr (con, False))
      else kbind (key_default c con) (\<lambda>con'. Inr (con', False)))"

fun consoleintr :: "int list \<Rightarrow> console \<Rightarrow> (console \<times> bool) kernel" where
  "consoleintr [] con = Inr (con, False)"
| "consoleintr (c # keys) con =
     (if c < 0 then Inr (con, False)
      else kbind (consoleintr_key c con)
        (\<lambda>(con', dump). kbind (consoleintr keys con') (\<lambda>(con'', dump'). Inr (con'', dump \<or> dump'))))"

text \<open>
  \<open>consoleread\<close>: the bytes stored at \<open>dst\<close> and the way the run ends. A pending control-D ends
  the call; after some bytes it stays in the queue for the next one.
\<close>

fun consoleread_loop :: "bool \<Rightarrow> nat \<Rightarrow> nat \<Rightarrow> console \<Rightarrow> console \<times> byte list \<times> run" where
  "consoleread_loop killed target 0 con = (con, [], Return (int target))"
| "consoleread_loop killed target (Suc n) con =
     (if in_r con = in_w con then
        (if killed then (con, [], Return (- 1)) else (con, [], Sleep))
      else let c = inbuf con (unat (in_r con) mod INPUT_BUF); con1 = con\<lparr>in_r := in_r con + 1\<rparr>
           in if c = 4 then
                (if Suc n < target then con else con1, [], Return (int target - int (Suc n)))
              else if c = NL then (con1, [c], Return (int target - int n))
              else case consoleread_loop killed target n con1 of
                     (con2, bs, out) \<Rightarrow> (con2, c # bs, out))"

definition consoleread :: "bool \<Rightarrow> nat \<Rightarrow> console \<Rightarrow> console \<times> byte list \<times> run" where
  "consoleread killed n con = consoleread_loop killed n n con"

text \<open>A blank console, for concrete runs.\<close>

definition boot_console :: console where
  "boot_console = \<lparr>crt = (\<lambda>_. 0), crtpos = 0, bufferFlag = 1, showAtonce = 1,
     inbuf = (\<lambda>_. 0), in_r = 0, in_w = 0, in_e = 0\<rparr>"

section \<open>The screen is never left\<close>

definition on_screen :: "console \<Rightarrow> bool" where
  "on_screen con \<longleftrightarrow> getCursorPos con < 25 * 80"

lemma getCursorPos_nonneg [simp]: "0 \<le> getCursorPos con"
  by (simp add: getCursorPos_def)

lemma getCursorPos_set [simp]:
  "0 \<le> pos \<Longrightarrow> pos < 65536 \<Longrightarrow> getCursorPos (con\<lparr>crtpos := word_of_int pos, crt := cr\<rparr>) = pos"
  by (simp add: getCursorPos_def uint_word_of_int mod_pos_pos_trivial)

lemma cga_put_pos: "fst (cga_put c pos cr) =
  (if c = 10 then pos + (80 - pos mod 80) else if c = BACKSPACE then max 0 pos - (if 0 < pos then 1 else 0) + min 0 pos
   else if c = 9 then pos + 4 else pos + 1)"
  by (simp add: cga_put_def)

lemma row_next_le: "0 \<le> (pos::int) \<Longrightarrow> pos < 2000 \<Longrightarrow> pos + (80 - pos mod 80) \<le> 2000"
  by presburger

lemma cga_put_frame:
  "0 \<le> pos \<Longrightarrow> cga_put c pos cr = (pos1, cr1) \<Longrightarrow> pos1 \<le> 2000 \<Longrightarrow> i < 0 \<or> 2000 \<le> i \<Longrightarrow> cr1 i = cr i"
  by (auto simp: cga_put_def split: if_splits)

lemma cgaputc_screen:
  assumes "on_screen con"
  shows "(c = 9 \<and> 1997 \<le> getCursorPos con \<and> cgaputc c con = panic ''pos under/overflow'') \<or>
         (\<exists>con'. cgaputc c con = Inr con' \<and> \<not> (c = 9 \<and> 1997 \<le> getCursorPos con) \<and> on_screen con' \<and>
            (\<forall>i. i < 0 \<or> 2000 \<le> i \<longrightarrow> crt con' i = crt con i))"
proof -
  define pos where "pos = getCursorPos con"
  have pos: "0 \<le> pos" "pos < 2000" using assms by (auto simp: on_screen_def pos_def)
  obtain pos1 cr1 where put: "cga_put c pos (crt con) = (pos1, cr1)" by (metis prod.exhaust)
  have ge: "0 \<le> pos1" using put pos row_next_le[OF pos]
    by (auto simp: cga_put_def split: if_splits)
  have gt: "2000 < pos1 \<longleftrightarrow> c = 9 \<and> 1997 \<le> pos"
    using put pos row_next_le[OF pos] by (auto simp: cga_put_def split: if_splits)
  show ?thesis
  proof (cases "2000 < pos1")
    case True
    then show ?thesis using put gt by (simp add: cgaputc_def pos_def[symmetric])
  next
    case False
    define p2 where "p2 = (if 24 < pos1 div 80 then pos1 - 80 else pos1)"
    define c2 where "c2 = (if 24 < pos1 div 80 then scroll_up cr1 (pos1 - 80) else cr1)"
    have run: "cgaputc c con = Inr (con\<lparr>crtpos := word_of_int p2, crt := c2(p2 := blank)\<rparr>)"
      using False ge put by (auto simp: cgaputc_def pos_def[symmetric] p2_def c2_def)
    have p2: "0 \<le> p2" "p2 < 2000" using False ge by (auto simp: p2_def)
    have "\<forall>i. i < 0 \<or> 2000 \<le> i \<longrightarrow> (c2(p2 := blank)) i = crt con i"
      using p2 cga_put_frame[OF pos(1) put] False by (auto simp: scroll_up_def c2_def)
    then show ?thesis using run gt False p2
      by (auto simp: on_screen_def pos_def[symmetric] simp del: fun_upd_apply)
  qed
qed

lemma cgaputc_cases:
  assumes "on_screen con" and "c \<noteq> 9 \<or> getCursorPos con < 1997"
  obtains con' where "cgaputc c con = Inr con'" "on_screen con'"
  using cgaputc_screen[OF assms(1), of c] assms(2) by auto

text \<open>
  with the cursor on the screen, \<open>cgaputc\<close> (\<open>console.c\<close>) panics exactly for a tab in one of
  the last three cells of the screen; otherwise the cursor stays on the screen and no cell
  outside the 25 by 80 screen is written.
\<close>

theorem cgaputc_stays_on_screen:
  assumes "on_screen con"
  shows "(c = 9 \<and> 1997 \<le> getCursorPos con \<and> cgaputc c con = panic ''pos under/overflow'') \<or>
         (\<exists>con'. cgaputc c con = Inr con' \<and> \<not> (c = 9 \<and> 1997 \<le> getCursorPos con) \<and> on_screen con' \<and>
            (\<forall>i. i < 0 \<or> 2000 \<le> i \<longrightarrow> crt con' i = crt con i))"
  using assms by (rule cgaputc_screen)

theorem cgaputc_stays_on_screen_witness:
  "\<exists>con'. cgaputc 65 boot_console = Inr con' \<and> on_screen con'"
proof -
  have "on_screen boot_console"
    by (simp add: on_screen_def boot_console_def getCursorPos_def)
  from cgaputc_stays_on_screen[OF this, of 65] show ?thesis by auto
qed

section \<open>The input queue as a line discipline\<close>

interpretation console_ring: ring INPUT_BUF
  by unfold_locales simp_all

text \<open>
  Abstract view: the bytes a reader may have, and the line being edited. The operations of the
  specification are list operations.
\<close>

record line_disc =
  ready :: "byte list"
  line :: "byte list"

definition ld_kill :: "line_disc \<Rightarrow> line_disc" where
  "ld_kill d = d\<lparr>line := rev (dropWhile (\<lambda>b. b \<noteq> NL) (rev (line d)))\<rparr>"

definition ld_erase :: "line_disc \<Rightarrow> line_disc" where
  "ld_erase d = d\<lparr>line := butlast (line d)\<rparr>"

definition ld_put :: "bool \<Rightarrow> int \<Rightarrow> line_disc \<Rightarrow> line_disc" where
  "ld_put buffered c d =
     (if c \<noteq> 0 \<and> length (ready d) + length (line d) < 128 then
        let c' = (if c = 13 then 10 else c); l = line d @ [word_of_int c']
        in if \<not> buffered \<or> c' = 10 \<or> c' = 4 \<or> length (ready d) + length l = 128
           then \<lparr>ready = ready d @ l, line = []\<rparr> else d\<lparr>line := l\<rparr>
      else d)"

definition ld_key :: "bool \<Rightarrow> int \<Rightarrow> line_disc \<Rightarrow> line_disc" where
  "ld_key buffered c d =
     (if c = 16 then d else if c = 21 then ld_kill d
      else if c = 8 \<or> c = 127 then ld_erase d else ld_put buffered c d)"

definition input_abs :: "console \<Rightarrow> line_disc" where
  "input_abs con =
     \<lparr>ready = ring_list INPUT_BUF (inbuf con) (in_r con) (in_w con),
      line = ring_list INPUT_BUF (inbuf con) (in_w con) (in_e con)\<rparr>"

definition input_inv :: "console \<Rightarrow> bool" where
  "input_inv con \<longleftrightarrow>
     unat (in_w con - in_r con) \<le> unat (in_e con - in_r con) \<and> unat (in_e con - in_r con) \<le> 128"

text \<open>Output leaves the queue and the mode flags alone.\<close>

definition same_input :: "console \<Rightarrow> console \<Rightarrow> bool" where
  "same_input con con' \<longleftrightarrow>
     inbuf con' = inbuf con \<and> in_r con' = in_r con \<and> in_w con' = in_w con \<and> in_e con' = in_e con \<and>
     bufferFlag con' = bufferFlag con \<and> showAtonce con' = showAtonce con"

lemma cgaputc_same_input: "cgaputc c con = Inr con' \<Longrightarrow> same_input con con'"
  by (auto simp: cgaputc_def same_input_def Let_def split: prod.splits if_splits)

lemma consputc_same_input: "consputc c con = Inr con' \<Longrightarrow> same_input con con'"
  by (simp add: consputc_def cgaputc_same_input)

lemma same_input_abs: "same_input con con' \<Longrightarrow> input_abs con' = input_abs con \<and> input_inv con' = input_inv con"
  by (auto simp: same_input_def input_abs_def input_inv_def)

lemma input_lengths:
  assumes "input_inv con"
  shows "unat (in_e con - in_r con) = unat (in_w con - in_r con) + unat (in_e con - in_w con)"
proof -
  have "unat ((in_e con - in_r con) - (in_w con - in_r con)) =
        unat (in_e con - in_r con) - unat (in_w con - in_r con)"
    using assms by (intro unat_sub) (simp add: input_inv_def word_le_nat_alt)
  then show ?thesis using assms by (simp add: input_inv_def)
qed

lemma input_erase:
  assumes "input_inv con" "in_e con \<noteq> in_w con"
  shows "input_abs (con\<lparr>in_e := in_e con - 1\<rparr>) = ld_erase (input_abs con)"
    and "input_inv (con\<lparr>in_e := in_e con - 1\<rparr>)"
    and "line (input_abs con) = butlast (line (input_abs con)) @ [inbuf con (unat (in_e con - 1) mod 128)]"
    and "unat (in_e con - in_w con) = Suc (unat (in_e con - 1 - in_w con))"
proof -
  have l: "ring_list 128 (inbuf con) (in_w con) (in_e con) =
     ring_list 128 (inbuf con) (in_w con) (in_e con - 1) @ [inbuf con (unat (in_e con - 1) mod 128)]"
    using assms(2) by (intro ring_list_butlast) auto
  then show "input_abs (con\<lparr>in_e := in_e con - 1\<rparr>) = ld_erase (input_abs con)"
    and "line (input_abs con) = butlast (line (input_abs con)) @ [inbuf con (unat (in_e con - 1) mod 128)]"
    by (simp_all add: input_abs_def ld_erase_def)
  show d: "unat (in_e con - in_w con) = Suc (unat (in_e con - 1 - in_w con))"
    using arg_cong[OF l, of length] by simp
  have "in_e con \<noteq> in_r con"
    using input_lengths[OF assms(1)] d by (auto simp: unat_eq_0)
  then have "unat (in_e con - in_r con) = Suc (unat (in_e con - 1 - in_r con))"
    using unat_diff_Suc[of "in_e con - 1" "in_r con"] by auto
  then show "input_inv (con\<lparr>in_e := in_e con - 1\<rparr>)"
    using assms(1) input_lengths[OF assms(1)] d by (simp add: input_inv_def)
qed

lemma ld_kill_snoc:
  "line d = l @ [b] \<Longrightarrow> ld_kill d = (if b = NL then d else ld_kill (ld_erase d))"
  by (cases d) (auto simp: ld_kill_def ld_erase_def)

lemma kill_line_abs:
  "input_inv con \<Longrightarrow> n = unat (in_e con - in_w con) \<Longrightarrow> kill_line n con = Inr con' \<Longrightarrow>
   input_abs con' = ld_kill (input_abs con) \<and> input_inv con' \<and>
   bufferFlag con' = bufferFlag con \<and> showAtonce con' = showAtonce con"
proof (induction n arbitrary: con)
  case 0
  then have "in_e con = in_w con" by (metis eq_iff_diff_eq_0 unat_eq_0)
  with 0 show ?case by (simp add: input_abs_def ld_kill_def)
next
  case (Suc n)
  then have ne: "in_e con \<noteq> in_w con" by auto
  note er = input_erase[OF Suc.prems(1) ne]
  define b where "b = inbuf con (unat (in_e con - 1) mod 128)"
  have last: "line (input_abs con) = butlast (line (input_abs con)) @ [b]"
    using er(3) by (simp add: b_def)
  show ?case
  proof (cases "b = NL")
    case True
    then have "con' = con" using Suc.prems(3) ne by (simp add: b_def)
    moreover have "ld_kill (input_abs con) = input_abs con"
      using ld_kill_snoc[OF last] True by simp
    ultimately show ?thesis using Suc.prems by simp
  next
    case False
    let ?c = "con\<lparr>in_e := in_e con - 1\<rparr>"
    from Suc.prems(3) ne False obtain c1 where c1: "consputc BACKSPACE ?c = Inr c1" "kill_line n c1 = Inr con'"
      by (auto simp: kbind_Inr b_def)
    have s: "same_input ?c c1" using c1(1) by (rule consputc_same_input)
    then have i: "input_inv c1" "input_abs c1 = ld_erase (input_abs con)"
      using same_input_abs[OF s] er by auto
    have "n = unat (in_e c1 - in_w c1)"
      using er(4) Suc.prems(2) s by (simp add: same_input_def)
    from Suc.IH[OF i(1) this c1(2)] have
      "input_abs con' = ld_kill (ld_erase (input_abs con)) \<and> input_inv con' \<and>
       bufferFlag con' = bufferFlag c1 \<and> showAtonce con' = showAtonce c1" using i by simp
    moreover have "ld_kill (ld_erase (input_abs con)) = ld_kill (input_abs con)"
      using ld_kill_snoc[OF last] False by simp
    ultimately show ?thesis using s by (simp add: same_input_def)
  qed
qed

lemma input_put:
  fixes b :: byte
  assumes "input_inv con" "unat (in_e con - in_r con) < 128"
  defines "con1 \<equiv> con\<lparr>inbuf := (inbuf con)(unat (in_e con) mod 128 := b), in_e := in_e con + 1\<rparr>"
  shows "ready (input_abs con1) = ready (input_abs con)"
    and "line (input_abs con1) = line (input_abs con) @ [b]"
    and "unat (in_e con1 - in_r con1) = Suc (unat (in_e con - in_r con))"
    and "input_inv con1"
proof -
  have lt: "unat (in_e con - in_w con) < 128" using input_lengths[OF assms(1)] assms(2) by simp
  have whole: "ring_list 128 (inbuf con1) (in_r con) (in_e con) = ring_list 128 (inbuf con) (in_r con) (in_e con)"
    using console_ring.ring_store[OF assms(2)] by (simp add: con1_def)
  have le: "unat (in_w con - in_r con) \<le> unat (in_e con - in_r con)"
    using assms(1) by (simp add: input_inv_def)
  show "ready (input_abs con1) = ready (input_abs con)"
    using whole ring_list_split[OF le, of 128 "inbuf con"] ring_list_split[OF le, of 128 "inbuf con1"]
    by (simp add: input_abs_def con1_def)
  show "line (input_abs con1) = line (input_abs con) @ [b]"
    using console_ring.ring_push[OF lt] by (simp add: input_abs_def con1_def)
  show d: "unat (in_e con1 - in_r con1) = Suc (unat (in_e con - in_r con))"
    using arg_cong[OF console_ring.ring_push[OF assms(2), of "inbuf con" b], of length]
    by (simp add: con1_def)
  show "input_inv con1"
    using d assms(1,2) by (simp add: input_inv_def con1_def)
qed

lemma input_commit:
  assumes "input_inv con"
  shows "input_abs (con\<lparr>in_w := in_e con\<rparr>) =
           \<lparr>ready = ready (input_abs con) @ line (input_abs con), line = []\<rparr>"
    and "input_inv (con\<lparr>in_w := in_e con\<rparr>)"
proof -
  have "unat (in_w con - in_r con) \<le> unat (in_e con - in_r con)"
    using assms by (simp add: input_inv_def)
  from ring_list_split[OF this, of 128 "inbuf con"]
  show "input_abs (con\<lparr>in_w := in_e con\<rparr>) =
           \<lparr>ready = ready (input_abs con) @ line (input_abs con), line = []\<rparr>"
    by (simp add: input_abs_def)
  show "input_inv (con\<lparr>in_w := in_e con\<rparr>)" using assms by (simp add: input_inv_def)
qed

lemma ready_line_length:
  "input_inv con \<Longrightarrow> length (ready (input_abs con)) + length (line (input_abs con)) = unat (in_e con - in_r con)"
  by (simp add: input_abs_def input_lengths)

lemma line_disc_eqI: "ready d = ready d' \<Longrightarrow> line d = line d' \<Longrightarrow> d = (d' :: line_disc)"
  by simp

lemma key_default_abs:
  assumes inv: "input_inv con" and run: "key_default c con = Inr con'"
  shows "input_abs con' = ld_put (bufferFlag con \<noteq> 0) c (input_abs con) \<and> input_inv con' \<and>
         bufferFlag con' = bufferFlag con \<and> showAtonce con' = showAtonce con"
proof (cases "c \<noteq> 0 \<and> unat (in_e con - in_r con) < 128")
  case False
  then show ?thesis using run inv ready_line_length[OF inv] by (auto simp: key_default_def ld_put_def)
next
  case True
  define c' where "c' = (if c = 13 then 10 else c)"
  define con1 where "con1 = con\<lparr>inbuf := (inbuf con)(unat (in_e con) mod 128 := word_of_int c'), in_e := in_e con + 1\<rparr>"
  have "key_default c con =
     kbind (if showAtonce con \<noteq> 0 then consputc c' con1 else Inr con1)
       (\<lambda>con2. Inr (if bufferFlag con2 = 0 \<or> c' = 10 \<or> c' = 4 \<or> in_e con2 = in_r con2 + 128
                    then con2\<lparr>in_w := in_e con2\<rparr> else con2))"
    using True unfolding key_default_def Let_def c'_def con1_def by simp
  with run obtain con2 where
    c2: "(if showAtonce con \<noteq> 0 then consputc c' con1 else Inr con1) = Inr con2" and
    c': "con' = (if bufferFlag con2 = 0 \<or> c' = 10 \<or> c' = 4 \<or> in_e con2 = in_r con2 + 128
                 then con2\<lparr>in_w := in_e con2\<rparr> else con2)"
    by (auto simp: kbind_Inr)
  have same: "same_input con1 con2"
    using c2 consputc_same_input by (auto simp: same_input_def split: if_splits)
  note put = input_put[OF inv conjunct2[OF True], where b = "word_of_int c'", folded con1_def]
  have a2: "input_abs con2 = input_abs con1" "input_inv con2" and fl: "bufferFlag con2 = bufferFlag con" "showAtonce con2 = showAtonce con"
    using same_input_abs[OF same] put(4) same by (auto simp: same_input_def con1_def)
  have full: "in_e con2 = in_r con2 + 128 \<longleftrightarrow> length (ready (input_abs con)) + length (line (input_abs con) @ [word_of_int c']) = 128"
  proof -
    have "in_e con2 = in_r con2 + 128 \<longleftrightarrow> in_e con2 - in_r con2 = 128" by (auto simp: algebra_simps)
    then have "in_e con2 = in_r con2 + 128 \<longleftrightarrow> unat (in_e con2 - in_r con2) = 128"
      by (simp add: word_unat_eq_iff)
    then show ?thesis using ready_line_length[OF a2(2)] a2(1) put(1,2) by simp
  qed
  have room: "length (ready (input_abs con)) + length (line (input_abs con)) < 128"
    using True ready_line_length[OF inv] by simp
  have spec: "ld_put (bufferFlag con \<noteq> 0) c (input_abs con) =
     (if bufferFlag con2 = 0 \<or> c' = 10 \<or> c' = 4 \<or> in_e con2 = in_r con2 + 128
      then \<lparr>ready = ready (input_abs con2) @ line (input_abs con2), line = []\<rparr> else input_abs con2)"
    using True room unfolding ld_put_def Let_def c'_def[symmetric] full fl
    by (simp add: a2(1) put(1,2))
  show ?thesis
    unfolding spec c' using input_commit[OF a2(2)] a2(2) fl by simp
qed

lemma consoleintr_key_ld:
  assumes "input_inv con" and "consoleintr_key c con = Inr (con', dump)"
  shows "input_abs con' = ld_key (bufferFlag con \<noteq> 0) c (input_abs con) \<and> input_inv con' \<and> bufferFlag con' = bufferFlag con"
proof -
  have erase: "input_abs con2 = ld_erase (input_abs con) \<and> input_inv con2 \<and> bufferFlag con2 = bufferFlag con"
    if "consputc BACKSPACE (con\<lparr>in_e := in_e con - 1\<rparr>) = Inr con2" "in_e con \<noteq> in_w con" for con2
    using same_input_abs[OF consputc_same_input[OF that(1)]] input_erase[OF assms(1) that(2)] consputc_same_input[OF that(1)]
    by (simp add: same_input_def)
  have erase0: "in_e con = in_w con \<Longrightarrow> ld_erase (input_abs con) = input_abs con"
    by (simp add: ld_erase_def input_abs_def)
  consider "c = 16" | "c = 21" | "c = 8 \<or> c = 127" | "c \<notin> {16, 21, 8, 127}" by auto
  then show ?thesis
  proof cases
    case 1 then show ?thesis using assms by (simp add: consoleintr_key_def ld_key_def)
  next
    case 2 then show ?thesis using assms kill_line_abs[OF assms(1) refl]
      by (simp add: consoleintr_key_def ld_key_def kbind_Inr)
  next
    case 3
    have "con' = con \<and> in_e con = in_w con \<or> consputc BACKSPACE (con\<lparr>in_e := in_e con - 1\<rparr>) = Inr con' \<and> in_e con \<noteq> in_w con"
      using assms(2) 3 by (auto simp: consoleintr_key_def kbind_Inr split: if_splits)
    moreover have "ld_key (bufferFlag con \<noteq> 0) c (input_abs con) = ld_erase (input_abs con)" using 3 by (auto simp: ld_key_def)
    ultimately show ?thesis using assms(1) erase[of con'] erase0 by metis
  next
    case 4 then show ?thesis using assms(2) key_default_abs[OF assms(1), of c con']
      by (simp add: consoleintr_key_def ld_key_def kbind_Inr)
  qed
qed

text \<open>
  C35: every key handled by \<open>consoleintr\<close> (\<open>console.c\<close>) acts on the input ring as the abstract
  line discipline does on lists (insert, erase, kill, commit), at any position of the wrapping
  counters, and keeps the ring's invariant.
\<close>

theorem consoleintr_key_refines:
  assumes "input_inv con" and "consoleintr_key c con = Inr (con', dump)"
  shows "input_abs con' = ld_key (bufferFlag con \<noteq> 0) c (input_abs con) \<and> input_inv con'"
  using consoleintr_key_ld[OF assms] by blast

theorem consoleintr_key_refines_witness:
  "input_inv boot_console \<and>
   input_abs (boot_console\<lparr>inbuf := (\<lambda>_. 0)(0 := 10), showAtonce := 0, in_e := 1, in_w := 1\<rparr>) =
     ld_key True 13 (input_abs (boot_console\<lparr>showAtonce := 0\<rparr>))"
proof -
  have i: "input_inv (boot_console\<lparr>showAtonce := 0\<rparr>)" "input_inv boot_console"
    by (simp_all add: input_inv_def boot_console_def)
  have "consoleintr_key 13 (boot_console\<lparr>showAtonce := 0\<rparr>) =
    Inr (boot_console\<lparr>inbuf := (\<lambda>_. 0)(0 := 10), showAtonce := 0, in_e := 1, in_w := 1\<rparr>, False)"
    by (simp add: consoleintr_key_def key_default_def boot_console_def)
  from consoleintr_key_refines[OF i(1) this] i(2) show ?thesis by (simp add: boot_console_def)
qed

lemma input_take:
  assumes "input_inv con" "in_r con \<noteq> in_w con"
  defines "con1 \<equiv> con\<lparr>in_r := in_r con + 1\<rparr>"
  shows "ready (input_abs con) = inbuf con (unat (in_r con) mod 128) # ready (input_abs con1)"
    and "line (input_abs con1) = line (input_abs con)" and "input_inv con1"
proof -
  show "ready (input_abs con) = inbuf con (unat (in_r con) mod 128) # ready (input_abs con1)"
    using assms(2) by (simp add: input_abs_def con1_def ring_list_Cons)
  show "line (input_abs con1) = line (input_abs con)" by (simp add: input_abs_def con1_def)
  have w: "unat (in_w con - in_r con) = Suc (unat (in_w con - (in_r con + 1)))"
    using assms(2) by (intro unat_diff_pred) auto
  then have "in_e con \<noteq> in_r con" using assms(1) by (auto simp: input_inv_def)
  then have "unat (in_e con - in_r con) = Suc (unat (in_e con - (in_r con + 1)))"
    by (rule unat_diff_pred)
  with w show "input_inv con1" using assms(1) by (simp add: input_inv_def con1_def)
qed

lemma consoleread_loop_spec:
  "input_inv con \<Longrightarrow> n \<le> target \<Longrightarrow> consoleread_loop killed target n con = (con', bs, out) \<Longrightarrow>
   input_inv con' \<and> line (input_abs con') = line (input_abs con) \<and> length bs \<le> n \<and> NL \<notin> set (butlast bs) \<and>
   (\<exists>eof. ready (input_abs con) = bs @ eof @ ready (input_abs con') \<and>
      (eof = [] \<or> (eof = [4] \<and> n = target \<and> bs = []))) \<and>
   (out = Sleep \<longleftrightarrow> ready (input_abs con') = [] \<and> \<not> killed \<and> length bs < n \<and> (bs = [] \<or> last bs \<noteq> NL) \<and>
        ready (input_abs con) = bs) \<and>
   (out \<noteq> Sleep \<longrightarrow> out = Return (int target - int n + int (length bs)) \<or> (out = Return (- 1) \<and> killed))"
proof (induction killed target n con arbitrary: con' bs out rule: consoleread_loop.induct)
  case (2 killed target n con)
  show ?case
  proof (cases "in_r con = in_w con")
    case True
    with "2.prems" show ?thesis by (auto simp: input_abs_def split: if_splits)
  next
    case False
    define c where "c = inbuf con (unat (in_r con) mod 128)"
    define con1 where "con1 = con\<lparr>in_r := in_r con + 1\<rparr>"
    note t = input_take[OF "2.prems"(1) False, folded con1_def c_def]
    show ?thesis
    proof (cases "c = 4 \<or> c = NL")
      case True
      with "2.prems" False t show ?thesis by (auto simp: Let_def c_def con1_def split: if_splits)
    next
      case c: False
      obtain con2 bs2 out2 where r: "consoleread_loop killed target n con1 = (con2, bs2, out2)"
        by (metis prod_cases3)
      have e: "con' = con2" "bs = c # bs2" "out = out2"
        using "2.prems"(3) False c r by (auto simp: Let_def c_def con1_def)
      have "n \<le> target" using "2.prems"(2) by simp
      from "2.IH"[OF False c_def con1_def _ _ t(3) this r] c
      have IH: "input_inv con2 \<and> line (input_abs con2) = line (input_abs con1) \<and> length bs2 \<le> n \<and> NL \<notin> set (butlast bs2) \<and>
   (\<exists>eof. ready (input_abs con1) = bs2 @ eof @ ready (input_abs con2) \<and>
      (eof = [] \<or> (eof = [4] \<and> n = target \<and> bs2 = []))) \<and>
   (out2 = Sleep \<longleftrightarrow> ready (input_abs con2) = [] \<and> \<not> killed \<and> length bs2 < n \<and> (bs2 = [] \<or> last bs2 \<noteq> NL) \<and>
        ready (input_abs con1) = bs2) \<and>
   (out2 \<noteq> Sleep \<longrightarrow> out2 = Return (int target - int n + int (length bs2)) \<or> (out2 = Return (- 1) \<and> killed))"
        by simp
      have "n \<noteq> target" using "2.prems"(2) by simp
      with IH e t c show ?thesis by (auto split: if_splits)
    qed
  qed
qed (auto simp: input_abs_def)

text \<open>
  \<open>consoleread\<close> (\<open>console.c\<close>) hands out the committed bytes in order and at most one line:
  what it returns is a prefix of the queue, only a control-D met first is dropped from the queue
  without being delivered, the line being edited is untouched, and the value returned is the
  number of bytes unless the process was killed.
\<close>

theorem consoleread_delivers_prefix:
  assumes "input_inv con" and "consoleread killed n con = (con', bs, out)"
  shows "input_inv con' \<and> line (input_abs con') = line (input_abs con) \<and>
    (\<exists>eof. ready (input_abs con) = bs @ eof @ ready (input_abs con') \<and>
       (eof = [] \<or> (eof = [4] \<and> bs = []))) \<and>
    length bs \<le> n \<and> NL \<notin> set (butlast bs) \<and>
    (out = Sleep \<or> out = Return (int (length bs)) \<or> (out = Return (- 1) \<and> killed))"
proof -
  note sp = consoleread_loop_spec[OF assms(1) order_refl assms(2)[unfolded consoleread_def]]
  then have "out \<noteq> Sleep \<longrightarrow> out = Return (int n - int n + int (length bs)) \<or> (out = Return (- 1) \<and> killed)"
    by (elim conjE)
  then have "out = Sleep \<or> out = Return (int (length bs)) \<or> (out = Return (- 1) \<and> killed)"
    by (cases "out = Sleep") simp_all
  with sp show ?thesis by blast
qed

theorem consoleread_delivers_prefix_witness:
  "\<exists>eof. ready (input_abs (boot_console\<lparr>inbuf := (\<lambda>_. 0)(0 := 65), in_w := 1, in_e := 1\<rparr>)) =
     [65] @ eof @ ready (input_abs (boot_console\<lparr>inbuf := (\<lambda>_. 0)(0 := 65), in_r := 1, in_w := 1, in_e := 1\<rparr>))"
proof -
  have "input_inv (boot_console\<lparr>inbuf := (\<lambda>_. 0)(0 := 65), in_w := 1, in_e := 1\<rparr>)"
    by (simp add: input_inv_def boot_console_def)
  moreover have "consoleread False 1 (boot_console\<lparr>inbuf := (\<lambda>_. 0)(0 := 65), in_w := 1, in_e := 1\<rparr>) =
    (boot_console\<lparr>inbuf := (\<lambda>_. 0)(0 := 65), in_r := 1, in_w := 1, in_e := 1\<rparr>, [65], Return 1)"
    by (simp add: consoleread_def boot_console_def)
  ultimately show ?thesis using consoleread_delivers_prefix by blast
qed

text \<open>A one-byte read, as the editor makes it, takes the next byte; control-D gives a count of 0.\<close>

lemma consoleread_one:
  assumes "input_inv con" and "ready (input_abs con) = c # rest"
  shows "\<exists>con'. consoleread killed 1 con =
      (con', if c = 4 then [] else [c], Return (if c = 4 then 0 else 1)) \<and>
      ready (input_abs con') = rest \<and> line (input_abs con') = line (input_abs con) \<and> input_inv con'"
proof -
  have ne: "in_r con \<noteq> in_w con" using assms(2) by (auto simp: input_abs_def)
  note t = input_take[OF assms(1) ne]
  have "inbuf con (unat (in_r con) mod 128) = c" "ready (input_abs (con\<lparr>in_r := in_r con + 1\<rparr>)) = rest"
    using t(1) assms(2) by auto
  then show ?thesis using ne t(2,3)
    by (intro exI[of _ "con\<lparr>in_r := in_r con + 1\<rparr>"]) (simp add: consoleread_def Let_def)
qed

end
