(* ===== verification/Vi_Text.thy ===== *)
theory Vi_Text
  imports Cstring Console
begin

text \<open>
  The editor \<open>vi.c\<close>: its global variables as a record, and the part that needs no screen: line
  and character motions, making and closing holes in the text buffer, character classes.
  Pointers into the buffer are offsets from \<open>text\<close>; the memory beyond the buffer is part of the
  map, so that a store outside it would show. Results: motions go where their comments say and
  stay inside the text, insertion and deletion are insertion and deletion on the list of the
  text's bytes.
\<close>

abbreviation rows :: int where "rows \<equiv> 24"
abbreviation columns :: int where "columns \<equiv> 80"
abbreviation TabLength :: int where "TabLength \<equiv> 4"

record vi =
  mem :: memory
  vend :: int
  textend :: int
  screenbegin :: int
  dot :: int
  editing :: int
  hasChanged :: int
  status_buffer :: memory
  cfn :: "byte list option"
  lastFindChar :: byte
  lastFindString :: "byte list"
  syn_screenbegin :: "int option"
  con :: console
  keys :: "byte list"
  disk_file :: "byte list option"
  open_ok :: bool
  write_stop :: "nat option"
  stack_junk :: byte

text \<open>
  The last six fields are the editor's surroundings: the console; the keys \<open>read(0, &c, 1)\<close>
  will deliver; the file named on the command line (\<open>None\<close>: there is none), whether \<open>open\<close>
  succeeds on it and, if \<open>write\<close> fails, after how many bytes; the value of a local variable
  that is not initialised.
\<close>

section \<open>Character classes\<close>

definition isSpace :: "byte \<Rightarrow> bool" where
  "isSpace c \<longleftrightarrow> c = NL \<or> c = TAB \<or> c = SPC"

definition toLowerCase :: "byte \<Rightarrow> byte" where
  "toLowerCase c = (if 65 \<le> schar c \<and> schar c \<le> 90 then c + (97 - 65) else c)"

definition toUpperCase :: "byte \<Rightarrow> byte" where
  "toUpperCase c = (if 97 \<le> schar c \<and> schar c \<le> 122 then c - (97 - 65) else c)"

definition reverseChar :: "byte \<Rightarrow> byte" where
  "reverseChar c =
     (if 65 \<le> schar c \<and> schar c \<le> 90 then toLowerCase c
      else if 97 \<le> schar c \<and> schar c \<le> 122 then toUpperCase c else c)"

definition isPrintChar :: "byte \<Rightarrow> bool" where
  "isPrintChar c \<longleftrightarrow> (32 \<le> schar c \<and> schar c \<le> 126) \<or> c = NL \<or> c = TAB"

section \<open>Pointers to lines\<close>

function begin_line :: "memory \<Rightarrow> int \<Rightarrow> int" where
  "begin_line m p = (if 0 < p \<and> m (p - 1) \<noteq> NL then begin_line m (p - 1) else p)"
  by pat_completeness auto
termination by (relation "measure (\<lambda>(m, p). nat p)") auto

function end_line :: "memory \<Rightarrow> int \<Rightarrow> int \<Rightarrow> int" where
  "end_line m e p = (if p < e - 1 \<and> m p \<noteq> NL then end_line m e (p + 1) else p)"
  by pat_completeness auto
termination by (relation "measure (\<lambda>(m, e, p). nat (e - p))") auto

definition prev_line :: "memory \<Rightarrow> int \<Rightarrow> int" where
  "prev_line m p =
     (let p1 = begin_line m p; p2 = (if 0 < p1 \<and> m (p1 - 1) = NL then p1 - 1 else p1)
      in begin_line m p2)"

definition next_line :: "memory \<Rightarrow> int \<Rightarrow> int \<Rightarrow> int" where
  "next_line m e p =
     (let p1 = end_line m e p in if p1 < e - 1 \<and> m p1 = NL then p1 + 1 else p1)"

declare begin_line.simps [simp del] end_line.simps [simp del]

section \<open>Moving the dot inside a line\<close>

definition dot_increase :: "vi \<Rightarrow> vi" where
  "dot_increase s = (if dot s < vend s - 1 then s\<lparr>dot := dot s + 1\<rparr> else s)"

definition dot_decrease :: "vi \<Rightarrow> vi" where
  "dot_decrease s = (if 0 < dot s then s\<lparr>dot := dot s - 1\<rparr> else s)"

definition dot_left :: "vi \<Rightarrow> vi" where
  "dot_left s = (if 0 < dot s \<and> mem s (dot s - 1) \<noteq> NL then dot_decrease s else s)"

definition dot_right :: "vi \<Rightarrow> vi" where
  "dot_right s = (if dot s < vend s - 1 \<and> mem s (dot s) \<noteq> NL then dot_increase s else s)"

function dot_head :: "vi \<Rightarrow> vi" where
  "dot_head s = (if 0 < dot s \<and> mem s (dot s - 1) \<noteq> NL then dot_head (dot_decrease s) else s)"
  by pat_completeness auto
termination by (relation "measure (\<lambda>s. nat (dot s))") (auto simp: dot_decrease_def)

function dot_tail :: "vi \<Rightarrow> vi" where
  "dot_tail s = (if dot s < vend s - 1 \<and> mem s (dot s) \<noteq> NL then dot_tail (dot_increase s) else s)"
  by pat_completeness auto
termination by (relation "measure (\<lambda>s. nat (vend s - dot s))") (auto simp: dot_increase_def)

declare dot_head.simps [simp del] dot_tail.simps [simp del]

section \<open>Holes in the text\<close>

text \<open>\<open>memmoveFormEnd2Start\<close> copies from the last byte to the first.\<close>

fun end2start_loop :: "memory \<Rightarrow> int \<Rightarrow> int \<Rightarrow> nat \<Rightarrow> memory" where
  "end2start_loop m to fr 0 = m"
| "end2start_loop m to fr (Suc n) = end2start_loop (m(to := m fr)) (to - 1) (fr - 1) n"

definition memmoveFormEnd2Start :: "memory \<Rightarrow> int \<Rightarrow> int \<Rightarrow> int \<Rightarrow> memory" where
  "memmoveFormEnd2Start m to fr count =
     end2start_loop m (to + count - 1) (fr + count - 1) (nat count)"

definition make_hole_delete :: "int \<Rightarrow> int \<Rightarrow> vi \<Rightarrow> vi" where
  "make_hole_delete st en s =
     (let a = (if en < st then en else st); b = (if en < st then st else en);
          cnt = vend s - b
      in s\<lparr>mem := umemmove (mem s) a (b + 1) cnt, vend := vend s - (b - a + 1)\<rparr>)"

definition make_hole_deleteN :: "int \<Rightarrow> int \<Rightarrow> vi \<Rightarrow> vi" where
  "make_hole_deleteN p n s = make_hole_delete p (p + n - 1) s"

definition make_hole_add :: "int \<Rightarrow> int \<Rightarrow> vi \<Rightarrow> vi \<times> int" where
  "make_hole_add p n s =
     (let q = p + n; cnt = vend s - p + 1
      in if textend s < vend s + n then (s, - 1)
         else (s\<lparr>vend := vend s + n,
                 mem := umemset (memmoveFormEnd2Start (mem s) q p cnt) p 32 (nat n)\<rparr>, n))"

text \<open>A store through a pointer, as in \<open>*dot = c\<close>.\<close>

definition put_byte :: "int \<Rightarrow> byte \<Rightarrow> vi \<Rightarrow> vi" where
  "put_byte p c s = s\<lparr>mem := (mem s)(p := c)\<rparr>"

section \<open>The text as a list of bytes\<close>

definition content :: "vi \<Rightarrow> byte list" where
  "content s = bytes_at (mem s) 0 (nat (vend s))"

definition text_ok :: "vi \<Rightarrow> bool" where
  "text_ok s \<longleftrightarrow> 0 \<le> vend s \<and> vend s \<le> textend s \<and> mem s (vend s) = NUL"

lemma length_content [simp]: "length (content s) = nat (vend s)"
  by (simp add: content_def)

lemma content_nth: "0 \<le> i \<Longrightarrow> i < vend s \<Longrightarrow> content s ! nat i = mem s i"
  by (simp add: content_def)

section \<open>Lines\<close>

text \<open>\<open>line_start\<close> and \<open>line_stop\<close>: what the comments on \<open>begin_line\<close> and \<open>end_line\<close> promise.\<close>

definition line_start :: "memory \<Rightarrow> int \<Rightarrow> int \<Rightarrow> bool" where
  "line_start m p b \<longleftrightarrow>
     0 \<le> b \<and> b \<le> p \<and> (\<forall>i. b \<le> i \<and> i < p \<longrightarrow> m i \<noteq> NL) \<and> (b = 0 \<or> m (b - 1) = NL)"

definition line_stop :: "memory \<Rightarrow> int \<Rightarrow> int \<Rightarrow> int \<Rightarrow> bool" where
  "line_stop m e p q \<longleftrightarrow>
     p \<le> q \<and> q \<le> e - 1 \<and> (\<forall>i. p \<le> i \<and> i < q \<longrightarrow> m i \<noteq> NL) \<and> (q = e - 1 \<or> m q = NL)"

lemma line_start_down: "line_start m (p - 1) b \<Longrightarrow> m (p - 1) \<noteq> NL \<Longrightarrow> line_start m p b"
proof -
  assume a: "line_start m (p - 1) b" "m (p - 1) \<noteq> NL"
  have "m i \<noteq> NL" if "b \<le> i" "i < p" for i
    using a that by (cases "i = p - 1") (auto simp: line_start_def)
  then show ?thesis using a by (auto simp: line_start_def)
qed

lemma line_stop_up: "line_stop m e (p + 1) q \<Longrightarrow> m p \<noteq> NL \<Longrightarrow> line_stop m e p q"
proof -
  assume a: "line_stop m e (p + 1) q" "m p \<noteq> NL"
  have "m i \<noteq> NL" if "p \<le> i" "i < q" for i
    using a that by (cases "i = p") (auto simp: line_stop_def)
  then show ?thesis using a by (auto simp: line_stop_def)
qed

lemma begin_line_start: "0 \<le> p \<Longrightarrow> line_start m p (begin_line m p)"
proof (induction m p rule: begin_line.induct)
  case (1 m p)
  show ?case
  proof (cases "0 < p \<and> m (p - 1) \<noteq> NL")
    case True
    then have "line_start m (p - 1) (begin_line m (p - 1))" using 1 by simp
    then have "line_start m p (begin_line m (p - 1))"
      using True line_start_down by blast
    then show ?thesis using True by (simp add: begin_line.simps[of m p])
  next
    case False
    then have "begin_line m p = p" by (subst begin_line.simps) auto
    with False "1.prems" show ?thesis by (auto simp: line_start_def)
  qed
qed

lemma line_start_unique: "line_start m p b \<Longrightarrow> line_start m p b' \<Longrightarrow> b = b'"
proof -
  have le: "b \<le> b'" if "line_start m p b" "line_start m p b'" for b b'
    using that by (cases "b' < b") (auto simp: line_start_def)
  show "line_start m p b \<Longrightarrow> line_start m p b' \<Longrightarrow> b = b'" using le by (meson order_antisym)
qed

lemma end_line_stop: "p \<le> e - 1 \<Longrightarrow> line_stop m e p (end_line m e p)"
proof (induction m e p rule: end_line.induct)
  case (1 m e p)
  show ?case
  proof (cases "p < e - 1 \<and> m p \<noteq> NL")
    case True
    then have "line_stop m e (p + 1) (end_line m e (p + 1))" using 1 by simp
    then have "line_stop m e p (end_line m e (p + 1))"
      using True line_stop_up by blast
    then show ?thesis using True by (simp add: end_line.simps[of m e p])
  next
    case False
    then have "end_line m e p = p" by (subst end_line.simps) auto
    with False "1.prems" show ?thesis by (auto simp: line_stop_def)
  qed
qed

lemma end_line_past: "e - 1 \<le> p \<Longrightarrow> end_line m e p = p"
  by (subst end_line.simps) auto

lemma begin_line_range [simp]: "0 \<le> p \<Longrightarrow> 0 \<le> begin_line m p" "begin_line m p \<le> p"
proof -
  show "0 \<le> p \<Longrightarrow> 0 \<le> begin_line m p" using begin_line_start[of p m] by (simp add: line_start_def)
  show "begin_line m p \<le> p"
  proof (cases "0 \<le> p")
    case True then show ?thesis using begin_line_start[of p m] by (simp add: line_start_def)
  next
    case False then show ?thesis by (subst begin_line.simps) simp
  qed
qed

lemma end_line_range: "p \<le> end_line m e p" "p \<le> e - 1 \<Longrightarrow> end_line m e p \<le> e - 1"
proof -
  show "p \<le> e - 1 \<Longrightarrow> end_line m e p \<le> e - 1" using end_line_stop[of p e m] by (simp add: line_stop_def)
  show "p \<le> end_line m e p"
    using end_line_stop[of p e m] end_line_past[of e p m] by (cases "p \<le> e - 1") (auto simp: line_stop_def)
qed

lemma next_line_range:
  "p \<le> next_line m e p" "p \<le> e - 1 \<Longrightarrow> next_line m e p \<le> e - 1"
  using end_line_range(1)[of p m e] end_line_range(2)[of p e m] by (auto simp: next_line_def Let_def)

lemma prev_line_range: "0 \<le> p \<Longrightarrow> 0 \<le> prev_line m p \<and> prev_line m p \<le> p"
proof -
  assume p: "0 \<le> p"
  have "prev_line m p \<le> begin_line m p"
    by (auto simp: prev_line_def Let_def intro: order_trans[OF begin_line_range(2)])
  moreover have "begin_line m p \<le> p" by simp
  moreover have "0 \<le> prev_line m p" using p by (auto simp: prev_line_def Let_def)
  ultimately show ?thesis by linarith
qed

lemma dot_head_eq: "dot_head s = s\<lparr>dot := begin_line (mem s) (dot s)\<rparr>"
proof (induction s rule: dot_head.induct)
  case (1 s)
  show ?case
  proof (cases "0 < dot s \<and> mem s (dot s - 1) \<noteq> NL")
    case True
    then show ?thesis using 1 by (simp add: dot_head.simps[of s] begin_line.simps[of "mem s" "dot s"] dot_decrease_def)
  next
    case False
    then have "dot_head s = s" by (subst dot_head.simps) auto
    moreover have "begin_line (mem s) (dot s) = dot s" using False by (subst begin_line.simps) auto
    ultimately show ?thesis by simp
  qed
qed

lemma dot_tail_eq: "dot_tail s = s\<lparr>dot := end_line (mem s) (vend s) (dot s)\<rparr>"
proof (induction s rule: dot_tail.induct)
  case (1 s)
  show ?case
  proof (cases "dot s < vend s - 1 \<and> mem s (dot s) \<noteq> NL")
    case True
    then show ?thesis using 1 by (simp add: dot_tail.simps[of s] end_line.simps[of "mem s" "vend s" "dot s"] dot_increase_def)
  next
    case False
    then have "dot_tail s = s" by (subst dot_tail.simps) auto
    moreover have "end_line (mem s) (vend s) (dot s) = dot s" using False by (subst end_line.simps) auto
    ultimately show ?thesis by simp
  qed
qed

text \<open>
  on a non-empty text with the dot on a character, the commands \<open>^\<close> and \<open>$\<close> of \<open>vi.c\<close>
  (\<open>dot_head\<close>, \<open>dot_tail\<close>) put the dot on the first character of its line and on its line end
  (or the last character of the text), and change nothing else.
\<close>

theorem dot_head_tail_correct:
  assumes "0 \<le> dot s" and "dot s < vend s"
  shows "line_start (mem s) (dot s) (dot (dot_head s)) \<and> dot_head s = s\<lparr>dot := dot (dot_head s)\<rparr> \<and>
         line_stop (mem s) (vend s) (dot s) (dot (dot_tail s)) \<and> dot_tail s = s\<lparr>dot := dot (dot_tail s)\<rparr>"
  using begin_line_start[OF assms(1), of "mem s"] end_line_stop[of "dot s" "vend s" "mem s"] assms
  by (simp add: dot_head_eq dot_tail_eq)

section \<open>Insertion and deletion on the list of bytes\<close>

lemma end2start_copy_down: "end2start_loop m to fr n = copy_down m (to + 1) (fr + 1) n"
  by (induction n arbitrary: m to fr) (simp_all add: algebra_simps)

lemma memmoveFormEnd2Start_ref:
  assumes "fr \<le> to" and "0 \<le> count"
  shows "memmoveFormEnd2Start m to fr count = move_ref m to fr (nat count)"
proof -
  have "memmoveFormEnd2Start m to fr count = copy_down m (to + int (nat count)) (fr + int (nat count)) (nat count)"
    using assms(2) by (simp add: memmoveFormEnd2Start_def end2start_copy_down)
  then show ?thesis using copy_down_ref[OF assms(1), of m "nat count"] by metis
qed

lemma umemmove_down_ref: "dst \<le> src \<Longrightarrow> umemmove m dst src n = move_ref m dst src (nat n)"
  by (simp add: umemmove_def copy_up_ref)

lemma make_hole_delete_mem:
  assumes "a \<le> b" "b < vend s"
  shows "make_hole_delete a b s =
     s\<lparr>mem := (\<lambda>i. if a \<le> i \<and> i \<le> vend s - (b - a + 1) then mem s (i + (b - a + 1)) else mem s i),
       vend := vend s - (b - a + 1)\<rparr>"
proof -
  have "move_ref (mem s) a (b + 1) (nat (vend s - b)) =
     (\<lambda>i. if a \<le> i \<and> i \<le> vend s - (b - a + 1) then mem s (i + (b - a + 1)) else mem s i)"
    using assms by (auto simp: move_ref_def fun_eq_iff algebra_simps)
  then show ?thesis
    using assms by (simp add: make_hole_delete_def umemmove_down_ref Let_def)
qed

lemma make_hole_delete_list:
  assumes "text_ok s" "0 \<le> a" "a \<le> b" "b < vend s"
  shows "content (make_hole_delete a b s) = take (nat a) (content s) @ drop (nat (b + 1)) (content s)"
    and "text_ok (make_hole_delete a b s)"
    and "vend (make_hole_delete a b s) = vend s - (b - a + 1)"
    and "i < a \<or> vend s < i \<Longrightarrow> mem (make_hole_delete a b s) i = mem s i"
proof -
  note m = make_hole_delete_mem[OF assms(3,4)]
  show v: "vend (make_hole_delete a b s) = vend s - (b - a + 1)" by (simp add: m)
  show "i < a \<or> vend s < i \<Longrightarrow> mem (make_hole_delete a b s) i = mem s i"
    using assms by (auto simp: m)
  show "text_ok (make_hole_delete a b s)" using assms by (simp add: m text_ok_def)
  show "content (make_hole_delete a b s) = take (nat a) (content s) @ drop (nat (b + 1)) (content s)"
  proof (rule nth_equalityI)
    show "length (content (make_hole_delete a b s)) =
          length (take (nat a) (content s) @ drop (nat (b + 1)) (content s))"
      using assms by (simp add: v)
    fix i assume "i < length (content (make_hole_delete a b s))"
    then have i: "int i < vend s - (b - a + 1)" by (simp add: v)
    have idx: "nat (b + 1) + (i - nat a) = nat (int i + (b - a + 1))" if "\<not> i < nat a"
      using that assms by linarith
    show "content (make_hole_delete a b s) ! i =
          (take (nat a) (content s) @ drop (nat (b + 1)) (content s)) ! i"
      using i assms idx by (auto simp: m nth_append content_def)
  qed
qed

lemma make_hole_add_mem:
  assumes "0 \<le> p" "p \<le> vend s" "0 \<le> n" "vend s + n \<le> textend s"
  shows "make_hole_add p n s =
     (s\<lparr>vend := vend s + n,
        mem := (\<lambda>i. if p \<le> i \<and> i < p + n then SPC
                    else if p + n \<le> i \<and> i \<le> vend s + n then mem s (i - n) else mem s i)\<rparr>, n)"
proof -
  have "umemset (move_ref (mem s) (p + n) p (nat (vend s - p + 1))) p 32 (nat n) =
     (\<lambda>i. if p \<le> i \<and> i < p + n then SPC
          else if p + n \<le> i \<and> i \<le> vend s + n then mem s (i - n) else mem s i)"
  proof (rule ext)
    fix i
    have len: "int (nat (vend s - p + 1)) = vend s - p + 1" "int (nat n) = n" using assms by auto
    have sh: "p + (i - (p + n)) = i - n" by simp
    have "i < p + n + (vend s - p + 1) \<longleftrightarrow> i \<le> vend s + n" by linarith
    then show "umemset (move_ref (mem s) (p + n) p (nat (vend s - p + 1))) p 32 (nat n) i =
      (if p \<le> i \<and> i < p + n then SPC
       else if p + n \<le> i \<and> i \<le> vend s + n then mem s (i - n) else mem s i)"
      by (simp only: umemset_fill fill_ref_def move_ref_def len sh) simp
  qed
  then show ?thesis
    using assms by (simp add: make_hole_add_def memmoveFormEnd2Start_ref Let_def)
qed

lemma make_hole_add_list:
  assumes "text_ok s" "0 \<le> p" "p \<le> vend s" "0 \<le> n" "vend s + n \<le> textend s"
  defines "s' \<equiv> fst (make_hole_add p n s)"
  shows "content s' = take (nat p) (content s) @ replicate (nat n) SPC @ drop (nat p) (content s)"
    and "text_ok s'" and "vend s' = vend s + n"
    and "i < p \<or> vend s + n < i \<Longrightarrow> mem s' i = mem s i"
proof -
  note m = make_hole_add_mem[OF assms(2-5)]
  show v: "vend s' = vend s + n" by (simp add: s'_def m)
  show "i < p \<or> vend s + n < i \<Longrightarrow> mem s' i = mem s i" using assms(1-5) by (auto simp: s'_def m)
  show "text_ok s'" using assms(1-5) by (simp add: s'_def m text_ok_def)
  show "content s' = take (nat p) (content s) @ replicate (nat n) SPC @ drop (nat p) (content s)"
  proof (rule nth_equalityI)
    show "length (content s') =
          length (take (nat p) (content s) @ replicate (nat n) SPC @ drop (nat p) (content s))"
      using assms(1-5) by (simp add: v)
    fix i assume "i < length (content s')"
    then have i: "int i < vend s + n" by (simp add: v)
    have idx: "nat p + (i - nat p - nat n) = nat (int i - n)" if "\<not> i < nat p" "\<not> i - nat p < nat n"
      using that assms(1-5) by linarith
    show "content s' ! i = (take (nat p) (content s) @ replicate (nat n) SPC @ drop (nat p) (content s)) ! i"
      using i assms(1-5) idx by (auto simp: s'_def m nth_append content_def)
  qed
qed

text \<open>A state with a given text in a buffer of the minimal size, for concrete runs.\<close>

definition vi_sample :: "byte list \<Rightarrow> vi" where
  "vi_sample bs =
     \<lparr>mem = (\<lambda>i. if 0 \<le> i \<and> i < int (length bs) then bs ! nat i else 0),
      vend = int (length bs), textend = 10240, screenbegin = 0, dot = 0, editing = 1,
      hasChanged = 0, status_buffer = (\<lambda>_. 0), cfn = Some [102], lastFindChar = 0,
      lastFindString = [], syn_screenbegin = None, con = boot_console, keys = [],
      disk_file = Some bs, open_ok = True, write_stop = None, stack_junk = 0\<rparr>"

lemma vi_sample_sel [simp]:
  "vend (vi_sample bs) = int (length bs)" "textend (vi_sample bs) = 10240"
  "dot (vi_sample bs) = 0" "screenbegin (vi_sample bs) = 0" "hasChanged (vi_sample bs) = 0"
  "disk_file (vi_sample bs) = Some bs" "open_ok (vi_sample bs)" "write_stop (vi_sample bs) = None"
  "status_buffer (vi_sample bs) = (\<lambda>_. 0)" "keys (vi_sample bs) = []" "stack_junk (vi_sample bs) = 0"
  "editing (vi_sample bs) = 1" "con (vi_sample bs) = boot_console"
  by (simp_all add: vi_sample_def)

lemma text_ok_sample: "length bs \<le> 10240 \<Longrightarrow> text_ok (vi_sample bs)"
  by (simp add: text_ok_def vi_sample_def)

lemma content_sample: "content (vi_sample bs) = bs"
  by (rule nth_equalityI) (simp_all add: content_def vi_sample_def)

theorem dot_head_tail_correct_witness:
  "line_start (mem (vi_sample [65, 66])) 0 (dot (dot_head (vi_sample [65, 66]))) \<and>
   line_stop (mem (vi_sample [65, 66])) 2 0 (dot (dot_tail (vi_sample [65, 66])))"
proof -
  have d: "0 \<le> dot (vi_sample [65, 66])" "dot (vi_sample [65, 66]) < vend (vi_sample [65, 66])"
    by (simp_all add: vi_sample_def)
  have "dot (vi_sample [65, 66]) = 0" "vend (vi_sample [65, 66]) = 2" by (simp_all add: vi_sample_def)
  then show ?thesis using dot_head_tail_correct[OF d] by simp
qed

text \<open>
  \<open>make_hole_add\<close> (\<open>vi.c\<close>) either finds the buffer too small, returns -1 and changes
  nothing, or inserts exactly \<open>n\<close> spaces at \<open>p\<close> into the text, keeps the terminating NUL and
  the buffer's bound, and writes no byte before \<open>p\<close> or after the new end.
\<close>

theorem make_hole_add_correct:
  assumes "text_ok s" and "0 \<le> p" and "p \<le> vend s" and "0 \<le> n"
  shows "(textend s < vend s + n \<and> make_hole_add p n s = (s, - 1)) \<or>
         (\<exists>s'. make_hole_add p n s = (s', n) \<and>
            content s' = take (nat p) (content s) @ replicate (nat n) SPC @ drop (nat p) (content s) \<and>
            text_ok s' \<and> dot s' = dot s \<and> (\<forall>i. i < p \<or> vend s + n < i \<longrightarrow> mem s' i = mem s i))"
proof (cases "textend s < vend s + n")
  case True
  then show ?thesis by (simp add: make_hole_add_def)
next
  case False
  then have f: "vend s + n \<le> textend s" by simp
  have "make_hole_add p n s = (fst (make_hole_add p n s), n)" "dot (fst (make_hole_add p n s)) = dot s"
    using make_hole_add_mem[OF assms(2-4) f] by simp_all
  with make_hole_add_list[OF assms f] show ?thesis by blast
qed

theorem make_hole_add_correct_witness:
  "\<exists>s'. make_hole_add 1 2 (vi_sample [65, 66]) = (s', 2) \<and> content s' = [65, 32, 32, 66]"
proof -
  have "text_ok (vi_sample [65, 66])" by (rule text_ok_sample) simp
  from make_hole_add_correct[OF this, of 1 2] show ?thesis
    by (auto simp: content_sample numeral_2_eq_2)
qed

text \<open>
  \<open>make_hole_delete\<close> (\<open>vi.c\<close>) on a range inside the text, given in either order, removes
  exactly that range, keeps the terminating NUL, and writes no byte before the range or after
  the old end.
\<close>

theorem make_hole_delete_correct:
  assumes "text_ok s" and "0 \<le> a" and "a \<le> b" and "b < vend s"
  shows "make_hole_delete b a s = make_hole_delete a b s \<and>
         content (make_hole_delete a b s) = take (nat a) (content s) @ drop (nat (b + 1)) (content s) \<and>
         text_ok (make_hole_delete a b s) \<and> dot (make_hole_delete a b s) = dot s \<and>
         (\<forall>i. i < a \<or> vend s < i \<longrightarrow> mem (make_hole_delete a b s) i = mem s i)"
  using make_hole_delete_list[OF assms] assms(3) by (auto simp: make_hole_delete_def Let_def)

theorem make_hole_delete_correct_witness:
  "content (make_hole_delete 1 1 (vi_sample [65, 66, 67])) = [65, 67]"
proof -
  have "text_ok (vi_sample [65, 66, 67])" by (rule text_ok_sample) simp
  from make_hole_delete_correct[OF this, of 1 1] show ?thesis
    by (simp add: content_sample numeral_2_eq_2)
qed

text \<open>
  closing a hole undoes making it: after \<open>make_hole_add\<close> of \<open>n\<close> bytes at \<open>p\<close>,
  \<open>make_hole_deleteN\<close> of \<open>n\<close> bytes at \<open>p\<close> gives the text back.
\<close>

theorem make_hole_roundtrip:
  assumes "text_ok s" and "0 \<le> p" and "p \<le> vend s" and "0 < n" and "vend s + n \<le> textend s"
  shows "content (make_hole_deleteN p n (fst (make_hole_add p n s))) = content s"
proof -
  let ?s = "fst (make_hole_add p n s)"
  have n: "0 \<le> n" using assms by simp
  note add = make_hole_add_list[OF assms(1-3) n assms(5)]
  have "content (make_hole_delete p (p + n - 1) ?s) = take (nat p) (content ?s) @ drop (nat (p + n - 1 + 1)) (content ?s)"
    using add(2,3) assms by (intro make_hole_delete_list) auto
  moreover have "nat (p + n) = nat p + nat n" using assms by (simp add: nat_add_distrib)
  moreover have "nat p \<le> nat (vend s)" using assms by simp
  ultimately show ?thesis by (simp add: make_hole_deleteN_def add(1))
qed

theorem make_hole_roundtrip_witness:
  "content (make_hole_deleteN 1 2 (fst (make_hole_add 1 2 (vi_sample [65, 66])))) = content (vi_sample [65, 66])"
  by (rule make_hole_roundtrip) (simp_all add: text_ok_sample)

end
