(* ===== verification/Vi_Screen.thy ===== *)
theory Vi_Screen
  imports Vi_Text
begin

text \<open>
  The editor's screen (\<open>vi.c\<close>): the cursor position computed from the text, scrolling, drawing,
  the status line. A function that may run for ever (or that the kernel never returns from,
  because it panics) has an option value: \<open>None\<close> is "does not return". Results: the computed
  cursor position is the cell where the console draws the character under the dot; scrolling
  returns when the line of the dot is shorter than the screen.
\<close>

text \<open>A kernel call made by the editor: a panic never returns.\<close>

definition syscall :: "'a kernel \<Rightarrow> 'a option" where
  "syscall r = (case r of Inl _ \<Rightarrow> None | Inr v \<Rightarrow> Some v)"

lemma syscall_simps [simp]: "syscall (Inl e) = None" "syscall (Inr v) = Some v"
  by (simp_all add: syscall_def)

section \<open>The cursor position\<close>

definition count_step :: "byte \<Rightarrow> int \<Rightarrow> int" where
  "count_step c cnt =
     (if 32 \<le> schar c \<and> schar c \<le> 126 then cnt + 1
      else if c = TAB then cnt + TabLength
      else if c = NL then
        (let cnt' = cnt + 1
         in if cnt' mod columns \<noteq> 0 then cnt' div columns * columns + columns else cnt')
      else cnt)"

function count_loop :: "memory \<Rightarrow> int \<Rightarrow> int \<Rightarrow> int \<Rightarrow> int" where
  "count_loop m p d cnt = (if p < d then count_loop m (p + 1) d (count_step (m p) cnt) else cnt)"
  by pat_completeness auto
termination by (relation "measure (\<lambda>(m, p, d, cnt). nat (d - p))") auto

declare count_loop.simps [simp del]

definition countCursorPosFromScreenBegin2Dot :: "vi \<Rightarrow> vi \<times> int" where
  "countCursorPosFromScreenBegin2Dot s =
     (let s' = (if dot s < screenbegin s then s\<lparr>screenbegin := begin_line (mem s) (dot s)\<rparr> else s)
      in (s', count_loop (mem s') (screenbegin s') (dot s') 0))"

partial_function (option) modify_loop :: "vi \<Rightarrow> vi option" where
  "modify_loop s =
     (case countCursorPosFromScreenBegin2Dot s of (s', cnt) \<Rightarrow>
        if rows * columns \<le> cnt
        then modify_loop (s'\<lparr>screenbegin := next_line (mem s') (vend s') (screenbegin s')\<rparr>)
        else Some s')"

definition modifyScreenBegin :: "vi \<Rightarrow> vi option" where
  "modifyScreenBegin s =
     modify_loop (if dot s < screenbegin s then s\<lparr>screenbegin := begin_line (mem s) (dot s)\<rparr> else s)"

section \<open>Drawing\<close>

definition redraw :: "vi \<Rightarrow> vi option" where
  "redraw s = do {
     s1 \<leftarrow> modifyScreenBegin (s\<lparr>con := clearScreen (con s)\<rparr>);
     len \<leftarrow> strlen (mem s1) (screenbegin s1);
     c \<leftarrow> syscall (copyFromTextToScreen (mem s1) (screenbegin s1) 0 len (con s1));
     Some (s1\<lparr>con := c\<rparr>)
   }"

definition synchronize :: "vi \<Rightarrow> vi option" where
  "synchronize s = do {
     s1 \<leftarrow> modifyScreenBegin s;
     s2 \<leftarrow> (if syn_screenbegin s1 \<noteq> Some (screenbegin s1)
           then redraw (s1\<lparr>syn_screenbegin := Some (screenbegin s1)\<rparr>) else Some s1);
     (case countCursorPosFromScreenBegin2Dot s2 of (s3, pos) \<Rightarrow> do {
        c \<leftarrow> syscall (setCursorPos (pos div columns) (pos mod columns) (con s3));
        Some (s3\<lparr>con := c\<rparr>)
      })
   }"

text \<open>
  \<open>printf(1, "%s", p)\<close>: every byte up to the NUL goes to the console. The status buffer is 128
  bytes from \<open>malloc\<close>; its byte 78 is never written.
\<close>

definition print_cstr :: "memory \<Rightarrow> addr \<Rightarrow> console \<Rightarrow> console option" where
  "print_cstr m p c = do {
     n \<leftarrow> strlen m p;
     syscall (consolewrite (bytes_at m p (nat n)) c)
   }"

definition printOnStatusLine :: "byte list \<Rightarrow> vi \<Rightarrow> vi option" where
  "printOnStatusLine msg s = do {
     let sb = (umemset (status_buffer s) 0 32 (nat (columns - 2)))(columns - 1 := NL);
     let pos = getCursorPos (con s);
     c1 \<leftarrow> syscall (setCursorPos rows 0 (con s));
     c2 \<leftarrow> print_cstr sb 0 c1;
     c3 \<leftarrow> syscall (setCursorPos rows 0 c2);
     c4 \<leftarrow> syscall (consolewrite msg c3);
     c5 \<leftarrow> syscall (setCursorPos (pos div columns) (pos mod columns) c4);
     Some (s\<lparr>status_buffer := sb, con := c5\<rparr>)
   }"

fun blank_status :: "nat \<Rightarrow> int \<Rightarrow> console \<Rightarrow> console kernel" where
  "blank_status 0 i c = Inr c"
| "blank_status (Suc n) i c = kbind (writeAt rows i 0 c) (blank_status n (i + 1))"

definition showStatusLine :: "vi \<Rightarrow> vi option" where
  "showStatusLine s = do {
     let pos = getCursorPos (con s);
     c1 \<leftarrow> syscall (blank_status (nat (columns - 1)) 0 (con s));
     c2 \<leftarrow> syscall (setCursorPos rows 0 c1);
     c3 \<leftarrow> print_cstr (status_buffer s) 0 c2;
     c4 \<leftarrow> syscall (setCursorPos (pos div 80) (pos mod 80) c3);
     Some (s\<lparr>con := c4\<rparr>)
   }"

section \<open>Counting cells\<close>

lemma count_loop_end [simp]: "d \<le> p \<Longrightarrow> count_loop m p d cnt = cnt"
  by (subst count_loop.simps) simp

lemma count_loop_step: "p < d \<Longrightarrow> count_loop m p d cnt = count_loop m (p + 1) d (count_step (m p) cnt)"
  by (subst count_loop.simps) simp

text \<open>The rounding of a line end: the next multiple of 80, also from the last cell of a row.\<close>

lemma row_round:
  "(if (x + 1) mod 80 \<noteq> 0 then (x + 1) div 80 * 80 + 80 else x + 1) = (x div 80 + 1) * (80::int)"
proof (cases "(x + 1) mod 80 = 0")
  case True
  then obtain q where q: "x + 1 = 80 * q" by (auto simp: dvd_def mod_eq_0_iff_dvd)
  then have "x = 80 * (q - 1) + 79" by simp
  then have "x div 80 = q - 1" by simp
  with True q show ?thesis by simp
next
  case False
  define q r where "q = x div 80" and "r = x mod 80"
  have x: "x = 80 * q + r" "0 \<le> r" "r < 80" by (simp_all add: q_def r_def)
  from False x have "r + 1 < 80" by (cases "r = 79") auto
  with x have "(x + 1) div 80 = q" by (simp add: add.assoc)
  then have "(x + 1) div 80 = x div 80" by (simp add: q_def)
  with False show ?thesis by simp
qed

lemma count_step_NL: "count_step NL cnt = (cnt div 80 + 1) * 80"
  using row_round[of cnt] by (simp add: count_step_def Let_def)

lemma row_up_le: "(cnt::int) < (cnt div 80 + 1) * 80"
  using div_mult_mod_eq[of cnt 80] pos_mod_bound[of 80 cnt] by simp

lemma count_step_ge: "cnt \<le> count_step c cnt"
  using row_up_le[of cnt] by (cases "c = NL") (auto simp: count_step_NL, auto simp: count_step_def)

lemma count_step_mono: "cnt \<le> cnt' \<Longrightarrow> count_step c cnt \<le> count_step c cnt'"
  using zdiv_mono1[of cnt cnt' 80] by (cases "c = NL") (auto simp: count_step_NL, auto simp: count_step_def)

lemma count_step_shift: "count_step c (cnt + 80 * k) = count_step c cnt + 80 * k"
  by (cases "c = NL") (auto simp: count_step_NL, auto simp: count_step_def)

lemma count_loop_ge: "cnt \<le> count_loop m p d cnt"
proof (induction m p d cnt rule: count_loop.induct)
  case (1 m p d cnt)
  then show ?case
    by (cases "p < d") (auto simp: count_loop_step intro: order_trans[OF count_step_ge])
qed

lemma count_loop_mono: "cnt \<le> cnt' \<Longrightarrow> count_loop m p d cnt \<le> count_loop m p d cnt'"
proof (induction m p d cnt arbitrary: cnt' rule: count_loop.induct)
  case (1 m p d cnt)
  then show ?case by (cases "p < d") (auto simp: count_loop_step intro: count_step_mono)
qed

lemma count_loop_shift: "count_loop m p d (cnt + 80 * k) = count_loop m p d cnt + 80 * k"
proof (induction m p d cnt rule: count_loop.induct)
  case (1 m p d cnt)
  then show ?case by (cases "p < d") (auto simp: count_loop_step count_step_shift)
qed

lemma count_loop_split: "p \<le> q \<Longrightarrow> q \<le> d \<Longrightarrow> count_loop m p d cnt = count_loop m q d (count_loop m p q cnt)"
proof (induction m p d cnt rule: count_loop.induct)
  case (1 m p d cnt)
  then show ?case by (cases "p = q") (auto simp: count_loop_step)
qed

text \<open>The count of a text whose last character is a line end is a whole number of rows.\<close>

lemma count_loop_line:
  assumes "p < q" "m (q - 1) = NL"
  shows "\<exists>k \<ge> 0. count_loop m p q 0 = 80 * k"
proof -
  have "count_loop m p q 0 = count_loop m (q - 1) q (count_loop m p (q - 1) 0)"
    using assms by (intro count_loop_split) auto
  also have "\<dots> = count_step NL (count_loop m p (q - 1) 0)"
    using assms count_loop_step[of "q - 1" q m] by simp
  also have "\<dots> = 80 * (count_loop m p (q - 1) 0 div 80 + 1)" by (simp add: count_step_NL)
  finally show ?thesis
    using count_loop_ge[of 0 m p "q - 1"] by (intro exI[of _ "count_loop m p (q - 1) 0 div 80 + 1"]) auto
qed

lemma count_from_later:
  assumes "p \<le> q" "q \<le> d"
  shows "count_loop m q d 0 \<le> count_loop m p d 0"
  using count_loop_split[OF assms, of m 0] count_loop_mono[of 0 "count_loop m p q 0" m q d] count_loop_ge[of 0 m p q]
  by simp

section \<open>Scrolling returns\<close>

lemma modify_loop_done:
  "countCursorPosFromScreenBegin2Dot s = (s', cnt) \<Longrightarrow> cnt < 1920 \<Longrightarrow> modify_loop s = Some s'"
  by (subst modify_loop.simps) simp

lemma modify_loop_more:
  "countCursorPosFromScreenBegin2Dot s = (s', cnt) \<Longrightarrow> 1920 \<le> cnt \<Longrightarrow>
   modify_loop s = modify_loop (s'\<lparr>screenbegin := next_line (mem s') (vend s') (screenbegin s')\<rparr>)"
  by (subst modify_loop.simps) simp

text \<open>The next line of a line before the one of \<open>d\<close> starts at or before it.\<close>

lemma next_line_before:
  assumes "0 \<le> p" "p < begin_line m d" "0 \<le> d" "d \<le> e - 1"
  shows "p < next_line m e p" "next_line m e p \<le> begin_line m d"
proof -
  define b where "b = begin_line m d"
  have b: "b \<le> d" "m (b - 1) = NL" "p \<le> b - 1"
    using begin_line_start[of d m] assms by (auto simp: line_start_def b_def)
  have st: "line_stop m e p (end_line m e p)" using b assms by (intro end_line_stop) simp
  have "\<not> b - 1 < end_line m e p" using st b by (auto simp: line_stop_def)
  then have le: "end_line m e p \<le> b - 1" by simp
  then have "m (end_line m e p) = NL" using st b assms by (auto simp: line_stop_def)
  with le b assms have "next_line m e p = end_line m e p + 1" by (simp add: next_line_def)
  with le st show "p < next_line m e p" "next_line m e p \<le> begin_line m d"
    by (auto simp: line_stop_def b_def)
qed

lemma end_line_from_start:
  assumes "line_start m d b" "d \<le> e - 1"
  shows "end_line m e b = end_line m e d"
proof -
  have le: "q \<le> q'" if "line_stop m e b q" "line_stop m e b q'" for q q'
    using that by (cases "q' < q") (auto simp: line_stop_def)
  have st: "line_stop m e d (end_line m e d)" using assms(2) by (rule end_line_stop)
  have "m i \<noteq> NL" if "b \<le> i" "i < end_line m e d" for i
    using that assms(1) st by (cases "i < d") (auto simp: line_stop_def line_start_def)
  then have "line_stop m e b (end_line m e d)"
    using assms(1) st by (auto simp: line_stop_def line_start_def)
  moreover have "line_stop m e b (end_line m e b)"
    using assms by (intro end_line_stop) (simp add: line_start_def)
  ultimately show ?thesis using le by (meson order_antisym)
qed

definition dot_ok :: "vi \<Rightarrow> bool" where
  "dot_ok s \<longleftrightarrow> 0 \<le> dot s \<and> dot s \<le> vend s - 1 \<and> 0 \<le> screenbegin s"

text \<open>The width on the screen of the part of the dot's line before the dot.\<close>

definition dot_width :: "vi \<Rightarrow> int" where
  "dot_width s = count_loop (mem s) (begin_line (mem s) (dot s)) (dot s) 0"

lemma modify_loop_returns:
  assumes "dot_ok s" "dot_width s < 1920"
  shows "\<exists>sb. modify_loop s = Some (s\<lparr>screenbegin := sb\<rparr>) \<and> 0 \<le> sb \<and> sb \<le> dot s \<and>
     count_loop (mem s) sb (dot s) 0 < 1920"
  using assms
proof (induction "nat (dot s - screenbegin s)" arbitrary: s rule: less_induct)
  case less
  let ?m = "mem s" and ?d = "dot s" and ?sb = "screenbegin s" and ?bl = "begin_line (mem s) (dot s)"
  have d: "0 \<le> ?d" "?d \<le> vend s - 1" "0 \<le> ?sb" using less.prems by (auto simp: dot_ok_def)
  show ?case
  proof (cases "?d < ?sb")
    case True
    then have "modify_loop s = Some (s\<lparr>screenbegin := ?bl\<rparr>)"
      using less.prems(2) by (intro modify_loop_done)
        (auto simp: countCursorPosFromScreenBegin2Dot_def dot_width_def)
    then show ?thesis using less.prems(2) d by (intro exI[of _ ?bl]) (simp add: dot_width_def)
  next
    case False
    then have cnt: "countCursorPosFromScreenBegin2Dot s = (s, count_loop ?m ?sb ?d 0)"
      by (simp add: countCursorPosFromScreenBegin2Dot_def)
    show ?thesis
    proof (cases "count_loop ?m ?sb ?d 0 < 1920")
      case True
      then show ?thesis using modify_loop_done[OF cnt] d False by (intro exI[of _ ?sb]) simp
    next
      case big: False
      have "?sb < ?bl"
        using count_from_later[of ?bl ?sb ?d ?m] big False less.prems(2) by (force simp: dot_width_def)
      note nl = next_line_before[OF d(3) this d(1,2)]
      define s1 where "s1 = s\<lparr>screenbegin := next_line ?m (vend s) ?sb\<rparr>"
      have eq: "modify_loop s = modify_loop s1" using modify_loop_more[OF cnt] big by (simp add: s1_def)
      have "?bl \<le> ?d" by simp
      with nl have lt: "?sb < ?d" by linarith
      have "\<exists>sb. modify_loop s1 = Some (s1\<lparr>screenbegin := sb\<rparr>) \<and> 0 \<le> sb \<and> sb \<le> dot s1 \<and>
              count_loop (mem s1) sb (dot s1) 0 < 1920"
        using nl lt less.prems d by (intro less.hyps) (auto simp: s1_def dot_ok_def dot_width_def)
      then show ?thesis unfolding eq by (simp add: s1_def)
    qed
  qed
qed

lemma modifyScreenBegin_returns:
  assumes "dot_ok s" "dot_width s < 1920"
  shows "\<exists>sb. modifyScreenBegin s = Some (s\<lparr>screenbegin := sb\<rparr>) \<and> 0 \<le> sb \<and> sb \<le> dot s \<and>
     count_loop (mem s) sb (dot s) 0 < 1920"
proof -
  define s1 where "s1 = (if dot s < screenbegin s then s\<lparr>screenbegin := begin_line (mem s) (dot s)\<rparr> else s)"
  have "dot_ok s1" "dot_width s1 < 1920" using assms by (auto simp: s1_def dot_ok_def dot_width_def)
  from modify_loop_returns[OF this] show ?thesis
    by (auto simp: modifyScreenBegin_def s1_def split: if_splits)
qed

text \<open>
  scrolling (\<open>modifyScreenBegin\<close>, \<open>vi.c\<close>) returns whenever the part of the dot's line before
  the dot is less than the 24 rows of the screen wide; only \<open>screenbegin\<close> changes, to a position
  at or before the dot from which the dot is on the screen.
\<close>

theorem modifyScreenBegin_correct:
  assumes "dot_ok s" "dot_width s < 1920"
  shows "\<exists>sb. modifyScreenBegin s = Some (s\<lparr>screenbegin := sb\<rparr>) \<and> 0 \<le> sb \<and> sb \<le> dot s \<and>
     count_loop (mem s) sb (dot s) 0 < 1920"
  using assms by (rule modifyScreenBegin_returns)

text \<open>A dot 24 rows or more into a line that is not the last one: scrolling never ends.\<close>

definition stuck :: "vi \<Rightarrow> bool" where
  "stuck s \<longleftrightarrow> dot_ok s \<and> 1920 \<le> dot_width s \<and> dot s < next_line (mem s) (vend s) (dot s) \<and>
     (screenbegin s \<le> begin_line (mem s) (dot s) \<or> dot s < screenbegin s)"

lemma modify_loop_stuck:
  assumes "modify_loop s = Some s'"
  shows "\<not> stuck s"
proof (rule modify_loop.raw_induct[where P = "\<lambda>s _. \<not> stuck s", OF _ assms])
  fix loop s y
  assume IH: "\<And>s y. loop s = Some y \<Longrightarrow> \<not> stuck s"
    and run: "(case countCursorPosFromScreenBegin2Dot s of (s', cnt) \<Rightarrow>
        if rows * columns \<le> cnt
        then loop (s'\<lparr>screenbegin := next_line (mem s') (vend s') (screenbegin s')\<rparr>) else Some s') = Some y"
  show "\<not> stuck s"
  proof
    assume "stuck s"
    then have h: "dot_ok s" "1920 \<le> dot_width s" "dot s < next_line (mem s) (vend s) (dot s)"
      "screenbegin s \<le> begin_line (mem s) (dot s) \<or> dot s < screenbegin s" by (auto simp: stuck_def)
    let ?bl = "begin_line (mem s) (dot s)"
    define sb where "sb = (if dot s < screenbegin s then ?bl else screenbegin s)"
    have cnt: "countCursorPosFromScreenBegin2Dot s = (s\<lparr>screenbegin := sb\<rparr>, count_loop (mem s) sb (dot s) 0)"
      by (auto simp: countCursorPosFromScreenBegin2Dot_def sb_def)
    have sb: "0 \<le> sb" "sb \<le> ?bl" using h by (auto simp: sb_def dot_ok_def)
    have big: "1920 \<le> count_loop (mem s) sb (dot s) 0"
      using count_from_later[OF sb(2), of "dot s" "mem s"] h(2) by (simp add: dot_width_def)
    let ?n = "next_line (mem s) (vend s) sb"
    have n: "?n \<le> ?bl \<or> dot s < ?n" "0 \<le> ?n"
    proof -
      have "end_line (mem s) (vend s) ?bl = end_line (mem s) (vend s) (dot s)"
        using h by (intro end_line_from_start begin_line_start) (auto simp: dot_ok_def)
      then have "sb = ?bl \<Longrightarrow> dot s < ?n" using h by (auto simp: next_line_def dot_ok_def)
      then show "?n \<le> ?bl \<or> dot s < ?n"
        using next_line_before[of sb "mem s" "dot s" "vend s"] sb h by (cases "sb = ?bl") (auto simp: dot_ok_def)
      show "0 \<le> ?n" using end_line_range(1)[of sb "mem s" "vend s"] sb by (auto simp: next_line_def Let_def)
    qed
    have "loop (s\<lparr>screenbegin := ?n\<rparr>) = Some y" using run cnt big by simp
    from IH[OF this] h n show False by (auto simp: stuck_def dot_ok_def dot_width_def)
  qed
qed

text \<open>
  scrolling (\<open>modifyScreenBegin\<close>, \<open>vi.c\<close>) never returns when the dot is 24 screen rows or
  more into a line that is not the last line of the text: \<open>screenbegin\<close> goes past the dot, is
  set back to the start of the dot's line, and so on for ever.
\<close>

theorem modifyScreenBegin_hangs_on_wide_line:
  assumes "stuck s"
  shows "modifyScreenBegin s = None"
proof (cases "modifyScreenBegin s")
  case (Some s')
  have "stuck (if dot s < screenbegin s then s\<lparr>screenbegin := begin_line (mem s) (dot s)\<rparr> else s)"
    using assms by (auto simp: stuck_def dot_ok_def dot_width_def)
  with modify_loop_stuck Some show ?thesis unfolding modifyScreenBegin_def by blast
qed


lemma count_loop_plain:
  "(\<And>i. p \<le> i \<Longrightarrow> i < d \<Longrightarrow> 32 \<le> schar (m i) \<and> schar (m i) \<le> 126) \<Longrightarrow> p \<le> d \<Longrightarrow>
   count_loop m p d cnt = cnt + (d - p)"
proof (induction m p d cnt rule: count_loop.induct)
  case (1 m p d cnt)
  then show ?case by (cases "p < d") (auto simp: count_loop_step count_step_def)
qed

text \<open>A text whose first line is 2000 characters long, the dot on the last of them.\<close>

definition wide_sample :: vi where
  "wide_sample = (vi_sample [])\<lparr>mem := (\<lambda>i. if i < 2000 then 97 else if i < 2002 then NL else NUL),
     vend := 2002, dot := 1999\<rparr>"

lemma wide_sample_stuck: "stuck wide_sample"
proof -
  let ?m = "mem wide_sample"
  have "line_start ?m 1999 0" by (auto simp: line_start_def wide_sample_def)
  then have bl: "begin_line ?m 1999 = 0" using begin_line_start[of 1999 ?m] line_start_unique by auto
  have w: "count_loop ?m 0 1999 0 = 1999" by (subst count_loop_plain) (auto simp: wide_sample_def)
  have "end_line ?m 2002 1999 = end_line ?m 2002 2000"
    by (subst end_line.simps) (simp add: wide_sample_def)
  also have "\<dots> = 2000" by (subst end_line.simps) (simp add: wide_sample_def)
  finally have "next_line ?m 2002 1999 = 2001" by (simp add: next_line_def wide_sample_def)
  with bl w show ?thesis by (simp add: stuck_def dot_ok_def dot_width_def) (simp add: wide_sample_def)
qed

theorem modifyScreenBegin_hangs_on_wide_line_witness: "modifyScreenBegin wide_sample = None"
  by (rule modifyScreenBegin_hangs_on_wide_line) (rule wide_sample_stuck)


section \<open>The screen shows the text\<close>

text \<open>The characters a plain text consists of: printable ones and line ends, no tabs.\<close>

definition plain :: "byte \<Rightarrow> bool" where
  "plain c \<longleftrightarrow> (32 \<le> schar c \<and> schar c \<le> 126) \<or> c = NL"

definition graphic :: "byte \<Rightarrow> bool" where
  "graphic c \<longleftrightarrow> 32 \<le> schar c \<and> schar c \<le> 126"

lemma plain_cases:
  assumes "plain c" obtains "c = NL" | "graphic c" "c \<noteq> NL"
  using assms by (auto simp: plain_def graphic_def)

lemma count_step_graphic: "graphic c \<Longrightarrow> count_step c cnt = cnt + 1"
  by (simp add: graphic_def count_step_def)

lemma sint_NL [simp]: "schar NL = 10" by simp

lemma graphic_schar: "graphic c \<Longrightarrow> schar c \<noteq> 10 \<and> schar c \<noteq> 9 \<and> schar c \<noteq> BACKSPACE"
  by (auto simp: graphic_def)

lemma row_advance: "(pos::int) + (80 - pos mod 80) = (pos div 80 + 1) * 80"
  using div_mult_mod_eq[of pos 80] by (simp only: distrib_right)

text \<open>
  One plain character on the console: the cursor moves the way \<open>count_step\<close> counts, no cell
  before the cursor changes, nothing scrolls.
\<close>

lemma cgaputc_plain:
  assumes pl: "plain c" and pos: "getCursorPos t = pos" "pos < 1999" "c = NL \<Longrightarrow> pos < 1920"
  shows "\<exists>t'. cgaputc (schar c) t = Inr t' \<and> getCursorPos t' = count_step c pos \<and>
     pos < count_step c pos \<and> count_step c pos \<le> 1999 \<and> (\<forall>i < pos. crt t' i = crt t i) \<and>
     (graphic c \<longrightarrow> crt t' pos = cell (schar c)) \<and> same_input t t'"
  using pl
proof (cases rule: plain_cases)
  case 1
  define q where "q = (pos div 80 + 1) * 80"
  have p0: "0 \<le> pos" using pos(1) getCursorPos_nonneg[of t] by simp
  have "pos div 80 \<le> 23" using pos(3)[OF 1] zdiv_mono1[of pos 1919 80] by simp
  then have q: "q \<le> 1920" "0 \<le> q" using p0 by (auto simp: q_def pos_imp_zdiv_nonneg_iff)
  have lt: "pos < q" unfolding q_def by (rule row_up_le)
  have adv: "pos + (80 - pos mod 80) = q" unfolding q_def by (rule row_advance)
  have "q div 80 \<le> 24" using q zdiv_mono1[of q 1920 80] by simp
  then have "cgaputc (schar c) t = Inr (t\<lparr>crtpos := word_of_int q, crt := (crt t)(q := blank)\<rparr>)"
    using q 1 pos(1) adv by (simp add: cgaputc_def cga_put_def)
  moreover have "count_step c pos = q" using 1 by (simp add: count_step_NL q_def)
  ultimately show ?thesis using lt q 1 by (simp add: same_input_def graphic_def)
next
  case 2
  have p0: "0 \<le> pos" using pos(1) getCursorPos_nonneg[of t] by simp
  have "(pos + 1) div 80 \<le> 24" using pos zdiv_mono1[of "pos + 1" 1999 80] by simp
  then have "cgaputc (schar c) t = Inr (t\<lparr>crtpos := word_of_int (pos + 1),
      crt := (crt t)(pos := cell (schar c), pos + 1 := blank)\<rparr>)"
    using pos p0 graphic_schar[OF 2(1)] by (simp add: cgaputc_def cga_put_def)
  moreover have "getCursorPos (t\<lparr>crtpos := word_of_int (pos + 1), crt := cr\<rparr>) = pos + 1" for cr
    using pos p0 by (intro getCursorPos_set) auto
  ultimately show ?thesis using pos p0 count_step_graphic[OF 2(1)] by (simp add: same_input_def)
qed

lemma copy_text_loop_plain:
  assumes "\<And>i. i < int n \<Longrightarrow> 0 \<le> i \<Longrightarrow> plain (m (p + i))" "getCursorPos t = pos" "pos < 1999"
    "0 < n \<Longrightarrow> m p = NL \<Longrightarrow> pos < 1920" "m (p + int n) \<noteq> NL"
  shows "\<exists>t'. copy_text_loop m p n t = Inr t' \<and> on_screen t' \<and> same_input t t' \<and>
     (\<forall>i < pos. crt t' i = crt t i) \<and>
     (\<forall>q. p \<le> q \<and> q < p + int n \<and> graphic (m q) \<and> count_loop m p q pos < 1999 \<longrightarrow>
        crt t' (count_loop m p q pos) = cell (schar (m q)))"
  using assms
proof (induction n arbitrary: p t pos)
  case 0
  then show ?case by (auto simp: on_screen_def same_input_def)
next
  case (Suc n)
  let ?c = "m p" and ?k = "count_step (m p) pos"
  have pl: "plain ?c" using Suc.prems(1)[of 0] by simp
  then have nn: "?c \<noteq> NUL" by (auto simp: plain_def)
  obtain t1 where c1: "cgaputc (schar ?c) t = Inr t1" "getCursorPos t1 = ?k" "pos < ?k" "?k \<le> 1999"
     "\<forall>i < pos. crt t1 i = crt t i" "graphic ?c \<longrightarrow> crt t1 pos = cell (schar ?c)" "same_input t t1"
    using cgaputc_plain[OF pl Suc.prems(2,3)] Suc.prems(4) by auto
  show ?case
  proof (cases "?k = 1999 \<or> (1920 \<le> ?k \<and> m (p + 1) = NL)")
    case True
    have far: "1999 \<le> count_loop m p q pos" if q: "p < q" "q \<noteq> p + 1 \<or> ?k = 1999" for q
    proof (cases "?k = 1999")
      case True then show ?thesis using q count_loop_ge[of ?k m "p + 1" q] by (simp add: count_loop_step)
    next
      case False
      with \<open>?k = 1999 \<or> (1920 \<le> ?k \<and> m (p + 1) = NL)\<close> have k: "1920 \<le> ?k" "m (p + 1) = NL" by auto
      then have "1999 \<le> count_step (m (p + 1)) ?k"
        using zdiv_mono1[of 1920 ?k 80] by (simp add: count_step_NL)
      then show ?thesis using q False count_loop_ge[of "count_step (m (p + 1)) ?k" m "p + 1 + 1" q]
        by (simp add: count_loop_step)
    qed
    have run: "copy_text_loop m p (Suc n) t = Inr t1" using True c1 nn by simp
    have "crt t1 (count_loop m p q pos) = cell (schar (m q))"
      if "p \<le> q" "graphic (m q)" "count_loop m p q pos < 1999" for q
    proof (cases "q = p")
      case False
      then have "q = p + 1 \<and> ?k \<noteq> 1999" using far[of q] that by auto
      then have "m q = NL" using True by auto
      then show ?thesis using that by (simp add: graphic_def)
    qed (use that c1 in simp)
    then show ?thesis using run c1 by (intro exI[of _ t1]) (auto simp: on_screen_def)
  next
    case False
    have pre: "\<And>i. i < int n \<Longrightarrow> 0 \<le> i \<Longrightarrow> plain (m (p + 1 + i))"
      using Suc.prems(1)[of "1 + i" for i] by (simp add: add.assoc)
    have last: "m (p + 1 + int n) \<noteq> NL" using Suc.prems(5) by (simp add: add.assoc)
    obtain t2 where c2: "copy_text_loop m (p + 1) n t1 = Inr t2" "on_screen t2" "same_input t1 t2"
      "\<forall>i < ?k. crt t2 i = crt t1 i"
      "\<forall>q. p + 1 \<le> q \<and> q < p + 1 + int n \<and> graphic (m q) \<and> count_loop m (p + 1) q ?k < 1999 \<longrightarrow>
        crt t2 (count_loop m (p + 1) q ?k) = cell (schar (m q))"
      using Suc.IH[OF pre c1(2) _ _ last] False c1(4) by fastforce
    have run: "copy_text_loop m p (Suc n) t = Inr t2" using False c1 c2 nn by auto
    have "crt t2 (count_loop m p q pos) = cell (schar (m q))"
      if "p \<le> q" "q < p + int (Suc n)" "graphic (m q)" "count_loop m p q pos < 1999" for q
    proof (cases "q = p")
      case True then show ?thesis using c1 c2 that by simp
    next
      case False then show ?thesis using c2(5) that by (simp add: count_loop_step)
    qed
    then show ?thesis using run c1 c2 by (intro exI[of _ t2]) (auto simp: same_input_def)
  qed
qed


text \<open>What the editor keeps true of a text it can show: plain characters, then the NUL.\<close>

definition plain_text :: "vi \<Rightarrow> bool" where
  "plain_text s \<longleftrightarrow> text_ok s \<and> list_all plain (content s)"

definition shows_text :: "vi \<Rightarrow> bool" where
  "shows_text s \<longleftrightarrow> (\<forall>q. screenbegin s \<le> q \<and> q < vend s \<and> graphic (mem s q) \<and>
     count_loop (mem s) (screenbegin s) q 0 < 1920 \<longrightarrow>
     crt (con s) (count_loop (mem s) (screenbegin s) q 0) = cell (schar (mem s q)))"

lemma plain_text_byte: "plain_text s \<Longrightarrow> 0 \<le> i \<Longrightarrow> i < vend s \<Longrightarrow> plain (mem s i)"
  by (auto simp: plain_text_def list_all_length content_nth[symmetric])

lemma plain_text_cstr:
  assumes "plain_text s" "0 \<le> p" "p \<le> vend s"
  shows "cstr (mem s) p (bytes_at (mem s) p (nat (vend s - p)))"
proof -
  have "mem s i \<noteq> NUL" if "p \<le> i" "i < vend s" for i
    using plain_text_byte[OF assms(1), of i] that assms(2) by (auto simp: plain_def)
  then show ?thesis using assms by (auto simp: cstr_def set_bytes_at plain_text_def text_ok_def)
qed

lemma drawing_correct:
  assumes "plain_text s" "0 \<le> screenbegin s" "screenbegin s \<le> vend s"
  shows "\<exists>c. do { len \<leftarrow> strlen (mem s) (screenbegin s);
                 c \<leftarrow> syscall (copyFromTextToScreen (mem s) (screenbegin s) 0 len (con s));
                 Some (s\<lparr>con := c\<rparr>) } = Some (s\<lparr>con := c\<rparr>) \<and>
     on_screen c \<and> same_input (con s) c \<and> shows_text (s\<lparr>con := c\<rparr>)"
proof -
  let ?m = "mem s" and ?p = "screenbegin s" and ?n = "nat (vend s - screenbegin s)"
  define t where "t = (con s)\<lparr>crtpos := 0, crt := (crt (con s))(0 := crt (con s) 0 OR 0x0700)\<rparr>"
  have len: "strlen ?m ?p = Some (vend s - ?p)"
    using strlen_cstr[OF plain_text_cstr[OF assms]] assms(3) by simp
  have set0: "setCursorPos 0 0 (con s) = Inr t" by (simp add: setCursorPos_def t_def)
  have "?m (?p + int ?n) \<noteq> NL" using assms by (simp add: plain_text_def text_ok_def)
  moreover have "getCursorPos t = 0" by (simp add: t_def getCursorPos_def)
  moreover have "plain (?m (?p + i))" if "i < int ?n" "0 \<le> i" for i
    using that assms(2,3) plain_text_byte[OF assms(1)] by simp
  ultimately obtain c where c: "copy_text_loop ?m ?p ?n t = Inr c" "on_screen c" "same_input t c"
     "\<forall>q. ?p \<le> q \<and> q < ?p + int ?n \<and> graphic (?m q) \<and> count_loop ?m ?p q 0 < 1999 \<longrightarrow>
        crt c (count_loop ?m ?p q 0) = cell (schar (?m q))"
    using copy_text_loop_plain[of ?n ?m ?p t 0] by auto
  have "same_input (con s) c" using c(3) by (auto simp: same_input_def t_def)
  moreover have "shows_text (s\<lparr>con := c\<rparr>)" using c(4) assms by (auto simp: shows_text_def)
  ultimately show ?thesis using c(1,2) len set0 assms(3) by (auto simp: copyFromTextToScreen_def)
qed

lemma redraw_from:
  assumes "plain_text s" "dot s \<le> vend s" "0 \<le> sb" "sb \<le> dot s"
    "modifyScreenBegin (s\<lparr>con := clearScreen (con s)\<rparr>) =
       Some (s\<lparr>con := clearScreen (con s), screenbegin := sb\<rparr>)"
  shows "\<exists>c. redraw s = Some (s\<lparr>screenbegin := sb, con := c\<rparr>) \<and> on_screen c \<and>
     same_input (con s) c \<and> shows_text (s\<lparr>screenbegin := sb, con := c\<rparr>)"
proof -
  define s1 where "s1 = s\<lparr>con := clearScreen (con s), screenbegin := sb\<rparr>"
  have pre: "plain_text s1" "0 \<le> screenbegin s1" "screenbegin s1 \<le> vend s1"
    using assms by (auto simp: s1_def plain_text_def text_ok_def content_def)
  obtain c where c: "do { len \<leftarrow> strlen (mem s1) (screenbegin s1);
                 c \<leftarrow> syscall (copyFromTextToScreen (mem s1) (screenbegin s1) 0 len (con s1));
                 Some (s1\<lparr>con := c\<rparr>) } = Some (s1\<lparr>con := c\<rparr>)"
     "on_screen c" "same_input (con s1) c" "shows_text (s1\<lparr>con := c\<rparr>)"
    using drawing_correct[OF pre] by blast
  have "redraw s = Some (s1\<lparr>con := c\<rparr>)"
    using assms(5) c(1) unfolding redraw_def s1_def by simp
  then show ?thesis using c by (auto simp: s1_def same_input_def clearScreen_def)
qed

lemma redraw_draws:
  assumes "plain_text s" "dot_ok s" "dot_width s < 1920"
  shows "\<exists>sb c. redraw s = Some (s\<lparr>screenbegin := sb, con := c\<rparr>) \<and> 0 \<le> sb \<and> sb \<le> dot s \<and>
     count_loop (mem s) sb (dot s) 0 < 1920 \<and> on_screen c \<and> same_input (con s) c \<and>
     shows_text (s\<lparr>screenbegin := sb, con := c\<rparr>)"
proof -
  define s0 where "s0 = s\<lparr>con := clearScreen (con s)\<rparr>"
  have "dot_ok s0" "dot_width s0 < 1920" using assms by (auto simp: s0_def dot_ok_def dot_width_def)
  from modifyScreenBegin_returns[OF this] obtain sb where
    sb: "modifyScreenBegin s0 = Some (s0\<lparr>screenbegin := sb\<rparr>)" "0 \<le> sb" "sb \<le> dot s"
      "count_loop (mem s) sb (dot s) 0 < 1920" by (auto simp: s0_def)
  with redraw_from[OF assms(1) _ sb(2,3)] assms(2) show ?thesis
    by (auto simp: s0_def dot_ok_def)
qed

text \<open>With the dot on the screen already, nothing scrolls.\<close>

definition in_window :: "vi \<Rightarrow> bool" where
  "in_window s \<longleftrightarrow> 0 \<le> screenbegin s \<and> screenbegin s \<le> dot s \<and> dot s \<le> vend s - 1 \<and>
     count_loop (mem s) (screenbegin s) (dot s) 0 < 1920"

lemma modifyScreenBegin_idle: "in_window s \<Longrightarrow> modifyScreenBegin s = Some s"
  by (auto simp: in_window_def modifyScreenBegin_def countCursorPosFromScreenBegin2Dot_def intro!: modify_loop_done)

lemma redraw_idle:
  assumes "plain_text s" "in_window s"
  shows "\<exists>c. redraw s = Some (s\<lparr>con := c\<rparr>) \<and> on_screen c \<and> same_input (con s) c \<and>
    shows_text (s\<lparr>con := c\<rparr>)"
proof -
  have "in_window (s\<lparr>con := clearScreen (con s)\<rparr>)" using assms(2) by (simp add: in_window_def)
  from redraw_from[OF assms(1), of "screenbegin s"] modifyScreenBegin_idle[OF this] assms(2)
  show ?thesis by (auto simp: in_window_def)
qed

text \<open>
  C33: \<open>redraw\<close> (\<open>vi.c\<close>) of a text without tabs, with the dot on a line that fits, returns (no
  kernel panic, no endless loop), changes only \<open>screenbegin\<close> and the screen, and leaves every
  printable character from \<open>screenbegin\<close> on, as far as the 24 rows of the window go, in the cell that
  \<open>countCursorPosFromScreenBegin2Dot\<close> computes for it.
\<close>

theorem redraw_shows_text:
  assumes "plain_text s" "dot_ok s" "dot_width s < 1920"
  shows "\<exists>sb c. redraw s = Some (s\<lparr>screenbegin := sb, con := c\<rparr>) \<and> 0 \<le> sb \<and> sb \<le> dot s \<and>
     count_loop (mem s) sb (dot s) 0 < 1920 \<and> on_screen c \<and> same_input (con s) c \<and>
     shows_text (s\<lparr>screenbegin := sb, con := c\<rparr>)"
  using assms by (rule redraw_draws)

lemma cell_or: "cell c OR 0x0700 = cell c"
  by (simp add: cell_def or.assoc)

lemma setCursorPos_at:
  assumes "0 \<le> pos" "pos < 2000"
  shows "\<exists>c. setCursorPos (pos div 80) (pos mod 80) t = Inr c \<and> getCursorPos c = pos \<and>
    same_input t c \<and> (\<forall>i. crt c i = (if i = pos then crt t i OR 0x0700 else crt t i))"
proof -
  have "pos div 80 \<le> 24" using assms zdiv_mono1[of pos 1999 80] by simp
  moreover have "pos div 80 * 80 + pos mod 80 = pos" by simp
  moreover have "0 \<le> pos div 80" "pos mod 80 \<le> 79" using assms pos_mod_bound[of 80 pos]
    by (auto simp: pos_imp_zdiv_nonneg_iff)
  ultimately have "setCursorPos (pos div 80) (pos mod 80) t =
      Inr (t\<lparr>crtpos := word_of_int pos, crt := (crt t)(pos := crt t pos OR 0x0700)\<rparr>)"
    by (simp add: setCursorPos_def Let_def)
  then show ?thesis using assms by (auto simp: same_input_def)
qed

lemma shows_text_cursor:
  assumes "shows_text s" "\<forall>i. crt c i = (if i = pos then crt (con s) i OR 0x0700 else crt (con s) i)"
  shows "shows_text (s\<lparr>con := c\<rparr>)"
  using assms by (auto simp: shows_text_def cell_or)

text \<open>The part of \<open>synchronize\<close> after scrolling.\<close>

lemma synchronize_window:
  assumes "plain_text s" "in_window s" "modifyScreenBegin s0 = Some s"
  shows "\<exists>c. synchronize s0 = Some (s\<lparr>syn_screenbegin := Some (screenbegin s), con := c\<rparr>) \<and>
     getCursorPos c = count_loop (mem s) (screenbegin s) (dot s) 0 \<and> same_input (con s) c \<and>
     (syn_screenbegin s \<noteq> Some (screenbegin s) \<or> shows_text s \<longrightarrow> shows_text (s\<lparr>con := c\<rparr>))"
proof -
  let ?sb = "screenbegin s"
  define sy where "sy = s\<lparr>syn_screenbegin := Some ?sb\<rparr>"
  have pre: "plain_text sy" "in_window sy"
    using assms by (auto simp: sy_def plain_text_def text_ok_def content_def in_window_def)
  obtain c2 where mid: "(if syn_screenbegin s \<noteq> Some ?sb then redraw sy else Some s) = Some (sy\<lparr>con := c2\<rparr>)"
    "same_input (con s) c2" "syn_screenbegin s \<noteq> Some ?sb \<or> shows_text s \<longrightarrow> shows_text (s\<lparr>con := c2\<rparr>)"
  proof (cases "syn_screenbegin s = Some ?sb")
    case True
    then show ?thesis using that[of "con s"] by (simp add: sy_def same_input_def)
  next
    case False
    with redraw_idle[OF pre] that show ?thesis by (auto simp: sy_def shows_text_def)
  qed
  define pos where "pos = count_loop (mem s) ?sb (dot s) 0"
  have "0 \<le> pos" "pos < 2000" using assms(2) count_loop_ge[of 0] by (auto simp: pos_def in_window_def)
  from setCursorPos_at[OF this] obtain c where c: "setCursorPos (pos div 80) (pos mod 80) c2 = Inr c"
    "getCursorPos c = pos" "same_input c2 c" "\<forall>i. crt c i = (if i = pos then crt c2 i OR 0x0700 else crt c2 i)"
    by blast
  have "synchronize s0 = Some (sy\<lparr>con := c\<rparr>)"
    using assms(2,3) mid(1) c(1) unfolding synchronize_def sy_def
    by (simp add: countCursorPosFromScreenBegin2Dot_def pos_def in_window_def)
  moreover have "same_input (con s) c" using mid(2) c(3) by (auto simp: same_input_def)
  moreover have "shows_text (s\<lparr>con := c2\<rparr>) \<longrightarrow> shows_text (s\<lparr>con := c\<rparr>)"
    using shows_text_cursor[of "s\<lparr>con := c2\<rparr>" c pos] c(4) by simp
  ultimately show ?thesis using mid(3) c(2) by (auto simp: pos_def sy_def)
qed

lemma synchronize_returns:
  assumes "plain_text s" "dot_ok s" "dot_width s < 1920"
  shows "\<exists>sb c. synchronize s = Some (s\<lparr>screenbegin := sb, syn_screenbegin := Some sb, con := c\<rparr>) \<and>
     in_window (s\<lparr>screenbegin := sb\<rparr>) \<and> getCursorPos c = count_loop (mem s) sb (dot s) 0 \<and>
     same_input (con s) c \<and>
     (syn_screenbegin s \<noteq> Some sb \<longrightarrow> shows_text (s\<lparr>screenbegin := sb, con := c\<rparr>))"
proof -
  obtain sb where sb: "modifyScreenBegin s = Some (s\<lparr>screenbegin := sb\<rparr>)" "0 \<le> sb" "sb \<le> dot s"
    "count_loop (mem s) sb (dot s) 0 < 1920"
    using modifyScreenBegin_returns[OF assms(2,3)] by auto
  have "in_window (s\<lparr>screenbegin := sb\<rparr>)" "plain_text (s\<lparr>screenbegin := sb\<rparr>)"
    using sb assms by (auto simp: in_window_def dot_ok_def plain_text_def text_ok_def content_def)
  from synchronize_window[OF this(2,1) sb(1)] this(1) show ?thesis by auto
qed

text \<open>
  \<open>synchronize\<close> (\<open>vi.c\<close>) on a text without tabs and a dot whose line fits: it returns, the
  hardware cursor is on the cell of the dot, inside the first 24 rows, and whenever the window
  has moved since the last call the screen shows the text.
\<close>

theorem synchronize_correct:
  assumes "plain_text s" "dot_ok s" "dot_width s < 1920"
  shows "\<exists>sb c. synchronize s = Some (s\<lparr>screenbegin := sb, syn_screenbegin := Some sb, con := c\<rparr>) \<and>
     in_window (s\<lparr>screenbegin := sb\<rparr>) \<and> getCursorPos c = count_loop (mem s) sb (dot s) 0 \<and>
     same_input (con s) c \<and>
     (syn_screenbegin s \<noteq> Some sb \<longrightarrow> shows_text (s\<lparr>screenbegin := sb, con := c\<rparr>))"
  using assms by (rule synchronize_returns)

section \<open>The status line\<close>

lemma schar_uint: "0 \<le> schar b \<Longrightarrow> uint b = schar b"
proof -
  assume "0 \<le> schar b"
  moreover have "schar b = uint b - 256 * of_bool (bit (uint b) 7)"
    using uint_bounded[of b] by (simp add: sint_uint signed_take_bit_eq_take_bit_minus take_bit_eq_mod)
  ultimately show ?thesis using uint_lt2p[of b] by (cases "bit (uint b) 7") auto
qed

lemma consolewrite_row:
  "list_all graphic bs \<Longrightarrow> getCursorPos t = pos \<Longrightarrow> 1920 \<le> pos \<Longrightarrow> pos + int (length bs) \<le> 1999 \<Longrightarrow>
   \<exists>t'. consolewrite bs t = Inr t' \<and> getCursorPos t' = pos + int (length bs) \<and> same_input t t' \<and>
     (\<forall>i < 1920. crt t' i = crt t i)"
proof (induction bs arbitrary: t pos)
  case Nil
  then show ?case by (simp add: same_input_def)
next
  case (Cons b bs)
  have b: "graphic b" "plain b" "b \<noteq> NL" using Cons.prems(1) by (auto simp: graphic_def plain_def)
  then obtain t1 where t1: "cgaputc (schar b) t = Inr t1" "getCursorPos t1 = pos + 1"
      "\<forall>i < pos. crt t1 i = crt t i" "same_input t t1"
    using cgaputc_plain[OF b(2) Cons.prems(2)] Cons.prems(4) by (auto simp: count_step_graphic)
  obtain t2 where t2: "consolewrite bs t1 = Inr t2" "getCursorPos t2 = pos + 1 + int (length bs)"
      "same_input t1 t2" "\<forall>i < 1920. crt t2 i = crt t1 i"
    using Cons.IH[OF _ t1(2)] Cons.prems by auto
  have "uint b = schar b" using b(1) by (intro schar_uint) (simp add: graphic_def)
  then show ?case using t1 t2 Cons.prems(3) by (auto simp: consputc_def same_input_def)
qed

lemma blank_line_cstr:
  assumes "m 78 = NUL"
  shows "cstr ((umemset m 0 32 (nat (columns - 2)))(columns - 1 := NL)) 0 (replicate 78 SPC)"
  using assms by (auto simp: cstr_def umemset_fill fill_ref_def replicate_nth_eq list_eq_iff_nth_eq)

text \<open>A message that fits on the status line: it is shown there and the window is untouched.\<close>

lemma printOnStatusLine_ok:
  assumes "status_buffer s 78 = NUL" "on_screen (con s)" "list_all graphic msg" "length msg \<le> 79"
  shows "\<exists>sb c. printOnStatusLine msg s = Some (s\<lparr>status_buffer := sb, con := c\<rparr>) \<and> sb 78 = NUL \<and>
    getCursorPos c = getCursorPos (con s) \<and> same_input (con s) c \<and>
    (\<forall>i < 1920. crt c i = (if i = getCursorPos (con s) then crt (con s) i OR 0x0700 else crt (con s) i))"
proof -
  define sb where "sb = (umemset (status_buffer s) 0 32 (nat (columns - 2)))(columns - 1 := NL)"
  define pos where "pos = getCursorPos (con s)"
  have row: "\<exists>c. setCursorPos 24 0 t = Inr c \<and> getCursorPos c = 1920 \<and> same_input t c \<and>
      (\<forall>i < 1920. crt c i = crt t i)" for t
    using setCursorPos_at[of 1920 t] by auto
  obtain c1 where c1: "setCursorPos 24 0 (con s) = Inr c1" "getCursorPos c1 = 1920" "same_input (con s) c1"
    "\<forall>i < 1920. crt c1 i = crt (con s) i" using row by blast
  have blank: "cstr sb 0 (replicate 78 SPC)" using blank_line_cstr[of "status_buffer s"] assms(1) by (simp add: sb_def)
  have sp: "list_all graphic (replicate 78 SPC)" by (simp add: list_all_length graphic_def)
  obtain c2 where c2: "consolewrite (replicate 78 SPC) c1 = Inr c2" "same_input c1 c2"
    "\<forall>i < 1920. crt c2 i = crt c1 i"
    using consolewrite_row[OF sp c1(2)] by auto
  have pr: "print_cstr sb 0 c1 = Some c2"
    using c2(1) blank strlen_cstr[OF blank] by (simp add: print_cstr_def cstr_def)
  obtain c3 where c3: "setCursorPos 24 0 c2 = Inr c3" "getCursorPos c3 = 1920" "same_input c2 c3"
    "\<forall>i < 1920. crt c3 i = crt c2 i" using row by blast
  obtain c4 where c4: "consolewrite msg c3 = Inr c4" "same_input c3 c4" "\<forall>i < 1920. crt c4 i = crt c3 i"
    using consolewrite_row[OF assms(3) c3(2)] assms(4) by auto
  obtain c5 where c5: "setCursorPos (pos div 80) (pos mod 80) c4 = Inr c5" "getCursorPos c5 = pos"
    "same_input c4 c5" "\<forall>i. crt c5 i = (if i = pos then crt c4 i OR 0x0700 else crt c4 i)"
    using setCursorPos_at[of pos c4] assms(2) by (auto simp: pos_def on_screen_def)
  have "printOnStatusLine msg s = Some (s\<lparr>status_buffer := sb, con := c5\<rparr>)"
    unfolding printOnStatusLine_def sb_def[symmetric] pos_def[symmetric] Let_def
    using c1(1) pr c3(1) c4(1) c5(1) by simp
  moreover have "sb 78 = NUL" using blank by (simp add: cstr_def)
  ultimately show ?thesis using c1 c2 c3 c4 c5
    by (intro exI[of _ sb] exI[of _ c5]) (auto simp: pos_def same_input_def)
qed

lemma printOnStatusLine_shows:
  assumes "\<forall>i < 1920. crt c i = (if i = pos then crt (con s) i OR 0x0700 else crt (con s) i)" "shows_text s"
  shows "shows_text (s\<lparr>status_buffer := sb, con := c\<rparr>)"
  using assms by (auto simp: shows_text_def cell_or)

text \<open>The sample text "hi", line end, "you".\<close>

abbreviation hi_you :: "byte list" where "hi_you \<equiv> [104, 105, 10, 121, 111, 117, 10]"

lemma hi_you_ok:
  "plain_text (vi_sample hi_you)" "dot_ok (vi_sample hi_you)" "dot_width (vi_sample hi_you) < 1920"
proof -
  show "plain_text (vi_sample hi_you)"
    unfolding plain_text_def content_sample by (simp add: text_ok_sample plain_def)
  show "dot_ok (vi_sample hi_you)" by (simp add: dot_ok_def)
  show "dot_width (vi_sample hi_you) < 1920" by (simp add: dot_width_def)
qed

theorem modifyScreenBegin_correct_witness:
  "\<exists>sb. modifyScreenBegin (vi_sample hi_you) = Some ((vi_sample hi_you)\<lparr>screenbegin := sb\<rparr>) \<and> 0 \<le> sb \<and> sb \<le> 0"
  using modifyScreenBegin_correct[OF hi_you_ok(2,3)] by auto

theorem redraw_shows_text_witness:
  "\<exists>s'. redraw (vi_sample hi_you) = Some s' \<and> shows_text s'"
  using redraw_shows_text[OF hi_you_ok] by blast

theorem synchronize_correct_witness:
  "\<exists>s'. synchronize (vi_sample hi_you) = Some s' \<and> getCursorPos (con s') = 0"
proof -
  obtain sb c where h: "synchronize (vi_sample hi_you) = Some ((vi_sample hi_you)\<lparr>screenbegin := sb, syn_screenbegin := Some sb, con := c\<rparr>)"
    "in_window ((vi_sample hi_you)\<lparr>screenbegin := sb\<rparr>)" "getCursorPos c = count_loop (mem (vi_sample hi_you)) sb (dot (vi_sample hi_you)) 0"
    using synchronize_correct[OF hi_you_ok] by blast
  then show ?thesis by (auto simp: in_window_def)
qed

end
