(* ===== verification/Vi_Move.thy ===== *)
theory Vi_Move
  imports Vi_Screen
begin

text \<open>
  The motions of the editor that may move the window, the word motions and the searches
  (\<open>vi.c\<close>). Results: line motions go to the neighbouring line and nowhere else, searches find
  the first match in their order and always return on a text of two bytes or more, and the
  cases in which a motion never returns.
\<close>

section \<open>Lines\<close>

definition dot_preLine :: "vi \<Rightarrow> vi \<times> bool" where
  "dot_preLine s =
     (let p = dot s; s1 = dot_head s
      in if 0 < dot s1 \<and> mem s1 (dot s1 - 1) = NL then
           let s2 = dot_head (dot_decrease s1)
           in (if dot s2 < screenbegin s2 then s2\<lparr>screenbegin := begin_line (mem s2) (dot s2)\<rparr> else s2, True)
         else (s1\<lparr>dot := p\<rparr>, False))"

definition dot_nextLine :: "vi \<Rightarrow> vi \<times> bool" where
  "dot_nextLine s =
     (let p = dot s; s1 = dot_tail s
      in if dot s1 < vend s1 - 1 \<and> mem s1 (dot s1) = NL then
           let s2 = dot_head (dot_increase s1)
           in (case countCursorPosFromScreenBegin2Dot s2 of (s3, cnt) \<Rightarrow>
                 (if rows * columns \<le> cnt
                  then s3\<lparr>screenbegin := next_line (mem s3) (vend s3) (screenbegin s3)\<rparr> else s3, True))
         else (s1\<lparr>dot := p\<rparr>, False))"

text \<open>The column loop of \<open>dot_up\<close> and \<open>dot_down\<close>.\<close>

function column_loop :: "int \<Rightarrow> vi \<Rightarrow> vi" where
  "column_loop p s =
     (if 0 < p \<and> mem s (p - 1) \<noteq> NL then
        let s' = dot_right s in if mem s' (dot s') = NL then s' else column_loop (p - 1) s'
      else s)"
  by pat_completeness auto
termination by (relation "measure (\<lambda>(p, s). nat p)") auto

declare column_loop.simps [simp del]

definition dot_up :: "vi \<Rightarrow> vi \<times> bool" where
  "dot_up s =
     (let p = dot s
      in case dot_preLine s of (s1, ok) \<Rightarrow> if ok then (column_loop p s1, True) else (s1, False))"

definition dot_down :: "vi \<Rightarrow> vi \<times> bool" where
  "dot_down s =
     (let p = dot s
      in case dot_nextLine s of (s1, ok) \<Rightarrow> if ok then (column_loop p s1, True) else (s1, False))"

section \<open>Ends of the text\<close>

definition dot_textStart :: "vi \<Rightarrow> vi" where
  "dot_textStart s = s\<lparr>dot := 0, screenbegin := 0\<rparr>"

partial_function (option) text_end_loop :: "vi \<Rightarrow> vi option" where
  "text_end_loop s =
     (case countCursorPosFromScreenBegin2Dot s of (s', cnt) \<Rightarrow>
        if cnt < rows * columns
        then text_end_loop (s'\<lparr>screenbegin := prev_line (mem s') (screenbegin s')\<rparr>)
        else Some s')"

definition dot_textEnd :: "vi \<Rightarrow> vi option" where
  "dot_textEnd s = do {
     let s1 = s\<lparr>dot := vend s - 1, screenbegin := begin_line (mem s) (vend s - 1)\<rparr>;
     s2 \<leftarrow> text_end_loop s1;
     Some (s2\<lparr>screenbegin := next_line (mem s2) (vend s2) (screenbegin s2)\<rparr>)
   }"

section \<open>Words\<close>

partial_function (option) dot_move2NextWordHead :: "vi \<Rightarrow> vi option" where
  "dot_move2NextWordHead s =
     (let s1 = dot_increase s
      in if dot s1 = vend s1 - 1 then Some s1
         else if isSpace (mem s1 (dot s1 - 1)) \<and> \<not> isSpace (mem s1 (dot s1)) then Some s1
         else dot_move2NextWordHead s1)"

partial_function (option) word_tail_loop :: "vi \<Rightarrow> vi option" where
  "word_tail_loop s =
     (if dot s = vend s - 1 then Some s
      else if \<not> isSpace (mem s (dot s - 1)) \<and> isSpace (mem s (dot s)) then Some (dot_decrease s)
      else word_tail_loop (dot_increase s))"

definition dot_move2NextWordTail :: "vi \<Rightarrow> vi option" where
  "dot_move2NextWordTail s = do { s1 \<leftarrow> dot_move2NextWordHead s; word_tail_loop s1 }"

partial_function (option) dot_move2PreWordHead :: "vi \<Rightarrow> vi option" where
  "dot_move2PreWordHead s =
     (let s1 = dot_decrease s
      in if dot s1 = screenbegin s1 then Some s1
         else if \<not> isSpace (mem s1 (dot s1)) \<and> screenbegin s1 < dot s1 \<and> isSpace (mem s1 (dot s1 - 1))
         then Some s1
         else dot_move2PreWordHead s1)"

text \<open>The test of \<open>dot_move2PreWordTail\<close> adds one to the character, not to the pointer.\<close>

partial_function (option) dot_move2PreWordTail :: "vi \<Rightarrow> vi option" where
  "dot_move2PreWordTail s =
     (let s1 = dot_decrease s
      in if dot s1 = screenbegin s1 then Some s1
         else if \<not> isSpace (mem s1 (dot s1)) \<and> isSpace (mem s1 (dot s1) + 1) then Some s1
         else dot_move2PreWordTail s1)"

section \<open>Searching\<close>

function find_char_loop :: "memory \<Rightarrow> byte \<Rightarrow> int \<Rightarrow> int \<Rightarrow> int" where
  "find_char_loop m c lineEnd p =
     (if p < lineEnd then if m (p + 1) = c then p + 1 else find_char_loop m c lineEnd (p + 1) else p)"
  by pat_completeness auto
termination by (relation "measure (\<lambda>(m, c, l, p). nat (l - p))") auto

declare find_char_loop.simps [simp del]

definition findChar :: "byte \<Rightarrow> vi \<Rightarrow> (vi \<times> int) option" where
  "findChar c s = do {
     let lineEnd = end_line (mem s) (vend s) (dot s);
     let p = find_char_loop (mem s) c lineEnd (dot s);
     if p = lineEnd then do {
       s1 \<leftarrow> synchronize s;
       s2 \<leftarrow> printOnStatusLine (bytes_of ''last one same char'') s1;
       Some (s2, dot s2)
     } else Some (s, p)
   }"

fun equal_prefix :: "memory \<Rightarrow> int \<Rightarrow> byte list \<Rightarrow> bool" where
  "equal_prefix m p [] = True"
| "equal_prefix m p (c # s) = (if m p \<noteq> c then False else equal_prefix m (p + 1) s)"

partial_function (option) find_string_loop :: "byte list \<Rightarrow> int \<Rightarrow> int \<Rightarrow> vi \<Rightarrow> (vi \<times> int) option" where
  "find_string_loop pat p count s =
     (if p = vend s - 1 \<and> count = 1 then Some (s, dot s)
      else do {
        (s1, p1, count1) \<leftarrow>
          (if p = vend s - 1 then do {
             s1 \<leftarrow> printOnStatusLine (bytes_of ''search hit BOTTOM, continuing at TOP'') s;
             s2 \<leftarrow> synchronize s1;
             s3 \<leftarrow> redraw s2;
             Some (s3, 0, count + 1)
           } else Some (s, p, count));
        if equal_prefix (mem s1) (p1 + 1) pat then Some (s1, p1 + 1)
        else if p1 + 1 = dot s1 then do {
          s2 \<leftarrow> printOnStatusLine (bytes_of ''Pattern not found'') s1;
          Some (s2, dot s2)
        } else find_string_loop pat (p1 + 1) count1 s1
      })"

definition findString :: "byte list \<Rightarrow> vi \<Rightarrow> (vi \<times> int) option" where
  "findString pat s = find_string_loop pat (dot s) 0 s"

partial_function (option) reverse_find_loop :: "byte list \<Rightarrow> int \<Rightarrow> int \<Rightarrow> vi \<Rightarrow> (vi \<times> int) option" where
  "reverse_find_loop pat p count s =
     (if p = 0 \<and> count = 1 then Some (s, dot s)
      else do {
        (s1, p1, count1) \<leftarrow>
          (if p = 0 then do {
             s1 \<leftarrow> printOnStatusLine (bytes_of ''search hit TOP, continuing at BOTTOM'') s;
             s2 \<leftarrow> synchronize s1;
             s3 \<leftarrow> redraw s2;
             Some (s3, vend s3 - 1, count + 1)
           } else Some (s, p, count));
        if equal_prefix (mem s1) (p1 - 1) pat then Some (s1, p1 - 1)
        else if p1 - 1 = dot s1 then do {
          s2 \<leftarrow> printOnStatusLine (bytes_of ''Pattern not found'') s1;
          Some (s2, dot s2)
        } else reverse_find_loop pat (p1 - 1) count1 s1
      })"

definition reverseFindString :: "byte list \<Rightarrow> vi \<Rightarrow> (vi \<times> int) option" where
  "reverseFindString pat s = reverse_find_loop pat (dot s) 0 s"

section \<open>Display operations keep the edit state\<close>

text \<open>States that differ at most in what is displayed.\<close>

definition vi_same :: "vi \<Rightarrow> vi \<Rightarrow> bool" where
  "vi_same s s' \<longleftrightarrow> mem s' = mem s \<and> vend s' = vend s \<and> textend s' = textend s \<and> dot s' = dot s \<and>
     editing s' = editing s \<and> hasChanged s' = hasChanged s \<and> cfn s' = cfn s \<and>
     lastFindChar s' = lastFindChar s \<and> lastFindString s' = lastFindString s \<and> keys s' = keys s \<and>
     disk_file s' = disk_file s \<and> open_ok s' = open_ok s \<and> write_stop s' = write_stop s \<and>
     stack_junk s' = stack_junk s"

lemma vi_same_refl [simp]: "vi_same s s" by (simp add: vi_same_def)

lemma vi_same_trans [trans]: "vi_same s s' \<Longrightarrow> vi_same s' s'' \<Longrightarrow> vi_same s s''"
  by (simp add: vi_same_def)

text \<open>The invariant of the editor on a text it can show.\<close>

definition vi_ready :: "vi \<Rightarrow> bool" where
  "vi_ready s \<longleftrightarrow> plain_text s \<and> dot_ok s \<and> dot_width s < 1920 \<and> status_buffer s 78 = NUL \<and> on_screen (con s)"

lemma vi_ready_same:
  "vi_ready s \<Longrightarrow> vi_same s s' \<Longrightarrow> 0 \<le> screenbegin s' \<Longrightarrow> status_buffer s' 78 = NUL \<Longrightarrow> on_screen (con s') \<Longrightarrow> vi_ready s'"
  by (auto simp: vi_ready_def vi_same_def plain_text_def text_ok_def content_def dot_ok_def dot_width_def)

lemma redraw_ready: "vi_ready s \<Longrightarrow> \<exists>s'. redraw s = Some s' \<and> vi_ready s' \<and> vi_same s s' \<and> shows_text s'"
proof -
  assume r: "vi_ready s"
  then obtain sb c where h: "redraw s = Some (s\<lparr>screenbegin := sb, con := c\<rparr>)" "0 \<le> sb" "on_screen c"
    "shows_text (s\<lparr>screenbegin := sb, con := c\<rparr>)"
    using redraw_draws[of s] by (auto simp: vi_ready_def)
  moreover have "vi_same s (s\<lparr>screenbegin := sb, con := c\<rparr>)" by (simp add: vi_same_def)
  moreover have "vi_ready (s\<lparr>screenbegin := sb, con := c\<rparr>)"
    using r h by (intro vi_ready_same[OF r]) (auto simp: vi_same_def vi_ready_def)
  ultimately show ?thesis by blast
qed

lemma synchronize_ready:
  "vi_ready s \<Longrightarrow> \<exists>s'. synchronize s = Some s' \<and> vi_ready s' \<and> vi_same s s' \<and> in_window s' \<and>
     getCursorPos (con s') = count_loop (mem s) (screenbegin s') (dot s) 0"
proof -
  assume r: "vi_ready s"
  then obtain sb c where h: "synchronize s = Some (s\<lparr>screenbegin := sb, syn_screenbegin := Some sb, con := c\<rparr>)"
    "in_window (s\<lparr>screenbegin := sb\<rparr>)" "getCursorPos c = count_loop (mem s) sb (dot s) 0"
    using synchronize_returns[of s] by (auto simp: vi_ready_def)
  let ?s = "s\<lparr>screenbegin := sb, syn_screenbegin := Some sb, con := c\<rparr>"
  have "vi_same s ?s" by (simp add: vi_same_def)
  moreover have "vi_ready ?s"
    using r h by (intro vi_ready_same[OF r]) (auto simp: vi_same_def vi_ready_def on_screen_def in_window_def)
  moreover have "in_window ?s" using h(2) by (simp add: in_window_def)
  ultimately show ?thesis using h by (intro exI[of _ ?s]) simp
qed

lemma status_ready:
  assumes r: "vi_ready s" and "list_all graphic msg" "length msg \<le> 79"
  shows "\<exists>s'. printOnStatusLine msg s = Some s' \<and> vi_ready s' \<and> vi_same s s' \<and>
     getCursorPos (con s') = getCursorPos (con s) \<and> screenbegin s' = screenbegin s \<and>
     syn_screenbegin s' = syn_screenbegin s \<and> (shows_text s \<longrightarrow> shows_text s')"
proof -
  obtain sb c where h: "printOnStatusLine msg s = Some (s\<lparr>status_buffer := sb, con := c\<rparr>)" "sb 78 = NUL"
    "getCursorPos c = getCursorPos (con s)"
    "\<forall>i < 1920. crt c i = (if i = getCursorPos (con s) then crt (con s) i OR 0x0700 else crt (con s) i)"
    using printOnStatusLine_ok[of s msg] assms by (auto simp: vi_ready_def)
  let ?s = "s\<lparr>status_buffer := sb, con := c\<rparr>"
  have "vi_same s ?s" by (simp add: vi_same_def)
  moreover have "vi_ready ?s"
    using r h by (intro vi_ready_same[OF r]) (auto simp: vi_same_def vi_ready_def on_screen_def dot_ok_def)
  ultimately show ?thesis using h printOnStatusLine_shows[OF h(4)] by (intro exI[of _ ?s]) simp
qed

text \<open>The messages of the editor fit on the status line.\<close>

definition message :: "string \<Rightarrow> bool" where
  "message t \<longleftrightarrow> list_all graphic (bytes_of t) \<and> length t \<le> 79"

lemma messages:
  "message ''last one same char''" "message ''search hit BOTTOM, continuing at TOP''"
  "message ''search hit TOP, continuing at BOTTOM''" "message ''Pattern not found''"
  by (simp_all add: message_def bytes_of_def graphic_def)

lemma status_message:
  "vi_ready s \<Longrightarrow> message t \<Longrightarrow> \<exists>s'. printOnStatusLine (bytes_of t) s = Some s' \<and> vi_ready s' \<and> vi_same s s'"
  using status_ready[of s "bytes_of t"] by (auto simp: message_def bytes_of_def)

section \<open>Searching finds the first match\<close>

definition first_match :: "memory \<Rightarrow> byte list \<Rightarrow> int list \<Rightarrow> int \<Rightarrow> int" where
  "first_match m pat ps d = (case List.find (\<lambda>p. equal_prefix m p pat) ps of None \<Rightarrow> d | Some q \<Rightarrow> q)"

lemma first_match_Nil [simp]: "first_match m pat [] d = d"
  by (simp add: first_match_def)

lemma first_match_Cons [simp]:
  "first_match m pat (p # ps) d = (if equal_prefix m p pat then p else first_match m pat ps d)"
  by (simp add: first_match_def)

lemma first_match_append:
  "first_match m pat (xs @ ys) d =
   (if \<exists>x \<in> set xs. equal_prefix m x pat then first_match m pat xs d else first_match m pat ys d)"
  by (induction xs) auto

lemma equal_prefix_iff: "equal_prefix m p pat \<longleftrightarrow> bytes_at m p (length pat) = pat"
  by (induction m p pat rule: equal_prefix.induct) auto

text \<open>The second pass, from \<open>p\<close> on after the wrap.\<close>

lemma find_string_second:
  "vi_ready s \<Longrightarrow> 0 \<le> p \<Longrightarrow> p \<le> vend s - 1 \<Longrightarrow>
   \<exists>s'. find_string_loop pat p 1 s =
          Some (s', first_match (mem s) pat [p + 1..if p < dot s then dot s else vend s - 1] (dot s)) \<and>
        vi_ready s' \<and> vi_same s s'"
proof (induction "nat (vend s - 1 - p)" arbitrary: p)
  case 0
  then have p: "p = vend s - 1" by simp
  then have "\<not> p < dot s" using 0 by (auto simp: vi_ready_def dot_ok_def)
  with p 0 show ?case by (subst find_string_loop.simps) auto
next
  case (Suc n)
  then have p: "p \<noteq> vend s - 1" by simp
  let ?hi = "\<lambda>p. if p < dot s then dot s else vend s - 1"
  have d: "dot s \<le> vend s - 1" using Suc.prems by (simp add: vi_ready_def dot_ok_def)
  have up: "[p + 1..?hi p] = (p + 1) # [p + 1 + 1..?hi p]" using p Suc.prems by (intro upto_rec1) auto
  consider "equal_prefix (mem s) (p + 1) pat" | "\<not> equal_prefix (mem s) (p + 1) pat" "p + 1 = dot s"
    | "\<not> equal_prefix (mem s) (p + 1) pat" "p + 1 \<noteq> dot s" by blast
  then show ?case
  proof cases
    case 1
    then show ?thesis using p Suc.prems by (subst find_string_loop.simps) (auto simp: up)
  next
    case 2
    obtain s' where "printOnStatusLine (bytes_of ''Pattern not found'') s = Some s'" "vi_ready s'" "vi_same s s'"
      using status_message[OF Suc.prems(1)] messages by blast
    then show ?thesis using p 2 by (subst find_string_loop.simps) (auto simp: up vi_same_def)
  next
    case 3
    have n: "n = nat (vend s - 1 - (p + 1))" using Suc.hyps(2) by linarith
    have "?hi (p + 1) = ?hi p" using 3 by auto
    moreover obtain s' where "find_string_loop pat (p + 1) 1 s =
        Some (s', first_match (mem s) pat [p + 1 + 1..?hi (p + 1)] (dot s))" "vi_ready s'" "vi_same s s'"
      using Suc.hyps(1)[OF n] Suc.prems p by auto
    ultimately show ?thesis using p 3 by (subst find_string_loop.simps) (auto simp: up)
  qed
qed


text \<open>The wrap at the end of the text.\<close>

lemma search_wrap:
  assumes "vi_ready s" "message t"
  shows "\<exists>s3. do { s1 \<leftarrow> printOnStatusLine (bytes_of t) s; s2 \<leftarrow> synchronize s1; s3 \<leftarrow> redraw s2; Some (f s3) } =
      Some (f s3) \<and> vi_ready s3 \<and> vi_same s s3"
proof -
  obtain s1 where s1: "printOnStatusLine (bytes_of t) s = Some s1" "vi_ready s1" "vi_same s s1"
    using status_message[OF assms] by blast
  obtain s2 where s2: "synchronize s1 = Some s2" "vi_ready s2" "vi_same s1 s2"
    using synchronize_ready[OF s1(2)] by blast
  obtain s3 where s3: "redraw s2 = Some s3" "vi_ready s3" "vi_same s2 s3"
    using redraw_ready[OF s2(2)] by blast
  have "vi_same s s3" using vi_same_trans[OF vi_same_trans[OF s1(3) s2(3)] s3(3)] .
  then show ?thesis using s1(1) s2(1) s3(1,2) by (intro exI[of _ s3]) simp
qed

lemma find_string_first:
  assumes "vi_ready s" "2 \<le> vend s"
  shows "dot s \<le> p \<Longrightarrow> p \<le> vend s - 1 \<Longrightarrow>
   \<exists>s'. find_string_loop pat p 0 s =
     Some (s', first_match (mem s) pat ([p + 1..vend s - 1] @ [1..if 0 < dot s then dot s else vend s - 1]) (dot s)) \<and>
     vi_ready s' \<and> vi_same s s'"
proof (induction "nat (vend s - 1 - p)" arbitrary: p)
  case 0
  then have p: "p = vend s - 1" by simp
  obtain s3 where s3: "do { s1 \<leftarrow> printOnStatusLine (bytes_of ''search hit BOTTOM, continuing at TOP'') s;
      s2 \<leftarrow> synchronize s1; s3 \<leftarrow> redraw s2; Some (s3, 0::int, (0::int) + 1) } = Some (s3, 0, 0 + 1)"
    "vi_ready s3" "vi_same s s3"
    using search_wrap[OF assms(1) messages(2), of "\<lambda>s. (s, 0, 0 + 1)"] by blast
  have "find_string_loop pat p 0 s = find_string_loop pat 0 1 s3"
    using s3 p assms(2)
    by (subst find_string_loop.simps, subst (2) find_string_loop.simps) (auto simp: vi_same_def)
  then show ?case using find_string_second[OF s3(2), of 0 pat] s3(3) assms(2) p
    by (auto simp: vi_same_def intro: vi_same_trans)
next
  case (Suc n)
  then have p: "p \<noteq> vend s - 1" by simp
  have up: "[p + 1..vend s - 1] = (p + 1) # [p + 1 + 1..vend s - 1]"
    using p Suc.prems by (intro upto_rec1) auto
  show ?case
  proof (cases "equal_prefix (mem s) (p + 1) pat")
    case True
    then show ?thesis using p assms by (subst find_string_loop.simps) (auto simp: up)
  next
    case False
    have n: "n = nat (vend s - 1 - (p + 1))" using Suc.hyps(2) by linarith
    from False Suc.hyps(1)[OF n] Suc.prems p show ?thesis
      by (subst find_string_loop.simps) (auto simp: up)
  qed
qed

lemma first_match_twice: "first_match m pat (xs @ xs) d = first_match m pat xs d"
  by (auto simp: first_match_append)

text \<open>
  \<open>findString\<close> (\<open>vi.c\<close>, the commands \<open>/\<close> and \<open>n\<close>) returns on every text of two bytes or
  more, changes nothing but the display, and its result is the first position after the dot,
  and then from the second byte of the text to the dot, where the pattern stands; it is the
  dot if there is none. (The first byte of the text is not among the positions tried.)
\<close>

theorem findString_first_match:
  assumes "vi_ready s" "2 \<le> vend s"
  shows "\<exists>s'. findString pat s =
     Some (s', first_match (mem s) pat ([dot s + 1..vend s - 1] @ [1..dot s]) (dot s)) \<and>
     vi_ready s' \<and> vi_same s s'"
proof -
  have "first_match (mem s) pat ([dot s + 1..vend s - 1] @ [1..if 0 < dot s then dot s else vend s - 1]) (dot s) =
        first_match (mem s) pat ([dot s + 1..vend s - 1] @ [1..dot s]) (dot s)"
  proof (cases "0 < dot s")
    case False
    then have "dot s = 0" using assms(1) by (simp add: vi_ready_def dot_ok_def)
    then show ?thesis by (simp add: first_match_twice)
  qed simp
  then show ?thesis using find_string_first[OF assms, of "dot s" pat] assms(1)
    by (simp add: findString_def vi_ready_def dot_ok_def)
qed

lemma ready_sample:
  "list_all plain bs \<Longrightarrow> bs \<noteq> [] \<Longrightarrow> length bs \<le> 10240 \<Longrightarrow> vi_ready (vi_sample bs)"
  by (auto simp: vi_ready_def plain_text_def content_sample text_ok_sample dot_ok_def dot_width_def
      on_screen_def boot_console_def getCursorPos_def Suc_le_eq)

theorem findString_first_match_witness:
  "\<exists>s'. findString [111] (vi_sample hi_you) = Some (s', 4)"
proof -
  have up: "[1..6] = [1, 2, 3, 4, 5, 6::int]" by (simp add: upto_rec1)
  have "vi_ready (vi_sample hi_you)" by (rule ready_sample) (simp_all add: plain_def)
  moreover have "mem (vi_sample hi_you) 1 = 105" "mem (vi_sample hi_you) 2 = 10"
    "mem (vi_sample hi_you) 3 = 121" "mem (vi_sample hi_you) 4 = 111" by (simp_all add: vi_sample_def)
  ultimately show ?thesis
    using findString_first_match[of "vi_sample hi_you" "[111]"] by (auto simp: up)
qed


text \<open>On a text of one byte the end is never met: the search runs past the buffer.\<close>

lemma find_string_run_away:
  assumes "find_string_loop pat p count s = Some r"
  shows "\<not> (0 < p \<and> vend s = 1 \<and> dot s = 0 \<and> (\<forall>q > 0. \<not> equal_prefix (mem s) q pat))"
proof (rule find_string_loop.raw_induct[where P = "\<lambda>pat p count s r. \<not> (0 < p \<and> vend s = 1 \<and> dot s = 0 \<and>
    (\<forall>q > 0. \<not> equal_prefix (mem s) q pat))", OF _ assms], goal_cases)
  case (1 loop pat p count s y)
  show ?case
  proof (intro notI, elim conjE)
    assume h: "0 < p" "vend s = 1" "dot s = 0" "\<forall>q > 0. \<not> equal_prefix (mem s) q pat"
    then have "\<not> equal_prefix (mem s) (p + 1) pat" by simp
    with h have "loop pat (p + 1) count s = Some y" using 1(2) by simp
    from 1(1)[OF this] h show False by simp
  qed
qed

text \<open>
  on a text of one byte \<open>findString\<close> does not return when the pattern stands nowhere behind
  the first byte: the pointer passes \<open>end - 1\<close> before it is compared with it.
\<close>

theorem findString_one_byte_hangs:
  assumes "vi_ready s" "vend s = 1" "\<forall>q > 0. \<not> equal_prefix (mem s) q pat"
  shows "findString pat s = None"
proof (cases "findString pat s")
  case (Some r)
  have d: "dot s = 0" using assms by (auto simp: vi_ready_def dot_ok_def)
  obtain s3 where s3: "do { s1 \<leftarrow> printOnStatusLine (bytes_of ''search hit BOTTOM, continuing at TOP'') s;
      s2 \<leftarrow> synchronize s1; s3 \<leftarrow> redraw s2; Some (s3, 0::int, (0::int) + 1) } = Some (s3, 0, 0 + 1)"
    "vi_ready s3" "vi_same s s3"
    using search_wrap[OF assms(1) messages(2), of "\<lambda>s. (s, 0, 0 + 1)"] by blast
  then have "findString pat s = find_string_loop pat 1 1 s3"
    using assms d unfolding findString_def
    by (subst find_string_loop.simps) (auto simp: vi_same_def)
  with Some find_string_run_away[of pat 1 1 s3 r] s3 assms d show ?thesis
    by (auto simp: vi_same_def)
qed simp

theorem findString_one_byte_hangs_witness: "findString [98] (vi_sample [97]) = None"
proof (rule findString_one_byte_hangs)
  show "vi_ready (vi_sample [97])" by (rule ready_sample) (simp_all add: plain_def)
  show "\<forall>q > 0. \<not> equal_prefix (mem (vi_sample [97])) q [98]" by (simp add: vi_sample_def)
qed simp

section \<open>Reverse search\<close>

text \<open>The positions from \<open>hi\<close> down to \<open>lo\<close>.\<close>

abbreviation downto :: "int \<Rightarrow> int \<Rightarrow> int list" where "downto hi lo \<equiv> rev [lo..hi]"

lemma downto_rec: "lo \<le> hi \<Longrightarrow> downto hi lo = hi # downto (hi - 1) lo"
  by (simp add: upto_rec2)

lemma reverse_find_second:
  "vi_ready s \<Longrightarrow> 0 \<le> p \<Longrightarrow>
   \<exists>s'. reverse_find_loop pat p 1 s =
          Some (s', first_match (mem s) pat (downto (p - 1) (if dot s < p then dot s else 0)) (dot s)) \<and>
        vi_ready s' \<and> vi_same s s'"
proof (induction "nat p" arbitrary: p)
  case 0
  then have p: "p = 0" by simp
  with 0 have "\<not> dot s < p" by (auto simp: vi_ready_def dot_ok_def)
  with p 0 show ?case by (subst reverse_find_loop.simps) auto
next
  case (Suc n)
  then have p: "p \<noteq> 0" by simp
  let ?lo = "\<lambda>p. if dot s < p then dot s else 0"
  have d: "0 \<le> dot s" using Suc.prems by (simp add: vi_ready_def dot_ok_def)
  have dn: "downto (p - 1) (?lo p) = (p - 1) # downto (p - 1 - 1) (?lo p)"
    using p Suc.prems d by (intro downto_rec) auto
  consider "equal_prefix (mem s) (p - 1) pat" | "\<not> equal_prefix (mem s) (p - 1) pat" "p - 1 = dot s"
    | "\<not> equal_prefix (mem s) (p - 1) pat" "p - 1 \<noteq> dot s" by blast
  then show ?case
  proof cases
    case 1
    then show ?thesis using p Suc.prems unfolding dn by (subst reverse_find_loop.simps) simp
  next
    case 2
    obtain s' where "printOnStatusLine (bytes_of ''Pattern not found'') s = Some s'" "vi_ready s'" "vi_same s s'"
      using status_message[OF Suc.prems(1)] messages by blast
    then show ?thesis using p 2 unfolding dn by (subst reverse_find_loop.simps) (auto simp: vi_same_def)
  next
    case 3
    have n: "n = nat (p - 1)" using Suc.hyps(2) by linarith
    have "?lo (p - 1) = ?lo p" using 3 by auto
    moreover obtain s' where "reverse_find_loop pat (p - 1) 1 s =
        Some (s', first_match (mem s) pat (downto (p - 1 - 1) (?lo (p - 1))) (dot s))" "vi_ready s'" "vi_same s s'"
      using Suc.hyps(1)[OF n] Suc.prems p by auto
    ultimately show ?thesis using p 3 unfolding dn by (subst reverse_find_loop.simps) simp
  qed
qed

lemma reverse_find_first:
  assumes "vi_ready s" "2 \<le> vend s"
  shows "0 \<le> p \<Longrightarrow> p \<le> dot s \<Longrightarrow>
   \<exists>s'. reverse_find_loop pat p 0 s =
     Some (s', first_match (mem s) pat
       (downto (p - 1) 0 @ downto (vend s - 2) (if dot s < vend s - 1 then dot s else 0)) (dot s)) \<and>
     vi_ready s' \<and> vi_same s s'"
proof (induction "nat p" arbitrary: p)
  case 0
  then have p: "p = 0" by simp
  obtain s3 where s3: "do { s1 \<leftarrow> printOnStatusLine (bytes_of ''search hit TOP, continuing at BOTTOM'') s;
      s2 \<leftarrow> synchronize s1; s3 \<leftarrow> redraw s2; Some (s3, vend s3 - 1, (0::int) + 1) } = Some (s3, vend s3 - 1, 0 + 1)"
    "vi_ready s3" "vi_same s s3"
    using search_wrap[OF assms(1) messages(3), of "\<lambda>s. (s, vend s - 1, 0 + 1)"] by blast
  have "reverse_find_loop pat p 0 s = reverse_find_loop pat (vend s - 1) 1 s3"
    using s3 p assms(2)
    by (subst reverse_find_loop.simps, subst (2) reverse_find_loop.simps) (auto simp: vi_same_def)
  then show ?case using reverse_find_second[OF s3(2), of "vend s - 1" pat] s3(3) assms(2) p
    by (auto simp: vi_same_def intro: vi_same_trans)
next
  case (Suc n)
  then have p: "p \<noteq> 0" by simp
  have dn: "downto (p - 1) 0 = (p - 1) # downto (p - 1 - 1) 0"
    using p Suc.prems by (intro downto_rec) auto
  show ?case
  proof (cases "equal_prefix (mem s) (p - 1) pat")
    case True
    then show ?thesis using p assms unfolding dn by (subst reverse_find_loop.simps) simp
  next
    case False
    have n: "n = nat (p - 1)" using Suc.hyps(2) by linarith
    from False Suc.hyps(1)[OF n] Suc.prems p show ?thesis unfolding dn
      by (subst reverse_find_loop.simps) auto
  qed
qed

text \<open>
  \<open>reverseFindString\<close> (\<open>vi.c\<close>, the command \<open>N\<close>) returns on every text of two bytes or
  more, changes nothing but the display, and its result is the first position going back from
  the dot to the start of the text and then from the byte before the last down to the dot
  where the pattern stands; it is the dot if there is none.
\<close>

theorem reverseFindString_first_match:
  assumes "vi_ready s" "2 \<le> vend s"
  shows "\<exists>s'. reverseFindString pat s =
     Some (s', first_match (mem s) pat (downto (dot s - 1) 0 @ downto (vend s - 2) (dot s)) (dot s)) \<and>
     vi_ready s' \<and> vi_same s s'"
proof -
  have "first_match (mem s) pat (downto (dot s - 1) 0 @ downto (vend s - 2) (if dot s < vend s - 1 then dot s else 0)) (dot s) =
        first_match (mem s) pat (downto (dot s - 1) 0 @ downto (vend s - 2) (dot s)) (dot s)"
  proof (cases "dot s < vend s - 1")
    case False
    then have "dot s = vend s - 1" using assms(1) by (simp add: vi_ready_def dot_ok_def)
    then show ?thesis by (simp add: first_match_twice)
  qed simp
  then show ?thesis using reverse_find_first[OF assms, of "dot s" pat] assms(1)
    by (simp add: reverseFindString_def vi_ready_def dot_ok_def)
qed

theorem reverseFindString_first_match_witness:
  "\<exists>s'. reverseFindString [111] (vi_sample hi_you) = Some (s', 4)"
proof -
  have up: "[0..5] = [0, 1, 2, 3, 4, 5::int]" by (simp add: upto_rec1)
  have "vi_ready (vi_sample hi_you)" by (rule ready_sample) (simp_all add: plain_def)
  moreover have "mem (vi_sample hi_you) 5 = 117" "mem (vi_sample hi_you) 4 = 111" by (simp_all add: vi_sample_def)
  ultimately show ?thesis
    using reverseFindString_first_match[of "vi_sample hi_you" "[111]"] by (auto simp: up)
qed


section \<open>Line motions\<close>

lemma dot_right_eq: "dot_right s = (if dot s < vend s - 1 \<and> mem s (dot s) \<noteq> NL then s\<lparr>dot := dot s + 1\<rparr> else s)"
  by (simp add: dot_right_def dot_increase_def)

lemma end_line_step: "p < e - 1 \<Longrightarrow> m p \<noteq> NL \<Longrightarrow> end_line m e p = end_line m e (p + 1)"
  by (subst end_line.simps) simp

lemma end_line_here: "m p = NL \<or> e - 1 \<le> p \<Longrightarrow> end_line m e p = p"
  by (subst end_line.simps) auto

lemma begin_line_step: "0 < p \<Longrightarrow> m (p - 1) \<noteq> NL \<Longrightarrow> begin_line m p = begin_line m (p - 1)"
  by (subst begin_line.simps) simp

lemma begin_line_here: "p \<le> 0 \<or> m (p - 1) = NL \<Longrightarrow> begin_line m p = p"
  by (subst begin_line.simps) auto

text \<open>The column loop moves right by the column of \<open>p\<close>, at most to the end of the line.\<close>

lemma column_loop_eq:
  "dot s \<le> vend s - 1 \<Longrightarrow>
   column_loop p s = s\<lparr>dot := min (dot s + (p - begin_line (mem s) p)) (end_line (mem s) (vend s) (dot s))\<rparr>"
proof (induction p s rule: column_loop.induct)
  case (1 p s)
  let ?e = "end_line (mem s) (vend s) (dot s)"
  have range: "dot s \<le> ?e" "?e \<le> vend s - 1" using "1.prems" end_line_range by auto
  show ?case
  proof (cases "0 < p \<and> mem s (p - 1) \<noteq> NL")
    case False
    then have "begin_line (mem s) p = p" by (intro begin_line_here) auto
    with False range show ?thesis by (subst column_loop.simps) auto
  next
    case True
    then have bl: "begin_line (mem s) p = begin_line (mem s) (p - 1)" by (intro begin_line_step) auto
    have ble: "begin_line (mem s) (p - 1) \<le> p - 1" by (rule begin_line_range)
    define s' where "s' = dot_right s"
    have s': "s' = (if dot s < ?e then s\<lparr>dot := dot s + 1\<rparr> else s)"
      using end_line_stop[OF "1.prems", of "mem s"] range
      by (cases "dot s < vend s - 1 \<and> mem s (dot s) \<noteq> NL")
         (auto simp: s'_def dot_right_eq line_stop_def end_line_here)
    have step: "column_loop p s = (if mem s' (dot s') = NL then s' else column_loop (p - 1) s')"
      using True by (subst column_loop.simps) (simp add: s'_def)
    have e': "end_line (mem s) (vend s) (dot s') = ?e"
      using s' range end_line_step[of "dot s" "vend s" "mem s"] end_line_stop[OF "1.prems", of "mem s"]
      by (auto simp: line_stop_def)
    show ?thesis
    proof (cases "mem s' (dot s') = NL")
      case nl: True
      have "?e = dot s'" using e' nl s' end_line_here[of "mem s" "dot s'" "vend s"] by (auto split: if_splits)
      then have "min (dot s + (p - begin_line (mem s) p)) ?e = dot s'" using s' bl ble by (auto split: if_splits)
      with step nl s' show ?thesis by auto
    next
      case False
      have "dot s' \<le> vend s' - 1" using s' range by auto
      then have IH: "column_loop (p - 1) s' = s'\<lparr>dot := min (dot s' + (p - 1 - begin_line (mem s') (p - 1)))
          (end_line (mem s') (vend s') (dot s'))\<rparr>"
        using "1.IH"[OF True s'_def False] by simp
      have m': "mem s' = mem s" "vend s' = vend s" using s' by auto
      have "min (dot s' + (p - 1 - begin_line (mem s) (p - 1))) ?e = min (dot s + (p - begin_line (mem s) p)) ?e"
        using s' range bl ble by (auto simp: min_def)
      then show ?thesis using step False IH s' m' e' by auto
    qed
  qed
qed

lemma dot_preLine_eq:
  "dot_preLine s =
     (let b = begin_line (mem s) (dot s); d = begin_line (mem s) (b - 1)
      in if 0 < b then (s\<lparr>dot := d, screenbegin := min d (screenbegin s)\<rparr>, True) else (s, False))"
  if "0 \<le> dot s"
proof -
  define b where "b = begin_line (mem s) (dot s)"
  define d where "d = begin_line (mem s) (b - 1)"
  have nl: "0 < b \<Longrightarrow> mem s (b - 1) = NL" using begin_line_start[OF that, of "mem s"] by (auto simp: b_def line_start_def)
  have "0 < b \<Longrightarrow> begin_line (mem s) d = d"
    using begin_line_start[of "b - 1" "mem s"] by (intro begin_line_here) (auto simp: d_def line_start_def)
  then show ?thesis using nl
    by (auto simp: dot_preLine_def dot_head_eq dot_decrease_def b_def[symmetric] d_def[symmetric] Let_def min_def)
qed

lemma dot_nextLine_eq:
  assumes "0 \<le> dot s" "dot s \<le> vend s - 1"
  shows "\<exists>sb. dot_nextLine s =
     (let q = end_line (mem s) (vend s) (dot s)
      in if q < vend s - 1 then (s\<lparr>dot := q + 1, screenbegin := sb\<rparr>, True) else (s, False)) \<and>
     (0 \<le> screenbegin s \<longrightarrow> 0 \<le> sb)"
proof -
  define q where "q = end_line (mem s) (vend s) (dot s)"
  have q: "dot s \<le> q" "q \<le> vend s - 1" "q < vend s - 1 \<Longrightarrow> mem s q = NL"
    using end_line_stop[OF assms(2), of "mem s"] by (auto simp: line_stop_def q_def)
  have bl: "q < vend s - 1 \<Longrightarrow> begin_line (mem s) (q + 1) = q + 1" using q by (intro begin_line_here) auto
  let ?s2 = "s\<lparr>dot := q + 1\<rparr>"
  obtain s3 cnt where c: "countCursorPosFromScreenBegin2Dot ?s2 = (s3, cnt)" by (metis prod.exhaust)
  define sb where "sb = (if 1920 \<le> cnt then next_line (mem s3) (vend s3) (screenbegin s3) else screenbegin s3)"
  have s3: "s3 = ?s2\<lparr>screenbegin := screenbegin s3\<rparr>" "q < vend s - 1 \<longrightarrow> 0 \<le> screenbegin s \<longrightarrow> 0 \<le> screenbegin s3"
    using c q bl assms by (auto simp: countCursorPosFromScreenBegin2Dot_def split: if_splits)
  have upd: "s3\<lparr>screenbegin := x\<rparr> = s\<lparr>dot := q + 1, screenbegin := x\<rparr>" for x by (subst s3(1)) simp
  have "dot_nextLine s = (if q < vend s - 1 then (s\<lparr>dot := q + 1, screenbegin := sb\<rparr>, True) else (s, False))"
    using q bl c s3(1) upd by (auto simp: dot_nextLine_def dot_tail_eq dot_head_eq dot_increase_def q_def[symmetric] sb_def Let_def)
  moreover have "q < vend s - 1 \<longrightarrow> 0 \<le> screenbegin s \<longrightarrow> 0 \<le> sb"
    using s3(2) end_line_range(1)[of "screenbegin s3" "mem s3" "vend s3"] by (auto simp: sb_def next_line_def Let_def)
  ultimately show ?thesis unfolding q_def[symmetric] Let_def
    by (cases "q < vend s - 1") (auto intro: exI[of _ sb] exI[of _ "screenbegin s"])
qed


lemma dot_up_down_moves:
  assumes "dot_ok s"
  defines "m \<equiv> mem s" and "b \<equiv> begin_line (mem s) (dot s)" and "q \<equiv> end_line (mem s) (vend s) (dot s)"
  shows "\<exists>sb. 0 \<le> sb \<and> dot_up s =
           (if 0 < b then (s\<lparr>dot := min (begin_line m (b - 1) + (dot s - b)) (end_line m (vend s) (begin_line m (b - 1))),
                             screenbegin := sb\<rparr>, True)
            else (s, False))"
    and "\<exists>sb. 0 \<le> sb \<and> dot_down s =
           (if q < vend s - 1 then (s\<lparr>dot := min (q + 1 + (dot s - b)) (end_line m (vend s) (q + 1)),
                             screenbegin := sb\<rparr>, True)
            else (s, False))"
proof -
  have d: "0 \<le> dot s" "dot s \<le> vend s - 1" "0 \<le> screenbegin s" using assms(1) by (auto simp: dot_ok_def)
  have b: "b \<le> dot s" by (simp add: b_def)
  have m: "mem s = m" "begin_line m (dot s) = b" by (simp_all add: m_def b_def)
  show "\<exists>sb. 0 \<le> sb \<and> dot_up s =
           (if 0 < b then (s\<lparr>dot := min (begin_line m (b - 1) + (dot s - b)) (end_line m (vend s) (begin_line m (b - 1))),
                             screenbegin := sb\<rparr>, True)
            else (s, False))"
  proof (cases "0 < b")
    case True
    have "begin_line m (b - 1) \<le> b - 1" by (rule begin_line_range)
    moreover have "0 \<le> begin_line m (b - 1)" using True by simp
    ultimately have "begin_line m (b - 1) \<le> vend s - 1" "0 \<le> begin_line m (b - 1)" using b d by auto
    then show ?thesis using True d b
      by (intro exI[of _ "min (begin_line m (b - 1)) (screenbegin s)"])
         (simp add: dot_up_def dot_preLine_eq Let_def column_loop_eq m)
  next
    case False
    then show ?thesis using d by (intro exI[of _ 0]) (simp add: dot_up_def dot_preLine_eq m Let_def)
  qed
  obtain sb where sb: "dot_nextLine s = (if q < vend s - 1 then (s\<lparr>dot := q + 1, screenbegin := sb\<rparr>, True) else (s, False))"
    "0 \<le> sb" using dot_nextLine_eq[OF d(1,2)] d(3) unfolding q_def Let_def by blast
  then show "\<exists>sb. 0 \<le> sb \<and> dot_down s =
           (if q < vend s - 1 then (s\<lparr>dot := min (q + 1 + (dot s - b)) (end_line m (vend s) (q + 1)),
                             screenbegin := sb\<rparr>, True)
            else (s, False))"
    by (intro exI[of _ sb]) (simp add: dot_down_def Let_def column_loop_eq b_def m_def)
qed

text \<open>
  the vertical motions (\<open>dot_up\<close>, \<open>dot_down\<close>, \<open>vi.c\<close>): the dot goes to the same column of the
  line above or below, or to the last character of that line if it is shorter; on the first
  (last) line nothing changes and the result is false. Apart from the dot at most
  \<open>screenbegin\<close> changes.
\<close>

theorem dot_up_down_correct:
  assumes "dot_ok s"
  defines "m \<equiv> mem s" and "b \<equiv> begin_line (mem s) (dot s)" and "q \<equiv> end_line (mem s) (vend s) (dot s)"
  shows "(\<exists>sb. 0 \<le> sb \<and> dot_up s =
           (if 0 < b then (s\<lparr>dot := min (begin_line m (b - 1) + (dot s - b)) (end_line m (vend s) (begin_line m (b - 1))),
                             screenbegin := sb\<rparr>, True)
            else (s, False))) \<and>
         (\<exists>sb. 0 \<le> sb \<and> dot_down s =
           (if q < vend s - 1 then (s\<lparr>dot := min (q + 1 + (dot s - b)) (end_line m (vend s) (q + 1)),
                             screenbegin := sb\<rparr>, True)
            else (s, False)))"
  using dot_up_down_moves[OF assms(1)] unfolding m_def b_def q_def by (rule conjI)

theorem dot_up_down_correct_witness:
  "\<exists>sb. fst (dot_down ((vi_sample hi_you)\<lparr>dot := 1\<rparr>)) = (vi_sample hi_you)\<lparr>dot := 4, screenbegin := sb\<rparr>"
proof -
  let ?s = "(vi_sample hi_you)\<lparr>dot := 1\<rparr>"
  have "dot_ok ?s" by (simp add: dot_ok_def)
  moreover have "begin_line (mem ?s) 1 = 0" "end_line (mem ?s) 7 1 = 2" "end_line (mem ?s) 7 3 = 6"
    by (simp_all add: vi_sample_def begin_line.simps end_line.simps)
  ultimately show ?thesis using dot_up_down_correct[of ?s] by auto
qed

section \<open>Motions that may never return\<close>

lemma text_end_loop_fits:
  assumes "text_end_loop s = Some s'"
  shows "\<not> (0 \<le> screenbegin s \<and> screenbegin s \<le> dot s \<and> count_loop (mem s) 0 (dot s) 0 < 1920)"
proof (rule text_end_loop.raw_induct[where P = "\<lambda>s _. \<not> (0 \<le> screenbegin s \<and> screenbegin s \<le> dot s \<and>
    count_loop (mem s) 0 (dot s) 0 < 1920)", OF _ assms], goal_cases)
  case (1 loop s y)
  show ?case
  proof (intro notI, elim conjE)
    assume h: "0 \<le> screenbegin s" "screenbegin s \<le> dot s" "count_loop (mem s) 0 (dot s) 0 < 1920"
    let ?p = "prev_line (mem s) (screenbegin s)"
    have "count_loop (mem s) (screenbegin s) (dot s) 0 < 1920"
      using count_from_later[of 0 "screenbegin s" "dot s" "mem s"] h by simp
    then have "loop (s\<lparr>screenbegin := ?p\<rparr>) = Some y"
      using 1(2) h by (simp add: countCursorPosFromScreenBegin2Dot_def)
    from 1(1)[OF this] h prev_line_range[OF h(1), of "mem s"] show False by simp
  qed
qed

lemma next_prev_line:
  assumes "0 < p" "m (p - 1) = NL" "p \<le> e - 1"
  shows "next_line m e (prev_line m p) = p" "0 \<le> prev_line m p" "prev_line m p < p"
    "prev_line m p = 0 \<or> m (prev_line m p - 1) = NL"
proof -
  define b where "b = begin_line m (p - 1)"
  have pl: "prev_line m p = b" using assms by (simp add: prev_line_def begin_line_here b_def)
  have st: "line_start m (p - 1) b" using assms by (simp add: b_def begin_line_start)
  then have "end_line m e b = p - 1"
    using end_line_from_start[OF st, of e] end_line_here[of m "p - 1" e] assms by simp
  then show "next_line m e (prev_line m p) = p" using assms by (simp add: next_line_def pl)
  show "0 \<le> prev_line m p" "prev_line m p < p" "prev_line m p = 0 \<or> m (prev_line m p - 1) = NL"
    using st by (auto simp: pl line_start_def)
qed

lemma text_end_loop_returns:
  "0 \<le> screenbegin s \<Longrightarrow> screenbegin s \<le> dot s \<Longrightarrow> screenbegin s = 0 \<or> mem s (screenbegin s - 1) = NL \<Longrightarrow>
   dot s \<le> vend s - 1 \<Longrightarrow> 1920 \<le> count_loop (mem s) 0 (dot s) 0 \<Longrightarrow>
   \<exists>sb. text_end_loop s = Some (s\<lparr>screenbegin := sb\<rparr>) \<and> 0 \<le> sb \<and>
     (sb < screenbegin s \<and> next_line (mem s) (vend s) sb \<le> screenbegin s \<and>
        count_loop (mem s) (next_line (mem s) (vend s) sb) (dot s) 0 < 1920 \<or>
      sb = screenbegin s \<and> 1920 \<le> count_loop (mem s) (screenbegin s) (dot s) 0)"
proof (induction "nat (screenbegin s)" arbitrary: s rule: less_induct)
  case less
  let ?m = "mem s" and ?p = "screenbegin s"
  have cnt: "countCursorPosFromScreenBegin2Dot s = (s, count_loop ?m ?p (dot s) 0)"
    using less.prems by (simp add: countCursorPosFromScreenBegin2Dot_def)
  show ?case
  proof (cases "1920 \<le> count_loop ?m ?p (dot s) 0")
    case True
    then show ?thesis using cnt less.prems(1) by (subst text_end_loop.simps) (auto intro: exI[of _ ?p])
  next
    case False
    then have p: "0 < ?p" using less.prems(1,5) by (cases "?p = 0") auto
    with less.prems have nl: "?m (?p - 1) = NL" by auto
    define q where "q = prev_line ?m ?p"
    have q: "next_line ?m (vend s) q = ?p" "0 \<le> q" "q < ?p" "q = 0 \<or> ?m (q - 1) = NL"
      using next_prev_line[of ?p ?m "vend s"] p nl less.prems by (auto simp: q_def)
    define s1 where "s1 = s\<lparr>screenbegin := q\<rparr>"
    have eq: "text_end_loop s = text_end_loop s1"
      using cnt False by (subst text_end_loop.simps) (simp add: s1_def q_def)
    have "\<exists>sb. text_end_loop s1 = Some (s1\<lparr>screenbegin := sb\<rparr>) \<and> 0 \<le> sb \<and>
       (sb < q \<and> next_line ?m (vend s) sb \<le> q \<and> count_loop ?m (next_line ?m (vend s) sb) (dot s) 0 < 1920 \<or>
        sb = q \<and> 1920 \<le> count_loop ?m q (dot s) 0)"
      using less.hyps[of s1] less.prems q p by (simp add: s1_def)
    then obtain sb where "text_end_loop s1 = Some (s1\<lparr>screenbegin := sb\<rparr>)" "0 \<le> sb"
       "sb < q \<and> next_line ?m (vend s) sb \<le> q \<and> count_loop ?m (next_line ?m (vend s) sb) (dot s) 0 < 1920 \<or> sb = q"
      by blast
    then show ?thesis using q False eq by (intro exI[of _ sb]) (auto simp: s1_def)
  qed
qed

lemma dot_textEnd_returns:
  assumes "1 \<le> vend s"
  shows "dot_textEnd s = None \<longleftrightarrow> count_loop (mem s) 0 (vend s - 1) 0 < 1920"
    and "dot_textEnd s = Some s' \<Longrightarrow> \<exists>sb. s' = s\<lparr>dot := vend s - 1, screenbegin := sb\<rparr> \<and>
      (dot_width s' < 1920 \<longrightarrow> in_window s')"
proof -
  let ?m = "mem s" and ?d = "vend s - 1"
  define s1 where "s1 = s\<lparr>dot := ?d, screenbegin := begin_line ?m ?d\<rparr>"
  have st: "line_start ?m ?d (screenbegin s1)" using assms by (simp add: s1_def begin_line_start)
  have run: "dot_textEnd s = (case text_end_loop s1 of None \<Rightarrow> None
      | Some s2 \<Rightarrow> Some (s2\<lparr>screenbegin := next_line (mem s2) (vend s2) (screenbegin s2)\<rparr>))"
    by (simp add: dot_textEnd_def s1_def split: option.split)
  have fits: "count_loop ?m 0 ?d 0 < 1920 \<Longrightarrow> text_end_loop s1 = None"
    using text_end_loop_fits[of s1] st by (cases "text_end_loop s1") (auto simp: s1_def line_start_def)
  have big: "\<exists>sb. text_end_loop s1 = Some (s1\<lparr>screenbegin := sb\<rparr>) \<and> 0 \<le> sb \<and>
     (next_line ?m (vend s) sb \<le> screenbegin s1 \<and> sb < screenbegin s1 \<and> count_loop ?m (next_line ?m (vend s) sb) ?d 0 < 1920 \<or>
      1920 \<le> count_loop ?m (begin_line ?m ?d) ?d 0)" if "\<not> count_loop ?m 0 ?d 0 < 1920"
    using text_end_loop_returns[of s1] st that by (auto simp: s1_def line_start_def)
  show "dot_textEnd s = None \<longleftrightarrow> count_loop ?m 0 ?d 0 < 1920"
    using run fits big by (cases "count_loop ?m 0 ?d 0 < 1920") auto
  assume ret: "dot_textEnd s = Some s'"
  then have "\<not> count_loop ?m 0 ?d 0 < 1920" using run fits by auto
  from big[OF this] obtain sb where sb: "text_end_loop s1 = Some (s1\<lparr>screenbegin := sb\<rparr>)" "0 \<le> sb"
     "next_line ?m (vend s) sb \<le> screenbegin s1 \<and> sb < screenbegin s1 \<and> count_loop ?m (next_line ?m (vend s) sb) ?d 0 < 1920 \<or>
      1920 \<le> count_loop ?m (begin_line ?m ?d) ?d 0" by blast
  have s': "s' = s\<lparr>dot := ?d, screenbegin := next_line ?m (vend s) sb\<rparr>"
    using ret run sb(1) by (simp add: s1_def)
  have "0 \<le> next_line ?m (vend s) sb"
    using end_line_range(1)[of sb ?m "vend s"] sb(2) by (auto simp: next_line_def Let_def)
  moreover have "screenbegin s1 \<le> ?d" using st by (simp add: line_start_def)
  ultimately have "dot_width s' < 1920 \<longrightarrow> in_window s'"
    using sb(3) by (auto simp: s' dot_width_def in_window_def)
  then show "\<exists>sb. s' = s\<lparr>dot := vend s - 1, screenbegin := sb\<rparr> \<and> (dot_width s' < 1920 \<longrightarrow> in_window s')"
    using s' by blast
qed

text \<open>
  the command \<open>G\<close> (\<open>dot_textEnd\<close>, \<open>vi.c\<close>) returns exactly when the text does not fit on one
  screen; on a text that fits (every small file) it loops for ever. When it returns, the dot is
  the last character, and it is inside the window if its line is narrower than the screen.
\<close>

theorem dot_textEnd_correct:
  assumes "1 \<le> vend s"
  shows "(dot_textEnd s = None \<longleftrightarrow> count_loop (mem s) 0 (vend s - 1) 0 < 1920) \<and>
    (\<forall>s'. dot_textEnd s = Some s' \<longrightarrow> (\<exists>sb. s' = s\<lparr>dot := vend s - 1, screenbegin := sb\<rparr> \<and>
      (dot_width s' < 1920 \<longrightarrow> in_window s')))"
  using dot_textEnd_returns[OF assms] by blast

theorem dot_textEnd_correct_witness: "dot_textEnd (vi_sample hi_you) = None"
proof -
  have "count_loop (mem (vi_sample hi_you)) 0 6 0 < 1920"
    by (simp add: vi_sample_def count_loop_step count_step_def)
  then show ?thesis using dot_textEnd_correct[of "vi_sample hi_you"] by simp
qed


text \<open>The first character of a word, for the word motions.\<close>

definition word_head :: "memory \<Rightarrow> int \<Rightarrow> bool" where
  "word_head m i \<longleftrightarrow> isSpace (m (i - 1)) \<and> \<not> isSpace (m i)"

lemma next_word_returns:
  "dot s < vend s \<Longrightarrow>
   \<exists>d. dot_move2NextWordHead s = Some (s\<lparr>dot := d\<rparr>) \<and> dot s \<le> d \<and> d \<le> vend s - 1 \<and>
     (dot s < vend s - 1 \<longrightarrow> dot s < d) \<and> (d = vend s - 1 \<or> word_head (mem s) d) \<and>
     (\<forall>i. dot s < i \<and> i < d \<longrightarrow> \<not> word_head (mem s) i)"
proof (induction "nat (vend s - dot s)" arbitrary: s rule: less_induct)
  case less
  define d1 where "d1 = (if dot s < vend s - 1 then dot s + 1 else dot s)"
  have inc: "dot_increase s = s\<lparr>dot := d1\<rparr>" by (simp add: dot_increase_def d1_def)
  show ?case
  proof (cases "d1 = vend s - 1 \<or> word_head (mem s) d1")
    case True
    then have "dot_move2NextWordHead s = Some (s\<lparr>dot := d1\<rparr>)"
      by (subst dot_move2NextWordHead.simps) (auto simp: inc word_head_def Let_def)
    then show ?thesis using True less.prems by (intro exI[of _ d1]) (auto simp: d1_def)
  next
    case False
    then have d1: "d1 = dot s + 1" "dot s + 1 < vend s - 1" using less.prems by (auto simp: d1_def split: if_splits)
    have step: "dot_move2NextWordHead s = dot_move2NextWordHead (s\<lparr>dot := d1\<rparr>)"
      using False by (subst dot_move2NextWordHead.simps) (auto simp: inc word_head_def Let_def)
    obtain d where d: "dot_move2NextWordHead (s\<lparr>dot := d1\<rparr>) = Some (s\<lparr>dot := d\<rparr>)" "d1 < d" "d \<le> vend s - 1"
      "d = vend s - 1 \<or> word_head (mem s) d" "\<forall>i. d1 < i \<and> i < d \<longrightarrow> \<not> word_head (mem s) i"
      using less.hyps[of "s\<lparr>dot := d1\<rparr>"] d1 by auto
    have "\<not> word_head (mem s) i" if "dot s < i" "i < d" for i
      using that d(5) False d1 by (cases "i = d1") auto
    then show ?thesis using d d1 step by (intro exI[of _ d]) auto
  qed
qed

lemma prev_word_returns:
  "0 \<le> screenbegin s \<Longrightarrow> screenbegin s < dot s \<or> dot s = 0 \<and> screenbegin s = 0 \<Longrightarrow>
   \<exists>d. dot_move2PreWordHead s = Some (s\<lparr>dot := d\<rparr>) \<and> screenbegin s \<le> d \<and> d \<le> dot s \<and>
     (screenbegin s < dot s \<longrightarrow> d < dot s) \<and> (d = screenbegin s \<or> word_head (mem s) d) \<and>
     (\<forall>i. d < i \<and> i < dot s \<longrightarrow> \<not> word_head (mem s) i)"
proof (induction "nat (dot s)" arbitrary: s rule: less_induct)
  case less
  define d1 where "d1 = (if 0 < dot s then dot s - 1 else dot s)"
  have dec: "dot_decrease s = s\<lparr>dot := d1\<rparr>" by (simp add: dot_decrease_def d1_def)
  have ge: "screenbegin s \<le> d1" using less.prems by (auto simp: d1_def)
  show ?case
  proof (cases "d1 = screenbegin s \<or> word_head (mem s) d1")
    case True
    then have "dot_move2PreWordHead s = Some (s\<lparr>dot := d1\<rparr>)"
      using ge by (subst dot_move2PreWordHead.simps) (auto simp: dec word_head_def Let_def)
    then show ?thesis using True less.prems ge by (intro exI[of _ d1]) (auto simp: d1_def)
  next
    case False
    then have d1: "d1 = dot s - 1" "screenbegin s < d1" using less.prems ge by (auto simp: d1_def split: if_splits)
    have step: "dot_move2PreWordHead s = dot_move2PreWordHead (s\<lparr>dot := d1\<rparr>)"
      using False by (subst dot_move2PreWordHead.simps) (auto simp: dec word_head_def Let_def)
    obtain d where d: "dot_move2PreWordHead (s\<lparr>dot := d1\<rparr>) = Some (s\<lparr>dot := d\<rparr>)" "d < d1" "screenbegin s \<le> d"
      "d = screenbegin s \<or> word_head (mem s) d" "\<forall>i. d < i \<and> i < d1 \<longrightarrow> \<not> word_head (mem s) i"
      using less.hyps[of "s\<lparr>dot := d1\<rparr>"] d1 less.prems by auto
    have "\<not> word_head (mem s) i" if "d < i" "i < dot s" for i
      using that d(5) False d1 by (cases "i = d1") auto
    then show ?thesis using d d1 step by (intro exI[of _ d]) auto
  qed
qed

lemma prev_word_stuck:
  assumes "dot_move2PreWordHead s = Some s'"
  shows "\<not> (0 < screenbegin s \<and> dot s \<le> screenbegin s)"
proof (rule dot_move2PreWordHead.raw_induct[where P = "\<lambda>s _. \<not> (0 < screenbegin s \<and> dot s \<le> screenbegin s)",
    OF _ assms], goal_cases)
  case (1 loop s y)
  show ?case
  proof (intro notI, elim conjE)
    assume h: "0 < screenbegin s" "dot s \<le> screenbegin s"
    have "dot (dot_decrease s) < screenbegin s" "screenbegin (dot_decrease s) = screenbegin s"
      using h by (auto simp: dot_decrease_def)
    with 1(2) have "loop (dot_decrease s) = Some y" by (simp add: Let_def)
    from 1(1)[OF this] h show False by (auto simp: dot_decrease_def split: if_splits)
  qed
qed

lemma word_motions:
  assumes "dot_ok s"
  shows "\<exists>d. dot_move2NextWordHead s = Some (s\<lparr>dot := d\<rparr>) \<and> dot s \<le> d \<and> d \<le> vend s - 1 \<and>
     (dot s < vend s - 1 \<longrightarrow> dot s < d) \<and> (d = vend s - 1 \<or> word_head (mem s) d) \<and>
     (\<forall>i. dot s < i \<and> i < d \<longrightarrow> \<not> word_head (mem s) i)"
    and "if 0 < screenbegin s \<and> dot s \<le> screenbegin s then dot_move2PreWordHead s = None
     else \<exists>d. dot_move2PreWordHead s = Some (s\<lparr>dot := d\<rparr>) \<and> screenbegin s \<le> d \<and> d \<le> dot s \<and>
       (screenbegin s < dot s \<longrightarrow> d < dot s) \<and> (d = screenbegin s \<or> word_head (mem s) d) \<and>
       (\<forall>i. d < i \<and> i < dot s \<longrightarrow> \<not> word_head (mem s) i)"
proof -
  show "\<exists>d. dot_move2NextWordHead s = Some (s\<lparr>dot := d\<rparr>) \<and> dot s \<le> d \<and> d \<le> vend s - 1 \<and>
     (dot s < vend s - 1 \<longrightarrow> dot s < d) \<and> (d = vend s - 1 \<or> word_head (mem s) d) \<and>
     (\<forall>i. dot s < i \<and> i < d \<longrightarrow> \<not> word_head (mem s) i)"
    using assms by (intro next_word_returns) (simp add: dot_ok_def)
  show "if 0 < screenbegin s \<and> dot s \<le> screenbegin s then dot_move2PreWordHead s = None
     else \<exists>d. dot_move2PreWordHead s = Some (s\<lparr>dot := d\<rparr>) \<and> screenbegin s \<le> d \<and> d \<le> dot s \<and>
       (screenbegin s < dot s \<longrightarrow> d < dot s) \<and> (d = screenbegin s \<or> word_head (mem s) d) \<and>
       (\<forall>i. d < i \<and> i < dot s \<longrightarrow> \<not> word_head (mem s) i)"
  proof (cases "0 < screenbegin s \<and> dot s \<le> screenbegin s")
    case True
    then show ?thesis using prev_word_stuck[of s] by (cases "dot_move2PreWordHead s") auto
  next
    case False
    with assms have "screenbegin s < dot s \<or> dot s = 0 \<and> screenbegin s = 0" by (auto simp: dot_ok_def)
    from prev_word_returns[OF _ this] False assms show ?thesis unfolding dot_ok_def by (simp only: if_False)
  qed
qed

text \<open>
  the word motions \<open>w\<close> and \<open>b\<close> (\<open>dot_move2NextWordHead\<close>, \<open>dot_move2PreWordHead\<close>, \<open>vi.c\<close>).
  \<open>w\<close> with the dot in the text returns with the dot on the nearest word start behind it, or on
  the last character. \<open>b\<close> returns with the dot on the nearest word start before it or on the
  first character of the window; it never returns when the dot is at or before the start of a
  window that is not at the start of the text.
\<close>

theorem word_motions_correct:
  assumes "dot_ok s"
  shows "(\<exists>d. dot_move2NextWordHead s = Some (s\<lparr>dot := d\<rparr>) \<and> dot s \<le> d \<and> d \<le> vend s - 1 \<and>
     (dot s < vend s - 1 \<longrightarrow> dot s < d) \<and> (d = vend s - 1 \<or> word_head (mem s) d) \<and>
     (\<forall>i. dot s < i \<and> i < d \<longrightarrow> \<not> word_head (mem s) i)) \<and>
    (if 0 < screenbegin s \<and> dot s \<le> screenbegin s then dot_move2PreWordHead s = None
     else \<exists>d. dot_move2PreWordHead s = Some (s\<lparr>dot := d\<rparr>) \<and> screenbegin s \<le> d \<and> d \<le> dot s \<and>
       (screenbegin s < dot s \<longrightarrow> d < dot s) \<and> (d = screenbegin s \<or> word_head (mem s) d) \<and>
       (\<forall>i. d < i \<and> i < dot s \<longrightarrow> \<not> word_head (mem s) i))"
  using word_motions[OF assms] by (rule conjI)

theorem word_motions_correct_witness:
  "dot_move2PreWordHead ((vi_sample hi_you)\<lparr>dot := 3, screenbegin := 3\<rparr>) = None"
  using word_motions_correct[of "(vi_sample hi_you)\<lparr>dot := 3, screenbegin := 3\<rparr>"] by (simp add: dot_ok_def)

section \<open>Finding a character\<close>

lemma find_char_loop_spec:
  "p \<le> e \<Longrightarrow> (let q = find_char_loop m c e p
     in p \<le> q \<and> q \<le> e \<and> (p < q \<longrightarrow> q = e \<or> m q = c) \<and> (\<forall>i. p < i \<and> i < q \<longrightarrow> m i \<noteq> c) \<and> (p < e \<longrightarrow> p < q))"
proof (induction m c e p rule: find_char_loop.induct)
  case (1 m c e p)
  show ?case
  proof (cases "p < e \<and> m (p + 1) \<noteq> c")
    case True
    define q where "q = find_char_loop m c e (p + 1)"
    have q: "p + 1 \<le> q" "q \<le> e" "p + 1 < q \<longrightarrow> q = e \<or> m q = c" "\<forall>i. p + 1 < i \<and> i < q \<longrightarrow> m i \<noteq> c"
      "p + 1 < e \<longrightarrow> p + 1 < q"
      using 1 True by (auto simp: Let_def q_def)
    have "find_char_loop m c e p = q" using True by (subst find_char_loop.simps) (simp add: q_def)
    moreover have "m i \<noteq> c" if "p < i" "i < q" for i using that q(4) True by (cases "i = p + 1") auto
    ultimately show ?thesis using q True by (auto simp: Let_def)
  next
    case False
    then have "find_char_loop m c e p = (if p < e then p + 1 else p)" by (subst find_char_loop.simps) auto
    then show ?thesis using False "1.prems" by (auto simp: Let_def)
  qed
qed

text \<open>
  \<open>findChar\<close> (\<open>vi.c\<close>, the commands \<open>f\<close> and \<open>;\<close>) returns, with the first occurrence of the
  character behind the dot and before the last character of the line; if there is none there,
  with the dot (an occurrence that is the last character of the line is reported as missing).
\<close>

theorem findChar_correct:
  assumes "vi_ready s"
  defines "e \<equiv> end_line (mem s) (vend s) (dot s)"
  shows "\<exists>s' p. findChar c s = Some (s', p) \<and> vi_ready s' \<and> vi_same s s' \<and>
     (if \<exists>i. dot s < i \<and> i < e \<and> mem s i = c
      then dot s < p \<and> p < e \<and> mem s p = c \<and> (\<forall>i. dot s < i \<and> i < p \<longrightarrow> mem s i \<noteq> c) else p = dot s)"
proof -
  have "dot s \<le> e" using end_line_range(1) by (simp add: e_def)
  define q where "q = find_char_loop (mem s) c e (dot s)"
  have q: "dot s \<le> q" "q \<le> e" "dot s < q \<longrightarrow> q = e \<or> mem s q = c" "\<forall>i. dot s < i \<and> i < q \<longrightarrow> mem s i \<noteq> c"
    "dot s < e \<longrightarrow> dot s < q"
    using find_char_loop_spec[OF \<open>dot s \<le> e\<close>, of "mem s" c] by (auto simp: q_def Let_def)
  show ?thesis
  proof (cases "q = e")
    case True
    obtain s1 where s1: "synchronize s = Some s1" "vi_ready s1" "vi_same s s1"
      using synchronize_ready[OF assms(1)] by blast
    obtain s2 where s2: "printOnStatusLine (bytes_of ''last one same char'') s1 = Some s2" "vi_ready s2" "vi_same s1 s2"
      using status_message[OF s1(2) messages(1)] by blast
    have "findChar c s = Some (s2, dot s2)"
      using True s1(1) s2(1) by (simp add: findChar_def e_def[symmetric] q_def[symmetric])
    moreover have "vi_same s s2" using vi_same_trans[OF s1(3) s2(3)] .
    moreover have "\<not> (\<exists>i. dot s < i \<and> i < e \<and> mem s i = c)" using q(4) True by auto
    ultimately show ?thesis using s2(2) by (auto simp: vi_same_def)
  next
    case False
    then have "findChar c s = Some (s, q)" by (simp add: findChar_def e_def[symmetric] q_def[symmetric])
    moreover have "dot s < q" "q < e" "mem s q = c" using q False by auto
    ultimately show ?thesis using q(4) assms(1) by (intro exI[of _ s] exI[of _ q]) auto
  qed
qed

theorem findChar_correct_witness: "\<exists>s'. findChar 10 (vi_sample hi_you) = Some (s', 0)"
proof -
  have "vi_ready (vi_sample hi_you)" by (rule ready_sample) (simp_all add: plain_def)
  moreover have "end_line (mem (vi_sample hi_you)) 7 0 = 2" by (simp add: vi_sample_def end_line.simps)
  moreover have "\<not> (\<exists>i. 0 < i \<and> i < 2 \<and> mem (vi_sample hi_you) i = 10)"
  proof
    assume "\<exists>i. 0 < i \<and> i < 2 \<and> mem (vi_sample hi_you) i = 10"
    then have "mem (vi_sample hi_you) 1 = 10" by (metis int_one_le_iff_zero_less one_add_one order_antisym zle_add1_eq_le)
    then show False by (simp add: vi_sample_def)
  qed
  ultimately show ?thesis using findChar_correct[of "vi_sample hi_you" 10] by auto
qed

end
