(* ===== verification/Vi_Cmd.thy ===== *)
theory Vi_Cmd
  imports Vi_Move
begin

text \<open>
  The commands of the editor (\<open>vi.c\<close>): files, deletion, insert mode, the colon commands, the
  command switch \<open>doCmd\<close> and the main loop. Results: what insert mode types is what the text
  gets, commands that move do not change the text, what is saved and when, and the states in
  which a command leaves the text or does not return.
\<close>

section \<open>Reading a key\<close>

text \<open>
  \<open>read(0, &c, 1)\<close> with the console in unbuffered mode: one key per call; control-D makes the
  call return 0 bytes and leaves the variable as it was. With no key left the call blocks.
\<close>

definition read_key :: "byte \<Rightarrow> vi \<Rightarrow> (vi \<times> byte) option" where
  "read_key old s =
     (case keys s of [] \<Rightarrow> None | k # ks \<Rightarrow> Some (s\<lparr>keys := ks\<rparr>, if k = 4 then old else k))"

section \<open>Files\<close>

text \<open>
  The file is opened without truncation; \<open>write\<close> replaces the first bytes of the file, one more
  than the text has.
\<close>

definition overwrite :: "byte list \<Rightarrow> byte list \<Rightarrow> byte list" where
  "overwrite new old = new @ drop (length new) old"

definition file_save :: "vi \<Rightarrow> (vi \<times> int) option" where
  "file_save s =
     (case cfn s of
        None \<Rightarrow> do { s1 \<leftarrow> printOnStatusLine (bytes_of ''No current filename!!!'') s; Some (s1, - 1) }
      | Some _ \<Rightarrow>
          if \<not> open_ok s then Some (s, - 1)
          else do {
            let cnt = vend s + 1;
            let old = (case disk_file s of None \<Rightarrow> [] | Some bs \<Rightarrow> bs);
            case write_stop s of
              None \<Rightarrow> Some (s\<lparr>disk_file := Some (overwrite (bytes_at (mem s) 0 (nat cnt)) old)\<rparr>, cnt)
            | Some k \<Rightarrow> do {
                s1 \<leftarrow> printOnStatusLine (bytes_of ''save error!!!'')
                       (s\<lparr>disk_file := Some (overwrite (take k (bytes_at (mem s) 0 (nat cnt))) old)\<rparr>);
                Some (s1, 0)
              }
          })"

definition new_text :: "int \<Rightarrow> vi \<Rightarrow> vi" where
  "new_text sz s =
     (let sz = (if sz < 10240 then 10240 else sz)
      in s\<lparr>mem := umemset (mem s) 0 0 (nat sz), textend := sz\<rparr>)"

definition file_size :: "vi \<Rightarrow> int" where
  "file_size s = (case disk_file s of None \<Rightarrow> - 1 | Some bs \<Rightarrow> int (length bs))"

definition store_bytes :: "memory \<Rightarrow> int \<Rightarrow> byte list \<Rightarrow> memory" where
  "store_bytes m p bs = (\<lambda>i. if p \<le> i \<and> i < p + int (length bs) then bs ! nat (i - p) else m i)"

definition file_insert :: "int \<Rightarrow> int \<Rightarrow> vi \<Rightarrow> vi \<times> int" where
  "file_insert p sz s =
     (case disk_file s of
        None \<Rightarrow> (s, - 1)
      | Some bs \<Rightarrow>
          if \<not> open_ok s then (s, - 1)
          else let got = take (nat sz) bs in (s\<lparr>mem := store_bytes (mem s) p got\<rparr>, int (length got)))"

section \<open>Deleting at the dot\<close>

definition dot_delete :: "vi \<Rightarrow> vi option" where
  "dot_delete s = redraw (make_hole_delete (dot s) (dot s) s)"

section \<open>Colon commands\<close>

text \<open>The local array \<open>order\<close> of 11 bytes; its first contents are what the stack holds.\<close>

fun order_loop :: "nat \<Rightarrow> int \<Rightarrow> memory \<Rightarrow> vi \<Rightarrow> (vi \<times> int \<times> memory) option" where
  "order_loop 0 i order s = Some (s, i, order)"
| "order_loop (Suc n) i order s = do {
     (s1, c) \<leftarrow> read_key (order i) s;
     let order1 = order(i := c);
     if c = NL then Some (s1, i, order1)
     else do {
       con1 \<leftarrow> syscall (writeAt rows (i + 1) c (con s1));
       order_loop n (i + 1) order1 (s1\<lparr>con := con1\<rparr>)
     }
   }"

definition colon_run :: "byte list \<Rightarrow> vi \<Rightarrow> vi option" where
  "colon_run order s =
     (if order = bytes_of ''q!'' then Some (s\<lparr>editing := 0\<rparr>)
      else if order = bytes_of ''q'' then
        (if hasChanged s = 1
         then printOnStatusLine (bytes_of ''No write since last change (add ! to override)'') s
         else Some (s\<lparr>editing := 0\<rparr>))
      else if order = bytes_of ''wq'' then do { (s1, r) \<leftarrow> file_save s; Some (s1\<lparr>editing := 0\<rparr>) }
      else if order = bytes_of ''w'' then do { (s1, r) \<leftarrow> file_save (s\<lparr>hasChanged := 0\<rparr>); Some s1 }
      else if order = bytes_of ''copyright'' then printOnStatusLine (bytes_of ''vi made by huanggang 2016150170'') s
      else if order = bytes_of ''hg'' then printOnStatusLine (bytes_of ''huanggang is smart and nice boy!'') s
      else printOnStatusLine (bytes_of ''wrong command!'') s)"

definition colon :: "vi \<Rightarrow> vi option" where
  "colon s = do {
     let pos = getCursorPos (con s);
     s1 \<leftarrow> printOnStatusLine [] s;
     con1 \<leftarrow> syscall (writeAt rows 0 58 (con s1));
     (s2, i, order) \<leftarrow> order_loop 10 0 (\<lambda>_. stack_junk s) (s1\<lparr>con := con1\<rparr>);
     s3 \<leftarrow> colon_run (takeWhile (\<lambda>b. b \<noteq> NUL) (bytes_at order 0 (nat i))) s2;
     con3 \<leftarrow> syscall (setCursorPos (pos div 80) (pos mod 80) (con s3));
     Some (s3\<lparr>con := con3\<rparr>)
   }"

section \<open>Insert mode\<close>

definition insert_key :: "byte \<Rightarrow> vi \<Rightarrow> vi option" where
  "insert_key c s =
     (if isPrintChar c then do {
        let s1 = dot_increase (put_byte (dot s) c (fst (make_hole_add (dot s) 1 s)));
        s2 \<leftarrow> redraw s1;
        synchronize s2
      } else synchronize
        (if c = 226 then fst (dot_up s)
         else if c = 227 then fst (dot_down s)
         else if c = 228 then dot_left s
         else if c = 229 then dot_right s
         else if c = 225 then dot_left (dot_tail s)
         else s))"

partial_function (option) insert_loop :: "byte \<Rightarrow> vi \<Rightarrow> vi option" where
  "insert_loop c s = do {
     s1 \<leftarrow> printOnStatusLine (bytes_of ''--INSERT--'') s;
     (s2, c') \<leftarrow> read_key c s1;
     if c' = 27 then printOnStatusLine (bytes_of ''--COMMAND--'') s2
     else do { s3 \<leftarrow> insert_key c' s2; insert_loop c' s3 }
   }"

definition vi_insert :: "vi \<Rightarrow> vi option" where
  "vi_insert s = do {
     s1 \<leftarrow> insert_loop (stack_junk s) (s\<lparr>hasChanged := 1\<rparr>);
     printOnStatusLine [] s1
   }"

section \<open>The command switch\<close>

text \<open>
  \<open>doCmd\<close>, one definition for each of its groups of cases, from the last group to the first;
  a group hands a key that is none of its cases on to the next one. \<open>printf(1, ...)\<close> writes to
  the console. A division by zero kills the process.
\<close>

definition cdiv :: "int \<Rightarrow> int \<Rightarrow> int option" where
  "cdiv a b = (if b = 0 then None else Some (if (a < 0) = (b < 0) then \<bar>a\<bar> div \<bar>b\<bar> else - (\<bar>a\<bar> div \<bar>b\<bar>)))"

definition show_at_status :: "byte list \<Rightarrow> vi \<Rightarrow> vi option" where
  "show_at_status out s = do {
     let pos = getCursorPos (con s);
     c1 \<leftarrow> syscall (setCursorPos rows 0 (con s));
     c2 \<leftarrow> syscall (consolewrite out c1);
     c3 \<leftarrow> syscall (setCursorPos (pos div columns) (pos mod columns) c2);
     Some (s\<lparr>con := c3\<rparr>)
   }"

definition cmd_other :: "byte \<Rightarrow> vi \<Rightarrow> vi option" where
  "cmd_other c s =
     (if c = 58 then colon s
      else if c = 18 then do { s1 \<leftarrow> redraw s; printOnStatusLine (bytes_of ''Already at newest change'') s1 }
      else if c = 7 then do {
        i \<leftarrow> cdiv (dot s * 100) (vend s);
        s1 \<leftarrow> printOnStatusLine [] s;
        let name = (case cfn s of None \<Rightarrow> bytes_of ''(null)'' | Some n \<Rightarrow> n);
        let args = [1, word_of_int (dot s), word_of_int (vend s), word_of_int i];
        show_at_status (printf (\<lambda>_. name) False (bytes_of ''%s %d/%d : %d%% has readed'') (\<lambda>k. args ! k)) s1
      }
      else if c = 90 then do {
        (s1, tmp) \<leftarrow> read_key (stack_junk s) s;
        if tmp = 90 then do { (s2, r) \<leftarrow> file_save s1; Some (s2\<lparr>editing := 0\<rparr>) } else Some s1
      }
      else printOnStatusLine (bytes_of ''encounter a wrong char !!!!!!'') s)"

definition cmd_mode :: "byte \<Rightarrow> vi \<Rightarrow> vi option" where
  "cmd_mode c s =
     (if c = 111 then do {
        let p = next_line (mem s) (vend s) (dot s);
        let s1 = put_byte p NL (fst (make_hole_add p 1 s));
        s2 \<leftarrow> redraw (fst (dot_nextLine s1));
        s3 \<leftarrow> synchronize s2;
        vi_insert s3
      }
      else if c = 79 then do {
        let p = begin_line (mem s) (dot s);
        let s1 = put_byte p NL (fst (make_hole_add p 1 s));
        s2 \<leftarrow> redraw (s1\<lparr>dot := p\<rparr>);
        s3 \<leftarrow> synchronize s2;
        vi_insert s3
      }
      else if c = 105 \<or> c = 232 then vi_insert s
      else if c = 73 then do { s1 \<leftarrow> synchronize (dot_head s); vi_insert s1 }
      else if c = 97 then vi_insert (dot_right s)
      else if c = 65 then do { s1 \<leftarrow> synchronize (dot_decrease (dot_tail s)); vi_insert s1 }
      else cmd_other c s)"

text \<open>The loop of the replace command \<open>R\<close>.\<close>

partial_function (option) replace_loop :: "byte \<Rightarrow> vi \<Rightarrow> vi option" where
  "replace_loop tmp s = do {
     s1 \<leftarrow> printOnStatusLine (bytes_of ''--REPLACE--'') s;
     (s2, tmp') \<leftarrow> read_key tmp s1;
     if tmp' = 27 then printOnStatusLine (bytes_of ''--COMMAND--'') s2
     else if isPrintChar tmp' then do {
       s3 \<leftarrow> redraw (dot_increase (put_byte (dot s2) tmp' (s2\<lparr>hasChanged := 1\<rparr>)));
       replace_loop tmp' s3
     } else replace_loop tmp' s2
   }"

definition cmd_change :: "byte \<Rightarrow> vi \<Rightarrow> vi option" where
  "cmd_change c s =
     (if c = 126 then
        Some (dot_increase (put_byte (dot s) (reverseChar (mem s (dot s))) (s\<lparr>hasChanged := 1\<rparr>)))
      else if c = 114 then do {
        (s1, tmp) \<leftarrow> read_key (stack_junk s) s;
        if isPrintChar tmp then redraw (dot_increase (put_byte (dot s1) tmp (s1\<lparr>hasChanged := 1\<rparr>)))
        else Some s1
      }
      else if c = 82 then replace_loop (stack_junk s) (s\<lparr>hasChanged := 1\<rparr>)
      else if c = 100 then Some (s\<lparr>hasChanged := 1\<rparr>)
      else if c = 120 \<or> c = 233 then dot_delete (s\<lparr>hasChanged := 1\<rparr>)
      else if c = 74 then
        (let p = end_line (mem s) (vend s) (dot s) in Some (make_hole_delete p p (s\<lparr>hasChanged := 1\<rparr>)))
      else if c = 68 then
        (let p = end_line (mem s) (vend s) (dot s)
         in Some (if dot s \<le> p - 1 then make_hole_delete (dot s) (p - 1) (s\<lparr>hasChanged := 1\<rparr>) else s))
      else if c = 62 then
        (let p = begin_line (mem s) (dot s)
         in Some (put_byte p TAB (fst (make_hole_add p 1 (s\<lparr>hasChanged := 1\<rparr>)))))
      else if c = 60 then
        (let p = begin_line (mem s) (dot s)
         in Some (if mem s p = TAB then make_hole_delete p p (s\<lparr>hasChanged := 1\<rparr>) else s))
      else cmd_mode c s)"

text \<open>The pattern of the command \<open>/\<close>: the inner \<open>None\<close> stands for escape.\<close>

partial_function (option) slash_loop :: "byte \<Rightarrow> byte list \<Rightarrow> vi \<Rightarrow> (vi \<times> byte list option) option" where
  "slash_loop tmp buf s =
     (if length buf < 31 then do {
        (s1, tmp') \<leftarrow> read_key tmp s;
        if tmp' = 27 then Some (s1, None)
        else if tmp' = NL then Some (s1, Some buf)
        else if 33 \<le> schar tmp' \<and> schar tmp' \<le> 126 then do {
          c1 \<leftarrow> syscall (writeAt rows (int (length buf) + 2) tmp' (con s1));
          slash_loop tmp' (buf @ [tmp']) (s1\<lparr>con := c1\<rparr>)
        } else slash_loop tmp' buf s1
      } else Some (s, Some buf))"

definition search_again :: "(byte list \<Rightarrow> vi \<Rightarrow> (vi \<times> int) option) \<Rightarrow> vi \<Rightarrow> vi option" where
  "search_again search s =
     (if lastFindString s = [] then printOnStatusLine (bytes_of ''No previous regular expression'') s
      else do {
        (s1, p) \<leftarrow> search (lastFindString s) s;
        s2 \<leftarrow> synchronize (s1\<lparr>dot := p\<rparr>);
        s3 \<leftarrow> printOnStatusLine [] s2;
        show_at_status (47 # lastFindString s3) s3
      })"

definition cmd_slash :: "vi \<Rightarrow> vi option" where
  "cmd_slash s = do {
     let pos = getCursorPos (con s);
     s1 \<leftarrow> printOnStatusLine [] s;
     c1 \<leftarrow> syscall (writeAt rows 0 47 (con s1));
     (s2, cur) \<leftarrow> slash_loop (stack_junk s) [] (s1\<lparr>con := c1\<rparr>);
     case cur of
       None \<Rightarrow> printOnStatusLine (bytes_of ''--COMMAND--'') s2
     | Some buf \<Rightarrow> do {
         c2 \<leftarrow> syscall (setCursorPos (pos div 80) (pos mod 80) (con s2));
         let s3 = s2\<lparr>con := c2\<rparr>;
         search_again findString (if buf \<noteq> [] then s3\<lparr>lastFindString := buf\<rparr> else s3)
       }
   }"

definition cmd_find :: "byte \<Rightarrow> vi \<Rightarrow> vi option" where
  "cmd_find c s =
     (if c = 102 then do {
        (s1, tmp) \<leftarrow> read_key (stack_junk s) s;
        if isPrintChar tmp then do {
          (s2, p) \<leftarrow> findChar tmp (s1\<lparr>lastFindChar := tmp\<rparr>);
          Some (s2\<lparr>dot := p\<rparr>)
        } else Some s1
      }
      else if c = 59 then
        (if lastFindChar s \<noteq> NUL then do { (s2, p) \<leftarrow> findChar (lastFindChar s) s; Some (s2\<lparr>dot := p\<rparr>) }
         else Some s)
      else if c = 47 then cmd_slash s
      else if c = 110 then search_again findString s
      else if c = 78 then search_again reverseFindString s
      else cmd_change c s)"

definition pre_lines :: "nat \<Rightarrow> vi \<Rightarrow> vi" where
  "pre_lines n s = ((\<lambda>s. fst (dot_preLine s)) ^^ n) s"

definition next_lines :: "nat \<Rightarrow> vi \<Rightarrow> vi" where
  "next_lines n s = ((\<lambda>s. fst (dot_nextLine s)) ^^ n) s"

definition cmd_move :: "byte \<Rightarrow> vi \<Rightarrow> vi option" where
  "cmd_move c s =
     (if c = 107 \<or> c = 226 then Some (fst (dot_up s))
      else if c = 106 \<or> c = 227 \<or> c = 10 then Some (fst (dot_down s))
      else if c = 104 \<or> c = 228 then Some (dot_left s)
      else if c = 108 \<or> c = 229 \<or> c = 32 then Some (dot_right s)
      else if c = 94 then Some (dot_head s)
      else if c = 36 \<or> c = 225 then Some (dot_tail s)
      else if c = 71 then dot_textEnd s
      else if c = 103 then Some (dot_textStart s)
      else if c = 230 then (let s1 = pre_lines (nat (rows - 1)) s in Some (s1\<lparr>screenbegin := dot s1\<rparr>))
      else if c = 231 then (let s1 = next_lines (nat (rows - 1)) s in Some (s1\<lparr>screenbegin := dot s1\<rparr>))
      else if c = 119 then dot_move2NextWordHead s
      else if c = 98 then dot_move2PreWordHead s
      else if c = 101 then dot_move2NextWordTail s
      else if c = 76 then Some (next_lines (nat (rows - 1)) (s\<lparr>dot := screenbegin s\<rparr>))
      else if c = 77 then Some (next_lines (nat (rows div 2)) (s\<lparr>dot := screenbegin s\<rparr>))
      else if c = 72 then Some (s\<lparr>dot := screenbegin s\<rparr>)
      else cmd_find c s)"

definition doCmd :: "byte \<Rightarrow> vi \<Rightarrow> vi option" where
  "doCmd c s = cmd_move c s"

section \<open>The editor\<close>

partial_function (option) edit_loop :: "byte \<Rightarrow> vi \<Rightarrow> vi option" where
  "edit_loop c s =
     (if 0 < editing s then do {
        (s1, c') \<leftarrow> read_key c s;
        s2 \<leftarrow> printOnStatusLine (bytes_of ''--COMMAND--'') s1;
        s3 \<leftarrow> doCmd c' s2;
        s4 \<leftarrow> synchronize s3;
        edit_loop c' s4
      } else Some s)"

definition edit_file :: "byte list \<Rightarrow> vi \<Rightarrow> vi option" where
  "edit_file fn s = do {
     let cnt = file_size s;
     let s1 = new_text (cnt * 2) (s\<lparr>editing := 1, hasChanged := 0\<rparr>);
     let (s2, sz) = file_insert 0 cnt s1;
     if sz = - 1 then do {
       c1 \<leftarrow> syscall (consolewrite (bytes_of ''file does not exist!'' @ [NL]) (con s2));
       Some (s2\<lparr>con := c1\<rparr>)
     } else do {
       s3 \<leftarrow> redraw (s2\<lparr>cfn := Some fn, screenbegin := 0, dot := 0, vend := cnt\<rparr>);
       c3 \<leftarrow> syscall (setCursorPos 0 0 (con s3));
       s4 \<leftarrow> edit_loop (stack_junk s) (s3\<lparr>con := setShowAtOnce 0 (setBufferFlag 0 c3)\<rparr>);
       c5 \<leftarrow> syscall (setCursorPos 0 0 (clearScreen (setShowAtOnce 1 (setBufferFlag 1 (con s4)))));
       Some (s4\<lparr>con := c5\<rparr>)
     }
   }"

definition vi_main :: "byte list list \<Rightarrow> vi \<Rightarrow> vi option" where
  "vi_main argv s =
     (if length argv \<noteq> 2 then do {
        c \<leftarrow> syscall (consolewrite
          (if length argv = 1 then bytes_of ''need a file name behind \"vi\" '' @ [NL]
           else bytes_of ''too many arguments!'' @ [NL]) (con s));
        Some (s\<lparr>con := c\<rparr>)
      } else edit_file (argv ! 1) (s\<lparr>editing := 1\<rparr>))"

text \<open>The debug line (its call is commented out in \<open>edit_file\<close>).\<close>

definition backslash :: "byte \<Rightarrow> byte" where
  "backslash c = (if c = NL then 92 else c)"

definition debug :: "byte \<Rightarrow> vi \<Rightarrow> vi option" where
  "debug c s = do {
     let cur = getCharOnCursor (con s);
     let pos = getCursorPos (con s);
     c1 \<leftarrow> syscall (blank_status (nat (columns - 1)) 0 (con s));
     c2 \<leftarrow> syscall (setCursorPos rows 0 c1);
     let args = [scast c, scast (backslash (mem s (screenbegin s))), scast (backslash (mem s (dot s))),
                 scast (backslash cur), word_of_int (pos div columns), word_of_int (pos mod columns),
                 word_of_int pos, word_of_int (dot s - screenbegin s)];
     c3 \<leftarrow> syscall (consolewrite (printf (\<lambda>_. []) False
             (bytes_of ''%c scr:%c dot:%c cur:%c pos:(%d,%d) %d | %d '') (\<lambda>k. args ! k)) c2);
     (case countCursorPosFromScreenBegin2Dot s of (s', cnt) \<Rightarrow> do {
        c4 \<leftarrow> syscall (consolewrite (printf (\<lambda>_. []) False (bytes_of ''cnt:%d'') (\<lambda>_. word_of_int cnt)) c3);
        c5 \<leftarrow> syscall (setCursorPos (pos div 80) (pos mod 80) c4);
        Some (s'\<lparr>con := c5\<rparr>)
      })
   }"

section \<open>Insert mode types into the text\<close>

lemma plain_typed: "plain c \<Longrightarrow> isPrintChar c \<and> c \<noteq> 27 \<and> c \<noteq> 4"
  by (auto simp: plain_def isPrintChar_def)

lemma plain_textI:
  "text_ok s \<Longrightarrow> (\<And>i. 0 \<le> i \<Longrightarrow> i < vend s \<Longrightarrow> plain (mem s i)) \<Longrightarrow> plain_text s"
  by (auto simp: plain_text_def list_all_length content_def)

lemma begin_line_cong: "(\<And>i. i < p \<Longrightarrow> m' i = m i) \<Longrightarrow> begin_line m' p = begin_line m p"
proof (induction m p rule: begin_line.induct)
  case (1 m p)
  then show ?case
    by (cases "0 < p \<and> m (p - 1) \<noteq> NL") (auto simp: begin_line_step begin_line_here)
qed

lemma count_loop_cong: "(\<And>i. p \<le> i \<Longrightarrow> i < d \<Longrightarrow> m' i = m i) \<Longrightarrow> count_loop m' p d cnt = count_loop m p d cnt"
proof (induction m p d cnt rule: count_loop.induct)
  case (1 m p d cnt)
  then show ?case by (cases "p < d") (auto simp: count_loop_step)
qed

lemma dot_width_cong:
  "dot s' = dot s \<Longrightarrow> (\<And>i. i < dot s \<Longrightarrow> mem s' i = mem s i) \<Longrightarrow> dot_width s' = dot_width s"
  by (auto simp: dot_width_def begin_line_cong[of "dot s" "mem s'" "mem s"] intro!: count_loop_cong)

lemma dot_width_next:
  assumes "0 \<le> dot s" "dot s' = dot s + 1" "\<And>i. i < dot s \<Longrightarrow> mem s' i = mem s i" "plain (mem s' (dot s))"
  shows "dot_width s' \<le> dot_width s + 1"
proof (cases "mem s' (dot s) = NL")
  case True
  then have "dot_width s' = 0" using assms(2) by (simp add: dot_width_def begin_line_here)
  then show ?thesis using count_loop_ge[of 0] by (simp add: dot_width_def add_increasing2)
next
  case False
  let ?m = "mem s'" and ?b = "begin_line (mem s) (dot s)"
  have g: "graphic (?m (dot s))" using assms(4) False by (auto simp: plain_def graphic_def)
  have "begin_line ?m (dot s + 1) = begin_line ?m (dot s)"
    using assms(1) False begin_line_step[of "dot s + 1" ?m] by simp
  also have "\<dots> = ?b" using assms(3) by (intro begin_line_cong) auto
  finally have "dot_width s' = count_loop ?m ?b (dot s + 1) 0" using assms(2) by (simp add: dot_width_def)
  also have "\<dots> = count_loop ?m (dot s) (dot s + 1) (count_loop ?m ?b (dot s) 0)"
    by (intro count_loop_split) auto
  also have "\<dots> = count_loop (mem s) ?b (dot s) 0 + 1"
    using count_loop_cong[of ?b "dot s" ?m "mem s"] assms(3) g by (simp add: count_loop_step count_step_graphic)
  finally show ?thesis by (simp add: dot_width_def)
qed

text \<open>One typed character.\<close>

definition type_byte :: "byte \<Rightarrow> vi \<Rightarrow> vi" where
  "type_byte c s = dot_increase (put_byte (dot s) c (fst (make_hole_add (dot s) 1 s)))"

lemma type_byte_eq:
  assumes "0 \<le> dot s" "dot s \<le> vend s - 1" "vend s + 1 \<le> textend s"
  shows "type_byte c s = s\<lparr>vend := vend s + 1, dot := dot s + 1,
     mem := (\<lambda>i. if i = dot s then c else if dot s < i \<and> i \<le> vend s + 1 then mem s (i - 1) else mem s i)\<rparr>"
proof -
  have m: "make_hole_add (dot s) 1 s =
     (s\<lparr>vend := vend s + 1,
        mem := (\<lambda>i. if dot s \<le> i \<and> i < dot s + 1 then SPC
                    else if dot s + 1 \<le> i \<and> i \<le> vend s + 1 then mem s (i - 1) else mem s i)\<rparr>, 1)"
    using assms by (intro make_hole_add_mem) auto
  have "(\<lambda>i. if dot s \<le> i \<and> i < dot s + 1 then SPC
          else if dot s + 1 \<le> i \<and> i \<le> vend s + 1 then mem s (i - 1) else mem s i)(dot s := c) =
        (\<lambda>i. if i = dot s then c else if dot s < i \<and> i \<le> vend s + 1 then mem s (i - 1) else mem s i)"
    by (rule ext) auto
  then show ?thesis using assms by (simp add: type_byte_def m put_byte_def dot_increase_def)
qed

lemma content_take: "0 \<le> p \<Longrightarrow> p \<le> vend s \<Longrightarrow> take (nat p) (content s) = bytes_at (mem s) 0 (nat p)"
  by (simp add: content_def take_bytes_at min_def)

lemma content_drop: "0 \<le> p \<Longrightarrow> p \<le> vend s \<Longrightarrow> drop (nat p) (content s) = bytes_at (mem s) p (nat (vend s - p))"
  by (simp add: content_def drop_bytes_at nat_diff_distrib)

lemma type_byte_content:
  assumes "0 \<le> dot s" "dot s \<le> vend s - 1" "vend s + 1 \<le> textend s"
  shows "content (type_byte c s) = take (nat (dot s)) (content s) @ c # drop (nat (dot s)) (content s)"
proof (rule nth_equalityI)
  show "length (content (type_byte c s)) =
      length (take (nat (dot s)) (content s) @ c # drop (nat (dot s)) (content s))"
    using assms by (simp add: type_byte_eq)
  fix i assume "i < length (content (type_byte c s))"
  then have i: "int i < vend s + 1" using assms by (simp add: type_byte_eq)
  have v: "nat (vend s + 1) = Suc (nat (vend s))" using assms by simp
  consider "int i < dot s" | "int i = dot s" | "dot s < int i" by linarith
  then show "content (type_byte c s) ! i = (take (nat (dot s)) (content s) @ c # drop (nat (dot s)) (content s)) ! i"
  proof cases
    case 3
    then have "i - nat (dot s) = Suc (i - Suc (nat (dot s)))" "nat (dot s) + (i - Suc (nat (dot s))) = i - 1" "i \<noteq> 0"
      "\<not> i < nat (dot s)"
      using assms(1) by linarith+
    then show ?thesis using i assms 3 by (simp add: type_byte_eq content_def nth_append of_nat_diff)
  qed (use i assms in \<open>auto simp: type_byte_eq content_def nth_append\<close>)
qed

lemma type_byte_ready:
  assumes "vi_ready s" "plain c" "vend s + 1 \<le> textend s" "dot_width s + 1 < 1920"
  shows "vi_ready (type_byte c s)" "dot_width (type_byte c s) \<le> dot_width s + 1"
proof -
  have d: "0 \<le> dot s" "dot s \<le> vend s - 1" using assms(1) by (auto simp: vi_ready_def dot_ok_def)
  note eq = type_byte_eq[OF d assms(3), of c]
  show w: "dot_width (type_byte c s) \<le> dot_width s + 1"
    using assms(2) d by (intro dot_width_next) (auto simp: eq)
  have "plain (mem s i)" if "0 \<le> i" "i < vend s" for i
    using that assms(1) plain_text_byte by (auto simp: vi_ready_def)
  then have "plain_text (type_byte c s)"
    using assms d by (intro plain_textI) (auto simp: eq text_ok_def vi_ready_def plain_text_def)
  then show "vi_ready (type_byte c s)"
    using w assms(1,4) d by (auto simp: vi_ready_def dot_ok_def) (auto simp: eq)
qed


text \<open>\<open>read_key\<close> takes the next key; nothing else changes.\<close>

lemma read_key_plain: "keys s = k # ks \<Longrightarrow> k \<noteq> 4 \<Longrightarrow> read_key old s = Some (s\<lparr>keys := ks\<rparr>, k)"
  by (simp add: read_key_def)

lemma ready_keys [simp]: "vi_ready (s\<lparr>keys := ks\<rparr>) = vi_ready s"
  by (simp add: vi_ready_def plain_text_def text_ok_def content_def dot_ok_def dot_width_def)

lemma ready_changed [simp]: "vi_ready (s\<lparr>hasChanged := h\<rparr>) = vi_ready s"
  by (simp add: vi_ready_def plain_text_def text_ok_def content_def dot_ok_def dot_width_def)

lemma ready_editing [simp]: "vi_ready (s\<lparr>editing := h\<rparr>) = vi_ready s"
  by (simp add: vi_ready_def plain_text_def text_ok_def content_def dot_ok_def dot_width_def)

lemma mode_messages:
  "message ''--INSERT--''" "message ''--COMMAND--''" "message ''--REPLACE--''"
  by (simp_all add: message_def bytes_of_def graphic_def)

lemma status_empty: "vi_ready s \<Longrightarrow> \<exists>s'. printOnStatusLine [] s = Some s' \<and> vi_ready s' \<and> vi_same s s'"
  using status_ready[of s "[]"] by auto

text \<open>What typing keeps: everything that is neither text, dot, keys nor display.\<close>

definition typed :: "byte list \<Rightarrow> vi \<Rightarrow> vi \<Rightarrow> bool" where
  "typed xs s s' \<longleftrightarrow>
     content s' = take (nat (dot s)) (content s) @ xs @ drop (nat (dot s)) (content s) \<and>
     dot s' = dot s + int (length xs) \<and> vend s' = vend s + int (length xs) \<and> textend s' = textend s \<and>
     editing s' = editing s \<and> hasChanged s' = hasChanged s \<and> cfn s' = cfn s \<and>
     lastFindChar s' = lastFindChar s \<and> lastFindString s' = lastFindString s \<and>
     disk_file s' = disk_file s \<and> open_ok s' = open_ok s \<and> write_stop s' = write_stop s \<and>
     stack_junk s' = stack_junk s"

lemma same_content: "vi_same s s' \<Longrightarrow> content s' = content s"
  by (simp add: vi_same_def content_def)

lemma typed_Nil: "vi_same s s' \<Longrightarrow> typed [] s s'"
  by (simp add: typed_def vi_same_def content_def)

lemma typed_same_left: "vi_same s s1 \<Longrightarrow> typed xs s1 s' \<Longrightarrow> typed xs s s'"
  using same_content[of s s1] by (simp add: typed_def vi_same_def)

lemma typed_same_right: "typed xs s s1 \<Longrightarrow> vi_same s1 s' \<Longrightarrow> typed xs s s'"
  using same_content[of s1 s'] by (simp add: typed_def vi_same_def)

lemma typed_keys: "typed xs (s\<lparr>keys := ks\<rparr>) s' \<longleftrightarrow> typed xs s s'"
  by (simp add: typed_def content_def)

lemma typed_Cons:
  assumes "0 \<le> dot s" "dot s \<le> vend s - 1" "vend s + 1 \<le> textend s" "typed xs (type_byte c s) s'"
  shows "typed (c # xs) s s'"
proof -
  have "nat (dot s + 1) = Suc (nat (dot s))" using assms(1) by simp
  moreover have "length (take (nat (dot s)) (content s)) = nat (dot s)" using assms(2) by simp
  ultimately have
    "take (nat (dot s + 1)) (content (type_byte c s)) = take (nat (dot s)) (content s) @ [c]"
    "drop (nat (dot s + 1)) (content (type_byte c s)) = drop (nat (dot s)) (content s)"
    using type_byte_content[OF assms(1-3), of c] by simp_all
  then show ?thesis using assms(4) type_byte_eq[OF assms(1-3), of c] by (simp add: typed_def)
qed

lemma insert_key_plain:
  assumes "vi_ready s" "plain c" "vend s + 1 \<le> textend s" "dot_width s + 1 < 1920"
  shows "\<exists>s'. insert_key c s = Some s' \<and> vi_ready s' \<and> vi_same (type_byte c s) s'"
proof -
  obtain s2 where s2: "redraw (type_byte c s) = Some s2" "vi_ready s2" "vi_same (type_byte c s) s2"
    using redraw_ready[OF type_byte_ready(1)[OF assms]] by blast
  obtain s3 where s3: "synchronize s2 = Some s3" "vi_ready s3" "vi_same s2 s3"
    using synchronize_ready[OF s2(2)] by blast
  have "insert_key c s = Some s3"
    using s2(1) s3(1) plain_typed[OF assms(2)] by (simp add: insert_key_def type_byte_def)
  then show ?thesis using s3 vi_same_trans[OF s2(3) s3(3)] by blast
qed

lemma same_width: "vi_same s s' \<Longrightarrow> dot_width s' = dot_width s"
  by (simp add: vi_same_def dot_width_def)

lemma insert_loop_types:
  "vi_ready s \<Longrightarrow> keys s = xs @ 27 # ks \<Longrightarrow> list_all plain xs \<Longrightarrow>
   vend s + int (length xs) \<le> textend s \<Longrightarrow> dot_width s + int (length xs) < 1920 \<Longrightarrow>
   \<exists>s'. insert_loop c0 s = Some s' \<and> vi_ready s' \<and> typed xs s s' \<and> keys s' = ks"
proof (induction xs arbitrary: s c0)
  case Nil
  obtain s1 where s1: "printOnStatusLine (bytes_of ''--INSERT--'') s = Some s1" "vi_ready s1" "vi_same s s1"
    using status_message[OF Nil.prems(1) mode_messages(1)] by blast
  obtain s2 where s2: "printOnStatusLine (bytes_of ''--COMMAND--'') (s1\<lparr>keys := ks\<rparr>) = Some s2" "vi_ready s2"
      "vi_same (s1\<lparr>keys := ks\<rparr>) s2"
    using status_message[of "s1\<lparr>keys := ks\<rparr>"] s1(2) mode_messages(2) by auto
  have "read_key c0 s1 = Some (s1\<lparr>keys := ks\<rparr>, 27)" using s1(3) Nil.prems(2) by (intro read_key_plain) (auto simp: vi_same_def)
  then have "insert_loop c0 s = Some s2" using s1(1) s2(1) by (subst insert_loop.simps) simp
  moreover have "typed [] s s2"
    using typed_same_left[OF s1(3)] typed_Nil[OF s2(3)] by (simp add: typed_keys)
  ultimately show ?case using s2 by (auto simp: vi_same_def)
next
  case (Cons c xs)
  have pc: "plain c" using Cons.prems(3) by simp
  obtain s1 where s1: "printOnStatusLine (bytes_of ''--INSERT--'') s = Some s1" "vi_ready s1" "vi_same s s1"
    using status_message[OF Cons.prems(1) mode_messages(1)] by blast
  define s2 where "s2 = s1\<lparr>keys := xs @ 27 # ks\<rparr>"
  have rd: "read_key c0 s1 = Some (s2, c)"
    unfolding s2_def using s1(3) Cons.prems(2) plain_typed[OF pc] by (intro read_key_plain) (auto simp: vi_same_def)
  have r2: "vi_ready s2" using s1(2) by (simp add: s2_def)
  have d2: "0 \<le> dot s2" "dot s2 \<le> vend s2 - 1" using r2 by (auto simp: vi_ready_def dot_ok_def)
  have w2: "dot_width s2 = dot_width s" using same_width[OF s1(3)] by (simp add: s2_def dot_width_def)
  have room: "vend s2 + 1 \<le> textend s2" using s1(3) Cons.prems(4) by (simp add: s2_def vi_same_def)
  have small: "dot_width s2 + 1 < 1920" using w2 Cons.prems(5) by simp
  obtain s3 where s3: "insert_key c s2 = Some s3" "vi_ready s3" "vi_same (type_byte c s2) s3"
    using insert_key_plain[OF r2 pc room small] by blast
  have eq: "vend s3 = vend s2 + 1" "textend s3 = textend s2" "keys s3 = xs @ 27 # ks"
    using s3(3) type_byte_eq[OF d2 room, of c] by (auto simp: vi_same_def s2_def)
  have "dot_width s3 \<le> dot_width s2 + 1"
    using same_width[OF s3(3)] type_byte_ready(2)[OF r2 pc room small] by simp
  then obtain s4 where s4: "insert_loop c s3 = Some s4" "vi_ready s4" "typed xs s3 s4" "keys s4 = ks"
    using Cons.IH[of s3 c] s3(2) eq Cons.prems s1(3) w2 by (auto simp: vi_same_def s2_def)
  have "insert_loop c0 s = Some s4"
    using s1(1) rd s3(1) s4(1) plain_typed[OF pc] by (subst insert_loop.simps) simp
  moreover have "typed (c # xs) s s4"
    using typed_same_left[OF s1(3)] typed_Cons[OF d2 room typed_same_left[OF s3(3) s4(3)]]
    by (simp add: s2_def typed_keys)
  ultimately show ?case using s4 by blast
qed

lemma vi_insert_types:
  assumes "vi_ready s" "keys s = xs @ 27 # ks" "list_all plain xs"
    "vend s + int (length xs) \<le> textend s" "dot_width s + int (length xs) < 1920"
  shows "\<exists>s'. vi_insert s = Some s' \<and> vi_ready s' \<and> typed xs (s\<lparr>hasChanged := 1\<rparr>) s' \<and> keys s' = ks"
proof -
  let ?s = "s\<lparr>hasChanged := 1\<rparr>"
  obtain s1 where s1: "insert_loop (stack_junk s) ?s = Some s1" "vi_ready s1" "typed xs ?s s1" "keys s1 = ks"
    using insert_loop_types[of ?s xs ks "stack_junk s"] assms by (auto simp: dot_width_def)
  obtain s2 where s2: "printOnStatusLine [] s1 = Some s2" "vi_ready s2" "vi_same s1 s2"
    using status_empty[OF s1(2)] by blast
  have "vi_insert s = Some s2" using s1(1) s2(1) by (simp add: vi_insert_def)
  then show ?thesis using s2 s1(4) typed_same_right[OF s1(3) s2(3)] by (auto simp: vi_same_def)
qed

text \<open>
  insert mode (the commands \<open>i\<close> and Insert, \<open>insert\<close> of \<open>vi.c\<close>). From a state of the editor
  with a tab-free text, typing characters and then escape puts exactly those characters
  before the dot, whatever characters they are (printable or line ends), moves the dot behind
  them, marks the text as changed, consumes exactly the typed keys, and leaves a state of the
  editor again; the file and the other variables stay. There has to be room in the buffer, and
  the dot's line must stay narrower than the screen.
\<close>

theorem insert_mode_correct:
  assumes "vi_ready s" "keys s = xs @ 27 # ks" "list_all plain xs"
    "vend s + int (length xs) \<le> textend s" "dot_width s + int (length xs) < 1920"
  shows "\<exists>s'. doCmd 105 s = Some s' \<and> vi_ready s' \<and> typed xs (s\<lparr>hasChanged := 1\<rparr>) s' \<and> keys s' = ks"
  using vi_insert_types[OF assms]
  by (simp add: doCmd_def cmd_move_def cmd_find_def cmd_change_def cmd_mode_def)

theorem insert_mode_correct_witness:
  "\<exists>s'. doCmd 105 ((vi_sample [97, 10])\<lparr>keys := [98, 10, 27]\<rparr>) = Some s' \<and> content s' = [98, 10, 97, 10]"
proof -
  let ?s = "(vi_sample [97, 10])\<lparr>keys := [98, 10, 27]\<rparr>"
  have "vi_ready (vi_sample [97, 10])" by (rule ready_sample) (simp_all add: plain_def)
  moreover have "dot_width (vi_sample [97, 10]) = 0" by (simp add: dot_width_def)
  moreover have "content ?s = [97, 10]" using content_sample[of "[97, 10]"] by (simp add: content_def)
  ultimately obtain s' where "doCmd 105 ?s = Some s'" "typed [98, 10] (?s\<lparr>hasChanged := 1\<rparr>) s'"
    using insert_mode_correct[of ?s "[98, 10]" "[]"] by (auto simp: plain_def dot_width_def)
  with \<open>content ?s = [97, 10]\<close> show ?thesis by (auto simp: typed_def content_def)
qed


section \<open>Commands that do not change the text\<close>

text \<open>Agreement on the text, the file and the flags; the dot, the window and the display may differ.\<close>

definition same_text :: "vi \<Rightarrow> vi \<Rightarrow> bool" where
  "same_text s s' \<longleftrightarrow> mem s' = mem s \<and> vend s' = vend s \<and> textend s' = textend s \<and>
     hasChanged s' = hasChanged s \<and> editing s' = editing s \<and> cfn s' = cfn s \<and> disk_file s' = disk_file s"

lemma same_text_refl [simp]: "same_text s s" by (simp add: same_text_def)

lemma same_text_trans [trans]: "same_text s s' \<Longrightarrow> same_text s' s'' \<Longrightarrow> same_text s s''"
  by (simp add: same_text_def)

lemma same_text_upd [simp]:
  "same_text s (s'\<lparr>dot := d\<rparr>) = same_text s s'" "same_text s (s'\<lparr>screenbegin := d\<rparr>) = same_text s s'"
  "same_text s (s'\<lparr>con := c\<rparr>) = same_text s s'" "same_text s (s'\<lparr>keys := ks\<rparr>) = same_text s s'"
  "same_text s (s'\<lparr>status_buffer := b\<rparr>) = same_text s s'" "same_text s (s'\<lparr>syn_screenbegin := y\<rparr>) = same_text s s'"
  "same_text s (s'\<lparr>lastFindChar := f\<rparr>) = same_text s s'" "same_text s (s'\<lparr>lastFindString := fs\<rparr>) = same_text s s'"
  "same_text (s\<lparr>dot := d\<rparr>) s' = same_text s s'" "same_text (s\<lparr>screenbegin := d\<rparr>) s' = same_text s s'"
  "same_text (s\<lparr>con := c\<rparr>) s' = same_text s s'" "same_text (s\<lparr>keys := ks\<rparr>) s' = same_text s s'"
  "same_text (s\<lparr>status_buffer := b\<rparr>) s' = same_text s s'" "same_text (s\<lparr>syn_screenbegin := y\<rparr>) s' = same_text s s'"
  "same_text (s\<lparr>lastFindChar := f\<rparr>) s' = same_text s s'" "same_text (s\<lparr>lastFindString := fs\<rparr>) s' = same_text s s'"
  by (simp_all add: same_text_def)

lemma count_same_text: "countCursorPosFromScreenBegin2Dot s = (s', cnt) \<Longrightarrow> same_text s s'"
  by (auto simp: countCursorPosFromScreenBegin2Dot_def Let_def)

lemma modify_loop_same_text:
  assumes "modify_loop s = Some s'" shows "same_text s s'"
proof (rule modify_loop.raw_induct[where P = same_text, OF _ assms], goal_cases)
  case (1 loop s y)
  obtain s' cnt where c: "countCursorPosFromScreenBegin2Dot s = (s', cnt)" by fastforce
  have "same_text s' y" using 1(2) c by (auto split: if_splits dest!: 1(1))
  then show ?case using same_text_trans[OF count_same_text[OF c]] by blast
qed

lemma modifyScreenBegin_same_text: "modifyScreenBegin s = Some s' \<Longrightarrow> same_text s s'"
  by (auto simp: modifyScreenBegin_def dest!: modify_loop_same_text split: if_splits)

lemma redraw_same_text: "redraw s = Some s' \<Longrightarrow> same_text s s'"
  by (auto simp: redraw_def bind_eq_Some_conv dest!: modifyScreenBegin_same_text)

lemma synchronize_same_text:
  assumes "synchronize s = Some s'" shows "same_text s s'"
proof -
  obtain s1 s2 where 1: "modifyScreenBegin s = Some s1" and
    2: "(if syn_screenbegin s1 \<noteq> Some (screenbegin s1)
         then redraw (s1\<lparr>syn_screenbegin := Some (screenbegin s1)\<rparr>) else Some s1) = Some s2" and
    3: "(case countCursorPosFromScreenBegin2Dot s2 of (s3, pos) \<Rightarrow> do {
        c \<leftarrow> syscall (setCursorPos (pos div columns) (pos mod columns) (con s3)); Some (s3\<lparr>con := c\<rparr>) }) = Some s'"
    using assms unfolding synchronize_def bind_eq_Some_conv by blast
  obtain s3 pos where c: "countCursorPosFromScreenBegin2Dot s2 = (s3, pos)" by fastforce
  have "same_text s1 s2" using 2 by (auto split: if_splits dest!: redraw_same_text)
  moreover have "same_text s3 s'" using 3 c by (auto simp: bind_eq_Some_conv)
  ultimately show ?thesis using modifyScreenBegin_same_text[OF 1] count_same_text[OF c] by (simp add: same_text_def)
qed

lemma status_same_text: "printOnStatusLine msg s = Some s' \<Longrightarrow> same_text s s'"
  by (auto simp: printOnStatusLine_def bind_eq_Some_conv Let_def)

lemma show_same_text: "show_at_status out s = Some s' \<Longrightarrow> same_text s s'"
  by (auto simp: show_at_status_def bind_eq_Some_conv Let_def)

lemma read_key_same_text: "read_key old s = Some (s', c) \<Longrightarrow> same_text s s'"
  by (auto simp: read_key_def split: list.splits)

lemmas display_same_text =
  redraw_same_text synchronize_same_text status_same_text show_same_text read_key_same_text

lemma find_string_same_text: "find_string_loop pat p count s = Some (s', q) \<Longrightarrow> same_text s s'"
proof -
  have "same_text s (fst r)" if "find_string_loop pat p count s = Some r" for r
  proof (rule find_string_loop.raw_induct[where P = "\<lambda>pat p count s r. same_text s (fst r)", OF _ that], goal_cases)
    case (1 loop pat p count s y)
    show ?case using 1(2)
      by (auto simp: bind_eq_Some_conv split: if_splits prod.split_asm dest!: display_same_text 1(1)) (auto simp: same_text_def)
  qed
  then show "find_string_loop pat p count s = Some (s', q) \<Longrightarrow> same_text s s'" by fastforce
qed

lemma reverse_find_same_text: "reverse_find_loop pat p count s = Some (s', q) \<Longrightarrow> same_text s s'"
proof -
  have "same_text s (fst r)" if "reverse_find_loop pat p count s = Some r" for r
  proof (rule reverse_find_loop.raw_induct[where P = "\<lambda>pat p count s r. same_text s (fst r)", OF _ that], goal_cases)
    case (1 loop pat p count s y)
    show ?case using 1(2)
      by (auto simp: bind_eq_Some_conv split: if_splits prod.split_asm dest!: display_same_text 1(1)) (auto simp: same_text_def)
  qed
  then show "reverse_find_loop pat p count s = Some (s', q) \<Longrightarrow> same_text s s'" by fastforce
qed

lemma search_again_same_text:
  assumes "\<And>pat s s' q. search pat s = Some (s', q) \<Longrightarrow> same_text s s'"
  shows "search_again search s = Some s' \<Longrightarrow> same_text s s'"
  by (auto simp: search_again_def bind_eq_Some_conv split: if_splits
      dest!: display_same_text assms) (auto simp: same_text_def)

lemma search_same_text:
  "search_again findString s = Some s' \<Longrightarrow> same_text s s'"
  "search_again reverseFindString s = Some s' \<Longrightarrow> same_text s s'"
  by (erule search_again_same_text[rotated], simp add: findString_def find_string_same_text)
     (erule search_again_same_text[rotated], simp add: reverseFindString_def reverse_find_same_text)

lemma slash_loop_same_text: "slash_loop tmp buf s = Some (s', r) \<Longrightarrow> same_text s s'"
proof -
  have "same_text s (fst r)" if "slash_loop tmp buf s = Some r" for r
  proof (rule slash_loop.raw_induct[where P = "\<lambda>tmp buf s r. same_text s (fst r)", OF _ that], goal_cases)
    case (1 loop tmp buf s y)
    show ?case using 1(2)
      by (auto simp: bind_eq_Some_conv split: if_splits prod.split_asm dest!: read_key_same_text 1(1)) (auto simp: same_text_def)
  qed
  then show "slash_loop tmp buf s = Some (s', r) \<Longrightarrow> same_text s s'" by fastforce
qed

lemma cmd_slash_same_text: "cmd_slash s = Some s' \<Longrightarrow> same_text s s'"
  by (auto simp: cmd_slash_def bind_eq_Some_conv Let_def split: option.split_asm if_splits
      dest!: display_same_text slash_loop_same_text search_same_text) (auto simp: same_text_def)

lemma findChar_same_text: "findChar c s = Some (s', q) \<Longrightarrow> same_text s s'"
  by (auto simp: findChar_def bind_eq_Some_conv Let_def split: if_splits
      dest!: display_same_text intro: same_text_trans)


text \<open>A motion in a text: the text stays, the dot stays in it.\<close>

definition moved :: "vi \<Rightarrow> vi \<Rightarrow> bool" where
  "moved s s' \<longleftrightarrow> same_text s s' \<and> dot_ok s'"

lemma moved_trans: "moved s s' \<Longrightarrow> moved s' s'' \<Longrightarrow> moved s s''"
  using same_text_trans by (auto simp: moved_def)

lemma moved_upd: "dot_ok s \<Longrightarrow> 0 \<le> d \<Longrightarrow> d \<le> vend s - 1 \<Longrightarrow> 0 \<le> sb \<Longrightarrow> moved s (s\<lparr>dot := d, screenbegin := sb\<rparr>)"
  by (simp add: moved_def dot_ok_def)

lemma moved_dot: "dot_ok s \<Longrightarrow> 0 \<le> d \<Longrightarrow> d \<le> vend s - 1 \<Longrightarrow> moved s (s\<lparr>dot := d\<rparr>)"
  by (simp add: moved_def dot_ok_def)

lemma moved_preLine: assumes "dot_ok s" shows "moved s (fst (dot_preLine s))"
proof -
  define b where "b = begin_line (mem s) (dot s)"
  have le: "begin_line (mem s) (b - 1) \<le> b - 1" by (rule begin_line_range)
  have "b \<le> dot s" by (simp add: b_def)
  then show ?thesis using assms le begin_line_range(1)[of "b - 1" "mem s"]
    by (auto simp: dot_preLine_eq dot_ok_def moved_def Let_def b_def[symmetric])
qed

lemma moved_nextLine: assumes "dot_ok s" shows "moved s (fst (dot_nextLine s))"
proof -
  have d: "0 \<le> dot s" "dot s \<le> vend s - 1" "0 \<le> screenbegin s" using assms by (auto simp: dot_ok_def)
  from dot_nextLine_eq[OF d(1,2)] obtain sb where
    "dot_nextLine s = (if end_line (mem s) (vend s) (dot s) < vend s - 1
       then (s\<lparr>dot := end_line (mem s) (vend s) (dot s) + 1, screenbegin := sb\<rparr>, True) else (s, False))" "0 \<le> sb"
    using d(3) unfolding Let_def by blast
  then show ?thesis using assms d end_line_range(1)[of "dot s" "mem s" "vend s"]
    by (auto simp: moved_def dot_ok_def)
qed

lemma moved_column: assumes "dot_ok s" "0 \<le> p" shows "moved s (column_loop p s)"
proof -
  have "begin_line (mem s) p \<le> p" by simp
  then show ?thesis
    using assms end_line_range(1)[of "dot s" "mem s" "vend s"] end_line_range(2)[of "dot s" "vend s" "mem s"]
    by (auto simp: column_loop_eq dot_ok_def moved_def)
qed

lemma moved_up_down: assumes "dot_ok s" shows "moved s (fst (dot_up s))" "moved s (fst (dot_down s))"
proof -
  have d: "0 \<le> dot s" using assms by (simp add: dot_ok_def)
  show "moved s (fst (dot_up s))"
    using moved_trans[OF moved_preLine[OF assms] moved_column] moved_preLine[OF assms] d
    by (cases "dot_preLine s") (auto simp: dot_up_def moved_def)
  show "moved s (fst (dot_down s))"
    using moved_trans[OF moved_nextLine[OF assms] moved_column] moved_nextLine[OF assms] d
    by (cases "dot_nextLine s") (auto simp: dot_down_def moved_def)
qed

lemma moved_lines: "dot_ok s \<Longrightarrow> moved s (pre_lines n s)" "dot_ok s \<Longrightarrow> moved s (next_lines n s)"
proof -
  show "dot_ok s \<Longrightarrow> moved s (pre_lines n s)"
    by (induction n) (auto simp: pre_lines_def moved_def intro: same_text_trans dest: moved_preLine[unfolded moved_def])
  show "dot_ok s \<Longrightarrow> moved s (next_lines n s)"
    by (induction n) (auto simp: next_lines_def moved_def intro: same_text_trans dest: moved_nextLine[unfolded moved_def])
qed

lemma moved_simple:
  assumes "dot_ok s"
  shows "moved s (dot_left s)" "moved s (dot_right s)" "moved s (dot_head s)" "moved s (dot_tail s)"
    "moved s (dot_increase s)" "moved s (dot_decrease s)"
  using assms end_line_range(1)[of "dot s" "mem s" "vend s"] end_line_range(2)[of "dot s" "vend s" "mem s"]
    begin_line_range(1)[of "dot s" "mem s"] begin_line_range(2)[of "mem s" "dot s"]
  by (auto simp: moved_def dot_ok_def dot_left_def dot_right_def dot_increase_def dot_decrease_def dot_head_eq dot_tail_eq
      intro: order_le_less_trans[OF begin_line_range(2)])

lemma word_tail_returns: "dot_ok s \<Longrightarrow> \<exists>s'. word_tail_loop s = Some s' \<and> moved s s'"
proof (induction "nat (vend s - dot s)" arbitrary: s rule: less_induct)
  case less
  show ?case
  proof (cases "dot s = vend s - 1 \<or> \<not> isSpace (mem s (dot s - 1)) \<and> isSpace (mem s (dot s))")
    case True
    then show ?thesis using less.prems moved_simple(6)[OF less.prems]
      by (subst word_tail_loop.simps) (auto simp: moved_def)
  next
    case False
    then have lt: "dot s < vend s - 1" using less.prems by (auto simp: dot_ok_def)
    have eq: "word_tail_loop s = word_tail_loop (dot_increase s)"
      using False by (subst word_tail_loop.simps) auto
    note mv = moved_simple(5)[OF less.prems]
    have "nat (vend (dot_increase s) - dot (dot_increase s)) < nat (vend s - dot s)"
      using lt by (simp add: dot_increase_def)
    from less.hyps[OF this] mv show ?thesis unfolding eq using moved_trans by (auto simp: moved_def intro: same_text_trans)
  qed
qed

definition motion_keys :: "byte list" where
  "motion_keys = [107, 226, 106, 227, 10, 104, 228, 108, 229, 32, 94, 36, 225, 103, 230, 231, 119, 101, 76, 77, 72]"

lemma motion_moves:
  assumes "in_window s" "c \<in> set motion_keys"
  shows "\<exists>s'. doCmd c s = Some s' \<and> moved s s'"
proof -
  have ok: "dot_ok s" using assms(1) by (auto simp: in_window_def dot_ok_def)
  have top: "moved s (s\<lparr>dot := screenbegin s\<rparr>)" using assms(1) by (auto simp: in_window_def moved_def dot_ok_def)
  have sb: "moved s (s1\<lparr>screenbegin := dot s1\<rparr>)" if "moved s s1" for s1 using that by (auto simp: moved_def dot_ok_def)
  obtain d where d: "dot_move2NextWordHead s = Some (s\<lparr>dot := d\<rparr>)" "moved s (s\<lparr>dot := d\<rparr>)"
    using next_word_returns[of s] ok moved_dot[OF ok] by (auto simp: dot_ok_def)
  obtain s' where tl: "word_tail_loop (s\<lparr>dot := d\<rparr>) = Some s'" "moved s s'"
    using word_tail_returns[of "s\<lparr>dot := d\<rparr>"] d(2) moved_trans by (auto simp: moved_def)
  have st: "moved s (dot_textStart s)" using ok by (auto simp: dot_textStart_def moved_def dot_ok_def)
  have lm: "moved s (next_lines n (s\<lparr>dot := screenbegin s\<rparr>))" for n
    using moved_trans[OF top moved_lines(2)] top by (simp add: moved_def)
  show ?thesis using assms(2) unfolding motion_keys_def list.set insert_iff empty_iff
    by (elim disjE) (simp_all add: doCmd_def cmd_move_def dot_move2NextWordTail_def Let_def
      moved_up_down[OF ok] moved_simple[OF ok] d tl st lm top sb[OF moved_lines(1)[OF ok]] sb[OF moved_lines(2)[OF ok]])
qed

text \<open>
  the motion commands of \<open>doCmd\<close> (\<open>vi.c\<close>) other than \<open>G\<close> and \<open>b\<close> return from every state with
  the dot in the window; they change neither the text, its length, the file nor the flags, and
  the dot is a position of the text afterwards.
\<close>

theorem motions_keep_text:
  assumes "in_window s" "c \<in> set motion_keys"
  shows "\<exists>s'. doCmd c s = Some s' \<and> same_text s s' \<and> dot_ok s'"
  using motion_moves[OF assms] by (simp add: moved_def)

theorem motions_keep_text_witness:
  "\<exists>s'. doCmd 106 (vi_sample hi_you) = Some s' \<and> content s' = hi_you"
proof -
  have "in_window (vi_sample hi_you)" by (simp add: in_window_def)
  from motions_keep_text[OF this, of 106] content_sample[of hi_you] show ?thesis
    by (auto simp: motion_keys_def same_text_def content_def)
qed


section \<open>Saving\<close>

lemma file_save_ok:
  assumes "text_ok s" "cfn s = Some fn" "open_ok s" "write_stop s = None"
  shows "file_save s = Some (s\<lparr>disk_file := Some (content s @ NUL #
     (case disk_file s of None \<Rightarrow> [] | Some bs \<Rightarrow> drop (Suc (nat (vend s))) bs))\<rparr>, vend s + 1)"
proof -
  have n: "nat (vend s + 1) = Suc (nat (vend s))" using assms(1) unfolding text_ok_def by linarith
  have "bytes_at (mem s) 0 (nat (vend s + 1)) = content s @ [NUL]"
    using assms(1) unfolding n bytes_at_Suc_snoc by (simp add: content_def text_ok_def)
  moreover have "length (content s) = nat (vend s)" by simp
  ultimately show ?thesis using assms n by (simp add: file_save_def overwrite_def split: option.split)
qed

text \<open>
  \<open>file_save\<close> (\<open>vi.c\<close>) when all system calls succeed: the file holds the text, then a NUL byte
  that is not part of the text (the byte count is \<open>end - text + 1\<close>), then whatever the old file
  had beyond that (it is opened without truncation).
\<close>

theorem file_save_writes_extra_NUL:
  assumes "text_ok s" "cfn s = Some fn" "open_ok s" "write_stop s = None"
  shows "file_save s = Some (s\<lparr>disk_file := Some (content s @ NUL #
     (case disk_file s of None \<Rightarrow> [] | Some bs \<Rightarrow> drop (Suc (nat (vend s))) bs))\<rparr>, vend s + 1)"
  using assms by (rule file_save_ok)

theorem file_save_writes_extra_NUL_witness:
  "\<exists>s'. file_save ((vi_sample [97, 10])\<lparr>disk_file := Some [120, 120, 120, 120, 10]\<rparr>) = Some (s', 3) \<and>
     disk_file s' = Some [97, 10, 0, 120, 10]"
proof -
  let ?s = "(vi_sample [97, 10])\<lparr>disk_file := Some [120, 120, 120, 120, 10]\<rparr>"
  have "text_ok ?s" using text_ok_sample[of "[97, 10]"] by (simp add: text_ok_def)
  moreover have "content ?s = [97, 10]" using content_sample[of "[97, 10]"] by (simp add: content_def)
  moreover have "cfn ?s = Some [102]" by (simp add: vi_sample_def)
  ultimately show ?thesis using file_save_writes_extra_NUL[of ?s "[102]"] by (simp add: numeral_eq_Suc)
qed

section \<open>Colon commands\<close>

lemma ready_con: "vi_ready s \<Longrightarrow> on_screen c \<Longrightarrow> vi_ready (s\<lparr>con := c\<rparr>)"
  by (simp add: vi_ready_def plain_text_def text_ok_def content_def dot_ok_def dot_width_def)

lemma same_con: "vi_same s (s\<lparr>con := c\<rparr>)"
  by (simp add: vi_same_def)

lemma writeAt_status:
  assumes "graphic c" "0 \<le> j" "j < 79"
  shows "\<exists>t'. writeAt rows j c t = Inr t' \<and> on_screen t'"
proof -
  let ?p = "1920 + j"
  have dm: "?p div 80 = 24" "?p mod 80 = j" using assms mod_mult_self3[of 24 80 j] by (simp_all add: mod_pos_pos_trivial)
  obtain t1 where t1: "setCursorPos 24 j t = Inr t1" "getCursorPos t1 = ?p"
    using setCursorPos_at[of ?p t] assms dm by auto
  have "plain c" "c \<noteq> NL" using assms(1) by (auto simp: plain_def graphic_def)
  from cgaputc_plain[OF this(1) t1(2)] this(2) assms obtain t2 where
    "cgaputc (schar c) t1 = Inr t2" "getCursorPos t2 \<le> 1999" by auto
  then show ?thesis using t1(1) by (simp add: writeAt_def on_screen_def)
qed

lemma order_loop_reads:
  "list_all graphic cs \<Longrightarrow> vi_ready s \<Longrightarrow> keys s = cs @ NL # ks \<Longrightarrow> length cs < n \<Longrightarrow> 0 \<le> i \<Longrightarrow> i + int n \<le> 10 \<Longrightarrow>
   \<exists>s' order'. order_loop n i order s = Some (s', i + int (length cs), order') \<and> vi_ready s' \<and>
     vi_same (s\<lparr>keys := ks\<rparr>) s' \<and> (\<forall>j < i. order' j = order j) \<and> bytes_at order' i (length cs) = cs"
proof (induction cs arbitrary: s n i order)
  case Nil
  then obtain n' where n: "n = Suc n'" by (cases n) auto
  have "read_key (order i) s = Some (s\<lparr>keys := ks\<rparr>, NL)" using Nil by (intro read_key_plain) auto
  then show ?case using Nil n by simp
next
  case (Cons c cs)
  then obtain n' where n: "n = Suc n'" by (cases n) auto
  have g: "graphic c" "c \<noteq> 4" "c \<noteq> NL" using Cons.prems(1) by (auto simp: graphic_def)
  let ?s1 = "s\<lparr>keys := cs @ NL # ks\<rparr>"
  have rd: "read_key (order i) s = Some (?s1, c)" using Cons.prems(3) g by (intro read_key_plain) auto
  obtain t where t: "writeAt rows (i + 1) c (con s) = Inr t" "on_screen t"
    using writeAt_status[OF g(1), of "i + 1" "con s"] Cons.prems(4-6) n by auto
  let ?s2 = "?s1\<lparr>con := t\<rparr>"
  have r2: "vi_ready ?s2" using Cons.prems(2) t(2) by (intro ready_con) auto
  obtain s' order' where h: "order_loop n' (i + 1) (order(i := c)) ?s2 = Some (s', i + 1 + int (length cs), order')"
    "vi_ready s'" "vi_same (?s2\<lparr>keys := ks\<rparr>) s'" "\<forall>j < i + 1. order' j = (order(i := c)) j"
    "bytes_at order' (i + 1) (length cs) = cs"
    using Cons.IH[of ?s2 n' "i + 1" "order(i := c)"] Cons.prems r2 n by (auto simp del: fun_upd_apply)
  have "bytes_at order' i (length (c # cs)) = c # cs"
    using h(4,5) bytes_at_append[of order' i 1 "length cs"] by simp
  moreover have "vi_same (s\<lparr>keys := ks\<rparr>) s'" using h(3) by (simp add: vi_same_def)
  ultimately show ?case using n rd t(1) g(3) h by (auto simp: add.assoc)
qed

lemma colon_runs:
  assumes "vi_ready s" "list_all graphic cs" "length cs \<le> 9" "keys s = cs @ NL # ks"
  shows "\<exists>s1. vi_ready s1 \<and> vi_same (s\<lparr>keys := ks\<rparr>) s1 \<and>
    (\<forall>s2. colon_run cs s1 = Some s2 \<longrightarrow> (\<exists>c. doCmd 58 s = Some (s2\<lparr>con := c\<rparr>) \<and> on_screen c))"
proof -
  define pos where "pos = getCursorPos (con s)"
  obtain s0 where s0: "printOnStatusLine [] s = Some s0" "vi_ready s0" "vi_same s s0"
    using status_empty[OF assms(1)] by blast
  obtain t where t: "writeAt rows 0 58 (con s0) = Inr t" "on_screen t"
    using writeAt_status[of 58 0 "con s0"] by (auto simp: graphic_def)
  have r: "vi_ready (s0\<lparr>con := t\<rparr>)" using s0(2) t(2) by (rule ready_con)
  have k: "keys (s0\<lparr>con := t\<rparr>) = cs @ NL # ks" using s0(3) assms(4) by (simp add: vi_same_def)
  obtain s1 order where s1: "order_loop 10 0 (\<lambda>_. stack_junk s) (s0\<lparr>con := t\<rparr>) = Some (s1, int (length cs), order)"
    "vi_ready s1" "vi_same (s0\<lparr>con := t, keys := ks\<rparr>) s1" "bytes_at order 0 (length cs) = cs"
    using order_loop_reads[OF assms(2) r k, of 10 0 "\<lambda>_. stack_junk s"] assms(3) by auto
  have tw: "takeWhile (\<lambda>b. b \<noteq> NUL) cs = cs" using assms(2) by (auto simp: list_all_iff graphic_def takeWhile_eq_all_conv)
  have "\<exists>c. doCmd 58 s = Some (s2\<lparr>con := c\<rparr>) \<and> on_screen c" if "colon_run cs s1 = Some s2" for s2
  proof -
    have "0 \<le> pos" "pos < 2000" using assms(1) by (auto simp: pos_def vi_ready_def on_screen_def)
    from setCursorPos_at[OF this, of "con s2"] obtain c where
      "setCursorPos (pos div 80) (pos mod 80) (con s2) = Inr c" "getCursorPos c = pos" by blast
    moreover have "colon s = Some (s2\<lparr>con := c\<rparr>)"
      using s0(1) t(1) s1(1,4) that calculation(1) unfolding colon_def pos_def[symmetric] Let_def
      by (simp add: tw del: takeWhile_eq_all_conv)
    ultimately show ?thesis using \<open>pos < 2000\<close>
      by (auto simp: doCmd_def cmd_move_def cmd_find_def cmd_change_def cmd_mode_def cmd_other_def on_screen_def)
  qed
  moreover have "vi_same (s\<lparr>keys := ks\<rparr>) s1" using s0(3) s1(3) by (simp add: vi_same_def)
  ultimately show ?thesis using s1(2) by blast
qed


lemma colon_messages:
  "message ''No write since last change (add ! to override)''" "message ''wrong command!''"
  by (simp_all add: message_def bytes_of_def graphic_def)

text \<open>
  \<open>:q\<close> (\<open>colon\<close>, \<open>vi.c\<close>) ends the editor exactly when the text is not marked as changed;
  with changes it stays in the editor. In both cases the command returns, and neither the text
  nor the file changes.
\<close>

theorem colon_q_guard:
  assumes "vi_ready s" "keys s = [113, NL] @ ks"
  shows "\<exists>s'. doCmd 58 s = Some s' \<and> editing s' = (if hasChanged s = 1 then editing s else 0) \<and>
     hasChanged s' = hasChanged s \<and> content s' = content s \<and> disk_file s' = disk_file s \<and> keys s' = ks"
proof -
  obtain s1 where s1: "vi_ready s1" "vi_same (s\<lparr>keys := ks\<rparr>) s1"
     "\<forall>s2. colon_run [113] s1 = Some s2 \<longrightarrow> (\<exists>c. doCmd 58 s = Some (s2\<lparr>con := c\<rparr>) \<and> on_screen c)"
    using colon_runs[OF assms(1), of "[113]" ks] assms(2) by (auto simp: graphic_def)
  obtain s2 where s2: "printOnStatusLine (bytes_of ''No write since last change (add ! to override)'') s1 = Some s2"
    "vi_same s1 s2" using status_message[OF s1(1) colon_messages(1)] by blast
  have run: "colon_run [113] s1 = (if hasChanged s = 1 then Some s2 else Some (s1\<lparr>editing := 0\<rparr>))"
    using s2(1) s1(2) by (simp add: colon_run_def vi_same_def bytes_of_def)
  have "content s2 = content s" "content s1 = content s"
    using same_content[OF s2(2)] same_content[OF s1(2)] by (simp_all add: content_def)
  then show ?thesis using s1(2,3) s2(2) run by (auto simp: vi_same_def content_def split: if_splits)
qed

theorem colon_q_guard_witness:
  "\<exists>s'. doCmd 58 ((vi_sample hi_you)\<lparr>keys := [113, 10], hasChanged := 1\<rparr>) = Some s' \<and> editing s' = 1"
proof -
  have "vi_ready (vi_sample hi_you)" by (rule ready_sample) (simp_all add: plain_def)
  then show ?thesis
    using colon_q_guard[of "(vi_sample hi_you)\<lparr>keys := [113, 10], hasChanged := 1\<rparr>" "[]"] by auto
qed

text \<open>
  \<open>:w\<close> (\<open>colon\<close>, \<open>vi.c\<close>) marks the text as unchanged before it saves and does not look at the
  result of \<open>file_save\<close>: when the file cannot be opened nothing is written, no message appears
  and a following \<open>:q\<close> leaves the editor; the edited text is lost.
\<close>

theorem colon_w_then_q_loses_edits:
  assumes "vi_ready s" "keys s = [119, NL, 58, 113, NL]" "\<not> open_ok s" "cfn s = Some fn"
  shows "\<exists>s1 s2 s3 s4. doCmd 58 s = Some s1 \<and> synchronize s1 = Some s2 \<and> read_key 58 s2 = Some (s3, 58) \<and>
     doCmd 58 s3 = Some s4 \<and> editing s4 = 0 \<and> disk_file s4 = disk_file s"
proof -
  obtain s0 where s0: "vi_ready s0" "vi_same (s\<lparr>keys := [58, 113, NL]\<rparr>) s0"
     "\<forall>s2. colon_run [119] s0 = Some s2 \<longrightarrow> (\<exists>c. doCmd 58 s = Some (s2\<lparr>con := c\<rparr>) \<and> on_screen c)"
    using colon_runs[OF assms(1), of "[119]" "[58, 113, NL]"] assms(2) by (auto simp: graphic_def)
  have "file_save (s0\<lparr>hasChanged := 0\<rparr>) = Some (s0\<lparr>hasChanged := 0\<rparr>, - 1)"
    using s0(2) assms(3,4) by (simp add: file_save_def vi_same_def)
  then have "colon_run [119] s0 = Some (s0\<lparr>hasChanged := 0\<rparr>)" by (simp add: colon_run_def bytes_of_def)
  with s0(3) obtain c where c: "doCmd 58 s = Some (s0\<lparr>hasChanged := 0, con := c\<rparr>)" "on_screen c" by auto
  have r1: "vi_ready (s0\<lparr>hasChanged := 0, con := c\<rparr>)" using s0(1) c(2) by (intro ready_con) auto
  obtain s2 where s2: "synchronize (s0\<lparr>hasChanged := 0, con := c\<rparr>) = Some s2" "vi_ready s2"
    "vi_same (s0\<lparr>hasChanged := 0, con := c\<rparr>) s2" using synchronize_ready[OF r1] by blast
  define s3 where "s3 = s2\<lparr>keys := [113, NL]\<rparr>"
  have rd: "read_key 58 s2 = Some (s3, 58)"
    unfolding s3_def using s2(3) s0(2) by (intro read_key_plain) (auto simp: vi_same_def)
  have "hasChanged s3 = 0" using s2(3) by (simp add: s3_def vi_same_def)
  obtain s4 where s4: "vi_ready s4" "vi_same (s3\<lparr>keys := []\<rparr>) s4"
     "\<forall>s2. colon_run [113] s4 = Some s2 \<longrightarrow> (\<exists>c. doCmd 58 s3 = Some (s2\<lparr>con := c\<rparr>) \<and> on_screen c)"
    using colon_runs[of s3 "[113]" "[]"] s2(2) by (auto simp: graphic_def s3_def)
  have "colon_run [113] s4 = Some (s4\<lparr>editing := 0\<rparr>)"
    using s4(2) \<open>hasChanged s3 = 0\<close> by (simp add: colon_run_def bytes_of_def vi_same_def)
  with s4(3) obtain c' where "doCmd 58 s3 = Some (s4\<lparr>editing := 0, con := c'\<rparr>)" by blast
  moreover have "disk_file s4 = disk_file s" using s4(2) s2(3) s0(2) by (simp add: vi_same_def s3_def)
  ultimately show ?thesis using c(1) s2(1) rd by fastforce
qed

theorem colon_w_then_q_loses_edits_witness:
  "\<exists>s1 s2 s3 s4. doCmd 58 ((vi_sample hi_you)\<lparr>keys := [119, 10, 58, 113, 10], open_ok := False, hasChanged := 1\<rparr>) = Some s1 \<and>
     synchronize s1 = Some s2 \<and> read_key 58 s2 = Some (s3, 58) \<and> doCmd 58 s3 = Some s4 \<and>
     editing s4 = 0 \<and> disk_file s4 = Some hi_you"
proof -
  let ?s = "(vi_sample hi_you)\<lparr>keys := [119, 10, 58, 113, 10], open_ok := False, hasChanged := 1\<rparr>"
  have "vi_ready (vi_sample hi_you)" by (rule ready_sample) (simp_all add: plain_def)
  then have "vi_ready ?s" by (simp add: vi_ready_def plain_text_def text_ok_def content_def dot_ok_def dot_width_def)
  moreover have "cfn ?s = Some [102]" by (simp add: vi_sample_def)
  ultimately show ?thesis using colon_w_then_q_loses_edits[of ?s "[102]"] by simp
qed

section \<open>Deleting\<close>

lemma delete_mem:
  assumes "0 \<le> d" "d \<le> vend s - 1"
  shows "make_hole_delete d d s = s\<lparr>vend := vend s - 1,
     mem := (\<lambda>i. if d \<le> i \<and> i < vend s then mem s (i + 1) else mem s i)\<rparr>"
  using make_hole_delete_mem[of d d s] assms by (simp cong: if_cong)

lemma delete_plain:
  assumes "plain_text s" "0 \<le> d" "d \<le> vend s - 1"
  shows "plain_text (make_hole_delete d d s)"
proof (rule plain_textI)
  show "text_ok (make_hole_delete d d s)"
    using assms by (auto simp: delete_mem text_ok_def plain_text_def)
  show "plain (mem (make_hole_delete d d s) i)" if "0 \<le> i" "i < vend (make_hole_delete d d s)" for i
    using that assms plain_text_byte[OF assms(1)] by (auto simp: delete_mem)
qed

text \<open>
  the commands \<open>x\<close> and Delete (\<open>dot_delete\<close>, \<open>vi.c\<close>) remove exactly the character at the dot,
  mark the text as changed and redraw the screen. The dot keeps its position: on any character
  but the last one of the text the result is a state of the editor again; on the last
  character the dot ends up behind the text.
\<close>

theorem dot_delete_correct:
  assumes "vi_ready s" "in_window s"
  shows "\<exists>s'. doCmd 120 s = Some s' \<and>
     content s' = take (nat (dot s)) (content s) @ drop (Suc (nat (dot s))) (content s) \<and>
     dot s' = dot s \<and> hasChanged s' = 1 \<and> shows_text s' \<and>
     (if dot s < vend s - 1 then vi_ready s' else dot s' = vend s')"
proof -
  let ?d = "dot s"
  define s1 where "s1 = make_hole_delete ?d ?d (s\<lparr>hasChanged := 1\<rparr>)"
  have d: "0 \<le> ?d" "?d \<le> vend s - 1" using assms(2) by (auto simp: in_window_def)
  have s1: "s1 = s\<lparr>hasChanged := 1, vend := vend s - 1,
      mem := (\<lambda>i. if ?d \<le> i \<and> i < vend s then mem s (i + 1) else mem s i)\<rparr>"
    using delete_mem[of ?d "s\<lparr>hasChanged := 1\<rparr>"] d by (simp add: s1_def cong: if_cong)
  have p0: "plain_text (s\<lparr>hasChanged := 1\<rparr>)"
    using assms(1) by (simp add: vi_ready_def plain_text_def text_ok_def content_def)
  have p1: "plain_text s1" unfolding s1_def using delete_plain[OF p0] d by simp
  have cn: "count_loop (mem s1) (screenbegin s) ?d 0 < 1920"
    using assms(2) count_loop_cong[of "screenbegin s" ?d "mem s1" "mem s"] by (auto simp: s1 in_window_def)
  have "modifyScreenBegin (s1\<lparr>con := clearScreen (con s1)\<rparr>) =
      Some (s1\<lparr>con := clearScreen (con s1), screenbegin := screenbegin s\<rparr>)"
    using cn assms(2) by (auto simp: s1 in_window_def modifyScreenBegin_def
        countCursorPosFromScreenBegin2Dot_def intro!: modify_loop_done)
  from redraw_from[OF p1 _ _ _ this] d assms(2) obtain c where
    c: "redraw s1 = Some (s1\<lparr>screenbegin := screenbegin s, con := c\<rparr>)" "on_screen c"
      "shows_text (s1\<lparr>screenbegin := screenbegin s, con := c\<rparr>)"
    by (auto simp: s1 in_window_def)
  let ?s' = "s1\<lparr>screenbegin := screenbegin s, con := c\<rparr>"
  have run: "doCmd 120 s = Some ?s'"
    using c(1) by (simp add: doCmd_def cmd_move_def cmd_find_def cmd_change_def dot_delete_def s1_def)
  have "content ?s' = content s1" by (simp add: content_def)
  also have "content s1 = take (nat ?d) (content s) @ drop (Suc (nat ?d)) (content s)"
  proof -
    have "text_ok (s\<lparr>hasChanged := 1\<rparr>)" using p0 by (simp add: plain_text_def)
    moreover have "content (s\<lparr>hasChanged := 1\<rparr>) = content s" by (simp add: content_def)
    moreover have "nat (?d + 1) = Suc (nat ?d)" using d by simp
    ultimately show ?thesis
      using make_hole_delete_list(1)[of "s\<lparr>hasChanged := 1\<rparr>" ?d ?d] d by (simp add: s1_def)
  qed
  finally have ct: "content ?s' = take (nat ?d) (content s) @ drop (Suc (nat ?d)) (content s)" .
  have "vi_ready ?s'" if "?d < vend s - 1"
  proof -
    have "dot_width ?s' = dot_width s" by (rule dot_width_cong) (auto simp: s1)
    then show ?thesis using p1 assms that c(2) d
      by (auto simp: vi_ready_def plain_text_def text_ok_def content_def dot_ok_def s1)
  qed
  moreover have "dot ?s' = vend ?s'" if "\<not> ?d < vend s - 1" using that d by (simp add: s1)
  ultimately show ?thesis using run ct c(3) by (intro exI[of _ ?s']) (auto simp: s1)
qed


theorem dot_delete_correct_witness:
  "\<exists>s'. doCmd 120 (vi_sample [97]) = Some s' \<and> content s' = [] \<and> dot s' = vend s'"
proof -
  have "vi_ready (vi_sample [97])" by (rule ready_sample) (simp_all add: plain_def)
  moreover have "in_window (vi_sample [97])" by (simp add: in_window_def)
  ultimately show ?thesis using dot_delete_correct[of "vi_sample [97]"] content_sample[of "[97]"] by auto
qed

section \<open>A whole session\<close>

text \<open>One turn of the main loop.\<close>

lemma edit_loop_turn:
  assumes "vi_ready s" "0 < editing s" "keys s = k # ks" "k \<noteq> 4"
  shows "\<exists>s2. vi_ready s2 \<and> vi_same (s\<lparr>keys := ks\<rparr>) s2 \<and>
     (\<forall>s3 s4. doCmd k s2 = Some s3 \<longrightarrow> synchronize s3 = Some s4 \<longrightarrow> edit_loop c s = edit_loop k s4)"
proof -
  have rd: "read_key c s = Some (s\<lparr>keys := ks\<rparr>, k)" using assms(3,4) by (rule read_key_plain)
  obtain s2 where "printOnStatusLine (bytes_of ''--COMMAND--'') (s\<lparr>keys := ks\<rparr>) = Some s2" "vi_ready s2"
      "vi_same (s\<lparr>keys := ks\<rparr>) s2"
    using status_message[of "s\<lparr>keys := ks\<rparr>"] assms(1) mode_messages(2) by auto
  then show ?thesis using rd assms(2)
    by (intro exI[of _ s2]) (auto simp: edit_loop.simps[of c s])
qed

lemma edit_loop_end: "editing s = 0 \<Longrightarrow> edit_loop c s = Some s"
  by (subst edit_loop.simps) simp

text \<open>The turn of the loop in which \<open>:wq\<close> is typed.\<close>

lemma edit_loop_wq:
  assumes "vi_ready s4" "0 < editing s4" "keys s4 = [58, 119, 113, NL]" "cfn s4 = Some fn" "open_ok s4"
    "write_stop s4 = None" "disk_file s4 = Some bs" "length bs \<le> length (content s4)"
  shows "\<exists>s'. edit_loop c0 s4 = Some s' \<and> disk_file s' = Some (content s4 @ [NUL]) \<and> keys s' = []"
proof -
  obtain s5 where s5: "vi_ready s5" "vi_same (s4\<lparr>keys := [119, 113, NL]\<rparr>) s5"
    "\<forall>s6 s7. doCmd 58 s5 = Some s6 \<longrightarrow> synchronize s6 = Some s7 \<longrightarrow> edit_loop c0 s4 = edit_loop 58 s7"
    using edit_loop_turn[OF assms(1) _ assms(3), of c0] assms(2) by auto
  obtain s6 where s6: "vi_ready s6" "vi_same (s5\<lparr>keys := []\<rparr>) s6"
     "\<forall>s2. colon_run [119, 113] s6 = Some s2 \<longrightarrow> (\<exists>c. doCmd 58 s5 = Some (s2\<lparr>con := c\<rparr>) \<and> on_screen c)"
    using colon_runs[OF s5(1), of "[119, 113]" "[]"] s5(2) by (auto simp: graphic_def vi_same_def)
  define s7 where "s7 = s6\<lparr>disk_file := Some (content s4 @ [NUL]), editing := 0\<rparr>"
  have ct6: "content s6 = content s4"
    using same_content[OF s6(2)] same_content[OF s5(2)] by (simp add: content_def)
  have "drop (Suc (nat (vend s6))) bs = []" using assms(8) ct6 length_content[of s6] by simp
  moreover have "text_ok s6" using s6(1) by (simp add: vi_ready_def plain_text_def)
  ultimately have "file_save s6 = Some (s6\<lparr>disk_file := Some (content s4 @ [NUL])\<rparr>, vend s6 + 1)"
    using file_save_ok[of s6 fn] s6(2) s5(2) assms(4-7) ct6 by (simp add: vi_same_def)
  then have "colon_run [119, 113] s6 = Some s7" by (simp add: colon_run_def bytes_of_def s7_def)
  with s6(3) obtain c where c: "doCmd 58 s5 = Some (s7\<lparr>con := c\<rparr>)" "on_screen c" by blast
  have "vi_ready (s7\<lparr>con := c\<rparr>)" using s6(1) c(2)
    by (simp add: s7_def vi_ready_def plain_text_def text_ok_def content_def dot_ok_def dot_width_def)
  from synchronize_ready[OF this] obtain s8 where s8: "synchronize (s7\<lparr>con := c\<rparr>) = Some s8" "vi_same (s7\<lparr>con := c\<rparr>) s8" by blast
  have "edit_loop c0 s4 = edit_loop 58 s8" using s5(3) c(1) s8(1) by blast
  also have "\<dots> = Some s8" using s8(2) by (intro edit_loop_end) (simp add: vi_same_def s7_def)
  finally show ?thesis using s8(2) s6(2) by (auto simp: vi_same_def s7_def)
qed

text \<open>The state in which the main loop starts.\<close>

lemma edit_file_start:
  assumes "disk_file s = Some bs" "open_ok s" "list_all plain bs" "bs \<noteq> []" "status_buffer s 78 = NUL"
  shows "\<exists>s3. vi_ready s3 \<and> content s3 = bs \<and> dot s3 = 0 \<and> dot_width s3 = 0 \<and>
    textend s3 = max 10240 (2 * int (length bs)) \<and> vend s3 = int (length bs) \<and> editing s3 = 1 \<and>
    hasChanged s3 = 0 \<and> cfn s3 = Some fn \<and> keys s3 = keys s \<and> disk_file s3 = Some bs \<and>
    open_ok s3 \<and> write_stop s3 = write_stop s \<and>
    (\<forall>s4. edit_loop (stack_junk s) s3 = Some s4 \<longrightarrow> (\<exists>c. edit_file fn s = Some (s4\<lparr>con := c\<rparr>)))"
proof -
  let ?n = "int (length bs)"
  define m where "m = store_bytes (umemset (mem s) 0 0 (nat (max 10240 (?n * 2)))) 0 bs"
  define s2 where "s2 = s\<lparr>editing := 1, hasChanged := 0, textend := max 10240 (?n * 2), mem := m,
     cfn := Some fn, screenbegin := 0, dot := 0, vend := ?n\<rparr>"
  have mid: "file_insert 0 ?n (new_text (?n * 2) (s\<lparr>editing := 1, hasChanged := 0\<rparr>)) =
      (s\<lparr>editing := 1, hasChanged := 0, textend := max 10240 (?n * 2), mem := m\<rparr>, ?n)"
    using assms(1,2) by (auto simp: file_insert_def new_text_def m_def Let_def max_def)
  have byte: "mem s2 i = bs ! nat i" if "0 \<le> i" "i < ?n" for i using that by (simp add: s2_def m_def store_bytes_def)
  have ct: "content s2 = bs" using byte by (auto simp: content_def s2_def list_eq_iff_nth_eq)
  have "mem s2 ?n = NUL" using assms(4) by (simp add: s2_def m_def store_bytes_def umemset_fill fill_ref_def max_def)
  then have "plain_text s2" using ct assms(3) by (simp add: plain_text_def text_ok_def) (simp add: s2_def)
  moreover have "dot_ok s2" using assms(4) by (simp add: dot_ok_def s2_def Suc_le_eq)
  moreover have "dot_width s2 = 0" by (simp add: dot_width_def s2_def)
  ultimately obtain sb c where rd: "redraw s2 = Some (s2\<lparr>screenbegin := sb, con := c\<rparr>)" "0 \<le> sb" "on_screen c"
    using redraw_draws[of s2] by auto
  obtain c3 where c3: "setCursorPos 0 0 c = Inr c3" "getCursorPos c3 = 0"
    using setCursorPos_at[of 0 c] by auto
  define s3 where "s3 = s2\<lparr>screenbegin := sb, con := setShowAtOnce 0 (setBufferFlag 0 c3)\<rparr>"
  have w: "dot_width s3 = 0" by (simp add: dot_width_def s3_def s2_def)
  have ct3: "content s3 = bs" using ct by (simp add: content_def s3_def)
  have "vi_ready s3" using \<open>plain_text s2\<close> \<open>dot_ok s2\<close> rd(2) w assms(5) c3(2)
    by (auto simp: vi_ready_def plain_text_def text_ok_def ct ct3 dot_ok_def)
       (auto simp: s3_def s2_def on_screen_def getCursorPos_def setShowAtOnce_def setBufferFlag_def)
  moreover have "\<exists>c. edit_file fn s = Some (s4\<lparr>con := c\<rparr>)" if "edit_loop (stack_junk s) s3 = Some s4" for s4
  proof -
    obtain c5 where "setCursorPos 0 0 (clearScreen (setShowAtOnce 1 (setBufferFlag 1 (con s4)))) = Inr c5"
      using setCursorPos_at[of 0] by fastforce
    then have "edit_file fn s = Some (s4\<lparr>con := c5\<rparr>)"
      using mid rd(1) c3(1) that assms(1)
      by (simp add: edit_file_def file_size_def Let_def s2_def[symmetric] s3_def)
    then show ?thesis by blast
  qed
  ultimately show ?thesis using ct3 w by (intro exI[of _ s3]) (auto simp: s3_def s2_def assms max_def)
qed

text \<open>
  C32: a session (\<open>edit_file\<close>, \<open>vi.c\<close>): open a tab-free file, press \<open>i\<close>, type a text, escape, and
  leave with \<open>:wq\<close>. The session ends, the screen is given back to the shell, and the file holds
  the typed text, then its old contents, then one NUL byte.
\<close>

theorem edit_session_correct:
  assumes "disk_file s = Some bs" "open_ok s" "write_stop s = None" "list_all plain bs" "bs \<noteq> []"
    "status_buffer s 78 = NUL" "list_all plain xs" "length xs < 1920" "length bs + length xs \<le> 10240"
    "keys s = 105 # xs @ [27, 58, 119, 113, NL]"
  shows "\<exists>s'. edit_file fn s = Some s' \<and> disk_file s' = Some (xs @ bs @ [NUL]) \<and> keys s' = []"
proof -
  obtain s1 where s1: "vi_ready s1" "content s1 = bs" "dot s1 = 0" "dot_width s1 = 0"
    "textend s1 = max 10240 (2 * int (length bs))" "vend s1 = int (length bs)" "editing s1 = 1" "cfn s1 = Some fn"
    "keys s1 = 105 # xs @ 27 # [58, 119, 113, NL]" "disk_file s1 = Some bs" "open_ok s1" "write_stop s1 = None"
    "\<forall>s4. edit_loop (stack_junk s) s1 = Some s4 \<longrightarrow> (\<exists>c. edit_file fn s = Some (s4\<lparr>con := c\<rparr>))"
    using edit_file_start[OF assms(1,2,4,5,6), of fn] assms(3,10) by auto
  obtain s2 where s2: "vi_ready s2" "vi_same (s1\<lparr>keys := xs @ 27 # [58, 119, 113, NL]\<rparr>) s2"
    "\<forall>s3 s4. doCmd 105 s2 = Some s3 \<longrightarrow> synchronize s3 = Some s4 \<longrightarrow> edit_loop (stack_junk s) s1 = edit_loop 105 s4"
    using edit_loop_turn[OF s1(1) _ s1(9), of "stack_junk s"] s1(7) by auto
  have w2: "dot_width s2 = 0" using same_width[OF s2(2)] s1(4) by (simp add: dot_width_def)
  have k2: "keys s2 = xs @ 27 # [58, 119, 113, NL]" using s2(2) by (simp add: vi_same_def)
  have "vend s2 = int (length bs)" "textend s2 = max 10240 (2 * int (length bs))"
    using s2(2) s1(5,6) by (simp_all add: vi_same_def)
  then have room: "vend s2 + int (length xs) \<le> textend s2" using assms(9) by linarith
  have wd: "dot_width s2 + int (length xs) < 1920" using w2 assms(8) by simp
  obtain s3 where s3: "vi_insert s2 = Some s3" "vi_ready s3" "typed xs (s2\<lparr>hasChanged := 1\<rparr>) s3" "keys s3 = [58, 119, 113, NL]"
    using vi_insert_types[OF s2(1) k2 assms(7) room wd] by blast
  have do3: "doCmd 105 s2 = Some s3"
    using s3(1) by (simp add: doCmd_def cmd_move_def cmd_find_def cmd_change_def cmd_mode_def)
  obtain s4 where s4: "synchronize s3 = Some s4" "vi_ready s4" "vi_same s3 s4" using synchronize_ready[OF s3(2)] by blast
  have "content s2 = bs" using same_content[OF s2(2)] s1(2) by (simp add: content_def)
  moreover have "content (s2\<lparr>hasChanged := 1\<rparr>) = content s2" by (simp add: content_def)
  ultimately have ct: "content s4 = xs @ bs" "editing s4 = 1" "cfn s4 = Some fn" "disk_file s4 = Some bs" "open_ok s4"
    "write_stop s4 = None" "keys s4 = [58, 119, 113, NL]"
    using s3(3,4) s4(3) s2(2) s1(3,7,8,10-12) same_content[OF s4(3)]
    by (simp_all add: typed_def vi_same_def)
  have "edit_loop (stack_junk s) s1 = edit_loop 105 s4" using s2(3) do3 s4(1) by blast
  moreover obtain s8 where s8: "edit_loop 105 s4 = Some s8" "disk_file s8 = Some ((xs @ bs) @ [NUL])" "keys s8 = []"
    using edit_loop_wq[OF s4(2) _ ct(7,3,5,6,4), of 105] ct(1,2) by auto
  ultimately obtain c where "edit_file fn s = Some (s8\<lparr>con := c\<rparr>)" using s1(13) by auto
  then show ?thesis using s8(2,3) by simp
qed

theorem edit_session_correct_witness:
  "\<exists>s'. edit_file [102] ((vi_sample [97, 10])\<lparr>keys := [105, 98, 27, 58, 119, 113, 10]\<rparr>) = Some s' \<and>
     disk_file s' = Some [98, 97, 10, 0]"
  using edit_session_correct[of "(vi_sample [97, 10])\<lparr>keys := [105, 98, 27, 58, 119, 113, 10]\<rparr>" "[97, 10]" "[98]" "[102]"]
  by (auto simp: plain_def)

end
