(* ===== verification/Sh.thy ===== *)
theory Sh
  imports Cstring "HOL-Library.Sublist"
begin

text \<open>
  The command parser of the shell (\<open>sh.c\<close>). The command line is the list of bytes from the scan
  pointer \<open>*ps\<close> up to \<open>es\<close>; a pointer into the line is the rest of the line it points to, so a
  counted string (\<open>q\<close>, \<open>eq\<close>) is a pair of such rests. \<open>panic\<close> of the shell is the left injection.
  The recursive descent is run with fuel; \<open>None\<close> means that the fuel was used up, and it is
  proved that the length of the line is enough. Results: the parser ends on every line, it
  recovers every command tree from its printed form, and \<open>nulterminate\<close> turns every counted
  string into the C string with the same bytes.
\<close>

section \<open>Commands\<close>

abbreviation (input) MAXARGS :: nat where "MAXARGS \<equiv> 10"
abbreviation (input) O_RDONLY :: nat where "O_RDONLY \<equiv> 0"
abbreviation (input) O_WRONLY :: nat where "O_WRONLY \<equiv> 1"
abbreviation (input) O_RDWR :: nat where "O_RDWR \<equiv> 2"
abbreviation (input) O_CREATE :: nat where "O_CREATE \<equiv> 0x200"

datatype 'a cmd =
    EXEC "'a list"
  | REDIR "'a cmd" 'a nat nat
  | PIPE "'a cmd" "'a cmd"
  | LIST "'a cmd" "'a cmd"
  | BACK "'a cmd"

type_synonym token = "byte list \<times> byte list"

text \<open>The constructors; an argument vector starts empty.\<close>

definition execcmd :: "'a cmd" where [simp]: "execcmd = EXEC []"
definition redircmd :: "'a cmd \<Rightarrow> 'a \<Rightarrow> nat \<Rightarrow> nat \<Rightarrow> 'a cmd" where [simp]: "redircmd c f mode fd = REDIR c f mode fd"
definition pipecmd :: "'a cmd \<Rightarrow> 'a cmd \<Rightarrow> 'a cmd" where [simp]: "pipecmd l r = PIPE l r"
definition listcmd :: "'a cmd \<Rightarrow> 'a cmd \<Rightarrow> 'a cmd" where [simp]: "listcmd l r = LIST l r"
definition backcmd :: "'a cmd \<Rightarrow> 'a cmd" where [simp]: "backcmd c = BACK c"

text \<open>\<open>parseexec\<close> stores the arguments into the \<open>execcmd\<close> it has allocated.\<close>

fun put_argv :: "'a cmd \<Rightarrow> 'a list \<Rightarrow> 'a cmd" where
  "put_argv (EXEC vs) argv = EXEC (vs @ argv)"
| "put_argv c argv = c"

section \<open>Tokens\<close>

definition ws :: "byte \<Rightarrow> bool" where
  "ws c \<longleftrightarrow> c \<in> set [32, 9, 13, 10, 11]"

definition symb :: "byte \<Rightarrow> bool" where
  "symb c \<longleftrightarrow> c \<in> set [60, 124, 62, 38, 59, 40, 41]"

fun skip_ws :: "byte list \<Rightarrow> byte list" where
  "skip_ws [] = []"
| "skip_ws (c # s) = (if ws c then skip_ws s else c # s)"

fun skip_word :: "byte list \<Rightarrow> byte list" where
  "skip_word [] = []"
| "skip_word (c # s) = (if \<not> ws c \<and> \<not> symb c then skip_word s else c # s)"

text \<open>
  The line holds no NUL before \<open>es\<close>, because \<open>parsecmd\<close> sets \<open>es\<close> by \<open>strlen\<close>.
  \<open>gettoken\<close>: the kind of the token (0 at the end, 97 for a word, 43 for \<open>>>\<close>, otherwise the
  symbol), the rests at \<open>q\<close> and \<open>eq\<close>, and the new scan pointer.
\<close>

definition gettoken :: "byte list \<Rightarrow> byte \<times> token \<times> byte list" where
  "gettoken ps =
     (let s = skip_ws ps
      in case s of
           [] \<Rightarrow> (0, (s, s), skip_ws s)
         | c # s1 \<Rightarrow>
             if c \<in> {124, 40, 41, 59, 38, 60} then (c, (s, s1), skip_ws s1)
             else if c = 62 then
               (case s1 of
                  d # s2 \<Rightarrow> if d = 62 then (43, (s, s2), skip_ws s2) else (c, (s, s1), skip_ws s1)
                | [] \<Rightarrow> (c, (s, s1), skip_ws s1))
             else (97, (s, skip_word s), skip_ws (skip_word s)))"

definition peek :: "byte list \<Rightarrow> byte list \<Rightarrow> bool \<times> byte list" where
  "peek ps toks = (let s = skip_ws ps in (s \<noteq> [] \<and> hd s \<in> set toks, s))"

section \<open>The parser\<close>

text \<open>
  \<open>parseredirs\<close> wraps its command in the redirections it reads; they are collected first to
  last. \<open>parseexec\<close> goes on filling \<open>argv\<close> of the innermost command, whatever it is wrapped in.
\<close>

function redirs :: "byte list \<Rightarrow> ((token \<times> nat \<times> nat) list \<times> byte list) kernel" where
  "redirs ps =
     (let (b, ps1) = peek ps [60, 62]
      in if \<not> b then Inr ([], ps1)
         else let (tok, _, ps2) = gettoken ps1; (kind, file, ps3) = gettoken ps2
              in if kind \<noteq> 97 then Inl ''missing file for redirection''
                 else case redirs ps3 of
                        Inl e \<Rightarrow> Inl e
                      | Inr (rs, ps4) \<Rightarrow>
                          Inr ((if tok = 60 then (file, O_RDONLY, 0)
                                else (file, O_WRONLY OR O_CREATE, 1)) # rs, ps4))"
  by pat_completeness auto

lemma skip_ws_suffix: "\<exists>w. s = w @ skip_ws s \<and> (\<forall>c \<in> set w. ws c)"
  by (induction s rule: skip_ws.induct) (auto, metis append_Cons set_ConsD)

lemma skip_ws_hd: "skip_ws s = c # s' \<Longrightarrow> \<not> ws c"
  by (induction s rule: skip_ws.induct) (auto split: if_splits)

lemma skip_ws_idem [simp]: "skip_ws (skip_ws s) = skip_ws s"
  by (induction s rule: skip_ws.induct) auto

lemma skip_word_suffix: "\<exists>w. s = w @ skip_word s \<and> (\<forall>c \<in> set w. \<not> ws c \<and> \<not> symb c)"
  by (induction s rule: skip_word.induct) (auto, metis append_Cons set_ConsD)

lemma skip_ws_length: "length (skip_ws s) \<le> length s"
  by (induction s rule: skip_ws.induct) auto

text \<open>A token is a non-empty piece of the line, unless the line is at its end.\<close>

lemma gettoken_split:
  assumes "gettoken ps = (kind, (q, e), ps')"
  shows "q = skip_ws ps" "ps' = skip_ws e" "\<exists>w. q = w @ e \<and> (q \<noteq> [] \<longrightarrow> w \<noteq> [])" "kind = 0 \<longleftrightarrow> q = []"
    "kind = 97 \<longleftrightarrow> q \<noteq> [] \<and> \<not> symb (hd q)"
proof -
  have all: "q = skip_ws ps \<and> ps' = skip_ws e \<and> (\<exists>w. q = w @ e \<and> (q \<noteq> [] \<longrightarrow> w \<noteq> [])) \<and> (kind = 0 \<longleftrightarrow> q = []) \<and>
    (kind = 97 \<longleftrightarrow> q \<noteq> [] \<and> \<not> symb (hd q))"
  proof (cases "skip_ws ps")
    case Nil
    then show ?thesis using assms by (auto simp: gettoken_def)
  next
    case (Cons c s1)
    note nws = skip_ws_hd[OF Cons]
    consider "c \<in> {124, 40, 41, 59, 38, 60}" | "c = 62" | "\<not> symb c"
      by (auto simp: symb_def)
    then show ?thesis
    proof cases
      case 1
      then have "kind = c" "q = c # s1" "e = s1" "ps' = skip_ws s1" using assms Cons by (auto simp: gettoken_def)
      then show ?thesis using 1 Cons by (auto simp: symb_def)
    next
      case 2
      show ?thesis
      proof (cases s1)
        case Nil
        then have "kind = 62" "q = [62]" "e = []" "ps' = []" using assms 2 \<open>skip_ws ps = c # s1\<close> by (auto simp: gettoken_def)
        then show ?thesis using Nil 2 \<open>skip_ws ps = c # s1\<close> by (auto simp: symb_def)
      next
        case (Cons d s2)
        then have "q = 62 # d # s2" "ps' = skip_ws e" "d = 62 \<and> kind = 43 \<and> e = s2 \<or> d \<noteq> 62 \<and> kind = 62 \<and> e = d # s2"
          using assms 2 \<open>skip_ws ps = c # s1\<close> by (auto simp: gettoken_def Let_def split: if_splits)
        then show ?thesis using Cons 2 \<open>skip_ws ps = c # s1\<close> by (auto simp: symb_def intro: exI[of _ "[62, 62]"])
      qed
    next
      case 3
      then have "gettoken ps = (97, (c # s1, skip_word (c # s1)), skip_ws (skip_word (c # s1)))"
        by (auto simp: gettoken_def Cons symb_def Let_def simp del: skip_word.simps)
      then have k: "kind = 97" "q = c # s1" "e = skip_word (c # s1)" "ps' = skip_ws e" using assms by auto
      obtain w where "s1 = w @ skip_word s1" using skip_word_suffix[of s1] by blast
      then have "q = (c # w) @ e" using k 3 nws by simp
      then show ?thesis using k 3 Cons by (intro conjI exI[of _ "c # w"]) auto
    qed
  qed
  show "q = skip_ws ps" "ps' = skip_ws e" "\<exists>w. q = w @ e \<and> (q \<noteq> [] \<longrightarrow> w \<noteq> [])" "kind = 0 \<longleftrightarrow> q = []"
    "kind = 97 \<longleftrightarrow> q \<noteq> [] \<and> \<not> symb (hd q)" using all by blast+
qed

lemma gettoken_shorter:
  assumes "gettoken ps = (kind, t, ps')"
  shows "length ps' \<le> length (skip_ws ps)" "skip_ws ps \<noteq> [] \<Longrightarrow> length ps' < length (skip_ws ps)"
proof -
  obtain q e where t: "t = (q, e)" by (cases t)
  note g = gettoken_split[OF assms[unfolded t]]
  obtain w where "q = w @ e" "q \<noteq> [] \<longrightarrow> w \<noteq> []" using g(3) by blast
  then show "length ps' \<le> length (skip_ws ps)" "skip_ws ps \<noteq> [] \<Longrightarrow> length ps' < length (skip_ws ps)"
    using g(1,2) skip_ws_length[of e] by (auto simp: le_less_trans)
qed

lemma peek_simps: "peek ps toks = (b, ps') \<Longrightarrow> ps' = skip_ws ps \<and> (b \<longrightarrow> ps' \<noteq> [])"
  by (auto simp: peek_def Let_def)

termination redirs
proof (relation "measure length", simp, goal_cases)
  case (1 ps x b ps1 y tok z t ps2 u kind v fl ps3)
  then have "ps1 = skip_ws ps" "ps1 \<noteq> []" using peek_simps[of ps "[60, 62]" b ps1] by auto
  moreover have "gettoken ps1 = (tok, t, ps2)" "gettoken ps2 = (kind, fl, ps3)" using 1 by auto
  ultimately show ?case
    using gettoken_shorter(2)[of ps1 tok t ps2] gettoken_shorter(1)[of ps2 kind fl ps3] skip_ws_length[of ps] skip_ws_length[of ps2]
    by simp
qed

declare redirs.simps [simp del]

definition wrap :: "('a \<times> nat \<times> nat) list \<Rightarrow> 'a cmd \<Rightarrow> 'a cmd" where
  "wrap rs c = fold (\<lambda>(f, mode, fd) c. redircmd c f mode fd) rs c"

definition parseredirs :: "token cmd \<Rightarrow> byte list \<Rightarrow> (token cmd \<times> byte list) kernel" where
  "parseredirs c ps = kbind (redirs ps) (\<lambda>(rs, ps1). Inr (wrap rs c, ps1))"

lemma redirs_shorter: "redirs ps = Inr (rs, ps') \<Longrightarrow> length ps' \<le> length ps"
proof (induction ps arbitrary: rs ps' rule: redirs.induct)
  case (1 ps)
  show ?case
  proof (cases "fst (peek ps [60, 62])")
    case False
    then show ?thesis using 1(2) skip_ws_length[of ps] by (subst (asm) redirs.simps) (auto simp: peek_def Let_def)
  next
    case True
    obtain ps1 where p: "peek ps [60, 62] = (True, ps1)" using True by (cases "peek ps [60, 62]") auto
    obtain tok t ps2 where g1: "gettoken ps1 = (tok, t, ps2)" by (cases "gettoken ps1")
    obtain kind fl ps3 where g2: "gettoken ps2 = (kind, fl, ps3)" by (cases "gettoken ps2")
    from 1(2) p g1 g2 obtain rs' where r: "kind = 97" "redirs ps3 = Inr (rs', ps')"
      by (subst (asm) redirs.simps) (auto split: if_splits sum.splits)
    have "length ps' \<le> length ps3" using "1.IH"[OF p[symmetric] refl _ g1[symmetric] refl refl g2[symmetric] refl] r by auto
    then show ?thesis
      using gettoken_shorter(1)[OF g1] gettoken_shorter(1)[OF g2] peek_simps[OF p] skip_ws_length[of ps] skip_ws_length[of ps1] skip_ws_length[of ps2]
      by simp
  qed
qed

text \<open>The loop of \<open>parseexec\<close> over the arguments.\<close>

function exec_loop ::
  "token list \<Rightarrow> (token \<times> nat \<times> nat) list \<Rightarrow> byte list \<Rightarrow> (token cmd \<times> byte list) kernel" where
  "exec_loop argv rs ps =
     (let (b, ps1) = peek ps [124, 41, 38, 59]
      in if b then Inr (wrap rs (put_argv execcmd argv), ps1)
         else let (tok, t, ps2) = gettoken ps1
              in if tok = 0 then Inr (wrap rs (put_argv execcmd argv), ps2)
                 else if tok \<noteq> 97 then Inl ''syntax''
                 else if MAXARGS \<le> length argv + 1 then Inl ''too many args''
                 else case redirs ps2 of
                        Inl e \<Rightarrow> Inl e
                      | Inr (rs1, ps3) \<Rightarrow> exec_loop (argv @ [t]) (rs @ rs1) ps3)"
  by pat_completeness auto
termination
proof (relation "measure (\<lambda>(argv, rs, ps). length ps)", simp, goal_cases)
  case (1 argv rs ps x b ps1 y tok z t ps2 r rs1 ps3)
  then have p: "ps1 = skip_ws ps" "gettoken ps1 = (tok, t, ps2)" "redirs ps2 = Inr (rs1, ps3)" "tok \<noteq> 0"
    using peek_simps[of ps _ b ps1] by auto
  have "skip_ws ps1 \<noteq> []" using gettoken_split(1,4)[of ps1 tok "fst t" "snd t" ps2] p by auto
  then show ?case using gettoken_shorter(2)[OF p(2)] redirs_shorter[OF p(3)] skip_ws_length[of ps] p(1) by simp
qed

declare exec_loop.simps [simp del]

text \<open>The loop of \<open>parseline\<close> over the ampersands.\<close>

function back_loop :: "token cmd \<Rightarrow> byte list \<Rightarrow> token cmd \<times> byte list" where
  "back_loop c ps =
     (let (b, ps1) = peek ps [38]
      in if b then let (_, _, ps2) = gettoken ps1 in back_loop (backcmd c) ps2 else (c, ps1))"
  by pat_completeness auto
termination
proof (relation "measure (\<lambda>(c, ps). length ps)", simp, goal_cases)
  case (1 c ps x b ps1 y tok z t ps2)
  then have p: "ps1 = skip_ws ps" "ps1 \<noteq> []" "gettoken ps1 = (tok, t, ps2)" using peek_simps[of ps _ b ps1] by auto
  then show ?case using gettoken_shorter(2)[OF p(3)] skip_ws_length[of ps] by simp
qed

declare back_loop.simps [simp del]

definition obind :: "'a kernel option \<Rightarrow> ('a \<Rightarrow> 'b kernel option) \<Rightarrow> 'b kernel option" where
  "obind m f = (case m of None \<Rightarrow> None | Some (Inl e) \<Rightarrow> Some (Inl e) | Some (Inr x) \<Rightarrow> f x)"

lemma obind_simps [simp]: "obind None f = None" "obind (Some (Inl e)) f = Some (Inl e)" "obind (Some (Inr x)) f = f x"
  by (simp_all add: obind_def)

fun parseline :: "nat \<Rightarrow> byte list \<Rightarrow> (token cmd \<times> byte list) kernel option"
  and parsepipe :: "nat \<Rightarrow> byte list \<Rightarrow> (token cmd \<times> byte list) kernel option"
  and parseexec :: "nat \<Rightarrow> byte list \<Rightarrow> (token cmd \<times> byte list) kernel option"
  and parseblock :: "nat \<Rightarrow> byte list \<Rightarrow> (token cmd \<times> byte list) kernel option" where
  "parseline 0 ps = None"
| "parseline (Suc n) ps =
     obind (parsepipe n ps) (\<lambda>(c, ps1).
       let (c2, ps2) = back_loop c ps1; (b, ps3) = peek ps2 [59]
       in if b then let (_, _, ps4) = gettoken ps3 in obind (parseline n ps4) (\<lambda>(c3, ps5). Some (Inr (listcmd c2 c3, ps5)))
          else Some (Inr (c2, ps3)))"
| "parsepipe 0 ps = None"
| "parsepipe (Suc n) ps =
     obind (parseexec n ps) (\<lambda>(c, ps1).
       let (b, ps2) = peek ps1 [124]
       in if b then let (_, _, ps3) = gettoken ps2 in obind (parsepipe n ps3) (\<lambda>(c2, ps4). Some (Inr (pipecmd c c2, ps4)))
          else Some (Inr (c, ps2)))"
| "parseexec 0 ps = None"
| "parseexec (Suc n) ps =
     (let (b, ps1) = peek ps [40]
      in if b then parseblock n ps1 else Some (kbind (redirs ps1) (\<lambda>(rs, ps2). exec_loop [] rs ps2)))"
| "parseblock 0 ps = None"
| "parseblock (Suc n) ps =
     (let (b, ps1) = peek ps [40]
      in if \<not> b then Some (Inl ''parseblock'')
         else let (_, _, ps2) = gettoken ps1
              in obind (parseline n ps2) (\<lambda>(c, ps3).
                   let (b2, ps4) = peek ps3 [41]
                   in if \<not> b2 then Some (Inl ''syntax - missing )'')
                      else let (_, _, ps5) = gettoken ps4 in Some (parseredirs c ps5)))"

text \<open>The fuel of \<open>parsecmd\<close>: four calls for every opening bracket, and four for the line.\<close>

definition parsecmd :: "byte list \<Rightarrow> token cmd kernel option" where
  "parsecmd s =
     obind (parseline (4 * length s + 4) s) (\<lambda>(c, ps1).
       let (_, ps2) = peek ps1 [] in if ps2 \<noteq> [] then Some (Inl ''syntax'') else Some (Inr c))"

text \<open>
  \<open>nulterminate\<close> stores a NUL at the end of every counted string; \<open>b\<close> is the line with its NUL,
  and the position of a rest is the length of the line minus that of the rest.
\<close>

definition pos :: "byte list \<Rightarrow> byte list \<Rightarrow> nat" where
  "pos line s = length line - length s"

fun nulterminate :: "byte list \<Rightarrow> token cmd \<Rightarrow> byte list \<Rightarrow> byte list" where
  "nulterminate line (EXEC argv) b = fold (\<lambda>(q, e) b. b[pos line e := 0]) argv b"
| "nulterminate line (REDIR c (q, e) mode fd) b = (nulterminate line c b)[pos line e := 0]"
| "nulterminate line (PIPE l r) b = nulterminate line r (nulterminate line l b)"
| "nulterminate line (LIST l r) b = nulterminate line r (nulterminate line l b)"
| "nulterminate line (BACK c) b = nulterminate line c b"

section \<open>What the parser reads\<close>

text \<open>A pointer only moves forward, and every counted string of the tree is a word of the line.\<close>

definition token_text :: "token \<Rightarrow> byte list" where
  "token_text t = take (length (fst t) - length (snd t)) (fst t)"

definition token_ok :: "byte list \<Rightarrow> token \<Rightarrow> bool" where
  "token_ok line t \<longleftrightarrow>
     suffix (fst t) line \<and> suffix (snd t) (fst t) \<and> token_text t \<noteq> [] \<and> (\<forall>c \<in> set (token_text t). \<not> ws c \<and> \<not> symb c) \<and>
     (snd t = [] \<or> ws (hd (snd t)) \<or> symb (hd (snd t)))"

lemma suffix_skip_ws: "suffix (skip_ws s) s"
  using skip_ws_suffix[of s] by (auto simp: suffix_def)

lemma skip_word_stops: "skip_word s = [] \<or> ws (hd (skip_word s)) \<or> symb (hd (skip_word s))"
  by (induction s rule: skip_word.induct) auto

lemma suffix_gettoken: "gettoken ps = (kind, t, ps') \<Longrightarrow> suffix ps' ps"
proof -
  assume g: "gettoken ps = (kind, t, ps')"
  obtain q e where t: "t = (q, e)" by (cases t)
  note g = gettoken_split[OF g[unfolded t]]
  have "suffix e q" using g(3) by (auto simp: suffix_def)
  then show ?thesis using g(1,2) suffix_skip_ws[of ps] suffix_skip_ws[of e] by (metis suffix_order.trans)
qed

lemma suffix_peek: "peek ps toks = (b, ps') \<Longrightarrow> suffix ps' ps"
  using suffix_skip_ws[of ps] by (auto simp: peek_def Let_def)

lemma gettoken_word:
  assumes "gettoken ps = (97, t, ps')" "suffix ps line"
  shows "token_ok line t"
proof -
  obtain q e where t: "t = (q, e)" by (cases t)
  note g = gettoken_split[OF assms(1)[unfolded t]]
  obtain c s1 where q: "skip_ws ps = c # s1" "\<not> symb c" using g(1,5) by (cases "skip_ws ps") auto
  then have "gettoken ps = (97, (c # s1, skip_word (c # s1)), skip_ws (skip_word (c # s1)))"
    by (auto simp: gettoken_def symb_def Let_def simp del: skip_word.simps)
  then have e: "q = c # s1" "e = skip_word (c # s1)" using assms(1) t by auto
  obtain w where w: "s1 = w @ skip_word s1" "\<forall>c \<in> set w. \<not> ws c \<and> \<not> symb c" using skip_word_suffix[of s1] by blast
  have k: "e = skip_word s1" "\<not> ws c" using e q skip_ws_hd[OF q(1)] by auto
  then have qw: "q = (c # w) @ e" using e w(1) by simp
  then have "token_text t = c # w" using t by (simp add: token_text_def)
  moreover have "suffix q line" using g(1) suffix_skip_ws[of ps] assms(2) by (metis suffix_order.trans)
  moreover have "suffix e q" using qw by (auto simp: suffix_def)
  ultimately show ?thesis using w(2) q(2) k skip_word_stops[of s1] t by (auto simp: token_ok_def)
qed

lemma redirs_reads:
  "redirs ps = Inr (rs, ps') \<Longrightarrow> suffix ps line \<Longrightarrow> suffix ps' ps \<and> (\<forall>r \<in> set rs. token_ok line (fst r))"
proof (induction ps arbitrary: rs ps' rule: redirs.induct)
  case (1 ps)
  obtain b ps1 where p: "peek ps [60, 62] = (b, ps1)" by (cases "peek ps [60, 62]")
  note sp = suffix_peek[OF p]
  show ?case
  proof (cases b)
    case False
    then show ?thesis using 1(2) p sp by (subst (asm) redirs.simps) auto
  next
    case True
    obtain tok t ps2 where g1: "gettoken ps1 = (tok, t, ps2)" by (cases "gettoken ps1")
    obtain kind fl ps3 where g2: "gettoken ps2 = (kind, fl, ps3)" by (cases "gettoken ps2")
    from 1(2) p g1 g2 True obtain rs' m fd where r: "kind = 97" "redirs ps3 = Inr (rs', ps')" "rs = (fl, m, fd) # rs'"
      by (subst (asm) redirs.simps) (auto split: if_splits sum.splits)
    note sf = sp suffix_gettoken[OF g1] suffix_gettoken[OF g2]
    have l: "suffix ps2 line" "suffix ps3 line" "suffix ps3 ps" using sf 1(3) by (meson suffix_order.trans)+
    have "suffix ps' ps3 \<and> (\<forall>r \<in> set rs'. token_ok line (fst r))"
      using "1.IH"[OF p[symmetric] refl _ g1[symmetric] refl refl g2[symmetric] refl refl _ r(2) l(2)] True r(1) by simp
    moreover have "token_ok line fl" using gettoken_word[OF _ l(1)] g2 r(1) by simp
    ultimately show ?thesis using r(3) l(3) by (auto intro: suffix_order.trans)
  qed
qed

lemma wrap_simps [simp]: "wrap [] c = c" "wrap ((f, m, fd) # rs) c = wrap rs (REDIR c f m fd)"
  by (simp_all add: wrap_def)

lemma set_wrap: "set_cmd (wrap rs c) = set_cmd c \<union> fst ` set rs"
proof (induction rs arbitrary: c)
  case (Cons r rs)
  then show ?case by (cases r) auto
qed simp

lemma exec_loop_reads:
  "exec_loop argv rs ps = Inr (c, ps') \<Longrightarrow> suffix ps line \<Longrightarrow> (\<forall>t \<in> set argv \<union> fst ` set rs. token_ok line t) \<Longrightarrow>
   suffix ps' ps \<and> (\<forall>t \<in> set_cmd c. token_ok line t)"
proof (induction argv rs ps arbitrary: c ps' rule: exec_loop.induct)
  case (1 argv rs ps)
  obtain b ps1 where p: "peek ps [124, 41, 38, 59] = (b, ps1)" by (cases "peek ps [124, 41, 38, 59]")
  note sp = suffix_peek[OF p]
  obtain tok t ps2 where g: "gettoken ps1 = (tok, t, ps2)" by (cases "gettoken ps1")
  have l: "suffix ps1 line" "suffix ps2 ps" "suffix ps2 line"
    using sp suffix_gettoken[OF g] 1(3) by (meson suffix_order.trans)+
  show ?case
  proof (cases "b \<or> tok = 0")
    case True
    then have "c = wrap rs (EXEC argv)" "ps' = ps1 \<or> ps' = ps2"
      using 1(2) p g by (auto simp: exec_loop.simps[of argv rs ps] split: if_splits)
    then show ?thesis using 1(4) sp l by (auto simp: set_wrap)
  next
    case False
    from False 1(2) p g obtain rs1 ps3 where r: "tok = 97" "\<not> MAXARGS \<le> length argv + 1" "redirs ps2 = Inr (rs1, ps3)"
      "exec_loop (argv @ [t]) (rs @ rs1) ps3 = Inr (c, ps')"
      by (auto simp: exec_loop.simps[of argv rs ps] split: if_splits sum.splits)
    note rr = redirs_reads[OF r(3) l(3)]
    have "token_ok line t" using gettoken_word[OF _ l(1)] g r(1) by simp
    then have "\<forall>t' \<in> set (argv @ [t]) \<union> fst ` set (rs @ rs1). token_ok line t'" using 1(4) rr by auto
    moreover have "suffix ps3 line" "suffix ps3 ps" using rr l by (meson suffix_order.trans)+
    ultimately have "suffix ps' ps3 \<and> (\<forall>t \<in> set_cmd c. token_ok line t)"
      using "1.IH"[OF p[symmetric] refl _ g[symmetric] refl refl _ _ _ r(3) refl r(4)] False r by auto
    then show ?thesis using \<open>suffix ps3 ps\<close> by (auto intro: suffix_order.trans)
  qed
qed

lemma back_loop_reads: "back_loop c ps = (c', ps') \<Longrightarrow> suffix ps' ps \<and> set_cmd c' = set_cmd c"
proof (induction c ps arbitrary: c' ps' rule: back_loop.induct)
  case (1 c ps)
  obtain b ps1 where p: "peek ps [38] = (b, ps1)" by (cases "peek ps [38]")
  obtain tok t ps2 where g: "gettoken ps1 = (tok, t, ps2)" by (cases "gettoken ps1")
  note sf = suffix_peek[OF p] suffix_gettoken[OF g]
  show ?case
  proof (cases b)
    case False
    then show ?thesis using 1(2) p sf by (auto simp: back_loop.simps[of c ps])
  next
    case True
    then have "back_loop (BACK c) ps2 = (c', ps')" using 1(2) p g by (auto simp: back_loop.simps[of c ps])
    then have "suffix ps' ps2" "set_cmd c' = set_cmd c" using "1.IH"[OF p[symmetric] refl True g[symmetric] refl refl] by auto
    then show ?thesis using sf by (meson suffix_order.trans)
  qed
qed

definition reads :: "byte list \<Rightarrow> byte list \<Rightarrow> (token cmd \<times> byte list) kernel option \<Rightarrow> bool" where
  "reads line ps r \<longleftrightarrow> (\<forall>c ps'. r = Some (Inr (c, ps')) \<longrightarrow> suffix ps' ps \<and> (\<forall>t \<in> set_cmd c. token_ok line t))"

lemma readsD: "reads line ps (Some (Inr (c, ps'))) \<Longrightarrow> suffix ps' ps \<and> (\<forall>t \<in> set_cmd c. token_ok line t)"
  by (simp add: reads_def)

lemma reads_None [simp]: "reads line ps None" by (simp add: reads_def)
lemma reads_Inl [simp]: "reads line ps (Some (Inl e))" by (simp add: reads_def)

lemma reads_obind:
  assumes "reads line ps m"
    "\<And>c ps1. m = Some (Inr (c, ps1)) \<Longrightarrow> suffix ps1 ps \<Longrightarrow> \<forall>t \<in> set_cmd c. token_ok line t \<Longrightarrow> reads line ps (f (c, ps1))"
  shows "reads line ps (obind m f)"
proof (cases m)
  case (Some r)
  then show ?thesis
  proof (cases r)
    case (Inr x)
    then show ?thesis using assms Some by (cases x) (auto simp: reads_def)
  qed simp
qed simp

lemma reads_suffix: "reads line ps1 r \<Longrightarrow> suffix ps1 ps \<Longrightarrow> reads line ps r"
  by (auto simp: reads_def intro: suffix_order.trans)

lemma parseredirs_reads:
  assumes "suffix ps line" "\<forall>t \<in> set_cmd c. token_ok line t"
  shows "reads line ps (Some (parseredirs c ps))"
proof (cases "redirs ps")
  case (Inr x)
  obtain rs ps1 where x: "x = (rs, ps1)" by (cases x)
  show ?thesis using redirs_reads[OF Inr[unfolded x] assms(1)] assms(2) Inr x
    by (auto simp: reads_def parseredirs_def set_wrap)
qed (simp add: parseredirs_def)

lemma exec_reads:
  assumes "suffix ps line"
  shows "reads line ps (Some (kbind (redirs ps) (\<lambda>(rs, ps2). exec_loop [] rs ps2)))"
proof (cases "redirs ps")
  case (Inr x)
  obtain rs ps1 where x: "x = (rs, ps1)" by (cases x)
  note r = redirs_reads[OF Inr[unfolded x] assms(1)]
  have "suffix ps1 line" using r assms by (meson suffix_order.trans)
  then have "reads line ps1 (Some (exec_loop [] rs ps1))"
    using exec_loop_reads[of "[]" rs ps1 _ _ line] r by (auto simp: reads_def)
  then show ?thesis using Inr x r reads_suffix by auto
qed simp

lemma parser_reads:
  "(\<forall>ps. suffix ps line \<longrightarrow> reads line ps (parseline n ps)) \<and> (\<forall>ps. suffix ps line \<longrightarrow> reads line ps (parsepipe n ps)) \<and>
   (\<forall>ps. suffix ps line \<longrightarrow> reads line ps (parseexec n ps)) \<and> (\<forall>ps. suffix ps line \<longrightarrow> reads line ps (parseblock n ps))"
proof (induction n)
  case (Suc n)
  then have IH: "\<And>ps. suffix ps line \<Longrightarrow> reads line ps (parseline n ps)" "\<And>ps. suffix ps line \<Longrightarrow> reads line ps (parsepipe n ps)"
    "\<And>ps. suffix ps line \<Longrightarrow> reads line ps (parseexec n ps)" "\<And>ps. suffix ps line \<Longrightarrow> reads line ps (parseblock n ps)"
    by blast+
  have "reads line ps (parseline (Suc n) ps)" if s: "suffix ps line" for ps
    unfolding parseline.simps
  proof (rule reads_obind[OF IH(2)[OF s]], goal_cases)
    case (1 c ps1)
    obtain c2 ps2 where bl: "back_loop c ps1 = (c2, ps2)" by (cases "back_loop c ps1")
    obtain b ps3 where pk: "peek ps2 [59] = (b, ps3)" by (cases "peek ps2 [59]")
    obtain k t ps4 where g: "gettoken ps3 = (k, t, ps4)" by (cases "gettoken ps3")
    note br = back_loop_reads[OF bl]
    have f: "suffix ps3 ps" "suffix ps4 ps" "suffix ps4 line"
      using suffix_peek[OF pk] suffix_gettoken[OF g] br 1(2) s by (meson suffix_order.trans)+
    have "reads line ps (obind (parseline n ps4) (\<lambda>(c3, ps5). Some (Inr (LIST c2 c3, ps5))))"
      by (rule reads_obind[OF reads_suffix[OF IH(1)[OF f(3)] f(2)]]) (use br 1(3) in \<open>auto simp: reads_def\<close>)
    then show ?case using f(1) br 1(3) by (simp add: bl pk g reads_def)
  qed
  moreover have "reads line ps (parsepipe (Suc n) ps)" if s: "suffix ps line" for ps
    unfolding parsepipe.simps
  proof (rule reads_obind[OF IH(3)[OF s]], goal_cases)
    case (1 c ps1)
    obtain b ps2 where pk: "peek ps1 [124] = (b, ps2)" by (cases "peek ps1 [124]")
    obtain k t ps3 where g: "gettoken ps2 = (k, t, ps3)" by (cases "gettoken ps2")
    have f: "suffix ps2 ps" "suffix ps3 ps" "suffix ps3 line"
      using suffix_peek[OF pk] suffix_gettoken[OF g] 1(2) s by (meson suffix_order.trans)+
    have "reads line ps (obind (parsepipe n ps3) (\<lambda>(c2, ps4). Some (Inr (PIPE c c2, ps4))))"
      by (rule reads_obind[OF reads_suffix[OF IH(2)[OF f(3)] f(2)]]) (use 1(3) in \<open>auto simp: reads_def\<close>)
    then show ?case using f(1) 1(3) by (simp add: pk g reads_def)
  qed
  moreover have "reads line ps (parseexec (Suc n) ps)" if s: "suffix ps line" for ps
  proof -
    obtain b ps1 where pk: "peek ps [40] = (b, ps1)" by (cases "peek ps [40]")
    note f = suffix_peek[OF pk] suffix_order.trans[OF suffix_peek[OF pk] s]
    show ?thesis using reads_suffix[OF IH(4)[OF f(2)] f(1)] reads_suffix[OF exec_reads[OF f(2)] f(1)] by (simp add: pk)
  qed
  moreover have "reads line ps (parseblock (Suc n) ps)" if s: "suffix ps line" for ps
  proof -
    obtain b ps1 where pk: "peek ps [40] = (b, ps1)" by (cases "peek ps [40]")
    obtain k t ps2 where g: "gettoken ps1 = (k, t, ps2)" by (cases "gettoken ps1")
    have f: "suffix ps2 ps" "suffix ps2 line" using suffix_peek[OF pk] suffix_gettoken[OF g] s by (meson suffix_order.trans)+
    have "reads line ps (obind (parseline n ps2) (\<lambda>(c, ps3). let (b2, ps4) = peek ps3 [41]
            in if \<not> b2 then Some (Inl ''syntax - missing )'') else let (_, _, ps5) = gettoken ps4 in Some (parseredirs c ps5)))"
    proof (rule reads_obind[OF reads_suffix[OF IH(1)[OF f(2)] f(1)]], goal_cases)
      case (1 c ps3)
      obtain b2 ps4 where pk2: "peek ps3 [41] = (b2, ps4)" by (cases "peek ps3 [41]")
      obtain k2 t2 ps5 where g2: "gettoken ps4 = (k2, t2, ps5)" by (cases "gettoken ps4")
      have "suffix ps5 ps" "suffix ps5 line" using suffix_peek[OF pk2] suffix_gettoken[OF g2] 1(2) s by (meson suffix_order.trans)+
      then have "reads line ps (Some (parseredirs c ps5))" using reads_suffix[OF parseredirs_reads] 1(3) by blast
      then show ?case by (simp add: pk2 g2)
    qed
    then show ?thesis by (simp add: pk g)
  qed
  ultimately show ?case by blast
qed simp

text \<open>The fuel is enough: a bracket is read between two calls of \<open>parseline\<close>.\<close>

definition returns :: "'a option \<Rightarrow> bool" where "returns r \<longleftrightarrow> r \<noteq> None"

lemma returns_Some [simp]: "returns (Some x)" by (simp add: returns_def)

lemma returns_obind: "returns m \<Longrightarrow> (\<And>c ps1. m = Some (Inr (c, ps1)) \<Longrightarrow> returns (f (c, ps1))) \<Longrightarrow> returns (obind m f)"
  by (auto simp: returns_def obind_def split: option.splits sum.splits)

lemma parser_length:
  "parseline n ps = Some (Inr (c, ps')) \<Longrightarrow> length ps' \<le> length ps"
  "parsepipe n ps = Some (Inr (c, ps')) \<Longrightarrow> length ps' \<le> length ps"
  "parseexec n ps = Some (Inr (c, ps')) \<Longrightarrow> length ps' \<le> length ps"
proof -
  note r = parser_reads[of ps n, THEN conjunct1, rule_format, of ps, simplified] parser_reads[of ps n, THEN conjunct2, THEN conjunct1, rule_format, of ps, simplified]
    parser_reads[of ps n, THEN conjunct2, THEN conjunct2, THEN conjunct1, rule_format, of ps, simplified]
  show "parseline n ps = Some (Inr (c, ps')) \<Longrightarrow> length ps' \<le> length ps" "parsepipe n ps = Some (Inr (c, ps')) \<Longrightarrow> length ps' \<le> length ps"
    "parseexec n ps = Some (Inr (c, ps')) \<Longrightarrow> length ps' \<le> length ps"
    using r readsD by (metis suffix_length_le)+
qed

lemma gettoken_eats: "peek ps toks = (True, ps1) \<Longrightarrow> gettoken ps1 = (k, t, ps2) \<Longrightarrow> length ps2 < length ps"
  using gettoken_shorter(2)[of ps1 k t ps2] peek_simps[of ps toks True ps1] skip_ws_length[of ps] by auto

lemma parser_returns:
  "(\<forall>ps. 4 * length ps + 4 \<le> n \<longrightarrow> returns (parseline n ps)) \<and> (\<forall>ps. 4 * length ps + 3 \<le> n \<longrightarrow> returns (parsepipe n ps)) \<and>
   (\<forall>ps. 4 * length ps + 2 \<le> n \<longrightarrow> returns (parseexec n ps)) \<and> (\<forall>ps. 4 * length ps + 1 \<le> n \<longrightarrow> returns (parseblock n ps))"
proof (induction n)
  case (Suc n)
  then have IH: "\<And>ps. 4 * length ps + 4 \<le> n \<Longrightarrow> returns (parseline n ps)" "\<And>ps. 4 * length ps + 3 \<le> n \<Longrightarrow> returns (parsepipe n ps)"
    "\<And>ps. 4 * length ps + 2 \<le> n \<Longrightarrow> returns (parseexec n ps)" "\<And>ps. 4 * length ps + 1 \<le> n \<Longrightarrow> returns (parseblock n ps)"
    by blast+
  have "returns (parseline (Suc n) ps)" if s: "4 * length ps + 4 \<le> Suc n" for ps
    unfolding parseline.simps
  proof (rule returns_obind, goal_cases)
    case 1
    then show ?case using IH(2) s by simp
  next
    case (2 c ps1)
    obtain c2 ps2 where bl: "back_loop c ps1 = (c2, ps2)" by (cases "back_loop c ps1")
    obtain b ps3 where pk: "peek ps2 [59] = (b, ps3)" by (cases "peek ps2 [59]")
    obtain k t ps4 where g: "gettoken ps3 = (k, t, ps4)" by (cases "gettoken ps3")
    have "length ps2 \<le> length ps" using parser_length(2)[OF 2] back_loop_reads[OF bl] suffix_length_le by (metis le_trans)
    then have "returns (parseline n ps4)" if b using gettoken_eats[of ps2 "[59]" ps3 k t ps4] pk g that s IH(1)[of ps4] by simp
    then show ?case by (auto simp: bl pk g intro: returns_obind)
  qed
  moreover have "returns (parsepipe (Suc n) ps)" if s: "4 * length ps + 3 \<le> Suc n" for ps
    unfolding parsepipe.simps
  proof (rule returns_obind, goal_cases)
    case 1
    then show ?case using IH(3) s by simp
  next
    case (2 c ps1)
    obtain b ps2 where pk: "peek ps1 [124] = (b, ps2)" by (cases "peek ps1 [124]")
    obtain k t ps3 where g: "gettoken ps2 = (k, t, ps3)" by (cases "gettoken ps2")
    have "returns (parsepipe n ps3)" if b
      using gettoken_eats[of ps1 "[124]" ps2 k t ps3] pk g that s IH(2)[of ps3] parser_length(3)[OF 2] by simp
    then show ?case by (auto simp: pk g intro: returns_obind)
  qed
  moreover have "returns (parseexec (Suc n) ps)" if s: "4 * length ps + 2 \<le> Suc n" for ps
  proof -
    obtain b ps1 where pk: "peek ps [40] = (b, ps1)" by (cases "peek ps [40]")
    have "length ps1 \<le> length ps" using suffix_peek[OF pk] suffix_length_le by blast
    then show ?thesis using IH(4)[of ps1] s by (simp add: pk)
  qed
  moreover have "returns (parseblock (Suc n) ps)" if s: "4 * length ps + 1 \<le> Suc n" for ps
  proof -
    obtain b ps1 where pk: "peek ps [40] = (b, ps1)" by (cases "peek ps [40]")
    obtain k t ps2 where g: "gettoken ps1 = (k, t, ps2)" by (cases "gettoken ps1")
    have "returns (parseline n ps2)" if b using gettoken_eats[of ps "[40]" ps1 k t ps2] pk g that s IH(1)[of ps2] by simp
    then show ?thesis by (auto simp: pk g split: prod.splits intro!: returns_obind)
  qed
  ultimately show ?case by blast
qed simp

text \<open>
  C31: The shell's parser ends on every command line, with a tree or with an error.
\<close>

theorem parsecmd_returns: "\<exists>r. parsecmd s = Some r"
proof -
  have "returns (parsecmd s)"
    unfolding parsecmd_def
    by (rule returns_obind) (use parser_returns[of "4 * length s + 4"] in \<open>auto simp: peek_def Let_def\<close>)
  then show ?thesis by (auto simp: returns_def)
qed

section \<open>NUL-terminating the words\<close>

lemma parsecmd_tokens:
  assumes "parsecmd line = Some (Inr c)" "t \<in> set_cmd c"
  shows "token_ok line t"
proof -
  obtain ps1 where "parseline (4 * length line + 4) line = Some (Inr (c, ps1))"
    using assms(1) by (auto simp: parsecmd_def obind_def peek_def Let_def split: option.splits sum.splits if_splits)
  moreover have "reads line line (parseline (4 * length line + 4) line)" using parser_reads[of line] by blast
  ultimately show ?thesis using readsD assms(2) by metis
qed

text \<open>The positions at which a tree stores a NUL.\<close>

definition ends :: "byte list \<Rightarrow> token cmd \<Rightarrow> nat set" where
  "ends line c = (\<lambda>t. pos line (snd t)) ` set_cmd c"

lemma nth_update: "j < length xs \<Longrightarrow> xs[i := x] ! j = (if i = j then x else xs ! j)"
  by (cases "i < length xs") (auto simp: nth_list_update)

lemma fold_nul:
  "length (fold (\<lambda>(q, e) b. b[pos line e := 0]) ts b) = length b"
  "i < length b \<Longrightarrow> fold (\<lambda>(q, e) b. b[pos line e := 0]) ts b ! i = (if i \<in> (\<lambda>t. pos line (snd t)) ` set ts then 0 else b ! i)"
  by (induction ts arbitrary: b) (simp_all add: nth_update split_beta)

lemma nulterminate_nth:
  "length (nulterminate line c b) = length b \<and>
   (\<forall>i < length b. nulterminate line c b ! i = (if i \<in> ends line c then 0 else b ! i))"
  by (induction line c b rule: nulterminate.induct) (auto simp: ends_def fold_nul nth_update image_iff)

lemma token_pos:
  assumes "token_ok line t"
  shows "pos line (snd t) = pos line (fst t) + length (token_text t)" "pos line (snd t) \<le> length line"
    "\<forall>i < length (token_text t). line ! (pos line (fst t) + i) = token_text t ! i"
    "pos line (snd t) < length line \<Longrightarrow> ws (line ! pos line (snd t)) \<or> symb (line ! pos line (snd t))"
proof -
  obtain u where u: "line = u @ fst t" using assms by (auto simp: token_ok_def suffix_def)
  obtain w where w: "fst t = w @ snd t" using assms by (auto simp: token_ok_def suffix_def)
  have tt: "token_text t = w" using w by (simp add: token_text_def)
  have p: "pos line (fst t) = length u" "pos line (snd t) = length u + length w" "line = u @ w @ snd t"
    using u w by (simp_all add: pos_def)
  show "pos line (snd t) = pos line (fst t) + length (token_text t)" "pos line (snd t) \<le> length line"
    "\<forall>i < length (token_text t). line ! (pos line (fst t) + i) = token_text t ! i"
    using p tt by (simp_all add: nth_append)
  show "pos line (snd t) < length line \<Longrightarrow> ws (line ! pos line (snd t)) \<or> symb (line ! pos line (snd t))"
    using p assms by (cases "snd t") (auto simp: token_ok_def nth_append)
qed

lemma ends_outside:
  assumes "token_ok line t" "token_ok line u" "i < length (token_text t)"
  shows "pos line (fst t) + i \<noteq> pos line (snd u)"
proof
  assume eq: "pos line (fst t) + i = pos line (snd u)"
  have "pos line (fst t) + i < length line" using token_pos(1,2)[OF assms(1)] assms(3) by linarith
  then have "ws (token_text t ! i) \<or> symb (token_text t ! i)"
    using token_pos(3)[OF assms(1)] token_pos(4)[OF assms(2)] assms(3) eq by metis
  then show False using assms(1,3) by (auto simp: token_ok_def)
qed

text \<open>
  After \<open>nulterminate\<close>, every counted string of a parsed line is the C string that starts where it
  starts: the bytes of the word, unchanged, and then a NUL.
\<close>

theorem nulterminate_words:
  assumes "parsecmd line = Some (Inr c)" "t \<in> set_cmd c"
  shows "\<exists>rest. drop (pos line (fst t)) (nulterminate line c (line @ [0])) = token_text t @ 0 # rest"
proof -
  let ?b = "nulterminate line c (line @ [0])" and ?p = "pos line (fst t)" and ?w = "token_text t"
  have ok: "token_ok line u" if "u \<in> set_cmd c" for u using parsecmd_tokens[OF assms(1) that] .
  note tp = token_pos[OF ok[OF assms(2)]]
  have len: "length ?b = length line + 1" and nth: "i \<le> length line \<Longrightarrow> ?b ! i = (if i \<in> ends line c then 0 else (line @ [0]) ! i)" for i
    using nulterminate_nth[of line c "line @ [0]"] by auto
  have lt: "?p + length ?w < length ?b" using tp(1,2) len by simp
  have "take (length ?w) (drop ?p ?b) = ?w"
  proof (rule nth_equalityI)
    show "length (take (length ?w) (drop ?p ?b)) = length ?w" using lt by simp
    fix i assume "i < length (take (length ?w) (drop ?p ?b))"
    then have i: "i < length ?w" by simp
    then have "?p + i \<notin> ends line c" using ends_outside[OF ok[OF assms(2)] ok i] by (auto simp: ends_def)
    then have "?b ! (?p + i) = line ! (?p + i)" using nth[of "?p + i"] i tp(1,2) by (simp add: nth_append)
    then show "take (length ?w) (drop ?p ?b) ! i = ?w ! i" using i tp(3) lt by simp
  qed
  moreover have "pos line (snd t) \<in> ends line c" using assms(2) by (simp add: ends_def)
  then have "?b ! (?p + length ?w) = 0" using nth[of "?p + length ?w"] tp(1,2) by simp
  ultimately have "drop ?p ?b = ?w @ 0 # drop (Suc (length ?w)) (drop ?p ?b)"
    using id_take_nth_drop[of "length ?w" "drop ?p ?b"] lt by simp
  then show ?thesis by blast
qed

section \<open>The parser inverts the printer\<close>

lemma obind_mono:
  assumes "obind m f = Some r" "\<And>r. m = Some r \<Longrightarrow> m' = Some r" "\<And>c ps r. f (c, ps) = Some r \<Longrightarrow> f' (c, ps) = Some r"
  shows "obind m' f' = Some r"
proof (cases m)
  case (Some x)
  then show ?thesis using assms by (cases x) auto
qed (use assms(1) in simp)

lemma parser_mono:
  "(\<forall>ps r. parseline n ps = Some r \<longrightarrow> parseline (Suc n) ps = Some r) \<and> (\<forall>ps r. parsepipe n ps = Some r \<longrightarrow> parsepipe (Suc n) ps = Some r) \<and>
   (\<forall>ps r. parseexec n ps = Some r \<longrightarrow> parseexec (Suc n) ps = Some r) \<and> (\<forall>ps r. parseblock n ps = Some r \<longrightarrow> parseblock (Suc n) ps = Some r)"
proof (induction n)
  case (Suc n)
  then have IH: "\<And>ps r. parseline n ps = Some r \<Longrightarrow> parseline (Suc n) ps = Some r" "\<And>ps r. parsepipe n ps = Some r \<Longrightarrow> parsepipe (Suc n) ps = Some r"
    "\<And>ps r. parseexec n ps = Some r \<Longrightarrow> parseexec (Suc n) ps = Some r" "\<And>ps r. parseblock n ps = Some r \<Longrightarrow> parseblock (Suc n) ps = Some r"
    by blast+
  have "parseline (Suc (Suc n)) ps = Some r" if h: "parseline (Suc n) ps = Some r" for ps r
    unfolding parseline.simps(2)[of "Suc n"]
    by (rule obind_mono[OF h[unfolded parseline.simps]])
      (auto simp: Let_def simp del: parseline.simps parsepipe.simps split: prod.splits if_splits intro: IH elim!: obind_mono)
  moreover have "parsepipe (Suc (Suc n)) ps = Some r" if h: "parsepipe (Suc n) ps = Some r" for ps r
    unfolding parsepipe.simps(2)[of "Suc n"]
    by (rule obind_mono[OF h[unfolded parsepipe.simps]])
      (auto simp: Let_def simp del: parseexec.simps parsepipe.simps split: prod.splits if_splits intro: IH elim!: obind_mono)
  moreover have "parseexec (Suc (Suc n)) ps = Some r" if h: "parseexec (Suc n) ps = Some r" for ps r
    unfolding parseexec.simps(2)[of "Suc n"]
    using h[unfolded parseexec.simps] by (auto simp: Let_def simp del: parseblock.simps split: prod.splits if_splits intro: IH)
  moreover have "parseblock (Suc (Suc n)) ps = Some r" if h: "parseblock (Suc n) ps = Some r" for ps r
    unfolding parseblock.simps(2)[of "Suc n"]
    using h[unfolded parseblock.simps] by (auto simp: Let_def simp del: parseline.simps split: prod.splits if_splits intro: IH elim!: obind_mono)
  ultimately show ?case by blast
qed simp

lemma parseline_mono: "parseline n ps = Some r \<Longrightarrow> n \<le> m \<Longrightarrow> parseline m ps = Some r"
  by (induction m) (use parser_mono in \<open>auto simp: le_Suc_eq simp del: parseline.simps\<close>)

text \<open>A printer of command trees: brackets where the grammar needs them, level 0 for a member of a
  pipe, 1 for a pipe, 2 for a command before an ampersand, 3 for a whole line.\<close>

definition print_redir :: "byte list \<Rightarrow> nat \<Rightarrow> byte list" where
  "print_redir f mode = (if mode = O_RDONLY then 60 else 62) # f @ [32]"

definition bracket :: "bool \<Rightarrow> byte list \<Rightarrow> byte list" where
  "bracket b s = (if b then 40 # s @ [41] else s)"

fun print_cmd :: "nat \<Rightarrow> byte list cmd \<Rightarrow> byte list" where
  "print_cmd k (EXEC argv) = concat (map (\<lambda>w. w @ [32]) argv)"
| "print_cmd k (REDIR c f mode fd) = print_cmd 0 c @ print_redir f mode"
| "print_cmd k (PIPE l r) = bracket (k < 1) (print_cmd 0 l @ 124 # print_cmd 1 r)"
| "print_cmd k (BACK c) = bracket (k < 2) (print_cmd 2 c @ [38])"
| "print_cmd k (LIST l r) = bracket (k < 3) (print_cmd 2 l @ 59 # print_cmd 3 r)"

definition word_ok :: "byte list \<Rightarrow> bool" where
  "word_ok w \<longleftrightarrow> w \<noteq> [] \<and> (\<forall>c \<in> set w. \<not> ws c \<and> \<not> symb c)"

fun cmd_ok :: "byte list cmd \<Rightarrow> bool" where
  "cmd_ok (EXEC argv) \<longleftrightarrow> length argv < MAXARGS \<and> (\<forall>w \<in> set argv. word_ok w)"
| "cmd_ok (REDIR c f mode fd) \<longleftrightarrow> cmd_ok c \<and> word_ok f \<and> (mode, fd) \<in> {(O_RDONLY, 0), (O_WRONLY OR O_CREATE, 1)}"
| "cmd_ok (PIPE l r) \<longleftrightarrow> cmd_ok l \<and> cmd_ok r"
| "cmd_ok (BACK c) \<longleftrightarrow> cmd_ok c"
| "cmd_ok (LIST l r) \<longleftrightarrow> cmd_ok l \<and> cmd_ok r"

definition stop :: "byte list \<Rightarrow> byte set \<Rightarrow> bool" where
  "stop s toks \<longleftrightarrow> s = [] \<or> hd s \<in> toks"

lemma stop_cases: "stop s toks \<longleftrightarrow> s = [] \<or> (\<exists>c s'. s = c # s' \<and> c \<in> toks)"
  by (cases s) (auto simp: stop_def)

lemma skip_word_append: "\<forall>c \<in> set w. \<not> ws c \<and> \<not> symb c \<Longrightarrow> skip_word (w @ s) = skip_word s"
  by (induction w) auto

lemma gettoken_print:
  assumes "word_ok w" "s = [] \<or> ws (hd s) \<or> symb (hd s)"
  shows "gettoken (w @ s) = (97, (w @ s, s), skip_ws s)"
proof -
  obtain c w' where w: "w = c # w'" using assms(1) by (cases w) (auto simp: word_ok_def)
  have c: "\<not> ws c" "\<not> symb c" and sw: "skip_word (w @ s) = skip_word s"
    using assms(1) w skip_word_append by (auto simp: word_ok_def)
  have s: "skip_word s = s" using assms(2) by (cases s) auto
  have "gettoken (w @ s) = (97, (w @ s, skip_word (w @ s)), skip_ws (skip_word (w @ s)))"
    using c w by (auto simp: gettoken_def symb_def Let_def simp del: skip_word.simps)
  then show ?thesis using sw s by simp
qed

lemma gettoken_symb: "c \<in> {124, 40, 41, 59, 38, 60} \<Longrightarrow> gettoken (c # s) = (c, (c # s, s), skip_ws s)"
proof -
  assume c: "c \<in> {124, 40, 41, 59, 38, 60}"
  then have "\<not> ws c" by (auto simp: ws_def)
  then show ?thesis using c by (simp add: gettoken_def)
qed

lemma gettoken_gt: "s = [] \<or> hd s \<noteq> 62 \<Longrightarrow> gettoken (62 # s) = (62, (62 # s, s), skip_ws s)"
  by (cases s) (simp_all add: gettoken_def ws_def)

lemma token_text_word: "token_text (w @ s, s) = w"
  by (simp add: token_text_def)

lemma skip_ws_word: "word_ok w \<Longrightarrow> skip_ws (w @ s) = w @ s"
  by (cases w) (auto simp: word_ok_def)

lemma word_hd: "word_ok w \<Longrightarrow> \<not> symb (hd (w @ s)) \<and> \<not> ws (hd (w @ s)) \<and> w @ s \<noteq> []"
  by (cases w) (auto simp: word_ok_def)

text \<open>Redirections, as printed after a command.\<close>

definition print_redirs :: "(byte list \<times> nat \<times> nat) list \<Rightarrow> byte list" where
  "print_redirs rs = concat (map (\<lambda>(f, mode, fd). print_redir f mode) rs)"

definition redir_ok :: "byte list \<times> nat \<times> nat \<Rightarrow> bool" where
  "redir_ok r \<longleftrightarrow> word_ok (fst r) \<and> snd r \<in> {(O_RDONLY, 0), (O_WRONLY OR O_CREATE, 1)}"

definition text_redir :: "token \<times> nat \<times> nat \<Rightarrow> byte list \<times> nat \<times> nat" where
  "text_redir r = (token_text (fst r), snd r)"

lemma gettoken_redir:
  assumes "redir_ok (f, mode, fd)"
  shows "gettoken (print_redir f mode @ s) = (if mode = O_RDONLY then 60 else 62, (print_redir f mode @ s, f @ 32 # s), f @ 32 # s)"
    "gettoken (f @ 32 # s) = (97, (f @ 32 # s, 32 # s), skip_ws s)"
proof -
  have w: "word_ok f" using assms by (simp add: redir_ok_def)
  have "hd (f @ 32 # s) \<noteq> 62" using word_hd[OF w, of "32 # s"] by (auto simp: symb_def)
  then show "gettoken (print_redir f mode @ s) = (if mode = O_RDONLY then 60 else 62, (print_redir f mode @ s, f @ 32 # s), f @ 32 # s)"
    using gettoken_symb[of 60 "f @ 32 # s"] gettoken_gt[of "f @ 32 # s"] skip_ws_word[OF w] by (simp add: print_redir_def)
  show "gettoken (f @ 32 # s) = (97, (f @ 32 # s, 32 # s), skip_ws s)"
    using gettoken_print[OF w, of "32 # s"] by (simp add: ws_def)
qed

lemma redirs_print:
  "\<forall>r \<in> set rs. redir_ok r \<Longrightarrow> skip_ws s = s \<Longrightarrow> s = [] \<or> hd s \<notin> {60, 62} \<Longrightarrow>
   \<exists>ts. redirs (print_redirs rs @ s) = Inr (ts, s) \<and> map text_redir ts = rs"
proof (induction rs)
  case Nil
  have "peek s [60, 62] = (False, s)" using Nil by (auto simp: peek_def)
  then show ?case by (subst redirs.simps) (simp add: print_redirs_def)
next
  case (Cons r rs)
  obtain f mode fd where r: "r = (f, mode, fd)" by (cases r)
  have ok: "redir_ok (f, mode, fd)" using Cons.prems(1) r by simp
  let ?s = "print_redirs rs @ s"
  obtain ts where ts: "redirs ?s = Inr (ts, s)" "map text_redir ts = rs" using Cons by auto
  have sk: "skip_ws ?s = ?s" 
    using Cons.prems(2) by (cases rs) (auto simp: print_redirs_def print_redir_def ws_def)
  have "peek (print_redir f mode @ ?s) [60, 62] = (True, print_redir f mode @ ?s)"
    by (auto simp: peek_def print_redir_def ws_def)
  then have "redirs (print_redir f mode @ ?s) = Inr (((f @ 32 # ?s, 32 # ?s), mode, fd) # ts, s)"
    using gettoken_redir[OF ok, of ?s] ts(1) sk ok
    by (subst redirs.simps) (auto simp: redir_ok_def)
  then show ?case using ts(2) r token_text_word[of f "32 # ?s"] by (auto simp: print_redirs_def text_redir_def)
qed

lemma wrap_append: "wrap (rs @ us) c = wrap us (wrap rs c)"
  by (simp add: wrap_def)

lemma map_wrap: "map_cmd token_text (wrap rs c) = wrap (map text_redir rs) (map_cmd token_text c)"
proof (induction rs arbitrary: c)
  case (Cons r rs)
  then show ?case by (cases r) (simp add: text_redir_def)
qed simp

lemma stop_skip: "stop s toks \<Longrightarrow> toks \<subseteq> {124, 38, 59, 41} \<Longrightarrow> skip_ws s = s"
  by (cases s) (auto simp: stop_def ws_def)

lemma stop_redir: "stop s toks \<Longrightarrow> toks \<subseteq> {124, 38, 59, 41} \<Longrightarrow> s = [] \<or> hd s \<notin> {60, 62, 40}"
  by (cases s) (auto simp: stop_def)

lemma stop_mono: "stop s A \<Longrightarrow> A \<subseteq> B \<Longrightarrow> stop s B"
  by (auto simp: stop_def)

definition print_argv :: "byte list list \<Rightarrow> byte list" where
  "print_argv argv = concat (map (\<lambda>w. w @ [32]) argv)"

lemma print_argv_simps [simp]: "print_argv [] = []" "print_argv (w # argv) = w @ 32 # print_argv argv"
  by (simp_all add: print_argv_def)

lemma print_redirs_simps [simp]:
  "print_redirs [] = []" "print_redirs ((f, mode, fd) # rs) = print_redir f mode @ print_redirs rs"
  by (simp_all add: print_redirs_def)

lemma peek_word: "word_ok w \<Longrightarrow> set toks \<subseteq> {60, 124, 62, 38, 59, 40, 41} \<Longrightarrow> peek (w @ s) toks = (False, w @ s)"
  using word_hd[of w s] skip_ws_word[of w s] by (auto simp: peek_def symb_def Let_def)

lemma peek_stop: "skip_ws s = s \<Longrightarrow> peek s toks = (s \<noteq> [] \<and> hd s \<in> set toks, s)"
  by (simp add: peek_def)

lemma redirs_none: "skip_ws s = s \<Longrightarrow> s = [] \<or> hd s \<notin> {60, 62} \<Longrightarrow> redirs s = Inr ([], s)"
  by (subst redirs.simps) (auto simp: peek_stop)

lemma skip_ws_print_redirs: "skip_ws s = s \<Longrightarrow> skip_ws (print_redirs rs @ s) = print_redirs rs @ s"
  by (cases rs) (auto simp: print_redirs_def print_redir_def ws_def)

lemma exec_loop_end:
  assumes "stop s {124, 38, 59, 41}"
  shows "exec_loop argv vs s = Inr (wrap vs (EXEC argv), s)"
proof (cases s)
  case (Cons c s')
  then show ?thesis using assms stop_skip[OF assms] by (subst exec_loop.simps) (auto simp: stop_def peek_stop)
qed (subst exec_loop.simps, simp add: peek_def gettoken_def)

lemma exec_loop_print:
  "\<forall>w \<in> set words. word_ok w \<Longrightarrow> \<forall>r \<in> set rs. redir_ok r \<Longrightarrow> words \<noteq> [] \<or> rs = [] \<Longrightarrow> length argv + length words < MAXARGS \<Longrightarrow>
   stop s {124, 38, 59, 41} \<Longrightarrow>
   \<exists>ts us. exec_loop argv vs (print_argv words @ print_redirs rs @ s) = Inr (wrap (vs @ us) (EXEC (argv @ ts)), s) \<and>
     map token_text ts = words \<and> map text_redir us = rs"
proof (induction words arbitrary: argv vs)
  case Nil
  then show ?case using exec_loop_end[OF Nil(5), of argv vs] by auto
next
  case (Cons w words)
  let ?t = "print_argv words @ print_redirs rs @ s"
  have w: "word_ok w" using Cons.prems(1) by simp
  have sk: "skip_ws s = s" "s = [] \<or> hd s \<notin> {60, 62}" using stop_skip[OF Cons.prems(5)] stop_redir[OF Cons.prems(5)] by auto
  have g: "gettoken (w @ 32 # ?t) = (97, (w @ 32 # ?t, 32 # ?t), skip_ws ?t)"
    using gettoken_print[OF w, of "32 # ?t"] by (simp add: ws_def)
  let ?tok = "(w @ 32 # ?t, 32 # ?t)"
  have step: "exec_loop argv vs (w @ 32 # ?t) = exec_loop (argv @ [?tok]) (vs @ us1) t3" if "redirs (skip_ws ?t) = Inr (us1, t3)" for us1 t3
    using that g peek_word[OF w, of "[124, 41, 38, 59]" "32 # ?t"] Cons.prems(4) by (subst exec_loop.simps) auto
  show ?case
  proof (cases words)
    case Nil
    obtain us where us: "redirs (print_redirs rs @ s) = Inr (us, s)" "map text_redir us = rs"
      using redirs_print[OF Cons.prems(2) sk] by blast
    have "exec_loop argv vs (w @ 32 # ?t) = exec_loop (argv @ [?tok]) (vs @ us) s"
      using step us(1) skip_ws_print_redirs[OF sk(1)] Nil by simp
    then have "exec_loop argv vs (w @ 32 # ?t) = Inr (wrap (vs @ us) (EXEC (argv @ [?tok])), s)"
      using exec_loop_end[OF Cons.prems(5)] by simp
    then show ?thesis using us(2) Nil token_text_word[of w "32 # ?t"]
      by (intro exI[of _ "[?tok]"] exI[of _ us]) simp
  next
    case (Cons w2 words2)
    then have w2: "word_ok w2" using Cons.prems(1) by simp
    have sw: "skip_ws ?t = ?t" using skip_ws_word[OF w2] Cons by simp
    have "?t = [] \<or> hd ?t \<notin> {60, 62}" using word_hd[OF w2, of "32 # print_argv words2 @ print_redirs rs @ s"] Cons by (auto simp: symb_def)
    then have "exec_loop argv vs (w @ 32 # ?t) = exec_loop (argv @ [?tok]) vs ?t" using step[of "[]"] redirs_none[OF sw] sw by simp
    moreover obtain ts us where "exec_loop (argv @ [?tok]) vs ?t = Inr (wrap (vs @ us) (EXEC ((argv @ [?tok]) @ ts)), s)"
      "map token_text ts = words" "map text_redir us = rs"
      using Cons.IH[of "argv @ [?tok]" vs] Cons.prems Cons by auto
    ultimately show ?thesis using token_text_word[of w "32 # ?t"] by (intro exI[of _ "?tok # ts"] exI[of _ us]) simp
  qed
qed

definition parses :: "(nat \<Rightarrow> (token cmd \<times> byte list) kernel option) \<Rightarrow> byte list cmd \<Rightarrow> byte list \<Rightarrow> bool" where
  "parses p c s \<longleftrightarrow> (\<exists>c' N. map_cmd token_text c' = c \<and> (\<forall>n \<ge> N. p n = Some (Inr (c', s))))"

lemma parsesI: "map_cmd token_text c' = c \<Longrightarrow> (\<And>n. n \<ge> N \<Longrightarrow> p (Suc n) = Some (Inr (c', s))) \<Longrightarrow> parses p c s"
  unfolding parses_def by (metis Suc_le_D Suc_le_mono)

lemma parse_EXEC:
  assumes "cmd_ok (EXEC words)" "\<forall>r \<in> set rs. redir_ok r" "stop s {124, 38, 59, 41}"
  shows "parses (\<lambda>n. parseexec n (print_cmd 0 (EXEC words) @ print_redirs rs @ s)) (wrap rs (EXEC words)) s"
proof -
  have sk: "skip_ws s = s" "s = [] \<or> hd s \<notin> {60, 62}" "s = [] \<or> hd s \<noteq> 40"
    using stop_skip[OF assms(3)] stop_redir[OF assms(3)] by auto
  let ?t = "print_argv words @ print_redirs rs @ s"
  have pt: "print_cmd 0 (EXEC words) @ print_redirs rs @ s = ?t" by (simp add: print_argv_def)
  show ?thesis
  proof (cases words)
    case Nil
    obtain us where us: "redirs ?t = Inr (us, s)" "map text_redir us = rs"
      using redirs_print[OF assms(2) sk(1,2)] Nil by auto
    have "peek ?t [40] = (False, ?t)"
      using Nil sk skip_ws_print_redirs[OF sk(1), of rs] by (cases rs) (auto simp: peek_stop print_redir_def split: if_splits)
    then have "parseexec (Suc n) ?t = Some (Inr (wrap us (EXEC []), s))" for n
      using us(1) exec_loop_end[OF assms(3)] by simp
    then show ?thesis unfolding pt using us(2) Nil by (intro parsesI[of "wrap us (EXEC [])"]) (simp_all add: map_wrap)
  next
    case (Cons w ws')
    have w: "word_ok w" using assms(1) Cons by simp
    have ne: "?t = [] \<or> hd ?t \<notin> {60, 62}" "skip_ws ?t = ?t"
      using word_hd[OF w, of "32 # print_argv ws' @ print_redirs rs @ s"] skip_ws_word[OF w] Cons by (auto simp: symb_def)
    obtain ts us where l: "exec_loop [] [] ?t = Inr (wrap us (EXEC ts), s)" "map token_text ts = words" "map text_redir us = rs"
      using exec_loop_print[of words rs "[]" s "[]"] assms Cons by auto
    have "peek ?t [40] = (False, ?t)" using peek_word[OF w, of "[40]"] Cons by simp
    then have "parseexec (Suc n) ?t = Some (Inr (wrap us (EXEC ts), s))" for n
      using redirs_none[OF ne(2,1)] l(1) by simp
    then show ?thesis unfolding pt using l(2,3) by (intro parsesI[of "wrap us (EXEC ts)"]) (simp_all add: map_wrap)
  qed
qed

lemma skip_ws_print: "cmd_ok c \<Longrightarrow> skip_ws s = s \<Longrightarrow> skip_ws (print_cmd k c @ s) = print_cmd k c @ s"
proof (induction k c arbitrary: s rule: print_cmd.induct)
  case (1 k argv)
  then show ?case by (cases argv) (auto simp: skip_ws_word)
next
  case (2 k c f mode fd)
  then show ?case by (auto simp: print_redir_def ws_def)
qed (auto simp: bracket_def ws_def)

lemma parseblock_print:
  assumes li: "parses (\<lambda>n. parseline n (print_cmd 3 c @ 41 # print_redirs rs @ s)) c (41 # print_redirs rs @ s)"
    and "cmd_ok c" "\<forall>r \<in> set rs. redir_ok r" "stop s {124, 38, 59, 41}"
  shows "parses (\<lambda>n. parseexec n (40 # print_cmd 3 c @ 41 # print_redirs rs @ s)) (wrap rs c) s"
proof -
  let ?u = "print_redirs rs @ s" and ?t = "print_cmd 3 c @ 41 # print_redirs rs @ s"
  obtain c' N where c': "map_cmd token_text c' = c" "\<And>n. n \<ge> N \<Longrightarrow> parseline n ?t = Some (Inr (c', 41 # ?u))"
    using li by (auto simp: parses_def)
  have sk: "skip_ws s = s" "s = [] \<or> hd s \<notin> {60, 62}" using stop_skip[OF assms(4)] stop_redir[OF assms(4)] by auto
  obtain us where us: "redirs ?u = Inr (us, s)" "map text_redir us = rs" using redirs_print[OF assms(3) sk] by blast
  have wsb: "\<not> ws 40" "\<not> ws 41" by (simp_all add: ws_def)
  then have t: "skip_ws ?t = ?t" using skip_ws_print[OF assms(2)] by simp
  have "parseexec (Suc (Suc n)) (40 # ?t) = Some (Inr (wrap us c', s))" if "n \<ge> N" for n
    using c'(2)[OF that] us(1) wsb t skip_ws_print_redirs[OF sk(1), of rs]
    by (simp add: peek_def gettoken_symb parseredirs_def)
  then show ?thesis using c'(1) us(2) by (intro parsesI[of "wrap us c'" _ "Suc N"]) (auto simp: map_wrap dest: Suc_le_D)
qed

text \<open>
  The statements for the four levels of the grammar; a printed command may be followed by whatever
  ends a command of its level. For the level of the ampersands it is the loop's state that is given.
\<close>

definition exec_inv :: "byte list cmd \<Rightarrow> bool" where
  "exec_inv c \<longleftrightarrow> (\<forall>rs s. (\<forall>r \<in> set rs. redir_ok r) \<longrightarrow> stop s {124, 38, 59, 41} \<longrightarrow>
     parses (\<lambda>n. parseexec n (print_cmd 0 c @ print_redirs rs @ s)) (wrap rs c) s)"

definition pipe_inv :: "byte list cmd \<Rightarrow> bool" where
  "pipe_inv c \<longleftrightarrow> (\<forall>s. stop s {38, 59, 41} \<longrightarrow> parses (\<lambda>n. parsepipe n (print_cmd 1 c @ s)) c s)"

definition back_inv :: "byte list cmd \<Rightarrow> bool" where
  "back_inv c \<longleftrightarrow> (\<forall>s. stop s {38, 59, 41} \<longrightarrow>
     (\<exists>c' c0 s0 N. map_cmd token_text c' = c \<and> back_loop c0 s0 = back_loop c' s \<and>
        (\<forall>n \<ge> N. parsepipe n (print_cmd 2 c @ s) = Some (Inr (c0, s0)))))"

definition line_inv :: "byte list cmd \<Rightarrow> bool" where
  "line_inv c \<longleftrightarrow> (\<forall>s. stop s {41} \<longrightarrow> parses (\<lambda>n. parseline n (print_cmd 3 c @ s)) c s)"

lemma exec_of_line:
  assumes "line_inv c" "cmd_ok c" "\<And>k. print_cmd 0 c = 40 # print_cmd 3 c @ [41]"
  shows "exec_inv c"
  using parseblock_print[OF _ assms(2)] assms(1) by (auto simp: exec_inv_def line_inv_def assms(3) stop_def)

lemma pipe_of_exec:
  assumes "exec_inv c" "print_cmd 1 c = print_cmd 0 c"
  shows "pipe_inv c"
  unfolding pipe_inv_def
proof (intro allI impI)
  fix s assume s: "stop s {38, 59, 41}"
  obtain c' N where c': "map_cmd token_text c' = c" "\<And>n. n \<ge> N \<Longrightarrow> parseexec n (print_cmd 0 c @ s) = Some (Inr (c', s))"
    using assms(1)[unfolded exec_inv_def, rule_format, of "[]" s] stop_mono[OF s, of "{124, 38, 59, 41}"] by (auto simp: parses_def)
  have "peek s [124] = (False, s)" using peek_stop[OF stop_skip[OF s]] s by (auto simp: stop_def)
  then show "parses (\<lambda>n. parsepipe n (print_cmd 1 c @ s)) c s"
    using c' assms(2) by (intro parsesI[of c' _ N]) auto
qed

lemma back_of_pipe: "pipe_inv c \<Longrightarrow> print_cmd 2 c = print_cmd 1 c \<Longrightarrow> back_inv c"
  unfolding back_inv_def pipe_inv_def parses_def by metis

lemma back_loop_end: "stop s {59, 41} \<Longrightarrow> back_loop c s = (c, s)"
  using stop_skip[of s "{59, 41}"] by (subst back_loop.simps) (auto simp: peek_stop stop_def)

lemma line_of_back:
  assumes "back_inv c" "print_cmd 3 c = print_cmd 2 c"
  shows "line_inv c"
  unfolding line_inv_def
proof (intro allI impI)
  fix s assume s: "stop s {41}"
  obtain c' c0 s0 N where c': "map_cmd token_text c' = c" "back_loop c0 s0 = back_loop c' s"
    "\<And>n. n \<ge> N \<Longrightarrow> parsepipe n (print_cmd 2 c @ s) = Some (Inr (c0, s0))"
    using assms(1)[unfolded back_inv_def, rule_format, of s] stop_mono[OF s, of "{38, 59, 41}"] by auto
  have "back_loop c0 s0 = (c', s)" using c'(2) back_loop_end[OF stop_mono[OF s, of "{59, 41}"]] by simp
  moreover have "peek s [59] = (False, s)" using peek_stop[OF stop_skip[OF s]] s by (auto simp: stop_def)
  ultimately show "parses (\<lambda>n. parseline n (print_cmd 3 c @ s)) c s"
    using c'(1,3) assms(2) by (intro parsesI[of c' _ N]) auto
qed

lemma pipe_PIPE:
  assumes "exec_inv l" "pipe_inv r" "cmd_ok r"
  shows "pipe_inv (PIPE l r)"
  unfolding pipe_inv_def
proof (intro allI impI)
  fix s assume s: "stop s {38, 59, 41}"
  let ?r = "print_cmd 1 r @ s"
  obtain l' N where l: "map_cmd token_text l' = l" "\<And>n. n \<ge> N \<Longrightarrow> parseexec n (print_cmd 0 l @ 124 # ?r) = Some (Inr (l', 124 # ?r))"
    using assms(1)[unfolded exec_inv_def, rule_format, of "[]" "124 # ?r"] by (auto simp: parses_def stop_def)
  obtain r' M where r: "map_cmd token_text r' = r" "\<And>n. n \<ge> M \<Longrightarrow> parsepipe n ?r = Some (Inr (r', s))"
    using assms(2)[unfolded pipe_inv_def, rule_format, OF s] by (auto simp: parses_def)
  have "peek (124 # ?r) [124] = (True, 124 # ?r)" "gettoken (124 # ?r) = (124, (124 # ?r, ?r), ?r)"
    using skip_ws_print[OF assms(3) stop_skip[OF s]] by (auto simp: peek_def gettoken_symb ws_def)
  then show "parses (\<lambda>n. parsepipe n (print_cmd 1 (PIPE l r) @ s)) (PIPE l r) s"
    using l r by (intro parsesI[of "PIPE l' r'" _ "max N M"]) (auto simp: bracket_def)
qed

lemma back_BACK:
  assumes "back_inv c"
  shows "back_inv (BACK c)"
  unfolding back_inv_def
proof (intro allI impI)
  fix s assume s: "stop s {38, 59, 41}"
  obtain c' c0 s0 N where c': "map_cmd token_text c' = c" "back_loop c0 s0 = back_loop c' (38 # s)"
    "\<forall>n \<ge> N. parsepipe n (print_cmd 2 c @ 38 # s) = Some (Inr (c0, s0))"
    using assms[unfolded back_inv_def, rule_format, of "38 # s"] by (auto simp: stop_def)
  have "back_loop c' (38 # s) = back_loop (BACK c') s"
    using stop_skip[OF s] by (subst back_loop.simps) (simp add: peek_def gettoken_symb ws_def)
  then show "\<exists>c' c0 s0 N. map_cmd token_text c' = BACK c \<and> back_loop c0 s0 = back_loop c' s \<and>
      (\<forall>n \<ge> N. parsepipe n (print_cmd 2 (BACK c) @ s) = Some (Inr (c0, s0)))"
    using c' by (intro exI[of _ "BACK c'"] exI[of _ c0] exI[of _ s0] exI[of _ N]) (simp add: bracket_def)
qed

lemma line_LIST:
  assumes "back_inv l" "line_inv r" "cmd_ok r"
  shows "line_inv (LIST l r)"
  unfolding line_inv_def
proof (intro allI impI)
  fix s assume s: "stop s {41}"
  let ?r = "print_cmd 3 r @ s"
  obtain l' c0 s0 N where l: "map_cmd token_text l' = l" "back_loop c0 s0 = back_loop l' (59 # ?r)"
    "\<And>n. n \<ge> N \<Longrightarrow> parsepipe n (print_cmd 2 l @ 59 # ?r) = Some (Inr (c0, s0))"
    using assms(1)[unfolded back_inv_def, rule_format, of "59 # ?r"] by (auto simp: stop_def)
  obtain r' M where r: "map_cmd token_text r' = r" "\<And>n. n \<ge> M \<Longrightarrow> parseline n ?r = Some (Inr (r', s))"
    using assms(2)[unfolded line_inv_def, rule_format, OF s] by (auto simp: parses_def)
  have "back_loop c0 s0 = (l', 59 # ?r)" using l(2) back_loop_end[of "59 # ?r" l'] by (simp add: stop_def)
  moreover have "peek (59 # ?r) [59] = (True, 59 # ?r)" "gettoken (59 # ?r) = (59, (59 # ?r, ?r), ?r)"
    using skip_ws_print[OF assms(3) stop_skip[OF s]] by (auto simp: peek_def gettoken_symb ws_def)
  ultimately show "parses (\<lambda>n. parseline n (print_cmd 3 (LIST l r) @ s)) (LIST l r) s"
    using l r by (intro parsesI[of "LIST l' r'" _ "max N M"]) (auto simp: bracket_def)
qed

lemma exec_REDIR: "exec_inv c \<Longrightarrow> redir_ok (f, mode, fd) \<Longrightarrow> exec_inv (REDIR c f mode fd)"
  unfolding exec_inv_def
proof (intro allI impI)
  fix rs s
  assume h: "\<forall>rs s. (\<forall>r \<in> set rs. redir_ok r) \<longrightarrow> stop s {124, 38, 59, 41} \<longrightarrow>
      parses (\<lambda>n. parseexec n (print_cmd 0 c @ print_redirs rs @ s)) (wrap rs c) s"
    "redir_ok (f, mode, fd)" "\<forall>r \<in> set rs. redir_ok r" "stop s {124, 38, 59, 41}"
  show "parses (\<lambda>n. parseexec n (print_cmd 0 (REDIR c f mode fd) @ print_redirs rs @ s)) (wrap rs (REDIR c f mode fd)) s"
    using h(1)[rule_format, of "(f, mode, fd) # rs" s] h(2-4) by auto
qed

lemma print_parse: "cmd_ok c \<Longrightarrow> exec_inv c \<and> pipe_inv c \<and> back_inv c \<and> line_inv c"
proof (induction c)
  case (EXEC argv)
  then have "exec_inv (EXEC argv)" using parse_EXEC by (auto simp: exec_inv_def simp del: cmd_ok.simps)
  then show ?case using pipe_of_exec back_of_pipe line_of_back by simp
next
  case (REDIR c f mode fd)
  then have "exec_inv (REDIR c f mode fd)" using exec_REDIR[of c f mode fd] by (auto simp: redir_ok_def)
  then show ?case using pipe_of_exec back_of_pipe line_of_back by simp
next
  case (PIPE l r)
  then have "pipe_inv (PIPE l r)" using pipe_PIPE by simp
  moreover from this have "back_inv (PIPE l r)" by (rule back_of_pipe) (simp add: bracket_def)
  moreover from this have "line_inv (PIPE l r)" by (rule line_of_back) (simp add: bracket_def)
  moreover from this have "exec_inv (PIPE l r)" by (rule exec_of_line[OF _ PIPE.prems]) (simp add: bracket_def)
  ultimately show ?case by blast
next
  case (LIST l r)
  then have "line_inv (LIST l r)" using line_LIST by simp
  moreover from this have "exec_inv (LIST l r)" by (rule exec_of_line[OF _ LIST.prems]) (simp add: bracket_def)
  moreover from this have "pipe_inv (LIST l r)" by (rule pipe_of_exec) (simp add: bracket_def)
  moreover from this have "back_inv (LIST l r)" by (rule back_of_pipe) (simp add: bracket_def)
  ultimately show ?case by blast
next
  case (BACK c)
  then have "back_inv (BACK c)" using back_BACK by simp
  moreover from this have "line_inv (BACK c)" by (rule line_of_back) (simp add: bracket_def)
  moreover from this have "exec_inv (BACK c)" by (rule exec_of_line[OF _ BACK.prems]) (simp add: bracket_def)
  moreover from this have "pipe_inv (BACK c)" by (rule pipe_of_exec) (simp add: bracket_def)
  ultimately show ?case by blast
qed

text \<open>
  C29: Parsing inverts printing: for every command tree over words the shell can express, the parser
  reads the printed line back as the same tree, each counted string standing for its word.
\<close>

theorem parsecmd_inverts_print:
  assumes "cmd_ok c"
  shows "\<exists>c'. parsecmd (print_cmd 3 c) = Some (Inr c') \<and> map_cmd token_text c' = c"
proof -
  let ?s = "print_cmd 3 c"
  obtain c' N where c': "map_cmd token_text c' = c" "\<And>n. n \<ge> N \<Longrightarrow> parseline n ?s = Some (Inr (c', []))"
    using print_parse[OF assms, THEN conjunct2, THEN conjunct2, THEN conjunct2, unfolded line_inv_def, rule_format, of "[]"]
    by (auto simp: parses_def stop_def)
  obtain r where r: "parseline (4 * length ?s + 4) ?s = Some r" using parser_returns[of "4 * length ?s + 4"] by (auto simp: returns_def)
  have "parseline (max N (4 * length ?s + 4)) ?s = Some r" using parseline_mono[OF r] by simp
  then have "r = Inr (c', [])" using c'(2)[of "max N (4 * length ?s + 4)"] by simp
  then have "parsecmd ?s = Some (Inr c')" using r by (simp add: parsecmd_def peek_def)
  then show ?thesis using c'(1) by blast
qed

text \<open>The line \<open>a <b|c &;d\<close>, printed from its tree.\<close>

theorem parsecmd_inverts_print_witness:
  "\<exists>c'. parsecmd (print_cmd 3 (LIST (BACK (PIPE (REDIR (EXEC [[97]]) [98] 0 0) (EXEC [[99]]))) (EXEC [[100]]))) = Some (Inr c') \<and>
     map_cmd token_text c' = LIST (BACK (PIPE (REDIR (EXEC [[97]]) [98] 0 0) (EXEC [[99]]))) (EXEC [[100]])"
  by (rule parsecmd_inverts_print) (simp add: word_ok_def ws_def symb_def)

text \<open>The line \<open>a b>c\<close>: the word \<open>b\<close> is terminated where the redirection stood.\<close>

lemma sample_line: "parsecmd [97, 32, 98, 62, 99] =
   Some (Inr (REDIR (EXEC [([97, 32, 98, 62, 99], [32, 98, 62, 99]), ([98, 62, 99], [62, 99])]) ([99], []) 0x201 1))"
  by code_simp

theorem nulterminate_words_witness:
  "\<exists>rest. drop (pos [97, 32, 98, 62, 99] [98, 62, 99])
      (nulterminate [97, 32, 98, 62, 99]
        (REDIR (EXEC [([97, 32, 98, 62, 99], [32, 98, 62, 99]), ([98, 62, 99], [62, 99])]) ([99], []) 0x201 1)
        ([97, 32, 98, 62, 99] @ [0])) = token_text ([98, 62, 99], [62, 99]) @ 0 # rest"
  using nulterminate_words[OF sample_line, of "([98, 62, 99], [62, 99])"] by simp

end
