(* ===== verification/Grep.thy ===== *)
theory Grep
  imports Xv6_Prelude
begin

text \<open>
  The program \<open>grep\<close> (\<open>grep.c\<close>): the pattern matcher and the loop over the input. A C string is
  the list of its bytes before the NUL. Results: the matcher decides the language of the pattern,
  given by a reference semantics; the loop prints the matching lines of a file whose lines
  fit the buffer, and loses a line that arrives in two reads.
\<close>

section \<open>The matcher\<close>

function matchhere :: "byte list \<Rightarrow> byte list \<Rightarrow> bool" and matchstar :: "byte \<Rightarrow> byte list \<Rightarrow> byte list \<Rightarrow> bool" where
  "matchhere re tx =
     (case re of
        [] \<Rightarrow> True
      | c # re1 \<Rightarrow>
          (case re1 of
             d # re2 \<Rightarrow> if d = 42 then matchstar c re2 tx else (case tx of [] \<Rightarrow> False | t # ts \<Rightarrow> (c = 46 \<or> c = t) \<and> matchhere re1 ts)
           | [] \<Rightarrow> if c = 36 then tx = [] else (case tx of [] \<Rightarrow> False | t # ts \<Rightarrow> (c = 46 \<or> c = t) \<and> matchhere re1 ts)))"
| "matchstar c re tx =
     (if matchhere re tx then True
      else case tx of [] \<Rightarrow> False | t # ts \<Rightarrow> (t = c \<or> c = 46) \<and> matchstar c re ts)"
  by pat_completeness auto
termination
  by (relation "measures [\<lambda>x. case x of Inl (re, tx) \<Rightarrow> length re | Inr (c, re, tx) \<Rightarrow> length re,
        \<lambda>x. case x of Inl (re, tx) \<Rightarrow> length tx | Inr (c, re, tx) \<Rightarrow> length tx,
        \<lambda>x. case x of Inl _ \<Rightarrow> 0 | Inr _ \<Rightarrow> 1]") auto

declare matchhere.simps [simp del] matchstar.simps [simp del]

fun match_from :: "byte list \<Rightarrow> byte list \<Rightarrow> bool" where
  "match_from re tx = (if matchhere re tx then True else case tx of [] \<Rightarrow> False | _ # ts \<Rightarrow> match_from re ts)"

definition match :: "byte list \<Rightarrow> byte list \<Rightarrow> bool" where
  "match re tx =
     (case re of
        c # re1 \<Rightarrow> if c = 94 then matchhere re1 tx else match_from re tx
      | [] \<Rightarrow> match_from re tx)"

section \<open>The input loop\<close>

text \<open>
  The inner loop on the bytes from \<open>p\<close> to the end of the data: the lines written, and what is
  left from the last \<open>p\<close> on. \<open>strchr\<close> does not look past a NUL.
\<close>

function grep_lines :: "byte list \<Rightarrow> byte list \<Rightarrow> byte list list \<times> byte list" where
  "grep_lines re p =
     (let s = takeWhile (\<lambda>b. b \<noteq> 0) p; line = takeWhile (\<lambda>b. b \<noteq> NL) s
      in if length line = length s then ([], p)
         else case grep_lines re (drop (Suc (length line)) p) of
                (out, rest) \<Rightarrow> (if match re line then (line @ [NL]) # out else out, rest))"
  by pat_completeness auto
termination
proof (relation "measure (\<lambda>(re, p). length p)", simp, goal_cases)
  case (1 re p s line)
  then have "p \<noteq> []" by auto
  then show ?case by simp
qed

declare grep_lines.simps [simp del]

text \<open>
  The outer loop. The input is the sequence of the pieces in which it arrives: a \<open>read\<close> of \<open>n\<close>
  bytes returns the first \<open>n\<close> bytes of the piece at hand, and an empty piece is the end. \<open>s\<close> holds
  the \<open>m\<close> bytes kept in the buffer.
\<close>

definition BUFSIZE :: nat where "BUFSIZE = 1024"

function grep :: "byte list \<Rightarrow> byte list \<Rightarrow> byte list list \<Rightarrow> byte list list" where
  "grep re s [] = []"
| "grep re s (c # cs) =
     (let n = take (BUFSIZE - length s - 1) c; c' = drop (BUFSIZE - length s - 1) c
      in if n = [] then []
         else case grep_lines re (s @ n) of
                (out, p) \<Rightarrow>
                  out @ grep re (if length p = length (s @ n) then [] else p) (if c' = [] then cs else c' # cs))"
  by pat_completeness auto
termination
  by (relation "measure (\<lambda>(re, s, cs). sum_list (map (\<lambda>c. Suc (length c)) cs))") auto

declare grep.simps(2) [simp del]

section \<open>What a pattern means\<close>

datatype atom = Any | Lit byte
datatype item = One atom | Star atom

fun accepts :: "atom \<Rightarrow> byte \<Rightarrow> bool" where
  "accepts Any b \<longleftrightarrow> True"
| "accepts (Lit c) b \<longleftrightarrow> b = c"

definition atom_of :: "byte \<Rightarrow> atom" where
  "atom_of c = (if c = 46 then Any else Lit c)"

text \<open>The items of a pattern, and whether it is anchored at the end.\<close>

fun items :: "byte list \<Rightarrow> item list \<times> bool" where
  "items [] = ([], False)"
| "items (c # re) =
     (case re of
        d # re2 \<Rightarrow>
          if d = 42 then (let (is, e) = items re2 in (Star (atom_of c) # is, e))
          else (let (is, e) = items re in (One (atom_of c) # is, e))
      | [] \<Rightarrow> if c = 36 then ([], True) else ([One (atom_of c)], False))"

inductive in_lang :: "item list \<Rightarrow> byte list \<Rightarrow> bool" where
  lang_nil: "in_lang [] []"
| lang_one: "accepts a b \<Longrightarrow> in_lang is w \<Longrightarrow> in_lang (One a # is) (b # w)"
| lang_star: "\<forall>b \<in> set u. accepts a b \<Longrightarrow> in_lang is w \<Longrightarrow> in_lang (Star a # is) (u @ w)"

inductive_cases in_lang_nilE: "in_lang [] w"
inductive_cases in_lang_oneE: "in_lang (One a # is) w"
inductive_cases in_lang_starE: "in_lang (Star a # is) w"

text \<open>A text starts with a word of the language, up to its end if the pattern says so.\<close>

definition anchored :: "bool \<Rightarrow> byte list \<Rightarrow> bool" where
  "anchored e v \<longleftrightarrow> (e \<longrightarrow> v = [])"

definition starts :: "item list \<times> bool \<Rightarrow> byte list \<Rightarrow> bool" where
  "starts p tx \<longleftrightarrow> (\<exists>w v. tx = w @ v \<and> in_lang (fst p) w \<and> (snd p \<longrightarrow> v = []))"

lemma starts_nil [simp]: "starts ([], e) tx \<longleftrightarrow> (e \<longrightarrow> tx = [])"
  by (auto simp: starts_def intro: lang_nil elim: in_lang_nilE)

lemma starts_one: "starts (One a # is, e) tx \<longleftrightarrow> (\<exists>t ts. tx = t # ts \<and> accepts a t \<and> starts (is, e) ts)"
proof
  assume "starts (One a # is, e) tx"
  then obtain x v where x: "tx = x @ v" "in_lang (One a # is) x" "e \<longrightarrow> v = []" unfolding starts_def by auto
  from x(2) obtain b w where "x = b # w" "accepts a b" "in_lang is w" by (rule in_lang_oneE)
  then show "\<exists>t ts. tx = t # ts \<and> accepts a t \<and> starts (is, e) ts" using x(1,3) by (auto simp: starts_def)
next
  assume "\<exists>t ts. tx = t # ts \<and> accepts a t \<and> starts (is, e) ts"
  then obtain t w v where "tx = (t # w) @ v" "accepts a t" "in_lang is w" "e \<longrightarrow> v = []" by (auto simp: starts_def)
  then show "starts (One a # is, e) tx" unfolding starts_def
    by (intro exI[of _ "t # w"] exI[of _ v]) (simp add: lang_one)
qed

lemma starts_star: "starts (Star a # is, e) tx \<longleftrightarrow> (\<exists>u v. tx = u @ v \<and> (\<forall>b \<in> set u. accepts a b) \<and> starts (is, e) v)"
proof
  assume "starts (Star a # is, e) tx"
  then obtain x v where x: "tx = x @ v" "in_lang (Star a # is) x" "e \<longrightarrow> v = []" unfolding starts_def by auto
  from x(2) obtain u w where "x = u @ w" "\<forall>b \<in> set u. accepts a b" "in_lang is w" by (rule in_lang_starE)
  then show "\<exists>u v. tx = u @ v \<and> (\<forall>b \<in> set u. accepts a b) \<and> starts (is, e) v" unfolding starts_def
    using x(1,3) by (intro exI[of _ u] exI[of _ "w @ v"]) auto
next
  assume "\<exists>u v. tx = u @ v \<and> (\<forall>b \<in> set u. accepts a b) \<and> starts (is, e) v"
  then obtain u w v where u: "tx = (u @ w) @ v" "\<forall>b \<in> set u. accepts a b" "in_lang is w" "e \<longrightarrow> v = []" by (auto simp: starts_def)
  show "starts (Star a # is, e) tx" unfolding starts_def
    by (rule exI[of _ "u @ w"], rule exI[of _ v]) (use u lang_star[OF u(2,3)] in simp)
qed

lemma starts_star_step:
  "starts (Star a # is, e) tx \<longleftrightarrow>
     starts (is, e) tx \<or> (\<exists>t ts. tx = t # ts \<and> accepts a t \<and> starts (Star a # is, e) ts)" (is "?L \<longleftrightarrow> ?R")
proof
  assume ?L
  then obtain u v where u: "tx = u @ v" "\<forall>b \<in> set u. accepts a b" "starts (is, e) v" by (auto simp: starts_star)
  then show ?R by (cases u) (auto simp: starts_star)
next
  assume ?R
  then show ?L
  proof
    assume "starts (is, e) tx"
    then show ?L unfolding starts_star by (intro exI[of _ "[]"] exI[of _ tx]) simp
  next
    assume "\<exists>t ts. tx = t # ts \<and> accepts a t \<and> starts (Star a # is, e) ts"
    then obtain t u v where "tx = (t # u) @ v" "\<forall>b \<in> set (t # u). accepts a b" "starts (is, e) v" by (auto simp: starts_star)
    then show ?L unfolding starts_star by blast
  qed
qed

lemma accepts_atom_of: "accepts (atom_of c) t \<longleftrightarrow> c = 46 \<or> c = t"
  by (auto simp: atom_of_def)

lemma matchhere_starts:
  "matchhere re tx \<longleftrightarrow> starts (items re) tx"
  "matchstar c re tx \<longleftrightarrow> starts (Star (atom_of c) # fst (items re), snd (items re)) tx"
proof (induction re tx and c re tx rule: matchhere_matchstar.induct)
  case (1 re tx)
  show ?case
  proof (cases re)
    case (Cons c re1)
    show ?thesis
    proof (cases re1)
      case Nil
      then show ?thesis using 1(1) Cons
        by (auto simp: matchhere.simps[of "[c]"] matchhere.simps[of "[]"] starts_one accepts_atom_of split: list.splits)
    next
      case re1: (Cons d re2)
      note h = matchhere.simps[of "c # d # re2" tx]
      show ?thesis
      proof (cases "d = 42")
        case True
        then have "items re = (Star (atom_of c) # fst (items re2), snd (items re2))" using Cons re1 by (simp add: case_prod_beta)
        then show ?thesis using 1(2)[OF Cons re1 True] Cons re1 True h by simp
      next
        case False
        then have i: "items re = (One (atom_of c) # fst (items re1), snd (items re1))" using Cons re1 by (simp add: case_prod_beta del: items.simps(2)[of d])
        show ?thesis
        proof (cases tx)
          case Nil
          then show ?thesis unfolding i using Cons re1 False h by (simp add: starts_one)
        next
          case tx: (Cons t ts)
          have "matchhere re1 ts \<longleftrightarrow> starts (items re1) ts" by (rule 1(3)[OF Cons re1 False tx])
          then show ?thesis unfolding i using Cons re1 False h tx by (simp add: starts_one accepts_atom_of)
        qed
      qed
    qed
  qed (simp add: matchhere.simps[of "[]"])
next
  case (2 c re tx)
  let ?star = "starts (Star (atom_of c) # fst (items re), snd (items re))"
  have "matchstar c re tx \<longleftrightarrow> starts (items re) tx \<or> (\<exists>t ts. tx = t # ts \<and> accepts (atom_of c) t \<and> ?star ts)"
    using 2 by (subst matchstar.simps) (auto simp: accepts_atom_of split: list.splits)
  also have "\<dots> \<longleftrightarrow> ?star tx" using starts_star_step[of "atom_of c" "fst (items re)" "snd (items re)" tx] by simp
  finally show ?case .
qed

lemma match_from_starts: "match_from re tx \<longleftrightarrow> (\<exists>u v. tx = u @ v \<and> starts (items re) v)"
proof (induction re tx rule: match_from.induct)
  case (1 re tx)
  have "(\<exists>u v. tx = u @ v \<and> starts (items re) v) \<longleftrightarrow>
    starts (items re) tx \<or> (\<exists>t ts. tx = t # ts \<and> (\<exists>u v. ts = u @ v \<and> starts (items re) v))"
  proof (intro iffI)
    assume "\<exists>u v. tx = u @ v \<and> starts (items re) v"
    then obtain u v where "tx = u @ v" "starts (items re) v" by blast
    then show "starts (items re) tx \<or> (\<exists>t ts. tx = t # ts \<and> (\<exists>u v. ts = u @ v \<and> starts (items re) v))" by (cases u) auto
  qed (metis append_Nil append_Cons)
  then show ?case using 1 by (auto simp: matchhere_starts split: list.splits)
qed

text \<open>
  C26: The matcher finds a pattern exactly when the text contains a word of its language, at the start
  of the text for a pattern that begins with \<open>^\<close> and at its end for one that ends with \<open>$\<close>.
\<close>

theorem match_correct:
  "match re tx \<longleftrightarrow>
     (\<exists>u w v. tx = u @ w @ v \<and>
        (if re \<noteq> [] \<and> hd re = 94
         then in_lang (fst (items (tl re))) w \<and> u = [] \<and> anchored (snd (items (tl re))) v
         else in_lang (fst (items re)) w \<and> anchored (snd (items re)) v))"
proof (cases "re \<noteq> [] \<and> hd re = 94")
  case True
  then obtain re1 where re: "re = 94 # re1" by (cases re) auto
  then show ?thesis by (auto simp: match_def matchhere_starts starts_def anchored_def)
next
  case False
  then have "match re tx \<longleftrightarrow> match_from re tx" by (cases re) (simp_all add: match_def del: match_from.simps)
  then have "match re tx \<longleftrightarrow> (\<exists>u v. tx = u @ v \<and> starts (items re) v)" by (simp only: match_from_starts)
  then show ?thesis unfolding if_not_P[OF False] starts_def anchored_def by blast
qed

section \<open>The loop prints the matching lines\<close>

abbreviation flat :: "byte list list \<Rightarrow> byte list" where
  "flat ls \<equiv> concat (map (\<lambda>l. l @ [NL]) ls)"

definition line_ok :: "byte list \<Rightarrow> bool" where
  "line_ok l \<longleftrightarrow> NL \<notin> set l \<and> 0 \<notin> set l \<and> length l < 1023"

lemma takeWhile_ne: "b \<notin> set xs \<Longrightarrow> takeWhile (\<lambda>x. x \<noteq> b) xs = xs"
  by (induction xs) auto

lemma grep_lines_none: "NL \<notin> set p \<Longrightarrow> 0 \<notin> set p \<Longrightarrow> grep_lines re p = ([], p)"
  by (subst grep_lines.simps) (simp add: takeWhile_ne Let_def)

lemma line_okD: "line_ok l \<Longrightarrow> NL \<notin> set l" "line_ok l \<Longrightarrow> 0 \<notin> set l" "line_ok l \<Longrightarrow> length l < 1023"
  by (simp_all add: line_ok_def)

lemma flat_no_NUL: "\<forall>l \<in> set ls. line_ok l \<Longrightarrow> 0 \<notin> set (flat ls)"
  by (induction ls) (auto simp: line_ok_def)

lemma takeWhile_line: "NL \<notin> set l \<Longrightarrow> takeWhile (\<lambda>b. b \<noteq> NL) (l @ NL # xs) = l"
  by (induction l) auto

lemma grep_lines_flat:
  "\<forall>l \<in> set ls. line_ok l \<Longrightarrow> NL \<notin> set rest \<Longrightarrow> 0 \<notin> set rest \<Longrightarrow>
     grep_lines re (flat ls @ rest) = (map (\<lambda>l. l @ [NL]) (filter (match re) ls), rest)"
proof (induction ls)
  case Nil
  then show ?case by (simp add: grep_lines_none)
next
  case (Cons l ls)
  have l: "line_ok l" "\<forall>l \<in> set ls. line_ok l" using Cons.prems(1) by simp_all
  have "0 \<notin> set (l @ NL # flat ls @ rest)" using line_okD(2)[OF l(1)] flat_no_NUL[OF l(2)] Cons.prems(3) by simp
  note s = takeWhile_ne[OF this]
  note ln = takeWhile_line[OF line_okD(1)[OF l(1)], of "flat ls @ rest"]
  have "grep_lines re (l @ NL # flat ls @ rest) =
      (case grep_lines re (flat ls @ rest) of (out, rest) \<Rightarrow> (if match re l then (l @ [NL]) # out else out, rest))"
    by (subst grep_lines.simps) (cases "match re l"; simp add: s ln Let_def)
  then show ?case using Cons.IH[OF l(2) Cons.prems(2,3)] by simp
qed

text \<open>A prefix of a text of whole lines is some whole lines and a start of the next one.\<close>

lemma flat_prefix:
  "q @ r = flat ls \<Longrightarrow> \<forall>l \<in> set ls. line_ok l \<Longrightarrow>
     \<exists>ls1 ls2 x. ls = ls1 @ ls2 \<and> q = flat ls1 @ x \<and> x @ r = flat ls2 \<and> NL \<notin> set x \<and> 0 \<notin> set x \<and> length x < BUFSIZE - 1"
proof (induction ls arbitrary: q)
  case Nil
  then show ?case by (simp add: BUFSIZE_def)
next
  case (Cons l ls)
  have lk: "line_ok l" using Cons.prems by simp
  have q: "q @ r = l @ NL # flat ls" using Cons.prems by simp
  then consider us where "l = q @ us" | us where "q = l @ us" "us @ r = NL # flat ls"
    by (auto simp: append_eq_append_conv2)
  then have "(\<exists>us. l = q @ us) \<or> (\<exists>q'. q = l @ NL # q' \<and> q' @ r = flat ls)"
  proof cases
    case (2 us)
    then show ?thesis by (cases us) auto
  qed blast
  then show ?case
  proof (elim disjE exE conjE)
    fix us assume "l = q @ us"
    then have "NL \<notin> set q \<and> 0 \<notin> set q \<and> length q < BUFSIZE - 1" using lk by (simp add: line_ok_def BUFSIZE_def)
    then show ?thesis using Cons.prems(1) by (intro exI[of _ "[]"] exI[of _ "l # ls"] exI[of _ q]) simp
  next
    fix q' assume q': "q = l @ NL # q'" "q' @ r = flat ls"
    have "\<forall>l \<in> set ls. line_ok l" using Cons.prems(2) by simp
    from Cons.IH[OF q'(2) this] obtain ls1 ls2 x where
      "ls = ls1 @ ls2" "q' = flat ls1 @ x" "x @ r = flat ls2" "NL \<notin> set x" "0 \<notin> set x" "length x < BUFSIZE - 1"
      by blast
    then show ?thesis using q'(1) by (intro exI[of _ "l # ls1"] exI[of _ ls2] exI[of _ x]) simp
  qed
qed

lemma flat_NL: "flat ls = x \<Longrightarrow> NL \<notin> set x \<Longrightarrow> ls = []"
  by (cases ls) auto

text \<open>One piece: \<open>s\<close> is the start of a line kept in the buffer.\<close>

lemma grep_piece:
  "s @ c = flat ls \<Longrightarrow> \<forall>l \<in> set ls. line_ok l \<Longrightarrow> NL \<notin> set s \<Longrightarrow> length s < BUFSIZE - 1 \<Longrightarrow> c \<noteq> [] \<Longrightarrow>
     grep re s (c # cs) = map (\<lambda>l. l @ [NL]) (filter (match re) ls) @ grep re [] cs"
proof (induction "length c" arbitrary: s c ls rule: less_induct)
  case less
  define k where "k = BUFSIZE - length s - 1"
  have k: "0 < k" using less.prems(4) by (simp add: k_def)
  have n: "take k c \<noteq> []" using k less.prems(5) by simp
  have "(s @ take k c) @ drop k c = flat ls" using less.prems(1) by simp
  from flat_prefix[OF this less.prems(2)] obtain ls1 ls2 x where x: "ls = ls1 @ ls2" "s @ take k c = flat ls1 @ x"
    "x @ drop k c = flat ls2" "NL \<notin> set x" "0 \<notin> set x" "length x < BUFSIZE - 1"
    by blast
  have gl: "grep_lines re (s @ take k c) = (map (\<lambda>l. l @ [NL]) (filter (match re) ls1), x)"
    unfolding x(2) by (rule grep_lines_flat) (use less.prems(2) x in auto)
  have ne: "ls1 \<noteq> []"
  proof
    assume e: "ls1 = []"
    then have "length (s @ take k c) < BUFSIZE - 1" using x(2,6) by simp
    then have "length c \<le> k" using less.prems(4) by (auto simp: k_def)
    then have "x = flat ls" using x(1,3) e by simp
    then have "ls = []" using flat_NL x(4) by blast
    then show False using less.prems(1,5) by simp
  qed
  then have len: "length x \<noteq> length (s @ take k c)" unfolding x(2) by (cases ls1) auto
  have step: "grep re s (c # cs) = map (\<lambda>l. l @ [NL]) (filter (match re) ls1) @ grep re x (if drop k c = [] then cs else drop k c # cs)"
    using n len unfolding grep.simps(2) k_def[symmetric] Let_def gl by simp
  show ?case
  proof (cases "drop k c = []")
    case True
    then have f: "flat ls2 = x" using x(3) by simp
    have l2: "ls2 = []" using flat_NL[OF f x(4)] .
    then have "x = []" using f by simp
    then show ?thesis using step True x(1) l2 by simp
  next
    case False
    have "length (drop k c) < length c" using k less.prems(5) by simp
    moreover have "\<forall>l \<in> set ls2. line_ok l" using less.prems(2) x(1) by simp
    ultimately have "grep re x (drop k c # cs) = map (\<lambda>l. l @ [NL]) (filter (match re) ls2) @ grep re [] cs"
      using less.hyps[OF _ x(3) _ x(4,6) False] by blast
    then show ?thesis using step False x(1) by simp
  qed
qed

text \<open>
  On an input of lines that fit the buffer, each of them arriving in one piece, \<open>grep\<close> writes
  exactly the lines that match, in order.
\<close>

theorem grep_correct:
  assumes "\<forall>ls \<in> set lss. ls \<noteq> [] \<and> (\<forall>l \<in> set ls. line_ok l)"
  shows "grep re [] (map flat lss) = map (\<lambda>l. l @ [NL]) (filter (match re) (concat lss))"
  using assms
proof (induction lss)
  case (Cons ls lss)
  have "flat ls \<noteq> []" using Cons.prems by (cases ls) auto
  then have "grep re [] (flat ls # map flat lss) = map (\<lambda>l. l @ [NL]) (filter (match re) ls) @ grep re [] (map flat lss)"
    by (intro grep_piece) (use Cons.prems in \<open>auto simp: BUFSIZE_def\<close>)
  then show ?case using Cons by simp
qed simp

text \<open>
  A line that arrives in two pieces is lost: when a read brings no line end, what the buffer
  holds is thrown away.
\<close>

theorem grep_drops_piece:
  assumes "a \<noteq> []" "NL \<notin> set a" "0 \<notin> set a" "length a < BUFSIZE"
  shows "grep re [] (a # cs) = grep re [] cs"
  using assms grep_lines_none[of a re] by (simp add: grep.simps(2) Let_def)

theorem grep_drops_piece_witness:
  "grep (bytes_of ''a'') [] [bytes_of ''ab'', bytes_of ''cd'' @ [NL]] = []"
proof -
  have p: "bytes_of ''ab'' = [97, 98]" by (simp add: bytes_of_def)
  have "grep (bytes_of ''a'') [] [bytes_of ''ab'', bytes_of ''cd'' @ [NL]] = grep (bytes_of ''a'') [] [bytes_of ''cd'' @ [NL]]"
    by (rule grep_drops_piece) (simp_all add: p BUFSIZE_def)
  also have "\<dots> = []" by code_simp
  finally show ?thesis .
qed

theorem grep_correct_witness:
  "grep (bytes_of ''b.*'') [] [flat [bytes_of ''abc'', bytes_of ''xyz''], flat [bytes_of ''b'']] =
     [bytes_of ''abc'' @ [NL], bytes_of ''b'' @ [NL]]"
proof -
  have "grep (bytes_of ''b.*'') [] (map flat [[bytes_of ''abc'', bytes_of ''xyz''], [bytes_of ''b'']]) =
    map (\<lambda>l. l @ [NL]) (filter (match (bytes_of ''b.*'')) (concat [[bytes_of ''abc'', bytes_of ''xyz''], [bytes_of ''b'']]))"
    by (rule grep_correct) (simp add: line_ok_def bytes_of_def)
  also have "\<dots> = [bytes_of ''abc'' @ [NL], bytes_of ''b'' @ [NL]]" by code_simp
  finally show ?thesis by simp
qed

end
