(* ===== verification/Disk_Format.thy ===== *)
theory Disk_Format
  imports Xv6_Prelude
begin

text \<open>
  Blocks of the disk as lists of 512 bytes and the little-endian numbers stored in them, the
  way the kernel reads them through casts of \<open>b->data\<close>. Reading back what was stored gives the
  stored value, and storing one field leaves fields at other offsets alone.
\<close>

type_synonym block = "byte list"

abbreviation BSIZE :: nat where "BSIZE \<equiv> 512"

definition zero_block :: block where
  "zero_block = replicate BSIZE 0"

definition get16 :: "byte list \<Rightarrow> nat \<Rightarrow> u16" where
  "get16 bs i = ucast (bs ! i) OR push_bit 8 (ucast (bs ! (i + 1)))"

definition put16 :: "byte list \<Rightarrow> nat \<Rightarrow> u16 \<Rightarrow> byte list" where
  "put16 bs i v = bs[i := ucast v, i + 1 := ucast (drop_bit 8 v)]"

definition get32 :: "byte list \<Rightarrow> nat \<Rightarrow> u32" where
  "get32 bs i = ucast (bs ! i) OR push_bit 8 (ucast (bs ! (i + 1))) OR
     push_bit 16 (ucast (bs ! (i + 2))) OR push_bit 24 (ucast (bs ! (i + 3)))"

definition put32 :: "byte list \<Rightarrow> nat \<Rightarrow> u32 \<Rightarrow> byte list" where
  "put32 bs i v = bs[i := ucast v, i + 1 := ucast (drop_bit 8 v),
     i + 2 := ucast (drop_bit 16 v), i + 3 := ucast (drop_bit 24 v)]"

text \<open>A C \<open>uint\<close> that is used as an index.\<close>

definition get_nat :: "byte list \<Rightarrow> nat \<Rightarrow> nat" where
  "get_nat bs i = unat (get32 bs i)"

definition put_nat :: "byte list \<Rightarrow> nat \<Rightarrow> nat \<Rightarrow> byte list" where
  "put_nat bs i v = put32 bs i (of_nat v)"

lemma length_put [simp]:
  "length (put16 bs i v) = length bs" "length (put32 bs i w) = length bs" "length (put_nat bs i n) = length bs"
  by (simp_all add: put16_def put32_def put_nat_def)

lemma length_zero_block [simp]: "length zero_block = BSIZE"
  by (simp add: zero_block_def)

lemma get16_put16 [simp]: "i + 1 < length bs \<Longrightarrow> get16 (put16 bs i v) i = v"
proof (rule bit_word_eqI)
  fix n assume "i + 1 < length bs" "n < LENGTH(16)"
  then show "bit (get16 (put16 bs i v) i) n = bit v n"
    by (cases "n < 8") (auto simp: get16_def put16_def bit_simps)
qed

lemma get32_put32 [simp]: "i + 3 < length bs \<Longrightarrow> get32 (put32 bs i v) i = v"
proof (rule bit_word_eqI)
  fix n assume "i + 3 < length bs" "n < LENGTH(32)"
  then show "bit (get32 (put32 bs i v) i) n = bit v n"
    by (cases "n < 8"; cases "n < 16"; cases "n < 24")
       (auto simp: get32_def put32_def bit_simps nth_list_update)
qed

lemma get32_put32_other [simp]: "j + 3 < i \<or> i + 3 < j \<Longrightarrow> get32 (put32 bs i v) j = get32 bs j"
  by (auto simp: get32_def put32_def nth_list_update)

lemma get16_put_other [simp]:
  "j + 1 < i \<or> i + 1 < j \<Longrightarrow> get16 (put16 bs i v) j = get16 bs j"
  "j + 1 < i \<or> i + 3 < j \<Longrightarrow> get16 (put32 bs i w) j = get16 bs j"
  "j + 1 < i \<or> i + 3 < j \<Longrightarrow> get16 (put_nat bs i n) j = get16 bs j"
  by (auto simp: get16_def put16_def put32_def put_nat_def nth_list_update)

lemma get_put16_other [simp]:
  "j + 3 < i \<or> i + 1 < j \<Longrightarrow> get32 (put16 bs i v) j = get32 bs j"
  "j + 3 < i \<or> i + 1 < j \<Longrightarrow> get_nat (put16 bs i v) j = get_nat bs j"
  by (auto simp: get32_def get_nat_def put16_def nth_list_update)

lemma get_put_nat [simp]: "i + 3 < length bs \<Longrightarrow> n < 2 ^ 32 \<Longrightarrow> get_nat (put_nat bs i n) i = n"
  by (simp add: get_nat_def put_nat_def unat_of_nat)

lemma get_put_nat_other [simp]: "j + 3 < i \<or> i + 3 < j \<Longrightarrow> get_nat (put_nat bs i n) j = get_nat bs j"
  by (simp add: get_nat_def put_nat_def)

lemma get_nat_less: "get_nat bs i < 2 ^ 32"
  unfolding get_nat_def by (rule unat_less_2p32)

end
