(* ===== verification/Bio.thy ===== *)
theory Bio
  imports Disk_Format
begin

text \<open>
  The buffer cache (\<open>bio.c\<close>) over the synchronous disk of \<open>memide.c\<close>. A buffer is named by its
  index in \<open>bcache.buf\<close>; the doubly linked list through \<open>prev\<close> and \<open>next\<close> is the list of indices
  from \<open>head.next\<close> on. The left injection means that the call does not return: it panics, or
  the caller sleeps on a buffer somebody else has to release. The history of disk writes is
  kept for statements about crashes. Results: the invariant of the cache, and the contract
  under which the cache is invisible to its users.
\<close>

section \<open>State\<close>

record buf =
  b_busy :: bool
  b_valid :: bool
  b_dirty :: bool
  b_dev :: nat
  b_blockno :: nat
  b_data :: block

record bcache =
  bufs :: "buf list"
  lru :: "nat list"
  memdisk :: "nat \<Rightarrow> block"
  disksize :: nat
  history :: "(nat \<times> block) list"

abbreviation NBUF :: nat where "NBUF \<equiv> 30"
abbreviation NODEV :: nat where "NODEV \<equiv> 0xFFFFFFFF"

definition blocked :: "'a kernel" where
  "blocked = Inl ''sleep''"

abbreviation upd_buf :: "nat \<Rightarrow> (buf \<Rightarrow> buf) \<Rightarrow> bcache \<Rightarrow> bcache" where
  "upd_buf i f st \<equiv> st\<lparr>bufs := (bufs st)[i := f (bufs st ! i)]\<rparr>"

section \<open>Operations\<close>

definition binit :: "(nat \<Rightarrow> block) \<Rightarrow> nat \<Rightarrow> bcache" where
  "binit img sz =
     \<lparr>bufs = replicate NBUF \<lparr>b_busy = False, b_valid = False, b_dirty = False, b_dev = NODEV,
        b_blockno = 0, b_data = zero_block\<rparr>,
      lru = fold (\<lambda>b l. b # l) [0..<NBUF] [], memdisk = img, disksize = sz, history = []\<rparr>"

definition iderw :: "nat \<Rightarrow> bcache \<Rightarrow> bcache kernel" where
  "iderw i st =
     (let b = bufs st ! i
      in if \<not> b_busy b then panic ''iderw: buf not busy''
         else if b_valid b \<and> \<not> b_dirty b then panic ''iderw: nothing to do''
         else if b_dev b \<noteq> 1 then panic ''iderw: request not for disk 1''
         else if disksize st \<le> b_blockno b then panic ''iderw: block out of range''
         else if b_dirty b then
           Inr (upd_buf i (\<lambda>b. b\<lparr>b_dirty := False, b_valid := True\<rparr>)
             (st\<lparr>memdisk := (memdisk st)(b_blockno b := b_data b),
                 history := history st @ [(b_blockno b, b_data b)]\<rparr>))
         else Inr (upd_buf i (\<lambda>b. b\<lparr>b_data := memdisk st (b_blockno b), b_valid := True\<rparr>) st))"

definition bget :: "nat \<Rightarrow> nat \<Rightarrow> bcache \<Rightarrow> (nat \<times> bcache) kernel" where
  "bget dev blockno st =
     (case List.find (\<lambda>i. b_dev (bufs st ! i) = dev \<and> b_blockno (bufs st ! i) = blockno) (lru st) of
        Some i \<Rightarrow>
          if b_busy (bufs st ! i) then blocked else Inr (i, upd_buf i (\<lambda>b. b\<lparr>b_busy := True\<rparr>) st)
      | None \<Rightarrow>
          (case List.find (\<lambda>i. \<not> b_busy (bufs st ! i) \<and> \<not> b_dirty (bufs st ! i)) (rev (lru st)) of
             Some i \<Rightarrow> Inr (i, upd_buf i (\<lambda>b. b\<lparr>b_dev := dev, b_blockno := blockno, b_busy := True,
                         b_valid := False, b_dirty := False\<rparr>) st)
           | None \<Rightarrow> panic ''bget: no buffers''))"

definition bread :: "nat \<Rightarrow> nat \<Rightarrow> bcache \<Rightarrow> (nat \<times> bcache) kernel" where
  "bread dev blockno st =
     kbind (bget dev blockno st)
       (\<lambda>(i, st1). if \<not> b_valid (bufs st1 ! i) then kbind (iderw i st1) (\<lambda>st2. Inr (i, st2)) else Inr (i, st1))"

definition bwrite :: "nat \<Rightarrow> bcache \<Rightarrow> bcache kernel" where
  "bwrite i st =
     (if \<not> b_busy (bufs st ! i) then panic ''bwrite'' else iderw i (upd_buf i (\<lambda>b. b\<lparr>b_dirty := True\<rparr>) st))"

definition brelse :: "nat \<Rightarrow> bcache \<Rightarrow> bcache kernel" where
  "brelse i st =
     (if \<not> b_busy (bufs st ! i) then panic ''brelse''
      else Inr (upd_buf i (\<lambda>b. b\<lparr>b_busy := False\<rparr>) (st\<lparr>lru := i # remove1 i (lru st)\<rparr>)))"

text \<open>The holder of a buffer changes its data.\<close>

definition set_data :: "nat \<Rightarrow> block \<Rightarrow> bcache \<Rightarrow> bcache" where
  "set_data i d st = upd_buf i (\<lambda>b. b\<lparr>b_data := d\<rparr>) st"

section \<open>Invariant and abstraction\<close>

text \<open>
  \<open>view\<close>: the contents of the disk's blocks as the users of the cache see them. \<open>held\<close> and
  \<open>pinned\<close>: the blocks whose buffer is busy, or dirty and so not to be recycled.
\<close>

definition slot_of :: "bcache \<Rightarrow> nat \<Rightarrow> nat \<Rightarrow> bool" where
  "slot_of st b i \<longleftrightarrow> i < NBUF \<and> b_dev (bufs st ! i) = 1 \<and> b_blockno (bufs st ! i) = b"

definition view :: "bcache \<Rightarrow> nat \<Rightarrow> block" where
  "view st b = (case List.find (\<lambda>i. slot_of st b i \<and> b_valid (bufs st ! i)) [0..<NBUF] of
     Some i \<Rightarrow> b_data (bufs st ! i) | None \<Rightarrow> memdisk st b)"

definition held :: "bcache \<Rightarrow> nat set" where
  "held st = {b. \<exists>i. slot_of st b i \<and> b_busy (bufs st ! i)}"

definition pinned :: "bcache \<Rightarrow> nat set" where
  "pinned st = {b. \<exists>i. slot_of st b i \<and> b_dirty (bufs st ! i)}"

definition buf_ok :: "(nat \<Rightarrow> block) \<Rightarrow> nat \<Rightarrow> buf \<Rightarrow> bool" where
  "buf_ok dsk sz b \<longleftrightarrow>
     (b_dev b = 1 \<and> b_valid b \<and> b_blockno b < sz \<or> b_dev b = NODEV \<and> \<not> b_valid b) \<and>
     (b_busy b \<or> b_dirty b \<longrightarrow> b_valid b) \<and>
     (b_valid b \<and> \<not> b_busy b \<and> \<not> b_dirty b \<longrightarrow> b_data b = dsk (b_blockno b))"

definition bc_ok :: "bcache \<Rightarrow> bool" where
  "bc_ok st \<longleftrightarrow>
     length (bufs st) = NBUF \<and> distinct (lru st) \<and> set (lru st) = {0..<NBUF} \<and>
     (\<forall>i < NBUF. buf_ok (memdisk st) (disksize st) (bufs st ! i)) \<and>
     (\<forall>b i j. slot_of st b i \<and> slot_of st b j \<longrightarrow> i = j)"

lemma bc_okD:
  assumes "bc_ok st"
  shows "length (bufs st) = NBUF" "distinct (lru st)" "set (lru st) = {0..<NBUF}"
    "i < NBUF \<Longrightarrow> buf_ok (memdisk st) (disksize st) (bufs st ! i)"
    "slot_of st b i \<Longrightarrow> slot_of st b j \<Longrightarrow> i = j"
  using assms unfolding bc_ok_def by blast+

lemma slot_ok: "bc_ok st \<Longrightarrow> slot_of st b i \<Longrightarrow> buf_ok (memdisk st) (disksize st) (bufs st ! i)"
  by (simp add: bc_okD(4) slot_of_def)

lemma slot_valid: "bc_ok st \<Longrightarrow> slot_of st b i \<Longrightarrow> b_valid (bufs st ! i)"
  using slot_ok[of st b i] by (simp add: slot_of_def buf_ok_def)

lemma slot_unique: "bc_ok st \<Longrightarrow> slot_of st b i \<Longrightarrow> slot_of st b j \<Longrightarrow> i = j"
  by (rule bc_okD(5))

lemma view_cached: assumes "bc_ok st" "slot_of st b i" shows "view st b = b_data (bufs st ! i)"
proof (cases "List.find (\<lambda>i. slot_of st b i \<and> b_valid (bufs st ! i)) [0..<NBUF]")
  case None
  then show ?thesis using assms slot_valid[OF assms] by (auto simp: find_None_iff slot_of_def)
next
  case (Some j)
  then have "slot_of st b j" by (auto simp: find_Some_iff)
  then show ?thesis using Some slot_unique[OF assms(1) assms(2)] by (simp add: view_def)
qed

lemma view_uncached: "(\<And>i. \<not> slot_of st b i) \<Longrightarrow> view st b = memdisk st b"
  by (simp add: view_def find_None_iff split: option.split) (auto simp: find_Some_iff)

text \<open>A block that is neither held nor pinned is seen as it is on the disk.\<close>

lemma view_disk: "bc_ok st \<Longrightarrow> b \<notin> held st \<Longrightarrow> b \<notin> pinned st \<Longrightarrow> view st b = memdisk st b"
proof (cases "\<exists>i. slot_of st b i")
  case True
  assume a: "bc_ok st" "b \<notin> held st" "b \<notin> pinned st"
  from True obtain i where i: "slot_of st b i" by blast
  then have "b_data (bufs st ! i) = memdisk st b"
    using a slot_valid[OF a(1) i] slot_ok[OF a(1) i] by (auto simp: slot_of_def buf_ok_def held_def pinned_def)
  then show ?thesis using view_cached[OF a(1) i] by simp
qed (simp add: view_uncached)

section \<open>The contract of the operations\<close>

text \<open>Replacing the buffer \<open>i\<close> by one that holds block \<open>b\<close>.\<close>

lemma slot_of_install:
  assumes "length (bufs st) = NBUF" "i < NBUF" "b_dev nb = 1" "b_blockno nb = b"
  shows "slot_of (st\<lparr>bufs := (bufs st)[i := nb]\<rparr>) c j \<longleftrightarrow> (if j = i then c = b else slot_of st c j)"
  using assms by (auto simp: slot_of_def nth_list_update)

text \<open>
  What \<open>bread\<close> promises: the buffer \<open>i\<close> is locked and has the contents of block \<open>b\<close>; nothing the
  other users of the cache can see has changed.
\<close>

definition reads :: "bcache \<Rightarrow> nat \<Rightarrow> nat \<Rightarrow> bcache \<Rightarrow> bool" where
  "reads st b i st' \<longleftrightarrow>
     bc_ok st' \<and> slot_of st' b i \<and> b_busy (bufs st' ! i) \<and> b_data (bufs st' ! i) = view st b \<and>
     view st' = view st \<and> held st' = insert b (held st) \<and> pinned st' = pinned st \<and>
     memdisk st' = memdisk st \<and> disksize st' = disksize st \<and> history st' = history st \<and>
     (\<forall>j c. slot_of st c j \<and> b_busy (bufs st ! j) \<longrightarrow> j \<noteq> i \<and> slot_of st' c j \<and> bufs st' ! j = bufs st ! j)"

lemma install_reads:
  assumes ok: "bc_ok st" and i: "i < NBUF" "\<not> b_busy (bufs st ! i)" and sz: "b < disksize st"
    and nb: "b_dev nb = 1" "b_blockno nb = b" "b_busy nb" "b_valid nb" "b_data nb = view st b"
    and cl: "slot_of st b i \<and> b_dirty nb = b_dirty (bufs st ! i) \<or>
             (\<forall>j. \<not> slot_of st b j) \<and> \<not> b_dirty nb \<and> \<not> b_dirty (bufs st ! i)"
  shows "reads st b i (st\<lparr>bufs := (bufs st)[i := nb]\<rparr>)"
proof -
  define st' where "st' = st\<lparr>bufs := (bufs st)[i := nb]\<rparr>"
  have len: "length (bufs st) = NBUF" using ok by (rule bc_okD)
  have slot: "slot_of st' c j \<longleftrightarrow> (if j = i then c = b else slot_of st c j)" for c j
    unfolding st'_def using slot_of_install[OF len i(1) nb(1,2)] .
  have at: "bufs st' ! j = (if j = i then nb else bufs st ! j)" if "j < NBUF" for j
    using that len by (simp add: st'_def)
  have own: "j = i" if "slot_of st b j" for j using cl that bc_okD(5)[OF ok that] by blast
  have evict: "b_data (bufs st ! i) = memdisk st c \<and> \<not> b_dirty (bufs st ! i)" if "c \<noteq> b" "slot_of st c i" for c
    using that cl i slot_ok[OF ok that(2)] slot_valid[OF ok that(2)] by (auto simp: slot_of_def buf_ok_def)
  have uniq: "j = k" if "slot_of st' c j" "slot_of st' c k" for c j k
    using that slot own bc_okD(5)[OF ok] by (metis (full_types))
  have bok: "buf_ok (memdisk st') (disksize st') (bufs st' ! j)" if "j < NBUF" for j
    using that at[OF that] bc_okD(4)[OF ok that] nb sz by (auto simp: buf_ok_def st'_def)
  have ok': "bc_ok st'"
    unfolding bc_ok_def using len bc_okD(2,3)[OF ok] bok uniq by (auto simp: st'_def)
  have v: "view st' c = view st c" for c
  proof (cases "c = b")
    case True
    have "slot_of st' b i" by (simp add: slot)
    then show ?thesis using True view_cached[OF ok'] at[OF i(1)] nb by simp
  next
    case False
    show ?thesis
    proof (cases "\<exists>j. slot_of st' c j")
      case True
      then obtain j where j: "slot_of st' c j" "j \<noteq> i" "slot_of st c j" using slot False by metis
      then show ?thesis using view_cached[OF ok' j(1)] view_cached[OF ok j(3)] at[of j] by (simp add: slot_of_def)
    next
      case no: False
      then have "view st' c = memdisk st c" by (simp add: view_uncached st'_def)
      moreover have "view st c = memdisk st c"
      proof (cases "slot_of st c i")
        case True then show ?thesis using view_cached[OF ok True] evict[OF False True] by simp
      next
        case False
        then have "\<not> slot_of st c j" for j using no slot[of c j] by (cases "j = i") auto
        then show ?thesis by (rule view_uncached)
      qed
      ultimately show ?thesis by simp
    qed
  qed
  have val: "(\<exists>j. slot_of st' c j \<and> P (bufs st' ! j)) \<longleftrightarrow>
      (if c = b then P nb else \<exists>j. j \<noteq> i \<and> slot_of st c j \<and> P (bufs st ! j))" for c P
  proof (cases "c = b")
    case True
    have "slot_of st' b j \<longleftrightarrow> j = i" for j using slot[of b j] own[of j] by auto
    then show ?thesis using True at[OF i(1)] by simp
  next
    case False
    have "slot_of st' c j \<and> P (bufs st' ! j) \<longleftrightarrow> j \<noteq> i \<and> slot_of st c j \<and> P (bufs st ! j)" for j
    proof (cases "j = i")
      case True then show ?thesis using slot[of c j] \<open>c \<noteq> b\<close> by simp
    next
      case False
      then have "slot_of st' c j \<longleftrightarrow> slot_of st c j" using slot[of c j] by simp
      moreover have "slot_of st c j \<Longrightarrow> bufs st' ! j = bufs st ! j" using at[of j] False by (simp add: slot_of_def)
      ultimately show ?thesis using False by auto
    qed
    then show ?thesis using False by simp
  qed
  have h: "held st' = insert b (held st)"
    unfolding held_def val using i(2) nb(3) by auto
  have pb: "b \<in> pinned st \<longleftrightarrow> b_dirty nb" using cl own by (auto simp: pinned_def)
  have "c \<in> pinned st' \<longleftrightarrow> c \<in> pinned st" for c
  proof (cases "c = b")
    case True then show ?thesis using val[of c b_dirty] pb by (simp add: pinned_def)
  next
    case False
    then have "(\<exists>j. j \<noteq> i \<and> slot_of st c j \<and> b_dirty (bufs st ! j)) \<longleftrightarrow> (\<exists>j. slot_of st c j \<and> b_dirty (bufs st ! j))"
      using evict[of c] by metis
    then show ?thesis using val[of c b_dirty] False by (simp add: pinned_def)
  qed
  then have pn: "pinned st' = pinned st" by blast
  show ?thesis unfolding reads_def st'_def[symmetric]
    using ok' slot at i nb v h pn by (auto simp: st'_def slot_of_def)
qed


text \<open>With fewer than 30 blocks held or pinned there is a buffer to recycle.\<close>

lemma free_buffer:
  assumes ok: "bc_ok st" and cap: "card (held st \<union> pinned st) < NBUF"
  shows "\<exists>i < NBUF. \<not> b_busy (bufs st ! i) \<and> \<not> b_dirty (bufs st ! i)"
proof (rule ccontr)
  assume no: "\<not> (\<exists>i < NBUF. \<not> b_busy (bufs st ! i) \<and> \<not> b_dirty (bufs st ! i))"
  let ?f = "\<lambda>i. b_blockno (bufs st ! i)"
  have slot: "slot_of st (?f i) i" if "i < NBUF" for i
    using that no bc_okD(4)[OF ok that] by (auto simp: slot_of_def buf_ok_def)
  have "inj_on ?f {0..<NBUF}"
    using slot bc_okD(5)[OF ok] unfolding inj_on_def by (metis atLeastLessThan_iff)
  then have "card (?f ` {0..<NBUF}) = NBUF" by (simp add: card_image)
  moreover have "?f ` {0..<NBUF} \<subseteq> held st \<union> pinned st"
  proof
    fix c assume "c \<in> ?f ` {0..<NBUF}"
    then obtain i where i: "i < NBUF" "c = ?f i" by auto
    with slot[OF i(1)] no show "c \<in> held st \<union> pinned st" unfolding held_def pinned_def by blast
  qed
  moreover have "finite (held st \<union> pinned st)"
  proof (rule finite_subset)
    show "held st \<union> pinned st \<subseteq> ?f ` {0..<NBUF}"
    proof
      fix c assume "c \<in> held st \<union> pinned st"
      then obtain i where "slot_of st c i" unfolding held_def pinned_def by blast
      then show "c \<in> ?f ` {0..<NBUF}" by (intro image_eqI[of _ _ i]) (simp_all add: slot_of_def)
    qed
  qed simp
  ultimately have "NBUF \<le> card (held st \<union> pinned st)" using card_mono by metis
  with cap show False by simp
qed

lemma bread_ok:
  assumes ok: "bc_ok st" and sz: "b < disksize st" and nh: "b \<notin> held st"
    and cap: "b \<in> pinned st \<or> card (held st \<union> pinned st) < NBUF"
  shows "\<exists>i st'. bread 1 b st = Inr (i, st') \<and> reads st b i st'"
proof -
  let ?hit = "\<lambda>i. b_dev (bufs st ! i) = 1 \<and> b_blockno (bufs st ! i) = b"
  let ?clean = "\<lambda>i. \<not> b_busy (bufs st ! i) \<and> \<not> b_dirty (bufs st ! i)"
  have lru: "set (lru st) = {0..<NBUF}" and len: "length (bufs st) = NBUF" using bc_okD[OF ok] by auto
  show ?thesis
  proof (cases "List.find ?hit (lru st)")
    case (Some i)
    then have "i \<in> set (lru st)" "?hit i" by (auto simp: find_Some_iff)
    then have i: "i < NBUF" "slot_of st b i" using lru by (auto simp: slot_of_def)
    have nb: "\<not> b_busy (bufs st ! i)" using nh i by (auto simp: held_def)
    have "bread 1 b st = Inr (i, upd_buf i (\<lambda>b. b\<lparr>b_busy := True\<rparr>) st)"
      using Some nb slot_valid[OF ok i(2)] i(1) len by (simp add: bread_def bget_def)
    moreover have "reads st b i (upd_buf i (\<lambda>b. b\<lparr>b_busy := True\<rparr>) st)"
      using i nb slot_valid[OF ok i(2)] view_cached[OF ok i(2)]
      by (intro install_reads[OF ok i(1) nb sz]) (auto simp: slot_of_def)
    ultimately show ?thesis by blast
  next
    case None
    then have none: "\<forall>j. \<not> slot_of st b j" using lru by (auto simp: find_None_iff slot_of_def)
    then have "b \<notin> pinned st" by (auto simp: pinned_def)
    with cap free_buffer[OF ok] obtain k where "k < NBUF" "?clean k" by auto
    then obtain i where f: "List.find ?clean (rev (lru st)) = Some i"
      using lru by (cases "List.find ?clean (rev (lru st))") (auto simp: find_None_iff)
    then have "i \<in> set (rev (lru st))" "?clean i" unfolding find_Some_iff by (metis nth_mem, metis)
    then have i: "i < NBUF" "?clean i" using lru by auto
    define nb where "nb = (bufs st ! i)\<lparr>b_dev := 1, b_blockno := b, b_busy := True,
        b_dirty := False, b_data := memdisk st b, b_valid := True\<rparr>"
    have "bread 1 b st = Inr (i, st\<lparr>bufs := (bufs st)[i := nb]\<rparr>)"
      using None f i(1) len sz by (simp add: bread_def bget_def iderw_def nb_def)
    moreover have "reads st b i (st\<lparr>bufs := (bufs st)[i := nb]\<rparr>)"
      using i none view_uncached[of st b] by (intro install_reads[OF ok i(1) _ sz]) (auto simp: nb_def)
    ultimately show ?thesis by blast
  qed
qed

text \<open>Changing the data, flags or place of a buffer that keeps its block.\<close>

lemma same_slot_frame:
  assumes len: "length (bufs st) = NBUF" and i: "slot_of st b i"
    and nb: "b_dev nb = 1" "b_blockno nb = b" and st': "bufs st' = (bufs st)[i := nb]"
  shows "slot_of st' c j \<longleftrightarrow> slot_of st c j" "j < NBUF \<Longrightarrow> bufs st' ! j = (if j = i then nb else bufs st ! j)"
  using assms by (auto simp: slot_of_def nth_list_update)

text \<open>What the other operations promise, on a buffer the caller holds.\<close>

definition holds :: "bcache \<Rightarrow> nat \<Rightarrow> nat \<Rightarrow> bool" where
  "holds st b i \<longleftrightarrow> slot_of st b i \<and> b_busy (bufs st ! i)"

lemma reads_holds: "reads st b i st' \<Longrightarrow> holds st' b i"
  by (simp add: reads_def holds_def)

lemma update_held:
  assumes ok: "bc_ok st" and i: "holds st b i" and st': "bufs st' = (bufs st)[i := nb]"
    and nb: "b_dev nb = 1" "b_blockno nb = b" "b_valid nb"
    and l: "distinct (lru st')" "set (lru st') = {0..<NBUF}" "disksize st' = disksize st"
    and d: "\<And>c. c \<noteq> b \<Longrightarrow> memdisk st' c = memdisk st c"
    and cl: "\<not> b_busy nb \<Longrightarrow> \<not> b_dirty nb \<Longrightarrow> b_data nb = memdisk st' b"
  shows "bc_ok st'" "view st' = (view st)(b := b_data nb)"
    "held st' = (if b_busy nb then held st else held st - {b})"
    "pinned st' = (if b_dirty nb then insert b (pinned st) else pinned st - {b})"
proof -
  have s: "slot_of st b i" and len: "length (bufs st) = NBUF" using i bc_okD(1)[OF ok] by (auto simp: holds_def)
  note fr = same_slot_frame[OF len s nb(1,2) st']
  have ib: "i < NBUF" "b < disksize st" using s slot_ok[OF ok s] slot_valid[OF ok s]
    by (auto simp: slot_of_def buf_ok_def)
  have own: "slot_of st c i \<longleftrightarrow> c = b" for c using s by (auto simp: slot_of_def)
  have uniq: "slot_of st b j \<longleftrightarrow> j = i" for j using s bc_okD(5)[OF ok s] by blast
  have bok: "buf_ok (memdisk st') (disksize st') (bufs st' ! j)" if "j < NBUF" for j
  proof (cases "j = i")
    case True then show ?thesis using fr(2)[OF that] nb cl ib l(3) by (auto simp: buf_ok_def)
  next
    case False
    then have "\<not> slot_of st b j" using uniq by simp
    then show ?thesis using False fr(2)[OF that] bc_okD(4)[OF ok that] d l(3) that
      by (cases "b_blockno (bufs st ! j) = b") (auto simp: buf_ok_def slot_of_def)
  qed
  have un: "j = k" if "slot_of st' c j" "slot_of st' c k" for c j k
    using that bc_okD(5)[OF ok] unfolding fr(1) by blast
  show ok': "bc_ok st'" unfolding bc_ok_def using len st' l bok un by auto
  show "view st' = (view st)(b := b_data nb)"
  proof
    fix c
    show "view st' c = ((view st)(b := b_data nb)) c"
    proof (cases "\<exists>j. slot_of st c j")
      case True
      then obtain j where j: "slot_of st c j" by blast
      then have "j < NBUF" "j = i \<longleftrightarrow> c = b" using own uniq by (auto simp: slot_of_def)
      then show ?thesis using j fr(2) view_cached[OF ok j] view_cached[OF ok', of c j] fr(1) by auto
    next
      case False
      then have "c \<noteq> b" using s by blast
      then show ?thesis using False fr(1) d by (simp add: view_uncached)
    qed
  qed
  have val: "(\<exists>j. slot_of st' c j \<and> P (bufs st' ! j)) \<longleftrightarrow>
      (if c = b then P nb else \<exists>j. slot_of st c j \<and> P (bufs st ! j))" for c P
    using fr own uniq s ib by (auto simp: slot_of_def) metis+
  show "held st' = (if b_busy nb then held st else held st - {b})"
    using i unfolding held_def val by (auto simp: holds_def)
  show "pinned st' = (if b_dirty nb then insert b (pinned st) else pinned st - {b})"
    unfolding pinned_def val by auto
qed


lemma pinned_slot:
  assumes "bc_ok st" "slot_of st b i" shows "b \<in> pinned st \<longleftrightarrow> b_dirty (bufs st ! i)"
proof
  assume "b \<in> pinned st"
  then obtain j where "slot_of st b j" "b_dirty (bufs st ! j)" by (auto simp: pinned_def)
  then show "b_dirty (bufs st ! i)" using slot_unique[OF assms, of j] by simp
qed (use assms in \<open>auto simp: pinned_def\<close>)

lemma finite_pins: "finite (held st \<union> pinned st)"
proof (rule finite_subset)
  let ?f = "\<lambda>i. b_blockno (bufs st ! i)"
  show "held st \<union> pinned st \<subseteq> ?f ` {0..<NBUF}"
  proof
    fix c assume "c \<in> held st \<union> pinned st"
    then obtain i where "slot_of st c i" unfolding held_def pinned_def by blast
    then show "c \<in> ?f ` {0..<NBUF}" by (intro image_eqI[of _ _ i]) (simp_all add: slot_of_def)
  qed
qed simp

lemma held_size: "bc_ok st \<Longrightarrow> holds st b i \<Longrightarrow> b < disksize st"
  using slot_ok[of st b i] slot_valid[of st b i] by (auto simp: holds_def slot_of_def buf_ok_def)

definition frame :: "bcache \<Rightarrow> nat \<Rightarrow> bcache \<Rightarrow> bool" where
  "frame st i st' \<longleftrightarrow> disksize st' = disksize st \<and>
     (\<forall>c j. holds st c j \<and> j \<noteq> i \<longrightarrow> holds st' c j \<and> b_data (bufs st' ! j) = b_data (bufs st ! j))"

lemma frame_upd:
  assumes "length (bufs st) = NBUF" "holds st b i" "b_dev nb = 1" "b_blockno nb = b"
    "bufs st' = (bufs st)[i := nb]" "disksize st' = disksize st"
  shows "frame st i st'"
  using assms by (auto simp: frame_def holds_def slot_of_def nth_list_update)

lemma reads_frame: "reads st b i st' \<Longrightarrow> frame st i st'"
  by (auto simp: reads_def frame_def holds_def)

lemma bwrite_ok:
  assumes ok: "bc_ok st" and h: "holds st b i"
  shows "\<exists>st'. bwrite i st = Inr st' \<and> bc_ok st' \<and> holds st' b i \<and> view st' = view st \<and>
     held st' = held st \<and> pinned st' = pinned st - {b} \<and> memdisk st' = (memdisk st)(b := view st b) \<and>
     history st' = history st @ [(b, view st b)] \<and> frame st i st'"
proof -
  have s: "slot_of st b i" "b_busy (bufs st ! i)" using h by (auto simp: holds_def)
  have v: "view st b = b_data (bufs st ! i)" using view_cached[OF ok s(1)] .
  have len: "length (bufs st) = NBUF" "i < NBUF" using bc_okD(1)[OF ok] s(1) by (auto simp: slot_of_def)
  define nb where "nb = (bufs st ! i)\<lparr>b_dirty := False, b_valid := True\<rparr>"
  define st' where "st' = st\<lparr>bufs := (bufs st)[i := nb], memdisk := (memdisk st)(b := view st b),
     history := history st @ [(b, view st b)]\<rparr>"
  have run: "bwrite i st = Inr st'"
    using s len v held_size[OF ok h] by (simp add: bwrite_def iderw_def Let_def slot_of_def st'_def nb_def)
  have nb: "b_dev nb = 1" "b_blockno nb = b" "b_valid nb" "b_busy nb" "\<not> b_dirty nb" "b_data nb = view st b"
    using s v by (auto simp: nb_def slot_of_def)
  have b: "bufs st' = (bufs st)[i := nb]" "disksize st' = disksize st" "lru st' = lru st" by (simp_all add: st'_def)
  have "\<And>c. c \<noteq> b \<Longrightarrow> memdisk st' c = memdisk st c" by (simp add: st'_def)
  note u = update_held[OF ok h b(1) nb(1-3) _ _ b(2) this]
  have l: "distinct (lru st')" "set (lru st') = {0..<NBUF}" using bc_okD(2,3)[OF ok] b(3) by auto
  have "holds st' b i" using same_slot_frame[OF len(1) s(1) nb(1,2) b(1)] s len nb by (simp add: holds_def)
  then show ?thesis
    using run u[OF l] nb frame_upd[OF len(1) h nb(1,2) b(1,2)] by (simp add: st'_def)
qed

lemma brelse_ok:
  assumes ok: "bc_ok st" and h: "holds st b i" and c: "b \<in> pinned st \<or> view st b = memdisk st b"
  shows "\<exists>st'. brelse i st = Inr st' \<and> bc_ok st' \<and> view st' = view st \<and>
     held st' = held st - {b} \<and> pinned st' = pinned st \<and> memdisk st' = memdisk st \<and>
     history st' = history st \<and> frame st i st'"
proof -
  have s: "slot_of st b i" "b_busy (bufs st ! i)" using h by (auto simp: holds_def)
  have v: "view st b = b_data (bufs st ! i)" using view_cached[OF ok s(1)] .
  have len: "length (bufs st) = NBUF" "i < NBUF" using bc_okD(1)[OF ok] s(1) by (auto simp: slot_of_def)
  define nb where "nb = (bufs st ! i)\<lparr>b_busy := False\<rparr>"
  define st' where "st' = st\<lparr>lru := i # remove1 i (lru st), bufs := (bufs st)[i := nb]\<rparr>"
  have run: "brelse i st = Inr st'" using s by (simp add: brelse_def st'_def nb_def)
  have nb: "b_dev nb = 1" "b_blockno nb = b" "b_valid nb" "\<not> b_busy nb" "b_data nb = view st b"
    using s v slot_valid[OF ok s(1)] by (auto simp: nb_def slot_of_def)
  have pin: "b \<in> pinned st \<longleftrightarrow> b_dirty nb"
    using pinned_slot[OF ok s(1)] by (simp add: nb_def)
  have b: "bufs st' = (bufs st)[i := nb]" "disksize st' = disksize st" by (simp_all add: st'_def)
  have l: "distinct (lru st')" "set (lru st') = {0..<NBUF}"
    using bc_okD(2,3)[OF ok] len(2) by (simp_all add: st'_def set_remove1_eq distinct_remove1 insert_absorb)
  have d: "\<And>c. c \<noteq> b \<Longrightarrow> memdisk st' c = memdisk st c" by (simp add: st'_def)
  have cl: "\<not> b_busy nb \<Longrightarrow> \<not> b_dirty nb \<Longrightarrow> b_data nb = memdisk st' b"
    using c pin nb by (simp add: st'_def)
  note u = update_held[OF ok h b(1) nb(1-3) l b(2) d cl]
  have "pinned st' = pinned st" using u(4) pin by (auto split: if_splits)
  then show ?thesis
    using run u nb frame_upd[OF len(1) h nb(1,2) b(1,2)] by (simp add: st'_def)
qed

lemma set_data_ok:
  assumes ok: "bc_ok st" and h: "holds st b i"
  shows "bc_ok (set_data i d st) \<and> view (set_data i d st) = (view st)(b := d) \<and>
    held (set_data i d st) = held st \<and> pinned (set_data i d st) = pinned st \<and>
    memdisk (set_data i d st) = memdisk st \<and> history (set_data i d st) = history st \<and>
    holds (set_data i d st) b i \<and> frame st i (set_data i d st)"
proof -
  have s: "slot_of st b i" "b_busy (bufs st ! i)" using h by (auto simp: holds_def)
  have len: "length (bufs st) = NBUF" "i < NBUF" using bc_okD(1)[OF ok] s(1) by (auto simp: slot_of_def)
  define nb where "nb = (bufs st ! i)\<lparr>b_data := d\<rparr>"
  have nb: "b_dev nb = 1" "b_blockno nb = b" "b_valid nb" "b_busy nb" "b_data nb = d"
    using s slot_valid[OF ok s(1)] by (auto simp: nb_def slot_of_def)
  have pin: "b \<in> pinned st \<longleftrightarrow> b_dirty nb"
    using pinned_slot[OF ok s(1)] by (simp add: nb_def)
  have b: "bufs (set_data i d st) = (bufs st)[i := nb]" by (simp add: set_data_def nb_def)
  have l: "distinct (lru (set_data i d st))" "set (lru (set_data i d st)) = {0..<NBUF}"
    using bc_okD(2,3)[OF ok] by (simp_all add: set_data_def)
  have cl: "\<not> b_busy nb \<Longrightarrow> \<not> b_dirty nb \<Longrightarrow> b_data nb = memdisk (set_data i d st) b" using nb by simp
  have u: "bc_ok (set_data i d st)" "view (set_data i d st) = (view st)(b := b_data nb)"
    "held (set_data i d st) = (if b_busy nb then held st else held st - {b})"
    "pinned (set_data i d st) = (if b_dirty nb then insert b (pinned st) else pinned st - {b})"
    using update_held[OF ok h b nb(1-3) l _ _ cl] by (simp_all add: set_data_def)
  have "pinned (set_data i d st) = pinned st" using u(4) pin by (auto split: if_splits)
  moreover have "holds (set_data i d st) b i"
    using same_slot_frame[OF len(1) s(1) nb(1,2) b] s len nb by (simp add: holds_def)
  moreover have "frame st i (set_data i d st)"
    using frame_upd[OF len(1) h nb(1,2) b] by (simp add: set_data_def)
  ultimately show ?thesis using u(1-3) nb by (simp add: set_data_def)
qed

text \<open>\<open>b->flags |= B_DIRTY\<close> in \<open>log_write\<close>.\<close>

definition mark_dirty :: "nat \<Rightarrow> bcache \<Rightarrow> bcache" where
  "mark_dirty i st = upd_buf i (\<lambda>b. b\<lparr>b_dirty := True\<rparr>) st"

lemma mark_dirty_ok:
  assumes ok: "bc_ok st" and h: "holds st b i"
  shows "bc_ok (mark_dirty i st) \<and> view (mark_dirty i st) = view st \<and>
    held (mark_dirty i st) = held st \<and> pinned (mark_dirty i st) = insert b (pinned st) \<and>
    memdisk (mark_dirty i st) = memdisk st \<and> history (mark_dirty i st) = history st \<and>
    holds (mark_dirty i st) b i \<and> frame st i (mark_dirty i st)"
proof -
  have s: "slot_of st b i" "b_busy (bufs st ! i)" using h by (auto simp: holds_def)
  have v: "view st b = b_data (bufs st ! i)" using view_cached[OF ok s(1)] .
  have len: "length (bufs st) = NBUF" "i < NBUF" using bc_okD(1)[OF ok] s(1) by (auto simp: slot_of_def)
  define nb where "nb = (bufs st ! i)\<lparr>b_dirty := True\<rparr>"
  have nb: "b_dev nb = 1" "b_blockno nb = b" "b_valid nb" "b_busy nb" "b_data nb = view st b" "b_dirty nb"
    using s v slot_valid[OF ok s(1)] by (auto simp: nb_def slot_of_def)
  have b: "bufs (mark_dirty i st) = (bufs st)[i := nb]" by (simp add: mark_dirty_def nb_def)
  have l: "distinct (lru (mark_dirty i st))" "set (lru (mark_dirty i st)) = {0..<NBUF}"
    using bc_okD(2,3)[OF ok] by (simp_all add: mark_dirty_def)
  have cl: "\<not> b_busy nb \<Longrightarrow> \<not> b_dirty nb \<Longrightarrow> b_data nb = memdisk (mark_dirty i st) b" using nb by simp
  have u: "bc_ok (mark_dirty i st)" "view (mark_dirty i st) = (view st)(b := b_data nb)"
    "held (mark_dirty i st) = (if b_busy nb then held st else held st - {b})"
    "pinned (mark_dirty i st) = (if b_dirty nb then insert b (pinned st) else pinned st - {b})"
    using update_held[OF ok h b nb(1-3) l _ _ cl] by (simp_all add: mark_dirty_def)
  moreover have "holds (mark_dirty i st) b i"
    using same_slot_frame[OF len(1) s(1) nb(1,2) b] s len nb by (simp add: holds_def)
  moreover have "frame st i (mark_dirty i st)"
    using frame_upd[OF len(1) h nb(1,2) b] by (simp add: mark_dirty_def)
  ultimately show ?thesis using nb by (simp add: mark_dirty_def)
qed


section \<open>The interface of the cache\<close>

text \<open>
  What a client of the cache relies on. The state is abstract; \<open>vw\<close> and \<open>dk\<close> are the contents
  of the blocks as seen by clients and on the disk, \<open>hd\<close> and \<open>pn\<close> the locked and the pinned
  blocks, \<open>own\<close> relates a locked block to its handle.
\<close>

locale block_cache =
  fixes ok :: "'s \<Rightarrow> bool" and vw dk :: "'s \<Rightarrow> nat \<Rightarrow> block" and hd pn :: "'s \<Rightarrow> nat set"
    and own :: "'s \<Rightarrow> nat \<Rightarrow> 'h \<Rightarrow> bool" and sz :: "'s \<Rightarrow> nat" and log :: "'s \<Rightarrow> (nat \<times> block) list"
    and dat :: "'s \<Rightarrow> 'h \<Rightarrow> block"
    and rd :: "nat \<Rightarrow> 's \<Rightarrow> ('h \<times> 's) kernel" and wr rel :: "'h \<Rightarrow> 's \<Rightarrow> 's kernel"
    and upd :: "'h \<Rightarrow> block \<Rightarrow> 's \<Rightarrow> 's"
  assumes fin: "finite (hd st \<union> pn st)"
    and dat_view: "ok st \<Longrightarrow> own st b h \<Longrightarrow> dat st h = vw st b"
    and clean: "ok st \<Longrightarrow> b \<notin> hd st \<Longrightarrow> b \<notin> pn st \<Longrightarrow> vw st b = dk st b"
    and rd_ok: "ok st \<Longrightarrow> b < sz st \<Longrightarrow> b \<notin> hd st \<Longrightarrow> card (insert b (hd st \<union> pn st)) \<le> 30 \<Longrightarrow>
      \<exists>h st'. rd b st = Inr (h, st') \<and> ok st' \<and> own st' b h \<and> vw st' = vw st \<and> hd st' = insert b (hd st) \<and>
        pn st' = pn st \<and> dk st' = dk st \<and> sz st' = sz st \<and> log st' = log st \<and>
        (\<forall>c g. own st c g \<longrightarrow> own st' c g)"
    and wr_ok: "ok st \<Longrightarrow> own st b h \<Longrightarrow>
      \<exists>st'. wr h st = Inr st' \<and> ok st' \<and> vw st' = vw st \<and> hd st' = hd st \<and> pn st' = pn st - {b} \<and>
        dk st' = (dk st)(b := vw st b) \<and> sz st' = sz st \<and> log st' = log st @ [(b, vw st b)] \<and>
        (\<forall>c g. own st c g \<longrightarrow> own st' c g)"
    and rel_ok: "ok st \<Longrightarrow> own st b h \<Longrightarrow> b \<in> pn st \<or> vw st b = dk st b \<Longrightarrow>
      \<exists>st'. rel h st = Inr st' \<and> ok st' \<and> vw st' = vw st \<and> hd st' = hd st - {b} \<and> pn st' = pn st \<and>
        dk st' = dk st \<and> sz st' = sz st \<and> log st' = log st \<and> (\<forall>c g. own st c g \<and> c \<noteq> b \<longrightarrow> own st' c g)"
    and upd_ok: "ok st \<Longrightarrow> own st b h \<Longrightarrow>
      ok (upd h d st) \<and> vw (upd h d st) = (vw st)(b := d) \<and> hd (upd h d st) = hd st \<and> pn (upd h d st) = pn st \<and>
        dk (upd h d st) = dk st \<and> sz (upd h d st) = sz st \<and> log (upd h d st) = log st \<and>
        (\<forall>c g. own st c g \<longrightarrow> own (upd h d st) c g)"
begin

text \<open>Two blocks are locked at once.\<close>

lemma rd_two:
  assumes st: "ok st" "hd st = {}" and ab: "a \<noteq> b" "a < sz st" "b < sz st"
    and room: "card (insert a (insert b (pn st))) \<le> 30"
  shows "\<exists>h st1 g st2. rd a st = Inr (h, st1) \<and> rd b st1 = Inr (g, st2) \<and> ok st2 \<and> own st2 a h \<and> own st2 b g \<and>
     vw st2 = vw st \<and> hd st2 = {a, b} \<and> pn st2 = pn st \<and> dk st2 = dk st \<and> sz st2 = sz st \<and> log st2 = log st"
proof -
  have f: "finite (pn st)" using fin[of st] by simp
  have "card (insert a (hd st \<union> pn st)) \<le> 30"
    using room card_mono[of "insert a (insert b (pn st))" "insert a (pn st)"] f st(2)
    by (simp add: subset_insertI2)
  then obtain h st1 where 1: "rd a st = Inr (h, st1)" "ok st1" "own st1 a h" "vw st1 = vw st" "hd st1 = {a}"
      "pn st1 = pn st" "dk st1 = dk st" "sz st1 = sz st" "log st1 = log st"
    using rd_ok[OF st(1) ab(2)] st(2) by auto
  have "card (insert b (hd st1 \<union> pn st1)) \<le> 30" using room 1 by (simp add: insert_commute)
  then obtain g st2 where "rd b st1 = Inr (g, st2)" "ok st2" "own st2 b g" "vw st2 = vw st1" "hd st2 = {a, b}"
      "pn st2 = pn st1" "dk st2 = dk st1" "sz st2 = sz st1" "log st2 = log st1" "\<forall>c g. own st1 c g \<longrightarrow> own st2 c g"
    using rd_ok[OF 1(2), of b] ab 1 by (auto simp: insert_commute)
  with 1 show ?thesis by auto
qed

text \<open>The common tail of the log's copies: store \<open>d\<close> in block \<open>b\<close>, write it, release both.\<close>

lemma store_release:
  assumes st: "ok st" "own st a h" "own st b g" "hd st = {a, b}" "a \<noteq> b"
    and a: "a \<in> pn st \<or> vw st a = dk st a"
  shows "\<exists>st1 st2 st3. wr g (upd g d st) = Inr st1 \<and> rel h st1 = Inr st2 \<and> rel g st2 = Inr st3 \<and> ok st3 \<and>
     vw st3 = (vw st)(b := d) \<and> hd st3 = {} \<and> pn st3 = pn st - {b} \<and> dk st3 = (dk st)(b := d) \<and>
     sz st3 = sz st \<and> log st3 = log st @ [(b, d)]"
proof -
  define s where "s = upd g d st"
  have s: "ok s" "vw s = (vw st)(b := d)" "hd s = {a, b}" "pn s = pn st" "dk s = dk st" "sz s = sz st" "log s = log st"
    "own s a h" "own s b g" using upd_ok[OF st(1,3), of d] st by (auto simp: s_def)
  from wr_ok[OF s(1,9)] obtain st1 where 1: "wr g s = Inr st1" "ok st1" "vw st1 = vw s" "hd st1 = hd s" "pn st1 = pn s - {b}"
      "dk st1 = (dk s)(b := vw s b)" "sz st1 = sz s" "log st1 = log s @ [(b, vw s b)]" "own st1 a h" "own st1 b g"
    using s(8,9) by blast
  have "a \<in> pn st1 \<or> vw st1 a = dk st1 a" using a s 1 st(5) by auto
  from rel_ok[OF 1(2,9) this] obtain st2 where 2: "rel h st1 = Inr st2" "ok st2" "vw st2 = vw st1" "hd st2 = hd st1 - {a}"
      "pn st2 = pn st1" "dk st2 = dk st1" "sz st2 = sz st1" "log st2 = log st1" "own st2 b g"
    using 1(10) st(5) by blast
  have "b \<in> pn st2 \<or> vw st2 b = dk st2 b" using 1 2 by simp
  from rel_ok[OF 2(2,9) this] obtain st3 where "rel g st2 = Inr st3" "ok st3" "vw st3 = vw st2" "hd st3 = hd st2 - {b}"
      "pn st3 = pn st2" "dk st3 = dk st2" "sz st3 = sz st2" "log st3 = log st2" by blast
  then show ?thesis using 1 2 s by (intro exI[of _ st1] exI[of _ st2] exI[of _ st3]) (simp add: s_def[symmetric])
qed

text \<open>One block is read, changed and written.\<close>

lemma modify_block:
  assumes st: "ok st" "hd st = {}" "b < sz st" "card (insert b (pn st)) \<le> 30"
  shows "\<exists>h st1 st2 st3. rd b st = Inr (h, st1) \<and> dat st1 h = vw st b \<and> wr h (upd h (f (vw st b)) st1) = Inr st2 \<and>
     rel h st2 = Inr st3 \<and> ok st3 \<and> vw st3 = (vw st)(b := f (vw st b)) \<and> hd st3 = {} \<and> pn st3 = pn st - {b} \<and>
     dk st3 = (dk st)(b := f (vw st b)) \<and> sz st3 = sz st \<and> log st3 = log st @ [(b, f (vw st b))]"
proof -
  obtain h st1 where 1: "rd b st = Inr (h, st1)" "ok st1" "own st1 b h" "vw st1 = vw st" "hd st1 = {b}"
      "pn st1 = pn st" "dk st1 = dk st" "sz st1 = sz st" "log st1 = log st"
    using rd_ok[OF st(1,3)] st(2,4) by auto
  define s where "s = upd h (f (vw st b)) st1"
  have s: "ok s" "vw s = (vw st)(b := f (vw st b))" "hd s = {b}" "pn s = pn st" "dk s = dk st" "sz s = sz st" "log s = log st"
    "own s b h" using upd_ok[OF 1(2,3), of "f (vw st b)"] 1 by (auto simp: s_def)
  from wr_ok[OF s(1,8)] obtain st2 where 2: "wr h s = Inr st2" "ok st2" "vw st2 = vw s" "hd st2 = hd s" "pn st2 = pn s - {b}"
      "dk st2 = (dk s)(b := vw s b)" "sz st2 = sz s" "log st2 = log s @ [(b, vw s b)]" "own st2 b h"
    using s(8) by blast
  have "b \<in> pn st2 \<or> vw st2 b = dk st2 b" using 2 by simp
  from rel_ok[OF 2(2,9) this] obtain st3 where "rel h st2 = Inr st3" "ok st3" "vw st3 = vw st2" "hd st3 = hd st2 - {b}"
      "pn st3 = pn st2" "dk st3 = dk st2" "sz st3 = sz st2" "log st3 = log st2" by blast
  moreover have "dat st1 h = vw st b" using dat_view[OF 1(2,3)] 1(4) by simp
  ultimately show ?thesis using 1(1) 2 s
    by (intro exI[of _ h] exI[of _ st1] exI[of _ st2] exI[of _ st3]) (simp add: s_def[symmetric])
qed

text \<open>One block is read only.\<close>

lemma peek_block:
  assumes st: "ok st" "hd st = {}" "b < sz st" "card (insert b (pn st)) \<le> 30"
  shows "\<exists>h st1 st2. rd b st = Inr (h, st1) \<and> dat st1 h = vw st b \<and> rel h st1 = Inr st2 \<and> ok st2 \<and>
     vw st2 = vw st \<and> hd st2 = {} \<and> pn st2 = pn st \<and> dk st2 = dk st \<and> sz st2 = sz st \<and> log st2 = log st"
proof -
  obtain h st1 where 1: "rd b st = Inr (h, st1)" "ok st1" "own st1 b h" "vw st1 = vw st" "hd st1 = {b}"
      "pn st1 = pn st" "dk st1 = dk st" "sz st1 = sz st" "log st1 = log st"
    using rd_ok[OF st(1,3)] st(2,4) by auto
  have "b \<in> pn st1 \<or> vw st1 b = dk st1 b" using 1 clean[OF st(1)] st(2) by (cases "b \<in> pn st") auto
  from rel_ok[OF 1(2,3) this] 1 dat_view[OF 1(2,3)] show ?thesis by auto
qed

end

interpretation bio: block_cache bc_ok view memdisk held pinned holds disksize history
  "\<lambda>st h. b_data (bufs st ! h)" "bread 1" bwrite brelse set_data
proof (unfold_locales, goal_cases)
  case (1 st) show ?case by (rule finite_pins)
next
  case (2 st b h) then show ?case using view_cached[of st b h] by (simp add: holds_def)
next
  case (3 st b) then show ?case by (rule view_disk)
next
  case (4 st b)
  have "b \<in> pinned st \<or> card (held st \<union> pinned st) < NBUF"
    using 4(3,4) finite_pins[of st] by (cases "b \<in> pinned st") auto
  from bread_ok[OF 4(1-3) this] obtain i st' where r: "bread 1 b st = Inr (i, st')" "reads st b i st'" by blast
  have "\<forall>c g. holds st c g \<longrightarrow> holds st' c g" using r(2) by (auto simp: reads_def holds_def)
  then show ?case using r reads_holds[OF r(2)] by (auto simp: reads_def)
next
  case (5 st b h)
  from bwrite_ok[OF 5] obtain st' where r: "bwrite h st = Inr st'" "bc_ok st'" "holds st' b h" "view st' = view st"
    "held st' = held st" "pinned st' = pinned st - {b}" "memdisk st' = (memdisk st)(b := view st b)"
    "history st' = history st @ [(b, view st b)]" "frame st h st'" by blast
  have "holds st' c g" if "holds st c g" for c g
  proof (cases "g = h")
    case True then show ?thesis using that 5(2) r(3) by (simp add: holds_def slot_of_def)
  next
    case False then show ?thesis using that r(9) by (simp add: frame_def)
  qed
  then show ?case using r by (auto simp: frame_def)
next
  case (6 st b h)
  from brelse_ok[OF 6] obtain st' where r: "brelse h st = Inr st'" "bc_ok st'" "view st' = view st"
    "held st' = held st - {b}" "pinned st' = pinned st" "memdisk st' = memdisk st" "history st' = history st"
    "frame st h st'" by blast
  have "holds st' c g" if "holds st c g" "c \<noteq> b" for c g
  proof (cases "g = h")
    case True then show ?thesis using that 6(2) by (simp add: holds_def slot_of_def)
  next
    case False then show ?thesis using that r(8) by (simp add: frame_def)
  qed
  then show ?case using r by (auto simp: frame_def)
next
  case (7 st b h d)
  note r = set_data_ok[OF 7, of d]
  have "holds (set_data h d st) c g" if "holds st c g" for c g
  proof (cases "g = h")
    case True then show ?thesis using that 7(2) r by (simp add: holds_def slot_of_def)
  next
    case False then show ?thesis using that r by (simp add: frame_def)
  qed
  then show ?case using r by (auto simp: frame_def)
qed


section \<open>The cache after initialisation, and what it promises\<close>

lemma binit_lru: "lru (binit img n) = rev [0..<NBUF]"
  by (simp add: binit_def fold_Cons_rev)

lemma binit_bufs: "i < NBUF \<Longrightarrow> bufs (binit img n) ! i = \<lparr>b_busy = False, b_valid = False, b_dirty = False,
    b_dev = NODEV, b_blockno = 0, b_data = zero_block\<rparr>"
  by (simp only: binit_def bcache.simps nth_replicate)

lemma binit_slot: "\<not> slot_of (binit img n) b i"
  using binit_bufs[of i img n] by (auto simp: slot_of_def)

lemma binit_ok: "bc_ok (binit img n)"
proof -
  have "length (bufs (binit img n)) = NBUF" by (simp add: binit_def)
  moreover have "distinct (lru (binit img n))" "set (lru (binit img n)) = {0..<NBUF}"
    by (simp_all add: binit_lru del: upt_rec_numeral)
  moreover have "buf_ok (memdisk (binit img n)) (disksize (binit img n)) (bufs (binit img n) ! i)" if "i < NBUF" for i
    using binit_bufs[OF that, of img n] by (simp add: buf_ok_def)
  ultimately show ?thesis unfolding bc_ok_def using binit_slot by blast
qed

lemma binit_sets [simp]: "held (binit img n) = {}" "pinned (binit img n) = {}"
  using binit_slot by (auto simp: held_def pinned_def)

lemma binit_sel [simp]: "memdisk (binit img n) = img" "disksize (binit img n) = n" "history (binit img n) = []"
  by (simp_all add: binit_def)

lemma binit_view [simp]: "view (binit img n) = img"
proof
  show "view (binit img n) b = img b" for b using view_uncached[of "binit img n" b] binit_slot by simp
qed

text \<open>
  \<open>bread\<close> (\<open>bio.c\<close>) for a block that nobody holds, with fewer than 30 blocks locked or waiting
  for the log: it returns a locked buffer with the current contents of the block, whether the
  block was cached or had to be read into a recycled buffer, and recycling loses nothing: the
  contents of every other block, the locked and the dirty blocks and the disk stay as they were.
\<close>

theorem bread_transparent:
  assumes "bc_ok st" "b < disksize st" "b \<notin> held st" "b \<in> pinned st \<or> card (held st \<union> pinned st) < NBUF"
  shows "\<exists>i st'. bread 1 b st = Inr (i, st') \<and> reads st b i st'"
  using assms by (rule bread_ok)

theorem bread_transparent_witness:
  "\<exists>i st'. bread 1 7 (binit (\<lambda>_. zero_block) 1000) = Inr (i, st') \<and> b_data (bufs st' ! i) = zero_block"
proof -
  have "7 < disksize (binit (\<lambda>_. zero_block) 1000)" by simp
  from bread_transparent[OF binit_ok this] show ?thesis by (auto simp: reads_def)
qed

text \<open>
  \<open>bget\<close> (\<open>bio.c\<close>) on a block that is not cached panics exactly when every buffer is locked or
  dirty; otherwise it recycles the least recently used one of the others.
\<close>

theorem bget_recycles_lru:
  assumes "List.find (\<lambda>i. b_dev (bufs st ! i) = dev \<and> b_blockno (bufs st ! i) = b) (lru st) = None"
  shows "(bget dev b st = panic ''bget: no buffers'' \<longleftrightarrow>
           (\<forall>i \<in> set (lru st). b_busy (bufs st ! i) \<or> b_dirty (bufs st ! i))) \<and>
    (\<forall>i st'. bget dev b st = Inr (i, st') \<longrightarrow> (\<exists>recent older. lru st = recent @ i # older \<and>
       \<not> b_busy (bufs st ! i) \<and> \<not> b_dirty (bufs st ! i) \<and>
       (\<forall>j \<in> set older. b_busy (bufs st ! j) \<or> b_dirty (bufs st ! j))))"
proof (cases "List.find (\<lambda>i. \<not> b_busy (bufs st ! i) \<and> \<not> b_dirty (bufs st ! i)) (rev (lru st))")
  case None
  then have "bget dev b st = panic ''bget: no buffers''" using assms by (simp add: bget_def)
  moreover have "\<forall>i \<in> set (lru st). b_busy (bufs st ! i) \<or> b_dirty (bufs st ! i)"
    using None unfolding find_None_iff by auto
  ultimately show ?thesis by simp
next
  case (Some i)
  then have c: "\<not> b_busy (bufs st ! i)" "\<not> b_dirty (bufs st ! i)" by (auto simp: find_Some_iff)
  from Some obtain k where k: "k < length (lru st)" "i = rev (lru st) ! k"
    "\<forall>j < k. \<not> (\<not> b_busy (bufs st ! (rev (lru st) ! j)) \<and> \<not> b_dirty (bufs st ! (rev (lru st) ! j)))"
    by (auto simp: find_Some_iff)
  have "rev (lru st) = take k (rev (lru st)) @ i # drop (Suc k) (rev (lru st))"
    using k by (simp add: id_take_nth_drop)
  then have split: "lru st = rev (drop (Suc k) (rev (lru st))) @ i # rev (take k (rev (lru st)))"
    by (metis append.assoc append_Cons append_Nil rev.simps(2) rev_append rev_rev_ident)
  have "b_busy (bufs st ! j) \<or> b_dirty (bufs st ! j)" if "j \<in> set (rev (take k (rev (lru st))))" for j
    using that k(3) by (auto simp: in_set_conv_nth)
  then have "\<exists>recent older. lru st = recent @ i # older \<and> \<not> b_busy (bufs st ! i) \<and> \<not> b_dirty (bufs st ! i) \<and>
       (\<forall>j \<in> set older. b_busy (bufs st ! j) \<or> b_dirty (bufs st ! j))"
    using split c by blast
  moreover have "i \<in> set (lru st)" using split by (metis in_set_conv_decomp)
  ultimately show ?thesis using assms Some c by (auto simp: bget_def)
qed

theorem bget_recycles_lru_witness:
  "\<exists>recent older i. lru (binit (\<lambda>_. zero_block) 1000) = recent @ i # older \<and>
     fst (projr (bget 1 5 (binit (\<lambda>_. zero_block) 1000))) = i"
proof -
  let ?s = "binit (\<lambda>_. zero_block) 1000"
  have none: "List.find (\<lambda>i. b_dev (bufs ?s ! i) = 1 \<and> b_blockno (bufs ?s ! i) = 5) (lru ?s) = None"
    using binit_slot[of _ 1000 5] by (auto simp: find_None_iff slot_of_def binit_lru simp del: upt_rec_numeral)
  have "0 \<in> set (lru ?s)" by (simp add: binit_lru del: upt_rec_numeral)
  then have "bget 1 5 ?s \<noteq> panic ''bget: no buffers''"
    using bget_recycles_lru[OF none] binit_bufs[of 0] by fastforce
  then obtain i st' where "bget 1 5 ?s = Inr (i, st')" using none by (auto simp: bget_def split: option.splits)
  then show ?thesis using bget_recycles_lru[OF none] by fastforce
qed

end
