(* ===== verification/Log.thy ===== *)
theory Log
  imports Bio
begin

text \<open>
  The redo log (\<open>log.c\<close>) on top of the buffer cache: transactions, commit, recovery. Results: a
  crash at any point of a commit, followed by recovery, leaves either none or all of the
  transaction's blocks on the disk; a logged write reaches no disk block before the commit;
  \<open>begin_op\<close> admits more blocks than \<open>log_write\<close> accepts.
\<close>

section \<open>State\<close>

abbreviation LOGSIZE :: nat where "LOGSIZE \<equiv> 30"
abbreviation MAXOPBLOCKS :: nat where "MAXOPBLOCKS \<equiv> 10"

record superblock =
  sb_size :: nat
  sb_nblocks :: nat
  sb_ninodes :: nat
  sb_nlog :: nat
  sb_logstart :: nat
  sb_inodestart :: nat
  sb_bmapstart :: nat

text \<open>The in-memory header \<open>lh\<close> is the list of its first \<open>n\<close> block numbers.\<close>

record logst =
  lg_start :: nat
  lg_size :: nat
  outstanding :: int
  committing :: bool
  lh :: "nat list"
  bc :: bcache

section \<open>Superblock and header\<close>

definition readsb :: "bcache \<Rightarrow> (superblock \<times> bcache) kernel" where
  "readsb c = kbind (bread 1 1 c) (\<lambda>(i, c1).
     let d = b_data (bufs c1 ! i)
     in kbind (brelse i c1) (\<lambda>c2. Inr (\<lparr>sb_size = get_nat d 0, sb_nblocks = get_nat d 4,
          sb_ninodes = get_nat d 8, sb_nlog = get_nat d 12, sb_logstart = get_nat d 16,
          sb_inodestart = get_nat d 20, sb_bmapstart = get_nat d 24\<rparr>, c2)))"

definition head_count :: "block \<Rightarrow> nat" where
  "head_count d = nat (sint (get32 d 0))"

definition head_blocks :: "block \<Rightarrow> nat list" where
  "head_blocks d = map (\<lambda>i. get_nat d (4 + 4 * i)) [0..<head_count d]"

fun put_blocks :: "nat \<Rightarrow> nat list \<Rightarrow> block \<Rightarrow> block" where
  "put_blocks i [] d = d"
| "put_blocks i (b # bs) d = put_blocks (i + 1) bs (put_nat d (4 + 4 * i) b)"

definition head_block :: "nat list \<Rightarrow> block \<Rightarrow> block" where
  "head_block bs d = put_blocks 0 bs (put_nat d 0 (length bs))"

definition read_head :: "logst \<Rightarrow> logst kernel" where
  "read_head l = kbind (bread 1 (lg_start l) (bc l)) (\<lambda>(i, c1).
     let d = b_data (bufs c1 ! i)
     in kbind (brelse i c1) (\<lambda>c2. Inr (l\<lparr>lh := head_blocks d, bc := c2\<rparr>)))"

definition write_head :: "logst \<Rightarrow> logst kernel" where
  "write_head l = kbind (bread 1 (lg_start l) (bc l)) (\<lambda>(i, c1).
     kbind (bwrite i (set_data i (head_block (lh l) (b_data (bufs c1 ! i))) c1)) (\<lambda>c2.
     kbind (brelse i c2) (\<lambda>c3. Inr (l\<lparr>bc := c3\<rparr>))))"

section \<open>Copies between log and home locations\<close>

fun install_loop :: "nat \<Rightarrow> nat \<Rightarrow> nat list \<Rightarrow> bcache \<Rightarrow> bcache kernel" where
  "install_loop start tail [] c = Inr c"
| "install_loop start tail (b # bs) c =
     kbind (bread 1 (start + tail + 1) c) (\<lambda>(lbuf, c1).
     kbind (bread 1 b c1) (\<lambda>(dbuf, c2).
     kbind (bwrite dbuf (set_data dbuf (b_data (bufs c2 ! lbuf)) c2)) (\<lambda>c3.
     kbind (brelse lbuf c3) (\<lambda>c4.
     kbind (brelse dbuf c4) (\<lambda>c5. install_loop start (tail + 1) bs c5)))))"

definition install_trans :: "logst \<Rightarrow> logst kernel" where
  "install_trans l = kbind (install_loop (lg_start l) 0 (lh l) (bc l)) (\<lambda>c. Inr (l\<lparr>bc := c\<rparr>))"

fun write_log_loop :: "nat \<Rightarrow> nat \<Rightarrow> nat list \<Rightarrow> bcache \<Rightarrow> bcache kernel" where
  "write_log_loop start tail [] c = Inr c"
| "write_log_loop start tail (b # bs) c =
     kbind (bread 1 (start + tail + 1) c) (\<lambda>(to, c1).
     kbind (bread 1 b c1) (\<lambda>(from, c2).
     kbind (bwrite to (set_data to (b_data (bufs c2 ! from)) c2)) (\<lambda>c3.
     kbind (brelse from c3) (\<lambda>c4.
     kbind (brelse to c4) (\<lambda>c5. write_log_loop start (tail + 1) bs c5)))))"

definition write_log :: "logst \<Rightarrow> logst kernel" where
  "write_log l = kbind (write_log_loop (lg_start l) 0 (lh l) (bc l)) (\<lambda>c. Inr (l\<lparr>bc := c\<rparr>))"

section \<open>Recovery and transactions\<close>

definition recover_from_log :: "logst \<Rightarrow> logst kernel" where
  "recover_from_log l =
     kbind (read_head l) (\<lambda>l1. kbind (install_trans l1) (\<lambda>l2. write_head (l2\<lparr>lh := []\<rparr>)))"

definition initlog :: "logst \<Rightarrow> logst kernel" where
  "initlog l =
     (if BSIZE \<le> 4 + 4 * LOGSIZE then panic ''initlog: too big logheader''
      else kbind (readsb (bc l)) (\<lambda>(sb, c).
        recover_from_log (l\<lparr>lg_start := sb_logstart sb, lg_size := sb_nlog sb, bc := c\<rparr>)))"

text \<open>\<open>begin_op\<close>: one pass through its loop; \<open>None\<close> when the caller has to sleep.\<close>

definition begin_op :: "logst \<Rightarrow> logst option" where
  "begin_op l =
     (if committing l then None
      else if int LOGSIZE < int (length (lh l)) + (outstanding l + 1) * int MAXOPBLOCKS then None
      else Some (l\<lparr>outstanding := outstanding l + 1\<rparr>))"

definition commit :: "logst \<Rightarrow> logst kernel" where
  "commit l =
     (if 0 < length (lh l) then
        kbind (write_log l) (\<lambda>l1. kbind (write_head l1) (\<lambda>l2.
        kbind (install_trans l2) (\<lambda>l3. write_head (l3\<lparr>lh := []\<rparr>))))
      else Inr l)"

definition end_op :: "logst \<Rightarrow> logst kernel" where
  "end_op l =
     (let l1 = l\<lparr>outstanding := outstanding l - 1\<rparr>
      in if committing l1 then panic ''log.committing''
         else if outstanding l1 = 0 then
           kbind (commit (l1\<lparr>committing := True\<rparr>)) (\<lambda>l2. Inr (l2\<lparr>committing := False\<rparr>))
         else Inr l1)"

text \<open>\<open>log_write\<close> on the locked buffer \<open>i\<close>: a block already in the header keeps its place.\<close>

definition log_write :: "nat \<Rightarrow> logst \<Rightarrow> logst kernel" where
  "log_write i l =
     (if LOGSIZE \<le> length (lh l) \<or> int (lg_size l) - 1 \<le> int (length (lh l)) then panic ''too big a transaction''
      else if outstanding l < 1 then panic ''log_write outside of trans''
      else let b = b_blockno (bufs (bc l) ! i)
           in Inr (l\<lparr>lh := (if b \<in> set (lh l) then lh l else lh l @ [b]), bc := mark_dirty i (bc l)\<rparr>))"

section \<open>The header block\<close>

lemma length_put_blocks [simp]: "length (put_blocks i bs d) = length d"
  by (induction i bs d rule: put_blocks.induct) auto

lemma get_put_blocks_before: "j + 3 < 4 + 4 * i \<Longrightarrow> get_nat (put_blocks i bs d) j = get_nat d j"
  by (induction i bs d rule: put_blocks.induct) auto

lemma get32_put_blocks_before: "j + 3 < 4 + 4 * i \<Longrightarrow> get32 (put_blocks i bs d) j = get32 d j"
  by (induction i bs d rule: put_blocks.induct) (auto simp: put_nat_def)

lemma get_put_blocks:
  "4 + 4 * (i + length bs) \<le> length d \<Longrightarrow> list_all (\<lambda>b. b < 2 ^ 32) bs \<Longrightarrow> k < length bs \<Longrightarrow>
   get_nat (put_blocks i bs d) (4 + 4 * (i + k)) = bs ! k"
proof (induction i bs d arbitrary: k rule: put_blocks.induct)
  case (2 i b bs d)
  show ?case
  proof (cases k)
    case 0
    then show ?thesis using 2 by (simp add: get_put_blocks_before)
  next
    case (Suc k')
    have "get_nat (put_blocks (i + 1) bs (put_nat d (4 + 4 * i) b)) (4 + 4 * (i + 1 + k')) = bs ! k'"
      using 2 Suc by (intro "2.IH") auto
    then show ?thesis using Suc by (simp add: algebra_simps)
  qed
qed simp

lemma head_block_decode:
  assumes "length d = BSIZE" "length bs \<le> LOGSIZE" "list_all (\<lambda>b. b < 2 ^ 32) bs"
  shows "head_count (head_block bs d) = length bs" "head_blocks (head_block bs d) = bs"
proof -
  have "get32 (head_block bs d) 0 = of_nat (length bs)"
    using assms(1) by (simp add: head_block_def get32_put_blocks_before put_nat_def)
  moreover have "sint (of_nat (length bs) :: u32) = int (length bs)"
    using assms(2) by (intro sint_of_nat_small) auto
  ultimately show n: "head_count (head_block bs d) = length bs" by (simp add: head_count_def)
  show "head_blocks (head_block bs d) = bs"
    unfolding head_blocks_def n
    using assms get_put_blocks[of 0 bs "put_nat d 0 (length bs)"]
    by (intro nth_equalityI) (auto simp: head_block_def)
qed

lemma head_block_clear: "length d = BSIZE \<Longrightarrow> head_count (head_block [] d) = 0 \<and> head_blocks (head_block [] d) = []"
  using head_block_decode[of d "[]"] by simp

lemma length_head_block [simp]: "length (head_block bs d) = length d"
  by (simp add: head_block_def)

section \<open>The disk writes of commit and recovery\<close>

definition apply_writes :: "(nat \<Rightarrow> block) \<Rightarrow> (nat \<times> block) list \<Rightarrow> (nat \<Rightarrow> block)" where
  "apply_writes d ws = foldl (\<lambda>d (b, x). d(b := x)) d ws"

lemma apply_writes_simps [simp]:
  "apply_writes d [] = d" "apply_writes d ((b, x) # ws) = apply_writes (d(b := x)) ws"
  by (simp_all add: apply_writes_def)

lemma apply_writes_append: "apply_writes d (ws @ vs) = apply_writes (apply_writes d ws) vs"
  by (simp add: apply_writes_def)

lemma apply_writes_notin: "b \<notin> fst ` set ws \<Longrightarrow> apply_writes d ws b = d b"
  by (induction ws arbitrary: d) (auto simp: image_iff)

fun install_writes :: "(nat \<Rightarrow> block) \<Rightarrow> nat \<Rightarrow> nat \<Rightarrow> nat list \<Rightarrow> (nat \<times> block) list" where
  "install_writes v start tail [] = []"
| "install_writes v start tail (b # bs) = (b, v (start + tail + 1)) # install_writes v start (tail + 1) bs"

fun log_writes :: "(nat \<Rightarrow> block) \<Rightarrow> nat \<Rightarrow> nat \<Rightarrow> nat list \<Rightarrow> (nat \<times> block) list" where
  "log_writes v start tail [] = []"
| "log_writes v start tail (b # bs) = (start + tail + 1, v b) # log_writes v start (tail + 1) bs"

text \<open>The blocks of the log: header and copies.\<close>

definition log_area :: "nat \<Rightarrow> nat set" where
  "log_area start = {start..start + LOGSIZE}"

definition log_fits :: "nat \<Rightarrow> nat \<Rightarrow> nat list \<Rightarrow> bcache \<Rightarrow> bool" where
  "log_fits start tail bs c \<longleftrightarrow> bc_ok c \<and> held c = {} \<and> start + LOGSIZE < disksize c \<and> tail + length bs \<le> LOGSIZE \<and>
     (\<forall>b \<in> set bs. b < disksize c \<and> b \<notin> log_area start \<and> card (insert b (pinned c)) < NBUF)"

lemma finite_pinned: "finite (pinned c)"
  using finite_pins[of c] by simp

lemma card_two: "card (insert b (pinned c)) < NBUF \<Longrightarrow> card (insert a (insert b (pinned c))) \<le> NBUF"
  using finite_pinned[of c] by (simp add: card_insert_if)

lemma install_writes_cong:
  "(\<And>i. tail \<le> i \<Longrightarrow> i < tail + length bs \<Longrightarrow> v' (start + i + 1) = v (start + i + 1)) \<Longrightarrow>
   install_writes v' start tail bs = install_writes v start tail bs"
  by (induction v start tail bs rule: install_writes.induct) auto

lemma log_writes_cong:
  "(\<And>b. b \<in> set bs \<Longrightarrow> v' b = v b) \<Longrightarrow> log_writes v' start tail bs = log_writes v start tail bs"
  by (induction v start tail bs rule: log_writes.induct) auto

text \<open>The state between two steps of a copy loop that has done the writes \<open>ws\<close>.\<close>

definition wrote :: "bcache \<Rightarrow> (nat \<times> block) list \<Rightarrow> nat set \<Rightarrow> bcache \<Rightarrow> bool" where
  "wrote c ws unpinned c' \<longleftrightarrow> bc_ok c' \<and> held c' = {} \<and> disksize c' = disksize c \<and>
     pinned c' = pinned c - unpinned \<and> view c' = apply_writes (view c) ws \<and>
     memdisk c' = apply_writes (memdisk c) ws \<and> history c' = history c @ ws"

lemma wrote_trans: "wrote c ws u c1 \<Longrightarrow> wrote c1 vs w c2 \<Longrightarrow> wrote c (ws @ vs) (u \<union> w) c2"
  by (auto simp: wrote_def apply_writes_append)

lemma wrote_fits:
  assumes "log_fits start tail (b # bs) c" "wrote c ws u c1"
  shows "log_fits start (tail + 1) bs c1"
proof -
  have "card (insert x (pinned c1)) \<le> card (insert x (pinned c))" for x
    using assms(2) finite_pinned[of c] by (intro card_mono) (auto simp: wrote_def)
  moreover have "card (insert x (pinned c)) < NBUF" if "x \<in> set bs" for x
    using that assms(1) by (simp add: log_fits_def)
  ultimately have "card (insert x (pinned c1)) < NBUF" if "x \<in> set bs" for x
    using that order_le_less_trans by blast
  then show ?thesis using assms by (simp add: log_fits_def wrote_def)
qed

lemma install_step:
  assumes "log_fits start tail (b # bs) c"
  shows "\<exists>c'. install_loop start tail (b # bs) c = install_loop start (tail + 1) bs c' \<and>
     wrote c [(b, view c (start + tail + 1))] {b} c'"
proof -
  let ?a = "start + tail + 1"
  have h: "bc_ok c" "held c = {}" "?a \<noteq> b" "?a < disksize c" "b < disksize c" "card (insert b (pinned c)) < NBUF"
    using assms by (auto simp: log_fits_def log_area_def)
  obtain lb c1 db c2 where r: "bread 1 ?a c = Inr (lb, c1)" "bread 1 b c1 = Inr (db, c2)" "bc_ok c2" "holds c2 ?a lb"
     "holds c2 b db" "view c2 = view c" "held c2 = {?a, b}" "pinned c2 = pinned c" "memdisk c2 = memdisk c"
     "disksize c2 = disksize c" "history c2 = history c"
    using bio.rd_two[OF h(1-5) card_two[OF h(6)]] by blast
  have dat: "b_data (bufs c2 ! lb) = view c ?a" using bio.dat_view[OF r(3,4)] r(6) by simp
  have src: "?a \<in> pinned c2 \<or> view c2 ?a = memdisk c2 ?a"
    using view_disk[OF h(1), of ?a] h(2) r by auto
  from bio.store_release[OF r(3,4,5,7) h(3) src, of "view c ?a"] obtain c3 c4 c5 where
    w: "bwrite db (set_data db (view c ?a) c2) = Inr c3" "brelse lb c3 = Inr c4" "brelse db c4 = Inr c5" and
    st: "bc_ok c5" "view c5 = (view c2)(b := view c ?a)" "held c5 = {}" "pinned c5 = pinned c2 - {b}"
      "memdisk c5 = (memdisk c2)(b := view c ?a)" "disksize c5 = disksize c2" "history c5 = history c2 @ [(b, view c ?a)]"
    by blast
  have "install_loop start tail (b # bs) c = install_loop start (tail + 1) bs c5"
    using r(1,2) w dat by simp
  moreover have "wrote c [(b, view c ?a)] {b} c5" using st r by (simp add: wrote_def)
  ultimately show ?thesis by blast
qed

lemma install_loop_ok:
  "log_fits start tail bs c \<Longrightarrow>
   \<exists>c'. install_loop start tail bs c = Inr c' \<and> wrote c (install_writes (view c) start tail bs) (set bs) c'"
proof (induction bs arbitrary: tail c)
  case Nil
  then show ?case by (simp add: wrote_def log_fits_def)
next
  case (Cons b bs)
  obtain c1 where c1: "install_loop start tail (b # bs) c = install_loop start (tail + 1) bs c1"
    "wrote c [(b, view c (start + tail + 1))] {b} c1" using install_step[OF Cons.prems] by blast
  obtain c2 where c2: "install_loop start (tail + 1) bs c1 = Inr c2"
    "wrote c1 (install_writes (view c1) start (tail + 1) bs) (set bs) c2"
    using Cons.IH[OF wrote_fits[OF Cons.prems c1(2)]] by blast
  have "install_writes (view c1) start (tail + 1) bs = install_writes (view c) start (tail + 1) bs"
    using c1(2) Cons.prems by (intro install_writes_cong) (auto simp: wrote_def log_fits_def log_area_def)
  then show ?case using c1 c2 wrote_trans[OF c1(2) c2(2)] by auto
qed

lemma write_log_step:
  assumes "log_fits start tail (b # bs) c" "start + tail + 1 \<notin> pinned c"
  shows "\<exists>c'. write_log_loop start tail (b # bs) c = write_log_loop start (tail + 1) bs c' \<and>
     wrote c [(start + tail + 1, view c b)] {} c'"
proof -
  let ?a = "start + tail + 1"
  have h: "bc_ok c" "held c = {}" "?a \<noteq> b" "?a < disksize c" "b < disksize c" "card (insert b (pinned c)) < NBUF"
    using assms by (auto simp: log_fits_def log_area_def)
  obtain lb c1 db c2 where r: "bread 1 ?a c = Inr (lb, c1)" "bread 1 b c1 = Inr (db, c2)" "bc_ok c2" "holds c2 ?a lb"
     "holds c2 b db" "view c2 = view c" "held c2 = {?a, b}" "pinned c2 = pinned c" "memdisk c2 = memdisk c"
     "disksize c2 = disksize c" "history c2 = history c"
    using bio.rd_two[OF h(1-5) card_two[OF h(6)]] by blast
  have dat: "b_data (bufs c2 ! db) = view c b" using bio.dat_view[OF r(3,5)] r(6) by simp
  have src: "b \<in> pinned c2 \<or> view c2 b = memdisk c2 b"
    using view_disk[OF h(1), of b] h(2) r by auto
  have hd: "held c2 = {b, ?a}" using r(7) by auto
  from bio.store_release[OF r(3,5,4) hd _ src, of "view c b"] h(3) obtain c3 c4 c5 where
    w: "bwrite lb (set_data lb (view c b) c2) = Inr c3" "brelse db c3 = Inr c4" "brelse lb c4 = Inr c5" and
    st: "bc_ok c5" "view c5 = (view c2)(?a := view c b)" "held c5 = {}" "pinned c5 = pinned c2 - {?a}"
      "memdisk c5 = (memdisk c2)(?a := view c b)" "disksize c5 = disksize c2" "history c5 = history c2 @ [(?a, view c b)]"
    by blast
  have "write_log_loop start tail (b # bs) c = write_log_loop start (tail + 1) bs c5"
    using r(1,2) w dat by simp
  moreover have "wrote c [(?a, view c b)] {} c5" using st r assms(2) by (simp add: wrote_def)
  ultimately show ?thesis by blast
qed

lemma write_log_loop_ok:
  "log_fits start tail bs c \<Longrightarrow> pinned c \<inter> log_area start = {} \<Longrightarrow>
   \<exists>c'. write_log_loop start tail bs c = Inr c' \<and> wrote c (log_writes (view c) start tail bs) {} c'"
proof (induction bs arbitrary: tail c)
  case Nil
  then show ?case by (simp add: wrote_def log_fits_def)
next
  case (Cons b bs)
  have "start + tail + 1 \<notin> pinned c" using Cons.prems by (auto simp: log_fits_def log_area_def)
  then obtain c1 where c1: "write_log_loop start tail (b # bs) c = write_log_loop start (tail + 1) bs c1"
    "wrote c [(start + tail + 1, view c b)] {} c1" using write_log_step[OF Cons.prems(1)] by blast
  have "pinned c1 \<inter> log_area start = {}" using c1(2) Cons.prems(2) by (simp add: wrote_def)
  then obtain c2 where c2: "write_log_loop start (tail + 1) bs c1 = Inr c2"
    "wrote c1 (log_writes (view c1) start (tail + 1) bs) {} c2"
    using Cons.IH[OF wrote_fits[OF Cons.prems(1) c1(2)]] by blast
  have "log_writes (view c1) start (tail + 1) bs = log_writes (view c) start (tail + 1) bs"
    using c1(2) Cons.prems(1) by (intro log_writes_cong) (auto simp: wrote_def log_fits_def log_area_def)
  then show ?case using c1 c2 wrote_trans[OF c1(2) c2(2)] by auto
qed

lemma write_head_ok:
  assumes "bc_ok (bc l)" "held (bc l) = {}" "lg_start l < disksize (bc l)" "card (pinned (bc l)) < NBUF"
    "lg_start l \<notin> pinned (bc l)"
  shows "\<exists>c'. write_head l = Inr (l\<lparr>bc := c'\<rparr>) \<and>
     wrote (bc l) [(lg_start l, head_block (lh l) (view (bc l) (lg_start l)))] {} c'"
proof -
  have "card (insert (lg_start l) (pinned (bc l))) \<le> 30"
    using assms(4) finite_pinned[of "bc l"] by (simp add: card_insert_if)
  from bio.modify_block[OF assms(1-3) this, of "head_block (lh l)"] obtain h c1 c2 c3 where
    "bread 1 (lg_start l) (bc l) = Inr (h, c1)" "b_data (bufs c1 ! h) = view (bc l) (lg_start l)"
    "bwrite h (set_data h (head_block (lh l) (view (bc l) (lg_start l))) c1) = Inr c2" "brelse h c2 = Inr c3" and
    st: "bc_ok c3" "view c3 = (view (bc l))(lg_start l := head_block (lh l) (view (bc l) (lg_start l)))" "held c3 = {}"
      "pinned c3 = pinned (bc l) - {lg_start l}"
      "memdisk c3 = (memdisk (bc l))(lg_start l := head_block (lh l) (view (bc l) (lg_start l)))"
      "disksize c3 = disksize (bc l)"
      "history c3 = history (bc l) @ [(lg_start l, head_block (lh l) (view (bc l) (lg_start l)))]" by blast
  then have "write_head l = Inr (l\<lparr>bc := c3\<rparr>)" by (simp add: write_head_def)
  then show ?thesis using st assms(5) by (auto simp: wrote_def)
qed

lemma read_head_ok:
  assumes "bc_ok (bc l)" "held (bc l) = {}" "lg_start l < disksize (bc l)" "card (pinned (bc l)) < NBUF"
  shows "\<exists>c'. read_head l = Inr (l\<lparr>lh := head_blocks (view (bc l) (lg_start l)), bc := c'\<rparr>) \<and> wrote (bc l) [] {} c'"
proof -
  have "card (insert (lg_start l) (pinned (bc l))) \<le> 30"
    using assms(4) finite_pinned[of "bc l"] by (simp add: card_insert_if)
  from bio.peek_block[OF assms(1-3) this] show ?thesis by (fastforce simp: read_head_def wrote_def)
qed


section \<open>Crash safety\<close>

text \<open>
  A log ready to commit: nothing is locked, exactly the blocks of the header are dirty, the log
  lies on the disk outside of them, the on-disk header says that nothing is committed, and the
  header leaves one buffer for the log blocks.
\<close>

definition ready_to_commit :: "logst \<Rightarrow> bool" where
  "ready_to_commit l \<longleftrightarrow> bc_ok (bc l) \<and> held (bc l) = {} \<and> pinned (bc l) = set (lh l) \<and>
     set (lh l) \<inter> log_area (lg_start l) = {} \<and> distinct (lh l) \<and> 0 < length (lh l) \<and> length (lh l) < LOGSIZE \<and>
     lg_start l + LOGSIZE < disksize (bc l) \<and> (\<forall>b \<in> set (lh l). b < disksize (bc l)) \<and> disksize (bc l) \<le> 2 ^ 32 \<and>
     length (memdisk (bc l) (lg_start l)) = BSIZE \<and> head_count (memdisk (bc l) (lg_start l)) = 0"

text \<open>The disk writes of a commit, in order.\<close>

definition commit_writes :: "logst \<Rightarrow> (nat \<times> block) list" where
  "commit_writes l =
     (let v = view (bc l); h = head_block (lh l) (v (lg_start l))
      in log_writes v (lg_start l) 0 (lh l) @ [(lg_start l, h)] @ map (\<lambda>b. (b, v b)) (lh l) @
         [(lg_start l, head_block [] h)])"

lemma log_writes_fst: "fst ` set (log_writes v start tail bs) = (\<lambda>i. start + i + 1) ` {tail..<tail + length bs}"
proof (induction v start tail bs rule: log_writes.induct)
  case (2 v start tail b bs)
  have "{tail..<tail + length (b # bs)} = insert tail {tail + 1..<tail + 1 + length bs}" by auto
  then show ?case using 2 by simp
qed simp

lemma log_writes_apply:
  "i < length bs \<Longrightarrow> apply_writes d (log_writes v start tail bs) (start + tail + i + 1) = v (bs ! i)"
proof (induction bs arbitrary: tail i d)
  case (Cons b bs)
  show ?case
  proof (cases i)
    case 0
    have "start + tail + 1 \<notin> fst ` set (log_writes v start (tail + 1) bs)" by (auto simp: log_writes_fst)
    then show ?thesis using 0 by (simp add: apply_writes_notin)
  next
    case (Suc k)
    then show ?thesis using Cons.IH[of k _ "tail + 1"] Cons.prems by simp
  qed
qed simp

lemma install_writes_logged:
  "(\<And>i. i < length bs \<Longrightarrow> v' (start + tail + i + 1) = v (bs ! i)) \<Longrightarrow>
   install_writes v' start tail bs = map (\<lambda>b. (b, v b)) bs"
proof (induction bs arbitrary: tail)
  case (Cons b bs)
  have "install_writes v' start (tail + 1) bs = map (\<lambda>b. (b, v b)) bs"
    using Cons.prems[of "Suc i" for i] by (intro Cons.IH) simp
  then show ?case using Cons.prems[of 0] by simp
qed simp

lemma apply_home: "b \<in> set bs \<Longrightarrow> apply_writes d (map (\<lambda>b. (b, v b)) bs) b = v b"
proof (induction bs arbitrary: d)
  case (Cons a bs)
  show ?case
  proof (cases "b \<in> set bs")
    case False
    then have "b \<notin> fst ` set (map (\<lambda>b. (b, v b)) bs)" by auto
    then show ?thesis using Cons.prems False by (simp add: apply_writes_notin)
  qed (use Cons in simp)
qed simp

lemma ready_fits: "ready_to_commit l \<Longrightarrow> log_fits (lg_start l) 0 (lh l) (bc l)"
  using distinct_card[of "lh l"] by (auto simp: ready_to_commit_def log_fits_def insert_absorb)

lemma commit_ok:
  assumes r: "ready_to_commit l"
  shows "\<exists>c'. commit l = Inr (l\<lparr>lh := [], bc := c'\<rparr>) \<and> wrote (bc l) (commit_writes l) (set (lh l)) c'"
proof -
  let ?s = "lg_start l" and ?v = "view (bc l)"
  have pn: "pinned (bc l) = set (lh l)" "?s \<notin> set (lh l)" "card (set (lh l)) < NBUF" "?s < disksize (bc l)" "0 < length (lh l)"
    using r distinct_card[of "lh l"] by (auto simp: ready_to_commit_def log_area_def)
  have disj: "pinned (bc l) \<inter> log_area ?s = {}" using r by (simp add: ready_to_commit_def)
  obtain c1 where c1: "write_log_loop ?s 0 (lh l) (bc l) = Inr c1" "wrote (bc l) (log_writes ?v ?s 0 (lh l)) {} c1"
    using write_log_loop_ok[OF ready_fits[OF r] disj] by blast
  have v1: "view c1 = apply_writes ?v (log_writes ?v ?s 0 (lh l))" using c1(2) by (simp add: wrote_def)
  have "view c1 ?s = ?v ?s" unfolding v1 by (intro apply_writes_notin) (auto simp: log_writes_fst)
  then obtain c2 where c2: "write_head (l\<lparr>bc := c1\<rparr>) = Inr (l\<lparr>bc := c2\<rparr>)"
    "wrote c1 [(?s, head_block (lh l) (?v ?s))] {} c2"
    using write_head_ok[of "l\<lparr>bc := c1\<rparr>"] c1(2) pn by (auto simp: wrote_def)
  have w2: "wrote (bc l) (log_writes ?v ?s 0 (lh l) @ [(?s, head_block (lh l) (?v ?s))]) {} c2"
    using wrote_trans[OF c1(2) c2(2)] by simp
  have "log_fits ?s 0 (lh l) c2" using ready_fits[OF r] w2 by (simp add: log_fits_def wrote_def)
  from install_loop_ok[OF this] obtain c3 where c3: "install_loop ?s 0 (lh l) c2 = Inr c3"
    "wrote c2 (install_writes (view c2) ?s 0 (lh l)) (set (lh l)) c3" by blast
  have v2: "view c2 = (view c1)(?s := head_block (lh l) (?v ?s))" using c2(2) by (simp add: wrote_def)
  have "install_writes (view c2) ?s 0 (lh l) = map (\<lambda>b. (b, ?v b)) (lh l)"
    by (intro install_writes_logged) (simp add: v2 v1 log_writes_apply[where tail = 0, simplified])
  then have w3: "wrote c2 (map (\<lambda>b. (b, ?v b)) (lh l)) (set (lh l)) c3" using c3(2) by simp
  have "view c3 ?s = head_block (lh l) (?v ?s)"
    using w3 v2 pn(2) apply_writes_notin[of ?s "map (\<lambda>b. (b, ?v b)) (lh l)"] by (auto simp: wrote_def image_iff)
  moreover have "pinned c3 = {}" using w2 w3 pn(1) by (simp add: wrote_def)
  ultimately obtain c4 where c4: "write_head (l\<lparr>lh := [], bc := c3\<rparr>) = Inr (l\<lparr>lh := [], bc := c4\<rparr>)"
    "wrote c3 [(?s, head_block [] (head_block (lh l) (?v ?s)))] {} c4"
    using write_head_ok[of "l\<lparr>lh := [], bc := c3\<rparr>"] w2 w3 pn(4) by (auto simp: wrote_def)
  have "wrote (bc l) (commit_writes l) (set (lh l)) c4"
    using wrote_trans[OF w2 wrote_trans[OF w3 c4(2)]] by (simp add: commit_writes_def Let_def)
  moreover have sw: "l\<lparr>bc := c3, lh := []\<rparr> = l\<lparr>lh := [], bc := c3\<rparr>" by simp
  have "commit l = Inr (l\<lparr>lh := [], bc := c4\<rparr>)"
    using pn(5) c1(1) c2(1) c3(1) c4(1) by (simp add: commit_def write_log_def install_trans_def sw)
  ultimately show ?thesis by blast
qed


text \<open>Recovery on a freshly initialised cache.\<close>

lemma recover_ok:
  fixes d :: "nat \<Rightarrow> block"
  assumes f: "log_fits (lg_start l) 0 (head_blocks (d (lg_start l))) (binit d n)" and bc: "bc l = binit d n"
  shows "\<exists>l'. recover_from_log l = Inr l' \<and>
     (\<forall>b. b \<notin> log_area (lg_start l) \<longrightarrow>
        memdisk (bc l') b = apply_writes d (install_writes d (lg_start l) 0 (head_blocks (d (lg_start l)))) b)"
proof -
  let ?s = "lg_start l" and ?bs = "head_blocks (d (lg_start l))"
  have s: "?s < n" "?s \<in> log_area ?s" using f by (auto simp: log_fits_def log_area_def)
  obtain c1 where c1: "read_head l = Inr (l\<lparr>lh := ?bs, bc := c1\<rparr>)" "wrote (bc l) [] {} c1"
    using read_head_ok[of l] s(1) binit_ok bc by auto
  have "log_fits ?s 0 ?bs c1" using f c1(2) bc by (simp add: log_fits_def wrote_def)
  from install_loop_ok[OF this] obtain c2 where c2: "install_loop ?s 0 ?bs c1 = Inr c2"
    "wrote c1 (install_writes d ?s 0 ?bs) (set ?bs) c2" using c1(2) bc by (auto simp: wrote_def)
  obtain c3 where c3: "write_head (l\<lparr>lh := [], bc := c2\<rparr>) = Inr (l\<lparr>lh := [], bc := c3\<rparr>)"
    "wrote c2 [(?s, head_block [] (view c2 ?s))] {} c3"
    using write_head_ok[of "l\<lparr>lh := [], bc := c2\<rparr>"] c1(2) c2(2) s(1) bc by (auto simp: wrote_def)
  have sw: "l\<lparr>bc := c2, lh := []\<rparr> = l\<lparr>lh := [], bc := c2\<rparr>" by simp
  have "recover_from_log l = Inr (l\<lparr>lh := [], bc := c3\<rparr>)"
    using c1(1) c2(1) c3(1) by (simp add: recover_from_log_def install_trans_def sw)
  moreover have "memdisk c3 b = apply_writes d (install_writes d ?s 0 ?bs) b" if "b \<notin> log_area ?s" for b
    using c1(2) c2(2) c3(2) bc s(2) that by (auto simp: wrote_def)
  ultimately show ?thesis by auto
qed

lemma log_area_writes: "length bs \<le> LOGSIZE \<Longrightarrow> b \<notin> log_area start \<Longrightarrow> b \<notin> fst ` set (log_writes v start 0 bs)"
  by (auto simp: log_writes_fst log_area_def)

lemma take_writes_fst: "b \<notin> fst ` set ws \<Longrightarrow> b \<notin> fst ` set (take k ws)"
  using set_take_subset[of k ws] by blast

lemma length_log_writes [simp]: "length (log_writes v start tail bs) = length bs"
  by (induction v start tail bs rule: log_writes.induct) auto

text \<open>Before the header is written nothing is committed.\<close>

lemma crash_before:
  assumes r: "ready_to_commit l" and k: "k \<le> length (lh l)"
  defines "d \<equiv> apply_writes (memdisk (bc l)) (take k (commit_writes l))"
  shows "head_blocks (d (lg_start l)) = [] \<and> (\<forall>b. b \<notin> log_area (lg_start l) \<longrightarrow> d b = memdisk (bc l) b)"
proof -
  let ?w = "log_writes (view (bc l)) (lg_start l) 0 (lh l)"
  have d: "d = apply_writes (memdisk (bc l)) (take k ?w)" using k by (simp add: d_def commit_writes_def Let_def)
  have "lg_start l \<notin> fst ` set (take k ?w)" by (intro take_writes_fst) (auto simp: log_writes_fst)
  then have "d (lg_start l) = memdisk (bc l) (lg_start l)" unfolding d by (rule apply_writes_notin)
  moreover have "d b = memdisk (bc l) b" if "b \<notin> log_area (lg_start l)" for b
    unfolding d using r log_area_writes[OF _ that] by (intro apply_writes_notin take_writes_fst) (simp add: ready_to_commit_def)
  ultimately show ?thesis using r by (simp add: ready_to_commit_def head_blocks_def)
qed

text \<open>Once it is written, the log holds the whole transaction until all of it is in place.\<close>

lemma crash_after:
  assumes r: "ready_to_commit l" and k: "length (lh l) < k"
  defines "d \<equiv> apply_writes (memdisk (bc l)) (take k (commit_writes l))"
  shows "(head_blocks (d (lg_start l)) = lh l \<or> head_blocks (d (lg_start l)) = []) \<and>
     (\<forall>b. b \<notin> log_area (lg_start l) \<longrightarrow>
        apply_writes d (install_writes d (lg_start l) 0 (head_blocks (d (lg_start l)))) b = view (bc l) b)"
proof -
  let ?s = "lg_start l" and ?v = "view (bc l)" and ?n = "length (lh l)"
  define h where "h = head_block (lh l) (?v ?s)"
  define inst where "inst = map (\<lambda>b. (b, ?v b)) (lh l)"
  define d1 where "d1 = (apply_writes (memdisk (bc l)) (log_writes ?v ?s 0 (lh l)))(?s := h)"
  have n: "?n < LOGSIZE" "set (lh l) \<inter> log_area ?s = {}" using r by (auto simp: ready_to_commit_def)
  have "?v ?s = memdisk (bc l) ?s"
    using r n(2) by (intro view_disk) (auto simp: ready_to_commit_def log_area_def)
  then have vs: "length (?v ?s) = BSIZE" using r by (simp add: ready_to_commit_def)
  have dec: "head_blocks h = lh l"
    using r vs unfolding h_def by (intro head_block_decode) (auto simp: ready_to_commit_def list_all_iff)
  have fstin: "fst ` set inst = set (lh l)" by (force simp: inst_def)
  have clean: "memdisk (bc l) b = ?v b" if "b \<notin> set (lh l)" for b
    using r that view_disk[of "bc l" b] by (simp add: ready_to_commit_def)
  have d1out: "d1 b = memdisk (bc l) b" if "b \<notin> log_area ?s" for b
    using that n(1) log_area_writes[of "lh l" b ?s ?v] unfolding d1_def by (auto simp: apply_writes_notin log_area_def)
  have full: "apply_writes d' inst b = ?v b" if "b \<notin> log_area ?s" "\<And>b. b \<notin> log_area ?s \<Longrightarrow> b \<notin> set (lh l) \<Longrightarrow> d' b = ?v b" for d' b
    using that fstin apply_home[of b "lh l" d' ?v] by (cases "b \<in> set (lh l)") (auto simp: inst_def[symmetric] apply_writes_notin)
  have cw: "commit_writes l = log_writes ?v ?s 0 (lh l) @ [(?s, h)] @ inst @ [(?s, head_block [] h)]"
    by (simp add: commit_writes_def Let_def h_def inst_def)
  obtain j where j: "k = Suc (?n + j)" using k less_iff_Suc_add by auto
  have d: "d = apply_writes d1 (take j (inst @ [(?s, head_block [] h)]))"
    by (simp add: d_def cw j d1_def apply_writes_append)
  show ?thesis
  proof (cases "j \<le> ?n")
    case True
    then have dj: "d = apply_writes d1 (take j inst)" by (simp add: d inst_def)
    have out: "d b = d1 b" if "b \<notin> set (lh l)" for b
      unfolding dj using that fstin by (intro apply_writes_notin take_writes_fst) simp
    have "?s \<notin> set (lh l)" using n(2) by (auto simp: log_area_def)
    then have hd: "head_blocks (d ?s) = lh l" using out dec by (simp add: d1_def)
    have "d (?s + 0 + i + 1) = ?v (lh l ! i)" if i: "i < ?n" for i
    proof -
      have "?s + i + 1 \<notin> set (lh l)" using n i by (auto simp: log_area_def)
      then show ?thesis using out log_writes_apply[OF i, of "memdisk (bc l)" ?v ?s 0] by (simp add: d1_def)
    qed
    then have "install_writes d ?s 0 (lh l) = inst" unfolding inst_def by (rule install_writes_logged)
    then show ?thesis using hd full[of _ d] out d1out clean by auto
  next
    case False
    then have dj: "d = (apply_writes d1 inst)(?s := head_block [] h)" by (simp add: d inst_def apply_writes_append)
    have "head_blocks (d ?s) = []" using vs head_block_clear[of h] by (simp add: dj h_def)
    moreover have "d b = ?v b" if "b \<notin> log_area ?s" for b
      using that full[of b d1] d1out clean by (auto simp: dj log_area_def)
    ultimately show ?thesis by simp
  qed
qed



section \<open>Logged writes\<close>

text \<open>The invariant between the buffer operations of a transaction.\<close>

definition txn_ok :: "logst \<Rightarrow> bool" where
  "txn_ok l \<longleftrightarrow> bc_ok (bc l) \<and> held (bc l) = {} \<and> pinned (bc l) = set (lh l) \<and>
     set (lh l) \<inter> log_area (lg_start l) = {} \<and> distinct (lh l) \<and> length (lh l) < LOGSIZE \<and>
     lg_start l + LOGSIZE < disksize (bc l) \<and> (\<forall>b \<in> set (lh l). b < disksize (bc l)) \<and> disksize (bc l) \<le> 2 ^ 32 \<and>
     length (memdisk (bc l) (lg_start l)) = BSIZE \<and> head_count (memdisk (bc l) (lg_start l)) = 0"

lemma txn_ready: "txn_ok l \<Longrightarrow> lh l \<noteq> [] \<Longrightarrow> ready_to_commit l"
  by (simp add: txn_ok_def ready_to_commit_def)

text \<open>The typical use of \<open>log_write\<close> in its comment: read, change, log, release.\<close>

definition logged_update :: "nat \<Rightarrow> (block \<Rightarrow> block) \<Rightarrow> logst \<Rightarrow> logst kernel" where
  "logged_update b f l =
     kbind (bread 1 b (bc l)) (\<lambda>(i, c1).
     kbind (log_write i (l\<lparr>bc := set_data i (f (b_data (bufs c1 ! i))) c1\<rparr>)) (\<lambda>l1.
     kbind (brelse i (bc l1)) (\<lambda>c2. Inr (l1\<lparr>bc := c2\<rparr>))))"

lemma logged_update_ok:
  assumes t: "txn_ok l" and b: "b < disksize (bc l)" "b \<notin> log_area (lg_start l)"
    and room: "length (lh l) + 1 < lg_size l" "lg_size l \<le> LOGSIZE" and o: "1 \<le> outstanding l"
  shows "\<exists>c. logged_update b f l = Inr (l\<lparr>lh := (if b \<in> set (lh l) then lh l else lh l @ [b]), bc := c\<rparr>) \<and>
     txn_ok (l\<lparr>lh := (if b \<in> set (lh l) then lh l else lh l @ [b]), bc := c\<rparr>) \<and>
     view c = (view (bc l))(b := f (view (bc l) b)) \<and> memdisk c = memdisk (bc l) \<and> history c = history (bc l) \<and>
     disksize c = disksize (bc l)"
proof -
  have st: "bc_ok (bc l)" "held (bc l) = {}" "pinned (bc l) = set (lh l)" "length (lh l) < LOGSIZE" "distinct (lh l)"
    using t by (auto simp: txn_ok_def)
  have "card (held (bc l) \<union> pinned (bc l)) < NBUF" using st distinct_card[of "lh l"] by simp
  then obtain i c1 where r: "bread 1 b (bc l) = Inr (i, c1)" "reads (bc l) b i c1"
    using bread_ok[OF st(1) b(1)] st(2) by auto
  have h1: "bc_ok c1" "holds c1 b i" "b_data (bufs c1 ! i) = view (bc l) b" "view c1 = view (bc l)" "held c1 = {b}"
    "pinned c1 = set (lh l)" "memdisk c1 = memdisk (bc l)" "history c1 = history (bc l)" "disksize c1 = disksize (bc l)"
    using r(2) st by (auto simp: reads_def holds_def)
  let ?d = "f (view (bc l) b)"
  define c2 where "c2 = set_data i ?d c1"
  have h2: "bc_ok c2" "holds c2 b i" "view c2 = (view (bc l))(b := ?d)" "held c2 = {b}" "pinned c2 = set (lh l)"
    "memdisk c2 = memdisk (bc l)" "history c2 = history (bc l)" "disksize c2 = disksize (bc l)"
    using set_data_ok[OF h1(1,2), of ?d] h1 by (simp_all add: c2_def frame_def)
  define c3 where "c3 = mark_dirty i c2"
  have h3: "bc_ok c3" "holds c3 b i" "view c3 = (view (bc l))(b := ?d)" "held c3 = {b}" "pinned c3 = insert b (set (lh l))"
    "memdisk c3 = memdisk (bc l)" "history c3 = history (bc l)" "disksize c3 = disksize (bc l)"
    using mark_dirty_ok[OF h2(1,2)] h2 by (simp_all add: c3_def frame_def)
  obtain c4 where c4: "brelse i c3 = Inr c4" "bc_ok c4" "view c4 = view c3" "held c4 = {}" "pinned c4 = pinned c3"
    "memdisk c4 = memdisk c3" "history c4 = history c3" "disksize c4 = disksize c3"
    using brelse_ok[OF h3(1,2)] h3 by (auto simp: frame_def)
  let ?lh = "if b \<in> set (lh l) then lh l else lh l @ [b]"
  have bn: "b_blockno (bufs c2 ! i) = b" using h2(2) by (simp add: holds_def slot_of_def)
  have "log_write i (l\<lparr>bc := c2\<rparr>) = Inr (l\<lparr>lh := ?lh, bc := c3\<rparr>)"
    using st(4) room o bn by (simp add: log_write_def c3_def)
  then have "logged_update b f l = Inr (l\<lparr>lh := ?lh, bc := c4\<rparr>)"
    using r(1) c4(1) h1(3) by (simp add: logged_update_def c2_def)
  moreover have "txn_ok (l\<lparr>lh := ?lh, bc := c4\<rparr>)"
    using t c4 h3 b room by (auto simp: txn_ok_def)
  ultimately show ?thesis using c4 h3 by auto
qed

text \<open>
  a logged write (\<open>bread\<close>, change, \<open>log_write\<close>, \<open>brelse\<close>, as the comment of \<open>log_write\<close> in
  \<open>log.c\<close> prescribes) inside a transaction with room in the log: nothing reaches the disk, the
  cache shows the new contents, the block is in the header once (absorption) and its buffer is
  pinned, and the invariant under which \<open>commit\<close> is crash safe holds again.
\<close>

theorem log_write_pins_block:
  assumes "txn_ok l" "b < disksize (bc l)" "b \<notin> log_area (lg_start l)"
    "length (lh l) + 1 < lg_size l" "lg_size l \<le> LOGSIZE" "1 \<le> outstanding l"
  shows "\<exists>l'. logged_update b f l = Inr l' \<and> txn_ok l' \<and> set (lh l') = insert b (set (lh l)) \<and>
     view (bc l') = (view (bc l))(b := f (view (bc l) b)) \<and> memdisk (bc l') = memdisk (bc l) \<and>
     history (bc l') = history (bc l)"
  using logged_update_ok[OF assms, of f] by (fastforce split: if_splits)

definition log_sample :: logst where
  "log_sample = \<lparr>lg_start = 2, lg_size = 30, outstanding = 1, committing = False, lh = [],
     bc = binit (\<lambda>_. zero_block) 1000\<rparr>"

lemma log_sample_ok: "txn_ok log_sample"
proof -
  have "get32 zero_block 0 = 0" by (simp add: get32_def zero_block_def)
  then have "head_count zero_block = 0" by (simp add: head_count_def)
  then show ?thesis using binit_ok by (simp add: txn_ok_def log_sample_def)
qed

lemma log_sample_write:
  "\<exists>l'. logged_update 100 (\<lambda>_. replicate BSIZE 7) log_sample = Inr l' \<and> txn_ok l' \<and> lh l' = [100]"
  using logged_update_ok[OF log_sample_ok, of 100 "\<lambda>_. replicate BSIZE 7"]
  by (auto simp: log_sample_def log_area_def)

theorem log_write_pins_block_witness:
  "\<exists>l'. logged_update 100 (\<lambda>_. replicate BSIZE 7) log_sample = Inr l' \<and>
     view (bc l') 100 = replicate BSIZE 7 \<and> memdisk (bc l') 100 = zero_block"
proof -
  have "memdisk (bc log_sample) 100 = zero_block" by (simp add: log_sample_def)
  then show ?thesis
    using log_write_pins_block[OF log_sample_ok, of 100 "\<lambda>_. replicate BSIZE 7"]
    by (auto simp: log_sample_def log_area_def)
qed


text \<open>
  \<open>begin_op\<close> (\<open>log.c\<close>) admits three operations of up to \<open>MAXOPBLOCKS\<close> blocks at a time, 30
  blocks in all, but with the log of 30 blocks that \<open>mkfs\<close> lays out (one of them the header)
  \<open>log_write\<close> panics on the thirtieth block of the transaction.
\<close>

theorem begin_op_overcommits:
  assumes "lh l = []" "outstanding l = 0" "\<not> committing l" "lg_size l = LOGSIZE"
  shows "\<exists>l1 l2 l3. begin_op l = Some l1 \<and> begin_op l1 = Some l2 \<and> begin_op l2 = Some l3 \<and>
    (\<forall>bs i. length bs = 3 * MAXOPBLOCKS - 1 \<longrightarrow> log_write i (l3\<lparr>lh := bs\<rparr>) = panic ''too big a transaction'')"
  using assms by (simp add: begin_op_def log_write_def)

theorem begin_op_overcommits_witness:
  "\<exists>l1 l2 l3. begin_op (log_sample\<lparr>outstanding := 0\<rparr>) = Some l1 \<and> begin_op l1 = Some l2 \<and> begin_op l2 = Some l3 \<and>
    log_write 0 (l3\<lparr>lh := [100..<129]\<rparr>) = panic ''too big a transaction''"
proof -
  let ?l = "log_sample\<lparr>outstanding := 0\<rparr>"
  have p: "lh ?l = []" "outstanding ?l = 0" "\<not> committing ?l" "lg_size ?l = LOGSIZE" by (simp_all add: log_sample_def)
  have "length [100..<129] = 3 * MAXOPBLOCKS - 1" by (simp del: upt_rec_numeral)
  then show ?thesis using begin_op_overcommits[OF p] by blast
qed

end
