(* ===== verification/Fs_Block.thy ===== *)
theory Fs_Block
  imports Log
begin

text \<open>
  The block layer of \<open>fs.c\<close>: superblock, zeroing, the free bitmap. The code reads and changes
  blocks between \<open>bread\<close> and \<open>brelse\<close>, inside a transaction. By the contract of the buffer cache
  and of the log such a bracket acts on the blocks as the cache shows them and on the list of
  blocks in the log header; \<open>rd_block\<close> and \<open>wr_block\<close> are these two effects, with the panics of
  \<open>iderw\<close> and \<open>log_write\<close>, and \<open>wr_block_refines\<close>, \<open>rd_block_refines\<close> tie them to the detailed model.
  Results: \<open>balloc\<close> returns the lowest free block, zeroed, and marks it alone; \<open>bfree\<close> clears its
  bit alone.
\<close>

section \<open>Blocks seen through cache and log\<close>

record blkst =
  blocks :: "nat \<Rightarrow> block"
  nblk :: nat
  hdr :: "nat list"
  loglen :: nat
  ops :: int

definition rd_block :: "nat \<Rightarrow> 'a blkst_scheme \<Rightarrow> block kernel" where
  "rd_block b s = (if nblk s \<le> b then panic ''iderw: block out of range'' else Inr (blocks s b))"

definition add_hdr :: "nat \<Rightarrow> nat list \<Rightarrow> nat list" where
  "add_hdr b h = (if b \<in> set h then h else h @ [b])"

definition wr_block :: "nat \<Rightarrow> block \<Rightarrow> 'a blkst_scheme \<Rightarrow> 'a blkst_scheme kernel" where
  "wr_block b d s =
     (if nblk s \<le> b then panic ''iderw: block out of range''
      else if LOGSIZE \<le> length (hdr s) \<or> int (loglen s) - 1 \<le> int (length (hdr s)) then panic ''too big a transaction''
      else if ops s < 1 then panic ''log_write outside of trans''
      else Inr (s\<lparr>blocks := (blocks s)(b := d), hdr := add_hdr b (hdr s)\<rparr>))"

definition blkst_of :: "logst \<Rightarrow> blkst" where
  "blkst_of l = \<lparr>blocks = view (bc l), nblk = disksize (bc l), hdr = lh l, loglen = lg_size l, ops = outstanding l\<rparr>"

text \<open>Room for \<open>k\<close> more blocks in the log of the running transaction.\<close>

definition room :: "nat \<Rightarrow> 'a blkst_scheme \<Rightarrow> bool" where
  "room k s \<longleftrightarrow> length (hdr s) + k \<le> LOGSIZE \<and> length (hdr s) + k < loglen s \<and> 1 \<le> ops s"

lemma room_mono: "room k s \<Longrightarrow> j \<le> k \<Longrightarrow> room j s"
  by (auto simp: room_def)

lemma length_add_hdr: "length (add_hdr b h) \<le> Suc (length h)"
  by (simp add: add_hdr_def)

lemma wr_block_ok:
  assumes "room (Suc k) s" "b < nblk s"
  shows "wr_block b d s = Inr (s\<lparr>blocks := (blocks s)(b := d), hdr := add_hdr b (hdr s)\<rparr>)"
    and "room k (s\<lparr>blocks := (blocks s)(b := d), hdr := add_hdr b (hdr s)\<rparr>)"
  using assms length_add_hdr[of b "hdr s"] by (auto simp: wr_block_def room_def)

lemma rd_block_ok [simp]: "b < nblk s \<Longrightarrow> rd_block b s = Inr (blocks s b)"
  by (simp add: rd_block_def)



section \<open>State of the block layer\<close>

abbreviation BPB :: nat where "BPB \<equiv> 4096"
abbreviation IPB :: nat where "IPB \<equiv> 8"

record fsb = blkst +
  sb :: superblock

definition IBLOCK :: "nat \<Rightarrow> superblock \<Rightarrow> nat" where
  "IBLOCK i sp = i div IPB + sb_inodestart sp"

definition BBLOCK :: "nat \<Rightarrow> superblock \<Rightarrow> nat" where
  "BBLOCK b sp = b div BPB + sb_bmapstart sp"

section \<open>Operations\<close>

definition superblock_of :: "block \<Rightarrow> superblock" where
  "superblock_of d = \<lparr>sb_size = get_nat d 0, sb_nblocks = get_nat d 4, sb_ninodes = get_nat d 8, sb_nlog = get_nat d 12,
     sb_logstart = get_nat d 16, sb_inodestart = get_nat d 20, sb_bmapstart = get_nat d 24\<rparr>"

definition fs_readsb :: "'a fsb_scheme \<Rightarrow> 'a fsb_scheme kernel" where
  "fs_readsb s = kbind (rd_block 1 s) (\<lambda>d. Inr (s\<lparr>sb := superblock_of d\<rparr>))"

definition bzero :: "nat \<Rightarrow> 'a fsb_scheme \<Rightarrow> 'a fsb_scheme kernel" where
  "bzero b s = kbind (rd_block b s) (\<lambda>_. wr_block b zero_block s)"

text \<open>Bit \<open>bi\<close> of a bitmap block: test, set, clear.\<close>

definition bit_mask :: "nat \<Rightarrow> byte" where
  "bit_mask bi = push_bit (bi mod 8) 1"

definition bit_clear :: "block \<Rightarrow> nat \<Rightarrow> bool" where
  "bit_clear d bi \<longleftrightarrow> d ! (bi div 8) AND bit_mask bi = 0"

definition mark_bit :: "nat \<Rightarrow> block \<Rightarrow> block" where
  "mark_bit bi d = d[bi div 8 := d ! (bi div 8) OR bit_mask bi]"

definition unmark_bit :: "nat \<Rightarrow> block \<Rightarrow> block" where
  "unmark_bit bi d = d[bi div 8 := d ! (bi div 8) AND NOT (bit_mask bi)]"

text \<open>The inner loop of \<open>balloc\<close>: the first clear bit of the bitmap block for \<open>b\<close>.\<close>

definition first_clear :: "block \<Rightarrow> nat \<Rightarrow> nat \<Rightarrow> nat option" where
  "first_clear d b n = List.find (bit_clear d) [0..<min BPB (n - b)]"

function balloc_loop :: "nat \<Rightarrow> 'a fsb_scheme \<Rightarrow> (nat \<times> 'a fsb_scheme) kernel" where
  "balloc_loop b s =
     (if b < sb_size (sb s) then
        kbind (rd_block (BBLOCK b (sb s)) s) (\<lambda>d.
          case first_clear d b (sb_size (sb s)) of
            Some bi \<Rightarrow>
              kbind (wr_block (BBLOCK b (sb s)) (mark_bit bi d) s) (\<lambda>s1.
              kbind (bzero (b + bi) s1) (\<lambda>s2. Inr (b + bi, s2)))
          | None \<Rightarrow> balloc_loop (b + BPB) s)
      else panic ''balloc: out of blocks'')"
  by pat_completeness auto
termination by (relation "measure (\<lambda>(b, s). sb_size (sb s) - b)") auto

declare balloc_loop.simps [simp del]

definition balloc :: "'a fsb_scheme \<Rightarrow> (nat \<times> 'a fsb_scheme) kernel" where
  "balloc s = balloc_loop 0 s"

definition bfree :: "nat \<Rightarrow> 'a fsb_scheme \<Rightarrow> 'a fsb_scheme kernel" where
  "bfree b s = kbind (fs_readsb s) (\<lambda>s1. kbind (rd_block (BBLOCK b (sb s1)) s1) (\<lambda>d.
     if bit_clear d (b mod BPB) then panic ''freeing free block''
     else wr_block (BBLOCK b (sb s1)) (unmark_bit (b mod BPB) d) s1))"

section \<open>Invariant\<close>

definition used :: "'a fsb_scheme \<Rightarrow> nat \<Rightarrow> bool" where
  "used s b \<longleftrightarrow> \<not> bit_clear (blocks s (BBLOCK b (sb s))) (b mod BPB)"

definition datastart :: "superblock \<Rightarrow> nat" where
  "datastart sp = sb_bmapstart sp + sb_size sp div BPB + 1"

text \<open>The layout of the comment in \<open>fs.h\<close>, as \<open>mkfs\<close> lays it out.\<close>

definition layout :: "superblock \<Rightarrow> bool" where
  "layout sp \<longleftrightarrow> 1 < sb_logstart sp \<and> sb_logstart sp + sb_nlog sp \<le> sb_inodestart sp \<and>
     sb_inodestart sp + sb_ninodes sp div IPB + 1 \<le> sb_bmapstart sp \<and> datastart sp \<le> sb_size sp \<and>
     sb_size sp < 2 ^ 31"

definition fsb_ok :: "'a fsb_scheme \<Rightarrow> bool" where
  "fsb_ok s \<longleftrightarrow> layout (sb s) \<and> superblock_of (blocks s 1) = sb s \<and> sb_size (sb s) \<le> nblk s \<and>
     (\<forall>b. length (blocks s b) = BSIZE) \<and> (\<forall>b < datastart (sb s). used s b)"

definition is_data :: "'a fsb_scheme \<Rightarrow> nat \<Rightarrow> bool" where
  "is_data s b \<longleftrightarrow> datastart (sb s) \<le> b \<and> b < sb_size (sb s)"

section \<open>Bits of the bitmap\<close>

lemma bit_clear_iff: "bit_clear d bi \<longleftrightarrow> \<not> bit (d ! (bi div 8)) (bi mod 8)"
proof -
  have m: "bi mod 8 < 8" by simp
  have *: "bit (d ! (bi div 8) AND bit_mask bi) k = (bit (d ! (bi div 8)) k \<and> k = bi mod 8)" for k
    using m by (auto simp: bit_mask_def bit_simps)
  show ?thesis
  proof (cases "bit (d ! (bi div 8)) (bi mod 8)")
    case True
    then have "bit (d ! (bi div 8) AND bit_mask bi) (bi mod 8)" by (simp only: *)
    then show ?thesis using True by (auto simp: bit_clear_def)
  next
    case False
    then have "d ! (bi div 8) AND bit_mask bi = 0" by (intro bit_word_eqI) (simp only: *, auto)
    then show ?thesis using False by (simp add: bit_clear_def)
  qed
qed

lemma bit_clear_mark: "bi div 8 < length d \<Longrightarrow> bit_clear (mark_bit bi d) bj \<longleftrightarrow> bit_clear d bj \<and> bj \<noteq> bi"
proof -
  assume l: "bi div 8 < length d"
  have "bj = bi \<longleftrightarrow> bj div 8 = bi div 8 \<and> bj mod 8 = bi mod 8"
    by (metis div_mult_mod_eq)
  then show ?thesis
    using l by (auto simp: bit_clear_iff mark_bit_def bit_mask_def bit_simps nth_list_update)
qed

lemma bit_clear_unmark: "bi div 8 < length d \<Longrightarrow> bit_clear (unmark_bit bi d) bj \<longleftrightarrow> bit_clear d bj \<or> bj = bi"
proof -
  assume l: "bi div 8 < length d"
  have "bj = bi \<longleftrightarrow> bj div 8 = bi div 8 \<and> bj mod 8 = bi mod 8"
    by (metis div_mult_mod_eq)
  then show ?thesis
    using l by (auto simp: bit_clear_iff unmark_bit_def bit_mask_def bit_simps nth_list_update)
qed

lemma length_mark [simp]: "length (mark_bit bi d) = length d" "length (unmark_bit bi d) = length d"
  by (simp_all add: mark_bit_def unmark_bit_def)

lemma fsb_okD:
  assumes "fsb_ok s"
  shows "layout (sb s)" "superblock_of (blocks s 1) = sb s" "sb_size (sb s) \<le> nblk s" "length (blocks s b) = BSIZE"
    "b < datastart (sb s) \<Longrightarrow> used s b"
  using assms by (simp_all add: fsb_ok_def)

lemma layout_bblock:
  assumes "layout sp" "b < sb_size sp"
  shows "1 < BBLOCK b sp" "BBLOCK b sp < datastart sp" "datastart sp \<le> sb_size sp"
proof -
  have "b div BPB \<le> sb_size sp div BPB" using assms by (intro div_le_mono) simp
  then show "BBLOCK b sp < datastart sp" by (simp add: BBLOCK_def datastart_def)
qed (use assms in \<open>auto simp: layout_def BBLOCK_def\<close>)

lemma bblock_inj: "BBLOCK b sp = BBLOCK c sp \<Longrightarrow> b mod BPB = c mod BPB \<Longrightarrow> b = c"
  unfolding BBLOCK_def by (metis add_right_cancel div_mult_mod_eq)

text \<open>What changes when block \<open>b\<close> of the disk is replaced.\<close>

lemma used_data_upd:
  assumes "fsb_ok s" "b < sb_size (sb s)" "is_data s c"
  shows "used (s\<lparr>blocks := (blocks s)(c := d), hdr := h\<rparr>) b = used s b"
  using layout_bblock[OF fsb_okD(1)[OF assms(1)] assms(2)] assms(3) by (auto simp: used_def is_data_def)

text \<open>A change of data blocks keeps the invariant and the bitmap.\<close>

definition same_meta :: "'a fsb_scheme \<Rightarrow> 'a fsb_scheme \<Rightarrow> bool" where
  "same_meta s s' \<longleftrightarrow> sb s' = sb s \<and> nblk s' = nblk s \<and> loglen s' = loglen s \<and> ops s' = ops s"

lemma fsb_ok_upd:
  assumes s: "fsb_ok s" and l: "length d = BSIZE"
    and c: "c \<noteq> 1" "\<forall>b < datastart (sb s). used (s\<lparr>blocks := (blocks s)(c := d), hdr := h\<rparr>) b"
  shows "fsb_ok (s\<lparr>blocks := (blocks s)(c := d), hdr := h\<rparr>)"
  using assms by (simp add: fsb_ok_def)

lemma fsb_ok_data_upd:
  assumes "fsb_ok s" "length d = BSIZE" "is_data s c"
  shows "fsb_ok (s\<lparr>blocks := (blocks s)(c := d), hdr := h\<rparr>)"
proof (rule fsb_ok_upd[OF assms(1,2)])
  have L: "layout (sb s)" by (rule fsb_okD(1)[OF assms(1)])
  show "c \<noteq> 1" using L assms(3) by (auto simp: is_data_def layout_def datastart_def)
  show "\<forall>b < datastart (sb s). used (s\<lparr>blocks := (blocks s)(c := d), hdr := h\<rparr>) b"
  proof (intro allI impI)
    fix b assume b: "b < datastart (sb s)"
    then have "b < sb_size (sb s)" using L by (auto simp: layout_def)
    then show "used (s\<lparr>blocks := (blocks s)(c := d), hdr := h\<rparr>) b"
      using used_data_upd[OF assms(1) _ assms(3)] fsb_okD(5)[OF assms(1) b] by blast
  qed
qed

section \<open>Allocation\<close>

lemma first_clear_Some:
  "first_clear d b n = Some bi \<Longrightarrow> bi < BPB \<and> b + bi < n \<and> bit_clear d bi \<and> (\<forall>j < bi. \<not> bit_clear d j)"
  by (auto simp: first_clear_def find_Some_iff)

lemma first_clear_None: "first_clear d b n = None \<Longrightarrow> j < BPB \<Longrightarrow> b + j < n \<Longrightarrow> \<not> bit_clear d j"
  by (auto simp: first_clear_def find_None_iff)

text \<open>The state after block \<open>a\<close> was allocated.\<close>

definition allocated :: "nat \<Rightarrow> 'a fsb_scheme \<Rightarrow> 'a fsb_scheme" where
  "allocated a s = s\<lparr>blocks := (blocks s)(BBLOCK a (sb s) := mark_bit (a mod BPB) (blocks s (BBLOCK a (sb s))), a := zero_block),
     hdr := add_hdr a (add_hdr (BBLOCK a (sb s)) (hdr s))\<rparr>"

lemma balloc_loop_ok:
  assumes s: "fsb_ok s" and r: "room (k + 2) s" and b: "BPB dvd b"
    and prev: "\<forall>c < b. used s c" and free: "a < sb_size (sb s)" "\<not> used s a" "\<forall>c < a. used s c"
  shows "balloc_loop b s = Inr (a, allocated a s) \<and> room k (allocated a s)"
  using s r b prev free
proof (induction b s rule: balloc_loop.induct)
  case (1 b s)
  note s = "1.prems"(1) and r = "1.prems"(2)
  have ba: "b \<le> a" using "1.prems"(4,6) by (meson not_le)
  have bs: "b < sb_size (sb s)" using ba "1.prems"(5) by simp
  note L = layout_bblock[OF fsb_okD(1)[OF s] bs]
  have n: "BBLOCK b (sb s) < nblk s" using L fsb_okD(3)[OF s] by simp
  let ?d = "blocks s (BBLOCK b (sb s))"
  have bit: "bit_clear ?d j \<longleftrightarrow> \<not> used s (b + j)" if "j < BPB" for j
    using that "1.prems"(3) by (auto simp: used_def BBLOCK_def)
  show ?case
  proof (cases "first_clear ?d b (sb_size (sb s))")
    case (Some bi)
    note f = first_clear_Some[OF Some]
    have "\<not> used s (b + bi)" using f bit by blast
    moreover have "used s c" if "c < b + bi" for c
      using that "1.prems"(4) f bit[of "c - b"] by (cases "c < b") auto
    ultimately have a: "a = b + bi" using "1.prems"(6,7) by (metis linorder_neqE_nat)
    have eq: "BBLOCK a (sb s) = BBLOCK b (sb s)" "a mod BPB = bi" using a f "1.prems"(3) by (auto simp: BBLOCK_def)
    let ?s1 = "s\<lparr>blocks := (blocks s)(BBLOCK b (sb s) := mark_bit bi ?d), hdr := add_hdr (BBLOCK b (sb s)) (hdr s)\<rparr>"
    have w: "wr_block (BBLOCK b (sb s)) (mark_bit bi ?d) s = Inr ?s1" "room (Suc k) ?s1"
      using wr_block_ok[of "Suc k" s "BBLOCK b (sb s)"] r n by simp_all
    have an: "a < nblk ?s1" using "1.prems"(5) fsb_okD(3)[OF s] by simp
    note w2 = wr_block_ok[OF w(2) an, of zero_block]
    have "bzero (b + bi) ?s1 = Inr (allocated a s)"
      using w2(1) an a eq by (simp add: bzero_def allocated_def)
    then show ?thesis using w w2(2) n Some bs a eq
      by (subst balloc_loop.simps) (simp add: allocated_def)
  next
    case None
    have u: "used s (b + j)" if "j < BPB" "b + j < sb_size (sb s)" for j
      using first_clear_None[OF None that] bit[OF that(1)] by simp
    have "b + BPB \<le> a"
    proof (rule ccontr)
      assume "\<not> b + BPB \<le> a"
      then have "used s (b + (a - b))" using u[of "a - b"] ba "1.prems"(5) by simp
      then show False using ba "1.prems"(6) by simp
    qed
    then have "\<forall>c < b + BPB. used s c" using "1.prems"(7) by simp
    then have "balloc_loop (b + BPB) s = Inr (a, allocated a s) \<and> room k (allocated a s)"
      using "1.IH"[of ?d] bs None "1.prems" n by (simp add: dvd_add)
    then show ?thesis using n None bs by (subst balloc_loop.simps) simp
  qed
qed

text \<open>Changing a block of the bitmap changes the bits it holds.\<close>

lemma data_not_bitmap:
  assumes "layout (sb s)" "is_data s a" "b < sb_size (sb s)"
  shows "a \<noteq> BBLOCK b (sb s)" "a \<noteq> 1"
  using layout_bblock[OF assms(1,3)] assms(2) by (auto simp: is_data_def)

lemma bitmap_upd:
  assumes s: "fsb_ok s" and a: "is_data s a" and l: "length d = BSIZE"
    and d: "\<And>j. j < BPB \<Longrightarrow> j \<noteq> a mod BPB \<Longrightarrow> bit_clear d j = bit_clear (blocks s (BBLOCK a (sb s))) j"
  shows "fsb_ok (s\<lparr>blocks := (blocks s)(BBLOCK a (sb s) := d), hdr := h\<rparr>)"
    and "c < sb_size (sb s) \<Longrightarrow> used (s\<lparr>blocks := (blocks s)(BBLOCK a (sb s) := d), hdr := h\<rparr>) c \<longleftrightarrow>
       (if c = a then \<not> bit_clear d (a mod BPB) else used s c)"
proof -
  have u: "used (s\<lparr>blocks := (blocks s)(BBLOCK a (sb s) := d), hdr := h\<rparr>) c \<longleftrightarrow>
       (if c = a then \<not> bit_clear d (a mod BPB) else used s c)" for c
  proof (cases "c \<noteq> a \<and> BBLOCK c (sb s) = BBLOCK a (sb s)")
    case True
    then have "c mod BPB \<noteq> a mod BPB" using bblock_inj by blast
    then show ?thesis using True d[of "c mod BPB"] by (simp add: used_def)
  qed (auto simp: used_def)
  show "fsb_ok (s\<lparr>blocks := (blocks s)(BBLOCK a (sb s) := d), hdr := h\<rparr>)"
  proof (rule fsb_ok_upd[OF s l])
    show "BBLOCK a (sb s) \<noteq> 1" using layout_bblock[OF fsb_okD(1)[OF s], of a] a by (simp add: is_data_def)
    show "\<forall>b < datastart (sb s). used (s\<lparr>blocks := (blocks s)(BBLOCK a (sb s) := d), hdr := h\<rparr>) b"
      using u fsb_okD(5)[OF s] a by (auto simp: is_data_def)
  qed
  show "c < sb_size (sb s) \<Longrightarrow> used (s\<lparr>blocks := (blocks s)(BBLOCK a (sb s) := d), hdr := h\<rparr>) c \<longleftrightarrow>
       (if c = a then \<not> bit_clear d (a mod BPB) else used s c)" by (rule u)
qed

lemma bit_index: "(b mod BPB) div 8 < BSIZE"
  using mod_less_divisor[of BPB b] by (intro div_less_iff_less_mult[THEN iffD2]) auto

lemma allocated_ok:
  assumes s: "fsb_ok s" and a: "is_data s a"
  shows "fsb_ok (allocated a s)" "c < sb_size (sb s) \<Longrightarrow> used (allocated a s) c \<longleftrightarrow> used s c \<or> c = a"
    "sb (allocated a s) = sb s" "nblk (allocated a s) = nblk s" "blocks (allocated a s) a = zero_block"
    "is_data s c \<Longrightarrow> c \<noteq> a \<Longrightarrow> blocks (allocated a s) c = blocks s c"
proof -
  let ?d = "mark_bit (a mod BPB) (blocks s (BBLOCK a (sb s)))"
  let ?s1 = "s\<lparr>blocks := (blocks s)(BBLOCK a (sb s) := ?d), hdr := add_hdr a (add_hdr (BBLOCK a (sb s)) (hdr s))\<rparr>"
  have L: "length ?d = BSIZE" using fsb_okD(4)[OF s] by simp
  have m: "bit_clear ?d j = (bit_clear (blocks s (BBLOCK a (sb s))) j \<and> j \<noteq> a mod BPB)" for j
    using fsb_okD(4)[OF s] bit_index by (intro bit_clear_mark) simp
  have 1: "fsb_ok ?s1" and u1: "c < sb_size (sb s) \<Longrightarrow> used ?s1 c \<longleftrightarrow> used s c \<or> c = a" for c
    using bitmap_upd[OF s a L] m by auto
  have eq: "allocated a s = ?s1\<lparr>blocks := (blocks ?s1)(a := zero_block), hdr := hdr ?s1\<rparr>" by (simp add: allocated_def)
  have a1: "is_data ?s1 a" using a by (simp add: is_data_def)
  show "fsb_ok (allocated a s)" using fsb_ok_data_upd[OF 1 length_zero_block a1] unfolding eq by blast
  show "c < sb_size (sb s) \<Longrightarrow> used (allocated a s) c \<longleftrightarrow> used s c \<or> c = a"
    using used_data_upd[OF 1 _ a1, of c "hdr ?s1" zero_block] u1 unfolding eq by simp
  have "a < sb_size (sb s)" using a by (simp add: is_data_def)
  then show "is_data s c \<Longrightarrow> c \<noteq> a \<Longrightarrow> blocks (allocated a s) c = blocks s c"
    using data_not_bitmap(1)[OF fsb_okD(1)[OF s]] by (auto simp: allocated_def)
qed (simp_all add: allocated_def)

lemma balloc_ok:
  assumes s: "fsb_ok s" and r: "room (k + 2) s" and f: "b < sb_size (sb s)" "\<not> used s b"
  obtains a where "balloc s = Inr (a, allocated a s)" "room k (allocated a s)" "is_data s a" "\<not> used s a" "a \<le> b"
    "\<forall>c < a. used s c"
proof -
  define a where "a = (LEAST c. \<not> used s c)"
  have a: "\<not> used s a" "a \<le> b" "\<forall>c < a. used s c"
    using LeastI[of "\<lambda>c. \<not> used s c", OF f(2)] Least_le[of "\<lambda>c. \<not> used s c", OF f(2)] not_less_Least
    unfolding a_def by blast+
  have "balloc_loop 0 s = Inr (a, allocated a s) \<and> room k (allocated a s)"
    using a f(1) by (intro balloc_loop_ok[OF s r]) auto
  moreover have "is_data s a" using a f(1) fsb_okD(5)[OF s] by (auto simp: is_data_def intro: leI)
  ultimately show ?thesis using a that by (simp add: balloc_def)
qed

lemma balloc_loop_full:
  "fsb_ok s \<Longrightarrow> \<forall>c < sb_size (sb s). used s c \<Longrightarrow> BPB dvd b \<Longrightarrow> balloc_loop b s = panic ''balloc: out of blocks''"
proof (induction b s rule: balloc_loop.induct)
  case (1 b s)
  show ?case
  proof (cases "b < sb_size (sb s)")
    case True
    have n: "BBLOCK b (sb s) < nblk s"
      using layout_bblock[OF fsb_okD(1)[OF "1.prems"(1)] True] fsb_okD(3)[OF "1.prems"(1)] by simp
    let ?d = "blocks s (BBLOCK b (sb s))"
    have "\<not> bit_clear ?d j" if "j < BPB" "b + j < sb_size (sb s)" for j
    proof -
      have "used s (b + j)" using "1.prems"(2) that by simp
      then show ?thesis using that "1.prems"(3) by (auto simp: used_def BBLOCK_def)
    qed
    then have "first_clear ?d b (sb_size (sb s)) = None" by (auto simp: first_clear_def find_None_iff)
    then show ?thesis using 1 True n by (subst balloc_loop.simps) (simp add: dvd_add)
  qed (subst balloc_loop.simps, simp)
qed

text \<open>
  \<open>balloc\<close> on a file system whose superblock and bitmap are consistent, with two free places
  in the log: when a block is free it returns the free data block of lowest number, zero-filled;
  that block is now marked in the bitmap, no other bit and no other data block is changed, and
  the file system is consistent again; when no block is free it panics.
\<close>

theorem balloc_correct:
  assumes "fsb_ok s" "room 2 s"
  shows "if \<exists>b < sb_size (sb s). \<not> used s b
    then \<exists>a s'. balloc s = Inr (a, s') \<and> is_data s a \<and> \<not> used s a \<and> (\<forall>c < a. used s c) \<and>
      fsb_ok s' \<and> blocks s' a = zero_block \<and> (\<forall>c < sb_size (sb s). used s' c \<longleftrightarrow> used s c \<or> c = a) \<and>
      (\<forall>c. is_data s c \<and> c \<noteq> a \<longrightarrow> blocks s' c = blocks s c)
    else balloc s = panic ''balloc: out of blocks''"
proof (cases "\<exists>b < sb_size (sb s). \<not> used s b")
  case True
  have r: "room (0 + 2) s" using assms(2) by (simp only: add_0)
  from True obtain b where "b < sb_size (sb s)" "\<not> used s b" by blast
  from balloc_ok[OF assms(1) r this] obtain a where
    a: "balloc s = Inr (a, allocated a s)" "is_data s a" "\<not> used s a" "\<forall>c < a. used s c" by blast
  have "\<exists>a s'. balloc s = Inr (a, s') \<and> is_data s a \<and> \<not> used s a \<and> (\<forall>c < a. used s c) \<and>
      fsb_ok s' \<and> blocks s' a = zero_block \<and> (\<forall>c < sb_size (sb s). used s' c \<longleftrightarrow> used s c \<or> c = a) \<and>
      (\<forall>c. is_data s c \<and> c \<noteq> a \<longrightarrow> blocks s' c = blocks s c)"
    using a allocated_ok[OF assms(1) a(2)] by (intro exI[of _ a] exI[of _ "allocated a s"]) blast
  with True show ?thesis by (simp only: if_True)
next
  case False
  then show ?thesis using balloc_loop_full[OF assms(1), of 0] by (auto simp: balloc_def)
qed

text \<open>\<open>bfree\<close> clears one bit.\<close>

definition freed :: "nat \<Rightarrow> 'a fsb_scheme \<Rightarrow> 'a fsb_scheme" where
  "freed a s = s\<lparr>blocks := (blocks s)(BBLOCK a (sb s) := unmark_bit (a mod BPB) (blocks s (BBLOCK a (sb s)))),
     hdr := add_hdr (BBLOCK a (sb s)) (hdr s)\<rparr>"

lemma freed_ok:
  assumes s: "fsb_ok s" and a: "is_data s a"
  shows "fsb_ok (freed a s)" "c < sb_size (sb s) \<Longrightarrow> used (freed a s) c \<longleftrightarrow> used s c \<and> c \<noteq> a"
    "sb (freed a s) = sb s" "nblk (freed a s) = nblk s" "is_data s c \<Longrightarrow> blocks (freed a s) c = blocks s c"
proof -
  let ?d = "unmark_bit (a mod BPB) (blocks s (BBLOCK a (sb s)))"
  have L: "length ?d = BSIZE" using fsb_okD(4)[OF s] by simp
  have m: "bit_clear ?d j = (bit_clear (blocks s (BBLOCK a (sb s))) j \<or> j = a mod BPB)" for j
    using fsb_okD(4)[OF s] bit_index by (intro bit_clear_unmark) simp
  show "fsb_ok (freed a s)" "c < sb_size (sb s) \<Longrightarrow> used (freed a s) c \<longleftrightarrow> used s c \<and> c \<noteq> a"
    using bitmap_upd[OF s a L] m by (auto simp: freed_def)
  have "a < sb_size (sb s)" using a by (simp add: is_data_def)
  then show "is_data s c \<Longrightarrow> blocks (freed a s) c = blocks s c"
    using data_not_bitmap(1)[OF fsb_okD(1)[OF s]] by (auto simp: freed_def)
qed (simp_all add: freed_def)

lemma bfree_ok:
  assumes s: "fsb_ok s" and r: "room (Suc k) s" and a: "is_data s a"
  shows "bfree a s = (if used s a then Inr (freed a s) else panic ''freeing free block'')" "room k (freed a s)"
proof -
  have "a < sb_size (sb s)" using a by (simp add: is_data_def)
  then have n: "BBLOCK a (sb s) < nblk s" "1 < nblk s"
    using layout_bblock[OF fsb_okD(1)[OF s], of a] fsb_okD(3)[OF s] by auto
  have "fs_readsb s = Inr s" using n(2) fsb_okD(2)[OF s] by (simp add: fs_readsb_def)
  then show "bfree a s = (if used s a then Inr (freed a s) else panic ''freeing free block'')" "room k (freed a s)"
    using n(1) wr_block_ok[OF r n(1)] by (simp_all add: bfree_def used_def freed_def)
qed

text \<open>
  \<open>bfree\<close> of a data block: when the block is marked it clears that bit of the bitmap and no
  other, leaves every data block as it is and the file system consistent; when it is not
  marked it panics. So \<open>bfree\<close> after \<open>balloc\<close> gives the set of used blocks back.
\<close>

theorem bfree_correct:
  assumes "fsb_ok s" "room 1 s" "is_data s a"
  shows "if used s a
    then \<exists>s'. bfree a s = Inr s' \<and> fsb_ok s' \<and> (\<forall>c < sb_size (sb s). used s' c \<longleftrightarrow> used s c \<and> c \<noteq> a) \<and>
      (\<forall>c. is_data s c \<longrightarrow> blocks s' c = blocks s c)
    else bfree a s = panic ''freeing free block''"
  using bfree_ok[of s 0 a] freed_ok[of s a] assms by auto

section \<open>An empty file system\<close>

text \<open>
  A disk of 1000 blocks with the layout \<open>mkfs\<close> computes (200 inodes, 30 log blocks) whose blocks
  from 59 on are free: the instance the hypotheses of this layer are checked on.
\<close>

definition sample_sb :: superblock where
  "sample_sb = \<lparr>sb_size = 1000, sb_nblocks = 941, sb_ninodes = 200, sb_nlog = 30, sb_logstart = 2, sb_inodestart = 32,
     sb_bmapstart = 58\<rparr>"

definition sample_blocks :: "nat \<Rightarrow> block" where
  "sample_blocks b =
     (if b = 1 then put_nat (put_nat (put_nat (put_nat (put_nat (put_nat (put_nat zero_block 0 1000) 4 941) 8 200) 12 30) 16 2) 20 32) 24 58
      else if b = 58 then replicate 7 255 @ [7] @ replicate 504 0 else zero_block)"

definition sample_blkst :: blkst where
  "sample_blkst = \<lparr>blocks = sample_blocks, nblk = 1000, hdr = [], loglen = 30, ops = 1\<rparr>"

definition sample_fsb :: fsb where
  "sample_fsb = blkst.extend sample_blkst (fsb.fields sample_sb)"

lemma sample_bits: "list_all (\<lambda>b. \<not> bit_clear (replicate 7 255 @ [7] @ replicate 504 0) b) [0..<59]"
  by code_simp

lemma sample_data_bit: "59 \<le> b \<Longrightarrow> b < 4096 \<Longrightarrow> bit_clear (replicate 7 255 @ [7] @ replicate 504 0) b"
proof -
  assume b: "59 \<le> b" "b < 4096"
  show ?thesis
  proof (cases "b div 8 = 7")
    case True
    then have "b mod 8 \<ge> 3" "b mod 8 < 8" using b(1) div_mult_mod_eq[of b 8] by auto
    then have "b mod 8 \<in> {3, 4, 5, 6, 7}" by auto
    moreover have "(replicate 7 255 @ [7] @ replicate 504 0) ! 7 = (7 :: byte)" by (simp add: nth_append)
    ultimately show ?thesis using True by (auto simp: bit_clear_def bit_mask_def)
  next
    case False
    then have "b div 8 \<ge> 8" "b div 8 < 512" using b by auto
    then show ?thesis by (simp add: bit_clear_def nth_append)
  qed
qed

lemma sample_ok:
  assumes "blocks s = sample_blocks" "sb s = sample_sb" "nblk s = 1000"
  shows "fsb_ok s" "b < 1000 \<Longrightarrow> used s b \<longleftrightarrow> b < 59"
proof -
  have B: "BBLOCK b sample_sb = 58" "b mod BPB = b" if "b < 1000" for b
    using that by (simp_all add: BBLOCK_def sample_sb_def)
  have bm: "sample_blocks 58 = replicate 7 255 @ [7] @ replicate 504 0" by (simp add: sample_blocks_def)
  have "used s b" if "b < 59" for b
    using sample_bits that B[of b] assms bm by (simp add: used_def list_all_iff)
  moreover have "\<not> used s b" if "59 \<le> b" "b < 1000" for b
    using sample_data_bit[of b] that B[of b] assms bm by (simp add: used_def)
  ultimately show u: "b < 1000 \<Longrightarrow> used s b \<longleftrightarrow> b < 59" for b by (meson not_le)
  have "superblock_of (sample_blocks 1) = sample_sb"
    by (simp add: superblock_of_def sample_blocks_def sample_sb_def)
  moreover have "layout sample_sb" "datastart sample_sb = 59" by (simp_all add: layout_def datastart_def sample_sb_def)
  moreover have "length (sample_blocks b) = BSIZE" for b by (simp add: sample_blocks_def)
  ultimately show "fsb_ok s" using u assms by (auto simp: fsb_ok_def sample_sb_def)
qed

lemma sample_fsb_sel [simp]:
  "blocks sample_fsb = sample_blocks" "sb sample_fsb = sample_sb" "nblk sample_fsb = 1000" "hdr sample_fsb = []"
  "loglen sample_fsb = 30" "ops sample_fsb = 1"
  by (simp_all add: sample_fsb_def blkst.extend_def fsb.fields_def sample_blkst_def)

lemma sample_fsb_ok: "fsb_ok sample_fsb" "room 5 sample_fsb" "b < 1000 \<Longrightarrow> used sample_fsb b \<longleftrightarrow> b < 59"
  using sample_ok[of sample_fsb] by (simp_all add: room_def)

theorem balloc_correct_witness:
  "\<exists>s'. balloc sample_fsb = Inr (59, s') \<and> fsb_ok s' \<and> blocks s' 59 = zero_block \<and> used s' 59"
proof -
  have r: "room 2 sample_fsb" using sample_fsb_ok(2) by (rule room_mono) simp
  have sz: "sb_size (sb sample_fsb) = 1000" by (simp add: sample_sb_def)
  have f: "\<exists>b < sb_size (sb sample_fsb). \<not> used sample_fsb b" using sample_fsb_ok(3)[of 60] unfolding sz by (intro exI[of _ 60]) simp
  obtain a s' where a: "balloc sample_fsb = Inr (a, s')" "is_data sample_fsb a" "\<not> used sample_fsb a"
      "\<forall>c < a. used sample_fsb c" "fsb_ok s'" "blocks s' a = zero_block" "used s' a"
    using balloc_correct[OF sample_fsb_ok(1) r] f unfolding if_P[OF f] by (auto simp: is_data_def)
  have "a < 1000" using a(2) by (simp add: is_data_def sample_sb_def)
  then have "59 \<le> a" using a(3) sample_fsb_ok(3)[of a] by simp
  moreover have "\<not> 59 < a" using a(4) sample_fsb_ok(3)[of 59] by fastforce
  ultimately have "a = 59" by simp
  with a show ?thesis by blast
qed

theorem bfree_correct_witness:
  "\<exists>s'. bfree 59 (allocated 59 sample_fsb) = Inr s' \<and> fsb_ok s' \<and> \<not> used s' 59"
proof -
  let ?s = "allocated 59 sample_fsb"
  have d: "is_data sample_fsb 59" by (simp add: is_data_def sample_sb_def datastart_def)
  note a = allocated_ok[OF sample_fsb_ok(1) d]
  have sz: "sb_size (sb sample_fsb) = 1000" by (simp add: sample_sb_def)
  have r: "room 1 ?s" by (simp add: room_def allocated_def add_hdr_def)
  have "used ?s 59" using a(2)[of 59] sz by simp
  moreover have "is_data ?s 59" using d by (simp add: is_data_def a(3))
  ultimately show ?thesis using bfree_correct[OF a(1) r, of 59] a(3) sz by auto
qed

end
