(* ===== verification/Fs_Inode.thy ===== *)
theory Fs_Inode
  imports Fs_Block
begin

text \<open>
  The inode layer of \<open>fs.c\<close>: the inode cache (\<open>iget\<close>, \<open>idup\<close>, \<open>ilock\<close>, \<open>iunlock\<close>, \<open>iput\<close>), the copies
  between cached inodes and the inode blocks (\<open>ialloc\<close>, \<open>iupdate\<close>), the block map (\<open>bmap\<close>, \<open>itrunc\<close>)
  and the contents (\<open>readi\<close>, \<open>writei\<close>). A pointer to a cached inode is its index in \<open>icache\<close>. The
  device switch is part of the state: a device routine maps the request and the state of the
  devices to its return value. Results: \<open>bmap\<close> extends the block map without touching the
  blocks of other files, \<open>readi\<close> returns the bytes of the file, \<open>writei\<close> replaces exactly the
  bytes it is given, \<open>itrunc\<close> gives every block of the file back.
\<close>

section \<open>State\<close>

abbreviation NDIRECT :: nat where "NDIRECT \<equiv> 12"
abbreviation NINDIRECT :: nat where "NINDIRECT \<equiv> 128"
abbreviation MAXFILE :: nat where "MAXFILE \<equiv> 140"
abbreviation NINODE :: nat where "NINODE \<equiv> 50"
abbreviation NDEV :: nat where "NDEV \<equiv> 10"
abbreviation T_DIR :: u16 where "T_DIR \<equiv> 1"
abbreviation T_FILE :: u16 where "T_FILE \<equiv> 2"
abbreviation T_DEV :: u16 where "T_DEV \<equiv> 3"

record inode =
  i_dev :: nat
  i_inum :: nat
  i_ref :: int
  i_busy :: bool
  i_valid :: bool
  i_type :: u16
  i_major :: u16
  i_minor :: u16
  i_nlink :: u16
  i_size :: nat
  i_addrs :: "nat list"

record 'd devops =
  dv_read :: "(nat \<Rightarrow> 'd \<Rightarrow> (int \<times> byte list \<times> 'd) kernel) option"
  dv_write :: "(byte list \<Rightarrow> 'd \<Rightarrow> (int \<times> 'd) kernel) option"

record 'd fsys = fsb +
  icache :: "inode list"
  devsw :: "nat \<Rightarrow> 'd devops"
  devst :: 'd

abbreviation upd_inode :: "nat \<Rightarrow> (inode \<Rightarrow> inode) \<Rightarrow> ('d, 'z) fsys_scheme \<Rightarrow> ('d, 'z) fsys_scheme" where
  "upd_inode ip f s \<equiv> s\<lparr>icache := (icache s)[ip := f (icache s ! ip)]\<rparr>"

section \<open>Inodes on the disk\<close>

text \<open>The \<open>inum%IPB\<close>-th \<open>struct dinode\<close> of an inode block: 64 bytes, addresses from offset 12 on.\<close>

definition dip :: "nat \<Rightarrow> nat" where
  "dip inum = 64 * (inum mod IPB)"

fun put_addrs :: "nat \<Rightarrow> nat list \<Rightarrow> block \<Rightarrow> block" where
  "put_addrs off [] d = d"
| "put_addrs off (a # as) d = put_addrs (off + 4) as (put_nat d off a)"

definition put_dinode :: "inode \<Rightarrow> block \<Rightarrow> block" where
  "put_dinode ip d =
     (let off = dip (i_inum ip)
      in put_addrs (off + 12) (i_addrs ip)
           (put_nat (put16 (put16 (put16 (put16 d off (i_type ip)) (off + 2) (i_major ip)) (off + 4) (i_minor ip))
              (off + 6) (i_nlink ip)) (off + 8) (i_size ip)))"

definition get_dinode :: "block \<Rightarrow> inode \<Rightarrow> inode" where
  "get_dinode d ip =
     (let off = dip (i_inum ip)
      in ip\<lparr>i_type := get16 d off, i_major := get16 d (off + 2), i_minor := get16 d (off + 4), i_nlink := get16 d (off + 6),
           i_size := get_nat d (off + 8), i_addrs := map (\<lambda>i. get_nat d (off + 12 + 4 * i)) [0..<NDIRECT + 1]\<rparr>)"

definition clear_dinode :: "nat \<Rightarrow> u16 \<Rightarrow> block \<Rightarrow> block" where
  "clear_dinode inum ty d = put16 (take (dip inum) d @ replicate 64 0 @ drop (dip inum + 64) d) (dip inum) ty"

definition iupdate :: "nat \<Rightarrow> ('d, 'z) fsys_scheme \<Rightarrow> ('d, 'z) fsys_scheme kernel" where
  "iupdate ip s =
     (let b = IBLOCK (i_inum (icache s ! ip)) (sb s)
      in kbind (rd_block b s) (\<lambda>d. wr_block b (put_dinode (icache s ! ip) d) s))"

section \<open>The inode cache\<close>

definition iinit :: "('d, 'z) fsys_scheme \<Rightarrow> ('d, 'z) fsys_scheme kernel" where
  "iinit s = fs_readsb s"

definition iget :: "nat \<Rightarrow> nat \<Rightarrow> ('d, 'z) fsys_scheme \<Rightarrow> (nat \<times> ('d, 'z) fsys_scheme) kernel" where
  "iget dev inum s =
     (case List.find (\<lambda>i. 0 < i_ref (icache s ! i) \<and> i_dev (icache s ! i) = dev \<and> i_inum (icache s ! i) = inum)
          [0..<length (icache s)] of
        Some i \<Rightarrow> Inr (i, upd_inode i (\<lambda>ip. ip\<lparr>i_ref := i_ref ip + 1\<rparr>) s)
      | None \<Rightarrow>
          (case List.find (\<lambda>i. i_ref (icache s ! i) = 0) [0..<length (icache s)] of
             None \<Rightarrow> panic ''iget: no inodes''
           | Some i \<Rightarrow> Inr (i, upd_inode i (\<lambda>ip. ip\<lparr>i_dev := dev, i_inum := inum, i_ref := 1, i_busy := False,
                i_valid := False\<rparr>) s)))"

fun ialloc_loop :: "nat \<Rightarrow> u16 \<Rightarrow> nat list \<Rightarrow> ('d, 'z) fsys_scheme \<Rightarrow> (nat \<times> ('d, 'z) fsys_scheme) kernel" where
  "ialloc_loop dev ty [] s = panic ''ialloc: no inodes''"
| "ialloc_loop dev ty (inum # rest) s =
     kbind (rd_block (IBLOCK inum (sb s)) s) (\<lambda>d.
       if get16 d (dip inum) = 0 then
         kbind (wr_block (IBLOCK inum (sb s)) (clear_dinode inum ty d) s) (\<lambda>s1. iget dev inum s1)
       else ialloc_loop dev ty rest s)"

definition ialloc :: "nat \<Rightarrow> u16 \<Rightarrow> ('d, 'z) fsys_scheme \<Rightarrow> (nat \<times> ('d, 'z) fsys_scheme) kernel" where
  "ialloc dev ty s = ialloc_loop dev ty [1..<sb_ninodes (sb s)] s"

definition idup :: "nat \<Rightarrow> ('d, 'z) fsys_scheme \<Rightarrow> nat \<times> ('d, 'z) fsys_scheme" where
  "idup ip s = (ip, upd_inode ip (\<lambda>i. i\<lparr>i_ref := i_ref i + 1\<rparr>) s)"

definition ilock :: "nat \<Rightarrow> ('d, 'z) fsys_scheme \<Rightarrow> ('d, 'z) fsys_scheme kernel" where
  "ilock ip s =
     (if i_ref (icache s ! ip) < 1 then panic ''ilock''
      else if i_busy (icache s ! ip) then blocked
      else let s1 = upd_inode ip (\<lambda>i. i\<lparr>i_busy := True\<rparr>) s
           in if i_valid (icache s ! ip) then Inr s1
              else kbind (rd_block (IBLOCK (i_inum (icache s ! ip)) (sb s)) s1) (\<lambda>d.
                let s2 = upd_inode ip (\<lambda>i. (get_dinode d i)\<lparr>i_valid := True\<rparr>) s1
                in if i_type (icache s2 ! ip) = 0 then panic ''ilock: no type'' else Inr s2))"

definition iunlock :: "nat \<Rightarrow> ('d, 'z) fsys_scheme \<Rightarrow> ('d, 'z) fsys_scheme kernel" where
  "iunlock ip s =
     (if \<not> i_busy (icache s ! ip) \<or> i_ref (icache s ! ip) < 1 then panic ''iunlock''
      else Inr (upd_inode ip (\<lambda>i. i\<lparr>i_busy := False\<rparr>) s))"

section \<open>Contents\<close>

text \<open>\<open>bmap_ind\<close>: the part of \<open>bmap\<close> after the indirect block \<open>ind\<close> is known.\<close>

definition bmap_ind :: "nat \<Rightarrow> nat \<Rightarrow> ('d, 'z) fsys_scheme \<Rightarrow> (nat \<times> ('d, 'z) fsys_scheme) kernel" where
  "bmap_ind bn ind s =
     kbind (rd_block ind s) (\<lambda>a.
       let addr = get_nat a (4 * bn)
       in if addr = 0 then
            kbind (balloc s) (\<lambda>(addr, s1).
            kbind (wr_block ind (put_nat a (4 * bn) addr) s1) (\<lambda>s2. Inr (addr, s2)))
          else Inr (addr, s))"

definition bmap :: "nat \<Rightarrow> nat \<Rightarrow> ('d, 'z) fsys_scheme \<Rightarrow> (nat \<times> ('d, 'z) fsys_scheme) kernel" where
  "bmap ip bn s =
     (if bn < NDIRECT then
        let addr = i_addrs (icache s ! ip) ! bn
        in if addr = 0 then
             kbind (balloc s) (\<lambda>(addr, s1). Inr (addr, upd_inode ip (\<lambda>i. i\<lparr>i_addrs := (i_addrs i)[bn := addr]\<rparr>) s1))
           else Inr (addr, s)
      else if bn - NDIRECT < NINDIRECT then
        let addr = i_addrs (icache s ! ip) ! NDIRECT
        in if addr = 0 then
             kbind (balloc s) (\<lambda>(addr, s1).
               bmap_ind (bn - NDIRECT) addr (upd_inode ip (\<lambda>i. i\<lparr>i_addrs := (i_addrs i)[NDIRECT := addr]\<rparr>) s1))
           else bmap_ind (bn - NDIRECT) addr s
      else panic ''bmap: out of range'')"

fun itrunc_direct :: "nat \<Rightarrow> nat list \<Rightarrow> ('d, 'z) fsys_scheme \<Rightarrow> ('d, 'z) fsys_scheme kernel" where
  "itrunc_direct ip [] s = Inr s"
| "itrunc_direct ip (i # is) s =
     (let a = i_addrs (icache s ! ip) ! i
      in if a \<noteq> 0 then
           kbind (bfree a s) (\<lambda>s1. itrunc_direct ip is (upd_inode ip (\<lambda>j. j\<lparr>i_addrs := (i_addrs j)[i := 0]\<rparr>) s1))
         else itrunc_direct ip is s)"

fun bfree_all :: "nat list \<Rightarrow> ('d, 'z) fsys_scheme \<Rightarrow> ('d, 'z) fsys_scheme kernel" where
  "bfree_all [] s = Inr s"
| "bfree_all (a # as) s = (if a \<noteq> 0 then kbind (bfree a s) (\<lambda>s1. bfree_all as s1) else bfree_all as s)"

definition itrunc :: "nat \<Rightarrow> ('d, 'z) fsys_scheme \<Rightarrow> ('d, 'z) fsys_scheme kernel" where
  "itrunc ip s =
     kbind (itrunc_direct ip [0..<NDIRECT] s) (\<lambda>s1.
     kbind (let ind = i_addrs (icache s1 ! ip) ! NDIRECT
            in if ind \<noteq> 0 then
                 kbind (rd_block ind s1) (\<lambda>a.
                 kbind (bfree_all (map (\<lambda>j. get_nat a (4 * j)) [0..<NINDIRECT]) s1) (\<lambda>s2.
                 kbind (bfree ind s2) (\<lambda>s3. Inr (upd_inode ip (\<lambda>i. i\<lparr>i_addrs := (i_addrs i)[NDIRECT := 0]\<rparr>) s3))))
               else Inr s1) (\<lambda>s4.
     iupdate ip (upd_inode ip (\<lambda>i. i\<lparr>i_size := 0\<rparr>) s4)))"

definition iput :: "nat \<Rightarrow> ('d, 'z) fsys_scheme \<Rightarrow> ('d, 'z) fsys_scheme kernel" where
  "iput ip s =
     (let i = icache s ! ip
      in kbind (if i_ref i = 1 \<and> i_valid i \<and> i_nlink i = 0 then
             if i_busy i then panic ''iput busy''
             else kbind (itrunc ip (upd_inode ip (\<lambda>i. i\<lparr>i_busy := True\<rparr>) s)) (\<lambda>s1.
                  kbind (iupdate ip (upd_inode ip (\<lambda>i. i\<lparr>i_type := 0\<rparr>) s1)) (\<lambda>s2.
                  Inr (upd_inode ip (\<lambda>i. i\<lparr>i_busy := False, i_valid := False\<rparr>) s2)))
           else Inr s) (\<lambda>s3. Inr (upd_inode ip (\<lambda>i. i\<lparr>i_ref := i_ref i - 1\<rparr>) s3)))"

definition iunlockput :: "nat \<Rightarrow> ('d, 'z) fsys_scheme \<Rightarrow> ('d, 'z) fsys_scheme kernel" where
  "iunlockput ip s = kbind (iunlock ip s) (\<lambda>s1. iput ip s1)"

record stat =
  st_type :: u16
  st_dev :: nat
  st_ino :: nat
  st_nlink :: u16
  st_size :: nat

definition stati :: "nat \<Rightarrow> ('d, 'z) fsys_scheme \<Rightarrow> stat" where
  "stati ip s = (let i = icache s ! ip in
     \<lparr>st_type = i_type i, st_dev = i_dev i, st_ino = i_inum i, st_nlink = i_nlink i, st_size = i_size i\<rparr>)"

text \<open>The loops move at least one byte per round.\<close>

function readi_loop :: "nat \<Rightarrow> nat \<Rightarrow> nat \<Rightarrow> ('d, 'z) fsys_scheme \<Rightarrow> (byte list \<times> ('d, 'z) fsys_scheme) kernel" where
  "readi_loop ip off n s =
     (if n = 0 then Inr ([], s)
      else kbind (bmap ip (off div BSIZE) s) (\<lambda>(addr, s1).
           kbind (rd_block addr s1) (\<lambda>d.
             let m = min n (BSIZE - off mod BSIZE)
             in kbind (readi_loop ip (off + m) (n - m) s1) (\<lambda>(bs, s2). Inr (take m (drop (off mod BSIZE) d) @ bs, s2)))))"
  by pat_completeness auto
termination by (relation "measure (\<lambda>(ip, off, n, s). n)") (auto simp: min_def)

declare readi_loop.simps [simp del]

text \<open>\<open>readi\<close> gives the return value and the bytes copied to \<open>dst\<close>.\<close>

definition readi :: "nat \<Rightarrow> nat \<Rightarrow> nat \<Rightarrow> ('d, 'z) fsys_scheme \<Rightarrow> (int \<times> byte list \<times> ('d, 'z) fsys_scheme) kernel" where
  "readi ip off n s =
     (let i = icache s ! ip
      in if i_type i = T_DEV then
           if sint (i_major i) < 0 \<or> int NDEV \<le> sint (i_major i) then Inr (-1, [], s)
           else case dv_read (devsw s (unat (i_major i))) of
                  None \<Rightarrow> Inr (-1, [], s)
                | Some f \<Rightarrow> kbind (f n (devst s)) (\<lambda>(r, bs, dv). Inr (r, bs, s\<lparr>devst := dv\<rparr>))
         else if i_size i < off \<or> (off + n) mod 2 ^ 32 < off then Inr (-1, [], s)
         else let n' = (if i_size i < (off + n) mod 2 ^ 32 then i_size i - off else n)
              in kbind (readi_loop ip off n' s) (\<lambda>(bs, s1). Inr (int n', bs, s1)))"

definition overwrite :: "nat \<Rightarrow> byte list \<Rightarrow> byte list \<Rightarrow> byte list" where
  "overwrite off src d = take off d @ src @ drop (off + length src) d"

function writei_loop :: "nat \<Rightarrow> nat \<Rightarrow> byte list \<Rightarrow> ('d, 'z) fsys_scheme \<Rightarrow> (nat \<times> ('d, 'z) fsys_scheme) kernel" where
  "writei_loop ip off src s =
     (if length src = 0 then Inr (off, s)
      else kbind (bmap ip (off div BSIZE) s) (\<lambda>(addr, s1).
           kbind (rd_block addr s1) (\<lambda>d.
             let m = min (length src) (BSIZE - off mod BSIZE)
             in kbind (wr_block addr (overwrite (off mod BSIZE) (take m src) d) s1) (\<lambda>s2.
                writei_loop ip (off + m) (drop m src) s2))))"
  by pat_completeness auto
termination by (relation "measure (\<lambda>(ip, off, src, s). length src)") (auto simp: min_def)

declare writei_loop.simps [simp del]

definition writei :: "nat \<Rightarrow> byte list \<Rightarrow> nat \<Rightarrow> ('d, 'z) fsys_scheme \<Rightarrow> (int \<times> ('d, 'z) fsys_scheme) kernel" where
  "writei ip src off s =
     (let i = icache s ! ip; n = length src
      in if i_type i = T_DEV then
           if sint (i_major i) < 0 \<or> int NDEV \<le> sint (i_major i) then Inr (-1, s)
           else case dv_write (devsw s (unat (i_major i))) of
                  None \<Rightarrow> Inr (-1, s)
                | Some f \<Rightarrow> kbind (f src (devst s)) (\<lambda>(r, dv). Inr (r, s\<lparr>devst := dv\<rparr>))
         else if i_size i < off \<or> (off + n) mod 2 ^ 32 < off then Inr (-1, s)
         else if MAXFILE * BSIZE < (off + n) mod 2 ^ 32 then Inr (-1, s)
         else kbind (writei_loop ip off src s) (\<lambda>(off', s1).
           if 0 < n \<and> i_size (icache s1 ! ip) < off' then
             kbind (iupdate ip (upd_inode ip (\<lambda>i. i\<lparr>i_size := off'\<rparr>) s1)) (\<lambda>s2. Inr (int n, s2))
           else Inr (int n, s1)))"

section \<open>Files as byte sequences\<close>

text \<open>
  The address of block \<open>bn\<close> of a file, the blocks a file owns, and its contents, read off the
  blocks \<open>B\<close> of the disk.
\<close>

definition baddr :: "(nat \<Rightarrow> block) \<Rightarrow> inode \<Rightarrow> nat \<Rightarrow> nat" where
  "baddr B i bn =
     (if bn < NDIRECT then i_addrs i ! bn
      else if i_addrs i ! NDIRECT = 0 then 0 else get_nat (B (i_addrs i ! NDIRECT)) (4 * (bn - NDIRECT)))"

definition owned :: "(nat \<Rightarrow> block) \<Rightarrow> inode \<Rightarrow> nat set" where
  "owned B i = {a. a \<noteq> 0 \<and> (a = i_addrs i ! NDIRECT \<or> (\<exists>bn < MAXFILE. a = baddr B i bn))}"

definition contents :: "(nat \<Rightarrow> block) \<Rightarrow> inode \<Rightarrow> byte list" where
  "contents B i = map (\<lambda>k. B (baddr B i (k div BSIZE)) ! (k mod BSIZE)) [0..<i_size i]"

text \<open>The block map of an inode is sound: its blocks are marked data blocks, all different, without holes.\<close>

definition inode_ok :: "('d, 'z) fsys_scheme \<Rightarrow> inode \<Rightarrow> bool" where
  "inode_ok s i \<longleftrightarrow> length (i_addrs i) = NDIRECT + 1 \<and> i_size i \<le> MAXFILE * BSIZE \<and>
     (\<forall>a \<in> owned (blocks s) i. is_data s a \<and> used s a) \<and>
     (\<forall>bn < MAXFILE. \<forall>bm < MAXFILE. baddr (blocks s) i bn = baddr (blocks s) i bm \<and> baddr (blocks s) i bn \<noteq> 0 \<longrightarrow> bn = bm) \<and>
     (\<forall>bn < MAXFILE. baddr (blocks s) i bn \<noteq> 0 \<longrightarrow> baddr (blocks s) i bn \<noteq> i_addrs i ! NDIRECT) \<and>
     (\<forall>bn. bn * BSIZE < i_size i \<longrightarrow> baddr (blocks s) i bn \<noteq> 0)"

lemma inode_okD:
  assumes "inode_ok s i"
  shows "length (i_addrs i) = NDIRECT + 1" "i_size i \<le> MAXFILE * BSIZE"
    "a \<in> owned (blocks s) i \<Longrightarrow> is_data s a" "a \<in> owned (blocks s) i \<Longrightarrow> used s a"
    "bn < MAXFILE \<Longrightarrow> bm < MAXFILE \<Longrightarrow> baddr (blocks s) i bn = baddr (blocks s) i bm \<Longrightarrow> baddr (blocks s) i bn \<noteq> 0 \<Longrightarrow> bn = bm"
    "bn < MAXFILE \<Longrightarrow> baddr (blocks s) i bn \<noteq> 0 \<Longrightarrow> baddr (blocks s) i bn \<noteq> i_addrs i ! NDIRECT"
    "bn * BSIZE < i_size i \<Longrightarrow> baddr (blocks s) i bn \<noteq> 0"
  using assms unfolding inode_ok_def by blast+

lemma owned_baddr: "bn < MAXFILE \<Longrightarrow> baddr B i bn \<noteq> 0 \<Longrightarrow> baddr B i bn \<in> owned B i"
  by (auto simp: owned_def)

lemma owned_ind: "i_addrs i ! NDIRECT \<noteq> 0 \<Longrightarrow> i_addrs i ! NDIRECT \<in> owned B i"
  by (auto simp: owned_def)

lemma baddr_cong:
  "i_addrs i ! NDIRECT = 0 \<or> B' (i_addrs i ! NDIRECT) = B (i_addrs i ! NDIRECT) \<Longrightarrow> baddr B' i = baddr B i"
  by (auto simp: baddr_def fun_eq_iff)

lemma baddr_addrs: "i_addrs i' = i_addrs i \<Longrightarrow> baddr B i' = baddr B i"
  by (auto simp: baddr_def fun_eq_iff)

lemma owned_addrs: "i_addrs i' = i_addrs i \<Longrightarrow> owned B i' = owned B i"
  using baddr_addrs[of i' i B] by (simp add: owned_def)

lemma owned_cong: "baddr B' i = baddr B i \<Longrightarrow> owned B' i = owned B i"
  by (simp add: owned_def)

text \<open>Blocks of the file are where they were and hold what they held.\<close>

lemma content_cong:
  assumes "i_size i' = i_size i" "\<And>bn. bn * BSIZE < i_size i \<Longrightarrow> baddr B' i' bn = baddr B i bn"
    "\<And>bn. bn * BSIZE < i_size i \<Longrightarrow> B' (baddr B i bn) = B (baddr B i bn)"
  shows "contents B' i' = contents B i"
proof -
  have "k div BSIZE * BSIZE < i_size i" if "k < i_size i" for k
    using that by (rule le_less_trans[rotated]) simp
  then show ?thesis using assms by (auto simp: contents_def)
qed

text \<open>A file none of whose blocks change.\<close>

lemma inode_frame:
  assumes i: "inode_ok s i" and sm: "sb s' = sb s"
    and B: "\<And>a. a \<in> owned (blocks s) i \<Longrightarrow> blocks s' a = blocks s a"
    and u: "\<And>a. a \<in> owned (blocks s) i \<Longrightarrow> used s' a"
  shows "inode_ok s' i" "contents (blocks s') i = contents (blocks s) i" "owned (blocks s') i = owned (blocks s) i"
proof -
  have b: "baddr (blocks s') i = baddr (blocks s) i" using B[OF owned_ind[of i]] by (intro baddr_cong) blast
  then show o: "owned (blocks s') i = owned (blocks s) i" by (rule owned_cong)
  show "inode_ok s' i" using i u sm unfolding inode_ok_def o b by (simp add: is_data_def)
  show "contents (blocks s') i = contents (blocks s) i"
  proof (rule content_cong)
    fix bn assume bn: "bn * BSIZE < i_size i"
    then have "bn < MAXFILE" using inode_okD(2)[OF i] by simp
    then show "blocks s' (baddr (blocks s) i bn) = blocks s (baddr (blocks s) i bn)"
      using inode_okD(7)[OF i bn] by (intro B owned_baddr)
  qed (simp_all add: b)
qed

section \<open>Steps that grow one file\<close>

text \<open>
  \<open>fs_step ip s s'\<close>: from \<open>s\<close> to \<open>s'\<close> only the file of the cached inode \<open>ip\<close> changed. Its block
  map may have grown by blocks that were free; no other marked data block, no block before
  the bitmap and no other cached inode changed.
\<close>

definition fs_step :: "nat \<Rightarrow> ('d, 'z) fsys_scheme \<Rightarrow> ('d, 'z) fsys_scheme \<Rightarrow> bool" where
  "fs_step ip s s' \<longleftrightarrow> fsb_ok s' \<and> sb s' = sb s \<and> nblk s' = nblk s \<and> loglen s' = loglen s \<and> ops s' = ops s \<and>
     devsw s' = devsw s \<and> devst s' = devst s \<and>
     length (icache s') = length (icache s) \<and> (\<forall>j. j \<noteq> ip \<longrightarrow> icache s' ! j = icache s ! j) \<and>
     (\<exists>as. icache s' ! ip = (icache s ! ip)\<lparr>i_addrs := as\<rparr>) \<and>
     inode_ok s' (icache s' ! ip) \<and>
     owned (blocks s) (icache s ! ip) \<subseteq> owned (blocks s') (icache s' ! ip) \<and>
     (\<forall>a \<in> owned (blocks s') (icache s' ! ip). a \<in> owned (blocks s) (icache s ! ip) \<or> \<not> used s a) \<and>
     (\<forall>c < sb_size (sb s). used s' c \<longleftrightarrow> used s c \<or> c \<in> owned (blocks s') (icache s' ! ip)) \<and>
     (\<forall>c. is_data s c \<and> used s c \<and> c \<notin> owned (blocks s) (icache s ! ip) \<longrightarrow> blocks s' c = blocks s c) \<and>
     (\<forall>c < sb_bmapstart (sb s). blocks s' c = blocks s c)"

lemma fs_stepD:
  assumes "fs_step ip s s'"
  shows "fsb_ok s'" "sb s' = sb s" "nblk s' = nblk s" "loglen s' = loglen s" "ops s' = ops s" "length (icache s') = length (icache s)"
    "j \<noteq> ip \<Longrightarrow> icache s' ! j = icache s ! j" "inode_ok s' (icache s' ! ip)"
    "a \<in> owned (blocks s) (icache s ! ip) \<Longrightarrow> a \<in> owned (blocks s') (icache s' ! ip)"
    "a \<in> owned (blocks s') (icache s' ! ip) \<Longrightarrow> a \<in> owned (blocks s) (icache s ! ip) \<or> \<not> used s a"
    "c < sb_size (sb s) \<Longrightarrow> used s' c \<longleftrightarrow> used s c \<or> c \<in> owned (blocks s') (icache s' ! ip)"
    "is_data s c \<Longrightarrow> used s c \<Longrightarrow> c \<notin> owned (blocks s) (icache s ! ip) \<Longrightarrow> blocks s' c = blocks s c"
    "c < sb_bmapstart (sb s) \<Longrightarrow> blocks s' c = blocks s c" "devsw s' = devsw s" "devst s' = devst s"
    "\<exists>as. icache s' ! ip = (icache s ! ip)\<lparr>i_addrs := as\<rparr>"
  using assms unfolding fs_step_def by auto

lemma fs_step_refl: "fsb_ok s \<Longrightarrow> inode_ok s (icache s ! ip) \<Longrightarrow> fs_step ip s s"
  unfolding fs_step_def using inode_okD(4) by (auto intro: exI[of _ "i_addrs (icache s ! ip)"])

lemma fs_step_trans:
  assumes 1: "fs_step ip s s1" and 2: "fs_step ip s1 s2"
  shows "fs_step ip s s2"
proof -
  note d1 = fs_stepD[OF 1] and d2 = fs_stepD[OF 2]
  have is_d: "is_data s1 c = is_data s c" for c by (simp add: is_data_def d1(2))
  have u: "used s1 a" if "used s a" "a < sb_size (sb s)" for a using d1(11) that by blast
  have sz: "a < sb_size (sb s)" if "a \<in> owned (blocks s2) (icache s2 ! ip)" for a
    using inode_okD(3)[OF d2(8) that] d1(2) d2(2) by (simp add: is_data_def)
  have "a \<in> owned (blocks s) (icache s ! ip) \<or> \<not> used s a" if "a \<in> owned (blocks s2) (icache s2 ! ip)" for a
    using d2(10)[OF that] d1(10) u sz[OF that] by blast
  moreover have "used s2 c \<longleftrightarrow> used s c \<or> c \<in> owned (blocks s2) (icache s2 ! ip)" if "c < sb_size (sb s)" for c
    using d1(11)[OF that] d2(11)[of c] d2(9) that d1(2) by auto
  moreover have "blocks s2 c = blocks s c" if c: "is_data s c" "used s c" "c \<notin> owned (blocks s) (icache s ! ip)" for c
  proof -
    have "c \<notin> owned (blocks s1) (icache s1 ! ip)" using c d1(10) by blast
    moreover have "used s1 c" using u c by (simp add: is_data_def)
    ultimately show ?thesis using d2(12)[of c] d1(12)[OF c] c(1) is_d by simp
  qed
  moreover have "\<exists>as. icache s2 ! ip = (icache s ! ip)\<lparr>i_addrs := as\<rparr>" using d1(16) d2(16) by auto
  ultimately show ?thesis unfolding fs_step_def using d1 d2 by auto
qed

text \<open>Other files keep their contents.\<close>

lemma fs_step_other:
  assumes st: "fs_step ip s s'" and j: "inode_ok s j" "owned (blocks s) j \<inter> owned (blocks s) (icache s ! ip) = {}"
  shows "inode_ok s' j" "contents (blocks s') j = contents (blocks s) j" "owned (blocks s') j = owned (blocks s) j"
    "owned (blocks s') j \<inter> owned (blocks s') (icache s' ! ip) = {}"
proof -
  note d = fs_stepD[OF st]
  have a: "is_data s a" "used s a" "a \<notin> owned (blocks s) (icache s ! ip)" "a < sb_size (sb s)" if "a \<in> owned (blocks s) j" for a
    using inode_okD(3,4)[OF j(1) that] j(2) that by (auto simp: is_data_def)
  have f: "inode_ok s' j" "contents (blocks s') j = contents (blocks s) j" "owned (blocks s') j = owned (blocks s) j"
    using inode_frame[OF j(1) d(2)] a d(12,11) by blast+
  show "inode_ok s' j" "contents (blocks s') j = contents (blocks s) j" "owned (blocks s') j = owned (blocks s) j" by (fact f)+
  show "owned (blocks s') j \<inter> owned (blocks s') (icache s' ! ip) = {}"
    using a d(10) unfolding f(3) by blast
qed

section \<open>The block map\<close>

lemma icache_upd [simp]:
  "used (s\<lparr>icache := x\<rparr>) = used s" "fsb_ok (s\<lparr>icache := x\<rparr>) = fsb_ok s" "is_data (s\<lparr>icache := x\<rparr>) = is_data s"
  "room k (s\<lparr>icache := x\<rparr>) = room k s" "inode_ok (s\<lparr>icache := x\<rparr>) = inode_ok s"
  by (auto simp: used_def fun_eq_iff fsb_ok_def is_data_def room_def inode_ok_def)

lemma allocated_sel [simp]:
  "icache (allocated a s) = icache s" "loglen (allocated a s) = loglen s" "ops (allocated a s) = ops s"
  "devsw (allocated a s) = devsw s" "devst (allocated a s) = devst s" "sb (allocated a s) = sb s"
  "nblk (allocated a s) = nblk s"
  by (simp_all add: allocated_def)

lemma bmapstart_data: "layout (sb s) \<Longrightarrow> is_data s a \<Longrightarrow> sb_bmapstart (sb s) < a"
  by (auto simp: is_data_def layout_def datastart_def)

lemma allocated_before_bitmap:
  "fsb_ok s \<Longrightarrow> is_data s a \<Longrightarrow> c < sb_bmapstart (sb s) \<Longrightarrow> blocks (allocated a s) c = blocks s c"
  using bmapstart_data[OF fsb_okD(1)] by (fastforce simp: allocated_def BBLOCK_def)

definition nfree :: "'a fsb_scheme \<Rightarrow> nat" where
  "nfree s = card {c. c < sb_size (sb s) \<and> \<not> used s c}"

lemma nfree_upd [simp]: "nfree (s\<lparr>icache := x\<rparr>) = nfree s"
  by (simp add: nfree_def)

lemma nfree_pos: "0 < nfree s \<Longrightarrow> \<exists>b < sb_size (sb s). \<not> used s b"
  by (auto simp: nfree_def card_gt_0_iff)

lemma nfree_allocated: "fsb_ok s \<Longrightarrow> is_data s a \<Longrightarrow> \<not> used s a \<Longrightarrow> nfree s = Suc (nfree (allocated a s))"
proof -
  assume a: "fsb_ok s" "is_data s a" "\<not> used s a"
  have "{c. c < sb_size (sb s) \<and> \<not> used s c} = insert a {c. c < sb_size (sb s) \<and> \<not> used (allocated a s) c}"
    using allocated_ok(2)[OF a(1,2)] a(2,3) by (auto simp: is_data_def)
  moreover have "a \<notin> {c. c < sb_size (sb s) \<and> \<not> used (allocated a s) c}" using allocated_ok(2)[OF a(1,2)] by auto
  ultimately show ?thesis using allocated_ok(3)[OF a(1,2)] by (simp add: nfree_def)
qed

text \<open>Allocation leaves every file alone.\<close>

lemma alloc_frame:
  assumes "fsb_ok s" "inode_ok s i" "is_data s a" "\<not> used s a"
  shows "inode_ok (allocated a s) i" "owned (blocks (allocated a s)) i = owned (blocks s) i" "a \<notin> owned (blocks s) i"
    "baddr (blocks (allocated a s)) i = baddr (blocks s) i"
proof -
  show na: "a \<notin> owned (blocks s) i" using inode_okD(4)[OF assms(2)] assms(4) by blast
  have B: "blocks (allocated a s) c = blocks s c" "used (allocated a s) c" if "c \<in> owned (blocks s) i" for c
  proof -
    have "is_data s c" "used s c" "c \<noteq> a" using inode_okD(3,4)[OF assms(2) that] na that by auto
    then show "blocks (allocated a s) c = blocks s c" "used (allocated a s) c"
      using allocated_ok(2,6)[OF assms(1,3), of c] by (auto simp: is_data_def)
  qed
  show "inode_ok (allocated a s) i" "owned (blocks (allocated a s)) i = owned (blocks s) i"
    using inode_frame[OF assms(2) allocated_sel(6) B] by blast+
  show "baddr (blocks (allocated a s)) i = baddr (blocks s) i" using B(1)[OF owned_ind] by (intro baddr_cong) blast
qed

text \<open>A new entry of the block map; a new, empty indirect block.\<close>

lemma grow_entry:
  assumes i: "inode_ok s i" and l: "length (i_addrs i') = NDIRECT + 1" "i_size i' = i_size i"
    "i_addrs i' ! NDIRECT = i_addrs i ! NDIRECT" "bn < MAXFILE" and sm: "sb s' = sb s"
    and b: "\<And>bm. bm < MAXFILE \<Longrightarrow> baddr (blocks s') i' bm = (if bm = bn then a else baddr (blocks s) i bm)"
    and a: "baddr (blocks s) i bn = 0" "a \<notin> owned (blocks s) i" "a \<noteq> 0" "is_data s a" "used s' a"
    and u: "\<And>c. c \<in> owned (blocks s) i \<Longrightarrow> used s' c"
  shows "inode_ok s' i'" "owned (blocks s') i' = insert a (owned (blocks s) i)"
proof -
  show o: "owned (blocks s') i' = insert a (owned (blocks s) i)"
  proof (rule set_eqI)
    fix c
    have "(\<exists>bm < MAXFILE. c = baddr (blocks s') i' bm) \<longleftrightarrow> c = a \<or> (\<exists>bm < MAXFILE. bm \<noteq> bn \<and> c = baddr (blocks s) i bm)"
      using b l(4) by metis
    then show "c \<in> owned (blocks s') i' \<longleftrightarrow> c \<in> insert a (owned (blocks s) i)"
      using a(1,3) l(3) unfolding owned_def by auto
  qed
  have na: "a \<noteq> i_addrs i ! NDIRECT" using a(2,3) owned_ind[of i "blocks s"] by metis
  have nb: "a \<noteq> baddr (blocks s) i bm" if "bm < MAXFILE" for bm using a(2,3) owned_baddr[OF that, of "blocks s" i] by metis
  have dt: "\<forall>c \<in> insert a (owned (blocks s) i). is_data s' c \<and> used s' c"
    using a(4,5) u inode_okD(3)[OF i] sm by (auto simp: is_data_def)
  have inj: "\<forall>bn < MAXFILE. \<forall>bm < MAXFILE. baddr (blocks s') i' bn = baddr (blocks s') i' bm \<and> baddr (blocks s') i' bn \<noteq> 0 \<longrightarrow> bn = bm"
    using b nb inode_okD(5)[OF i] by (auto split: if_splits)
  have ind: "\<forall>bn < MAXFILE. baddr (blocks s') i' bn \<noteq> 0 \<longrightarrow> baddr (blocks s') i' bn \<noteq> i_addrs i' ! NDIRECT"
    using b na inode_okD(6)[OF i] l(3) by auto
  have hole: "\<forall>bn. bn * BSIZE < i_size i' \<longrightarrow> baddr (blocks s') i' bn \<noteq> 0"
  proof (intro allI impI)
    fix bm assume m: "bm * BSIZE < i_size i'"
    then have "bm < MAXFILE" using inode_okD(2)[OF i] l(2) by simp
    then show "baddr (blocks s') i' bm \<noteq> 0" using b inode_okD(7)[OF i] m l(2) a(3) by auto
  qed
  show "inode_ok s' i'" unfolding inode_ok_def o using l dt inj ind hole inode_okD(2)[OF i] by simp
qed

lemma grow_ind:
  assumes i: "inode_ok s i" and i': "i' = i\<lparr>i_addrs := (i_addrs i)[NDIRECT := a]\<rparr>" and z: "i_addrs i ! NDIRECT = 0"
    and sm: "sb s' = sb s" and za: "blocks s' a = zero_block"
    and a: "a \<notin> owned (blocks s) i" "a \<noteq> 0" "is_data s a" "used s' a" and u: "\<And>c. c \<in> owned (blocks s) i \<Longrightarrow> used s' c"
  shows "inode_ok s' i'" "owned (blocks s') i' = insert a (owned (blocks s) i)"
    "bm < MAXFILE \<Longrightarrow> baddr (blocks s') i' bm = baddr (blocks s) i bm"
proof -
  have L: "length (i_addrs i) = NDIRECT + 1" by (rule inode_okD(1)[OF i])
  have ind: "i_addrs i' ! NDIRECT = a" using i' L by simp
  have z0: "get_nat zero_block j = 0" if "j + 3 < BSIZE" for j
    using that by (simp add: get_nat_def get32_def zero_block_def)
  have b: "baddr (blocks s') i' bm = baddr (blocks s) i bm" if "bm < MAXFILE" for bm
    using that i' L z ind a(2) za z0 by (auto simp: baddr_def)
  then show "bm < MAXFILE \<Longrightarrow> baddr (blocks s') i' bm = baddr (blocks s) i bm" .
  have nb: "a \<noteq> baddr (blocks s) i bm" if "bm < MAXFILE" for bm using a(1,2) owned_baddr[OF that, of "blocks s" i] by metis
  show o: "owned (blocks s') i' = insert a (owned (blocks s) i)"
    using b ind z a(2) unfolding owned_def by auto
  have dt: "\<forall>c \<in> insert a (owned (blocks s) i). is_data s' c \<and> used s' c"
    using a(3,4) u inode_okD(3)[OF i] sm by (auto simp: is_data_def)
  have sz: "i_size i' = i_size i" "length (i_addrs i') = NDIRECT + 1" using i' L by simp_all
  have hole: "\<forall>bn. bn * BSIZE < i_size i' \<longrightarrow> baddr (blocks s') i' bn \<noteq> 0"
  proof (intro allI impI)
    fix bm assume m: "bm * BSIZE < i_size i'"
    then have "bm < MAXFILE" using inode_okD(2)[OF i] sz by simp
    then show "baddr (blocks s') i' bm \<noteq> 0" using b inode_okD(7)[OF i] m sz by simp
  qed
  have inj: "\<forall>bn < MAXFILE. \<forall>bm < MAXFILE. baddr (blocks s') i' bn = baddr (blocks s') i' bm \<and> baddr (blocks s') i' bn \<noteq> 0 \<longrightarrow> bn = bm"
    using b inode_okD(5)[OF i] by auto
  have "\<forall>bn < MAXFILE. baddr (blocks s') i' bn \<noteq> 0 \<longrightarrow> baddr (blocks s') i' bn \<noteq> i_addrs i' ! NDIRECT"
    using b nb ind by metis
  then show "inode_ok s' i'" unfolding inode_ok_def o using sz dt inj hole inode_okD(2)[OF i] by simp
qed

lemma fs_step_grow:
  assumes s: "fsb_ok s'" "sb s' = sb s" "nblk s' = nblk s" "loglen s' = loglen s" "ops s' = ops s"
      "devsw s' = devsw s" "devst s' = devst s" and i: "ip < length (icache s)" "icache s' = (icache s)[ip := i']"
      "i' = (icache s ! ip)\<lparr>i_addrs := as\<rparr>" "inode_ok s' i'" "owned (blocks s') i' = insert a (owned (blocks s) (icache s ! ip))"
    and a: "\<not> used s a" "\<And>c. c < sb_size (sb s) \<Longrightarrow> used s' c \<longleftrightarrow> used s c \<or> c = a" and ok: "inode_ok s (icache s ! ip)"
    and B: "\<And>c. is_data s c \<Longrightarrow> used s c \<Longrightarrow> c \<notin> owned (blocks s) (icache s ! ip) \<Longrightarrow> blocks s' c = blocks s c"
      "\<And>c. c < sb_bmapstart (sb s) \<Longrightarrow> blocks s' c = blocks s c"
  shows "fs_step ip s s'"
  unfolding fs_step_def using s i a B inode_okD(4)[OF ok] by auto

text \<open>What \<open>bmap\<close> gives: the block of entry \<open>bn\<close>, the other entries unchanged.\<close>

definition maps_block :: "nat \<Rightarrow> nat \<Rightarrow> nat \<Rightarrow> ('d, 'z) fsys_scheme \<Rightarrow> ('d, 'z) fsys_scheme \<Rightarrow> bool" where
  "maps_block ip bn a s s' \<longleftrightarrow> fs_step ip s s' \<and> a \<noteq> 0 \<and>
     (\<forall>bm < MAXFILE. baddr (blocks s') (icache s' ! ip) bm = (if bm = bn then a else baddr (blocks s) (icache s ! ip) bm)) \<and>
     (baddr (blocks s) (icache s ! ip) bn \<noteq> 0 \<longrightarrow> a = baddr (blocks s) (icache s ! ip) bn \<and> blocks s' a = blocks s a) \<and>
     (\<forall>bm < MAXFILE. bm \<noteq> bn \<and> baddr (blocks s) (icache s ! ip) bm \<noteq> 0 \<longrightarrow>
        blocks s' (baddr (blocks s) (icache s ! ip) bm) = blocks s (baddr (blocks s) (icache s ! ip) bm))"

lemma data_nz: "fsb_ok s \<Longrightarrow> is_data s a \<Longrightarrow> a \<noteq> 0"
  using bmapstart_data[OF fsb_okD(1), of s a] by auto

lemma data_less: "fsb_ok s \<Longrightarrow> is_data s a \<Longrightarrow> a < nblk s"
  using fsb_okD(3) by (fastforce simp: is_data_def)

lemma bmap_direct:
  assumes s: "fsb_ok s" "ip < length (icache s)" "inode_ok s (icache s ! ip)" and bn: "bn < NDIRECT"
    and z: "i_addrs (icache s ! ip) ! bn = 0" and a: "is_data s a" "\<not> used s a"
  shows "maps_block ip bn a s (upd_inode ip (\<lambda>i. i\<lparr>i_addrs := (i_addrs i)[bn := a]\<rparr>) (allocated a s))"
proof -
  let ?i = "icache s ! ip" and ?s1 = "allocated a s"
  let ?i' = "?i\<lparr>i_addrs := (i_addrs ?i)[bn := a]\<rparr>"
  let ?s' = "?s1\<lparr>icache := (icache s)[ip := ?i']\<rparr>"
  note al = allocated_ok[OF s(1) a(1)] and fr = alloc_frame[OF s(1,3) a]
  note nz = data_nz[OF s(1) a(1)] and L = inode_okD(1)[OF s(3)]
  have b: "baddr (blocks ?s1) ?i' bm = (if bm = bn then a else baddr (blocks s) ?i bm)" for bm
    using bn L fun_cong[OF fr(4), of bm] by (auto simp: baddr_def)
  have z': "baddr (blocks s) ?i bn = 0" using z bn by (simp add: baddr_def)
  have ow: "used ?s1 c" if "c \<in> owned (blocks s) ?i" for c using inode_okD(4)[OF fr(1)] that fr(2) by simp
  have g: "inode_ok ?s' ?i'" "owned (blocks ?s1) ?i' = insert a (owned (blocks s) ?i)"
    using grow_entry[OF s(3), of ?i' bn ?s1 a] L bn b z' fr(3) nz a(1) al(2)[of a] ow by (auto simp: is_data_def)
  have st: "fs_step ip s ?s'"
  proof (rule fs_step_grow[where a = a and i' = ?i'])
    show "used ?s' c \<longleftrightarrow> used s c \<or> c = a" if "c < sb_size (sb s)" for c using al(2)[OF that] by simp
    show "blocks ?s' c = blocks s c" if "is_data s c" "used s c" for c using al(6)[OF that(1)] that(2) a(2) by auto
    show "blocks ?s' c = blocks s c" if "c < sb_bmapstart (sb s)" for c
      using allocated_before_bitmap[OF s(1) a(1) that] by simp
  qed (use s a al(1) g in simp_all)
  have "blocks ?s1 (baddr (blocks s) ?i bm) = blocks s (baddr (blocks s) ?i bm)"
    if "bm < MAXFILE" "baddr (blocks s) ?i bm \<noteq> 0" for bm
    using owned_baddr[OF that] inode_okD(3,4)[OF s(3)] al(6) a(2) by metis
  then show ?thesis using st b z' nz s(2) by (simp add: maps_block_def)
qed

lemma bmap_new_ind:
  assumes s: "fsb_ok s" "ip < length (icache s)" "inode_ok s (icache s ! ip)"
    and z: "i_addrs (icache s ! ip) ! NDIRECT = 0" and a: "is_data s a" "\<not> used s a"
    and s'_def: "s' = upd_inode ip (\<lambda>i. i\<lparr>i_addrs := (i_addrs i)[NDIRECT := a]\<rparr>) (allocated a s)"
  shows "fs_step ip s s'" "bm < MAXFILE \<Longrightarrow> baddr (blocks s') (icache s' ! ip) bm = baddr (blocks s) (icache s ! ip) bm"
    "bm < MAXFILE \<Longrightarrow> baddr (blocks s) (icache s ! ip) bm \<noteq> 0 \<Longrightarrow>
       blocks s' (baddr (blocks s) (icache s ! ip) bm) = blocks s (baddr (blocks s) (icache s ! ip) bm)"
    "i_addrs (icache s' ! ip) ! NDIRECT = a"
proof -
  let ?i = "icache s ! ip" and ?s1 = "allocated a s"
  let ?i' = "?i\<lparr>i_addrs := (i_addrs ?i)[NDIRECT := a]\<rparr>"
  have s': "s' = ?s1\<lparr>icache := (icache s)[ip := ?i']\<rparr>" by (simp add: s'_def)
  note al = allocated_ok[OF s(1) a(1)] and fr = alloc_frame[OF s(1,3) a]
  note nz = data_nz[OF s(1) a(1)] and L = inode_okD(1)[OF s(3)]
  have ow: "used ?s1 c" if "c \<in> owned (blocks s) ?i" for c using inode_okD(4)[OF fr(1)] that fr(2) by simp
  have ua: "used ?s1 a" using al(2)[of a] a(1) by (simp add: is_data_def)
  note g = grow_ind[OF s(3) refl z allocated_sel(6) al(5) fr(3) nz a(1) ua ow]
  show "fs_step ip s s'"
  proof (rule fs_step_grow[where a = a and i' = ?i'])
    show "used s' c \<longleftrightarrow> used s c \<or> c = a" if "c < sb_size (sb s)" for c using al(2)[OF that] s' by simp
    show "blocks s' c = blocks s c" if "is_data s c" "used s c" for c using al(6)[OF that(1)] that(2) a(2) s' by auto
    show "blocks s' c = blocks s c" if "c < sb_bmapstart (sb s)" for c
      using allocated_before_bitmap[OF s(1) a(1) that] s' by simp
  qed (use s a al(1) g(1,2) s' in simp_all)
  show "bm < MAXFILE \<Longrightarrow> baddr (blocks s') (icache s' ! ip) bm = baddr (blocks s) (icache s ! ip) bm"
    using g(3) s' s(2) by simp
  show "i_addrs (icache s' ! ip) ! NDIRECT = a" using s' s(2) L by simp
  show "blocks s' (baddr (blocks s) ?i bm) = blocks s (baddr (blocks s) ?i bm)"
    if "bm < MAXFILE" "baddr (blocks s) ?i bm \<noteq> 0"
  proof -
    have "is_data s (baddr (blocks s) ?i bm)" "used s (baddr (blocks s) ?i bm)"
      using owned_baddr[OF that] inode_okD(3,4)[OF s(3)] by blast+
    then show ?thesis using al(6)[of "baddr (blocks s) ?i bm"] a(2) s' by auto
  qed
qed

lemma bmap_entry:
  assumes s: "fsb_ok s" "ip < length (icache s)" "inode_ok s (icache s ! ip)" and bn: "NDIRECT \<le> bn" "bn < MAXFILE"
    and ind: "i_addrs (icache s ! ip) ! NDIRECT = ind" "ind \<noteq> 0" and z: "baddr (blocks s) (icache s ! ip) bn = 0"
    and a: "is_data s a" "\<not> used s a"
    and s': "s' = (allocated a s)\<lparr>blocks := (blocks (allocated a s))(ind := put_nat (blocks s ind) (4 * (bn - NDIRECT)) a), hdr := h\<rparr>"
  shows "maps_block ip bn a s s'"
proof -
  let ?i = "icache s ! ip" and ?s1 = "allocated a s"
  note al = allocated_ok[OF s(1) a(1)] and fr = alloc_frame[OF s(1,3) a]
  note nz = data_nz[OF s(1) a(1)] and L = inode_okD(1)[OF s(3)]
  have indo: "ind \<in> owned (blocks s) ?i" using owned_ind[of ?i "blocks s"] ind by simp
  then have indd: "is_data s ind" "used s ind" "ind \<noteq> a" using inode_okD(3,4)[OF s(3)] a(2) by auto
  have d1: "is_data ?s1 ind" using indd by (simp add: is_data_def)
  have len: "length (put_nat (blocks s ind) (4 * (bn - NDIRECT)) a) = BSIZE" using fsb_okD(4)[OF s(1)] by simp
  have ok': "fsb_ok s'" using fsb_ok_data_upd[OF al(1) len d1, of h] s' by simp
  have u': "used s' c \<longleftrightarrow> used s c \<or> c = a" if "c < sb_size (sb s)" for c
    using used_data_upd[OF al(1) _ d1, of c h "put_nat (blocks s ind) (4 * (bn - NDIRECT)) a"] al(2)[OF that] that s'
    by simp
  have a32: "a < 2 ^ 32" using fsb_okD(1)[OF s(1)] a(1) by (auto simp: layout_def is_data_def)
  have sb': "sb s' = sb s" "icache s' = icache s" using s' by simp_all
  have b: "baddr (blocks s') ?i bm = (if bm = bn then a else baddr (blocks s) ?i bm)" if "bm < MAXFILE" for bm
  proof (cases "bm < NDIRECT")
    case False
    then have "4 * (bm - NDIRECT) + 3 < 4 * (bn - NDIRECT) \<or> 4 * (bn - NDIRECT) + 3 < 4 * (bm - NDIRECT) \<or> bm = bn"
      using bn(1) by linarith
    then show ?thesis using False that ind bn fsb_okD(4)[OF s(1), of ind] a32 s' by (auto simp: baddr_def)
  qed (use bn in \<open>auto simp: baddr_def\<close>)
  have ow: "used s' c" if "c \<in> owned (blocks s) ?i" for c
    using inode_okD(3,4)[OF s(3) that] u' by (auto simp: is_data_def)
  have ua: "used s' a" using u' a(1) by (simp add: is_data_def)
  note g = grow_entry[OF s(3) L refl refl bn(2) sb'(1) b z fr(3) nz a(1) ua ow]
  have same: "blocks s' c = blocks s c" if "is_data s c" "used s c" "c \<noteq> ind" for c
    using al(6)[OF that(1)] that(2,3) a(2) s' by auto
  have st: "fs_step ip s s'"
  proof (rule fs_step_grow[where a = a and i' = ?i and as = "i_addrs ?i"])
    show "blocks s' c = blocks s c" if "is_data s c" "used s c" "c \<notin> owned (blocks s) ?i" for c
      using same that indo by blast
    show "blocks s' c = blocks s c" if "c < sb_bmapstart (sb s)" for c
      using allocated_before_bitmap[OF s(1) a(1) that] bmapstart_data[OF fsb_okD(1)[OF s(1)] indd(1)] that s' by simp
  qed (use s a ok' u' g sb' s' in \<open>simp_all add: list_update_id\<close>)
  have "blocks s' (baddr (blocks s) ?i bm) = blocks s (baddr (blocks s) ?i bm)"
    if "bm < MAXFILE" "baddr (blocks s) ?i bm \<noteq> 0" for bm
    using owned_baddr[OF that] inode_okD(3,4)[OF s(3)] inode_okD(6)[OF s(3) that] ind(1) by (intro same) auto
  then show ?thesis using st b z nz sb'(2) by (simp add: maps_block_def)
qed

lemma maps_refl:
  "fsb_ok s \<Longrightarrow> inode_ok s (icache s ! ip) \<Longrightarrow> baddr (blocks s) (icache s ! ip) bn \<noteq> 0 \<Longrightarrow>
   maps_block ip bn (baddr (blocks s) (icache s ! ip) bn) s s"
  by (simp add: maps_block_def fs_step_refl)

lemma maps_after:
  assumes 1: "fs_step ip s s1" "\<And>bm. bm < MAXFILE \<Longrightarrow> baddr (blocks s1) (icache s1 ! ip) bm = baddr (blocks s) (icache s ! ip) bm"
    "\<And>bm. bm < MAXFILE \<Longrightarrow> baddr (blocks s) (icache s ! ip) bm \<noteq> 0 \<Longrightarrow>
       blocks s1 (baddr (blocks s) (icache s ! ip) bm) = blocks s (baddr (blocks s) (icache s ! ip) bm)"
    and 2: "maps_block ip bn a s1 s2" and bn: "bn < MAXFILE"
  shows "maps_block ip bn a s s2"
  using fs_step_trans[OF 1(1)] 1(2,3) 2 bn unfolding maps_block_def by auto

lemma free_block:
  assumes "fsb_ok s" "room (k + 2) s" "0 < nfree s"
  obtains a where "balloc s = Inr (a, allocated a s)" "room k (allocated a s)" "is_data s a" "\<not> used s a"
    "nfree s = Suc (nfree (allocated a s))"
proof -
  from nfree_pos[OF assms(3)] obtain b where "b < sb_size (sb s)" "\<not> used s b" by blast
  from balloc_ok[OF assms(1,2) this] that nfree_allocated[OF assms(1)] show ?thesis by metis
qed

lemma nfree_data_upd:
  "fsb_ok s \<Longrightarrow> is_data s c \<Longrightarrow> nfree (s\<lparr>blocks := (blocks s)(c := d), hdr := h\<rparr>) = nfree s"
  using used_data_upd[of s _ c h d] unfolding nfree_def by (auto intro!: arg_cong[where f = card])

lemma bmap_ind_ok:
  assumes s: "fsb_ok s" "ip < length (icache s)" "inode_ok s (icache s ! ip)" and bn: "NDIRECT \<le> bn" "bn < MAXFILE"
    and ind: "i_addrs (icache s ! ip) ! NDIRECT = ind" "ind \<noteq> 0" and r: "room (k + 3) s" and f: "0 < nfree s"
  shows "\<exists>a s'. bmap_ind (bn - NDIRECT) ind s = Inr (a, s') \<and> maps_block ip bn a s s' \<and> room k s' \<and> nfree s \<le> nfree s' + 1"
proof -
  have d: "is_data s ind" using owned_ind[of "icache s ! ip" "blocks s"] ind inode_okD(3)[OF s(3)] by simp
  note n = data_less[OF s(1) d]
  have b: "baddr (blocks s) (icache s ! ip) bn = get_nat (blocks s ind) (4 * (bn - NDIRECT))"
    using bn(1) ind by (simp add: baddr_def)
  show ?thesis
  proof (cases "baddr (blocks s) (icache s ! ip) bn = 0")
    case False
    then have "bmap_ind (bn - NDIRECT) ind s = Inr (baddr (blocks s) (icache s ! ip) bn, s)"
      using n b by (simp add: bmap_ind_def)
    then show ?thesis using maps_refl[OF s(1,3) False] room_mono[OF r, of k] by auto
  next
    case True
    have "room (Suc k + 2) s" using r by (rule room_mono) simp
    from free_block[OF s(1) this f] obtain a where a: "balloc s = Inr (a, allocated a s)" "room (Suc k) (allocated a s)"
      "is_data s a" "\<not> used s a" "nfree s = Suc (nfree (allocated a s))" .
    have n1: "ind < nblk (allocated a s)" using n by simp
    let ?s' = "(allocated a s)\<lparr>blocks := (blocks (allocated a s))(ind := put_nat (blocks s ind) (4 * (bn - NDIRECT)) a),
      hdr := add_hdr ind (hdr (allocated a s))\<rparr>"
    note w = wr_block_ok[OF a(2) n1, of "put_nat (blocks s ind) (4 * (bn - NDIRECT)) a"]
    have "bmap_ind (bn - NDIRECT) ind s = Inr (a, ?s')" using n b True a(1) w(1) by (simp add: bmap_ind_def)
    moreover have "maps_block ip bn a s ?s'" by (rule bmap_entry[OF s bn ind True a(3,4) refl])
    moreover have "is_data (allocated a s) ind" using d by (simp add: is_data_def)
    then have "nfree ?s' = nfree (allocated a s)" by (rule nfree_data_upd[OF allocated_ok(1)[OF s(1) a(3)]])
    ultimately show ?thesis using w(2) a(5) by auto
  qed
qed

lemma bmap_ok:
  assumes s: "fsb_ok s" "ip < length (icache s)" "inode_ok s (icache s ! ip)" and bn: "bn < MAXFILE"
    and r: "room (k + 5) s" and f: "2 \<le> nfree s"
  shows "\<exists>a s'. bmap ip bn s = Inr (a, s') \<and> maps_block ip bn a s s' \<and> room k s' \<and> nfree s \<le> nfree s' + 2"
proof -
  let ?i = "icache s ! ip"
  consider "bn < NDIRECT" "i_addrs ?i ! bn \<noteq> 0" | "bn < NDIRECT" "i_addrs ?i ! bn = 0"
    | "NDIRECT \<le> bn" "i_addrs ?i ! NDIRECT \<noteq> 0" | "NDIRECT \<le> bn" "i_addrs ?i ! NDIRECT = 0" by linarith
  then show ?thesis
  proof cases
    case 1
    then have b: "baddr (blocks s) ?i bn = i_addrs ?i ! bn" by (simp add: baddr_def)
    then show ?thesis using maps_refl[OF s(1,3), of bn] 1 room_mono[OF r, of k] by (auto simp: bmap_def)
  next
    case 2
    have "room (k + 3 + 2) s" "0 < nfree s" using r f by (auto intro: room_mono)
    from free_block[OF s(1) this] obtain a where a: "balloc s = Inr (a, allocated a s)" "room (k + 3) (allocated a s)"
      "is_data s a" "\<not> used s a" "nfree s = Suc (nfree (allocated a s))" .
    then show ?thesis using bmap_direct[OF s 2 a(3,4)] room_mono[OF a(2), of k] 2 by (simp add: bmap_def)
  next
    case 3
    have "room (k + 3) s" "0 < nfree s" using r f by (auto intro: room_mono)
    from bmap_ind_ok[OF s 3(1) bn refl 3(2) this] show ?thesis using 3 bn by (force simp: bmap_def)
  next
    case 4
    have "room (k + 3 + 2) s" "0 < nfree s" using r f by (auto intro: room_mono)
    from free_block[OF s(1) this] obtain a where a: "balloc s = Inr (a, allocated a s)" "room (k + 3) (allocated a s)"
      "is_data s a" "\<not> used s a" "nfree s = Suc (nfree (allocated a s))" .
    define s1 where "s1 = upd_inode ip (\<lambda>i. i\<lparr>i_addrs := (i_addrs i)[NDIRECT := a]\<rparr>) (allocated a s)"
    note n = bmap_new_ind[OF s 4(2) a(3,4) s1_def] and st = fs_stepD[OF bmap_new_ind(1)[OF s 4(2) a(3,4) s1_def]]
    have "ip < length (icache s1)" "room (k + 3) s1" "0 < nfree s1" "nfree s = Suc (nfree s1)"
      using st(6) s(2) a(2,5) f by (simp_all add: s1_def)
    note m = bmap_ind_ok[OF st(1) this(1) st(8) 4(1) bn n(4) data_nz[OF s(1) a(3)] this(2,3)] and this
    then obtain c s' where "bmap_ind (bn - NDIRECT) a s1 = Inr (c, s')" "maps_block ip bn c s1 s'" "room k s'"
      "nfree s \<le> nfree s' + 2" by auto
    moreover have "\<not> bn < NDIRECT" "bn - NDIRECT < NINDIRECT" using 4(1) bn by auto
    then have "bmap ip bn s = bmap_ind (bn - NDIRECT) a s1" using 4(2) a(1) by (simp add: bmap_def s1_def)
    moreover have "maps_block ip bn c s s'" by (rule maps_after[OF n(1-3) calculation(2) bn])
    ultimately show ?thesis by auto
  qed
qed

section \<open>Reading\<close>

text \<open>\<open>bmap\<close> of a block that is mapped changes nothing.\<close>

lemma bmap_mapped:
  assumes s: "fsb_ok s" "inode_ok s (icache s ! ip)" and b: "bn < MAXFILE" "baddr (blocks s) (icache s ! ip) bn \<noteq> 0"
  shows "bmap ip bn s = Inr (baddr (blocks s) (icache s ! ip) bn, s)"
proof (cases "bn < NDIRECT")
  case False
  then have i: "i_addrs (icache s ! ip) ! NDIRECT \<noteq> 0" "bn - NDIRECT < NINDIRECT" using b by (auto simp: baddr_def split: if_splits)
  then have "i_addrs (icache s ! ip) ! NDIRECT < nblk s"
    using owned_ind[of "icache s ! ip" "blocks s"] inode_okD(3)[OF s(2)] data_less[OF s(1)] by blast
  then show ?thesis using False i b by (simp add: bmap_def bmap_ind_def baddr_def)
qed (use b in \<open>simp add: bmap_def baddr_def\<close>)

lemma baddr_less:
  "fsb_ok s \<Longrightarrow> inode_ok s i \<Longrightarrow> bn < MAXFILE \<Longrightarrow> baddr (blocks s) i bn \<noteq> 0 \<Longrightarrow> baddr (blocks s) i bn < nblk s"
  by (intro data_less inode_okD(3)[of s i] owned_baddr)

lemma block_pos:
  assumes "j < BSIZE - off mod BSIZE"
  shows "(off + j) div BSIZE = off div BSIZE" "(off + j) mod BSIZE = off mod BSIZE + j"
proof -
  have "off mod BSIZE + j < BSIZE" using assms by simp
  moreover have e: "off + j = off div BSIZE * BSIZE + (off mod BSIZE + j)" by simp
  ultimately show "(off + j) div BSIZE = off div BSIZE" "(off + j) mod BSIZE = off mod BSIZE + j"
    by (metis div_mult_self3 zero_neq_numeral div_less add_0_right, metis mod_mult_self3 mod_less)
qed

lemma content_piece:
  assumes l: "length (B (baddr B i (off div BSIZE))) = BSIZE" and m: "m \<le> BSIZE - off mod BSIZE" "off + m \<le> i_size i"
  shows "take m (drop (off mod BSIZE) (B (baddr B i (off div BSIZE)))) = take m (drop off (contents B i))"
proof (rule nth_equalityI)
  show L: "length (take m (drop (off mod BSIZE) (B (baddr B i (off div BSIZE))))) = length (take m (drop off (contents B i)))"
    using l m by (simp add: contents_def)
  fix j assume "j < length (take m (drop (off mod BSIZE) (B (baddr B i (off div BSIZE)))))"
  then have j: "j < m" "j < BSIZE - off mod BSIZE" using m by auto
  then show "take m (drop (off mod BSIZE) (B (baddr B i (off div BSIZE)))) ! j = take m (drop off (contents B i)) ! j"
    using l m block_pos[OF j(2)] by (simp add: contents_def)
qed

lemma readi_loop_ok:
  assumes "fsb_ok s" "inode_ok s (icache s ! ip)" "off + n \<le> i_size (icache s ! ip)"
  shows "readi_loop ip off n s = Inr (take n (drop off (contents (blocks s) (icache s ! ip))), s)"
  using assms
proof (induction ip off n s rule: readi_loop.induct)
  case (1 ip off n s)
  show ?case
  proof (cases "n = 0")
    case False
    let ?i = "icache s ! ip" and ?m = "min n (BSIZE - off mod BSIZE)"
    have "off div BSIZE * BSIZE < i_size ?i" using 1(4) False by (simp add: le_less_trans[of _ off])
    then have nz: "baddr (blocks s) ?i (off div BSIZE) \<noteq> 0" and lt: "off div BSIZE < MAXFILE"
      using inode_okD(2,7)[OF 1(3)] by (blast, simp)
    note bm = bmap_mapped[OF 1(2,3) lt nz] and ad = baddr_less[OF 1(2,3) lt nz]
    have ih: "readi_loop ip (off + ?m) (n - ?m) s = Inr (take (n - ?m) (drop (off + ?m) (contents (blocks s) ?i)), s)"
      using "1.IH"[OF False refl, of s] 1(2-4) by simp
    have "take ?m (drop (off mod BSIZE) (blocks s (baddr (blocks s) ?i (off div BSIZE)))) = take ?m (drop off (contents (blocks s) ?i))"
      using 1(4) by (intro content_piece fsb_okD(4)[OF 1(2)]) auto
    moreover have "take ?m (drop off c) @ take (n - ?m) (drop (off + ?m) c) = take n (drop off c)" for c :: "byte list"
      using take_add[of ?m "n - ?m" "drop off c"] by (simp add: add.commute)
    ultimately show ?thesis
      using bm ad ih False by (subst readi_loop.simps) (simp add: Let_def)
  qed (subst readi_loop.simps, simp)
qed

lemma uint_wrap: "off < 2 ^ 32 \<Longrightarrow> n < 2 ^ 32 \<Longrightarrow> (off + n) mod 2 ^ 32 < off \<longleftrightarrow> 2 ^ 32 \<le> off + (n :: nat)"
  by (cases "off + n < 2 ^ 32") (auto simp: mod_if)

lemma readi_ok:
  assumes "fsb_ok s" "inode_ok s (icache s ! ip)" "i_type (icache s ! ip) \<noteq> T_DEV" "off < 2 ^ 32" "n < 2 ^ 32"
  shows "readi ip off n s =
    (if i_size (icache s ! ip) < off \<or> 2 ^ 32 \<le> off + n then Inr (-1, [], s)
     else let bs = take n (drop off (contents (blocks s) (icache s ! ip))) in Inr (int (length bs), bs, s))"
proof -
  let ?i = "icache s ! ip"
  have L: "length (contents (blocks s) ?i) = i_size ?i" by (simp add: contents_def)
  have w: "(off + n) mod 2 ^ 32 < off \<longleftrightarrow> 2 ^ 32 \<le> off + n" by (rule uint_wrap[OF assms(4,5)])
  show ?thesis
  proof (cases "i_size ?i < off \<or> 2 ^ 32 \<le> off + n")
    case False
    then have mo: "(off + n) mod 2 ^ 32 = off + n" by simp
    let ?n = "if i_size ?i < off + n then i_size ?i - off else n"
    have "readi_loop ip off ?n s = Inr (take ?n (drop off (contents (blocks s) ?i)), s)"
      using False by (intro readi_loop_ok[OF assms(1,2)]) auto
    moreover have "take ?n (drop off (contents (blocks s) ?i)) = take n (drop off (contents (blocks s) ?i))"
      using L by simp
    ultimately show ?thesis using False w mo assms(3) L by (simp add: readi_def Let_def)
  qed (use w assms(3) in \<open>auto simp: readi_def Let_def\<close>)
qed

section \<open>Writing\<close>

definition byte_at :: "('d, 'z) fsys_scheme \<Rightarrow> nat \<Rightarrow> nat \<Rightarrow> byte" where
  "byte_at s ip k = blocks s (baddr (blocks s) (icache s ! ip) (k div BSIZE)) ! (k mod BSIZE)"

definition mapped :: "('d, 'z) fsys_scheme \<Rightarrow> nat \<Rightarrow> nat \<Rightarrow> bool" where
  "mapped s ip k \<longleftrightarrow> baddr (blocks s) (icache s ! ip) (k div BSIZE) \<noteq> 0"

text \<open>The number of blocks the bytes from \<open>off\<close> to \<open>off + n\<close> lie in.\<close>

definition span :: "nat \<Rightarrow> nat \<Rightarrow> nat" where
  "span off n = (if n = 0 then 0 else (off mod BSIZE + n + (BSIZE - 1)) div BSIZE)"

lemma span_step:
  assumes "0 < n" "m = min n (BSIZE - off mod BSIZE)"
  shows "span off n = Suc (span (off + m) (n - m))"
proof (cases "n \<le> BSIZE - off mod BSIZE")
  case True
  then have "m = n" "off mod BSIZE + n + 511 < 1024" "512 \<le> off mod BSIZE + n + 511" using assms by auto
  then have "(off mod BSIZE + n + 511) div 512 = 1" by (intro div_nat_eqI) auto
  then show ?thesis using assms(1) \<open>m = n\<close> by (simp add: span_def)
next
  case False
  have lt: "off mod BSIZE < BSIZE" by simp
  have m: "m = BSIZE - off mod BSIZE" "off mod BSIZE + m = BSIZE" "m < n" using False assms lt by auto
  then have "(off + m) mod BSIZE = 0" by (metis mod_add_left_eq mod_self)
  moreover have "off mod BSIZE + n + 511 = n - m + 511 + 512" using m by linarith
  ultimately show ?thesis using m(3) assms(1) by (simp add: span_def)
qed

lemma length_overwrite: "off + length src \<le> length d \<Longrightarrow> length (overwrite off src d) = length d"
  by (simp add: overwrite_def)

lemma nth_overwrite:
  "off + length src \<le> length d \<Longrightarrow> j < length d \<Longrightarrow>
   overwrite off src d ! j = (if off \<le> j \<and> j < off + length src then src ! (j - off) else d ! j)"
  by (auto simp: overwrite_def nth_append)

text \<open>Storing into a data block of the file.\<close>

lemma fs_step_data:
  assumes s: "fsb_ok s" "inode_ok s (icache s ! ip)" and b: "bn < MAXFILE" "baddr (blocks s) (icache s ! ip) bn = a" "a \<noteq> 0"
    and d: "length d = BSIZE" and s': "s' = s\<lparr>blocks := (blocks s)(a := d), hdr := h\<rparr>"
  shows "fs_step ip s s'" "baddr (blocks s') (icache s' ! ip) = baddr (blocks s) (icache s ! ip)"
proof -
  let ?i = "icache s ! ip"
  have ao: "a \<in> owned (blocks s) ?i" using owned_baddr[of bn "blocks s" ?i] b by simp
  note ad = inode_okD(3,4)[OF s(2) ao]
  have na: "a \<noteq> i_addrs ?i ! NDIRECT" using inode_okD(6)[OF s(2) b(1)] b by simp
  show bb: "baddr (blocks s') (icache s' ! ip) = baddr (blocks s) (icache s ! ip)"
    using na s' by (simp add: baddr_cong)
  then have o: "owned (blocks s') ?i = owned (blocks s) ?i" using s' by (intro owned_cong) simp
  have ok: "fsb_ok s'" using fsb_ok_data_upd[OF s(1) d ad(1)] s' by simp
  have u: "used s' c = used s c" if "c < sb_size (sb s)" for c using used_data_upd[OF s(1) that ad(1)] s' by simp
  have bb': "baddr (blocks s') ?i = baddr (blocks s) ?i" using bb s' by simp
  have "\<forall>c \<in> owned (blocks s) ?i. is_data s' c \<and> used s' c"
    using inode_okD(3,4)[OF s(2)] u s' by (auto simp: is_data_def)
  then have i: "inode_ok s' ?i" using s(2) unfolding inode_ok_def o bb' by simp
  have "sb_bmapstart (sb s) < a" by (rule bmapstart_data[OF fsb_okD(1)[OF s(1)] ad(1)])
  then show "fs_step ip s s'"
    unfolding fs_step_def using s' ok u i o ao inode_okD(4)[OF s(2)] by (auto intro: exI[of _ "i_addrs ?i"])
qed

text \<open>One round of the loop: the bytes from \<open>off\<close> on that lie in the block of \<open>off\<close>.\<close>

lemma writei_round:
  assumes s: "fsb_ok s" "ip < length (icache s)" "inode_ok s (icache s ! ip)"
    and o: "0 < m" "m \<le> BSIZE - off mod BSIZE" "off + m \<le> MAXFILE * BSIZE" "length bs = m"
    and r: "room (k + 6) s" and f: "2 \<le> nfree s"
  shows "\<exists>a s1 s2. bmap ip (off div BSIZE) s = Inr (a, s1) \<and> a < nblk s1 \<and>
    wr_block a (overwrite (off mod BSIZE) bs (blocks s1 a)) s1 = Inr s2 \<and> fs_step ip s s2 \<and> room k s2 \<and> nfree s \<le> nfree s2 + 2 \<and>
    (\<forall>j < MAXFILE * BSIZE. mapped s2 ip j \<longleftrightarrow> mapped s ip j \<or> j div BSIZE = off div BSIZE) \<and>
    (\<forall>j < MAXFILE * BSIZE. mapped s ip j \<and> (j < off \<or> off + m \<le> j) \<longrightarrow> byte_at s2 ip j = byte_at s ip j) \<and>
    (\<forall>j < m. byte_at s2 ip (off + j) = bs ! j) \<and>
    (mapped s ip off \<longrightarrow> icache s2 = icache s)"
proof -
  let ?bn = "off div BSIZE" and ?i = "icache s ! ip"
  have lt: "?bn < MAXFILE" using o by simp
  have r5: "room (Suc k + 5) s" using r by (rule room_mono) simp
  from bmap_ok[OF s lt r5 f] obtain a s1 where b: "bmap ip ?bn s = Inr (a, s1)" "maps_block ip ?bn a s s1" "room (Suc k) s1"
    "nfree s \<le> nfree s1 + 2" by blast
  have st: "fs_step ip s s1" and anz: "a \<noteq> 0"
    and ba: "\<And>bm. bm < MAXFILE \<Longrightarrow> baddr (blocks s1) (icache s1 ! ip) bm = (if bm = ?bn then a else baddr (blocks s) ?i bm)"
    and same: "baddr (blocks s) ?i ?bn \<noteq> 0 \<Longrightarrow> a = baddr (blocks s) ?i ?bn \<and> blocks s1 a = blocks s a"
      "\<And>bm. bm < MAXFILE \<Longrightarrow> bm \<noteq> ?bn \<Longrightarrow> baddr (blocks s) ?i bm \<noteq> 0 \<Longrightarrow>
        blocks s1 (baddr (blocks s) ?i bm) = blocks s (baddr (blocks s) ?i bm)"
    using b(2) unfolding maps_block_def by auto
  note d1 = fs_stepD[OF st]
  have a1: "baddr (blocks s1) (icache s1 ! ip) ?bn = a" using ba[OF lt] by simp
  have an: "a < nblk s1" using baddr_less[OF d1(1,8) lt] a1 anz by simp
  let ?d = "overwrite (off mod BSIZE) bs (blocks s1 a)"
  have L: "length (blocks s1 c) = BSIZE" for c by (rule fsb_okD(4)[OF d1(1)])
  have fit: "off mod BSIZE + length bs \<le> length (blocks s1 a)" using o L mod_less_divisor[of BSIZE off] by simp
  define s2 where "s2 = s1\<lparr>blocks := (blocks s1)(a := ?d), hdr := add_hdr a (hdr s1)\<rparr>"
  note w = wr_block_ok[OF b(3) an, of ?d, folded s2_def]
  have Ld: "length ?d = BSIZE" using length_overwrite[OF fit] L by simp
  note st2 = fs_step_data[OF d1(1,8) lt a1 anz Ld s2_def]
  have ic2: "icache s2 = icache s1" by (simp add: s2_def)
  have nf: "nfree s2 = nfree s1" unfolding s2_def
    by (rule nfree_data_upd[OF d1(1)]) (use inode_okD(3)[OF d1(8)] owned_baddr[OF lt] a1 anz in blast)
  have mp: "mapped s2 ip j \<longleftrightarrow> mapped s ip j \<or> j div BSIZE = ?bn" if "j < MAXFILE * BSIZE" for j
  proof -
    have "j div BSIZE < MAXFILE" using that by simp
    then show ?thesis using ba anz st2(2) by (simp add: mapped_def)
  qed
  have by2: "byte_at s2 ip j = (if j div BSIZE = ?bn then ?d ! (j mod BSIZE) else blocks s1 (baddr (blocks s) ?i (j div BSIZE)) ! (j mod BSIZE))"
    if "j < MAXFILE * BSIZE" for j
  proof -
    have jb: "j div BSIZE < MAXFILE" using that by simp
    have "baddr (blocks s) ?i (j div BSIZE) \<noteq> a" if "j div BSIZE \<noteq> ?bn"
      using inode_okD(5)[OF d1(8) jb lt] ba[OF jb] a1 anz that by auto
    then show ?thesis using st2(2) ba[OF jb] by (simp add: byte_at_def s2_def)
  qed
  have old: "byte_at s2 ip j = byte_at s ip j" if j: "j < MAXFILE * BSIZE" "mapped s ip j" "j < off \<or> off + m \<le> j" for j
  proof -
    have jb: "j div BSIZE < MAXFILE" using j by simp
    show ?thesis
    proof (cases "j div BSIZE = ?bn")
      case True
      then have "\<not> (off mod BSIZE \<le> j mod BSIZE \<and> j mod BSIZE < off mod BSIZE + m)"
        using j(3) div_mult_mod_eq[of j BSIZE] div_mult_mod_eq[of off BSIZE] by linarith
      then have "?d ! (j mod BSIZE) = blocks s1 a ! (j mod BSIZE)"
        using nth_overwrite[OF fit, of "j mod BSIZE"] L o(4) by auto
      moreover have "a = baddr (blocks s) ?i ?bn" "blocks s1 a = blocks s a" using same(1) j(2) True unfolding mapped_def by metis+
      ultimately show ?thesis using by2[OF j(1)] True unfolding byte_at_def[of s] by metis
    next
      case False
      then show ?thesis using by2[OF j(1)] same(2)[OF jb] j(2) by (simp add: mapped_def byte_at_def)
    qed
  qed
  have new: "byte_at s2 ip (off + j) = bs ! j" if "j < m" for j
  proof -
    have jb: "j < BSIZE - off mod BSIZE" "off + j < MAXFILE * BSIZE" using that o by auto
    then show ?thesis using by2[OF jb(2)] block_pos[OF jb(1)] nth_overwrite[OF fit, of "off mod BSIZE + j"] L o(4) that by simp
  qed
  have "icache s2 = icache s" if "mapped s ip off"
    using bmap_mapped[OF s(1,3) lt] b(1) that ic2 by (simp add: mapped_def)
  moreover have "nfree s \<le> nfree s2 + 2" using b(4) nf by simp
  ultimately show ?thesis using b(1) an w fs_step_trans[OF st st2(1)] mp old new by blast
qed

lemma writei_loop_ok:
  assumes "fsb_ok s" "ip < length (icache s)" "inode_ok s (icache s ! ip)" "off + length src \<le> MAXFILE * BSIZE"
    "room (k + 6 * span off (length src)) s" "2 * span off (length src) \<le> nfree s"
  shows "\<exists>s'. writei_loop ip off src s = Inr (off + length src, s') \<and> fs_step ip s s' \<and> room k s' \<and>
    (\<forall>j < MAXFILE * BSIZE. mapped s ip j \<or> off \<le> j \<and> j < off + length src \<longrightarrow> mapped s' ip j) \<and>
    (\<forall>j < MAXFILE * BSIZE. mapped s ip j \<and> (j < off \<or> off + length src \<le> j) \<longrightarrow> byte_at s' ip j = byte_at s ip j) \<and>
    (\<forall>j < length src. byte_at s' ip (off + j) = src ! j) \<and>
    ((\<forall>j. off \<le> j \<and> j < off + length src \<longrightarrow> mapped s ip j) \<longrightarrow> icache s' = icache s)"
  using assms
proof (induction ip off src s rule: writei_loop.induct)
  case (1 ip off src s)
  show ?case
  proof (cases "length src = 0")
    case True
    then have "writei_loop ip off src s = Inr (off, s)" by (subst writei_loop.simps) simp
    then show ?thesis using True fs_step_refl[OF 1(2,4)] 1(6) by (auto simp: span_def)
  next
    case False
    define m where "m = min (length src) (BSIZE - off mod BSIZE)"
    have lt: "off mod BSIZE < BSIZE" by simp
    have m: "0 < m" "m \<le> BSIZE - off mod BSIZE" "m \<le> length src" using False lt by (auto simp: m_def)
    have sp: "span off (length src) = Suc (span (off + m) (length src - m))"
      by (rule span_step[OF _ m_def]) (use False in simp)
    have r: "room (k + 6 * span (off + m) (length src - m) + 6) s" using 1(6) sp by (auto intro: room_mono)
    have f: "2 \<le> nfree s" using 1(7) sp by simp
    have lm: "off + m \<le> MAXFILE * BSIZE" "length (take m src) = m" using 1(5) m(3) by auto
    from writei_round[OF 1(2-4) m(1,2) lm r f] obtain a s1 s2 where
      b: "bmap ip (off div BSIZE) s = Inr (a, s1)" "a < nblk s1"
        "wr_block a (overwrite (off mod BSIZE) (take m src) (blocks s1 a)) s1 = Inr s2"
      and st: "fs_step ip s s2" "room (k + 6 * span (off + m) (length src - m)) s2" "nfree s \<le> nfree s2 + 2"
      and mp: "\<forall>j < MAXFILE * BSIZE. mapped s2 ip j \<longleftrightarrow> mapped s ip j \<or> j div BSIZE = off div BSIZE"
      and old: "\<forall>j < MAXFILE * BSIZE. mapped s ip j \<and> (j < off \<or> off + m \<le> j) \<longrightarrow> byte_at s2 ip j = byte_at s ip j"
      and new: "\<forall>j < m. byte_at s2 ip (off + j) = take m src ! j"
      and ic: "mapped s ip off \<longrightarrow> icache s2 = icache s" by blast
    have mnew: "mapped s2 ip j" if "off \<le> j" "j < off + m" for j
    proof -
      have "j - off < BSIZE - off mod BSIZE" using that m(2) by linarith
      then have "j div BSIZE = off div BSIZE" using block_pos(1)[of "j - off" off] that by simp
      then show ?thesis using mp that lm by auto
    qed
    note d2 = fs_stepD[OF st(1)]
    have pre: "ip < length (icache s2)" "off + m + length (drop m src) \<le> MAXFILE * BSIZE"
      "room (k + 6 * span (off + m) (length (drop m src))) s2" "2 * span (off + m) (length (drop m src)) \<le> nfree s2"
      using 1(3,5,7) d2(6) st sp m(3) by auto
    from "1.IH"[OF False m_def d2(1) pre(1) d2(8) pre(2-4)] obtain s' where
      w: "writei_loop ip (off + m) (drop m src) s2 = Inr (off + m + length (drop m src), s')"
      and st': "fs_step ip s2 s'" "room k s'"
      and mp': "\<forall>j < MAXFILE * BSIZE. mapped s2 ip j \<or> off + m \<le> j \<and> j < off + m + length (drop m src) \<longrightarrow> mapped s' ip j"
      and old': "\<forall>j < MAXFILE * BSIZE. mapped s2 ip j \<and> (j < off + m \<or> off + m + length (drop m src) \<le> j) \<longrightarrow> byte_at s' ip j = byte_at s2 ip j"
      and new': "\<forall>j < length (drop m src). byte_at s' ip (off + m + j) = drop m src ! j"
      and ic': "(\<forall>j. off + m \<le> j \<and> j < off + m + length (drop m src) \<longrightarrow> mapped s2 ip j) \<longrightarrow> icache s' = icache s2" by blast
    have e: "off + m + length (drop m src) = off + length src" using m(3) by simp
    have "writei_loop ip off src s = Inr (off + length src, s')"
      using False b w e by (subst writei_loop.simps) (simp add: m_def[symmetric] Let_def)
    moreover have "mapped s' ip j" if "j < MAXFILE * BSIZE" "mapped s ip j \<or> off \<le> j \<and> j < off + length src" for j
    proof (cases "off + m \<le> j \<and> j < off + length src")
      case False
      then have "mapped s2 ip j" using that mp mnew by (metis not_le)
      then show ?thesis using mp' that(1) by blast
    qed (use mp' that e in auto)
    moreover have "byte_at s' ip j = byte_at s ip j"
      if "j < MAXFILE * BSIZE" "mapped s ip j" "j < off \<or> off + length src \<le> j" for j
    proof -
      have "mapped s2 ip j" "j < off + m \<or> off + m + length (drop m src) \<le> j" "j < off \<or> off + m \<le> j"
        using that mp e m(3) by auto
      then show ?thesis using old' old that by simp
    qed
    moreover have "byte_at s' ip (off + j) = src ! j" if "j < length src" for j
    proof (cases "j < m")
      case True
      then have "mapped s2 ip (off + j)" "off + j < MAXFILE * BSIZE" using mnew lm by auto
      then have "byte_at s' ip (off + j) = byte_at s2 ip (off + j)" using old' True by auto
      then show ?thesis using new True by simp
    next
      case False
      then show ?thesis using new'[rule_format, of "j - m"] that m(3) by simp
    qed
    moreover have "icache s' = icache s" if all: "\<forall>j. off \<le> j \<and> j < off + length src \<longrightarrow> mapped s ip j"
    proof -
      have "icache s2 = icache s" using ic all False by simp
      moreover have "mapped s2 ip j" if "off + m \<le> j" "j < off + m + length (drop m src)" for j
      proof -
        have "j < MAXFILE * BSIZE" "mapped s ip j" using that e 1(5) all by auto
        then show ?thesis using mp by blast
      qed
      ultimately show ?thesis using ic' by auto
    qed
    ultimately show ?thesis using fs_step_trans[OF st(1) st'(1)] st'(2) by blast
  qed
qed

section \<open>Inodes on the disk\<close>

lemma length_put_addrs [simp]: "length (put_addrs off as d) = length d"
  by (induction off as d rule: put_addrs.induct) auto

lemma put_addrs_other:
  "j + 3 < off \<or> off + 4 * length as \<le> j \<Longrightarrow> get_nat (put_addrs off as d) j = get_nat d j"
  "j + 1 < off \<or> off + 4 * length as \<le> j \<Longrightarrow> get16 (put_addrs off as d) j = get16 d j"
  by (induction off as d rule: put_addrs.induct) auto

lemma put_addrs_get:
  "off + 4 * length as \<le> length d \<Longrightarrow> \<forall>a \<in> set as. a < 2 ^ 32 \<Longrightarrow> k < length as \<Longrightarrow>
   get_nat (put_addrs off as d) (off + 4 * k) = as ! k"
proof (induction off as d arbitrary: k rule: put_addrs.induct)
  case (2 off a as d)
  show ?case
  proof (cases k)
    case 0
    then show ?thesis using 2 by (simp add: put_addrs_other)
  next
    case (Suc k')
    have "get_nat (put_addrs (off + 4) as (put_nat d off a)) (off + 4 + 4 * k') = as ! k'"
      using 2 Suc by (intro "2.IH") auto
    then show ?thesis using Suc by (simp add: algebra_simps)
  qed
qed simp

lemma dip_bound: "dip n + 64 \<le> BSIZE" "IBLOCK n sp = IBLOCK m sp \<Longrightarrow> n \<noteq> m \<Longrightarrow> dip n + 64 \<le> dip m \<or> dip m + 64 \<le> dip n"
proof -
  have "n mod IPB \<le> 7" using mod_less_divisor[of IPB n] by linarith
  then show "dip n + 64 \<le> BSIZE" by (simp add: dip_def)
  assume "IBLOCK n sp = IBLOCK m sp" "n \<noteq> m"
  then have "n div IPB = m div IPB" "n mod IPB \<noteq> m mod IPB" by (auto simp: IBLOCK_def) (metis div_mult_mod_eq)
  then show "dip n + 64 \<le> dip m \<or> dip m + 64 \<le> dip n" by (auto simp: dip_def)
qed

text \<open>
  The on-disk inode (\<open>struct dinode\<close>, 64 bytes, little endian) written by \<open>iupdate\<close> and read by
  \<open>ilock\<close>: reading back gives the type, device numbers, link count, size and addresses that
  were stored, and the other inodes in the same block are as they were.
\<close>

lemma put_get_dinode:
  assumes "length d = BSIZE" "length (i_addrs i) = NDIRECT + 1" "i_size i < 2 ^ 32" "\<forall>a \<in> set (i_addrs i). a < 2 ^ 32"
    "i_inum j = i_inum i"
  shows "get_dinode (put_dinode i d) j = j\<lparr>i_type := i_type i, i_major := i_major i, i_minor := i_minor i,
     i_nlink := i_nlink i, i_size := i_size i, i_addrs := i_addrs i\<rparr>"
proof -
  let ?o = "dip (i_inum i)"
  have b: "?o + 64 \<le> length d" using dip_bound(1)[of "i_inum i"] assms(1) by simp
  have "get_nat (put_dinode i d) (?o + 12 + 4 * k) = i_addrs i ! k" if "k < NDIRECT + 1" for k
    unfolding put_dinode_def Let_def using assms(2,4) b that by (intro put_addrs_get) simp_all
  then have "map (\<lambda>k. get_nat (put_dinode i d) (?o + 12 + 4 * k)) [0..<NDIRECT + 1] = i_addrs i"
    using assms(2) by (intro nth_equalityI) (simp_all del: upt_Suc upt_rec_numeral)
  then show ?thesis using assms b by (simp add: get_dinode_def put_dinode_def Let_def put_addrs_other del: upt_Suc)
qed

lemma put_dinode_other:
  assumes "length (i_addrs i) = NDIRECT + 1" "dip (i_inum i) + 64 \<le> dip (i_inum j) \<or> dip (i_inum j) + 64 \<le> dip (i_inum i)"
  shows "get_dinode (put_dinode i d) j = get_dinode d j"
proof -
  let ?o = "dip (i_inum j)"
  have "map (\<lambda>k. get_nat (put_dinode i d) (?o + 12 + 4 * k)) [0..<NDIRECT + 1] = map (\<lambda>k. get_nat d (?o + 12 + 4 * k)) [0..<NDIRECT + 1]"
    using assms by (intro map_cong) (auto simp: put_dinode_def Let_def put_addrs_other)
  moreover have g: "get16 (put_dinode i d) (?o + k) = get16 d (?o + k)" if "k \<le> 6" for k
    using assms that by (auto simp: put_dinode_def Let_def put_addrs_other)
  moreover have "get_nat (put_dinode i d) (?o + 8) = get_nat d (?o + 8)"
    using assms by (auto simp: put_dinode_def Let_def put_addrs_other)
  moreover have "get16 (put_dinode i d) ?o = get16 d ?o" using g[of 0] by simp
  ultimately show ?thesis unfolding get_dinode_def Let_def by (simp only: le_numeral_extra)
qed

text \<open>The cached copy and the copy on the disk agree.\<close>

definition synced :: "('d, 'z) fsys_scheme \<Rightarrow> inode \<Rightarrow> bool" where
  "synced s i \<longleftrightarrow> get_dinode (blocks s (IBLOCK (i_inum i) (sb s))) i = i"

lemma iblock_region:
  assumes "layout sp" "n < sb_ninodes sp"
  shows "1 < IBLOCK n sp" "IBLOCK n sp < sb_bmapstart sp"
proof -
  have "n div IPB \<le> sb_ninodes sp div IPB" using assms(2) by (intro div_le_mono) simp
  then show "1 < IBLOCK n sp" "IBLOCK n sp < sb_bmapstart sp" using assms(1) by (auto simp: layout_def IBLOCK_def)
qed

text \<open>A change of an inode block touches no file and no bit of the bitmap.\<close>

lemma inode_block_upd:
  assumes s: "fsb_ok s" "n < sb_ninodes (sb s)" and d: "length d = BSIZE"
    and s': "s' = s\<lparr>blocks := (blocks s)(IBLOCK n (sb s) := d), hdr := h\<rparr>"
  shows "fsb_ok s'" "used s' = used s" "is_data s' = is_data s" "nfree s' = nfree s"
    "inode_ok s j \<Longrightarrow> inode_ok s' j \<and> contents (blocks s') j = contents (blocks s) j \<and> owned (blocks s') j = owned (blocks s) j"
proof -
  note r = iblock_region[OF fsb_okD(1)[OF s(1)] s(2)]
  show u: "used s' = used s" using r by (auto simp: used_def fun_eq_iff BBLOCK_def s')
  then show "fsb_ok s'" unfolding s' using fsb_okD(5)[OF s(1)] r(1) by (intro fsb_ok_upd[OF s(1) d]) auto
  show "is_data s' = is_data s" by (auto simp: is_data_def fun_eq_iff s')
  show "nfree s' = nfree s" using u by (simp add: nfree_def s')
  assume j: "inode_ok s j"
  have "sb s' = sb s" "\<And>a. a \<in> owned (blocks s) j \<Longrightarrow> blocks s' a = blocks s a" "\<And>a. a \<in> owned (blocks s) j \<Longrightarrow> used s' a"
    using bmapstart_data[OF fsb_okD(1)[OF s(1)] inode_okD(3)[OF j]] inode_okD(4)[OF j] r u s' by fastforce+
  then show "inode_ok s' j \<and> contents (blocks s') j = contents (blocks s) j \<and> owned (blocks s') j = owned (blocks s) j"
    using inode_frame[OF j] by blast
qed

lemma inode_ok_less32:
  assumes "fsb_ok s" "inode_ok s i"
  shows "i_size i < 2 ^ 32" "\<forall>a \<in> set (i_addrs i). a < 2 ^ 32"
proof -
  show "i_size i < 2 ^ 32" using inode_okD(2)[OF assms(2)] by simp
  show "\<forall>a \<in> set (i_addrs i). a < 2 ^ 32"
  proof
    fix a assume "a \<in> set (i_addrs i)"
    then obtain k where k: "k < NDIRECT + 1" "a = i_addrs i ! k"
      using inode_okD(1)[OF assms(2)] by (metis in_set_conv_nth)
    show "a < 2 ^ 32"
    proof (cases "a = 0")
      case False
      then have "a \<in> owned (blocks s) i"
      proof (cases "k < NDIRECT")
        case True
        then show ?thesis using k False owned_baddr[of k "blocks s" i] by (simp add: baddr_def)
      next
        case False
        then have "k = NDIRECT" using k(1) by simp
        then show ?thesis using k \<open>a \<noteq> 0\<close> owned_ind[of i "blocks s"] by simp
      qed
      from inode_okD(3)[OF assms(2) this] show ?thesis using fsb_okD(1)[OF assms(1)] by (auto simp: is_data_def layout_def)
    qed simp
  qed
qed

lemma iupdate_ok:
  assumes s: "fsb_ok s" "inode_ok s i" "icache s ! ip = i" "i_inum i < sb_ninodes (sb s)" and r: "room (Suc k) s"
  shows "\<exists>s'. iupdate ip s = Inr s' \<and> room k s' \<and> icache s' = icache s \<and> sb s' = sb s \<and> nblk s' = nblk s \<and> devsw s' = devsw s \<and>
    devst s' = devst s \<and> fsb_ok s' \<and> used s' = used s \<and> nfree s' = nfree s \<and> synced s' i \<and> (\<forall>c. c \<noteq> IBLOCK (i_inum i) (sb s) \<longrightarrow> blocks s' c = blocks s c) \<and>
    (\<forall>j. inode_ok s j \<longrightarrow> inode_ok s' j \<and> contents (blocks s') j = contents (blocks s) j \<and> owned (blocks s') j = owned (blocks s) j) \<and>
    (\<forall>j. i_inum j \<noteq> i_inum i \<and> synced s j \<longrightarrow> synced s' j)"
proof -
  let ?b = "IBLOCK (i_inum i) (sb s)"
  have n: "?b < nblk s"
    using iblock_region[OF fsb_okD(1)[OF s(1)] s(4)] fsb_okD(1,3)[OF s(1)] by (auto simp: layout_def datastart_def)
  let ?d = "put_dinode i (blocks s ?b)"
  define s' where "s' = s\<lparr>blocks := (blocks s)(?b := ?d), hdr := add_hdr ?b (hdr s)\<rparr>"
  note w = wr_block_ok[OF r n, of ?d, folded s'_def]
  have L: "length ?d = BSIZE" using fsb_okD(4)[OF s(1)] by (simp add: put_dinode_def Let_def)
  note u = inode_block_upd[OF s(1,4) L s'_def]
  have "get_dinode ?d i = i"
    using put_get_dinode[OF fsb_okD(4)[OF s(1)] inode_okD(1)[OF s(2)] inode_ok_less32[OF s(1,2)] refl] by simp
  then have sy: "synced s' i" by (simp add: synced_def s'_def)
  have so: "synced s' j" if "i_inum j \<noteq> i_inum i" "synced s j" for j
  proof (cases "IBLOCK (i_inum j) (sb s) = ?b")
    case True
    from put_dinode_other[OF inode_okD(1)[OF s(2)] dip_bound(2)[OF True[symmetric]], of "blocks s ?b"] that True
    show ?thesis by (auto simp: synced_def s'_def)
  qed (use that in \<open>simp add: synced_def s'_def\<close>)
  have "iupdate ip s = Inr s'" using n w(1) s(3) by (simp add: iupdate_def)
  moreover have "icache s' = icache s" "sb s' = sb s" "nblk s' = nblk s" "devsw s' = devsw s" "devst s' = devst s"
    "\<forall>c. c \<noteq> ?b \<longrightarrow> blocks s' c = blocks s c" by (simp_all add: s'_def)
  ultimately show ?thesis using w(2) u sy so by blast
qed

section \<open>Contents after a write\<close>

lemma contents_nth: "k < i_size (icache s ! ip) \<Longrightarrow> contents (blocks s) (icache s ! ip) ! k = byte_at s ip k"
  by (simp add: contents_def byte_at_def)

lemma length_contents [simp]: "length (contents B i) = i_size i"
  by (simp add: contents_def)

lemma content_byte_at: "contents (blocks s) (icache s ! ip) = map (byte_at s ip) [0..<i_size (icache s ! ip)]"
  by (auto simp: contents_def byte_at_def)

lemma content_set_size: "contents (blocks s) ((icache s ! ip)\<lparr>i_size := n\<rparr>) = map (byte_at s ip) [0..<n]"
  by (auto simp: contents_def baddr_def byte_at_def)

lemma inode_ok_grow:
  assumes "inode_ok s i" "n \<le> MAXFILE * BSIZE" "\<And>bn. bn * BSIZE < n \<Longrightarrow> baddr (blocks s) i bn \<noteq> 0"
  shows "inode_ok s (i\<lparr>i_size := n\<rparr>)"
proof -
  have "baddr (blocks s) (i\<lparr>i_size := n\<rparr>) = baddr (blocks s) i" "owned (blocks s) (i\<lparr>i_size := n\<rparr>) = owned (blocks s) i"
    by (auto simp: baddr_def owned_def fun_eq_iff)
  then show ?thesis using assms unfolding inode_ok_def by simp
qed

lemma mapped_below_size: "inode_ok s (icache s ! ip) \<Longrightarrow> k < i_size (icache s ! ip) \<Longrightarrow> mapped s ip k"
  unfolding mapped_def by (rule inode_okD(7)) (auto intro: le_less_trans[of _ k])

text \<open>The bytes of the file after the loop, for any length up to the end of what was written.\<close>

lemma written_bytes:
  assumes i: "inode_ok s (icache s ! ip)" and off: "off \<le> i_size (icache s ! ip)"
    and n: "n = max (i_size (icache s ! ip)) (off + length src)" "n \<le> MAXFILE * BSIZE"
    and old: "\<forall>j < MAXFILE * BSIZE. mapped s ip j \<and> (j < off \<or> off + length src \<le> j) \<longrightarrow> byte_at s' ip j = byte_at s ip j"
    and new: "\<forall>j < length src. byte_at s' ip (off + j) = src ! j"
  shows "map (byte_at s' ip) [0..<n] = overwrite off src (contents (blocks s) (icache s ! ip))"
proof (rule nth_equalityI)
  let ?c = "contents (blocks s) (icache s ! ip)"
  show "length (map (byte_at s' ip) [0..<n]) = length (overwrite off src ?c)" using off n by (auto simp: overwrite_def)
  fix k assume "k < length (map (byte_at s' ip) [0..<n])"
  then have k: "k < n" by simp
  have v: "overwrite off src ?c ! k = (if off \<le> k \<and> k < off + length src then src ! (k - off) else ?c ! k)"
    using off k n by (auto simp: overwrite_def nth_append)
  show "map (byte_at s' ip) [0..<n] ! k = overwrite off src ?c ! k"
  proof (cases "off \<le> k \<and> k < off + length src")
    case True
    then have "k - off < length src" by linarith
    then show ?thesis using True new[rule_format, of "k - off"] v k by simp
  next
    case False
    then have "k < i_size (icache s ! ip)" using k n off by auto
    then have "byte_at s' ip k = ?c ! k"
      using False old k n(2) mapped_below_size[OF i] contents_nth[of k s ip] by auto
    then show ?thesis using v k False by auto
  qed
qed

text \<open>
  What a write to the file of cached inode \<open>ip\<close> guarantees: its contents are \<open>c\<close>, the file
  system and the inode are consistent, inode and disk agree, and every file that shares no
  block with it is as it was.
\<close>

definition wrote_file :: "nat \<Rightarrow> byte list \<Rightarrow> ('d, 'z) fsys_scheme \<Rightarrow> ('d, 'z) fsys_scheme \<Rightarrow> bool" where
  "wrote_file ip c s s' \<longleftrightarrow> fsb_ok s' \<and> sb s' = sb s \<and> length (icache s') = length (icache s) \<and>
     inode_ok s' (icache s' ! ip) \<and> synced s' (icache s' ! ip) \<and> contents (blocks s') (icache s' ! ip) = c \<and>
     (\<exists>as. icache s' ! ip = (icache s ! ip)\<lparr>i_addrs := as, i_size := length c\<rparr>) \<and>
     (\<forall>j. j \<noteq> ip \<longrightarrow> icache s' ! j = icache s ! j) \<and>
     (\<forall>j. inode_ok s j \<and> owned (blocks s) j \<inter> owned (blocks s) (icache s ! ip) = {} \<longrightarrow>
        inode_ok s' j \<and> contents (blocks s') j = contents (blocks s) j \<and> owned (blocks s') j = owned (blocks s) j \<and>
        owned (blocks s') j \<inter> owned (blocks s') (icache s' ! ip) = {})"

lemma synced_same_disk:
  assumes "synced s i" "fsb_ok s" "i_inum i < sb_ninodes (sb s)" "sb s' = sb s" "\<And>c. c < sb_bmapstart (sb s) \<Longrightarrow> blocks s' c = blocks s c"
  shows "synced s' i"
  using assms iblock_region(2)[OF fsb_okD(1)[OF assms(2)] assms(3)] by (simp add: synced_def)

lemma writei_ok:
  assumes s: "fsb_ok s" "ip < length (icache s)" "inode_ok s (icache s ! ip)" "synced s (icache s ! ip)"
    and t: "i_type (icache s ! ip) \<noteq> T_DEV" "i_inum (icache s ! ip) < sb_ninodes (sb s)"
    and off: "off \<le> i_size (icache s ! ip)" "off + length src \<le> MAXFILE * BSIZE"
    and r: "room (k + 6 * span off (length src) + 1) s" and f: "2 * span off (length src) \<le> nfree s"
  shows "\<exists>s'. writei ip src off s = Inr (int (length src), s') \<and> room k s' \<and>
     wrote_file ip (overwrite off src (contents (blocks s) (icache s ! ip))) s s'"
proof -
  let ?i = "icache s ! ip" and ?n = "length src"
  have r': "room (Suc k + 6 * span off ?n) s" using r by (rule room_mono) simp
  from writei_loop_ok[OF s(1-3) off(2) r' f] obtain s1 where
    w: "writei_loop ip off src s = Inr (off + ?n, s1)" and st: "fs_step ip s s1" and r1: "room (Suc k) s1"
    and mp: "\<forall>j < MAXFILE * BSIZE. mapped s ip j \<or> off \<le> j \<and> j < off + ?n \<longrightarrow> mapped s1 ip j"
    and old: "\<forall>j < MAXFILE * BSIZE. mapped s ip j \<and> (j < off \<or> off + ?n \<le> j) \<longrightarrow> byte_at s1 ip j = byte_at s ip j"
    and new: "\<forall>j < ?n. byte_at s1 ip (off + j) = src ! j"
    and ic: "(\<forall>j. off \<le> j \<and> j < off + ?n \<longrightarrow> mapped s ip j) \<longrightarrow> icache s1 = icache s" by blast
  note d = fs_stepD[OF st]
  let ?i1 = "icache s1 ! ip" and ?c = "overwrite off src (contents (blocks s) ?i)"
  obtain as where as: "?i1 = ?i\<lparr>i_addrs := as\<rparr>" using d(16) by blast
  have sz: "i_size ?i1 = i_size ?i" "i_inum ?i1 = i_inum ?i" using as by simp_all
  have mod: "(off + ?n) mod 2 ^ 32 = off + ?n" using off(2) by simp
  have wi: "writei ip src off s = (if 0 < ?n \<and> i_size ?i < off + ?n
      then kbind (iupdate ip (upd_inode ip (\<lambda>i. i\<lparr>i_size := off + ?n\<rparr>) s1)) (\<lambda>s2. Inr (int ?n, s2)) else Inr (int ?n, s1))"
    using t(1) off mod w sz by (simp add: writei_def Let_def)
  note oth = fs_step_other[OF st]
  show ?thesis
  proof (cases "i_size ?i < off + ?n")
    case False
    have "\<forall>j. off \<le> j \<and> j < off + ?n \<longrightarrow> mapped s ip j" using mapped_below_size[OF s(3)] False by auto
    then have ic1: "icache s1 = icache s" using ic by blast
    have "map (byte_at s1 ip) [0..<i_size ?i] = ?c"
      using written_bytes[OF s(3) off(1) refl _ old new] inode_okD(2)[OF s(3)] False by simp
    then have c: "contents (blocks s1) ?i1 = ?c" using sz(1) by (simp add: content_byte_at[of s1])
    have "length ?c = i_size ?i" using off(1) False by (simp add: overwrite_def)
    then have "\<exists>as. ?i1 = ?i\<lparr>i_addrs := as, i_size := length ?c\<rparr>" using ic1 by (intro exI[of _ "i_addrs ?i"]) simp
    moreover have "synced s1 ?i1" using synced_same_disk[OF s(4,1) t(2) d(2,13)] ic1 by simp
    ultimately have "wrote_file ip ?c s s1" unfolding wrote_file_def using d(1,2,6,7,8) c oth by blast
    then show ?thesis using wi False room_mono[OF r1, of k] by auto
  next
    case True
    define s2 where "s2 = upd_inode ip (\<lambda>i. i\<lparr>i_size := off + ?n\<rparr>) s1"
    have i2: "icache s2 ! ip = ?i1\<lparr>i_size := off + ?n\<rparr>" using s(2) d(6) by (simp add: s2_def)
    have nohole: "baddr (blocks s1) ?i1 bn \<noteq> 0" if "bn * BSIZE < off + ?n" for bn
    proof -
      have "mapped s1 ip (bn * BSIZE)"
        using mp mapped_below_size[OF s(3), of "bn * BSIZE"] that off by (metis less_le_trans not_le)
      then show ?thesis by (simp add: mapped_def)
    qed
    have ok2: "inode_ok s2 (icache s2 ! ip)"
      unfolding i2 using inode_ok_grow[OF d(8) off(2) nohole] by (simp add: s2_def)
    have s2: "fsb_ok s2" "room (Suc k) s2" using d(1) r1 by (simp_all add: s2_def)
    have inum: "i_inum (icache s2 ! ip) < sb_ninodes (sb s2)" using t(2) sz(2) d(2) i2 by (simp add: s2_def)
    from iupdate_ok[OF s2(1) ok2 refl inum s2(2)]
    obtain s3 where u: "iupdate ip s2 = Inr s3" "room k s3" "icache s3 = icache s2 \<and> sb s3 = sb s2" "fsb_ok s3"
      "synced s3 (icache s2 ! ip)"
      "\<forall>j. inode_ok s2 j \<longrightarrow> inode_ok s3 j \<and> contents (blocks s3) j = contents (blocks s2) j \<and> owned (blocks s3) j = owned (blocks s2) j"
      by blast
    have ic3: "icache s3 = icache s2" "sb s3 = sb s2" using u(3) by simp_all
    have "map (byte_at s1 ip) [0..<off + ?n] = ?c"
      using written_bytes[OF s(3) off(1) refl _ old new] off(2) True by (simp add: max_def)
    then have "contents (blocks s1) (icache s2 ! ip) = ?c" unfolding i2 content_set_size .
    then have c: "contents (blocks s3) (icache s3 ! ip) = ?c" using u(6) ok2 ic3(1) by (simp add: s2_def)
    have b2: "blocks s2 = blocks s1" "sb s2 = sb s1" "length (icache s2) = length (icache s1)" by (simp_all add: s2_def)
    have L: "length ?c = off + ?n" using off(1) True by (simp add: overwrite_def)
    have "\<exists>as. icache s3 ! ip = ?i\<lparr>i_addrs := as, i_size := length ?c\<rparr>"
      using ic3 i2 as L by (intro exI[of _ as]) simp
    moreover have "icache s3 ! j = icache s ! j" if "j \<noteq> ip" for j using that d(7) ic3 by (simp add: s2_def)
    moreover have "inode_ok s3 j \<and> contents (blocks s3) j = contents (blocks s) j \<and> owned (blocks s3) j = owned (blocks s) j \<and>
        owned (blocks s3) j \<inter> owned (blocks s3) (icache s3 ! ip) = {}"
      if j: "inode_ok s j" "owned (blocks s) j \<inter> owned (blocks s) ?i = {}" for j
    proof -
      have j1: "inode_ok s2 j" using oth(1)[OF j] by (simp add: s2_def)
      have "owned (blocks s3) (icache s3 ! ip) = owned (blocks s1) ?i1"
        using u(6) ok2 ic3 i2 b2 owned_addrs[of "icache s2 ! ip" ?i1 "blocks s1"] by simp
      then show ?thesis using oth[OF j] u(6) j1 b2 by simp
    qed
    moreover have "inode_ok s3 (icache s3 ! ip)" "synced s3 (icache s3 ! ip)" using u(5,6) ok2 ic3 by simp_all
    moreover have "sb s3 = sb s" "length (icache s3) = length (icache s)" using ic3 b2 d(2,6) by simp_all
    ultimately have "wrote_file ip ?c s s3" unfolding wrote_file_def using u(4) c by blast
    then show ?thesis using wi True u(1,2) off(1) by (auto simp: s2_def)
  qed
qed

end
