(* ===== verification/Fs_File.thy ===== *)
theory Fs_File
  imports Fs_Inode
begin

text \<open>
  What the inode layer of \<open>fs.c\<close> guarantees: reading and writing a file, truncating it, and the
  discipline of the inode cache.
\<close>

section \<open>Freeing blocks\<close>

text \<open>
  On a disk with one bitmap block (4096 blocks; \<open>FSSIZE\<close> is 1000) all calls of \<open>bfree\<close> in a
  transaction take one place in the log.
\<close>

definition froom :: "nat \<Rightarrow> 'a fsb_scheme \<Rightarrow> bool" where
  "froom k s \<longleftrightarrow> 1 \<le> k \<and> (room (Suc k) s \<or> room k s \<and> sb_bmapstart (sb s) \<in> set (hdr s))"

lemma froom_room: "froom k s \<Longrightarrow> room k s"
  by (auto simp: froom_def intro: room_mono)

lemma froom_freed:
  assumes "froom k s" "sb_size (sb s) \<le> BPB" "is_data s a"
  shows "froom k (freed a s)"
proof -
  have "BBLOCK a (sb s) = sb_bmapstart (sb s)" using assms(2,3) by (auto simp: BBLOCK_def is_data_def)
  then show ?thesis using assms(1) by (auto simp: froom_def room_def freed_def add_hdr_def)
qed

lemma freed_sel [simp]:
  "icache (freed a s) = icache s" "loglen (freed a s) = loglen s" "ops (freed a s) = ops s"
  "devsw (freed a s) = devsw s" "devst (freed a s) = devst s" "sb (freed a s) = sb s" "nblk (freed a s) = nblk s"
  by (simp_all add: freed_def)

lemma freed_before_bitmap: "c < sb_bmapstart (sb s) \<Longrightarrow> blocks (freed a s) c = blocks s c"
  by (auto simp: freed_def BBLOCK_def)

lemma froom_icache [simp]: "froom k (s\<lparr>icache := x\<rparr>) = froom k s"
  by (simp add: froom_def)

text \<open>\<open>gave_back A s s'\<close>: the blocks in \<open>A\<close> were freed, nothing else on the disk changed.\<close>

definition gave_back :: "nat set \<Rightarrow> ('d, 'z) fsys_scheme \<Rightarrow> ('d, 'z) fsys_scheme \<Rightarrow> bool" where
  "gave_back A s s' \<longleftrightarrow> fsb_ok s' \<and> sb s' = sb s \<and> nblk s' = nblk s \<and> devsw s' = devsw s \<and> devst s' = devst s \<and>
     (\<forall>c < sb_size (sb s). used s' c \<longleftrightarrow> used s c \<and> c \<notin> A) \<and> (\<forall>c. is_data s c \<longrightarrow> blocks s' c = blocks s c) \<and>
     (\<forall>c < sb_bmapstart (sb s). blocks s' c = blocks s c)"

lemma gave_back_trans: "gave_back A s s1 \<Longrightarrow> gave_back B s1 s2 \<Longrightarrow> gave_back (A \<union> B) s s2"
  unfolding gave_back_def is_data_def by auto

lemma gave_back_freed: "fsb_ok s \<Longrightarrow> is_data s a \<Longrightarrow> gave_back {a} s ((freed a s)\<lparr>icache := x\<rparr>)"
  using freed_ok[of s a] freed_before_bitmap[of _ s a] by (auto simp: gave_back_def)

text \<open>\<open>owns s as\<close>: the non-zero entries of \<open>as\<close> are different marked data blocks.\<close>

definition owns :: "('d, 'z) fsys_scheme \<Rightarrow> nat list \<Rightarrow> bool" where
  "owns s as \<longleftrightarrow> distinct (filter (\<lambda>a. a \<noteq> 0) as) \<and> (\<forall>a \<in> set as. a = 0 \<or> is_data s a \<and> used s a)"

lemma owns_after:
  assumes "owns s (as @ bs)" "gave_back (set as - {0}) s s'"
  shows "owns s' bs"
proof -
  have b: "is_data s b \<and> used s b" if "b \<in> set bs" "b \<noteq> 0" for b
    using assms(1) that unfolding owns_def by (metis Un_iff set_append)
  have "is_data s' b \<and> used s' b" if "b \<in> set bs" "b \<noteq> 0" for b
  proof -
    have "b \<notin> set as" using assms(1) that by (auto simp: owns_def)
    then show ?thesis using b[OF that] assms(2) by (simp add: gave_back_def is_data_def)
  qed
  then show ?thesis using assms(1) unfolding owns_def by auto
qed

lemma bfree_all_ok:
  assumes "fsb_ok s" "froom k s" "sb_size (sb s) \<le> BPB" "owns s as"
  shows "\<exists>s'. bfree_all as s = Inr s' \<and> froom k s' \<and> icache s' = icache s \<and> gave_back (set as - {0}) s s'"
  using assms
proof (induction as arbitrary: s)
  case Nil
  then show ?case by (auto simp: gave_back_def)
next
  case (Cons a as)
  show ?case
  proof (cases "a = 0")
    case True
    then have "owns s as" using Cons.prems(4) by (auto simp: owns_def)
    then show ?thesis using Cons.IH[OF Cons.prems(1-3)] True by simp
  next
    case False
    then have a: "is_data s a" "used s a" using Cons.prems(4) by (auto simp: owns_def)
    obtain j where j: "room (Suc j) s" using froom_room[OF Cons.prems(2)] Cons.prems(2)
      by (cases k) (auto simp: froom_def)
    have fr: "bfree a s = Inr (freed a s)" using bfree_ok(1)[OF Cons.prems(1) j a(1)] a(2) by simp
    have g: "gave_back (set [a] - {0}) s (freed a s)"
      using gave_back_freed[OF Cons.prems(1) a(1), of "icache s"] False by (simp add: freed_def)
    have "owns (freed a s) as" using owns_after[OF _ g] Cons.prems(4) by simp
    then obtain s' where "bfree_all as (freed a s) = Inr s'" "froom k s'" "icache s' = icache (freed a s)"
      "gave_back (set as - {0}) (freed a s) s'"
      using Cons.IH[of "freed a s"] freed_ok(1)[OF Cons.prems(1) a(1)] froom_freed[OF Cons.prems(2,3) a(1)] Cons.prems(3)
      by auto
    moreover have "set (a # as) - {0} = (set [a] - {0}) \<union> (set as - {0})" by auto
    ultimately show ?thesis using fr False gave_back_trans[OF g] by simp
  qed
qed

lemma itrunc_direct_ok:
  assumes "fsb_ok s" "froom k s" "sb_size (sb s) \<le> BPB" "ip < length (icache s)" "length (i_addrs (icache s ! ip)) = NDIRECT + 1"
    "distinct is" "set is \<subseteq> {0..<NDIRECT}" "owns s (map (\<lambda>i. i_addrs (icache s ! ip) ! i) is)"
  shows "\<exists>s' as. itrunc_direct ip is s = Inr s' \<and> froom k s' \<and> icache s' = (icache s)[ip := (icache s ! ip)\<lparr>i_addrs := as\<rparr>] \<and>
    length as = NDIRECT + 1 \<and> (\<forall>j < NDIRECT + 1. as ! j = (if j \<in> set is then 0 else i_addrs (icache s ! ip) ! j)) \<and>
    gave_back (set (map (\<lambda>i. i_addrs (icache s ! ip) ! i) is) - {0}) s s'"
  using assms
proof (induction "is" arbitrary: s)
  case Nil
  then show ?case by (intro exI[of _ s] exI[of _ "i_addrs (icache s ! ip)"]) (auto simp: gave_back_def)
next
  case (Cons i "is")
  let ?as = "i_addrs (icache s ! ip)"
  show ?case
  proof (cases "?as ! i = 0")
    case True
    then have "owns s (map (\<lambda>i. ?as ! i) is)" using Cons.prems(8) by (auto simp: owns_def)
    then obtain s' as where "itrunc_direct ip is s = Inr s'" "froom k s'"
      "icache s' = (icache s)[ip := (icache s ! ip)\<lparr>i_addrs := as\<rparr>]" "length as = NDIRECT + 1"
      "\<forall>j < NDIRECT + 1. as ! j = (if j \<in> set is then 0 else ?as ! j)" "gave_back (set (map (\<lambda>i. ?as ! i) is) - {0}) s s'"
      using Cons.IH[OF Cons.prems(1-5)] Cons.prems(6,7) by auto
    then show ?thesis using True by (intro exI[of _ s'] exI[of _ as]) auto
  next
    case False
    let ?a = "?as ! i"
    have a: "is_data s ?a" "used s ?a" using Cons.prems(8) False by (auto simp: owns_def)
    obtain j where j: "room (Suc j) s" using froom_room[OF Cons.prems(2)] Cons.prems(2)
      by (cases k) (auto simp: froom_def)
    have fr: "bfree ?a s = Inr (freed ?a s)" using bfree_ok(1)[OF Cons.prems(1) j a(1)] a(2) by simp
    let ?i1 = "(icache s ! ip)\<lparr>i_addrs := ?as[i := 0]\<rparr>"
    define s1 where "s1 = (freed ?a s)\<lparr>icache := (icache s)[ip := ?i1]\<rparr>"
    have i1: "icache s1 ! ip = ?i1" "length (icache s1) = length (icache s)" using Cons.prems(4) by (simp_all add: s1_def)
    have g: "gave_back (set [?a] - {0}) s s1" using gave_back_freed[OF Cons.prems(1) a(1)] False by (simp add: s1_def)
    have m: "map (\<lambda>i. i_addrs (icache s1 ! ip) ! i) is = map (\<lambda>i. ?as ! i) is" using Cons.prems(6) i1
      by (simp add: nth_list_update_neq) (metis nth_list_update_neq)
    have "owns s1 (map (\<lambda>i. ?as ! i) is)" using owns_after[OF _ g] Cons.prems(8) by simp
    then have o1: "owns s1 (map (\<lambda>i. i_addrs (icache s1 ! ip) ! i) is)" unfolding m .
    have s1: "fsb_ok s1" "froom k s1" "sb_size (sb s1) \<le> BPB" "ip < length (icache s1)" "length (i_addrs (icache s1 ! ip)) = NDIRECT + 1"
      "distinct is" "set is \<subseteq> {0..<NDIRECT}"
      using freed_ok(1)[OF Cons.prems(1) a(1)] froom_freed[OF Cons.prems(2,3) a(1)] Cons.prems(3-7) i1 by (simp_all add: s1_def)
    from Cons.IH[OF s1 o1] obtain s' as where 1: "itrunc_direct ip is s1 = Inr s'" "froom k s'"
      "icache s' = (icache s1)[ip := (icache s1 ! ip)\<lparr>i_addrs := as\<rparr>]" "length as = NDIRECT + 1"
      "\<forall>j < NDIRECT + 1. as ! j = (if j \<in> set is then 0 else i_addrs (icache s1 ! ip) ! j)"
      "gave_back (set (map (\<lambda>i. ?as ! i) is) - {0}) s1 s'"
      unfolding m by blast
    have "set (map (\<lambda>i. ?as ! i) (i # is)) - {0} = (set [?a] - {0}) \<union> (set (map (\<lambda>i. ?as ! i) is) - {0})" by auto
    then have "gave_back (set (map (\<lambda>i. ?as ! i) (i # is)) - {0}) s s'" using gave_back_trans[OF g 1(6)] by simp
    moreover have "icache s' = (icache s)[ip := (icache s ! ip)\<lparr>i_addrs := as\<rparr>]" using 1(3) i1 by (simp add: s1_def)
    moreover have "\<forall>j < NDIRECT + 1. as ! j = (if j \<in> set (i # is) then 0 else ?as ! j)"
      using 1(5) i1 Cons.prems(5) by (auto simp: nth_list_update)
    ultimately show ?thesis using 1(1,2,4) fr False by (intro exI[of _ s'] exI[of _ as]) (simp add: s1_def Let_def)
  qed
qed

text \<open>The addresses of the file's blocks, in order.\<close>

definition block_list :: "(nat \<Rightarrow> block) \<Rightarrow> inode \<Rightarrow> nat list" where
  "block_list B i = map (\<lambda>j. i_addrs i ! j) [0..<NDIRECT] @
     (if i_addrs i ! NDIRECT = 0 then [] else map (\<lambda>j. get_nat (B (i_addrs i ! NDIRECT)) (4 * j)) [0..<NINDIRECT])"

lemma block_list_baddr:
  "i_addrs i ! NDIRECT \<noteq> 0 \<Longrightarrow> block_list B i = map (baddr B i) [0..<MAXFILE]"
  by (rule nth_equalityI) (auto simp: block_list_def baddr_def nth_append simp del: upt_rec_numeral)

lemma set_block_list: "set (block_list B i) - {0} = {a. a \<noteq> 0 \<and> (\<exists>bn < MAXFILE. a = baddr B i bn)}"
proof (cases "i_addrs i ! NDIRECT = 0")
  case True
  then have "set (block_list B i) = (\<lambda>j. i_addrs i ! j) ` {0..<NDIRECT}" by (simp add: block_list_def del: upt_rec_numeral)
  moreover have "baddr B i bn = (if bn < NDIRECT then i_addrs i ! bn else 0)" for bn using True by (simp add: baddr_def)
  ultimately show ?thesis by auto
qed (auto simp: block_list_baddr simp del: upt_rec_numeral)

lemma owned_block_list: "owned B i = (set (block_list B i) \<union> {i_addrs i ! NDIRECT}) - {0}"
  using set_block_list[of B i] unfolding owned_def by auto

lemma distinct_nonzero:
  "(\<And>x y. x \<in> set xs \<Longrightarrow> y \<in> set xs \<Longrightarrow> f x = f y \<Longrightarrow> f x \<noteq> 0 \<Longrightarrow> x = y) \<Longrightarrow> distinct xs \<Longrightarrow>
   distinct (filter (\<lambda>a. a \<noteq> (0 :: nat)) (map f xs))"
proof (induction xs)
  case (Cons x xs)
  have "f x \<notin> f ` set xs" if "f x \<noteq> 0" using Cons.prems that by (metis distinct.simps(2) image_iff list.set_intros)
  then show ?case using Cons by auto
qed simp

lemma owns_blocks:
  assumes "inode_ok s i"
  shows "owns s (block_list (blocks s) i @ [i_addrs i ! NDIRECT])"
proof -
  have d: "a = 0 \<or> is_data s a \<and> used s a" if "a \<in> set (block_list (blocks s) i @ [i_addrs i ! NDIRECT])" for a
    using that inode_okD(3,4)[OF assms] owned_block_list[of "blocks s" i] by auto
  have "distinct (filter (\<lambda>a. a \<noteq> 0) (block_list (blocks s) i))"
  proof (cases "i_addrs i ! NDIRECT = 0")
    case True
    have "i_addrs i ! j = baddr (blocks s) i j" if "j < NDIRECT" for j using that by (simp add: baddr_def)
    then have "distinct (filter (\<lambda>a. a \<noteq> 0) (map (\<lambda>j. i_addrs i ! j) [0..<NDIRECT]))"
      using inode_okD(5)[OF assms] by (intro distinct_nonzero) (auto simp del: upt_rec_numeral)
    then show ?thesis using True by (simp add: block_list_def del: upt_rec_numeral)
  next
    case False
    show ?thesis unfolding block_list_baddr[OF False]
      using inode_okD(5)[OF assms] by (intro distinct_nonzero) (auto simp del: upt_rec_numeral)
  qed
  moreover have "i_addrs i ! NDIRECT \<notin> set (block_list (blocks s) i)" if "i_addrs i ! NDIRECT \<noteq> 0"
  proof
    assume "i_addrs i ! NDIRECT \<in> set (block_list (blocks s) i)"
    then obtain bn where "bn < MAXFILE" "i_addrs i ! NDIRECT = baddr (blocks s) i bn"
      using block_list_baddr[OF \<open>i_addrs i ! NDIRECT \<noteq> 0\<close>, of "blocks s"] by (auto simp del: upt_rec_numeral)
    then show False using inode_okD(6)[OF assms] that by metis
  qed
  ultimately show ?thesis using d by (auto simp: owns_def)
qed

text \<open>The middle part of \<open>itrunc\<close>: the indirect block and the blocks it lists.\<close>

lemma itrunc_frees:
  assumes s: "fsb_ok s" "ip < length (icache s)" "inode_ok s (icache s ! ip)" and r: "room (k + 2) s" and sz: "sb_size (sb s) \<le> BPB"
  shows "\<exists>s4. itrunc ip s = iupdate ip s4 \<and> gave_back (owned (blocks s) (icache s ! ip)) s s4 \<and>
    icache s4 = (icache s)[ip := (icache s ! ip)\<lparr>i_addrs := replicate 13 0, i_size := 0\<rparr>] \<and> froom (Suc k) s4"
proof -
  let ?i = "icache s ! ip" and ?ds = "map (\<lambda>j. i_addrs (icache s ! ip) ! j) [0..<NDIRECT]"
  let ?ind = "i_addrs ?i ! NDIRECT"
  have fr: "froom (Suc k) s" using r by (simp add: froom_def)
  have L: "length (i_addrs ?i) = NDIRECT + 1" by (rule inode_okD(1)[OF s(3)])
  note ow = owns_blocks[OF s(3)]
  have od: "owns s ?ds" using ow by (auto simp: owns_def block_list_def simp del: upt_rec_numeral)
  from itrunc_direct_ok[OF s(1) fr sz s(2) L _ _ od] obtain s1 as where
    1: "itrunc_direct ip [0..<NDIRECT] s = Inr s1" "froom (Suc k) s1" "icache s1 = (icache s)[ip := ?i\<lparr>i_addrs := as\<rparr>]"
      "length as = NDIRECT + 1" "\<forall>j < NDIRECT + 1. as ! j = (if j \<in> set [0..<NDIRECT] then 0 else i_addrs ?i ! j)"
      "gave_back (set ?ds - {0}) s s1" by auto
  have i1: "icache s1 ! ip = ?i\<lparr>i_addrs := as\<rparr>" "as ! NDIRECT = ?ind" using 1(3,5) s(2) by auto
  have g1: "fsb_ok s1" "sb s1 = sb s" "\<And>c. is_data s c \<Longrightarrow> blocks s1 c = blocks s c"
    "is_data s1 = is_data s" using 1(6) by (auto simp: gave_back_def is_data_def)
  have zero: "as[NDIRECT := 0] = replicate 13 0" using 1(4,5) by (intro nth_equalityI) (auto simp: nth_list_update)
  show ?thesis
  proof (cases "?ind = 0")
    case True
    have as0: "as = replicate 13 0" using zero i1(2) True list_update_id[of as NDIRECT] by simp
    let ?s4 = "upd_inode ip (\<lambda>i. i\<lparr>i_size := 0\<rparr>) s1"
    have "owned (blocks s) ?i = set ?ds - {0}" using True by (auto simp: owned_block_list block_list_def)
    then have "gave_back (owned (blocks s) ?i) s ?s4" using 1(6) by (simp add: gave_back_def)
    moreover have "icache ?s4 = (icache s)[ip := ?i\<lparr>i_addrs := replicate 13 0, i_size := 0\<rparr>]" using 1(3) i1 as0 by simp
    moreover have "itrunc ip s = iupdate ip ?s4" using 1(1) i1 True by (simp add: itrunc_def Let_def del: upt_rec_numeral)
    ultimately show ?thesis using 1(2) by (intro exI[of _ ?s4]) simp
  next
    case False
    let ?es = "map (\<lambda>j. get_nat (blocks s ?ind) (4 * j)) [0..<NINDIRECT]"
    have d: "is_data s ?ind" using owned_ind[OF False] inode_okD(3)[OF s(3)] by blast
    have ind: "?ind < nblk s1" "blocks s1 ?ind = blocks s ?ind"
      using data_less[OF g1(1)] d g1(3,4) by simp_all
    have ow': "owns s (?ds @ ?es @ [?ind])" using ow False by (simp add: block_list_def del: upt_rec_numeral)
    have o1: "owns s1 (?es @ [?ind])" by (rule owns_after[OF ow' 1(6)])
    then have "owns s1 ?es" by (auto simp: owns_def)
    from bfree_all_ok[OF g1(1) 1(2) _ this] sz g1(2) obtain s2 where
      2: "bfree_all ?es s1 = Inr s2" "froom (Suc k) s2" "icache s2 = icache s1" "gave_back (set ?es - {0}) s1 s2" by auto
    have "owns s2 [?ind]" by (rule owns_after[OF o1 2(4)])
    then have u: "is_data s2 ?ind" "used s2 ?ind" using False by (auto simp: owns_def)
    have g2: "fsb_ok s2" "sb s2 = sb s" using 2(4) g1(2) by (auto simp: gave_back_def)
    have "room (Suc k) s2" by (rule froom_room[OF 2(2)])
    then have 3: "bfree ?ind s2 = Inr (freed ?ind s2)" using bfree_ok(1)[OF g2(1) _ u(1)] u(2) by simp
    have fr3: "froom (Suc k) (freed ?ind s2)" by (rule froom_freed[OF 2(2) _ u(1)]) (use sz g2(2) in simp)
    let ?s4 = "(freed ?ind s2)\<lparr>icache := (icache s)[ip := ?i\<lparr>i_addrs := replicate 13 0, i_size := 0\<rparr>]\<rparr>"
    have "gave_back ({?ind}) s2 ?s4" by (rule gave_back_freed[OF g2(1) u(1)])
    then have "gave_back (set ?ds - {0} \<union> ((set ?es - {0}) \<union> {?ind})) s ?s4"
      using gave_back_trans[OF 1(6) gave_back_trans[OF 2(4)]] by blast
    moreover have "owned (blocks s) ?i = set ?ds - {0} \<union> ((set ?es - {0}) \<union> {?ind})"
      using False by (auto simp: owned_block_list block_list_def simp del: upt_rec_numeral)
    moreover have "itrunc ip s = iupdate ip ?s4"
      using 1(1,3) i1 False ind 2(1,3) 3 zero s(2) by (simp add: itrunc_def Let_def del: upt_rec_numeral)
    ultimately show ?thesis using fr3 by (intro exI[of _ ?s4]) simp
  qed
qed

lemma itrunc_ok:
  assumes "fsb_ok s" "ip < length (icache s)" "inode_ok s (icache s ! ip)" "room (k + 2) s" "sb_size (sb s) \<le> BPB"
    "i_inum (icache s ! ip) < sb_ninodes (sb s)"
  shows "\<exists>s'. itrunc ip s = Inr s' \<and> fsb_ok s' \<and> room k s' \<and> sb s' = sb s \<and>
    icache s' = (icache s)[ip := (icache s ! ip)\<lparr>i_addrs := replicate 13 0, i_size := 0\<rparr>] \<and>
    synced s' (icache s' ! ip) \<and>
    (\<forall>c < sb_size (sb s). used s' c \<longleftrightarrow> used s c \<and> c \<notin> owned (blocks s) (icache s ! ip)) \<and>
    (\<forall>j. inode_ok s j \<and> owned (blocks s) j \<inter> owned (blocks s) (icache s ! ip) = {} \<longrightarrow>
       inode_ok s' j \<and> contents (blocks s') j = contents (blocks s) j)"
proof -
  let ?i = "icache s ! ip"
  let ?i4 = "?i\<lparr>i_addrs := replicate 13 0, i_size := 0\<rparr>"
  from itrunc_frees[OF assms(1-5)] obtain s4 where
    4: "itrunc ip s = iupdate ip s4" "gave_back (owned (blocks s) ?i) s s4" "icache s4 = (icache s)[ip := ?i4]" "froom (Suc k) s4" by blast
  have g: "fsb_ok s4" "sb s4 = sb s" "\<And>c. is_data s c \<Longrightarrow> blocks s4 c = blocks s c"
    "\<And>c. c < sb_size (sb s) \<Longrightarrow> used s4 c \<longleftrightarrow> used s c \<and> c \<notin> owned (blocks s) ?i"
    using 4(2) by (auto simp: gave_back_def)
  have i4: "icache s4 ! ip = ?i4" using 4(3) assms(2) by simp
  have ok4: "inode_ok s4 ?i4"
  proof -
    have b: "baddr (blocks s4) ?i4 bn = 0" if "bn < MAXFILE" for bn
      using that by (auto simp: baddr_def)
    then have "owned (blocks s4) ?i4 = {}" by (auto simp: owned_def)
    then show ?thesis using b by (auto simp: inode_ok_def)
  qed
  have "room (Suc k) s4" by (rule froom_room[OF 4(4)])
  from iupdate_ok[OF g(1) ok4 i4 _ this] assms(6) g(2) obtain s' where
    5: "iupdate ip s4 = Inr s'" "icache s' = icache s4" "fsb_ok s'" "used s' = used s4" "synced s' ?i4"
      "\<forall>j. inode_ok s4 j \<longrightarrow> inode_ok s' j \<and> contents (blocks s') j = contents (blocks s4) j"
      "room k s'" "sb s' = sb s" by auto
  have "inode_ok s' j \<and> contents (blocks s') j = contents (blocks s) j"
    if j: "inode_ok s j" "owned (blocks s) j \<inter> owned (blocks s) ?i = {}" for j
  proof -
    have "is_data s a" "used s4 a" if "a \<in> owned (blocks s) j" for a
      using that inode_okD(3,4)[OF j(1) that] j(2) g(4)[of a] by (auto simp: is_data_def)
    then have "inode_ok s4 j" "contents (blocks s4) j = contents (blocks s) j"
      using inode_frame[OF j(1) g(2)] g(3) by blast+
    then show ?thesis using 5(6) by simp
  qed
  then show ?thesis using 4(1,3) 5 g(4) i4 by (intro exI[of _ s']) auto
qed

text \<open>
  \<open>itrunc\<close> of a file with a sound block map, in a transaction with two free places in the log:
  it returns, every block of the file (direct, indirect, and the indirect block itself) is
  free again and no other block is, the cached inode and its copy on the disk have size 0 and
  no blocks, and every other file is as it was.
\<close>

theorem itrunc_correct:
  assumes "fsb_ok s" "ip < length (icache s)" "inode_ok s (icache s ! ip)" "room 2 s" "sb_size (sb s) \<le> BPB"
    "i_inum (icache s ! ip) < sb_ninodes (sb s)"
  shows "\<exists>s'. itrunc ip s = Inr s' \<and> fsb_ok s' \<and>
    icache s' = (icache s)[ip := (icache s ! ip)\<lparr>i_addrs := replicate 13 0, i_size := 0\<rparr>] \<and>
    synced s' (icache s' ! ip) \<and>
    (\<forall>c < sb_size (sb s). used s' c \<longleftrightarrow> used s c \<and> c \<notin> owned (blocks s) (icache s ! ip)) \<and>
    (\<forall>j. inode_ok s j \<and> owned (blocks s) j \<inter> owned (blocks s) (icache s ! ip) = {} \<longrightarrow>
       inode_ok s' j \<and> contents (blocks s') j = contents (blocks s) j)"
proof -
  have "room (0 + 2) s" using assms(4) by (simp only: add_0)
  from itrunc_ok[OF assms(1-3) this assms(5,6)] show ?thesis by blast
qed

section \<open>Reading and writing\<close>

text \<open>
  C2: \<open>writei\<close> on a file (not a device) with a sound block map, at an offset inside or at the end
  of the file and up to the maximal file size, with room in the log for six blocks per block
  written (bitmap, new block, indirect block twice, data) and the inode, and enough free blocks:
  it returns the number of bytes; the contents are the old ones with exactly these bytes
  replaced or appended; the size grows accordingly; inode cache and disk agree; and every file
  that shares no block with it keeps its contents.
\<close>

theorem writei_correct:
  assumes "fsb_ok s" "ip < length (icache s)" "inode_ok s (icache s ! ip)" "synced s (icache s ! ip)"
    "i_type (icache s ! ip) \<noteq> T_DEV" "i_inum (icache s ! ip) < sb_ninodes (sb s)"
    "off \<le> i_size (icache s ! ip)" "off + length src \<le> MAXFILE * BSIZE"
    "room (6 * span off (length src) + 1) s" "2 * span off (length src) \<le> nfree s"
  shows "\<exists>s'. writei ip src off s = Inr (int (length src), s') \<and>
     wrote_file ip (overwrite off src (contents (blocks s) (icache s ! ip))) s s'"
  using writei_ok[OF assms(1-8), of 0] assms(9,10) by auto

text \<open>
  C17: \<open>readi\<close> of a file returns the bytes of the file from the offset on, cut at the end of the
  file, and changes nothing; an offset behind the end, or a request whose end does not fit in
  an unsigned integer, is refused with -1.
\<close>

theorem readi_correct:
  assumes "fsb_ok s" "inode_ok s (icache s ! ip)" "i_type (icache s ! ip) \<noteq> T_DEV" "off < 2 ^ 32" "n < 2 ^ 32"
  shows "readi ip off n s =
    (if i_size (icache s ! ip) < off \<or> 2 ^ 32 \<le> off + n then Inr (-1, [], s)
     else let bs = take n (drop off (contents (blocks s) (icache s ! ip))) in Inr (int (length bs), bs, s))"
  by (rule readi_ok[OF assms])

lemma read_back: "off \<le> length c \<Longrightarrow> take (length src) (drop off (overwrite off src c)) = src"
  by (simp add: overwrite_def)

text \<open>
  C15: what \<open>writei\<close> has written, \<open>readi\<close> reads back.
\<close>

theorem writei_readi_roundtrip:
  assumes "fsb_ok s" "ip < length (icache s)" "inode_ok s (icache s ! ip)" "synced s (icache s ! ip)"
    "i_type (icache s ! ip) \<noteq> T_DEV" "i_inum (icache s ! ip) < sb_ninodes (sb s)"
    "off \<le> i_size (icache s ! ip)" "off + length src \<le> MAXFILE * BSIZE"
    "room (6 * span off (length src) + 1) s" "2 * span off (length src) \<le> nfree s"
  shows "\<exists>s'. writei ip src off s = Inr (int (length src), s') \<and>
     readi ip off (length src) s' = Inr (int (length src), src, s')"
proof -
  let ?c = "overwrite off src (contents (blocks s) (icache s ! ip))"
  obtain s' where w: "writei ip src off s = Inr (int (length src), s')" "wrote_file ip ?c s s'"
    using writei_ok[OF assms(1-8), of 0] assms(9,10) by auto
  have f: "fsb_ok s'" "inode_ok s' (icache s' ! ip)" "contents (blocks s') (icache s' ! ip) = ?c"
    "i_type (icache s' ! ip) \<noteq> T_DEV" "i_size (icache s' ! ip) = length ?c"
    using w(2) assms(5) by (auto simp: wrote_file_def)
  have l: "off \<le> length ?c" "off < 2 ^ 32" "length src < 2 ^ 32" "off + length src < 2 ^ 32"
    using assms(7,8) by (auto simp: overwrite_def)
  then have "readi ip off (length src) s' = Inr (int (length src), src, s')"
    using readi_ok[OF f(1,2,4) l(2,3)] f(3,5) read_back[of off "contents (blocks s) (icache s ! ip)" src] assms(7)
    by (simp add: Let_def)
  with w show ?thesis by blast
qed

section \<open>The inode cache\<close>

text \<open>Every inode has at most one entry in the cache; only entries in use are locked.\<close>

definition cached :: "('d, 'z) fsys_scheme \<Rightarrow> nat \<Rightarrow> nat \<Rightarrow> nat \<Rightarrow> bool" where
  "cached s dev inum i \<longleftrightarrow> i < NINODE \<and> 0 < i_ref (icache s ! i) \<and> i_dev (icache s ! i) = dev \<and> i_inum (icache s ! i) = inum"

definition icache_ok :: "('d, 'z) fsys_scheme \<Rightarrow> bool" where
  "icache_ok s \<longleftrightarrow> length (icache s) = NINODE \<and>
     (\<forall>i < NINODE. 0 \<le> i_ref (icache s ! i) \<and> (i_busy (icache s ! i) \<longrightarrow> 0 < i_ref (icache s ! i))) \<and>
     (\<forall>dev inum i j. cached s dev inum i \<and> cached s dev inum j \<longrightarrow> i = j)"

lemma icache_okD:
  assumes "icache_ok s"
  shows "length (icache s) = NINODE" "i < NINODE \<Longrightarrow> 0 \<le> i_ref (icache s ! i)"
    "i < NINODE \<Longrightarrow> i_busy (icache s ! i) \<Longrightarrow> 0 < i_ref (icache s ! i)"
    "cached s dev inum i \<Longrightarrow> cached s dev inum j \<Longrightarrow> i = j"
  using assms unfolding icache_ok_def by blast+

lemma cached_upd:
  "length (icache s) = NINODE \<Longrightarrow> i < NINODE \<Longrightarrow>
   cached (s\<lparr>icache := (icache s)[i := x]\<rparr>) dev inum j \<longleftrightarrow>
     (if j = i then 0 < i_ref x \<and> i_dev x = dev \<and> i_inum x = inum else cached s dev inum j)"
  by (auto simp: cached_def nth_list_update)

lemma icache_ok_cong: "icache s' = icache s \<Longrightarrow> icache_ok s' = icache_ok s"
  unfolding icache_ok_def cached_def by (simp only:)

text \<open>Replacing one entry.\<close>

lemma icache_ok_upd:
  assumes s: "icache_ok s" "i < NINODE" and x: "0 \<le> i_ref x" "i_busy x \<longrightarrow> 0 < i_ref x"
    "\<And>j. 0 < i_ref x \<Longrightarrow> cached s (i_dev x) (i_inum x) j \<Longrightarrow> j = i"
  shows "icache_ok (s\<lparr>icache := (icache s)[i := x]\<rparr>)"
proof -
  note L = icache_okD(1)[OF s(1)]
  have "j = k" if "cached (s\<lparr>icache := (icache s)[i := x]\<rparr>) dev inum j" "cached (s\<lparr>icache := (icache s)[i := x]\<rparr>) dev inum k" for dev inum j k
    using that x(3) icache_okD(4)[OF s(1)] unfolding cached_upd[OF L s(2)] by (metis (full_types))
  then show ?thesis unfolding icache_ok_def using s L x(1,2) icache_okD(2,3)[OF s(1)] by (auto simp: nth_list_update)
qed

lemma iget_hit:
  assumes "icache_ok s" "cached s dev inum i"
  shows "iget dev inum s = Inr (i, upd_inode i (\<lambda>ip. ip\<lparr>i_ref := i_ref ip + 1\<rparr>) s)"
proof -
  have L: "length (icache s) = NINODE" using assms(1) by (simp add: icache_ok_def)
  have "List.find (\<lambda>i. 0 < i_ref (icache s ! i) \<and> i_dev (icache s ! i) = dev \<and> i_inum (icache s ! i) = inum) [0..<NINODE] = Some i"
  proof -
    have "\<not> cached s dev inum k" if "k < i" for k using that icache_okD(4)[OF assms(1,2)] by blast
    then show ?thesis using assms(2) unfolding find_upt_Some cached_def by (meson less_trans)
  qed
  then show ?thesis using L by (simp add: iget_def)
qed

lemma iget_miss:
  assumes "length (icache s) = NINODE" "\<And>i. \<not> cached s dev inum i"
  shows "iget dev inum s =
    (case List.find (\<lambda>i. i_ref (icache s ! i) = 0) [0..<NINODE] of
       None \<Rightarrow> panic ''iget: no inodes''
     | Some i \<Rightarrow> Inr (i, upd_inode i (\<lambda>ip. ip\<lparr>i_dev := dev, i_inum := inum, i_ref := 1, i_busy := False, i_valid := False\<rparr>) s))"
proof -
  have "List.find (\<lambda>i. 0 < i_ref (icache s ! i) \<and> i_dev (icache s ! i) = dev \<and> i_inum (icache s ! i) = inum) [0..<NINODE] = None"
    using assms(2) by (simp add: find_upt_None cached_def)
  then show ?thesis using assms(1) by (simp add: iget_def)
qed

definition iget_result :: "nat \<Rightarrow> nat \<Rightarrow> nat \<Rightarrow> ('d, 'z) fsys_scheme \<Rightarrow> ('d, 'z) fsys_scheme \<Rightarrow> bool" where
  "iget_result dev inum i s s' \<longleftrightarrow> icache_ok s' \<and> cached s' dev inum i \<and> s' = s\<lparr>icache := icache s'\<rparr> \<and>
     (\<forall>j. j \<noteq> i \<longrightarrow> icache s' ! j = icache s ! j) \<and>
     (if cached s dev inum i then icache s' ! i = (icache s ! i)\<lparr>i_ref := i_ref (icache s ! i) + 1\<rparr>
      else i_ref (icache s' ! i) = 1 \<and> \<not> i_valid (icache s' ! i) \<and> \<not> i_busy (icache s' ! i) \<and>
        i_ref (icache s ! i) = 0 \<and> (\<forall>k < i. 0 < i_ref (icache s ! k)))"

lemma iget_ok:
  assumes "icache_ok s" "(\<exists>i. cached s dev inum i) \<or> (\<exists>i < NINODE. i_ref (icache s ! i) = 0)"
  shows "\<exists>i s'. iget dev inum s = Inr (i, s') \<and> iget_result dev inum i s s'"
proof (cases "\<exists>i. cached s dev inum i")
  case True
  then obtain i where i: "cached s dev inum i" by blast
  have L: "length (icache s) = NINODE" "i < NINODE" using icache_okD(1)[OF assms(1)] i by (auto simp: cached_def)
  let ?s' = "upd_inode i (\<lambda>ip. ip\<lparr>i_ref := i_ref ip + 1\<rparr>) s"
  have "icache_ok ?s'"
    using icache_okD(2-4)[OF assms(1)] i L by (intro icache_ok_upd[OF assms(1) L(2)]) (auto simp: cached_def)
  moreover have "cached ?s' dev inum i" using i L by (auto simp: cached_def)
  ultimately show ?thesis
    using iget_hit[OF assms(1) i] i L by (intro exI[of _ i] exI[of _ ?s']) (simp add: iget_result_def)
next
  case False
  note L = icache_okD(1)[OF assms(1)]
  from assms(2) False obtain i where f: "List.find (\<lambda>i. i_ref (icache s ! i) = 0) [0..<NINODE] = Some i"
    using find_upt_None[of "\<lambda>i. i_ref (icache s ! i) = 0" NINODE] by (metis not_None_eq)
  then have i: "i < NINODE" "i_ref (icache s ! i) = 0" and k: "\<forall>k < i. i_ref (icache s ! k) \<noteq> 0"
    by (auto simp: find_upt_Some)
  let ?s' = "upd_inode i (\<lambda>ip. ip\<lparr>i_dev := dev, i_inum := inum, i_ref := 1, i_busy := False, i_valid := False\<rparr>) s"
  have "icache_ok ?s'" using False by (intro icache_ok_upd[OF assms(1) i(1)]) auto
  moreover have "cached ?s' dev inum i" using i L by (simp add: cached_def)
  moreover have "\<forall>k < i. 0 < i_ref (icache s ! k)"
  proof (intro allI impI)
    fix j assume "j < i"
    then show "0 < i_ref (icache s ! j)" using k i(1) icache_okD(2)[OF assms(1), of j] by fastforce
  qed
  ultimately show ?thesis
    using iget_miss[OF L] f False L i by (intro exI[of _ i] exI[of _ ?s']) (simp add: iget_result_def)
qed

text \<open>
  \<open>iget\<close> keeps the inode cache well formed (no inode has two entries): it returns the entry
  of the inode with one more reference when there is one; otherwise it takes the first unused
  entry, which then holds the inode, unlocked and not yet read; it panics exactly when the
  inode is not cached and all 50 entries are in use.
\<close>

theorem iget_correct:
  assumes "icache_ok s"
  shows "if (\<exists>i. cached s dev inum i) \<or> (\<exists>i < NINODE. i_ref (icache s ! i) = 0)
    then \<exists>i s'. iget dev inum s = Inr (i, s') \<and> iget_result dev inum i s s'
    else iget dev inum s = panic ''iget: no inodes''"
proof (cases "(\<exists>i. cached s dev inum i) \<or> (\<exists>i < NINODE. i_ref (icache s ! i) = 0)")
  case True
  show ?thesis unfolding if_P[OF True] by (rule iget_ok[OF assms True])
next
  case False
  then have "List.find (\<lambda>i. i_ref (icache s ! i) = 0) [0..<NINODE] = None" by (simp add: find_upt_None)
  then show ?thesis unfolding if_not_P[OF False] using iget_miss[OF icache_okD(1)[OF assms]] False by simp
qed

section \<open>Allocation and release of inodes\<close>

text \<open>The type field of an inode on the disk; zero means free.\<close>

definition dtype :: "('d, 'z) fsys_scheme \<Rightarrow> nat \<Rightarrow> u16" where
  "dtype s n = get16 (blocks s (IBLOCK n (sb s))) (dip n)"

lemma clear_dinode_nth:
  assumes "length d = BSIZE" "k < BSIZE" "k < dip n \<or> dip n + 64 \<le> k"
  shows "clear_dinode n ty d ! k = d ! k"
  using assms dip_bound(1)[of n] by (auto simp: clear_dinode_def put16_def nth_append nth_list_update)

lemma length_clear_dinode: "length d = BSIZE \<Longrightarrow> length (clear_dinode n ty d) = BSIZE"
  using dip_bound(1)[of n] by (simp add: clear_dinode_def)

lemma clear_dinode_type: "length d = BSIZE \<Longrightarrow> get16 (clear_dinode n ty d) (dip n) = ty"
  using dip_bound(1)[of n] by (simp add: clear_dinode_def)

lemma clear_dinode_other:
  assumes "length d = BSIZE" "dip n + 64 \<le> dip (i_inum j) \<or> dip (i_inum j) + 64 \<le> dip n"
  shows "get_dinode (clear_dinode n ty d) j = get_dinode d j"
proof -
  let ?o = "dip (i_inum j)"
  have k: "clear_dinode n ty d ! (?o + k) = d ! (?o + k)" if "k < 64" for k
    using assms dip_bound(1)[of "i_inum j"] that by (intro clear_dinode_nth) auto
  have 16: "get16 (clear_dinode n ty d) (?o + k) = get16 d (?o + k)" if "k \<le> 6" for k
    using k[of k] k[of "k + 1"] that by (simp add: get16_def add.assoc)
  have 32: "get_nat (clear_dinode n ty d) (?o + k) = get_nat d (?o + k)" if "k \<le> 60" for k
    using k[of k] k[of "k + 1"] k[of "k + 2"] k[of "k + 3"] that by (simp add: get_nat_def get32_def add.assoc)
  have "map (\<lambda>k. get_nat (clear_dinode n ty d) (?o + 12 + 4 * k)) [0..<NDIRECT + 1] = map (\<lambda>k. get_nat d (?o + 12 + 4 * k)) [0..<NDIRECT + 1]"
    using 32 by (intro map_cong) (simp_all add: add.assoc del: upt_rec_numeral)
  moreover have "get16 (clear_dinode n ty d) ?o = get16 d ?o" using 16[of 0] by simp
  ultimately show ?thesis unfolding get_dinode_def Let_def using 16[of 2] 16[of 4] 16[of 6] 32[of 8] by simp
qed

lemma ialloc_loop_skip:
  assumes "fsb_ok s" "\<And>m. m \<in> set ms \<Longrightarrow> dtype s m \<noteq> 0 \<and> m < sb_ninodes (sb s)"
  shows "ialloc_loop dev ty (ms @ rest) s = ialloc_loop dev ty rest s"
  using assms(2)
proof (induction ms)
  case (Cons m ms)
  have "IBLOCK m (sb s) < nblk s"
    using iblock_region[OF fsb_okD(1)[OF assms(1)], of m] Cons.prems[of m] fsb_okD(1,3)[OF assms(1)]
    by (auto simp: layout_def datastart_def)
  then show ?case using Cons by (simp add: dtype_def)
qed simp

text \<open>
  \<open>ialloc\<close> marks the free inode of lowest number with the given type and clears its other
  fields, returns a new reference to it in the inode cache, and leaves every other inode on the
  disk, every file and the bitmap alone; with no free inode it panics.
\<close>

theorem ialloc_correct:
  assumes "fsb_ok s" "icache_ok s" "room 1 s" "i < NINODE" "i_ref (icache s ! i) = 0"
  shows "if \<exists>n. 1 \<le> n \<and> n < sb_ninodes (sb s) \<and> dtype s n = 0
    then \<exists>n ip s'. ialloc dev ty s = Inr (ip, s') \<and> 1 \<le> n \<and> n < sb_ninodes (sb s) \<and> dtype s n = 0 \<and>
      (\<forall>m. 1 \<le> m \<and> m < n \<longrightarrow> dtype s m \<noteq> 0) \<and> dtype s' n = ty \<and> cached s' dev n ip \<and> icache_ok s' \<and> fsb_ok s' \<and> used s' = used s \<and>
      (\<forall>j. i_inum j \<noteq> n \<longrightarrow> synced s' j = synced s j) \<and>
      (\<forall>j. inode_ok s j \<longrightarrow> inode_ok s' j \<and> contents (blocks s') j = contents (blocks s) j)
    else ialloc dev ty s = panic ''ialloc: no inodes''"
proof (cases "\<exists>n. 1 \<le> n \<and> n < sb_ninodes (sb s) \<and> dtype s n = 0")
  case False
  then have "ialloc_loop dev ty ([1..<sb_ninodes (sb s)] @ []) s = ialloc_loop dev ty [] s"
    by (intro ialloc_loop_skip[OF assms(1)]) auto
  then show ?thesis using False by (simp add: ialloc_def)
next
  case True
  let ?P = "\<lambda>n. 1 \<le> n \<and> n < sb_ninodes (sb s) \<and> dtype s n = 0"
  from True have "?P (Least ?P)" by (rule LeastI_ex)
  then obtain n where n: "1 \<le> n" "dtype s n = 0" and nn: "n < sb_ninodes (sb s)" and nl: "n = Least ?P" by blast
  have least: "\<forall>m. 1 \<le> m \<and> m < n \<longrightarrow> dtype s m \<noteq> 0"
  proof (intro allI impI)
    fix m assume m: "1 \<le> m \<and> m < n"
    then have "\<not> ?P m" using not_less_Least[of m ?P] nl by blast
    then show "dtype s m \<noteq> 0" using m nn by auto
  qed
  let ?b = "IBLOCK n (sb s)"
  let ?d = "clear_dinode n ty (blocks s ?b)"
  have b: "?b < nblk s"
    using iblock_region[OF fsb_okD(1)[OF assms(1)] nn] fsb_okD(1,3)[OF assms(1)] by (auto simp: layout_def datastart_def)
  have L: "length (blocks s ?b) = BSIZE" by (rule fsb_okD(4)[OF assms(1)])
  define s1 where "s1 = s\<lparr>blocks := (blocks s)(?b := ?d), hdr := add_hdr ?b (hdr s)\<rparr>"
  have "room (Suc 0) s" using assms(3) by simp
  then have w: "wr_block ?b ?d s = Inr s1" using wr_block_ok(1)[of 0 s ?b ?d] b by (simp add: s1_def)
  note u = inode_block_upd[OF assms(1) nn length_clear_dinode[OF L] s1_def]
  have "ialloc dev ty s = ialloc_loop dev ty (n # [Suc n..<sb_ninodes (sb s)]) s"
  proof -
    have "[1..<sb_ninodes (sb s)] = [1..<n] @ n # [Suc n..<sb_ninodes (sb s)]"
      using upt_add_eq_append[OF n(1), of "sb_ninodes (sb s) - n"] upt_conv_Cons[OF nn] nn by simp
    then show ?thesis using ialloc_loop_skip[OF assms(1), of "[1..<n]"] least nn by (simp add: ialloc_def)
  qed
  then have ia: "ialloc dev ty s = iget dev n s1" using b w n(2) by (simp add: dtype_def)
  have ic1: "icache s1 = icache s" by (simp add: s1_def)
  have c1: "icache_ok s1" "icache s1 = icache s" using assms(2) icache_ok_cong[OF ic1] ic1 by simp_all
  from iget_ok[OF c1(1), of dev n] assms(4,5) c1(2) obtain ip s' where
    g: "iget dev n s1 = Inr (ip, s')" "iget_result dev n ip s1 s'" by auto
  from g(2) have c: "cached s' dev n ip" "icache_ok s'" by (simp_all add: iget_result_def)
  from g(2) obtain x where eq: "s' = s1\<lparr>icache := x\<rparr>" unfolding iget_result_def by blast
  have bs: "blocks s' = blocks s1" "sb s' = sb s" "used s' = used s1" "fsb_ok s' = fsb_ok s1" "inode_ok s' = inode_ok s1"
    unfolding eq by (simp_all add: s1_def)
  have "synced s' j = synced s j" if "i_inum j \<noteq> n" for j
  proof (cases "IBLOCK (i_inum j) (sb s) = ?b")
    case True
    then show ?thesis using clear_dinode_other[OF L dip_bound(2)[OF True[symmetric]]] that bs
      by (simp add: synced_def s1_def)
  qed (use bs in \<open>simp add: synced_def s1_def\<close>)
  moreover have "dtype s' n = ty" using clear_dinode_type[OF L] bs by (simp add: dtype_def s1_def)
  ultimately have "\<exists>n ip s'. ialloc dev ty s = Inr (ip, s') \<and> 1 \<le> n \<and> n < sb_ninodes (sb s) \<and> dtype s n = 0 \<and>
      (\<forall>m. 1 \<le> m \<and> m < n \<longrightarrow> dtype s m \<noteq> 0) \<and> dtype s' n = ty \<and> cached s' dev n ip \<and> icache_ok s' \<and> fsb_ok s' \<and> used s' = used s \<and>
      (\<forall>j. i_inum j \<noteq> n \<longrightarrow> synced s' j = synced s j) \<and>
      (\<forall>j. inode_ok s j \<longrightarrow> inode_ok s' j \<and> contents (blocks s') j = contents (blocks s) j)"
    using ia g(1) n nn least c u bs by (intro exI[of _ n] exI[of _ ip] exI[of _ s']) simp
  then show ?thesis unfolding if_P[OF True] .
qed

text \<open>
  C16: \<open>iput\<close> of the last reference to an inode that has been read, has no links and is not
  locked: the inode's blocks are freed, its type on the disk is zero (it can be allocated
  again), its cache entry has no references, and other files are as they were. Every other
  \<open>iput\<close> only drops the reference.
\<close>

theorem iput_correct:
  assumes "fsb_ok s" "ip < length (icache s)" "inode_ok s (icache s ! ip)" "room 3 s" "sb_size (sb s) \<le> BPB"
    "i_inum (icache s ! ip) < sb_ninodes (sb s)" "\<not> i_busy (icache s ! ip)"
  shows "if i_ref (icache s ! ip) = 1 \<and> i_valid (icache s ! ip) \<and> i_nlink (icache s ! ip) = 0
    then \<exists>s'. iput ip s = Inr s' \<and> fsb_ok s' \<and> dtype s' (i_inum (icache s ! ip)) = 0 \<and> i_ref (icache s' ! ip) = 0 \<and>
      (\<forall>c < sb_size (sb s). used s' c \<longleftrightarrow> used s c \<and> c \<notin> owned (blocks s) (icache s ! ip)) \<and>
      (\<forall>j. inode_ok s j \<and> owned (blocks s) j \<inter> owned (blocks s) (icache s ! ip) = {} \<longrightarrow>
         inode_ok s' j \<and> contents (blocks s') j = contents (blocks s) j)
    else iput ip s = Inr (upd_inode ip (\<lambda>i. i\<lparr>i_ref := i_ref i - 1\<rparr>) s)"
proof (cases "i_ref (icache s ! ip) = 1 \<and> i_valid (icache s ! ip) \<and> i_nlink (icache s ! ip) = 0")
  case False
  show ?thesis unfolding if_not_P[OF False] iput_def Let_def by simp
next
  case True
  let ?i = "icache s ! ip"
  define s0 where "s0 = upd_inode ip (\<lambda>i. i\<lparr>i_busy := True\<rparr>) s"
  have i0: "icache s0 ! ip = ?i\<lparr>i_busy := True\<rparr>" "length (icache s0) = length (icache s)" using assms(2) by (simp_all add: s0_def)
  have ow: "owned (blocks s0) (icache s0 ! ip) = owned (blocks s) ?i"
    using owned_addrs[of "icache s0 ! ip" ?i "blocks s"] i0 by (simp add: s0_def)
  have ok0: "inode_ok s0 (icache s0 ! ip)"
  proof -
    have "baddr (blocks s0) (icache s0 ! ip) = baddr (blocks s) ?i" using i0 by (auto simp: s0_def intro: baddr_addrs)
    then show ?thesis using assms(3) i0 ow unfolding inode_ok_def by (simp add: s0_def)
  qed
  have "room (1 + 2) s" using assms(4) by (rule room_mono) simp
  then have pre: "fsb_ok s0" "ip < length (icache s0)" "room (1 + 2) s0" "sb_size (sb s0) \<le> BPB"
    "i_inum (icache s0 ! ip) < sb_ninodes (sb s0)" using assms i0 by (simp_all add: s0_def)
  from itrunc_ok[OF pre(1,2) ok0 pre(3-5)] obtain s1 where
    1: "itrunc ip s0 = Inr s1" "fsb_ok s1" "room 1 s1" "sb s1 = sb s0"
      "icache s1 = (icache s0)[ip := (icache s0 ! ip)\<lparr>i_addrs := replicate 13 0, i_size := 0\<rparr>]"
      "\<forall>c < sb_size (sb s0). used s1 c \<longleftrightarrow> used s0 c \<and> c \<notin> owned (blocks s0) (icache s0 ! ip)"
      "\<forall>j. inode_ok s0 j \<and> owned (blocks s0) j \<inter> owned (blocks s0) (icache s0 ! ip) = {} \<longrightarrow>
         inode_ok s1 j \<and> contents (blocks s1) j = contents (blocks s0) j" by blast
  let ?i2 = "(icache s1 ! ip)\<lparr>i_type := 0\<rparr>"
  define s2 where "s2 = s1\<lparr>icache := (icache s1)[ip := ?i2]\<rparr>"
  have i2: "icache s2 ! ip = ?i2" "i_addrs ?i2 = replicate 13 0" "i_size ?i2 = 0" "i_inum ?i2 = i_inum ?i"
    using 1(5) i0 assms(2) by (simp_all add: s2_def)
  have b: "baddr (blocks s2) ?i2 bn = 0" if "bn < MAXFILE" for bn using that i2 by (auto simp: baddr_def)
  then have "owned (blocks s2) ?i2 = {}" using i2 by (auto simp: owned_def)
  then have ok2: "inode_ok s2 ?i2" using b i2 by (auto simp: inode_ok_def)
  have pre2: "fsb_ok s2" "i_inum ?i2 < sb_ninodes (sb s2)" "room (Suc 0) s2" using 1(2-4) i2 assms(6) by (simp_all add: s2_def s0_def)
  from iupdate_ok[OF pre2(1) ok2 i2(1) pre2(2,3)] obtain s3 where
    3: "iupdate ip s2 = Inr s3" "icache s3 = icache s2" "sb s3 = sb s2" "fsb_ok s3" "used s3 = used s2" "synced s3 ?i2"
      "\<forall>j. inode_ok s2 j \<longrightarrow> inode_ok s3 j \<and> contents (blocks s3) j = contents (blocks s2) j" by blast
  have ty: "dtype s3 (i_inum ?i) = 0"
    using arg_cong[OF 3(6)[unfolded synced_def], of i_type] i2(4) by (simp add: dtype_def get_dinode_def Let_def)
  let ?s' = "s3\<lparr>icache := (icache s3)[ip := (icache s3 ! ip)\<lparr>i_busy := False, i_valid := False, i_ref := i_ref (icache s3 ! ip) - 1\<rparr>]\<rparr>"
  have len: "ip < length (icache s3)" using 1(5) i0 assms(2) 3(2) by (simp add: s2_def)
  have r: "i_ref (icache s3 ! ip) = 1" using 1(5) i0 assms(2) 3(2) True by (simp add: s2_def)
  have "iput ip s = Inr ?s'"
    using True assms(7) 1(1) 3(1) len by (simp add: iput_def Let_def s0_def[symmetric] s2_def[symmetric])
  moreover have "fsb_ok ?s'" "dtype ?s' (i_inum ?i) = 0" "i_ref (icache ?s' ! ip) = 0"
    using 3(4) ty len r by (simp_all add: dtype_def)
  moreover have "used ?s' c \<longleftrightarrow> used s c \<and> c \<notin> owned (blocks s) ?i" if "c < sb_size (sb s)" for c
    using that 1(6) 3(5) ow by (simp add: s2_def s0_def)
  moreover have "inode_ok ?s' j \<and> contents (blocks ?s') j = contents (blocks s) j"
    if "inode_ok s j" "owned (blocks s) j \<inter> owned (blocks s) ?i = {}" for j
    using that 1(7) 3(7) ow by (simp add: s2_def s0_def)
  ultimately show ?thesis unfolding if_P[OF True] by blast
qed

section \<open>A small file system\<close>

text \<open>The empty disk of the block layer with one file of type \<open>ty\<close>, inode 2, open in the first cache entry.\<close>

definition sample_inode :: "u16 \<Rightarrow> inode" where
  "sample_inode ty = \<lparr>i_dev = 1, i_inum = 2, i_ref = 1, i_busy = False, i_valid = True, i_type = ty, i_major = 0, i_minor = 0,
     i_nlink = 0, i_size = 0, i_addrs = replicate 13 0\<rparr>"

definition free_inode :: inode where
  "free_inode = (sample_inode 0)\<lparr>i_ref := 0, i_inum := 0, i_valid := False\<rparr>"

definition sample_disk :: "u16 \<Rightarrow> unit fsys" where
  "sample_disk ty = \<lparr>blocks = sample_blocks, nblk = 1000, hdr = [], loglen = 30, ops = 1, sb = sample_sb,
     icache = (sample_inode ty) # replicate 49 free_inode, devsw = (\<lambda>_. \<lparr>dv_read = None, dv_write = None\<rparr>), devst = ()\<rparr>"

definition sample_fs :: "u16 \<Rightarrow> unit fsys" where
  "sample_fs ty = (sample_disk ty)\<lparr>blocks := sample_blocks(32 := put_dinode (sample_inode ty) zero_block), hdr := []\<rparr>"

lemma sample_fs_sel [simp]:
  "sb (sample_fs ty) = sample_sb" "nblk (sample_fs ty) = 1000" "icache (sample_fs ty) = (sample_inode ty) # replicate 49 free_inode"
  "hdr (sample_fs ty) = []" "loglen (sample_fs ty) = 30" "ops (sample_fs ty) = 1" "sb_size sample_sb = 1000" "sb_ninodes sample_sb = 200"
  by (simp_all add: sample_fs_def sample_disk_def sample_sb_def)

lemma sample_fs_ok:
  "fsb_ok (sample_fs ty)" "c < 1000 \<Longrightarrow> used (sample_fs ty) c \<longleftrightarrow> c < 59" "inode_ok (sample_fs ty) (sample_inode ty)" "synced (sample_fs ty) (sample_inode ty)"
  "room 25 (sample_fs ty)" "4 \<le> nfree (sample_fs ty)" "icache_ok (sample_fs ty)"
proof -
  have base: "fsb_ok (sample_disk ty)" "\<And>b. b < 1000 \<Longrightarrow> used (sample_disk ty) b \<longleftrightarrow> b < 59"
    using sample_ok[of "sample_disk ty"] by (simp_all add: sample_disk_def)
  have ib: "IBLOCK 2 (sb (sample_disk ty)) = 32" by (simp add: IBLOCK_def sample_disk_def sample_sb_def)
  have z: "sample_blocks 32 = zero_block" by (simp add: sample_blocks_def)
  have L: "length (put_dinode (sample_inode ty) zero_block) = BSIZE" by (simp add: put_dinode_def Let_def)
  have n2: "2 < sb_ninodes (sb (sample_disk ty))" by (simp add: sample_disk_def)
  have eq: "sample_fs ty = (sample_disk ty)\<lparr>blocks := (blocks (sample_disk ty))(IBLOCK 2 (sb (sample_disk ty)) := put_dinode (sample_inode ty) zero_block), hdr := []\<rparr>"
    unfolding ib by (simp add: sample_fs_def sample_disk_def)
  note u = inode_block_upd[OF base(1) n2 L eq]
  show "fsb_ok (sample_fs ty)" by (rule u(1))
  show us: "c < 1000 \<Longrightarrow> used (sample_fs ty) c \<longleftrightarrow> c < 59" for c using u(2) base(2) by simp
  have b: "baddr (blocks (sample_fs ty)) (sample_inode ty) bn = 0" if "bn < MAXFILE" for bn
    using that by (auto simp: baddr_def sample_inode_def)
  then have "owned (blocks (sample_fs ty)) (sample_inode ty) = {}" by (auto simp: owned_def sample_inode_def)
  then show "inode_ok (sample_fs ty) (sample_inode ty)" using b by (auto simp: inode_ok_def sample_inode_def)
  have "get_dinode (put_dinode (sample_inode ty) zero_block) (sample_inode ty) = (sample_inode ty)"
    using put_get_dinode[of zero_block "sample_inode ty" "sample_inode ty"] by (simp add: sample_inode_def)
  then show "synced (sample_fs ty) (sample_inode ty)" by (simp add: synced_def sample_fs_def sample_disk_def IBLOCK_def sample_inode_def sample_sb_def)
  show "room 25 (sample_fs ty)" by (simp add: room_def)
  have "{60, 61, 62, 63} \<subseteq> {c. c < 1000 \<and> \<not> used (sample_fs ty) c}" using us by auto
  then have "card {60, 61, 62, 63 :: nat} \<le> nfree (sample_fs ty)" unfolding nfree_def by (intro card_mono) simp_all
  then show "4 \<le> nfree (sample_fs ty)" by simp
  have "cached (sample_fs ty) dev inum i \<Longrightarrow> i = 0" for dev inum i
    by (cases i) (auto simp: cached_def free_inode_def)
  then have "\<forall>dev inum i j. cached (sample_fs ty) dev inum i \<and> cached (sample_fs ty) dev inum j \<longrightarrow> i = j" by blast
  moreover have "0 \<le> i_ref (icache (sample_fs ty) ! i) \<and> (i_busy (icache (sample_fs ty) ! i) \<longrightarrow> 0 < i_ref (icache (sample_fs ty) ! i))"
    if "i < NINODE" for i using that by (cases i) (auto simp: sample_inode_def free_inode_def)
  ultimately show "icache_ok (sample_fs ty)" unfolding icache_ok_def by simp
qed

lemma sample_fs_inode [simp]:
  "i_type (sample_inode ty) = ty" "i_inum (sample_inode ty) = 2" "i_size (sample_inode ty) = 0" "\<not> i_busy (sample_inode ty)" "i_ref (sample_inode ty) = 1"
  "i_valid (sample_inode ty)" "i_nlink (sample_inode ty) = 0"
  by (simp_all add: sample_inode_def)

theorem writei_correct_witness:
  "\<exists>s'. writei 0 [104, 105] 0 (sample_fs T_FILE) = Inr (2, s') \<and> contents (blocks s') (icache s' ! 0) = [104, 105] \<and> fsb_ok s'"
proof -
  have "contents (blocks (sample_fs T_FILE)) (sample_inode T_FILE) = []" by (simp add: contents_def)
  then show ?thesis
    using writei_correct[of "sample_fs T_FILE" 0 0 "[104, 105]"] sample_fs_ok(1,3-6)[of T_FILE] room_mono[OF sample_fs_ok(5)[of T_FILE], of 7]
    by (simp add: span_def wrote_file_def overwrite_def) blast
qed

theorem writei_readi_roundtrip_witness:
  "\<exists>s'. writei 0 [104, 105] 0 (sample_fs T_FILE) = Inr (2, s') \<and> readi 0 0 2 s' = Inr (2, [104, 105], s')"
  using writei_readi_roundtrip[of "sample_fs T_FILE" 0 0 "[104, 105]"] sample_fs_ok(1,3-6)[of T_FILE] room_mono[OF sample_fs_ok(5)[of T_FILE], of 7]
  by (simp add: span_def numeral_2_eq_2)

theorem readi_correct_witness:
  "readi 0 0 10 (sample_fs T_FILE) = Inr (0, [], (sample_fs T_FILE)) \<and> readi 0 1 10 (sample_fs T_FILE) = Inr (-1, [], (sample_fs T_FILE))"
  using readi_correct[of "sample_fs T_FILE" 0 0 10] readi_correct[of "sample_fs T_FILE" 0 1 10] sample_fs_ok(1,3)
  by (simp add: contents_def)

theorem itrunc_correct_witness:
  "\<exists>s'. itrunc 0 (sample_fs T_FILE) = Inr s' \<and> fsb_ok s' \<and> used s' 58 \<and> \<not> used s' 59"
proof -
  have "room 2 (sample_fs T_FILE)" using sample_fs_ok(5) by (rule room_mono) simp
  moreover have "owned (blocks (sample_fs T_FILE)) (sample_inode T_FILE) = {}" by (auto simp: owned_def sample_inode_def baddr_def)
  ultimately show ?thesis
    using itrunc_correct[of "sample_fs T_FILE" 0] sample_fs_ok(1,3) sample_fs_ok(2)[of 58] sample_fs_ok(2)[of 59] by auto
qed

theorem iput_correct_witness:
  "\<exists>s'. iput 0 (sample_fs T_FILE) = Inr s' \<and> dtype s' 2 = 0 \<and> i_ref (icache s' ! 0) = 0"
proof -
  have "room 3 (sample_fs T_FILE)" using sample_fs_ok(5) by (rule room_mono) simp
  then show ?thesis using iput_correct[of "sample_fs T_FILE" 0] sample_fs_ok(1,3) by auto
qed

theorem iget_correct_witness:
  "\<exists>i s'. iget 1 2 (sample_fs T_FILE) = Inr (i, s') \<and> icache_ok s' \<and> cached s' 1 2 i"
proof -
  have "cached (sample_fs T_FILE) 1 2 0" by (simp add: cached_def sample_inode_def)
  then have "(\<exists>i. cached (sample_fs T_FILE) 1 2 i) \<or> (\<exists>i < NINODE. i_ref (icache (sample_fs T_FILE) ! i) = 0)" by blast
  from iget_correct[OF sample_fs_ok(7)[of T_FILE], of 1 2, unfolded if_P[OF this]] show ?thesis unfolding iget_result_def by blast
qed

theorem ialloc_correct_witness:
  "\<exists>n ip s'. ialloc 1 T_FILE (sample_fs T_FILE) = Inr (ip, s') \<and> dtype s' n = T_FILE \<and> cached s' 1 n ip \<and> fsb_ok s'"
proof -
  have r: "room 1 (sample_fs T_FILE)" using sample_fs_ok(5) by (rule room_mono) simp
  have "dtype (sample_fs T_FILE) 100 = 0"
    by (simp add: dtype_def sample_fs_def sample_disk_def IBLOCK_def dip_def sample_sb_def sample_blocks_def get16_def zero_block_def)
  then have f: "\<exists>n. 1 \<le> n \<and> n < sb_ninodes (sb (sample_fs T_FILE)) \<and> dtype (sample_fs T_FILE) n = 0" by (intro exI[of _ 100]) simp
  have z: "i_ref (icache (sample_fs T_FILE) ! 1) = 0" "(1 :: nat) < NINODE" by (simp_all add: free_inode_def)
  from ialloc_correct[OF sample_fs_ok(1)[of T_FILE] sample_fs_ok(7) r z(2,1), of 1 T_FILE, unfolded if_P[OF f]] show ?thesis by blast
qed

end
