(* ===== verification/Fs_Dir.thy ===== *)
theory Fs_Dir
  imports Fs_File Cstring
begin

text \<open>
  Directories and path names of \<open>fs.c\<close>. A directory is a file of 16-byte entries (inode number
  and a name of at most 14 bytes, NUL-padded). Results: \<open>dirlookup\<close> finds the first entry with
  the name, \<open>dirlink\<close> adds a binding to the map from names to inode numbers and changes no
  other, \<open>skipelem\<close> splits a path into its elements.
\<close>

section \<open>Directory entries\<close>

abbreviation DIRSIZ :: nat where "DIRSIZ \<equiv> 14"
abbreviation SLASH :: byte where "SLASH \<equiv> 47"

text \<open>A C string in a buffer of which the bytes behind the end of the list count as NUL.\<close>

definition char_at :: "byte list \<Rightarrow> nat \<Rightarrow> byte" where
  "char_at s i = (if i < length s then s ! i else 0)"

fun strncmp_from :: "nat \<Rightarrow> byte list \<Rightarrow> byte list \<Rightarrow> nat \<Rightarrow> int" where
  "strncmp_from i p q 0 = 0"
| "strncmp_from i p q (Suc n) =
     (if char_at p i \<noteq> 0 \<and> char_at p i = char_at q i then strncmp_from (i + 1) p q n
      else uint (char_at p i) - uint (char_at q i))"

definition namecmp :: "byte list \<Rightarrow> byte list \<Rightarrow> int" where
  "namecmp s t = strncmp_from 0 s t DIRSIZ"

definition de_inum :: "byte list \<Rightarrow> nat" where
  "de_inum de = unat (get16 de 0)"

definition de_name :: "byte list \<Rightarrow> byte list" where
  "de_name de = take DIRSIZ (drop 2 de)"

text \<open>\<open>strncpy(de.name, name, DIRSIZ)\<close>: up to the NUL, then zeros.\<close>

definition padded_name :: "byte list \<Rightarrow> byte list" where
  "padded_name s = (let t = takeWhile (\<lambda>b. b \<noteq> 0) (take DIRSIZ s) in t @ replicate (DIRSIZ - length t) 0)"

definition mk_dirent :: "nat \<Rightarrow> byte list \<Rightarrow> byte list" where
  "mk_dirent inum name = put16 [0, 0] 0 (of_nat inum) @ padded_name name"

text \<open>The offsets of the entries of a directory of \<open>n\<close> bytes: 0, 16, 32, ...\<close>

definition entry_offs :: "nat \<Rightarrow> nat list" where
  "entry_offs n = map (\<lambda>k. 16 * k) [0..<(n + 15) div 16]"

section \<open>Directory operations\<close>

text \<open>The scan of \<open>dirlookup\<close>; the size of the directory does not change during it.\<close>

fun dirlookup_loop ::
  "nat \<Rightarrow> byte list \<Rightarrow> nat list \<Rightarrow> ('d, 'z) fsys_scheme \<Rightarrow> ((nat \<times> nat) option \<times> ('d, 'z) fsys_scheme) kernel" where
  "dirlookup_loop dp name [] s = Inr (None, s)"
| "dirlookup_loop dp name (off # offs) s =
     kbind (readi dp off 16 s) (\<lambda>(r, de, s1).
       if r \<noteq> 16 then panic ''dirlink read''
       else if de_inum de = 0 then dirlookup_loop dp name offs s1
       else if namecmp name (de_name de) = 0 then
         kbind (iget (i_dev (icache s1 ! dp)) (de_inum de) s1) (\<lambda>(ip, s2). Inr (Some (ip, off), s2))
       else dirlookup_loop dp name offs s1)"

definition dirlookup :: "nat \<Rightarrow> byte list \<Rightarrow> ('d, 'z) fsys_scheme \<Rightarrow> ((nat \<times> nat) option \<times> ('d, 'z) fsys_scheme) kernel" where
  "dirlookup dp name s =
     (if i_type (icache s ! dp) \<noteq> T_DIR then panic ''dirlookup not DIR''
      else dirlookup_loop dp name (entry_offs (i_size (icache s ! dp))) s)"

text \<open>The search of \<open>dirlink\<close> for an unused entry: its offset, or the end of the directory.\<close>

fun empty_entry :: "nat \<Rightarrow> nat list \<Rightarrow> nat \<Rightarrow> ('d, 'z) fsys_scheme \<Rightarrow> (nat \<times> ('d, 'z) fsys_scheme) kernel" where
  "empty_entry dp [] fin s = Inr (fin, s)"
| "empty_entry dp (off # offs) fin s =
     kbind (readi dp off 16 s) (\<lambda>(r, de, s1).
       if r \<noteq> 16 then panic ''dirlink read''
       else if de_inum de = 0 then Inr (off, s1)
       else empty_entry dp offs (off + 16) s1)"

definition dirlink :: "nat \<Rightarrow> byte list \<Rightarrow> nat \<Rightarrow> ('d, 'z) fsys_scheme \<Rightarrow> (int \<times> ('d, 'z) fsys_scheme) kernel" where
  "dirlink dp name inum s =
     kbind (dirlookup dp name s) (\<lambda>(found, s1).
       case found of
         Some (ip, off) \<Rightarrow> kbind (iput ip s1) (\<lambda>s2. Inr (-1, s2))
       | None \<Rightarrow>
           kbind (empty_entry dp (entry_offs (i_size (icache s1 ! dp))) 0 s1) (\<lambda>(off, s2).
           kbind (writei dp (mk_dirent inum name) off s2) (\<lambda>(r, s3).
             if r \<noteq> 16 then panic ''dirlink'' else Inr (0, s3))))"

section \<open>Paths\<close>

fun skip_slashes :: "byte list \<Rightarrow> byte list" where
  "skip_slashes [] = []"
| "skip_slashes (c # cs) = (if c = SLASH then skip_slashes cs else c # cs)"

fun path_elem :: "byte list \<Rightarrow> byte list \<times> byte list" where
  "path_elem [] = ([], [])"
| "path_elem (c # cs) = (if c = SLASH then ([], c # cs) else (let (e, rest) = path_elem cs in (c # e, rest)))"

text \<open>
  \<open>skipelem\<close>: the path is the C string without its NUL; the second component of the result is
  the buffer \<open>name\<close>, of which only the first bytes are overwritten.
\<close>

definition skipelem :: "byte list \<Rightarrow> byte list \<Rightarrow> (byte list \<times> byte list) option" where
  "skipelem path name =
     (let p = skip_slashes path
      in if p = [] then None
         else let (s, rest) = path_elem p; len = length s
              in Some (skip_slashes rest,
                   if DIRSIZ \<le> len then overwrite 0 (take DIRSIZ s) name
                   else overwrite len [0] (overwrite 0 s name)))"

lemma skip_slashes_length: "length (skip_slashes p) \<le> length p"
  by (induction p rule: skip_slashes.induct) auto

lemma path_elem_append: "path_elem p = (e, rest) \<Longrightarrow> p = e @ rest"
  by (induction p arbitrary: e rest rule: path_elem.induct) (auto split: if_splits prod.splits)

lemma skip_slashes_hd: "skip_slashes p = c # cs \<Longrightarrow> c \<noteq> SLASH"
  by (induction p rule: skip_slashes.induct) (auto split: if_splits)

lemma skipelem_shorter: "skipelem path name = Some (path', name') \<Longrightarrow> length path' < length path"
proof -
  assume s: "skipelem path name = Some (path', name')"
  then obtain c cs where p: "skip_slashes path = c # cs" by (cases "skip_slashes path") (auto simp: skipelem_def Let_def)
  then have c: "c \<noteq> SLASH" by (rule skip_slashes_hd)
  obtain e rest where e: "path_elem cs = (e, rest)" by fastforce
  have "path' = skip_slashes rest" using s p c e by (auto simp: skipelem_def Let_def)
  moreover have "length rest \<le> length cs" using path_elem_append[OF e] by simp
  moreover have "length (c # cs) \<le> length path" using skip_slashes_length[of path] p by simp
  ultimately show ?thesis using skip_slashes_length[of rest] by simp
qed

function namex_loop ::
  "byte list \<Rightarrow> bool \<Rightarrow> byte list \<Rightarrow> nat \<Rightarrow> ('d, 'z) fsys_scheme \<Rightarrow> ((nat option \<times> byte list) \<times> ('d, 'z) fsys_scheme) kernel" where
  "namex_loop path parent name ip s =
     (case skipelem path name of
        None \<Rightarrow>
          if parent then kbind (iput ip s) (\<lambda>s1. Inr ((None, name), s1)) else Inr ((Some ip, name), s)
      | Some (path', name') \<Rightarrow>
          kbind (ilock ip s) (\<lambda>s1.
            if i_type (icache s1 ! ip) \<noteq> T_DIR then kbind (iunlockput ip s1) (\<lambda>s2. Inr ((None, name'), s2))
            else if parent \<and> path' = [] then kbind (iunlock ip s1) (\<lambda>s2. Inr ((Some ip, name'), s2))
            else kbind (dirlookup ip name' s1) (\<lambda>(found, s2).
              case found of
                None \<Rightarrow> kbind (iunlockput ip s2) (\<lambda>s3. Inr ((None, name'), s3))
              | Some (next_ip, off) \<Rightarrow> kbind (iunlockput ip s2) (\<lambda>s3. namex_loop path' parent name' next_ip s3))))"
  by pat_completeness auto
termination
  by (relation "measure (\<lambda>(path, parent, name, ip, s). length path)") (auto dest: skipelem_shorter)

declare namex_loop.simps [simp del]

abbreviation ROOTDEV :: nat where "ROOTDEV \<equiv> 1"
abbreviation ROOTINO :: nat where "ROOTINO \<equiv> 1"

text \<open>\<open>cwd\<close> is \<open>proc->cwd\<close> of the calling process.\<close>

definition namex ::
  "nat \<Rightarrow> byte list \<Rightarrow> bool \<Rightarrow> byte list \<Rightarrow> ('d, 'z) fsys_scheme \<Rightarrow> ((nat option \<times> byte list) \<times> ('d, 'z) fsys_scheme) kernel" where
  "namex cwd path parent name s =
     kbind (if path \<noteq> [] \<and> hd path = SLASH then iget ROOTDEV ROOTINO s else Inr (idup cwd s))
       (\<lambda>(ip, s1). namex_loop path parent name ip s1)"

definition namei :: "nat \<Rightarrow> byte list \<Rightarrow> ('d, 'z) fsys_scheme \<Rightarrow> (nat option \<times> ('d, 'z) fsys_scheme) kernel" where
  "namei cwd path s = kbind (namex cwd path False (replicate DIRSIZ 0) s) (\<lambda>((r, name), s1). Inr (r, s1))"

definition nameiparent :: "nat \<Rightarrow> byte list \<Rightarrow> byte list \<Rightarrow> ('d, 'z) fsys_scheme \<Rightarrow> ((nat option \<times> byte list) \<times> ('d, 'z) fsys_scheme) kernel" where
  "nameiparent cwd path name s = namex cwd path True name s"

section \<open>Names\<close>

text \<open>The list-based comparison is \<open>strncmp\<close> of \<open>string.c\<close> on the bytes in memory.\<close>

lemma strncmp_from_mem: "i + k \<le> n \<Longrightarrow> strncmp_from i (bytes_at m p n) (bytes_at m q n) k = strncmp m (p + int i) (q + int i) k"
proof (induction k arbitrary: i)
  case (Suc k)
  have "strncmp_from (i + 1) (bytes_at m p n) (bytes_at m q n) k = strncmp m (p + int (i + 1)) (q + int (i + 1)) k"
    using Suc by (intro Suc.IH) simp
  then show ?case using Suc.prems by (simp add: char_at_def algebra_simps)
qed simp

lemma namecmp_strncmp: "namecmp (bytes_at m p DIRSIZ) (bytes_at m q DIRSIZ) = strncmp m p q DIRSIZ"
  using strncmp_from_mem[of 0 DIRSIZ DIRSIZ] unfolding namecmp_def by simp

text \<open>The name a buffer holds: up to the first NUL, at most 14 bytes.\<close>

definition cname :: "byte list \<Rightarrow> byte list" where
  "cname s = takeWhile (\<lambda>b. b \<noteq> 0) (take DIRSIZ s)"

lemma char_at_drop: "char_at s i = (case drop i s of [] \<Rightarrow> 0 | c # _ \<Rightarrow> c)"
  by (auto simp: char_at_def split: list.splits) (metis hd_drop_conv_nth list.sel(1))

lemma drop_Cons_Suc: "drop i s = c # cs \<Longrightarrow> drop (i + 1) s = cs"
  by (metis Suc_eq_plus1 drop_Suc list.sel(3) tl_drop)

lemma strncmp_from_zero:
  "strncmp_from i s t n = 0 \<longleftrightarrow> takeWhile (\<lambda>b. b \<noteq> 0) (take n (drop i s)) = takeWhile (\<lambda>b. b \<noteq> 0) (take n (drop i t))"
proof (induction n arbitrary: i)
  case (Suc n)
  have u: "uint a - uint b = 0 \<longleftrightarrow> a = b" for a b :: byte by (simp add: word_uint_eq_iff)
  show ?case
  proof (cases "drop i s"; cases "drop i t")
    fix c cs assume 1: "drop i s = []" and 2: "drop i t = c # cs"
    then show ?thesis using u[of 0 c] by (auto simp: char_at_drop)
  next
    fix c cs assume 1: "drop i s = c # cs" and 2: "drop i t = []"
    then show ?thesis using u[of c 0] by (auto simp: char_at_drop)
  next
    fix c cs d ds assume 1: "drop i s = c # cs" and 2: "drop i t = d # ds"
    then show ?thesis using Suc.IH[of "i + 1"] u[of c d] drop_Cons_Suc[OF 1] drop_Cons_Suc[OF 2] by (auto simp: char_at_drop)
  qed (simp add: char_at_drop)
qed simp

lemma namecmp_zero: "namecmp s t = 0 \<longleftrightarrow> cname s = cname t"
  using strncmp_from_zero[of 0 s t DIRSIZ] by (simp add: namecmp_def cname_def)

lemma length_padded_name [simp]: "length (padded_name s) = DIRSIZ"
proof -
  have "length (takeWhile (\<lambda>b. b \<noteq> 0) (take DIRSIZ s)) \<le> DIRSIZ"
    using length_takeWhile_le[of "\<lambda>b. b \<noteq> 0" "take DIRSIZ s"] by simp
  then show ?thesis by (simp add: padded_name_def Let_def)
qed

lemma cname_padded [simp]: "cname (padded_name s) = cname s"
proof -
  have "take DIRSIZ (padded_name s) = padded_name s" by simp
  then have "cname (padded_name s) = takeWhile (\<lambda>b. b \<noteq> 0) (padded_name s)" by (simp only: cname_def)
  also have "\<dots> = takeWhile (\<lambda>b. b \<noteq> 0) (take DIRSIZ s)"
  proof -
    let ?t = "takeWhile (\<lambda>b. b \<noteq> 0) (take DIRSIZ s)"
    have "takeWhile (\<lambda>b. b \<noteq> 0) (?t @ replicate n 0) = ?t" for n
      by (subst takeWhile_append2) (auto dest: set_takeWhileD simp: takeWhile_eq_Nil_iff)
    then show ?thesis by (simp add: padded_name_def Let_def)
  qed
  finally show ?thesis by (simp add: cname_def)
qed

lemma mk_dirent_fields:
  assumes "inum < 2 ^ 16"
  shows "length (mk_dirent inum name) = 16" "de_inum (mk_dirent inum name) = inum" "cname (de_name (mk_dirent inum name)) = cname name"
proof -
  show "length (mk_dirent inum name) = 16" by (simp add: mk_dirent_def)
  have "get16 (put16 [0, 0] 0 (of_nat inum) @ xs) 0 = get16 (put16 [0, 0] 0 (of_nat inum)) 0" for xs
    by (simp add: get16_def nth_append put16_def)
  then show "de_inum (mk_dirent inum name) = inum" using assms by (simp add: de_inum_def mk_dirent_def unat_of_nat)
  have "de_name (mk_dirent inum name) = padded_name name" by (simp add: de_name_def mk_dirent_def)
  then show "cname (de_name (mk_dirent inum name)) = cname name" by simp
qed

section \<open>Directories as maps\<close>

definition entry :: "byte list \<Rightarrow> nat \<Rightarrow> byte list" where
  "entry c k = take 16 (drop (16 * k) c)"

definition matches :: "byte list \<Rightarrow> byte list \<Rightarrow> bool" where
  "matches nm de \<longleftrightarrow> de_inum de \<noteq> 0 \<and> cname (de_name de) = nm"

definition dir_index :: "byte list \<Rightarrow> byte list \<Rightarrow> nat option" where
  "dir_index c nm = List.find (\<lambda>k. matches nm (entry c k)) [0..<length c div 16]"

text \<open>The map from names to inode numbers a directory stands for.\<close>

definition dir_map :: "byte list \<Rightarrow> byte list \<Rightarrow> nat option" where
  "dir_map c nm = map_option (\<lambda>k. de_inum (entry c k)) (dir_index c nm)"

definition dir_ok :: "('d, 'z) fsys_scheme \<Rightarrow> nat \<Rightarrow> bool" where
  "dir_ok s dp \<longleftrightarrow> fsb_ok s \<and> inode_ok s (icache s ! dp) \<and> i_type (icache s ! dp) = T_DIR \<and> 16 dvd i_size (icache s ! dp)"

abbreviation dir_content :: "('d, 'z) fsys_scheme \<Rightarrow> nat \<Rightarrow> byte list" where
  "dir_content s dp \<equiv> contents (blocks s) (icache s ! dp)"

lemma read_entry:
  assumes "dir_ok s dp" "k < length (dir_content s dp) div 16"
  shows "readi dp (16 * k) 16 s = Inr (16, entry (dir_content s dp) k, s)"
proof -
  have i: "fsb_ok s" "inode_ok s (icache s ! dp)" "i_type (icache s ! dp) \<noteq> T_DEV"
    using assms(1) by (auto simp: dir_ok_def)
  have "16 * k + 16 \<le> i_size (icache s ! dp)" using assms by (auto simp: dir_ok_def dvd_def)
  moreover have "i_size (icache s ! dp) \<le> MAXFILE * BSIZE" by (rule inode_okD(2)[OF i(2)])
  ultimately show ?thesis using readi_ok[OF i, of "16 * k" 16] by (simp add: entry_def Let_def)
qed

lemma dirlookup_scan:
  assumes "dir_ok s dp" "set ks \<subseteq> {..<length (dir_content s dp) div 16}"
  shows "dirlookup_loop dp name (map (\<lambda>k. 16 * k) ks) s =
    (case List.find (\<lambda>k. matches (cname name) (entry (dir_content s dp) k)) ks of
       None \<Rightarrow> Inr (None, s)
     | Some k \<Rightarrow> kbind (iget (i_dev (icache s ! dp)) (de_inum (entry (dir_content s dp) k)) s) (\<lambda>(ip, s2). Inr (Some (ip, 16 * k), s2)))"
  using assms(2)
proof (induction ks)
  case (Cons k ks)
  have "k < length (dir_content s dp) div 16" using Cons.prems by simp
  note r = read_entry[OF assms(1) this]
  show ?case using Cons r by (auto simp: matches_def namecmp_zero)
qed simp

lemma entry_offs_dvd: "16 dvd n \<Longrightarrow> entry_offs n = map (\<lambda>k. 16 * k) [0..<n div 16]"
  by (auto simp: entry_offs_def dvd_def)

lemma dirlookup_ok:
  assumes "dir_ok s dp"
  shows "dirlookup dp name s =
    (case dir_index (dir_content s dp) (cname name) of
       None \<Rightarrow> Inr (None, s)
     | Some k \<Rightarrow> kbind (iget (i_dev (icache s ! dp)) (de_inum (entry (dir_content s dp) k)) s) (\<lambda>(ip, s2). Inr (Some (ip, 16 * k), s2)))"
proof -
  have "entry_offs (i_size (icache s ! dp)) = map (\<lambda>k. 16 * k) [0..<length (dir_content s dp) div 16]"
    using assms entry_offs_dvd by (simp add: dir_ok_def)
  moreover have "i_type (icache s ! dp) = T_DIR" using assms by (simp add: dir_ok_def)
  ultimately show ?thesis using dirlookup_scan[OF assms, of "[0..<length (dir_content s dp) div 16]" name]
    by (simp add: dirlookup_def dir_index_def lessThan_atLeast0)
qed

text \<open>
  \<open>dirlookup\<close> in a directory: when the map from names to inode numbers the directory stands
  for binds the name (compared up to a NUL and to 14 bytes), it returns a reference to that
  inode; otherwise it returns no inode and changes nothing.
\<close>

theorem dirlookup_correct:
  assumes "dir_ok s dp" "icache_ok s" "\<exists>i < NINODE. i_ref (icache s ! i) = 0"
  shows "case dir_map (dir_content s dp) (cname name) of
      None \<Rightarrow> dirlookup dp name s = Inr (None, s)
    | Some inum \<Rightarrow> \<exists>ip off s'. dirlookup dp name s = Inr (Some (ip, off), s') \<and>
        iget_result (i_dev (icache s ! dp)) inum ip s s' \<and> blocks s' = blocks s"
proof (cases "dir_index (dir_content s dp) (cname name)")
  case None
  then show ?thesis using dirlookup_ok[OF assms(1), of name] by (simp add: dir_map_def)
next
  case (Some k)
  let ?n = "de_inum (entry (dir_content s dp) k)"
  obtain ip s' where "iget (i_dev (icache s ! dp)) ?n s = Inr (ip, s')" "iget_result (i_dev (icache s ! dp)) ?n ip s s'"
    using iget_ok[OF assms(2)] assms(3) by blast
  moreover from this(2) obtain x where "s' = s\<lparr>icache := x\<rparr>" unfolding iget_result_def by blast
  then have "blocks s' = blocks s" by simp
  ultimately show ?thesis using Some dirlookup_ok[OF assms(1), of name] by (simp add: dir_map_def)
qed

section \<open>Adding an entry\<close>

lemma empty_entry_scan:
  assumes "dir_ok s dp" and n: "n = length (dir_content s dp) div 16"
  shows "empty_entry dp (map (\<lambda>k. 16 * k) [i..<n]) (16 * i) s =
     Inr (16 * (case List.find (\<lambda>k. de_inum (entry (dir_content s dp) k) = 0) [i..<n] of None \<Rightarrow> max i n | Some k \<Rightarrow> k), s)"
proof (induction "n - i" arbitrary: i)
  case 0
  then show ?case by (simp add: max_def)
next
  case (Suc m)
  then have i: "i < n" "[i..<n] = i # [Suc i..<n]" by (simp_all add: upt_conv_Cons)
  have r: "readi dp (16 * i) 16 s = Inr (16, entry (dir_content s dp) i, s)" using read_entry[OF assms(1)] i n by simp
  have "empty_entry dp (map (\<lambda>k. 16 * k) [Suc i..<n]) (16 * Suc i) s =
     Inr (16 * (case List.find (\<lambda>k. de_inum (entry (dir_content s dp) k) = 0) [Suc i..<n] of None \<Rightarrow> max (Suc i) n | Some k \<Rightarrow> k), s)"
    using Suc by (intro Suc.hyps(1)) auto
  moreover have "16 * Suc i = 16 * i + 16" "max (Suc i) n = n" "max i n = n" using i by auto
  ultimately have "empty_entry dp (map (\<lambda>k. 16 * k) [Suc i..<n]) (16 * i + 16) s =
     Inr (16 * (case List.find (\<lambda>k. de_inum (entry (dir_content s dp) k) = 0) [Suc i..<n] of None \<Rightarrow> max i n | Some k \<Rightarrow> k), s)"
    by (simp only:)
  then show ?case using r i by (simp del: upt_Suc)
qed

text \<open>The slot a new entry goes to: the first unused one, or one more at the end.\<close>

definition free_slot :: "byte list \<Rightarrow> nat" where
  "free_slot c = (case List.find (\<lambda>k. de_inum (entry c k) = 0) [0..<length c div 16] of None \<Rightarrow> length c div 16 | Some k \<Rightarrow> k)"

lemma free_slot_le: "free_slot c \<le> length c div 16"
  by (auto simp: free_slot_def find_upt_Some split: option.splits)

lemma free_slot_empty: "free_slot c < length c div 16 \<Longrightarrow> de_inum (entry c (free_slot c)) = 0"
proof (cases "List.find (\<lambda>k. de_inum (entry c k) = 0) [0..<length c div 16]")
  case (Some k)
  then show ?thesis using find_upt_Some[of "\<lambda>k. de_inum (entry c k) = 0" "length c div 16" k] by (simp add: free_slot_def)
qed (simp add: free_slot_def)

lemma entry_overwrite:
  assumes "16 dvd length c" "length de = 16" "j \<le> length c div 16" "k \<le> length c div 16"
    "k < length (overwrite (16 * j) de c) div 16"
  shows "entry (overwrite (16 * j) de c) k = (if k = j then de else entry c k)"
proof -
  have jl: "16 * j \<le> length c" using assms(1,3) by (auto simp: dvd_def)
  consider "k = j" | "k < j" | "j < k" by linarith
  then show ?thesis
  proof cases
    case 1
    then show ?thesis using jl assms(2) by (simp add: entry_def overwrite_def)
  next
    case 2
    then have "16 * k + 16 \<le> 16 * j" by simp
    then have "take 16 (drop (16 * k) (overwrite (16 * j) de c)) = take 16 (drop (16 * k) c)"
      using jl by (intro nth_equalityI) (auto simp: overwrite_def nth_append)
    then show ?thesis using 2 by (simp add: entry_def)
  next
    case 3
    then have "16 * j + 16 \<le> 16 * k" "16 * k \<le> length c" using assms(1,4) by (auto simp: dvd_def)
    then have "drop (16 * k) (overwrite (16 * j) de c) = drop (16 * k) c"
      using jl assms(2) by (simp add: overwrite_def min_def)
    then show ?thesis using 3 by (simp add: entry_def)
  qed
qed

lemma find_cong_upt: "(\<And>k. k < n \<Longrightarrow> P k = Q k) \<Longrightarrow> List.find P [0..<n] = List.find Q [0..<n]"
  by (intro find_cong) auto

text \<open>Writing an entry for an unbound name into the free slot adds one binding to the map.\<close>

lemma dir_map_link:
  assumes c: "16 dvd length c" and n: "dir_map c (cname name) = None" "0 < inum" "inum < 2 ^ 16"
    and c': "c' = overwrite (16 * free_slot c) (mk_dirent inum name) c"
  shows "dir_map c' = (dir_map c)(cname name \<mapsto> inum)" "16 dvd length c'" "length c' \<le> length c + 16"
proof -
  let ?j = "free_slot c" and ?de = "mk_dirent inum name" and ?N = "length c div 16"
  note de = mk_dirent_fields[OF n(3), of name] and jl = free_slot_le[of c]
  have L: "length c = 16 * ?N" using c by simp
  have len: "length c' = 16 * (if ?j < ?N then ?N else Suc ?N)"
    using c' de(1) jl L by (auto simp: overwrite_def)
  then show "16 dvd length c'" "length c' \<le> length c + 16" using L by auto
  let ?N' = "length c' div 16"
  have N': "?N' = (if ?j < ?N then ?N else Suc ?N)" using len by simp
  have e: "entry c' k = (if k = ?j then ?de else entry c k)" if "k < ?N'" for k
    using entry_overwrite[OF c de(1) jl, of k] that N' c' jl by (auto split: if_splits)
  have no: "\<not> matches (cname name) (entry c k)" if "k < ?N" for k
    using n(1) that by (auto simp: dir_map_def dir_index_def find_upt_None)
  have "dir_map c' nm = ((dir_map c)(cname name \<mapsto> inum)) nm" for nm
  proof (cases "nm = cname name")
    case True
    have "\<not> matches nm (entry c' k)" if "k < ?j" for k using e[of k] no[of k] that jl N' True by (auto split: if_splits)
    moreover have "matches nm (entry c' ?j)" "?j < ?N'" using e[of ?j] de n(2) True jl N' by (auto simp: matches_def)
    ultimately have "dir_index c' nm = Some ?j" by (auto simp: dir_index_def find_upt_Some)
    then show ?thesis using e[of ?j] de jl N' True by (auto simp: dir_map_def)
  next
    case False
    have m: "matches nm (entry c' k) \<longleftrightarrow> k < ?N \<and> matches nm (entry c k)" if "k < ?N'" for k
      using e[OF that] de False free_slot_empty[of c] that N' jl by (auto simp: matches_def split: if_splits)
    have "dir_index c' nm = dir_index c nm"
    proof (cases "dir_index c nm")
      case None
      then have "dir_index c' nm = None" using m by (auto simp: dir_index_def find_upt_None)
      then show ?thesis using None by simp
    next
      case (Some k)
      then have k: "k < ?N" "matches nm (entry c k)" "\<forall>i < k. \<not> matches nm (entry c i)" by (auto simp: dir_index_def find_upt_Some)
      then have "k < ?N'" using N' by auto
      moreover have "\<not> matches nm (entry c' i)" if "i < k" for i using m[of i] k(3) that \<open>k < ?N'\<close> by auto
      ultimately have "dir_index c' nm = Some k" using k m[of k] by (simp add: dir_index_def find_upt_Some)
      then show ?thesis using Some by simp
    qed
    moreover have "entry c' k = entry c k" if "dir_index c' nm = Some k" for k
      using that e[of k] False de by (auto simp: dir_index_def find_upt_Some matches_def split: if_splits)
    ultimately show ?thesis using False by (cases "dir_index c nm") (auto simp: dir_map_def)
  qed
  then show "dir_map c' = (dir_map c)(cname name \<mapsto> inum)" by blast
qed

lemma span_entry: "16 dvd off \<Longrightarrow> span off 16 = 1"
proof -
  assume "16 dvd off"
  then obtain q where q: "off = 16 * q" by (auto simp: dvd_def)
  have "off mod BSIZE = 16 * (q mod 32)" unfolding q using mod_mult_mult1[of 16 q 32] by simp
  then have "off mod BSIZE \<le> 496" by simp
  then have "(off mod BSIZE + 16 + 511) div BSIZE = 1" by (intro div_nat_eqI) auto
  then show ?thesis by (simp add: span_def)
qed

text \<open>
  C14: \<open>dirlink\<close> of a name that is not in the directory: it returns 0 and the map from names to
  inode numbers the directory stands for has exactly the new binding added; the directory is
  well formed again and every file that shares no block with it keeps its contents.
\<close>

theorem dirlink_correct:
  assumes "dir_ok s dp" "dp < length (icache s)" "synced s (icache s ! dp)" "i_inum (icache s ! dp) < sb_ninodes (sb s)"
    "dir_map (dir_content s dp) (cname name) = None" "0 < inum" "inum < 2 ^ 16"
    "i_size (icache s ! dp) + 16 \<le> MAXFILE * BSIZE" "room 7 s" "2 \<le> nfree s"
  shows "\<exists>s'. dirlink dp name inum s = Inr (0, s') \<and> dir_ok s' dp \<and>
    dir_map (dir_content s' dp) = (dir_map (dir_content s dp))(cname name \<mapsto> inum) \<and>
    (\<forall>j. inode_ok s j \<and> owned (blocks s) j \<inter> owned (blocks s) (icache s ! dp) = {} \<longrightarrow>
       inode_ok s' j \<and> contents (blocks s') j = contents (blocks s) j)"
proof -
  let ?c = "dir_content s dp" and ?de = "mk_dirent inum name"
  have d: "fsb_ok s" "inode_ok s (icache s ! dp)" "i_type (icache s ! dp) = T_DIR" "16 dvd length ?c"
    using assms(1) by (simp_all add: dir_ok_def)
  note de = mk_dirent_fields(1)[OF assms(7), of name]
  have look: "dirlookup dp name s = Inr (None, s)"
    using dirlookup_ok[OF assms(1), of name] assms(5) by (cases "dir_index ?c (cname name)") (auto simp: dir_map_def)
  have "entry_offs (i_size (icache s ! dp)) = map (\<lambda>k. 16 * k) [0..<length ?c div 16]"
    using d(4) entry_offs_dvd by simp
  then have emp: "empty_entry dp (entry_offs (i_size (icache s ! dp))) 0 s = Inr (16 * free_slot ?c, s)"
    using empty_entry_scan[OF assms(1) refl, of 0] by (simp add: free_slot_def max_def)
  have off: "16 * free_slot ?c \<le> i_size (icache s ! dp)" using free_slot_le[of ?c] d(4) by (auto simp: dvd_def)
  have sp: "span (16 * free_slot ?c) (length ?de) = 1" using de span_entry by simp
  obtain s' where w: "writei dp ?de (16 * free_slot ?c) s = Inr (16, s')" "wrote_file dp (overwrite (16 * free_slot ?c) ?de ?c) s s'"
    using writei_ok[OF d(1) assms(2) d(2) assms(3) _ assms(4) off, of ?de 0] d(3) off assms(8-10) de sp by auto
  note m = dir_map_link[OF d(4) assms(5-7) refl]
  have "dirlink dp name inum s = Inr (0, s')" using look emp w(1) by (simp add: dirlink_def)
  moreover have "dir_ok s' dp" using w(2) m(2) d(3) by (auto simp: wrote_file_def dir_ok_def)
  moreover have "dir_map (dir_content s' dp) = (dir_map ?c)(cname name \<mapsto> inum)" using w(2) m(1) by (simp add: wrote_file_def)
  moreover have "inode_ok s' j \<and> contents (blocks s') j = contents (blocks s) j"
    if "inode_ok s j" "owned (blocks s) j \<inter> owned (blocks s) (icache s ! dp) = {}" for j
    using w(2) that by (simp add: wrote_file_def)
  ultimately show ?thesis by blast
qed

text \<open>
  \<open>dirlink\<close> of a name that is already in the directory returns -1 and changes nothing on the
  disk; the reference it took to look the name up is dropped again.
\<close>

theorem dirlink_refuses_duplicate:
  assumes "dir_ok s dp" "icache_ok s" "i < NINODE" "i_ref (icache s ! i) = 0"
    "dir_map (dir_content s dp) (cname name) \<noteq> None"
  shows "\<exists>s'. dirlink dp name inum s = Inr (-1, s') \<and> blocks s' = blocks s \<and> hdr s' = hdr s \<and>
    (\<forall>j < NINODE. i_ref (icache s' ! j) = i_ref (icache s ! j))"
proof -
  obtain k where k: "dir_index (dir_content s dp) (cname name) = Some k"
    using assms(5) by (auto simp: dir_map_def)
  let ?n = "de_inum (entry (dir_content s dp) k)" and ?dev = "i_dev (icache s ! dp)"
  obtain ip s1 where g: "iget ?dev ?n s = Inr (ip, s1)" "iget_result ?dev ?n ip s s1"
    using iget_ok[OF assms(2)] assms(3,4) by blast
  from g(2) obtain x where eq: "s1 = s\<lparr>icache := x\<rparr>" unfolding iget_result_def by blast
  have g': "icache_ok s1" "cached s1 ?dev ?n ip" "\<And>j. j \<noteq> ip \<Longrightarrow> icache s1 ! j = icache s ! j"
    "if cached s ?dev ?n ip then icache s1 ! ip = (icache s ! ip)\<lparr>i_ref := i_ref (icache s ! ip) + 1\<rparr>
      else i_ref (icache s1 ! ip) = 1 \<and> \<not> i_valid (icache s1 ! ip) \<and> i_ref (icache s ! ip) = 0"
    using g(2) unfolding iget_result_def by (auto split: if_splits)
  have ip: "ip < length (icache s1)" using g'(2) icache_okD(1)[OF g'(1)] by (simp add: cached_def)
  have r: "i_ref (icache s1 ! ip) = i_ref (icache s ! ip) + 1" using g'(4) by (auto split: if_splits)
  have "\<not> (i_ref (icache s1 ! ip) = 1 \<and> i_valid (icache s1 ! ip) \<and> i_nlink (icache s1 ! ip) = 0)"
    using g'(4) by (auto simp: cached_def split: if_splits)
  then have "iput ip s1 = Inr (upd_inode ip (\<lambda>i. i\<lparr>i_ref := i_ref i - 1\<rparr>) s1)"
    unfolding iput_def Let_def by (simp only: if_False kbind_simps)
  then have "dirlink dp name inum s = Inr (-1, upd_inode ip (\<lambda>i. i\<lparr>i_ref := i_ref i - 1\<rparr>) s1)"
    using g(1) k dirlookup_ok[OF assms(1), of name] by (simp add: dirlink_def)
  moreover have "\<forall>j < NINODE. i_ref (icache (upd_inode ip (\<lambda>i. i\<lparr>i_ref := i_ref i - 1\<rparr>) s1) ! j) = i_ref (icache s ! j)"
    using g'(3) r ip by (auto simp: nth_list_update)
  ultimately show ?thesis unfolding eq by auto
qed

section \<open>Path elements\<close>

lemma skip_slashes_replicate: "skip_slashes (replicate n SLASH @ p) = skip_slashes p"
  by (induction n) auto

lemma skip_slashes_elem: "SLASH \<notin> set e \<Longrightarrow> e \<noteq> [] \<Longrightarrow> skip_slashes (e @ p) = e @ p"
  by (cases e) auto

lemma path_elem_elem: "SLASH \<notin> set e \<Longrightarrow> p = [] \<or> hd p = SLASH \<Longrightarrow> path_elem (e @ p) = (e, p)"
proof (induction e)
  case Nil
  then show ?case by (cases p) auto
qed auto

text \<open>The names \<open>namex\<close> looks up, one after the other.\<close>

function visited :: "byte list \<Rightarrow> byte list \<Rightarrow> byte list list" where
  "visited path name = (case skipelem path name of None \<Rightarrow> [] | Some (path', name') \<Rightarrow> cname name' # visited path' name')"
  by pat_completeness auto
termination by (relation "measure (\<lambda>(path, name). length path)") (auto dest: skipelem_shorter)

declare visited.simps [simp del]

lemma cname_written:
  assumes "0 \<notin> set e" "length name = DIRSIZ"
  shows "cname (if DIRSIZ \<le> length e then overwrite 0 (take DIRSIZ e) name else overwrite (length e) [0] (overwrite 0 e name)) = take DIRSIZ e"
    and "length (if DIRSIZ \<le> length e then overwrite 0 (take DIRSIZ e) name else overwrite (length e) [0] (overwrite 0 e name)) = DIRSIZ"
proof -
  have nz: "takeWhile (\<lambda>b. b \<noteq> 0) (take k e) = take k e" for k
    using assms(1) by (intro takeWhile_eq_all_conv[THEN iffD2]) (auto dest: in_set_takeD)
  show "cname (if DIRSIZ \<le> length e then overwrite 0 (take DIRSIZ e) name else overwrite (length e) [0] (overwrite 0 e name)) = take DIRSIZ e"
  proof (cases "DIRSIZ \<le> length e")
    case True
    then show ?thesis using assms(2) nz[of DIRSIZ] by (simp add: cname_def overwrite_def)
  next
    case False
    then have "overwrite (length e) [0] (overwrite 0 e name) = e @ [0] @ drop (length e + 1) name"
      using assms(2) by (simp add: overwrite_def)
    moreover have "takeWhile (\<lambda>b. b \<noteq> 0) (e @ [0] @ zs) = e" for zs
      using assms(1) by (subst takeWhile_append2) auto
    ultimately show ?thesis using False by (simp add: cname_def take_Cons')
  qed
  show "length (if DIRSIZ \<le> length e then overwrite 0 (take DIRSIZ e) name else overwrite (length e) [0] (overwrite 0 e name)) = DIRSIZ"
    using assms(2) by (simp add: overwrite_def)
qed

text \<open>A path made of elements, each after one or more slashes, with slashes at the end.\<close>

definition path_of :: "(nat \<times> byte list) list \<Rightarrow> nat \<Rightarrow> byte list" where
  "path_of es k = concat (map (\<lambda>(n, e). replicate (Suc n) SLASH @ e) es) @ replicate k SLASH"

lemma skip_path_of: "path_of es k = [] \<or> hd (path_of es k) = SLASH"
  by (cases es; cases k) (auto simp: path_of_def)

lemma skip_all_slashes: "skip_slashes (replicate k SLASH) = []"
  using skip_slashes_replicate[of k "[]"] by simp

lemma visited_skip: "visited (skip_slashes p) name = visited p name"
proof -
  have "skip_slashes (skip_slashes p) = skip_slashes p"
    by (induction p rule: skip_slashes.induct) auto
  then have "skipelem (skip_slashes p) name = skipelem p name" by (simp add: skipelem_def)
  then show ?thesis by (subst (1 2) visited.simps) simp
qed

lemma visited_path:
  "\<forall>(n, e) \<in> set es. e \<noteq> [] \<and> SLASH \<notin> set e \<and> 0 \<notin> set e \<Longrightarrow> length name = DIRSIZ \<Longrightarrow>
   visited (path_of es k) name = map (\<lambda>(n, e). take DIRSIZ e) es"
proof (induction es arbitrary: name)
  case Nil
  then show ?case by (subst visited.simps) (simp add: skipelem_def path_of_def skip_all_slashes)
next
  case (Cons x es)
  obtain n e where x: "x = (n, e)" by (cases x)
  have e: "e \<noteq> []" "SLASH \<notin> set e" "0 \<notin> set e" using Cons.prems x by auto
  have p: "path_of (x # es) k = replicate (Suc n) SLASH @ e @ path_of es k" by (simp add: path_of_def x)
  have "skip_slashes (path_of (x # es) k) = e @ path_of es k"
    unfolding p skip_slashes_replicate using e by (intro skip_slashes_elem)
  moreover have "path_elem (e @ path_of es k) = (e, path_of es k)"
    using skip_path_of[of es k] e(2) by (intro path_elem_elem) auto
  ultimately have "skipelem (path_of (x # es) k) name = Some (skip_slashes (path_of es k),
     if DIRSIZ \<le> length e then overwrite 0 (take DIRSIZ e) name else overwrite (length e) [0] (overwrite 0 e name))"
    using e(1) by (simp add: skipelem_def Let_def)
  then show ?case using Cons cname_written[OF e(3) Cons.prems(2)] x
    by (subst visited.simps) (simp add: visited_skip del: if_split)
qed

text \<open>
  the elements \<open>skipelem\<close> delivers for a path: any path built from non-empty elements without
  slash and NUL, each preceded by one or more slashes, possibly ending in slashes, is split into
  exactly these elements, each cut to the 14 bytes a directory entry holds.
\<close>

theorem skipelem_splits_path:
  assumes "\<forall>(n, e) \<in> set es. e \<noteq> [] \<and> SLASH \<notin> set e \<and> 0 \<notin> set e" "length name = DIRSIZ"
  shows "visited (path_of es k) name = map (\<lambda>(n, e). take DIRSIZ e) es"
  by (rule visited_path[OF assms])

section \<open>An empty directory\<close>

lemma sample_dir:
  "dir_ok (sample_fs T_DIR) 0" "dir_content (sample_fs T_DIR) 0 = []"
  using sample_fs_ok(1,3)[of T_DIR] by (simp_all add: dir_ok_def contents_def)

theorem dirlink_correct_witness:
  "\<exists>s'. dirlink 0 (bytes_of ''readme'') 7 (sample_fs T_DIR) = Inr (0, s') \<and>
     dir_map (dir_content s' 0) (cname (bytes_of ''readme'')) = Some 7 \<and> dir_ok s' 0"
proof -
  have e: "dir_map [] nm = None" for nm by (simp add: dir_map_def dir_index_def)
  have r: "room 7 (sample_fs T_DIR)" using sample_fs_ok(5) by (rule room_mono) simp
  have n: "2 \<le> nfree (sample_fs T_DIR)" using sample_fs_ok(6)[of T_DIR] by simp
  have "\<exists>s'. dirlink 0 (bytes_of ''readme'') 7 (sample_fs T_DIR) = Inr (0, s') \<and> dir_ok s' 0 \<and>
    dir_map (dir_content s' 0) = (dir_map (dir_content (sample_fs T_DIR) 0))(cname (bytes_of ''readme'') \<mapsto> 7)"
    using dirlink_correct[OF sample_dir(1) _ _ _ _ _ _ _ r n, of "bytes_of ''readme''" 7] sample_fs_ok(4)[of T_DIR] sample_dir(2) e
    by auto
  then show ?thesis by auto
qed

theorem dirlookup_correct_witness:
  "dirlookup 0 (bytes_of ''readme'') (sample_fs T_DIR) = Inr (None, sample_fs T_DIR)"
proof -
  have "\<exists>i < NINODE. i_ref (icache (sample_fs T_DIR) ! i) = 0" by (intro exI[of _ 1]) (simp add: free_inode_def)
  from dirlookup_correct[OF sample_dir(1) sample_fs_ok(7) this, of "bytes_of ''readme''"] show ?thesis
    by (simp add: sample_dir(2)[simplified] dir_map_def dir_index_def)
qed

theorem skipelem_splits_path_witness:
  "visited (bytes_of ''//usr/bin/sh/'') (replicate 14 0) = [bytes_of ''usr'', bytes_of ''bin'', bytes_of ''sh'']"
proof -
  let ?es = "[(1 :: nat, bytes_of ''usr''), (0, bytes_of ''bin''), (0, bytes_of ''sh'')]"
  have "bytes_of ''//usr/bin/sh/'' = path_of ?es 1" by (simp add: path_of_def bytes_of_def)
  moreover have "visited (path_of ?es 1) (replicate 14 0) = map (\<lambda>(n, e). take DIRSIZ e) ?es"
    by (rule skipelem_splits_path) (auto simp: bytes_of_def)
  ultimately show ?thesis by (simp add: bytes_of_def)
qed

end
