(* ===== verification/Kern.thy ===== *)
theory Kern
  imports Fs_Dir Pipe
begin

text \<open>
  Processes and open files (\<open>proc.c\<close>, \<open>file.c\<close>, \<open>pipealloc\<close> of \<open>pipe.c\<close>, the transaction brackets of
  \<open>log.c\<close> at block level). A pointer to a table entry is its index. A function that runs under
  \<open>ptable.lock\<close> (or \<open>ftable.lock\<close>) is one step. What the page allocator and the page tables
  return (\<open>kalloc\<close>, \<open>setupkvm\<close>, \<open>copyuvm\<close>, \<open>allocuvm\<close>, \<open>deallocuvm\<close>) is an argument. The process id
  counter is an integer (the C \<open>int\<close> is exhausted after \<open>2 ^ 31\<close> forks only).
\<close>

section \<open>State\<close>

abbreviation (input) NPROC :: nat where "NPROC \<equiv> 64"
abbreviation (input) NOFILE :: nat where "NOFILE \<equiv> 16"
abbreviation (input) NFILE :: nat where "NFILE \<equiv> 100"

datatype filetype = FD_NONE | FD_PIPE | FD_INODE

record open_file =
  f_type :: filetype
  f_ref :: int
  f_readable :: bool
  f_writable :: bool
  f_pipe :: nat
  f_ip :: nat
  f_off :: nat

datatype procstate = UNUSED | EMBRYO | SLEEPING | RUNNABLE | RUNNING | ZOMBIE

text \<open>Sleep channels are addresses: of a process, of a counter of a pipe, of \<open>ticks\<close>, or others.\<close>

datatype chan = NoChan | ProcChan nat | PipeRead nat | PipeWrite nat | TicksChan | OtherChan nat

record trapframe =
  tf_eax :: u32
  tf_esp :: u32
  tf_eip :: u32
  tf_eflags :: u32

record proc =
  p_sz :: u32
  p_pgdir :: "nat option"
  p_kstack :: "nat option"
  p_state :: procstate
  p_pid :: int
  p_parent :: "nat option"
  p_tf :: trapframe
  p_chan :: chan
  p_killed :: bool
  p_ofile :: "nat option list"
  p_cwd :: "nat option"
  p_name :: "byte list"

record 'd kern =
  fs :: "'d fsys"
  ftable :: "open_file list"
  pipes :: "nat \<Rightarrow> pipe option"
  ptable :: "proc list"
  nextpid :: int
  initproc :: nat
  ticks :: u32

abbreviation upd_file :: "nat \<Rightarrow> (open_file \<Rightarrow> open_file) \<Rightarrow> 'd kern \<Rightarrow> 'd kern" where
  "upd_file f g k \<equiv> k\<lparr>ftable := (ftable k)[f := g (ftable k ! f)]\<rparr>"

abbreviation upd_proc :: "nat \<Rightarrow> (proc \<Rightarrow> proc) \<Rightarrow> 'd kern \<Rightarrow> 'd kern" where
  "upd_proc i g k \<equiv> k\<lparr>ptable := (ptable k)[i := g (ptable k ! i)]\<rparr>"

text \<open>A part of the kernel that acts on the file system only.\<close>

definition in_fs :: "('d fsys \<Rightarrow> ('a \<times> 'd fsys) kernel) \<Rightarrow> 'd kern \<Rightarrow> ('a \<times> 'd kern) kernel" where
  "in_fs g k = kbind (g (fs k)) (\<lambda>(a, s). Inr (a, k\<lparr>fs := s\<rparr>))"

definition do_fs :: "('d fsys \<Rightarrow> 'd fsys kernel) \<Rightarrow> 'd kern \<Rightarrow> 'd kern kernel" where
  "do_fs g k = kbind (g (fs k)) (\<lambda>s. Inr (k\<lparr>fs := s\<rparr>))"

section \<open>Transactions\<close>

text \<open>
  \<open>begin_op\<close> and \<open>end_op\<close> on the block level: the commit of the last operation empties the header
  and leaves the blocks as they are seen.
\<close>

definition fs_begin_op :: "'d fsys \<Rightarrow> 'd fsys kernel" where
  "fs_begin_op s =
     (if int LOGSIZE < int (length (hdr s)) + (ops s + 1) * int MAXOPBLOCKS then blocked else Inr (s\<lparr>ops := ops s + 1\<rparr>))"

definition fs_end_op :: "'d fsys \<Rightarrow> 'd fsys kernel" where
  "fs_end_op s = Inr (if ops s - 1 = 0 then s\<lparr>ops := 0, hdr := []\<rparr> else s\<lparr>ops := ops s - 1\<rparr>)"

section \<open>Sleep and wakeup\<close>

definition wakeup1 :: "chan \<Rightarrow> 'd kern \<Rightarrow> 'd kern" where
  "wakeup1 ch k =
     k\<lparr>ptable := map (\<lambda>p. if p_state p = SLEEPING \<and> p_chan p = ch then p\<lparr>p_state := RUNNABLE\<rparr> else p) (ptable k)\<rparr>"

definition wakeup :: "chan \<Rightarrow> 'd kern \<Rightarrow> 'd kern" where
  "wakeup ch k = wakeup1 ch k"

definition sched :: "nat \<Rightarrow> 'd kern \<Rightarrow> 'd kern kernel" where
  "sched me k = (if p_state (ptable k ! me) = RUNNING then panic ''sched running'' else Inr k)"

text \<open>\<open>sleep\<close> up to the switch to the scheduler, and what it does when it is switched back.\<close>

definition sleep :: "nat \<Rightarrow> chan \<Rightarrow> 'd kern \<Rightarrow> 'd kern kernel" where
  "sleep me ch k = sched me (upd_proc me (\<lambda>p. p\<lparr>p_chan := ch, p_state := SLEEPING\<rparr>) k)"

definition sleep_return :: "nat \<Rightarrow> 'd kern \<Rightarrow> 'd kern" where
  "sleep_return me k = upd_proc me (\<lambda>p. p\<lparr>p_chan := NoChan\<rparr>) k"

definition yield :: "nat \<Rightarrow> 'd kern \<Rightarrow> 'd kern kernel" where
  "yield me k = sched me (upd_proc me (\<lambda>p. p\<lparr>p_state := RUNNABLE\<rparr>) k)"

text \<open>
  The scheduler dispatches entry \<open>i\<close> when its scan finds it runnable; a process that was switched
  out inside \<open>sleep\<close> first clears its channel, still under the lock.
\<close>

definition dispatch :: "nat \<Rightarrow> 'd kern \<Rightarrow> 'd kern option" where
  "dispatch i k =
     (if p_state (ptable k ! i) \<noteq> RUNNABLE then None
      else Some (sleep_return i (upd_proc i (\<lambda>p. p\<lparr>p_state := RUNNING\<rparr>) k)))"

section \<open>Open files\<close>

definition filealloc :: "'d kern \<Rightarrow> nat option \<times> 'd kern" where
  "filealloc k =
     (case List.find (\<lambda>f. f_ref (ftable k ! f) = 0) [0..<length (ftable k)] of
        None \<Rightarrow> (None, k)
      | Some f \<Rightarrow> (Some f, upd_file f (\<lambda>x. x\<lparr>f_ref := 1\<rparr>) k))"

definition filedup :: "nat \<Rightarrow> 'd kern \<Rightarrow> 'd kern kernel" where
  "filedup f k =
     (if f_ref (ftable k ! f) < 1 then panic ''filedup'' else Inr (upd_file f (\<lambda>x. x\<lparr>f_ref := f_ref x + 1\<rparr>) k))"

text \<open>\<open>pipeclose\<close> with its wake-ups; the page of a pipe that both ends have left is freed.\<close>

definition close_pipe :: "nat \<Rightarrow> bool \<Rightarrow> 'd kern \<Rightarrow> 'd kern kernel" where
  "close_pipe i writable k =
     (case pipes k i of
        None \<Rightarrow> panic ''pipe freed''
      | Some p \<Rightarrow>
          (case pipeclose p writable of (p', wake_r, wake_w, free) \<Rightarrow>
             let k1 = (if wake_r then wakeup (PipeRead i) k else k);
                 k2 = (if wake_w then wakeup (PipeWrite i) k1 else k1)
             in Inr (k2\<lparr>pipes := (pipes k2)(i := if free then None else Some p')\<rparr>)))"

definition fileclose :: "nat \<Rightarrow> 'd kern \<Rightarrow> 'd kern kernel" where
  "fileclose f k =
     (let ff = ftable k ! f
      in if f_ref ff < 1 then panic ''fileclose''
         else if 0 < f_ref ff - 1 then Inr (upd_file f (\<lambda>x. x\<lparr>f_ref := f_ref x - 1\<rparr>) k)
         else let k1 = upd_file f (\<lambda>x. x\<lparr>f_ref := 0, f_type := FD_NONE\<rparr>) k
              in case f_type ff of
                   FD_PIPE \<Rightarrow> close_pipe (f_pipe ff) (f_writable ff) k1
                 | FD_INODE \<Rightarrow>
                     kbind (do_fs fs_begin_op k1) (\<lambda>k2.
                     kbind (do_fs (iput (f_ip ff)) k2) (\<lambda>k3. do_fs fs_end_op k3))
                 | FD_NONE \<Rightarrow> Inr k1)"

definition filestat :: "nat \<Rightarrow> 'd kern \<Rightarrow> (stat option \<times> 'd kern) kernel" where
  "filestat f k =
     (let ff = ftable k ! f
      in if f_type ff = FD_INODE then
           kbind (do_fs (ilock (f_ip ff)) k) (\<lambda>k1.
             let st = stati (f_ip ff) (fs k1) in kbind (do_fs (iunlock (f_ip ff)) k1) (\<lambda>k2. Inr (Some st, k2)))
         else Inr (None, k))"

text \<open>
  One run of a pipe call by process \<open>me\<close>: its wake-ups, and its own sleep when it has to wait. A
  writer that slept is resumed on the bytes it has left.
\<close>

definition read_pipe :: "nat \<Rightarrow> nat \<Rightarrow> int \<Rightarrow> 'd kern \<Rightarrow> (run \<times> byte list \<times> 'd kern) kernel" where
  "read_pipe me i n k =
     (case pipes k i of
        None \<Rightarrow> panic ''pipe freed''
      | Some p \<Rightarrow>
          (case piperead (p_killed (ptable k ! me)) n p of (p', bs, out, wake) \<Rightarrow>
             let k1 = (if wake then wakeup (PipeWrite i) k else k)\<lparr>pipes := (pipes k)(i := Some p')\<rparr>
             in if out = Sleep then kbind (sleep me (PipeRead i) k1) (\<lambda>k2. Inr (out, bs, k2)) else Inr (out, bs, k1)))"

definition write_pipe :: "nat \<Rightarrow> nat \<Rightarrow> int \<Rightarrow> byte list \<Rightarrow> 'd kern \<Rightarrow> (run \<times> byte list \<times> 'd kern) kernel" where
  "write_pipe me i n bs k =
     (case pipes k i of
        None \<Rightarrow> panic ''pipe freed''
      | Some p \<Rightarrow>
          (case pipewrite_loop (p_killed (ptable k ! me)) n bs p of (p', rest, out, wake) \<Rightarrow>
             let k1 = (if wake then wakeup (PipeRead i) k else k)\<lparr>pipes := (pipes k)(i := Some p')\<rparr>
             in if out = Sleep then kbind (sleep me (PipeWrite i) k1) (\<lambda>k2. Inr (out, rest, k2)) else Inr (out, rest, k1)))"

text \<open>
  \<open>fileread\<close>: the bytes are those stored at \<open>addr\<close>. A negative \<open>n\<close> reaches \<open>readi\<close> as an unsigned
  number.
\<close>

definition fileread :: "nat \<Rightarrow> nat \<Rightarrow> int \<Rightarrow> 'd kern \<Rightarrow> (run \<times> byte list \<times> 'd kern) kernel" where
  "fileread me f n k =
     (let ff = ftable k ! f
      in if \<not> f_readable ff then Inr (Return (-1), [], k)
         else case f_type ff of
                FD_PIPE \<Rightarrow> read_pipe me (f_pipe ff) n k
              | FD_INODE \<Rightarrow>
                  kbind (do_fs (ilock (f_ip ff)) k) (\<lambda>k1.
                  kbind (readi (f_ip ff) (f_off ff) (nat (n mod 2 ^ 32)) (fs k1)) (\<lambda>(r, bs, s).
                    let k2 = k1\<lparr>fs := s\<rparr>;
                        k3 = (if 0 < r then upd_file f (\<lambda>x. x\<lparr>f_off := (f_off x + nat r) mod 2 ^ 32\<rparr>) k2 else k2)
                    in kbind (do_fs (iunlock (f_ip ff)) k3) (\<lambda>k4. Inr (Return r, bs, k4))))
              | FD_NONE \<Rightarrow> panic ''fileread'')"

text \<open>
  \<open>filewrite\<close>: \<open>n\<close> is the length of the user's bytes, or negative (then there are none to write).
  The loop writes at most \<open>wmax\<close> bytes in one transaction.
\<close>

definition wmax :: nat where
  "wmax = ((LOGSIZE - 1 - 1 - 2) div 2) * 512"

definition write_chunk :: "nat \<Rightarrow> byte list \<Rightarrow> 'd kern \<Rightarrow> (int \<times> 'd kern) kernel" where
  "write_chunk f bs k =
     (let ff = ftable k ! f
      in kbind (do_fs fs_begin_op k) (\<lambda>k1.
         kbind (do_fs (ilock (f_ip ff)) k1) (\<lambda>k2.
         kbind (in_fs (writei (f_ip ff) bs (f_off ff)) k2) (\<lambda>(r, k3).
           let k4 = (if 0 < r then upd_file f (\<lambda>x. x\<lparr>f_off := (f_off x + nat r) mod 2 ^ 32\<rparr>) k3 else k3)
           in kbind (do_fs (iunlock (f_ip ff)) k4) (\<lambda>k5.
              kbind (do_fs fs_end_op k5) (\<lambda>k6. Inr (r, k6)))))))"

function write_loop :: "nat \<Rightarrow> byte list \<Rightarrow> 'd kern \<Rightarrow> (bool \<times> 'd kern) kernel" where
  "write_loop f bs k =
     (if bs = [] then Inr (True, k)
      else let n1 = min (length bs) wmax
           in kbind (write_chunk f (take n1 bs) k) (\<lambda>(r, k1).
                if r < 0 then Inr (False, k1)
                else if r \<noteq> int n1 then panic ''short filewrite''
                else write_loop f (drop n1 bs) k1))"
  by pat_completeness auto
termination by (relation "measure (\<lambda>(f, bs, k). length bs)") (auto simp: wmax_def min_def)

declare write_loop.simps [simp del]

definition filewrite :: "nat \<Rightarrow> nat \<Rightarrow> int \<Rightarrow> byte list \<Rightarrow> 'd kern \<Rightarrow> (run \<times> byte list \<times> 'd kern) kernel" where
  "filewrite me f n bs k =
     (let ff = ftable k ! f
      in if \<not> f_writable ff then Inr (Return (-1), [], k)
         else case f_type ff of
                FD_PIPE \<Rightarrow> write_pipe me (f_pipe ff) n bs k
              | FD_INODE \<Rightarrow> kbind (write_loop f bs k) (\<lambda>(ok, k1). Inr (Return (if ok \<and> 0 \<le> n then n else -1), [], k1))
              | FD_NONE \<Rightarrow> panic ''filewrite'')"

text \<open>\<open>pipealloc\<close>; \<open>page\<close> is what \<open>kalloc\<close> returns, with the bytes found in it.\<close>

definition pipealloc :: "(nat \<times> (nat \<Rightarrow> byte)) option \<Rightarrow> 'd kern \<Rightarrow> ((nat \<times> nat) option \<times> 'd kern) kernel" where
  "pipealloc page k =
     (case filealloc k of
        (None, k1) \<Rightarrow> Inr (None, k1)
      | (Some f0, k1) \<Rightarrow>
          (case filealloc k1 of
             (None, k2) \<Rightarrow> kbind (fileclose f0 k2) (\<lambda>k3. Inr (None, k3))
           | (Some f1, k2) \<Rightarrow>
               (case page of
                  None \<Rightarrow> kbind (fileclose f0 k2) (\<lambda>k3. kbind (fileclose f1 k3) (\<lambda>k4. Inr (None, k4)))
                | Some (i, junk) \<Rightarrow>
                    Inr (Some (f0, f1),
                      upd_file f1 (\<lambda>x. x\<lparr>f_type := FD_PIPE, f_readable := False, f_writable := True, f_pipe := i\<rparr>)
                        (upd_file f0 (\<lambda>x. x\<lparr>f_type := FD_PIPE, f_readable := True, f_writable := False, f_pipe := i\<rparr>)
                          (k2\<lparr>pipes := (pipes k2)(i := Some (pipe_init junk))\<rparr>))))))"

end
