(* ===== verification/Proc.thy ===== *)
theory Proc
  imports Kern
begin

text \<open>
  Processes (\<open>proc.c\<close>): creation, exit, waiting, killing. The results of the memory routines are
  arguments: \<open>kst\<close> is what \<open>kalloc\<close> returns for the kernel stack, \<open>pgd\<close> what \<open>setupkvm\<close> or \<open>copyuvm\<close>
  returns. Results are in \<open>Proc_Inv\<close>.
\<close>

section \<open>Creation\<close>

definition allocproc :: "nat option \<Rightarrow> 'd kern \<Rightarrow> nat option \<times> 'd kern" where
  "allocproc kst k =
     (case List.find (\<lambda>i. p_state (ptable k ! i) = UNUSED) [0..<length (ptable k)] of
        None \<Rightarrow> (None, k)
      | Some i \<Rightarrow>
          let k1 = (upd_proc i (\<lambda>p. p\<lparr>p_state := EMBRYO, p_pid := nextpid k\<rparr>) k)\<lparr>nextpid := nextpid k + 1\<rparr>
          in case kst of
               None \<Rightarrow> (None, upd_proc i (\<lambda>p. p\<lparr>p_kstack := None, p_state := UNUSED\<rparr>) k1)
             | Some a \<Rightarrow> (Some i, upd_proc i (\<lambda>p. p\<lparr>p_kstack := Some a\<rparr>) k1))"

text \<open>\<open>safestrcpy\<close> into the 16 bytes of \<open>name\<close>: at most 15 bytes of the string, then a NUL; what follows stays.\<close>

definition set_name :: "byte list \<Rightarrow> byte list \<Rightarrow> byte list" where
  "set_name old s =
     (let c = take 15 (takeWhile (\<lambda>b. b \<noteq> 0) s) @ [0] in c @ drop (length c) old)"

definition FL_IF :: u32 where "FL_IF = 0x200"

definition userinit :: "nat option \<Rightarrow> nat option \<Rightarrow> 'd kern \<Rightarrow> 'd kern kernel" where
  "userinit kst pgd k =
     (case allocproc kst k of
        (None, _) \<Rightarrow> panic ''null proc''
      | (Some i, k1) \<Rightarrow>
          (case pgd of
             None \<Rightarrow> panic ''userinit: out of memory?''
           | Some d \<Rightarrow>
               let k2 = (upd_proc i (\<lambda>p. p\<lparr>p_pgdir := Some d, p_sz := 4096,
                     p_tf := \<lparr>tf_eax = 0, tf_esp = 4096, tf_eip = 0, tf_eflags = FL_IF\<rparr>,
                     p_name := set_name (p_name p) (bytes_of ''initcode'')\<rparr>) k1)\<lparr>initproc := i\<rparr>
               in kbind (in_fs (namei 0 [SLASH]) k2) (\<lambda>(ip, k3).
                    Inr (upd_proc i (\<lambda>p. p\<lparr>p_cwd := ip, p_state := RUNNABLE\<rparr>) k3))))"

text \<open>
  \<open>growproc\<close>; \<open>alloc\<close> and \<open>dealloc\<close> are \<open>allocuvm\<close> and \<open>deallocuvm\<close> on the process's page table, from
  the old and the new size to the size reached, 0 on failure.
\<close>

definition growproc :: "(u32 \<Rightarrow> u32 \<Rightarrow> u32) \<Rightarrow> (u32 \<Rightarrow> u32 \<Rightarrow> u32) \<Rightarrow> nat \<Rightarrow> int \<Rightarrow> 'd kern \<Rightarrow> int \<times> 'd kern" where
  "growproc alloc dealloc me n k =
     (let sz = p_sz (ptable k ! me);
          sz' = (if 0 < n then alloc sz (sz + of_int n) else if n < 0 then dealloc sz (sz + of_int n) else sz)
      in if n \<noteq> 0 \<and> sz' = 0 then (-1, k) else (0, upd_proc me (\<lambda>p. p\<lparr>p_sz := sz'\<rparr>) k))"

fun fork_files :: "nat list \<Rightarrow> nat \<Rightarrow> nat \<Rightarrow> 'd kern \<Rightarrow> 'd kern kernel" where
  "fork_files [] me np k = Inr k"
| "fork_files (fd # fds) me np k =
     (case p_ofile (ptable k ! me) ! fd of
        None \<Rightarrow> fork_files fds me np k
      | Some f \<Rightarrow>
          kbind (filedup f k) (\<lambda>k1. fork_files fds me np (upd_proc np (\<lambda>p. p\<lparr>p_ofile := (p_ofile p)[fd := Some f]\<rparr>) k1)))"

definition dup_cwd :: "nat \<Rightarrow> 'd kern \<Rightarrow> nat option \<times> 'd kern" where
  "dup_cwd me k =
     (case p_cwd (ptable k ! me) of
        None \<Rightarrow> (None, k)
      | Some ip \<Rightarrow> (case idup ip (fs k) of (ip', s) \<Rightarrow> (Some ip', k\<lparr>fs := s\<rparr>)))"

definition fork :: "nat option \<Rightarrow> nat option \<Rightarrow> nat \<Rightarrow> 'd kern \<Rightarrow> (int \<times> 'd kern) kernel" where
  "fork kst pgd me k =
     (case allocproc kst k of
        (None, k1) \<Rightarrow> Inr (-1, k1)
      | (Some np, k1) \<Rightarrow>
          (case pgd of
             None \<Rightarrow> Inr (-1, upd_proc np (\<lambda>p. p\<lparr>p_pgdir := None, p_kstack := None, p_state := UNUSED\<rparr>) k1)
           | Some d \<Rightarrow>
               let cur = ptable k1 ! me;
                   k2 = upd_proc np (\<lambda>p. p\<lparr>p_pgdir := Some d, p_sz := p_sz cur, p_parent := Some me,
                          p_tf := (p_tf cur)\<lparr>tf_eax := 0\<rparr>\<rparr>) k1
               in kbind (fork_files [0..<NOFILE] me np k2) (\<lambda>k3.
                    case dup_cwd me k3 of (wd, k4) \<Rightarrow>
                      Inr (p_pid (ptable k4 ! np),
                        upd_proc np (\<lambda>p. p\<lparr>p_cwd := wd, p_name := set_name (p_name p) (p_name cur), p_state := RUNNABLE\<rparr>) k4))))"

section \<open>Exit and wait\<close>

fun exit_files :: "nat list \<Rightarrow> nat \<Rightarrow> 'd kern \<Rightarrow> 'd kern kernel" where
  "exit_files [] me k = Inr k"
| "exit_files (fd # fds) me k =
     (case p_ofile (ptable k ! me) ! fd of
        None \<Rightarrow> exit_files fds me k
      | Some f \<Rightarrow>
          kbind (fileclose f k) (\<lambda>k1. exit_files fds me (upd_proc me (\<lambda>p. p\<lparr>p_ofile := (p_ofile p)[fd := None]\<rparr>) k1)))"

definition put_cwd :: "nat \<Rightarrow> 'd kern \<Rightarrow> 'd kern kernel" where
  "put_cwd me k =
     (case p_cwd (ptable k ! me) of
        None \<Rightarrow> panic ''null inode''
      | Some ip \<Rightarrow>
          kbind (do_fs fs_begin_op k) (\<lambda>k1.
          kbind (do_fs (iput ip) k1) (\<lambda>k2.
          kbind (do_fs fs_end_op k2) (\<lambda>k3. Inr (upd_proc me (\<lambda>p. p\<lparr>p_cwd := None\<rparr>) k3)))))"

definition parent_chan :: "nat option \<Rightarrow> chan" where
  "parent_chan q = (case q of None \<Rightarrow> NoChan | Some i \<Rightarrow> ProcChan i)"

text \<open>The loop of \<open>exit\<close> that hands the children to \<open>init\<close>.\<close>

fun reparent :: "nat list \<Rightarrow> nat \<Rightarrow> 'd kern \<Rightarrow> 'd kern" where
  "reparent [] me k = k"
| "reparent (i # is) me k =
     (if p_parent (ptable k ! i) = Some me then
        let k1 = upd_proc i (\<lambda>p. p\<lparr>p_parent := Some (initproc k)\<rparr>) k
        in reparent is me (if p_state (ptable k1 ! i) = ZOMBIE then wakeup1 (ProcChan (initproc k1)) k1 else k1)
      else reparent is me k)"

text \<open>The part of \<open>exit\<close> under \<open>ptable.lock\<close>, up to the switch to the scheduler.\<close>

definition exit_final :: "nat \<Rightarrow> 'd kern \<Rightarrow> 'd kern kernel" where
  "exit_final me k =
     (let k1 = wakeup1 (parent_chan (p_parent (ptable k ! me))) k;
          k2 = reparent [0..<length (ptable k1)] me k1
      in sched me (upd_proc me (\<lambda>p. p\<lparr>p_state := ZOMBIE\<rparr>) k2))"

definition exit :: "nat \<Rightarrow> 'd kern \<Rightarrow> 'd kern kernel" where
  "exit me k =
     (if me = initproc k then panic ''init exiting''
      else kbind (exit_files [0..<NOFILE] me k) (\<lambda>k1.
           kbind (put_cwd me k1) (\<lambda>k2. exit_final me k2)))"

text \<open>One pass of \<open>wait\<close>'s loop: the scan of the table, then the return or the sleep.\<close>

fun wait_scan :: "nat list \<Rightarrow> nat \<Rightarrow> bool \<Rightarrow> 'd kern \<Rightarrow> nat option \<times> bool" where
  "wait_scan [] me havekids k = (None, havekids)"
| "wait_scan (i # is) me havekids k =
     (if p_parent (ptable k ! i) \<noteq> Some me then wait_scan is me havekids k
      else if p_state (ptable k ! i) = ZOMBIE then (Some i, True)
      else wait_scan is me True k)"

definition wait :: "nat \<Rightarrow> 'd kern \<Rightarrow> (run \<times> 'd kern) kernel" where
  "wait me k =
     (case wait_scan [0..<length (ptable k)] me False k of
        (Some i, _) \<Rightarrow>
          Inr (Return (p_pid (ptable k ! i)),
            upd_proc i (\<lambda>p. p\<lparr>p_kstack := None, p_pid := 0, p_parent := None, p_name := (p_name p)[0 := 0],
               p_killed := False, p_state := UNUSED\<rparr>) k)
      | (None, havekids) \<Rightarrow>
          if \<not> havekids \<or> p_killed (ptable k ! me) then Inr (Return (-1), k)
          else kbind (sleep me (ProcChan me) k) (\<lambda>k1. Inr (Sleep, k1)))"

definition kill :: "int \<Rightarrow> 'd kern \<Rightarrow> int \<times> 'd kern" where
  "kill pid k =
     (case List.find (\<lambda>i. p_pid (ptable k ! i) = pid) [0..<length (ptable k)] of
        None \<Rightarrow> (-1, k)
      | Some i \<Rightarrow>
          (0, upd_proc i (\<lambda>p. p\<lparr>p_killed := True, p_state := (if p_state p = SLEEPING then RUNNABLE else p_state p)\<rparr>) k))"

text \<open>The process system calls of \<open>sysproc.c\<close> on their fetched arguments; one pass of \<open>sys_sleep\<close>'s loop.\<close>

definition sys_getpid :: "nat \<Rightarrow> 'd kern \<Rightarrow> int" where
  "sys_getpid me k = p_pid (ptable k ! me)"

definition sys_sbrk :: "(u32 \<Rightarrow> u32 \<Rightarrow> u32) \<Rightarrow> (u32 \<Rightarrow> u32 \<Rightarrow> u32) \<Rightarrow> nat \<Rightarrow> int \<Rightarrow> 'd kern \<Rightarrow> int \<times> 'd kern" where
  "sys_sbrk alloc dealloc me n k =
     (let addr = sint (p_sz (ptable k ! me)) in case growproc alloc dealloc me n k of (r, k1) \<Rightarrow> (if r < 0 then -1 else addr, k1))"

definition sys_uptime :: "'d kern \<Rightarrow> int" where
  "sys_uptime k = sint (ticks k)"

definition sys_sleep_pass :: "nat \<Rightarrow> u32 \<Rightarrow> u32 \<Rightarrow> 'd kern \<Rightarrow> (run \<times> 'd kern) kernel" where
  "sys_sleep_pass me ticks0 n k =
     (if ticks k - ticks0 < n then
        if p_killed (ptable k ! me) then Inr (Return (-1), k)
        else kbind (sleep me TicksChan k) (\<lambda>k1. Inr (Sleep, k1))
      else Inr (Return 0, k))"

text \<open>The clock interrupt of \<open>trap.c\<close>.\<close>

definition clock_tick :: "'d kern \<Rightarrow> 'd kern" where
  "clock_tick k = wakeup TicksChan (k\<lparr>ticks := ticks k + 1\<rparr>)"

end
