(* ===== verification/Sysfile.thy ===== *)
theory Sysfile
  imports Proc
begin

text \<open>
  System call arguments (\<open>syscall.c\<close>) and the file system calls (\<open>sysfile.c\<close>). The user memory of
  the calling process is a map from addresses to bytes; a pointer argument that the code has
  checked is handed on as the address, a string as its bytes. The file system part of a call is a
  function on the file system, bracketed by a transaction.
\<close>

section \<open>Arguments\<close>

type_synonym umem = "u32 \<Rightarrow> byte"

definition fetchint :: "nat \<Rightarrow> umem \<Rightarrow> u32 \<Rightarrow> 'd kern \<Rightarrow> int option" where
  "fetchint me m addr k =
     (let sz = p_sz (ptable k ! me)
      in if sz \<le> addr \<or> sz < addr + 4 then None
         else Some (sint (get32 (map (\<lambda>i. m (addr + of_nat i)) [0..<4]) 0)))"

text \<open>\<open>fetchstr\<close>: the bytes of the string, without its NUL.\<close>

definition fetchstr :: "nat \<Rightarrow> umem \<Rightarrow> u32 \<Rightarrow> 'd kern \<Rightarrow> byte list option" where
  "fetchstr me m addr k =
     (let sz = p_sz (ptable k ! me)
      in if sz \<le> addr then None
         else case List.find (\<lambda>j. m (addr + of_nat j) = 0) [0..<unat sz - unat addr] of
                None \<Rightarrow> None
              | Some n \<Rightarrow> Some (map (\<lambda>j. m (addr + of_nat j)) [0..<n]))"

definition argint :: "nat \<Rightarrow> umem \<Rightarrow> nat \<Rightarrow> 'd kern \<Rightarrow> int option" where
  "argint me m n k = fetchint me m (tf_esp (p_tf (ptable k ! me)) + 4 + 4 * of_nat n) k"

definition argptr :: "nat \<Rightarrow> umem \<Rightarrow> nat \<Rightarrow> int \<Rightarrow> 'd kern \<Rightarrow> u32 option" where
  "argptr me m n sz k =
     (case argint me m n k of
        None \<Rightarrow> None
      | Some i \<Rightarrow>
          if p_sz (ptable k ! me) \<le> of_int i \<or> p_sz (ptable k ! me) < of_int i + of_int sz then None else Some (of_int i))"

definition argstr :: "nat \<Rightarrow> umem \<Rightarrow> nat \<Rightarrow> 'd kern \<Rightarrow> byte list option" where
  "argstr me m n k = Option.bind (argint me m n k) (\<lambda>addr. fetchstr me m (of_int addr) k)"

text \<open>The descriptor and the file.\<close>

definition argfd :: "nat \<Rightarrow> umem \<Rightarrow> nat \<Rightarrow> 'd kern \<Rightarrow> (nat \<times> nat) option" where
  "argfd me m n k =
     (case argint me m n k of
        None \<Rightarrow> None
      | Some fd \<Rightarrow>
          if fd < 0 \<or> int NOFILE \<le> fd then None
          else map_option (\<lambda>f. (nat fd, f)) (p_ofile (ptable k ! me) ! nat fd))"

section \<open>Descriptors\<close>

definition fdalloc :: "nat \<Rightarrow> nat \<Rightarrow> 'd kern \<Rightarrow> nat option \<times> 'd kern" where
  "fdalloc me f k =
     (case List.find (\<lambda>fd. p_ofile (ptable k ! me) ! fd = None) [0..<NOFILE] of
        None \<Rightarrow> (None, k)
      | Some fd \<Rightarrow> (Some fd, upd_proc me (\<lambda>p. p\<lparr>p_ofile := (p_ofile p)[fd := Some f]\<rparr>) k))"

definition clear_fd :: "nat \<Rightarrow> nat \<Rightarrow> 'd kern \<Rightarrow> 'd kern" where
  "clear_fd me fd k = upd_proc me (\<lambda>p. p\<lparr>p_ofile := (p_ofile p)[fd := None]\<rparr>) k"

definition dup_file :: "nat \<Rightarrow> nat \<Rightarrow> 'd kern \<Rightarrow> (int \<times> 'd kern) kernel" where
  "dup_file me f k =
     (case fdalloc me f k of
        (None, k1) \<Rightarrow> Inr (-1, k1)
      | (Some fd, k1) \<Rightarrow> kbind (filedup f k1) (\<lambda>k2. Inr (int fd, k2)))"

definition sys_dup :: "nat \<Rightarrow> umem \<Rightarrow> 'd kern \<Rightarrow> (int \<times> 'd kern) kernel" where
  "sys_dup me m k = (case argfd me m 0 k of None \<Rightarrow> Inr (-1, k) | Some (_, f) \<Rightarrow> dup_file me f k)"

definition close_fd :: "nat \<Rightarrow> nat \<Rightarrow> nat \<Rightarrow> 'd kern \<Rightarrow> (int \<times> 'd kern) kernel" where
  "close_fd me fd f k = kbind (fileclose f (clear_fd me fd k)) (\<lambda>k1. Inr (0, k1))"

definition sys_close :: "nat \<Rightarrow> umem \<Rightarrow> 'd kern \<Rightarrow> (int \<times> 'd kern) kernel" where
  "sys_close me m k = (case argfd me m 0 k of None \<Rightarrow> Inr (-1, k) | Some (fd, f) \<Rightarrow> close_fd me fd f k)"

text \<open>\<open>sys_read\<close> also gives the address and the bytes stored there.\<close>

definition sys_read :: "nat \<Rightarrow> umem \<Rightarrow> 'd kern \<Rightarrow> (run \<times> (u32 \<times> byte list) \<times> 'd kern) kernel" where
  "sys_read me m k =
     (case (argfd me m 0 k, argint me m 2 k) of
        (Some (_, f), Some n) \<Rightarrow>
          (case argptr me m 1 n k of
             None \<Rightarrow> Inr (Return (-1), (0, []), k)
           | Some p \<Rightarrow> kbind (fileread me f n k) (\<lambda>(r, bs, k1). Inr (r, (p, bs), k1)))
      | _ \<Rightarrow> Inr (Return (-1), (0, []), k))"

definition sys_write :: "nat \<Rightarrow> umem \<Rightarrow> 'd kern \<Rightarrow> (run \<times> byte list \<times> 'd kern) kernel" where
  "sys_write me m k =
     (case (argfd me m 0 k, argint me m 2 k) of
        (Some (_, f), Some n) \<Rightarrow>
          (case argptr me m 1 n k of
             None \<Rightarrow> Inr (Return (-1), [], k)
           | Some p \<Rightarrow> filewrite me f n (map (\<lambda>i. m (p + of_nat i)) [0..<nat n]) k)
      | _ \<Rightarrow> Inr (Return (-1), [], k))"

definition sys_fstat :: "nat \<Rightarrow> umem \<Rightarrow> 'd kern \<Rightarrow> (int \<times> (u32 \<times> stat) option \<times> 'd kern) kernel" where
  "sys_fstat me m k =
     (case (argfd me m 0 k, argptr me m 1 20 k) of
        (Some (_, f), Some p) \<Rightarrow>
          kbind (filestat f k) (\<lambda>(st, k1). Inr (if st = None then -1 else 0, map_option (\<lambda>s. (p, s)) st, k1))
      | _ \<Rightarrow> Inr (-1, None, k))"

section \<open>Links\<close>

definition cwd_of :: "nat \<Rightarrow> 'd kern \<Rightarrow> nat" where
  "cwd_of me k = (case p_cwd (ptable k ! me) of None \<Rightarrow> 0 | Some ip \<Rightarrow> ip)"

text \<open>The label \<open>bad\<close> of \<open>sys_link\<close>, and of \<open>sys_unlink\<close>.\<close>

definition link_bad :: "nat \<Rightarrow> 'd fsys \<Rightarrow> (int \<times> 'd fsys) kernel" where
  "link_bad ip s =
     kbind (ilock ip s) (\<lambda>s1.
     kbind (iupdate ip (upd_inode ip (\<lambda>i. i\<lparr>i_nlink := i_nlink i - 1\<rparr>) s1)) (\<lambda>s2.
     kbind (iunlockput ip s2) (\<lambda>s3.
     kbind (fs_end_op s3) (\<lambda>s4. Inr (-1, s4)))))"

definition unlink_bad :: "nat \<Rightarrow> 'd fsys \<Rightarrow> (int \<times> 'd fsys) kernel" where
  "unlink_bad dp s = kbind (iunlockput dp s) (\<lambda>s1. kbind (fs_end_op s1) (\<lambda>s2. Inr (-1, s2)))"

definition link_to :: "nat \<Rightarrow> nat \<Rightarrow> byte list \<Rightarrow> 'd fsys \<Rightarrow> (int \<times> 'd fsys) kernel" where
  "link_to ip dp name s =
     kbind (ilock dp s) (\<lambda>s1.
     kbind (if i_dev (icache s1 ! dp) \<noteq> i_dev (icache s1 ! ip) then Inr (-1, s1)
            else dirlink dp name (i_inum (icache s1 ! ip)) s1) (\<lambda>(r, s2).
       if r < 0 then kbind (iunlockput dp s2) (\<lambda>s3. link_bad ip s3)
       else kbind (iunlockput dp s2) (\<lambda>s3.
            kbind (iput ip s3) (\<lambda>s4.
            kbind (fs_end_op s4) (\<lambda>s5. Inr (0, s5))))))"

definition link_path :: "nat \<Rightarrow> byte list \<Rightarrow> byte list \<Rightarrow> 'd fsys \<Rightarrow> (int \<times> 'd fsys) kernel" where
  "link_path cwd old new s =
     kbind (fs_begin_op s) (\<lambda>s0.
     kbind (namei cwd old s0) (\<lambda>(r, s1).
       case r of
         None \<Rightarrow> kbind (fs_end_op s1) (\<lambda>s2. Inr (-1, s2))
       | Some ip \<Rightarrow>
           kbind (ilock ip s1) (\<lambda>s2.
             if i_type (icache s2 ! ip) = T_DIR then
               kbind (iunlockput ip s2) (\<lambda>s3. kbind (fs_end_op s3) (\<lambda>s4. Inr (-1, s4)))
             else
               kbind (iupdate ip (upd_inode ip (\<lambda>i. i\<lparr>i_nlink := i_nlink i + 1\<rparr>) s2)) (\<lambda>s3.
               kbind (iunlock ip s3) (\<lambda>s4.
               kbind (nameiparent cwd new (replicate DIRSIZ 0) s4) (\<lambda>((d, name), s5).
                 case d of None \<Rightarrow> link_bad ip s5 | Some dp \<Rightarrow> link_to ip dp name s5))))))"

definition sys_link :: "nat \<Rightarrow> umem \<Rightarrow> 'd kern \<Rightarrow> (int \<times> 'd kern) kernel" where
  "sys_link me m k =
     (case (argstr me m 0 k, argstr me m 1 k) of
        (Some old, Some new) \<Rightarrow> in_fs (link_path (cwd_of me k) old new) k
      | _ \<Rightarrow> Inr (-1, k))"

fun isdirempty_loop :: "nat \<Rightarrow> nat list \<Rightarrow> 'd fsys \<Rightarrow> (bool \<times> 'd fsys) kernel" where
  "isdirempty_loop dp [] s = Inr (True, s)"
| "isdirempty_loop dp (off # offs) s =
     kbind (readi dp off 16 s) (\<lambda>(r, de, s1).
       if r \<noteq> 16 then panic ''isdirempty: readi''
       else if de_inum de \<noteq> 0 then Inr (False, s1)
       else isdirempty_loop dp offs s1)"

definition isdirempty :: "nat \<Rightarrow> 'd fsys \<Rightarrow> (bool \<times> 'd fsys) kernel" where
  "isdirempty dp s = isdirempty_loop dp (drop 2 (entry_offs (i_size (icache s ! dp)))) s"

text \<open>The part of \<open>sys_unlink\<close> that removes the entry at \<open>off\<close> of \<open>dp\<close>, which names the locked \<open>ip\<close>.\<close>

definition unlink_entry :: "nat \<Rightarrow> nat \<Rightarrow> nat \<Rightarrow> 'd fsys \<Rightarrow> (int \<times> 'd fsys) kernel" where
  "unlink_entry dp ip off s =
     kbind (writei dp (replicate 16 0) off s) (\<lambda>(r, s1).
       if r \<noteq> 16 then panic ''unlink: writei''
       else kbind (if i_type (icache s1 ! ip) = T_DIR then
                     iupdate dp (upd_inode dp (\<lambda>i. i\<lparr>i_nlink := i_nlink i - 1\<rparr>) s1)
                   else Inr s1) (\<lambda>s2.
            kbind (iunlockput dp s2) (\<lambda>s3.
            kbind (iupdate ip (upd_inode ip (\<lambda>i. i\<lparr>i_nlink := i_nlink i - 1\<rparr>) s3)) (\<lambda>s4.
            kbind (iunlockput ip s4) (\<lambda>s5.
            kbind (fs_end_op s5) (\<lambda>s6. Inr (0, s6)))))))"

definition unlink_in :: "nat \<Rightarrow> byte list \<Rightarrow> 'd fsys \<Rightarrow> (int \<times> 'd fsys) kernel" where
  "unlink_in dp name s =
     (if namecmp name [46] = 0 \<or> namecmp name [46, 46] = 0 then unlink_bad dp s
      else kbind (dirlookup dp name s) (\<lambda>(found, s1).
             case found of
               None \<Rightarrow> unlink_bad dp s1
             | Some (ip, off) \<Rightarrow>
                 kbind (ilock ip s1) (\<lambda>s2.
                   if sint (i_nlink (icache s2 ! ip)) < 1 then panic ''unlink: nlink < 1''
                   else kbind (if i_type (icache s2 ! ip) = T_DIR then isdirempty ip s2 else Inr (True, s2)) (\<lambda>(empty, s3).
                          if \<not> empty then kbind (iunlockput ip s3) (\<lambda>s4. unlink_bad dp s4)
                          else unlink_entry dp ip off s3))))"

definition unlink_path :: "nat \<Rightarrow> byte list \<Rightarrow> 'd fsys \<Rightarrow> (int \<times> 'd fsys) kernel" where
  "unlink_path cwd path s =
     kbind (fs_begin_op s) (\<lambda>s0.
     kbind (nameiparent cwd path (replicate DIRSIZ 0) s0) (\<lambda>((d, name), s1).
       case d of
         None \<Rightarrow> kbind (fs_end_op s1) (\<lambda>s2. Inr (-1, s2))
       | Some dp \<Rightarrow> kbind (ilock dp s1) (\<lambda>s2. unlink_in dp name s2)))"

definition sys_unlink :: "nat \<Rightarrow> umem \<Rightarrow> 'd kern \<Rightarrow> (int \<times> 'd kern) kernel" where
  "sys_unlink me m k =
     (case argstr me m 0 k of None \<Rightarrow> Inr (-1, k) | Some path \<Rightarrow> in_fs (unlink_path (cwd_of me k) path) k)"

section \<open>Creation\<close>

text \<open>\<open>create\<close> returns the inode locked. \<open>create_new\<close>: the case that the name does not exist.\<close>

definition create_new :: "nat \<Rightarrow> byte list \<Rightarrow> u16 \<Rightarrow> u16 \<Rightarrow> u16 \<Rightarrow> 'd fsys \<Rightarrow> (nat option \<times> 'd fsys) kernel" where
  "create_new dp name ty major minor s =
     kbind (ialloc (i_dev (icache s ! dp)) ty s) (\<lambda>(ip, s1).
     kbind (ilock ip s1) (\<lambda>s2.
     kbind (iupdate ip (upd_inode ip (\<lambda>i. i\<lparr>i_major := major, i_minor := minor, i_nlink := 1\<rparr>) s2)) (\<lambda>s3.
     kbind (if ty = T_DIR then
              kbind (iupdate dp (upd_inode dp (\<lambda>i. i\<lparr>i_nlink := i_nlink i + 1\<rparr>) s3)) (\<lambda>s4.
              kbind (dirlink ip [46] (i_inum (icache s4 ! ip)) s4) (\<lambda>(r, s5).
                if r < 0 then panic ''create dots''
                else kbind (dirlink ip [46, 46] (i_inum (icache s5 ! dp)) s5) (\<lambda>(r, s6).
                  if r < 0 then panic ''create dots'' else Inr s6)))
            else Inr s3) (\<lambda>s7.
     kbind (dirlink dp name (i_inum (icache s7 ! ip)) s7) (\<lambda>(r, s8).
       if r < 0 then panic ''create: dirlink''
       else kbind (iunlockput dp s8) (\<lambda>s9. Inr (Some ip, s9)))))))"

definition create :: "nat \<Rightarrow> byte list \<Rightarrow> u16 \<Rightarrow> u16 \<Rightarrow> u16 \<Rightarrow> 'd fsys \<Rightarrow> (nat option \<times> 'd fsys) kernel" where
  "create cwd path ty major minor s =
     kbind (nameiparent cwd path (replicate DIRSIZ 0) s) (\<lambda>((d, name), s1).
       case d of
         None \<Rightarrow> Inr (None, s1)
       | Some dp \<Rightarrow>
           kbind (ilock dp s1) (\<lambda>s2.
           kbind (dirlookup dp name s2) (\<lambda>(found, s3).
             case found of
               Some (ip, off) \<Rightarrow>
                 kbind (iunlockput dp s3) (\<lambda>s4.
                 kbind (ilock ip s4) (\<lambda>s5.
                   if ty = T_FILE \<and> i_type (icache s5 ! ip) = T_FILE then Inr (Some ip, s5)
                   else kbind (iunlockput ip s5) (\<lambda>s6. Inr (None, s6))))
             | None \<Rightarrow> create_new dp name ty major minor s3)))"

definition make_node :: "nat \<Rightarrow> byte list \<Rightarrow> u16 \<Rightarrow> u16 \<Rightarrow> u16 \<Rightarrow> 'd fsys \<Rightarrow> (int \<times> 'd fsys) kernel" where
  "make_node cwd path ty major minor s =
     kbind (fs_begin_op s) (\<lambda>s0.
     kbind (create cwd path ty major minor s0) (\<lambda>(r, s1).
       case r of
         None \<Rightarrow> kbind (fs_end_op s1) (\<lambda>s2. Inr (-1, s2))
       | Some ip \<Rightarrow> kbind (iunlockput ip s1) (\<lambda>s2. kbind (fs_end_op s2) (\<lambda>s3. Inr (0, s3)))))"

text \<open>A failed argument is noticed between \<open>begin_op\<close> and \<open>end_op\<close>.\<close>

definition empty_op :: "'d fsys \<Rightarrow> (int \<times> 'd fsys) kernel" where
  "empty_op s = kbind (fs_begin_op s) (\<lambda>s1. kbind (fs_end_op s1) (\<lambda>s2. Inr (-1, s2)))"

definition sys_mkdir :: "nat \<Rightarrow> umem \<Rightarrow> 'd kern \<Rightarrow> (int \<times> 'd kern) kernel" where
  "sys_mkdir me m k =
     (case argstr me m 0 k of
        None \<Rightarrow> in_fs empty_op k
      | Some path \<Rightarrow> in_fs (make_node (cwd_of me k) path T_DIR 0 0) k)"

definition sys_mknod :: "nat \<Rightarrow> umem \<Rightarrow> 'd kern \<Rightarrow> (int \<times> 'd kern) kernel" where
  "sys_mknod me m k =
     (case (argstr me m 0 k, argint me m 1 k, argint me m 2 k) of
        (Some path, Some major, Some minor) \<Rightarrow> in_fs (make_node (cwd_of me k) path T_DEV (of_int major) (of_int minor)) k
      | _ \<Rightarrow> in_fs empty_op k)"

definition sys_chdir :: "nat \<Rightarrow> umem \<Rightarrow> 'd kern \<Rightarrow> (int \<times> 'd kern) kernel" where
  "sys_chdir me m k =
     (case argstr me m 0 k of
        None \<Rightarrow> in_fs empty_op k
      | Some path \<Rightarrow>
          kbind (do_fs fs_begin_op k) (\<lambda>k0.
          kbind (in_fs (namei (cwd_of me k0) path) k0) (\<lambda>(r, k1).
            case r of
              None \<Rightarrow> kbind (do_fs fs_end_op k1) (\<lambda>k2. Inr (-1, k2))
            | Some ip \<Rightarrow>
                kbind (do_fs (ilock ip) k1) (\<lambda>k2.
                  if i_type (icache (fs k2) ! ip) \<noteq> T_DIR then
                    kbind (do_fs (iunlockput ip) k2) (\<lambda>k3. kbind (do_fs fs_end_op k3) (\<lambda>k4. Inr (-1, k4)))
                  else
                    kbind (do_fs (iunlock ip) k2) (\<lambda>k3.
                    kbind (do_fs (iput (cwd_of me k3)) k3) (\<lambda>k4.
                    kbind (do_fs fs_end_op k4) (\<lambda>k5.
                    Inr (0, upd_proc me (\<lambda>p. p\<lparr>p_cwd := Some ip\<rparr>) k5))))))))"

section \<open>Open and pipe\<close>

text \<open>The inode \<open>sys_open\<close> works on, locked, or none.\<close>

definition open_inode :: "nat \<Rightarrow> byte list \<Rightarrow> u32 \<Rightarrow> 'd fsys \<Rightarrow> (nat option \<times> 'd fsys) kernel" where
  "open_inode cwd path omode s =
     (if omode AND 0x200 \<noteq> 0 then create cwd path T_FILE 0 0 s
      else kbind (namei cwd path s) (\<lambda>(r, s1).
             case r of
               None \<Rightarrow> Inr (None, s1)
             | Some ip \<Rightarrow>
                 kbind (ilock ip s1) (\<lambda>s2.
                   if i_type (icache s2 ! ip) = T_DIR \<and> omode \<noteq> 0 then kbind (iunlockput ip s2) (\<lambda>s3. Inr (None, s3))
                   else Inr (Some ip, s2))))"

definition open_fail :: "nat \<Rightarrow> 'd kern \<Rightarrow> (int \<times> 'd kern) kernel" where
  "open_fail ip k = kbind (do_fs (iunlockput ip) k) (\<lambda>k1. kbind (do_fs fs_end_op k1) (\<lambda>k2. Inr (-1, k2)))"

definition open_path :: "nat \<Rightarrow> byte list \<Rightarrow> u32 \<Rightarrow> 'd kern \<Rightarrow> (int \<times> 'd kern) kernel" where
  "open_path me path omode k =
     kbind (do_fs fs_begin_op k) (\<lambda>k0.
     kbind (in_fs (open_inode (cwd_of me k0) path omode) k0) (\<lambda>(r, k1).
       case r of
         None \<Rightarrow> kbind (do_fs fs_end_op k1) (\<lambda>k2. Inr (-1, k2))
       | Some ip \<Rightarrow>
           (case filealloc k1 of
              (None, k2) \<Rightarrow> open_fail ip k2
            | (Some f, k2) \<Rightarrow>
                (case fdalloc me f k2 of
                   (None, k3) \<Rightarrow> kbind (fileclose f k3) (\<lambda>k4. open_fail ip k4)
                 | (Some fd, k3) \<Rightarrow>
                     kbind (do_fs (iunlock ip) k3) (\<lambda>k4.
                     kbind (do_fs fs_end_op k4) (\<lambda>k5.
                     Inr (int fd, upd_file f (\<lambda>x. x\<lparr>f_type := FD_INODE, f_ip := ip, f_off := 0,
                       f_readable := (omode AND 1 = 0), f_writable := (omode AND 1 \<noteq> 0 \<or> omode AND 2 \<noteq> 0)\<rparr>) k5)))))))"

definition sys_open :: "nat \<Rightarrow> umem \<Rightarrow> 'd kern \<Rightarrow> (int \<times> 'd kern) kernel" where
  "sys_open me m k =
     (case (argstr me m 0 k, argint me m 1 k) of
        (Some path, Some omode) \<Rightarrow> open_path me path (of_int omode) k
      | _ \<Rightarrow> Inr (-1, k))"

text \<open>\<open>sys_pipe\<close>; the two descriptors are stored at the address of its argument.\<close>

definition make_pipe :: "(nat \<times> (nat \<Rightarrow> byte)) option \<Rightarrow> nat \<Rightarrow> 'd kern \<Rightarrow> ((nat \<times> nat) option \<times> 'd kern) kernel" where
  "make_pipe page me k =
     kbind (pipealloc page k) (\<lambda>(r, k1).
       case r of
         None \<Rightarrow> Inr (None, k1)
       | Some (rf, wfl) \<Rightarrow>
           (case fdalloc me rf k1 of
              (None, k2) \<Rightarrow> kbind (fileclose rf k2) (\<lambda>k3. kbind (fileclose wfl k3) (\<lambda>k4. Inr (None, k4)))
            | (Some fd0, k2) \<Rightarrow>
                (case fdalloc me wfl k2 of
                   (None, k3) \<Rightarrow>
                     kbind (fileclose rf (clear_fd me fd0 k3)) (\<lambda>k4. kbind (fileclose wfl k4) (\<lambda>k5. Inr (None, k5)))
                 | (Some fd1, k3) \<Rightarrow> Inr (Some (fd0, fd1), k3))))"

definition sys_pipe ::
  "(nat \<times> (nat \<Rightarrow> byte)) option \<Rightarrow> nat \<Rightarrow> umem \<Rightarrow> 'd kern \<Rightarrow> (int \<times> (u32 \<times> nat \<times> nat) option \<times> 'd kern) kernel" where
  "sys_pipe page me m k =
     (case argptr me m 0 8 k of
        None \<Rightarrow> Inr (-1, None, k)
      | Some p \<Rightarrow>
          kbind (make_pipe page me k) (\<lambda>(r, k1).
            Inr (if r = None then -1 else 0, map_option (\<lambda>(fd0, fd1). (p, fd0, fd1)) r, k1)))"

section \<open>Arguments of \<open>exec\<close>\<close>

fun exec_args :: "nat list \<Rightarrow> nat \<Rightarrow> umem \<Rightarrow> u32 \<Rightarrow> 'd kern \<Rightarrow> byte list list option" where
  "exec_args [] me m uargv k = None"
| "exec_args (i # is) me m uargv k =
     (case fetchint me m (uargv + 4 * of_nat i) k of
        None \<Rightarrow> None
      | Some uarg \<Rightarrow>
          if uarg = 0 then Some []
          else case fetchstr me m (of_int uarg) k of
                 None \<Rightarrow> None
               | Some s \<Rightarrow> map_option (\<lambda>l. s # l) (exec_args is me m uargv k))"

text \<open>What \<open>sys_exec\<close> calls \<open>exec\<close> with; \<open>None\<close> when it returns -1 itself.\<close>

definition sys_exec_args :: "nat \<Rightarrow> umem \<Rightarrow> 'd kern \<Rightarrow> (byte list \<times> byte list list) option" where
  "sys_exec_args me m k =
     (case (argstr me m 0 k, argint me m 1 k) of
        (Some path, Some uargv) \<Rightarrow> map_option (\<lambda>argv. (path, argv)) (exec_args [0..<32] me m (of_int uargv) k)
      | _ \<Rightarrow> None)"

end
