(* ===== verification/Kalloc.thy ===== *)
theory Kalloc
  imports Disk_Format
begin

text \<open>
  The physical page allocator (\<open>kalloc.c\<close>). Physical memory is a map from the kernel virtual
  address of a page to its bytes; the free list is threaded through the first word of the free
  pages, as in the code. Results: the linked list implements a stack of pages, so no page that
  is in use is handed out, and what is freed can be allocated again.
\<close>

section \<open>Memory\<close>

type_synonym page = "nat \<Rightarrow> byte"

abbreviation PGSIZE :: nat where "PGSIZE \<equiv> 4096"
abbreviation KERNBASE :: u32 where "KERNBASE \<equiv> 0x80000000"
abbreviation PHYSTOP :: u32 where "PHYSTOP \<equiv> 0xE000000"

definition V2P :: "u32 \<Rightarrow> u32" where "V2P a = a - KERNBASE"
definition P2V :: "u32 \<Rightarrow> u32" where "P2V a = a + KERNBASE"

text \<open>The word at index \<open>i\<close> of a page.\<close>

definition pword :: "page \<Rightarrow> nat \<Rightarrow> u32" where
  "pword p i = ucast (p (4 * i)) OR push_bit 8 (ucast (p (4 * i + 1))) OR
     push_bit 16 (ucast (p (4 * i + 2))) OR push_bit 24 (ucast (p (4 * i + 3)))"

definition set_word :: "page \<Rightarrow> nat \<Rightarrow> u32 \<Rightarrow> page" where
  "set_word p i w = p(4 * i := ucast w, 4 * i + 1 := ucast (drop_bit 8 w),
     4 * i + 2 := ucast (drop_bit 16 w), 4 * i + 3 := ucast (drop_bit 24 w))"

text \<open>\<open>kend\<close> and \<open>kdata\<close> are the linker's symbols \<open>end\<close> and \<open>data\<close>.\<close>

record mem =
  ram :: "u32 \<Rightarrow> page"
  freelist :: u32
  kend :: u32
  kdata :: u32

abbreviation set_page :: "u32 \<Rightarrow> page \<Rightarrow> mem \<Rightarrow> mem" where
  "set_page a p m \<equiv> m\<lparr>ram := (ram m)(a := p)\<rparr>"

section \<open>The allocator\<close>

definition kfree :: "u32 \<Rightarrow> mem \<Rightarrow> mem kernel" where
  "kfree v m =
     (if v mod 4096 \<noteq> 0 \<or> v < kend m \<or> PHYSTOP \<le> V2P v then panic ''kfree''
      else let m1 = set_page v (\<lambda>_. 1) m;
               m2 = set_page v (set_word (ram m1 v) 0 (freelist m1)) m1
           in Inr (m2\<lparr>freelist := v\<rparr>))"

definition kalloc :: "mem \<Rightarrow> u32 option \<times> mem" where
  "kalloc m =
     (let r = freelist m
      in if r \<noteq> 0 then (Some r, m\<lparr>freelist := pword (ram m r) 0\<rparr>) else (None, m))"

text \<open>The loop of \<open>freerange\<close>, on addresses as numbers.\<close>

function freerange_loop :: "nat \<Rightarrow> nat \<Rightarrow> mem \<Rightarrow> mem kernel" where
  "freerange_loop p vend m =
     (if p + PGSIZE \<le> vend then kbind (kfree (of_nat p) m) (freerange_loop (p + PGSIZE) vend) else Inr m)"
  by pat_completeness auto
termination by (relation "measure (\<lambda>(p, vend, m). vend - p)") auto

declare freerange_loop.simps [simp del]

definition PGROUNDUP :: "nat \<Rightarrow> nat" where "PGROUNDUP n = (n + PGSIZE - 1) div PGSIZE * PGSIZE"
definition PGROUNDDOWN :: "nat \<Rightarrow> nat" where "PGROUNDDOWN n = n div PGSIZE * PGSIZE"

definition freerange :: "nat \<Rightarrow> nat \<Rightarrow> mem \<Rightarrow> mem kernel" where
  "freerange vstart vend m = freerange_loop (PGROUNDUP vstart) vend m"

section \<open>Words of a page\<close>

lemma pword_same [simp]: "pword (set_word p i w) i = w"
proof (rule bit_word_eqI)
  fix n assume "n < LENGTH(32)"
  then show "bit (pword (set_word p i w) i) n = bit w n"
    by (cases "n < 8"; cases "n < 16"; cases "n < 24") (auto simp: pword_def set_word_def bit_simps)
qed

lemma pword_other [simp]: "j \<noteq> i \<Longrightarrow> pword (set_word p i w) j = pword p j"
proof -
  assume "j \<noteq> i"
  then have "4 * j + a \<noteq> 4 * i + b" if "a < 4" "b < 4" for a b using that by presburger
  from this[of 0 0] this[of 0 1] this[of 0 2] this[of 0 3] this[of 1 0] this[of 1 1] this[of 1 2] this[of 1 3]
    this[of 2 0] this[of 2 1] this[of 2 2] this[of 2 3] this[of 3 0] this[of 3 1] this[of 3 2] this[of 3 3]
  show ?thesis by (simp add: pword_def set_word_def)
qed

lemma pword_zero [simp]: "pword (\<lambda>_. 0) i = 0"
  by (simp add: pword_def)

lemma V2P_P2V [simp]: "V2P (P2V a) = a" "P2V (V2P a) = a"
  by (simp_all add: V2P_def P2V_def)

section \<open>The free list is a stack of pages\<close>

definition valid_page :: "mem \<Rightarrow> u32 \<Rightarrow> bool" where
  "valid_page m v \<longleftrightarrow> v \<noteq> 0 \<and> v mod 4096 = 0 \<and> kend m \<le> v \<and> V2P v < PHYSTOP"

fun chain :: "(u32 \<Rightarrow> page) \<Rightarrow> u32 \<Rightarrow> u32 list \<Rightarrow> bool" where
  "chain r a [] \<longleftrightarrow> a = 0"
| "chain r a (x # xs) \<longleftrightarrow> a = x \<and> x \<noteq> 0 \<and> chain r (pword (r x) 0) xs"

definition free_ok :: "mem \<Rightarrow> u32 list \<Rightarrow> bool" where
  "free_ok m xs \<longleftrightarrow> chain (ram m) (freelist m) xs \<and> distinct xs \<and> (\<forall>x \<in> set xs. valid_page m x)"

lemma chain_cong: "\<forall>x \<in> set xs. r x = r' x \<Longrightarrow> chain r a xs = chain r' a xs"
  by (induction xs arbitrary: a) auto

lemma chain_unique: "chain r a xs \<Longrightarrow> chain r a ys \<Longrightarrow> xs = ys"
proof (induction xs arbitrary: a ys)
  case Nil
  then show ?case by (cases ys) auto
next
  case (Cons x xs)
  then show ?case by (cases ys) auto
qed

text \<open>Writing to pages in use leaves the free list alone.\<close>

lemma free_ok_cong:
  assumes "free_ok m xs" "\<forall>x \<in> set xs. ram m' x = ram m x" "freelist m' = freelist m" "kend m' = kend m"
  shows "free_ok m' xs"
  using assms chain_cong[of xs "ram m" "ram m'" "freelist m"] by (auto simp: free_ok_def valid_page_def)

lemma free_ok_set_page: "free_ok m xs \<Longrightarrow> a \<notin> set xs \<Longrightarrow> free_ok (set_page a p m) xs"
  by (rule free_ok_cong) auto

lemma kalloc_None: "free_ok m xs \<Longrightarrow> kalloc m = (None, m') \<Longrightarrow> xs = [] \<and> m' = m"
  by (cases xs) (auto simp: kalloc_def free_ok_def Let_def split: if_splits)

lemma kalloc_Some:
  assumes "free_ok m xs" "kalloc m = (Some v, m')"
  shows "\<exists>ys. xs = v # ys \<and> free_ok m' ys \<and> ram m' = ram m \<and> kend m' = kend m \<and> kdata m' = kdata m"
proof (cases xs)
  case Nil
  then show ?thesis using assms by (simp add: kalloc_def free_ok_def)
next
  case (Cons x ys)
  have f: "freelist m = x" "x \<noteq> 0" "chain (ram m) (pword (ram m x) 0) ys" "distinct ys" "\<forall>y \<in> set ys. valid_page m y"
    using assms(1) Cons by (simp_all add: free_ok_def)
  then have m': "x = v" "m' = m\<lparr>freelist := pword (ram m x) 0\<rparr>" using assms(2) by (auto simp: kalloc_def)
  have "free_ok m' ys" unfolding m'(2) using f(3-5) by (simp add: free_ok_def valid_page_def)
  then show ?thesis using Cons m' by simp
qed

lemma kalloc_Cons: "free_ok m (v # ys) \<Longrightarrow> \<exists>m'. kalloc m = (Some v, m')"
  by (auto simp: kalloc_def free_ok_def Let_def)

lemma kfree_valid:
  assumes "free_ok m xs" "valid_page m v" "v \<notin> set xs"
  shows "\<exists>m'. kfree v m = Inr m' \<and> free_ok m' (v # xs) \<and> (\<forall>p. p \<noteq> v \<longrightarrow> ram m' p = ram m p) \<and> kend m' = kend m \<and> kdata m' = kdata m"
proof -
  define m' where "m' = m\<lparr>ram := (ram m)(v := set_word (\<lambda>_. 1) 0 (freelist m)), freelist := v\<rparr>"
  have f: "kfree v m = Inr m'" using assms(2) by (auto simp: kfree_def m'_def valid_page_def not_less[symmetric])
  have "chain (ram m') (freelist m) xs" using assms chain_cong[of xs "ram m" "ram m'" "freelist m"] by (auto simp: free_ok_def m'_def)
  then have "free_ok m' (v # xs)" using assms by (auto simp: free_ok_def m'_def valid_page_def)
  then show ?thesis using f by (auto simp: m'_def)
qed

text \<open>
  The allocator as a stack of the free pages: \<open>kalloc\<close> pops it and fails exactly when it is empty;
  \<open>kfree\<close> of a page pushes it, and panics exactly for an address that is not a page of the
  allocator; neither changes any other page.
\<close>

theorem kalloc_kfree_stack:
  assumes "free_ok m xs"
  shows "(case xs of
      [] \<Rightarrow> kalloc m = (None, m)
    | v # ys \<Rightarrow> \<exists>m'. kalloc m = (Some v, m') \<and> free_ok m' ys \<and> ram m' = ram m \<and> valid_page m v \<and> v \<notin> set ys) \<and>
    (\<forall>v. kfree v m = panic ''kfree'' \<longleftrightarrow> v mod 4096 \<noteq> 0 \<or> v < kend m \<or> PHYSTOP \<le> V2P v) \<and>
    (\<forall>v. valid_page m v \<and> v \<notin> set xs \<longrightarrow> (\<exists>m'. kfree v m = Inr m' \<and> free_ok m' (v # xs) \<and> (\<forall>p. p \<noteq> v \<longrightarrow> ram m' p = ram m p)))"
proof (intro conjI allI impI)
  show "case xs of
      [] \<Rightarrow> kalloc m = (None, m)
    | v # ys \<Rightarrow> \<exists>m'. kalloc m = (Some v, m') \<and> free_ok m' ys \<and> ram m' = ram m \<and> valid_page m v \<and> v \<notin> set ys"
  proof (cases xs)
    case Nil
    then show ?thesis using assms by (simp add: kalloc_def free_ok_def)
  next
    case (Cons v ys)
    obtain m' where m': "kalloc m = (Some v, m')" using kalloc_Cons assms Cons by blast
    have "valid_page m v \<and> v \<notin> set ys" using assms Cons by (simp add: free_ok_def)
    then show ?thesis using kalloc_Some[OF assms m'] m' Cons by auto
  qed
next
  show "kfree v m = panic ''kfree'' \<longleftrightarrow> v mod 4096 \<noteq> 0 \<or> v < kend m \<or> PHYSTOP \<le> V2P v" for v
    by (simp add: kfree_def Let_def)
next
  show "\<exists>m'. kfree v m = Inr m' \<and> free_ok m' (v # xs) \<and> (\<forall>p. p \<noteq> v \<longrightarrow> ram m' p = ram m p)"
    if "valid_page m v \<and> v \<notin> set xs" for v
    using kfree_valid[OF assms] that by blast
qed

text \<open>\<open>freerange\<close> puts every page that lies between its arguments on the free list.\<close>

definition range_pages :: "nat \<Rightarrow> nat \<Rightarrow> u32 list" where
  "range_pages p vend = map (\<lambda>i. of_nat (p + i * PGSIZE)) [0..<(vend - p) div PGSIZE]"

lemma range_pages_step:
  "range_pages p vend = (if p + PGSIZE \<le> vend then of_nat p # range_pages (p + PGSIZE) vend else [])"
proof (cases "p + PGSIZE \<le> vend")
  case True
  then have "(vend - p) div PGSIZE = Suc ((vend - (p + PGSIZE)) div PGSIZE)"
    using le_div_geq[of PGSIZE "vend - p"] by simp
  then show ?thesis using True
    by (simp add: range_pages_def map_upt_Suc algebra_simps del: upt_Suc)
next
  case False
  then have "(vend - p) div PGSIZE = 0" by simp
  then show ?thesis unfolding range_pages_def if_not_P[OF False] by simp
qed

lemma of_nat_page:
  assumes "p mod PGSIZE = 0" "unat (kend m) \<le> p" "0x80000000 \<le> p" "p < 0x8E000000"
  shows "valid_page m (of_nat p)"
proof -
  have u: "unat (of_nat p :: u32) = p" using assms(4) by (simp add: unat_of_nat)
  have "unat (V2P (of_nat p)) = p - 0x80000000"
    unfolding V2P_def using assms(3) u by (subst unat_sub) (simp_all add: word_le_nat_alt)
  then have "V2P (of_nat p) < PHYSTOP" using assms(4) by (simp add: word_less_nat_alt)
  moreover have "(of_nat p :: u32) mod 4096 = 0" using assms(1) u by (simp add: word_arith_nat_mod)
  moreover have "(of_nat p :: u32) \<noteq> 0" using u assms(3) by (metis unat_0 not_numeral_le_zero)
  ultimately show ?thesis using assms(2) u by (simp add: valid_page_def word_le_nat_alt)
qed

lemma freerange_loop_ok:
  assumes "free_ok m xs" "p mod PGSIZE = 0" "unat (kend m) \<le> p" "0x80000000 \<le> p" "vend \<le> 0x8E000000" "\<forall>x \<in> set xs. unat x < p"
  shows "\<exists>m'. freerange_loop p vend m = Inr m' \<and> free_ok m' (rev (range_pages p vend) @ xs) \<and> kend m' = kend m \<and> kdata m' = kdata m"
  using assms
proof (induction p vend m arbitrary: xs rule: freerange_loop.induct)
  case (1 p vend m)
  show ?case
  proof (cases "p + PGSIZE \<le> vend")
    case True
    then have lt: "p < 0x8E000000" using 1(6) by simp
    have u: "unat (of_nat p :: u32) = p" using lt by (simp add: unat_of_nat)
    have v: "valid_page m (of_nat p)" by (rule of_nat_page[OF 1(3-5) lt])
    have "of_nat p \<notin> set xs" using 1(7) u by fastforce
    from kfree_valid[OF 1(2) v this] obtain m1 where m1: "kfree (of_nat p) m = Inr m1" "free_ok m1 (of_nat p # xs)" "kend m1 = kend m" "kdata m1 = kdata m" by blast
    have "\<exists>m'. freerange_loop (p + PGSIZE) vend m1 = Inr m' \<and> free_ok m' (rev (range_pages (p + PGSIZE) vend) @ of_nat p # xs) \<and> kend m' = kend m1 \<and> kdata m' = kdata m1"
      by (rule 1(1)[OF True m1(2)]) (use 1(3-7) m1(3) u in auto)
    then show ?thesis using True m1 by (subst freerange_loop.simps, subst range_pages_step) simp
  next
    case False
    then show ?thesis using 1(2) by (subst freerange_loop.simps, subst range_pages_step) simp
  qed
qed

text \<open>The allocator after start-up: the memory between two addresses is on the free list.\<close>

definition raw_mem :: mem where
  "raw_mem = \<lparr>ram = \<lambda>_ _. 0, freelist = 0, kend = 0x80110000, kdata = 0x8010A000\<rparr>"

lemma PGROUNDUP_aligned: "a mod PGSIZE = 0 \<Longrightarrow> PGROUNDUP a = a"
proof -
  assume "a mod PGSIZE = 0"
  then obtain q where a: "a = q * PGSIZE" by (auto elim: dvdE simp: mult.commute simp flip: dvd_eq_mod_eq_0)
  have "q * PGSIZE + PGSIZE - 1 = PGSIZE - 1 + q * PGSIZE" by simp
  then have "(q * PGSIZE + PGSIZE - 1) div PGSIZE = q" by (simp only: div_mult_self1)
  then show ?thesis by (simp only: PGROUNDUP_def a)
qed

lemma boot_pages:
  assumes "a mod PGSIZE = 0" "0x80110000 \<le> a" "b \<le> 0x8E000000"
  shows "\<exists>m :: mem. freerange a b raw_mem = Inr m \<and> free_ok m (rev (range_pages a b)) \<and> kend m = kend raw_mem \<and> kdata m = kdata raw_mem"
proof -
  have f: "free_ok raw_mem []" by (simp add: free_ok_def raw_mem_def)
  have "PGROUNDUP a = a" by (rule PGROUNDUP_aligned[OF assms(1)])
  then show ?thesis using freerange_loop_ok[OF f, of a b] assms by (simp add: freerange_def raw_mem_def)
qed

theorem kalloc_kfree_stack_witness:
  "\<exists>m v ys m'. free_ok m (v # ys) \<and> kalloc m = (Some v, m') \<and> free_ok m' ys"
proof -
  obtain m where m: "free_ok m (rev (range_pages 0x80400000 0x80402000))" using boot_pages[of "0x80400000" "0x80402000"] by auto
  have "range_pages 0x80400000 0x80402000 = [0x80400000, 0x80401000]" by (simp add: range_pages_def numeral_2_eq_2)
  then have "free_ok m [0x80401000, 0x80400000]" using m by simp
  then show ?thesis using kalloc_kfree_stack[of m "[0x80401000, 0x80400000]"] by fastforce
qed

end
