(* ===== verification/Vm.thy ===== *)
theory Vm
  imports Kalloc
begin

text \<open>
  Page tables (\<open>vm.c\<close>). A page directory is the kernel address of its page; an entry is found by
  walking the two levels in physical memory. Virtual addresses and process sizes are naturals:
  all of those that reach these functions are at most \<open>2 ^ 32\<close>, and user sizes at most \<open>KERNBASE\<close>, so
  the additions of the code do not wrap. A null pointer that the code would dereference
  shows as a panic. Results are in \<open>Vm_Walk\<close> and \<open>Vm_Space\<close>.
\<close>

section \<open>Entries\<close>

abbreviation PTE_P :: u32 where "PTE_P \<equiv> 1"
abbreviation PTE_W :: u32 where "PTE_W \<equiv> 2"
abbreviation PTE_U :: u32 where "PTE_U \<equiv> 4"

definition PTE_ADDR :: "u32 \<Rightarrow> u32" where "PTE_ADDR e = e AND NOT 0xFFF"
definition PTE_FLAGS :: "u32 \<Rightarrow> u32" where "PTE_FLAGS e = e AND 0xFFF"
definition PDX :: "nat \<Rightarrow> nat" where "PDX va = va div 2 ^ 22 mod 1024"
definition PTX :: "nat \<Rightarrow> nat" where "PTX va = va div 2 ^ 12 mod 1024"

text \<open>\<open>walkpgdir\<close> returns the page and the index of the entry.\<close>

definition walkpgdir :: "u32 \<Rightarrow> nat \<Rightarrow> bool \<Rightarrow> mem \<Rightarrow> (u32 \<times> nat) option \<times> mem" where
  "walkpgdir pgdir va alloc m =
     (let pde = pword (ram m pgdir) (PDX va)
      in if pde AND PTE_P \<noteq> 0 then (Some (P2V (PTE_ADDR pde), PTX va), m)
         else if \<not> alloc then (None, m)
         else case kalloc m of
                (None, m1) \<Rightarrow> (None, m1)
              | (Some pgtab, m1) \<Rightarrow>
                  let m2 = set_page pgtab (\<lambda>_. 0) m1;
                      m3 = set_page pgdir (set_word (ram m2 pgdir) (PDX va) (V2P pgtab OR PTE_P OR PTE_W OR PTE_U)) m2
                  in (Some (pgtab, PTX va), m3))"

text \<open>Storing to the entry a walk has found, and reading it.\<close>

definition get_pte :: "u32 \<times> nat \<Rightarrow> mem \<Rightarrow> u32" where
  "get_pte p m = pword (ram m (fst p)) (snd p)"

definition set_pte :: "u32 \<times> nat \<Rightarrow> u32 \<Rightarrow> mem \<Rightarrow> mem" where
  "set_pte p e m = set_page (fst p) (set_word (ram m (fst p)) (snd p) e) m"

text \<open>The loop of \<open>mappages\<close> with \<open>k\<close> pages to go after the one at \<open>a\<close>.\<close>

fun map_loop :: "u32 \<Rightarrow> nat \<Rightarrow> nat \<Rightarrow> u32 \<Rightarrow> u32 \<Rightarrow> mem \<Rightarrow> (int \<times> mem) kernel" where
  "map_loop pgdir k a pa perm m =
     (case walkpgdir pgdir a True m of
        (None, m1) \<Rightarrow> Inr (-1, m1)
      | (Some p, m1) \<Rightarrow>
          if get_pte p m1 AND PTE_P \<noteq> 0 then panic ''remap''
          else let m2 = set_pte p (pa OR perm OR PTE_P) m1
               in case k of 0 \<Rightarrow> Inr (0, m2) | Suc k' \<Rightarrow> map_loop pgdir k' (a + PGSIZE) (pa + 4096) perm m2)"

declare map_loop.simps [simp del]

definition mappages :: "u32 \<Rightarrow> nat \<Rightarrow> nat \<Rightarrow> u32 \<Rightarrow> u32 \<Rightarrow> mem \<Rightarrow> (int \<times> mem) kernel" where
  "mappages pgdir va n pa perm m =
     (let a = PGROUNDDOWN va; b = PGROUNDDOWN (va + n - 1)
      in map_loop pgdir ((b - a) div PGSIZE) a pa perm m)"

section \<open>The kernel part\<close>

abbreviation EXTMEM :: u32 where "EXTMEM \<equiv> 0x100000"
abbreviation DEVSPACE :: u32 where "DEVSPACE \<equiv> 0xFE000000"
abbreviation KERNLINK :: u32 where "KERNLINK \<equiv> 0x80100000"

definition kmap :: "mem \<Rightarrow> (u32 \<times> u32 \<times> u32 \<times> u32) list" where
  "kmap m = [(KERNBASE, 0, EXTMEM, PTE_W), (KERNLINK, V2P KERNLINK, V2P (kdata m), 0),
     (kdata m, V2P (kdata m), PHYSTOP, PTE_W), (DEVSPACE, DEVSPACE, 0, PTE_W)]"

fun kmap_loop :: "u32 \<Rightarrow> (u32 \<times> u32 \<times> u32 \<times> u32) list \<Rightarrow> mem \<Rightarrow> (int \<times> mem) kernel" where
  "kmap_loop pgdir [] m = Inr (0, m)"
| "kmap_loop pgdir ((virt, start, fin, perm) # ks) m =
     kbind (mappages pgdir (unat virt) (unat (fin - start)) start perm m) (\<lambda>(r, m1).
       if r < 0 then Inr (-1, m1) else kmap_loop pgdir ks m1)"

definition setupkvm :: "mem \<Rightarrow> (u32 option \<times> mem) kernel" where
  "setupkvm m =
     (case kalloc m of
        (None, m1) \<Rightarrow> Inr (None, m1)
      | (Some pgdir, m1) \<Rightarrow>
          let m2 = set_page pgdir (\<lambda>_. 0) m1
          in if DEVSPACE < P2V PHYSTOP then panic ''PHYSTOP too high''
             else kbind (kmap_loop pgdir (kmap m2) m2) (\<lambda>(r, m3). Inr (if r < 0 then None else Some pgdir, m3)))"

section \<open>User memory\<close>

definition inituvm :: "u32 \<Rightarrow> byte list \<Rightarrow> mem \<Rightarrow> mem kernel" where
  "inituvm pgdir init m =
     (if PGSIZE \<le> length init then panic ''inituvm: more than a page''
      else case kalloc m of
             (None, m1) \<Rightarrow> panic ''null page''
           | (Some a, m1) \<Rightarrow>
               kbind (mappages pgdir 0 PGSIZE (V2P a) (PTE_W OR PTE_U) (set_page a (\<lambda>_. 0) m1)) (\<lambda>(r, m2).
                 Inr (set_page a (\<lambda>i. if i < length init then init ! i else ram m2 a i) m2)))"

text \<open>A missing page table lets the loop skip the addresses of a whole table.\<close>

function dealloc_loop :: "u32 \<Rightarrow> nat \<Rightarrow> nat \<Rightarrow> mem \<Rightarrow> mem kernel" where
  "dealloc_loop pgdir a oldsz m =
     (if oldsz \<le> a then Inr m
      else case fst (walkpgdir pgdir a False m) of
             None \<Rightarrow> dealloc_loop pgdir (a + 1023 * PGSIZE + PGSIZE) oldsz m
           | Some p \<Rightarrow>
               if get_pte p m AND PTE_P \<noteq> 0 then
                 let pa = PTE_ADDR (get_pte p m)
                 in if pa = 0 then panic ''kfree''
                    else kbind (kfree (P2V pa) m) (\<lambda>m1. dealloc_loop pgdir (a + PGSIZE) oldsz (set_pte p 0 m1))
               else dealloc_loop pgdir (a + PGSIZE) oldsz m)"
  by pat_completeness auto
termination by (relation "measure (\<lambda>(pgdir, a, oldsz, m). oldsz - a)") auto

declare dealloc_loop.simps [simp del]

definition deallocuvm :: "u32 \<Rightarrow> nat \<Rightarrow> nat \<Rightarrow> mem \<Rightarrow> (nat \<times> mem) kernel" where
  "deallocuvm pgdir oldsz newsz m =
     (if oldsz \<le> newsz then Inr (oldsz, m)
      else kbind (dealloc_loop pgdir (PGROUNDUP newsz) oldsz m) (\<lambda>m1. Inr (newsz, m1)))"

function alloc_loop :: "u32 \<Rightarrow> nat \<Rightarrow> nat \<Rightarrow> nat \<Rightarrow> mem \<Rightarrow> (nat \<times> mem) kernel" where
  "alloc_loop pgdir a oldsz newsz m =
     (if newsz \<le> a then Inr (newsz, m)
      else case kalloc m of
             (None, m1) \<Rightarrow> kbind (deallocuvm pgdir newsz oldsz m1) (\<lambda>(_, m2). Inr (0, m2))
           | (Some f, m1) \<Rightarrow>
               kbind (mappages pgdir a PGSIZE (V2P f) (PTE_W OR PTE_U) (set_page f (\<lambda>_. 0) m1)) (\<lambda>(r, m2).
                 if r < 0 then
                   kbind (deallocuvm pgdir newsz oldsz m2) (\<lambda>(_, m3). kbind (kfree f m3) (\<lambda>m4. Inr (0, m4)))
                 else alloc_loop pgdir (a + PGSIZE) oldsz newsz m2))"
  by pat_completeness auto
termination by (relation "measure (\<lambda>(pgdir, a, oldsz, newsz, m). newsz - a)") auto

declare alloc_loop.simps [simp del]

definition allocuvm :: "u32 \<Rightarrow> nat \<Rightarrow> nat \<Rightarrow> mem \<Rightarrow> (nat \<times> mem) kernel" where
  "allocuvm pgdir oldsz newsz m =
     (if unat KERNBASE \<le> newsz then Inr (0, m)
      else if newsz < oldsz then Inr (oldsz, m)
      else alloc_loop pgdir (PGROUNDUP oldsz) oldsz newsz m)"

fun free_tables :: "u32 \<Rightarrow> nat list \<Rightarrow> mem \<Rightarrow> mem kernel" where
  "free_tables pgdir [] m = Inr m"
| "free_tables pgdir (i # is) m =
     (let pde = pword (ram m pgdir) i
      in if pde AND PTE_P \<noteq> 0 then kbind (kfree (P2V (PTE_ADDR pde)) m) (free_tables pgdir is)
         else free_tables pgdir is m)"

definition freevm :: "u32 \<Rightarrow> mem \<Rightarrow> mem kernel" where
  "freevm pgdir m =
     (if pgdir = 0 then panic ''freevm: no pgdir''
      else kbind (deallocuvm pgdir (unat KERNBASE) 0 m) (\<lambda>(_, m1).
           kbind (free_tables pgdir [0..<1024] m1) (\<lambda>m2. kfree pgdir m2)))"

definition clearpteu :: "u32 \<Rightarrow> nat \<Rightarrow> mem \<Rightarrow> mem kernel" where
  "clearpteu pgdir uva m =
     (case fst (walkpgdir pgdir uva False m) of
        None \<Rightarrow> panic ''clearpteu''
      | Some p \<Rightarrow> Inr (set_pte p (get_pte p m AND NOT PTE_U) m))"

text \<open>The loop of \<open>copyuvm\<close> from address \<open>i\<close> on; the label \<open>bad\<close> frees the copy.\<close>

function copy_loop :: "u32 \<Rightarrow> u32 \<Rightarrow> nat \<Rightarrow> nat \<Rightarrow> mem \<Rightarrow> (u32 option \<times> mem) kernel" where
  "copy_loop pgdir d i sz m =
     (if sz \<le> i then Inr (Some d, m)
      else case fst (walkpgdir pgdir i False m) of
             None \<Rightarrow> panic ''copyuvm: pte should exist''
           | Some p \<Rightarrow>
               if get_pte p m AND PTE_P = 0 then panic ''copyuvm: page not present''
               else let pa = PTE_ADDR (get_pte p m); flags = PTE_FLAGS (get_pte p m)
                    in case kalloc m of
                         (None, m1) \<Rightarrow> kbind (freevm d m1) (\<lambda>m2. Inr (None, m2))
                       | (Some f, m1) \<Rightarrow>
                           kbind (mappages d i PGSIZE (V2P f) flags (set_page f (ram m1 (P2V pa)) m1)) (\<lambda>(r, m2).
                             if r < 0 then kbind (freevm d m2) (\<lambda>m3. Inr (None, m3))
                             else copy_loop pgdir d (i + PGSIZE) sz m2))"
  by pat_completeness auto
termination by (relation "measure (\<lambda>(pgdir, d, i, sz, m). sz - i)") auto

declare copy_loop.simps [simp del]

definition copyuvm :: "u32 \<Rightarrow> nat \<Rightarrow> mem \<Rightarrow> (u32 option \<times> mem) kernel" where
  "copyuvm pgdir sz m =
     kbind (setupkvm m) (\<lambda>(r, m1).
       case r of None \<Rightarrow> Inr (None, m1) | Some d \<Rightarrow> copy_loop pgdir d 0 sz m1)"

definition uva2ka :: "u32 \<Rightarrow> nat \<Rightarrow> mem \<Rightarrow> u32 option kernel" where
  "uva2ka pgdir uva m =
     (case fst (walkpgdir pgdir uva False m) of
        None \<Rightarrow> panic ''null pte''
      | Some p \<Rightarrow>
          if get_pte p m AND PTE_P = 0 then Inr None
          else if get_pte p m AND PTE_U = 0 then Inr None
          else Inr (Some (P2V (PTE_ADDR (get_pte p m)))))"

function copyout :: "u32 \<Rightarrow> nat \<Rightarrow> byte list \<Rightarrow> mem \<Rightarrow> (int \<times> mem) kernel" where
  "copyout pgdir va buf m =
     (if buf = [] then Inr (0, m)
      else let va0 = PGROUNDDOWN va
           in kbind (uva2ka pgdir va0 m) (\<lambda>r.
                case r of
                  None \<Rightarrow> Inr (-1, m)
                | Some pa0 \<Rightarrow>
                    let off = va - va0; n = min (PGSIZE - off) (length buf);
                        p = ram m pa0
                    in copyout pgdir (va0 + PGSIZE) (drop n buf)
                         (set_page pa0 (\<lambda>j. if off \<le> j \<and> j < off + n then buf ! (j - off) else p j) m)))"
  by pat_completeness auto
termination
proof (relation "measure (\<lambda>(pgdir, va, buf, m). length buf)", simp, goal_cases)
  case (1 pgdir va buf m va0 r pa0)
  have "va - PGROUNDDOWN va < PGSIZE" unfolding PGROUNDDOWN_def by (simp add: minus_div_mult_eq_mod)
  then show ?case using 1 by (cases buf) auto
qed

declare copyout.simps [simp del]

end
