(* ===== verification/Vm_Walk.thy ===== *)
theory Vm_Walk
  imports Vm
begin

text \<open>
  The page table a directory stands for, as a map from page numbers to entries, and what walking
  and mapping do to it: mapping changes exactly the entries of the range and takes every page it
  needs for tables from the free list.
\<close>

section \<open>Entries as words\<close>

lemma low_bits: "(w :: u32) mod 4096 = w AND 0xFFF"
proof -
  have "take_bit 12 w = w AND mask 12" by (rule take_bit_eq_mask)
  moreover have "take_bit 12 w = w mod 4096" by (simp add: take_bit_eq_mod)
  moreover have "(mask 12 :: u32) = 0xFFF" by (simp add: mask_eq_exp_minus_1)
  ultimately show ?thesis by simp
qed

lemma aligned_bits: "(w :: u32) mod 4096 = 0 \<longleftrightarrow> (\<forall>i < 12. \<not> bit w i)"
proof -
  have "w mod 4096 = take_bit 12 w" by (simp add: take_bit_eq_mod)
  then have "w mod 4096 = 0 \<longleftrightarrow> take_bit 12 w = 0" by simp
  also have "\<dots> \<longleftrightarrow> (\<forall>i < 12. \<not> bit w i)" by (auto simp: bit_eq_iff bit_take_bit_iff dest: bit_imp_le_length)
  finally show ?thesis .
qed

lemma mask12: "(0xFFF :: u32) = mask 12"
  by (simp add: mask_eq_exp_minus_1)

lemma PTE_ADDR_or: "x mod 4096 = 0 \<Longrightarrow> f AND NOT 0xFFF = 0 \<Longrightarrow> PTE_ADDR (x OR f) = x"
proof (rule bit_word_eqI)
  fix n assume a: "x mod 4096 = 0" "f AND NOT 0xFFF = 0" "n < LENGTH(32)"
  have "\<not> bit (f AND NOT (mask 12)) n" unfolding a(2)[unfolded mask12] by simp
  then show "bit (PTE_ADDR (x OR f)) n = bit x n"
    unfolding PTE_ADDR_def mask12 using a(1,3) by (auto simp: bit_simps aligned_bits not_less)
qed

lemma PTE_FLAGS_or: "x mod 4096 = 0 \<Longrightarrow> f AND NOT 0xFFF = 0 \<Longrightarrow> PTE_FLAGS (x OR f) = f"
proof (rule bit_word_eqI)
  fix n assume a: "x mod 4096 = 0" "f AND NOT 0xFFF = 0" "n < LENGTH(32)"
  have "\<not> bit (f AND NOT (mask 12)) n" unfolding a(2)[unfolded mask12] by simp
  then show "bit (PTE_FLAGS (x OR f)) n = bit f n"
    unfolding PTE_FLAGS_def mask12 using a(1,3) by (auto simp: bit_simps aligned_bits not_less)
qed

lemma present_or [simp]: "(x OR f OR 1) AND (1 :: u32) \<noteq> 0"
proof
  assume "(x OR f OR 1) AND (1 :: u32) = 0"
  then have "\<not> bit ((x OR f OR 1) AND (1 :: u32)) 0" by simp
  then show False by (simp add: bit_simps)
qed

lemma V2P_aligned: "v mod 4096 = 0 \<Longrightarrow> V2P v mod 4096 = 0"
proof -
  assume v: "v mod 4096 = 0"
  have "uint v mod 4096 = 0" using arg_cong[OF v, of uint] by (simp add: uint_mod)
  then have "4096 dvd uint v - 2147483648" by (intro dvd_diff) (simp_all add: dvd_eq_mod_eq_0)
  then have "(uint v - 2147483648) mod 4096 = 0" by simp
  moreover have "uint (V2P v) = (uint v - 2147483648) mod 4294967296" by (simp add: V2P_def uint_word_ariths)
  moreover have "(uint v - 2147483648) mod 4294967296 mod 4096 = (uint v - 2147483648) mod 4096" by (rule mod_mod_cancel) simp
  ultimately have "uint (V2P v) mod 4096 = 0" by simp
  then have "uint (V2P v mod 4096) = 0" by (simp add: uint_mod)
  then show ?thesis by (simp only: unsigned_eq_0_iff)
qed

lemma PDX_page [simp]: "n < 2 ^ 20 \<Longrightarrow> PDX (n * PGSIZE) = n div 1024"
proof -
  assume n: "n < 2 ^ 20"
  have "n * PGSIZE div 2 ^ 22 = n * PGSIZE div PGSIZE div 1024" by (simp add: div_mult2_eq[symmetric])
  then show ?thesis using n by (simp add: PDX_def)
qed

lemma PTX_page [simp]: "PTX (n * PGSIZE) = n mod 1024"
  by (simp add: PTX_def)

section \<open>The table a directory stands for\<close>

text \<open>\<open>tab m d i\<close>: the page table at entry \<open>i\<close>; \<open>pte m d n\<close>: the entry of page number \<open>n\<close>, 0 if there is none.\<close>

definition tab :: "mem \<Rightarrow> u32 \<Rightarrow> nat \<Rightarrow> u32 option" where
  "tab m d i = (let e = pword (ram m d) i in if e AND PTE_P \<noteq> 0 then Some (P2V (PTE_ADDR e)) else None)"

definition pte :: "mem \<Rightarrow> u32 \<Rightarrow> nat \<Rightarrow> u32" where
  "pte m d n = (case tab m d (n div 1024) of None \<Rightarrow> 0 | Some t \<Rightarrow> pword (ram m t) (n mod 1024))"

definition tabs :: "mem \<Rightarrow> u32 \<Rightarrow> u32 set" where
  "tabs m d = {t. \<exists>i < 1024. tab m d i = Some t}"

definition pd_ok :: "mem \<Rightarrow> u32 \<Rightarrow> bool" where
  "pd_ok m d \<longleftrightarrow> valid_page m d \<and> (\<forall>t \<in> tabs m d. valid_page m t) \<and> d \<notin> tabs m d \<and>
     (\<forall>i < 1024. \<forall>j < 1024. \<forall>t. tab m d i = Some t \<and> tab m d j = Some t \<longrightarrow> i = j)"

text \<open>A directory whose pages are not on the free list.\<close>

definition clean :: "u32 \<Rightarrow> mem \<Rightarrow> u32 list \<Rightarrow> bool" where
  "clean d m xs \<longleftrightarrow> free_ok m xs \<and> pd_ok m d \<and> insert d (tabs m d) \<inter> set xs = {}"

text \<open>The directory has grown by tables from the free list; nothing outside of it has changed.\<close>

definition grow :: "u32 \<Rightarrow> mem \<Rightarrow> u32 list \<Rightarrow> mem \<Rightarrow> u32 list \<Rightarrow> bool" where
  "grow d m xs m' ys \<longleftrightarrow> clean d m' ys \<and> (\<exists>zs. xs = zs @ ys \<and> tabs m' d = tabs m d \<union> set zs) \<and>
     (\<forall>p. p \<notin> insert d (tabs m' d) \<longrightarrow> ram m' p = ram m p) \<and> kend m' = kend m \<and> kdata m' = kdata m"

lemma cleanD:
  "clean d m xs \<Longrightarrow> free_ok m xs" "clean d m xs \<Longrightarrow> pd_ok m d" "clean d m xs \<Longrightarrow> d \<notin> set xs"
  "clean d m xs \<Longrightarrow> t \<in> tabs m d \<Longrightarrow> t \<notin> set xs"
  by (auto simp: clean_def)

lemma pd_okD:
  "pd_ok m d \<Longrightarrow> valid_page m d" "pd_ok m d \<Longrightarrow> t \<in> tabs m d \<Longrightarrow> valid_page m t" "pd_ok m d \<Longrightarrow> d \<notin> tabs m d"
  "pd_ok m d \<Longrightarrow> i < 1024 \<Longrightarrow> j < 1024 \<Longrightarrow> tab m d i = Some t \<Longrightarrow> tab m d j = Some t \<Longrightarrow> i = j"
  by (auto simp: pd_ok_def)

lemma tabsI: "i < 1024 \<Longrightarrow> tab m d i = Some t \<Longrightarrow> t \<in> tabs m d"
  by (auto simp: tabs_def)

lemma free_okD: "free_ok m xs \<Longrightarrow> distinct xs" "free_ok m xs \<Longrightarrow> x \<in> set xs \<Longrightarrow> valid_page m x"
  by (auto simp: free_ok_def)

lemma grow_refl: "clean d m xs \<Longrightarrow> grow d m xs m xs"
  by (simp add: grow_def)

lemma grow_clean: "grow d m xs m' ys \<Longrightarrow> clean d m' ys"
  by (simp add: grow_def)

lemma grow_trans:
  assumes "grow d m xs m1 ys" "grow d m1 ys m2 zs"
  shows "grow d m xs m2 zs"
proof -
  obtain a b where a: "xs = a @ ys" "tabs m1 d = tabs m d \<union> set a" "ys = b @ zs" "tabs m2 d = tabs m1 d \<union> set b"
    using assms unfolding grow_def by blast
  have "xs = (a @ b) @ zs \<and> tabs m2 d = tabs m d \<union> set (a @ b)" using a by auto
  then have "\<exists>c. xs = c @ zs \<and> tabs m2 d = tabs m d \<union> set c" by blast
  then show ?thesis using assms a(4) unfolding grow_def by simp
qed

text \<open>The table depends on the pages of directory and tables only.\<close>

lemma tab_cong: "ram m' d = ram m d \<Longrightarrow> tab m' d i = tab m d i"
  by (simp add: tab_def)

lemma tabs_cong: "ram m' d = ram m d \<Longrightarrow> tabs m' d = tabs m d"
  by (simp add: tabs_def tab_def)

lemma pte_cong:
  assumes "\<forall>p \<in> insert d (tabs m d). ram m' p = ram m p" "n < 2 ^ 20"
  shows "pte m' d n = pte m d n"
proof -
  have "tab m' d (n div 1024) = tab m d (n div 1024)" using assms(1) by (intro tab_cong) simp
  moreover have "n div 1024 < 1024" using assms(2) by simp
  ultimately show ?thesis using assms(1) tabsI[of "n div 1024" m d] by (auto simp: pte_def split: option.split)
qed

lemma pd_ok_cong:
  assumes "ram m' d = ram m d" "kend m' = kend m" "pd_ok m d"
  shows "pd_ok m' d"
  using assms tabs_cong[OF assms(1)] tab_cong[OF assms(1)] by (simp add: pd_ok_def valid_page_def)

lemma walk_find: "n < 2 ^ 20 \<Longrightarrow> walkpgdir d (n * PGSIZE) False m = (map_option (\<lambda>t. (t, n mod 1024)) (tab m d (n div 1024)), m)"
  by (simp add: walkpgdir_def tab_def Let_def)

lemma get_pte_tab: "tab m d (n div 1024) = Some t \<Longrightarrow> get_pte (t, n mod 1024) m = pte m d n"
  by (simp add: get_pte_def pte_def)

section \<open>Walking with allocation\<close>

lemma walk_alloc_present:
  assumes "tab m d (n div 1024) = Some t" "n < 2 ^ 20"
  shows "walkpgdir d (n * PGSIZE) True m = (Some (t, n mod 1024), m)"
  using assms by (auto simp: walkpgdir_def tab_def Let_def split: if_splits)

lemma zero_page_pte: "ram m t = (\<lambda>_. 0) \<Longrightarrow> pword (ram m t) j = 0"
  by simp

lemma flags_table: "PTE_P OR PTE_W OR PTE_U AND NOT 0xFFF = (PTE_P OR PTE_W OR PTE_U AND NOT 0xFFF)"
  by simp

lemma table_entry:
  assumes "t mod 4096 = 0"
  shows "(V2P t OR PTE_P OR PTE_W OR PTE_U) AND PTE_P \<noteq> 0" "PTE_ADDR (V2P t OR PTE_P OR PTE_W OR PTE_U) = V2P t"
proof -
  have e: "V2P t OR PTE_P OR PTE_W OR PTE_U = V2P t OR 6 OR 1" by (simp add: or.assoc)
  show "(V2P t OR PTE_P OR PTE_W OR PTE_U) AND PTE_P \<noteq> 0" unfolding e by (rule present_or)
  have "PTE_ADDR (V2P t OR 7) = V2P t" by (rule PTE_ADDR_or[OF V2P_aligned[OF assms]]) simp
  then show "PTE_ADDR (V2P t OR PTE_P OR PTE_W OR PTE_U) = V2P t" by (simp add: or.assoc)
qed

lemma walk_alloc_new:
  assumes c: "clean d m xs" and n: "n < 2 ^ 20" and w: "walkpgdir d (n * PGSIZE) True m = (r, m')" and none: "tab m d (n div 1024) = None"
  shows "case r of None \<Rightarrow> xs = [] \<and> m' = m
    | Some p \<Rightarrow> snd p = n mod 1024 \<and> tab m' d (n div 1024) = Some (fst p) \<and>
        (\<exists>ys. grow d m xs m' ys \<and> (\<forall>k < 2 ^ 20. pte m' d k = pte m d k))"
proof (cases "kalloc m")
  case (Pair o1 m1)
  have pde: "\<not> (pword (ram m d) (n div 1024) AND PTE_P \<noteq> 0)" using none by (auto simp: tab_def Let_def split: if_splits)
  show ?thesis
  proof (cases o1)
    case None
    then have "r = None" "m' = m1" using w pde n Pair by (auto simp: walkpgdir_def Let_def)
    then show ?thesis using kalloc_None[OF cleanD(1)[OF c]] Pair None by simp
  next
    case (Some t)
    obtain ys where ys: "xs = t # ys" "free_ok m1 ys" "ram m1 = ram m" "kend m1 = kend m" "kdata m1 = kdata m"
      using kalloc_Some[OF cleanD(1)[OF c]] Pair Some by blast
    let ?e = "V2P t OR PTE_P OR PTE_W OR PTE_U"
    have d: "t \<noteq> d" "t \<notin> tabs m d" "valid_page m t" "t \<notin> set ys" "d \<notin> set ys" "tabs m d \<inter> set ys = {}"
      using c ys(1) by (auto simp: clean_def free_ok_def)
    have i: "n div 1024 < 1024" using n by simp
    have r: "r = Some (t, n mod 1024)"
      and m': "m' = set_page d (set_word (ram m d) (n div 1024) ?e) (set_page t (\<lambda>_. 0) m1)"
      using w pde n Pair Some ys(3) d(1) by (simp_all add: walkpgdir_def Let_def)
    have al: "t mod 4096 = 0" using d(3) by (simp add: valid_page_def)
    have ram: "ram m' d = set_word (ram m d) (n div 1024) ?e" "ram m' t = (\<lambda>_. 0)" "\<And>p. p \<noteq> d \<Longrightarrow> p \<noteq> t \<Longrightarrow> ram m' p = ram m p"
      using d(1) ys(3) by (simp_all add: m')
    have tab: "tab m' d j = (if j = n div 1024 then Some t else tab m d j)" for j
      using table_entry[OF al] by (simp add: tab_def ram(1) Let_def)
    have tabs: "tabs m' d = insert t (tabs m d)"
    proof (rule set_eqI)
      fix x
      show "x \<in> tabs m' d \<longleftrightarrow> x \<in> insert t (tabs m d)"
      proof
        assume "x \<in> tabs m' d"
        then show "x \<in> insert t (tabs m d)" unfolding tabs_def using tab by (auto split: if_splits)
      next
        assume "x \<in> insert t (tabs m d)"
        then consider "x = t" | j where "j < 1024" "tab m d j = Some x" unfolding tabs_def by auto
        then show "x \<in> tabs m' d"
        proof cases
          case 2
          then have "j \<noteq> n div 1024" using none by auto
          then show ?thesis using 2 tabsI[of j m' d x] tab by simp
        qed (use tabsI[of "n div 1024" m' d t] i tab in simp)
      qed
    qed
    have v: "valid_page m' p = valid_page m p" for p using ys(4) by (simp add: valid_page_def m')
    have pd: "pd_ok m' d"
      unfolding pd_ok_def tabs v tab
    proof (intro conjI)
      show "\<forall>i < 1024. \<forall>j < 1024. \<forall>t'. (if i = n div 1024 then Some t else tab m d i) = Some t' \<and>
          (if j = n div 1024 then Some t else tab m d j) = Some t' \<longrightarrow> i = j"
        using d(2) pd_okD(4)[OF cleanD(2)[OF c]] tabsI[of _ m d t] by (auto split: if_splits)
    qed (use c d in \<open>auto simp: clean_def pd_ok_def\<close>)
    have fo: "free_ok m' ys" unfolding m' by (intro free_ok_set_page ys(2) d(4,5))
    have cl: "clean d m' ys" using fo pd d by (auto simp: clean_def tabs)
    have g: "grow d m xs m' ys" unfolding grow_def
    proof (intro conjI)
      show "\<exists>zs. xs = zs @ ys \<and> tabs m' d = tabs m d \<union> set zs" using ys(1) tabs by (intro exI[of _ "[t]"]) auto
      show "\<forall>p. p \<notin> insert d (tabs m' d) \<longrightarrow> ram m' p = ram m p" using ram(3) tabs by auto
    qed (use cl ys(4,5) in \<open>simp_all add: m'\<close>)
    have "pte m' d k = pte m d k" if k: "k < 2 ^ 20" for k
    proof (cases "k div 1024 = n div 1024")
      case True
      then show ?thesis using tab[of "k div 1024"] none ram(2) by (simp add: pte_def)
    next
      case False
      have "ram m' t' = ram m t'" if "tab m d (k div 1024) = Some t'" for t'
      proof -
        have "t' \<in> tabs m d" by (rule tabsI[OF _ that]) (use k in simp)
        then show ?thesis using d(2) pd_okD(3)[OF cleanD(2)[OF c]] by (intro ram(3)) auto
      qed
      then show ?thesis using tab[of "k div 1024"] False by (simp add: pte_def split: option.split)
    qed
    then show ?thesis using r g tab i by auto
  qed
qed

text \<open>A walk that may allocate finds the entry, or has run out of memory.\<close>

lemma walk_alloc:
  assumes c: "clean d m xs" and n: "n < 2 ^ 20" and w: "walkpgdir d (n * PGSIZE) True m = (r, m')"
  shows "case r of None \<Rightarrow> xs = [] \<and> m' = m
    | Some p \<Rightarrow> snd p = n mod 1024 \<and> tab m' d (n div 1024) = Some (fst p) \<and>
        (\<exists>ys. grow d m xs m' ys \<and> (\<forall>k < 2 ^ 20. pte m' d k = pte m d k))"
proof (cases "tab m d (n div 1024)")
  case None
  then show ?thesis by (rule walk_alloc_new[OF c n w])
next
  case (Some t)
  then show ?thesis using w walk_alloc_present[OF Some n] grow_refl[OF c] by auto
qed

section \<open>Setting an entry\<close>

lemma set_pte_ok:
  assumes c: "clean d m xs" and n: "n < 2 ^ 20" and t: "tab m d (n div 1024) = Some t"
  shows "grow d m xs (set_pte (t, n mod 1024) e m) xs" "tab (set_pte (t, n mod 1024) e m) d = tab m d"
    "k < 2 ^ 20 \<Longrightarrow> pte (set_pte (t, n mod 1024) e m) d k = (if k = n then e else pte m d k)"
    "p \<noteq> t \<Longrightarrow> ram (set_pte (t, n mod 1024) e m) p = ram m p"
proof -
  let ?m = "set_pte (t, n mod 1024) e m"
  have i: "n div 1024 < 1024" using n by simp
  have td: "t \<in> tabs m d" by (rule tabsI[OF i t])
  then have td2: "t \<noteq> d" "t \<notin> set xs" using pd_okD(3)[OF cleanD(2)[OF c]] cleanD(4)[OF c] by auto
  have rd: "ram ?m d = ram m d" using td2 by (simp add: set_pte_def)
  show tb: "tab ?m d = tab m d" using tab_cong[OF rd] by auto
  show rp: "ram ?m p = ram m p" if "p \<noteq> t" for p using that by (simp add: set_pte_def)
  have fo: "free_ok ?m xs" unfolding set_pte_def by (rule free_ok_set_page[OF cleanD(1)[OF c]]) (simp add: td2)
  have pd: "pd_ok ?m d" by (rule pd_ok_cong[OF rd _ cleanD(2)[OF c]]) (simp add: set_pte_def)
  have ts: "tabs ?m d = tabs m d" by (rule tabs_cong[OF rd])
  have cl: "clean d ?m xs" using c fo pd by (simp add: clean_def ts)
  show "grow d m xs ?m xs" unfolding grow_def
  proof (intro conjI)
    show "\<exists>zs. xs = zs @ xs \<and> tabs ?m d = tabs m d \<union> set zs" by (rule exI[of _ "[]"]) (simp add: ts)
    show "\<forall>p. p \<notin> insert d (tabs ?m d) \<longrightarrow> ram ?m p = ram m p" unfolding ts
    proof (intro allI impI)
      fix p assume "p \<notin> insert d (tabs m d)"
      then have "p \<noteq> t" using td by auto
      then show "ram ?m p = ram m p" by (rule rp)
    qed
    show "clean d ?m xs" by (rule cl)
  qed (simp_all add: set_pte_def)
  assume k: "k < 2 ^ 20"
  show "pte ?m d k = (if k = n then e else pte m d k)"
  proof (cases "k div 1024 = n div 1024")
    case True
    show ?thesis
    proof (cases "k = n")
      case True
      then show ?thesis by (simp add: pte_def tb t) (simp add: set_pte_def)
    next
      case False
      then have "k mod 1024 \<noteq> n mod 1024" using True by (metis div_mult_mod_eq)
      then show ?thesis using True False by (simp add: pte_def tb t) (simp add: set_pte_def)
    qed
  next
    case False
    have kd: "k div 1024 < 1024" using k by simp
    have "t' \<noteq> t" if "tab m d (k div 1024) = Some t'" for t'
      using pd_okD(4)[OF cleanD(2)[OF c] kd i that] t False by auto
    then show ?thesis using False by (auto simp: pte_def tb rp split: option.split)
  qed
qed

section \<open>Mapping a range\<close>

text \<open>The \<open>c\<close> pages from \<open>n\<close> on are mapped to physical memory from \<open>pa\<close> on; the other entries are those of \<open>m\<close>.\<close>

definition maps :: "mem \<Rightarrow> u32 \<Rightarrow> mem \<Rightarrow> nat \<Rightarrow> nat \<Rightarrow> u32 \<Rightarrow> u32 \<Rightarrow> bool" where
  "maps m' d m n c pa perm \<longleftrightarrow>
     (\<forall>i < 2 ^ 20. pte m' d i = (if n \<le> i \<and> i < n + c then (pa + of_nat ((i - n) * PGSIZE)) OR perm OR PTE_P else pte m d i))"

lemma maps_step:
  assumes "maps m1 d m n 1 pa perm" "maps m2 d m1 (Suc n) c (pa + 4096) perm"
  shows "maps m2 d m n (Suc c) pa perm"
  unfolding maps_def
proof (intro allI impI)
  fix i :: nat assume i: "i < 2 ^ 20"
  consider "i < n" | "i = n" | "n < i" by linarith
  then show "pte m2 d i = (if n \<le> i \<and> i < n + Suc c then (pa + of_nat ((i - n) * PGSIZE)) OR perm OR PTE_P else pte m d i)"
  proof cases
    case 3
    then have "i - n = Suc (i - Suc n)" by simp
    then have "pa + 4096 + of_nat ((i - Suc n) * PGSIZE) = pa + (of_nat ((i - n) * PGSIZE) :: u32)" by (simp add: algebra_simps)
    then show ?thesis using 3 i assms by (auto simp: maps_def)
  qed (use i assms in \<open>auto simp: maps_def\<close>)
qed

text \<open>
  Mapping absent pages never panics. It succeeds, or it stops when the free list is empty, with
  a first part of the range mapped.
\<close>

definition map_result :: "u32 \<Rightarrow> mem \<Rightarrow> u32 list \<Rightarrow> nat \<Rightarrow> nat \<Rightarrow> u32 \<Rightarrow> u32 \<Rightarrow> int \<Rightarrow> mem \<Rightarrow> bool" where
  "map_result d m xs n c pa perm r m' \<longleftrightarrow>
     (\<exists>ys. grow d m xs m' ys \<and>
        (r = 0 \<and> maps m' d m n c pa perm \<or> r = -1 \<and> ys = [] \<and> (\<exists>j < c. maps m' d m n j pa perm)))"

lemma map_one:
  assumes c: "clean d m xs" and n: "n < 2 ^ 20" and w: "walkpgdir d (n * PGSIZE) True m = (Some p, m1)"
  shows "\<exists>ys. grow d m xs (set_pte p (pa OR perm OR PTE_P) m1) ys \<and> get_pte p m1 = pte m d n \<and>
    maps (set_pte p (pa OR perm OR PTE_P) m1) d m n 1 pa perm"
proof -
  let ?m2 = "set_pte p (pa OR perm OR PTE_P) m1"
  have s: "snd p = n mod 1024" and t: "tab m1 d (n div 1024) = Some (fst p)"
    and "\<exists>ys. grow d m xs m1 ys \<and> (\<forall>k < 2 ^ 20. pte m1 d k = pte m d k)"
    using walk_alloc[OF c n w] by simp_all
  then obtain ys where ys: "grow d m xs m1 ys" "\<forall>k < 2 ^ 20. pte m1 d k = pte m d k" by blast
  have p: "p = (fst p, n mod 1024)" using s by (metis prod.collapse)
  note st = set_pte_ok[OF grow_clean[OF ys(1)] n t, where e = "pa OR perm OR PTE_P", folded p]
  have "get_pte p m1 = pte m1 d n" using get_pte_tab[OF t] p by metis
  then have "get_pte p m1 = pte m d n" using ys(2) n by simp
  moreover have "maps ?m2 d m n 1 pa perm" unfolding maps_def
  proof (intro allI impI)
    fix i :: nat assume i: "i < 2 ^ 20"
    show "pte ?m2 d i = (if n \<le> i \<and> i < n + 1 then (pa + of_nat ((i - n) * PGSIZE)) OR perm OR PTE_P else pte m d i)"
      using st(3)[OF i] ys(2) i by auto
  qed
  ultimately show ?thesis using grow_trans[OF ys(1) st(1)] by blast
qed

lemma map_loop_ok:
  assumes "clean d m xs" "n + k < 2 ^ 20" "\<forall>i. n \<le> i \<and> i \<le> n + k \<longrightarrow> pte m d i AND PTE_P = 0"
  shows "\<exists>r m'. map_loop d k (n * PGSIZE) pa perm m = Inr (r, m') \<and> map_result d m xs n (Suc k) pa perm r m'"
  using assms
proof (induction k arbitrary: n pa m xs)
  case (0 n pa m xs)
  obtain o1 m1 where w: "walkpgdir d (n * PGSIZE) True m = (o1, m1)" by (cases "walkpgdir d (n * PGSIZE) True m")
  have n: "n < 2 ^ 20" using 0(2) by simp
  show ?case
  proof (cases o1)
    case None
    then have "xs = []" "m1 = m" using walk_alloc[OF 0(1) n w] by simp_all
    moreover have "maps m d m n 0 pa perm" by (auto simp: maps_def)
    ultimately show ?thesis using w None grow_refl[OF 0(1)] unfolding map_result_def
      by (intro exI[of _ "-1"] exI[of _ m]) (auto simp: map_loop.simps)
  next
    case (Some p)
    then obtain ys where "grow d m xs (set_pte p (pa OR perm OR PTE_P) m1) ys" "get_pte p m1 = pte m d n"
      "maps (set_pte p (pa OR perm OR PTE_P) m1) d m n 1 pa perm"
      using map_one[OF 0(1) n, of p m1 pa perm] w by blast
    then show ?thesis using w Some 0(3) unfolding map_result_def
      by (intro exI[of _ 0] exI[of _ "set_pte p (pa OR perm OR PTE_P) m1"]) (auto simp: map_loop.simps[of d 0])
  qed
next
  case (Suc k n pa m xs)
  obtain o1 m1 where w: "walkpgdir d (n * PGSIZE) True m = (o1, m1)" by (cases "walkpgdir d (n * PGSIZE) True m")
  have n: "n < 2 ^ 20" using Suc.prems(2) by simp
  show ?case
  proof (cases o1)
    case None
    then have "xs = []" "m1 = m" using walk_alloc[OF Suc.prems(1) n w] by simp_all
    moreover have "maps m d m n 0 pa perm" by (auto simp: maps_def)
    ultimately show ?thesis using w None grow_refl[OF Suc.prems(1)] unfolding map_result_def
      by (intro exI[of _ "-1"] exI[of _ m]) (auto simp: map_loop.simps)
  next
    case (Some p)
    let ?m2 = "set_pte p (pa OR perm OR PTE_P) m1"
    from Some obtain ys where o: "grow d m xs ?m2 ys" "get_pte p m1 = pte m d n" "maps ?m2 d m n 1 pa perm"
      using map_one[OF Suc.prems(1) n, of p m1 pa perm] w by blast
    have abs: "\<forall>i. Suc n \<le> i \<and> i \<le> Suc n + k \<longrightarrow> pte ?m2 d i AND PTE_P = 0"
      using o(3) Suc.prems(2,3) by (auto simp: maps_def)
    have "Suc n + k < 2 ^ 20" using Suc.prems(2) by simp
    from Suc.IH[OF grow_clean[OF o(1)] this abs, of "pa + 4096"] obtain r m' where
      r: "map_loop d k (Suc n * PGSIZE) (pa + 4096) perm ?m2 = Inr (r, m')" "map_result d ?m2 ys (Suc n) (Suc k) (pa + 4096) perm r m'" by blast
    have eq: "map_loop d (Suc k) (n * PGSIZE) pa perm m = Inr (r, m')"
      using w Some o(2) Suc.prems(3) r(1) by (subst map_loop.simps) (simp add: add.commute Let_def)
    obtain zs where z: "grow d ?m2 ys m' zs"
      "r = 0 \<and> maps m' d ?m2 (Suc n) (Suc k) (pa + 4096) perm \<or> r = -1 \<and> zs = [] \<and> (\<exists>j < Suc k. maps m' d ?m2 (Suc n) j (pa + 4096) perm)"
      using r(2) unfolding map_result_def by blast
    have "map_result d m xs n (Suc (Suc k)) pa perm r m'" unfolding map_result_def
    proof (intro exI conjI)
      show "grow d m xs m' zs" by (rule grow_trans[OF o(1) z(1)])
      from z(2) show "r = 0 \<and> maps m' d m n (Suc (Suc k)) pa perm \<or> r = -1 \<and> zs = [] \<and> (\<exists>j < Suc (Suc k). maps m' d m n j pa perm)"
      proof (elim disjE conjE exE)
        assume "r = 0" "maps m' d ?m2 (Suc n) (Suc k) (pa + 4096) perm"
        then show ?thesis using maps_step[OF o(3)] by blast
      next
        fix j assume "r = -1" "zs = []" "j < Suc k" "maps m' d ?m2 (Suc n) j (pa + 4096) perm"
        then show ?thesis using maps_step[OF o(3)] by (metis Suc_less_eq)
      qed
    qed
    then show ?thesis using eq by blast
  qed
qed

lemma round_pages: "0 < c \<Longrightarrow> PGROUNDDOWN (n * PGSIZE + c * PGSIZE - 1) = (n + c - 1) * PGSIZE" "PGROUNDDOWN (n * PGSIZE) = n * PGSIZE"
proof -
  assume "0 < c"
  then have "n * PGSIZE + c * PGSIZE - 1 = (n + c - 1) * PGSIZE + 4095" by (cases c) simp_all
  then have "(n * PGSIZE + c * PGSIZE - 1) div PGSIZE = n + c - 1" by (simp add: div_mult_self3)
  then show "PGROUNDDOWN (n * PGSIZE + c * PGSIZE - 1) = (n + c - 1) * PGSIZE" by (simp only: PGROUNDDOWN_def)
qed (simp add: PGROUNDDOWN_def)

lemma mappages_ok:
  assumes "clean d m xs" "0 < c" "n + c \<le> 2 ^ 20" "\<forall>i. n \<le> i \<and> i < n + c \<longrightarrow> pte m d i AND PTE_P = 0"
  shows "\<exists>r m'. mappages d (n * PGSIZE) (c * PGSIZE) pa perm m = Inr (r, m') \<and> map_result d m xs n c pa perm r m'"
proof -
  have k: "Suc (c - 1) = c" using assms(2) by simp
  have "(n + c - 1) * PGSIZE - n * PGSIZE = (c - 1) * PGSIZE" using assms(2) by (simp flip: diff_mult_distrib)
  then have "((n + c - 1) * PGSIZE - n * PGSIZE) div PGSIZE = c - 1" by simp
  then have "mappages d (n * PGSIZE) (c * PGSIZE) pa perm m = map_loop d (c - 1) (n * PGSIZE) pa perm m"
    unfolding mappages_def Let_def round_pages(1)[OF assms(2)] round_pages(2) by simp
  moreover have "\<exists>r m'. map_loop d (c - 1) (n * PGSIZE) pa perm m = Inr (r, m') \<and> map_result d m xs n (Suc (c - 1)) pa perm r m'"
    by (rule map_loop_ok[OF assms(1)]) (use assms(2-4) in auto)
  ultimately show ?thesis unfolding k by simp
qed

text \<open>Tables are at most 1024, so with more free pages than that mapping succeeds.\<close>

lemma grow_count: "grow d m xs m' ys \<Longrightarrow> length xs + card (tabs m d) = length ys + card (tabs m' d)"
  if "clean d m xs"
proof -
  assume g: "grow d m xs m' ys"
  then obtain zs where z: "xs = zs @ ys" "tabs m' d = tabs m d \<union> set zs" unfolding grow_def by blast
  have "distinct zs" "tabs m d \<inter> set zs = {}" using that z(1) by (auto simp: clean_def free_ok_def)
  moreover have "finite (tabs m d)"
  proof -
    have "tabs m d \<subseteq> (\<lambda>i. the (tab m d i)) ` {..<1024}" by (force simp: tabs_def image_iff)
    then show ?thesis by (rule finite_subset) simp
  qed
  ultimately have "card (tabs m' d) = card (tabs m d) + length zs" using z(2) by (simp add: card_Un_disjoint distinct_card)
  then show ?thesis using z(1) by simp
qed

lemma card_tabs: "card (tabs m d) \<le> 1024"
proof -
  have "tabs m d \<subseteq> (\<lambda>i. the (tab m d i)) ` {..<1024}" by (force simp: tabs_def image_iff)
  then have "card (tabs m d) \<le> card ((\<lambda>i. the (tab m d i)) ` {..<1024})" by (intro card_mono) simp_all
  also have "\<dots> \<le> 1024" using card_image_le[of "{..<1024}" "\<lambda>i. the (tab m d i)"] by simp
  finally show ?thesis .
qed

lemma map_result_enough:
  assumes "map_result d m xs n c pa perm r m'" "clean d m xs" "1024 < length xs + card (tabs m d)"
  shows "r = 0 \<and> (\<exists>ys. grow d m xs m' ys \<and> 1024 < length ys + card (tabs m' d) \<and> maps m' d m n c pa perm)"
proof -
  obtain ys where ys: "grow d m xs m' ys" "r = 0 \<and> maps m' d m n c pa perm \<or> r = -1 \<and> ys = [] \<and> (\<exists>j < c. maps m' d m n j pa perm)"
    using assms(1) unfolding map_result_def by blast
  note c = grow_count[OF assms(2) ys(1)]
  have "ys \<noteq> []" using c assms(3) card_tabs[of m' d] by auto
  then show ?thesis using ys c assms(3) by auto
qed

end
