(* ===== verification/Vm_Space.thy ===== *)
theory Vm_Space
  imports Vm_Walk
begin

text \<open>
  Address spaces: the pages a directory owns, and what creating, growing, shrinking, copying and
  freeing a space does to them. Every operation conserves the pages: those owned by the space
  together with the free ones.
\<close>

section \<open>The kernel part of a space\<close>

text \<open>What the code relies on of the linker's symbols.\<close>

definition sym_ok :: "mem \<Rightarrow> bool" where
  "sym_ok m \<longleftrightarrow> KERNBASE < kend m \<and> kdata m mod 4096 = 0 \<and> KERNLINK < kdata m \<and> kdata m < KERNBASE + PHYSTOP"

text \<open>The entries of a table of \<open>kmap\<close>'s form.\<close>

definition kmapped :: "mem \<Rightarrow> u32 \<Rightarrow> (u32 \<times> u32 \<times> u32 \<times> u32) list \<Rightarrow> bool" where
  "kmapped m d ks \<longleftrightarrow>
     (\<forall>(virt, start, fin, perm) \<in> set ks. \<forall>j. j * PGSIZE < unat (fin - start) \<longrightarrow>
        pte m d (unat virt div PGSIZE + j) = (start + of_nat (j * PGSIZE)) OR perm OR PTE_P)"

fun ranges_ok :: "nat \<Rightarrow> (u32 \<times> u32 \<times> u32 \<times> u32) list \<Rightarrow> bool" where
  "ranges_ok lo [] \<longleftrightarrow> True"
| "ranges_ok lo ((virt, start, fin, perm) # ks) \<longleftrightarrow>
     (\<exists>n c. unat virt = n * PGSIZE \<and> unat (fin - start) = c * PGSIZE \<and> 0 < c \<and> lo \<le> n \<and> n + c \<le> 2 ^ 20 \<and> ranges_ok (n + c) ks)"

lemma ranges_ok_le: "ranges_ok lo ks \<Longrightarrow> (virt, start, fin, perm) \<in> set ks \<Longrightarrow> lo * PGSIZE \<le> unat virt"
proof (induction ks arbitrary: lo)
  case (Cons k ks)
  obtain v s f p where k: "k = (v, s, f, p)" by (cases k)
  obtain n c where n: "unat v = n * PGSIZE" "lo \<le> n" "ranges_ok (n + c) ks" using Cons.prems(1) unfolding k by auto
  show ?case
  proof (cases "(virt, start, fin, perm) = k")
    case True
    then show ?thesis using n k by simp
  next
    case False
    then have "(n + c) * PGSIZE \<le> unat virt" using Cons.IH[OF n(3)] Cons.prems(2) by auto
    then show ?thesis using n(2) by simp
  qed
qed simp

lemma kmap_loop_ok:
  assumes "clean d m xs" "ranges_ok lo ks" "\<forall>i. lo \<le> i \<and> i < 2 ^ 20 \<longrightarrow> pte m d i AND PTE_P = 0"
  shows "\<exists>r m' ys. kmap_loop d ks m = Inr (r, m') \<and> grow d m xs m' ys \<and> (r = 0 \<and> kmapped m' d ks \<or> r = -1 \<and> ys = []) \<and>
    (\<forall>i < lo. i < 2 ^ 20 \<longrightarrow> pte m' d i = pte m d i)"
  using assms
proof (induction ks arbitrary: lo m xs)
  case Nil
  then show ?case by (intro exI[of _ 0] exI[of _ m] exI[of _ xs]) (simp add: grow_refl kmapped_def)
next
  case (Cons k ks lo m xs)
  obtain virt start fin perm where k: "k = (virt, start, fin, perm)" by (cases k)
  obtain n c where n: "unat virt = n * PGSIZE" "unat (fin - start) = c * PGSIZE" "0 < c" "lo \<le> n" "n + c \<le> 2 ^ 20" "ranges_ok (n + c) ks"
    using Cons.prems(2) unfolding k by auto
  have abs: "\<forall>i. n \<le> i \<and> i < n + c \<longrightarrow> pte m d i AND PTE_P = 0" using Cons.prems(3) n(4,5) by simp
  obtain r m1 where r: "mappages d (n * PGSIZE) (c * PGSIZE) start perm m = Inr (r, m1)" "map_result d m xs n c start perm r m1"
    using mappages_ok[OF Cons.prems(1) n(3,5) abs] by blast
  obtain ys where ys: "grow d m xs m1 ys" and
    cases: "r = 0 \<and> maps m1 d m n c start perm \<or> r = -1 \<and> ys = [] \<and> (\<exists>j < c. maps m1 d m n j start perm)"
    using r(2) unfolding map_result_def by blast
  from cases show ?case
  proof (elim disjE conjE exE)
    assume r0: "r = 0" and mp: "maps m1 d m n c start perm"
    have "\<forall>i. n + c \<le> i \<and> i < 2 ^ 20 \<longrightarrow> pte m1 d i AND PTE_P = 0"
      using mp Cons.prems(3) n(4) by (auto simp: maps_def)
    from Cons.IH[OF grow_clean[OF ys] n(6) this] obtain r' m' zs where
      r': "kmap_loop d ks m1 = Inr (r', m')" "grow d m1 ys m' zs" "r' = 0 \<and> kmapped m' d ks \<or> r' = -1 \<and> zs = []"
        "\<forall>i < n + c. i < 2 ^ 20 \<longrightarrow> pte m' d i = pte m1 d i"
      by blast
    have eq: "kmap_loop d (k # ks) m = Inr (r', m')" using r(1) r0 r'(1) n(1,2) by (simp add: k)
    have "kmapped m' d (k # ks)" if "kmapped m' d ks"
    proof -
      have "pte m' d (n + j) = (start + of_nat (j * PGSIZE)) OR perm OR PTE_P" if "j < c" for j
        using r'(4) mp that n(5) by (simp add: maps_def)
      then show ?thesis using that n(1,2) unfolding kmapped_def k by auto
    qed
    moreover have "\<forall>i < lo. i < 2 ^ 20 \<longrightarrow> pte m' d i = pte m d i" using r'(4) mp n(4) by (auto simp: maps_def)
    ultimately show ?thesis using eq grow_trans[OF ys r'(2)] r'(3) by blast
  next
    fix j assume f: "r = -1" "ys = []" "j < c" "maps m1 d m n j start perm"
    have "kmap_loop d (k # ks) m = Inr (-1, m1)" using r(1) f(1) n(1,2) by (simp add: k)
    moreover have "\<forall>i < lo. i < 2 ^ 20 \<longrightarrow> pte m1 d i = pte m d i" using f(4) n(4) by (auto simp: maps_def)
    ultimately show ?thesis using ys f(2) by blast
  qed
qed

lemma kmap_ranges:
  assumes "sym_ok m"
  shows "ranges_ok 0x80000 (kmap m)"
proof -
  define K where "K = unat (kdata m) div PGSIZE"
  have "kdata m mod 4096 = 0" using assms by (simp add: sym_ok_def)
  moreover have "unat (kdata m mod 4096) = unat (kdata m) mod PGSIZE" by (simp add: unat_mod)
  ultimately have "unat (kdata m) mod PGSIZE = 0" by simp
  then have K: "unat (kdata m) = K * PGSIZE" unfolding K_def by auto
  have b: "0x80100 < K" "K < 0x8E000" using assms K by (simp_all add: sym_ok_def word_less_nat_alt)
  have 1: "unat (V2P (kdata m) - V2P KERNLINK) = (K - 0x80100) * PGSIZE"
  proof -
    have "V2P (kdata m) - V2P KERNLINK = kdata m - KERNLINK" by (simp add: V2P_def)
    moreover have "unat (kdata m - KERNLINK) = unat (kdata m) - 0x80100000" using assms by (subst unat_sub) (simp_all add: sym_ok_def less_imp_le)
    ultimately show ?thesis using K b by (simp add: diff_mult_distrib)
  qed
  have 2: "unat (PHYSTOP - V2P (kdata m)) = (0x8E000 - K) * PGSIZE"
  proof -
    have p: "PHYSTOP - V2P (kdata m) = 0x8E000000 - kdata m" by (simp add: V2P_def)
    have "unat (0x8E000000 - kdata m) = 0x8E000000 - unat (kdata m)" using assms by (subst unat_sub) (simp_all add: sym_ok_def less_imp_le)
    then show ?thesis unfolding p using K b by (simp add: diff_mult_distrib)
  qed
  have r4: "ranges_ok 0x8E000 [(DEVSPACE, DEVSPACE, 0, PTE_W)]"
    unfolding ranges_ok.simps by (intro exI[of _ "0xFE000"] exI[of _ "0x2000"]) simp
  have r3: "ranges_ok K [(kdata m, V2P (kdata m), PHYSTOP, PTE_W), (DEVSPACE, DEVSPACE, 0, PTE_W)]"
    unfolding ranges_ok.simps(2) by (intro exI[of _ K] exI[of _ "0x8E000 - K"]) (use K b 2 r4 in simp)
  have r2: "ranges_ok 0x80100 [(KERNLINK, V2P KERNLINK, V2P (kdata m), 0), (kdata m, V2P (kdata m), PHYSTOP, PTE_W), (DEVSPACE, DEVSPACE, 0, PTE_W)]"
    unfolding ranges_ok.simps(2) by (intro exI[of _ "0x80100"] exI[of _ "K - 0x80100"]) (use b 1 r3 in simp)
  show ?thesis unfolding kmap_def ranges_ok.simps(2) by (intro exI[of _ "0x80000"] exI[of _ "0x100"]) (use r2 in simp)
qed

section \<open>The user part of a space\<close>

abbreviation (input) UPAGES :: nat where "UPAGES \<equiv> 0x80000"

text \<open>\<open>fr m d n\<close>: the physical page of user page \<open>n\<close>.\<close>

definition fr :: "mem \<Rightarrow> u32 \<Rightarrow> nat \<Rightarrow> u32 option" where
  "fr m d n = (if pte m d n AND PTE_P \<noteq> 0 then Some (P2V (PTE_ADDR (pte m d n))) else None)"

definition frames :: "mem \<Rightarrow> u32 \<Rightarrow> u32 set" where
  "frames m d = {f. \<exists>n < UPAGES. fr m d n = Some f}"

definition own :: "mem \<Rightarrow> u32 \<Rightarrow> u32 set" where
  "own m d = insert d (tabs m d \<union> frames m d)"

text \<open>A sound address space next to the free list \<open>xs\<close>: no page is used twice.\<close>

definition space :: "u32 \<Rightarrow> mem \<Rightarrow> u32 list \<Rightarrow> bool" where
  "space d m xs \<longleftrightarrow> clean d m xs \<and> (\<forall>f \<in> frames m d. valid_page m f) \<and> frames m d \<inter> (insert d (tabs m d) \<union> set xs) = {} \<and>
     (\<forall>i < UPAGES. \<forall>j < UPAGES. \<forall>f. fr m d i = Some f \<and> fr m d j = Some f \<longrightarrow> i = j)"

lemma spaceD:
  "space d m xs \<Longrightarrow> clean d m xs" "space d m xs \<Longrightarrow> f \<in> frames m d \<Longrightarrow> valid_page m f"
  "space d m xs \<Longrightarrow> f \<in> frames m d \<Longrightarrow> f \<noteq> d" "space d m xs \<Longrightarrow> f \<in> frames m d \<Longrightarrow> f \<notin> tabs m d"
  "space d m xs \<Longrightarrow> f \<in> frames m d \<Longrightarrow> f \<notin> set xs"
  "space d m xs \<Longrightarrow> i < UPAGES \<Longrightarrow> j < UPAGES \<Longrightarrow> fr m d i = Some f \<Longrightarrow> fr m d j = Some f \<Longrightarrow> i = j"
  by (auto simp: space_def)

lemma space_own: "space d m xs \<Longrightarrow> own m d \<inter> set xs = {}"
  by (auto simp: space_def own_def clean_def)

lemma framesI: "n < UPAGES \<Longrightarrow> fr m d n = Some f \<Longrightarrow> f \<in> frames m d"
  by (auto simp: frames_def)

lemma fr_cong: "pte m' d n = pte m d n \<Longrightarrow> fr m' d n = fr m d n"
  by (simp add: fr_def)

lemma frames_cong: "\<forall>n < UPAGES. fr m' d n = fr m d n \<Longrightarrow> frames m' d = frames m d"
  by (auto simp: frames_def)

lemma valid_page_cong: "kend m' = kend m \<Longrightarrow> valid_page m' f = valid_page m f"
  by (simp add: valid_page_def)

text \<open>A frame of a valid page, as the code packs it into an entry.\<close>

lemma fr_entry:
  assumes "f mod 4096 = 0" "fl AND NOT 0xFFF = 0" "pte m d n = V2P f OR fl OR PTE_P"
  shows "fr m d n = Some f" "PTE_FLAGS (pte m d n) = fl OR PTE_P" "PTE_ADDR (pte m d n) = V2P f"
proof -
  have "(fl OR PTE_P) AND NOT 0xFFF = (fl AND NOT 0xFFF) OR (PTE_P AND NOT 0xFFF)" by (rule bit.conj_disj_distrib2)
  then have l: "(fl OR PTE_P) AND NOT 0xFFF = 0" unfolding assms(2) by simp
  note v = V2P_aligned[OF assms(1)]
  show a: "PTE_ADDR (pte m d n) = V2P f" unfolding assms(3) by (rule PTE_ADDR_or[OF v l])
  show "PTE_FLAGS (pte m d n) = fl OR PTE_P" unfolding assms(3) by (rule PTE_FLAGS_or[OF v l])
  show "fr m d n = Some f" unfolding fr_def a using assms(3) by simp
qed

section \<open>Mapping one user page\<close>

lemma space_map_page:
  assumes s: "space d m xs" and f: "valid_page m f" "f \<notin> own m d" "f \<notin> set xs" and n: "n < UPAGES" "fr m d n = None"
    and fl: "fl AND NOT 0xFFF = 0"
  shows "\<exists>r m' ys. mappages d (n * PGSIZE) PGSIZE (V2P f) fl m = Inr (r, m') \<and> kend m' = kend m \<and> kdata m' = kdata m \<and>
    (\<forall>p. p \<notin> insert d (tabs m' d) \<longrightarrow> ram m' p = ram m p) \<and> f \<notin> insert d (tabs m' d) \<union> set ys \<and> tabs m' d \<subseteq> tabs m d \<union> set xs \<and> set ys \<subseteq> set xs \<and>
    space d m' ys \<and> insert f (own m' d \<union> set ys) = insert f (own m d \<union> set xs) \<and>
    (if r = 0 then (\<forall>k < 2 ^ 20. pte m' d k = (if k = n then V2P f OR fl OR PTE_P else pte m d k)) \<and> fr m' d n = Some f \<and> length xs + card (tabs m d) = length ys + card (tabs m' d)
     else r = -1 \<and> ys = [] \<and> length xs + card (tabs m d) \<le> 1024 \<and> f \<notin> own m' d \<and> (\<forall>k < 2 ^ 20. pte m' d k = pte m d k))"
proof -
  note c = spaceD(1)[OF s]
  have n20: "n + 1 \<le> 2 ^ 20" "n < 2 ^ 20" using n by simp_all
  have np: "pte m d n AND PTE_P = 0" using n(2) by (auto simp: fr_def split: if_splits)
  have abs: "\<forall>i. n \<le> i \<and> i < n + 1 \<longrightarrow> pte m d i AND PTE_P = 0"
  proof (intro allI impI)
    fix i assume "n \<le> i \<and> i < n + 1"
    then have "i = n" by simp
    then show "pte m d i AND PTE_P = 0" using np by simp
  qed
  obtain r m' where mp: "mappages d (n * PGSIZE) PGSIZE (V2P f) fl m = Inr (r, m')" and mr: "map_result d m xs n 1 (V2P f) fl r m'"
    using mappages_ok[OF c zero_less_one n20(1) abs, of "V2P f" fl] by auto
  obtain ys where g: "grow d m xs m' ys" and rc: "r = 0 \<and> maps m' d m n 1 (V2P f) fl \<or> r = -1 \<and> ys = [] \<and> (\<exists>j < 1. maps m' d m n j (V2P f) fl)"
    using mr unfolding map_result_def by blast
  obtain zs where zs: "xs = zs @ ys" "tabs m' d = tabs m d \<union> set zs" using g unfolding grow_def by blast
  have gr: "clean d m' ys" "kend m' = kend m" "kdata m' = kdata m" "\<forall>p. p \<notin> insert d (tabs m' d) \<longrightarrow> ram m' p = ram m p"
    using g unfolding grow_def by blast+
  note cnt = grow_count[OF c g]
  have fd: "f \<notin> insert d (tabs m' d) \<union> set ys" using f(2,3) zs by (auto simp: own_def)
  have fz: "frames m d \<inter> (insert d (tabs m' d) \<union> set ys) = {}" using s zs unfolding space_def by auto
  have fo: "f \<notin> frames m d" using f(2) by (simp add: own_def)
  have al: "f mod 4096 = 0" using f(1) by (simp add: valid_page_def)
  note vp = valid_page_cong[OF gr(2)]
  have sub: "tabs m' d \<subseteq> tabs m d \<union> set xs" "set ys \<subseteq> set xs" using zs by auto
  from rc show ?thesis
  proof (elim disjE conjE exE)
    assume r0: "r = 0" and mps: "maps m' d m n 1 (V2P f) fl"
    have pt: "\<forall>k < 2 ^ 20. pte m' d k = (if k = n then V2P f OR fl OR PTE_P else pte m d k)"
    proof (intro allI impI)
      fix k :: nat assume k: "k < 2 ^ 20"
      show "pte m' d k = (if k = n then V2P f OR fl OR PTE_P else pte m d k)" using mps k unfolding maps_def by (cases "k = n") auto
    qed
    have fn: "fr m' d n = Some f" by (rule fr_entry(1)[OF al fl]) (use pt n20 in simp)
    have fk: "fr m' d k = (if k = n then Some f else fr m d k)" if "k < UPAGES" for k
      using pt fn that fr_cong[of m' d k m] by (cases "k = n") simp_all
    have fs: "frames m' d = insert f (frames m d)"
    proof (rule set_eqI)
      fix x
      show "x \<in> frames m' d \<longleftrightarrow> x \<in> insert f (frames m d)"
      proof
        assume "x \<in> frames m' d"
        then obtain k where "k < UPAGES" "fr m' d k = Some x" unfolding frames_def by blast
        then show "x \<in> insert f (frames m d)" using fk framesI[of k m d x] by (auto split: if_splits)
      next
        assume "x \<in> insert f (frames m d)"
        then consider "x = f" | k where "k < UPAGES" "fr m d k = Some x" unfolding frames_def by blast
        then show "x \<in> frames m' d"
        proof cases
          case 1
          then show ?thesis using framesI[OF n(1) fn] by simp
        next
          case (2 k)
          then have "k \<noteq> n" using n(2) by auto
          then show ?thesis using framesI[OF 2(1), of m' d x] fk[OF 2(1)] 2(2) by simp
        qed
      qed
    qed
    have inj: "\<forall>i < UPAGES. \<forall>j < UPAGES. \<forall>g. fr m' d i = Some g \<and> fr m' d j = Some g \<longrightarrow> i = j"
    proof (intro allI impI)
      fix i j g assume ij: "i < UPAGES" "j < UPAGES" "fr m' d i = Some g \<and> fr m' d j = Some g"
      show "i = j"
      proof (cases "i = n \<or> j = n")
        case True
        then have "g = f" using ij fn by auto
        then show ?thesis using ij fk[OF ij(1)] fk[OF ij(2)] fo framesI by (auto split: if_splits)
      next
        case False
        then show ?thesis using spaceD(6)[OF s ij(1,2)] ij fk[OF ij(1)] fk[OF ij(2)] by simp
      qed
    qed
    have sp: "space d m' ys" unfolding space_def vp
    proof (intro conjI)
      show "\<forall>g \<in> frames m' d. valid_page m g" using spaceD(2)[OF s] f(1) fs by auto
      show "frames m' d \<inter> (insert d (tabs m' d) \<union> set ys) = {}" using fz fd fs by auto
    qed (use gr(1) inj in blast)+
    have ow: "insert f (own m' d \<union> set ys) = insert f (own m d \<union> set xs)" unfolding own_def fs zs by auto
    show ?thesis
      by (rule exI[of _ r], rule exI[of _ m'], rule exI[of _ ys]) (use mp gr r0 fd sp ow pt fn cnt sub in simp)
  next
    fix j :: nat assume r1: "r = -1" "ys = []" "j < 1" "maps m' d m n j (V2P f) fl"
    then have pt: "\<forall>k < 2 ^ 20. pte m' d k = pte m d k" by (auto simp: maps_def)
    have fk: "\<forall>k < UPAGES. fr m' d k = fr m d k"
    proof (intro allI impI)
      fix k :: nat assume "k < UPAGES"
      then show "fr m' d k = fr m d k" by (intro fr_cong pt[rule_format]) simp
    qed
    have fs: "frames m' d = frames m d" by (rule frames_cong[OF fk])
    have sp: "space d m' ys" unfolding space_def vp fs
    proof (intro conjI)
      show "\<forall>i < UPAGES. \<forall>j < UPAGES. \<forall>g. fr m' d i = Some g \<and> fr m' d j = Some g \<longrightarrow> i = j" using spaceD(6)[OF s] fk by auto
    qed (use gr(1) fz spaceD(2)[OF s] in blast)+
    have ow: "own m' d \<union> set ys = own m d \<union> set xs" unfolding own_def fs zs by auto
    have lim: "length xs + card (tabs m d) \<le> 1024" using cnt r1(2) card_tabs[of m' d] by simp
    have fno: "f \<notin> own m' d" using fd fo fs by (simp add: own_def)
    show ?thesis
      by (rule exI[of _ r], rule exI[of _ m'], rule exI[of _ ys]) (use mp gr r1 fd sp ow pt lim fno sub in simp)
  qed
qed

section \<open>Creating a space\<close>

lemma free_ok_kend: "free_ok m xs \<Longrightarrow> kend m' = kend m \<Longrightarrow> ram m' = ram m \<Longrightarrow> freelist m' = freelist m \<Longrightarrow> free_ok m' xs"
  by (rule free_ok_cong) simp_all

lemma empty_dir:
  assumes "free_ok m xs" "valid_page m d" "d \<notin> set xs" "ram m d = (\<lambda>_. 0)"
  shows "clean d m xs" "tabs m d = {}" "pte m d n = 0"
proof -
  have t: "tab m d i = None" for i using assms(4) by (simp add: tab_def)
  show "tabs m d = {}" using t by (simp add: tabs_def)
  then show "clean d m xs" using assms t by (simp add: clean_def pd_ok_def)
  show "pte m d n = 0" using t by (simp add: pte_def)
qed

lemma setupkvm_ok:
  assumes f: "free_ok m xs" and sy: "sym_ok m"
  shows "\<exists>r m' ys. setupkvm m = Inr (r, m') \<and> free_ok m' ys \<and> (\<exists>zs. xs = zs @ ys) \<and> (\<forall>p. p \<notin> set xs \<longrightarrow> ram m' p = ram m p) \<and>
    kend m' = kend m \<and> kdata m' = kdata m \<and>
    (case r of None \<Rightarrow> ys = [] \<and> length xs \<le> 1025
     | Some d \<Rightarrow> space d m' ys \<and> own m' d \<union> set ys = set xs \<and> d \<in> set xs \<and> (\<forall>n < UPAGES. pte m' d n = 0) \<and> kmapped m' d (kmap m) \<and>
         (1025 < length xs \<longrightarrow> 1024 < length ys + card (tabs m' d)))"
proof (cases "kalloc m")
  case (Pair o1 m1)
  show ?thesis
  proof (cases o1)
    case None
    then have "xs = []" "m1 = m" using kalloc_None[OF f] Pair by auto
    then show ?thesis using None Pair f by (intro exI[of _ None] exI[of _ m] exI[of _ "[]"]) (simp add: setupkvm_def)
  next
    case (Some d)
    obtain ys where ys: "xs = d # ys" "free_ok m1 ys" "ram m1 = ram m" "kend m1 = kend m" "kdata m1 = kdata m"
      using kalloc_Some[OF f] Pair Some by blast
    let ?m2 = "set_page d (\<lambda>_. 0) m1"
    have v: "valid_page ?m2 d" "d \<notin> set ys" using f ys(1,4) by (simp_all add: free_ok_def valid_page_def)
    have f2: "free_ok ?m2 ys" by (rule free_ok_set_page[OF ys(2) v(2)])
    have z: "ram ?m2 d = (\<lambda>_. 0)" by simp
    note e = empty_dir[OF f2 v z]
    have km: "kmap ?m2 = kmap m" using ys(5) by (simp add: kmap_def)
    have rg: "ranges_ok 0x80000 (kmap m)" by (rule kmap_ranges[OF sy])
    have "\<forall>i. 0x80000 \<le> i \<and> i < 2 ^ 20 \<longrightarrow> pte ?m2 d i AND PTE_P = 0" using e(3) by simp
    from kmap_loop_ok[OF e(1) rg this] obtain r m' zs where r: "kmap_loop d (kmap m) ?m2 = Inr (r, m')" "grow d ?m2 ys m' zs"
      "r = 0 \<and> kmapped m' d (kmap m) \<or> r = -1 \<and> zs = []" "\<forall>i < 0x80000. i < 2 ^ 20 \<longrightarrow> pte m' d i = pte ?m2 d i" by blast
    obtain as where as: "ys = as @ zs" "tabs m' d = tabs ?m2 d \<union> set as" using r(2) unfolding grow_def by blast
    have g: "clean d m' zs" "kend m' = kend m" "kdata m' = kdata m" "\<forall>p. p \<notin> insert d (tabs m' d) \<longrightarrow> ram m' p = ram ?m2 p"
      using r(2) ys(4,5) unfolding grow_def by simp_all
    note cnt = grow_count[OF e(1) r(2)]
    have tb: "tabs m' d = set as" using as(2) e(2) by simp
    have ram: "\<forall>p. p \<notin> set xs \<longrightarrow> ram m' p = ram m p" using g(4) tb ys(1,3) as(1) by auto
    have up: "\<forall>n < UPAGES. pte m' d n = 0" using r(4) e(3) by simp
    then have fr0: "fr m' d n = None" if "n < UPAGES" for n using that by (simp add: fr_def)
    then have fm: "frames m' d = {}" by (auto simp: frames_def)
    have P: "\<not> DEVSPACE < P2V PHYSTOP" by (simp add: P2V_def)
    have eq: "setupkvm m = Inr (if r < 0 then None else Some d, m')" using Pair Some r(1) km P by (simp add: setupkvm_def Let_def)
    show ?thesis
    proof (cases "r < 0")
      case True
      then have z0: "zs = []" using r(3) by auto
      have "length xs \<le> 1025" using cnt e(2) z0 card_tabs[of m' d] ys(1) by simp
      then show ?thesis using eq True g ram z0 cleanD(1)[OF g(1)]
        by (intro exI[of _ None] exI[of _ m'] exI[of _ "[]"]) simp
    next
      case False
      have sp: "space d m' zs" unfolding space_def fm using g(1) fr0 by simp
      have ow: "own m' d \<union> set zs = set xs" using fm tb as(1) ys(1) by (auto simp: own_def)
      have "\<exists>ws. xs = ws @ zs" using as(1) ys(1) by (intro exI[of _ "d # as"]) simp
      then show ?thesis using eq False g ram sp ow up r(3) cnt e(2) ys(1) cleanD(1)[OF g(1)]
        by (intro exI[of _ "Some d"] exI[of _ m'] exI[of _ zs]) auto
    qed
  qed
qed

end
