(* ===== verification/Vm_Alloc.thy ===== *)
theory Vm_Alloc
  imports Vm_Space
begin

text \<open>
  Growing, shrinking, freeing and copying the user part of an address space.
\<close>

section \<open>Sizes and pages\<close>

definition npages :: "nat \<Rightarrow> nat" where "npages sz = (sz + PGSIZE - 1) div PGSIZE"

lemma PGROUNDUP_npages: "PGROUNDUP sz = npages sz * PGSIZE"
  by (simp add: PGROUNDUP_def npages_def)

lemma page_less: "n * PGSIZE < sz \<longleftrightarrow> n < npages sz"
proof
  assume "n * PGSIZE < sz"
  then have "Suc n * PGSIZE \<le> sz + PGSIZE - 1" by simp
  then have "Suc n * PGSIZE div PGSIZE \<le> npages sz" unfolding npages_def by (rule div_le_mono)
  then show "n < npages sz" by simp
next
  assume "n < npages sz"
  then have "Suc n * PGSIZE \<le> npages sz * PGSIZE" by (intro mult_le_mono1) simp
  also have "\<dots> \<le> sz + PGSIZE - 1" by (simp add: npages_def)
  finally show "n * PGSIZE < sz" by simp
qed

lemma npages_mono: "a \<le> b \<Longrightarrow> npages a \<le> npages b"
  unfolding npages_def by (intro div_le_mono) simp

lemma npages_simps [simp]: "npages 0 = 0" "npages (n * PGSIZE) = n"
proof -
  show "npages (n * PGSIZE) = n"
  proof (rule antisym)
    show "npages (n * PGSIZE) \<le> n" using page_less[of n "n * PGSIZE"] by simp
    show "n \<le> npages (n * PGSIZE)" using page_less[of "n - 1" "n * PGSIZE"] by (cases n) auto
  qed
qed (simp add: npages_def)

section \<open>Freeing a page of the space\<close>

lemma fr_Some: "fr m d n = Some f \<Longrightarrow> pte m d n AND PTE_P \<noteq> 0 \<and> f = P2V (PTE_ADDR (pte m d n))"
  by (auto simp: fr_def split: if_splits)

lemma fr_tab: "fr m d n = Some f \<Longrightarrow> \<exists>t. tab m d (n div 1024) = Some t"
  by (cases "tab m d (n div 1024)") (auto simp: fr_def pte_def)

lemma free_frame:
  assumes s: "space d m xs" and b: "KERNBASE < kend m" and n: "n < UPAGES" and f: "fr m d n = Some f" and t: "tab m d (n div 1024) = Some t"
  shows "PTE_ADDR (pte m d n) \<noteq> 0 \<and> (\<exists>m1. kfree f m = Inr m1 \<and>
    (let m2 = set_pte (t, n mod 1024) 0 m1 in space d m2 (f # xs) \<and> own m2 d \<union> set (f # xs) = own m d \<union> set xs \<and> tab m2 d = tab m d \<and>
      tabs m2 d = tabs m d \<and> (\<forall>k < 2 ^ 20. pte m2 d k = (if k = n then 0 else pte m d k)) \<and>
      (\<forall>p. p \<noteq> f \<and> p \<notin> tabs m d \<longrightarrow> ram m2 p = ram m p) \<and> kend m2 = kend m \<and> kdata m2 = kdata m))"
proof -
  have n20: "n < 2 ^ 20" using n by simp
  have fm: "f \<in> frames m d" by (rule framesI[OF n f])
  have fx: "f \<notin> set xs" "f \<noteq> d" "f \<notin> tabs m d" "valid_page m f" using spaceD[OF s] fm by auto
  note c = spaceD(1)[OF s]
  have "PTE_ADDR (pte m d n) \<noteq> 0"
  proof
    assume "PTE_ADDR (pte m d n) = 0"
    then have "f = KERNBASE" using fr_Some[OF f] by (simp add: P2V_def)
    then have "kend m \<le> KERNBASE" using fx(4) by (simp add: valid_page_def)
    then show False using b by (meson leD)
  qed
  moreover obtain m1 where m1: "kfree f m = Inr m1" "free_ok m1 (f # xs)" "\<forall>p. p \<noteq> f \<longrightarrow> ram m1 p = ram m p" "kend m1 = kend m" "kdata m1 = kdata m"
    using kfree_valid[OF cleanD(1)[OF c] fx(4,1)] by blast
  have rd: "ram m1 d = ram m d" using m1(3) fx(2) by simp
  have tb1: "tab m1 d i = tab m d i" for i by (rule tab_cong[OF rd])
  have ts1: "tabs m1 d = tabs m d" by (rule tabs_cong[OF rd])
  have pd1: "pd_ok m1 d" by (rule pd_ok_cong[OF rd m1(4) cleanD(2)[OF c]])
  have c1: "clean d m1 (f # xs)" using m1(2) pd1 c fx ts1 by (auto simp: clean_def)
  have p1: "pte m1 d k = pte m d k" if "k < 2 ^ 20" for k
    by (rule pte_cong[OF _ that]) (use m1(3) fx in auto)
  let ?m2 = "set_pte (t, n mod 1024) 0 m1"
  have t1: "tab m1 d (n div 1024) = Some t" using t tb1 by simp
  note st = set_pte_ok[OF c1 n20 t1, where e = 0]
  have tb2: "tab ?m2 d = tab m d" using st(2) tb1 by auto
  have ts2: "tabs ?m2 d = tabs m d" using tb2 by (simp add: tabs_def)
  have p2: "\<forall>k < 2 ^ 20. pte ?m2 d k = (if k = n then 0 else pte m d k)" using st(3) p1 by simp
  have f2: "fr ?m2 d k = (if k = n then None else fr m d k)" if "k < UPAGES" for k
    using p2 that by (simp add: fr_def)
  have fs2: "frames ?m2 d = frames m d - {f}"
  proof (rule set_eqI)
    fix x
    show "x \<in> frames ?m2 d \<longleftrightarrow> x \<in> frames m d - {f}"
    proof
      assume "x \<in> frames ?m2 d"
      then obtain k where "k < UPAGES" "k \<noteq> n" "fr m d k = Some x" unfolding frames_def using f2 by (auto split: if_splits)
      then show "x \<in> frames m d - {f}" using spaceD(6)[OF s _ n _ f] framesI by auto
    next
      assume "x \<in> frames m d - {f}"
      then obtain k where k: "k < UPAGES" "fr m d k = Some x" "x \<noteq> f" unfolding frames_def by blast
      then have "k \<noteq> n" using f by auto
      then show "x \<in> frames ?m2 d" using framesI[OF k(1), of ?m2 d x] f2[OF k(1)] k(2) by simp
    qed
  qed
  have ke: "kend ?m2 = kend m" "kdata ?m2 = kdata m" using m1(4,5) by (simp_all add: set_pte_def)
  have sp: "space d ?m2 (f # xs)" unfolding space_def fs2 ts2 valid_page_cong[OF ke(1)]
  proof (intro conjI)
    show "\<forall>i < UPAGES. \<forall>j < UPAGES. \<forall>g. fr ?m2 d i = Some g \<and> fr ?m2 d j = Some g \<longrightarrow> i = j"
      using spaceD(6)[OF s] f2 by (auto split: if_splits)
    show "clean d ?m2 (f # xs)" by (rule grow_clean[OF st(1)])
    show "\<forall>g \<in> frames m d - {f}. valid_page m g" using spaceD(2)[OF s] by blast
    show "(frames m d - {f}) \<inter> (insert d (tabs m d) \<union> set (f # xs)) = {}" using spaceD(3-5)[OF s] by auto
  qed
  have ow: "own ?m2 d \<union> set (f # xs) = own m d \<union> set xs" unfolding own_def fs2 ts2 using fm by auto
  have rm: "\<forall>p. p \<noteq> f \<and> p \<notin> tabs m d \<longrightarrow> ram ?m2 p = ram m p"
  proof (intro allI impI)
    fix p assume p: "p \<noteq> f \<and> p \<notin> tabs m d"
    have "n div 1024 < 1024" using n20 by simp
    then have "t \<in> tabs m d" using tabsI t by blast
    then have "p \<noteq> t" using p by auto
    then show "ram ?m2 p = ram m p" using st(4) m1(3) p by simp
  qed
  have "\<exists>m1. kfree f m = Inr m1 \<and> (let m2 = set_pte (t, n mod 1024) 0 m1 in space d m2 (f # xs) \<and> own m2 d \<union> set (f # xs) = own m d \<union> set xs \<and> tab m2 d = tab m d \<and>
      tabs m2 d = tabs m d \<and> (\<forall>k < 2 ^ 20. pte m2 d k = (if k = n then 0 else pte m d k)) \<and>
      (\<forall>p. p \<noteq> f \<and> p \<notin> tabs m d \<longrightarrow> ram m2 p = ram m p) \<and> kend m2 = kend m \<and> kdata m2 = kdata m)"
    unfolding Let_def by (intro exI[of _ m1] conjI m1(1) sp ow tb2 ts2 p2 rm ke)
  ultimately show ?thesis by blast
qed

section \<open>Shrinking\<close>

text \<open>
  What the loop needs to see every page although it skips a whole table's worth of addresses when
  it meets a missing table: it is at the start of a table, or inside a present one, or there is
  nothing left.
\<close>

definition aligned_at :: "mem \<Rightarrow> u32 \<Rightarrow> nat \<Rightarrow> nat \<Rightarrow> bool" where
  "aligned_at m d i N \<longleftrightarrow> i mod 1024 = 0 \<or> tab m d (i div 1024) \<noteq> None \<or> (\<forall>n. i \<le> n \<and> n < N \<longrightarrow> fr m d n = None)"

lemma aligned_next: "tab m d (i div 1024) \<noteq> None \<Longrightarrow> aligned_at m d (Suc i) N"
proof -
  assume t: "tab m d (i div 1024) \<noteq> None"
  have "Suc i div 1024 = i div 1024 \<or> Suc i mod 1024 = 0" by (simp add: div_Suc mod_Suc)
  then show ?thesis using t by (auto simp: aligned_at_def)
qed

lemma missing_table:
  assumes "tab m d (i div 1024) = None" "aligned_at m d i N"
  shows "aligned_at m d (i + 1024) N" "i \<le> n \<Longrightarrow> n < N \<Longrightarrow> n < i + 1024 \<Longrightarrow> fr m d n = None"
proof -
  show "aligned_at m d (i + 1024) N" using assms by (auto simp: aligned_at_def)
  assume n: "i \<le> n" "n < N" "n < i + 1024"
  show "fr m d n = None"
  proof (cases "i mod 1024 = 0")
    case True
    then obtain q where "i = 1024 * q" by auto
    then have "n div 1024 = i div 1024" using n div_nat_eqI[of 1024 q n] by simp
    then show ?thesis using assms(1) by (simp add: fr_def pte_def)
  qed (use assms n in \<open>auto simp: aligned_at_def\<close>)
qed

text \<open>The pages from \<open>i\<close> up to \<open>N\<close> are unmapped and freed, and nothing else changes.\<close>

definition shrunk :: "u32 \<Rightarrow> mem \<Rightarrow> u32 list \<Rightarrow> nat \<Rightarrow> nat \<Rightarrow> mem \<Rightarrow> u32 list \<Rightarrow> bool" where
  "shrunk d m xs i N m' ys \<longleftrightarrow>
     space d m' ys \<and> own m' d \<union> set ys = own m d \<union> set xs \<and> tab m' d = tab m d \<and>
     (\<forall>k < 2 ^ 20. pte m' d k = (if i \<le> k \<and> k < N \<and> fr m d k \<noteq> None then 0 else pte m d k)) \<and>
     (\<exists>zs. ys = zs @ xs \<and> set zs = {f. \<exists>k. i \<le> k \<and> k < N \<and> fr m d k = Some f}) \<and>
     (\<forall>p. p \<notin> tabs m d \<and> (\<forall>k. i \<le> k \<and> k < N \<longrightarrow> fr m d k \<noteq> Some p) \<longrightarrow> ram m' p = ram m p) \<and>
     kend m' = kend m \<and> kdata m' = kdata m"

lemma shrunk_refl: "space d m xs \<Longrightarrow> N \<le> i \<Longrightarrow> shrunk d m xs i N m xs"
  by (auto simp: shrunk_def)

lemma shrunk_absent:
  assumes "shrunk d m xs j N m' ys" "i \<le> j" "\<forall>n. i \<le> n \<and> n < j \<and> n < N \<longrightarrow> fr m d n = None"
  shows "shrunk d m xs i N m' ys"
proof -
  have e: "(i \<le> k \<and> k < N \<and> fr m d k = Some f) \<longleftrightarrow> (j \<le> k \<and> k < N \<and> fr m d k = Some f)" for k f
    using assms(2,3) by (cases "j \<le> k") (auto simp: not_le)
  have e2: "(i \<le> k \<and> k < N \<and> fr m d k \<noteq> None) \<longleftrightarrow> (j \<le> k \<and> k < N \<and> fr m d k \<noteq> None)" for k
    using e[of k] by (cases "fr m d k") auto
  have e3: "(\<forall>k. i \<le> k \<and> k < N \<longrightarrow> fr m d k \<noteq> Some p) \<longleftrightarrow> (\<forall>k. j \<le> k \<and> k < N \<longrightarrow> fr m d k \<noteq> Some p)" for p using e by blast
  show ?thesis using assms(1) unfolding shrunk_def e e2 e3 .
qed

lemma shrunk_step:
  assumes f: "fr m d i = Some f" "i < N" "N \<le> UPAGES" and m2: "own m2 d \<union> set (f # xs) = own m d \<union> set xs" "tab m2 d = tab m d"
    "tabs m2 d = tabs m d" "\<forall>k < 2 ^ 20. pte m2 d k = (if k = i then 0 else pte m d k)" "\<forall>p. p \<noteq> f \<and> p \<notin> tabs m d \<longrightarrow> ram m2 p = ram m p"
    "kend m2 = kend m" "kdata m2 = kdata m"
    and r: "shrunk d m2 (f # xs) (Suc i) N m' ys"
  shows "shrunk d m xs i N m' ys"
proof -
  have f2: "fr m2 d k = fr m d k" if "k < 2 ^ 20" "k \<noteq> i" for k using m2(4) that by (simp add: fr_def)
  have i20: "i < 2 ^ 20" using f(2,3) by simp
  have pt: "\<forall>k < 2 ^ 20. pte m' d k = (if i \<le> k \<and> k < N \<and> fr m d k \<noteq> None then 0 else pte m d k)"
  proof (intro allI impI)
    fix k :: nat assume k: "k < 2 ^ 20"
    have r': "pte m' d k = (if Suc i \<le> k \<and> k < N \<and> fr m2 d k \<noteq> None then 0 else pte m2 d k)" using r k unfolding shrunk_def by blast
    show "pte m' d k = (if i \<le> k \<and> k < N \<and> fr m d k \<noteq> None then 0 else pte m d k)"
    proof (cases "k = i")
      case True
      then show ?thesis using r' f m2(4) k by simp
    next
      case False
      then have "Suc i \<le> k \<longleftrightarrow> i \<le> k" by auto
      moreover have "pte m2 d k = pte m d k" using m2(4) k False by simp
      ultimately show ?thesis using r' f2[OF k False] by (cases "fr m d k") simp_all
    qed
  qed
  have sets: "{g. \<exists>k. i \<le> k \<and> k < N \<and> fr m d k = Some g} = insert f {g. \<exists>k. Suc i \<le> k \<and> k < N \<and> fr m2 d k = Some g}"
  proof (rule set_eqI)
    fix g
    have u: "k < 2 ^ 20" if "k < N" for k using that f(3) by simp
    show "g \<in> {g. \<exists>k. i \<le> k \<and> k < N \<and> fr m d k = Some g} \<longleftrightarrow> g \<in> insert f {g. \<exists>k. Suc i \<le> k \<and> k < N \<and> fr m2 d k = Some g}"
    proof
      assume "g \<in> {g. \<exists>k. i \<le> k \<and> k < N \<and> fr m d k = Some g}"
      then obtain k where k: "i \<le> k" "k < N" "fr m d k = Some g" by blast
      show "g \<in> insert f {g. \<exists>k. Suc i \<le> k \<and> k < N \<and> fr m2 d k = Some g}"
      proof (cases "k = i")
        case True
        then show ?thesis using k f by simp
      next
        case False
        then have "Suc i \<le> k \<and> k < N \<and> fr m2 d k = Some g" using k f2[OF u[OF k(2)] False] by simp
        then show ?thesis by blast
      qed
    next
      assume "g \<in> insert f {g. \<exists>k. Suc i \<le> k \<and> k < N \<and> fr m2 d k = Some g}"
      then consider "g = f" | k where "Suc i \<le> k" "k < N" "fr m2 d k = Some g" by blast
      then show "g \<in> {g. \<exists>k. i \<le> k \<and> k < N \<and> fr m d k = Some g}"
      proof cases
        case 1
        then show ?thesis using f(1,2) by blast
      next
        case (2 k)
        then have "i \<le> k \<and> k < N \<and> fr m d k = Some g" using f2[OF u[OF 2(2)]] by simp
        then show ?thesis by blast
      qed
    qed
  qed
  obtain zs where zs: "ys = zs @ f # xs" "set zs = {g. \<exists>k. Suc i \<le> k \<and> k < N \<and> fr m2 d k = Some g}" using r unfolding shrunk_def by blast
  have rm: "ram m' p = ram m p" if p: "p \<notin> tabs m d" "\<forall>k. i \<le> k \<and> k < N \<longrightarrow> fr m d k \<noteq> Some p" for p
  proof -
    have "p \<noteq> f" using p(2) f by auto
    moreover have "\<forall>k. Suc i \<le> k \<and> k < N \<longrightarrow> fr m2 d k \<noteq> Some p" using p(2) sets by blast
    ultimately show ?thesis using r m2(3,5) p(1) unfolding shrunk_def by simp
  qed
  have a: "space d m' ys" "own m' d \<union> set ys = own m2 d \<union> set (f # xs)" "tab m' d = tab m2 d" "kend m' = kend m2" "kdata m' = kdata m2"
    using r unfolding shrunk_def by blast+
  show ?thesis unfolding shrunk_def
  proof (intro conjI)
    show "\<exists>zs. ys = zs @ xs \<and> set zs = {g. \<exists>k. i \<le> k \<and> k < N \<and> fr m d k = Some g}"
      unfolding sets by (rule exI[of _ "zs @ [f]"]) (use zs in auto)
    show "\<forall>p. p \<notin> tabs m d \<and> (\<forall>k. i \<le> k \<and> k < N \<longrightarrow> fr m d k \<noteq> Some p) \<longrightarrow> ram m' p = ram m p" using rm by blast
  qed (use a m2 pt in simp_all)
qed

lemma dealloc_loop_ok:
  assumes "space d m xs" "KERNBASE < kend m" "npages oldsz \<le> UPAGES" "aligned_at m d i (npages oldsz)"
  shows "\<exists>m' ys. dealloc_loop d (i * PGSIZE) oldsz m = Inr m' \<and> shrunk d m xs i (npages oldsz) m' ys"
  using assms
proof (induction "npages oldsz - i" arbitrary: i m xs rule: less_induct)
  case less
  define N where "N = npages oldsz"
  note s = less.prems(1) and b = less.prems(2) and N = less.prems(3)[folded N_def] and al = less.prems(4)[folded N_def]
  note IH = less.hyps[folded N_def]
  have stop: "oldsz \<le> i * PGSIZE \<longleftrightarrow> N \<le> i" using page_less[of i oldsz] unfolding N_def by linarith
  show ?case unfolding N_def[symmetric]
  proof (cases "N \<le> i")
    case True
    then show "\<exists>m' ys. dealloc_loop d (i * PGSIZE) oldsz m = Inr m' \<and> shrunk d m xs i N m' ys"
      using stop shrunk_refl[OF s True] by (intro exI[of _ m] exI[of _ xs]) (simp add: dealloc_loop.simps)
  next
    case False
    then have i: "i < N" "i < UPAGES" "i < 2 ^ 20" using N by simp_all
    note w = walk_find[OF i(3), of d m]
    note unf = dealloc_loop.simps[of d "i * PGSIZE" oldsz m, unfolded stop if_not_P[OF False] w fst_conv]
    show "\<exists>m' ys. dealloc_loop d (i * PGSIZE) oldsz m = Inr m' \<and> shrunk d m xs i N m' ys"
    proof (cases "tab m d (i div 1024)")
      case None
      have lt: "N - (i + 1024) < N - i" using i by simp
      from IH[OF lt s b N missing_table(1)[OF None al]] obtain m' ys where
        r: "dealloc_loop d ((i + 1024) * PGSIZE) oldsz m = Inr m'" "shrunk d m xs (i + 1024) N m' ys" by blast
      have "i * PGSIZE + 1023 * PGSIZE + PGSIZE = (i + 1024) * PGSIZE" by simp
      then have "dealloc_loop d (i * PGSIZE) oldsz m = Inr m'" using unf None r(1) by (simp only: option.map option.case)
      moreover have "shrunk d m xs i N m' ys"
        by (rule shrunk_absent[OF r(2)]) (use missing_table(2)[OF None al] in auto)
      ultimately show ?thesis by blast
    next
      case (Some t)
      have g: "get_pte (t, i mod 1024) m = pte m d i" by (rule get_pte_tab[OF Some])
      have st: "dealloc_loop d (i * PGSIZE) oldsz m =
        (if pte m d i AND PTE_P \<noteq> 0 then
           let pa = PTE_ADDR (pte m d i)
           in if pa = 0 then panic ''kfree''
              else kbind (kfree (P2V pa) m) (\<lambda>m1. dealloc_loop d (Suc i * PGSIZE) oldsz (set_pte (t, i mod 1024) 0 m1))
         else dealloc_loop d (Suc i * PGSIZE) oldsz m)"
      proof -
        have e: "i * PGSIZE + PGSIZE = Suc i * PGSIZE" by simp
        show ?thesis unfolding unf Some option.map option.case g e ..
      qed
      have lt: "N - Suc i < N - i" using i by simp
      show ?thesis
      proof (cases "fr m d i")
        case None
        then have "\<not> pte m d i AND PTE_P \<noteq> 0" by (auto simp: fr_def split: if_splits)
        then have "dealloc_loop d (i * PGSIZE) oldsz m = dealloc_loop d (Suc i * PGSIZE) oldsz m" unfolding st by simp
        moreover have al1: "aligned_at m d (Suc i) N" by (rule aligned_next) (simp add: Some)
        from IH[OF lt s b N al1] obtain m' ys where
          r: "dealloc_loop d (Suc i * PGSIZE) oldsz m = Inr m'" "shrunk d m xs (Suc i) N m' ys" by blast
        moreover have "shrunk d m xs i N m' ys"
          by (rule shrunk_absent[OF r(2)]) (use None in \<open>auto simp: less_Suc_eq\<close>)
        ultimately show ?thesis by metis
      next
        case f: (Some f)
        note ff = free_frame[OF s b i(2) f Some]
        obtain m1 where "kfree f m = Inr m1" and
          "let m2 = set_pte (t, i mod 1024) 0 m1 in space d m2 (f # xs) \<and> own m2 d \<union> set (f # xs) = own m d \<union> set xs \<and> tab m2 d = tab m d \<and>
            tabs m2 d = tabs m d \<and> (\<forall>k < 2 ^ 20. pte m2 d k = (if k = i then 0 else pte m d k)) \<and>
            (\<forall>p. p \<noteq> f \<and> p \<notin> tabs m d \<longrightarrow> ram m2 p = ram m p) \<and> kend m2 = kend m \<and> kdata m2 = kdata m"
          using ff by blast
        then obtain m2 where m1: "kfree f m = Inr m1" "m2 = set_pte (t, i mod 1024) 0 m1" and
          m2: "space d m2 (f # xs)" "own m2 d \<union> set (f # xs) = own m d \<union> set xs" "tab m2 d = tab m d" "tabs m2 d = tabs m d"
            "\<forall>k < 2 ^ 20. pte m2 d k = (if k = i then 0 else pte m d k)" "\<forall>p. p \<noteq> f \<and> p \<notin> tabs m d \<longrightarrow> ram m2 p = ram m p"
            "kend m2 = kend m" "kdata m2 = kdata m"
          by (simp add: Let_def)
        have pr: "pte m d i AND PTE_P \<noteq> 0" "f = P2V (PTE_ADDR (pte m d i))" using fr_Some[OF f] by simp_all
        have eq: "dealloc_loop d (i * PGSIZE) oldsz m = dealloc_loop d (Suc i * PGSIZE) oldsz m2"
          unfolding st if_P[OF pr(1)] Let_def if_not_P[OF conjunct1[OF ff]] pr(2)[symmetric] m1(1) kbind_simps m1(2) ..
        have al1: "aligned_at m2 d (Suc i) N" by (rule aligned_next) (simp add: m2(3) Some)
        have b2: "KERNBASE < kend m2" using b m2(7) by simp
        from IH[OF lt m2(1) b2 N al1] obtain m' ys where
          r: "dealloc_loop d (Suc i * PGSIZE) oldsz m2 = Inr m'" "shrunk d m2 (f # xs) (Suc i) N m' ys" by blast
        show ?thesis using eq r(1) shrunk_step[OF f i(1) N m2(2-8) r(2)] by metis
      qed
    qed
  qed
qed

lemma deallocuvm_ok:
  assumes "space d m xs" "KERNBASE < kend m" "npages oldsz \<le> UPAGES" "aligned_at m d (npages newsz) (npages oldsz)"
  shows "\<exists>m' ys. deallocuvm d oldsz newsz m = Inr (min oldsz newsz, m') \<and> shrunk d m xs (npages newsz) (npages oldsz) m' ys"
proof (cases "oldsz \<le> newsz")
  case True
  then show ?thesis using shrunk_refl[OF assms(1) npages_mono[OF True]] by (auto simp: deallocuvm_def)
next
  case False
  obtain m' ys where "dealloc_loop d (npages newsz * PGSIZE) oldsz m = Inr m'" "shrunk d m xs (npages newsz) (npages oldsz) m' ys"
    using dealloc_loop_ok[OF assms] by blast
  then show ?thesis using False by (auto simp: deallocuvm_def PGROUNDUP_npages)
qed

section \<open>Growing\<close>

text \<open>A space is kept by whatever leaves its directory and its tables alone.\<close>

lemma space_transfer:
  assumes s: "space d m xs" and r: "\<forall>p \<in> insert d (tabs m d). ram m' p = ram m p" "kend m' = kend m"
    and f: "free_ok m' ys" "own m d \<inter> set ys = {}"
  shows "space d m' ys" "k < 2 ^ 20 \<Longrightarrow> pte m' d k = pte m d k" "tab m' d = tab m d" "tabs m' d = tabs m d" "k < 2 ^ 20 \<Longrightarrow> fr m' d k = fr m d k"
    "frames m' d = frames m d" "own m' d = own m d"
proof -
  have rd: "ram m' d = ram m d" using r(1) by simp
  show tb: "tab m' d = tab m d" using tab_cong[OF rd] by auto
  show ts: "tabs m' d = tabs m d" by (rule tabs_cong[OF rd])
  show pt: "pte m' d k = pte m d k" if "k < 2 ^ 20" for k by (rule pte_cong[OF r(1) that])
  show frk: "fr m' d k = fr m d k" if "k < 2 ^ 20" for k by (rule fr_cong[OF pt[OF that]])
  show fs: "frames m' d = frames m d" by (rule frames_cong) (simp add: frk)
  show ow: "own m' d = own m d" by (simp add: own_def ts fs)
  have pd: "pd_ok m' d" by (rule pd_ok_cong[OF rd r(2) cleanD(2)[OF spaceD(1)[OF s]]])
  show "space d m' ys" unfolding space_def clean_def fs ts valid_page_cong[OF r(2)]
  proof (intro conjI)
    show "\<forall>i < UPAGES. \<forall>j < UPAGES. \<forall>f. fr m' d i = Some f \<and> fr m' d j = Some f \<longrightarrow> i = j" using spaceD(6)[OF s] frk by auto
    show "frames m d \<inter> (insert d (tabs m d) \<union> set ys) = {}" using f(2) spaceD(3,4)[OF s] by (auto simp: own_def)
    show "insert d (tabs m d) \<inter> set ys = {}" using f(2) by (auto simp: own_def)
    show "\<forall>g \<in> frames m d. valid_page m g" using spaceD(2)[OF s] by blast
  qed (use f(1) pd in simp_all)
qed

text \<open>Taking a page from the free list and filling it; giving it back.\<close>

lemma space_take:
  assumes s: "space d m xs" and k: "kalloc m = (Some f, m1)"
  shows "\<exists>ys. xs = f # ys \<and> space d (set_page f p m1) ys \<and> ram m1 = ram m \<and> kend m1 = kend m \<and> kdata m1 = kdata m \<and> valid_page m f \<and> f \<notin> own m d \<and> f \<notin> set ys \<and>
    own (set_page f p m1) d = own m d \<and> tabs (set_page f p m1) d = tabs m d \<and> (\<forall>k < 2 ^ 20. pte (set_page f p m1) d k = pte m d k)"
proof -
  note c = spaceD(1)[OF s]
  obtain ys where ys: "xs = f # ys" "free_ok m1 ys" "ram m1 = ram m" "kend m1 = kend m" "kdata m1 = kdata m"
    using kalloc_Some[OF cleanD(1)[OF c] k] by blast
  have f: "f \<notin> own m d" "f \<notin> set ys" "valid_page m f" using space_own[OF s] ys(1) cleanD(1)[OF c] by (auto simp: free_ok_def)
  have r: "\<forall>q \<in> insert d (tabs m d). ram (set_page f p m1) q = ram m q" using f(1) ys(3) by (auto simp: own_def)
  have ke: "kend (set_page f p m1) = kend m" using ys(4) by simp
  have fo: "free_ok (set_page f p m1) ys" by (rule free_ok_set_page[OF ys(2) f(2)])
  have dj: "own m d \<inter> set ys = {}" using space_own[OF s] ys(1) by auto
  note t = space_transfer[OF s r ke fo dj]
  show ?thesis using ys(1,3-5) t(1,4,7) t(2) f by (intro exI[of _ ys]) simp
qed

lemma space_give:
  assumes s: "space d m xs" and f: "valid_page m f" "f \<notin> own m d" "f \<notin> set xs"
  shows "\<exists>m'. kfree f m = Inr m' \<and> space d m' (f # xs) \<and> own m' d = own m d \<and> tabs m' d = tabs m d \<and> (\<forall>k < 2 ^ 20. pte m' d k = pte m d k) \<and>
    (\<forall>p. p \<noteq> f \<longrightarrow> ram m' p = ram m p) \<and> kend m' = kend m \<and> kdata m' = kdata m"
proof -
  note c = spaceD(1)[OF s]
  obtain m' where m': "kfree f m = Inr m'" "free_ok m' (f # xs)" "\<forall>p. p \<noteq> f \<longrightarrow> ram m' p = ram m p" "kend m' = kend m" "kdata m' = kdata m"
    using kfree_valid[OF cleanD(1)[OF c] f(1,3)] by blast
  have r: "\<forall>q \<in> insert d (tabs m d). ram m' q = ram m q" using f(2) m'(3) by (auto simp: own_def)
  have dj: "own m d \<inter> set (f # xs) = {}" using space_own[OF s] f(2) by auto
  note t = space_transfer[OF s r m'(4,2) dj]
  show ?thesis using m' t(1,4,7) t(2) by (intro exI[of _ m']) simp
qed

text \<open>The pages from \<open>i\<close> up to \<open>N\<close> are new, zeroed and accessible to the user; the rest is as before.\<close>

definition grown :: "u32 \<Rightarrow> mem \<Rightarrow> u32 list \<Rightarrow> u32 set \<Rightarrow> nat \<Rightarrow> nat \<Rightarrow> mem \<Rightarrow> u32 list \<Rightarrow> bool" where
  "grown d m xs R i N m' ys \<longleftrightarrow>
     space d m' ys \<and> own m' d \<union> set ys = own m d \<union> set xs \<and>
     (\<forall>k < 2 ^ 20. \<not> (i \<le> k \<and> k < N) \<longrightarrow> pte m' d k = pte m d k) \<and>
     (\<forall>k. i \<le> k \<and> k < N \<longrightarrow> (\<exists>f \<in> set xs. fr m' d k = Some f \<and> PTE_FLAGS (pte m' d k) = PTE_P OR PTE_W OR PTE_U \<and> ram m' f = (\<lambda>_. 0))) \<and>
     (\<forall>p. p \<notin> insert d (tabs m d) \<union> R \<longrightarrow> ram m' p = ram m p) \<and> set xs \<subseteq> R \<and> tabs m' d \<subseteq> tabs m d \<union> set xs \<and> set ys \<subseteq> set xs \<and>
     kend m' = kend m \<and> kdata m' = kdata m"

text \<open>The same mapping with the same pages, up to page tables that have been added.\<close>

definition same_space :: "u32 \<Rightarrow> mem \<Rightarrow> u32 list \<Rightarrow> u32 set \<Rightarrow> mem \<Rightarrow> u32 list \<Rightarrow> bool" where
  "same_space d m xs R m' ys \<longleftrightarrow>
     space d m' ys \<and> own m' d \<union> set ys = own m d \<union> set xs \<and> (\<forall>k < 2 ^ 20. fr m' d k = fr m d k) \<and>
     (\<forall>k < 2 ^ 20. fr m d k \<noteq> None \<longrightarrow> pte m' d k = pte m d k) \<and>
     (\<forall>p. p \<notin> insert d (tabs m d) \<union> R \<longrightarrow> ram m' p = ram m p) \<and> kend m' = kend m \<and> kdata m' = kdata m"

lemma grown_shrunk:
  assumes g: "grown d m xs R i0 i m1 ys" and N: "i \<le> N" "N \<le> UPAGES" and abs: "\<forall>k. i0 \<le> k \<and> k < N \<longrightarrow> fr m d k = None"
    and s: "shrunk d m1 ys i0 N m2 zs"
  shows "same_space d m xs R m2 zs"
proof -
  have p1: "pte m1 d k = pte m d k" if "k < 2 ^ 20" "\<not> (i0 \<le> k \<and> k < i)" for k using g that unfolding grown_def by blast
  have p2: "pte m2 d k = (if i0 \<le> k \<and> k < N \<and> fr m1 d k \<noteq> None then 0 else pte m1 d k)" if "k < 2 ^ 20" for k using s that unfolding shrunk_def by blast
  have out: "pte m2 d k = pte m d k" if k: "k < 2 ^ 20" "\<not> (i0 \<le> k \<and> k < N)" for k
  proof -
    have "\<not> (i0 \<le> k \<and> k < i)" using k(2) N(1) by auto
    then have "pte m1 d k = pte m d k" by (rule p1[OF k(1)])
    moreover have "\<not> (i0 \<le> k \<and> k < N \<and> fr m1 d k \<noteq> None)" using k(2) by blast
    then have "pte m2 d k = pte m1 d k" using p2[OF k(1)] by (simp only: if_False simp_thms)
    ultimately show ?thesis by simp
  qed
  have frs: "fr m2 d k = fr m d k" if k: "k < 2 ^ 20" for k
  proof (cases "i0 \<le> k \<and> k < N")
    case True
    have "fr m2 d k = None"
    proof (cases "fr m1 d k")
      case None
      then have "pte m2 d k = pte m1 d k" using p2[OF k] by simp
      then show ?thesis using None fr_cong by metis
    next
      case (Some f)
      then have "pte m2 d k = 0" using p2[OF k] True by simp
      then show ?thesis by (simp add: fr_def)
    qed
    then show ?thesis using abs True by simp
  qed (use out[OF k] fr_cong in blast)
  have keep: "pte m2 d k = pte m d k" if "k < 2 ^ 20" "fr m d k \<noteq> None" for k
  proof (rule out[OF that(1)], rule notI)
    assume "i0 \<le> k \<and> k < N"
    then show False using abs that(2) by simp
  qed
  have rm: "ram m2 p = ram m p" if p: "p \<notin> insert d (tabs m d) \<union> R" for p
  proof -
    have "p \<notin> tabs m1 d" using p g unfolding grown_def by blast
    moreover have "fr m1 d k \<noteq> Some p" if k: "i0 \<le> k \<and> k < N" for k
    proof (cases "k < i")
      case True
      then have "\<exists>f \<in> set xs. fr m1 d k = Some f" "set xs \<subseteq> R" using g k unfolding grown_def by blast+
      then show ?thesis using p by auto
    next
      case False
      have "fr m1 d k = fr m d k" by (rule fr_cong[OF p1]) (use False k N(2) in simp_all)
      then show ?thesis using abs k by simp
    qed
    ultimately have "ram m2 p = ram m1 p" using s unfolding shrunk_def by blast
    moreover have "ram m1 p = ram m p" using g p unfolding grown_def by blast
    ultimately show ?thesis by simp
  qed
  have "space d m2 zs" "own m2 d \<union> set zs = own m d \<union> set xs" "kend m2 = kend m" "kdata m2 = kdata m"
    using g s unfolding grown_def shrunk_def by simp_all
  then show ?thesis using frs keep rm unfolding same_space_def by blast
qed

lemma same_space_give:
  assumes s: "same_space d m xs R m1 ys" and f: "valid_page m f" "f \<notin> own m1 d" "f \<notin> set ys" "f \<in> R" "set xs0 = insert f (set xs)"
  shows "\<exists>m2. kfree f m1 = Inr m2 \<and> same_space d m xs0 R m2 (f # ys)"
proof -
  have sp: "space d m1 ys" "own m1 d \<union> set ys = own m d \<union> set xs" "kend m1 = kend m" "kdata m1 = kdata m"
    using s unfolding same_space_def by blast+
  have v: "valid_page m1 f" using f(1) valid_page_cong[OF sp(3)] by simp
  obtain m2 where m2: "kfree f m1 = Inr m2" "space d m2 (f # ys)" "own m2 d = own m1 d" "\<forall>k < 2 ^ 20. pte m2 d k = pte m1 d k"
    "\<forall>p. p \<noteq> f \<longrightarrow> ram m2 p = ram m1 p" "kend m2 = kend m1" "kdata m2 = kdata m1"
    using space_give[OF sp(1) v f(2,3)] by blast
  have fk: "fr m2 d k = fr m1 d k" if "k < 2 ^ 20" for k using m2(4) that by (simp add: fr_def)
  have "same_space d m xs0 R m2 (f # ys)" unfolding same_space_def
  proof (intro conjI)
    show "own m2 d \<union> set (f # ys) = own m d \<union> set xs0" using m2(3) sp(2) f(5) by auto
    show "\<forall>k < 2 ^ 20. fr m2 d k = fr m d k" using s fk unfolding same_space_def by simp
    show "\<forall>k < 2 ^ 20. fr m d k \<noteq> None \<longrightarrow> pte m2 d k = pte m d k" using s m2(4) unfolding same_space_def by simp
    show "\<forall>p. p \<notin> insert d (tabs m d) \<union> R \<longrightarrow> ram m2 p = ram m p" using s m2(5) f(4) unfolding same_space_def by auto
  qed (use m2 sp in simp_all)
  then show ?thesis using m2(1) by blast
qed

lemma user_flags: "(PTE_W OR PTE_U) AND NOT 0xFFF = 0" "(PTE_W OR PTE_U) OR PTE_P = PTE_P OR PTE_W OR PTE_U"
  by simp_all

lemma grown_aligned:
  assumes "grown d m xs R i0 i m1 ys" "i0 \<le> i" "i \<le> N" "N \<le> UPAGES" "\<forall>k. i0 \<le> k \<and> k < N \<longrightarrow> fr m d k = None"
  shows "aligned_at m1 d i0 N"
proof (cases "i0 = i")
  case True
  have "fr m1 d k = None" if "i0 \<le> k" "k < N" for k
  proof -
    have "pte m1 d k = pte m d k" using assms(1,4) that True unfolding grown_def by simp
    then show ?thesis using assms(5) that fr_cong by metis
  qed
  then show ?thesis by (simp add: aligned_at_def)
next
  case False
  then have "i0 \<le> i0 \<and> i0 < i" using assms(2) by simp
  then obtain f where "fr m1 d i0 = Some f" using assms(1) unfolding grown_def by blast
  then obtain t where "tab m1 d (i0 div 1024) = Some t" using fr_tab by blast
  then show ?thesis by (simp add: aligned_at_def)
qed

lemma grown_step:
  assumes g: "grown d m0 xs0 R i0 i m xs" and i: "i0 \<le> i" "i < UPAGES"
    and xs: "xs = f # ys" "f \<notin> own m d" "ram m1 = ram m"
    and m2: "space d m2 zs" "insert f (own m2 d \<union> set zs) = insert f (own m d \<union> set ys)" "fr m2 d i = Some f"
      "\<forall>k < 2 ^ 20. pte m2 d k = (if k = i then V2P f OR (PTE_W OR PTE_U) OR PTE_P else pte m d k)"
      "\<forall>p. p \<notin> insert d (tabs m2 d) \<longrightarrow> ram m2 p = ram (set_page f (\<lambda>_. 0) m1) p"
      "tabs m2 d \<subseteq> tabs m d \<union> set ys" "set zs \<subseteq> set ys" "kend m2 = kend m" "kdata m2 = kdata m"
  shows "grown d m0 xs0 R i0 (Suc i) m2 zs"
proof -
  have g1: "space d m xs" "own m d \<union> set xs = own m0 d \<union> set xs0" "\<forall>k < 2 ^ 20. \<not> (i0 \<le> k \<and> k < i) \<longrightarrow> pte m d k = pte m0 d k"
    "\<forall>p. p \<notin> insert d (tabs m0 d) \<union> R \<longrightarrow> ram m p = ram m0 p" "tabs m d \<subseteq> tabs m0 d \<union> set xs0" "set xs \<subseteq> set xs0"
    "kend m = kend m0" "kdata m = kdata m0" "set xs0 \<subseteq> R"
    using g unfolding grown_def by blast+
  have fin: "f \<in> frames m2 d" by (rule framesI[OF i(2) m2(3)])
  have f0: "f \<in> set xs0" "f \<in> own m2 d" using g1(6) xs(1) fin by (auto simp: own_def)
  have ft: "f \<notin> insert d (tabs m2 d)" using spaceD(3,4)[OF m2(1) fin] by simp
  have al: "f mod 4096 = 0" using spaceD(2)[OF m2(1) fin] by (simp add: valid_page_def)
  have "own m2 d \<union> set zs = own m0 d \<union> set xs0" using m2(2) f0(2) g1(2) xs(1) by auto
  moreover have "\<forall>k < 2 ^ 20. \<not> (i0 \<le> k \<and> k < Suc i) \<longrightarrow> pte m2 d k = pte m0 d k"
  proof (intro allI impI)
    fix k :: nat assume k: "k < 2 ^ 20" "\<not> (i0 \<le> k \<and> k < Suc i)"
    then have "k \<noteq> i" "\<not> (i0 \<le> k \<and> k < i)" using i(1) by auto
    then show "pte m2 d k = pte m0 d k" using m2(4) g1(3) k(1) by simp
  qed
  moreover have "\<exists>h \<in> set xs0. fr m2 d k = Some h \<and> PTE_FLAGS (pte m2 d k) = PTE_P OR PTE_W OR PTE_U \<and> ram m2 h = (\<lambda>_. 0)"
    if k: "i0 \<le> k \<and> k < Suc i" for k
  proof (cases "k = i")
    case True
    have p: "pte m2 d i = V2P f OR (PTE_W OR PTE_U) OR PTE_P" using m2(4) i(2) by simp
    have "PTE_FLAGS (pte m2 d i) = PTE_P OR PTE_W OR PTE_U"
      using fr_entry(2)[OF al user_flags(1) p] unfolding user_flags(2) .
    moreover have "ram m2 f = (\<lambda>_. 0)" using m2(5) ft by simp
    ultimately show ?thesis using True f0(1) m2(3) by blast
  next
    case False
    then have kk: "i0 \<le> k \<and> k < i" "k < 2 ^ 20" "k < UPAGES" using k i(2) by auto
    obtain h where h: "h \<in> set xs0" "fr m d k = Some h" "PTE_FLAGS (pte m d k) = PTE_P OR PTE_W OR PTE_U" "ram m h = (\<lambda>_. 0)"
      using g kk(1) unfolding grown_def by blast
    have pk: "pte m2 d k = pte m d k" using m2(4) kk(2) False by simp
    then have f2: "fr m2 d k = Some h" using h(2) fr_cong by metis
    have "h \<in> frames m2 d" by (rule framesI[OF kk(3) f2])
    then have "h \<notin> insert d (tabs m2 d)" using spaceD(3,4)[OF m2(1)] by auto
    moreover have "h \<noteq> f" using framesI[OF kk(3) h(2)] xs(2) by (auto simp: own_def)
    ultimately have "ram m2 h = ram m h" using m2(5) xs(3) by simp
    then show ?thesis using h f2 pk by auto
  qed
  moreover have "\<forall>p. p \<notin> insert d (tabs m0 d) \<union> R \<longrightarrow> ram m2 p = ram m0 p"
  proof (intro allI impI)
    fix p assume p: "p \<notin> insert d (tabs m0 d) \<union> R"
    then have "p \<notin> insert d (tabs m2 d)" "p \<noteq> f" using m2(6) g1(5,6,9) xs(1) f0(1) by auto
    then show "ram m2 p = ram m0 p" using m2(5) xs(3) g1(4) p by simp
  qed
  moreover have "tabs m2 d \<subseteq> tabs m0 d \<union> set xs0" using m2(6) g1(5,6) xs(1) by auto
  moreover have "set zs \<subseteq> set xs0" using m2(7) g1(6) xs(1) by auto
  ultimately show ?thesis using m2(1,8,9) g1(7-9) unfolding grown_def by simp
qed

text \<open>When mapping fails, the page taken for the frame is still in hand.\<close>

lemma grown_stuck:
  assumes g: "grown d m0 xs0 R i0 i m xs" and i: "i0 \<le> i" "i < UPAGES"
    and xs: "xs = f # ys" "f \<notin> own m d" "ram m1 = ram m"
    and m2: "space d m2 []" "insert f (own m2 d) = insert f (own m d \<union> set ys)" "f \<notin> own m2 d" "\<forall>k < 2 ^ 20. pte m2 d k = pte m d k"
      "\<forall>p. p \<notin> insert d (tabs m2 d) \<longrightarrow> ram m2 p = ram (set_page f (\<lambda>_. 0) m1) p"
      "tabs m2 d \<subseteq> tabs m d \<union> set ys" "kend m2 = kend m" "kdata m2 = kdata m" "f \<notin> own m0 d" "f \<in> set xs0"
  shows "grown d m0 (filter (\<lambda>x. x \<noteq> f) xs0) R i0 i m2 []"
proof -
  have g1: "space d m xs" "own m d \<union> set xs = own m0 d \<union> set xs0" "\<forall>k < 2 ^ 20. \<not> (i0 \<le> k \<and> k < i) \<longrightarrow> pte m d k = pte m0 d k"
    "\<forall>p. p \<notin> insert d (tabs m0 d) \<union> R \<longrightarrow> ram m p = ram m0 p" "tabs m d \<subseteq> tabs m0 d \<union> set xs0" "set xs \<subseteq> set xs0"
    "kend m = kend m0" "kdata m = kdata m0" "set xs0 \<subseteq> R"
    using g unfolding grown_def by blast+
  have "own m2 d = own m0 d \<union> (set xs0 - {f})" using m2(2,3,9,10) g1(2) xs(1,2) by auto
  moreover have "\<exists>h \<in> set xs0 - {f}. fr m2 d k = Some h \<and> PTE_FLAGS (pte m2 d k) = PTE_P OR PTE_W OR PTE_U \<and> ram m2 h = (\<lambda>_. 0)"
    if k: "i0 \<le> k \<and> k < i" for k
  proof -
    have kk: "k < 2 ^ 20" "k < UPAGES" using k i(2) by auto
    obtain h where h: "h \<in> set xs0" "fr m d k = Some h" "PTE_FLAGS (pte m d k) = PTE_P OR PTE_W OR PTE_U" "ram m h = (\<lambda>_. 0)"
      using g k unfolding grown_def by blast
    have pk: "pte m2 d k = pte m d k" using m2(4) kk(1) by simp
    then have f2: "fr m2 d k = Some h" using h(2) fr_cong by metis
    have "h \<in> frames m2 d" by (rule framesI[OF kk(2) f2])
    then have "h \<notin> insert d (tabs m2 d)" "h \<noteq> f" using spaceD(3,4)[OF m2(1)] m2(3) by (auto simp: own_def)
    then have "ram m2 h = ram m h" using m2(5) xs(3) by simp
    then show ?thesis using h f2 pk \<open>h \<noteq> f\<close> by auto
  qed
  moreover have "\<forall>p. p \<notin> insert d (tabs m0 d) \<union> R \<longrightarrow> ram m2 p = ram m0 p"
  proof (intro allI impI)
    fix p assume p: "p \<notin> insert d (tabs m0 d) \<union> R"
    then have "p \<notin> insert d (tabs m2 d)" "p \<noteq> f" using m2(6,10) g1(5,6,9) xs(1) by auto
    then show "ram m2 p = ram m0 p" using m2(5) xs(3) g1(4) p by simp
  qed
  moreover have "tabs m2 d \<subseteq> tabs m0 d \<union> (set xs0 - {f})"
  proof -
    have "f \<notin> tabs m2 d" using m2(3) by (simp add: own_def)
    moreover have "tabs m2 d \<subseteq> tabs m0 d \<union> set xs0" using m2(6) g1(5,6) xs(1) by auto
    ultimately show ?thesis by blast
  qed
  moreover have "\<forall>k < 2 ^ 20. \<not> (i0 \<le> k \<and> k < i) \<longrightarrow> pte m2 d k = pte m0 d k" using m2(4) g1(3) by simp
  moreover have "set (filter (\<lambda>x. x \<noteq> f) xs0) = set xs0 - {f}" by auto
  moreover have "set xs0 - {f} \<subseteq> R" using g1(9) by blast
  ultimately show ?thesis using m2(1,7,8) g1(7,8) unfolding grown_def by simp
qed

lemma alloc_loop_ok:
  assumes S0: "space d m0 xs0" and "grown d m0 xs0 (set xs0) (npages oldsz) i m xs" "npages oldsz \<le> i" "npages newsz \<le> UPAGES" "KERNBASE < kend m0"
    "\<forall>k. npages oldsz \<le> k \<and> k < npages newsz \<longrightarrow> fr m0 d k = None" "i \<le> npages newsz"
  shows "\<exists>r m' ys. alloc_loop d (i * PGSIZE) oldsz newsz m = Inr (r, m') \<and>
    (r = newsz \<and> grown d m0 xs0 (set xs0) (npages oldsz) (npages newsz) m' ys \<or>
     r = 0 \<and> same_space d m0 xs0 (set xs0) m' ys \<and> length xs + card (tabs m d) \<le> 1024 + (npages newsz - i))"
  using assms(2-7)
proof (induction "npages newsz - i" arbitrary: i m xs rule: less_induct)
  case less
  define N where "N = npages newsz"
  define I where "I = npages oldsz"
  note P = less.prems[folded N_def I_def]
  note IH = less.hyps[folded N_def I_def]
  have stop: "newsz \<le> i * PGSIZE \<longleftrightarrow> N \<le> i" using page_less[of i newsz] unfolding N_def by linarith
  have sp: "space d m xs" "kend m = kend m0" using P(1) unfolding grown_def by blast+
  show ?case unfolding N_def[symmetric] I_def[symmetric]
  proof (cases "N \<le> i")
    case True
    then have "i = N" using P(6) by simp
    then show "\<exists>r m' ys. alloc_loop d (i * PGSIZE) oldsz newsz m = Inr (r, m') \<and>
      (r = newsz \<and> grown d m0 xs0 (set xs0) I N m' ys \<or> r = 0 \<and> same_space d m0 xs0 (set xs0) m' ys \<and> length xs + card (tabs m d) \<le> 1024 + (N - i))"
      using stop P(1) by (intro exI[of _ newsz] exI[of _ m] exI[of _ xs]) (simp add: alloc_loop.simps)
  next
    case False
    then have i: "i < N" "i < UPAGES" "i < 2 ^ 20" using P(3) by simp_all
    note unf = alloc_loop.simps[of d "i * PGSIZE" oldsz newsz m, unfolded stop if_not_P[OF False]]
    have frN: "fr m d i = None"
    proof -
      have "pte m d i = pte m0 d i" using P(1) i(3) unfolding grown_def by auto
      then show ?thesis using P(2,5) i(1) fr_cong by metis
    qed
    show "\<exists>r m' ys. alloc_loop d (i * PGSIZE) oldsz newsz m = Inr (r, m') \<and>
      (r = newsz \<and> grown d m0 xs0 (set xs0) I N m' ys \<or> r = 0 \<and> same_space d m0 xs0 (set xs0) m' ys \<and> length xs + card (tabs m d) \<le> 1024 + (N - i))"
    proof (cases "kalloc m")
      case (Pair o1 m1)
      show ?thesis
      proof (cases o1)
        case None
        then have m1: "xs = []" "m1 = m" using kalloc_None[OF cleanD(1)[OF spaceD(1)[OF sp(1)]]] Pair by auto
        have b: "KERNBASE < kend m" using sp(2) P(4) by simp
        have al: "aligned_at m d I N" by (rule grown_aligned[OF P(1,2,6,3,5)])
        obtain m' ys where m': "deallocuvm d newsz oldsz m = Inr (min newsz oldsz, m')" "shrunk d m xs I N m' ys"
          using deallocuvm_ok[OF sp(1) b P(3)[unfolded N_def] al[unfolded N_def I_def]] unfolding N_def I_def by blast
        have "same_space d m0 xs0 (set xs0) m' ys" by (rule grown_shrunk[OF P(1,6,3,5) m'(2)])
        moreover have "alloc_loop d (i * PGSIZE) oldsz newsz m = Inr (0, m')" using unf Pair None m1(2) m'(1) by simp
        ultimately show ?thesis using m1(1) card_tabs[of m d] by (intro exI[of _ 0] exI[of _ m'] exI[of _ ys]) simp
      next
        case (Some f)
        let ?m2 = "set_page f (\<lambda>_. 0) m1"
        have kf: "kalloc m = (Some f, m1)" using Pair Some by simp
        obtain ys where ys: "xs = f # ys" "space d ?m2 ys" "ram m1 = ram m" "kend m1 = kend m" "kdata m1 = kdata m" "valid_page m f" "f \<notin> own m d" "f \<notin> set ys"
          "own ?m2 d = own m d" "tabs ?m2 d = tabs m d" "\<forall>k < 2 ^ 20. pte ?m2 d k = pte m d k"
          using space_take[OF sp(1) kf, of "\<lambda>_. 0"] by blast
        have v: "valid_page ?m2 f" "f \<notin> own ?m2 d" using ys(4,6,7,9) by (simp_all add: valid_page_def)
        have fN: "fr ?m2 d i = None" using frN ys(11) i(3) fr_cong by metis
        obtain r m' zs where mp: "mappages d (i * PGSIZE) PGSIZE (V2P f) (PTE_W OR PTE_U) ?m2 = Inr (r, m')" and
          k': "kend m' = kend ?m2" "kdata m' = kdata ?m2" "\<forall>p. p \<notin> insert d (tabs m' d) \<longrightarrow> ram m' p = ram ?m2 p"
            "f \<notin> insert d (tabs m' d) \<union> set zs" "tabs m' d \<subseteq> tabs ?m2 d \<union> set ys" "set zs \<subseteq> set ys" "space d m' zs"
            "insert f (own m' d \<union> set zs) = insert f (own ?m2 d \<union> set ys)" and
          br: "if r = 0 then (\<forall>k < 2 ^ 20. pte m' d k = (if k = i then V2P f OR (PTE_W OR PTE_U) OR PTE_P else pte ?m2 d k)) \<and> fr m' d i = Some f \<and>
              length ys + card (tabs ?m2 d) = length zs + card (tabs m' d)
            else r = -1 \<and> zs = [] \<and> length ys + card (tabs ?m2 d) \<le> 1024 \<and> f \<notin> own m' d \<and> (\<forall>k < 2 ^ 20. pte m' d k = pte ?m2 d k)"
          using space_map_page[OF ys(2) v ys(8) i(2) fN user_flags(1)] by blast
        show ?thesis
        proof (cases "r = 0")
          case True
          have b2: "\<forall>k < 2 ^ 20. pte m' d k = (if k = i then V2P f OR (PTE_W OR PTE_U) OR PTE_P else pte m d k)" "fr m' d i = Some f"
            "length ys + card (tabs m d) = length zs + card (tabs m' d)" using br True ys(10,11) by simp_all
          have gs: "grown d m0 xs0 (set xs0) I (Suc i) m' zs"
            by (rule grown_step[OF P(1,2) i(2) ys(1,7,3) k'(7) _ b2(2,1) k'(3) _ k'(6)]) (use k' ys in simp_all)
          have lt: "N - Suc i < N - i" "I \<le> Suc i" "Suc i \<le> N" using i P(2) by simp_all
          obtain r2 m3 ws where r2: "alloc_loop d (Suc i * PGSIZE) oldsz newsz m' = Inr (r2, m3)" and
            c2: "r2 = newsz \<and> grown d m0 xs0 (set xs0) I N m3 ws \<or> r2 = 0 \<and> same_space d m0 xs0 (set xs0) m3 ws \<and> length zs + card (tabs m' d) \<le> 1024 + (N - Suc i)"
            using IH[OF lt(1) gs lt(2) P(3-5) lt(3)] by blast
          have e: "i * PGSIZE + PGSIZE = Suc i * PGSIZE" by simp
          have eq: "alloc_loop d (i * PGSIZE) oldsz newsz m = Inr (r2, m3)"
            unfolding unf kf prod.case option.case mp kbind_simps e r2 using True by simp
          have "length xs + card (tabs m d) \<le> 1024 + (N - i)" if "length zs + card (tabs m' d) \<le> 1024 + (N - Suc i)"
            using that b2(3) ys(1) i(1) by simp
          then show ?thesis using eq c2 by blast
        next
          case False
          have b2: "r = -1" "zs = []" "length ys + card (tabs m d) \<le> 1024" "f \<notin> own m' d" "\<forall>k < 2 ^ 20. pte m' d k = pte m d k"
            using br False ys(10,11) by simp_all
          have fx: "f \<in> set xs0" using P(1) ys(1) unfolding grown_def by auto
          then have f0: "f \<in> set xs0" "f \<notin> own m0 d" "valid_page m0 f"
            using space_own[OF S0] ys(6) valid_page_cong[OF sp(2)] by auto
          have g'': "grown d m0 (filter (\<lambda>x. x \<noteq> f) xs0) (set xs0) I i m' []"
            by (rule grown_stuck[OF P(1,2) i(2) ys(1,7,3)]) (use b2 k' ys f0 in auto)
          have b3: "KERNBASE < kend m'" using k'(1) ys(4) sp(2) P(4) by simp
          have al: "aligned_at m' d I N" by (rule grown_aligned[OF g'' P(2,6,3,5)])
          obtain m3 ws where m3: "deallocuvm d newsz oldsz m' = Inr (min newsz oldsz, m3)" "shrunk d m' [] I N m3 ws"
            using deallocuvm_ok[OF k'(7)[unfolded b2(2)] b3 P(3)[unfolded N_def] al[unfolded N_def I_def]] unfolding N_def I_def by blast
          have ss: "same_space d m0 (filter (\<lambda>x. x \<noteq> f) xs0) (set xs0) m3 ws" by (rule grown_shrunk[OF g'' P(6,3,5) m3(2)])
          have "own m3 d \<union> set ws = own m' d \<union> set []" using m3(2) unfolding shrunk_def by blast
          then have fn: "f \<notin> own m3 d" "f \<notin> set ws" using b2(4) by auto
          have seq: "set xs0 = insert f (set (filter (\<lambda>x. x \<noteq> f) xs0))" using f0(1) by auto
          obtain m4 where m4: "kfree f m3 = Inr m4" "same_space d m0 xs0 (set xs0) m4 (f # ws)"
            using same_space_give[OF ss f0(3) fn f0(1) seq] by blast
          have "alloc_loop d (i * PGSIZE) oldsz newsz m = Inr (0, m4)" using unf kf mp b2(1) m3(1) m4(1) by simp
          moreover have "length xs + card (tabs m d) \<le> 1024 + (N - i)" using b2(3) ys(1) i(1) by simp
          ultimately show ?thesis using m4(2) by (intro exI[of _ 0] exI[of _ m4] exI[of _ "f # ws"]) simp
        qed
      qed
    qed
  qed
qed

lemma grown_refl: "space d m xs \<Longrightarrow> grown d m xs (set xs) i i m xs"
  by (auto simp: grown_def)

lemma npages_user: "sz < unat KERNBASE \<Longrightarrow> npages sz \<le> UPAGES"
  using npages_mono[of sz "UPAGES * PGSIZE"] npages_simps(2)[of UPAGES] by simp

lemma allocuvm_ok:
  assumes "space d m xs" "KERNBASE < kend m" "\<forall>k. npages oldsz \<le> k \<and> k < npages newsz \<longrightarrow> fr m d k = None"
  shows "if unat KERNBASE \<le> newsz then allocuvm d oldsz newsz m = Inr (0, m)
    else if newsz < oldsz then allocuvm d oldsz newsz m = Inr (oldsz, m)
    else \<exists>r m' ys. allocuvm d oldsz newsz m = Inr (r, m') \<and>
      (r = newsz \<and> grown d m xs (set xs) (npages oldsz) (npages newsz) m' ys \<or>
       r = 0 \<and> same_space d m xs (set xs) m' ys \<and> length xs + card (tabs m d) \<le> 1024 + (npages newsz - npages oldsz))"
proof (cases "unat KERNBASE \<le> newsz \<or> newsz < oldsz")
  case True
  then show ?thesis by (auto simp: allocuvm_def)
next
  case False
  then have n: "npages newsz \<le> UPAGES" "npages oldsz \<le> npages newsz" using npages_user npages_mono by simp_all
  have "\<exists>r m' ys. alloc_loop d (npages oldsz * PGSIZE) oldsz newsz m = Inr (r, m') \<and>
      (r = newsz \<and> grown d m xs (set xs) (npages oldsz) (npages newsz) m' ys \<or>
       r = 0 \<and> same_space d m xs (set xs) m' ys \<and> length xs + card (tabs m d) \<le> 1024 + (npages newsz - npages oldsz))"
    by (rule alloc_loop_ok[OF assms(1) grown_refl[OF assms(1)] _ n(1) assms(2,3) n(2)]) simp
  then show ?thesis using False by (simp add: allocuvm_def PGROUNDUP_npages)
qed

section \<open>Freeing a space\<close>

lemma shrunk_tabs: "shrunk d m xs i N m' ys \<Longrightarrow> tabs m' d = tabs m d"
  by (simp add: shrunk_def tabs_def)

lemma free_tables_ok:
  assumes "free_ok m xs" "distinct is" "\<forall>i \<in> set is. i < 1024" "d \<notin> set xs"
    "\<forall>i \<in> set is. \<forall>t. tab m d i = Some t \<longrightarrow> valid_page m t \<and> t \<notin> set xs \<and> t \<noteq> d"
    "\<forall>i \<in> set is. \<forall>j \<in> set is. \<forall>t. tab m d i = Some t \<and> tab m d j = Some t \<longrightarrow> i = j"
  shows "\<exists>m' ys. free_tables d is m = Inr m' \<and> free_ok m' ys \<and> set ys = set xs \<union> {t. \<exists>i \<in> set is. tab m d i = Some t} \<and>
    length ys = length xs + card {t. \<exists>i \<in> set is. tab m d i = Some t} \<and> d \<notin> set ys \<and>
    (\<forall>p. p \<notin> {t. \<exists>i \<in> set is. tab m d i = Some t} \<longrightarrow> ram m' p = ram m p) \<and> kend m' = kend m \<and> kdata m' = kdata m"
  using assms
proof (induction "is" arbitrary: m xs)
  case Nil
  then show ?case by (intro exI[of _ m] exI[of _ xs]) simp
next
  case (Cons i js m xs)
  note unf = free_tables.simps(2)[of d i js m, unfolded Let_def]
  let ?S = "\<lambda>l. {t. \<exists>i \<in> set l. tab m d i = Some t}"
  show ?case
  proof (cases "tab m d i")
    case None
    then have "\<not> (pword (ram m d) i AND PTE_P \<noteq> 0)" by (auto simp: tab_def Let_def split: if_splits)
    then have "free_tables d (i # js) m = free_tables d js m" using unf by simp
    moreover have "?S (i # js) = ?S js" using None by auto
    moreover have "\<exists>m' ys. free_tables d js m = Inr m' \<and> free_ok m' ys \<and> set ys = set xs \<union> ?S js \<and>
      length ys = length xs + card (?S js) \<and> d \<notin> set ys \<and> (\<forall>p. p \<notin> ?S js \<longrightarrow> ram m' p = ram m p) \<and> kend m' = kend m \<and> kdata m' = kdata m"
      by (rule Cons.IH) (use Cons.prems in auto)
    ultimately show ?thesis by simp
  next
    case (Some t)
    have pr: "pword (ram m d) i AND PTE_P \<noteq> 0" "t = P2V (PTE_ADDR (pword (ram m d) i))"
      using Some by (auto simp: tab_def Let_def split: if_splits)
    have t: "valid_page m t" "t \<notin> set xs" "t \<noteq> d" using Cons.prems(5) Some by auto
    obtain m1 where m1: "kfree t m = Inr m1" "free_ok m1 (t # xs)" "\<forall>p. p \<noteq> t \<longrightarrow> ram m1 p = ram m p" "kend m1 = kend m" "kdata m1 = kdata m"
      using kfree_valid[OF Cons.prems(1) t(1,2)] by blast
    have tb: "tab m1 d j = tab m d j" for j by (rule tab_cong) (use m1(3) t(3) in simp)
    have ne: "tab m d j \<noteq> Some t" if "j \<in> set js" for j
      using Cons.prems(2,6) Some that by (metis distinct.simps(2) list.set_intros(1) list.set_intros(2))
    have "\<exists>m' ys. free_tables d js m1 = Inr m' \<and> free_ok m' ys \<and> set ys = set (t # xs) \<union> {t. \<exists>i \<in> set js. tab m1 d i = Some t} \<and>
      length ys = length (t # xs) + card {t. \<exists>i \<in> set js. tab m1 d i = Some t} \<and> d \<notin> set ys \<and>
      (\<forall>p. p \<notin> {t. \<exists>i \<in> set js. tab m1 d i = Some t} \<longrightarrow> ram m' p = ram m1 p) \<and> kend m' = kend m1 \<and> kdata m' = kdata m1"
    proof (rule Cons.IH[OF m1(2)])
      show "\<forall>j \<in> set js. \<forall>u. tab m1 d j = Some u \<longrightarrow> valid_page m1 u \<and> u \<notin> set (t # xs) \<and> u \<noteq> d"
        using Cons.prems(5) ne valid_page_cong[OF m1(4)] unfolding tb by auto
      show "\<forall>i \<in> set js. \<forall>j \<in> set js. \<forall>u. tab m1 d i = Some u \<and> tab m1 d j = Some u \<longrightarrow> i = j"
        unfolding tb using Cons.prems(6) by auto
    qed (use Cons.prems t in auto)
    then obtain m' ys where r: "free_tables d js m1 = Inr m'" "free_ok m' ys" "set ys = set (t # xs) \<union> ?S js" "length ys = length (t # xs) + card (?S js)"
      "d \<notin> set ys" "\<forall>p. p \<notin> ?S js \<longrightarrow> ram m' p = ram m1 p" "kend m' = kend m1" "kdata m' = kdata m1"
      unfolding tb by blast
    have S: "?S (i # js) = insert t (?S js)" "t \<notin> ?S js" using Some ne by auto
    have "finite (?S js)"
      by (rule finite_subset[of _ "(\<lambda>i. the (tab m d i)) ` set js"]) (force simp: image_iff, simp)
    then have c: "card (?S (i # js)) = Suc (card (?S js))" using S by simp
    have "free_tables d (i # js) m = Inr m'" using unf pr m1(1) r(1) by simp
    moreover have "set ys = set xs \<union> ?S (i # js)" using r(3) S(1) by auto
    moreover have "length ys = length xs + card (?S (i # js))" using r(4) c by simp
    moreover have "\<forall>p. p \<notin> ?S (i # js) \<longrightarrow> ram m' p = ram m p" using r(6) m1(3) S(1) by auto
    ultimately show ?thesis using r(2,5,7,8) m1(4,5) by (intro exI[of _ m'] exI[of _ ys]) simp
  qed
qed

text \<open>Freeing a space puts all of its pages on the free list, each once.\<close>

lemma freevm_ok:
  assumes s: "space d m xs" and b: "KERNBASE < kend m"
  shows "\<exists>m' ys. freevm d m = Inr m' \<and> free_ok m' ys \<and> set ys = own m d \<union> set xs \<and> (\<forall>p. p \<notin> own m d \<longrightarrow> ram m' p = ram m p) \<and>
    kend m' = kend m \<and> kdata m' = kdata m"
proof -
  have k0: "npages (unat KERNBASE) = UPAGES" using npages_simps(2)[of UPAGES] by simp
  have al: "aligned_at m d (npages 0) (npages (unat KERNBASE))" by (simp add: aligned_at_def)
  obtain m1 ys where d1: "deallocuvm d (unat KERNBASE) 0 m = Inr (min (unat KERNBASE) 0, m1)" "shrunk d m xs (npages 0) (npages (unat KERNBASE)) m1 ys"
    using deallocuvm_ok[OF s b _ al] k0 by auto
  have sh: "shrunk d m xs 0 UPAGES m1 ys" using d1(2) k0 by simp
  have s1: "space d m1 ys" "own m1 d \<union> set ys = own m d \<union> set xs" "tab m1 d = tab m d" "kend m1 = kend m" "kdata m1 = kdata m"
    using sh unfolding shrunk_def by blast+
  have f0: "fr m1 d k = None" if k: "k < UPAGES" for k
  proof -
    have "pte m1 d k = (if 0 \<le> k \<and> k < UPAGES \<and> fr m d k \<noteq> None then 0 else pte m d k)" using sh k unfolding shrunk_def by auto
    then show ?thesis using k by (cases "fr m d k") (auto simp: fr_def split: if_splits)
  qed
  have fm: "frames m1 d = {}" using f0 by (auto simp: frames_def)
  note c1 = spaceD(1)[OF s1(1)]
  have S: "{t. \<exists>i \<in> set [0..<1024]. tab m1 d i = Some t} = tabs m1 d" by (auto simp: tabs_def)
  have "\<exists>m2 zs. free_tables d [0..<1024] m1 = Inr m2 \<and> free_ok m2 zs \<and> set zs = set ys \<union> {t. \<exists>i \<in> set [0..<1024]. tab m1 d i = Some t} \<and>
    length zs = length ys + card {t. \<exists>i \<in> set [0..<1024]. tab m1 d i = Some t} \<and> d \<notin> set zs \<and>
    (\<forall>p. p \<notin> {t. \<exists>i \<in> set [0..<1024]. tab m1 d i = Some t} \<longrightarrow> ram m2 p = ram m1 p) \<and> kend m2 = kend m1 \<and> kdata m2 = kdata m1"
  proof (rule free_tables_ok[OF cleanD(1)[OF c1]])
    show "\<forall>i \<in> set [0..<1024]. \<forall>t. tab m1 d i = Some t \<longrightarrow> valid_page m1 t \<and> t \<notin> set ys \<and> t \<noteq> d"
      using pd_okD(2,3)[OF cleanD(2)[OF c1]] cleanD(4)[OF c1] tabsI by fastforce
    show "\<forall>i \<in> set [0..<1024]. \<forall>j \<in> set [0..<1024]. \<forall>t. tab m1 d i = Some t \<and> tab m1 d j = Some t \<longrightarrow> i = j"
      using pd_okD(4)[OF cleanD(2)[OF c1]] by fastforce
  qed (use cleanD(3)[OF c1] in simp_all)
  then obtain m2 zs where t2: "free_tables d [0..<1024] m1 = Inr m2" "free_ok m2 zs" "set zs = set ys \<union> tabs m1 d" "d \<notin> set zs"
    "\<forall>p. p \<notin> tabs m1 d \<longrightarrow> ram m2 p = ram m1 p" "kend m2 = kend m1" "kdata m2 = kdata m1"
    unfolding S by blast
  have v: "valid_page m2 d" using pd_okD(1)[OF cleanD(2)[OF c1]] valid_page_cong[OF t2(6)] by simp
  obtain m3 where m3: "kfree d m2 = Inr m3" "free_ok m3 (d # zs)" "\<forall>p. p \<noteq> d \<longrightarrow> ram m3 p = ram m2 p" "kend m3 = kend m2" "kdata m3 = kdata m2"
    using kfree_valid[OF t2(2) v t2(4)] by blast
  have d0: "d \<noteq> 0" using v by (simp add: valid_page_def)
  have "freevm d m = Inr m3" using d0 d1(1) t2(1) m3(1) by (simp add: freevm_def)
  moreover have "set (d # zs) = own m d \<union> set xs" using t2(3) s1(2) fm by (auto simp: own_def)
  moreover have "ram m3 p = ram m p" if p: "p \<notin> own m d" for p
  proof -
    have "p \<noteq> d" "p \<notin> tabs m d" using p by (simp_all add: own_def)
    moreover have "\<forall>k. 0 \<le> k \<and> k < UPAGES \<longrightarrow> fr m d k \<noteq> Some p" using p framesI by (auto simp: own_def)
    ultimately have "ram m1 p = ram m p" using sh unfolding shrunk_def by blast
    then show ?thesis using m3(3) t2(5) \<open>p \<noteq> d\<close> \<open>p \<notin> tabs m d\<close> shrunk_tabs[OF sh] by simp
  qed
  ultimately show ?thesis using m3 t2(6,7) s1(4,5) by (intro exI[of _ m3] exI[of _ "d # zs"]) simp
qed

end
