(* ===== verification/Vm_Copy.thy ===== *)
theory Vm_Copy
  imports Vm_Alloc
begin

text \<open>
  Copying an address space, and user memory as the process sees it. Results: \<open>copyuvm\<close> gives the
  child the same bytes at the same addresses in pages of its own; \<open>copyout\<close> writes exactly the bytes
  it is given.
\<close>

section \<open>Copying\<close>

lemma kmapped_cong:
  assumes "ranges_ok lo ks" "\<forall>k. lo \<le> k \<and> k < 2 ^ 20 \<longrightarrow> pte m' d k = pte m d k" "kmapped m d ks"
  shows "kmapped m' d ks"
  using assms
proof (induction ks arbitrary: lo)
  case Nil
  then show ?case by (simp add: kmapped_def)
next
  case (Cons q ks)
  obtain virt start fin perm where q: "q = (virt, start, fin, perm)" by (cases q)
  obtain n c where n: "unat virt = n * PGSIZE" "unat (fin - start) = c * PGSIZE" "lo \<le> n" "n + c \<le> 2 ^ 20" "ranges_ok (n + c) ks"
    using Cons.prems(1) unfolding q by auto
  have "kmapped m' d ks"
    by (rule Cons.IH[OF n(5)]) (use Cons.prems(2,3) n(3) in \<open>auto simp: kmapped_def\<close>)
  moreover have "pte m' d (n + j) = (start + of_nat (j * PGSIZE)) OR perm OR PTE_P" if "j < c" for j
  proof -
    have "pte m' d (n + j) = pte m d (n + j)" using Cons.prems(2) that n(3,4) by simp
    then show ?thesis using Cons.prems(3) that n(1,2) unfolding kmapped_def q by simp
  qed
  ultimately show ?case using n(1,2) unfolding kmapped_def q by auto
qed

lemma PTE_FLAGS_low: "PTE_FLAGS e AND NOT 0xFFF = 0"
proof -
  have "PTE_FLAGS e AND NOT (mask 12) = 0"
    unfolding PTE_FLAGS_def mask12 by (rule bit_word_eqI) (auto simp: bit_simps)
  then show ?thesis unfolding mask12 .
qed

lemma PTE_FLAGS_present: "e AND PTE_P \<noteq> 0 \<Longrightarrow> PTE_FLAGS e OR PTE_P = PTE_FLAGS e"
proof (rule bit_word_eqI)
  fix n assume e: "e AND PTE_P \<noteq> 0" "n < LENGTH(32)"
  have "bit e 0"
  proof (rule ccontr)
    assume "\<not> bit e 0"
    then have "e AND 1 = 0" by (simp add: and_one_eq even_iff_mod_2_eq_zero[symmetric] bit_0)
    then show False using e(1) by simp
  qed
  then show "bit (PTE_FLAGS e OR PTE_P) n = bit (PTE_FLAGS e) n"
    unfolding PTE_FLAGS_def mask12 by (cases n) (auto simp: bit_simps bit_1_iff)
qed

text \<open>
  The state of the copy at page \<open>i\<close>: \<open>R\<close> is the set of the pages that were free at the start, \<open>m0\<close> the
  memory then, \<open>kp\<close> the kernel part of the copy.
\<close>

definition copied :: "u32 \<Rightarrow> mem \<Rightarrow> u32 set \<Rightarrow> (nat \<Rightarrow> u32) \<Rightarrow> u32 \<Rightarrow> nat \<Rightarrow> mem \<Rightarrow> u32 list \<Rightarrow> bool" where
  "copied d0 m0 R kp d i m xs \<longleftrightarrow>
     space d m xs \<and> own m d \<union> set xs = R \<and> (\<forall>p. p \<notin> R \<longrightarrow> ram m p = ram m0 p) \<and> kend m = kend m0 \<and> kdata m = kdata m0 \<and>
     (\<forall>k < i. \<exists>f g. fr m0 d0 k = Some f \<and> fr m d k = Some g \<and> ram m g = ram m0 f \<and> PTE_FLAGS (pte m d k) = PTE_FLAGS (pte m0 d0 k)) \<and>
     (\<forall>k. i \<le> k \<and> k < UPAGES \<longrightarrow> fr m d k = None) \<and> (\<forall>k. UPAGES \<le> k \<and> k < 2 ^ 20 \<longrightarrow> pte m d k = kp k)"

lemma copied_step:
  assumes c: "copied d0 m0 R kp d i m xs" and i: "i < UPAGES" and f: "fr m0 d0 i = Some pf" "pf \<notin> R"
    and xs: "f \<notin> own m d" "ram m1 = ram m" "f \<in> R"
    and m2: "space d m2 zs" "own m2 d \<union> set zs = R" "fr m2 d i = Some g" "g = f"
      "\<forall>k < 2 ^ 20. pte m2 d k = (if k = i then V2P f OR PTE_FLAGS (pte m0 d0 i) OR PTE_P else pte m d k)"
      "\<forall>p. p \<notin> insert d (tabs m2 d) \<longrightarrow> ram m2 p = ram (set_page f (ram m1 pf) m1) p" "kend m2 = kend m" "kdata m2 = kdata m"
  shows "copied d0 m0 R kp d (Suc i) m2 zs"
proof -
  have c1: "space d m xs" "own m d \<union> set xs = R" "\<forall>p. p \<notin> R \<longrightarrow> ram m p = ram m0 p" "kend m = kend m0" "kdata m = kdata m0"
    "\<forall>k. i \<le> k \<and> k < UPAGES \<longrightarrow> fr m d k = None" "\<forall>k. UPAGES \<le> k \<and> k < 2 ^ 20 \<longrightarrow> pte m d k = kp k"
    using c unfolding copied_def by blast+
  have f2: "fr m2 d i = Some f" using m2(3,4) by simp
  have fin: "f \<in> frames m2 d" by (rule framesI[OF i f2])
  have ft: "f \<notin> insert d (tabs m2 d)" using spaceD(3,4)[OF m2(1) fin] by simp
  have al: "f mod 4096 = 0" using spaceD(2)[OF m2(1) fin] by (simp add: valid_page_def)
  have tR: "insert d (tabs m2 d) \<subseteq> R" using m2(2) by (auto simp: own_def)
  have rR: "\<forall>p. p \<notin> R \<longrightarrow> ram m2 p = ram m0 p"
  proof (intro allI impI)
    fix p assume p: "p \<notin> R"
    then have "p \<notin> insert d (tabs m2 d)" "p \<noteq> f" using tR xs(3) by auto
    then show "ram m2 p = ram m0 p" using m2(6) xs(2) c1(3) p by simp
  qed
  have "\<exists>f g. fr m0 d0 k = Some f \<and> fr m2 d k = Some g \<and> ram m2 g = ram m0 f \<and> PTE_FLAGS (pte m2 d k) = PTE_FLAGS (pte m0 d0 k)" if k: "k < Suc i" for k
  proof (cases "k = i")
    case True
    have p: "pte m2 d i = V2P f OR PTE_FLAGS (pte m0 d0 i) OR PTE_P" using m2(5) i by simp
    have "pte m0 d0 i AND PTE_P \<noteq> 0" using fr_Some[OF f(1)] by simp
    then have "PTE_FLAGS (pte m2 d i) = PTE_FLAGS (pte m0 d0 i)"
      using fr_entry(2)[OF al PTE_FLAGS_low p] PTE_FLAGS_present by simp
    moreover have "ram m2 f = ram m0 pf" using m2(6) ft xs(2) c1(3) f(2) by simp
    ultimately show ?thesis using True f(1) f2 by blast
  next
    case False
    then have kk: "k < i" "k < 2 ^ 20" "k < UPAGES" using k i by auto
    obtain h g where h: "fr m0 d0 k = Some h" "fr m d k = Some g" "ram m g = ram m0 h" "PTE_FLAGS (pte m d k) = PTE_FLAGS (pte m0 d0 k)"
      using c kk(1) unfolding copied_def by blast
    have pk: "pte m2 d k = pte m d k" using m2(5) kk(2) False by simp
    then have g2: "fr m2 d k = Some g" using h(2) fr_cong by metis
    have "g \<notin> insert d (tabs m2 d)" using spaceD(3,4)[OF m2(1) framesI[OF kk(3) g2]] by simp
    moreover have "g \<noteq> f" using framesI[OF kk(3) h(2)] xs(1) by (auto simp: own_def)
    ultimately have "ram m2 g = ram m g" using m2(6) xs(2) by simp
    then show ?thesis using h g2 pk by metis
  qed
  moreover have "fr m2 d k = None" if "Suc i \<le> k \<and> k < UPAGES" for k
  proof -
    have "pte m2 d k = pte m d k" using m2(5) that by simp
    then show ?thesis using c1(6) that fr_cong by (metis Suc_leD)
  qed
  moreover have "pte m2 d k = kp k" if "UPAGES \<le> k \<and> k < 2 ^ 20" for k using m2(5) c1(7) that i by simp
  ultimately show ?thesis using m2(1,2,7,8) c1(4,5) rR unfolding copied_def by simp
qed

lemma copy_loop_ok:
  assumes "copied d0 m0 R kp d i m xs" "i \<le> npages sz" "npages sz \<le> UPAGES" "KERNBASE < kend m0"
    "pd_ok m0 d0" "insert d0 (tabs m0 d0 \<union> frames m0 d0) \<inter> R = {}" "\<forall>k < npages sz. fr m0 d0 k \<noteq> None"
  shows "\<exists>r m' ys. copy_loop d0 d (i * PGSIZE) sz m = Inr (r, m') \<and>
    (r = Some d \<and> copied d0 m0 R kp d (npages sz) m' ys \<or>
     r = None \<and> free_ok m' ys \<and> set ys \<subseteq> R \<and> (\<forall>p. p \<notin> R \<longrightarrow> ram m' p = ram m0 p) \<and> kend m' = kend m0 \<and> kdata m' = kdata m0 \<and>
       length xs + card (tabs m d) \<le> 1024 + (npages sz - i))"
  using assms
proof (induction "npages sz - i" arbitrary: i m xs rule: less_induct)
  case less
  define N where "N = npages sz"
  note P = less.prems[folded N_def]
  note IH = less.hyps[folded N_def]
  let ?fail = "\<lambda>m' ys. free_ok m' ys \<and> set ys \<subseteq> R \<and> (\<forall>p. p \<notin> R \<longrightarrow> ram m' p = ram m0 p) \<and> kend m' = kend m0 \<and> kdata m' = kdata m0"
  have c: "space d m xs" "own m d \<union> set xs = R" "\<forall>p. p \<notin> R \<longrightarrow> ram m p = ram m0 p" "kend m = kend m0" "kdata m = kdata m0"
    "\<forall>k. i \<le> k \<and> k < UPAGES \<longrightarrow> fr m d k = None"
    using P(1) unfolding copied_def by blast+
  have stop: "sz \<le> i * PGSIZE \<longleftrightarrow> N \<le> i" using page_less[of i sz] unfolding N_def by linarith
  show ?case unfolding N_def[symmetric]
  proof (cases "N \<le> i")
    case True
    then have "i = N" using P(2) by simp
    then show "\<exists>r m' ys. copy_loop d0 d (i * PGSIZE) sz m = Inr (r, m') \<and>
      (r = Some d \<and> copied d0 m0 R kp d N m' ys \<or> r = None \<and> free_ok m' ys \<and> set ys \<subseteq> R \<and> (\<forall>p. p \<notin> R \<longrightarrow> ram m' p = ram m0 p) \<and> kend m' = kend m0 \<and> kdata m' = kdata m0 \<and>
        length xs + card (tabs m d) \<le> 1024 + (N - i))"
      using stop P(1) by (intro exI[of _ "Some d"] exI[of _ m] exI[of _ xs]) (simp add: copy_loop.simps)
  next
    case False
    then have i: "i < N" "i < UPAGES" "i < 2 ^ 20" using P(3) by simp_all
    note unf = copy_loop.simps[of d0 d "i * PGSIZE" sz m, unfolded stop if_not_P[OF False] walk_find[OF i(3), of d0 m] fst_conv]
    obtain pf where pf: "fr m0 d0 i = Some pf" using P(7) i(1) by auto
    have same: "\<forall>p \<in> insert d0 (tabs m0 d0). ram m p = ram m0 p" using c(3) P(6) by auto
    have pt: "pte m d0 i = pte m0 d0 i" by (rule pte_cong[OF same i(3)])
    obtain t where "tab m0 d0 (i div 1024) = Some t" using fr_tab[OF pf] by blast
    then have t: "tab m d0 (i div 1024) = Some t" using tab_cong[of m d0 m0] same by auto
    have ge: "get_pte (t, i mod 1024) m = pte m0 d0 i" using get_pte_tab[OF t] pt by simp
    have pr: "\<not> (pte m0 d0 i AND PTE_P = 0)" "P2V (PTE_ADDR (pte m0 d0 i)) = pf" using fr_Some[OF pf] by simp_all
    have pfR: "pf \<notin> R" using framesI[OF i(2) pf] P(6) by auto
    let ?fl = "PTE_FLAGS (pte m0 d0 i)"
    have st: "copy_loop d0 d (i * PGSIZE) sz m =
      (case kalloc m of
         (None, m1) \<Rightarrow> kbind (freevm d m1) (\<lambda>m2. Inr (None, m2))
       | (Some f, m1) \<Rightarrow>
           kbind (mappages d (i * PGSIZE) PGSIZE (V2P f) ?fl (set_page f (ram m1 pf) m1)) (\<lambda>(r, m2).
             if r < 0 then kbind (freevm d m2) (\<lambda>m3. Inr (None, m3))
             else copy_loop d0 d (Suc i * PGSIZE) sz m2))"
    proof -
      have e: "i * PGSIZE + PGSIZE = Suc i * PGSIZE" by simp
      show ?thesis unfolding unf t option.map option.case ge if_not_P[OF pr(1)] Let_def pr(2) e ..
    qed
    show "\<exists>r m' ys. copy_loop d0 d (i * PGSIZE) sz m = Inr (r, m') \<and>
      (r = Some d \<and> copied d0 m0 R kp d N m' ys \<or> r = None \<and> free_ok m' ys \<and> set ys \<subseteq> R \<and> (\<forall>p. p \<notin> R \<longrightarrow> ram m' p = ram m0 p) \<and> kend m' = kend m0 \<and> kdata m' = kdata m0 \<and>
        length xs + card (tabs m d) \<le> 1024 + (N - i))"
    proof (cases "kalloc m")
      case (Pair o1 m1)
      show ?thesis
      proof (cases o1)
        case None
        then have m1: "xs = []" "m1 = m" using kalloc_None[OF cleanD(1)[OF spaceD(1)[OF c(1)]]] Pair by auto
        have b: "KERNBASE < kend m" using c(4) P(4) by simp
        obtain m' ys where fv: "freevm d m = Inr m'" "free_ok m' ys" "set ys = own m d \<union> set xs" "\<forall>p. p \<notin> own m d \<longrightarrow> ram m' p = ram m p"
          "kend m' = kend m" "kdata m' = kdata m" using freevm_ok[OF c(1) b] by blast
        have "?fail m' ys" using fv c(2-5) by auto
        moreover have "copy_loop d0 d (i * PGSIZE) sz m = Inr (None, m')" using st Pair None m1(2) fv(1) by simp
        ultimately show ?thesis using m1(1) card_tabs[of m d] by (intro exI[of _ None] exI[of _ m'] exI[of _ ys]) simp
      next
        case (Some f)
        let ?m2 = "set_page f (ram m1 pf) m1"
        have kf: "kalloc m = (Some f, m1)" using Pair Some by simp
        obtain ys where ys: "xs = f # ys" "space d ?m2 ys" "ram m1 = ram m" "kend m1 = kend m" "kdata m1 = kdata m" "valid_page m f" "f \<notin> own m d" "f \<notin> set ys"
          "own ?m2 d = own m d" "tabs ?m2 d = tabs m d" "\<forall>k < 2 ^ 20. pte ?m2 d k = pte m d k"
          using space_take[OF c(1) kf, of "ram m1 pf"] by blast
        have v: "valid_page ?m2 f" "f \<notin> own ?m2 d" using ys(4,6,7,9) by (simp_all add: valid_page_def)
        have frN: "fr m d i = None" using c(6) i(2) by simp
        have fN: "fr ?m2 d i = None" using frN ys(11) i(3) fr_cong by metis
        have fR: "f \<in> R" using c(2) ys(1) by auto
        obtain r m' zs where mp: "mappages d (i * PGSIZE) PGSIZE (V2P f) ?fl ?m2 = Inr (r, m')" and
          k': "kend m' = kend ?m2" "kdata m' = kdata ?m2" "\<forall>p. p \<notin> insert d (tabs m' d) \<longrightarrow> ram m' p = ram ?m2 p" "space d m' zs"
            "insert f (own m' d \<union> set zs) = insert f (own ?m2 d \<union> set ys)" and
          br: "if r = 0 then (\<forall>k < 2 ^ 20. pte m' d k = (if k = i then V2P f OR ?fl OR PTE_P else pte ?m2 d k)) \<and> fr m' d i = Some f \<and>
              length ys + card (tabs ?m2 d) = length zs + card (tabs m' d)
            else r = -1 \<and> zs = [] \<and> length ys + card (tabs ?m2 d) \<le> 1024 \<and> f \<notin> own m' d \<and> (\<forall>k < 2 ^ 20. pte m' d k = pte ?m2 d k)"
          using space_map_page[OF ys(2) v ys(8) i(2) fN PTE_FLAGS_low] by blast
        have pool: "insert f (own m' d \<union> set zs) = R" using k'(5) ys(1,9) c(2) by auto
        show ?thesis
        proof (cases "r = 0")
          case True
          have b2: "\<forall>k < 2 ^ 20. pte m' d k = (if k = i then V2P f OR ?fl OR PTE_P else pte m d k)" "fr m' d i = Some f"
            "length ys + card (tabs m d) = length zs + card (tabs m' d)" using br True ys(10,11) by simp_all
          have ow: "own m' d \<union> set zs = R" using pool framesI[OF i(2) b2(2)] by (auto simp: own_def)
          have cs: "copied d0 m0 R kp d (Suc i) m' zs"
            by (rule copied_step[OF P(1) i(2) pf pfR ys(7,3) fR k'(4) ow b2(2) refl b2(1) k'(3)]) (use k' ys in simp_all)
          have lt: "N - Suc i < N - i" "Suc i \<le> N" using i by simp_all
          obtain r2 m3 ws where r2: "copy_loop d0 d (Suc i * PGSIZE) sz m' = Inr (r2, m3)" and
            c2: "r2 = Some d \<and> copied d0 m0 R kp d N m3 ws \<or> r2 = None \<and> free_ok m3 ws \<and> set ws \<subseteq> R \<and> (\<forall>p. p \<notin> R \<longrightarrow> ram m3 p = ram m0 p) \<and>
              kend m3 = kend m0 \<and> kdata m3 = kdata m0 \<and> length zs + card (tabs m' d) \<le> 1024 + (N - Suc i)"
            using IH[OF lt(1) cs lt(2) P(3-7)] by blast
          have eq: "copy_loop d0 d (i * PGSIZE) sz m = Inr (r2, m3)"
            unfolding st kf prod.case option.case mp kbind_simps r2 using True by simp
          have "length xs + card (tabs m d) \<le> 1024 + (N - i)" if "length zs + card (tabs m' d) \<le> 1024 + (N - Suc i)"
            using that b2(3) ys(1) i(1) by simp
          then show ?thesis using eq c2 by blast
        next
          case False
          have b2: "r = -1" "zs = []" "length ys + card (tabs m d) \<le> 1024" using br False ys(10) by simp_all
          have b: "KERNBASE < kend m'" using k'(1) ys(4) c(4) P(4) by simp
          obtain m3 ws where fv: "freevm d m' = Inr m3" "free_ok m3 ws" "set ws = own m' d \<union> set zs" "\<forall>p. p \<notin> own m' d \<longrightarrow> ram m3 p = ram m' p"
            "kend m3 = kend m'" "kdata m3 = kdata m'" using freevm_ok[OF k'(4) b] by blast
          have ram: "ram m3 p = ram m0 p" if p: "p \<notin> R" for p
          proof -
            have "p \<notin> own m' d" "p \<noteq> f" using p pool by auto
            then have "ram m3 p = ram ?m2 p" using fv(4) k'(3) by (simp add: own_def)
            then show ?thesis using \<open>p \<noteq> f\<close> ys(3) c(3) p by simp
          qed
          have "?fail m3 ws" using fv ram pool k'(1,2) ys(4,5) c(4,5) by auto
          moreover have "copy_loop d0 d (i * PGSIZE) sz m = Inr (None, m3)" using st kf mp b2(1) fv(1) by simp
          moreover have "length xs + card (tabs m d) \<le> 1024 + (N - i)" using b2(3) ys(1) i(1) by simp
          ultimately show ?thesis by (intro exI[of _ None] exI[of _ m3] exI[of _ ws]) simp
        qed
      qed
    qed
  qed
qed

section \<open>User memory\<close>

text \<open>The byte a process finds at a user address.\<close>

definition uread :: "mem \<Rightarrow> u32 \<Rightarrow> nat \<Rightarrow> byte option" where
  "uread m d va = (case fr m d (va div PGSIZE) of None \<Rightarrow> None | Some f \<Rightarrow> Some (ram m f (va mod PGSIZE)))"

lemma space_frame_ram:
  assumes s: "space d m xs" and n: "n < UPAGES" "fr m d n = Some f"
  shows "space d (set_page f p m) xs" "k < 2 ^ 20 \<Longrightarrow> pte (set_page f p m) d k = pte m d k" "k < 2 ^ 20 \<Longrightarrow> fr (set_page f p m) d k = fr m d k"
    "tabs (set_page f p m) d = tabs m d" "tab (set_page f p m) d = tab m d" "own (set_page f p m) d = own m d"
proof -
  have f: "f \<in> frames m d" by (rule framesI[OF n])
  have r: "\<forall>q \<in> insert d (tabs m d). ram (set_page f p m) q = ram m q" using spaceD(3,4)[OF s f] by auto
  have ke: "kend (set_page f p m) = kend m" by simp
  have fo: "free_ok (set_page f p m) xs" by (rule free_ok_set_page[OF cleanD(1)[OF spaceD(1)[OF s]] spaceD(5)[OF s f]])
  note t = space_transfer[OF s r ke fo space_own[OF s]]
  show "space d (set_page f p m) xs" "tabs (set_page f p m) d = tabs m d" "tab (set_page f p m) d = tab m d" "own (set_page f p m) d = own m d"
    by (rule t)+
  show "k < 2 ^ 20 \<Longrightarrow> pte (set_page f p m) d k = pte m d k" "k < 2 ^ 20 \<Longrightarrow> fr (set_page f p m) d k = fr m d k" by (rule t, assumption)+
qed

definition user_page :: "mem \<Rightarrow> u32 \<Rightarrow> nat \<Rightarrow> bool" where
  "user_page m d n \<longleftrightarrow> n < UPAGES \<and> fr m d n \<noteq> None \<and> pte m d n AND PTE_U \<noteq> 0"

lemma uva2ka_ok:
  assumes "n < 2 ^ 20" "fr m d n = Some f"
  shows "uva2ka d (n * PGSIZE) m = Inr (if pte m d n AND PTE_U = 0 then None else Some f)"
proof -
  obtain t where t: "tab m d (n div 1024) = Some t" using fr_tab[OF assms(2)] by blast
  show ?thesis using fr_Some[OF assms(2)] get_pte_tab[OF t]
    by (simp add: uva2ka_def walk_find[OF assms(1)] t del: mult.commute)
qed

text \<open>What \<open>copyout\<close> promises.\<close>

definition written :: "mem \<Rightarrow> u32 \<Rightarrow> u32 list \<Rightarrow> nat \<Rightarrow> byte list \<Rightarrow> mem \<Rightarrow> bool" where
  "written m d xs va buf m' \<longleftrightarrow>
     space d m' xs \<and> (\<forall>k < 2 ^ 20. pte m' d k = pte m d k) \<and> tab m' d = tab m d \<and> kend m' = kend m \<and> kdata m' = kdata m \<and>
     (\<forall>p. p \<notin> frames m d \<longrightarrow> ram m' p = ram m p) \<and>
     (\<forall>a < UPAGES * PGSIZE. uread m' d a = (if va \<le> a \<and> a < va + length buf then Some (buf ! (a - va)) else uread m d a))"

lemma copyout_page:
  assumes s: "space d m xs" and pg: "va div PGSIZE < UPAGES" "fr m d (va div PGSIZE) = Some f" and n: "n = min (PGSIZE - va mod PGSIZE) (length buf)"
  shows "written m d xs va (take n buf) (set_page f (\<lambda>j. if va mod PGSIZE \<le> j \<and> j < va mod PGSIZE + n then buf ! (j - va mod PGSIZE) else ram m f j) m)"
    (is "written m d xs va _ ?m")
proof -
  note t = space_frame_ram[OF s pg, where p = "\<lambda>j. if va mod PGSIZE \<le> j \<and> j < va mod PGSIZE + n then buf ! (j - va mod PGSIZE) else ram m f j"]
  have "uread ?m d a = (if va \<le> a \<and> a < va + length (take n buf) then Some (take n buf ! (a - va)) else uread m d a)" if a: "a < UPAGES * PGSIZE" for a
  proof -
    have an: "a div PGSIZE < UPAGES" using a by (simp add: less_mult_imp_div_less)
    then have a20: "a div PGSIZE < 2 ^ 20" by simp
    have off: "va mod PGSIZE + n \<le> PGSIZE" "n \<le> length buf" using n by auto
    have dec: "va = va div PGSIZE * PGSIZE + va mod PGSIZE" "a = a div PGSIZE * PGSIZE + a mod PGSIZE" by simp_all
    show ?thesis
    proof (cases "a div PGSIZE = va div PGSIZE")
      case True
      have e: "va mod PGSIZE \<le> a mod PGSIZE \<and> a mod PGSIZE < va mod PGSIZE + n \<longleftrightarrow> va \<le> a \<and> a < va + n" "a mod PGSIZE - va mod PGSIZE = a - va"
        using dec True by linarith+
      have n1: "length (take n buf) = n" using off(2) by simp
      have n2: "take n buf ! (a - va) = buf ! (a - va)" if "va \<le> a" "a < va + n" using that by simp
      show ?thesis unfolding uread_def t(3)[OF a20] n1 using True pg(2) by (auto simp: e n2)
    next
      case False
      have "\<not> (va \<le> a \<and> a < va + n)"
      proof
        assume h: "va \<le> a \<and> a < va + n"
        then have "va div PGSIZE \<le> a div PGSIZE" by (intro div_le_mono) simp
        moreover have "a < va div PGSIZE * PGSIZE + PGSIZE" using h off(1) dec(1) by linarith
        then have "a < (va div PGSIZE + 1) * PGSIZE" by simp
        then have "a div PGSIZE < va div PGSIZE + 1" by (simp add: less_mult_imp_div_less)
        ultimately show False using False by simp
      qed
      moreover have "g \<noteq> f" if "fr m d (a div PGSIZE) = Some g" for g
        using spaceD(6)[OF s an pg(1), of f] pg(2) that False by auto
      ultimately show ?thesis unfolding uread_def t(3)[OF a20] using off(2) by (auto simp: min_def split: option.split)
    qed
  qed
  moreover have "\<forall>p. p \<notin> frames m d \<longrightarrow> ram ?m p = ram m p" using framesI[OF pg] by auto
  ultimately show ?thesis unfolding written_def using t(1,2,5) by simp
qed

lemma written_frames: "written m d xs va buf m' \<Longrightarrow> frames m' d = frames m d"
  by (rule frames_cong) (auto simp: written_def fr_def)

lemma written_trans:
  assumes a: "written m d xs va (take n buf) m1" and b: "written m1 d xs (va + n) (drop n buf) m2" and n: "n \<le> length buf"
  shows "written m d xs va buf m2"
proof -
  have "uread m2 d a = (if va \<le> a \<and> a < va + length buf then Some (buf ! (a - va)) else uread m d a)" if h: "a < UPAGES * PGSIZE" for a
  proof -
    have u1: "uread m1 d a = (if va \<le> a \<and> a < va + n then Some (take n buf ! (a - va)) else uread m d a)"
      using a h n unfolding written_def by (simp add: min_absorb2)
    have u2: "uread m2 d a = (if va + n \<le> a \<and> a < va + n + (length buf - n) then Some (drop n buf ! (a - (va + n))) else uread m1 d a)"
      using b h unfolding written_def by simp
    consider "a < va" | "va \<le> a" "a < va + n" | "va + n \<le> a" by linarith
    then show ?thesis
    proof cases
      case 3
      then have "n + (a - (va + n)) = a - va" by simp
      then show ?thesis using u1 u2 3 n by (auto simp: nth_drop)
    qed (use u1 u2 n in auto)
  qed
  moreover have "\<forall>p. p \<notin> frames m d \<longrightarrow> ram m2 p = ram m p" using a b written_frames[OF a] unfolding written_def by simp
  ultimately show ?thesis using a b unfolding written_def by simp
qed

lemma written_user: "written m d xs va buf m' \<Longrightarrow> user_page m d k \<Longrightarrow> user_page m' d k"
  by (auto simp: written_def user_page_def fr_def split: if_splits)

lemma copyout_ok:
  assumes "space d m xs" "\<forall>n. va div PGSIZE \<le> n \<and> n * PGSIZE < va + length buf \<longrightarrow> user_page m d n"
  shows "\<exists>m'. copyout d va buf m = Inr (0, m') \<and> written m d xs va buf m'"
  using assms
proof (induction "length buf" arbitrary: va buf m rule: less_induct)
  case less
  show ?case
  proof (cases "buf = []")
    case True
    then show ?thesis using less.prems(1) by (intro exI[of _ m]) (auto simp: copyout.simps written_def)
  next
    case False
    define n where "n = min (PGSIZE - va mod PGSIZE) (length buf)"
    have lt: "va mod PGSIZE < PGSIZE" by simp
    have n: "0 < n" "n \<le> length buf" using False lt by (auto simp: n_def)
    have "va div PGSIZE * PGSIZE \<le> va" by (rule div_times_less_eq_dividend)
    then have u: "user_page m d (va div PGSIZE)" using less.prems(2) False by (cases buf) auto
    then obtain f where f: "fr m d (va div PGSIZE) = Some f" "va div PGSIZE < UPAGES" "pte m d (va div PGSIZE) AND PTE_U \<noteq> 0" by (auto simp: user_page_def)
    let ?m = "set_page f (\<lambda>j. if va mod PGSIZE \<le> j \<and> j < va mod PGSIZE + n then buf ! (j - va mod PGSIZE) else ram m f j) m"
    have w: "written m d xs va (take n buf) ?m" by (rule copyout_page[OF less.prems(1) f(2,1) n_def])
    have ka: "uva2ka d (va div PGSIZE * PGSIZE) m = Inr (Some f)" using uva2ka_ok[OF _ f(1)] f(2,3) by simp
    have va0: "PGROUNDDOWN va = va div PGSIZE * PGSIZE" "va - va div PGSIZE * PGSIZE = va mod PGSIZE"
      by (simp_all add: PGROUNDDOWN_def minus_div_mult_eq_mod)
    have eq: "copyout d va buf m = copyout d (va div PGSIZE * PGSIZE + PGSIZE) (drop n buf) ?m"
      using False by (subst copyout.simps) (simp add: Let_def va0 ka n_def del: mult.commute cong: if_cong)
    show ?thesis
    proof (cases "n = length buf")
      case True
      then have "copyout d va buf m = Inr (0, ?m)" unfolding eq by (simp add: copyout.simps)
      then show ?thesis using w True by auto
    next
      case False
      then have n2: "n = PGSIZE - va mod PGSIZE" "n < length buf" using n(2) by (auto simp: n_def min_def split: if_splits)
      then have nx: "va div PGSIZE * PGSIZE + PGSIZE = va + n" using lt by (metis add.assoc add_diff_inverse_nat div_mult_mod_eq less_imp_le not_less)
      have dv: "(va + n) div PGSIZE = va div PGSIZE + 1" unfolding nx[symmetric] by simp
      obtain m' where m': "copyout d (va + n) (drop n buf) ?m = Inr (0, m')" "written ?m d xs (va + n) (drop n buf) m'"
      proof (atomize_elim, rule less.hyps)
        show "length (drop n buf) < length buf" using n n2 by simp
        show "space d ?m xs" using w unfolding written_def by blast
        show "\<forall>k. (va + n) div PGSIZE \<le> k \<and> k * PGSIZE < va + n + length (drop n buf) \<longrightarrow> user_page ?m d k"
        proof (intro allI impI)
          fix k assume k: "(va + n) div PGSIZE \<le> k \<and> k * PGSIZE < va + n + length (drop n buf)"
          then have "user_page m d k" using less.prems(2) dv n(2) by simp
          then show "user_page ?m d k" by (rule written_user[OF w])
        qed
      qed
      have "copyout d va buf m = Inr (0, m')" unfolding eq nx m'(1) ..
      then show ?thesis using written_trans[OF w m'(2) n(2)] by blast
    qed
  qed
qed

end
