(* ===== verification/Vm_Spec.thy ===== *)
theory Vm_Spec
  imports Vm_Copy
begin

text \<open>
  What the virtual memory functions promise, stated on the bytes a process can read and on the pages
  a space owns.
\<close>

lemma uread_cong: "fr m' d (a div PGSIZE) = fr m d (a div PGSIZE) \<Longrightarrow> (\<And>f. fr m d (a div PGSIZE) = Some f \<Longrightarrow> ram m' f = ram m f) \<Longrightarrow>
    uread m' d a = uread m d a"
  by (simp add: uread_def split: option.split)

lemma user_page_no: "a < UPAGES * PGSIZE \<Longrightarrow> a div PGSIZE < UPAGES" "a div PGSIZE < UPAGES \<Longrightarrow> a div PGSIZE < 2 ^ 20"
  by (simp_all add: less_mult_imp_div_less)

lemma page_of_below: "a div PGSIZE < n \<longleftrightarrow> a < n * PGSIZE"
  by (simp add: div_less_iff_less_mult)

lemma space_kept:
  assumes s: "space d m xs" and r: "\<forall>p. p \<notin> set xs \<longrightarrow> ram m' p = ram m p" "kend m' = kend m" and f: "free_ok m' ys" "set ys \<subseteq> set xs"
  shows "space d m' ys \<and> (\<forall>a < UPAGES * PGSIZE. uread m' d a = uread m d a) \<and> own m' d = own m d"
proof -
  have o: "own m d \<inter> set xs = {}" by (rule space_own[OF s])
  have rt: "\<forall>p \<in> insert d (tabs m d). ram m' p = ram m p" using r(1) o by (auto simp: own_def)
  have dj: "own m d \<inter> set ys = {}" using o f(2) by blast
  note t = space_transfer[OF s rt r(2) f(1) dj]
  have "uread m' d a = uread m d a" if a: "a < UPAGES * PGSIZE" for a
  proof (rule uread_cong)
    note n = user_page_no(1)[OF a]
    show "fr m' d (a div PGSIZE) = fr m d (a div PGSIZE)" by (rule t(5)[OF user_page_no(2)[OF n]])
    show "ram m' g = ram m g" if "fr m d (a div PGSIZE) = Some g" for g
      using framesI[OF n that] o r(1) by (auto simp: own_def)
  qed
  then show ?thesis using t(1,7) by blast
qed

lemma copied_uread:
  assumes c: "copied d0 m0 R kp d N m' ys" and N: "N \<le> UPAGES" and a: "a < UPAGES * PGSIZE"
  shows "uread m' d a = (if a < N * PGSIZE then uread m0 d0 a else None)"
proof -
  note n = user_page_no(1)[OF a]
  show ?thesis
  proof (cases "a div PGSIZE < N")
    case True
    then obtain f g where "fr m0 d0 (a div PGSIZE) = Some f" "fr m' d (a div PGSIZE) = Some g" "ram m' g = ram m0 f"
      using c unfolding copied_def by blast
    then show ?thesis using True by (simp add: uread_def page_of_below)
  next
    case False
    then have "fr m' d (a div PGSIZE) = None" using c n unfolding copied_def by simp
    then show ?thesis using False by (simp add: uread_def page_of_below)
  qed
qed

lemma copyuvm_ok:
  assumes s: "space d0 m xs" and sy: "sym_ok m" and N: "npages sz \<le> UPAGES" and f: "\<forall>k < npages sz. fr m d0 k \<noteq> None"
  shows "\<exists>r m' ys. copyuvm d0 sz m = Inr (r, m') \<and> (\<forall>p. p \<notin> set xs \<longrightarrow> ram m' p = ram m p) \<and> kend m' = kend m \<and> kdata m' = kdata m \<and>
    free_ok m' ys \<and> set ys \<subseteq> set xs \<and>
    (case r of None \<Rightarrow> length xs \<le> 1025 + npages sz
     | Some d \<Rightarrow> d \<in> set xs \<and> (\<exists>kp. copied d0 m (set xs) kp d (npages sz) m' ys) \<and> kmapped m' d (kmap m))"
proof -
  note fo = cleanD(1)[OF spaceD(1)[OF s]]
  obtain r m1 ys where 1: "setupkvm m = Inr (r, m1)" "free_ok m1 ys" "\<exists>zs. xs = zs @ ys" "\<forall>p. p \<notin> set xs \<longrightarrow> ram m1 p = ram m p"
    "kend m1 = kend m" "kdata m1 = kdata m" and
    br: "case r of None \<Rightarrow> ys = [] \<and> length xs \<le> 1025
     | Some d \<Rightarrow> space d m1 ys \<and> own m1 d \<union> set ys = set xs \<and> d \<in> set xs \<and> (\<forall>n < UPAGES. pte m1 d n = 0) \<and> kmapped m1 d (kmap m) \<and>
         (1025 < length xs \<longrightarrow> 1024 < length ys + card (tabs m1 d))"
    using setupkvm_ok[OF fo sy] by blast
  show ?thesis
  proof (cases r)
    case None
    then show ?thesis using 1 br by (intro exI[of _ None] exI[of _ m1] exI[of _ "[]"]) (simp add: copyuvm_def)
  next
    case (Some d)
    then have b: "space d m1 ys" "own m1 d \<union> set ys = set xs" "d \<in> set xs" "\<forall>n < UPAGES. pte m1 d n = 0" "kmapped m1 d (kmap m)"
      using br by simp_all
    have fr0: "fr m1 d k = None" if "k < UPAGES" for k using that b(4) by (simp add: fr_def)
    have c0: "copied d0 m (set xs) (pte m1 d) d 0 m1 ys" using b(1,2) 1(4-6) fr0 unfolding copied_def by simp
    have o: "insert d0 (tabs m d0 \<union> frames m d0) \<inter> set xs = {}" using space_own[OF s] unfolding own_def .
    have ke: "KERNBASE < kend m" using sy unfolding sym_ok_def by blast
    obtain r2 m2 zs where 2: "copy_loop d0 d (0 * PGSIZE) sz m1 = Inr (r2, m2)" and
      br2: "r2 = Some d \<and> copied d0 m (set xs) (pte m1 d) d (npages sz) m2 zs \<or>
       r2 = None \<and> free_ok m2 zs \<and> set zs \<subseteq> set xs \<and> (\<forall>p. p \<notin> set xs \<longrightarrow> ram m2 p = ram m p) \<and> kend m2 = kend m \<and> kdata m2 = kdata m \<and>
         length ys + card (tabs m1 d) \<le> 1024 + (npages sz - 0)"
      using copy_loop_ok[OF c0 le0 N ke cleanD(2)[OF spaceD(1)[OF s]] o f] by blast
    have eq: "copyuvm d0 sz m = Inr (r2, m2)" using 1(1) 2 Some by (simp add: copyuvm_def)
    show ?thesis
    proof (cases "r2 = None")
      case True
      have fm: "frames m1 d = {}" using fr0 by (auto simp: frames_def)
      have "card (set xs) \<le> card (insert d (tabs m1 d)) + card (set ys)"
        using card_Un_le[of "insert d (tabs m1 d)" "set ys"] b(2) by (simp add: own_def fm)
      moreover have "card (insert d (tabs m1 d)) \<le> Suc (card (tabs m1 d))" by (rule card_insert_le_m1) simp_all
      moreover have "card (set xs) = length xs" by (rule distinct_card[OF free_okD(1)[OF fo]])
      ultimately have "length xs \<le> 1025 + npages sz" using True br2 card_length[of ys] by simp
      then show ?thesis using True br2 eq by (intro exI[of _ None] exI[of _ m2] exI[of _ zs]) simp
    next
      case False
      then have c: "r2 = Some d" "copied d0 m (set xs) (pte m1 d) d (npages sz) m2 zs" using br2 by auto
      have k: "space d m2 zs" "own m2 d \<union> set zs = set xs" "\<forall>p. p \<notin> set xs \<longrightarrow> ram m2 p = ram m p" "kend m2 = kend m" "kdata m2 = kdata m"
        "\<forall>k. UPAGES \<le> k \<and> k < 2 ^ 20 \<longrightarrow> pte m2 d k = pte m1 d k" using c(2) unfolding copied_def by blast+
      have "ranges_ok UPAGES (kmap m)" using kmap_ranges[OF sy] by simp
      then have "kmapped m2 d (kmap m)" using kmapped_cong b(5) k(6) by blast
      then show ?thesis using eq c k(2-5) b(3) cleanD(1)[OF spaceD(1)[OF k(1)]]
        by (intro exI[of _ "Some d"] exI[of _ m2] exI[of _ zs]) auto
    qed
  qed
qed

text \<open>
  C6: \<open>copyuvm\<close> on the space of a process of \<open>sz\<close> bytes never panics. When it succeeds, the child
  reads at every address below the size what the parent reads, and nothing above, with the same
  permissions, in pages of its own; the parent's memory is what it was, and every page that was free
  is now the child's or still free. When it fails, the parent's memory is what it was; it cannot
  fail with 1025 more free pages than the process has.
\<close>

theorem copyuvm_correct:
  assumes "space d0 m xs" "sym_ok m" "npages sz \<le> UPAGES" "\<forall>k < npages sz. fr m d0 k \<noteq> None"
  shows "\<exists>r m' ys. copyuvm d0 sz m = Inr (r, m') \<and> space d0 m' ys \<and> (\<forall>a < UPAGES * PGSIZE. uread m' d0 a = uread m d0 a) \<and>
    (case r of None \<Rightarrow> length xs \<le> 1025 + npages sz \<and> set ys \<subseteq> set xs
     | Some d \<Rightarrow> space d m' ys \<and> own m' d \<union> set ys = set xs \<and> own m' d \<inter> own m' d0 = {} \<and> kmapped m' d (kmap m) \<and>
         (\<forall>a < UPAGES * PGSIZE. uread m' d a = (if a < npages sz * PGSIZE then uread m d0 a else None)) \<and>
         (\<forall>k < npages sz. PTE_FLAGS (pte m' d k) = PTE_FLAGS (pte m d0 k)))"
proof -
  obtain r m' ys where 1: "copyuvm d0 sz m = Inr (r, m')" "\<forall>p. p \<notin> set xs \<longrightarrow> ram m' p = ram m p" "kend m' = kend m"
    "free_ok m' ys" "set ys \<subseteq> set xs" and
    br: "case r of None \<Rightarrow> length xs \<le> 1025 + npages sz
     | Some d \<Rightarrow> d \<in> set xs \<and> (\<exists>kp. copied d0 m (set xs) kp d (npages sz) m' ys) \<and> kmapped m' d (kmap m)"
    using copyuvm_ok[OF assms] by blast
  have p: "space d0 m' ys \<and> (\<forall>a < UPAGES * PGSIZE. uread m' d0 a = uread m d0 a) \<and> own m' d0 = own m d0"
    by (rule space_kept[OF assms(1) 1(2-5)])
  show ?thesis
  proof (cases r)
    case None
    then show ?thesis using 1(1,5) br p by (intro exI[of _ None] exI[of _ m'] exI[of _ ys]) simp
  next
    case (Some d)
    then obtain kp where c: "copied d0 m (set xs) kp d (npages sz) m' ys" and k: "kmapped m' d (kmap m)" using br by auto
    have o: "own m' d \<union> set ys = set xs" "space d m' ys" using c unfolding copied_def by blast+
    have "own m' d \<inter> own m' d0 = {}" using o(1) p space_own[OF assms(1)] by blast
    moreover have "PTE_FLAGS (pte m' d n) = PTE_FLAGS (pte m d0 n)" if "n < npages sz" for n using c that unfolding copied_def by blast
    moreover note copied_uread[OF c assms(3)]
    ultimately show ?thesis using 1(1) p k o Some by (intro exI[of _ "Some d"] exI[of _ m'] exI[of _ ys]) simp
  qed
qed

section \<open>Growing and shrinking a process\<close>

text \<open>The memory of a process of \<open>sz\<close> bytes: exactly the pages below its size are mapped.\<close>

definition proc_mem :: "u32 \<Rightarrow> mem \<Rightarrow> u32 \<Rightarrow> u32 list \<Rightarrow> bool" where
  "proc_mem d m sz xs \<longleftrightarrow> space d m xs \<and> KERNBASE < kend m \<and> sz \<le> KERNBASE \<and> (\<forall>k < UPAGES. fr m d k \<noteq> None \<longleftrightarrow> k < npages (unat sz))"

lemma proc_memD:
  assumes "proc_mem d m sz xs"
  shows "space d m xs" "KERNBASE < kend m" "npages (unat sz) \<le> UPAGES" "k < UPAGES \<Longrightarrow> fr m d k \<noteq> None \<longleftrightarrow> k < npages (unat sz)"
proof -
  have "unat sz \<le> UPAGES * PGSIZE" using assms by (simp add: proc_mem_def word_le_nat_alt)
  then show "npages (unat sz) \<le> UPAGES" using npages_mono[of "unat sz" "UPAGES * PGSIZE"] npages_simps(2)[of UPAGES] by simp
qed (use assms in \<open>simp_all add: proc_mem_def\<close>)

text \<open>The calls of \<open>growproc\<close> on the page table: the size reached, 0 when they fail.\<close>

definition grow_memory :: "u32 \<Rightarrow> u32 \<Rightarrow> int \<Rightarrow> mem \<Rightarrow> (u32 \<times> mem) kernel" where
  "grow_memory pgdir sz n m =
     (if 0 < n then kbind (allocuvm pgdir (unat sz) (unat (sz + of_int n)) m) (\<lambda>(r, m1). Inr (of_nat r, m1))
      else if n < 0 then kbind (deallocuvm pgdir (unat sz) (unat (sz + of_int n)) m) (\<lambda>(r, m1). Inr (of_nat r, m1))
      else Inr (sz, m))"

lemma grown_uread:
  assumes s: "space d m xs" and g: "grown d m xs (set xs) i N m' ys" and a: "a < UPAGES * PGSIZE"
  shows "uread m' d a = (if i * PGSIZE \<le> a \<and> a < N * PGSIZE then Some 0 else uread m d a)"
proof -
  note n = user_page_no(1)[OF a]
  note n2 = user_page_no(2)[OF n(1)]
  have e: "i * PGSIZE \<le> a \<longleftrightarrow> i \<le> a div PGSIZE" "a < N * PGSIZE \<longleftrightarrow> a div PGSIZE < N"
    using page_of_below[of a i] page_of_below[of a N] by (simp_all add: not_less[symmetric])
  show ?thesis
  proof (cases "i \<le> a div PGSIZE \<and> a div PGSIZE < N")
    case True
    then obtain f where "fr m' d (a div PGSIZE) = Some f" "ram m' f = (\<lambda>_. 0)" using g unfolding grown_def by blast
    then show ?thesis unfolding e using True by (simp add: uread_def)
  next
    case False
    have "uread m' d a = uread m d a"
    proof (rule uread_cong)
      have "pte m' d (a div PGSIZE) = pte m d (a div PGSIZE)" using g False n2 unfolding grown_def by blast
      then show "fr m' d (a div PGSIZE) = fr m d (a div PGSIZE)" by (rule fr_cong)
      fix f assume "fr m d (a div PGSIZE) = Some f"
      then have f: "f \<in> frames m d" using framesI n(1) by blast
      have "f \<notin> insert d (tabs m d) \<union> set xs" using spaceD(3-5)[OF s f] by simp
      then show "ram m' f = ram m f" using g unfolding grown_def by blast
    qed
    then show ?thesis unfolding e if_not_P[OF False] .
  qed
qed

lemma same_space_uread:
  assumes s: "space d m xs" and g: "same_space d m xs (set xs) m' ys" and a: "a < UPAGES * PGSIZE"
  shows "uread m' d a = uread m d a"
proof (rule uread_cong)
  note n = user_page_no(1)[OF a]
  show "fr m' d (a div PGSIZE) = fr m d (a div PGSIZE)" using g user_page_no(2)[OF n(1)] unfolding same_space_def by blast
  fix f assume "fr m d (a div PGSIZE) = Some f"
  then have f: "f \<in> frames m d" using framesI n(1) by blast
  have "f \<notin> insert d (tabs m d) \<union> set xs" using spaceD(3-5)[OF s f] by simp
  then show "ram m' f = ram m f" using g unfolding same_space_def by blast
qed

lemma shrunk_uread:
  assumes s: "space d m xs" and g: "shrunk d m xs i N m' ys" and N: "N \<le> UPAGES" and a: "a < UPAGES * PGSIZE"
  shows "uread m' d a = (if i * PGSIZE \<le> a \<and> a < N * PGSIZE then None else uread m d a)"
proof -
  note n = user_page_no(1)[OF a]
  note n2 = user_page_no(2)[OF n(1)]
  have e: "i * PGSIZE \<le> a \<longleftrightarrow> i \<le> a div PGSIZE" "a < N * PGSIZE \<longleftrightarrow> a div PGSIZE < N"
    using page_of_below[of a i] page_of_below[of a N] by (simp_all add: not_less[symmetric])
  have p: "pte m' d (a div PGSIZE) = (if i \<le> a div PGSIZE \<and> a div PGSIZE < N \<and> fr m d (a div PGSIZE) \<noteq> None then 0 else pte m d (a div PGSIZE))"
    using g n2 unfolding shrunk_def by blast
  show ?thesis
  proof (cases "i \<le> a div PGSIZE \<and> a div PGSIZE < N")
    case True
    have "fr m' d (a div PGSIZE) = None"
    proof (cases "fr m d (a div PGSIZE)")
      case None
      then have "pte m' d (a div PGSIZE) = pte m d (a div PGSIZE)" using p by simp
      from fr_cong[OF this] show ?thesis unfolding None .
    next
      case (Some f)
      then show ?thesis using p True by (simp add: fr_def)
    qed
    then show ?thesis unfolding e using True by (simp add: uread_def)
  next
    case False
    have "uread m' d a = uread m d a"
    proof (rule uread_cong)
      have "pte m' d (a div PGSIZE) = pte m d (a div PGSIZE)" unfolding p by (rule if_not_P) (use False in blast)
      then show "fr m' d (a div PGSIZE) = fr m d (a div PGSIZE)" by (rule fr_cong)
      fix f assume f0: "fr m d (a div PGSIZE) = Some f"
      then have f: "f \<in> frames m d" using framesI n(1) by blast
      have "fr m d k \<noteq> Some f" if k: "i \<le> k \<and> k < N" for k
      proof
        assume "fr m d k = Some f"
        moreover have "k < UPAGES" using k N by simp
        ultimately have "k = a div PGSIZE" using spaceD(6)[OF s _ n _ f0] by blast
        then show False using k False by blast
      qed
      then show "ram m' f = ram m f" using g spaceD(4)[OF s f] unfolding shrunk_def by blast
    qed
    then show ?thesis unfolding e if_not_P[OF False] .
  qed
qed

lemma grownD:
  assumes "grown d m xs R i N m' ys"
  shows "space d m' ys" "own m' d \<union> set ys = own m d \<union> set xs" "kend m' = kend m" "kdata m' = kdata m"
  using assms unfolding grown_def by blast+

lemma proc_grown:
  assumes p: "proc_mem d m sz xs" and sz: "unat sz \<le> n" "n < unat KERNBASE"
  shows "\<exists>r m' ys. allocuvm d (unat sz) n m = Inr (r, m') \<and> own m' d \<union> set ys = own m d \<union> set xs \<and> kend m' = kend m \<and> kdata m' = kdata m \<and>
    (r = n \<and> proc_mem d m' (of_nat n) ys \<and> grown d m xs (set xs) (npages (unat sz)) (npages n) m' ys \<and>
       (\<forall>a < UPAGES * PGSIZE. uread m' d a = (if npages (unat sz) * PGSIZE \<le> a \<and> a < npages n * PGSIZE then Some 0 else uread m d a)) \<or>
     r = 0 \<and> proc_mem d m' sz ys \<and> same_space d m xs (set xs) m' ys \<and> (\<forall>a < UPAGES * PGSIZE. uread m' d a = uread m d a) \<and>
       length xs + card (tabs m d) \<le> 1024 + (npages n - npages (unat sz)))"
proof -
  note P = proc_memD[OF p]
  have un: "unat (of_nat n :: u32) = n" using sz(2) by (simp add: unat_of_nat)
  have N: "npages n \<le> UPAGES" by (rule npages_user[OF sz(2)])
  have le: "npages (unat sz) \<le> npages n" by (rule npages_mono[OF sz(1)])
  have abs: "\<forall>k. npages (unat sz) \<le> k \<and> k < npages n \<longrightarrow> fr m d k = None"
  proof (intro allI impI)
    fix k assume k: "npages (unat sz) \<le> k \<and> k < npages n"
    then have "k < UPAGES" using N by linarith
    from P(4)[OF this] show "fr m d k = None" using k by auto
  qed
  obtain r m' ys where r: "allocuvm d (unat sz) n m = Inr (r, m')" and
    br: "r = n \<and> grown d m xs (set xs) (npages (unat sz)) (npages n) m' ys \<or>
       r = 0 \<and> same_space d m xs (set xs) m' ys \<and> length xs + card (tabs m d) \<le> 1024 + (npages n - npages (unat sz))"
    using allocuvm_ok[OF P(1,2) abs] sz by (auto split: if_splits)
  from br show ?thesis
  proof (elim disjE conjE)
    assume g: "r = n" "grown d m xs (set xs) (npages (unat sz)) (npages n) m' ys"
    have k: "space d m' ys" "own m' d \<union> set ys = own m d \<union> set xs" "kend m' = kend m" "kdata m' = kdata m" using g(2) unfolding grown_def by blast+
    have "fr m' d j \<noteq> None \<longleftrightarrow> j < npages n" if j: "j < UPAGES" for j
    proof (cases "npages (unat sz) \<le> j \<and> j < npages n")
      case True
      then obtain f where "fr m' d j = Some f" using g(2) unfolding grown_def by blast
      then show ?thesis using True by simp
    next
      case False
      have "j < 2 ^ 20" using j by simp
      then have "pte m' d j = pte m d j" using g(2) False unfolding grown_def by blast
      from fr_cong[OF this] show ?thesis using P(4)[OF j] False le by auto
    qed
    moreover have "of_nat n \<le> KERNBASE" using sz(2) un by (simp add: word_le_nat_alt)
    ultimately have "proc_mem d m' (of_nat n) ys" using k(1,3) P(2) unfolding proc_mem_def un by simp
    then show ?thesis using r g k grown_uread[OF P(1) g(2)] by blast
  next
    assume g: "r = 0" "same_space d m xs (set xs) m' ys" and b: "length xs + card (tabs m d) \<le> 1024 + (npages n - npages (unat sz))"
    have k: "space d m' ys" "own m' d \<union> set ys = own m d \<union> set xs" "kend m' = kend m" "kdata m' = kdata m" "\<forall>k < 2 ^ 20. fr m' d k = fr m d k"
      using g(2) unfolding same_space_def by blast+
    have "fr m' d j = fr m d j" if "j < UPAGES" for j using k(5) that by simp
    then have "proc_mem d m' sz ys" using p k(1,3) unfolding proc_mem_def by simp
    then show ?thesis using r g k b same_space_uread[OF P(1) g(2)] by blast
  qed
qed

lemma proc_shrunk:
  assumes p: "proc_mem d m sz xs" and n: "n \<le> unat sz"
  shows "\<exists>m' ys. deallocuvm d (unat sz) n m = Inr (n, m') \<and> own m' d \<union> set ys = own m d \<union> set xs \<and> kend m' = kend m \<and> kdata m' = kdata m \<and>
    proc_mem d m' (of_nat n) ys \<and>
    (\<forall>a < UPAGES * PGSIZE. uread m' d a = (if a < npages n * PGSIZE then uread m d a else None))"
proof -
  note P = proc_memD[OF p]
  have szk: "unat sz \<le> unat KERNBASE" using p by (simp add: proc_mem_def word_le_nat_alt)
  have un: "unat (of_nat n :: u32) = n" using n szk by (simp add: unat_of_nat)
  have le: "npages n \<le> npages (unat sz)" by (rule npages_mono[OF n])
  have al: "aligned_at m d (npages n) (npages (unat sz))"
  proof (cases "npages n < npages (unat sz)")
    case True
    then have "npages n < UPAGES" using P(3) by linarith
    from P(4)[OF this] True have "fr m d (npages n) \<noteq> None" by simp
    then have "tab m d (npages n div 1024) \<noteq> None" using fr_tab by blast
    then show ?thesis by (simp add: aligned_at_def)
  qed (auto simp: aligned_at_def)
  obtain m' ys where r: "deallocuvm d (unat sz) n m = Inr (min (unat sz) n, m')" and g: "shrunk d m xs (npages n) (npages (unat sz)) m' ys"
    using deallocuvm_ok[OF P(1-3) al] by blast
  have k: "space d m' ys" "own m' d \<union> set ys = own m d \<union> set xs" "kend m' = kend m" "kdata m' = kdata m"
    "\<forall>k < 2 ^ 20. pte m' d k = (if npages n \<le> k \<and> k < npages (unat sz) \<and> fr m d k \<noteq> None then 0 else pte m d k)"
    using g unfolding shrunk_def by blast+
  have frj: "fr m' d j \<noteq> None \<longleftrightarrow> j < npages n" if j: "j < UPAGES" for j
  proof -
    have "j < 2 ^ 20" using j by simp
    then have e: "pte m' d j = (if npages n \<le> j \<and> j < npages (unat sz) \<and> fr m d j \<noteq> None then 0 else pte m d j)" using k(5) by blast
    show ?thesis
    proof (cases "npages n \<le> j \<and> j < npages (unat sz) \<and> fr m d j \<noteq> None")
      case True
      then show ?thesis using e by (simp add: fr_def)
    next
      case False
      have "pte m' d j = pte m d j" by (rule trans[OF e if_not_P[OF False]])
      from fr_cong[OF this] show ?thesis using P(4)[OF j] False le by auto
    qed
  qed
  have "of_nat n \<le> KERNBASE" using n szk un by (simp add: word_le_nat_alt)
  then have pm: "proc_mem d m' (of_nat n) ys" using k(1,3) P(2) frj unfolding proc_mem_def un by simp
  have "uread m' d a = (if a < npages n * PGSIZE then uread m d a else None)" if a: "a < UPAGES * PGSIZE" for a
  proof (cases "a < npages n * PGSIZE")
    case True
    then show ?thesis using shrunk_uread[OF P(1) g P(3) a] by simp
  next
    case False
    then have "\<not> a div PGSIZE < npages n" using page_of_below by blast
    then have "fr m' d (a div PGSIZE) = None" using frj[OF user_page_no(1)[OF a]] by simp
    then show ?thesis using False by (simp add: uread_def)
  qed
  then show ?thesis using r n k pm by (intro exI[of _ m'] exI[of _ ys]) simp
qed

lemma grow_memory_ok:
  assumes "proc_mem d m sz xs" "- (2 ^ 31) \<le> n" "n < 2 ^ 31"
  shows "\<exists>r s' m' ys. grow_memory d sz n m = Inr (r, m') \<and> proc_mem d m' s' ys \<and> own m' d \<union> set ys = own m d \<union> set xs \<and>
    (\<forall>a < UPAGES * PGSIZE. uread m' d a =
       (if a < npages (min (unat sz) (unat s')) * PGSIZE then uread m d a else if a < npages (unat s') * PGSIZE then Some 0 else None)) \<and>
    (if 0 \<le> n then uint s' = uint sz + n \<and> r = s' \<or>
         s' = sz \<and> r = 0 \<and> (2 ^ 31 \<le> uint sz + n \<or> length xs + card (tabs m d) \<le> 1024 + (npages (nat (uint sz + n)) - npages (unat sz)))
     else uint s' = (if uint sz + n < 0 then uint sz else uint sz + n) \<and> r = s')"
proof -
  note P = proc_memD[OF assms(1)]
  have szk: "uint sz \<le> 2 ^ 31" using assms(1) by (simp add: proc_mem_def word_le_def)
  have us: "int (unat sz) = uint sz" and kb: "int (unat KERNBASE) = 2 ^ 31" by simp_all
  have none: "uread m d a = None" if "a < UPAGES * PGSIZE" "\<not> a < npages (unat sz) * PGSIZE" for a
    using P(4)[OF user_page_no(1)[OF that(1)]] that(2) page_of_below[of a "npages (unat sz)"] by (simp add: uread_def)
  have same: "uread m d a = (if a < npages (unat sz) * PGSIZE then uread m d a else if a < npages (unat sz) * PGSIZE then Some 0 else None)"
    if "a < UPAGES * PGSIZE" for a using none[OF that] by simp
  consider (zero) "n = 0" | (up) "0 < n" | (down) "n < 0" "0 \<le> uint sz + n" | (under) "n < 0" "uint sz + n < 0" by linarith
  then show ?thesis
  proof cases
    case zero
    then show ?thesis using assms(1) same by (intro exI[of _ sz] exI[of _ m] exI[of _ xs]) (simp add: grow_memory_def)
  next
    case up
    have t: "uint (sz + of_int n) = uint sz + n" using up assms(3) szk
      by (simp add: uint_word_ariths uint_word_of_int mod_add_right_eq)
    then have tn: "int (unat (sz + of_int n)) = uint sz + n" by simp
    show ?thesis
    proof (cases "2 ^ 31 \<le> uint sz + n")
      case True
      then have "unat KERNBASE \<le> unat (sz + of_int n)" using tn kb by linarith
      then have "grow_memory d sz n m = Inr (0, m)" using up by (simp add: grow_memory_def allocuvm_def)
      then show ?thesis using assms(1) same up True by (intro exI[of _ 0] exI[of _ sz] exI[of _ m] exI[of _ xs]) simp
    next
      case False
      have b: "unat sz \<le> unat (sz + of_int n)" "unat (sz + of_int n) < unat KERNBASE" using tn us kb up False by linarith+
      have e: "nat (uint sz + n) = unat (sz + of_int n)" using tn by linarith
      obtain r m' ys where g: "allocuvm d (unat sz) (unat (sz + of_int n)) m = Inr (r, m')" "own m' d \<union> set ys = own m d \<union> set xs" and
        br: "r = unat (sz + of_int n) \<and> proc_mem d m' (sz + of_int n) ys \<and>
           (\<forall>a < UPAGES * PGSIZE. uread m' d a = (if npages (unat sz) * PGSIZE \<le> a \<and> a < npages (unat (sz + of_int n)) * PGSIZE then Some 0 else uread m d a)) \<or>
          r = 0 \<and> proc_mem d m' sz ys \<and> (\<forall>a < UPAGES * PGSIZE. uread m' d a = uread m d a) \<and>
           length xs + card (tabs m d) \<le> 1024 + (npages (unat (sz + of_int n)) - npages (unat sz))"
        using proc_grown[OF assms(1) b] by auto
      from br show ?thesis
      proof (elim disjE conjE)
        assume h: "r = unat (sz + of_int n)" "proc_mem d m' (sz + of_int n) ys"
          "\<forall>a < UPAGES * PGSIZE. uread m' d a = (if npages (unat sz) * PGSIZE \<le> a \<and> a < npages (unat (sz + of_int n)) * PGSIZE then Some 0 else uread m d a)"
        have eq: "grow_memory d sz n m = Inr (sz + of_int n, m')" using up g(1) h(1) by (simp add: grow_memory_def)
        have mn: "min (unat sz) (unat (sz + of_int n)) = unat sz" using b(1) by simp
        have le: "npages (unat sz) * PGSIZE \<le> npages (unat (sz + of_int n)) * PGSIZE" using npages_mono[OF b(1)] by simp
        have "uread m' d a = (if a < npages (unat sz) * PGSIZE then uread m d a else if a < npages (unat (sz + of_int n)) * PGSIZE then Some 0 else None)"
          if a: "a < UPAGES * PGSIZE" for a
          using h(3)[rule_format, OF a] none[OF a] by simp
        then show ?thesis using eq h(2) g(2) t up
          by (intro exI[of _ "sz + of_int n"] exI[of _ "sz + of_int n"] exI[of _ m'] exI[of _ ys]) (simp add: mn)
      next
        assume h: "r = 0" "proc_mem d m' sz ys" "\<forall>a < UPAGES * PGSIZE. uread m' d a = uread m d a"
          "length xs + card (tabs m d) \<le> 1024 + (npages (unat (sz + of_int n)) - npages (unat sz))"
        have eq: "grow_memory d sz n m = Inr (0, m')" using up g(1) h(1) by (simp add: grow_memory_def)
        have "uread m' d a = (if a < npages (unat sz) * PGSIZE then uread m d a else if a < npages (unat sz) * PGSIZE then Some 0 else None)"
          if "a < UPAGES * PGSIZE" for a using same[OF that] h(3) that by metis
        then show ?thesis using eq h(2,4) g(2) up unfolding e
          by (intro exI[of _ 0] exI[of _ sz] exI[of _ m'] exI[of _ ys]) simp
      qed
    qed
  next
    case down
    have t: "uint (sz + of_int n) = uint sz + n" using down szk assms(2)
      by (simp add: uint_word_ariths uint_word_of_int mod_add_right_eq)
    then have b: "unat (sz + of_int n) \<le> unat sz" using us down(1) by (metis add_le_same_cancel1 less_imp_le nat_mono unat_eq_nat_uint)
    obtain m' ys where g: "deallocuvm d (unat sz) (unat (sz + of_int n)) m = Inr (unat (sz + of_int n), m')" "own m' d \<union> set ys = own m d \<union> set xs"
      "proc_mem d m' (sz + of_int n) ys" "\<forall>a < UPAGES * PGSIZE. uread m' d a = (if a < npages (unat (sz + of_int n)) * PGSIZE then uread m d a else None)"
      using proc_shrunk[OF assms(1) b] by auto
    have eq: "grow_memory d sz n m = Inr (sz + of_int n, m')" using down(1) g(1) by (simp add: grow_memory_def)
    have mn: "min (unat sz) (unat (sz + of_int n)) = unat (sz + of_int n)" using b by simp
    show ?thesis using eq g(2-4) t down
      by (intro exI[of _ "sz + of_int n"] exI[of _ "sz + of_int n"] exI[of _ m'] exI[of _ ys]) (simp add: mn)
  next
    case under
    have "uint (sz + of_int n) = uint sz + n + 2 ^ 32"
    proof -
      have "uint (sz + of_int n) = (uint sz + n) mod 2 ^ 32" by (simp add: uint_word_ariths uint_word_of_int mod_add_right_eq)
      also have "\<dots> = (uint sz + n + 2 ^ 32) mod 2 ^ 32" by simp
      also have "\<dots> = uint sz + n + 2 ^ 32"
      proof (rule mod_pos_pos_trivial)
        have "- 2147483648 \<le> n" "0 \<le> uint sz" using assms(2) by simp_all
        then have "0 \<le> uint sz + n + 4294967296" by linarith
        then show "0 \<le> uint sz + n + 2 ^ 32" by simp
      qed (use under in simp)
      finally show ?thesis .
    qed
    then have "int (unat (sz + of_int n)) = uint sz + n + 2 ^ 32" by simp
    moreover have "- 2147483648 \<le> n" "(2 :: int) ^ 32 = 4294967296" using assms(2) by simp_all
    ultimately have "unat sz \<le> unat (sz + of_int n)" using us by linarith
    then have "grow_memory d sz n m = Inr (sz, m)" using under by (simp add: grow_memory_def deallocuvm_def)
    then show ?thesis using assms(1) same under by (intro exI[of _ sz] exI[of _ sz] exI[of _ m] exI[of _ xs]) simp
  qed
qed


section \<open>Freeing and writing\<close>

text \<open>A space keeps its contents when the pages of another one are freed.\<close>

lemma other_space:
  assumes s: "space d2 m xs" and o: "own m d2 \<inter> own m d = {}" and r: "\<forall>p. p \<notin> own m d \<longrightarrow> ram m' p = ram m p" "kend m' = kend m"
    and f: "free_ok m' ys" "set ys = own m d \<union> set xs"
  shows "space d2 m' ys \<and> (\<forall>a < UPAGES * PGSIZE. uread m' d2 a = uread m d2 a) \<and> own m' d2 = own m d2 \<and>
    (\<forall>k < 2 ^ 20. pte m' d2 k = pte m d2 k \<and> fr m' d2 k = fr m d2 k)"
proof -
  have rt: "\<forall>p \<in> insert d2 (tabs m d2). ram m' p = ram m p" using r(1) o by (auto simp: own_def)
  have dj: "own m d2 \<inter> set ys = {}" using o space_own[OF s] f(2) by blast
  note t = space_transfer[OF s rt r(2) f(1) dj]
  have "uread m' d2 a = uread m d2 a" if a: "a < UPAGES * PGSIZE" for a
  proof (rule uread_cong)
    note n = user_page_no(1)[OF a]
    show "fr m' d2 (a div PGSIZE) = fr m d2 (a div PGSIZE)" by (rule t(5)[OF user_page_no(2)[OF n]])
    show "ram m' g = ram m g" if "fr m d2 (a div PGSIZE) = Some g" for g
      using framesI[OF n that] o r(1) by (auto simp: own_def)
  qed
  then show ?thesis using t(1,2,5,7) by blast
qed

text \<open>
  \<open>freevm\<close> returns every page of the space to the free list, each once, and leaves every
  other space, its contents and its soundness as they are.
\<close>

theorem freevm_correct:
  assumes "space d m xs" "KERNBASE < kend m"
  shows "\<exists>m' ys. freevm d m = Inr m' \<and> free_ok m' ys \<and> set ys = own m d \<union> set xs \<and>
    (\<forall>d2. space d2 m xs \<and> own m d2 \<inter> own m d = {} \<longrightarrow> space d2 m' ys \<and> (\<forall>a < UPAGES * PGSIZE. uread m' d2 a = uread m d2 a))"
proof -
  obtain m' ys where f: "freevm d m = Inr m'" "free_ok m' ys" "set ys = own m d \<union> set xs" "\<forall>p. p \<notin> own m d \<longrightarrow> ram m' p = ram m p" "kend m' = kend m"
    using freevm_ok[OF assms] by blast
  have "space d2 m' ys \<and> (\<forall>a < UPAGES * PGSIZE. uread m' d2 a = uread m d2 a)" if "space d2 m xs" "own m d2 \<inter> own m d = {}" for d2
    using other_space[OF that f(4,5,2,3)] by blast
  then show ?thesis using f(1-3) by blast
qed

text \<open>
  \<open>copyout\<close> to user pages stores exactly the given bytes at the given user address, whatever
  page boundaries they cross, and changes nothing else.
\<close>

theorem copyout_correct:
  assumes "space d m xs" "\<forall>n. va div PGSIZE \<le> n \<and> n * PGSIZE < va + length buf \<longrightarrow> user_page m d n"
  shows "\<exists>m'. copyout d va buf m = Inr (0, m') \<and> space d m' xs \<and> (\<forall>p. p \<notin> frames m d \<longrightarrow> ram m' p = ram m p) \<and>
    (\<forall>a < UPAGES * PGSIZE. uread m' d a = (if va \<le> a \<and> a < va + length buf then Some (buf ! (a - va)) else uread m d a))"
  using copyout_ok[OF assms] unfolding written_def by blast

text \<open>
  when \<open>setupkvm\<close> fails, every page that was free is lost: it returns 0 without freeing the
  directory and the tables it has taken, and no page is left on the free list.
\<close>

theorem setupkvm_leaks:
  assumes "free_ok m xs" "sym_ok m" "setupkvm m = Inr (None, m')"
  shows "free_ok m' [] \<and> kalloc m' = (None, m')"
proof -
  obtain r m2 ys where r: "setupkvm m = Inr (r, m2)" "free_ok m2 ys" "case r of None \<Rightarrow> ys = [] \<and> length xs \<le> 1025 | Some d \<Rightarrow> True"
    using setupkvm_ok[OF assms(1,2)] by (auto split: option.splits)
  then have "free_ok m' []" using assms(3) by simp
  then show ?thesis by (simp add: kalloc_def free_ok_def)
qed

section \<open>A concrete memory\<close>

lemma example_space: "\<exists>d m xs. space d m xs \<and> sym_ok m \<and> 3000 \<le> length xs \<and> (\<forall>k < UPAGES. fr m d k = None)"
proof -
  have ex: "\<exists>m :: mem. freerange 0x80400000 0x81400000 raw_mem = Inr m \<and> free_ok m (rev (range_pages 0x80400000 0x81400000)) \<and> kend m = kend raw_mem \<and> kdata m = kdata raw_mem"
    by (rule boot_pages) simp_all
  obtain m where m: "free_ok m (rev (range_pages 0x80400000 0x81400000))" "kend m = kend raw_mem" "kdata m = kdata raw_mem"
    using ex by blast
  let ?xs = "rev (range_pages 0x80400000 0x81400000)"
  have l: "length ?xs = 4096" by (simp add: range_pages_def)
  have sy: "sym_ok m" using m(2,3) by (simp add: sym_ok_def raw_mem_def)
  obtain r m' ys where r: "(\<exists>zs. ?xs = zs @ ys)" "kend m' = kend m" "kdata m' = kdata m" "case r of None \<Rightarrow> ys = [] \<and> length ?xs \<le> 1025
     | Some d \<Rightarrow> space d m' ys \<and> own m' d \<union> set ys = set ?xs \<and> d \<in> set ?xs \<and> (\<forall>n < UPAGES. pte m' d n = 0) \<and> kmapped m' d (kmap m) \<and>
         (1025 < length ?xs \<longrightarrow> 1024 < length ys + card (tabs m' d))"
    using setupkvm_ok[OF m(1) sy] by blast
  then obtain d where d: "r = Some d" using l by (cases r) auto
  then have k: "space d m' ys" "own m' d \<union> set ys = set ?xs" "\<forall>n < UPAGES. pte m' d n = 0" using r(4) by simp_all
  have f: "fr m' d n = None" if "n < UPAGES" for n using k(3) that by (simp add: fr_def)
  then have "own m' d = insert d (tabs m' d)" by (auto simp: own_def frames_def)
  then have "card (set ?xs) \<le> card (insert d (tabs m' d)) + card (set ys)" using k(2) card_Un_le by metis
  moreover have "card (insert d (tabs m' d)) \<le> Suc (card (tabs m' d))" by (rule card_insert_le_m1) simp_all
  moreover have "card (set ?xs) = length ?xs" by (rule distinct_card[OF free_okD(1)[OF m(1)]])
  ultimately have "3000 \<le> length ys" using card_tabs[of m' d] card_length[of ys] l by linarith
  moreover have "sym_ok m'" using sy r(2,3) by (simp add: sym_ok_def)
  ultimately show ?thesis using k(1) f by blast
qed

text \<open>A process of 9000 bytes next to at least 1800 free pages.\<close>

lemma example_proc: "\<exists>d m xs. proc_mem d m 9000 xs \<and> sym_ok m \<and> 1800 \<le> length xs \<and> (\<forall>k < 3. user_page m d k)"
proof -
  obtain d m xs where e: "space d m xs" "sym_ok m" "3000 \<le> length xs" "\<forall>k < UPAGES. fr m d k = None" using example_space by blast
  have ke: "KERNBASE < kend m" using e(2) by (simp add: sym_ok_def)
  have n3: "npages 9000 = 3" by (simp add: npages_def)
  have abs: "\<forall>k. npages 0 \<le> k \<and> k < npages 9000 \<longrightarrow> fr m d k = None" using e(4) by (simp add: n3)
  have c: "\<not> unat KERNBASE \<le> (9000 :: nat)" "\<not> (9000 :: nat) < 0" by simp_all
  obtain r :: nat and m' ys where r: "r = 9000 \<and> grown d m xs (set xs) (npages 0) (npages 9000) m' ys \<or>
       r = 0 \<and> same_space d m xs (set xs) m' ys \<and> length xs + card (tabs m d) \<le> 1024 + (npages 9000 - npages 0)"
    using allocuvm_ok[OF e(1) ke abs] unfolding if_not_P[OF c(1)] if_not_P[OF c(2)] by blast
  have "\<not> length xs + card (tabs m d) \<le> 1024 + (3 - 0)" using e(3) by simp
  then have g: "grown d m xs (set xs) 0 3 m' ys" using r unfolding n3 npages_simps(1) by blast
  have k: "space d m' ys" "own m' d \<union> set ys = own m d \<union> set xs" "kend m' = kend m" "kdata m' = kdata m" by (rule grownD[OF g])+
  have up: "user_page m' d j" if j: "j < 3" for j
  proof -
    obtain f where f: "fr m' d j = Some f" "PTE_FLAGS (pte m' d j) = PTE_P OR PTE_W OR PTE_U" using g j unfolding grown_def by blast
    have "pte m' d j AND PTE_U = PTE_FLAGS (pte m' d j) AND PTE_U" by (simp add: PTE_FLAGS_def and.assoc)
    then show ?thesis using f j by (simp add: user_page_def)
  qed
  have frj: "fr m' d j \<noteq> None \<longleftrightarrow> j < 3" if j: "j < UPAGES" for j
  proof (cases "j < 3")
    case True
    then show ?thesis using up by (simp add: user_page_def)
  next
    case False
    have "j < 2 ^ 20" using j by simp
    then have "pte m' d j = pte m d j" using g False unfolding grown_def by auto
    from fr_cong[OF this] show ?thesis using e(4) j False by simp
  qed
  have pm: "proc_mem d m' 9000 ys" using k(1,3) ke frj by (simp add: proc_mem_def n3)
  have "set xs \<subseteq> own m' d \<union> set ys" using k(2) by blast
  have c3: "card (frames m' d) \<le> 3"
  proof -
    have "frames m' d \<subseteq> (\<lambda>j. the (fr m' d j)) ` {..<3}"
    proof
      fix f assume "f \<in> frames m' d"
      then obtain j where j: "j < UPAGES" "fr m' d j = Some f" by (auto simp: frames_def)
      then have "j < 3" using frj by auto
      then show "f \<in> (\<lambda>j. the (fr m' d j)) ` {..<3}" using j by force
    qed
    then show ?thesis using surj_card_le[of "{..<3 :: nat}" "frames m' d"] by simp
  qed
  have "card (own m' d) \<le> Suc (card (tabs m' d \<union> frames m' d))" unfolding own_def by (rule card_insert_le_m1) simp_all
  moreover note c3 card_Un_le[of "tabs m' d" "frames m' d"]
  moreover have "card (set xs) \<le> card (own m' d \<union> set ys)" using k(2) by (intro card_mono) simp_all
  moreover have "card (own m' d \<union> set ys) \<le> card (own m' d) + card (set ys)" by (rule card_Un_le)
  moreover have "card (set xs) = length xs" by (rule distinct_card[OF free_okD(1)[OF cleanD(1)[OF spaceD(1)[OF e(1)]]]])
  ultimately have "1800 \<le> length ys" using e(3) card_tabs[of m' d] card_length[of ys] by linarith
  moreover have "sym_ok m'" using e(2) k(3,4) by (simp add: sym_ok_def)
  ultimately show ?thesis using pm up by blast
qed

theorem copyuvm_correct_witness:
  "\<exists>d0 m xs r m' ys d. space d0 m xs \<and> copyuvm d0 9000 m = Inr (r, m') \<and> r = Some d \<and> space d0 m' ys \<and> space d m' ys \<and> uread m' d 8999 = uread m d0 8999"
proof -
  obtain d0 m xs where e: "proc_mem d0 m 9000 xs" "sym_ok m" "1800 \<le> length xs" using example_proc by blast
  have n3: "npages 9000 = 3" by (simp add: npages_def)
  note P = proc_memD[OF e(1)]
  have f: "\<forall>k < npages 9000. fr m d0 k \<noteq> None"
  proof (intro allI impI)
    fix k assume k: "k < npages 9000"
    then have "k < UPAGES" using n3 by simp
    from P(4)[OF this] show "fr m d0 k \<noteq> None" using k by simp
  qed
  have le: "npages 9000 \<le> UPAGES" by (simp add: n3)
  obtain r m' ys where r: "copyuvm d0 9000 m = Inr (r, m')" "space d0 m' ys" "case r of None \<Rightarrow> length xs \<le> 1025 + npages 9000 \<and> set ys \<subseteq> set xs
     | Some d \<Rightarrow> space d m' ys \<and> own m' d \<union> set ys = set xs \<and> own m' d \<inter> own m' d0 = {} \<and> kmapped m' d (kmap m) \<and>
         (\<forall>a < UPAGES * PGSIZE. uread m' d a = (if a < npages 9000 * PGSIZE then uread m d0 a else None)) \<and>
         (\<forall>k < npages 9000. PTE_FLAGS (pte m' d k) = PTE_FLAGS (pte m d0 k))"
    using copyuvm_correct[OF P(1) e(2) le f] by blast
  show ?thesis
  proof (cases r)
    case None
    then show ?thesis using r(3) e(3) n3 by simp
  next
    case (Some d)
    then have "space d m' ys" "uread m' d 8999 = uread m d0 8999" using r(3) n3 by simp_all
    then show ?thesis using Some P(1) r(1,2) by blast
  qed
qed


theorem freevm_correct_witness:
  "\<exists>d m xs m' ys. space d m xs \<and> freevm d m = Inr m' \<and> free_ok m' ys \<and> set ys = own m d \<union> set xs"
proof -
  obtain d m xs where e: "proc_mem d m 9000 xs" using example_proc by blast
  show ?thesis using freevm_correct[OF proc_memD(1,2)[OF e]] proc_memD(1)[OF e] by blast
qed

theorem copyout_correct_witness:
  "\<exists>d m xs m'. space d m xs \<and> copyout d 4094 [1, 2, 3, 4] m = Inr (0, m') \<and> uread m' d 4097 = Some 4"
proof -
  obtain d m xs where e: "proc_mem d m 9000 xs" "\<forall>k < 3. user_page m d k" using example_proc by blast
  have u: "\<forall>n. 4094 div PGSIZE \<le> n \<and> n * PGSIZE < 4094 + length [1, 2, 3, 4 :: byte] \<longrightarrow> user_page m d n"
    using e(2) by auto
  obtain m' where m': "copyout d 4094 [1, 2, 3, 4] m = Inr (0, m')"
    "\<forall>a < UPAGES * PGSIZE. uread m' d a = (if 4094 \<le> a \<and> a < 4094 + length [1, 2, 3, 4 :: byte] then Some ([1, 2, 3, 4] ! (a - 4094)) else uread m d a)"
    using copyout_correct[OF proc_memD(1)[OF e(1)] u] by blast
  have "uread m' d 4097 = Some 4" using m'(2)[rule_format, of 4097] by (simp add: numeral_3_eq_3)
  then show ?thesis using proc_memD(1)[OF e(1)] m'(1) by blast
qed

theorem setupkvm_leaks_witness:
  "\<exists>m v m'. free_ok m [v] \<and> setupkvm m = Inr (None, m') \<and> kalloc m' = (None, m')"
proof -
  have ex: "\<exists>m :: mem. freerange 0x80400000 0x80401000 raw_mem = Inr m \<and> free_ok m (rev (range_pages 0x80400000 0x80401000)) \<and> kend m = kend raw_mem \<and> kdata m = kdata raw_mem"
    by (rule boot_pages) simp_all
  have "range_pages 0x80400000 0x80401000 = [0x80400000]" by (simp add: range_pages_def)
  then obtain m where m: "free_ok m [0x80400000]" "kend m = kend raw_mem" "kdata m = kdata raw_mem" using ex by auto
  have sy: "sym_ok m" using m(2,3) by (simp add: sym_ok_def raw_mem_def)
  obtain r m' ys where r: "setupkvm m = Inr (r, m')" "case r of None \<Rightarrow> ys = [] \<and> length [0x80400000 :: u32] \<le> 1025
     | Some d \<Rightarrow> space d m' ys \<and> own m' d \<union> set ys = set [0x80400000] \<and> d \<in> set [0x80400000] \<and> (\<forall>n < UPAGES. pte m' d n = 0) \<and> kmapped m' d (kmap m) \<and>
         (1025 < length [0x80400000 :: u32] \<longrightarrow> 1024 < length ys + card (tabs m' d))"
    using setupkvm_ok[OF m(1) sy] by blast
  have "r = None"
  proof (cases r)
    case (Some d)
    then have k: "space d m' ys" "own m' d \<union> set ys = {0x80400000}" "kmapped m' d (kmap m)" using r(2) by auto
    have e: "\<forall>j < 256. pte m' d (524288 + j) = word_of_nat j * 4096 OR 3" using k(3) by (auto simp: kmapped_def kmap_def)
    have "pte m' d (524288 + 0) = word_of_nat 0 * 4096 OR 3" by (rule e[rule_format]) simp
    then obtain t where t: "tab m' d 512 = Some t" by (cases "tab m' d 512") (auto simp: pte_def)
    then have "t \<in> tabs m' d" by (intro tabsI) simp_all
    moreover have "d \<notin> tabs m' d" by (rule pd_okD(3)[OF cleanD(2)[OF spaceD(1)[OF k(1)]]])
    ultimately show ?thesis using k(2) by (auto simp: own_def)
  qed
  then show ?thesis using setupkvm_leaks[OF m(1) sy, of m'] r(1) m(1) by blast
qed

end
