(* ===== verification/Exec.thy ===== *)
theory Exec
  imports Sysfile Vm_Spec
begin

text \<open>
  Program loading (\<open>exec.c\<close>, \<open>loaduvm\<close> of \<open>vm.c\<close>). The state is the kernel with its file system and, next
  to it, the memory with the page tables; a directory \<open>d\<close> is stored in the process as \<open>unat d\<close>.
  The header is read into a local variable: \<open>stk\<close> is what the kernel stack holds there before.
  Results are in \<open>Exec_Spec\<close>.
\<close>

section \<open>Loading a segment\<close>

text \<open>The loop of \<open>loaduvm\<close> from \<open>i\<close> on.\<close>

function load_loop :: "u32 \<Rightarrow> nat \<Rightarrow> nat \<Rightarrow> nat \<Rightarrow> nat \<Rightarrow> nat \<Rightarrow> 'd fsys \<Rightarrow> mem \<Rightarrow> (int \<times> 'd fsys \<times> mem) kernel" where
  "load_loop pgdir va ip off i sz s m =
     (if sz \<le> i then Inr (0, s, m)
      else case fst (walkpgdir pgdir (va + i) False m) of
             None \<Rightarrow> panic ''loaduvm: address should exist''
           | Some p \<Rightarrow>
               let pa = PTE_ADDR (get_pte p m); n = (if sz - i < PGSIZE then sz - i else PGSIZE)
               in kbind (readi ip ((off + i) mod 2 ^ 32) n s) (\<lambda>(r, bs, s1).
                    let m1 = set_page (P2V pa) (\<lambda>j. if j < length bs then bs ! j else ram m (P2V pa) j) m
                    in if r \<noteq> int n then Inr (-1, s1, m1) else load_loop pgdir va ip off (i + PGSIZE) sz s1 m1))"
  by pat_completeness auto
termination by (relation "measure (\<lambda>(pgdir, va, ip, off, i, sz, s, m). sz - i)") auto

declare load_loop.simps [simp del]

definition loaduvm :: "u32 \<Rightarrow> nat \<Rightarrow> nat \<Rightarrow> nat \<Rightarrow> nat \<Rightarrow> 'd fsys \<Rightarrow> mem \<Rightarrow> (int \<times> 'd fsys \<times> mem) kernel" where
  "loaduvm pgdir va ip off sz s m =
     (if va mod PGSIZE \<noteq> 0 then panic ''loaduvm: addr must be page aligned'' else load_loop pgdir va ip off 0 sz s m)"

section \<open>The ELF file\<close>

abbreviation ELF_MAGIC :: u32 where "ELF_MAGIC \<equiv> 0x464C457F"
abbreviation ELF_PROG_LOAD :: u32 where "ELF_PROG_LOAD \<equiv> 1"

text \<open>The fields of \<open>struct elfhdr\<close> (52 bytes) and \<open>struct proghdr\<close> (32 bytes) that are used.\<close>

abbreviation (input) elf_size :: nat where "elf_size \<equiv> 52"
abbreviation (input) ph_size :: nat where "ph_size \<equiv> 32"

definition elf_magic :: "byte list \<Rightarrow> u32" where "elf_magic b = get32 b 0"
definition elf_entry :: "byte list \<Rightarrow> u32" where "elf_entry b = get32 b 24"
definition elf_phoff :: "byte list \<Rightarrow> u32" where "elf_phoff b = get32 b 28"
definition elf_phnum :: "byte list \<Rightarrow> nat" where "elf_phnum b = unat (get16 b 44)"
definition ph_type :: "byte list \<Rightarrow> u32" where "ph_type b = get32 b 0"
definition ph_off :: "byte list \<Rightarrow> u32" where "ph_off b = get32 b 4"
definition ph_vaddr :: "byte list \<Rightarrow> u32" where "ph_vaddr b = get32 b 8"
definition ph_filesz :: "byte list \<Rightarrow> u32" where "ph_filesz b = get32 b 16"
definition ph_memsz :: "byte list \<Rightarrow> u32" where "ph_memsz b = get32 b 20"

text \<open>The loop over the program headers, with \<open>n\<close> of them to go; \<open>None\<close> stands for \<open>goto bad\<close>.\<close>

fun load_segs :: "nat \<Rightarrow> u32 \<Rightarrow> nat \<Rightarrow> u32 \<Rightarrow> u32 \<Rightarrow> 'd fsys \<Rightarrow> mem \<Rightarrow> (u32 option \<times> 'd fsys \<times> mem) kernel" where
  "load_segs ip pgdir 0 off sz s m = Inr (Some sz, s, m)"
| "load_segs ip pgdir (Suc n) off sz s m =
     kbind (readi ip (unat off) ph_size s) (\<lambda>(r, ph, s1).
       if r \<noteq> int ph_size then Inr (None, s1, m)
       else if ph_type ph \<noteq> ELF_PROG_LOAD then load_segs ip pgdir n (off + 32) sz s1 m
       else if ph_memsz ph < ph_filesz ph then Inr (None, s1, m)
       else if ph_vaddr ph + ph_memsz ph < ph_vaddr ph then Inr (None, s1, m)
       else kbind (allocuvm pgdir (unat sz) (unat (ph_vaddr ph + ph_memsz ph)) m) (\<lambda>(sz1, m1).
              if sz1 = 0 then Inr (None, s1, m1)
              else if unat (ph_vaddr ph) mod PGSIZE \<noteq> 0 then Inr (None, s1, m1)
              else kbind (loaduvm pgdir (unat (ph_vaddr ph)) ip (unat (ph_off ph)) (unat (ph_filesz ph)) s1 m1) (\<lambda>(r2, s2, m2).
                     if r2 < 0 then Inr (None, s2, m2) else load_segs ip pgdir n (off + 32) (of_nat sz1) s2 m2)))"

text \<open>
  From the header to the last segment. The first result is the new directory, which \<open>bad\<close> frees
  when there is one; the second is the entry point and the size, none after \<open>goto bad\<close>. The comparison of
  the result of \<open>readi\<close> with \<open>sizeof(elf)\<close> is unsigned.
\<close>

definition load_image :: "byte list \<Rightarrow> nat \<Rightarrow> 'd fsys \<Rightarrow> mem \<Rightarrow> (u32 option \<times> (u32 \<times> u32) option \<times> 'd fsys \<times> mem) kernel" where
  "load_image stk ip s m =
     kbind (readi ip 0 elf_size s) (\<lambda>(r, bs, s1).
       let elf = bs @ drop (length bs) stk
       in if (of_int r :: u32) < of_nat elf_size then Inr (None, None, s1, m)
          else if elf_magic elf \<noteq> ELF_MAGIC then Inr (None, None, s1, m)
          else kbind (setupkvm m) (\<lambda>(d, m1).
                 case d of
                   None \<Rightarrow> Inr (None, None, s1, m1)
                 | Some pgdir \<Rightarrow>
                     kbind (load_segs ip pgdir (elf_phnum elf) (elf_phoff elf) 0 s1 m1) (\<lambda>(r, s2, m2).
                       Inr (Some pgdir, map_option (\<lambda>sz. (elf_entry elf, sz)) r, s2, m2))))"

section \<open>The stack\<close>

abbreviation (input) MAXARG :: nat where "MAXARG \<equiv> 32"

text \<open>The loop over the arguments; \<open>us\<close> holds the addresses stored in \<open>ustack\<close> so far.\<close>

fun push_args :: "u32 \<Rightarrow> byte list list \<Rightarrow> u32 \<Rightarrow> u32 list \<Rightarrow> mem \<Rightarrow> ((u32 \<times> u32 list) option \<times> mem) kernel" where
  "push_args pgdir [] sp us m = Inr (Some (sp, us), m)"
| "push_args pgdir (a # as) sp us m =
     (if MAXARG \<le> length us then Inr (None, m)
      else let sp1 = (sp - (of_nat (length a) + 1)) AND NOT 3
           in kbind (copyout pgdir (unat sp1) (a @ [0]) m) (\<lambda>(r, m1).
                if r < 0 then Inr (None, m1) else push_args pgdir as sp1 (us @ [sp1]) m1))"

definition word_bytes :: "u32 \<Rightarrow> byte list" where
  "word_bytes w = [ucast w, ucast (drop_bit 8 w), ucast (drop_bit 16 w), ucast (drop_bit 24 w)]"

text \<open>What \<open>main\<close> finds at its stack pointer: return address, \<open>argc\<close>, \<open>argv\<close>, then the array.\<close>

definition frame :: "u32 \<Rightarrow> u32 list \<Rightarrow> u32 list" where
  "frame sp us = [0xFFFFFFFF, of_nat (length us), sp - (of_nat (length us) + 1) * 4] @ us @ [0]"

text \<open>From the last segment to the commit: the new size and stack pointer.\<close>

definition build_stack :: "u32 \<Rightarrow> u32 \<Rightarrow> byte list list \<Rightarrow> mem \<Rightarrow> ((u32 \<times> u32) option \<times> mem) kernel" where
  "build_stack pgdir sz argv m =
     (let sz1 = PGROUNDUP (unat sz)
      in kbind (allocuvm pgdir sz1 (sz1 + 2 * PGSIZE) m) (\<lambda>(sz2, m1).
           if sz2 = 0 then Inr (None, m1)
           else kbind (clearpteu pgdir (sz2 - 2 * PGSIZE) m1) (\<lambda>m2.
                kbind (push_args pgdir argv (of_nat sz2) [] m2) (\<lambda>(r, m3).
                  case r of
                    None \<Rightarrow> Inr (None, m3)
                  | Some (sp, us) \<Rightarrow>
                      let sp1 = sp - (4 + of_nat (length us)) * 4
                      in kbind (copyout pgdir (unat sp1) (concat (map word_bytes (frame sp us))) m3) (\<lambda>(r, m4).
                           Inr (if r < 0 then None else Some (of_nat sz2, sp1), m4))))))"

section \<open>exec\<close>

text \<open>The part of the path behind the last slash.\<close>

fun last_elem :: "byte list \<Rightarrow> byte list \<Rightarrow> byte list" where
  "last_elem l [] = l"
| "last_elem l (c # s) = last_elem (if c = 47 then s else l) s"

text \<open>Leaving without a new image: the label \<open>bad\<close>.\<close>

definition free_image :: "u32 option \<Rightarrow> mem \<Rightarrow> mem kernel" where
  "free_image d m = (case d of None \<Rightarrow> Inr m | Some pgdir \<Rightarrow> freevm pgdir m)"

definition exec :: "byte list \<Rightarrow> nat \<Rightarrow> byte list \<Rightarrow> byte list list \<Rightarrow> 'd kern \<Rightarrow> mem \<Rightarrow> (int \<times> 'd kern \<times> mem) kernel" where
  "exec stk me path argv k m =
     kbind (do_fs fs_begin_op k) (\<lambda>k0.
     kbind (in_fs (namei (cwd_of me k0) path) k0) (\<lambda>(r, k1).
       case r of
         None \<Rightarrow> kbind (do_fs fs_end_op k1) (\<lambda>k2. Inr (-1, k2, m))
       | Some ip \<Rightarrow>
           kbind (do_fs (ilock ip) k1) (\<lambda>k2.
           kbind (load_image stk ip (fs k2) m) (\<lambda>(d, img, s, m1).
             let k3 = k2\<lparr>fs := s\<rparr>
             in case (d, img) of
                  (Some pgdir, Some (epc, sz)) \<Rightarrow>
                    kbind (do_fs (iunlockput ip) k3) (\<lambda>k4.
                    kbind (do_fs fs_end_op k4) (\<lambda>k5.
                    kbind (build_stack pgdir sz argv m1) (\<lambda>(r, m2).
                      case r of
                        None \<Rightarrow> kbind (free_image d m2) (\<lambda>m3. Inr (-1, k5, m3))
                      | Some (sz2, sp) \<Rightarrow>
                          let old = p_pgdir (ptable k5 ! me);
                              k6 = upd_proc me (\<lambda>p. p\<lparr>p_name := set_name (p_name p) (last_elem path path), p_pgdir := Some (unat pgdir), p_sz := sz2,
                                     p_tf := (p_tf p)\<lparr>tf_eip := epc, tf_esp := sp\<rparr>\<rparr>) k5
                          in case old of
                               None \<Rightarrow> panic ''freevm: no pgdir''
                             | Some a \<Rightarrow> kbind (freevm (of_nat a) m2) (\<lambda>m3. Inr (0, k6, m3)))))
                | _ \<Rightarrow>
                    kbind (free_image d m1) (\<lambda>m2.
                    kbind (do_fs (iunlockput ip) k3) (\<lambda>k4.
                    kbind (do_fs fs_end_op k4) (\<lambda>k5. Inr (-1, k5, m2))))))))"

end
