(* ===== verification/Exec_Spec.thy ===== *)
theory Exec_Spec
  imports Exec
begin

text \<open>
  What \<open>exec\<close> promises: the new space holds the segments of the file, zeros behind them, a guard page
  and the arguments in the form \<open>main\<close> expects; a failed call gives back every page it has taken and leaves
  the old space as it was.
\<close>

section \<open>A space under construction\<close>

text \<open>
  \<open>R\<close> is the set of the pages that were free at the start (in the memory \<open>m0\<close>), \<open>kp\<close> the kernel part.
\<close>

definition spare :: "u32 \<Rightarrow> mem \<Rightarrow> u32 set \<Rightarrow> mem \<Rightarrow> u32 list \<Rightarrow> bool" where
  "spare d m0 R m xs \<longleftrightarrow> space d m xs \<and> own m d \<union> set xs = R \<and> (\<forall>p. p \<notin> R \<longrightarrow> ram m p = ram m0 p) \<and> kend m = kend m0 \<and> kdata m = kdata m0"

text \<open>The pages outside \<open>G\<close> are the user's, those of \<open>G\<close> are closed to it, and the bytes are those of \<open>f\<close>.\<close>

definition image :: "u32 \<Rightarrow> mem \<Rightarrow> u32 set \<Rightarrow> (nat \<Rightarrow> u32) \<Rightarrow> nat set \<Rightarrow> (nat \<Rightarrow> byte option) \<Rightarrow> u32 \<Rightarrow> mem \<Rightarrow> u32 list \<Rightarrow> bool" where
  "image d m0 R kp G f sz m xs \<longleftrightarrow> spare d m0 R m xs \<and> proc_mem d m sz xs \<and> (\<forall>k. UPAGES \<le> k \<and> k < 2 ^ 20 \<longrightarrow> pte m d k = kp k) \<and>
     (\<forall>k \<in> G. k < npages (unat sz) \<and> pte m d k AND PTE_U = 0) \<and> (\<forall>k < npages (unat sz). k \<notin> G \<longrightarrow> user_page m d k) \<and> (\<forall>a < UPAGES * PGSIZE. uread m d a = f a)"

lemma spareD:
  assumes "spare d m0 R m xs"
  shows "space d m xs" "own m d \<union> set xs = R" "p \<notin> R \<Longrightarrow> ram m p = ram m0 p" "kend m = kend m0" "kdata m = kdata m0"
  using assms unfolding spare_def by blast+

lemma imageD:
  assumes "image d m0 R kp G f sz m xs"
  shows "spare d m0 R m xs" "proc_mem d m sz xs" "UPAGES \<le> k \<Longrightarrow> k < 2 ^ 20 \<Longrightarrow> pte m d k = kp k"
    "k < npages (unat sz) \<Longrightarrow> k \<notin> G \<Longrightarrow> user_page m d k" "a < UPAGES * PGSIZE \<Longrightarrow> uread m d a = f a"
    "k \<in> G \<Longrightarrow> k < npages (unat sz)" "k \<in> G \<Longrightarrow> pte m d k AND PTE_U = 0"
  using assms unfolding image_def by blast+

lemma card_frames:
  assumes p: "proc_mem d m sz xs"
  shows "card (frames m d) = npages (unat sz)"
proof -
  note P = proc_memD[OF p]
  have "bij_betw (\<lambda>k. the (fr m d k)) {..<npages (unat sz)} (frames m d)"
  proof (rule bij_betw_imageI)
    show "inj_on (\<lambda>k. the (fr m d k)) {..<npages (unat sz)}"
    proof (rule inj_onI)
      fix i j assume ij: "i \<in> {..<npages (unat sz)}" "j \<in> {..<npages (unat sz)}" "the (fr m d i) = the (fr m d j)"
      then have u: "i < UPAGES" "j < UPAGES" using P(3) by simp_all
      then have "fr m d i \<noteq> None" "fr m d j \<noteq> None" using P(4) ij(1,2) by auto
      then obtain f where "fr m d i = Some f" "fr m d j = Some f" using ij(3) by auto
      then show "i = j" using spaceD(6)[OF P(1) u] by blast
    qed
    show "(\<lambda>k. the (fr m d k)) ` {..<npages (unat sz)} = frames m d"
    proof (rule set_eqI)
      fix f
      show "f \<in> (\<lambda>k. the (fr m d k)) ` {..<npages (unat sz)} \<longleftrightarrow> f \<in> frames m d"
      proof
        assume "f \<in> (\<lambda>k. the (fr m d k)) ` {..<npages (unat sz)}"
        then obtain k where k: "k < npages (unat sz)" "f = the (fr m d k)" by auto
        then have u: "k < UPAGES" using P(3) by simp
        then have "fr m d k = Some f" using P(4)[OF u] k by auto
        then show "f \<in> frames m d" by (rule framesI[OF u])
      next
        assume "f \<in> frames m d"
        then obtain k where k: "k < UPAGES" "fr m d k = Some f" by (auto simp: frames_def)
        then have "k < npages (unat sz)" using P(4)[OF k(1)] by simp
        then show "f \<in> (\<lambda>k. the (fr m d k)) ` {..<npages (unat sz)}" using k(2) by (intro image_eqI[of _ _ k]) simp_all
      qed
    qed
  qed
  from bij_betw_same_card[OF this] show ?thesis by simp
qed

text \<open>Every page of the pool is free, the directory, a table, or a page of the process.\<close>

lemma image_count:
  assumes i: "image d m0 R kp G f sz m xs"
  shows "card R = 1 + card (tabs m d) + npages (unat sz) + length xs"
proof -
  note s = spareD[OF imageD(1)[OF i]]
  have fin: "finite (tabs m d)" "finite (frames m d)"
  proof -
    have "finite (insert d (tabs m d \<union> frames m d) \<union> set xs)" by simp
    then show "finite (tabs m d)" "finite (frames m d)" by simp_all
  qed
  have dj: "frames m d \<inter> tabs m d = {}" "d \<notin> frames m d" using spaceD(3,4)[OF s(1)] by auto
  have dt: "d \<notin> tabs m d" by (rule pd_okD(3)[OF cleanD(2)[OF spaceD(1)[OF s(1)]]])
  have "card (own m d) = Suc (card (tabs m d) + card (frames m d))"
    unfolding own_def using dj dt fin by (subst card_insert_disjoint) (auto simp: card_Un_disjoint Int_commute)
  moreover have "card R = card (own m d) + card (set xs)"
    unfolding s(2)[symmetric] by (rule card_Un_disjoint) (simp_all add: own_def fin space_own[OF s(1), unfolded own_def])
  moreover have "card (set xs) = length xs" by (rule distinct_card[OF free_okD(1)[OF cleanD(1)[OF spaceD(1)[OF s(1)]]]])
  ultimately show ?thesis using card_frames[OF imageD(2)[OF i]] by simp
qed

lemma user_page_flags: "user_page m d k \<Longrightarrow> k < 2 ^ 20 \<Longrightarrow> pte m' d k = pte m d k \<Longrightarrow> user_page m' d k"
  by (auto simp: user_page_def fr_def split: if_splits)

section \<open>Growing\<close>

lemma image_grow:
  assumes i: "image d m0 R kp G f sz m xs" and n: "unat sz \<le> n" "n < unat KERNBASE"
  shows "\<exists>r m' ys. allocuvm d (unat sz) n m = Inr (r, m') \<and>
    (r = n \<and> image d m0 R kp G (\<lambda>a. if npages (unat sz) * PGSIZE \<le> a \<and> a < npages n * PGSIZE then Some 0 else f a) (of_nat n) m' ys \<or>
     r = 0 \<and> spare d m0 R m' ys \<and> card R \<le> 1025 + npages n)"
proof -
  note p = imageD(2)[OF i]
  note s = spareD[OF imageD(1)[OF i]]
  have un: "unat (of_nat n :: u32) = n" using n(2) by (simp add: unat_of_nat)
  have le: "npages (unat sz) \<le> npages n" by (rule npages_mono[OF n(1)])
  obtain r m' ys where r: "allocuvm d (unat sz) n m = Inr (r, m')" "own m' d \<union> set ys = own m d \<union> set xs" "kend m' = kend m" "kdata m' = kdata m" and
    br: "r = n \<and> proc_mem d m' (of_nat n) ys \<and> grown d m xs (set xs) (npages (unat sz)) (npages n) m' ys \<and>
       (\<forall>a < UPAGES * PGSIZE. uread m' d a = (if npages (unat sz) * PGSIZE \<le> a \<and> a < npages n * PGSIZE then Some 0 else uread m d a)) \<or>
     r = 0 \<and> proc_mem d m' sz ys \<and> same_space d m xs (set xs) m' ys \<and> (\<forall>a < UPAGES * PGSIZE. uread m' d a = uread m d a) \<and>
       length xs + card (tabs m d) \<le> 1024 + (npages n - npages (unat sz))"
    using proc_grown[OF p n] by blast
  have out: "p \<notin> insert d (tabs m d) \<union> set xs" if "p \<notin> R" for p using that s(2) by (auto simp: own_def)
  from br show ?thesis
  proof (elim disjE conjE)
    assume g: "r = n" "proc_mem d m' (of_nat n) ys" "grown d m xs (set xs) (npages (unat sz)) (npages n) m' ys"
      and u: "\<forall>a < UPAGES * PGSIZE. uread m' d a = (if npages (unat sz) * PGSIZE \<le> a \<and> a < npages n * PGSIZE then Some 0 else uread m d a)"
    have rm: "ram m' p = ram m p" if "p \<notin> R" for p using g(3) out[OF that] unfolding grown_def by blast
    have old: "pte m' d k = pte m d k" if "k < 2 ^ 20" "\<not> (npages (unat sz) \<le> k \<and> k < npages n)" for k using g(3) that unfolding grown_def by blast
    have "spare d m0 R m' ys" unfolding spare_def using grownD(1)[OF g(3)] r(2-4) s rm by simp
    moreover have "pte m' d k = kp k" if k: "UPAGES \<le> k" "k < 2 ^ 20" for k
      using old[OF k(2)] imageD(3)[OF i k] k npages_user[OF n(2)] by simp
    moreover have gu: "k < npages (unat (of_nat n :: u32)) \<and> pte m' d k AND PTE_U = 0" if k: "k \<in> G" for k
    proof -
      have kn: "k < npages (unat sz)" by (rule imageD(6)[OF i k])
      then have "k < 2 ^ 20" using proc_memD(3)[OF p] by simp
      then have "pte m' d k = pte m d k" using old kn by simp
      then show ?thesis using imageD(7)[OF i k] kn le un by simp
    qed
    moreover have "user_page m' d k" if k: "k < npages (unat (of_nat n :: u32))" "k \<notin> G" for k
    proof (cases "k < npages (unat sz)")
      case True
      have k20: "k < 2 ^ 20" using True proc_memD(3)[OF p] by simp
      show ?thesis by (rule user_page_flags[OF imageD(4)[OF i True k(2)] k20 old[OF k20]]) (use True in simp)
    next
      case False
      then have "npages (unat sz) \<le> k \<and> k < npages n" using k(1) un by simp
      then obtain g' where g': "fr m' d k = Some g'" "PTE_FLAGS (pte m' d k) = PTE_P OR PTE_W OR PTE_U" using g(3) unfolding grown_def by blast
      have "pte m' d k AND PTE_U = PTE_FLAGS (pte m' d k) AND PTE_U" by (simp add: PTE_FLAGS_def and.assoc)
      then show ?thesis using g' k(1) un npages_user[OF n(2)] by (simp add: user_page_def)
    qed
    moreover have "uread m' d a = (if npages (unat sz) * PGSIZE \<le> a \<and> a < npages n * PGSIZE then Some 0 else f a)" if "a < UPAGES * PGSIZE" for a
      using u[rule_format, OF that] imageD(5)[OF i that] by simp
    ultimately have "image d m0 R kp G (\<lambda>a. if npages (unat sz) * PGSIZE \<le> a \<and> a < npages n * PGSIZE then Some 0 else f a) (of_nat n) m' ys"
      unfolding image_def using g(2) gu by simp
    then show ?thesis using r(1) g(1) by blast
  next
    assume g: "r = 0" "same_space d m xs (set xs) m' ys" "length xs + card (tabs m d) \<le> 1024 + (npages n - npages (unat sz))"
    have rm: "ram m' p = ram m p" if "p \<notin> R" for p using g(2) out[OF that] unfolding same_space_def by blast
    have sp: "space d m' ys" using g(2) unfolding same_space_def by blast
    have "spare d m0 R m' ys" unfolding spare_def using sp r(2-4) s rm by simp
    moreover have "card R \<le> 1025 + npages n" using image_count[OF i] g(3) le by simp
    ultimately show ?thesis using r(1) g(1) by blast
  qed
qed

section \<open>Writing\<close>

lemma image_write:
  assumes i: "image d m0 R kp G f sz m xs" and w: "written m d xs va buf m'"
  shows "image d m0 R kp G (\<lambda>a. if va \<le> a \<and> a < va + length buf then Some (buf ! (a - va)) else f a) sz m' xs"
proof -
  note p = imageD(2)[OF i]
  note s = spareD[OF imageD(1)[OF i]]
  have w1: "space d m' xs" "\<forall>k < 2 ^ 20. pte m' d k = pte m d k" "tab m' d = tab m d" "kend m' = kend m" "kdata m' = kdata m"
    "\<forall>p. p \<notin> frames m d \<longrightarrow> ram m' p = ram m p"
    "\<forall>a < UPAGES * PGSIZE. uread m' d a = (if va \<le> a \<and> a < va + length buf then Some (buf ! (a - va)) else uread m d a)"
    using w unfolding written_def by blast+
  have ow: "own m' d = own m d" unfolding own_def tabs_def w1(3) written_frames[OF w] ..
  have "frames m d \<subseteq> R" using s(2) by (auto simp: own_def)
  then have rm: "ram m' q = ram m0 q" if "q \<notin> R" for q using w1(6) s(3)[OF that] that by auto
  have "spare d m0 R m' xs" unfolding spare_def ow using w1(1,4,5) s(2,4,5) rm by simp
  moreover have frj: "fr m' d j = fr m d j" if "j < UPAGES" for j
  proof -
    have "j < 2 ^ 20" using that by simp
    then have "pte m' d j = pte m d j" using w1(2) by blast
    then show ?thesis by (rule fr_cong)
  qed
  moreover have "proc_mem d m' sz xs" using p w1(1,4) frj unfolding proc_mem_def by simp
  moreover have "pte m' d k = kp k" if "UPAGES \<le> k" "k < 2 ^ 20" for k using w1(2) imageD(3)[OF i that] that(2) by simp
  moreover have "k < npages (unat sz) \<and> pte m' d k AND PTE_U = 0" if k: "k \<in> G" for k
  proof -
    have kn: "k < npages (unat sz)" by (rule imageD(6)[OF i k])
    then have "k < 2 ^ 20" using proc_memD(3)[OF p] by simp
    then have "pte m' d k = pte m d k" using w1(2) by blast
    then show ?thesis using imageD(7)[OF i k] kn by simp
  qed
  moreover have "user_page m' d k" if "k < npages (unat sz)" "k \<notin> G" for k by (rule written_user[OF w imageD(4)[OF i that]])
  moreover have "uread m' d a = (if va \<le> a \<and> a < va + length buf then Some (buf ! (a - va)) else f a)" if "a < UPAGES * PGSIZE" for a
    using w1(7)[rule_format, OF that] imageD(5)[OF i that] by simp
  ultimately show ?thesis unfolding image_def by simp
qed

text \<open>The file behind an inode, as \<open>readi\<close> sees it.\<close>

definition file_is :: "'d fsys \<Rightarrow> nat \<Rightarrow> byte list \<Rightarrow> bool" where
  "file_is s ip c \<longleftrightarrow> length c < 2 ^ 32 \<and> (\<forall>off < 2 ^ 32. \<forall>n < 2 ^ 32. readi ip off n s =
     (if length c < off \<or> 2 ^ 32 \<le> off + n then Inr (-1, [], s) else Inr (int (length (take n (drop off c))), take n (drop off c), s)))"

lemma file_is_contents:
  assumes "fsb_ok s" "inode_ok s (icache s ! ip)" "i_type (icache s ! ip) \<noteq> T_DEV"
  shows "file_is s ip (contents (blocks s) (icache s ! ip))"
proof -
  have l: "length (contents (blocks s) (icache s ! ip)) = i_size (icache s ! ip)" by (simp add: contents_def)
  have "i_size (icache s ! ip) < 2 ^ 32" using assms(2) unfolding inode_ok_def by simp
  then show ?thesis unfolding file_is_def l using readi_ok[OF assms] l by (simp add: Let_def)
qed

lemma file_readi:
  assumes "file_is s ip c" "off < 2 ^ 32" "n < 2 ^ 31"
  shows "\<exists>r bs. readi ip off n s = Inr (r, bs, s) \<and> length bs \<le> n \<and>
    (r = int n \<and> length bs = n \<and> off + n \<le> length c \<and> bs = take n (drop off c) \<or> r \<noteq> int n \<and> \<not> off + n \<le> length c)"
proof (cases "length c < off \<or> 2 ^ 32 \<le> off + n")
  case True
  then show ?thesis using assms by (auto simp: file_is_def)
next
  case False
  have n: "n < 2 ^ 32" using assms(3) by simp
  have l: "length c < 2 ^ 32" using assms(1) unfolding file_is_def by blast
  have "readi ip off n s = Inr (int (length (take n (drop off c))), take n (drop off c), s)"
    using assms(1,2) n False unfolding file_is_def by simp
  then show ?thesis using False by (cases "off + n \<le> length c") auto
qed

lemma wrap_add: "(o1 :: nat) mod 2 ^ 32 + j < 2 ^ 32 \<Longrightarrow> (o1 + j) mod 2 ^ 32 = o1 mod 2 ^ 32 + j"
  by (metis mod_add_left_eq mod_less)

lemma load_loop_ok:
  assumes "image d m0 R kp G f sz m xs" "file_is s ip c" "va mod PGSIZE = 0" "va + fsz \<le> unat sz" "i mod PGSIZE = 0" "off < 2 ^ 32"
  shows "\<exists>r m' f'. load_loop d va ip off i fsz s m = Inr (r, s, m') \<and> image d m0 R kp G f' sz m' xs \<and>
    (r = 0 \<and> f' = (\<lambda>a. if va + i \<le> a \<and> a < va + fsz then Some (c ! ((off + (a - va)) mod 2 ^ 32)) else f a) \<or> r = -1 \<and> length c < off + fsz)"
  using assms
proof (induction "fsz - i" arbitrary: i f m rule: less_induct)
  case less
  note im = less.prems(1)
  show ?case
  proof (cases "fsz \<le> i")
    case True
    then have "f = (\<lambda>a. if va + i \<le> a \<and> a < va + fsz then Some (c ! ((off + (a - va)) mod 2 ^ 32)) else f a)" by (intro ext) auto
    then show ?thesis using True im by (intro exI[of _ 0] exI[of _ m] exI[of _ f]) (simp add: load_loop.simps)
  next
    case False
    note p = imageD(2)[OF im]
    define k where "k = (va + i) div PGSIZE"
    have va: "va + i = k * PGSIZE"
    proof -
      have "(va + i) mod PGSIZE = 0" using less.prems(3,5) by (metis add_0 mod_add_left_eq)
      then show ?thesis unfolding k_def by (metis add.right_neutral div_mult_mod_eq)
    qed
    have "k * PGSIZE < unat sz" using va False less.prems(4) by linarith
    then have kn: "k < npages (unat sz)" by (simp add: page_less)
    then have ku: "k < UPAGES" using proc_memD(3)[OF p] by simp
    then have k20: "k < 2 ^ 20" by simp
    obtain pf where pf: "fr m d k = Some pf" using proc_memD(4)[OF p ku] kn by auto
    obtain t where t: "tab m d (k div 1024) = Some t" using fr_tab[OF pf] by blast
    have ge: "P2V (PTE_ADDR (get_pte (t, k mod 1024) m)) = pf" using get_pte_tab[OF t] fr_Some[OF pf] by simp
    define n where "n = (if fsz - i < PGSIZE then fsz - i else PGSIZE)"
    have n: "0 < n" "n \<le> PGSIZE" "n \<le> fsz - i" using False by (auto simp: n_def)
    define o1 where "o1 = (off + i) mod 2 ^ 32"
    have o1: "o1 < 2 ^ 32" by (simp add: o1_def)
    have n31: "n < 2 ^ 31" using n(2) by simp
    obtain r bs where r: "readi ip o1 n s = Inr (r, bs, s)" "length bs \<le> n"
      "r = int n \<and> length bs = n \<and> o1 + n \<le> length c \<and> bs = take n (drop o1 c) \<or> r \<noteq> int n \<and> \<not> o1 + n \<le> length c"
      using file_readi[OF less.prems(2) o1 n31] by blast
    define m1 where "m1 = set_page pf (\<lambda>j. if j < length bs then bs ! j else ram m pf j) m"
    have kd: "k * PGSIZE div PGSIZE = k" by simp
    have mn: "length bs = min (PGSIZE - k * PGSIZE mod PGSIZE) (length bs)" using r(2) n(2) by simp
    have w: "written m d xs (k * PGSIZE) bs m1"
    proof -
      have "written m d xs (k * PGSIZE) (take (length bs) bs)
          (set_page pf (\<lambda>j. if k * PGSIZE mod PGSIZE \<le> j \<and> j < k * PGSIZE mod PGSIZE + length bs then bs ! (j - k * PGSIZE mod PGSIZE) else ram m pf j) m)"
        by (rule copyout_page[OF proc_memD(1)[OF p] _ _ mn]) (use ku pf in \<open>simp_all add: kd\<close>)
      then show ?thesis by (simp add: m1_def cong: if_cong)
    qed
    let ?f1 = "\<lambda>a. if k * PGSIZE \<le> a \<and> a < k * PGSIZE + length bs then Some (bs ! (a - k * PGSIZE)) else f a"
    have im1: "image d m0 R kp G ?f1 sz m1 xs" by (rule image_write[OF im w])
    have eq: "load_loop d va ip off i fsz s m = (if r \<noteq> int n then Inr (-1, s, m1) else load_loop d va ip off (i + PGSIZE) fsz s m1)"
      using False by (subst load_loop.simps) (simp only: if_False va walk_find[OF k20] fst_conv t option.map option.case Let_def ge n_def[symmetric] o1_def[symmetric] r(1) kbind_simps prod.case m1_def[symmetric])
    show ?thesis
    proof (cases "r = int n")
      case False
      then have "length c < off + fsz"
      proof -
        have "\<not> o1 + n \<le> length c" using r(3) False by blast
        moreover have "o1 \<le> off + i" by (simp add: o1_def)
        ultimately show ?thesis using n(3) \<open>\<not> fsz \<le> i\<close> by linarith
      qed
      then show ?thesis using eq False im1 by (intro exI[of _ "-1"] exI[of _ m1] exI[of _ ?f1]) simp
    next
      case True
      have nn: "n = length bs" "o1 + n \<le> length c" "bs = take n (drop o1 c)" using r(3) True by auto
      have lc: "length c < 2 ^ 32" using less.prems(2) unfolding file_is_def by blast
      have lt: "fsz - (i + PGSIZE) < fsz - i" using False by simp
      have i2: "(i + PGSIZE) mod PGSIZE = 0" using less.prems(5) by simp
      obtain r2 m2 f2 where ih: "load_loop d va ip off (i + PGSIZE) fsz s m1 = Inr (r2, s, m2)" "image d m0 R kp G f2 sz m2 xs"
        "r2 = 0 \<and> f2 = (\<lambda>a. if va + (i + PGSIZE) \<le> a \<and> a < va + fsz then Some (c ! ((off + (a - va)) mod 2 ^ 32)) else ?f1 a) \<or> r2 = -1 \<and> length c < off + fsz"
        using less.hyps[OF lt im1 less.prems(2-4) i2 less.prems(6)] by blast
      have fe: "(if va + (i + PGSIZE) \<le> a \<and> a < va + fsz then Some (c ! ((off + (a - va)) mod 2 ^ 32)) else ?f1 a) =
          (if va + i \<le> a \<and> a < va + fsz then Some (c ! ((off + (a - va)) mod 2 ^ 32)) else f a)" for a
      proof (cases "va + i \<le> a \<and> a < va + i + n")
        case True
        define j where "j = a - (va + i)"
        have j: "j < n" "a = va + i + j" "a - va = i + j" using True by (auto simp: j_def)
        have bj: "bs ! j = c ! (o1 + j)" unfolding nn(3) using j(1) nn(2) by simp
        have "(off + i + j) mod 2 ^ 32 = o1 + j" unfolding o1_def by (rule wrap_add) (use j(1) nn(2) lc in \<open>simp add: o1_def\<close>)
        then have cj: "c ! ((off + (a - va)) mod 2 ^ 32) = bs ! j" unfolding bj j(3) add.assoc by simp
        have c1: "\<not> (va + (i + PGSIZE) \<le> a \<and> a < va + fsz)" using j(1,2) n(2) by simp
        have c2: "k * PGSIZE \<le> a \<and> a < k * PGSIZE + length bs" "a - k * PGSIZE = j" unfolding va[symmetric] using j(1,2) nn(1) by simp_all
        have c3: "va + i \<le> a \<and> a < va + fsz" using j(1,2) n(3) by simp
        show ?thesis unfolding if_not_P[OF c1] if_P[OF c2(1)] if_P[OF c3] cj c2(2) ..
      next
        case False
        have "\<not> (k * PGSIZE \<le> a \<and> a < k * PGSIZE + length bs)" using False nn(1) va by simp
        moreover have "va + (i + PGSIZE) \<le> a \<and> a < va + fsz \<longleftrightarrow> va + i \<le> a \<and> a < va + fsz"
        proof (cases "fsz - i < PGSIZE")
          case True
          then show ?thesis using False by (auto simp: n_def)
        next
          case f2: False
          then show ?thesis using False by (auto simp: n_def)
        qed
        ultimately show ?thesis by (simp only: if_False)
      qed
      have "load_loop d va ip off i fsz s m = Inr (r2, s, m2)" using eq True ih(1) by simp
      then show ?thesis using ih(2,3) unfolding fe by blast
    qed
  qed
qed

section \<open>The segments of a file\<close>

text \<open>
  The reference: the size and the memory the program headers of the file \<open>c\<close> describe, and whether all
  segments lie inside the file; none when a header is refused.
\<close>

definition seg_ok :: "byte list \<Rightarrow> nat \<Rightarrow> bool" where
  "seg_ok ph sz \<longleftrightarrow> ph_filesz ph \<le> ph_memsz ph \<and> unat (ph_vaddr ph) + unat (ph_memsz ph) < unat KERNBASE \<and>
     unat (ph_vaddr ph) mod PGSIZE = 0 \<and> 0 < max sz (unat (ph_vaddr ph) + unat (ph_memsz ph))"

definition seg_mem :: "byte list \<Rightarrow> byte list \<Rightarrow> nat \<Rightarrow> (nat \<Rightarrow> byte option) \<Rightarrow> nat \<Rightarrow> byte option" where
  "seg_mem c ph sz f a =
     (if unat (ph_vaddr ph) \<le> a \<and> a < unat (ph_vaddr ph) + unat (ph_filesz ph)
      then Some (c ! ((unat (ph_off ph) + (a - unat (ph_vaddr ph))) mod 2 ^ 32))
      else if npages sz * PGSIZE \<le> a \<and> a < npages (max sz (unat (ph_vaddr ph) + unat (ph_memsz ph))) * PGSIZE then Some 0 else f a)"

fun segments :: "byte list \<Rightarrow> nat \<Rightarrow> u32 \<Rightarrow> nat \<Rightarrow> (nat \<Rightarrow> byte option) \<Rightarrow> bool \<Rightarrow> (nat \<times> (nat \<Rightarrow> byte option) \<times> bool) option" where
  "segments c 0 off sz f ok = Some (sz, f, ok)"
| "segments c (Suc n) off sz f ok =
     (let ph = take ph_size (drop (unat off) c)
      in if length c < unat off + ph_size then None
         else if ph_type ph \<noteq> ELF_PROG_LOAD then segments c n (off + 32) sz f ok
         else if \<not> seg_ok ph sz then None
         else segments c n (off + 32) (max sz (unat (ph_vaddr ph) + unat (ph_memsz ph))) (seg_mem c ph sz f)
                (ok \<and> unat (ph_off ph) + unat (ph_filesz ph) \<le> length c))"

lemma segments_mono: "segments c n off sz f ok = Some (sz', f', ok') \<Longrightarrow> sz \<le> sz' \<and> (ok' \<longrightarrow> ok)"
  by (induction c n off sz f ok arbitrary: sz' f' ok' rule: segments.induct) (force simp: Let_def split: if_splits)+

text \<open>Growing to the end of a segment and loading it.\<close>

lemma load_seg_ok:
  assumes i: "image d m0 R kp G f sz m xs" and c: "file_is s ip c" and szk: "unat sz < unat KERNBASE" and ok: "seg_ok ph (unat sz)"
  shows "\<exists>sz1 m1. allocuvm d (unat sz) (unat (ph_vaddr ph + ph_memsz ph)) m = Inr (sz1, m1) \<and>
    (sz1 = 0 \<and> (\<exists>ys. spare d m0 R m1 ys) \<and> card R \<le> 1025 + npages (max (unat sz) (unat (ph_vaddr ph) + unat (ph_memsz ph))) \<or>
     sz1 \<noteq> 0 \<and> sz1 = max (unat sz) (unat (ph_vaddr ph) + unat (ph_memsz ph)) \<and>
     (\<exists>r m2 f2 ys. loaduvm d (unat (ph_vaddr ph)) ip (unat (ph_off ph)) (unat (ph_filesz ph)) s m1 = Inr (r, s, m2) \<and>
        image d m0 R kp G f2 (of_nat sz1) m2 ys \<and>
        (r = 0 \<and> f2 = seg_mem c ph (unat sz) f \<or> r = -1 \<and> length c < unat (ph_off ph) + unat (ph_filesz ph))))"
proof -
  let ?n = "unat (ph_vaddr ph) + unat (ph_memsz ph)"
  let ?mx = "max (unat sz) ?n"
  have k: "ph_filesz ph \<le> ph_memsz ph" "?n < unat KERNBASE" "unat (ph_vaddr ph) mod PGSIZE = 0" "0 < ?mx" using ok unfolding seg_ok_def by blast+
  have vm: "unat (ph_vaddr ph + ph_memsz ph) = ?n" using k(2) by (subst unat_add_lem[THEN iffD1]) simp_all
  have mk: "?mx < unat KERNBASE" using szk k(2) by simp
  have um: "unat (of_nat ?mx :: u32) = ?mx" using mk by (simp add: unat_of_nat)
  let ?f1 = "\<lambda>a. if npages (unat sz) * PGSIZE \<le> a \<and> a < npages ?mx * PGSIZE then Some 0 else f a"
  have "\<exists>sz1 m1. allocuvm d (unat sz) ?n m = Inr (sz1, m1) \<and>
    (sz1 = 0 \<and> (\<exists>ys. spare d m0 R m1 ys) \<and> card R \<le> 1025 + npages ?mx \<or>
     sz1 \<noteq> 0 \<and> sz1 = ?mx \<and> (\<exists>ys. image d m0 R kp G ?f1 (of_nat sz1) m1 ys))"
  proof (cases "?n < unat sz")
    case True
    then have mx: "?mx = unat sz" by simp
    have "?f1 = f" unfolding mx by (intro ext) auto
    moreover have "allocuvm d (unat sz) ?n m = Inr (unat sz, m)" using True k(2) by (simp add: allocuvm_def)
    ultimately show ?thesis using i True unfolding mx by auto
  next
    case False
    then have mx: "?mx = ?n" by simp
    have le: "unat sz \<le> ?n" using False by simp
    obtain r m' ys where r: "allocuvm d (unat sz) ?n m = Inr (r, m')"
      "r = ?n \<and> image d m0 R kp G (\<lambda>a. if npages (unat sz) * PGSIZE \<le> a \<and> a < npages ?n * PGSIZE then Some 0 else f a) (of_nat ?n) m' ys \<or>
       r = 0 \<and> spare d m0 R m' ys \<and> card R \<le> 1025 + npages ?n"
      using image_grow[OF i le k(2)] by blast
    have "?n \<noteq> 0" using k(4) mx by linarith
    then show ?thesis using r unfolding mx by blast
  qed
  then obtain sz1 m1 where a: "allocuvm d (unat sz) ?n m = Inr (sz1, m1)" and
    br: "sz1 = 0 \<and> (\<exists>ys. spare d m0 R m1 ys) \<and> card R \<le> 1025 + npages ?mx \<or> sz1 \<noteq> 0 \<and> sz1 = ?mx \<and> (\<exists>ys. image d m0 R kp G ?f1 (of_nat sz1) m1 ys)"
    by blast
  from br show ?thesis unfolding vm
  proof (elim disjE conjE exE)
    fix ys assume "sz1 = 0" "spare d m0 R m1 ys" "card R \<le> 1025 + npages ?mx"
    then show "\<exists>sz1 m1. allocuvm d (unat sz) ?n m = Inr (sz1, m1) \<and>
      (sz1 = 0 \<and> (\<exists>ys. spare d m0 R m1 ys) \<and> card R \<le> 1025 + npages ?mx \<or>
       sz1 \<noteq> 0 \<and> sz1 = ?mx \<and>
       (\<exists>r m2 f2 ys. loaduvm d (unat (ph_vaddr ph)) ip (unat (ph_off ph)) (unat (ph_filesz ph)) s m1 = Inr (r, s, m2) \<and>
          image d m0 R kp G f2 (of_nat sz1) m2 ys \<and>
          (r = 0 \<and> f2 = seg_mem c ph (unat sz) f \<or> r = -1 \<and> length c < unat (ph_off ph) + unat (ph_filesz ph))))"
      using a by blast
  next
    fix ys assume s1: "sz1 \<noteq> 0" "sz1 = ?mx" "image d m0 R kp G ?f1 (of_nat sz1) m1 ys"
    have fm: "unat (ph_filesz ph) \<le> unat (ph_memsz ph)" using k(1) by (simp add: word_le_nat_alt)
    have ve: "unat (ph_vaddr ph) + unat (ph_filesz ph) \<le> unat (of_nat sz1 :: u32)" unfolding s1(2) um using fm by simp
    have o32: "unat (ph_off ph) < 2 ^ 32" by (rule unat_less_2p32)
    have z: "0 mod PGSIZE = 0" by simp
    obtain r m2 f2 where l: "load_loop d (unat (ph_vaddr ph)) ip (unat (ph_off ph)) 0 (unat (ph_filesz ph)) s m1 = Inr (r, s, m2)"
      "image d m0 R kp G f2 (of_nat sz1) m2 ys"
      "r = 0 \<and> f2 = (\<lambda>a. if unat (ph_vaddr ph) + 0 \<le> a \<and> a < unat (ph_vaddr ph) + unat (ph_filesz ph)
            then Some (c ! ((unat (ph_off ph) + (a - unat (ph_vaddr ph))) mod 2 ^ 32)) else ?f1 a) \<or>
       r = -1 \<and> length c < unat (ph_off ph) + unat (ph_filesz ph)"
      using load_loop_ok[OF s1(3) c k(3) ve z o32] by blast
    have fe: "(\<lambda>a. if unat (ph_vaddr ph) + 0 \<le> a \<and> a < unat (ph_vaddr ph) + unat (ph_filesz ph)
            then Some (c ! ((unat (ph_off ph) + (a - unat (ph_vaddr ph))) mod 2 ^ 32)) else ?f1 a) = seg_mem c ph (unat sz) f"
      by (rule ext) (simp only: seg_mem_def add_0_right)
    have "loaduvm d (unat (ph_vaddr ph)) ip (unat (ph_off ph)) (unat (ph_filesz ph)) s m1 = Inr (r, s, m2)"
      using l(1) k(3) by (simp add: loaduvm_def)
    then show "\<exists>sz1 m1. allocuvm d (unat sz) ?n m = Inr (sz1, m1) \<and>
      (sz1 = 0 \<and> (\<exists>ys. spare d m0 R m1 ys) \<and> card R \<le> 1025 + npages ?mx \<or>
       sz1 \<noteq> 0 \<and> sz1 = ?mx \<and>
       (\<exists>r m2 f2 ys. loaduvm d (unat (ph_vaddr ph)) ip (unat (ph_off ph)) (unat (ph_filesz ph)) s m1 = Inr (r, s, m2) \<and>
          image d m0 R kp G f2 (of_nat sz1) m2 ys \<and>
          (r = 0 \<and> f2 = seg_mem c ph (unat sz) f \<or> r = -1 \<and> length c < unat (ph_off ph) + unat (ph_filesz ph))))"
      using a s1(1,2) l(2,3) unfolding fe by blast
  qed
qed

lemma image_alloc:
  assumes i: "image d m0 R kp G f sz m xs"
  shows "\<exists>r m' ys. allocuvm d (unat sz) n m = Inr (r, m') \<and> spare d m0 R m' ys"
proof (cases "unat sz \<le> n \<and> n < unat KERNBASE")
  case True
  then have n: "unat sz \<le> n" "n < unat KERNBASE" by blast+
  show ?thesis using image_grow[OF i n] imageD(1) by blast
next
  case False
  then have "allocuvm d (unat sz) n m = Inr (if unat KERNBASE \<le> n then 0 else unat sz, m)" by (auto simp: allocuvm_def)
  then show ?thesis using imageD(1)[OF i] by blast
qed

lemma load_seg_bad:
  assumes i: "image d m0 R kp G f sz m xs" and bad: "\<not> seg_ok ph (unat sz)"
    and h: "\<not> ph_memsz ph < ph_filesz ph" "\<not> ph_vaddr ph + ph_memsz ph < ph_vaddr ph"
  shows "\<exists>sz1 m1 ys. allocuvm d (unat sz) (unat (ph_vaddr ph + ph_memsz ph)) m = Inr (sz1, m1) \<and> spare d m0 R m1 ys \<and>
    (sz1 = 0 \<or> unat (ph_vaddr ph) mod PGSIZE \<noteq> 0)"
proof -
  let ?n = "unat (ph_vaddr ph) + unat (ph_memsz ph)"
  have vm: "unat (ph_vaddr ph + ph_memsz ph) = ?n" using h(2) by (simp add: not_less unat_plus_simple)
  obtain sz1 m1 ys where a: "allocuvm d (unat sz) (unat (ph_vaddr ph + ph_memsz ph)) m = Inr (sz1, m1)" "spare d m0 R m1 ys"
    using image_alloc[OF i] by blast
  have "sz1 = 0" if al: "unat (ph_vaddr ph) mod PGSIZE = 0"
  proof -
    have "ph_filesz ph \<le> ph_memsz ph" using h(1) by simp
    then have "\<not> (?n < unat KERNBASE \<and> 0 < max (unat sz) ?n)" using bad al unfolding seg_ok_def by blast
    then have "unat KERNBASE \<le> ?n \<or> unat sz = 0 \<and> ?n = 0" by linarith
    then show ?thesis
    proof
      assume "unat KERNBASE \<le> ?n"
      then show ?thesis using a(1) vm by (simp add: allocuvm_def)
    next
      assume z: "unat sz = 0 \<and> ?n = 0"
      then show ?thesis using a(1) vm by (simp add: allocuvm_def alloc_loop.simps PGROUNDUP_npages)
    qed
  qed
  then show ?thesis using a by blast
qed

lemma load_segs_ok:
  assumes "image d m0 R kp G f sz m xs" "file_is s ip c" "unat sz < unat KERNBASE"
  shows "\<exists>r m' ys. load_segs ip d n off sz s m = Inr (r, s, m') \<and> spare d m0 R m' ys \<and>
    (case r of Some sz' \<Rightarrow> unat sz' < unat KERNBASE \<and> (\<exists>f' ok'. segments c n off (unat sz) f ok = Some (unat sz', f', ok') \<and> image d m0 R kp G f' sz' m' ys)
     | None \<Rightarrow> \<forall>sz' f'. segments c n off (unat sz) f ok = Some (sz', f', True) \<longrightarrow> card R \<le> 1025 + npages sz')"
  using assms
proof (induction n arbitrary: off sz f m xs ok)
  case 0
  then show ?case using imageD(1)[OF 0(1)]
    by (intro exI[of _ "Some sz"] exI[of _ m] exI[of _ xs]) simp
next
  case (Suc n)
  note i = Suc.prems(1) and c = Suc.prems(2) and szk = Suc.prems(3)
  let ?stop = "\<lambda>m'. \<exists>ys. spare d m0 R m' ys"
  have fail: ?case if "load_segs ip d (Suc n) off sz s m = Inr (None, s, m')" "?stop m'"
    "\<And>sz' f'. segments c (Suc n) off (unat sz) f ok = Some (sz', f', True) \<Longrightarrow> card R \<le> 1025 + npages sz'" for m'
    using that by (intro exI[of _ None] exI[of _ m']) auto
  have s0: "?stop m" using imageD(1)[OF i] by blast
  have p31: "ph_size < 2 ^ 31" by simp
  obtain r ph where r: "readi ip (unat off) ph_size s = Inr (r, ph, s)"
    "r = int ph_size \<and> length ph = ph_size \<and> unat off + ph_size \<le> length c \<and> ph = take ph_size (drop (unat off) c) \<or>
     r \<noteq> int ph_size \<and> \<not> unat off + ph_size \<le> length c"
    using file_readi[OF c unat_less_2p32 p31, of off] by blast
  show ?case
  proof (cases "r = int ph_size")
    case False
    show ?thesis by (rule fail[OF _ s0]) (use False r in \<open>simp_all add: Let_def\<close>)
  next
    case True
    then have ph: "ph = take ph_size (drop (unat off) c)" and lc: "\<not> length c < unat off + ph_size" using r(2) by auto
    note seg = segments.simps(2)[of c n off "unat sz" f ok, folded ph, unfolded Let_def if_not_P[OF lc]]
    have ls: "load_segs ip d (Suc n) off sz s m =
       (if ph_type ph \<noteq> ELF_PROG_LOAD then load_segs ip d n (off + 32) sz s m
       else if ph_memsz ph < ph_filesz ph then Inr (None, s, m)
       else if ph_vaddr ph + ph_memsz ph < ph_vaddr ph then Inr (None, s, m)
       else kbind (allocuvm d (unat sz) (unat (ph_vaddr ph + ph_memsz ph)) m) (\<lambda>(sz1, m1).
              if sz1 = 0 then Inr (None, s, m1)
              else if unat (ph_vaddr ph) mod PGSIZE \<noteq> 0 then Inr (None, s, m1)
              else kbind (loaduvm d (unat (ph_vaddr ph)) ip (unat (ph_off ph)) (unat (ph_filesz ph)) s m1) (\<lambda>(r2, s2, m2).
                     if r2 < 0 then Inr (None, s2, m2) else load_segs ip d n (off + 32) (of_nat sz1) s2 m2)))"
      using r(1) True by (simp only: load_segs.simps kbind_simps prod.case if_False simp_thms)
    show ?thesis
    proof (cases "ph_type ph \<noteq> ELF_PROG_LOAD")
      case t: True
      show ?thesis unfolding ls seg if_P[OF t] by (rule Suc.IH[OF i c szk])
    next
      case t: False
      note ls1 = ls[unfolded if_not_P[OF t]]
      note seg1 = seg[unfolded if_not_P[OF t]]
      show ?thesis
      proof (cases "seg_ok ph (unat sz)")
        case False
        have sN: "segments c (Suc n) off (unat sz) f ok = None" unfolding seg1 using False by simp
        show ?thesis
        proof (cases "ph_memsz ph < ph_filesz ph \<or> ph_vaddr ph + ph_memsz ph < ph_vaddr ph")
          case True
          show ?thesis by (rule fail[OF _ s0]) (use True ls1 sN in auto)
        next
          case h: False
          then have h1: "\<not> ph_memsz ph < ph_filesz ph" "\<not> ph_vaddr ph + ph_memsz ph < ph_vaddr ph" by blast+
          obtain sz1 m1 ys where a: "allocuvm d (unat sz) (unat (ph_vaddr ph + ph_memsz ph)) m = Inr (sz1, m1)" "spare d m0 R m1 ys"
            "sz1 = 0 \<or> unat (ph_vaddr ph) mod PGSIZE \<noteq> 0" using load_seg_bad[OF i False h1] by blast
          have "load_segs ip d (Suc n) off sz s m = Inr (None, s, m1)" unfolding ls1 if_not_P[OF h1(1)] if_not_P[OF h1(2)] a(1) kbind_simps prod.case
            using a(3) by auto
          then show ?thesis by (rule fail) (use a(2) sN in auto)
        qed
      next
        case ok: True
        then have nn: "\<not> \<not> seg_ok ph (unat sz)" by blast
        let ?mx = "max (unat sz) (unat (ph_vaddr ph) + unat (ph_memsz ph))"
        let ?ok = "ok \<and> unat (ph_off ph) + unat (ph_filesz ph) \<le> length c"
        note seg2 = seg1[unfolded if_not_P[OF nn]]
        have k: "ph_filesz ph \<le> ph_memsz ph" "unat (ph_vaddr ph) + unat (ph_memsz ph) < unat KERNBASE" "unat (ph_vaddr ph) mod PGSIZE = 0"
          using ok unfolding seg_ok_def by blast+
        have mk: "?mx < unat KERNBASE" using szk k(2) by simp
        have um: "unat (of_nat ?mx :: u32) = ?mx" using mk by (simp add: unat_of_nat)
        have h1: "\<not> ph_memsz ph < ph_filesz ph" using k(1) by simp
        have "unat (ph_vaddr ph) + unat (ph_memsz ph) < 2 ^ LENGTH(32)" using k(2) by simp
        then have h2: "\<not> ph_vaddr ph + ph_memsz ph < ph_vaddr ph" by (simp add: not_less no_olen_add_nat)
        have h3: "\<not> unat (ph_vaddr ph) mod PGSIZE \<noteq> 0" using k(3) by simp
        note ls2 = ls1[unfolded if_not_P[OF h1] if_not_P[OF h2] if_not_P[OF h3]]
        obtain sz1 m1 where a: "allocuvm d (unat sz) (unat (ph_vaddr ph + ph_memsz ph)) m = Inr (sz1, m1)" and
          br: "sz1 = 0 \<and> (\<exists>ys. spare d m0 R m1 ys) \<and> card R \<le> 1025 + npages ?mx \<or>
           sz1 \<noteq> 0 \<and> sz1 = ?mx \<and>
           (\<exists>r m2 f2 ys. loaduvm d (unat (ph_vaddr ph)) ip (unat (ph_off ph)) (unat (ph_filesz ph)) s m1 = Inr (r, s, m2) \<and>
              image d m0 R kp G f2 (of_nat sz1) m2 ys \<and>
              (r = 0 \<and> f2 = seg_mem c ph (unat sz) f \<or> r = -1 \<and> length c < unat (ph_off ph) + unat (ph_filesz ph)))"
          using load_seg_ok[OF i c szk ok] by blast
        from br show ?thesis
        proof (elim disjE[of "sz1 = 0 \<and> _"] conjE exE)
          fix ys assume z: "sz1 = 0" "spare d m0 R m1 ys" "card R \<le> 1025 + npages ?mx"
          have l: "load_segs ip d (Suc n) off sz s m = Inr (None, s, m1)" unfolding ls2 a kbind_simps prod.case using z(1) by simp
          show ?thesis
          proof (rule fail[OF l])
            show "\<exists>ys. spare d m0 R m1 ys" using z(2) by blast
            fix sz' f' assume "segments c (Suc n) off (unat sz) f ok = Some (sz', f', True)"
            then have "?mx \<le> sz'" unfolding seg2 using segments_mono by blast
            then show "card R \<le> 1025 + npages sz'" using z(3) npages_mono[of ?mx sz'] by linarith
          qed
        next
          fix r m2 f2 ys assume z: "sz1 \<noteq> 0" "sz1 = ?mx"
            "loaduvm d (unat (ph_vaddr ph)) ip (unat (ph_off ph)) (unat (ph_filesz ph)) s m1 = Inr (r, s, m2)"
            "image d m0 R kp G f2 (of_nat sz1) m2 ys"
            "r = 0 \<and> f2 = seg_mem c ph (unat sz) f \<or> r = -1 \<and> length c < unat (ph_off ph) + unat (ph_filesz ph)"
          note ls3 = ls2[unfolded a kbind_simps prod.case if_not_P[OF z(1)] z(3)]
          show ?thesis
          proof (cases "r = 0")
            case True
            then have f2: "f2 = seg_mem c ph (unat sz) f" using z(5) by simp
            have im: "image d m0 R kp G (seg_mem c ph (unat sz) f) (of_nat ?mx) m2 ys" using z(4) unfolding z(2) f2 .
            have mk2: "unat (of_nat ?mx :: u32) < unat KERNBASE" unfolding um by (rule mk)
            have l: "load_segs ip d (Suc n) off sz s m = load_segs ip d n (off + 32) (of_nat ?mx) s m2" unfolding ls3 True z(2) by simp
            show ?thesis unfolding l seg2 using Suc.IH[OF im c mk2, of "off + 32" ?ok] unfolding um .
          next
            case False
            then have r1: "r = -1" "length c < unat (ph_off ph) + unat (ph_filesz ph)" using z(5) by auto
            have l: "load_segs ip d (Suc n) off sz s m = Inr (None, s, m2)" unfolding ls3 r1(1) by simp
            show ?thesis
            proof (rule fail[OF l])
              show "\<exists>ys. spare d m0 R m2 ys" using imageD(1)[OF z(4)] by blast
              fix sz' f' assume "segments c (Suc n) off (unat sz) f ok = Some (sz', f', True)"
              then have ?ok unfolding seg2 using segments_mono by blast
              then show "card R \<le> 1025 + npages sz'" using r1(2) by simp
            qed
          qed
        qed
      qed
    qed
  qed
qed

section \<open>The stack\<close>

lemma unat_and_not_3: "unat ((w :: u32) AND NOT 3) = unat w div 4 * 4"
proof -
  have m: "(3 :: u32) = mask 2" by (simp add: mask_eq_exp_minus_1)
  have "w AND NOT 3 = push_bit 2 (drop_bit 2 w)" unfolding m by (rule bit_word_eqI) (auto simp: bit_simps not_less dest!: le_Suc_ex)
  moreover have "take_bit 32 (unat w) = unat w" by (rule take_bit_nat_eq_self[OF unat_less_2p32])
  ultimately have "unat (w AND NOT 3) = take_bit 32 (push_bit 2 (drop_bit 2 (unat w)))"
    by (simp add: unsigned_push_bit_eq unsigned_drop_bit_eq)
  also have "\<dots> = (unat w div 4 * 4) mod 2 ^ 32" by (simp add: take_bit_eq_mod push_bit_eq_mult drop_bit_eq_div)
  also have "unat w div 4 * 4 \<le> unat w" by (rule div_times_less_eq_dividend)
  then have "unat w div 4 * 4 < 2 ^ 32" using unat_less_2p32[of w] by linarith
  then have "(unat w div 4 * 4) mod 2 ^ 32 = unat w div 4 * 4" by (rule mod_less)
  finally show ?thesis .
qed

text \<open>Where an argument of length \<open>n\<close> goes below \<open>sp\<close>.\<close>

lemma arg_place:
  assumes "lo + n + 4 \<le> unat (sp :: u32)" "lo mod 4 = 0"
  shows "lo \<le> unat ((sp - (of_nat n + 1)) AND NOT 3)" "unat ((sp - (of_nat n + 1)) AND NOT 3) + n + 1 \<le> unat sp"
    "unat sp - (n + 4) \<le> unat ((sp - (of_nat n + 1)) AND NOT 3)"
proof -
  have n32: "n + 1 < 2 ^ 32" using assms(1) unat_less_2p32[of sp] by linarith
  have e: "unat (of_nat n + 1 :: u32) = n + 1"
  proof -
    have "(of_nat n + 1 :: u32) = of_nat (n + 1)" by simp
    then show ?thesis using n32 by (simp only: unat_of_nat) simp
  qed
  have "unat (sp - (of_nat n + 1)) = unat sp - (n + 1)"
    by (subst unat_sub) (use e assms(1) in \<open>simp_all add: word_le_nat_alt\<close>)
  then have u: "unat ((sp - (of_nat n + 1)) AND NOT 3) = (unat sp - (n + 1)) div 4 * 4" unfolding unat_and_not_3 by simp
  show "unat sp - (n + 4) \<le> unat ((sp - (of_nat n + 1)) AND NOT 3)" "unat ((sp - (of_nat n + 1)) AND NOT 3) + n + 1 \<le> unat sp"
    unfolding u using assms(1) by linarith+
  have "lo div 4 \<le> (unat sp - (n + 1)) div 4" by (rule div_le_mono) (use assms(1) in linarith)
  then have "lo div 4 * 4 \<le> (unat sp - (n + 1)) div 4 * 4" by simp
  then show "lo \<le> unat ((sp - (of_nat n + 1)) AND NOT 3)" unfolding u using assms(2) by (metis add.right_neutral div_mult_mod_eq)
qed

fun need :: "byte list list \<Rightarrow> nat" where
  "need [] = 0"
| "need (a # as) = length a + 4 + need as"

text \<open>Writing inside a user page.\<close>

lemma image_copyout:
  assumes i: "image d m0 R kp G f sz m xs" and g: "g < npages (unat sz)" "g \<notin> G"
    and b: "g * PGSIZE \<le> va" "va + length buf \<le> g * PGSIZE + PGSIZE"
  shows "\<exists>m'. copyout d va buf m = Inr (0, m') \<and>
    image d m0 R kp G (\<lambda>a. if va \<le> a \<and> a < va + length buf then Some (buf ! (a - va)) else f a) sz m' xs"
proof -
  have "user_page m d n" if n: "va div PGSIZE \<le> n \<and> n * PGSIZE < va + length buf" for n
  proof -
    have "n * PGSIZE < (g + 1) * PGSIZE" using n b(2) by simp
    then have "n \<le> g" by simp
    moreover have "g \<le> va div PGSIZE" using b(1) div_le_mono[of "g * PGSIZE" va PGSIZE] by simp
    ultimately have "n = g" using n by simp
    then show ?thesis using imageD(4)[OF i g] by simp
  qed
  then have u: "\<forall>n. va div PGSIZE \<le> n \<and> n * PGSIZE < va + length buf \<longrightarrow> user_page m d n" by blast
  obtain m' where m': "copyout d va buf m = Inr (0, m')" "written m d xs va buf m'"
    using copyout_ok[OF proc_memD(1)[OF imageD(2)[OF i]] u] by blast
  then show ?thesis using image_write[OF i m'(2)] by blast
qed

text \<open>The strings \<open>as\<close> at the addresses \<open>us\<close>, all between \<open>lo\<close> and \<open>hi\<close>.\<close>

definition strings_at :: "(nat \<Rightarrow> byte option) \<Rightarrow> nat \<Rightarrow> nat \<Rightarrow> byte list list \<Rightarrow> u32 list \<Rightarrow> bool" where
  "strings_at f lo hi as us \<longleftrightarrow> length us = length as \<and>
     (\<forall>i < length as. lo \<le> unat (us ! i) \<and> unat (us ! i) + length (as ! i) < hi \<and>
        (\<forall>j \<le> length (as ! i). f (unat (us ! i) + j) = Some ((as ! i @ [0]) ! j)))"

lemma strings_at_cong:
  assumes "strings_at f lo hi as us" "\<And>a. lo \<le> a \<Longrightarrow> a < hi \<Longrightarrow> f' a = f a" "lo' \<le> lo" "hi \<le> hi'"
  shows "strings_at f' lo' hi' as us"
  unfolding strings_at_def
proof (intro conjI allI impI)
  show "length us = length as" using assms(1) unfolding strings_at_def by blast
  fix i assume i: "i < length as"
  have k: "lo \<le> unat (us ! i)" "unat (us ! i) + length (as ! i) < hi" "\<forall>j \<le> length (as ! i). f (unat (us ! i) + j) = Some ((as ! i @ [0]) ! j)"
    using assms(1) i unfolding strings_at_def by blast+
  show "lo' \<le> unat (us ! i)" "unat (us ! i) + length (as ! i) < hi'" using k(1,2) assms(3,4) by linarith+
  fix j assume j: "j \<le> length (as ! i)"
  then have "f' (unat (us ! i) + j) = f (unat (us ! i) + j)" using k(1,2) by (intro assms(2)) linarith+
  then show "f' (unat (us ! i) + j) = Some ((as ! i @ [0]) ! j)" using k(3) j by simp
qed

lemma push_args_ok:
  assumes "image d m0 R kp G f sz m xs" "g < npages (unat sz)" "g \<notin> G" "unat sp \<le> g * PGSIZE + PGSIZE" "g * PGSIZE + need as \<le> unat sp"
    "length us + length as \<le> MAXARG"
  shows "\<exists>sp' vs m' f'. push_args d as sp us m = Inr (Some (sp', us @ vs), m') \<and> image d m0 R kp G f' sz m' xs \<and>
    strings_at f' (unat sp') (unat sp) as vs \<and> unat sp - need as \<le> unat sp' \<and> unat sp' \<le> unat sp \<and>
    (\<forall>a. \<not> (unat sp' \<le> a \<and> a < unat sp) \<longrightarrow> f' a = f a)"
  using assms
proof (induction as arbitrary: sp us m f)
  case Nil
  then show ?case by (intro exI[of _ sp] exI[of _ "[]"] exI[of _ m] exI[of _ f]) (simp add: strings_at_def)
next
  case (Cons a as)
  note i = Cons.prems(1)
  define sp1 where "sp1 = (sp - (of_nat (length a) + 1)) AND NOT 3"
  have lo: "g * PGSIZE + need as + length a + 4 \<le> unat sp" "g * PGSIZE + length a + 4 \<le> unat sp" using Cons.prems(5) by simp_all
  have g4: "g * PGSIZE mod 4 = 0" by (simp add: mod_mult_right_eq[symmetric])
  have pl: "g * PGSIZE \<le> unat sp1" "unat sp1 + length a + 1 \<le> unat sp" "unat sp - (length a + 4) \<le> unat sp1"
    unfolding sp1_def by (rule arg_place[OF lo(2) g4])+
  let ?f1 = "\<lambda>b. if unat sp1 \<le> b \<and> b < unat sp1 + length (a @ [0]) then Some ((a @ [0]) ! (b - unat sp1)) else f b"
  have le: "unat sp1 + length (a @ [0]) \<le> g * PGSIZE + PGSIZE" using pl(2) Cons.prems(4) by simp
  obtain m1 where m1: "copyout d (unat sp1) (a @ [0]) m = Inr (0, m1)" "image d m0 R kp G ?f1 sz m1 xs"
    using image_copyout[OF i Cons.prems(2,3) pl(1) le] by blast
  have nm: "\<not> MAXARG \<le> length us" using Cons.prems(6) by simp
  have st: "push_args d (a # as) sp us m = push_args d as sp1 (us @ [sp1]) m1"
    unfolding push_args.simps if_not_P[OF nm] Let_def sp1_def[symmetric] m1(1) by simp
  have c: "unat sp1 \<le> g * PGSIZE + PGSIZE" "g * PGSIZE + need as \<le> unat sp1" "length (us @ [sp1]) + length as \<le> MAXARG"
    using pl Cons.prems(4-6) by simp_all
  obtain sp' vs m' f' where ih: "push_args d as sp1 (us @ [sp1]) m1 = Inr (Some (sp', (us @ [sp1]) @ vs), m')" "image d m0 R kp G f' sz m' xs"
    "strings_at f' (unat sp') (unat sp1) as vs" "unat sp1 - need as \<le> unat sp'" "unat sp' \<le> unat sp1"
    "\<forall>b. \<not> (unat sp' \<le> b \<and> b < unat sp1) \<longrightarrow> f' b = ?f1 b"
    using Cons.IH[OF m1(2) Cons.prems(2,3) c] by blast
  have s2: "strings_at f' (unat sp') (unat sp) as vs" by (rule strings_at_cong[OF ih(3)]) (use pl(2) in simp_all)
  have "strings_at f' (unat sp') (unat sp) (a # as) (sp1 # vs)"
    unfolding strings_at_def
  proof (intro conjI allI impI)
    show "length (sp1 # vs) = length (a # as)" using s2 unfolding strings_at_def by simp
    fix n assume n: "n < length (a # as)"
    show "unat sp' \<le> unat ((sp1 # vs) ! n)" "unat ((sp1 # vs) ! n) + length ((a # as) ! n) < unat sp"
      using s2 n ih(5) pl(2) unfolding strings_at_def by (cases n; simp)+
    fix j assume j: "j \<le> length ((a # as) ! n)"
    show "f' (unat ((sp1 # vs) ! n) + j) = Some (((a # as) ! n @ [0]) ! j)"
    proof (cases n)
      case 0
      then have "f' (unat sp1 + j) = ?f1 (unat sp1 + j)" using ih(6) by simp
      then show ?thesis using 0 j by simp
    next
      case (Suc n')
      then show ?thesis using s2 n j unfolding strings_at_def by simp
    qed
  qed
  moreover have "f' b = f b" if "\<not> (unat sp' \<le> b \<and> b < unat sp)" for b
  proof -
    have "f' b = ?f1 b" using ih(6) that pl(2) ih(5) by auto
    then show ?thesis using that pl(2) ih(5) by (auto split: if_splits)
  qed
  moreover have "unat sp - need (a # as) \<le> unat sp'" using ih(4) pl(3) by simp
  ultimately show ?case using st ih(1,2,5) pl(2)
    by (intro exI[of _ sp'] exI[of _ "sp1 # vs"] exI[of _ m'] exI[of _ f']) simp
qed

text \<open>\<open>clearpteu\<close> closes one page to the user and changes nothing else.\<close>

lemma PTE_U_cleared: "(e AND NOT PTE_U) AND PTE_P = e AND PTE_P" "PTE_ADDR (e AND NOT PTE_U) = PTE_ADDR e" "(e AND NOT PTE_U) AND PTE_U = 0"
proof -
  have m: "(4 :: u32) = push_bit 2 1" "(1 :: u32) = mask 1" by (simp_all add: mask_eq_exp_minus_1)
  have b4: "bit (4 :: u32) n \<longleftrightarrow> n = 2" for n
    by (subst m(1), simp only: bit_push_bit_iff bit_1_iff) auto
  show "(e AND NOT PTE_U) AND PTE_P = e AND PTE_P" unfolding m by (rule bit_word_eqI) (auto simp: bit_simps)
  show "PTE_ADDR (e AND NOT PTE_U) = PTE_ADDR e" unfolding PTE_ADDR_def mask12 by (rule bit_word_eqI, simp only: bit_and_iff bit_not_iff bit_mask_iff b4, auto)
  show "(e AND NOT PTE_U) AND PTE_U = 0" by (simp only: and.assoc bit.conj_cancel_left bit.conj_zero_right)
qed

lemma image_clearpteu:
  assumes i: "image d m0 R kp G f sz m xs" and g: "g < npages (unat sz)"
  shows "\<exists>m'. clearpteu d (g * PGSIZE) m = Inr m' \<and> image d m0 R kp (insert g G) f sz m' xs"
proof -
  note p = imageD(2)[OF i]
  note s = spareD[OF imageD(1)[OF i]]
  have gu: "g < UPAGES" "g < 2 ^ 20" using g proc_memD(3)[OF p] by simp_all
  obtain pf where pf: "fr m d g = Some pf" using proc_memD(4)[OF p gu(1)] g by auto
  obtain t where t: "tab m d (g div 1024) = Some t" using fr_tab[OF pf] by blast
  have td: "t \<in> tabs m d" using tabsI[OF _ t] gu(2) by simp
  define m' where "m' = set_pte (t, g mod 1024) (get_pte (t, g mod 1024) m AND NOT PTE_U) m"
  note sp = set_pte_ok[OF spaceD(1)[OF s(1)] gu(2) t, where e = "get_pte (t, g mod 1024) m AND NOT PTE_U", folded m'_def]
  have ge: "get_pte (t, g mod 1024) m = pte m d g" by (rule get_pte_tab[OF t])
  have pt: "pte m' d k = (if k = g then pte m d g AND NOT PTE_U else pte m d k)" if "k < 2 ^ 20" for k using sp(3)[OF that] unfolding ge .
  have frk: "fr m' d k = fr m d k" if "k < 2 ^ 20" for k
  proof (cases "k = g")
    case True
    have "pte m' d g = pte m d g AND NOT PTE_U" using pt[OF gu(2)] by simp
    then show ?thesis unfolding True fr_def by (simp only: PTE_U_cleared)
  next
    case False
    then have "pte m' d k = pte m d k" using pt[OF that] by simp
    then show ?thesis by (rule fr_cong)
  qed
  have fms: "frames m' d = frames m d" by (rule frames_cong) (simp add: frk)
  have ts: "tabs m' d = tabs m d" unfolding tabs_def sp(2) ..
  have ow: "own m' d = own m d" unfolding own_def fms ts ..
  have gr: "clean d m' xs" "kend m' = kend m" "kdata m' = kdata m" using sp(1) unfolding grow_def by blast+
  have spc: "space d m' xs" unfolding space_def fms ts valid_page_cong[OF gr(2)]
  proof (intro conjI)
    show "frames m d \<inter> (insert d (tabs m d) \<union> set xs) = {}" using spaceD(3-5)[OF s(1)] by blast
    show "\<forall>i < UPAGES. \<forall>j < UPAGES. \<forall>f. fr m' d i = Some f \<and> fr m' d j = Some f \<longrightarrow> i = j" using spaceD(6)[OF s(1)] frk by auto
    show "\<forall>f \<in> frames m d. valid_page m f" using spaceD(2)[OF s(1)] by blast
  qed (rule gr(1))
  have rt: "ram m' q = ram m q" if "q \<noteq> t" for q by (rule sp(4)[OF that])
  have tR: "t \<in> R" using td s(2) by (auto simp: own_def)
  have rm: "ram m' q = ram m0 q" if q: "q \<notin> R" for q
  proof -
    have "q \<noteq> t" using q tR by blast
    then show ?thesis using rt s(3)[OF q] by simp
  qed
  have "spare d m0 R m' xs" unfolding spare_def ow using spc s(2,4,5) gr(2,3) rm by simp
  moreover have "proc_mem d m' sz xs" using p spc gr(2) frk unfolding proc_mem_def by simp
  moreover have "pte m' d k = kp k" if k: "UPAGES \<le> k" "k < 2 ^ 20" for k
    using pt[OF k(2)] imageD(3)[OF i k] gu(1) k(1) by simp
  moreover have "k < npages (unat sz) \<and> pte m' d k AND PTE_U = 0" if k: "k \<in> insert g G" for k
  proof -
    have kn: "k < npages (unat sz)" using imageD(6)[OF i, of k] k g by auto
    then have k20: "k < 2 ^ 20" using proc_memD(3)[OF p] by simp
    show ?thesis
    proof (cases "k = g")
      case True
      then show ?thesis using pt[OF k20] PTE_U_cleared(3) kn by simp
    next
      case False
      then have "k \<in> G" using k by blast
      then show ?thesis using pt[OF k20] False imageD(7)[OF i, of k] kn by simp
    qed
  qed
  moreover have "user_page m' d k" if k: "k < npages (unat sz)" "k \<notin> insert g G" for k
  proof -
    have "k < 2 ^ 20" using k(1) proc_memD(3)[OF p] by simp
    then show ?thesis using user_page_flags[OF imageD(4)[OF i k(1)]] pt k(2) by simp
  qed
  moreover have "uread m' d a = f a" if a: "a < UPAGES * PGSIZE" for a
  proof -
    note n = user_page_no(1)[OF a]
    have "uread m' d a = uread m d a"
    proof (rule uread_cong)
      show "fr m' d (a div PGSIZE) = fr m d (a div PGSIZE)" by (rule frk[OF user_page_no(2)[OF n]])
      fix q assume "fr m d (a div PGSIZE) = Some q"
      then have "q \<notin> tabs m d" using spaceD(4)[OF s(1)] framesI[OF n] by blast
      then show "ram m' q = ram m q" using rt td by metis
    qed
    then show ?thesis using imageD(5)[OF i a] by simp
  qed
  ultimately have im: "image d m0 R kp (insert g G) f sz m' xs" unfolding image_def by blast
  have "clearpteu d (g * PGSIZE) m = Inr m'" unfolding clearpteu_def walk_find[OF gu(2)] t m'_def by simp
  then show ?thesis using im by blast
qed

lemma small_unat: "n < 2 ^ 32 \<Longrightarrow> unat (of_nat n :: u32) = n"
  by (simp add: unat_of_nat)

lemma length_frame_bytes: "length (concat (map word_bytes ws)) = 4 * length ws"
  by (induction ws) (simp_all add: word_bytes_def)

text \<open>The stack of a program about to start: what \<open>main (argc, argv)\<close> reads.\<close>

definition stack_ok :: "(nat \<Rightarrow> byte option) \<Rightarrow> byte list list \<Rightarrow> u32 \<Rightarrow> nat \<Rightarrow> bool" where
  "stack_ok f argv sp hi \<longleftrightarrow>
     (\<exists>us. let bs = concat (map word_bytes ([0xFFFFFFFF, of_nat (length argv), sp + 12] @ us @ [0]))
       in unat sp + length bs \<le> hi \<and> (\<forall>j < length bs. f (unat sp + j) = Some (bs ! j)) \<and> strings_at f (unat sp + length bs) hi argv us)"

lemma stack_ok_cong:
  assumes "stack_ok f argv sp hi" "\<And>a. a < hi \<Longrightarrow> f' a = f a"
  shows "stack_ok f' argv sp hi"
proof -
  obtain us where u: "let bs = concat (map word_bytes ([0xFFFFFFFF, of_nat (length argv), sp + 12] @ us @ [0]))
       in unat sp + length bs \<le> hi \<and> (\<forall>j < length bs. f (unat sp + j) = Some (bs ! j)) \<and> strings_at f (unat sp + length bs) hi argv us"
    using assms(1) unfolding stack_ok_def by blast
  define bs where "bs = concat (map word_bytes ([0xFFFFFFFF, of_nat (length argv), sp + 12] @ us @ [0]))"
  have b: "unat sp + length bs \<le> hi" "\<forall>j < length bs. f (unat sp + j) = Some (bs ! j)" "strings_at f (unat sp + length bs) hi argv us"
    using u unfolding bs_def[symmetric] Let_def by blast+
  have "strings_at f' (unat sp + length bs) hi argv us" by (rule strings_at_cong[OF b(3)]) (simp_all add: assms(2))
  then have "let bs = concat (map word_bytes ([0xFFFFFFFF, of_nat (length argv), sp + 12] @ us @ [0]))
       in unat sp + length bs \<le> hi \<and> (\<forall>j < length bs. f' (unat sp + j) = Some (bs ! j)) \<and> strings_at f' (unat sp + length bs) hi argv us"
    unfolding bs_def[symmetric] Let_def using b(1,2) assms(2) by simp
  then show ?thesis unfolding stack_ok_def by blast
qed

lemma build_stack_ok:
  assumes i: "image d m0 R kp {} f sz m xs" and szk: "unat sz < unat KERNBASE"
    and na: "length argv \<le> MAXARG" "need argv + 4 * (4 + length argv) \<le> PGSIZE"
  shows "\<exists>r m' ys. build_stack d sz argv m = Inr (r, m') \<and> spare d m0 R m' ys \<and>
    (case r of None \<Rightarrow> unat KERNBASE \<le> (npages (unat sz) + 2) * PGSIZE \<or> card R \<le> 1025 + (npages (unat sz) + 2)
     | Some (sz2, sp) \<Rightarrow> unat sz2 = (npages (unat sz) + 2) * PGSIZE \<and> (npages (unat sz) + 1) * PGSIZE \<le> unat sp \<and>
         (\<exists>f2. image d m0 R kp {npages (unat sz)} f2 sz2 m' ys \<and>
           (\<forall>a < npages (unat sz) * PGSIZE. f2 a = f a) \<and> stack_ok f2 argv sp (unat sz2)))"
proof -
  define N where "N = npages (unat sz)"
  let ?n = "(N + 2) * PGSIZE"
  have pr: "PGROUNDUP (unat sz) = N * PGSIZE" "N * PGSIZE + 2 * PGSIZE = ?n" by (simp_all add: PGROUNDUP_npages N_def)
  have NU: "N \<le> UPAGES" unfolding N_def by (rule npages_user[OF szk])
  have u0: "unat (of_nat (N * PGSIZE) :: u32) = N * PGSIZE" by (rule small_unat) (use NU in simp)
  note p = imageD(2)[OF i]
  have N2: "npages (N * PGSIZE) = N" by (rule npages_simps(2))
  have NP: "N * PGSIZE \<le> UPAGES * PGSIZE" using NU by simp
  have "of_nat (N * PGSIZE) \<le> KERNBASE" unfolding word_le_nat_alt u0 using NP by simp
  then have i0: "image d m0 R kp {} f (of_nat (N * PGSIZE)) m xs"
    using i unfolding image_def proc_mem_def u0 N2 N_def[symmetric] by blast
  show ?thesis
  proof (cases "unat KERNBASE \<le> ?n")
    case True
    then have "build_stack d sz argv m = Inr (None, m)" unfolding build_stack_def pr Let_def allocuvm_def by simp
    then show ?thesis using imageD(1)[OF i] True by (intro exI[of _ None] exI[of _ m] exI[of _ xs]) (simp add: N_def)
  next
    case False
    then have nk: "?n < unat KERNBASE" by simp
    have le: "unat (of_nat (N * PGSIZE) :: u32) \<le> ?n" unfolding u0 by simp
    have un: "unat (of_nat ?n :: u32) = ?n" by (rule small_unat) (use nk in simp)
    have Nn: "npages ?n = N + 2" by (rule npages_simps(2))
    let ?f1 = "\<lambda>a. if npages (unat (of_nat (N * PGSIZE) :: u32)) * PGSIZE \<le> a \<and> a < npages ?n * PGSIZE then Some 0 else f a"
    obtain r m1 ys where r: "allocuvm d (N * PGSIZE) ?n m = Inr (r, m1)" and
      br: "r = ?n \<and> image d m0 R kp {} ?f1 (of_nat ?n) m1 ys \<or> r = 0 \<and> spare d m0 R m1 ys \<and> card R \<le> 1025 + npages ?n"
      using image_grow[OF i0 le nk] unfolding u0 by blast
    have bs: "build_stack d sz argv m = (if r = 0 then Inr (None, m1)
           else kbind (clearpteu d (r - 2 * PGSIZE) m1) (\<lambda>m2.
                kbind (push_args d argv (of_nat r) [] m2) (\<lambda>(r', m3).
                  case r' of
                    None \<Rightarrow> Inr (None, m3)
                  | Some (sp, us) \<Rightarrow>
                      let sp1 = sp - (4 + of_nat (length us)) * 4
                      in kbind (copyout d (unat sp1) (concat (map word_bytes (frame sp us))) m3) (\<lambda>(r', m4).
                           Inr (if r' < 0 then None else Some (of_nat r, sp1), m4)))))"
      unfolding build_stack_def Let_def pr r kbind_simps prod.case ..
    from br show ?thesis
    proof (elim disjE conjE)
      assume "r = 0" "spare d m0 R m1 ys" "card R \<le> 1025 + npages ?n"
      then show ?thesis using bs Nn by (intro exI[of _ None] exI[of _ m1] exI[of _ ys]) (simp add: N_def)
    next
      assume rn: "r = ?n" and i1: "image d m0 R kp {} ?f1 (of_nat ?n) m1 ys"
      have r0: "r \<noteq> 0" "r - 2 * PGSIZE = N * PGSIZE" using rn by simp_all
      have gN: "N < npages (unat (of_nat ?n :: u32))" "N + 1 < npages (unat (of_nat ?n :: u32))" unfolding un Nn by simp_all
      obtain m2 where m2: "clearpteu d (N * PGSIZE) m1 = Inr m2" "image d m0 R kp {N} ?f1 (of_nat ?n) m2 ys"
        using image_clearpteu[OF i1 gN(1)] by auto
      have g: "N + 1 \<notin> {N}" by simp
      have c: "unat (of_nat ?n :: u32) \<le> (N + 1) * PGSIZE + PGSIZE" "(N + 1) * PGSIZE + need argv \<le> unat (of_nat ?n :: u32)"
        "length ([] :: u32 list) + length argv \<le> MAXARG" unfolding un using na by simp_all
      obtain sp vs m3 f3 where pa: "push_args d argv (of_nat ?n) [] m2 = Inr (Some (sp, [] @ vs), m3)" "image d m0 R kp {N} f3 (of_nat ?n) m3 ys"
        "strings_at f3 (unat sp) (unat (of_nat ?n :: u32)) argv vs" "unat (of_nat ?n :: u32) - need argv \<le> unat sp" "unat sp \<le> unat (of_nat ?n :: u32)"
        "\<forall>a. \<not> (unat sp \<le> a \<and> a < unat (of_nat ?n :: u32)) \<longrightarrow> f3 a = ?f1 a"
        using push_args_ok[OF m2(2) gN(2) g c] by blast
      have lv: "length vs = length argv" using pa(3) unfolding strings_at_def by blast
      define sp1 where "sp1 = sp - (4 + of_nat (length vs)) * 4"
      define bs where "bs = concat (map word_bytes (frame sp vs))"
      have lb: "length bs = 4 * (4 + length argv)" unfolding bs_def length_frame_bytes by (simp add: frame_def lv)
      have spl: "(N + 1) * PGSIZE + 4 * (4 + length argv) \<le> unat sp" using pa(4) na(2) unfolding un by simp
      have us: "unat sp1 + length bs = unat sp"
      proof -
        have e: "((4 + of_nat (length vs)) * 4 :: u32) = of_nat (length bs)" by (simp add: lb lv)
        have "unat (of_nat (length bs) :: u32) = length bs" by (rule small_unat) (use lb na(1) in simp)
        then have "unat sp1 = unat sp - length bs" unfolding sp1_def e
          by (subst unat_sub) (use spl lb in \<open>simp_all add: word_le_nat_alt\<close>)
        then show ?thesis using spl lb by linarith
      qed
      have w: "(N + 1) * PGSIZE \<le> unat sp1" "unat sp1 + length bs \<le> (N + 1) * PGSIZE + PGSIZE" using us spl lb pa(5) unfolding un by simp_all
      obtain m4 where m4: "copyout d (unat sp1) bs m3 = Inr (0, m4)"
        "image d m0 R kp {N} (\<lambda>a. if unat sp1 \<le> a \<and> a < unat sp1 + length bs then Some (bs ! (a - unat sp1)) else f3 a) (of_nat ?n) m4 ys"
        using image_copyout[OF pa(2) gN(2) g w] by blast
      let ?f4 = "\<lambda>a. if unat sp1 \<le> a \<and> a < unat sp1 + length bs then Some (bs ! (a - unat sp1)) else f3 a"
      have eq: "build_stack d sz argv m = Inr (Some (of_nat ?n, sp1), m4)"
        unfolding bs if_not_P[OF r0(1)] r0(2) m2(1) unfolding rn kbind_simps pa(1) append_Nil prod.case option.case Let_def sp1_def[symmetric] bs_def[symmetric] m4(1)
        by simp
      have "stack_ok ?f4 argv sp1 ?n" unfolding stack_ok_def
      proof (intro exI[of _ vs])
        have s12: "sp - (of_nat (length vs) + 1) * 4 = sp1 + 12" unfolding sp1_def by (simp add: algebra_simps)
        have b2: "concat (map word_bytes ([0xFFFFFFFF, of_nat (length argv), sp1 + 12] @ vs @ [0])) = bs"
          unfolding bs_def frame_def lv s12[unfolded lv] ..
        have "strings_at ?f4 (unat sp1 + length bs) ?n argv vs"
          by (rule strings_at_cong[OF pa(3)]) (use us un in simp_all)
        then show "let bs = concat (map word_bytes ([0xFFFFFFFF, of_nat (length argv), sp1 + 12] @ vs @ [0]))
          in unat sp1 + length bs \<le> ?n \<and> (\<forall>j < length bs. ?f4 (unat sp1 + j) = Some (bs ! j)) \<and> strings_at ?f4 (unat sp1 + length bs) ?n argv vs"
          unfolding b2 Let_def using us pa(5) unfolding un by simp
      qed
      moreover have "?f4 a = f a" if a: "a < N * PGSIZE" for a
      proof -
        have c1: "\<not> (unat sp1 \<le> a \<and> a < unat sp1 + length bs)" using a w(1) by simp
        have c2: "\<not> (npages (unat (of_nat (N * PGSIZE) :: u32)) * PGSIZE \<le> a \<and> a < npages ?n * PGSIZE)" unfolding u0 N2 using a by simp
        have "\<not> (unat sp \<le> a \<and> a < unat (of_nat ?n :: u32))" using a spl by simp
        then have "f3 a = ?f1 a" using pa(6) by blast
        then show ?thesis unfolding if_not_P[OF c1] if_not_P[OF c2] .
      qed
      ultimately show ?thesis using eq m4(2) imageD(1)[OF m4(2)] w(1) un
        by (intro exI[of _ "Some (of_nat ?n, sp1)"] exI[of _ m4] exI[of _ ys]) (auto simp: N_def)
    qed
  qed
qed

section \<open>The image\<close>

text \<open>What an executable file describes: entry point, size, memory, and whether its segments lie inside the file.\<close>

definition elf_image :: "byte list \<Rightarrow> (u32 \<times> nat \<times> (nat \<Rightarrow> byte option) \<times> bool) option" where
  "elf_image c =
     (if length c < elf_size \<or> elf_magic c \<noteq> ELF_MAGIC then None
      else map_option (\<lambda>(sz, f, ok). (elf_entry c, sz, f, ok)) (segments c (elf_phnum c) (elf_phoff c) 0 (\<lambda>_. None) True))"

lemma elf_take:
  "elf_size \<le> length c \<Longrightarrow> elf_magic (take elf_size c) = elf_magic c" "elf_size \<le> length c \<Longrightarrow> elf_entry (take elf_size c) = elf_entry c"
  "elf_size \<le> length c \<Longrightarrow> elf_phoff (take elf_size c) = elf_phoff c" "elf_size \<le> length c \<Longrightarrow> elf_phnum (take elf_size c) = elf_phnum c"
  by (simp_all add: elf_magic_def elf_entry_def elf_phoff_def elf_phnum_def get32_def get16_def)

definition kpart :: "u32 \<Rightarrow> (nat \<Rightarrow> u32) \<Rightarrow> mem \<Rightarrow> bool" where
  "kpart d kp m \<longleftrightarrow> (\<forall>m'. (\<forall>k. UPAGES \<le> k \<and> k < 2 ^ 20 \<longrightarrow> pte m' d k = kp k) \<longrightarrow> kmapped m' d (kmap m))"

lemma load_image_ok:
  assumes f: "free_ok m xs" and sy: "sym_ok m" and c: "file_is s ip c"
  shows "\<exists>D r m' ys. load_image stk ip s m = Inr (D, r, s, m') \<and> kend m' = kend m \<and> kdata m' = kdata m \<and> (\<forall>p. p \<notin> set xs \<longrightarrow> ram m' p = ram m p) \<and>
    free_ok m' ys \<and> set ys \<subseteq> set xs \<and> (case D of None \<Rightarrow> r = None | Some d \<Rightarrow> spare d m (set xs) m' ys) \<and>
    (case r of None \<Rightarrow> \<forall>e sz g. elf_image c = Some (e, sz, g, True) \<longrightarrow> card (set xs) \<le> 1025 + npages sz
     | Some (e, sz) \<Rightarrow> \<exists>d g ok kp. D = Some d \<and> elf_image c = Some (e, unat sz, g, ok) \<and> unat sz < unat KERNBASE \<and>
         image d m (set xs) kp {} g sz m' ys \<and> kpart d kp m)"
proof -
  let ?goal = "\<lambda>D r m' ys. load_image stk ip s m = Inr (D, r, s, m') \<and> kend m' = kend m \<and> kdata m' = kdata m \<and> (\<forall>p. p \<notin> set xs \<longrightarrow> ram m' p = ram m p) \<and>
    free_ok m' ys \<and> set ys \<subseteq> set xs \<and> (case D of None \<Rightarrow> r = None | Some d \<Rightarrow> spare d m (set xs) m' ys) \<and>
    (case r of None \<Rightarrow> \<forall>e sz g. elf_image c = Some (e, sz, g, True) \<longrightarrow> card (set xs) \<le> 1025 + npages sz
     | Some (e, sz) \<Rightarrow> \<exists>d g ok kp. D = Some d \<and> elf_image c = Some (e, unat sz, g, ok) \<and> unat sz < unat KERNBASE \<and>
         image d m (set xs) kp {} g sz m' ys \<and> kpart d kp m)"
  have rd: "readi ip 0 elf_size s = Inr (int (length (take elf_size c)), take elf_size c, s)"
    using c unfolding file_is_def by simp
  have cmp: "((of_int (int (length (take elf_size c))) :: u32) < of_nat elf_size) \<longleftrightarrow> length c < elf_size"
  proof (cases "length c < elf_size")
    case True
    then show ?thesis by (simp add: word_less_nat_alt unat_of_nat)
  next
    case False
    then have "length (take elf_size c) = elf_size" by simp
    then show ?thesis using False by simp
  qed
  show ?thesis
  proof (cases "length c < elf_size \<or> elf_magic c \<noteq> ELF_MAGIC")
    case True
    then have "elf_image c = None" by (simp add: elf_image_def)
    moreover have "load_image stk ip s m = Inr (None, None, s, m)"
    proof (cases "length c < elf_size")
      case True
      then show ?thesis unfolding load_image_def rd kbind_simps prod.case Let_def cmp by simp
    next
      case False
      then have "elf_size \<le> length c" "take elf_size c @ drop (length (take elf_size c)) stk = take elf_size c @ drop elf_size stk" by simp_all
      moreover have "elf_magic (take elf_size c @ drop elf_size stk) = elf_magic c" using False by (simp add: elf_magic_def get32_def nth_append)
      ultimately show ?thesis using True False unfolding load_image_def rd kbind_simps prod.case Let_def cmp by simp
    qed
    ultimately show ?thesis using f by (intro exI[of _ None] exI[of _ None] exI[of _ m] exI[of _ xs]) simp
  next
    case h: False
    then have l: "\<not> length c < elf_size" "elf_size \<le> length c" and mg: "elf_magic c = ELF_MAGIC" by simp_all
    let ?e = "take elf_size c @ drop (length (take elf_size c)) stk"
    have fe: "elf_magic ?e = ELF_MAGIC" "elf_entry ?e = elf_entry c" "elf_phoff ?e = elf_phoff c" "elf_phnum ?e = elf_phnum c"
      using l(2) mg by (simp_all add: elf_magic_def elf_entry_def elf_phoff_def elf_phnum_def get32_def get16_def nth_append)
    have mN: "\<not> elf_magic ?e \<noteq> ELF_MAGIC" using fe(1) by blast
    have li: "load_image stk ip s m = kbind (setupkvm m) (\<lambda>(d, m1).
         case d of None \<Rightarrow> Inr (None, None, s, m1)
         | Some pgdir \<Rightarrow> kbind (load_segs ip pgdir (elf_phnum c) (elf_phoff c) 0 s m1) (\<lambda>(r, s2, m2).
             Inr (Some pgdir, map_option (\<lambda>sz. (elf_entry c, sz)) r, s2, m2)))"
      unfolding load_image_def rd kbind_simps prod.case Let_def cmp if_not_P[OF l(1)] if_not_P[OF mN] fe(2-4) ..
    have ei: "elf_image c = map_option (\<lambda>(sz, f, ok). (elf_entry c, sz, f, ok)) (segments c (elf_phnum c) (elf_phoff c) 0 (\<lambda>_. None) True)"
      unfolding elf_image_def if_not_P[OF h] ..
    obtain r1 m1 ys where 1: "setupkvm m = Inr (r1, m1)" "free_ok m1 ys" "\<exists>zs. xs = zs @ ys" "\<forall>p. p \<notin> set xs \<longrightarrow> ram m1 p = ram m p"
      "kend m1 = kend m" "kdata m1 = kdata m" and
      br: "case r1 of None \<Rightarrow> ys = [] \<and> length xs \<le> 1025
       | Some d \<Rightarrow> space d m1 ys \<and> own m1 d \<union> set ys = set xs \<and> d \<in> set xs \<and> (\<forall>n < UPAGES. pte m1 d n = 0) \<and> kmapped m1 d (kmap m) \<and>
           (1025 < length xs \<longrightarrow> 1024 < length ys + card (tabs m1 d))"
      using setupkvm_ok[OF f sy] by blast
    show ?thesis
    proof (cases r1)
      case None
      then have "load_image stk ip s m = Inr (None, None, s, m1)" using li 1(1) by simp
      moreover have "card (set xs) \<le> 1025" using br None card_length[of xs] by simp
      ultimately show ?thesis using 1 br None by (intro exI[of _ None] exI[of _ None] exI[of _ m1] exI[of _ "[]"]) simp
    next
      case (Some d)
      then have b: "space d m1 ys" "own m1 d \<union> set ys = set xs" "\<forall>n < UPAGES. pte m1 d n = 0" "kmapped m1 d (kmap m)" using br by simp_all
      have fr0: "fr m1 d k = None" if "k < UPAGES" for k using that b(3) by (simp add: fr_def)
      have n0: "npages (unat (0 :: u32)) = 0" by simp
      have ke: "KERNBASE < kend m1" using sy 1(5) unfolding sym_ok_def by simp
      have i0: "image d m (set xs) (pte m1 d) {} (\<lambda>_. None) 0 m1 ys"
        unfolding image_def spare_def proc_mem_def n0 using b(1,2) 1(4-6) ke fr0 user_page_no(1) by (simp add: uread_def)
      have z: "unat (0 :: u32) < unat KERNBASE" by simp
      obtain r m2 zs where 2: "load_segs ip d (elf_phnum c) (elf_phoff c) 0 s m1 = Inr (r, s, m2)" "spare d m (set xs) m2 zs" and
        br2: "case r of Some sz' \<Rightarrow> unat sz' < unat KERNBASE \<and> (\<exists>f' ok'. segments c (elf_phnum c) (elf_phoff c) (unat (0 :: u32)) (\<lambda>_. None) True = Some (unat sz', f', ok') \<and>
            image d m (set xs) (pte m1 d) {} f' sz' m2 zs)
         | None \<Rightarrow> \<forall>sz' f'. segments c (elf_phnum c) (elf_phoff c) (unat (0 :: u32)) (\<lambda>_. None) True = Some (sz', f', True) \<longrightarrow> card (set xs) \<le> 1025 + npages sz'"
        using load_segs_ok[OF i0 c z, where n = "elf_phnum c" and off = "elf_phoff c" and ok = True] by blast
      note sp = spareD[OF 2(2)]
      have eq: "load_image stk ip s m = Inr (Some d, map_option (\<lambda>sz. (elf_entry c, sz)) r, s, m2)" using li 1(1) 2(1) Some by simp
      have sub: "free_ok m2 zs" "set zs \<subseteq> set xs" using cleanD(1)[OF spaceD(1)[OF sp(1)]] sp(2) by auto
      have "ranges_ok UPAGES (kmap m)" using kmap_ranges[OF sy] by simp
      then have kp: "kpart d (pte m1 d) m" unfolding kpart_def using kmapped_cong b(4) by blast
      show ?thesis
      proof (cases r)
        case None
        then have "\<forall>e sz g. elf_image c = Some (e, sz, g, True) \<longrightarrow> card (set xs) \<le> 1025 + npages sz" using br2 unfolding ei by auto
        then show ?thesis using eq sp sub None 2(2) by (intro exI[of _ "Some d"] exI[of _ None] exI[of _ m2] exI[of _ zs]) simp
      next
        case (Some sz)
        then obtain g ok where g: "unat sz < unat KERNBASE" "segments c (elf_phnum c) (elf_phoff c) 0 (\<lambda>_. None) True = Some (unat sz, g, ok)"
          "image d m (set xs) (pte m1 d) {} g sz m2 zs" using br2 by auto
        have "elf_image c = Some (elf_entry c, unat sz, g, ok)" unfolding ei g(2) by simp
        then show ?thesis using eq sp sub Some 2(2) g(1,3) kp
          by (intro exI[of _ "Some d"] exI[of _ "Some (elf_entry c, sz)"] exI[of _ m2] exI[of _ zs]) auto
      qed
    qed
  qed
qed

section \<open>exec\<close>

text \<open>What \<open>exec\<close> stores in the process.\<close>

definition started :: "byte list \<Rightarrow> u32 \<Rightarrow> u32 \<Rightarrow> u32 \<Rightarrow> u32 \<Rightarrow> proc \<Rightarrow> proc" where
  "started path d sz epc sp p =
     p\<lparr>p_name := set_name (p_name p) (last_elem path path), p_pgdir := Some (unat d), p_sz := sz, p_tf := (p_tf p)\<lparr>tf_eip := epc, tf_esp := sp\<rparr>\<rparr>"

lemma spare_freed:
  assumes sp: "spare d m (set xs) m1 ys" and b: "KERNBASE < kend m" and s: "space d0 m xs"
  shows "\<exists>m2 zs. freevm d m1 = Inr m2 \<and> space d0 m2 zs \<and> (\<forall>a < UPAGES * PGSIZE. uread m2 d0 a = uread m d0 a) \<and> set zs = set xs"
proof -
  note p = spareD[OF sp]
  have b1: "KERNBASE < kend m1" using b p(4) by simp
  obtain m2 zs where f: "freevm d m1 = Inr m2" "free_ok m2 zs" "set zs = own m1 d \<union> set ys" "\<forall>p. p \<notin> own m1 d \<longrightarrow> ram m2 p = ram m1 p" "kend m2 = kend m1"
    using freevm_ok[OF p(1) b1] by blast
  have "own m1 d \<subseteq> set xs" using p(2) by blast
  then have r: "\<forall>q. q \<notin> set xs \<longrightarrow> ram m2 q = ram m q" using f(4) p(3) by (metis subset_iff)
  have k: "kend m2 = kend m" "set zs \<subseteq> set xs" using f(3,5) p(2,4) by simp_all
  show ?thesis using space_kept[OF s r k(1) f(2) k(2)] f(1,3) p(2) by blast
qed

lemma replaced:
  assumes i: "image d m (set xs) kp G f sz m1 ys" and b: "KERNBASE < kend m" and s: "space d0 m xs"
  shows "\<exists>m2 zs. freevm d0 m1 = Inr m2 \<and> space d m2 zs \<and> own m2 d \<union> set zs = own m d0 \<union> set xs \<and>
    (\<forall>a < UPAGES * PGSIZE. uread m2 d a = f a) \<and> (\<forall>k < 2 ^ 20. pte m2 d k = pte m1 d k) \<and> kdata m2 = kdata m"
proof -
  note p = spareD[OF imageD(1)[OF i]]
  have b1: "KERNBASE < kend m1" using b p(4) by simp
  have r: "\<forall>q. q \<notin> set xs \<longrightarrow> ram m1 q = ram m q" using p(3) by blast
  have y: "free_ok m1 ys" "set ys \<subseteq> set xs" using cleanD(1)[OF spaceD(1)[OF p(1)]] p(2) by auto
  have s1: "space d0 m1 ys" "own m1 d0 = own m d0" using space_kept[OF s r p(4) y] by blast+
  have dj: "own m1 d \<inter> own m1 d0 = {}" using p(2) space_own[OF s] s1(2) by blast
  obtain m2 zs where f: "freevm d0 m1 = Inr m2" "free_ok m2 zs" "set zs = own m1 d0 \<union> set ys" "\<forall>p. p \<notin> own m1 d0 \<longrightarrow> ram m2 p = ram m1 p" "kend m2 = kend m1" "kdata m2 = kdata m1"
    using freevm_ok[OF s1(1) b1] by blast
  have o: "space d m2 zs \<and> (\<forall>a < UPAGES * PGSIZE. uread m2 d a = uread m1 d a) \<and> own m2 d = own m1 d \<and>
    (\<forall>k < 2 ^ 20. pte m2 d k = pte m1 d k \<and> fr m2 d k = fr m1 d k)"
    by (rule other_space[OF p(1) dj f(4,5,2,3)])
  have "own m2 d \<union> set zs = own m d0 \<union> set xs" using o f(3) p(2) s1(2) by blast
  moreover have "\<forall>a < UPAGES * PGSIZE. uread m2 d a = f a" using o imageD(5)[OF i] by simp
  ultimately show ?thesis using f(1,6) o p(5) by auto
qed

text \<open>
  C8: \<open>exec\<close> of a regular file either fails with -1, or starts the program. On failure the process, its
  memory and its registers are as before; it fails only if the file is no sound executable or there are too
  few pages. On success the new space holds the segments the file describes, a page closed to the
  program above them, and the arguments as \<open>main\<close> reads them; entry point and stack pointer are
  set, and the pages of the old space are free again.
\<close>

theorem exec_correct:
  assumes "do_fs fs_begin_op k = Inr k0" "in_fs (namei (cwd_of me k0) path) k0 = Inr (Some ip, k1)" "do_fs (ilock ip) k1 = Inr k2"
    "do_fs (iunlockput ip) k2 = Inr k4" "do_fs fs_end_op k4 = Inr k5"
    "fsb_ok (fs k2)" "inode_ok (fs k2) (icache (fs k2) ! ip)" "i_type (icache (fs k2) ! ip) \<noteq> T_DEV"
    "p_pgdir (ptable k5 ! me) = Some (unat d0)" "space d0 m xs" "sym_ok m"
    "length argv \<le> MAXARG" "need argv + 4 * (4 + length argv) \<le> PGSIZE"
  shows "\<exists>r k' m' ys. exec stk me path argv k m = Inr (r, k', m') \<and>
    (r = -1 \<and> k' = k5 \<and> space d0 m' ys \<and> (\<forall>a < UPAGES * PGSIZE. uread m' d0 a = uread m d0 a) \<and>
       (\<forall>e sz f. elf_image (contents (blocks (fs k2)) (icache (fs k2) ! ip)) = Some (e, sz, f, True) \<longrightarrow>
          unat KERNBASE \<le> (npages sz + 2) * PGSIZE \<or> length xs \<le> 1025 + (npages sz + 2)) \<or>
     r = 0 \<and> (\<exists>e sz f ok d sz2 sp. elf_image (contents (blocks (fs k2)) (icache (fs k2) ! ip)) = Some (e, sz, f, ok) \<and>
       k' = upd_proc me (started path d sz2 e sp) k5 \<and> space d m' ys \<and> own m' d \<union> set ys = own m d0 \<union> set xs \<and> kmapped m' d (kmap m) \<and>
       unat sz2 = (npages sz + 2) * PGSIZE \<and> pte m' d (npages sz) AND PTE_U = 0 \<and>
       (\<forall>a < npages sz * PGSIZE. uread m' d a = f a) \<and> stack_ok (uread m' d) argv sp (unat sz2)))"
proof -
  let ?c = "contents (blocks (fs k2)) (icache (fs k2) ! ip)"
  have c: "file_is (fs k2) ip ?c" by (rule file_is_contents[OF assms(6-8)])
  note s = assms(10)
  have b: "KERNBASE < kend m" using assms(11) unfolding sym_ok_def by blast
  have fo: "free_ok m xs" by (rule cleanD(1)[OF spaceD(1)[OF s]])
  have cx: "card (set xs) = length xs" by (rule distinct_card[OF free_okD(1)[OF fo]])
  obtain D r m1 ys where 1: "load_image stk ip (fs k2) m = Inr (D, r, fs k2, m1)" "kend m1 = kend m" "\<forall>p. p \<notin> set xs \<longrightarrow> ram m1 p = ram m p"
    "free_ok m1 ys" "set ys \<subseteq> set xs" "case D of None \<Rightarrow> r = None | Some d \<Rightarrow> spare d m (set xs) m1 ys" and
    br: "case r of None \<Rightarrow> \<forall>e sz g. elf_image ?c = Some (e, sz, g, True) \<longrightarrow> card (set xs) \<le> 1025 + npages sz
     | Some (e, sz) \<Rightarrow> \<exists>d g ok kp. D = Some d \<and> elf_image ?c = Some (e, unat sz, g, ok) \<and> unat sz < unat KERNBASE \<and>
         image d m (set xs) kp {} g sz m1 ys \<and> kpart d kp m"
    using load_image_ok[OF fo assms(11) c] by blast
  have k2: "k2\<lparr>fs := fs k2\<rparr> = k2" by simp
  show ?thesis
  proof (cases r)
    case None
    have "\<exists>m2 zs. free_image D m1 = Inr m2 \<and> space d0 m2 zs \<and> (\<forall>a < UPAGES * PGSIZE. uread m2 d0 a = uread m d0 a)"
    proof (cases D)
      case None
      then show ?thesis using space_kept[OF s 1(3,2,4,5)] by (auto simp: free_image_def)
    next
      case (Some d)
      then show ?thesis using spare_freed[of d m xs m1 ys d0] 1(6) b s by (auto simp: free_image_def)
    qed
    then obtain m2 zs where 2: "free_image D m1 = Inr m2" "space d0 m2 zs" "\<forall>a < UPAGES * PGSIZE. uread m2 d0 a = uread m d0 a" by blast
    have eq: "exec stk me path argv k m = Inr (-1, k5, m2)"
      unfolding exec_def assms(1-3) kbind_simps prod.case option.case 1(1) None Let_def k2 2(1) assms(4,5)
      by (cases D) simp_all
    have "\<forall>e sz f. elf_image ?c = Some (e, sz, f, True) \<longrightarrow> length xs \<le> 1025 + (npages sz + 2)"
      using br None cx by auto
    then show ?thesis using eq 2(2,3) by blast
  next
    case (Some es)
    obtain e sz where es: "es = (e, sz)" by (cases es)
    then obtain d g ok kp where g: "D = Some d" "elf_image ?c = Some (e, unat sz, g, ok)" "unat sz < unat KERNBASE" "image d m (set xs) kp {} g sz m1 ys" "kpart d kp m"
      using br Some by auto
    obtain r2 m2 zs where 2: "build_stack d sz argv m1 = Inr (r2, m2)" "spare d m (set xs) m2 zs" and
      br2: "case r2 of None \<Rightarrow> unat KERNBASE \<le> (npages (unat sz) + 2) * PGSIZE \<or> card (set xs) \<le> 1025 + (npages (unat sz) + 2)
       | Some (sz2, sp) \<Rightarrow> unat sz2 = (npages (unat sz) + 2) * PGSIZE \<and> (npages (unat sz) + 1) * PGSIZE \<le> unat sp \<and>
           (\<exists>f2. image d m (set xs) kp {npages (unat sz)} f2 sz2 m2 zs \<and>
             (\<forall>a < npages (unat sz) * PGSIZE. f2 a = g a) \<and> stack_ok f2 argv sp (unat sz2))"
      using build_stack_ok[OF g(4,3) assms(12,13)] by blast
    have ex: "exec stk me path argv k m = (case r2 of
          None \<Rightarrow> kbind (free_image D m2) (\<lambda>m3. Inr (-1, k5, m3))
        | Some (sz2, sp) \<Rightarrow> kbind (freevm d0 m2) (\<lambda>m3. Inr (0, upd_proc me (started path d sz2 e sp) k5, m3)))"
      unfolding exec_def assms(1-3) kbind_simps prod.case option.case 1(1) Some es g(1) Let_def k2 assms(4,5) 2(1) assms(9) started_def
      by (simp split: option.split)
    show ?thesis
    proof (cases r2)
      case None
      obtain m3 ws where 3: "freevm d m2 = Inr m3" "space d0 m3 ws" "\<forall>a < UPAGES * PGSIZE. uread m3 d0 a = uread m d0 a"
        using spare_freed[OF 2(2) b s] by blast
      have "exec stk me path argv k m = Inr (-1, k5, m3)" using ex None 3(1) g(1) by (simp add: free_image_def)
      moreover have "\<forall>e sz f. elf_image ?c = Some (e, sz, f, True) \<longrightarrow>
          unat KERNBASE \<le> (npages sz + 2) * PGSIZE \<or> length xs \<le> 1025 + (npages sz + 2)"
        using br2 None cx g(2) by auto
      ultimately show ?thesis using 3(2,3) by blast
    next
      case r2: (Some ss)
      obtain sz2 sp where ss: "ss = (sz2, sp)" by (cases ss)
      then obtain f2 where f2: "unat sz2 = (npages (unat sz) + 2) * PGSIZE" "image d m (set xs) kp {npages (unat sz)} f2 sz2 m2 zs"
        "\<forall>a < npages (unat sz) * PGSIZE. f2 a = g a" "stack_ok f2 argv sp (unat sz2)" using br2 r2 by auto
      obtain m3 ws where 3: "freevm d0 m2 = Inr m3" "space d m3 ws" "own m3 d \<union> set ws = own m d0 \<union> set xs"
        "\<forall>a < UPAGES * PGSIZE. uread m3 d a = f2 a" "\<forall>k < 2 ^ 20. pte m3 d k = pte m2 d k"
        using replaced[OF f2(2) b s] by blast
      have eq: "exec stk me path argv k m = Inr (0, upd_proc me (started path d sz2 e sp) k5, m3)" using ex r2 ss 3(1) by simp
      have le: "unat sz2 \<le> UPAGES * PGSIZE" using imageD(2)[OF f2(2)] by (simp add: proc_mem_def word_le_nat_alt)
      have km: "kmapped m3 d (kmap m)" using g(5) 3(5) imageD(3)[OF f2(2)] unfolding kpart_def by auto
      have nu: "npages (unat sz) < 2 ^ 20" using f2(1) le by simp
      have gp: "pte m3 d (npages (unat sz)) AND PTE_U = 0" using 3(5) imageD(7)[OF f2(2), of "npages (unat sz)"] nu by simp
      have u: "uread m3 d a = g a" if "a < npages (unat sz) * PGSIZE" for a using 3(4) f2(1,3) le that by simp
      have st: "stack_ok (uread m3 d) argv sp (unat sz2)" by (rule stack_ok_cong[OF f2(4)]) (use 3(4) le in simp)
      show ?thesis using eq 3(2,3) km f2(1) gp u st g(2) by blast
    qed
  qed
qed

section \<open>A concrete call\<close>

text \<open>A file of the smallest kind that starts: a header and no segment.\<close>

definition tiny_elf :: "byte list" where
  "tiny_elf = [0x7F, 0x45, 0x4C, 0x46] @ replicate 48 0"

lemma tiny_elf_image: "elf_image tiny_elf = Some (0, 0, \<lambda>_. None, True)"
proof -
  have m: "elf_magic tiny_elf = ELF_MAGIC" by (simp add: elf_magic_def get32_def tiny_elf_def)
  have n: "elf_phnum tiny_elf = 0" by (simp add: elf_phnum_def get16_def tiny_elf_def nth_append)
  have e: "elf_entry tiny_elf = 0" by (simp add: elf_entry_def get32_def tiny_elf_def nth_append)
  show ?thesis using m n e by (simp add: elf_image_def) (simp add: tiny_elf_def)
qed

lemma tiny_fs: "\<exists>s :: unit fsys. fsb_ok s \<and> 0 < length (icache s) \<and> inode_ok s (icache s ! 0) \<and> contents (blocks s) (icache s ! 0) = tiny_elf \<and>
    i_ref (icache s ! 0) = 1 \<and> i_valid (icache s ! 0) \<and> \<not> i_busy (icache s ! 0) \<and> i_type (icache s ! 0) = T_FILE \<and> hdr s = [] \<and> ops s = 0"
proof -
  have l: "length tiny_elf = 52" by (simp add: tiny_elf_def)
  have c0: "contents (blocks (sample_fs T_FILE)) (sample_inode T_FILE) = []" by (simp add: contents_def)
  have sp: "span 0 52 = 1" by (simp add: span_def)
  have r: "room (0 + 6 * span 0 52 + 1) (sample_fs T_FILE)" unfolding sp by (rule room_mono[OF sample_fs_ok(5)]) simp
  have "\<exists>s'. writei 0 tiny_elf 0 (sample_fs T_FILE) = Inr (int (length tiny_elf), s') \<and> room 0 s' \<and>
     wrote_file 0 (overwrite 0 tiny_elf (contents (blocks (sample_fs T_FILE)) (icache (sample_fs T_FILE) ! 0))) (sample_fs T_FILE) s'"
    by (rule writei_ok) (use sample_fs_ok[where ty = T_FILE] r in \<open>simp_all add: l sp\<close>)
  then obtain s' where w: "wrote_file 0 (overwrite 0 tiny_elf []) (sample_fs T_FILE) s'" by (auto simp: c0)
  have ov: "overwrite 0 tiny_elf [] = tiny_elf" by (simp add: overwrite_def)
  let ?s = "s'\<lparr>ops := 0, hdr := []\<rparr>"
  obtain as where as: "icache s' ! 0 = (sample_inode T_FILE)\<lparr>i_addrs := as, i_size := length tiny_elf\<rparr>" using w unfolding wrote_file_def ov by auto
  have k: "fsb_ok s'" "inode_ok s' (icache s' ! 0)" "contents (blocks s') (icache s' ! 0) = tiny_elf" "length (icache s') = 50"
    using w unfolding wrote_file_def ov by simp_all
  have "fsb_ok ?s" using k(1) by (simp add: fsb_ok_def used_def)
  moreover have "inode_ok ?s (icache ?s ! 0)" using k(2) by (simp add: inode_ok_def is_data_def used_def)
  ultimately show ?thesis using k(3,4) as by (intro exI[of _ ?s]) simp
qed

lemma inode_ok_flags: "inode_ok s (i\<lparr>i_ref := r, i_busy := b\<rparr>) = inode_ok s i" "contents B (i\<lparr>i_ref := r, i_busy := b\<rparr>) = contents B i"
  by (simp_all add: inode_ok_def contents_def owned_def baddr_def)

theorem exec_correct_witness:
  "\<exists>(k :: unit kern) m k' m' d sp. exec [] 0 [] [[104, 105]] k m = Inr (0, k', m') \<and> p_pgdir (ptable k' ! 0) = Some (unat d) \<and>
     p_sz (ptable k' ! 0) = 8192 \<and> stack_ok (uread m' d) [[104, 105]] sp 8192"
proof -
  obtain d0 m xs where e: "proc_mem d0 m 9000 xs" "sym_ok m" "1800 \<le> length xs" using example_proc by blast
  obtain s :: "unit fsys" where s: "fsb_ok s" "0 < length (icache s)" "inode_ok s (icache s ! 0)" "contents (blocks s) (icache s ! 0) = tiny_elf"
    "i_ref (icache s ! 0) = 1" "i_valid (icache s ! 0)" "\<not> i_busy (icache s ! 0)" "i_type (icache s ! 0) = T_FILE" "hdr s = []" "ops s = 0"
    using tiny_fs by blast
  define p where "p = \<lparr>p_sz = 9000, p_pgdir = Some (unat d0), p_kstack = None, p_state = RUNNING, p_pid = 1, p_parent = None,
     p_tf = \<lparr>tf_eax = 0, tf_esp = 0, tf_eip = 0, tf_eflags = 0\<rparr>, p_chan = NoChan, p_killed = False,
     p_ofile = replicate NOFILE None, p_cwd = Some 0, p_name = replicate 16 0\<rparr>"
  define kk where "kk = (\<lambda>s :: unit fsys. \<lparr>fs = s, ftable = [], pipes = (\<lambda>_. None), ptable = [p], nextpid = 2, initproc = 0, ticks = 0\<rparr>)"
  have kk [simp]: "fs (kk t) = t" "(kk t)\<lparr>fs := u\<rparr> = kk u" "ptable (kk t) = [p]" for t u by (simp_all add: kk_def)
  let ?s1 = "s\<lparr>ops := 1\<rparr>"
  let ?s2 = "upd_inode 0 (\<lambda>i. i\<lparr>i_ref := 2\<rparr>) ?s1"
  let ?s3 = "upd_inode 0 (\<lambda>i. i\<lparr>i_ref := 2, i_busy := True\<rparr>) ?s1"
  let ?s4 = "upd_inode 0 (\<lambda>i. i\<lparr>i_busy := False, i_ref := 1\<rparr>) ?s1"
  let ?s5 = "?s4\<lparr>ops := 0, hdr := []\<rparr>"
  have 1: "do_fs fs_begin_op (kk s) = Inr (kk ?s1)" using s(9,10) by (simp add: do_fs_def fs_begin_op_def)
  have cw: "cwd_of 0 (kk ?s1) = 0" by (simp add: cwd_of_def p_def)
  have sk: "skipelem [] name = None" for name by (simp add: skipelem_def)
  have 2: "in_fs (namei (cwd_of 0 (kk ?s1)) []) (kk ?s1) = Inr (Some 0, kk ?s2)"
    unfolding cw using s(5) by (simp add: in_fs_def namei_def namex_def idup_def namex_loop.simps sk)
  have 3: "do_fs (ilock 0) (kk ?s2) = Inr (kk ?s3)" using s(2,5-7) by (simp add: do_fs_def ilock_def Let_def)
  have 4: "do_fs (iunlockput 0) (kk ?s3) = Inr (kk ?s4)" using s(2,5-7) by (simp add: do_fs_def iunlockput_def iunlock_def iput_def Let_def)
  have 5: "do_fs fs_end_op (kk ?s4) = Inr (kk ?s5)" by (simp add: do_fs_def fs_end_op_def)
  have i3: "icache ?s3 ! 0 = (icache s ! 0)\<lparr>i_ref := 2, i_busy := True\<rparr>" using s(2) by simp
  have f3: "fsb_ok (fs (kk ?s3))" using s(1) by (simp add: fsb_ok_def used_def)
  have io: "inode_ok (fs (kk ?s3)) (icache (fs (kk ?s3)) ! 0)" using s(3) unfolding kk i3 inode_ok_flags by (simp add: inode_ok_def is_data_def used_def)
  have ty: "i_type (icache (fs (kk ?s3)) ! 0) \<noteq> T_DEV" unfolding kk i3 using s(8) by simp
  have ct: "contents (blocks (fs (kk ?s3))) (icache (fs (kk ?s3)) ! 0) = tiny_elf" unfolding kk i3 inode_ok_flags using s(4) by simp
  have pd: "p_pgdir (ptable (kk ?s5) ! 0) = Some (unat d0)" by (simp add: p_def)
  have av: "length [[104, 105 :: byte]] \<le> MAXARG" "need [[104, 105]] + 4 * (4 + length [[104, 105 :: byte]]) \<le> PGSIZE" by simp_all
  obtain r k' m' ys where r: "exec [] 0 [] [[104, 105]] (kk s) m = Inr (r, k', m')" and
    br: "r = -1 \<and> (\<forall>e sz f. elf_image tiny_elf = Some (e, sz, f, True) \<longrightarrow>
          unat KERNBASE \<le> (npages sz + 2) * PGSIZE \<or> length xs \<le> 1025 + (npages sz + 2)) \<or>
     r = 0 \<and> (\<exists>e sz f ok d sz2 sp. elf_image tiny_elf = Some (e, sz, f, ok) \<and>
       k' = upd_proc 0 (started [] d sz2 e sp) (kk ?s5) \<and> unat sz2 = (npages sz + 2) * PGSIZE \<and> stack_ok (uread m' d) [[104, 105]] sp (unat sz2))"
    using exec_correct[OF 1 2 3 4 5 f3 io ty pd proc_memD(1)[OF e(1)] e(2) av, of "[]"] unfolding ct by blast
  from br show ?thesis
  proof (elim disjE conjE exE)
    assume "\<forall>e sz f. elf_image tiny_elf = Some (e, sz, f, True) \<longrightarrow>
          unat KERNBASE \<le> (npages sz + 2) * PGSIZE \<or> length xs \<le> 1025 + (npages sz + 2)"
    then have "unat KERNBASE \<le> (npages 0 + 2) * PGSIZE \<or> length xs \<le> 1025 + (npages 0 + 2)" unfolding tiny_elf_image by blast
    then show ?thesis using e(3) by simp
  next
    fix e' sz f ok d sz2 sp assume h: "r = 0" "elf_image tiny_elf = Some (e', sz, f, ok)" "k' = upd_proc 0 (started [] d sz2 e' sp) (kk ?s5)"
      "unat sz2 = (npages sz + 2) * PGSIZE" "stack_ok (uread m' d) [[104, 105]] sp (unat sz2)"
    have "sz = 0" using h(2) unfolding tiny_elf_image by simp
    then have u: "unat sz2 = 8192" using h(4) by simp
    then have "sz2 = 8192" by (simp add: word_unat_eq_iff)
    then show ?thesis using r h(1,3,5) u by (intro exI[of _ "kk s"] exI[of _ m] exI[of _ k'] exI[of _ m'] exI[of _ d] exI[of _ sp]) (simp add: started_def)
  qed
qed
end
