(* ===== verification/Spinlock.thy ===== *)
theory Spinlock
  imports Xv6_Prelude
begin

text \<open>
  Spin locks and the nesting of interrupt disabling (\<open>spinlock.c\<close>). Processors run in any order: the atomic
  steps are the exchange, the stores to the lock, and the processor's own code between them. The fields
  \<open>name\<close> and \<open>pcs\<close> are for debugging only and left out. Shown: mutual exclusion, that a processor with
  a lock is not interrupted, and that the panics are reached only by a wrong use.
\<close>

section \<open>Locks and processors\<close>

record spinlock =
  lk_locked :: u32
  lk_cpu :: "nat option"

text \<open>\<open>c_if\<close> is the interrupt flag of the processor.\<close>

record cpu =
  c_if :: bool
  c_ncli :: int
  c_intena :: bool

definition initlock :: spinlock where
  "initlock = \<lparr>lk_locked = 0, lk_cpu = None\<rparr>"

definition holding :: "spinlock \<Rightarrow> nat \<Rightarrow> bool" where
  "holding lk me \<longleftrightarrow> lk_locked lk \<noteq> 0 \<and> lk_cpu lk = Some me"

definition pushcli :: "cpu \<Rightarrow> cpu" where
  "pushcli c =
     (let eflags = c_if c; c1 = c\<lparr>c_if := False\<rparr>; c2 = (if c_ncli c1 = 0 then c1\<lparr>c_intena := eflags\<rparr> else c1)
      in c2\<lparr>c_ncli := c_ncli c2 + 1\<rparr>)"

definition popcli :: "cpu \<Rightarrow> cpu kernel" where
  "popcli c =
     (if c_if c then panic ''popcli - interruptible''
      else let c1 = c\<lparr>c_ncli := c_ncli c - 1\<rparr>
           in if c_ncli c1 < 0 then panic ''popcli''
              else Inr (if c_ncli c1 = 0 \<and> c_intena c1 then c1\<lparr>c_if := True\<rparr> else c1))"

section \<open>The machine\<close>

text \<open>
  Where a processor is: outside of \<open>acquire\<close> and \<open>release\<close>, in the loop around the exchange, behind it, between
  the two stores of \<open>release\<close>, before its \<open>popcli\<close>. \<open>m_cs\<close> and \<open>m_push\<close> record what the program has
  done: the locks it has acquired and not released, and its own calls of \<open>pushcli\<close> not yet undone.
\<close>

datatype point = Outside | Spinning nat | Taken nat | Clearing nat | Leaving

record machine =
  m_cpus :: "nat \<Rightarrow> cpu"
  m_locks :: "nat \<Rightarrow> spinlock"
  m_at :: "nat \<Rightarrow> point"
  m_cs :: "nat \<Rightarrow> nat set"
  m_push :: "nat \<Rightarrow> nat"

definition acquire_start :: "nat \<Rightarrow> nat \<Rightarrow> machine \<Rightarrow> machine kernel" where
  "acquire_start me l m =
     (let m1 = m\<lparr>m_cpus := (m_cpus m)(me := pushcli (m_cpus m me))\<rparr>
      in if holding (m_locks m1 l) me then panic ''acquire'' else Inr (m1\<lparr>m_at := (m_at m1)(me := Spinning l)\<rparr>))"

text \<open>One round of the loop: the exchange returns the old value and stores 1.\<close>

definition acquire_try :: "nat \<Rightarrow> nat \<Rightarrow> machine \<Rightarrow> machine" where
  "acquire_try me l m =
     (let old = lk_locked (m_locks m l); m1 = m\<lparr>m_locks := (m_locks m)(l := (m_locks m l)\<lparr>lk_locked := 1\<rparr>)\<rparr>
      in if old \<noteq> 0 then m1 else m1\<lparr>m_at := (m_at m1)(me := Taken l)\<rparr>)"

definition acquire_record :: "nat \<Rightarrow> nat \<Rightarrow> machine \<Rightarrow> machine" where
  "acquire_record me l m =
     m\<lparr>m_locks := (m_locks m)(l := (m_locks m l)\<lparr>lk_cpu := Some me\<rparr>), m_at := (m_at m)(me := Outside),
       m_cs := (m_cs m)(me := insert l (m_cs m me))\<rparr>"

definition release_start :: "nat \<Rightarrow> nat \<Rightarrow> machine \<Rightarrow> machine kernel" where
  "release_start me l m =
     (if \<not> holding (m_locks m l) me then panic ''release''
      else Inr (m\<lparr>m_locks := (m_locks m)(l := (m_locks m l)\<lparr>lk_cpu := None\<rparr>), m_at := (m_at m)(me := Clearing l),
                  m_cs := (m_cs m)(me := m_cs m me - {l})\<rparr>))"

definition release_store :: "nat \<Rightarrow> nat \<Rightarrow> machine \<Rightarrow> machine" where
  "release_store me l m =
     m\<lparr>m_locks := (m_locks m)(l := (m_locks m l)\<lparr>lk_locked := 0\<rparr>), m_at := (m_at m)(me := Leaving)\<rparr>"

definition release_leave :: "nat \<Rightarrow> machine \<Rightarrow> machine kernel" where
  "release_leave me m =
     kbind (popcli (m_cpus m me)) (\<lambda>c. Inr (m\<lparr>m_cpus := (m_cpus m)(me := c), m_at := (m_at m)(me := Outside)\<rparr>))"

text \<open>
  The steps. Outside, a processor may also nest \<open>pushcli\<close> and \<open>popcli\<close> by itself, and with no nesting its flag
  may change (\<open>sti\<close> of the scheduler, an interrupt, the return from one).
\<close>

inductive mstep :: "machine \<Rightarrow> machine \<Rightarrow> bool" where
  ms_acquire: "m_at m me = Outside \<Longrightarrow> acquire_start me l m = Inr m' \<Longrightarrow> mstep m m'"
| ms_try: "m_at m me = Spinning l \<Longrightarrow> mstep m (acquire_try me l m)"
| ms_record: "m_at m me = Taken l \<Longrightarrow> mstep m (acquire_record me l m)"
| ms_release: "m_at m me = Outside \<Longrightarrow> release_start me l m = Inr m' \<Longrightarrow> mstep m m'"
| ms_store: "m_at m me = Clearing l \<Longrightarrow> mstep m (release_store me l m)"
| ms_leave: "m_at m me = Leaving \<Longrightarrow> release_leave me m = Inr m' \<Longrightarrow> mstep m m'"
| ms_push: "m_at m me = Outside \<Longrightarrow>
    mstep m (m\<lparr>m_cpus := (m_cpus m)(me := pushcli (m_cpus m me)), m_push := (m_push m)(me := m_push m me + 1)\<rparr>)"
| ms_pop: "m_at m me = Outside \<Longrightarrow> 0 < m_push m me \<Longrightarrow> popcli (m_cpus m me) = Inr c \<Longrightarrow>
    mstep m (m\<lparr>m_cpus := (m_cpus m)(me := c), m_push := (m_push m)(me := m_push m me - 1)\<rparr>)"
| ms_flag: "m_at m me = Outside \<Longrightarrow> c_ncli (m_cpus m me) = 0 \<Longrightarrow>
    mstep m (m\<lparr>m_cpus := (m_cpus m)(me := (m_cpus m me)\<lparr>c_if := b\<rparr>)\<rparr>)"

definition boot :: "(nat \<Rightarrow> bool) \<Rightarrow> machine" where
  "boot f = \<lparr>m_cpus = (\<lambda>i. \<lparr>c_if = f i, c_ncli = 0, c_intena = False\<rparr>), m_locks = (\<lambda>_. initlock), m_at = (\<lambda>_. Outside),
     m_cs = (\<lambda>_. {}), m_push = (\<lambda>_. 0)\<rparr>"

inductive mreach :: "machine \<Rightarrow> bool" where
  mr_boot: "mreach (boot f)"
| mr_step: "mreach m \<Longrightarrow> mstep m m' \<Longrightarrow> mreach m'"

section \<open>The invariant\<close>

text \<open>A processor owns a lock from the exchange that took it to the store that gives it back.\<close>

definition owns :: "machine \<Rightarrow> nat \<Rightarrow> nat \<Rightarrow> bool" where
  "owns m me l \<longleftrightarrow> l \<in> m_cs m me \<or> m_at m me = Taken l \<or> m_at m me = Clearing l"

definition lock_ok :: "machine \<Rightarrow> bool" where
  "lock_ok m \<longleftrightarrow> (\<forall>me l. l \<in> m_cs m me \<longleftrightarrow> lk_cpu (m_locks m l) = Some me) \<and>
     (\<forall>me l. owns m me l \<longrightarrow> lk_locked (m_locks m l) \<noteq> 0) \<and>
     (\<forall>me l. m_at m me \<in> {Taken l, Clearing l} \<longrightarrow> lk_cpu (m_locks m l) = None) \<and>
     (\<forall>a b l. owns m a l \<and> owns m b l \<longrightarrow> a = b)"

definition cli_ok :: "machine \<Rightarrow> bool" where
  "cli_ok m \<longleftrightarrow> (\<forall>me. finite (m_cs m me) \<and>
     c_ncli (m_cpus m me) = int (card (m_cs m me)) + int (m_push m me) + (if m_at m me = Outside then 0 else 1) \<and>
     (0 < c_ncli (m_cpus m me) \<longrightarrow> \<not> c_if (m_cpus m me)))"

lemma pushcli_sel [simp]: "c_ncli (pushcli c) = c_ncli c + 1" "\<not> c_if (pushcli c)"
  by (simp_all add: pushcli_def Let_def)

lemma popcli_sel: "popcli c = Inr c' \<Longrightarrow> c_ncli c' = c_ncli c - 1 \<and> \<not> c_if c \<and> 0 < c_ncli c \<and> (0 < c_ncli c' \<longrightarrow> \<not> c_if c')"
  by (auto simp: popcli_def Let_def split: if_splits)

lemma popcli_returns: "\<not> c_if c \<Longrightarrow> 0 < c_ncli c \<Longrightarrow> \<exists>c'. popcli c = Inr c'"
  by (simp add: popcli_def Let_def)

lemma lock_okD:
  assumes "lock_ok m"
  shows "l \<in> m_cs m me \<longleftrightarrow> lk_cpu (m_locks m l) = Some me" "owns m me l \<Longrightarrow> lk_locked (m_locks m l) \<noteq> 0"
    "m_at m me = Taken l \<Longrightarrow> lk_cpu (m_locks m l) = None" "m_at m me = Clearing l \<Longrightarrow> lk_cpu (m_locks m l) = None"
    "owns m a l \<Longrightarrow> owns m b l \<Longrightarrow> a = b"
  using assms unfolding lock_ok_def by blast+

lemma holding_iff: "lock_ok m \<Longrightarrow> holding (m_locks m l) me \<longleftrightarrow> l \<in> m_cs m me"
  unfolding holding_def using lock_okD(1,2) by (metis owns_def)

text \<open>A step that changes neither locks nor points keeps the part of the invariant on locks.\<close>

lemma lock_ok_cong:
  assumes "lock_ok m" "m_locks m' = m_locks m" "m_cs m' = m_cs m" "\<And>me l. m_at m' me = Taken l \<longleftrightarrow> m_at m me = Taken l"
    "\<And>me l. m_at m' me = Clearing l \<longleftrightarrow> m_at m me = Clearing l"
  shows "lock_ok m'"
proof -
  have o: "owns m' = owns m" by (intro ext) (simp add: owns_def assms)
  show ?thesis using assms(1) unfolding lock_ok_def o by (simp add: assms)
qed

lemma step_lock_ok:
  assumes "mstep m m'" "lock_ok m"
  shows "lock_ok m'"
  using assms(1)
proof cases
  case (ms_acquire me l)
  then have "m' = m\<lparr>m_cpus := (m_cpus m)(me := pushcli (m_cpus m me)), m_at := (m_at m)(me := Spinning l)\<rparr>"
    by (simp add: acquire_start_def Let_def split: if_splits)
  then show ?thesis using ms_acquire(1) by (intro lock_ok_cong[OF assms(2)]) auto
next
  case (ms_try me l)
  note L = lock_okD[OF assms(2)]
  show ?thesis
  proof (cases "lk_locked (m_locks m l) = 0")
    case True
    have no: "\<not> owns m a l" for a using L(2) True by blast
    then have nc: "lk_cpu (m_locks m l) = None" using L(1) by (metis not_Some_eq owns_def)
    have o: "owns m' a k \<longleftrightarrow> owns m a k \<or> a = me \<and> k = l" for a k
      using ms_try no True by (auto simp: owns_def acquire_try_def Let_def)
    show ?thesis unfolding lock_ok_def
    proof (intro conjI allI impI)
      show "k \<in> m_cs m' a \<longleftrightarrow> lk_cpu (m_locks m' k) = Some a" for a k using L(1)[of k a] True unfolding ms_try(1) by (simp add: acquire_try_def Let_def)
      show "lk_locked (m_locks m' k) \<noteq> 0" if "owns m' a k" for a k using that L(2)[of a k] no True unfolding o unfolding ms_try(1) by (auto simp: acquire_try_def Let_def)
      show "lk_cpu (m_locks m' k) = None" if "m_at m' a \<in> {Taken k, Clearing k}" for a k
        using that L(3,4)[of a k] nc True unfolding ms_try(1) by (auto simp: acquire_try_def Let_def split: if_splits)
      show "a = b" if "owns m' a k \<and> owns m' b k" for a b k using that L(5)[of a k b] no unfolding o by auto
    qed
  next
    case False
    have o: "owns m' = owns m" using False ms_try by (intro ext) (simp add: owns_def acquire_try_def Let_def)
    show ?thesis using assms(2) False unfolding lock_ok_def o unfolding ms_try(1) by (auto simp: acquire_try_def Let_def)
  qed
next
  case (ms_record me l)
  note L = lock_okD[OF assms(2)]
  have me: "owns m me l" using ms_record(2) by (simp add: owns_def)
  have nc: "lk_cpu (m_locks m l) = None" by (rule L(3)[OF ms_record(2)])
  have o: "owns m' a k = owns m a k" for a k
    using ms_record(2) me unfolding ms_record(1) by (auto simp: owns_def acquire_record_def)
  show ?thesis unfolding lock_ok_def
  proof (intro conjI allI impI)
    show "k \<in> m_cs m' a \<longleftrightarrow> lk_cpu (m_locks m' k) = Some a" for a k using L(1)[of k a] nc unfolding ms_record(1) by (auto simp: acquire_record_def)
    show "lk_locked (m_locks m' k) \<noteq> 0" if "owns m' a k" for a k using that L(2)[of a k] unfolding o unfolding ms_record(1) by (auto simp: acquire_record_def)
    show "lk_cpu (m_locks m' k) = None" if h: "m_at m' a \<in> {Taken k, Clearing k}" for a k
    proof -
      have h2: "a \<noteq> me" "m_at m a \<in> {Taken k, Clearing k}" using h unfolding ms_record(1) by (auto simp: acquire_record_def split: if_splits)
      then have "owns m a k" by (auto simp: owns_def)
      then have "k \<noteq> l" using L(5) me h2(1) by blast
      then show ?thesis using h2(2) L(3,4)[of a k] unfolding ms_record(1) by (auto simp: acquire_record_def)
    qed
    show "a = b" if "owns m' a k \<and> owns m' b k" for a b k using that L(5)[of a k b] unfolding o by auto
  qed
next
  case (ms_release me l)
  note L = lock_okD[OF assms(2)]
  have h: "holding (m_locks m l) me" and m': "m' = m\<lparr>m_locks := (m_locks m)(l := (m_locks m l)\<lparr>lk_cpu := None\<rparr>), m_at := (m_at m)(me := Clearing l),
                  m_cs := (m_cs m)(me := m_cs m me - {l})\<rparr>"
    using ms_release(2) by (simp_all add: release_start_def split: if_splits)
  have cs: "l \<in> m_cs m me" using h holding_iff[OF assms(2)] by blast
  have o: "owns m' a k = owns m a k" for a k using ms_release(1) cs unfolding m' by (auto simp: owns_def)
  show ?thesis unfolding lock_ok_def
  proof (intro conjI allI impI)
    show "k \<in> m_cs m' a \<longleftrightarrow> lk_cpu (m_locks m' k) = Some a" for a k using L(1)[of k a] L(1)[of l me] cs unfolding m' by auto
    show "lk_locked (m_locks m' k) \<noteq> 0" if "owns m' a k" for a k using that L(2)[of a k] unfolding o unfolding m' by auto
    show "lk_cpu (m_locks m' k) = None" if "m_at m' a \<in> {Taken k, Clearing k}" for a k using that L(3,4)[of a k] unfolding m' by (auto split: if_splits)
    show "a = b" if "owns m' a k \<and> owns m' b k" for a b k using that L(5)[of a k b] unfolding o by auto
  qed
next
  case (ms_store me l)
  note L = lock_okD[OF assms(2)]
  have me: "owns m me l" using ms_store(2) by (simp add: owns_def)
  have nc: "lk_cpu (m_locks m l) = None" by (rule L(4)[OF ms_store(2)])
  have ncs: "l \<notin> m_cs m a" for a using L(1)[of l a] nc by simp
  have o: "owns m' a k \<longleftrightarrow> owns m a k \<and> k \<noteq> l" for a k
  proof (cases "a = me")
    case True
    then show ?thesis using ms_store(2) ncs[of me] unfolding ms_store(1) by (auto simp: owns_def release_store_def)
  next
    case False
    then have "\<not> owns m a l" using L(5) me by blast
    then show ?thesis using False unfolding ms_store(1) by (auto simp: owns_def release_store_def)
  qed
  show ?thesis unfolding lock_ok_def
  proof (intro conjI allI impI)
    show "k \<in> m_cs m' a \<longleftrightarrow> lk_cpu (m_locks m' k) = Some a" for a k using L(1)[of k a] unfolding ms_store(1) by (simp add: release_store_def)
    show "lk_locked (m_locks m' k) \<noteq> 0" if "owns m' a k" for a k using that L(2)[of a k] unfolding o unfolding ms_store(1) by (auto simp: release_store_def)
    show "lk_cpu (m_locks m' k) = None" if "m_at m' a \<in> {Taken k, Clearing k}" for a k
      using that L(3,4)[of a k] unfolding ms_store(1) by (auto simp: release_store_def split: if_splits)
    show "a = b" if "owns m' a k \<and> owns m' b k" for a b k using that L(5)[of a k b] unfolding o by auto
  qed
next
  case (ms_leave me)
  then obtain c where "m' = m\<lparr>m_cpus := (m_cpus m)(me := c), m_at := (m_at m)(me := Outside)\<rparr>"
    by (auto simp: release_leave_def kbind_Inr)
  then show ?thesis using ms_leave(1) by (intro lock_ok_cong[OF assms(2)]) auto
qed (use assms(2) in \<open>auto intro: lock_ok_cong[OF assms(2)]\<close>)

lemma cli_okD:
  assumes "cli_ok m"
  shows "finite (m_cs m me)" "c_ncli (m_cpus m me) = int (card (m_cs m me)) + int (m_push m me) + (if m_at m me = Outside then 0 else 1)"
    "0 < c_ncli (m_cpus m me) \<Longrightarrow> \<not> c_if (m_cpus m me)"
  using assms unfolding cli_ok_def by blast+

text \<open>Only the processor that steps changes.\<close>

lemma cli_ok_upd:
  assumes "cli_ok m" "\<And>a. a \<noteq> me \<Longrightarrow> m_cpus m' a = m_cpus m a \<and> m_cs m' a = m_cs m a \<and> m_push m' a = m_push m a \<and> m_at m' a = m_at m a"
    "finite (m_cs m' me)" "c_ncli (m_cpus m' me) = int (card (m_cs m' me)) + int (m_push m' me) + (if m_at m' me = Outside then 0 else 1)"
    "0 < c_ncli (m_cpus m' me) \<Longrightarrow> \<not> c_if (m_cpus m' me)"
  shows "cli_ok m'"
  unfolding cli_ok_def
proof
  fix a
  show "finite (m_cs m' a) \<and> c_ncli (m_cpus m' a) = int (card (m_cs m' a)) + int (m_push m' a) + (if m_at m' a = Outside then 0 else 1) \<and>
     (0 < c_ncli (m_cpus m' a) \<longrightarrow> \<not> c_if (m_cpus m' a))"
  proof (cases "a = me")
    case True
    then show ?thesis using assms(3-5) by simp
  next
    case False
    from assms(2)[OF this] show ?thesis using cli_okD[OF assms(1), of a] by simp
  qed
qed

lemma step_cli_ok:
  assumes "mstep m m'" "cli_ok m" "lock_ok m"
  shows "cli_ok m'"
  using assms(1)
proof cases
  case (ms_acquire me l)
  then have "m' = m\<lparr>m_cpus := (m_cpus m)(me := pushcli (m_cpus m me)), m_at := (m_at m)(me := Spinning l)\<rparr>"
    by (simp add: acquire_start_def Let_def split: if_splits)
  then show ?thesis using ms_acquire(1) cli_okD[OF assms(2), of me] by (intro cli_ok_upd[OF assms(2), of me]) simp_all
next
  case (ms_try me l)
  then show ?thesis using cli_okD[OF assms(2), of me] by (intro cli_ok_upd[OF assms(2), of me]) (simp_all add: acquire_try_def Let_def)
next
  case (ms_record me l)
  have "lk_cpu (m_locks m l) = None" by (rule lock_okD(3)[OF assms(3) ms_record(2)])
  then have "l \<notin> m_cs m me" using lock_okD(1)[OF assms(3), of l me] by simp
  then show ?thesis using ms_record cli_okD[OF assms(2), of me] by (intro cli_ok_upd[OF assms(2), of me]) (simp_all add: acquire_record_def)
next
  case (ms_release me l)
  have h: "holding (m_locks m l) me" and m': "m' = m\<lparr>m_locks := (m_locks m)(l := (m_locks m l)\<lparr>lk_cpu := None\<rparr>), m_at := (m_at m)(me := Clearing l),
                  m_cs := (m_cs m)(me := m_cs m me - {l})\<rparr>"
    using ms_release(2) by (simp_all add: release_start_def split: if_splits)
  have "l \<in> m_cs m me" using h holding_iff[OF assms(3)] by blast
  then have "card (m_cs m me) = Suc (card (m_cs m me - {l}))" using card.remove[OF cli_okD(1)[OF assms(2), of me]] by blast
  then show ?thesis unfolding m' using ms_release(1) cli_okD[OF assms(2), of me] by (intro cli_ok_upd[OF assms(2), of me]) simp_all
next
  case (ms_store me l)
  then show ?thesis using cli_okD[OF assms(2), of me] by (intro cli_ok_upd[OF assms(2), of me]) (simp_all add: release_store_def)
next
  case (ms_leave me)
  then obtain c where c: "popcli (m_cpus m me) = Inr c" "m' = m\<lparr>m_cpus := (m_cpus m)(me := c), m_at := (m_at m)(me := Outside)\<rparr>"
    by (auto simp: release_leave_def kbind_Inr)
  then show ?thesis using ms_leave(1) cli_okD[OF assms(2), of me] popcli_sel[OF c(1)] by (intro cli_ok_upd[OF assms(2), of me]) simp_all
next
  case (ms_push me)
  then show ?thesis using cli_okD[OF assms(2), of me] by (intro cli_ok_upd[OF assms(2), of me]) simp_all
next
  case (ms_pop me c)
  then show ?thesis using cli_okD[OF assms(2), of me] popcli_sel[OF ms_pop(4)] by (intro cli_ok_upd[OF assms(2), of me]) simp_all
next
  case (ms_flag me b)
  then show ?thesis using cli_okD[OF assms(2), of me] by (intro cli_ok_upd[OF assms(2), of me]) simp_all
qed

lemma mreach_ok: "mreach m \<Longrightarrow> lock_ok m \<and> cli_ok m"
proof (induction rule: mreach.induct)
  case (mr_boot f)
  show ?case by (simp add: lock_ok_def cli_ok_def boot_def initlock_def owns_def)
next
  case (mr_step m m')
  then show ?case using step_lock_ok step_cli_ok by blast
qed

section \<open>What the locks guarantee\<close>

text \<open>
  C9: in every reachable state a lock is held by at most one processor, and \<open>holding\<close> tells which; a
  processor that holds a lock, spins for one or releases one has its interrupts disabled; \<open>acquire\<close> panics
  exactly for a lock the processor holds itself, \<open>release\<close> exactly for one it does not hold, and the
  \<open>popcli\<close> of \<open>release\<close> never panics.
\<close>

theorem locks_exclude:
  assumes "mreach m"
  shows "(\<forall>a b l. l \<in> m_cs m a \<inter> m_cs m b \<longrightarrow> a = b) \<and> (\<forall>a l. holding (m_locks m l) a \<longleftrightarrow> l \<in> m_cs m a) \<and>
    (\<forall>a. m_cs m a \<noteq> {} \<or> m_at m a \<noteq> Outside \<longrightarrow> \<not> c_if (m_cpus m a)) \<and>
    (\<forall>a l. acquire_start a l m = panic ''acquire'' \<longleftrightarrow> l \<in> m_cs m a) \<and>
    (\<forall>a l. release_start a l m = panic ''release'' \<longleftrightarrow> l \<notin> m_cs m a) \<and>
    (\<forall>a. m_at m a = Leaving \<longrightarrow> (\<exists>m'. release_leave a m = Inr m'))"
proof -
  have ok: "lock_ok m" "cli_ok m" using mreach_ok[OF assms] by blast+
  note L = lock_okD[OF ok(1)] and C = cli_okD[OF ok(2)]
  have off: "\<not> c_if (m_cpus m a) \<and> 0 < c_ncli (m_cpus m a)" if "m_cs m a \<noteq> {} \<or> m_at m a \<noteq> Outside" for a
  proof -
    have "0 < int (card (m_cs m a)) + (if m_at m a = Outside then 0 else 1)" using that C(1)[of a] by (auto simp: card_gt_0_iff)
    then have "0 < c_ncli (m_cpus m a)" using C(2)[of a] by linarith
    then show ?thesis using C(3) by blast
  qed
  show ?thesis
  proof (intro conjI allI impI)
    show "a = b" if "l \<in> m_cs m a \<inter> m_cs m b" for a b l using that L(5)[of a l b] by (simp add: owns_def)
    show h: "holding (m_locks m l) a \<longleftrightarrow> l \<in> m_cs m a" for a l by (rule holding_iff[OF ok(1)])
    show "\<not> c_if (m_cpus m a)" if "m_cs m a \<noteq> {} \<or> m_at m a \<noteq> Outside" for a using off[OF that] by blast
    show "acquire_start a l m = panic ''acquire'' \<longleftrightarrow> l \<in> m_cs m a" for a l by (simp add: acquire_start_def Let_def h)
    show "release_start a l m = panic ''release'' \<longleftrightarrow> l \<notin> m_cs m a" for a l by (simp add: release_start_def h)
    show "\<exists>m'. release_leave a m = Inr m'" if "m_at m a = Leaving" for a
    proof -
      have "\<not> c_if (m_cpus m a)" "0 < c_ncli (m_cpus m a)" using off[of a] that by simp_all
      then obtain c where "popcli (m_cpus m a) = Inr c" using popcli_returns by blast
      then show ?thesis by (simp add: release_leave_def)
    qed
  qed
qed

text \<open>
  matched calls of \<open>pushcli\<close> and \<open>popcli\<close> around a stretch of code give the interrupt flag the value it
  had before the first, at any depth, and never panic.
\<close>

fun pops :: "nat \<Rightarrow> cpu \<Rightarrow> cpu kernel" where
  "pops 0 c = Inr c"
| "pops (Suc n) c = kbind (popcli c) (pops n)"

lemma pushes_sel: "c_ncli c = 0 \<Longrightarrow> 0 < n \<Longrightarrow> (pushcli ^^ n) c = \<lparr>c_if = False, c_ncli = int n, c_intena = c_if c\<rparr>"
proof (induction n)
  case (Suc n)
  then show ?case by (cases "n = 0") (simp_all add: pushcli_def Let_def)
qed simp

lemma pops_sel: "0 < n \<Longrightarrow> pops n \<lparr>c_if = False, c_ncli = int n, c_intena = b\<rparr> = Inr \<lparr>c_if = b, c_ncli = 0, c_intena = b\<rparr>"
proof (induction n)
  case (Suc n)
  show ?case
  proof (cases "n = 0")
    case True
    then show ?thesis by (simp add: popcli_def Let_def)
  next
    case False
    then have "popcli \<lparr>c_if = False, c_ncli = int (Suc n), c_intena = b\<rparr> = Inr \<lparr>c_if = False, c_ncli = int n, c_intena = b\<rparr>"
      by (simp add: popcli_def Let_def)
    then show ?thesis using Suc.IH False by simp
  qed
qed simp

theorem cli_nests:
  assumes "c_ncli c = 0" "0 < n"
  shows "\<not> c_if ((pushcli ^^ n) c) \<and> (\<exists>c'. pops n ((pushcli ^^ n) c) = Inr c' \<and> c_if c' = c_if c \<and> c_ncli c' = 0)"
  using pushes_sel[OF assms] pops_sel[OF assms(2)] by simp

section \<open>A concrete run\<close>

theorem locks_exclude_witness:
  "\<exists>m. mreach m \<and> 7 \<in> m_cs m 0 \<and> m_at m 1 = Spinning 7 \<and> \<not> c_if (m_cpus m 0)"
proof -
  define m0 where "m0 = boot (\<lambda>_. True)"
  define m1 where "m1 = m0\<lparr>m_cpus := (m_cpus m0)(0 := pushcli (m_cpus m0 0)), m_at := (m_at m0)(0 := Spinning 7)\<rparr>"
  have h0: "\<not> holding (m_locks m0 l) a" for a l by (simp add: m0_def boot_def holding_def initlock_def)
  have m1: "acquire_start 0 7 m0 = Inr m1" unfolding acquire_start_def Let_def m1_def by (simp add: h0)
  have m1s: "m_at m1 0 = Spinning 7" "lk_locked (m_locks m1 7) = 0" "m_at m1 1 = Outside" "lk_cpu (m_locks m1 7) = None"
    unfolding m1_def m0_def boot_def initlock_def by (simp_all add: fun_upd_def)
  define m2 where "m2 = acquire_try 0 7 m1"
  have m2: "m_at m2 0 = Taken 7" "m_at m2 1 = Outside" using m1s by (simp_all add: m2_def acquire_try_def Let_def)
  define m3 where "m3 = acquire_record 0 7 m2"
  have m3: "7 \<in> m_cs m3 0" "m_at m3 1 = Outside" "lk_cpu (m_locks m3 7) = Some 0" using m2 by (simp_all add: m3_def acquire_record_def)
  define m4 where "m4 = m3\<lparr>m_cpus := (m_cpus m3)(1 := pushcli (m_cpus m3 1)), m_at := (m_at m3)(1 := Spinning 7)\<rparr>"
  have "\<not> holding (m_locks m3 7) 1" using m3(3) by (simp add: holding_def)
  then have m4: "acquire_start 1 7 m3 = Inr m4" unfolding acquire_start_def Let_def m4_def by simp
  have m4s: "m_at m4 1 = Spinning 7" "7 \<in> m_cs m4 0" using m3(1) by (simp_all add: m4_def)
  have "mreach m0" unfolding m0_def by (rule mr_boot)
  then have "mreach m1" by (rule mr_step) (rule ms_acquire[OF _ m1], simp add: m0_def boot_def)
  then have "mreach m2" unfolding m2_def by (rule mr_step) (rule ms_try[OF m1s(1)])
  then have "mreach m3" unfolding m3_def by (rule mr_step) (rule ms_record[OF m2(1)])
  then have r: "mreach m4" by (rule mr_step) (rule ms_acquire[OF m3(2) m4])
  have "\<not> c_if (m_cpus m4 0)"
    using locks_exclude[OF r, THEN conjunct2, THEN conjunct2, THEN conjunct1, rule_format, of 0] m4s(2) by auto
  with r m4s show ?thesis by blast
qed

theorem cli_nests_witness:
  "\<exists>c'. pops 2 ((pushcli ^^ 2) \<lparr>c_if = True, c_ncli = 0, c_intena = False\<rparr>) = Inr c' \<and> c_if c'"
  using cli_nests[of "\<lparr>c_if = True, c_ncli = 0, c_intena = False\<rparr>" 2] by auto

end
