(* ===== verification/Umalloc.thy ===== *)
theory Umalloc
  imports Vm_Spec
begin

text \<open>
  The memory allocator of user programs (\<open>umalloc.c\<close>). The heap is the store of block headers: an address
  leads to the two fields of the header there. That no two blocks overlap, so that no header shares a byte with
  another or with the data of a block, is part of what is shown. Shown as well: \<open>malloc\<close> returns on every heap
  and gives out a block nobody else has; \<open>free\<close> gives exactly that block back; no byte is lost.
\<close>

section \<open>The heap\<close>

record header =
  h_ptr :: nat
  h_size :: nat

record heap =
  hdr :: "nat \<Rightarrow> header"
  freep :: nat
  base :: nat

abbreviation size_at :: "heap \<Rightarrow> nat \<Rightarrow> nat" where
  "size_at h p \<equiv> h_size (hdr h p)"

abbreviation next_of :: "heap \<Rightarrow> nat \<Rightarrow> nat" where
  "next_of h p \<equiv> h_ptr (hdr h p)"

definition set_next :: "nat \<Rightarrow> nat \<Rightarrow> heap \<Rightarrow> heap" where
  "set_next p q h = h\<lparr>hdr := (hdr h)(p := (hdr h p)\<lparr>h_ptr := q\<rparr>)\<rparr>"

definition set_size :: "nat \<Rightarrow> nat \<Rightarrow> heap \<Rightarrow> heap" where
  "set_size p n h = h\<lparr>hdr := (hdr h)(p := (hdr h p)\<lparr>h_size := n\<rparr>)\<rparr>"

lemma heap_upd_sel [simp]:
  "next_of (set_next p q h) x = (if x = p then q else next_of h x)" "size_at (set_next p q h) x = size_at h x"
  "next_of (set_size p n h) x = next_of h x" "size_at (set_size p n h) x = (if x = p then n else size_at h x)"
  "freep (set_next p q h) = freep h" "freep (set_size p n h) = freep h" "base (set_next p q h) = base h" "base (set_size p n h) = base h"
  by (simp_all add: set_next_def set_size_def)

text \<open>Unsigned arithmetic, and \<open>p + n\<close> for a pointer to headers of 8 bytes.\<close>

abbreviation (input) W32 :: nat where "W32 \<equiv> 4294967296"

definition u32_mod :: "nat \<Rightarrow> nat" where
  "u32_mod n = n mod W32"

definition ahead :: "nat \<Rightarrow> nat \<Rightarrow> nat" where
  "ahead p n = u32_mod (p + 8 * n)"

definition as_int :: "nat \<Rightarrow> int" where
  "as_int n = (if n < 2147483648 then int n else int n - int W32)"

lemma u32_mod_small [simp]: "n < W32 \<Longrightarrow> u32_mod n = n"
  by (simp add: u32_mod_def)

section \<open>Freeing\<close>

partial_function (option) free_scan :: "heap \<Rightarrow> nat \<Rightarrow> nat \<Rightarrow> nat option" where
  "free_scan h bp p =
     (if p < bp \<and> bp < next_of h p then Some p
      else if next_of h p \<le> p \<and> (p < bp \<or> bp < next_of h p) then Some p
      else free_scan h bp (next_of h p))"

definition free :: "nat \<Rightarrow> heap \<Rightarrow> heap option" where
  "free ap h =
     (let bp = u32_mod (ap + (W32 - 8)) in
      Option.bind (free_scan h bp (freep h)) (\<lambda>p.
        let h1 = (if ahead bp (size_at h bp) = next_of h p
                  then let h' = set_size bp (u32_mod (size_at h bp + size_at h (next_of h p))) h
                       in set_next bp (next_of h' (next_of h' p)) h'
                  else set_next bp (next_of h p) h);
            h2 = (if ahead p (size_at h1 p) = bp
                  then let h' = set_size p (u32_mod (size_at h1 p + size_at h1 bp)) h1 in set_next p (next_of h' bp) h'
                  else set_next p bp h1)
        in Some (h2\<lparr>freep := p\<rparr>)))"

section \<open>Allocating\<close>

text \<open>\<open>sbrk\<close> is the system call, on the state \<open>'k\<close> of the kernel; it returns a pointer, \<open>-1\<close> on failure.\<close>

definition morecore :: "(int \<Rightarrow> 'k \<Rightarrow> (nat \<times> 'k) kernel) \<Rightarrow> nat \<Rightarrow> heap \<Rightarrow> 'k \<Rightarrow> (nat \<times> heap \<times> 'k) kernel option" where
  "morecore sbrk nu h k =
     (let nu = (if nu < 4096 then 4096 else nu) in
      case sbrk (as_int (u32_mod (nu * 8))) k of
        Inl e \<Rightarrow> Some (Inl e)
      | Inr (p, k1) \<Rightarrow>
          if p = W32 - 1 then Some (Inr (0, h, k1))
          else let h1 = set_size p nu h
               in Option.bind (free (ahead p 1) h1) (\<lambda>h2. Some (Inr (freep h2, h2, k1))))"

definition take_block :: "nat \<Rightarrow> nat \<Rightarrow> nat \<Rightarrow> heap \<Rightarrow> nat \<times> heap" where
  "take_block nunits prevp p h =
     (if size_at h p = nunits then (ahead p 1, (set_next prevp (next_of h p) h)\<lparr>freep := prevp\<rparr>)
      else let h1 = set_size p (size_at h p - nunits) h; q = ahead p (size_at h1 p); h2 = set_size q nunits h1
           in (ahead q 1, h2\<lparr>freep := prevp\<rparr>))"

partial_function (option) malloc_loop ::
    "(int \<Rightarrow> 'k \<Rightarrow> (nat \<times> 'k) kernel) \<Rightarrow> nat \<Rightarrow> nat \<Rightarrow> nat \<Rightarrow> heap \<Rightarrow> 'k \<Rightarrow> (nat \<times> heap \<times> 'k) kernel option" where
  "malloc_loop sbrk nunits prevp p h k =
     (if nunits \<le> size_at h p then (case take_block nunits prevp p h of (r, h1) \<Rightarrow> Some (Inr (r, h1, k)))
      else if p = freep h then
        Option.bind (morecore sbrk nunits h k) (\<lambda>x. case x of
            Inl e \<Rightarrow> Some (Inl e)
          | Inr (p1, h1, k1) \<Rightarrow> if p1 = 0 then Some (Inr (0, h1, k1)) else malloc_loop sbrk nunits p1 (next_of h1 p1) h1 k1)
      else malloc_loop sbrk nunits p (next_of h p) h k)"

definition units :: "nat \<Rightarrow> nat" where
  "units nbytes = u32_mod (nbytes + 7) div 8 + 1"

definition malloc_init :: "heap \<Rightarrow> heap" where
  "malloc_init h =
     (if freep h = 0 then set_size (base h) 0 (set_next (base h) (base h) (h\<lparr>freep := base h\<rparr>)) else h)"

definition malloc :: "(int \<Rightarrow> 'k \<Rightarrow> (nat \<times> 'k) kernel) \<Rightarrow> nat \<Rightarrow> heap \<Rightarrow> 'k \<Rightarrow> (nat \<times> heap \<times> 'k) kernel option" where
  "malloc sbrk nbytes h k =
     (let nunits = units nbytes; h1 = malloc_init h; prevp = freep h1
      in malloc_loop sbrk nunits prevp (next_of h1 prevp) h1 k)"

section \<open>Layout of the blocks\<close>

text \<open>
  Blocks at the addresses \<open>S\<close>, of \<open>sz p\<close> units of 8 bytes each, lie between \<open>lo\<close> and \<open>hi\<close> and do not overlap.
\<close>

definition block :: "(nat \<Rightarrow> nat) \<Rightarrow> nat \<Rightarrow> nat set" where
  "block sz p = {p..<p + 8 * sz p}"

definition layout :: "nat \<Rightarrow> nat \<Rightarrow> nat set \<Rightarrow> (nat \<Rightarrow> nat) \<Rightarrow> bool" where
  "layout lo hi S sz \<longleftrightarrow> (\<forall>p \<in> S. 0 < sz p \<and> lo \<le> p \<and> p + 8 * sz p \<le> hi) \<and> (\<forall>p \<in> S. \<forall>q \<in> S. p < q \<longrightarrow> p + 8 * sz p \<le> q)"

lemma layoutD:
  assumes "layout lo hi S sz" "p \<in> S"
  shows "0 < sz p" "lo \<le> p" "p + 8 * sz p \<le> hi" "q \<in> S \<Longrightarrow> p < q \<Longrightarrow> p + 8 * sz p \<le> q"
  using assms by (auto simp: layout_def)

lemma layout_cong: "(\<And>p. p \<in> S \<Longrightarrow> sz p = sz' p) \<Longrightarrow> layout lo hi S sz = layout lo hi S sz'"
  by (simp add: layout_def)

lemma layout_disjoint:
  assumes "layout lo hi S sz" "p \<in> S" "q \<in> S" "p \<noteq> q"
  shows "block sz p \<inter> block sz q = {}"
  using layoutD(4)[OF assms(1-3)] layoutD(4)[OF assms(1,3,2)] assms(4) by (cases p q rule: linorder_cases) (auto simp: block_def)

lemma layout_merge:
  assumes "layout lo hi S sz" "p \<in> S" "q \<in> S" "p + 8 * sz p = q"
  shows "layout lo hi (S - {q}) (sz(p := sz p + sz q))" "block (sz(p := sz p + sz q)) p = block sz p \<union> block sz q"
proof -
  note L = layoutD[OF assms(1)]
  have "p + 8 * (sz p + sz q) \<le> x" if "x \<in> S" "x \<noteq> q" "p < x" for x
    using L(4)[OF assms(2) that(1,3)] L(4)[OF assms(3) that(1)] that(2) assms(4) by simp
  then show "layout lo hi (S - {q}) (sz(p := sz p + sz q))"
    using L(1-3)[OF assms(2)] L(3)[OF assms(3)] assms(1,4) by (auto simp: layout_def)
  show "block (sz(p := sz p + sz q)) p = block sz p \<union> block sz q"
    using assms(4) by (auto simp: block_def)
qed

lemma layout_split:
  assumes "layout lo hi S sz" "p \<in> S" "0 < n" "n < sz p" and q: "q = p + 8 * (sz p - n)"
  shows "layout lo hi (insert q S) (sz(p := sz p - n, q := n))" "q \<notin> S"
    "block (sz(p := sz p - n, q := n)) p \<union> block (sz(p := sz p - n, q := n)) q = block sz p"
proof -
  note L = layoutD[OF assms(1)]
  have pq: "p < q" "p + 8 * sz p = q + 8 * n" using assms(4) q by auto
  have b: "q < p + 8 * sz p" using pq assms(3) by simp
  show qS: "q \<notin> S" using L(4)[OF assms(2), of q] pq(1) b by auto
  have below: "x + 8 * sz x \<le> p" if "x \<in> S" "x < p" for x using L(4)[OF that(1) assms(2) that(2)] .
  have above: "q + 8 * n \<le> x" if "x \<in> S" "p < x" for x using L(4)[OF assms(2) that] pq(2) by simp
  have below_q: "x + 8 * sz x \<le> q" if "x \<in> S" "x \<noteq> p" "x < q" for x
    using below[OF that(1)] above[OF that(1)] that pq by (cases x p rule: linorder_cases) auto
  have qp: "q \<noteq> p" using pq(1) by simp
  define s' where "s' = sz(p := sz p - n, q := n)"
  have s': "s' p = sz p - n" "s' q = n" "x \<noteq> p \<Longrightarrow> x \<noteq> q \<Longrightarrow> s' x = sz x" for x using qp by (simp_all add: s'_def)
  have e: "0 < s' x \<and> lo \<le> x \<and> x + 8 * s' x \<le> hi" if "x \<in> insert q S" for x
  proof -
    consider "x = q" | "x = p" | "x \<in> S" "x \<noteq> p" "x \<noteq> q" using \<open>x \<in> insert q S\<close> by blast
    then show ?thesis
    proof cases
      case 1
      then show ?thesis using s'(2) assms(3) L(2,3)[OF assms(2)] pq by simp
    next
      case 2
      then show ?thesis using s'(1) assms(4) L(2,3)[OF assms(2)] by simp
    next
      case 3
      then show ?thesis using s'(3) L(1-3)[OF 3(1)] by simp
    qed
  qed
  have d: "x + 8 * s' x \<le> y" if x: "x \<in> insert q S" and y: "y \<in> insert q S" and xy: "x < y" for x y
  proof -
    consider "x = q" | "x = p" | "x \<in> S" "x \<noteq> p" "x \<noteq> q" using x by blast
    then show ?thesis
    proof cases
      case 1
      then have "y \<in> S" "p < y" using y xy pq(1) by simp_all
      then show ?thesis using above 1 s'(2) by simp
    next
      case 2
      have "q + 8 * n \<le> y" if "y \<noteq> q" using above[of y] that y xy 2 by simp
      then show ?thesis using 2 s'(1) q by fastforce
    next
      case 3
      then show ?thesis using below_q[OF 3(1,2)] L(4)[OF 3(1)] y xy s'(3) by auto
    qed
  qed
  show "layout lo hi (insert q S) (sz(p := sz p - n, q := n))" unfolding layout_def s'_def[symmetric] using d e by blast
  show "block (sz(p := sz p - n, q := n)) p \<union> block (sz(p := sz p - n, q := n)) q = block sz p"
    using pq q by (auto simp: block_def)
qed

lemma layout_extend:
  assumes "layout lo hi S sz" "0 < n" "lo \<le> hi"
  shows "layout lo (hi + 8 * n) (insert hi S) (sz(hi := n))" "hi \<notin> S"
proof -
  show hS: "hi \<notin> S" using layoutD(1,3)[OF assms(1), of hi] by auto
  have "x + 8 * sz x \<le> hi" "x < hi" if "x \<in> S" for x using layoutD(1,3)[OF assms(1) that] by simp_all
  then show "layout lo (hi + 8 * n) (insert hi S) (sz(hi := n))"
    using assms hS unfolding layout_def by (auto intro: trans_le_add1 dest: order.strict_trans)
qed

section \<open>Circular lists\<close>

text \<open>\<open>walk h p xs q\<close>: following the pointers from \<open>p\<close> visits \<open>xs\<close> and gets to \<open>q\<close>.\<close>

fun walk :: "heap \<Rightarrow> nat \<Rightarrow> nat list \<Rightarrow> nat \<Rightarrow> bool" where
  "walk h p [] q \<longleftrightarrow> p = q"
| "walk h p (x # xs) q \<longleftrightarrow> p = x \<and> walk h (next_of h x) xs q"

lemma walk_append: "walk h p (xs @ ys) q \<longleftrightarrow> (\<exists>r. walk h p xs r \<and> walk h r ys q)"
  by (induction xs arbitrary: p) auto

lemma walk_hd: "walk h p xs q \<Longrightarrow> p = hd (xs @ [q])"
  by (cases xs) auto

lemma walk_cong: "(\<And>x. x \<in> set xs \<Longrightarrow> next_of h x = next_of h' x) \<Longrightarrow> walk h p xs q = walk h' p xs q"
  by (induction xs arbitrary: p) auto

lemma walk_set_size [simp]: "walk (set_size p n h) x xs y = walk h x xs y" "walk (h\<lparr>freep := f\<rparr>) x xs y = walk h x xs y"
  by (rule walk_cong; simp)+

lemma walk_set_next [simp]: "p \<notin> set xs \<Longrightarrow> walk (set_next p q h) x xs y = walk h x xs y"
  by (rule walk_cong) auto

text \<open>The node before another one.\<close>

lemma walk_pred:
  assumes "walk h x xs x" "distinct xs" "prev \<in> set xs" "next_of h prev = y" "y \<noteq> x"
  shows "\<exists>us vs. xs = us @ prev # y # vs"
proof -
  obtain us ws where xs: "xs = us @ prev # ws" using assms(3) by (auto simp: in_set_conv_decomp)
  then have "walk h y ws x" using assms(1,4) by (auto simp: walk_append)
  then show ?thesis using assms(5) xs by (cases ws) auto
qed

section \<open>The invariant\<close>

text \<open>
  The free list is a circle through \<open>base\<close>, of size 0, and the free blocks \<open>bs\<close> in increasing order; \<open>A\<close> holds the
  blocks given out. All blocks lie in the memory from \<open>lo\<close> to \<open>hi\<close> without overlap, and no free block ends where
  another begins.
\<close>

definition heap_ok :: "heap \<Rightarrow> nat \<Rightarrow> nat \<Rightarrow> nat list \<Rightarrow> nat set \<Rightarrow> bool" where
  "heap_ok h lo hi bs A \<longleftrightarrow> 0 < base h \<and> base h < lo \<and> lo \<le> hi \<and> hi \<le> 2147483648 \<and> size_at h (base h) = 0 \<and>
     walk h (base h) (base h # bs) (base h) \<and> sorted_wrt (<) bs \<and> freep h \<in> insert (base h) (set bs) \<and>
     layout lo hi (set bs \<union> A) (size_at h) \<and> set bs \<inter> A = {} \<and> (\<forall>p \<in> set bs. p + 8 * size_at h p \<notin> set bs)"

definition free_area :: "heap \<Rightarrow> nat list \<Rightarrow> nat set" where
  "free_area h bs = (\<Union>p \<in> set bs. block (size_at h) p)"

lemma free_area_cong: "(\<And>x. x \<in> set bs \<Longrightarrow> size_at h x = size_at h' x) \<Longrightarrow> free_area h bs = free_area h' bs"
  unfolding free_area_def block_def by simp

lemma heap_okD:
  assumes "heap_ok h lo hi bs A"
  shows "0 < base h" "base h < lo" "lo \<le> hi" "hi \<le> 2147483648" "size_at h (base h) = 0"
    "walk h (base h) (base h # bs) (base h)" "sorted_wrt (<) bs" "freep h \<in> insert (base h) (set bs)"
    "layout lo hi (set bs \<union> A) (size_at h)" "set bs \<inter> A = {}" "\<And>p. p \<in> set bs \<Longrightarrow> p + 8 * size_at h p \<notin> set bs"
    "\<And>p. p \<in> set bs \<union> A \<Longrightarrow> base h < p" "sorted_wrt (<) (base h # bs)"
proof -
  show 1: "0 < base h" "base h < lo" "lo \<le> hi" "hi \<le> 2147483648" "size_at h (base h) = 0"
    "walk h (base h) (base h # bs) (base h)" "sorted_wrt (<) bs" "freep h \<in> insert (base h) (set bs)"
    "layout lo hi (set bs \<union> A) (size_at h)" "set bs \<inter> A = {}" "\<And>p. p \<in> set bs \<Longrightarrow> p + 8 * size_at h p \<notin> set bs"
    using assms unfolding heap_ok_def by blast+
  show b: "base h < p" if "p \<in> set bs \<union> A" for p using layoutD(2)[OF 1(9) that] 1(2) by simp
  show "sorted_wrt (<) (base h # bs)" using 1(7) b by simp
qed

section \<open>Freeing finds the place\<close>

lemma free_scan_up:
  assumes "walk h s (ws @ p # vs) b" "sorted_wrt (<) (ws @ p # vs)" "p < bp" "\<forall>v \<in> set vs. bp < v" "\<forall>x \<in> set ws. b \<le> x" "b \<le> p"
  shows "free_scan h bp s = Some p"
  using assms
proof (induction ws arbitrary: s)
  case Nil
  then have s: "s = p" and n: "next_of h p = hd (vs @ [b])" using walk_hd[of h "next_of h p" vs b] by auto
  show ?case
  proof (cases vs)
    case Nil
    then have "next_of h p \<le> p" using n assms(6) by simp
    then show ?thesis unfolding s by (subst free_scan.simps) (use assms(3) in simp)
  next
    case (Cons v vs')
    then have "bp < next_of h p" using n assms(4) by simp
    then show ?thesis unfolding s by (subst free_scan.simps) (use assms(3) in simp)
  qed
next
  case (Cons w ws)
  then have s: "s = w" and W: "walk h (next_of h w) (ws @ p # vs) b" by auto
  have "next_of h w = hd (ws @ [p])" using walk_hd[OF W] by (cases ws) auto
  then have n: "w < next_of h w" "next_of h w \<le> p" using Cons.prems(2) by (cases ws; auto)+
  have "free_scan h bp (next_of h w) = Some p" using Cons.IH[OF W] Cons.prems by simp
  then show ?case unfolding s by (subst free_scan.simps) (use n assms(3) in simp)
qed

lemma free_scan_wrap:
  assumes "walk h s ws b" "sorted_wrt (<) ws" "\<forall>x \<in> set ws. bp < x" "b < bp"
  shows "free_scan h bp s = free_scan h bp b"
  using assms
proof (induction ws arbitrary: s)
  case (Cons w ws)
  then have s: "s = w" and W: "walk h (next_of h w) ws b" by auto
  have n: "next_of h w = b \<or> w < next_of h w" using walk_hd[OF W] Cons.prems(2) by (cases ws) auto
  have w: "bp < w" using Cons.prems(3) by simp
  have "free_scan h bp (next_of h w) = free_scan h bp b" using Cons.IH[OF W] Cons.prems by simp
  then show ?case unfolding s by (subst free_scan.simps) (use n w assms(4) in auto)
qed simp

text \<open>A sorted list splits at an address that is not in it.\<close>

lemma sorted_split:
  assumes "sorted_wrt (<) (b # bs)" "b < (bp :: nat)" "bp \<notin> set bs"
  obtains us p vs where "b # bs = us @ p # vs" "p < bp" "\<forall>v \<in> set vs. bp < v" "\<forall>u \<in> set us. u < p"
proof -
  define l where "l = takeWhile (\<lambda>x. x < bp) (b # bs)"
  define r where "r = dropWhile (\<lambda>x. x < bp) (b # bs)"
  have e: "b # bs = l @ r" by (simp only: l_def r_def takeWhile_dropWhile_id)
  have "l \<noteq> []" using assms(2) by (simp add: l_def)
  then obtain us p where l: "l = us @ [p]" by (metis rev_exhaust)
  have "p \<in> set l" by (simp add: l)
  then have p: "p < bp" unfolding l_def by (blast dest: set_takeWhileD)
  have s: "sorted_wrt (<) (us @ p # r)" using assms(1) e l by simp
  have "bp < v" if "v \<in> set r" for v
  proof (cases r)
    case (Cons x r')
    then have "\<not> x < bp" unfolding r_def by (metis hd_dropWhile list.distinct(1) list.sel(1))
    moreover have "x \<noteq> bp" using Cons e assms(2,3) by (metis in_set_conv_decomp less_irrefl set_ConsD)
    moreover have "x \<le> v" using that Cons s by (auto simp: sorted_wrt_append)
    ultimately show ?thesis by simp
  qed (use that in simp)
  then show thesis using that[of us p r] e l p s by (simp add: sorted_wrt_append)
qed

lemma free_scan_finds:
  assumes h: "walk h b (b # bs) b" "sorted_wrt (<) (b # bs)" and st: "s \<in> set (b # bs)"
    and sp: "b # bs = us @ p # vs" "p < bp" "\<forall>v \<in> set vs. bp < v"
  shows "free_scan h bp s = Some p"
proof -
  have bx: "b \<le> x" if "x \<in> set (b # bs)" for x using h(2) that by auto
  have b: "b \<le> p" "\<forall>x \<in> set us. b \<le> x" using bx by (auto simp: sp(1))
  then have bb: "b < bp" using sp(2) by simp
  have up: "free_scan h bp r = Some p" if "walk h r (ws @ p # vs) b" "us = us1 @ ws" for r ws us1
    by (rule free_scan_up[OF that(1) _ sp(2,3) _ b(1)]) (use h(2) b(2) that(2) in \<open>auto simp: sp(1) sorted_wrt_append\<close>)
  have fb: "free_scan h bp b = Some p" using up[of b us "[]"] h(1) sp(1) by simp
  obtain l r where lr: "b # bs = l @ s # r" using split_list[OF st] by blast
  then have W: "walk h s (s # r) b" using h(1) by (auto simp: walk_append)
  show ?thesis
  proof (cases "bp < s")
    case True
    then have "\<forall>x \<in> set (s # r). bp < x" using h(2) lr by (auto simp: sorted_wrt_append)
    then show ?thesis using free_scan_wrap[OF W _ _ bb] h(2) lr fb by (simp add: sorted_wrt_append)
  next
    case False
    have "s \<in> set us \<or> s = p \<or> s \<in> set vs" using st by (auto simp: sp(1))
    then have "s \<in> set (us @ [p])" using False sp(3) by auto
    from split_list[OF this] obtain l1 r1 where "us @ [p] = l1 @ s # r1" by blast
    then have "us = l1 @ (if r1 = [] then [] else s # butlast r1) \<and> hd ((if r1 = [] then [] else s # butlast r1) @ [p]) = s"
      by (cases r1 rule: rev_cases) auto
    then obtain us1 ws where u: "us @ [p] = us1 @ ws @ [p]" "us = us1 @ ws" "hd (ws @ [p]) = s" by auto
    obtain y where y: "walk h b us1 y" "walk h y (ws @ p # vs) b" using h(1) unfolding sp(1) u(2) by (auto simp: walk_append)
    have "y = s" using walk_hd[OF y(2)] u(3) by (cases ws) auto
    then show ?thesis using up[of s ws us1] y(2) u(2) by simp
  qed
qed

section \<open>Freeing keeps the heap\<close>

lemma heap_okI:
  assumes "0 < base h" "base h < lo" "lo \<le> hi" "hi \<le> 2147483648" "size_at h (base h) = 0"
    "walk h (base h) (base h # bs) (base h)" "sorted_wrt (<) bs" "freep h \<in> insert (base h) (set bs)"
    "layout lo hi (set bs \<union> A) (size_at h)" "set bs \<inter> A = {}" "\<And>p. p \<in> set bs \<Longrightarrow> p + 8 * size_at h p \<notin> set bs"
  shows "heap_ok h lo hi bs A"
  using assms unfolding heap_ok_def by blast

text \<open>A block and its end as the code computes them.\<close>

lemma heap_ok_ahead:
  assumes "heap_ok h lo hi bs A" "p \<in> set bs \<union> A"
  shows "ahead p (size_at h p) = p + 8 * size_at h p" "p + 8 \<le> p + 8 * size_at h p" "p + 8 * size_at h p \<le> hi"
    "ahead p 1 = p + 8" "u32_mod (p + 8 + (W32 - 8)) = p"
  using layoutD(1,3)[OF heap_okD(9)[OF assms(1)] assms(2)] heap_okD(4)[OF assms(1)] by (simp_all add: ahead_def u32_mod_def)

lemma size_upd_eq: "size_at (set_next p q h) = size_at h" "size_at (set_size p n h) = (size_at h)(p := n)" "size_at (h\<lparr>freep := f\<rparr>) = size_at h"
  by (auto simp: fun_eq_iff)

lemma base_split: "b # bs = us @ p # vs \<Longrightarrow> \<exists>ws. us @ [p] = b # ws"
  by (cases us) auto

lemma ring_distinct: "sorted_wrt (<) (xs :: nat list) \<Longrightarrow> distinct xs"
  by (simp add: strict_sorted_iff)

text \<open>The block \<open>v\<close> after \<open>p\<close> goes into the block \<open>bp\<close> that ends there.\<close>

lemma absorb_upper:
  assumes h: "heap_ok h lo hi bs (insert bp A)" "bp \<notin> A" and sp: "base h # bs = us @ p # v # vs" and e: "bp + 8 * size_at h bp = v"
    and d: "h1 = (set_next p (next_of h v) (set_next bp (next_of h v) (set_size bp (size_at h bp + size_at h v) h)))\<lparr>freep := p\<rparr>"
  shows "\<exists>bs1. base h # bs1 = us @ p # vs \<and> heap_ok h1 lo hi bs1 (insert bp A) \<and> set bs = insert v (set bs1) \<and>
    block (size_at h1) bp = block (size_at h) bp \<union> block (size_at h) v \<and> v \<notin> set bs1"
proof -
  note H = heap_okD[OF h(1)]
  obtain ws where ws: "us @ [p] = base h # ws" using base_split[OF sp] by blast
  have "base h # bs = (us @ [p]) @ v # vs" using sp by simp
  then have bs: "bs = ws @ v # vs" using ws by simp
  have tl: "base h # ws @ vs = us @ p # vs" using arg_cong[OF ws, of "\<lambda>l. l @ vs"] by simp
  have vb: "v \<in> set bs \<union> insert bp A" "bp \<in> set bs \<union> insert bp A" by (simp_all add: bs)
  have bpn: "bp \<notin> set bs" using H(10) by simp
  have nb: "bp \<noteq> base h" "v \<noteq> base h" using H(12)[OF vb(1)] H(12)[OF vb(2)] by simp_all
  have dv: "v \<notin> set (ws @ vs)" "v \<notin> A" using ring_distinct[OF H(7)] H(10) bs by auto
  have dp: "distinct (us @ p # v # vs)" using ring_distinct[OF H(13)] sp by simp
  have bpr: "bp \<notin> set (us @ p # v # vs)" using bpn nb(1) by (simp flip: sp)
  note M = layout_merge[OF H(9) vb(2,1) e]
  have S: "set bs \<union> insert bp A - {v} = set (ws @ vs) \<union> insert bp A" using bs dv e layoutD(1)[OF H(9) vb(2)] by auto
  have sz: "size_at h1 = (size_at h)(bp := size_at h bp + size_at h v)" by (auto simp: d fun_eq_iff)
  have ne: "h_size (hdr h1 x) = size_at h x" if "x \<noteq> bp" for x using that by (simp add: d)
  have "walk h (base h) (us @ p # v # vs) (base h)" using H(6) unfolding sp .
  then obtain y where "walk h (base h) us y" "y = p" "walk h (next_of h v) vs (base h)" by (auto simp: walk_append)
  then have "walk h1 (base h) (us @ p # vs) (base h)" using dp bpr by (auto simp: walk_append d)
  then have w: "walk h1 (base h1) (base h1 # ws @ vs) (base h1)" unfolding tl[symmetric] by (simp add: d)
  have b1: "base h1 = base h" "freep h1 = p" by (simp_all add: d)
  have pm: "p \<in> insert (base h1) (set (ws @ vs))" using arg_cong[OF tl, of set] b1 by auto
  have co: "x + 8 * size_at h1 x \<notin> set (ws @ vs)" if "x \<in> set (ws @ vs)" for x
  proof -
    have "x \<in> set bs" using that bs by auto
    then have "x \<noteq> bp" "x + 8 * size_at h x \<notin> set bs" using bpn H(11) by auto
    then show ?thesis using bs ne by auto
  qed
  have "heap_ok h1 lo hi (ws @ vs) (insert bp A)"
  proof (rule heap_okI)
    show "layout lo hi (set (ws @ vs) \<union> insert bp A) (size_at h1)" using M(1) unfolding S sz .
    show "set (ws @ vs) \<inter> insert bp A = {}" using H(10) bs by auto
    show "sorted_wrt (<) (ws @ vs)" using H(7) bs by (auto simp: sorted_wrt_append)
    show "size_at h1 (base h1) = 0" using H(5) nb by (simp add: d)
  qed (use w pm co H(1-4) b1 in auto)
  then show ?thesis using tl M(2) sz bs dv by (intro exI[of _ "ws @ vs"]) auto
qed

text \<open>The block \<open>bp\<close> goes into the free block \<open>p\<close> that ends there.\<close>

lemma absorb_lower:
  assumes h: "heap_ok h lo hi bs (insert bp A)" "bp \<notin> A" and p: "p \<in> set bs" "p + 8 * size_at h p = bp"
    and e: "bp + 8 * size_at h bp \<notin> set bs"
  shows "heap_ok (set_size p (size_at h p + size_at h bp) h) lo hi bs A"
    "block (size_at (set_size p (size_at h p + size_at h bp) h)) p = block (size_at h) p \<union> block (size_at h) bp"
proof -
  note H = heap_okD[OF h(1)]
  have pb: "p \<in> set bs \<union> insert bp A" "bp \<in> set bs \<union> insert bp A" using p(1) by simp_all
  note M = layout_merge[OF H(9) pb p(2)]
  have S: "set bs \<union> insert bp A - {bp} = set bs \<union> A" using H(10) h(2) by auto
  have nb: "p \<noteq> base h" using H(12)[OF pb(1)] by simp
  show "block (size_at (set_size p (size_at h p + size_at h bp) h)) p = block (size_at h) p \<union> block (size_at h) bp"
    using M(2) unfolding size_upd_eq .
  show "heap_ok (set_size p (size_at h p + size_at h bp) h) lo hi bs A"
  proof (rule heap_okI)
    show "layout lo hi (set bs \<union> A) (size_at (set_size p (size_at h p + size_at h bp) h))" using M(1) unfolding S size_upd_eq .
    show "x + 8 * size_at (set_size p (size_at h p + size_at h bp) h) x \<notin> set bs" if "x \<in> set bs" for x
      using H(11)[OF that] e p(2) by (auto simp: algebra_simps)
  qed (use H nb in auto)
qed

text \<open>The block \<open>bp\<close> is linked in behind \<open>p\<close>.\<close>

lemma link_block:
  assumes h: "heap_ok h lo hi bs (insert bp A)" "bp \<notin> A" and sp: "base h # bs = us @ p # vs" "p < bp" "\<forall>v \<in> set vs. bp < v"
    and n: "next_of h bp = next_of h p" and e: "bp + 8 * size_at h bp \<notin> set bs" "p \<in> set bs \<Longrightarrow> p + 8 * size_at h p \<noteq> bp"
  shows "\<exists>bs1. base h # bs1 = us @ p # bp # vs \<and> heap_ok (set_next p bp h) lo hi bs1 A \<and> set bs1 = insert bp (set bs)"
proof -
  note H = heap_okD[OF h(1)]
  obtain ws where ws: "us @ [p] = base h # ws" using base_split[OF sp(1)] by blast
  have "base h # bs = (us @ [p]) @ vs" using sp(1) by simp
  then have bs: "bs = ws @ vs" using ws by simp
  have tl: "base h # ws @ bp # vs = us @ p # bp # vs" using arg_cong[OF ws, of "\<lambda>l. l @ bp # vs"] by simp
  have bpb: "bp \<in> set bs \<union> insert bp A" by simp
  have bpn: "bp \<notin> set bs" "bp \<noteq> base h" using H(10,12) by auto
  have st: "sorted_wrt (<) (us @ p # vs)" using H(13) sp(1) by simp
  have bpr: "bp \<notin> set (us @ p # vs)" using bpn by (simp flip: sp(1))
  have "walk h (base h) (us @ p # vs) (base h)" using H(6) unfolding sp(1) .
  then have "walk (set_next p bp h) (base h) (us @ p # bp # vs) (base h)"
    using ring_distinct[OF st] bpr n by (auto simp: walk_append)
  then have w: "walk (set_next p bp h) (base h) (base h # ws @ bp # vs) (base h)" unfolding tl .
  have u: "x \<le> p" if "x \<in> set ws" for x using st ws that by (metis Un_iff append.assoc append_Cons append_Nil in_set_conv_decomp less_imp_le order_refl set_ConsD set_append sorted_wrt_append list.set_intros(2))
  have srt: "sorted_wrt (<) (ws @ bp # vs)" using H(7) bs sp(2,3) u by (fastforce simp: sorted_wrt_append)
  have S: "set (ws @ bp # vs) = insert bp (set bs)" by (auto simp: bs)
  have co: "x + 8 * size_at h x \<noteq> bp" if x: "x \<in> set bs" for x
  proof (cases "x = p")
    case False
    have xb: "x \<in> set bs \<union> insert bp A" using x by simp
    show ?thesis
    proof (cases "x \<in> set ws")
      case True
      then have "x < p" using u False by fastforce
      moreover have "p \<noteq> base h" using H(12)[OF xb] \<open>x < p\<close> by simp
      then have "p \<in> set bs" using arg_cong[OF sp(1), of set] by auto
      ultimately show ?thesis using layoutD(4)[OF H(9) xb, of p] sp(2) by simp
    next
      case False
      then show ?thesis using x bs sp(3) by auto
    qed
  qed (use e(2) x in simp)
  have "heap_ok (set_next p bp h) lo hi (ws @ bp # vs) A"
  proof (rule heap_okI)
    have "set bs \<union> insert bp A = set (ws @ bp # vs) \<union> A" by (auto simp: bs)
    then show "layout lo hi (set (ws @ bp # vs) \<union> A) (size_at (set_next p bp h))" using H(9) by (simp only: size_upd_eq)
    show "set (ws @ bp # vs) \<inter> A = {}" using H(10) h(2) S by auto
    show "x + 8 * size_at (set_next p bp h) x \<notin> set (ws @ bp # vs)" if "x \<in> set (ws @ bp # vs)" for x
      using that co H(11) e(1) layoutD(1)[OF H(9) bpb] unfolding S by auto
  qed (use H w srt S in auto)
  then show ?thesis using tl S by (intro exI[of _ "ws @ bp # vs"]) auto
qed

lemma set_next_twice [simp]: "set_next p x (set_next p y h) = set_next p x h"
  by (simp add: set_next_def)

lemma set_next_same: "next_of h p = q \<Longrightarrow> set_next p q h = h"
  by (cases h) (auto simp: set_next_def fun_eq_iff)

lemma upd_freep: "(set_next p q h)\<lparr>freep := f\<rparr> = set_next p q (h\<lparr>freep := f\<rparr>)" "(set_size p n h)\<lparr>freep := f\<rparr> = set_size p n (h\<lparr>freep := f\<rparr>)"
  by (simp_all add: set_next_def set_size_def)

lemma heap_ok_freep: "heap_ok h lo hi bs A \<Longrightarrow> p \<in> insert (base h) (set bs) \<Longrightarrow> heap_ok (h\<lparr>freep := p\<rparr>) lo hi bs A"
  unfolding heap_ok_def by simp

lemma block_le: "block sz q \<subseteq> block sz' q' \<Longrightarrow> 0 < sz q \<Longrightarrow> sz q \<le> sz' q'"
  by (simp add: block_def)

text \<open>
  First the upper neighbour: the state in the middle of \<open>free\<close>, seen with \<open>p\<close> already pointing past the blocks that
  have been joined, is a heap in which \<open>bp\<close> is still given out.
\<close>

definition free_upper :: "nat \<Rightarrow> nat \<Rightarrow> heap \<Rightarrow> heap" where
  "free_upper bp p h =
     (if ahead bp (size_at h bp) = next_of h p
      then let h' = set_size bp (u32_mod (size_at h bp + size_at h (next_of h p))) h in set_next bp (next_of h' (next_of h' p)) h'
      else set_next bp (next_of h p) h)"

definition free_lower :: "nat \<Rightarrow> nat \<Rightarrow> heap \<Rightarrow> heap" where
  "free_lower bp p h1 =
     (if ahead p (size_at h1 p) = bp
      then let h' = set_size p (u32_mod (size_at h1 p + size_at h1 bp)) h1 in set_next p (next_of h' bp) h'
      else set_next p bp h1)"

lemma free_steps: "free ap h = (let bp = u32_mod (ap + (W32 - 8)) in
    Option.bind (free_scan h bp (freep h)) (\<lambda>p. Some ((free_lower bp p (free_upper bp p h))\<lparr>freep := p\<rparr>)))"
  unfolding free_def free_upper_def free_lower_def Let_def by simp

lemma free_upper_ok:
  assumes h: "heap_ok h lo hi bs (insert bp A)" "bp \<notin> A" and sp: "base h # bs = us @ p # vs" "p < bp" "\<forall>v \<in> set vs. bp < v"
  obtains bs1 vs1 where "base h # bs1 = us @ p # vs1" "\<forall>v \<in> set vs1. bp < v" "set bs1 \<subseteq> set bs"
    "heap_ok ((set_next p (next_of (free_upper bp p h) bp) (free_upper bp p h))\<lparr>freep := p\<rparr>) lo hi bs1 (insert bp A)"
    "bp + 8 * size_at (free_upper bp p h) bp \<notin> set bs1" "next_of (free_upper bp p h) p = next_of h p"
    "free_area (free_upper bp p h) bs1 \<union> block (size_at (free_upper bp p h)) bp = free_area h bs \<union> block (size_at h) bp"
    "\<forall>x. x \<noteq> bp \<longrightarrow> size_at (free_upper bp p h) x = size_at h x" "size_at h bp \<le> size_at (free_upper bp p h) bp"
proof -
  note H = heap_okD[OF h(1)]
  have bpb: "bp \<in> set bs \<union> insert bp A" by simp
  note ad = heap_ok_ahead[OF h(1) bpb]
  have pbs: "p \<in> insert (base h) (set bs)" using arg_cong[OF sp(1), of set] by auto
  have pbp: "p \<noteq> bp" using sp(2) by simp
  have "walk h (base h) (us @ p # vs) (base h)" using H(6) unfolding sp(1) .
  then have nx: "next_of h p = hd (vs @ [base h])" by (auto simp: walk_append dest: walk_hd)
  have bpn: "bp \<notin> set bs" using H(10) by simp
  show thesis
  proof (cases "bp + 8 * size_at h bp = next_of h p")
    case True
    have "base h < bp" using H(12)[OF bpb] .
    then obtain v vs1 where vs: "vs = v # vs1" using nx True by (cases vs) auto
    then have v: "next_of h p = v" using nx by simp
    have "v \<in> set (base h # bs)" "bp < v" using sp(3) vs by (simp_all add: sp(1))
    then have vb: "v \<in> set bs \<union> insert bp A" "v \<noteq> base h" using H(12)[OF bpb] by auto
    have "bp + 8 * (size_at h bp + size_at h v) \<le> 2147483648" using layoutD(3)[OF H(9) vb(1)] H(4) True v by simp
    then have m: "u32_mod (size_at h bp + size_at h v) = size_at h bp + size_at h v" by simp
    have fu: "free_upper bp p h = set_next bp (next_of h v) (set_size bp (size_at h bp + size_at h v) h)"
      using True v m pbp by (simp add: free_upper_def ad Let_def)
    have e: "bp + 8 * size_at h bp = v" using True v by simp
    from absorb_upper[OF h sp(1)[unfolded vs] e refl] obtain bs1 where b: "base h # bs1 = us @ p # vs1"
      "heap_ok ((set_next p (next_of h v) (set_next bp (next_of h v) (set_size bp (size_at h bp + size_at h v) h)))\<lparr>freep := p\<rparr>) lo hi bs1 (insert bp A)"
      "set bs = insert v (set bs1)" "block ((size_at h)(bp := size_at h bp + size_at h v)) bp = block (size_at h) bp \<union> block (size_at h) v" "v \<notin> set bs1"
      unfolding size_upd_eq by blast
    have "v + 8 * size_at h v \<notin> set bs" using H(11)[of v] b(3) by simp
    moreover have "bp + 8 * (size_at h bp + size_at h v) = v + 8 * size_at h v" using e by simp
    moreover have "size_at (free_upper bp p h) bp = size_at h bp + size_at h v" by (simp add: fu)
    ultimately have fin: "bp + 8 * size_at (free_upper bp p h) bp \<notin> set bs1" using b(3) by (metis insertCI)
    have "free_area (free_upper bp p h) bs1 = free_area h bs1" by (rule free_area_cong) (use bpn b(3) in \<open>auto simp: fu\<close>)
    then have "free_area (free_upper bp p h) bs1 \<union> block (size_at (free_upper bp p h)) bp = free_area h bs \<union> block (size_at h) bp"
      using b(3,4) unfolding fu size_upd_eq free_area_def by auto
    then show thesis by (intro that[of bs1 vs1]) (use b fin sp(3) vs pbp in \<open>auto simp: fu\<close>)
  next
    case False
    have fu: "free_upper bp p h = set_next bp (next_of h p) h" using False by (simp add: free_upper_def ad)
    have fin: "bp + 8 * size_at h bp \<notin> set bs"
    proof
      assume a: "bp + 8 * size_at h bp \<in> set bs"
      then have "bp + 8 * size_at h bp \<in> set (us @ p # vs)" by (simp flip: sp(1))
      moreover have "x < bp" if "x \<in> set us" for x using H(13) sp(2) that unfolding sp(1) by (auto simp: sorted_wrt_append)
      ultimately have "bp + 8 * size_at h bp \<in> set vs" using sp(2) by fastforce
      then obtain v vs1 where vs: "vs = v # vs1" "v \<le> bp + 8 * size_at h bp" using H(13) sp(1) by (cases vs) (auto simp: sorted_wrt_append)
      have "v \<in> set (base h # bs)" "bp < v" using sp(3) vs by (simp_all add: sp(1))
      then have "v \<in> set bs \<union> insert bp A" "bp < v" using H(12)[OF bpb] by auto
      then have "bp + 8 * size_at h bp \<le> v" using layoutD(4)[OF H(9) bpb] by simp
      then show False using vs nx False by simp
    qed
    have eq: "(set_next p (next_of (free_upper bp p h) bp) (free_upper bp p h))\<lparr>freep := p\<rparr> = set_next bp (next_of h p) (h\<lparr>freep := p\<rparr>)"
      unfolding fu upd_freep by (rule set_next_same) (use pbp in simp)
    have hf: "heap_ok (h\<lparr>freep := p\<rparr>) lo hi bs (insert bp A)" by (rule heap_ok_freep[OF h(1) pbs])
    have bpr: "bp \<notin> set (base h # bs)" using bpn H(12)[OF bpb] by auto
    have "walk (set_next bp (next_of h p) (h\<lparr>freep := p\<rparr>)) (base h) (base h # bs) (base h)"
      using H(6) unfolding walk_set_next[OF bpr] walk_set_size(2) .
    then have "heap_ok ((set_next p (next_of (free_upper bp p h) bp) (free_upper bp p h))\<lparr>freep := p\<rparr>) lo hi bs (insert bp A)"
      using hf unfolding eq heap_ok_def size_upd_eq by simp
    from that[of bs vs, OF sp(1,3) _ this] show thesis using fin pbp by (simp add: fu free_area_def block_def)
  qed
qed

lemma set_size_next: "set_size p n (set_next r q h) = set_next r q (set_size p n h)"
  by (auto simp: set_size_def set_next_def fun_eq_iff)

lemma free_area_simps [simp]: "free_area (set_next p q h) bs = free_area h bs" "free_area (h\<lparr>freep := f\<rparr>) bs = free_area h bs"
  by (simp_all add: free_area_def)

lemma free_area_split: "p \<in> set bs \<Longrightarrow> free_area h bs = block (size_at h) p \<union> (\<Union>x \<in> set bs - {p}. block (size_at h) x)"
  unfolding free_area_def by auto

lemma free_lower_ok:
  assumes h: "heap_ok ((set_next p (next_of g bp) g)\<lparr>freep := p\<rparr>) lo hi bs (insert bp A)" "bp \<notin> A"
    and sp: "base g # bs = us @ p # vs" "p < bp" "\<forall>v \<in> set vs. bp < v" and e: "bp + 8 * size_at g bp \<notin> set bs"
  obtains bs1 q where "heap_ok ((free_lower bp p g)\<lparr>freep := p\<rparr>) lo hi bs1 A" "q \<in> set bs1" "size_at g bp \<le> size_at (free_lower bp p g) q"
    "free_area (free_lower bp p g) bs1 = free_area g bs \<union> block (size_at g) bp" "\<forall>x \<in> A. size_at (free_lower bp p g) x = size_at g x"
proof -
  define hX where "hX = (set_next p (next_of g bp) g)\<lparr>freep := p\<rparr>"
  have hX: "heap_ok hX lo hi bs (insert bp A)" using h(1) by (simp add: hX_def)
  have sX: "size_at hX = size_at g" "base hX = base g" "next_of hX bp = next_of hX p" using sp(2) by (simp_all add: hX_def size_upd_eq)
  note H = heap_okD[OF hX]
  have szX: "h_size (hdr hX x) = size_at g x" for x by (simp add: hX_def)
  have pbs: "p = base g \<or> p \<in> set bs" using arg_cong[OF sp(1), of set] by auto
  have bpb: "bp \<in> set bs \<union> insert bp A" by simp
  note ad = heap_ok_ahead(1,3)[OF hX, unfolded szX]
  have base: "size_at g (base g) = 0" "base g < bp" using H(5) H(12)[OF bpb] sX(2) szX by auto
  have "base g < 2147483648" using H(2-4) sX(2) by simp
  then have ah: "ahead p (size_at g p) = p + 8 * size_at g p" using pbs ad(1)[of p] base(1) by (auto simp: ahead_def)
  show thesis
  proof (cases "p + 8 * size_at g p = bp")
    case True
    then have pb: "p \<in> set bs" using pbs base by auto
    have "bp + 8 * size_at g bp \<le> 2147483648" using ad(2)[OF bpb] H(4) by simp
    then have "size_at g p + size_at g bp < W32" using True by simp
    then have fl: "free_lower bp p g = set_next p (next_of g bp) (set_size p (size_at g p + size_at g bp) g)"
      using True ah by (simp add: free_lower_def Let_def)
    have eq: "(free_lower bp p g)\<lparr>freep := p\<rparr> = set_size p (size_at hX p + size_at hX bp) hX"
      unfolding fl hX_def upd_freep set_size_next by simp
    have l: "p + 8 * size_at hX p = bp" "bp + 8 * size_at hX bp \<notin> set bs" using True e by (simp_all add: szX)
    note B = absorb_lower[OF hX h(2) pb l]
    have szf: "size_at (free_lower bp p g) = (size_at g)(p := size_at g p + size_at g bp)" by (auto simp: fl fun_eq_iff)
    have bb: "block (size_at (free_lower bp p g)) p = block (size_at g) p \<union> block (size_at g) bp"
      using B(2) unfolding size_upd_eq sX(1) szX szf .
    have "block (size_at (free_lower bp p g)) x = block (size_at g) x" if "x \<noteq> p" for x using that by (simp add: szf block_def)
    then have fa: "free_area (free_lower bp p g) bs = free_area g bs \<union> block (size_at g) bp"
      unfolding free_area_split[OF pb] bb by auto
    have "p \<notin> A" using H(10) pb by auto
    then have "\<forall>x \<in> A. size_at (free_lower bp p g) x = size_at g x" by (auto simp: fl)
    then show thesis using that[of bs p] B(1) pb fa unfolding eq by (simp add: fl)
  next
    case False
    then have fl: "free_lower bp p g = set_next p bp g" using ah by (simp add: free_lower_def)
    have eq: "(free_lower bp p g)\<lparr>freep := p\<rparr> = set_next p bp hX" unfolding fl hX_def upd_freep by simp
    have l: "bp + 8 * size_at hX bp \<notin> set bs" "p \<in> set bs \<Longrightarrow> p + 8 * size_at hX p \<noteq> bp" using False e by (simp_all add: szX)
    obtain bs1 where b: "heap_ok (set_next p bp hX) lo hi bs1 A" "set bs1 = insert bp (set bs)"
      using link_block[OF hX h(2) sp(1)[folded sX(2)] sp(2,3) sX(3) l] by blast
    have "free_area g bs1 = free_area g bs \<union> block (size_at g) bp" unfolding free_area_def b(2) by auto
    then show thesis using that[of bs1 bp] b unfolding eq by (simp add: fl)
  qed
qed

lemma free_ok:
  assumes h: "heap_ok h lo hi bs (insert bp A)" "bp \<notin> A"
  obtains h' bs' q where "free (bp + 8) h = Some h'" "heap_ok h' lo hi bs' A" "q \<in> set bs'" "size_at h bp \<le> size_at h' q"
    "free_area h' bs' = free_area h bs \<union> block (size_at h) bp" "\<forall>x \<in> A. size_at h' x = size_at h x"
proof -
  note H = heap_okD[OF h(1)]
  have bpb: "bp \<in> set bs \<union> insert bp A" by simp
  have bpn: "bp \<notin> set bs" using H(10) by simp
  obtain us p vs where sp: "base h # bs = us @ p # vs" "p < bp" "\<forall>v \<in> set vs. bp < v"
    by (rule sorted_split[OF H(13) H(12)[OF bpb] bpn])
  have "freep h \<in> set (base h # bs)" using H(8) by simp
  note sc = free_scan_finds[OF H(6,13) this sp]
  let ?g = "free_upper bp p h"
  have bg: "base ?g = base h" by (simp add: free_upper_def Let_def)
  obtain bs1 vs1 where g: "base h # bs1 = us @ p # vs1" "\<forall>v \<in> set vs1. bp < v" "set bs1 \<subseteq> set bs"
    "heap_ok ((set_next p (next_of ?g bp) ?g)\<lparr>freep := p\<rparr>) lo hi bs1 (insert bp A)" "bp + 8 * size_at ?g bp \<notin> set bs1"
    "free_area ?g bs1 \<union> block (size_at ?g) bp = free_area h bs \<union> block (size_at h) bp"
    "\<forall>x. x \<noteq> bp \<longrightarrow> size_at ?g x = size_at h x" "size_at h bp \<le> size_at ?g bp"
    by (rule free_upper_ok[OF h sp])
  obtain bs2 q where f: "heap_ok ((free_lower bp p ?g)\<lparr>freep := p\<rparr>) lo hi bs2 A" "q \<in> set bs2" "size_at ?g bp \<le> size_at (free_lower bp p ?g) q"
    "free_area (free_lower bp p ?g) bs2 = free_area ?g bs1 \<union> block (size_at ?g) bp" "\<forall>x \<in> A. size_at (free_lower bp p ?g) x = size_at ?g x"
    by (rule free_lower_ok[OF g(4) h(2) g(1)[folded bg] sp(2) g(2,5)])
  have fr: "free (bp + 8) h = Some ((free_lower bp p ?g)\<lparr>freep := p\<rparr>)"
    unfolding free_steps heap_ok_ahead(5)[OF h(1) bpb] Let_def sc by simp
  have "\<forall>x \<in> A. size_at (free_lower bp p ?g) x = size_at h x" using f(5) g(7) h(2) by (metis)
  then show thesis using that[OF fr f(1,2)] f(3,4) g(6,8) by (simp add: order.trans)
qed

section \<open>Taking a block\<close>

lemma unlink_block:
  assumes h: "heap_ok h lo hi bs A" and prev: "prev \<in> set (base h # bs)" "next_of h prev = y" "y \<in> set bs"
  obtains bs1 where "heap_ok ((set_next prev (next_of h y) h)\<lparr>freep := prev\<rparr>) lo hi bs1 (insert y A)" "set bs = insert y (set bs1)"
    "y \<notin> set bs1" "prev \<in> insert (base h) (set bs1)"
proof -
  note H = heap_okD[OF h]
  have yb: "y \<in> set bs \<union> A" using prev(3) by simp
  have ny: "y \<noteq> base h" using H(12)[OF yb] by simp
  obtain us vs where sp: "base h # bs = us @ prev # y # vs" using walk_pred[OF H(6) ring_distinct[OF H(13)] prev(1,2) ny] by blast
  obtain ws where ws: "us @ [prev] = base h # ws" using base_split[OF sp] by blast
  have "base h # bs = (us @ [prev]) @ y # vs" using sp by simp
  then have bs: "bs = ws @ y # vs" using ws by simp
  have tl: "base h # ws @ vs = us @ prev # vs" using arg_cong[OF ws, of "\<lambda>l. l @ vs"] by simp
  have dp: "distinct (us @ prev # y # vs)" using ring_distinct[OF H(13)] sp by simp
  have dv: "y \<notin> set (ws @ vs)" using ring_distinct[OF H(7)] bs by simp
  let ?h = "(set_next prev (next_of h y) h)\<lparr>freep := prev\<rparr>"
  have "walk h (base h) (us @ prev # y # vs) (base h)" using H(6) unfolding sp .
  then have "walk ?h (base h) (us @ prev # vs) (base h)" using dp by (auto simp: walk_append)
  then have w: "walk ?h (base ?h) (base ?h # ws @ vs) (base ?h)" unfolding tl[symmetric] by simp
  have pm: "prev \<in> insert (base h) (set (ws @ vs))" using arg_cong[OF tl, of set] by auto
  have "heap_ok ?h lo hi (ws @ vs) (insert y A)"
  proof (rule heap_okI)
    have "set bs \<union> A = set (ws @ vs) \<union> insert y A" by (auto simp: bs)
    then show "layout lo hi (set (ws @ vs) \<union> insert y A) (size_at ?h)" using H(9) by (simp only: size_upd_eq)
    show "sorted_wrt (<) (ws @ vs)" using H(7) bs by (auto simp: sorted_wrt_append)
    show "set (ws @ vs) \<inter> insert y A = {}" using H(10) bs dv by auto
    show "x + 8 * size_at ?h x \<notin> set (ws @ vs)" if "x \<in> set (ws @ vs)" for x using H(11)[of x] that bs by auto
  qed (use w pm H(1-5) in auto)
  then show thesis by (rule that) (use bs dv pm in auto)
qed

lemma split_block:
  assumes h: "heap_ok h lo hi bs A" and y: "y \<in> set bs" and n: "0 < n" "n < size_at h y" and q: "q = y + 8 * (size_at h y - n)"
    and d: "h' = set_size q n (set_size y (size_at h y - n) h)"
  shows "heap_ok h' lo hi bs (insert q A)" "q \<notin> set bs \<union> A" "block (size_at h') y \<union> block (size_at h') q = block (size_at h) y"
proof -
  note H = heap_okD[OF h]
  have yb: "y \<in> set bs \<union> A" using y by simp
  note S = layout_split[OF H(9) yb n q]
  have sz: "size_at h' = (size_at h)(y := size_at h y - n, q := n)" by (auto simp: d fun_eq_iff)
  show "q \<notin> set bs \<union> A" by (rule S(2))
  have ny: "base h \<noteq> y" "base h \<noteq> q" using H(12)[OF yb] q by auto
  show "block (size_at h') y \<union> block (size_at h') q = block (size_at h) y" using S(3) unfolding sz .
  show "heap_ok h' lo hi bs (insert q A)"
  proof (rule heap_okI)
    show "layout lo hi (set bs \<union> insert q A) (size_at h')" using S(1) unfolding sz Un_insert_right .
    show "set bs \<inter> insert q A = {}" using H(10) S(2) by auto
    show "x + 8 * size_at h' x \<notin> set bs" if x: "x \<in> set bs" for x
    proof -
      have "x \<noteq> q" using x S(2) by auto
      then show ?thesis using H(11)[OF x] S(2) q by (auto simp: d)
    qed
    show "size_at h' (base h') = 0" using H(5) ny by (simp add: d)
    show "walk h' (base h') (base h' # bs) (base h')" using H(6) unfolding d heap_upd_sel walk_set_size .
  qed (use H(1-4,7,8) in \<open>simp_all add: d\<close>)
qed

lemma take_block_ok:
  assumes h: "heap_ok h lo hi bs A" and prev: "prev \<in> set (base h # bs)" "next_of h prev = y" "y \<in> set bs" and n: "0 < n" "n \<le> size_at h y"
  obtains q h' bs' where "take_block n prev y h = (q + 8, h')" "heap_ok h' lo hi bs' (insert q A)" "q \<notin> A" "size_at h' q = n"
    "free_area h' bs' \<union> block (size_at h') q = free_area h bs" "\<forall>x \<in> A. size_at h' x = size_at h x"
proof (cases "size_at h y = n")
  case True
  note H = heap_okD[OF h]
  have yb: "y \<in> set bs \<union> A" "y \<notin> A" using prev(3) H(10) by auto
  obtain bs1 where b: "heap_ok ((set_next prev (next_of h y) h)\<lparr>freep := prev\<rparr>) lo hi bs1 (insert y A)" "set bs = insert y (set bs1)"
    by (rule unlink_block[OF h prev])
  have "take_block n prev y h = (y + 8, (set_next prev (next_of h y) h)\<lparr>freep := prev\<rparr>)"
    using True heap_ok_ahead(4)[OF h yb(1)] by (simp add: take_block_def)
  from that[OF this b(1) yb(2)] show thesis using True b(2) by (auto simp: free_area_def size_upd_eq)
next
  case False
  note H = heap_okD[OF h]
  have yb: "y \<in> set bs \<union> A" using prev(3) by simp
  have lt: "n < size_at h y" using False n(2) by simp
  define q where "q = y + 8 * (size_at h y - n)"
  define h' where "h' = set_size q n (set_size y (size_at h y - n) h)"
  note S = split_block[OF h prev(3) n(1) lt q_def h'_def]
  have qb: "q \<in> set bs \<union> insert q A" by simp
  have yq: "y \<noteq> q" using prev(3) S(2) by auto
  have qle: "q \<le> 2147483648" using heap_ok_ahead(3)[OF h yb] H(4) unfolding q_def by linarith
  have "ahead y (size_at (set_size y (size_at h y - n) h) y) = q" using qle by (simp add: ahead_def q_def)
  moreover have "ahead q 1 = q + 8" by (rule heap_ok_ahead(4)[OF S(1) qb])
  ultimately have t: "take_block n prev y h = (q + 8, h'\<lparr>freep := prev\<rparr>)" using False by (simp add: take_block_def Let_def h'_def)
  have "prev \<in> insert (base h') (set bs)" using prev(1) by (simp add: h'_def)
  note F = heap_ok_freep[OF S(1) this]
  have "free_area h' bs \<union> block (size_at h') q = free_area h bs"
  proof -
    have "(\<Union>x \<in> set bs - {y}. block (size_at h') x) = (\<Union>x \<in> set bs - {y}. block (size_at h) x)"
      using S(2) by (intro SUP_cong) (auto simp: h'_def block_def)
    then show ?thesis unfolding free_area_split[OF prev(3)] S(3)[symmetric] by auto
  qed
  moreover have "size_at h' x = size_at h x" if "x \<in> A" for x using that S(2) H(10) prev(3) by (auto simp: h'_def)
  ultimately show thesis using that[OF t F] S(2) by (simp add: h'_def)
qed

section \<open>Searching and growing\<close>

text \<open>One way round the list from \<open>q\<close>, the node \<open>freep\<close> points to: the first block that is large enough, or none.\<close>

lemma malloc_loop_search:
  assumes "walk h p (ys @ [freep h]) r" "freep h \<notin> set ys" "next_of h prevp = p"
  shows "(\<exists>prev y. prev \<in> insert prevp (set ys) \<and> y \<in> insert (freep h) (set ys) \<and> next_of h prev = y \<and> n \<le> size_at h y \<and>
        malloc_loop sbrk n prevp p h k = (case take_block n prev y h of (r, h1) \<Rightarrow> Some (Inr (r, h1, k)))) \<or>
     (\<forall>y \<in> insert (freep h) (set ys). size_at h y < n) \<and>
        malloc_loop sbrk n prevp p h k = Option.bind (morecore sbrk n h k) (\<lambda>x. case x of
            Inl e \<Rightarrow> Some (Inl e)
          | Inr (p1, h1, k1) \<Rightarrow> if p1 = 0 then Some (Inr (0, h1, k1)) else malloc_loop sbrk n p1 (next_of h1 p1) h1 k1)"
  using assms
proof (induction ys arbitrary: p prevp)
  case Nil
  then have p: "p = freep h" by simp
  show ?case
  proof (cases "n \<le> size_at h p")
    case True
    then have "malloc_loop sbrk n prevp p h k = (case take_block n prevp p h of (r, h1) \<Rightarrow> Some (Inr (r, h1, k)))"
      by (subst malloc_loop.simps) simp
    then show ?thesis using True Nil.prems(3) p by auto
  next
    case False
    then show ?thesis using p by (subst (2) malloc_loop.simps) simp
  qed
next
  case (Cons y ys)
  then have p: "p = y" and W: "walk h (next_of h y) (ys @ [freep h]) r" by auto
  have ne: "y \<noteq> freep h" using Cons.prems(2) by auto
  show ?case
  proof (cases "n \<le> size_at h y")
    case True
    then have "malloc_loop sbrk n prevp p h k = (case take_block n prevp p h of (r, h1) \<Rightarrow> Some (Inr (r, h1, k)))"
      unfolding p by (subst malloc_loop.simps) simp
    then show ?thesis using True Cons.prems(3) p by auto
  next
    case False
    then have "malloc_loop sbrk n prevp p h k = malloc_loop sbrk n y (next_of h y) h k"
      unfolding p using ne by (subst malloc_loop.simps) simp
    then show ?thesis using Cons.IH[OF W _ refl] Cons.prems(2) False by auto
  qed
qed

lemma malloc_loop_ok:
  assumes h: "heap_ok h lo hi bs A" and n: "0 < n"
  obtains (found) q h' bs' where "malloc_loop sbrk n (freep h) (next_of h (freep h)) h k = Some (Inr (q + 8, h', k))"
      "heap_ok h' lo hi bs' (insert q A)" "q \<notin> A" "size_at h' q = n"
      "free_area h' bs' \<union> block (size_at h') q = free_area h bs" "\<forall>x \<in> A. size_at h' x = size_at h x"
    | (full) "\<forall>y \<in> set bs. size_at h y < n"
      "malloc_loop sbrk n (freep h) (next_of h (freep h)) h k = Option.bind (morecore sbrk n h k) (\<lambda>x. case x of
            Inl e \<Rightarrow> Some (Inl e)
          | Inr (p1, h1, k1) \<Rightarrow> if p1 = 0 then Some (Inr (0, h1, k1)) else malloc_loop sbrk n p1 (next_of h1 p1) h1 k1)"
proof -
  note H = heap_okD[OF h]
  have "freep h \<in> set (base h # bs)" using H(8) by simp
  then obtain us vs where sp: "base h # bs = us @ freep h # vs" using split_list by metis
  have dp: "distinct (us @ freep h # vs)" using ring_distinct[OF H(13)] sp by simp
  have "walk h (base h) (us @ freep h # vs) (base h)" using H(6) unfolding sp .
  then have w: "walk h (next_of h (freep h)) ((vs @ us) @ [freep h]) (next_of h (freep h))" by (auto simp: walk_append)
  have nq: "freep h \<notin> set (vs @ us)" using dp by auto
  have S: "insert (freep h) (set (vs @ us)) = set (base h # bs)" unfolding sp by auto
  from malloc_loop_search[OF w nq refl, unfolded S, of n sbrk k] show thesis
  proof (elim disjE exE conjE)
    fix prev y
    assume a: "prev \<in> set (base h # bs)" "y \<in> set (base h # bs)" "next_of h prev = y" "n \<le> size_at h y"
      "malloc_loop sbrk n (freep h) (next_of h (freep h)) h k = (case take_block n prev y h of (r, h1) \<Rightarrow> Some (Inr (r, h1, k)))"
    have "y \<noteq> base h" using a(4) n H(5) by auto
    then have y: "y \<in> set bs" using a(2) by simp
    obtain q h' bs' where t: "take_block n prev y h = (q + 8, h')" "heap_ok h' lo hi bs' (insert q A)" "q \<notin> A" "size_at h' q = n"
      "free_area h' bs' \<union> block (size_at h') q = free_area h bs" "\<forall>x \<in> A. size_at h' x = size_at h x"
      by (rule take_block_ok[OF h a(1,3) y n a(4)])
    show thesis by (rule found[OF _ t(2-6)]) (simp add: a(5) t(1))
  qed (use full in simp)
qed

text \<open>What the allocator asks of \<open>sbrk\<close>: it fails without a change, for lack of \<open>room\<close>, or moves the break.\<close>

locale sbrk_service =
  fixes sbrk :: "int \<Rightarrow> 'k \<Rightarrow> (nat \<times> 'k) kernel" and brk :: "'k \<Rightarrow> nat" and good :: "'k \<Rightarrow> bool" and room :: "'k \<Rightarrow> int \<Rightarrow> bool"
  assumes sbrk_grows: "good k \<Longrightarrow> 0 < n \<Longrightarrow> n < 2147483648 \<Longrightarrow> \<exists>r k'. sbrk n k = Inr (r, k') \<and> good k' \<and>
      (r = 4294967295 \<and> brk k' = brk k \<and> \<not> room k n \<or> r = brk k \<and> brk k' = brk k + nat n)"
    and brk_bound: "good k \<Longrightarrow> brk k \<le> 2147483648"
begin

lemma morecore_ok:
  assumes h: "heap_ok h lo (brk k) bs A" and g: "good k" and n: "n < 268435456"
  obtains (failed) k' where "morecore sbrk n h k = Some (Inr (0, h, k'))" "good k'" "brk k' = brk k" "\<not> room k (8 * int (max n 4096))"
    | (grown) h' k' bs' q where "morecore sbrk n h k = Some (Inr (freep h', h', k'))" "good k'" "heap_ok h' lo (brk k') bs' A"
      "q \<in> set bs'" "n \<le> size_at h' q" "free_area h' bs' = free_area h bs \<union> {brk k..<brk k'}" "\<forall>x \<in> A. size_at h' x = size_at h x"
      "brk k' = brk k + 8 * max n 4096"
proof -
  note H = heap_okD[OF h]
  define nu where "nu = (if n < 4096 then 4096 else n)"
  have nu: "nu = max n 4096" "0 < nu" "n \<le> nu" "nu * 8 < 2147483648" using n by (auto simp: nu_def)
  have ai: "as_int (u32_mod (nu * 8)) = 8 * int nu" using nu(4) by (simp add: as_int_def)
  have pos: "0 < 8 * int nu" "8 * int nu < 2147483648" using nu by auto
  from sbrk_grows[OF g pos] obtain r k' where r: "sbrk (8 * int nu) k = Inr (r, k')" "good k'"
    "r = 4294967295 \<and> brk k' = brk k \<and> \<not> room k (8 * int nu) \<or> r = brk k \<and> brk k' = brk k + nat (8 * int nu)" by blast
  from r(3) show thesis
  proof (elim disjE conjE)
    assume "r = 4294967295" "brk k' = brk k" "\<not> room k (8 * int nu)"
    moreover from this have "morecore sbrk n h k = Some (Inr (0, h, k'))"
      unfolding morecore_def Let_def nu_def[symmetric] ai r(1) by simp
    ultimately show thesis using failed r(2) nu(1) by simp
  next
    assume a: "r = brk k" "brk k' = brk k + nat (8 * int nu)"
    then have b': "brk k' = brk k + 8 * nu" by simp
    define bp where "bp = brk k"
    have le: "bp + 8 * nu \<le> 2147483648" using brk_bound[OF r(2)] b' by (simp add: bp_def)
    note X = layout_extend[OF H(9) nu(2) H(3)]
    have nbp: "bp \<notin> set bs" "bp \<notin> A" "bp \<noteq> base h" using X(2) H(2,3) by (auto simp: bp_def)
    have h1: "heap_ok (set_size bp nu h) lo (brk k') bs (insert bp A)"
    proof (rule heap_okI)
      show "layout lo (brk k') (set bs \<union> insert bp A) (size_at (set_size bp nu h))"
        using X(1) unfolding size_upd_eq Un_insert_right bp_def b' .
      show "x + 8 * size_at (set_size bp nu h) x \<notin> set bs" if "x \<in> set bs" for x using H(11)[OF that] that nbp by auto
      show "walk (set_size bp nu h) (base (set_size bp nu h)) (base (set_size bp nu h) # bs) (base (set_size bp nu h))"
        using H(6) unfolding heap_upd_sel walk_set_size .
    qed (use H nbp le b' in \<open>auto simp: bp_def\<close>)
    have bpb: "bp \<in> set bs \<union> insert bp A" by simp
    obtain h' bs' q where f: "free (bp + 8) (set_size bp nu h) = Some h'" "heap_ok h' lo (brk k') bs' A" "q \<in> set bs'"
      "size_at (set_size bp nu h) bp \<le> size_at h' q" "free_area h' bs' = free_area (set_size bp nu h) bs \<union> block (size_at (set_size bp nu h)) bp"
      "\<forall>x \<in> A. size_at h' x = size_at (set_size bp nu h) x"
      by (rule free_ok[OF h1 nbp(2)])
    have "r \<noteq> W32 - 1" using a(1) le by (simp add: bp_def)
    then have m: "morecore sbrk n h k = Some (Inr (freep h', h', k'))"
      unfolding morecore_def Let_def nu_def[symmetric] ai r(1) using heap_ok_ahead(4)[OF h1 bpb] f(1) a(1) by (simp add: bp_def)
    have fa: "free_area (set_size bp nu h) bs = free_area h bs" by (rule free_area_cong) (use nbp in auto)
    have bl: "block (size_at (set_size bp nu h)) bp = {brk k..<brk k'}" by (simp add: block_def bp_def b')
    have sA: "\<forall>x \<in> A. size_at h' x = size_at h x" using f(6) nbp by auto
    show thesis by (rule grown[OF m r(2) f(2,3) _ _ sA]) (use f(4,5) fa bl nu(1,3) b' in simp_all)
  qed
qed

text \<open>\<open>malloc\<close> on a heap that has been set up.\<close>

lemma malloc_heap_ok:
  assumes h: "heap_ok h lo (brk k) bs A" and g: "good k" and n: "0 < n" "n < 268435456"
  obtains (block) q h' k' bs' where "malloc_loop sbrk n (freep h) (next_of h (freep h)) h k = Some (Inr (q + 8, h', k'))" "good k'"
      "heap_ok h' lo (brk k') bs' (insert q A)" "q \<notin> A" "size_at h' q = n"
      "free_area h' bs' \<union> block (size_at h') q = free_area h bs \<union> {brk k..<brk k'}" "\<forall>x \<in> A. size_at h' x = size_at h x"
    | (null) k' where "malloc_loop sbrk n (freep h) (next_of h (freep h)) h k = Some (Inr (0, h, k'))" "good k'" "brk k' = brk k"
      "\<forall>y \<in> set bs. size_at h y < n" "\<not> room k (8 * int (max n 4096))"
proof (cases rule: malloc_loop_ok[OF h n(1), where sbrk = sbrk and k = k])
  case (1 q h' bs')
  then show thesis by (intro block[OF _ g]) auto
next
  case 2
  show thesis
  proof (cases rule: morecore_ok[OF h g n(2)])
    case (1 k')
    show thesis by (rule null[OF _ 1(2,3) 2(1) 1(4)]) (simp add: 2(2) 1(1))
  next
    case (2 h1 k1 bs1 q1)
    have fp: "freep h1 \<noteq> 0" using heap_okD(1,8,12)[OF 2(3)] by fastforce
    have eq: "malloc_loop sbrk n (freep h) (next_of h (freep h)) h k = malloc_loop sbrk n (freep h1) (next_of h1 (freep h1)) h1 k1"
      using \<open>malloc_loop sbrk n (freep h) (next_of h (freep h)) h k = _\<close> 2(1) fp by simp
    show thesis
    proof (cases rule: malloc_loop_ok[OF 2(3) n(1), where sbrk = sbrk and k = k1])
      case (1 q h' bs')
      show thesis by (rule block[OF _ 2(2) 1(2,3,4)]) (use eq 1(1,5,6) 2(6,7) in auto)
    next
      case f: 2
      then show thesis using 2(4,5) by fastforce
    qed
  qed
qed

end

section \<open>The allocator on the kernel\<close>

text \<open>
  \<open>sbrk\<close> as \<open>sysproc.c\<close> has it, on the size and the memory of the process with page directory \<open>d\<close>.
\<close>

definition sbrk_mem :: "u32 \<Rightarrow> int \<Rightarrow> u32 \<times> mem \<Rightarrow> (nat \<times> u32 \<times> mem) kernel" where
  "sbrk_mem d n k =
     (case k of (sz, m) \<Rightarrow>
        let addr = unat sz in
        kbind (grow_memory d sz n m) (\<lambda>(r, m1). if n \<noteq> 0 \<and> r = 0 then Inr (W32 - 1, sz, m1) else Inr (addr, r, m1)))"

definition mem_brk :: "u32 \<times> mem \<Rightarrow> nat" where
  "mem_brk k = unat (fst k)"

definition mem_good :: "u32 \<Rightarrow> u32 \<times> mem \<Rightarrow> bool" where
  "mem_good d k \<longleftrightarrow> (\<exists>xs. proc_mem d (snd k) (fst k) xs)"

text \<open>There is room for \<open>n\<close> more bytes: user addresses, and free pages for them and for page tables.\<close>

definition mem_room :: "u32 \<Rightarrow> u32 \<times> mem \<Rightarrow> int \<Rightarrow> bool" where
  "mem_room d k n \<longleftrightarrow> uint (fst k) + n < 2 ^ 31 \<and> (\<exists>xs. free_ok (snd k) xs \<and>
     1024 + (npages (nat (uint (fst k) + n)) - npages (unat (fst k))) < length xs + card (tabs (snd k) d))"

lemma sbrk_mem_grows:
  assumes "mem_good d k" "0 < n" "n < 2147483648"
  shows "\<exists>r k'. sbrk_mem d n k = Inr (r, k') \<and> mem_good d k' \<and>
      (r = 4294967295 \<and> mem_brk k' = mem_brk k \<and> \<not> mem_room d k n \<or> r = mem_brk k \<and> mem_brk k' = mem_brk k + nat n)"
proof -
  obtain sz m where k: "k = (sz, m)" by (cases k)
  obtain xs where p: "proc_mem d m sz xs" using assms(1) k by (auto simp: mem_good_def)
  have b: "- (2 ^ 31) \<le> n" "n < 2 ^ 31" using assms by simp_all
  have n0: "0 \<le> n" "n \<noteq> 0" using assms by simp_all
  from grow_memory_ok[OF p b] obtain r s' m' ys where g: "grow_memory d sz n m = Inr (r, m')" "proc_mem d m' s' ys"
    "uint s' = uint sz + n \<and> r = s' \<or>
      s' = sz \<and> r = 0 \<and> (2 ^ 31 \<le> uint sz + n \<or> length xs + card (tabs m d) \<le> 1024 + (npages (nat (uint sz + n)) - npages (unat sz)))"
    unfolding if_P[OF n0(1)] by blast
  from g(3) show ?thesis
  proof (elim disjE conjE)
    assume a: "uint s' = uint sz + n" "r = s'"
    have "0 < uint s'" using a(1) assms(2) uint_nonnegative[of sz] by linarith
    then have "r \<noteq> 0" using a(2) by auto
    then have s: "sbrk_mem d n k = Inr (unat sz, s', m')" using g(1) a(2) k by (simp add: sbrk_mem_def)
    have "int (unat s') = int (unat sz) + n" using a(1) by simp
    then have "unat s' = unat sz + nat n" using assms(2) by linarith
    then show ?thesis using s g(2) k by (intro exI[of _ "unat sz"] exI[of _ "(s', m')"]) (auto simp: mem_good_def mem_brk_def)
  next
    assume a: "s' = sz" "r = 0" "2 ^ 31 \<le> uint sz + n"
    then have s: "sbrk_mem d n k = Inr (4294967295, sz, m')" using g(1) k n0 by (simp add: sbrk_mem_def)
    have "\<not> mem_room d k n" using a(3) k by (simp add: mem_room_def)
    then show ?thesis using s g(2) k a(1) by (intro exI[of _ 4294967295] exI[of _ "(sz, m')"]) (auto simp: mem_good_def mem_brk_def)
  next
    assume a: "s' = sz" "r = 0" "length xs + card (tabs m d) \<le> 1024 + (npages (nat (uint sz + n)) - npages (unat sz))"
    then have s: "sbrk_mem d n k = Inr (4294967295, sz, m')" using g(1) k n0 by (simp add: sbrk_mem_def)
    have "free_ok m xs" using spaceD(1)[OF proc_memD(1)[OF p]] by (simp add: clean_def)
    then have "ys = xs" if "free_ok m ys" for ys using that chain_unique unfolding free_ok_def by blast
    then have "\<not> mem_room d k n" using a(3) k by (auto simp: mem_room_def)
    then show ?thesis using s g(2) k a(1) by (intro exI[of _ 4294967295] exI[of _ "(sz, m')"]) (auto simp: mem_good_def mem_brk_def)
  qed
qed

lemma mem_brk_bound: "mem_good d k \<Longrightarrow> mem_brk k \<le> 2147483648"
  by (cases k) (auto simp: mem_good_def mem_brk_def proc_mem_def word_le_nat_alt)

interpretation umem: sbrk_service "sbrk_mem d" mem_brk "mem_good d" "mem_room d" for d
  by unfold_locales (rule sbrk_mem_grows, assumption+, rule mem_brk_bound)

text \<open>Before its first call \<open>malloc\<close> finds the heap as the loader leaves it: \<open>freep\<close> is null.\<close>

definition ready :: "heap \<Rightarrow> nat \<Rightarrow> nat \<Rightarrow> nat list \<Rightarrow> nat set \<Rightarrow> bool" where
  "ready h lo hi bs A \<longleftrightarrow> heap_ok h lo hi bs A \<or>
     freep h = 0 \<and> 0 < base h \<and> base h < lo \<and> lo \<le> hi \<and> hi \<le> 2147483648 \<and> bs = [] \<and> A = {}"

lemma malloc_init_ok:
  assumes "ready h lo hi bs A"
  shows "heap_ok (malloc_init h) lo hi bs A" "free_area (malloc_init h) bs = free_area h bs"
    "x \<in> set bs \<union> A \<Longrightarrow> size_at (malloc_init h) x = size_at h x"
proof -
  have n: "freep h \<noteq> 0" if "heap_ok h lo hi bs A" using heap_okD(1,8)[OF that] heap_okD(12)[OF that, of "freep h"] by auto
  have "heap_ok (malloc_init h) lo hi bs A \<and> free_area (malloc_init h) bs = free_area h bs \<and>
      (x \<in> set bs \<union> A \<longrightarrow> size_at (malloc_init h) x = size_at h x)"
  proof (cases "freep h = 0")
    case True
    then have "0 < base h" "base h < lo" "lo \<le> hi" "hi \<le> 2147483648" "bs = []" "A = {}" using assms n unfolding ready_def by blast+
    then show ?thesis using True by (simp add: malloc_init_def heap_ok_def free_area_def layout_def)
  next
    case False
    then show ?thesis using assms by (simp add: malloc_init_def ready_def)
  qed
  then show "heap_ok (malloc_init h) lo hi bs A" "free_area (malloc_init h) bs = free_area h bs"
    "x \<in> set bs \<union> A \<Longrightarrow> size_at (malloc_init h) x = size_at h x" by blast+
qed

lemma units_small: "nbytes < 2147483633 \<Longrightarrow> units nbytes < 268435456 \<and> nbytes \<le> 8 * (units nbytes - 1)"
  by (simp add: units_def) linarith

lemma units_pos: "0 < units nbytes"
  by (simp add: units_def)

text \<open>
  C10: \<open>malloc\<close> returns on every heap. Either it gives out a block of at least \<open>nbytes\<close> bytes inside the memory of the
  process that no block given out before has a byte of, and free memory is as before but for that block and what
  \<open>sbrk\<close> has added; or it returns 0, changes nothing, and then no free block is large enough and the kernel has no
  room for more. Blocks given out keep their sizes.
\<close>

theorem malloc_correct:
  assumes "ready h lo (mem_brk k) bs A" "mem_good d k" "nbytes < 2147483633"
  shows "\<exists>r h' k' bs'. malloc (sbrk_mem d) nbytes h k = Some (Inr (r, h', k')) \<and> mem_good d k' \<and> (\<forall>p \<in> A. size_at h' p = size_at h p) \<and>
    (if r = 0
     then heap_ok h' lo (mem_brk k') bs A \<and> mem_brk k' = mem_brk k \<and> free_area h' bs = free_area h bs \<and>
       (\<forall>y \<in> set bs. size_at h y < units nbytes) \<and> \<not> mem_room d k (8 * int (max (units nbytes) 4096))
     else heap_ok h' lo (mem_brk k') bs' (insert (r - 8) A) \<and> r - 8 \<notin> A \<and> {r..<r + nbytes} \<subseteq> {lo..<mem_brk k'} \<and>
       {r..<r + nbytes} \<subseteq> block (size_at h') (r - 8) \<and> (\<forall>p \<in> A. {r..<r + nbytes} \<inter> block (size_at h') p = {}) \<and>
       free_area h' bs' \<union> block (size_at h') (r - 8) = free_area h bs \<union> {mem_brk k..<mem_brk k'})"
proof -
  note I = malloc_init_ok[OF assms(1)] and u = units_small[OF assms(3)]
  have m: "malloc (sbrk_mem d) nbytes h k =
      malloc_loop (sbrk_mem d) (units nbytes) (freep (malloc_init h)) (next_of (malloc_init h) (freep (malloc_init h))) (malloc_init h) k"
    by (simp add: malloc_def Let_def)
  show ?thesis
  proof (cases rule: umem.malloc_heap_ok[OF I(1) assms(2) units_pos u[THEN conjunct1]])
    case (1 q h' k' bs')
    note H = heap_okD[OF 1(3)]
    have qb: "q \<in> set bs' \<union> insert q A" by simp
    have r: "q + 8 \<noteq> 0" "q + 8 - 8 = q" by simp_all
    have in_block: "{q + 8..<q + 8 + nbytes} \<subseteq> block (size_at h') q" using u units_pos[of nbytes] 1(5) by (auto simp: block_def)
    have "block (size_at h') q \<subseteq> {lo..<mem_brk k'}" using layoutD(2,3)[OF H(9) qb] by (auto simp: block_def)
    moreover have "{q + 8..<q + 8 + nbytes} \<inter> block (size_at h') p = {}" if "p \<in> A" for p
      using layout_disjoint[OF H(9) qb, of p] that 1(4) in_block by blast
    moreover have "\<forall>p \<in> A. size_at h' p = size_at h p" using 1(7) I(3) by simp
    ultimately show ?thesis using 1(1-4,6) I(2) in_block unfolding m
      by (intro exI[of _ "q + 8"] exI[of _ h'] exI[of _ k'] exI[of _ bs']) (simp only: r if_False, blast)
  next
    case (2 k')
    have "\<forall>p \<in> A. size_at (malloc_init h) p = size_at h p" "\<forall>y \<in> set bs. size_at h y < units nbytes" using 2(4) I(3) by auto
    then show ?thesis using 2(1-3,5) I(1,2) unfolding m
      by (intro exI[of _ 0] exI[of _ "malloc_init h"] exI[of _ k']) simp
  qed
qed

text \<open>
  C11: \<open>free\<close> on a block that has been given out returns, and the block, exactly, is free memory again; neighbours are
  joined, so no free block ends where another begins, and the other blocks given out are as they were.
\<close>

theorem free_correct:
  assumes "heap_ok h lo hi bs A" "p \<in> A"
  shows "\<exists>h' bs'. free (p + 8) h = Some h' \<and> heap_ok h' lo hi bs' (A - {p}) \<and>
    free_area h' bs' = free_area h bs \<union> block (size_at h) p \<and> (\<forall>x \<in> A - {p}. size_at h' x = size_at h x)"
proof -
  have "heap_ok h lo hi bs (insert p (A - {p}))" using assms by (simp add: insert_absorb)
  then show ?thesis using free_ok[of h lo hi bs p "A - {p}"] by (metis Diff_iff insertI1)
qed

text \<open>
  A request of nearly 4 GB wraps around in the rounding: \<open>malloc\<close> then gives out a block of one unit, its header,
  with no room for data at all, instead of returning 0.
\<close>

theorem malloc_huge_wraps:
  assumes "heap_ok h lo (mem_brk k) bs A" "mem_good d k" "bs \<noteq> []" "4294967289 \<le> nbytes" "nbytes < 4294967296"
  shows "\<exists>r h'. malloc (sbrk_mem d) nbytes h k = Some (Inr (r, h', k)) \<and> r \<noteq> 0 \<and> block (size_at h') (r - 8) = {r - 8..<r}"
proof -
  obtain j where "nbytes = 4294967289 + j" "j < 8" using assms(4,5) le_Suc_ex[OF assms(4)] by auto
  then have u: "units nbytes = 1" by (simp add: units_def u32_mod_def)
  have I: "malloc_init h = h" using heap_okD(1,8)[OF assms(1)] heap_okD(12)[OF assms(1), of "freep h"] by (auto simp: malloc_init_def)
  have m: "malloc (sbrk_mem d) nbytes h k = malloc_loop (sbrk_mem d) 1 (freep h) (next_of h (freep h)) h k"
    by (simp add: malloc_def Let_def I u)
  have one: "(0 :: nat) < 1" by simp
  show ?thesis
  proof (cases rule: malloc_loop_ok[OF assms(1) one, where sbrk = "sbrk_mem d" and k = k])
    case (1 q h' bs')
    then show ?thesis unfolding m by (intro exI[of _ "q + 8"] exI[of _ h']) (simp add: block_def)
  next
    case 2
    have "0 < size_at h (hd bs)" by (rule layoutD(1)[OF heap_okD(9)[OF assms(1)]]) (use assms(3) in simp)
    then show ?thesis using 2(1) assms(3) hd_in_set by fastforce
  qed
qed

section \<open>Concrete heaps\<close>

text \<open>A block of 32 bytes at address 16, given out or free.\<close>

definition used_heap :: heap where
  "used_heap = \<lparr>hdr = (\<lambda>p. if p = 8 then \<lparr>h_ptr = 8, h_size = 0\<rparr> else \<lparr>h_ptr = 0, h_size = 4\<rparr>), freep = 8, base = 8\<rparr>"

definition free_heap :: heap where
  "free_heap = \<lparr>hdr = (\<lambda>p. if p = 8 then \<lparr>h_ptr = 16, h_size = 0\<rparr> else \<lparr>h_ptr = 8, h_size = 4\<rparr>), freep = 8, base = 8\<rparr>"

lemma used_heap_ok: "heap_ok used_heap 16 9000 [] {16}"
  by (simp add: heap_ok_def used_heap_def layout_def)

lemma free_heap_ok: "heap_ok free_heap 16 9000 [16] {}"
  by (simp add: heap_ok_def free_heap_def layout_def)

lemma example_break: "\<exists>d k. mem_good d k \<and> mem_brk k = 9000 \<and> mem_room d k 32768"
proof -
  obtain d m xs where e: "proc_mem d m 9000 xs" "1800 \<le> length xs" using example_proc by blast
  have "free_ok m xs" using spaceD(1)[OF proc_memD(1)[OF e(1)]] by (simp add: clean_def)
  moreover have "1024 + (npages (nat (uint (9000 :: u32) + 32768)) - npages (unat (9000 :: u32))) < length xs + card (tabs m d)"
    using e(2) by (simp add: npages_def)
  ultimately have "mem_room d (9000, m) 32768" by (auto simp: mem_room_def)
  then show ?thesis using e(1) by (intro exI[of _ d] exI[of _ "(9000, m)"]) (auto simp: mem_good_def mem_brk_def)
qed

theorem malloc_correct_witness:
  "\<exists>d k r h' k'. malloc (sbrk_mem d) 100 \<lparr>hdr = \<lambda>_. \<lparr>h_ptr = 0, h_size = 0\<rparr>, freep = 0, base = 8000\<rparr> k = Some (Inr (r, h', k')) \<and>
     9000 \<le> r \<and> r + 100 \<le> mem_brk k'"
proof -
  obtain d k where e: "mem_good d k" "mem_brk k = 9000" "mem_room d k 32768" using example_break by blast
  let ?h = "\<lparr>hdr = \<lambda>_. \<lparr>h_ptr = 0, h_size = 0\<rparr>, freep = 0, base = 8000\<rparr> :: heap"
  have r: "ready ?h 9000 (mem_brk k) [] {}" by (simp add: ready_def e(2))
  have b: "(100 :: nat) < 2147483633" by simp
  obtain r h' k' bs' where m: "malloc (sbrk_mem d) 100 ?h k = Some (Inr (r, h', k'))"
    "if r = 0 then mem_brk k' = mem_brk k \<and> \<not> mem_room d k (8 * int (max (units 100) 4096)) else {r..<r + 100} \<subseteq> {9000..<mem_brk k'}"
    using malloc_correct[OF r e(1) b] by (auto split: if_splits)
  have u: "8 * int (max (units 100) 4096) = 32768" by (simp add: units_def)
  have "{r..<r + 100} \<subseteq> {9000..<mem_brk k'}" using m(2) e(3) unfolding u by (auto split: if_splits)
  then have "9000 \<le> r" "r + 100 \<le> mem_brk k'" using subset_eq by auto
  then show ?thesis using m(1) by blast
qed

theorem free_correct_witness:
  "\<exists>h' bs'. free 24 used_heap = Some h' \<and> heap_ok h' 16 9000 bs' {} \<and> free_area h' bs' = {16..<48}"
  using free_correct[OF used_heap_ok, of 16] by (simp add: free_area_def block_def used_heap_def)

theorem malloc_huge_wraps_witness:
  "\<exists>d k r h'. malloc (sbrk_mem d) 4294967295 free_heap k = Some (Inr (r, h', k)) \<and> r \<noteq> 0 \<and> block (size_at h') (r - 8) = {r - 8..<r}"
proof -
  obtain d k where e: "mem_good d k" "mem_brk k = 9000" using example_break by blast
  have b: "[16 :: nat] \<noteq> []" "4294967289 \<le> (4294967295 :: nat)" "(4294967295 :: nat) < 4294967296" by simp_all
  show ?thesis using malloc_huge_wraps[OF free_heap_ok[folded e(2)] e(1) b] by blast
qed

end
