(* ===== verification/Mkfs.thy ===== *)
theory Mkfs
  imports Fs_Dir
begin

text \<open>
  The builder of the initial file system (\<open>mkfs.c\<close>), a program of the host. Its state is the image, as a map from
  sectors to blocks, and the counters of inodes and blocks given out. A failed assertion and a failed read end it with
  a message. Shown: what it builds is a file system the kernel's invariants hold of, with the given files in the root
  directory; and that a root directory that fills its last block exactly gets a hole.
\<close>

section \<open>State and sectors\<close>

abbreviation (input) FSSIZE :: nat where "FSSIZE \<equiv> 1000"
abbreviation (input) NINODES :: nat where "NINODES \<equiv> 200"
abbreviation (input) LOGSIZE :: nat where "LOGSIZE \<equiv> 30"

definition nmeta :: nat where
  "nmeta = 2 + LOGSIZE + (NINODES div IPB + 1) + (FSSIZE div (BSIZE * 8) + 1)"

definition mk_sb :: superblock where
  "mk_sb = (let nbitmap = FSSIZE div (BSIZE * 8) + 1; ninodeblocks = NINODES div IPB + 1; nlog = LOGSIZE in
     \<lparr>sb_size = FSSIZE, sb_nblocks = FSSIZE - nmeta, sb_ninodes = NINODES, sb_nlog = nlog, sb_logstart = 2, sb_inodestart = 2 + nlog,
      sb_bmapstart = 2 + nlog + ninodeblocks\<rparr>)"

definition sb_bytes :: "superblock \<Rightarrow> block" where
  "sb_bytes sp =
     put_nat (put_nat (put_nat (put_nat (put_nat (put_nat (put_nat zero_block 0 (sb_size sp)) 4 (sb_nblocks sp)) 8 (sb_ninodes sp))
       12 (sb_nlog sp)) 16 (sb_logstart sp)) 20 (sb_inodestart sp)) 24 (sb_bmapstart sp)"

record mkst =
  img :: "nat \<Rightarrow> block"
  freeinode :: nat
  freeblock :: nat

definition wsect :: "nat \<Rightarrow> block \<Rightarrow> mkst \<Rightarrow> mkst" where
  "wsect sec buf m = m\<lparr>img := (img m)(sec := buf)\<rparr>"

text \<open>The image has \<open>FSSIZE\<close> sectors: reading behind its end fails.\<close>

definition rsect :: "nat \<Rightarrow> mkst \<Rightarrow> block kernel" where
  "rsect sec m = (if sec < FSSIZE then Inr (img m sec) else panic ''read'')"

section \<open>Inodes\<close>

definition blank_inode :: "nat \<Rightarrow> inode" where
  "blank_inode inum = \<lparr>i_dev = 0, i_inum = inum, i_ref = 0, i_busy = False, i_valid = False, i_type = 0, i_major = 0, i_minor = 0,
     i_nlink = 0, i_size = 0, i_addrs = replicate 13 0\<rparr>"

definition winode :: "inode \<Rightarrow> mkst \<Rightarrow> mkst kernel" where
  "winode ip m =
     (let bn = IBLOCK (i_inum ip) mk_sb in kbind (rsect bn m) (\<lambda>buf. Inr (wsect bn (put_dinode ip buf) m)))"

definition rinode :: "nat \<Rightarrow> mkst \<Rightarrow> inode kernel" where
  "rinode inum m =
     (let bn = IBLOCK inum mk_sb in kbind (rsect bn m) (\<lambda>buf. Inr (get_dinode buf (blank_inode inum))))"

definition mk_ialloc :: "u16 \<Rightarrow> mkst \<Rightarrow> (nat \<times> mkst) kernel" where
  "mk_ialloc ty m =
     (let inum = freeinode m; m1 = m\<lparr>freeinode := inum + 1\<rparr>; din = (blank_inode inum)\<lparr>i_type := ty, i_nlink := 1, i_size := 0\<rparr>
      in kbind (winode din m1) (\<lambda>m2. Inr (inum, m2)))"

text \<open>The block of the file for the file block \<open>fbn\<close>, taken from the free ones where there is none yet.\<close>

definition file_block :: "inode \<Rightarrow> nat \<Rightarrow> mkst \<Rightarrow> (nat \<times> inode \<times> mkst) kernel" where
  "file_block din fbn m =
     (if fbn < NDIRECT then
        let (din1, m1) = (if i_addrs din ! fbn = 0 then (din\<lparr>i_addrs := (i_addrs din)[fbn := freeblock m]\<rparr>, m\<lparr>freeblock := freeblock m + 1\<rparr>)
                          else (din, m))
        in Inr (i_addrs din1 ! fbn, din1, m1)
      else
        let (din1, m1) = (if i_addrs din ! NDIRECT = 0 then (din\<lparr>i_addrs := (i_addrs din)[NDIRECT := freeblock m]\<rparr>, m\<lparr>freeblock := freeblock m + 1\<rparr>)
                          else (din, m))
        in kbind (rsect (i_addrs din1 ! NDIRECT) m1) (\<lambda>indirect.
             if get_nat indirect (4 * (fbn - NDIRECT)) = 0
             then let x = freeblock m1
                  in Inr (x, din1, wsect (i_addrs din1 ! NDIRECT) (put_nat indirect (4 * (fbn - NDIRECT)) x) (m1\<lparr>freeblock := x + 1\<rparr>))
             else Inr (get_nat indirect (4 * (fbn - NDIRECT)), din1, m1)))"

function iappend_loop :: "inode \<Rightarrow> nat \<Rightarrow> byte list \<Rightarrow> mkst \<Rightarrow> (inode \<times> nat \<times> mkst) kernel" where
  "iappend_loop din off p m =
     (if p = [] then Inr (din, off, m)
      else
        let fbn = off div BSIZE in
        if \<not> fbn < MAXFILE then panic ''fbn < MAXFILE''
        else kbind (file_block din fbn m) (\<lambda>(x, din1, m1).
          let n1 = min (length p) ((fbn + 1) * BSIZE - off)
          in kbind (rsect x m1) (\<lambda>buf.
             iappend_loop din1 (off + n1) (drop n1 p) (wsect x (overwrite (off - fbn * BSIZE) (take n1 p) buf) m1))))"
  by pat_completeness auto
termination
proof (relation "measure (\<lambda>(din, off, p, m). length p)", simp)
  fix din :: inode and off :: nat and p :: "byte list" and m fbn z x y din1 m1 n1 and xa :: block
  assume a: "p \<noteq> []" "fbn = off div BSIZE" "n1 = min (length p) ((fbn + 1) * BSIZE - off)"
  have "off < (fbn + 1) * BSIZE" using a(2) div_mult_mod_eq[of off BSIZE] mod_less_divisor[of BSIZE off] by simp
  then show "((din1, off + n1, drop n1 p, wsect x (overwrite (off - fbn * BSIZE) (take n1 p) xa) m1), din, off, p, m) \<in> measure (\<lambda>(din, off, p, m). length p)"
    using a by auto
qed

declare iappend_loop.simps [simp del]

definition iappend :: "nat \<Rightarrow> byte list \<Rightarrow> mkst \<Rightarrow> mkst kernel" where
  "iappend inum p m =
     kbind (rinode inum m) (\<lambda>din. kbind (iappend_loop din (i_size din) p m) (\<lambda>(din1, off, m1). winode (din1\<lparr>i_size := off\<rparr>) m1))"

section \<open>The bitmap\<close>

fun mark_first :: "nat \<Rightarrow> block \<Rightarrow> block" where
  "mark_first 0 buf = buf"
| "mark_first (Suc i) buf = mark_bit i (mark_first i buf)"

definition mk_balloc :: "nat \<Rightarrow> mkst \<Rightarrow> mkst kernel" where
  "mk_balloc n m =
     (if \<not> n < BSIZE * 8 then panic ''used < BSIZE*8''
      else Inr (wsect (sb_bmapstart mk_sb) (mark_first n zero_block) m))"

section \<open>The program\<close>

text \<open>A file of the host: its name and what the calls of \<open>read\<close> return until the end.\<close>

type_synonym host_file = "byte list \<times> byte list list"

fun append_all :: "nat \<Rightarrow> byte list list \<Rightarrow> mkst \<Rightarrow> mkst kernel" where
  "append_all inum [] m = Inr m"
| "append_all inum (c # chunks) m = kbind (iappend inum c m) (append_all inum chunks)"

definition fs_name :: "byte list \<Rightarrow> byte list" where
  "fs_name name = (if name \<noteq> [] \<and> hd name = 95 then tl name else name)"

fun add_files :: "nat \<Rightarrow> host_file list \<Rightarrow> mkst \<Rightarrow> mkst kernel" where
  "add_files rootino [] m = Inr m"
| "add_files rootino ((name, chunks) # files) m =
     (if SLASH \<in> set name then panic ''index(argv[i], '/') == 0''
      else kbind (mk_ialloc T_FILE m) (\<lambda>(inum, m1).
           kbind (iappend rootino (mk_dirent inum (fs_name name)) m1) (\<lambda>m2.
           kbind (append_all inum chunks m2) (add_files rootino files))))"

definition mk_start :: mkst where
  "mk_start = wsect 1 (sb_bytes mk_sb) \<lparr>img = (\<lambda>_. zero_block), freeinode = 1, freeblock = nmeta\<rparr>"

definition fix_size :: "nat \<Rightarrow> mkst \<Rightarrow> mkst kernel" where
  "fix_size rootino m =
     kbind (rinode rootino m) (\<lambda>din. let off = i_size din; off = (off div BSIZE + 1) * BSIZE in winode (din\<lparr>i_size := off\<rparr>) m)"

definition mkfs :: "host_file list \<Rightarrow> mkst kernel" where
  "mkfs files =
     kbind (mk_ialloc T_DIR mk_start) (\<lambda>(rootino, m).
       if rootino \<noteq> ROOTINO then panic ''rootino == ROOTINO''
       else kbind (iappend rootino (mk_dirent rootino [46]) m) (\<lambda>m1.
            kbind (iappend rootino (mk_dirent rootino [46, 46]) m1) (\<lambda>m2.
            kbind (add_files rootino files m2) (\<lambda>m3.
            kbind (fix_size rootino m3) (\<lambda>m4. mk_balloc (freeblock m4) m4)))))"

section \<open>Files under construction\<close>

lemma sb_simps [simp]:
  "nmeta = 59" "sb_size mk_sb = 1000" "sb_nblocks mk_sb = 941" "sb_ninodes mk_sb = 200" "sb_nlog mk_sb = 30" "sb_logstart mk_sb = 2"
  "sb_inodestart mk_sb = 32" "sb_bmapstart mk_sb = 58"
  by (simp_all add: mk_sb_def nmeta_def)

text \<open>
  The block map of a file in the image \<open>B\<close> with the blocks from \<open>fb\<close> on free: as the kernel's invariant has it, and
  the bytes of mapped blocks behind the end of the file are zero; no block is mapped that the file does not reach.
\<close>

definition file_ok :: "(nat \<Rightarrow> block) \<Rightarrow> nat \<Rightarrow> inode \<Rightarrow> bool" where
  "file_ok B fb i \<longleftrightarrow> length (i_addrs i) = NDIRECT + 1 \<and> i_size i \<le> MAXFILE * BSIZE \<and> (\<forall>a \<in> owned B i. 59 \<le> a \<and> a < fb) \<and>
     (\<forall>bn < MAXFILE. \<forall>bm < MAXFILE. baddr B i bn = baddr B i bm \<and> baddr B i bn \<noteq> 0 \<longrightarrow> bn = bm) \<and>
     (\<forall>bn < MAXFILE. baddr B i bn \<noteq> 0 \<longrightarrow> baddr B i bn \<noteq> i_addrs i ! NDIRECT) \<and>
     (\<forall>bn. bn * BSIZE < i_size i \<longrightarrow> baddr B i bn \<noteq> 0) \<and>
     (\<forall>bn < MAXFILE. \<forall>j < BSIZE. baddr B i bn \<noteq> 0 \<and> i_size i \<le> bn * BSIZE + j \<longrightarrow> B (baddr B i bn) ! j = 0) \<and>
     (\<forall>bn < MAXFILE. baddr B i bn \<noteq> 0 \<longrightarrow> bn * BSIZE < i_size i)"

lemma file_okD:
  assumes "file_ok B fb i"
  shows "length (i_addrs i) = NDIRECT + 1" "i_size i \<le> MAXFILE * BSIZE" "\<And>a. a \<in> owned B i \<Longrightarrow> 59 \<le> a \<and> a < fb"
    "\<And>bn bm. bn < MAXFILE \<Longrightarrow> bm < MAXFILE \<Longrightarrow> baddr B i bn = baddr B i bm \<Longrightarrow> baddr B i bn \<noteq> 0 \<Longrightarrow> bn = bm"
    "\<And>bn. bn < MAXFILE \<Longrightarrow> baddr B i bn \<noteq> 0 \<Longrightarrow> baddr B i bn \<noteq> i_addrs i ! NDIRECT"
    "\<And>bn. bn * BSIZE < i_size i \<Longrightarrow> baddr B i bn \<noteq> 0"
    "\<And>bn j. bn < MAXFILE \<Longrightarrow> j < BSIZE \<Longrightarrow> baddr B i bn \<noteq> 0 \<Longrightarrow> i_size i \<le> bn * BSIZE + j \<Longrightarrow> B (baddr B i bn) ! j = 0"
    "\<And>bn. bn < MAXFILE \<Longrightarrow> baddr B i bn \<noteq> 0 \<Longrightarrow> bn * BSIZE < i_size i"
  using assms unfolding file_ok_def by blast+

lemma file_okI:
  assumes "length (i_addrs i) = NDIRECT + 1" "i_size i \<le> MAXFILE * BSIZE" "\<And>a. a \<in> owned B i \<Longrightarrow> 59 \<le> a \<and> a < fb"
    "\<And>bn bm. bn < MAXFILE \<Longrightarrow> bm < MAXFILE \<Longrightarrow> baddr B i bn = baddr B i bm \<Longrightarrow> baddr B i bn \<noteq> 0 \<Longrightarrow> bn = bm"
    "\<And>bn. bn < MAXFILE \<Longrightarrow> baddr B i bn \<noteq> 0 \<Longrightarrow> baddr B i bn \<noteq> i_addrs i ! NDIRECT"
    "\<And>bn. bn * BSIZE < i_size i \<Longrightarrow> baddr B i bn \<noteq> 0"
    "\<And>bn j. bn < MAXFILE \<Longrightarrow> j < BSIZE \<Longrightarrow> baddr B i bn \<noteq> 0 \<Longrightarrow> i_size i \<le> bn * BSIZE + j \<Longrightarrow> B (baddr B i bn) ! j = 0"
    "\<And>bn. bn < MAXFILE \<Longrightarrow> baddr B i bn \<noteq> 0 \<Longrightarrow> bn * BSIZE < i_size i"
  shows "file_ok B fb i"
  unfolding file_ok_def using assms by blast

definition img_ok :: "mkst \<Rightarrow> bool" where
  "img_ok m \<longleftrightarrow> 59 \<le> freeblock m \<and> freeblock m \<le> 1000 \<and> (\<forall>b. length (img m b) = BSIZE) \<and> (\<forall>b \<ge> freeblock m. img m b = zero_block)"

lemma img_okD:
  assumes "img_ok m"
  shows "59 \<le> freeblock m" "freeblock m \<le> 1000" "length (img m b) = BSIZE" "freeblock m \<le> b \<Longrightarrow> img m b = zero_block"
  using assms by (auto simp: img_ok_def)

lemma get_nat_zero_block [simp]: "k + 3 < BSIZE \<Longrightarrow> get_nat zero_block k = 0"
  by (simp add: get_nat_def get32_def zero_block_def)

text \<open>What \<open>file_block\<close> does to the map: one block more at most, and its indirect block.\<close>

definition mapped_block :: "inode \<Rightarrow> nat \<Rightarrow> mkst \<Rightarrow> nat \<Rightarrow> inode \<Rightarrow> mkst \<Rightarrow> bool" where
  "mapped_block i fbn m x i1 m1 \<longleftrightarrow> i1 = i\<lparr>i_addrs := i_addrs i1\<rparr> \<and> length (i_addrs i1) = NDIRECT + 1 \<and>
     freeblock m \<le> freeblock m1 \<and> freeinode m1 = freeinode m \<and> x \<noteq> 0 \<and> x = baddr (img m1) i1 fbn \<and>
     (\<forall>bn < MAXFILE. bn \<noteq> fbn \<longrightarrow> baddr (img m1) i1 bn = baddr (img m) i bn) \<and>
     (baddr (img m) i fbn = x \<and> m1 = m \<and> i1 = i \<or> baddr (img m) i fbn = 0 \<and> freeblock m \<le> x \<and> freeblock m1 = x + 1) \<and>
     x \<noteq> i_addrs i1 ! NDIRECT \<and>
     (i_addrs i1 ! NDIRECT = i_addrs i ! NDIRECT \<or>
        i_addrs i ! NDIRECT = 0 \<and> freeblock m \<le> i_addrs i1 ! NDIRECT \<and> i_addrs i1 ! NDIRECT < freeblock m1) \<and>
     (\<forall>b. b \<noteq> i_addrs i1 ! NDIRECT \<or> b = 0 \<longrightarrow> img m1 b = img m b) \<and> (\<forall>b. length (img m1 b) = BSIZE)"

lemma mapped_blockD:
  assumes "mapped_block i fbn m x i1 m1"
  shows "length (i_addrs i1) = 13" "freeblock m \<le> freeblock m1" "freeinode m1 = freeinode m" "x \<noteq> 0" "x = baddr (img m1) i1 fbn"
    "\<And>bn. bn < 140 \<Longrightarrow> bn \<noteq> fbn \<Longrightarrow> baddr (img m1) i1 bn = baddr (img m) i bn"
    "baddr (img m) i fbn = x \<and> m1 = m \<and> i1 = i \<or> baddr (img m) i fbn = 0 \<and> freeblock m \<le> x \<and> freeblock m1 = x + 1"
    "x \<noteq> i_addrs i1 ! 12"
    "i_addrs i1 ! 12 = i_addrs i ! 12 \<or> i_addrs i ! 12 = 0 \<and> freeblock m \<le> i_addrs i1 ! 12 \<and> i_addrs i1 ! 12 < freeblock m1"
    "\<And>b. b \<noteq> i_addrs i1 ! 12 \<or> b = 0 \<Longrightarrow> img m1 b = img m b" "\<And>b. length (img m1 b) = BSIZE" "i1 = i\<lparr>i_addrs := i_addrs i1\<rparr>"
  using assms unfolding mapped_block_def by (elim conjE; simp)+

lemma ind_entries:
  assumes "12 \<le> bn" "bn < 140" "12 \<le> fbn" "fbn < 140" "length d = BSIZE" "x < 2 ^ 32"
  shows "get_nat (put_nat d (4 * (fbn - 12)) x) (4 * (bn - 12)) = (if bn = fbn then x else get_nat d (4 * (bn - 12)))"
proof (cases "bn = fbn")
  case True
  then show ?thesis using assms by simp
next
  case False
  then have "4 * (bn - 12) + 3 < 4 * (fbn - 12) \<or> 4 * (fbn - 12) + 3 < 4 * (bn - 12)" using assms(1,3) by auto
  then show ?thesis using False by simp
qed

lemma file_block_ok:
  assumes m: "img_ok m" and f: "file_ok (img m) (freeblock m) i" and n: "fbn < MAXFILE" and r: "file_block i fbn m = Inr (x, i1, m1)"
  shows "mapped_block i fbn m x i1 m1"
proof -
  note M = img_okD[OF m] and F = file_okD[OF f]
  have dlt: "i_addrs i ! 12 \<noteq> 0 \<Longrightarrow> i_addrs i ! 12 < freeblock m" using F(3) owned_ind[of i "img m"] by auto
  show ?thesis
  proof (cases "fbn < NDIRECT")
    case True
    show ?thesis
    proof (cases "i_addrs i ! fbn = 0")
      case z: True
      have e: "x = freeblock m" "i1 = i\<lparr>i_addrs := (i_addrs i)[fbn := x]\<rparr>" "m1 = m\<lparr>freeblock := x + 1\<rparr>"
        using r True z F(1) by (auto simp: file_block_def)
      show ?thesis unfolding mapped_block_def using e True z F(1) M dlt by (auto simp: baddr_def nth_list_update)
    next
      case nz: False
      have e: "x = i_addrs i ! fbn" "i1 = i" "m1 = m" using r True nz by (auto simp: file_block_def)
      have "baddr (img m) i fbn = x" using True e by (simp add: baddr_def)
      then show ?thesis unfolding mapped_block_def using e nz F(1) M(3) F(5)[OF n] by auto
    qed
  next
    case False
    define i0 where "i0 = (if i_addrs i ! 12 = 0 then i\<lparr>i_addrs := (i_addrs i)[12 := freeblock m]\<rparr> else i)"
    define m0 where "m0 = (if i_addrs i ! 12 = 0 then m\<lparr>freeblock := freeblock m + 1\<rparr> else m)"
    define d where "d = i_addrs i0 ! 12"
    have i0: "i0 = i\<lparr>i_addrs := i_addrs i0\<rparr>" "length (i_addrs i0) = 13" "\<And>k. k < 12 \<Longrightarrow> i_addrs i0 ! k = i_addrs i ! k"
      using F(1) by (auto simp: i0_def)
    have d: "d = i_addrs i ! 12 \<and> m0 = m \<and> i0 = i \<and> d < freeblock m \<or> i_addrs i ! 12 = 0 \<and> d = freeblock m \<and> freeblock m0 = freeblock m + 1" "d \<noteq> 0"
      using F(1) M(1) dlt by (auto simp: d_def i0_def m0_def)
    have im0: "img m0 = img m" "freeinode m0 = freeinode m" "freeblock m \<le> freeblock m0" "freeblock m0 \<le> 1001" "d < freeblock m0"
      using M(2) d by (auto simp: m0_def)
    have fb: "file_block i fbn m = kbind (rsect d m0) (\<lambda>ind.
             if get_nat ind (4 * (fbn - 12)) = 0
             then Inr (freeblock m0, i0, wsect d (put_nat ind (4 * (fbn - 12)) (freeblock m0)) (m0\<lparr>freeblock := freeblock m0 + 1\<rparr>))
             else Inr (get_nat ind (4 * (fbn - 12)), i0, m0))"
    proof -
      have pr: "(if i_addrs i ! 12 = 0 then (i\<lparr>i_addrs := (i_addrs i)[12 := freeblock m]\<rparr>, m\<lparr>freeblock := freeblock m + 1\<rparr>) else (i, m)) = (i0, m0)"
        by (simp add: i0_def m0_def)
      show ?thesis unfolding file_block_def if_not_P[OF False] pr d_def Let_def by simp
    qed
    have old: "baddr (img m) i bn = (if bn < 12 then i_addrs i ! bn else get_nat (img m d) (4 * (bn - 12)))" if "bn < 140" for bn
    proof -
      have "get_nat (img m d) (4 * (bn - 12)) = 0" if "i_addrs i ! 12 = 0" "\<not> bn < 12"
      proof -
        have "img m d = zero_block" using M(4)[of d] d that(1) by auto
        then show ?thesis using \<open>bn < 140\<close> that(2) by simp
      qed
      then show ?thesis using d by (auto simp: baddr_def)
    qed
    show ?thesis
    proof (cases "get_nat (img m d) (4 * (fbn - 12)) = 0")
      case z: True
      have dl: "d < 1000" using r fb by (cases "d < 1000") (simp_all add: rsect_def)
      have e: "x = freeblock m0" "i1 = i0" "m1 = wsect d (put_nat (img m d) (4 * (fbn - 12)) x) (m0\<lparr>freeblock := x + 1\<rparr>)"
        using r z dl unfolding fb by (auto simp: rsect_def im0)
      have x32: "x < 2 ^ 32" using e(1) im0(4) by simp
      have new: "baddr (img m1) i1 bn = (if bn = fbn then x else baddr (img m) i bn)" if "bn < 140" for bn
      proof (cases "bn < 12")
        case True
        then show ?thesis using i0(3) False e(2) by (auto simp: baddr_def)
      next
        case nb: False
        have "baddr (img m1) i1 bn = get_nat (put_nat (img m d) (4 * (fbn - 12)) x) (4 * (bn - 12))"
          using nb d(2) by (simp add: baddr_def e(2,3) wsect_def d_def)
        then show ?thesis using ind_entries[of bn fbn "img m d" x] nb False that n M(3) x32 old[OF that] by simp
      qed
      have "baddr (img m) i fbn = 0" using old[OF n] z False by simp
      moreover have "x \<noteq> 0" "freeblock m \<le> x" "x \<noteq> d" "freeblock m \<le> freeblock m1" "freeblock m1 = x + 1" "d < freeblock m1"
        using e(1,3) im0 M(1) by (auto simp: wsect_def)
      moreover have "length (img m1 b) = BSIZE" for b using M(3) by (simp add: e(3) wsect_def im0)
      moreover have "img m1 b = img m b" if "b \<noteq> d \<or> b = 0" for b using that d(2) by (auto simp: e(3) wsect_def im0)
      moreover have "freeinode m1 = freeinode m" using im0(2) by (simp add: e(3) wsect_def)
      ultimately show ?thesis unfolding mapped_block_def using new n i0 e(2) d by (auto simp: d_def)
    next
      case nz: False
      have dl: "d < 1000" using r fb by (cases "d < 1000") (simp_all add: rsect_def)
      have e: "x = get_nat (img m d) (4 * (fbn - 12))" "i1 = i0" "m1 = m0"
        using r nz dl unfolding fb by (auto simp: rsect_def im0)
      have b: "baddr (img m) i fbn = x" using old[OF n] False e(1) by simp
      have "i_addrs i ! 12 \<noteq> 0" using b nz e(1) False by (auto simp: baddr_def split: if_splits)
      then have "m0 = m" "i0 = i" by (simp_all add: m0_def i0_def)
      then show ?thesis unfolding mapped_block_def using b e nz F(1) M(3) F(5)[OF n] by auto
    qed
  qed
qed

text \<open>One round of \<open>iappend\<close>: the bytes go to the end of the file.\<close>

lemma append_round:
  assumes m: "img_ok m" and f: "file_ok (img m) (freeblock m) i" and off: "i_size i = off" "fbn = off div BSIZE" "fbn < MAXFILE"
    and r: "mapped_block i fbn m x i1 m1" "x < FSSIZE" and p: "p \<noteq> []" and n1: "n1 = min (length p) ((fbn + 1) * BSIZE - off)"
    and m2: "m2 = wsect x (overwrite (off - fbn * BSIZE) (take n1 p) (img m1 x)) m1"
  shows "img_ok m2 \<and> file_ok (img m2) (freeblock m2) (i1\<lparr>i_size := off + n1\<rparr>) \<and>
    contents (img m2) (i1\<lparr>i_size := off + n1\<rparr>) = contents (img m) i @ take n1 p \<and> freeblock m \<le> freeblock m2 \<and> freeinode m2 = freeinode m \<and>
    owned (img m2) (i1\<lparr>i_size := off + n1\<rparr>) \<subseteq> owned (img m) i \<union> {freeblock m..<freeblock m2} \<and>
    (\<forall>b < freeblock m. b \<notin> owned (img m) i \<longrightarrow> img m2 b = img m b)"
proof -
  note M = img_okD[OF m] and F = file_okD[OF f]
  let ?B = "img m" and ?B1 = "img m1" and ?B2 = "img m2" and ?i2 = "i1\<lparr>i_size := off + n1\<rparr>" and ?d = "i_addrs i1 ! 12"
  have R: "length (i_addrs i1) = 13" "freeblock m \<le> freeblock m1" "freeinode m1 = freeinode m" "x \<noteq> 0" "x = baddr ?B1 i1 fbn"
    "\<And>bn. bn < 140 \<Longrightarrow> bn \<noteq> fbn \<Longrightarrow> baddr ?B1 i1 bn = baddr ?B i bn"
    "baddr ?B i fbn = x \<and> m1 = m \<and> i1 = i \<or> baddr ?B i fbn = 0 \<and> freeblock m \<le> x \<and> freeblock m1 = x + 1"
    "x \<noteq> ?d" "?d = i_addrs i ! 12 \<or> i_addrs i ! 12 = 0 \<and> freeblock m \<le> ?d \<and> ?d < freeblock m1"
    "\<And>b. b \<noteq> ?d \<or> b = 0 \<Longrightarrow> ?B1 b = ?B b" "\<And>b. length (?B1 b) = BSIZE"
    by (rule mapped_blockD[OF r(1)], (assumption+)?)+
  have o: "off = fbn * BSIZE + off mod BSIZE" using off(2) by simp
  have om: "off mod BSIZE < BSIZE" by simp
  have n: "0 < n1" "off mod BSIZE + n1 \<le> BSIZE" "n1 \<le> length p" using p n1 o om by (auto simp: algebra_simps)
  have ow: "off - fbn * BSIZE = off mod BSIZE" using o by simp
  define nb where "nb = overwrite (off mod BSIZE) (take n1 p) (?B1 x)"
  have nbl: "length nb = BSIZE" using n R(11)[of x] by (simp add: nb_def overwrite_def)
  have nbj: "nb ! j = (if off mod BSIZE \<le> j \<and> j < off mod BSIZE + n1 then p ! (j - off mod BSIZE) else ?B1 x ! j)" if "j < BSIZE" for j
    using that n R(11)[of x] by (auto simp: nb_def overwrite_def nth_append)
  have B2: "?B2 b = (if b = x then nb else ?B1 b)" for b by (simp add: m2 wsect_def nb_def ow)
  have fr: "freeblock m2 = freeblock m1" "freeinode m2 = freeinode m" using R(3) by (simp_all add: m2 wsect_def)
  have x1: "59 \<le> x" "x < freeblock m1" and xin: "x \<in> owned ?B i \<or> freeblock m \<le> x"
    using R(4,7) F(3)[of x] owned_baddr[of fbn ?B i] off(3) M(1) by auto
  have f1: "freeblock m1 \<le> 1000" using R(7) r(2) M(2) by auto
  have ba: "baddr ?B2 ?i2 bn = baddr ?B1 i1 bn" for bn using B2[of ?d] R(8) by (simp add: baddr_def)
  have old: "baddr ?B2 ?i2 bn = baddr ?B i bn" if "bn < 140" "bn \<noteq> fbn" for bn using ba R(6)[OF that] by simp
  have cur: "baddr ?B2 ?i2 fbn = x" using ba R(5) by simp
  have oldlt: "baddr ?B i bn < freeblock m \<and> (baddr ?B i bn \<noteq> 0 \<longrightarrow> 59 \<le> baddr ?B i bn)" if "bn < 140" for bn
    using F(3)[OF owned_baddr[OF that]] M(1) by (cases "baddr ?B i bn = 0") auto
  have xold: "baddr ?B i bn \<noteq> x" if "bn < 140" "bn \<noteq> fbn" for bn
    using R(7) F(4)[OF that(1) off(3)] oldlt[OF that(1)] that(2) R(4) by auto
  have dold: "baddr ?B i bn \<noteq> ?d" if "bn < 140" "baddr ?B i bn \<noteq> 0" for bn
    using R(9) F(5)[OF that] oldlt[OF that(1)] by auto
  have data: "?B2 (baddr ?B i bn) = ?B (baddr ?B i bn)" if "bn < 140" "bn \<noteq> fbn" "baddr ?B i bn \<noteq> 0" for bn
    using B2 xold[OF that(1,2)] R(10) dold[OF that(1,3)] by simp
  have B1x: "?B1 x = ?B x" using R(10)[of x] R(8) by simp
  have dlt: "?d \<noteq> 0 \<Longrightarrow> 59 \<le> ?d \<and> ?d < freeblock m1 \<and> (?d \<in> owned ?B i \<or> freeblock m \<le> ?d)"
    using R(9) F(3) owned_ind[of i ?B] M(1) R(2) by fastforce
  have own: "owned ?B2 ?i2 \<subseteq> owned ?B i \<union> {freeblock m..<freeblock m2}"
  proof
    fix a assume "a \<in> owned ?B2 ?i2"
    then consider "a = ?d" "a \<noteq> 0" | bn where "bn < 140" "a = baddr ?B2 ?i2 bn" "a \<noteq> 0" by (auto simp: owned_def)
    then show "a \<in> owned ?B i \<union> {freeblock m..<freeblock m2}"
    proof cases
      case 1
      then show ?thesis using dlt fr by auto
    next
      case 2
      then show ?thesis using old[of bn] cur xin x1 fr owned_baddr[of bn ?B i] by (cases "bn = fbn") auto
    qed
  qed
  have range: "59 \<le> a \<and> a < freeblock m2" if "a \<in> owned ?B2 ?i2" for a
  proof -
    have "a \<in> owned ?B i \<or> freeblock m \<le> a \<and> a < freeblock m2" using own that by auto
    then show ?thesis using F(3)[of a] M(1) R(2) fr by auto
  qed
  have frame: "?B2 b = ?B b" if "b < freeblock m" "b \<notin> owned ?B i" for b
  proof -
    have "b \<noteq> x" using xin that by auto
    moreover have "b \<noteq> ?d \<or> b = 0" using dlt that by (cases "?d = 0") auto
    ultimately show ?thesis using B2 R(10) by simp
  qed
  have zero: "?B2 b = zero_block" if "freeblock m2 \<le> b" for b
  proof -
    have "b \<noteq> x" "b \<noteq> ?d \<or> b = 0" using x1 dlt that fr by auto
    then show ?thesis using B2 R(2,10) M(4)[of b] that fr by simp
  qed
  have sizes: "bn < fbn" if "bn * BSIZE < off + n1" "bn \<noteq> fbn" for bn
  proof -
    have "bn * BSIZE < (fbn + 1) * BSIZE" using that(1) o n by simp
    then show ?thesis using that(2) by simp
  qed
  have lt_off: "bn * BSIZE < off" if "bn < fbn" for bn
  proof -
    have "(bn + 1) * BSIZE \<le> fbn * BSIZE" using that by (intro mult_le_mono1) simp
    then show ?thesis using o by simp
  qed
  have io: "img_ok m2" unfolding img_ok_def using M(1) R(2) fr f1 zero B2 nbl R(11) by auto
  have fo: "file_ok ?B2 (freeblock m2) ?i2" unfolding file_ok_def
  proof (intro conjI allI ballI impI)
    show "length (i_addrs ?i2) = NDIRECT + 1" using R(1) by simp
    have "(fbn + 1) * BSIZE \<le> MAXFILE * BSIZE" using off(3) by (intro mult_le_mono1) simp
    then show "i_size ?i2 \<le> MAXFILE * BSIZE" using o n by simp
  next
    fix a assume "a \<in> owned ?B2 ?i2"
    then show "59 \<le> a" "a < freeblock m2" using range by blast+
  next
    fix bn bm assume a: "bn < MAXFILE" "bm < MAXFILE" "baddr ?B2 ?i2 bn = baddr ?B2 ?i2 bm \<and> baddr ?B2 ?i2 bn \<noteq> 0"
    show "bn = bm"
    proof (cases "bn = fbn \<or> bm = fbn")
      case True
      then show ?thesis using a old[of bn] old[of bm] cur xold[of bn] xold[of bm] by (cases "bn = fbn"; cases "bm = fbn") auto
    next
      case False
      then show ?thesis using a old F(4)[of bn bm] by simp
    qed
  next
    fix bn assume a: "bn < MAXFILE" "baddr ?B2 ?i2 bn \<noteq> 0"
    then show "baddr ?B2 ?i2 bn \<noteq> i_addrs ?i2 ! NDIRECT" using old[of bn] cur R(8) dold[of bn] by (cases "bn = fbn") auto
  next
    fix bn assume a: "bn * BSIZE < i_size ?i2"
    show "baddr ?B2 ?i2 bn \<noteq> 0"
    proof (cases "bn = fbn")
      case False
      then have "bn < fbn" using a sizes by simp
      then show ?thesis using old[of bn] False off(1,3) lt_off F(6)[of bn] by simp
    qed (use cur R(4) in simp)
  next
    fix bn assume a: "bn < MAXFILE" "baddr ?B2 ?i2 bn \<noteq> 0"
    then show "bn * BSIZE < i_size ?i2" using old[OF a(1)] F(8)[OF a(1)] off(1) o n by (cases "bn = fbn") auto
  next
    fix bn j assume a: "bn < MAXFILE" "j < BSIZE" "baddr ?B2 ?i2 bn \<noteq> 0 \<and> i_size ?i2 \<le> bn * BSIZE + j"
    show "?B2 (baddr ?B2 ?i2 bn) ! j = 0"
    proof (cases "bn = fbn")
      case True
      then have j: "off mod BSIZE + n1 \<le> j" using a(3) o by simp
      have "?B1 x ! j = 0"
      proof (cases "baddr ?B i fbn = x")
        case True
        have "off \<le> fbn * BSIZE + j" using j o by simp
        then show ?thesis using F(7)[OF off(3) a(2)] off(1) True R(4) B1x by simp
      next
        case False
        then have "freeblock m \<le> x" using R(7) by auto
        then show ?thesis using M(4) B1x a(2) by (simp add: zero_block_def)
      qed
      then show ?thesis using True cur B2[of x] nbj[OF a(2)] j by simp
    next
      case False
      then show ?thesis using a old[OF a(1) False] data[OF a(1) False] F(7)[OF a(1,2)] off(1) by simp
    qed
  qed
  have ct: "contents ?B2 ?i2 = contents ?B i @ take n1 p"
  proof (rule nth_equalityI)
    show len: "length (contents ?B2 ?i2) = length (contents ?B i @ take n1 p)" using off(1) n by (simp add: contents_def)
    fix k assume "k < length (contents ?B2 ?i2)"
    then have k: "k < off + n1" by (simp add: contents_def)
    have l: "contents ?B2 ?i2 ! k = ?B2 (baddr ?B2 ?i2 (k div BSIZE)) ! (k mod BSIZE)" using k by (simp add: contents_def)
    have kd: "k = k div BSIZE * BSIZE + k mod BSIZE" by simp
    show "contents ?B2 ?i2 ! k = (contents ?B i @ take n1 p) ! k"
    proof (cases "k < off")
      case True
      have old_k: "(contents ?B i @ take n1 p) ! k = ?B (baddr ?B i (k div BSIZE)) ! (k mod BSIZE)"
        using True off(1) by (simp add: nth_append contents_def)
      have kb: "k div BSIZE \<le> fbn" unfolding off(2) using True by (intro div_le_mono) simp
      have nz: "baddr ?B i (k div BSIZE) \<noteq> 0" by (rule F(6)) (use True off(1) in simp)
      show ?thesis
      proof (cases "k div BSIZE = fbn")
        case t: True
        have "baddr ?B i fbn = x" using nz R(7) t by auto
        moreover have "k mod BSIZE < off mod BSIZE" using True kd o t by simp
        ultimately show ?thesis using l old_k t cur B2[of x] nbj[of "k mod BSIZE"] B1x by simp
      next
        case f: False
        have "k div BSIZE < 140" using kb off(3) by simp
        then show ?thesis using l old_k old[OF _ f] data[OF _ f nz] by simp
      qed
    next
      case False
      have kb: "k div BSIZE = fbn"
      proof -
        have "fbn * BSIZE \<le> k" "k < (fbn + 1) * BSIZE" using False k o n by simp_all
        then show ?thesis using div_nat_eqI[of BSIZE fbn k] by (simp add: mult.commute)
      qed
      then have km: "k mod BSIZE = off mod BSIZE + (k - off)" using kd o False by simp
      have "(contents ?B i @ take n1 p) ! k = p ! (k - off)" using False k off(1) n by (simp add: nth_append contents_def)
      moreover have "off mod BSIZE \<le> k mod BSIZE" "k mod BSIZE < off mod BSIZE + n1" "k mod BSIZE - off mod BSIZE = k - off"
        using km k False by linarith+
      then have "nb ! (k mod BSIZE) = p ! (k - off)" using nbj[of "k mod BSIZE"] by simp
      ultimately show ?thesis using l kb cur B2[of x] by simp
    qed
  qed
  show ?thesis using io fo ct own frame fr R(2) by simp
qed

lemma file_block_size:
  "file_block (d\<lparr>i_size := n\<rparr>) fbn m = (case file_block d fbn m of Inl e \<Rightarrow> Inl e | Inr (x, d1, m1) \<Rightarrow> Inr (x, d1\<lparr>i_size := n\<rparr>, m1))"
  by (simp add: file_block_def kbind_def Let_def split: sum.split)

lemma owned_size [simp]: "owned B (i\<lparr>i_size := n\<rparr>) = owned B i"
  by (rule owned_addrs) simp

lemma iappend_loop_ok:
  assumes "img_ok m" "file_ok (img m) (freeblock m) (d\<lparr>i_size := off\<rparr>)" "iappend_loop d off p m = Inr (d2, off', m2)"
  shows "off' = off + length p \<and> img_ok m2 \<and> file_ok (img m2) (freeblock m2) (d2\<lparr>i_size := off'\<rparr>) \<and>
    contents (img m2) (d2\<lparr>i_size := off'\<rparr>) = contents (img m) (d\<lparr>i_size := off\<rparr>) @ p \<and>
    freeblock m \<le> freeblock m2 \<and> freeinode m2 = freeinode m \<and> owned (img m2) d2 \<subseteq> owned (img m) d \<union> {freeblock m..<freeblock m2} \<and>
    (\<forall>b < freeblock m. b \<notin> owned (img m) d \<longrightarrow> img m2 b = img m b) \<and> d2 = d\<lparr>i_addrs := i_addrs d2\<rparr>"
  using assms
proof (induction d off p m rule: iappend_loop.induct)
  case (1 d off p m)
  show ?case
  proof (cases "p = []")
    case True
    then show ?thesis using "1.prems" by (simp add: iappend_loop.simps)
  next
    case False
    define fbn where "fbn = off div BSIZE"
    have fb: "fbn < MAXFILE" using "1.prems"(3) False by (subst (asm) iappend_loop.simps) (auto simp: fbn_def Let_def split: if_splits)
    obtain x d1 m1 where r: "file_block d fbn m = Inr (x, d1, m1)"
      using "1.prems"(3) False fb by (subst (asm) iappend_loop.simps) (auto simp: fbn_def Let_def kbind_Inr)
    define n1 where "n1 = min (length p) ((fbn + 1) * BSIZE - off)"
    have x: "x < FSSIZE" using "1.prems"(3) False fb r
      by (subst (asm) iappend_loop.simps) (auto simp: fbn_def Let_def kbind_Inr rsect_def split: if_splits)
    define m3 where "m3 = wsect x (overwrite (off - fbn * BSIZE) (take n1 p) (img m1 x)) m1"
    have run: "iappend_loop d1 (off + n1) (drop n1 p) m3 = Inr (d2, off', m2)"
      using "1.prems"(3) False fb r x by (subst (asm) iappend_loop.simps) (simp add: fbn_def[symmetric] Let_def n1_def rsect_def m3_def)
    have r': "file_block (d\<lparr>i_size := off\<rparr>) fbn m = Inr (x, d1\<lparr>i_size := off\<rparr>, m1)" using r by (simp add: file_block_size)
    have mb: "mapped_block (d\<lparr>i_size := off\<rparr>) fbn m x (d1\<lparr>i_size := off\<rparr>) m1" by (rule file_block_ok[OF "1.prems"(1,2) fb r'])
    have A: "img_ok m3 \<and> file_ok (img m3) (freeblock m3) (d1\<lparr>i_size := off + n1\<rparr>) \<and>
      contents (img m3) (d1\<lparr>i_size := off + n1\<rparr>) = contents (img m) (d\<lparr>i_size := off\<rparr>) @ take n1 p \<and> freeblock m \<le> freeblock m3 \<and>
      freeinode m3 = freeinode m \<and> owned (img m3) d1 \<subseteq> owned (img m) d \<union> {freeblock m..<freeblock m3} \<and>
      (\<forall>b < freeblock m. b \<notin> owned (img m) d \<longrightarrow> img m3 b = img m b)"
      using append_round[OF "1.prems"(1,2) _ fbn_def fb mb x False n1_def m3_def] by simp
    have a: "img_ok m3" "file_ok (img m3) (freeblock m3) (d1\<lparr>i_size := off + n1\<rparr>)" using A by blast+
    have I: "off' = off + n1 + length (drop n1 p) \<and> img_ok m2 \<and> file_ok (img m2) (freeblock m2) (d2\<lparr>i_size := off'\<rparr>) \<and>
      contents (img m2) (d2\<lparr>i_size := off'\<rparr>) = contents (img m3) (d1\<lparr>i_size := off + n1\<rparr>) @ drop n1 p \<and>
      freeblock m3 \<le> freeblock m2 \<and> freeinode m2 = freeinode m3 \<and> owned (img m2) d2 \<subseteq> owned (img m3) d1 \<union> {freeblock m3..<freeblock m2} \<and>
      (\<forall>b < freeblock m3. b \<notin> owned (img m3) d1 \<longrightarrow> img m2 b = img m3 b) \<and> d2 = d1\<lparr>i_addrs := i_addrs d2\<rparr>"
      by (rule "1.IH"[OF False fbn_def _ n1_def a[unfolded m3_def] run[unfolded m3_def], folded m3_def]) (use fb in simp)
    have e: "d1 = d\<lparr>i_addrs := i_addrs d1\<rparr>"
    proof -
      have "d1\<lparr>i_size := off\<rparr> = d\<lparr>i_size := off, i_addrs := i_addrs d1\<rparr>" using mapped_blockD(12)[OF mb] by simp
      moreover have "i_size d1 = i_size d" using r by (auto simp: file_block_def Let_def kbind_Inr split: if_splits)
      ultimately show ?thesis by (cases d; cases d1) simp
    qed
    have ln: "n1 + length (drop n1 p) = length p" by (simp add: n1_def)
    have g1: "img m2 b = img m b" if "b < freeblock m" "b \<notin> owned (img m) d" for b
    proof -
      have "b < freeblock m3" "b \<notin> owned (img m3) d1" using that A by auto
      then show ?thesis using that(1,2) A I by metis
    qed
    have g2: "owned (img m2) d2 \<subseteq> owned (img m) d \<union> {freeblock m..<freeblock m2}"
    proof
      fix b assume "b \<in> owned (img m2) d2"
      then have "b \<in> owned (img m) d \<union> {freeblock m..<freeblock m3} \<union> {freeblock m3..<freeblock m2}" using A I by blast
      then show "b \<in> owned (img m) d \<union> {freeblock m..<freeblock m2}" using A I by auto
    qed
    have g3: "d2 = d\<lparr>i_addrs := i_addrs d2\<rparr>" using I e by (cases d; cases d1; cases d2) simp
    have o: "off' = off + length p" using I ln by (metis add.assoc)
    have c: "contents (img m2) (d2\<lparr>i_size := off'\<rparr>) = contents (img m) (d\<lparr>i_size := off\<rparr>) @ p"
      using I A by (metis append.assoc append_take_drop_id)
    have l: "freeblock m \<le> freeblock m2" "freeinode m2 = freeinode m" using A I by (metis order.trans, metis)
    show ?thesis using o c l g1 g2 g3 I by blast
  qed
qed

section \<open>The tree of files\<close>

definition dino :: "mkst \<Rightarrow> nat \<Rightarrow> inode" where
  "dino m k = get_dinode (img m (IBLOCK k mk_sb)) (blank_inode k)"

text \<open>The inodes from 1 on have the types and the contents of the list, and share no block.\<close>

definition tree_ok :: "mkst \<Rightarrow> (u16 \<times> byte list) list \<Rightarrow> bool" where
  "tree_ok m fs \<longleftrightarrow> img_ok m \<and> freeinode m = length fs + 1 \<and> length fs < 200 \<and> img m 1 = sb_bytes mk_sb \<and>
     (\<forall>k < length fs. file_ok (img m) (freeblock m) (dino m (k + 1)) \<and> i_type (dino m (k + 1)) = fst (fs ! k) \<and> i_nlink (dino m (k + 1)) = 1 \<and>
        contents (img m) (dino m (k + 1)) = snd (fs ! k)) \<and>
     (\<forall>k < length fs. \<forall>l < length fs. k \<noteq> l \<longrightarrow> owned (img m) (dino m (k + 1)) \<inter> owned (img m) (dino m (l + 1)) = {}) \<and>
     (\<forall>k. length fs < k \<and> k < 200 \<longrightarrow> i_type (dino m k) = 0)"

lemma tree_okD:
  assumes "tree_ok m fs"
  shows "img_ok m" "freeinode m = length fs + 1" "length fs < 200" "img m 1 = sb_bytes mk_sb"
    "\<And>k. k < length fs \<Longrightarrow> file_ok (img m) (freeblock m) (dino m (k + 1))" "\<And>k. k < length fs \<Longrightarrow> i_type (dino m (k + 1)) = fst (fs ! k)"
    "\<And>k. k < length fs \<Longrightarrow> i_nlink (dino m (k + 1)) = 1" "\<And>k. k < length fs \<Longrightarrow> contents (img m) (dino m (k + 1)) = snd (fs ! k)"
    "\<And>k l. k < length fs \<Longrightarrow> l < length fs \<Longrightarrow> k \<noteq> l \<Longrightarrow> owned (img m) (dino m (k + 1)) \<inter> owned (img m) (dino m (l + 1)) = {}"
    "\<And>k. length fs < k \<Longrightarrow> k < 200 \<Longrightarrow> i_type (dino m k) = 0"
  using assms unfolding tree_ok_def by (elim conjE; simp)+

text \<open>An inode as it is read from the image, with nothing but the fields stored there.\<close>

definition plain :: "inode \<Rightarrow> nat \<Rightarrow> bool" where
  "plain i n \<longleftrightarrow> i = (blank_inode n)\<lparr>i_type := i_type i, i_major := i_major i, i_minor := i_minor i, i_nlink := i_nlink i, i_size := i_size i,
     i_addrs := i_addrs i\<rparr>"

lemma plain_dino [simp]: "plain (dino m n) n"
  by (simp add: plain_def dino_def get_dinode_def blank_inode_def Let_def)

lemma plain_inum: "plain i n \<Longrightarrow> i_inum i = n"
  unfolding plain_def blank_inode_def by (metis inode.select_convs(2) inode.update_convs(6,7,8,9,10,11) inode.surjective)

lemma iblock_range: "n < 200 \<Longrightarrow> 32 \<le> IBLOCK n mk_sb \<and> IBLOCK n mk_sb < 58"
  by (simp add: IBLOCK_def less_mult_imp_div_less)

lemma file_ok_addrs:
  assumes "file_ok B fb i" "fb \<le> 1000"
  shows "i_size i < 2 ^ 32" "\<forall>a \<in> set (i_addrs i). a < 2 ^ 32"
proof -
  note F = file_okD[OF assms(1)]
  show "i_size i < 2 ^ 32" using F(2) by simp
  show "\<forall>a \<in> set (i_addrs i). a < 2 ^ 32"
  proof
    fix a assume "a \<in> set (i_addrs i)"
    then obtain k where k: "k < 13" "a = i_addrs i ! k" using F(1) by (auto simp: in_set_conv_nth)
    have "a = 0 \<or> a \<in> owned B i"
    proof (cases "k < 12")
      case True
      then show ?thesis using k owned_baddr[of k B i] by (auto simp: baddr_def)
    next
      case False
      then have "k = 12" using k(1) by simp
      then show ?thesis using k owned_ind[of i B] by (cases "a = 0") auto
    qed
    then show "a < 2 ^ 32" using F(3) assms(2) by fastforce
  qed
qed

lemma winode_ok:
  assumes p: "plain i n" and n: "n < 200" and l: "\<And>b. length (img m b) = BSIZE" and i: "length (i_addrs i) = 13" "i_size i < 2 ^ 32" "\<forall>a \<in> set (i_addrs i). a < 2 ^ 32"
    and w: "winode i m = Inr m2"
  shows "dino m2 n = i" "k \<noteq> n \<Longrightarrow> dino m2 k = dino m k" "b \<noteq> IBLOCK n mk_sb \<Longrightarrow> img m2 b = img m b"
    "length (img m2 b) = BSIZE" "freeblock m2 = freeblock m" "freeinode m2 = freeinode m"
proof -
  let ?b = "IBLOCK n mk_sb"
  have e: "m2 = wsect ?b (put_dinode i (img m ?b)) m"
    using w iblock_range[OF n] plain_inum[OF p] by (simp add: winode_def rsect_def Let_def)
  show "img m2 b = img m b" if "b \<noteq> ?b" for b using that by (simp add: e wsect_def)
  show "length (img m2 b) = BSIZE" for b using l by (simp add: e wsect_def put_dinode_def Let_def)
  show "freeblock m2 = freeblock m" "freeinode m2 = freeinode m" by (simp_all add: e wsect_def)
  have "get_dinode (put_dinode i (img m ?b)) (blank_inode n) = (blank_inode n)\<lparr>i_type := i_type i, i_major := i_major i, i_minor := i_minor i,
     i_nlink := i_nlink i, i_size := i_size i, i_addrs := i_addrs i\<rparr>"
    by (rule put_get_dinode) (use l i plain_inum[OF p] in \<open>simp_all add: blank_inode_def\<close>)
  then show "dino m2 n = i" using p unfolding plain_def by (simp add: dino_def e wsect_def)
  show "dino m2 k = dino m k" if "k \<noteq> n" for k
  proof (cases "IBLOCK k mk_sb = ?b")
    case True
    have "dip (i_inum i) + 64 \<le> dip (i_inum (blank_inode k)) \<or> dip (i_inum (blank_inode k)) + 64 \<le> dip (i_inum i)"
      using dip_bound(2)[OF True that] plain_inum[OF p] by (auto simp: blank_inode_def)
    then show ?thesis using put_dinode_other[of i "blank_inode k"] i(1) True by (simp add: dino_def e wsect_def)
  qed (simp add: dino_def e wsect_def)
qed

lemma file_ok_frame:
  assumes f: "file_ok B fb i" and fb: "fb \<le> fb'" and B: "\<And>a. a \<in> owned B i \<Longrightarrow> B' a = B a"
  shows "file_ok B' fb' i" "contents B' i = contents B i" "owned B' i = owned B i"
proof -
  note F = file_okD[OF f]
  have b: "baddr B' i = baddr B i" using B[OF owned_ind[of i]] by (intro baddr_cong) blast
  then show o: "owned B' i = owned B i" by (rule owned_cong)
  have d: "B' (baddr B i bn) = B (baddr B i bn)" if "bn < MAXFILE" "baddr B i bn \<noteq> 0" for bn using B[OF owned_baddr[OF that]] .
  show "file_ok B' fb' i"
  proof (rule file_okI; (unfold o b)?)
    show "59 \<le> a \<and> a < fb'" if "a \<in> owned B i" for a using F(3)[OF that] fb by simp
    show "B' (baddr B i bn) ! j = 0" if "bn < MAXFILE" "j < BSIZE" "baddr B i bn \<noteq> 0" "i_size i \<le> bn * BSIZE + j" for bn j
      using F(7)[OF that] d[OF that(1,3)] by simp
    show "bn = bm" if "bn < MAXFILE" "bm < MAXFILE" "baddr B i bn = baddr B i bm" "baddr B i bn \<noteq> 0" for bn bm by (rule F(4)[OF that])
  qed (use F(1,2,5,6,8) in simp_all)
  show "contents B' i = contents B i"
  proof (rule content_cong)
    fix bn assume bn: "bn * BSIZE < i_size i"
    then have "bn < MAXFILE" using F(2) by simp
    then show "B' (baddr B i bn) = B (baddr B i bn)" using F(6)[OF bn] d by simp
  qed (simp_all add: b)
qed

text \<open>One file of the tree has grown and its inode is written.\<close>

lemma tree_update:
  assumes t: "tree_ok m fs" "n < length fs" and m1: "img_ok m1" "freeblock m \<le> freeblock m1" "freeinode m1 = freeinode m"
    and i: "plain i (n + 1)" "file_ok (img m1) (freeblock m1) i" "i_nlink i = 1"
      "owned (img m1) i \<subseteq> owned (img m) (dino m (n + 1)) \<union> {freeblock m..<freeblock m1}"
    and fr: "\<forall>b < freeblock m. b \<notin> owned (img m) (dino m (n + 1)) \<longrightarrow> img m1 b = img m b" and w: "winode i m1 = Inr m2"
  shows "tree_ok m2 (fs[n := (i_type i, contents (img m1) i)])"
proof -
  note T = tree_okD[OF t(1)] and M1 = img_okD[OF m1(1)] and M = img_okD[OF T(1)]
  have n: "n + 1 < 200 \<or> n + 1 = 200" "n < 199 \<or> n = 199" using t(2) T(3) by auto
  have n2: "n + 1 < 200" using t(2) T(3) by simp
  note ib = iblock_range[OF n2]
  note W = winode_ok[OF i(1) n2 M1(3) file_okD(1)[OF i(2), simplified] file_ok_addrs[OF i(2) M1(2)] w]
  have low: "img m1 b = img m b" if "b < 59" for b
    using fr file_okD(3)[OF T(5)[OF t(2)], of b] that M(1) by (meson leD less_le_trans)
  have dk: "dino m2 (k + 1) = dino m (k + 1)" if "k \<noteq> n" "k < length fs" for k
  proof -
    have "IBLOCK (k + 1) mk_sb < 59" using iblock_range[of "k + 1"] that T(3) by simp
    then have "dino m1 (k + 1) = dino m (k + 1)" using low by (simp add: dino_def)
    then show ?thesis using W(2)[of "k + 1"] that(1) by simp
  qed
  have B2: "img m2 a = img m1 a" if "59 \<le> a" for a using W(3)[of a] ib that by simp
  have N: "file_ok (img m2) (freeblock m2) i" "contents (img m2) i = contents (img m1) i" "owned (img m2) i = owned (img m1) i"
    using file_ok_frame[OF i(2), of "freeblock m2" "img m2"] B2 file_okD(3)[OF i(2)] W(5) by auto
  have K: "file_ok (img m2) (freeblock m2) (dino m (k + 1))" "contents (img m2) (dino m (k + 1)) = contents (img m) (dino m (k + 1))"
    "owned (img m2) (dino m (k + 1)) = owned (img m) (dino m (k + 1))" if k: "k < length fs" "k \<noteq> n" for k
  proof -
    have "img m2 a = img m a" if a: "a \<in> owned (img m) (dino m (k + 1))" for a
    proof -
      have "59 \<le> a" "a < freeblock m" using file_okD(3)[OF T(5)[OF k(1)] a] by simp_all
      moreover have "a \<notin> owned (img m) (dino m (n + 1))" using T(9)[OF k(1) t(2) k(2)] a by blast
      ultimately show ?thesis using B2 fr by simp
    qed
    then show "file_ok (img m2) (freeblock m2) (dino m (k + 1))" "contents (img m2) (dino m (k + 1)) = contents (img m) (dino m (k + 1))"
      "owned (img m2) (dino m (k + 1)) = owned (img m) (dino m (k + 1))"
      using file_ok_frame[OF T(5)[OF k(1)], of "freeblock m2" "img m2"] W(5) m1(2) by auto
  qed
  have sep: "owned (img m) (dino m (k + 1)) \<inter> owned (img m1) i = {}" if k: "k < length fs" "k \<noteq> n" for k
  proof -
    have "a < freeblock m" if "a \<in> owned (img m) (dino m (k + 1))" for a using file_okD(3)[OF T(5)[OF k(1)] that] by simp
    then show ?thesis using T(9)[OF k(1) t(2) k(2)] i(4) by fastforce
  qed
  show ?thesis unfolding tree_ok_def
  proof (intro conjI allI impI)
    show "img_ok m2" unfolding img_ok_def using M1 W(4,5) B2 by auto
    show "freeinode m2 = length (fs[n := (i_type i, contents (img m1) i)]) + 1" using W(6) m1(3) T(2) by simp
    show "length (fs[n := (i_type i, contents (img m1) i)]) < 200" using T(3) by simp
    show "img m2 1 = sb_bytes mk_sb" using W(3)[of 1] ib low[of 1] T(4) by simp
  next
    fix k assume k: "length (fs[n := (i_type i, contents (img m1) i)]) < k \<and> k < 200"
    have "IBLOCK k mk_sb < 59" using iblock_range[of k] k by simp
    then have "dino m1 k = dino m k" using low by (simp add: dino_def)
    then show "i_type (dino m2 k) = 0" using W(2)[of k] k T(10)[of k] t(2) by simp
  next
    fix k assume k: "k < length (fs[n := (i_type i, contents (img m1) i)])"
    have kk: "k = n \<or> k < length fs \<and> k \<noteq> n" using k by auto
    show "file_ok (img m2) (freeblock m2) (dino m2 (k + 1))" using kk N(1) W(1) K(1)[of k] dk[of k] by auto
    show "i_type (dino m2 (k + 1)) = fst (fs[n := (i_type i, contents (img m1) i)] ! k)" using kk W(1) dk[of k] T(6)[of k] t(2) by auto
    show "i_nlink (dino m2 (k + 1)) = 1" using kk W(1) dk[of k] T(7)[of k] i(3) by auto
    show "contents (img m2) (dino m2 (k + 1)) = snd (fs[n := (i_type i, contents (img m1) i)] ! k)"
      using kk W(1) dk[of k] T(8)[of k] t(2) N(2) K(2)[of k] by auto
  next
    fix k l assume kl: "k < length (fs[n := (i_type i, contents (img m1) i)])" "l < length (fs[n := (i_type i, contents (img m1) i)])" "k \<noteq> l"
    then have "k < length fs" "l < length fs" by simp_all
    note D = T(9)[OF this kl(3)]
    have kk: "k = n \<or> k < length fs \<and> k \<noteq> n" "l = n \<or> l < length fs \<and> l \<noteq> n" using kl by auto
    show "owned (img m2) (dino m2 (k + 1)) \<inter> owned (img m2) (dino m2 (l + 1)) = {}"
    proof (cases "k = n")
      case True
      then have l: "l < length fs" "l \<noteq> n" using kl by auto
      then show ?thesis using True W(1) N(3) K(3)[OF l] dk[of l] sep[OF l] by (simp add: Int_commute)
    next
      case False
      then have k: "k < length fs" "k \<noteq> n" using kk by auto
      show ?thesis
      proof (cases "l = n")
        case True
        then show ?thesis using W(1) N(3) K(3)[OF k] dk[of k] k sep[OF k] by simp
      next
        case False
        then have l: "l < length fs" "l \<noteq> n" using kk by auto
        then show ?thesis using D K(3)[OF k] K(3)[OF l] dk[of k] dk[of l] k by simp
      qed
    qed
  qed
qed

section \<open>The operations on the tree\<close>

lemma rinode_dino: "rinode n m = (if IBLOCK n mk_sb < FSSIZE then Inr (dino m n) else panic ''read'')"
  by (simp add: rinode_def rsect_def dino_def Let_def)

lemma plain_fields: "plain d n \<Longrightarrow> d2 = d\<lparr>i_addrs := as\<rparr> \<Longrightarrow> plain (d2\<lparr>i_size := z\<rparr>) n"
  unfolding plain_def by (cases d) (simp add: blank_inode_def)

lemma iappend_ok:
  assumes t: "tree_ok m fs" "n < length fs" and r: "iappend (n + 1) p m = Inr m2"
  shows "tree_ok m2 (fs[n := (fst (fs ! n), snd (fs ! n) @ p)])"
proof -
  note T = tree_okD[OF t(1)]
  define d where "d = dino m (n + 1)"
  have "IBLOCK (n + 1) mk_sb < 1000" using iblock_range[of "n + 1"] t(2) T(3) by simp
  then obtain d1 off m1 where l: "iappend_loop d (i_size d) p m = Inr (d1, off, m1)" "winode (d1\<lparr>i_size := off\<rparr>) m1 = Inr m2"
    using r by (auto simp: iappend_def rinode_dino d_def kbind_Inr)
  have ds: "d\<lparr>i_size := i_size d\<rparr> = d" by simp
  have f: "file_ok (img m) (freeblock m) (d\<lparr>i_size := i_size d\<rparr>)" using T(5)[OF t(2)] by (simp add: d_def)
  have A: "img_ok m1" "file_ok (img m1) (freeblock m1) (d1\<lparr>i_size := off\<rparr>)" "contents (img m1) (d1\<lparr>i_size := off\<rparr>) = contents (img m) d @ p"
    "freeblock m \<le> freeblock m1" "freeinode m1 = freeinode m" "owned (img m1) d1 \<subseteq> owned (img m) d \<union> {freeblock m..<freeblock m1}"
    "\<forall>b < freeblock m. b \<notin> owned (img m) d \<longrightarrow> img m1 b = img m b" "d1 = d\<lparr>i_addrs := i_addrs d1\<rparr>"
    using iappend_loop_ok[OF T(1) f l(1)] unfolding ds by blast+
  have eq: "i_type d1 = i_type d" "i_nlink d1 = i_nlink d" using arg_cong[OF A(8), of i_type] arg_cong[OF A(8), of i_nlink] by simp_all
  have pl: "plain (d1\<lparr>i_size := off\<rparr>) (n + 1)" using plain_fields[OF _ A(8)] by (simp add: d_def)
  have "i_nlink (d1\<lparr>i_size := off\<rparr>) = 1" using eq(2) T(7)[OF t(2)] by (simp add: d_def)
  moreover have "owned (img m1) (d1\<lparr>i_size := off\<rparr>) \<subseteq> owned (img m) (dino m (n + 1)) \<union> {freeblock m..<freeblock m1}" using A(6) by (simp add: d_def)
  ultimately have "tree_ok m2 (fs[n := (i_type (d1\<lparr>i_size := off\<rparr>), contents (img m1) (d1\<lparr>i_size := off\<rparr>))])"
    using tree_update[OF t A(1,4,5) pl A(2) _ _ A(7)[unfolded d_def] l(2)] by blast
  then show ?thesis using A(3) eq(1) T(6,8)[OF t(2)] by (simp add: d_def)
qed

lemma blank_addrs: "i_addrs i = replicate 13 0 \<Longrightarrow> baddr B i bn = 0" "i_addrs i = replicate 13 0 \<Longrightarrow> owned B i = {}"
proof -
  show b: "baddr B i bn = 0" if "i_addrs i = replicate 13 0" for bn
    using that by (cases "bn < 12") (simp_all add: baddr_def nth_replicate del: replicate.simps)
  show "owned B i = {}" if "i_addrs i = replicate 13 0" using b[OF that] that by (auto simp: owned_def nth_replicate)
qed

lemma mk_ialloc_ok:
  assumes t: "tree_ok m fs" "length fs < 199" and r: "mk_ialloc ty m = Inr (inum, m2)"
  shows "inum = length fs + 1 \<and> tree_ok m2 (fs @ [(ty, [])])"
proof -
  note T = tree_okD[OF t(1)] and M = img_okD[OF tree_okD(1)[OF t(1)]]
  define n where "n = length fs + 1"
  define i where "i = (blank_inode n)\<lparr>i_type := ty, i_nlink := 1, i_size := 0\<rparr>"
  define m1 where "m1 = m\<lparr>freeinode := n + 1\<rparr>"
  have w: "inum = n" "winode i m1 = Inr m2" using r T(2) by (auto simp: mk_ialloc_def n_def i_def m1_def Let_def kbind_Inr)
  have ia: "i_addrs i = replicate 13 0" "i_size i = 0" "i_type i = ty" "i_nlink i = 1" by (simp_all add: i_def blank_inode_def)
  have pl: "plain i n" by (simp add: plain_def i_def blank_inode_def)
  have n2: "n < 200" using t(2) by (simp add: n_def)
  note ib = iblock_range[OF n2]
  have l1: "length (img m1 b) = BSIZE" for b using M(3) by (simp add: m1_def)
  have a13: "length (i_addrs i) = 13" "i_size i < 2 ^ 32" "\<forall>a \<in> set (i_addrs i). a < 2 ^ 32" using ia by auto
  note W = winode_ok[OF pl n2 l1 a13 w(2)]
  have dk: "dino m2 (k + 1) = dino m (k + 1)" if "k < length fs" for k using W(2)[of "k + 1"] that by (simp add: n_def m1_def dino_def)
  have B: "img m2 a = img m a" if "59 \<le> a \<or> a = 1" for a using W(3)[of a] ib that by (auto simp: m1_def)
  have fbs: "freeblock m2 = freeblock m" using W(5) by (simp add: m1_def)
  have K: "file_ok (img m2) (freeblock m2) (dino m (k + 1))" "contents (img m2) (dino m (k + 1)) = contents (img m) (dino m (k + 1))"
    "owned (img m2) (dino m (k + 1)) = owned (img m) (dino m (k + 1))" if k: "k < length fs" for k
    using file_ok_frame[OF T(5)[OF k], of "freeblock m2" "img m2"] B file_okD(3)[OF T(5)[OF k]] fbs by auto
  have new: "file_ok (img m2) (freeblock m2) i" "contents (img m2) i = []" "owned (img m2) i = {}"
    using ia blank_addrs[OF ia(1)] by (simp_all add: file_ok_def contents_def)
  have "tree_ok m2 (fs @ [(ty, [])])" unfolding tree_ok_def
  proof (intro conjI allI impI)
    show "img_ok m2" unfolding img_ok_def using M(1,2,4) W(4) B fbs by auto
    show "freeinode m2 = length (fs @ [(ty, [])]) + 1" using W(6) by (simp add: m1_def n_def)
    show "length (fs @ [(ty, [])]) < 200" using t(2) by simp
    show "img m2 1 = sb_bytes mk_sb" using B T(4) by simp
  next
    fix k assume k: "length (fs @ [(ty, [])]) < k \<and> k < 200"
    have "dino m1 k = dino m k" by (simp add: dino_def m1_def)
    then show "i_type (dino m2 k) = 0" using W(2)[of k] k T(10)[of k] by (simp add: n_def)
  next
    fix k assume "k < length (fs @ [(ty, [])])"
    then have kk: "k = length fs \<or> k < length fs" by auto
    have nk: "n = k + 1" if "k = length fs" using that by (simp add: n_def)
    show "file_ok (img m2) (freeblock m2) (dino m2 (k + 1))" using kk new W(1) nk K(1)[of k] dk[of k] by auto
    show "i_type (dino m2 (k + 1)) = fst ((fs @ [(ty, [])]) ! k)" using kk W(1) nk ia(3) dk[of k] T(6)[of k] by (auto simp: nth_append)
    show "i_nlink (dino m2 (k + 1)) = 1" using kk W(1) nk ia(4) dk[of k] T(7)[of k] by auto
    show "contents (img m2) (dino m2 (k + 1)) = snd ((fs @ [(ty, [])]) ! k)" using kk W(1) nk new dk[of k] T(8)[of k] K(2)[of k] by (auto simp: nth_append)
  next
    fix k l assume kl: "k < length (fs @ [(ty, [])])" "l < length (fs @ [(ty, [])])" "k \<noteq> l"
    have "owned (img m2) (dino m2 (length fs + 1)) = {}" using W(1) new(3) by (simp add: n_def)
    then show "owned (img m2) (dino m2 (k + 1)) \<inter> owned (img m2) (dino m2 (l + 1)) = {}"
      using kl T(9)[of k l] K(3)[of k] K(3)[of l] dk[of k] dk[of l] by (cases "k = length fs"; cases "l = length fs") auto
  qed
  then show ?thesis using w(1) by (simp add: n_def)
qed

lemma append_all_ok:
  "tree_ok m fs \<Longrightarrow> n < length fs \<Longrightarrow> append_all (n + 1) chunks m = Inr m2 \<Longrightarrow> tree_ok m2 (fs[n := (fst (fs ! n), snd (fs ! n) @ concat chunks)])"
proof (induction chunks arbitrary: m fs)
  case (Cons c chunks)
  obtain m1 where m1: "iappend (n + 1) c m = Inr m1" "append_all (n + 1) chunks m1 = Inr m2" using Cons.prems(3) by (auto simp: kbind_Inr)
  note A = iappend_ok[OF Cons.prems(1,2) m1(1)]
  show ?case using Cons.IH[OF A _ m1(2)] Cons.prems(2) by simp
qed simp

text \<open>The entries of the root directory for files that get the inodes from \<open>n\<close> on.\<close>

fun dirents :: "nat \<Rightarrow> host_file list \<Rightarrow> byte list" where
  "dirents n [] = []"
| "dirents n ((name, chunks) # files) = mk_dirent n (fs_name name) @ dirents (n + 1) files"

lemma add_files_ok:
  "tree_ok m ((ty, c) # fs) \<Longrightarrow> length fs + length files < 199 \<Longrightarrow> add_files 1 files m = Inr m2 \<Longrightarrow>
     tree_ok m2 ((ty, c @ dirents (length fs + 2) files) # fs @ map (\<lambda>(name, chunks). (T_FILE, concat chunks)) files)"
proof (induction files arbitrary: m c fs)
  case (Cons f files)
  obtain name chunks where f: "f = (name, chunks)" by (cases f)
  obtain inum m1 m3 m4 where s: "mk_ialloc T_FILE m = Inr (inum, m1)" "iappend 1 (mk_dirent inum (fs_name name)) m1 = Inr m3"
    "append_all inum chunks m3 = Inr m4" "add_files 1 files m4 = Inr m2"
    using Cons.prems(3) f by (auto simp: kbind_Inr split: if_splits)
  have "length ((ty, c) # fs) < 199" using Cons.prems(2) by simp
  note A = mk_ialloc_ok[OF Cons.prems(1) this s(1)]
  have i: "inum = length fs + 1 + 1" and t1: "tree_ok m1 (((ty, c) # fs) @ [(T_FILE, [])])" using A by simp_all
  have t3: "tree_ok m3 ((ty, c @ mk_dirent inum (fs_name name)) # fs @ [(T_FILE, [])])"
    using iappend_ok[OF t1, of 0] s(2) by simp
  have lt: "length fs + 1 < length ((ty, c @ mk_dirent inum (fs_name name)) # fs @ [(T_FILE, [])])" by simp
  have t4: "tree_ok m4 ((ty, c @ mk_dirent inum (fs_name name)) # (fs @ [(T_FILE, concat chunks)]))"
    using append_all_ok[OF t3 lt s(3)[unfolded i]] by (simp add: nth_append list_update_append)
  have l: "length (fs @ [(T_FILE, concat chunks)]) + length files < 199" using Cons.prems(2) by simp
  show ?case using Cons.IH[OF t4 l s(4)] f i by simp
qed simp

end
