(* ===== verification/Mkfs_Spec.thy ===== *)
theory Mkfs_Spec
  imports Mkfs
begin

text \<open>
  What \<open>mkfs\<close> builds: the invariants of the kernel hold of the image, the files are there with their contents and the
  root directory maps their names to them; and the program succeeds when the files are small enough.
\<close>

section \<open>The start and the end of the run\<close>

lemma length_sb_bytes [simp]: "length (sb_bytes sp) = BSIZE"
  by (simp add: sb_bytes_def)

lemma superblock_sb_bytes: "superblock_of (sb_bytes mk_sb) = mk_sb"
  by (simp add: superblock_of_def sb_bytes_def)

lemma mk_start_ok: "tree_ok mk_start []"
proof -
  have t: "i_type (dino mk_start k) = 0" if "k < 200" for k
  proof -
    have "IBLOCK k mk_sb \<noteq> 1" using iblock_range[OF that] by simp
    then have "img mk_start (IBLOCK k mk_sb) = zero_block" by (simp add: mk_start_def wsect_def)
    moreover have "dip k + 1 < BSIZE" using dip_bound(1)[of k] by simp
    ultimately show ?thesis by (simp add: dino_def get_dinode_def blank_inode_def get16_def zero_block_def Let_def)
  qed
  have "img_ok mk_start" by (simp add: img_ok_def mk_start_def wsect_def)
  then show ?thesis using t by (simp add: tree_ok_def) (simp add: mk_start_def wsect_def)
qed

text \<open>Rounding the size of a file up to the end of its last block adds zeros, if that block is not full.\<close>

lemma file_ok_round:
  assumes f: "file_ok B fb i" and z: "i_size i mod BSIZE \<noteq> 0" and n: "n = (i_size i div BSIZE + 1) * BSIZE"
  shows "file_ok B fb (i\<lparr>i_size := n\<rparr>)" "contents B (i\<lparr>i_size := n\<rparr>) = contents B i @ replicate (n - i_size i) 0"
proof -
  note F = file_okD[OF f]
  have b: "baddr B (i\<lparr>i_size := n\<rparr>) bn = baddr B i bn" for bn by (simp add: baddr_def)
  have q: "i_size i div BSIZE < MAXFILE"
  proof (rule ccontr)
    assume "\<not> i_size i div BSIZE < MAXFILE"
    then have "MAXFILE * BSIZE \<le> i_size i div BSIZE * BSIZE" by simp
    then show False using z F(2) div_mult_mod_eq[of "i_size i" BSIZE] by linarith
  qed
  have nl: "i_size i \<le> n" using div_mult_mod_eq[of "i_size i" BSIZE] mod_less_divisor[of BSIZE "i_size i"] n by simp
  have m: "baddr B i bn \<noteq> 0" if "bn * BSIZE < n" for bn
  proof -
    have "bn < i_size i div BSIZE + 1" using that n by simp
    then have "bn * BSIZE \<le> i_size i div BSIZE * BSIZE" by simp
    then show ?thesis using z div_mult_mod_eq[of "i_size i" BSIZE] by (intro F(6)) linarith
  qed
  have t: "bn * BSIZE < n" if "bn < MAXFILE" "baddr B i bn \<noteq> 0" for bn using F(8)[OF that] nl by simp
  have x: "n \<le> MAXFILE * BSIZE" using q n by simp
  show "file_ok B fb (i\<lparr>i_size := n\<rparr>)"
  proof (rule file_okI; (unfold b owned_size)?)
    show "B (baddr B i bn) ! j = 0" if "bn < MAXFILE" "j < BSIZE" "baddr B i bn \<noteq> 0" "i_size (i\<lparr>i_size := n\<rparr>) \<le> bn * BSIZE + j" for bn j
      using F(7)[OF that(1-3)] that(4) nl by simp
    show "bn = bm" if "bn < MAXFILE" "bm < MAXFILE" "baddr B i bn = baddr B i bm" "baddr B i bn \<noteq> 0" for bn bm by (rule F(4)[OF that])
  qed (use F(1,3,5) x m t in simp_all)
  have z0: "B (baddr B i (k div BSIZE)) ! (k mod BSIZE) = 0" if k: "i_size i \<le> k" "k < n" for k
  proof -
    have kd: "k div BSIZE = i_size i div BSIZE"
      using div_le_mono[OF k(1), of BSIZE] less_mult_imp_div_less[OF k(2)[unfolded n]] by simp
    have "k div BSIZE * BSIZE < n" using kd n by simp
    then show ?thesis using F(7)[of "k div BSIZE" "k mod BSIZE"] m kd q k(1) div_mult_mod_eq[of k BSIZE] by simp
  qed
  have u: "[0..<n] = [0..<i_size i] @ [i_size i..<n]" using nl upt_add_eq_append[of 0 "i_size i" "n - i_size i"] by simp
  have "map (\<lambda>k. B (baddr B i (k div BSIZE)) ! (k mod BSIZE)) [i_size i..<n] = replicate (n - i_size i) 0"
    using z0 by (intro nth_equalityI) simp_all
  then show "contents B (i\<lparr>i_size := n\<rparr>) = contents B i @ replicate (n - i_size i) 0"
    unfolding contents_def b by (simp add: u)
qed

lemma plain_size: "plain d n \<Longrightarrow> plain (d\<lparr>i_size := z\<rparr>) n"
  by (rule plain_fields[of d n d "i_addrs d"]) simp_all

definition round_up :: "nat \<Rightarrow> nat" where
  "round_up n = (n div BSIZE + 1) * BSIZE - n"

lemma fix_size_ok:
  assumes t: "tree_ok m ((ty, c) # fs)" and z: "length c mod BSIZE \<noteq> 0" and r: "fix_size 1 m = Inr m2"
  shows "tree_ok m2 ((ty, c @ replicate (round_up (length c)) 0) # fs)"
proof -
  note T = tree_okD[OF t]
  have T0: "file_ok (img m) (freeblock m) (dino m 1)" "i_type (dino m 1) = ty" "i_nlink (dino m 1) = 1" "contents (img m) (dino m 1) = c"
    using T(5,6,7,8)[of 0] by simp_all
  have sz: "i_size (dino m 1) = length c" using T0(4) by (auto simp: contents_def)
  let ?i = "(dino m 1)\<lparr>i_size := (length c div BSIZE + 1) * BSIZE\<rparr>"
  have "IBLOCK 1 mk_sb < 1000" using iblock_range[of 1] by simp
  then have w: "winode ?i m = Inr m2" using r sz by (simp add: fix_size_def rinode_dino Let_def)
  have zi: "i_size (dino m 1) mod BSIZE \<noteq> 0" using z sz by simp
  note R = file_ok_round[OF T0(1) zi refl, unfolded sz T0(4)]
  have "tree_ok m2 (((ty, c) # fs)[0 := (i_type ?i, contents (img m) ?i)])"
    by (rule tree_update[OF t _ T(1)]) (use w R T0 plain_size in \<open>simp_all\<close>)
  then show ?thesis using R T0 by (simp add: round_up_def)
qed

lemma bit_clear_zero: "b < 4096 \<Longrightarrow> bit_clear zero_block b"
  by (simp add: bit_clear_def zero_block_def less_mult_imp_div_less)

lemma mark_first_bits: "n \<le> 4096 \<Longrightarrow> length d = BSIZE \<Longrightarrow> length (mark_first n d) = BSIZE \<and> (bit_clear (mark_first n d) b \<longleftrightarrow> bit_clear d b \<and> n \<le> b)"
proof (induction n)
  case (Suc n)
  then have I: "length (mark_first n d) = BSIZE" "bit_clear (mark_first n d) b \<longleftrightarrow> bit_clear d b \<and> n \<le> b" by simp_all
  have "n div 8 < length (mark_first n d)" using I(1) Suc.prems(1) by (simp add: less_mult_imp_div_less)
  from bit_clear_mark[OF this, of b] I show ?case by auto
qed simp

lemma mk_balloc_ok:
  assumes t: "tree_ok m fs" and r: "mk_balloc (freeblock m) m = Inr m2"
  shows "tree_ok m2 fs" "freeblock m2 = freeblock m" "b < 4096 \<Longrightarrow> bit_clear (img m2 58) b \<longleftrightarrow> freeblock m \<le> b"
proof -
  note T = tree_okD[OF t] and M = img_okD[OF tree_okD(1)[OF t]]
  have e: "m2 = wsect 58 (mark_first (freeblock m) zero_block) m" using r by (auto simp: mk_balloc_def split: if_splits)
  have fb: "freeblock m \<le> 4096" using M(2) by simp
  note B = mark_first_bits[OF fb length_zero_block]
  show fe: "freeblock m2 = freeblock m" by (simp add: e wsect_def)
  show "bit_clear (img m2 58) b \<longleftrightarrow> freeblock m \<le> b" if "b < 4096" using B[of b] bit_clear_zero[OF that] by (simp add: e wsect_def)
  have im: "img m2 b = img m b" if "b \<noteq> 58" for b using that by (simp add: e wsect_def)
  have d: "dino m2 k = dino m k" if "k < 200" for k using iblock_range[OF that] im by (simp add: dino_def)
  have K: "file_ok (img m2) (freeblock m2) (dino m2 (k + 1))" "contents (img m2) (dino m2 (k + 1)) = contents (img m) (dino m (k + 1))"
    "owned (img m2) (dino m2 (k + 1)) = owned (img m) (dino m (k + 1))" "dino m2 (k + 1) = dino m (k + 1)" if k: "k < length fs" for k
  proof -
    have dk: "dino m2 (k + 1) = dino m (k + 1)" using k T(3) d by simp
    have "img m2 a = img m a" if "a \<in> owned (img m) (dino m (k + 1))" for a using file_okD(3)[OF T(5)[OF k] that] im by simp
    then show "file_ok (img m2) (freeblock m2) (dino m2 (k + 1))" "contents (img m2) (dino m2 (k + 1)) = contents (img m) (dino m (k + 1))"
      "owned (img m2) (dino m2 (k + 1)) = owned (img m) (dino m (k + 1))" "dino m2 (k + 1) = dino m (k + 1)"
      using file_ok_frame[OF T(5)[OF k], of "freeblock m2" "img m2"] fe dk by auto
  qed
  have "img_ok m2" using M B[of 0] im by (auto simp: img_ok_def e wsect_def)
  moreover have "freeinode m2 = freeinode m" by (simp add: e wsect_def)
  ultimately show "tree_ok m2 fs" unfolding tree_ok_def using T K im d by simp
qed

section \<open>The root directory\<close>

text \<open>A directory made of entries for the inodes and names of the list, and of zeros.\<close>

definition dir_of :: "(nat \<times> byte list) list \<Rightarrow> nat \<Rightarrow> byte list" where
  "dir_of es z = concat (map (\<lambda>(i, nm). mk_dirent i nm) es) @ replicate z 0"

lemma length_mk_dirent [simp]: "length (mk_dirent i nm) = 16"
  by (simp add: mk_dirent_def)

lemma length_dir_of: "length (dir_of es z) = 16 * length es + z"
  by (induction es) (auto simp: dir_of_def split: prod.splits)

lemma entry_dir_of:
  "k < length es \<Longrightarrow> entry (dir_of es z) k = (case es ! k of (i, nm) \<Rightarrow> mk_dirent i nm)"
proof (induction es arbitrary: k)
  case (Cons e es)
  obtain i nm where e: "e = (i, nm)" by (cases e)
  have c: "dir_of ((i, nm) # es) z = mk_dirent i nm @ dir_of es z" by (simp add: dir_of_def)
  show ?case
  proof (cases k)
    case 0
    then show ?thesis by (simp add: c entry_def e)
  next
    case (Suc j)
    then have "entry (dir_of (e # es) z) k = entry (dir_of es z) j" by (simp add: c e entry_def)
    then show ?thesis using Suc Cons by simp
  qed
qed simp

lemma entry_dir_of_zero:
  assumes "length es \<le> k" "k < length (dir_of es z) div 16"
  shows "de_inum (entry (dir_of es z) k) = 0"
proof -
  have "16 * k + 16 \<le> 16 * length es + z" using assms(2) by (simp add: length_dir_of)
  then have "16 \<le> z - (16 * k - 16 * length es)" using assms(1) by simp
  moreover have "length (concat (map (\<lambda>(i, nm). mk_dirent i nm) es)) = 16 * length es" using length_dir_of[of es 0] by (simp add: dir_of_def)
  ultimately have "entry (dir_of es z) k = replicate 16 0" using assms(1) by (simp add: entry_def dir_of_def min_absorb1)
  then show ?thesis by (simp add: de_inum_def get16_def)
qed

lemma find_nth_map_of:
  "map_option (\<lambda>k. fst (es ! k)) (List.find (\<lambda>k. cname (snd (es ! k)) = nm) [0..<length es]) = map_of (map (\<lambda>(i, n). (cname n, i)) es) nm"
proof (induction es)
  case (Cons e es)
  obtain i n where e: "e = (i, n)" by (cases e)
  have u: "[0..<length (e # es)] = 0 # map Suc [0..<length es]" by (simp add: upt_conv_Cons map_Suc_upt del: upt_Suc)
  have f: "List.find P (map Suc ks) = map_option Suc (List.find (P \<circ> Suc) ks)" for P ks by (induction ks) auto
  show ?case
  proof (cases "cname n = nm")
    case True
    then have "List.find (\<lambda>k. cname (snd ((e # es) ! k)) = nm) [0..<length (e # es)] = Some 0" unfolding u by (simp add: e)
    then show ?thesis using True e by simp
  next
    case False
    have "List.find (\<lambda>k. cname (snd ((e # es) ! k)) = nm) [0..<length (e # es)] =
        map_option Suc (List.find (\<lambda>k. cname (snd (es ! k)) = nm) [0..<length es])"
      unfolding u by (simp add: e False f comp_def del: upt_Suc)
    then show ?thesis using Cons.IH e False by (simp add: option.map_comp comp_def)
  qed
qed simp

lemma find_append_none: "(\<And>y. y \<in> set ys \<Longrightarrow> \<not> P y) \<Longrightarrow> List.find P (xs @ ys) = List.find P xs"
  by (induction xs) (auto simp: find_None_iff)

lemma dir_map_dir_of:
  assumes i: "\<forall>(i, n) \<in> set es. 0 < i \<and> i < 2 ^ 16"
  shows "dir_map (dir_of es z) = map_of (map (\<lambda>(i, n). (cname n, i)) es)"
proof
  fix nm
  let ?c = "dir_of es z"
  have e: "de_inum (entry ?c k) = fst (es ! k)" "cname (de_name (entry ?c k)) = cname (snd (es ! k))" "0 < fst (es ! k)" if "k < length es" for k
  proof -
    obtain i n where en: "es ! k = (i, n)" by (cases "es ! k")
    then have "(i, n) \<in> set es" using that by (metis nth_mem)
    then have "0 < i" "i < 2 ^ 16" using i by auto
    then show "de_inum (entry ?c k) = fst (es ! k)" "cname (de_name (entry ?c k)) = cname (snd (es ! k))" "0 < fst (es ! k)"
      using entry_dir_of[OF that, of z] en mk_dirent_fields by simp_all
  qed
  have u: "[0..<length ?c div 16] = [0..<length es] @ [length es..<length ?c div 16]"
  proof -
    have "length es \<le> length ?c div 16" by (simp add: length_dir_of)
    then show ?thesis by (metis le_add_diff_inverse upt_add_eq_append zero_le)
  qed
  have "dir_index ?c nm = List.find (\<lambda>k. matches nm (entry ?c k)) [0..<length es]"
    unfolding dir_index_def u by (rule find_append_none) (use entry_dir_of_zero in \<open>auto simp: matches_def\<close>)
  also have "\<dots> = List.find (\<lambda>k. cname (snd (es ! k)) = nm) [0..<length es]"
    by (rule find_cong) (use e in \<open>auto simp: matches_def\<close>)
  finally have d: "dir_index ?c nm = List.find (\<lambda>k. cname (snd (es ! k)) = nm) [0..<length es]" .
  have "k < length es" if "List.find (\<lambda>k. cname (snd (es ! k)) = nm) [0..<length es] = Some k" for k
    using that by (auto simp: find_Some_iff)
  then have "dir_map ?c nm = map_option (\<lambda>k. fst (es ! k)) (List.find (\<lambda>k. cname (snd (es ! k)) = nm) [0..<length es])"
    unfolding dir_map_def d by (auto intro!: option.map_cong simp: e)
  then show "dir_map ?c nm = map_of (map (\<lambda>(i, n). (cname n, i)) es) nm" by (simp only: find_nth_map_of)
qed

text \<open>The names of the root directory and their inodes.\<close>

definition root_names :: "host_file list \<Rightarrow> (nat \<times> byte list) list" where
  "root_names files = (1, [46]) # (1, [46, 46]) # zip [2..<length files + 2] (map (fs_name \<circ> fst) files)"

lemma length_root_names: "length (root_names files) = length files + 2"
proof -
  have "length [2..<length files + 2] = length files" unfolding length_upt by (rule diff_add_inverse2)
  then show ?thesis unfolding root_names_def by simp
qed

lemma dirents_dir_of: "dirents n files = dir_of (zip [n..<length files + n] (map (fs_name \<circ> fst) files)) 0"
proof (induction files arbitrary: n)
  case (Cons f files)
  have "[n..<length (f # files) + n] = n # [n + 1..<length files + (n + 1)]" using upt_conv_Cons[of n "length files + (n + 1)"] by simp
  then show ?case using Cons.IH[of "n + 1"] by (cases f) (simp add: dir_of_def del: upt_Suc)
qed (simp add: dir_of_def)

lemma root_content:
  "mk_dirent 1 [46] @ mk_dirent 1 [46, 46] @ dirents 2 files @ replicate z 0 = dir_of (root_names files) z"
  by (simp add: dirents_dir_of) (simp add: dir_of_def root_names_def)

section \<open>What the program builds\<close>

text \<open>A state of the kernel on the image: enough blocks and the superblock read.\<close>

definition mounted :: "mkst \<Rightarrow> ('d, 'z) fsys_scheme \<Rightarrow> bool" where
  "mounted m s \<longleftrightarrow> blocks s = img m \<and> sb s = superblock_of (img m 1) \<and> FSSIZE \<le> nblk s"

lemma mkfs_files:
  assumes r: "mkfs files = Inr m" and n: "length files < 199"
  shows "\<exists>m3 m4. tree_ok m3 ((T_DIR, dir_of (root_names files) 0) # map (\<lambda>(name, chunks). (T_FILE, concat chunks)) files) \<and>
    fix_size 1 m3 = Inr m4 \<and> mk_balloc (freeblock m4) m4 = Inr m"
proof -
  let ?d1 = "mk_dirent 1 [46]" and ?d2 = "mk_dirent 1 [46, 46]" and ?fs = "map (\<lambda>(name, chunks). (T_FILE, concat chunks)) files"
  obtain m0 where s0: "mk_ialloc T_DIR mk_start = Inr (1, m0)" and t0: "tree_ok m0 [(T_DIR, [])]"
  proof -
    obtain i m0 where a: "mk_ialloc T_DIR mk_start = Inr (i, m0)" using r by (cases "mk_ialloc T_DIR mk_start") (auto simp: mkfs_def)
    have "length ([] :: (u16 \<times> byte list) list) < 199" by simp
    from mk_ialloc_ok[OF mk_start_ok this a] show ?thesis using a that by simp
  qed
  obtain m1 m2 m3 m4 where s: "iappend 1 ?d1 m0 = Inr m1" "iappend 1 ?d2 m1 = Inr m2" "add_files 1 files m2 = Inr m3" "fix_size 1 m3 = Inr m4"
    "mk_balloc (freeblock m4) m4 = Inr m"
    using r s0 by (auto simp: mkfs_def kbind_Inr)
  have t1: "tree_ok m1 [(T_DIR, ?d1)]" using iappend_ok[OF t0, of 0 ?d1 m1] s(1) by simp
  have t2: "tree_ok m2 [(T_DIR, ?d1 @ ?d2)]" using iappend_ok[OF t1, of 0 ?d2 m2] s(2) by simp
  have "length ([] :: (u16 \<times> byte list) list) + length files < 199" using n by simp
  from add_files_ok[OF t2 this s(3)] have t3: "tree_ok m3 ((T_DIR, ?d1 @ ?d2 @ dirents 2 files) # ?fs)" by (simp add: numeral_2_eq_2)
  have c0: "?d1 @ ?d2 @ dirents 2 files = dir_of (root_names files) 0" using root_content[of files 0] by simp
  show ?thesis using t3[unfolded c0] s(4,5) by blast
qed

lemma mkfs_tree:
  assumes r: "mkfs files = Inr m" and n: "length files < 199" and z: "(length files + 2) mod 32 \<noteq> 0"
  defines "c \<equiv> dir_of (root_names files) (round_up (16 * (length files + 2)))"
  shows "tree_ok m ((T_DIR, c) # map (\<lambda>(name, chunks). (T_FILE, concat chunks)) files) \<and> (\<forall>b < 4096. bit_clear (img m 58) b \<longleftrightarrow> freeblock m \<le> b)"
proof -
  let ?fs = "map (\<lambda>(name, chunks). (T_FILE, concat chunks)) files"
  obtain m3 m4 where t3: "tree_ok m3 ((T_DIR, dir_of (root_names files) 0) # ?fs)" and s: "fix_size 1 m3 = Inr m4" "mk_balloc (freeblock m4) m4 = Inr m"
    using mkfs_files[OF r n] by blast
  have l0: "length (dir_of (root_names files) 0) = 16 * (length files + 2)" by (simp add: length_dir_of length_root_names)
  have "16 * (length files + 2) mod BSIZE = 16 * ((length files + 2) mod 32)" using mult_mod_right[of 16 "length files + 2" 32] by simp
  then have "length (dir_of (root_names files) 0) mod BSIZE \<noteq> 0" using z unfolding l0 by simp
  from fix_size_ok[OF t3 this s(1)] have t4: "tree_ok m4 ((T_DIR, dir_of (root_names files) 0 @ replicate (round_up (16 * (length files + 2))) 0) # ?fs)"
    unfolding l0 .
  have "dir_of (root_names files) 0 @ replicate (round_up (16 * (length files + 2))) 0 = c" by (simp add: c_def dir_of_def)
  then show ?thesis using mk_balloc_ok[OF t4 s(2)] by simp
qed

lemma tree_inodes:
  assumes t: "tree_ok m fs" and b: "\<forall>b < 4096. bit_clear (img m 58) b \<longleftrightarrow> freeblock m \<le> b" and s: "mounted m s"
  shows "fsb_ok s" "b < FSSIZE \<Longrightarrow> used s b \<longleftrightarrow> b < freeblock m" "k < length fs \<Longrightarrow> inode_ok s (dino m (k + 1))"
proof -
  note T = tree_okD[OF t] and M = img_okD[OF tree_okD(1)[OF t]]
  have S: "blocks s = img m" "sb s = mk_sb" "1000 \<le> nblk s" using s T(4) superblock_sb_bytes by (simp_all add: mounted_def)
  have u: "used s b \<longleftrightarrow> b < freeblock m" if "b < FSSIZE" for b
    using that b by (simp add: used_def S BBLOCK_def) linarith
  then show "b < FSSIZE \<Longrightarrow> used s b \<longleftrightarrow> b < freeblock m" .
  have l: "layout mk_sb" "datastart mk_sb = 59" by (simp_all add: layout_def datastart_def)
  show "fsb_ok s" unfolding fsb_ok_def using S l T(4) superblock_sb_bytes M(1,3) u by auto
  show "inode_ok s (dino m (k + 1))" if "k < length fs"
  proof -
    note F = file_okD[OF T(5)[OF that]]
    have "is_data s a \<and> used s a" if "a \<in> owned (img m) (dino m (k + 1))" for a
      using F(3)[OF that] M(2) u[of a] S l by (simp add: is_data_def)
    then show ?thesis unfolding inode_ok_def S using F by blast
  qed
qed

text \<open>
  C12: What \<open>mkfs\<close> builds from fewer than 199 files, when the root directory does not end at a block boundary, is a file system the
  kernel's invariants hold of: the superblock and the bitmap are in order and exactly the blocks given out are marked, every inode's
  block map is sound, no block belongs to two of them, the files have the contents they have on the host, all other inodes are free,
  and the root directory maps ".", ".." and the name of each file (of two equal ones, the first) to its inode.
\<close>

theorem mkfs_correct:
  assumes "mkfs files = Inr m" "length files < 199" "(length files + 2) mod 32 \<noteq> 0" "mounted m s"
  shows "fsb_ok s \<and> (\<forall>b < FSSIZE. used s b \<longleftrightarrow> b < freeblock m) \<and>
    (\<forall>k \<in> {1..length files + 1}. inode_ok s (dino m k) \<and> i_nlink (dino m k) = 1) \<and>
    (\<forall>k \<in> {1..length files + 1}. \<forall>l \<in> {1..length files + 1}. k \<noteq> l \<longrightarrow> owned (blocks s) (dino m k) \<inter> owned (blocks s) (dino m l) = {}) \<and>
    (\<forall>k < length files. i_type (dino m (k + 2)) = T_FILE \<and> contents (blocks s) (dino m (k + 2)) = concat (snd (files ! k))) \<and>
    (\<forall>k. length files + 1 < k \<and> k < NINODES \<longrightarrow> i_type (dino m k) = 0) \<and>
    i_type (dino m 1) = T_DIR \<and> BSIZE dvd i_size (dino m 1) \<and>
    dir_map (contents (blocks s) (dino m 1)) = map_of (map (\<lambda>(i, name). (cname name, i)) (root_names files))"
proof -
  let ?c = "dir_of (root_names files) (round_up (16 * (length files + 2)))"
  let ?fs = "(T_DIR, ?c) # map (\<lambda>(name, chunks). (T_FILE, concat chunks)) files"
  have t: "tree_ok m ?fs" and b: "\<forall>b < 4096. bit_clear (img m 58) b \<longleftrightarrow> freeblock m \<le> b" using mkfs_tree[OF assms(1-3)] by blast+
  note T = tree_okD[OF t] and I = tree_inodes[OF t b assms(4)]
  have S: "blocks s = img m" using assms(4) by (simp add: mounted_def)
  have l: "length ?fs = length files + 1" by simp
  have K: "\<exists>j < length ?fs. k = j + 1" if "k \<in> {1..length files + 1}" for k using that by (intro exI[of _ "k - 1"]) auto
  have c: "contents (img m) (dino m 1) = ?c" using T(8)[of 0] by simp
  have "\<forall>(i, n) \<in> set (root_names files). 0 < i \<and> i < 2 ^ 16" using assms(2) by (auto simp: root_names_def dest!: set_zip_leftD)
  then have d: "dir_map (contents (blocks s) (dino m 1)) = map_of (map (\<lambda>(i, name). (cname name, i)) (root_names files))"
    unfolding S c by (rule dir_map_dir_of)
  have f: "i_type (dino m (k + 2)) = T_FILE \<and> contents (blocks s) (dino m (k + 2)) = concat (snd (files ! k))" if "k < length files" for k
    using T(6,8)[of "k + 1"] that S by (cases "files ! k") simp
  have "i_size (dino m 1) = length ?c" using arg_cong[OF c, of length] by (simp add: contents_def)
  then have "BSIZE dvd i_size (dino m 1)"
  proof -
    have "length ?c = (16 * (length files + 2) div BSIZE + 1) * BSIZE"
      using div_mult_mod_eq[of "16 * (length files + 2)" BSIZE] mod_less_divisor[of BSIZE "16 * (length files + 2)"]
      by (simp add: length_dir_of length_root_names round_up_def)
    then show ?thesis using \<open>i_size (dino m 1) = length ?c\<close> by simp
  qed
  moreover have "inode_ok s (dino m k) \<and> i_nlink (dino m k) = 1" if "k \<in> {1..length files + 1}" for k
    using K[OF that] I(3) T(7) by blast
  moreover have "owned (blocks s) (dino m k) \<inter> owned (blocks s) (dino m l) = {}"
    if kl: "k \<in> {1..length files + 1}" "l \<in> {1..length files + 1}" "k \<noteq> l" for k l
  proof -
    obtain i j where "i < length ?fs" "j < length ?fs" "k = i + 1" "l = j + 1" using K[OF kl(1)] K[OF kl(2)] by blast
    then show ?thesis using T(9)[of i j] kl(3) S by simp
  qed
  moreover have "i_type (dino m k) = 0" if "length files + 1 < k \<and> k < NINODES" for k using T(10)[of k] that l by simp
  moreover have "i_type (dino m 1) = T_DIR" using T(6)[of 0] by simp
  ultimately show ?thesis using I(1,2) d f by (intro conjI ballI allI impI) simp_all
qed

section \<open>When it succeeds\<close>

lemma file_block_succeeds:
  assumes m: "img_ok m" and f: "file_ok (img m) (freeblock m) i" and n: "fbn < MAXFILE" and fb: "freeblock m + 2 \<le> FSSIZE"
  shows "\<exists>x i1 m1. file_block i fbn m = Inr (x, i1, m1) \<and> x < FSSIZE \<and> freeblock m1 \<le> freeblock m + 2"
proof -
  note F = file_okD[OF f] and M = img_okD[OF m]
  have d: "i_addrs i ! 12 < 1000" using F(3)[OF owned_ind[of i "img m"]] M(2) by (cases "i_addrs i ! 12 = 0") auto
  have "\<exists>x i1 m1. file_block i fbn m = Inr (x, i1, m1) \<and> freeblock m1 \<le> freeblock m + 2"
    using d fb F(1) by (auto simp: file_block_def rsect_def wsect_def Let_def)
  then obtain x i1 m1 where r: "file_block i fbn m = Inr (x, i1, m1)" "freeblock m1 \<le> freeblock m + 2" by blast
  have "baddr (img m) i fbn < 1000" using F(3)[OF owned_baddr[OF n]] M(2) by (cases "baddr (img m) i fbn = 0") auto
  then have "x < 1000" using mapped_blockD(7)[OF file_block_ok[OF m f n r(1)]] r(2) fb by auto
  then show ?thesis using r by blast
qed

text \<open>The rounds \<open>iappend\<close> makes for \<open>n\<close> bytes at \<open>off\<close>; each takes two blocks at most.\<close>

definition rounds :: "nat \<Rightarrow> nat \<Rightarrow> nat" where
  "rounds off n = (if n = 0 then 0 else (off mod BSIZE + n + 511) div BSIZE)"

lemma rounds_step:
  assumes "p \<noteq> []" "n1 = min (length p) ((off div BSIZE + 1) * BSIZE - off)"
  shows "rounds off (length p) = rounds (off + n1) (length (drop n1 p)) + 1"
proof -
  have "(off div BSIZE + 1) * BSIZE = off div BSIZE * BSIZE + BSIZE" by simp
  then have o: "(off div BSIZE + 1) * BSIZE - off = BSIZE - off mod BSIZE" using div_mult_mod_eq[of off BSIZE] by linarith
  have om: "off mod BSIZE < BSIZE" by simp
  show ?thesis
  proof (cases "length p \<le> BSIZE - off mod BSIZE")
    case True
    then have "(off mod BSIZE + length p + 511) div BSIZE = 1"
      using om assms(1) by (intro div_nat_eqI) (simp_all add: Suc_le_eq)
    then show ?thesis using True assms o by (simp add: rounds_def)
  next
    case False
    then have n: "n1 = BSIZE - off mod BSIZE" using assms(2) o by simp
    have "(off + n1) mod BSIZE = 0"
    proof -
      have "off + n1 = off div BSIZE * BSIZE + BSIZE" using n om div_mult_mod_eq[of off BSIZE] by linarith
      then show ?thesis by simp
    qed
    moreover have "off mod BSIZE + length p + 511 = (length p - n1 + 511) + BSIZE" using n om False by simp
    then have "(off mod BSIZE + length p + 511) div BSIZE = (length p - n1 + 511) div BSIZE + 1" by (simp only: div_add_self2)
    moreover have "length p \<noteq> 0" "length (drop n1 p) = length p - n1" "length p - n1 \<noteq> 0" using assms(1) False n by simp_all
    ultimately show ?thesis unfolding rounds_def by (simp only: if_False add_0)
  qed
qed

lemma iappend_loop_succeeds:
  assumes "img_ok m" "file_ok (img m) (freeblock m) (d\<lparr>i_size := off\<rparr>)" "off + length p \<le> MAXFILE * BSIZE"
    "freeblock m + 2 * rounds off (length p) \<le> FSSIZE"
  shows "\<exists>d2 off' m2. iappend_loop d off p m = Inr (d2, off', m2) \<and> freeblock m2 \<le> freeblock m + 2 * rounds off (length p)"
  using assms
proof (induction d off p m rule: iappend_loop.induct)
  case (1 d off p m)
  show ?case
  proof (cases "p = []")
    case False
    define fbn where "fbn = off div BSIZE"
    define n1 where "n1 = min (length p) ((fbn + 1) * BSIZE - off)"
    note R = rounds_step[OF False n1_def[unfolded fbn_def]]
    have "off < MAXFILE * BSIZE" using "1.prems"(3) False by (cases p) simp_all
    then have fb: "fbn < MAXFILE" unfolding fbn_def by (rule less_mult_imp_div_less)
    have b2: "freeblock m + 2 \<le> FSSIZE" using "1.prems"(4) R by simp
    obtain x i1 m1 where r: "file_block (d\<lparr>i_size := off\<rparr>) fbn m = Inr (x, i1, m1)" "x < FSSIZE" "freeblock m1 \<le> freeblock m + 2"
      using file_block_succeeds[OF "1.prems"(1,2) fb b2] by blast
    obtain d1 where d1: "file_block d fbn m = Inr (x, d1, m1)" "i1 = d1\<lparr>i_size := off\<rparr>"
      using r(1) unfolding file_block_size by (auto split: sum.splits)
    define m3 where "m3 = wsect x (overwrite (off - fbn * BSIZE) (take n1 p) (img m1 x)) m1"
    have mb: "mapped_block (d\<lparr>i_size := off\<rparr>) fbn m x (d1\<lparr>i_size := off\<rparr>) m1" using file_block_ok[OF "1.prems"(1,2) fb r(1)] d1(2) by simp
    have a: "img_ok m3" "file_ok (img m3) (freeblock m3) (d1\<lparr>i_size := off + n1\<rparr>)"
      using append_round[OF "1.prems"(1,2) _ fbn_def fb mb r(2) False n1_def m3_def] by simp_all
    have f3: "freeblock m3 \<le> freeblock m + 2" using r(3) by (simp add: m3_def wsect_def)
    have ln: "off + n1 + length (drop n1 p) \<le> MAXFILE * BSIZE" using "1.prems"(3) by (simp add: n1_def)
    have f4: "freeblock m3 + 2 * rounds (off + n1) (length (drop n1 p)) \<le> FSSIZE" using "1.prems"(4) R f3 by linarith
    have "\<exists>d2 off' m2. iappend_loop d1 (off + n1) (drop n1 p) m3 = Inr (d2, off', m2) \<and>
        freeblock m2 \<le> freeblock m3 + 2 * rounds (off + n1) (length (drop n1 p))"
      by (rule "1.IH"[OF False fbn_def _ n1_def a[unfolded m3_def] ln f4[unfolded m3_def], folded m3_def]) (use fb in simp)
    then obtain d2 off' m2 where i: "iappend_loop d1 (off + n1) (drop n1 p) m3 = Inr (d2, off', m2)"
      "freeblock m2 \<le> freeblock m3 + 2 * rounds (off + n1) (length (drop n1 p))" by blast
    have "iappend_loop d off p m = Inr (d2, off', m2)"
      using False fb d1(1) r(2) i(1) by (subst iappend_loop.simps) (simp add: fbn_def[symmetric] Let_def n1_def rsect_def m3_def)
    then show ?thesis using i(2) f3 R by (intro exI conjI) (assumption, linarith)
  qed (simp add: iappend_loop.simps)
qed

lemma iappend_succeeds:
  assumes t: "tree_ok m fs" "n < length fs" and l: "length (snd (fs ! n)) + length p \<le> MAXFILE * BSIZE" "length p \<le> BSIZE"
    and f: "freeblock m + 4 \<le> FSSIZE"
  shows "\<exists>m2. iappend (n + 1) p m = Inr m2 \<and> freeblock m2 \<le> freeblock m + 4"
proof -
  note T = tree_okD[OF t(1)]
  define d where "d = dino m (n + 1)"
  have b: "IBLOCK (n + 1) mk_sb < 1000" using iblock_range[of "n + 1"] t(2) T(3) by simp
  have z: "i_size d = length (snd (fs ! n))" using arg_cong[OF T(8)[OF t(2)], of length] by (simp add: d_def contents_def)
  have "i_size d mod BSIZE + length p + 511 < 3 * BSIZE" using mod_less_divisor[of BSIZE "i_size d"] l(2) by simp
  then have r: "rounds (i_size d) (length p) \<le> 2"
    unfolding rounds_def using less_mult_imp_div_less[of "i_size d mod BSIZE + length p + 511" 3 BSIZE] by simp
  have fo: "file_ok (img m) (freeblock m) (d\<lparr>i_size := i_size d\<rparr>)" using T(5)[OF t(2)] by (simp add: d_def)
  have sz: "i_size d + length p \<le> MAXFILE * BSIZE" using z l(1) by simp
  have fr: "freeblock m + 2 * rounds (i_size d) (length p) \<le> FSSIZE" using r f by simp
  obtain d2 off m1 where a: "iappend_loop d (i_size d) p m = Inr (d2, off, m1)" "freeblock m1 \<le> freeblock m + 4"
    using iappend_loop_succeeds[OF T(1) fo sz fr] r by fastforce
  have e: "d2 = d\<lparr>i_addrs := i_addrs d2\<rparr>" using iappend_loop_ok[OF T(1) fo a(1)] by blast
  have "plain d (n + 1)" by (simp add: d_def)
  from plain_inum[OF plain_fields[OF this e]] have "i_inum (d2\<lparr>i_size := off\<rparr>) = n + 1" .
  then have "winode (d2\<lparr>i_size := off\<rparr>) m1 = Inr (wsect (IBLOCK (n + 1) mk_sb) (put_dinode (d2\<lparr>i_size := off\<rparr>) (img m1 (IBLOCK (n + 1) mk_sb))) m1)"
    using b by (simp add: winode_def rsect_def Let_def)
  moreover have "iappend (n + 1) p m = winode (d2\<lparr>i_size := off\<rparr>) m1" unfolding iappend_def rinode_dino if_P[OF b] d_def[symmetric] using a(1) by simp
  ultimately show ?thesis using a(2) by (simp add: wsect_def)
qed

text \<open>Blocks enough for the appends of a file, at four for each.\<close>

lemma append_all_succeeds:
  "tree_ok m fs \<Longrightarrow> n < length fs \<Longrightarrow> length (snd (fs ! n)) + length (concat chunks) \<le> MAXFILE * BSIZE \<Longrightarrow>
     \<forall>c \<in> set chunks. length c \<le> BSIZE \<Longrightarrow> freeblock m + 4 * length chunks \<le> FSSIZE \<Longrightarrow>
     \<exists>m2. append_all (n + 1) chunks m = Inr m2 \<and> freeblock m2 \<le> freeblock m + 4 * length chunks"
proof (induction chunks arbitrary: m fs)
  case (Cons c chunks)
  have "\<exists>m1. iappend (n + 1) c m = Inr m1 \<and> freeblock m1 \<le> freeblock m + 4"
    by (rule iappend_succeeds[OF Cons.prems(1,2)]) (use Cons.prems(3-5) in simp_all)
  then obtain m1 where m1: "iappend (n + 1) c m = Inr m1" "freeblock m1 \<le> freeblock m + 4" by blast
  have "\<exists>m2. append_all (n + 1) chunks m1 = Inr m2 \<and> freeblock m2 \<le> freeblock m1 + 4 * length chunks"
    by (rule Cons.IH[OF iappend_ok[OF Cons.prems(1,2) m1(1)]]) (use Cons.prems m1(2) in simp_all)
  then obtain m2 where "append_all (n + 1) chunks m1 = Inr m2" "freeblock m2 \<le> freeblock m1 + 4 * length chunks" by blast
  then show ?case using m1 by simp
qed simp

definition fits :: "host_file \<Rightarrow> bool" where
  "fits f \<longleftrightarrow> SLASH \<notin> set (fst f) \<and> length (concat (snd f)) \<le> MAXFILE * BSIZE \<and> (\<forall>c \<in> set (snd f). length c \<le> BSIZE)"

definition blocks_for :: "host_file list \<Rightarrow> nat" where
  "blocks_for files = (\<Sum>f\<leftarrow>files. 4 + 4 * length (snd f))"

lemma mk_ialloc_succeeds: "tree_ok m fs \<Longrightarrow> length fs < 199 \<Longrightarrow> \<exists>m2. mk_ialloc ty m = Inr (length fs + 1, m2) \<and> freeblock m2 = freeblock m"
  using tree_okD(2)[of m fs] iblock_range[of "length fs + 1"]
  by (simp add: mk_ialloc_def winode_def rsect_def blank_inode_def Let_def wsect_def)

lemma add_files_succeeds:
  "tree_ok m ((ty, c) # fs) \<Longrightarrow> length fs + length files < 199 \<Longrightarrow> length c \<le> 16 * (length fs + 2) \<Longrightarrow> \<forall>f \<in> set files. fits f \<Longrightarrow>
     freeblock m + blocks_for files \<le> FSSIZE \<Longrightarrow> \<exists>m2. add_files 1 files m = Inr m2 \<and> freeblock m2 \<le> freeblock m + blocks_for files"
proof (induction files arbitrary: m c fs)
  case (Cons f files)
  obtain name chunks where f: "f = (name, chunks)" by (cases f)
  have ft: "SLASH \<notin> set name" "length (concat chunks) \<le> MAXFILE * BSIZE" "\<forall>c \<in> set chunks. length c \<le> BSIZE"
    using Cons.prems(4) f by (simp_all add: fits_def)
  have bf: "blocks_for (f # files) = 4 + 4 * length chunks + blocks_for files" by (simp add: blocks_for_def f)
  have l: "length ((ty, c) # fs) < 199" using Cons.prems(2) by simp
  let ?i = "length fs + 1 + 1"
  obtain m1 where s1: "mk_ialloc T_FILE m = Inr (?i, m1)" "freeblock m1 = freeblock m"
    using mk_ialloc_succeeds[OF Cons.prems(1) l, of T_FILE] by auto
  have t1: "tree_ok m1 (((ty, c) # fs) @ [(T_FILE, [])])" using mk_ialloc_ok[OF Cons.prems(1) l s1(1)] by simp
  let ?de = "mk_dirent ?i (fs_name name)"
  have "\<exists>m3. iappend (0 + 1) ?de m1 = Inr m3 \<and> freeblock m3 \<le> freeblock m1 + 4"
    by (rule iappend_succeeds[OF t1]) (use Cons.prems(2,3,5) s1(2) bf in simp_all)
  then obtain m3 where s3: "iappend 1 ?de m1 = Inr m3" "freeblock m3 \<le> freeblock m + 4" using s1(2) by auto
  have t3: "tree_ok m3 ((ty, c @ ?de) # fs @ [(T_FILE, [])])" using iappend_ok[OF t1, of 0] s3(1) by simp
  have lt: "length fs + 1 < length ((ty, c @ ?de) # fs @ [(T_FILE, [])])" by simp
  have "\<exists>m4. append_all (length fs + 1 + 1) chunks m3 = Inr m4 \<and> freeblock m4 \<le> freeblock m3 + 4 * length chunks"
    by (rule append_all_succeeds[OF t3 lt]) (use ft Cons.prems(5) bf s3(2) in \<open>simp_all add: nth_append\<close>)
  then obtain m4 where s4: "append_all ?i chunks m3 = Inr m4" "freeblock m4 \<le> freeblock m3 + 4 * length chunks" by blast
  have t4: "tree_ok m4 ((ty, c @ ?de) # (fs @ [(T_FILE, concat chunks)]))"
    using append_all_ok[OF t3 lt s4(1)] by (simp add: nth_append list_update_append)
  have "\<exists>m2. add_files 1 files m4 = Inr m2 \<and> freeblock m2 \<le> freeblock m4 + blocks_for files"
    by (rule Cons.IH[OF t4]) (use Cons.prems(2-5) bf s3(2) s4(2) in simp_all)
  then obtain m2 where "add_files 1 files m4 = Inr m2" "freeblock m2 \<le> freeblock m4 + blocks_for files" by blast
  then show ?case using ft(1) f s1 s3 s4 bf by simp
qed (simp add: blocks_for_def)

lemma mkfs_small:
  assumes "length files < 199" "\<forall>f \<in> set files. fits f" "blocks_for files \<le> 933"
  shows "\<exists>m. mkfs files = Inr m"
proof -
  let ?d1 = "mk_dirent 1 [46]" and ?d2 = "mk_dirent 1 [46, 46]"
  have l: "length ([] :: (u16 \<times> byte list) list) < 199" by simp
  obtain m0 where s0: "mk_ialloc T_DIR mk_start = Inr (1, m0)" "freeblock m0 = 59"
    using mk_ialloc_succeeds[OF mk_start_ok l, of T_DIR] by (auto simp: mk_start_def wsect_def)
  have t0: "tree_ok m0 [(T_DIR, [])]" using mk_ialloc_ok[OF mk_start_ok l s0(1)] by simp
  have "\<exists>m1. iappend (0 + 1) ?d1 m0 = Inr m1 \<and> freeblock m1 \<le> freeblock m0 + 4" by (rule iappend_succeeds[OF t0]) (use s0 in simp_all)
  then obtain m1 where s1: "iappend 1 ?d1 m0 = Inr m1" "freeblock m1 \<le> 63" using s0(2) by auto
  have t1: "tree_ok m1 [(T_DIR, ?d1)]" using iappend_ok[OF t0, of 0 ?d1 m1] s1(1) by simp
  have "\<exists>m2. iappend (0 + 1) ?d2 m1 = Inr m2 \<and> freeblock m2 \<le> freeblock m1 + 4" by (rule iappend_succeeds[OF t1]) (use s1 in simp_all)
  then obtain m2 where s2: "iappend 1 ?d2 m1 = Inr m2" "freeblock m2 \<le> 67" using s1(2) by auto
  have t2: "tree_ok m2 [(T_DIR, ?d1 @ ?d2)]" using iappend_ok[OF t1, of 0 ?d2 m2] s2(1) by simp
  have ln: "length ([] :: (u16 \<times> byte list) list) + length files < 199" using assms(1) by simp
  have "\<exists>m3. add_files 1 files m2 = Inr m3 \<and> freeblock m3 \<le> freeblock m2 + blocks_for files"
    by (rule add_files_succeeds[OF t2 ln]) (use assms s2(2) in simp_all)
  then obtain m3 where s3: "add_files 1 files m2 = Inr m3" "freeblock m3 \<le> 1000" using assms(3) s2(2) by auto
  have ib: "IBLOCK 1 mk_sb < 1000" using iblock_range[of 1] by simp
  then obtain m4 where s4: "fix_size 1 m3 = Inr m4" "freeblock m4 = freeblock m3"
    by (simp add: fix_size_def rinode_dino winode_def rsect_def Let_def plain_inum[OF plain_dino] wsect_def)
  show ?thesis using s0 s1 s2 s3 s4 by (simp add: mkfs_def mk_balloc_def)
qed

text \<open>
  C13: \<open>mkfs\<close> succeeds: with fewer than 199 files without a slash in their names, none longer than \<open>MAXFILE\<close> blocks, and at most
  933 blocks counted at four for each directory entry and each read of the file, no assertion fails and no sector behind the end of
  the image is read.
\<close>

theorem mkfs_succeeds:
  assumes "length files < 199" "\<forall>f \<in> set files. fits f" "blocks_for files \<le> 933"
  shows "\<exists>m. mkfs files = Inr m"
  by (rule mkfs_small[OF assms])

theorem mkfs_succeeds_witness: "\<exists>m. mkfs [([97], [[1, 2, 3]])] = Inr m"
  by (rule mkfs_succeeds) (simp_all add: fits_def blocks_for_def)

section \<open>A hole in the root directory\<close>

text \<open>
  C38: A root directory that fills its last block exactly gets a block of zeros more in its size but not in its map: the block map
  that \<open>mkfs\<close> writes has a hole, so that the kernel's invariant of inodes does not hold.
\<close>

theorem mkfs_hole:
  assumes r: "mkfs files = Inr m" and n: "length files < 199" and z: "(length files + 2) mod 32 = 0" and s: "mounted m s"
  shows "i_size (dino m 1) = 16 * (length files + 2) + BSIZE \<and> baddr (blocks s) (dino m 1) (16 * (length files + 2) div BSIZE) = 0 \<and>
    \<not> inode_ok s (dino m 1)"
proof -
  obtain m3 m4 where t3: "tree_ok m3 ((T_DIR, dir_of (root_names files) 0) # map (\<lambda>(name, chunks). (T_FILE, concat chunks)) files)"
    and q: "fix_size 1 m3 = Inr m4" "mk_balloc (freeblock m4) m4 = Inr m"
    using mkfs_files[OF r n] by blast
  note T = tree_okD[OF t3]
  let ?d = "dino m3 1" and ?k = "16 * (length files + 2) div BSIZE"
  have c: "contents (img m3) ?d = dir_of (root_names files) 0" "file_ok (img m3) (freeblock m3) ?d" using T(5,8)[of 0] by simp_all
  note F = file_okD[OF c(2)]
  have sz: "i_size ?d = 16 * (length files + 2)"
    using arg_cong[OF c(1), of length] by (simp add: contents_def length_dir_of length_root_names)
  have k: "?k * BSIZE = 16 * (length files + 2)"
    using z mult_mod_right[of 16 "length files + 2" 32] div_mult_mod_eq[of "16 * (length files + 2)" BSIZE] by simp
  have "?k < MAXFILE" using n by (simp add: less_mult_imp_div_less)
  then have h: "baddr (img m3) ?d ?k = 0" using F(8)[of ?k] sz k by auto
  let ?i = "?d\<lparr>i_size := (i_size ?d div BSIZE + 1) * BSIZE\<rparr>"
  have ib: "IBLOCK 1 mk_sb < 1000" using iblock_range[of 1] by simp
  have w: "winode ?i m3 = Inr m4" using q(1) ib by (simp add: fix_size_def rinode_dino Let_def)
  have pl: "plain ?i 1" by (rule plain_size) simp
  have a13: "length (i_addrs ?i) = 13" "i_size ?i < 2 ^ 32" "\<forall>a \<in> set (i_addrs ?i). a < 2 ^ 32"
    using F(1) file_ok_addrs[OF c(2)] img_okD(2)[OF T(1)] sz k n by simp_all
  have n1: "(1::nat) < 200" by simp
  note W = winode_ok[OF pl n1 img_okD(3)[OF T(1)] a13 w]
  have e: "m = wsect 58 (mark_first (freeblock m4) zero_block) m4" using q(2) by (auto simp: mk_balloc_def split: if_splits)
  have d: "dino m 1 = ?i" using W(1) iblock_range[OF n1] by (simp add: e dino_def wsect_def)
  have dz: "i_addrs ?d ! 12 \<noteq> 0 \<Longrightarrow> 59 \<le> i_addrs ?d ! 12" using F(3)[OF owned_ind[of ?d "img m3"]] by auto
  have "baddr (img m) (dino m 1) ?k = baddr (img m3) ?d ?k"
    using dz W(3)[of "i_addrs ?d ! 12"] iblock_range[OF n1] unfolding d by (auto simp: baddr_def e wsect_def)
  then have b: "baddr (blocks s) (dino m 1) ?k = 0" using h s by (simp add: mounted_def)
  have si: "i_size (dino m 1) = 16 * (length files + 2) + BSIZE" using k unfolding d sz by simp
  have "?k * BSIZE < i_size (dino m 1)" using si k by linarith
  then have "\<not> inode_ok s (dino m 1)" using b unfolding inode_ok_def by blast
  then show ?thesis using b si by blast
qed

section \<open>Examples\<close>

lemma sample_mounted: "mounted m ((sample_fs T_DIR)\<lparr>blocks := img m, sb := superblock_of (img m 1)\<rparr>)"
  by (simp add: mounted_def)

theorem mkfs_correct_witness:
  "\<exists>m. mkfs [([95, 97], [[1, 2], [3]])] = Inr m \<and> contents (img m) (dino m 2) = [1, 2, 3] \<and> dir_map (contents (img m) (dino m 1)) [97] = Some 2"
proof -
  let ?f = "[([95, 97], [[1, 2], [3]])] :: host_file list"
  obtain m where m: "mkfs ?f = Inr m"
    using mkfs_small[of ?f] by (auto simp: fits_def blocks_for_def)
  let ?s = "(sample_fs T_DIR)\<lparr>blocks := img m, sb := superblock_of (img m 1)\<rparr>"
  have l: "length ?f < 199" "(length ?f + 2) mod 32 \<noteq> 0" by simp_all
  have S: "blocks ?s = img m" by simp
  note C = mkfs_correct[OF m l sample_mounted]
  have "\<forall>k < length ?f. contents (img m) (dino m (k + 2)) = concat (snd (?f ! k))" using C unfolding S by blast
  from this[rule_format, of 0] have "contents (img m) (dino m 2) = [1, 2, 3]" unfolding add_0 by simp
  moreover have "dir_map (contents (img m) (dino m 1)) = map_of (map (\<lambda>(i, name). (cname name, i)) (root_names ?f))" using C unfolding S by blast
  then have "dir_map (contents (img m) (dino m 1)) [97] = Some 2" by (simp add: root_names_def fs_name_def cname_def)
  ultimately show ?thesis using m by blast
qed

theorem mkfs_hole_witness:
  "\<exists>m. mkfs (replicate 30 ([97], [])) = Inr m \<and> i_size (dino m 1) = 1024 \<and> baddr (img m) (dino m 1) 1 = 0"
proof -
  let ?f = "replicate 30 ([97], []) :: host_file list"
  obtain m where m: "mkfs ?f = Inr m"
    using mkfs_small[of ?f] by (auto simp: fits_def blocks_for_def sum_list_replicate)
  have l: "length ?f < 199" "(length ?f + 2) mod 32 = 0" by simp_all
  show ?thesis using mkfs_hole[OF m l sample_mounted] m by simp
qed

end
