(* ===== verification/Sh_Run.thy ===== *)
theory Sh_Run
  imports Sh Sysfile
begin

text \<open>
  How the shell runs a command (\<open>runcmd\<close> and \<open>main\<close> of \<open>sh.c\<close>). The state of a process is its descriptor table, as the
  kernel keeps it; what a descriptor refers to is one of the shell's own files, a file opened by a redirection, or an
  end of a pipe, named by the place in the command tree where it was made. Whether the kernel has a process, a pipe or a
  file to give is an argument. Shown: every program of a command runs with exactly the three descriptors the command
  line gives it, and no process keeps an end of a pipe that is not its standard input or output.
\<close>

section \<open>Descriptor tables\<close>

type_synonym place = "nat list"

datatype 'a handle = Given nat | Opened 'a nat | ReadEnd place | WriteEnd place

type_synonym 'a fds = "'a handle option list"

definition lowest :: "'b option list \<Rightarrow> nat option" where
  "lowest t = List.find (\<lambda>fd. t ! fd = None) [0..<NOFILE]"

lemma fdalloc_lowest:
  "fdalloc me f k = (case lowest (p_ofile (ptable k ! me)) of
     None \<Rightarrow> (None, k) | Some fd \<Rightarrow> (Some fd, upd_proc me (\<lambda>p. p\<lparr>p_ofile := (p_ofile p)[fd := Some f]\<rparr>) k))"
  by (simp add: fdalloc_def lowest_def)

definition fd_close :: "nat \<Rightarrow> 'a fds \<Rightarrow> 'a fds" where
  "fd_close fd t = t[fd := None]"

definition fd_put :: "'a handle \<Rightarrow> 'a fds \<Rightarrow> (nat \<times> 'a fds) option" where
  "fd_put h t = map_option (\<lambda>fd. (fd, t[fd := Some h])) (lowest t)"

definition fd_dup :: "nat \<Rightarrow> 'a fds \<Rightarrow> 'a fds" where
  "fd_dup fd t = (case t ! fd of None \<Rightarrow> t | Some h \<Rightarrow> (case fd_put h t of None \<Rightarrow> t | Some (_, t1) \<Rightarrow> t1))"

definition fd_pipe :: "place \<Rightarrow> 'a fds \<Rightarrow> (nat \<times> nat \<times> 'a fds) option" where
  "fd_pipe at t =
     (case fd_put (ReadEnd at) t of
        None \<Rightarrow> None
      | Some (p0, t1) \<Rightarrow> (case fd_put (WriteEnd at) t1 of None \<Rightarrow> None | Some (p1, t2) \<Rightarrow> Some (p0, p1, t2)))"

section \<open>Running a command\<close>

text \<open>What the kernel grants: a process for the n-th \<open>fork\<close> at a place, a pipe, a file, a program.\<close>

record 'a grants =
  forks :: "place \<Rightarrow> nat \<Rightarrow> bool"
  has_pipe :: "place \<Rightarrow> bool"
  opens :: "place \<Rightarrow> 'a \<Rightarrow> nat \<Rightarrow> bool"
  execs :: "place \<Rightarrow> 'a list \<Rightarrow> bool"

text \<open>What became of a process: the program it runs, the calls of \<open>wait\<close> it is in, or the message it exited with.\<close>

datatype 'a fate = Runs "'a list" | Waits nat | Exits string

fun runcmd :: "'a grants \<Rightarrow> place \<Rightarrow> 'a cmd \<Rightarrow> 'a fds \<Rightarrow> (place \<times> 'a fate \<times> 'a fds) list" where
  "runcmd g at (EXEC argv) t =
     (if argv = [] then [(at, Exits '''', t)]
      else if execs g at argv then [(at, Runs argv, t)]
      else [(at, Exits ''exec failed'', t)])"
| "runcmd g at (REDIR c fl mode fd) t =
     (let t1 = fd_close fd t
      in if \<not> opens g at fl mode then [(at, Exits ''open failed'', t1)]
         else case fd_put (Opened fl mode) t1 of
                None \<Rightarrow> [(at, Exits ''open failed'', t1)]
              | Some (_, t2) \<Rightarrow> runcmd g (0 # at) c t2)"
| "runcmd g at (LIST l r) t =
     (if \<not> forks g at 0 then [(at, Exits ''fork'', t)]
      else runcmd g (0 # at) l t @ runcmd g (1 # at) r t)"
| "runcmd g at (PIPE l r) t =
     (if \<not> has_pipe g at then [(at, Exits ''pipe'', t)]
      else case fd_pipe at t of
        None \<Rightarrow> [(at, Exits ''pipe'', t)]
      | Some (p0, p1, t1) \<Rightarrow>
          if \<not> forks g at 0 then [(at, Exits ''fork'', t1)]
          else runcmd g (0 # at) l (fd_close p1 (fd_close p0 (fd_dup p1 (fd_close 1 t1)))) @
            (if \<not> forks g at 1 then [(at, Exits ''fork'', t1)]
             else runcmd g (1 # at) r (fd_close p1 (fd_close p0 (fd_dup p0 (fd_close 0 t1)))) @
               [(at, Waits 2, fd_close p1 (fd_close p0 t1))]))"
| "runcmd g at (BACK c) t =
     (if \<not> forks g at 0 then [(at, Exits ''fork'', t)]
      else runcmd g (0 # at) c t @ [(at, Exits '''', t)])"

section \<open>The main loop\<close>

text \<open>The loop of \<open>main\<close> that opens the console until three descriptors are open; the argument says which calls succeed.\<close>

fun ensure_three :: "bool list \<Rightarrow> 'a handle \<Rightarrow> 'a fds \<Rightarrow> 'a fds" where
  "ensure_three [] h t = t"
| "ensure_three (ok # oks) h t =
     (if \<not> ok then t
      else case fd_put h t of
             None \<Rightarrow> t
           | Some (fd, t1) \<Rightarrow> if 3 \<le> fd then fd_close fd t1 else ensure_three oks h t1)"

text \<open>\<open>getcmd\<close> with a buffer of \<open>n\<close> bytes: the C string in it after the call, and the input that is left.\<close>

definition getcmd :: "nat \<Rightarrow> byte list \<Rightarrow> byte list \<times> byte list" where
  "getcmd n inp = (case gets_ref (n - 1) inp of (l, rest) \<Rightarrow> (takeWhile (\<lambda>b. b \<noteq> 0) l, rest))"

lemma getcmd_shorter: "getcmd n inp = (l, rest) \<Longrightarrow> l \<noteq> [] \<Longrightarrow> length rest < length inp"
  using gets_ref_split[of "n - 1" inp] by (cases "gets_ref (n - 1) inp") (auto simp: getcmd_def)

datatype shell_act = Chdir "byte list" | RunLine "byte list" | ForkFails

text \<open>\<open>fk n\<close> says whether the n-th \<open>fork\<close> of the shell succeeds; \<open>fork1\<close> ends the shell when it does not. Prompts are left out.\<close>

function sh_main :: "(nat \<Rightarrow> bool) \<Rightarrow> nat \<Rightarrow> byte list \<Rightarrow> shell_act list" where
  "sh_main fk n inp =
     (case getcmd 100 inp of (buf, rest) \<Rightarrow>
        if buf = [] then []
        else if take 3 buf = [99, 100, 32] then Chdir (drop 3 (butlast buf)) # sh_main fk n rest
        else if \<not> fk n then [ForkFails]
        else RunLine buf # sh_main fk (n + 1) rest)"
  by pat_completeness auto
termination by (relation "measure (\<lambda>(fk, n, inp). length inp)") (use getcmd_shorter in \<open>auto dest: sym\<close>)

declare sh_main.simps [simp del]

section \<open>What a command line asks for\<close>

text \<open>The table of a process with standard input, output and error and nothing else.\<close>

definition std :: "'a handle \<Rightarrow> 'a handle \<Rightarrow> 'a handle \<Rightarrow> 'a fds" where
  "std i out e = [Some i, Some out, Some e] @ replicate 13 None"

fun plumb :: "place \<Rightarrow> 'a cmd \<Rightarrow> 'a handle \<Rightarrow> 'a handle \<Rightarrow> 'a handle \<Rightarrow> (place \<times> 'a fate \<times> 'a fds) list" where
  "plumb at (EXEC argv) i out e = [(at, if argv = [] then Exits '''' else Runs argv, std i out e)]"
| "plumb at (REDIR c fl mode fd) i out e =
     (if fd = 0 then plumb (0 # at) c (Opened fl mode) out e else plumb (0 # at) c i (Opened fl mode) e)"
| "plumb at (LIST l r) i out e = plumb (0 # at) l i out e @ plumb (1 # at) r i out e"
| "plumb at (PIPE l r) i out e =
     plumb (0 # at) l i (WriteEnd at) e @ plumb (1 # at) r (ReadEnd at) out e @ [(at, Waits 2, std i out e)]"
| "plumb at (BACK c) i out e = plumb (0 # at) c i out e @ [(at, Exits '''', std i out e)]"

fun redirs_ok :: "'a cmd \<Rightarrow> bool" where
  "redirs_ok (EXEC argv) = True"
| "redirs_ok (REDIR c fl mode fd) = (fd \<le> 1 \<and> redirs_ok c)"
| "redirs_ok (PIPE l r) = (redirs_ok l \<and> redirs_ok r)"
| "redirs_ok (LIST l r) = (redirs_ok l \<and> redirs_ok r)"
| "redirs_ok (BACK c) = redirs_ok c"

definition granting :: "'a grants \<Rightarrow> bool" where
  "granting g \<longleftrightarrow> (\<forall>at n. forks g at n) \<and> (\<forall>at. has_pipe g at) \<and> (\<forall>at f m. opens g at f m) \<and> (\<forall>at v. execs g at v)"

lemma upt_16: "[0..<16] = [0, 1, 2, 3, 4, 5, 6, 7, 8, 9, 10, 11, 12, 13, 14, 15 :: nat]"
  by (simp add: upt_rec)

lemma std_list: "std i out e = [Some i, Some out, Some e, None, None, None, None, None, None, None, None, None, None, None, None, None]"
  by (simp add: std_def numeral_eq_Suc)

lemma std_redir:
  "fd_put h (fd_close 0 (std i out e)) = Some (0, std h out e)"
  "fd_put h (fd_close 1 (std i out e)) = Some (1, std i h e)"
  by (simp_all add: std_list fd_put_def fd_close_def lowest_def upt_16)

lemma std_pipe:
  obtains t1 where "fd_pipe at (std i out e) = Some (3, 4, t1)"
    "fd_close 4 (fd_close 3 (fd_dup 4 (fd_close 1 t1))) = std i (WriteEnd at) e"
    "fd_close 4 (fd_close 3 (fd_dup 3 (fd_close 0 t1))) = std (ReadEnd at) out e"
    "fd_close 4 (fd_close 3 t1) = std i out e"
proof -
  let ?t = "[Some i, Some out, Some e, Some (ReadEnd at), Some (WriteEnd at), None, None, None, None, None, None, None, None, None, None, None]"
  have "fd_pipe at (std i out e) = Some (3, 4, ?t)" by (simp add: std_list fd_pipe_def fd_put_def lowest_def upt_16)
  moreover have "fd_close 4 (fd_close 3 (fd_dup 4 (fd_close 1 ?t))) = std i (WriteEnd at) e"
    "fd_close 4 (fd_close 3 (fd_dup 3 (fd_close 0 ?t))) = std (ReadEnd at) out e" "fd_close 4 (fd_close 3 ?t) = std i out e"
    by (simp_all add: std_list fd_close_def fd_dup_def fd_put_def lowest_def upt_16)
  ultimately show ?thesis using that by blast
qed

lemma runcmd_plumb:
  assumes "granting g" "redirs_ok c"
  shows "runcmd g at c (std i out e) = plumb at c i out e"
  using assms(2)
proof (induction c arbitrary: at i out e)
  case (REDIR c fl mode fd)
  then have "fd = 0 \<or> fd = 1" by auto
  then show ?case using REDIR assms(1) by (auto simp: std_redir std_redir[unfolded One_nat_def] granting_def Let_def)
next
  case (PIPE l r)
  obtain t1 where t: "fd_pipe at (std i out e) = Some (3, 4, t1)"
    "fd_close 4 (fd_close 3 (fd_dup 4 (fd_close 1 t1))) = std i (WriteEnd at) e"
    "fd_close 4 (fd_close 3 (fd_dup 3 (fd_close 0 t1))) = std (ReadEnd at) out e"
    "fd_close 4 (fd_close 3 t1) = std i out e" by (rule std_pipe)
  show ?case using PIPE assms(1) by (simp add: t t(2)[unfolded One_nat_def] granting_def)
qed (use assms(1) in \<open>simp_all add: granting_def\<close>)

section \<open>No stray pipe ends\<close>

text \<open>The descriptors process \<open>q\<close> may have when the command started with \<open>i\<close>, \<open>out\<close>, \<open>e\<close>: its own, files, ends of the pipes it is a side of.\<close>

definition fitting :: "place \<Rightarrow> 'a handle \<Rightarrow> 'a handle \<Rightarrow> 'a handle \<Rightarrow> 'a fds \<Rightarrow> bool" where
  "fitting q i out e t \<longleftrightarrow> (\<exists>i' out'. t = std i' out' e \<and>
     (i' = i \<or> (\<exists>f m. i' = Opened f m) \<or> (\<exists>p xs. i' = ReadEnd p \<and> q = xs @ 1 # p)) \<and>
     (out' = out \<or> (\<exists>f m. out' = Opened f m) \<or> (\<exists>p xs. out' = WriteEnd p \<and> q = xs @ 0 # p)))"

lemma fitting_own: "fitting q i out e (std i out e)"
  unfolding fitting_def by blast

lemma fitting_open: "fitting q (Opened f m) out e t \<Longrightarrow> fitting q i out e t" "fitting q i (Opened f m) e t \<Longrightarrow> fitting q i out e t"
  unfolding fitting_def by metis+

lemma fitting_end:
  "fitting (xs @ 1 # p) (ReadEnd p) out e t \<Longrightarrow> fitting (xs @ 1 # p) i out e t"
  "fitting (xs @ 0 # p) i (WriteEnd p) e t \<Longrightarrow> fitting (xs @ 0 # p) i out e t"
  unfolding fitting_def by metis+

lemma runcmd_fitting:
  "redirs_ok c \<Longrightarrow> (q, f, t) \<in> set (runcmd g at c (std i out e)) \<Longrightarrow>
     \<exists>xs. q = xs @ at \<and> ((\<exists>m. f = Exits m) \<or> fitting q i out e t)"
proof (induction c arbitrary: at i out e)
  case (EXEC argv)
  then show ?case using fitting_own by (fastforce split: if_splits)
next
  case (REDIR c fl mode fd)
  show ?case
  proof (cases "opens g at fl mode")
    case True
    have "fd = 0 \<or> fd = 1" using REDIR.prems(1) by auto
    then show ?thesis
    proof
      assume "fd = 0"
      then have "(q, f, t) \<in> set (runcmd g (0 # at) c (std (Opened fl mode) out e))" using REDIR.prems(2) True by (simp add: std_redir std_redir[unfolded One_nat_def] Let_def)
      from REDIR.IH[OF _ this] REDIR.prems(1) obtain xs where "q = xs @ 0 # at" "(\<exists>m. f = Exits m) \<or> fitting q (Opened fl mode) out e t" by auto
      then show ?thesis by (intro exI[of _ "xs @ [0]"]) (auto dest: fitting_open(1))
    next
      assume "fd = 1"
      then have "(q, f, t) \<in> set (runcmd g (0 # at) c (std i (Opened fl mode) e))" using REDIR.prems(2) True by (simp add: std_redir std_redir[unfolded One_nat_def] Let_def)
      from REDIR.IH[OF _ this] REDIR.prems(1) obtain xs where "q = xs @ 0 # at" "(\<exists>m. f = Exits m) \<or> fitting q i (Opened fl mode) e t" by auto
      then show ?thesis by (intro exI[of _ "xs @ [0]"]) (auto dest: fitting_open(2))
    qed
  qed (use REDIR.prems(2) in simp)
next
  case (PIPE l r)
  obtain t1 where t1: "fd_pipe at (std i out e) = Some (3, 4, t1)"
    "fd_close 4 (fd_close 3 (fd_dup 4 (fd_close 1 t1))) = std i (WriteEnd at) e"
    "fd_close 4 (fd_close 3 (fd_dup 3 (fd_close 0 t1))) = std (ReadEnd at) out e"
    "fd_close 4 (fd_close 3 t1) = std i out e" by (rule std_pipe)
  consider (here) "q = at" "(\<exists>m. f = Exits m) \<or> t = std i out e"
    | (left) "(q, f, t) \<in> set (runcmd g (0 # at) l (std i (WriteEnd at) e))"
    | (right) "(q, f, t) \<in> set (runcmd g (1 # at) r (std (ReadEnd at) out e))"
    using PIPE.prems(2) by (auto simp: t1 t1(2)[unfolded One_nat_def] split: if_splits)
  then show ?case
  proof cases
    case here
    then show ?thesis using fitting_own[of q i out e] by auto
  next
    case left
    from PIPE.IH(1)[OF _ this] PIPE.prems(1) obtain xs where "q = xs @ 0 # at" "(\<exists>m. f = Exits m) \<or> fitting q i (WriteEnd at) e t" by auto
    then show ?thesis by (intro exI[of _ "xs @ [0]"]) (auto dest: fitting_end(2))
  next
    case right
    from PIPE.IH(2)[OF _ this] PIPE.prems(1) obtain xs where "q = xs @ 1 # at" "(\<exists>m. f = Exits m) \<or> fitting q (ReadEnd at) out e t" by auto
    then show ?thesis by (intro exI[of _ "xs @ [1]"]) (auto dest: fitting_end(1) fitting_end(1)[unfolded One_nat_def])
  qed
next
  case (LIST l r)
  consider (here) "q = at" "\<exists>m. f = Exits m" | (left) "(q, f, t) \<in> set (runcmd g (0 # at) l (std i out e))"
    | (right) "(q, f, t) \<in> set (runcmd g (1 # at) r (std i out e))"
    using LIST.prems(2) by (auto split: if_splits)
  then show ?case
  proof cases
    case left
    from LIST.IH(1)[OF _ this] LIST.prems(1) show ?thesis by force
  next
    case right
    from LIST.IH(2)[OF _ this] LIST.prems(1) show ?thesis by force
  qed auto
next
  case (BACK c)
  consider (here) "q = at" "\<exists>m. f = Exits m" | (sub) "(q, f, t) \<in> set (runcmd g (0 # at) c (std i out e))"
    using BACK.prems(2) by (auto split: if_splits)
  then show ?case
  proof cases
    case sub
    from BACK.IH[OF _ this] BACK.prems(1) show ?thesis by force
  qed auto
qed

section \<open>The commands of the parser\<close>

text \<open>The parser makes redirections of standard input and output only.\<close>

lemma wrap_redirs_ok: "\<forall>r \<in> set rs. snd (snd r) \<le> 1 \<Longrightarrow> redirs_ok c \<Longrightarrow> redirs_ok (wrap rs c)"
  unfolding wrap_def by (induction rs arbitrary: c) auto

lemma redirs_fd: "redirs ps = Inr (rs, ps') \<Longrightarrow> \<forall>r \<in> set rs. snd (snd r) \<le> 1"
proof (induction ps arbitrary: rs ps' rule: redirs.induct)
  case (1 ps)
  obtain b ps1 where p: "peek ps [60, 62] = (b, ps1)" by (cases "peek ps [60, 62]")
  obtain tok t ps2 where g: "gettoken ps1 = (tok, t, ps2)" by (cases "gettoken ps1")
  obtain kind fl ps3 where g2: "gettoken ps2 = (kind, fl, ps3)" by (cases "gettoken ps2")
  show ?case
  proof (cases "b \<and> kind = 97")
    case True
    then obtain rs1 where r: "redirs ps3 = Inr (rs1, ps')"
      "rs = (if tok = 60 then (fl, O_RDONLY, 0) else (fl, O_WRONLY OR O_CREATE, 1)) # rs1"
      using "1.prems" p g g2 by (auto simp: redirs.simps[of ps] split: sum.splits)
    have "\<not> \<not> b" "\<not> kind \<noteq> 97" using True by simp_all
    from "1.IH"[OF p[symmetric] refl this(1) g[symmetric] refl refl g2[symmetric] refl refl this(2) r(1)] show ?thesis using r(2) by simp
  next
    case False
    then have "b = False" "rs = []" using "1.prems" p g g2 by (auto simp: redirs.simps[of ps] split: if_splits)
    then show ?thesis by simp
  qed
qed

lemma exec_loop_redirs: "exec_loop argv rs ps = Inr (c, ps') \<Longrightarrow> \<forall>r \<in> set rs. snd (snd r) \<le> 1 \<Longrightarrow> redirs_ok c"
proof (induction argv rs ps arbitrary: c ps' rule: exec_loop.induct)
  case (1 argv rs ps)
  obtain b ps1 where p: "peek ps [124, 41, 38, 59] = (b, ps1)" by (cases "peek ps [124, 41, 38, 59]")
  obtain tok t ps2 where g: "gettoken ps1 = (tok, t, ps2)" by (cases "gettoken ps1")
  show ?case
  proof (cases "b \<or> tok = 0")
    case True
    then have "c = wrap rs (EXEC argv)" using 1(2) p g by (auto simp: exec_loop.simps[of argv rs ps] split: if_splits)
    then show ?thesis using wrap_redirs_ok[OF 1(3)] by simp
  next
    case False
    from False 1(2) p g obtain rs1 ps3 where r: "tok = 97" "\<not> MAXARGS \<le> length argv + 1" "redirs ps2 = Inr (rs1, ps3)"
      "exec_loop (argv @ [t]) (rs @ rs1) ps3 = Inr (c, ps')"
      by (auto simp: exec_loop.simps[of argv rs ps] split: if_splits sum.splits)
    have "\<forall>r \<in> set (rs @ rs1). snd (snd r) \<le> 1" using 1(3) redirs_fd[OF r(3)] by auto
    then show ?thesis using "1.IH"[OF p[symmetric] refl _ g[symmetric] refl refl _ _ _ r(3) refl r(4)] False r by auto
  qed
qed

lemma back_loop_redirs: "back_loop c ps = (c', ps') \<Longrightarrow> redirs_ok c' = redirs_ok c"
proof (induction c ps arbitrary: c' ps' rule: back_loop.induct)
  case (1 c ps)
  obtain b ps1 where p: "peek ps [38] = (b, ps1)" by (cases "peek ps [38]")
  obtain tok t ps2 where g: "gettoken ps1 = (tok, t, ps2)" by (cases "gettoken ps1")
  show ?case
  proof (cases b)
    case True
    then have "back_loop (BACK c) ps2 = (c', ps')" using 1(2) p g by (auto simp: back_loop.simps[of c ps])
    then show ?thesis using "1.IH"[OF p[symmetric] refl True g[symmetric] refl refl] by auto
  qed (use 1(2) p in \<open>auto simp: back_loop.simps[of c ps]\<close>)
qed

definition gives_ok :: "(token cmd \<times> byte list) kernel option \<Rightarrow> bool" where
  "gives_ok r \<longleftrightarrow> (\<forall>c ps'. r = Some (Inr (c, ps')) \<longrightarrow> redirs_ok c)"

lemma gives_ok_simps [simp]: "gives_ok None" "gives_ok (Some (Inl e))" "gives_ok (Some (Inr (c, ps))) = redirs_ok c"
  by (simp_all add: gives_ok_def)

lemma gives_ok_obind:
  "gives_ok m \<Longrightarrow> (\<And>c ps. m = Some (Inr (c, ps)) \<Longrightarrow> redirs_ok c \<Longrightarrow> gives_ok (f (c, ps))) \<Longrightarrow> gives_ok (obind m f)"
  by (auto simp: obind_def gives_ok_def split: option.splits sum.splits)

lemma parser_redirs: "(\<forall>ps. gives_ok (parseline n ps)) \<and> (\<forall>ps. gives_ok (parsepipe n ps)) \<and> (\<forall>ps. gives_ok (parseexec n ps)) \<and> (\<forall>ps. gives_ok (parseblock n ps))"
proof (induction n)
  case (Suc n)
  then have IH: "gives_ok (parseline n ps)" "gives_ok (parsepipe n ps)" "gives_ok (parseexec n ps)" "gives_ok (parseblock n ps)" for ps by blast+
  have l: "gives_ok (parseline (Suc n) ps)" for ps unfolding parseline.simps
    using back_loop_redirs IH(1) by (auto split: prod.splits intro!: gives_ok_obind[OF IH(2)] gives_ok_obind[OF IH(1)])
  have p: "gives_ok (parsepipe (Suc n) ps)" for ps unfolding parsepipe.simps
    by (auto split: prod.splits intro!: gives_ok_obind[OF IH(3)] gives_ok_obind[OF IH(2)])
  have "gives_ok (Some (kbind (redirs ps1) (\<lambda>(rs, ps2). exec_loop [] rs ps2)))" for ps1
    by (auto simp: gives_ok_def kbind_Inr dest: redirs_fd exec_loop_redirs)
  then have e: "gives_ok (parseexec (Suc n) ps)" for ps using IH(4) by (auto split: prod.splits)
  have "gives_ok (Some (parseredirs c ps5))" if "redirs_ok c" for c ps5
    using that by (auto simp: gives_ok_def parseredirs_def kbind_Inr dest!: redirs_fd intro: wrap_redirs_ok)
  then have "gives_ok (parseblock (Suc n) ps)" for ps by (auto split: prod.splits intro!: gives_ok_obind[OF IH(1)])
  then show ?case using l p e by blast
qed simp

lemma parsecmd_redirs_ok: "parsecmd line = Some (Inr c) \<Longrightarrow> redirs_ok c"
proof -
  have "gives_ok (parseline (4 * length line + 4) line)" using parser_redirs by blast
  then show "parsecmd line = Some (Inr c) \<Longrightarrow> redirs_ok c"
    by (auto simp: parsecmd_def obind_def peek_def gives_ok_def Let_def split: option.splits sum.splits if_splits)
qed

lemma redirs_ok_map [simp]: "redirs_ok (map_cmd f c) = redirs_ok c"
  by (induction c) auto

section \<open>Command lines\<close>

text \<open>
  C20: Run by a shell whose three standard descriptors are open and no others, and with a kernel that grants what is asked for, every
  program of a command line the parser accepts starts with exactly the descriptors the line gives it: files for redirections, the two
  ends of a pipe between its sides, and nothing else open; the processes that wait for a pipeline hold no end of it.
\<close>

theorem runcmd_plumbs:
  assumes "parsecmd line = Some (Inr c)" "granting g"
  shows "runcmd g [] (map_cmd token_text c) (std i out e) = plumb [] (map_cmd token_text c) i out e"
  by (rule runcmd_plumb) (use assms parsecmd_redirs_ok in simp_all)

lemma pipe_line: "\<exists>c. parsecmd [97, 124, 98, 62, 99] = Some (Inr c) \<and> map_cmd token_text c = PIPE (EXEC [[97]]) (REDIR (EXEC [[98]]) [99] 0x201 1)"
proof -
  let ?c = "PIPE (EXEC [[97]]) (REDIR (EXEC [[98]]) [99] 0x201 1)"
  have m: "map_option (map_sum id (map_cmd token_text)) (parsecmd [97, 124, 98, 62, 99]) = Some (Inr ?c)" by code_simp
  obtain r where r: "parsecmd [97, 124, 98, 62, 99] = Some r" "map_sum id (map_cmd token_text) r = Inr ?c" using m by auto
  show ?thesis using r by (cases r) auto
qed

theorem runcmd_plumbs_witness:
  "\<exists>c. parsecmd [97, 124, 98, 62, 99] = Some (Inr c) \<and>
     runcmd \<lparr>forks = \<lambda>_ _. True, has_pipe = \<lambda>_. True, opens = \<lambda>_ _ _. True, execs = \<lambda>_ _. True\<rparr> []
       (map_cmd token_text c) (std (Given 0) (Given 1) (Given 2)) =
     [([0], Runs [[97]], std (Given 0) (WriteEnd []) (Given 2)),
      ([0, 1], Runs [[98]], std (ReadEnd []) (Opened [99] 0x201) (Given 2)),
      ([], Waits 2, std (Given 0) (Given 1) (Given 2))]"
proof -
  obtain c where c: "parsecmd [97, 124, 98, 62, 99] = Some (Inr c)" "map_cmd token_text c = PIPE (EXEC [[97]]) (REDIR (EXEC [[98]]) [99] 0x201 1)"
    using pipe_line by blast
  show ?thesis using runcmd_plumbs[OF c(1)] c by (intro exI[of _ c]) (simp add: granting_def)
qed

text \<open>
  C25: Whatever fails on the way, a process of a command that runs a program or waits has three descriptors and no more, and an end
  of a pipe only where it belongs: the read end as standard input of a process right of the pipe, the write end as
  standard output of one left of it. So a reader sees the end of its input when the programs left of the pipe have ended.
\<close>

theorem runcmd_no_stray_ends:
  assumes "parsecmd line = Some (Inr c)" "(q, f, t) \<in> set (runcmd g at (map_cmd token_text c) (std (Given 0) (Given 1) (Given 2)))" "\<not> (\<exists>m. f = Exits m)"
  shows "\<exists>i out. t = std i out (Given 2) \<and> (\<forall>p. i \<noteq> WriteEnd p \<and> out \<noteq> ReadEnd p) \<and>
    (\<forall>p. i = ReadEnd p \<longrightarrow> (\<exists>xs. q = xs @ 1 # p)) \<and> (\<forall>p. out = WriteEnd p \<longrightarrow> (\<exists>xs. q = xs @ 0 # p))"
proof -
  have "fitting q (Given 0) (Given 1) (Given 2) t" using runcmd_fitting[OF _ assms(2)] parsecmd_redirs_ok[OF assms(1)] assms(3) by auto
  then obtain i out where f: "t = std i out (Given 2)" "i = Given 0 \<or> (\<exists>f m. i = Opened f m) \<or> (\<exists>p xs. i = ReadEnd p \<and> q = xs @ 1 # p)"
    "out = Given 1 \<or> (\<exists>f m. out = Opened f m) \<or> (\<exists>p xs. out = WriteEnd p \<and> q = xs @ 0 # p)" unfolding fitting_def by blast
  show ?thesis by (intro exI[of _ i] exI[of _ out] conjI allI impI) (use f in auto)
qed

theorem runcmd_no_stray_ends_witness:
  "\<exists>i out. std (Given 0) (WriteEnd []) (Given 2) = std i out (Given 2 :: byte list handle) \<and> (\<forall>p. i \<noteq> WriteEnd p \<and> out \<noteq> ReadEnd p) \<and>
    (\<forall>p. i = ReadEnd p \<longrightarrow> (\<exists>xs. [0 :: nat] = xs @ 1 # p)) \<and> (\<forall>p. out = WriteEnd p \<longrightarrow> (\<exists>xs. [0 :: nat] = xs @ 0 # p))"
proof -
  let ?g = "\<lparr>forks = \<lambda>_ _. True, has_pipe = \<lambda>_. True, opens = \<lambda>_ _ _. True, execs = \<lambda>_ _. True\<rparr> :: byte list grants"
  obtain c where c: "parsecmd [97, 124, 98, 62, 99] = Some (Inr c)" "map_cmd token_text c = PIPE (EXEC [[97]]) (REDIR (EXEC [[98]]) [99] 0x201 1)"
    using pipe_line by blast
  have "([0], Runs [[97]], std (Given 0) (WriteEnd []) (Given 2)) \<in> set (runcmd ?g [] (map_cmd token_text c) (std (Given 0) (Given 1) (Given 2)))"
    unfolding c(2) by (subst runcmd_plumb) (simp_all add: granting_def)
  from runcmd_no_stray_ends[OF c(1) this] show ?thesis by simp
qed

section \<open>The shell's own loop\<close>

lemma lowest_prefix: "lowest (map Some hs @ replicate (Suc n) None) = (if length hs < 16 then Some (length hs) else None)"
proof -
  have nth: "(map Some hs @ replicate (Suc n) None) ! k = None \<longleftrightarrow> k \<ge> length hs" if "k \<le> length hs" for k
    using that by (auto simp: nth_append)
  show ?thesis
  proof (cases "length hs < 16")
    case True
    have "List.find (\<lambda>fd. (map Some hs @ replicate (Suc n) None) ! fd = None) [0..<16] = Some (length hs)"
      unfolding find_Some_iff by (intro exI[of _ "length hs"]) (use nth True in \<open>auto simp del: replicate.simps\<close>)
    then show ?thesis using True by (simp add: lowest_def)
  next
    case False
    then show ?thesis by (auto simp: lowest_def find_None_iff nth_append simp del: replicate.simps)
  qed
qed

text \<open>The table after the loop of \<open>main\<close>, whatever was open before: at least three descriptors, or every \<open>open\<close> failed that was needed.\<close>

lemma ensure_three_opens:
  "length hs \<le> 3 \<Longrightarrow> 4 \<le> length hs + length oks \<Longrightarrow> list_all id oks \<Longrightarrow>
     ensure_three oks h (map Some hs @ replicate (16 - length hs) None) = map Some (hs @ replicate (3 - length hs) h) @ replicate 13 None"
proof (induction oks arbitrary: hs)
  case (Cons ok oks)
  have r: "replicate (16 - length hs) None = replicate (Suc (15 - length hs)) None" using Cons.prems(1) by (simp only: Suc_diff_le[symmetric])  simp
  have l: "lowest (map Some hs @ replicate (16 - length hs) None) = Some (length hs)" unfolding r lowest_prefix using Cons.prems(1) by simp
  have p: "fd_put h (map Some hs @ replicate (16 - length hs) None) = Some (length hs, map Some (hs @ [h]) @ replicate (16 - length (hs @ [h])) None)"
    unfolding fd_put_def l using Cons.prems(1) by (simp add: list_update_append r)
  show ?case
  proof (cases "length hs = 3")
    case True
    then show ?thesis using Cons.prems(3) p by (simp add: fd_close_def list_update_append nth_append numeral_eq_Suc)
  next
    case False
    then have s3: "3 - length hs = Suc (2 - length hs)" using Cons.prems(1) by simp
    have "length (hs @ [h]) \<le> 3" "4 \<le> length (hs @ [h]) + length oks" using False Cons.prems(1,2) by simp_all
    from Cons.IH[OF this] have "ensure_three oks h (map Some (hs @ [h]) @ replicate (16 - length (hs @ [h])) None) =
      map Some ((hs @ [h]) @ replicate (3 - length (hs @ [h])) h) @ replicate 13 None" using Cons.prems(3) by simp
    moreover have "(hs @ [h]) @ replicate (3 - length (hs @ [h])) h = hs @ replicate (3 - length hs) h"
      using s3 by simp
    ultimately show ?thesis using False s3 Cons.prems(1,3) p by simp
  qed
qed simp

lemma sh_main_lines: "sh_main (\<lambda>_. True) 0 [108, 115, 10, 99, 100, 32, 100, 10] = [RunLine [108, 115, 10], Chdir [100]]"
  by code_simp

end
