(* ===== verification/Mp.thy ===== *)
theory Mp
  imports Cstring Kalloc
begin

text \<open>
  The search for the tables of a multiprocessor machine (\<open>mp.c\<close>). Memory is a map from kernel virtual addresses to
  bytes, filled by the firmware. Shown: the search takes the first sound structure of the three places it looks in; a
  table of known entries gives the processors in its order; and an entry of an unknown type makes \<open>mpinit\<close> run for ever.
\<close>

section \<open>The code\<close>

abbreviation (input) NCPU :: nat where "NCPU \<equiv> 8"

text \<open>The sum is an \<open>int\<close> that is returned as an \<open>uchar\<close>.\<close>

fun mp_sum :: "memory \<Rightarrow> int \<Rightarrow> nat \<Rightarrow> byte" where
  "mp_sum m addr 0 = 0"
| "mp_sum m addr (Suc len) = mp_sum m addr len + m (addr + int len)"

text \<open>\<open>memcmp\<close> with a literal.\<close>

definition has_sig :: "memory \<Rightarrow> int \<Rightarrow> byte list \<Rightarrow> bool" where
  "has_sig m p s \<longleftrightarrow> map (\<lambda>i. m (p + int i)) [0..<length s] = s"

definition le16 :: "memory \<Rightarrow> int \<Rightarrow> nat" where
  "le16 m p = unat (m p) + 2 ^ 8 * unat (m (p + 1))"

definition le32 :: "memory \<Rightarrow> int \<Rightarrow> nat" where
  "le32 m p = le16 m p + 2 ^ 16 * le16 m (p + 2)"

definition mp_sig :: "byte list" where "mp_sig = [95, 77, 80, 95]"
definition pcmp_sig :: "byte list" where "pcmp_sig = [80, 67, 77, 80]"

function mpsearch_loop :: "memory \<Rightarrow> int \<Rightarrow> int \<Rightarrow> int option" where
  "mpsearch_loop m p e =
     (if p < e then if has_sig m p mp_sig \<and> mp_sum m p 16 = 0 then Some p else mpsearch_loop m (p + 16) e else None)"
  by pat_completeness auto
termination by (relation "measure (\<lambda>(m, p, e). nat (e - p))") auto

declare mpsearch_loop.simps [simp del]

definition mpsearch1 :: "memory \<Rightarrow> u32 \<Rightarrow> nat \<Rightarrow> int option" where
  "mpsearch1 m a len = (let addr = uint (P2V a) in mpsearch_loop m addr (addr + int len))"

text \<open>The segment of the extended data area, or else the size of base memory in KB, from the BIOS data area.\<close>

definition mpsearch :: "memory \<Rightarrow> int option" where
  "mpsearch m =
     (let bda = uint (P2V 0x400);
          p = (of_nat (le16 m (bda + 0xE)) * 16 :: u32)
      in case (if p \<noteq> 0 then mpsearch1 m p 1024
               else mpsearch1 m (of_nat (le16 m (bda + 0x13)) * 1024 - 1024) 1024) of
           Some mp \<Rightarrow> Some mp
         | None \<Rightarrow> mpsearch1 m 0xF0000 0x10000)"

definition mpconfig :: "memory \<Rightarrow> (int \<times> int) option" where
  "mpconfig m =
     (case mpsearch m of
        None \<Rightarrow> None
      | Some mp \<Rightarrow>
          if le32 m (mp + 4) = 0 then None
          else
            let conf = uint (P2V (of_nat (le32 m (mp + 4))))
            in if \<not> has_sig m conf pcmp_sig then None
               else if m (conf + 6) \<noteq> 1 \<and> m (conf + 6) \<noteq> 4 then None
               else if mp_sum m conf (le16 m (conf + 4)) \<noteq> 0 then None
               else Some (mp, conf))"

record mpst =
  cpus :: "nat \<Rightarrow> byte"
  ismp :: bool
  ncpu :: nat
  ioapicid :: byte
  lapic :: nat

text \<open>
  The loop over the entries; the \<open>break\<close> of the default case leaves the \<open>switch\<close> only. \<open>None\<close>: it does not end.
\<close>

partial_function (option) mp_entries :: "memory \<Rightarrow> int \<Rightarrow> int \<Rightarrow> mpst \<Rightarrow> mpst option" where
  "mp_entries m p e s =
     (if \<not> p < e then Some s
      else if m p = 0 then
        mp_entries m (p + 20) e (if ncpu s < NCPU then s\<lparr>cpus := (cpus s)(ncpu s := m (p + 1)), ncpu := ncpu s + 1\<rparr> else s)
      else if m p = 2 then mp_entries m (p + 8) e (s\<lparr>ioapicid := m (p + 1)\<rparr>)
      else if m p = 1 \<or> m p = 3 \<or> m p = 4 then mp_entries m (p + 8) e s
      else mp_entries m p e (s\<lparr>ismp := False\<rparr>))"

text \<open>Also the value written to the interrupt mode register, if it is; \<open>r\<close> is what it held.\<close>

definition mpinit :: "memory \<Rightarrow> byte \<Rightarrow> mpst \<Rightarrow> (mpst \<times> byte option) option" where
  "mpinit m r s =
     (case mpconfig m of
        None \<Rightarrow> Some (s, None)
      | Some (mp, conf) \<Rightarrow>
          Option.bind (mp_entries m (conf + 44) (conf + int (le16 m (conf + 4))) (s\<lparr>ismp := True, lapic := le32 m (conf + 36)\<rparr>)) (\<lambda>s1.
            if \<not> ismp s1 then Some (s1\<lparr>ncpu := 1, lapic := 0, ioapicid := 0\<rparr>, None)
            else Some (s1, if m (mp + 12) \<noteq> 0 then Some (r OR 1) else None)))"

section \<open>The search\<close>

definition sound_mp :: "memory \<Rightarrow> int \<Rightarrow> bool" where
  "sound_mp m p \<longleftrightarrow> has_sig m p mp_sig \<and> mp_sum m p 16 = 0"

text \<open>The addresses the search looks at, in their order: the paragraphs of the two areas.\<close>

definition slots :: "u32 \<Rightarrow> nat \<Rightarrow> int list" where
  "slots a len = map (\<lambda>k. uint (P2V a) + 16 * int k) [0..<(len + 15) div 16]"

definition candidates :: "memory \<Rightarrow> int list" where
  "candidates m =
     (let bda = uint (P2V 0x400); ebda = (of_nat (le16 m (bda + 0xE)) * 16 :: u32); base = (of_nat (le16 m (bda + 0x13)) * 1024 :: u32)
      in (if ebda \<noteq> 0 then slots ebda 1024 else slots (base - 1024) 1024) @ slots 0xF0000 0x10000)"

lemma mpsearch_loop_find:
  "mpsearch_loop m p (p + int len) = List.find (sound_mp m) (map (\<lambda>k. p + 16 * int k) [0..<(len + 15) div 16])"
proof (induction "(len + 15) div 16" arbitrary: p len)
  case 0
  then have "len = 0" by simp
  then show ?case by (simp add: mpsearch_loop.simps)
next
  case (Suc n)
  have n: "n = (len - 16 + 15) div 16"
  proof (cases "16 \<le> len")
    case True
    then have "len + 15 = (len - 16 + 15) + 16" by simp
    then have "(len + 15) div 16 = (len - 16 + 15) div 16 + 1" by (simp only: div_add_self2)
    then show ?thesis using Suc.hyps(2) by simp
  next
    case False
    then have "(len + 15) div 16 < 2" by (simp add: less_mult_imp_div_less)
    then show ?thesis using Suc.hyps(2) False by simp
  qed
  have len: "0 < len" using Suc.hyps(2) by (cases "len = 0") simp_all
  have u: "[0..<(len + 15) div 16] = 0 # map Suc [0..<n]" unfolding Suc.hyps(2)[symmetric] map_Suc_upt by (rule upt_conv_Cons) simp
  have m: "map (\<lambda>k. p + 16 * int k) [0..<(len + 15) div 16] = p # map (\<lambda>k. p + 16 + 16 * int k) [0..<n]"
    unfolding u by (simp add: comp_def algebra_simps)
  have e: "mpsearch_loop m (p + 16) (p + int len) = mpsearch_loop m (p + 16) (p + 16 + int (len - 16))"
  proof (cases "16 \<le> len")
    case False
    then show ?thesis by (simp add: mpsearch_loop.simps)
  qed simp
  have "mpsearch_loop m p (p + int len) = (if sound_mp m p then Some p else mpsearch_loop m (p + 16) (p + int len))"
    using len by (subst mpsearch_loop.simps) (simp add: sound_mp_def)
  also have "mpsearch_loop m (p + 16) (p + int len) = List.find (sound_mp m) (map (\<lambda>k. p + 16 + 16 * int k) [0..<n])"
    unfolding e using Suc.hyps(1)[OF n] by (simp only: n)
  finally show ?case unfolding m by simp
qed

lemma find_app: "List.find P (xs @ ys) = (case List.find P xs of Some x \<Rightarrow> Some x | None \<Rightarrow> List.find P ys)"
  by (induction xs) auto

text \<open>
  \<open>mpsearch\<close> gives the first address in the first KB of the extended BIOS data area (the last KB of base memory, when there is no such
  area) or in the BIOS ROM that holds a floating pointer structure with a right checksum, and none exactly if there is none.
\<close>

theorem mpsearch_first: "mpsearch m = List.find (sound_mp m) (candidates m)"
proof -
  have s: "mpsearch1 m a len = List.find (sound_mp m) (slots a len)" for a len
    unfolding mpsearch1_def slots_def Let_def mpsearch_loop_find ..
  show ?thesis unfolding mpsearch_def candidates_def Let_def s find_app by (cases "of_nat (le16 m (uint (P2V 0x400) + 0xE)) * 16 = (0 :: u32)") simp_all
qed

section \<open>The entries\<close>

datatype mp_entry = Processor byte "byte list" | Io_apic byte "byte list" | Other byte "byte list"

fun entry_ok :: "mp_entry \<Rightarrow> bool" where
  "entry_ok (Processor i r) = (length r = 18)"
| "entry_ok (Io_apic i r) = (length r = 6)"
| "entry_ok (Other t r) = (t \<in> {1, 3, 4} \<and> length r = 7)"

fun entry_bytes :: "mp_entry \<Rightarrow> byte list" where
  "entry_bytes (Processor i r) = 0 # i # r"
| "entry_bytes (Io_apic i r) = 2 # i # r"
| "entry_bytes (Other t r) = t # r"

text \<open>What the entries say: the first eight processors, in order, and the last I/O controller.\<close>

fun note_entry :: "mp_entry \<Rightarrow> mpst \<Rightarrow> mpst" where
  "note_entry (Processor i r) s = (if ncpu s < NCPU then s\<lparr>cpus := (cpus s)(ncpu s := i), ncpu := ncpu s + 1\<rparr> else s)"
| "note_entry (Io_apic i r) s = s\<lparr>ioapicid := i\<rparr>"
| "note_entry (Other t r) s = s"

definition table_at :: "memory \<Rightarrow> int \<Rightarrow> mp_entry list \<Rightarrow> bool" where
  "table_at m p es \<longleftrightarrow> list_all entry_ok es \<and> has_sig m p (concat (map entry_bytes es))"

lemma has_sig_Cons: "has_sig m p (b # bs) \<longleftrightarrow> m p = b \<and> has_sig m (p + 1) bs"
proof -
  have "map (\<lambda>i. m (p + int i)) [0..<length (b # bs)] = m p # map (\<lambda>i. m (p + 1 + int i)) [0..<length bs]"
    by (simp add: upt_conv_Cons map_Suc_upt[symmetric] comp_def algebra_simps del: upt_Suc)
  then show ?thesis by (simp add: has_sig_def)
qed

lemma has_sig_append: "has_sig m p (bs @ cs) \<longleftrightarrow> has_sig m p bs \<and> has_sig m (p + int (length bs)) cs"
proof (induction bs arbitrary: p)
  case (Cons b bs)
  have "p + 1 + int (length bs) = p + int (length (b # bs))" by simp
  then show ?case using Cons[of "p + 1"] by (simp only: append_Cons has_sig_Cons) blast
qed (simp add: has_sig_def)

abbreviation tsize :: "mp_entry list \<Rightarrow> int" where
  "tsize es \<equiv> int (length (concat (map entry_bytes es)))"

lemma mp_entries_step:
  assumes "table_at m p (x # es)" "p + int (length (entry_bytes x)) \<le> e"
  shows "mp_entries m p e s = mp_entries m (p + int (length (entry_bytes x))) e (note_entry x s) \<and> table_at m (p + int (length (entry_bytes x))) es"
proof (cases x)
  case (Processor i r)
  then have "m p = 0" "m (p + 1) = i" "length r = 18" using assms(1) by (auto simp: table_at_def has_sig_Cons)
  then show ?thesis using assms Processor by (subst mp_entries.simps) (auto simp: table_at_def has_sig_Cons has_sig_append algebra_simps)
next
  case (Io_apic i r)
  then have "m p = 2" "m (p + 1) = i" "length r = 6" using assms(1) by (auto simp: table_at_def has_sig_Cons)
  then show ?thesis using assms Io_apic by (subst mp_entries.simps) (auto simp: table_at_def has_sig_Cons has_sig_append algebra_simps)
next
  case (Other t r)
  then have t: "m p = t" "t \<in> {1, 3, 4}" "length r = 7" using assms(1) by (auto simp: table_at_def has_sig_Cons)
  then have "p + 1 + int (length r) = p + 8" by simp
  moreover have "table_at m (p + 1 + int (length r)) es" using assms(1) Other
    by (simp only: table_at_def list.map list.pred_inject entry_bytes.simps concat.simps append_Cons has_sig_Cons has_sig_append simp_thms)
  ultimately have t8: "table_at m (p + 8) es" by (simp only:)
  have "p < e" "m p = 1 \<or> m p = 3 \<or> m p = 4" "m p \<noteq> 0" "m p \<noteq> 2" using t assms(2) Other by auto
  then have "mp_entries m p e s = mp_entries m (p + 8) e s" by (subst mp_entries.simps) simp
  then show ?thesis using t t8 Other by simp
qed

lemma mp_entries_table:
  "table_at m p es \<Longrightarrow> p + tsize es \<le> e \<Longrightarrow> mp_entries m p e s = mp_entries m (p + tsize es) e (fold note_entry es s)"
proof (induction es arbitrary: p s)
  case (Cons x es)
  have "p + int (length (entry_bytes x)) \<le> e" using Cons.prems(2) by simp
  note st = mp_entries_step[OF Cons.prems(1) this, of s]
  have z: "p + int (length (entry_bytes x)) + tsize es = p + tsize (x # es)" by simp
  have le: "p + int (length (entry_bytes x)) + tsize es \<le> e" using Cons.prems(2) unfolding z .
  have "mp_entries m p e s = mp_entries m (p + int (length (entry_bytes x))) e (note_entry x s)" using st by blast
  also have "\<dots> = mp_entries m (p + tsize (x # es)) e (fold note_entry es (note_entry x s))" unfolding Cons.IH[OF conjunct2[OF st] le] z ..
  finally show ?case by simp
qed simp

text \<open>A loop that makes no progress does not end.\<close>

lemma mp_entries_stuck:
  assumes "p < e" "4 < uint (m p)"
  shows "mp_entries m p e s = None"
proof -
  have n: "m p \<noteq> 0" "m p \<noteq> 1" "m p \<noteq> 2" "m p \<noteq> 3" "m p \<noteq> 4" using assms(2) by auto
  have "mp_entries m p e s = Some y \<Longrightarrow> \<not> (m = m \<and> p = p \<and> e = e)" for y
  proof (rule mp_entries.raw_induct[where P = "\<lambda>m' p' e' s' y. \<not> (m' = m \<and> p' = p \<and> e' = e)"], goal_cases)
    case (1 f m' p' e' s' y')
    show ?case using 1(2,3) assms n by (auto split: if_splits dest: 1(2))
  qed
  then show ?thesis by (cases "mp_entries m p e s") auto
qed

section \<open>The whole initialisation\<close>

lemma mp_entries_keeps_ismp: "mp_entries m p e s = Some y \<Longrightarrow> (p < e \<longrightarrow> m p \<in> {0, 1, 2, 3, 4}) \<and> ismp y = ismp s"
proof (rule mp_entries.raw_induct[where P = "\<lambda>m p e s y. (p < e \<longrightarrow> m p \<in> {0, 1, 2, 3, 4}) \<and> ismp y = ismp s"], goal_cases)
  case (1 f m p e s y)
  consider "\<not> p < e" | "p < e" "m p = 0" | "p < e" "m p = 2" | "p < e" "m p = 1 \<or> m p = 3 \<or> m p = 4" | "p < e" "m p \<notin> {0, 1, 2, 3, 4}" by blast
  then show ?case
  proof cases
    case 5
    then have "f m p e (s\<lparr>ismp := False\<rparr>) = Some y" using 1(3) by simp
    then show ?thesis using 1(2)[of m p e "s\<lparr>ismp := False\<rparr>" y] 5 by blast
  qed (use 1 in \<open>force split: if_splits\<close>)+
qed

text \<open>
  On a sound configuration table of entries of the known types \<open>mpinit\<close> ends, takes the first eight processors in the order of the table
  and the last I/O interrupt controller, and the address of the local one from the header.
\<close>

theorem mpinit_reads_table:
  assumes "mpconfig m = Some (mp, conf)" "table_at m (conf + 44) es" "44 + tsize es = int (le16 m (conf + 4))"
  shows "mpinit m r s = Some (fold note_entry es (s\<lparr>ismp := True, lapic := le32 m (conf + 36)\<rparr>), if m (mp + 12) \<noteq> 0 then Some (r OR 1) else None)"
proof -
  let ?s = "s\<lparr>ismp := True, lapic := le32 m (conf + 36)\<rparr>" and ?e = "conf + int (le16 m (conf + 4))"
  have e: "conf + 44 + tsize es = ?e" using assms(3) by simp
  have "mp_entries m (conf + 44) ?e ?s = mp_entries m ?e ?e (fold note_entry es ?s)" using mp_entries_table[OF assms(2), of ?e ?s] unfolding e by simp
  then have l: "mp_entries m (conf + 44) ?e ?s = Some (fold note_entry es ?s)" by (simp add: mp_entries.simps[of m ?e ?e])
  have "ismp (fold note_entry es ?s)" using mp_entries_keeps_ismp[OF l] by simp
  then show ?thesis using assms(1) l by (simp add: mpinit_def)
qed

text \<open>
  C39: An entry of an unknown type makes \<open>mpinit\<close> run for ever, because \<open>break\<close> leaves the \<open>switch\<close> and not the loop; what follows
  the loop for this case, the return to a single processor, is never done: when \<open>mpinit\<close> ends after finding a table, \<open>ismp\<close> is set.
\<close>

theorem mpinit_hangs_or_accepts:
  assumes "mpconfig m = Some (mp, conf)"
  shows "(table_at m (conf + 44) es \<and> 44 + tsize es < int (le16 m (conf + 4)) \<and> 4 < uint (m (conf + 44 + tsize es)) \<longrightarrow> mpinit m r s = None) \<and>
    (\<forall>s' w. mpinit m r s = Some (s', w) \<longrightarrow> ismp s')"
proof (intro conjI impI allI)
  let ?s = "s\<lparr>ismp := True, lapic := le32 m (conf + 36)\<rparr>" and ?e = "conf + int (le16 m (conf + 4))"
  assume a: "table_at m (conf + 44) es \<and> 44 + tsize es < int (le16 m (conf + 4)) \<and> 4 < uint (m (conf + 44 + tsize es))"
  have "mp_entries m (conf + 44) ?e ?s = mp_entries m (conf + 44 + tsize es) ?e (fold note_entry es ?s)"
    by (rule mp_entries_table) (use a in auto)
  also have "\<dots> = None" by (rule mp_entries_stuck) (use a in auto)
  finally show "mpinit m r s = None" using assms by (simp add: mpinit_def)
next
  fix s' w assume i: "mpinit m r s = Some (s', w)"
  obtain s1 where "mp_entries m (conf + 44) (conf + int (le16 m (conf + 4))) (s\<lparr>ismp := True, lapic := le32 m (conf + 36)\<rparr>) = Some s1"
    using i assms by (auto simp: mpinit_def bind_eq_Some_conv)
  from mp_entries_keeps_ismp[OF this] i this assms show "ismp s'" by (auto simp: mpinit_def)
qed

section \<open>Example\<close>

text \<open>The structure in the ROM area, at 0xF0000, and the table behind it: two processors, or an entry of type 5.\<close>

definition sample_rom :: "byte list \<Rightarrow> memory" where
  "sample_rom bs = (\<lambda>a. if 0x800F0000 \<le> a \<and> a < 0x800F0000 + int (length bs) then bs ! nat (a - 0x800F0000) else 0)"

definition sample_mp :: "byte list" where
  "sample_mp = [95, 77, 80, 95, 0x10, 0, 0xF, 0, 1, 4, 0x80, 0, 1, 0, 0, 0]"

definition sample_conf :: "byte list \<Rightarrow> byte list" where
  "sample_conf entries = [80, 67, 77, 80, 84, 0, 4, 0x92] @ replicate 28 0 @ [0, 0, 0xe0, 0xfe] @ replicate 4 0 @ entries"

definition two_cpus :: "byte list" where
  "two_cpus = [0, 3] @ replicate 18 0 @ [0, 5] @ replicate 18 0"

definition odd_entry :: "byte list" where
  "odd_entry = [0, 3] @ replicate 18 0 @ [5] @ replicate 19 0"

lemma mp_sum_sig: "has_sig m a bs \<Longrightarrow> mp_sum m a (length bs) = sum_list bs"
proof (induction bs rule: rev_induct)
  case (snoc b bs)
  then have "has_sig m a bs" "m (a + int (length bs)) = b" by (auto simp: has_sig_append has_sig_Cons)
  then show ?case using snoc.IH by simp
qed simp

lemma rom_sig: "has_sig (sample_rom (xs @ bs @ ys)) (0x800F0000 + int (length xs)) bs"
proof -
  have "sample_rom (xs @ bs @ ys) (0x800F0000 + int (length xs) + int i) = bs ! i" if "i < length bs" for i
    using that by (simp add: sample_rom_def nat_add_distrib nth_append flip: add.assoc)
  then show ?thesis unfolding has_sig_def by (intro nth_equalityI) simp_all
qed

lemma rom_search:
  assumes "length bs = 16" "take 4 bs = mp_sig" "sum_list bs = 0"
  shows "mpsearch (sample_rom (bs @ ys)) = Some 0x800F0000"
proof -
  let ?m = "sample_rom (bs @ ys)"
  have z: "?m a = 0" if "a < 0x800F0000" for a using that by (simp add: sample_rom_def)
  have bda: "uint (P2V 0x400) = 0x80000400" by (simp add: P2V_def)
  have b0: "le16 ?m (uint (P2V 0x400) + 0xE) = 0" "le16 ?m (uint (P2V 0x400) + 0x13) = 0" by (simp_all add: le16_def bda z)
  have "uint (P2V (0 - 1024)) = 0x7FFFFC00" by (simp add: P2V_def)
  then have lo: "c < 0x800F0000" if "c \<in> set (slots (0 - 1024) 1024)" for c using that by (auto simp: slots_def)
  have "\<not> sound_mp ?m c" if "c < 0x800F0000" for c
    using z[OF that] by (simp add: sound_mp_def mp_sig_def has_sig_Cons)
  then have none: "List.find (sound_mp ?m) (slots (0 - 1024) 1024) = None" using lo by (auto simp: find_None_iff)
  have r: "has_sig ?m 0x800F0000 bs" using rom_sig[of "[]" bs ys] by simp
  have "bs = mp_sig @ drop 4 bs" using assms(2) by (metis append_take_drop_id)
  then have "has_sig ?m 0x800F0000 mp_sig" using r has_sig_append by metis
  moreover have "mp_sum ?m 0x800F0000 16 = 0" using mp_sum_sig[OF r] assms(1,3) by simp
  ultimately have h: "sound_mp ?m 0x800F0000" by (simp add: sound_mp_def)
  have "uint (P2V 0xF0000) = 0x800F0000" by (simp add: P2V_def)
  moreover have "[0..<(0x10000 + 15) div 16] = 0 # [1..<(0x10000 + 15) div 16]" using upt_conv_Cons[of 0 "(0x10000 + 15) div 16"] by simp
  ultimately have "List.find (sound_mp ?m) (slots 0xF0000 0x10000) = Some 0x800F0000" using h unfolding slots_def by simp
  then show ?thesis unfolding mpsearch_first candidates_def Let_def b0 find_app using none by simp
qed

lemma rom_config:
  assumes "length es = 40" "sum_list (sample_conf es) = 0"
  shows "mpconfig (sample_rom (sample_mp @ sample_conf es)) = Some (0x800F0000, 0x800F0010)"
    "has_sig (sample_rom (sample_mp @ sample_conf es)) (0x800F0010 + 44) es"
    "le16 (sample_rom (sample_mp @ sample_conf es)) (0x800F0010 + 4) = 84"
proof -
  let ?m = "sample_rom (sample_mp @ sample_conf es)"
  have l: "length sample_mp = 16" by (simp add: sample_mp_def)
  have s: "mpsearch ?m = Some 0x800F0000" by (rule rom_search) (simp_all add: sample_mp_def mp_sig_def)
  have r1: "has_sig ?m 0x800F0000 sample_mp" using rom_sig[of "[]" sample_mp] by simp
  have r2: "has_sig ?m 0x800F0010 (sample_conf es)" using rom_sig[of sample_mp "sample_conf es" "[]"] l by simp
  have p: "le32 ?m (0x800F0000 + 4) = 0xF0010" using r1 by (simp add: sample_mp_def has_sig_Cons le32_def le16_def)
  have c: "has_sig ?m 0x800F0010 pcmp_sig" "?m (0x800F0010 + 6) = 4" "le16 ?m (0x800F0010 + 4) = 84"
    using r2 by (simp_all add: sample_conf_def pcmp_sig_def has_sig_Cons le16_def) (simp add: has_sig_def)
  show "le16 ?m (0x800F0010 + 4) = 84" by (rule c(3))
  have "length (sample_conf es) = 84" using assms(1) by (simp add: sample_conf_def)
  then have "mp_sum ?m 0x800F0010 84 = 0" using mp_sum_sig[OF r2] assms(2) by simp
  moreover have "uint (P2V (0xF0010 :: u32)) = 0x800F0010" by (simp add: P2V_def)
  ultimately show "mpconfig ?m = Some (0x800F0000, 0x800F0010)" using s p c by (simp add: mpconfig_def)
  have "sample_conf es = (([80, 67, 77, 80, 84, 0, 4, 0x92] @ replicate 28 0 @ [0, 0, 0xe0, 0xfe] @ replicate 4 0)) @ es" by (simp add: sample_conf_def)
  then have "has_sig ?m (0x800F0010 + int (length ([80, 67, 77, 80, 84, 0, 4, 0x92 :: byte] @ replicate 28 0 @ [0, 0, 0xe0, 0xfe] @ replicate 4 0))) es"
    using r2 has_sig_append by metis
  then show "has_sig ?m (0x800F0010 + 44) es" by simp
qed

theorem mpinit_reads_table_witness:
  "mpinit (sample_rom (sample_mp @ sample_conf two_cpus)) 0 \<lparr>cpus = \<lambda>_. 0, ismp = False, ncpu = 0, ioapicid = 0, lapic = 0\<rparr> =
     Some (\<lparr>cpus = (\<lambda>_. 0)(0 := 3, 1 := 5), ismp = True, ncpu = 2, ioapicid = 0, lapic = 0xFEE00000\<rparr>, Some 1)"
proof -
  let ?m = "sample_rom (sample_mp @ sample_conf two_cpus)"
  have "length two_cpus = 40" "sum_list (sample_conf two_cpus) = 0" by code_simp+
  note C = rom_config[OF this]
  let ?es = "[Processor 3 (replicate 18 0), Processor 5 (replicate 18 0)]"
  have "two_cpus = concat (map entry_bytes ?es)" by (simp add: two_cpus_def)
  then have t: "table_at ?m (0x800F0010 + 44) ?es" using C(2) by (simp add: table_at_def)
  have l: "44 + tsize ?es = int (le16 ?m (0x800F0010 + 4))" unfolding C(3) by simp
  have r: "has_sig ?m 0x800F0010 (sample_conf two_cpus)" using rom_sig[of sample_mp "sample_conf two_cpus" "[]"] by (simp add: sample_mp_def)
  have la: "le32 ?m (0x800F0010 + 36) = 0xFEE00000" "?m (0x800F0000 + 12) = 1"
    by (simp_all add: le32_def le16_def sample_rom_def sample_mp_def sample_conf_def nth_append)
  show ?thesis using mpinit_reads_table[OF C(1) t l, of 0] la by (simp add: fun_eq_iff)
qed

theorem mpinit_hangs_or_accepts_witness:
  "mpinit (sample_rom (sample_mp @ sample_conf odd_entry)) 0 \<lparr>cpus = \<lambda>_. 0, ismp = False, ncpu = 0, ioapicid = 0, lapic = 0\<rparr> = None"
proof -
  let ?m = "sample_rom (sample_mp @ sample_conf odd_entry)"
  have "length odd_entry = 40" "sum_list (sample_conf odd_entry) = 0" by code_simp+
  note C = rom_config[OF this]
  let ?es = "[Processor 3 (replicate 18 0)]"
  have e: "odd_entry = concat (map entry_bytes ?es) @ 5 # replicate 19 0" by (simp add: odd_entry_def)
  then have "has_sig ?m (0x800F0010 + 44) (concat (map entry_bytes ?es))" "has_sig ?m (0x800F0010 + 44 + tsize ?es) (5 # replicate 19 0)"
    using C(2) has_sig_append by metis+
  then have "table_at ?m (0x800F0010 + 44) ?es" "uint (?m (0x800F0010 + 44 + tsize ?es)) = 5" by (simp_all add: table_at_def has_sig_Cons)
  moreover have "44 + tsize ?es < int (le16 ?m (0x800F0010 + 4))" unfolding C(3) by simp
  ultimately show ?thesis using mpinit_hangs_or_accepts[OF C(1), of ?es 0] by simp
qed

end
