(* ===== verification/Ide.thy ===== *)
theory Ide
  imports Xv6_Prelude
begin

text \<open>
  The disk driver (\<open>ide.c\<close>): the queue of requests through the buffers, the port writes that start a request, the
  interrupt handler. The controller is the environment: it takes the sector and the command from its registers
  when the command is written, and interrupts once when it is done with it. Shown: the controller always works on
  the head of the queue, requests are served in order, each with the data of its own block, and none is lost.
\<close>

section \<open>State\<close>

abbreviation (input) FSSIZE :: nat where "FSSIZE \<equiv> 1000"
abbreviation (input) IDE_CMD_READ :: nat where "IDE_CMD_READ \<equiv> 0x20"
abbreviation (input) IDE_CMD_WRITE :: nat where "IDE_CMD_WRITE \<equiv> 0x30"
abbreviation (input) IDE_CMD_RDMUL :: nat where "IDE_CMD_RDMUL \<equiv> 0xc4"
abbreviation (input) IDE_CMD_WRMUL :: nat where "IDE_CMD_WRMUL \<equiv> 0xc5"

text \<open>The fields of a buffer that the driver uses; \<open>b_next\<close> is \<open>qnext\<close>, with 0 for the null pointer.\<close>

record dbuf =
  b_dev :: nat
  b_no :: nat
  b_busy :: bool
  b_valid :: bool
  b_dirty :: bool
  b_data :: "byte list"
  b_next :: nat

datatype request = Read nat nat | Write nat nat "byte list"

text \<open>
  \<open>issued\<close> is the command the controller works on, \<open>platter\<close> the contents of the two disks, \<open>waiting\<close> the buffers whose
  owners are in the loop of \<open>iderw\<close>.
\<close>

record ide =
  dbufs :: "nat \<Rightarrow> dbuf"
  idequeue :: nat
  havedisk1 :: bool
  issued :: "request option"
  platter :: "nat \<Rightarrow> nat \<Rightarrow> byte list"
  waiting :: "nat set"

definition upd_buf :: "nat \<Rightarrow> (dbuf \<Rightarrow> dbuf) \<Rightarrow> ide \<Rightarrow> ide" where
  "upd_buf b f s = s\<lparr>dbufs := (dbufs s)(b := f (dbufs s b))\<rparr>"

section \<open>The driver\<close>

text \<open>The values that the status port shows until the controller is ready; \<open>None\<close> while it is not.\<close>

fun idewait :: "bool \<Rightarrow> byte list \<Rightarrow> int option" where
  "idewait checkerr [] = None"
| "idewait checkerr (r # rs) =
     (if r AND 0xC0 \<noteq> 0x40 then idewait checkerr rs else Some (if checkerr \<and> r AND 0x21 \<noteq> 0 then -1 else 0))"

text \<open>The bytes written to the ports, and the data behind a write command.\<close>

definition idestart :: "nat \<Rightarrow> (nat \<Rightarrow> dbuf) \<Rightarrow> ((nat \<times> nat) list \<times> byte list option) kernel" where
  "idestart b bufs =
     (if b = 0 then panic ''idestart''
      else if FSSIZE \<le> b_no (bufs b) then panic ''incorrect blockno''
      else
        let sector_per_block = 512 div 512;
            sector = b_no (bufs b) * sector_per_block;
            read_cmd = (if sector_per_block = 1 then IDE_CMD_READ else IDE_CMD_RDMUL);
            write_cmd = (if sector_per_block = 1 then IDE_CMD_WRITE else IDE_CMD_WRMUL);
            regs = [(0x3f6, 0), (0x1f2, sector_per_block), (0x1f3, sector mod 256), (0x1f4, sector div 2 ^ 8 mod 256),
                    (0x1f5, sector div 2 ^ 16 mod 256), (0x1f6, 0xe0 + b_dev (bufs b) mod 2 * 16 + sector div 2 ^ 24 mod 16)]
        in if 7 < sector_per_block then panic ''idestart''
           else if b_dirty (bufs b) then Inr (regs @ [(0x1f7, write_cmd)], Some (b_data (bufs b)))
           else Inr (regs @ [(0x1f7, read_cmd)], None))"

text \<open>
  The controller's side, as documented for it: the command applies to the drive in bit 4 of the drive register and the
  sector in the other registers.
\<close>

definition port :: "(nat \<times> nat) list \<Rightarrow> nat \<Rightarrow> nat" where
  "port outs p = (case map_of outs p of Some v \<Rightarrow> v | None \<Rightarrow> 0)"

definition latch :: "(nat \<times> nat) list \<times> byte list option \<Rightarrow> request" where
  "latch io =
     (let r = port (fst io);
          sector = r 0x1f3 + 2 ^ 8 * r 0x1f4 + 2 ^ 16 * r 0x1f5 + 2 ^ 24 * (r 0x1f6 mod 16);
          drive = r 0x1f6 div 16 mod 2
      in if r 0x1f7 = IDE_CMD_WRITE then Write drive sector (case snd io of Some d \<Rightarrow> d | None \<Rightarrow> []) else Read drive sector)"

definition start :: "nat \<Rightarrow> ide \<Rightarrow> ide kernel" where
  "start b s = kbind (idestart b (dbufs s)) (\<lambda>io. Inr (s\<lparr>issued := Some (latch io)\<rparr>))"

text \<open>The handler: \<open>sts\<close> are the values of the status port, \<open>d\<close> what the data port delivers.\<close>

definition ideintr :: "byte list \<Rightarrow> byte list \<Rightarrow> ide \<Rightarrow> ide kernel option" where
  "ideintr sts d s =
     (let b = idequeue s in
      if b = 0 then Some (Inr s)
      else
        let s1 = s\<lparr>idequeue := b_next (dbufs s b)\<rparr> in
        Option.bind
          (if \<not> b_dirty (dbufs s1 b)
           then Option.bind (idewait True sts) (\<lambda>r. Some (if 0 \<le> r then upd_buf b (\<lambda>x. x\<lparr>b_data := d\<rparr>) s1 else s1))
           else Some s1)
          (\<lambda>s2. let s3 = upd_buf b (\<lambda>x. x\<lparr>b_valid := True, b_dirty := False\<rparr>) s2
                in Some (if idequeue s3 \<noteq> 0 then start (idequeue s3) s3 else Inr s3)))"

text \<open>The queue is searched with a pointer to the pointer that holds the next buffer.\<close>

datatype slot = Head | Next nat

fun slot_val :: "ide \<Rightarrow> slot \<Rightarrow> nat" where
  "slot_val s Head = idequeue s"
| "slot_val s (Next p) = b_next (dbufs s p)"

fun set_slot :: "slot \<Rightarrow> nat \<Rightarrow> ide \<Rightarrow> ide" where
  "set_slot Head b s = s\<lparr>idequeue := b\<rparr>"
| "set_slot (Next p) b s = upd_buf p (\<lambda>x. x\<lparr>b_next := b\<rparr>) s"

partial_function (option) find_end :: "ide \<Rightarrow> slot \<Rightarrow> slot option" where
  "find_end s pp = (if slot_val s pp = 0 then Some pp else find_end s (Next (slot_val s pp)))"

text \<open>\<open>iderw\<close> up to its loop.\<close>

definition iderw :: "nat \<Rightarrow> ide \<Rightarrow> ide kernel option" where
  "iderw b s =
     (if \<not> b_busy (dbufs s b) then Some (panic ''iderw: buf not busy'')
      else if b_valid (dbufs s b) \<and> \<not> b_dirty (dbufs s b) then Some (panic ''iderw: nothing to do'')
      else if b_dev (dbufs s b) \<noteq> 0 \<and> \<not> havedisk1 s then Some (panic ''iderw: ide disk 1 not present'')
      else
        let s1 = upd_buf b (\<lambda>x. x\<lparr>b_next := 0\<rparr>) s in
        Option.bind (find_end s1 Head) (\<lambda>pp.
          let s2 = set_slot pp b s1 in Some (if idequeue s2 = b then start b s2 else Inr s2)))"

text \<open>The test of the loop: the request is finished.\<close>

definition finished :: "nat \<Rightarrow> ide \<Rightarrow> bool" where
  "finished b s \<longleftrightarrow> b_valid (dbufs s b) \<and> \<not> b_dirty (dbufs s b)"

section \<open>Steps\<close>

definition carry_out :: "request \<Rightarrow> (nat \<Rightarrow> nat \<Rightarrow> byte list) \<Rightarrow> (nat \<Rightarrow> nat \<Rightarrow> byte list)" where
  "carry_out r p = (case r of Read d n \<Rightarrow> p | Write d n data \<Rightarrow> p(d := (p d)(n := data)))"

definition data_of :: "request \<Rightarrow> (nat \<Rightarrow> nat \<Rightarrow> byte list) \<Rightarrow> byte list" where
  "data_of r p = (case r of Read d n \<Rightarrow> p d n | Write d n data \<Rightarrow> [])"

text \<open>
  An owner enters and leaves \<open>iderw\<close>; outside it may change its buffer; the controller finishes a command, with success
  or with an error, and interrupts; an interrupt without a command finds the queue empty.
\<close>

inductive istep :: "ide \<Rightarrow> ide \<Rightarrow> bool" where
  i_enter: "b \<notin> waiting s \<Longrightarrow> b \<noteq> 0 \<Longrightarrow> iderw b s = Some (Inr s') \<Longrightarrow> istep s (s'\<lparr>waiting := insert b (waiting s')\<rparr>)"
| i_leave: "b \<in> waiting s \<Longrightarrow> finished b s \<Longrightarrow> istep s (s\<lparr>waiting := waiting s - {b}\<rparr>)"
| i_owner: "b \<notin> waiting s \<Longrightarrow> istep s (upd_buf b f s)"
| i_done: "issued s = Some r \<Longrightarrow> idewait True sts = Some 0 \<Longrightarrow>
    ideintr sts (data_of r (platter s)) (s\<lparr>issued := None, platter := carry_out r (platter s)\<rparr>) = Some (Inr s') \<Longrightarrow> istep s s'"
| i_error: "issued s = Some r \<Longrightarrow> idewait True sts = Some (-1) \<Longrightarrow>
    ideintr sts d (s\<lparr>issued := None\<rparr>) = Some (Inr s') \<Longrightarrow> istep s s'"
| i_spurious: "issued s = None \<Longrightarrow> ideintr sts d s = Some (Inr s') \<Longrightarrow> istep s s'"

definition idle :: "(nat \<Rightarrow> dbuf) \<Rightarrow> (nat \<Rightarrow> nat \<Rightarrow> byte list) \<Rightarrow> bool \<Rightarrow> ide" where
  "idle bufs p h = \<lparr>dbufs = bufs, idequeue = 0, havedisk1 = h, issued = None, platter = p, waiting = {}\<rparr>"

inductive ireach :: "ide \<Rightarrow> bool" where
  ir_init: "ireach (idle bufs p h)"
| ir_step: "ireach s \<Longrightarrow> istep s s' \<Longrightarrow> ireach s'"

section \<open>The queue\<close>

fun qlist :: "(nat \<Rightarrow> dbuf) \<Rightarrow> nat \<Rightarrow> nat list \<Rightarrow> bool" where
  "qlist bufs p [] \<longleftrightarrow> p = 0"
| "qlist bufs p (x # xs) \<longleftrightarrow> p = x \<and> x \<noteq> 0 \<and> qlist bufs (b_next (bufs x)) xs"

definition request_of :: "dbuf \<Rightarrow> request" where
  "request_of x = (if b_dirty x then Write (b_dev x mod 2) (b_no x) (b_data x) else Read (b_dev x mod 2) (b_no x))"

text \<open>
  The queue holds the waiting buffers whose requests are not finished, and the controller works on its head.
\<close>

definition queue_ok :: "ide \<Rightarrow> nat list \<Rightarrow> bool" where
  "queue_ok s xs \<longleftrightarrow> qlist (dbufs s) (idequeue s) xs \<and> distinct xs \<and> set xs = {b \<in> waiting s. \<not> finished b s} \<and>
     issued s = (case xs of [] \<Rightarrow> None | b # _ \<Rightarrow> Some (request_of (dbufs s b)))"

lemma qlist_cong: "(\<And>x. x \<in> set xs \<Longrightarrow> b_next (bufs x) = b_next (bufs' x)) \<Longrightarrow> qlist bufs p xs = qlist bufs' p xs"
  by (induction xs arbitrary: p) auto

lemma qlist_zero: "qlist bufs p xs \<Longrightarrow> p = 0 \<longleftrightarrow> xs = []" "qlist bufs p xs \<Longrightarrow> 0 \<notin> set xs"
  by (induction xs arbitrary: p) auto

lemma qlist_snoc: "qlist bufs p xs \<Longrightarrow> b \<notin> set xs \<Longrightarrow> b \<noteq> 0 \<Longrightarrow> b_next (bufs b) = 0 \<Longrightarrow> distinct xs \<Longrightarrow>
    (if xs = [] then qlist bufs b [b] else qlist (bufs(last xs := (bufs (last xs))\<lparr>b_next := b\<rparr>)) p (xs @ [b]))"
proof (induction xs arbitrary: p)
  case (Cons x xs)
  show ?case
  proof (cases "xs = []")
    case False
    then have l: "last xs \<noteq> x" using Cons.prems(5) last_in_set[OF False] by auto
    then show ?thesis using Cons False by auto
  qed (use Cons.prems in auto)
qed simp

lemma find_end_ok: "qlist (dbufs s) (slot_val s pp) xs \<Longrightarrow> find_end s pp = Some (if xs = [] then pp else Next (last xs))"
proof (induction xs arbitrary: pp)
  case Nil
  then show ?case by (subst find_end.simps) simp
next
  case (Cons x xs)
  then show ?case using Cons.IH[of "Next x"] by (subst find_end.simps) simp
qed

lemma upd_buf_sel [simp]:
  "dbufs (upd_buf b f s) x = (if x = b then f (dbufs s b) else dbufs s x)" "idequeue (upd_buf b f s) = idequeue s"
  "havedisk1 (upd_buf b f s) = havedisk1 s" "issued (upd_buf b f s) = issued s" "platter (upd_buf b f s) = platter s"
  "waiting (upd_buf b f s) = waiting s"
  by (simp_all add: upd_buf_def)

text \<open>The registers carry the request.\<close>

lemma latch_start:
  assumes "b \<noteq> 0" "b_no (bufs b) < FSSIZE"
  shows "\<exists>io. idestart b bufs = Inr io \<and> latch io = request_of (bufs b)"
proof -
  define n where "n = b_no (bufs b)"
  have n: "n < 1000" using assms(2) by (simp add: n_def)
  have z: "n div 65536 = 0" "n div 16777216 = 0" "n div 256 mod 256 = n div 256" using n by simp_all
  have lo: "n mod 256 + 256 * (n div 256) = n" by simp
  have dr: "(224 + b_dev (bufs b) mod 2 * 16) mod 16 = 0" "(224 + b_dev (bufs b) mod 2 * 16) div 16 mod 2 = b_dev (bufs b) mod 2"
    by (cases "b_dev (bufs b) mod 2 = 0"; simp)+
  have dm: "(14 + b_dev (bufs b) mod 2) mod 2 = b_dev (bufs b) mod 2" by presburger
  show ?thesis using assms unfolding idestart_def Let_def n_def[symmetric]
    by (auto simp: latch_def port_def request_of_def Let_def z lo dr dm n_def[symmetric])
qed

lemma start_ok: "b \<noteq> 0 \<Longrightarrow> b_no (dbufs s b) < FSSIZE \<Longrightarrow> start b s = Inr (s\<lparr>issued := Some (request_of (dbufs s b))\<rparr>)"
  using latch_start[of b "dbufs s"] by (auto simp: start_def)

lemma start_Inr: "start b s = Inr s' \<Longrightarrow> b \<noteq> 0 \<and> b_no (dbufs s b) < FSSIZE \<and> s' = s\<lparr>issued := Some (request_of (dbufs s b))\<rparr>"
  using latch_start[of b "dbufs s"] by (cases "b = 0"; cases "FSSIZE \<le> b_no (dbufs s b)") (auto simp: start_def idestart_def)

lemma start_fields: "start b s = Inr s' \<Longrightarrow> dbufs s' = dbufs s \<and> idequeue s' = idequeue s \<and> waiting s' = waiting s \<and> platter s' = platter s \<and>
    havedisk1 s' = havedisk1 s \<and> issued s' = Some (request_of (dbufs s b))"
  using start_Inr by force

text \<open>Two buffers that differ in \<open>qnext\<close> at most.\<close>

definition same_buf :: "dbuf \<Rightarrow> dbuf \<Rightarrow> bool" where
  "same_buf x y \<longleftrightarrow> x\<lparr>b_next := 0\<rparr> = y\<lparr>b_next := 0\<rparr>"

lemma same_bufD:
  assumes "same_buf x y"
  shows "request_of x = request_of y" "b_valid x = b_valid y" "b_dirty x = b_dirty y" "b_data x = b_data y" "b_no x = b_no y" "b_dev x = b_dev y"
proof -
  have e: "x\<lparr>b_next := 0\<rparr> = y\<lparr>b_next := 0\<rparr>" using assms by (simp add: same_buf_def)
  show "b_valid x = b_valid y" "b_dirty x = b_dirty y" "b_data x = b_data y" "b_no x = b_no y" "b_dev x = b_dev y"
    using arg_cong[OF e, of b_valid] arg_cong[OF e, of b_dirty] arg_cong[OF e, of b_data] arg_cong[OF e, of b_no] arg_cong[OF e, of b_dev] by simp_all
  then show "request_of x = request_of y" by (simp add: request_of_def)
qed

text \<open>\<open>iderw\<close> puts the buffer at the end.\<close>

lemma iderw_ok:
  assumes q: "queue_ok s xs" and b: "b \<notin> waiting s" "b \<noteq> 0" and w: "b_busy (dbufs s b)" "\<not> finished b s" "b_dev (dbufs s b) = 0 \<or> havedisk1 s"
  shows "\<exists>s2. iderw b s = Some (if xs = [] then start b s2 else Inr s2) \<and> qlist (dbufs s2) (idequeue s2) (xs @ [b]) \<and>
    (\<forall>x. same_buf (dbufs s2 x) (dbufs s x)) \<and> issued s2 = issued s \<and> platter s2 = platter s \<and> waiting s2 = waiting s \<and> havedisk1 s2 = havedisk1 s"
proof -
  have ql: "qlist (dbufs s) (idequeue s) xs" "distinct xs" "b \<notin> set xs" using q b(1) by (auto simp: queue_ok_def)
  define s1 where "s1 = upd_buf b (\<lambda>x. x\<lparr>b_next := 0\<rparr>) s"
  have q1: "qlist (dbufs s1) (idequeue s1) xs" using ql(1,3) by (subst qlist_cong[of xs _ "dbufs s"]) (auto simp: s1_def)
  then have fe: "find_end s1 Head = Some (if xs = [] then Head else Next (last xs))" using find_end_ok[of s1 Head] by simp
  define s2 where "s2 = set_slot (if xs = [] then Head else Next (last xs)) b s1"
  have n0: "b_next (dbufs s1 b) = 0" by (simp add: s1_def)
  have q2: "qlist (dbufs s2) (idequeue s2) (xs @ [b])"
    using qlist_snoc[OF q1 ql(3) b(2) n0 ql(2)] by (auto simp: s2_def upd_buf_def fun_upd_def)
  have hd: "idequeue s2 = b \<longleftrightarrow> xs = []" using q2 ql(3) by (cases xs) auto
  have rest: "same_buf (dbufs s2 x) (dbufs s x)" for x by (simp add: s2_def s1_def same_buf_def)
  have fr: "issued s2 = issued s" "platter s2 = platter s" "waiting s2 = waiting s" "havedisk1 s2 = havedisk1 s"
    by (simp_all add: s2_def s1_def)
  have "iderw b s = Some (if xs = [] then start b s2 else Inr s2)"
    using w fe hd unfolding iderw_def Let_def s1_def[symmetric] by (auto simp: finished_def s2_def)
  then show ?thesis using q2 rest fr by blast
qed

lemma iderw_Inr: "iderw b s = Some (Inr s') \<Longrightarrow> b_busy (dbufs s b) \<and> \<not> finished b s \<and> (b_dev (dbufs s b) = 0 \<or> havedisk1 s)"
  by (auto simp: iderw_def finished_def split: if_splits)

lemma enter_queue_ok:
  assumes q: "queue_ok s xs" and b: "b \<notin> waiting s" "b \<noteq> 0" and r: "iderw b s = Some (Inr s')"
  shows "queue_ok (s'\<lparr>waiting := insert b (waiting s')\<rparr>) (xs @ [b])"
proof -
  note w = iderw_Inr[OF r]
  obtain s2 where s2: "iderw b s = Some (if xs = [] then start b s2 else Inr s2)" "qlist (dbufs s2) (idequeue s2) (xs @ [b])"
    "\<forall>x. same_buf (dbufs s2 x) (dbufs s x)" "issued s2 = issued s" "waiting s2 = waiting s"
    using iderw_ok[OF q b] w by blast
  have same: "request_of (dbufs s2 x) = request_of (dbufs s x)" "finished x s2 = finished x s" for x
    using same_bufD[OF s2(3)[rule_format, of x]] by (simp_all add: finished_def)
  have e: "(if xs = [] then start b s2 else Inr s2) = Inr s'" using r s2(1) by simp
  have s': "dbufs s' = dbufs s2" "idequeue s' = idequeue s2" "waiting s' = waiting s"
    "issued s' = (if xs = [] then Some (request_of (dbufs s2 b)) else issued s)"
  proof -
    have "s' = s2 \<or> xs = [] \<and> start b s2 = Inr s'" "xs \<noteq> [] \<Longrightarrow> s' = s2" using e by (auto split: if_splits)
    then show "dbufs s' = dbufs s2" "idequeue s' = idequeue s2" "waiting s' = waiting s"
      "issued s' = (if xs = [] then Some (request_of (dbufs s2 b)) else issued s)"
      using e s2(4,5) start_fields[of b s2 s'] by (metis, metis, metis, metis)
  qed
  have f: "finished x (s'\<lparr>waiting := W\<rparr>) = finished x s" for x W using same(2)[of x] s'(1) by (simp add: finished_def)
  have "set (xs @ [b]) = {x \<in> insert b (waiting s). \<not> finished x s}" using q w b by (auto simp: queue_ok_def)
  then show ?thesis using q b s2(2) s' same f by (cases xs) (auto simp: queue_ok_def)
qed

text \<open>The interrupt takes the head off.\<close>

lemma ideintr_ok:
  assumes q: "queue_ok s (b # xs)" and st: "idewait True sts = Some r" and sel: "dbufs t = dbufs s" "idequeue t = idequeue s"
  shows "\<exists>s2. ideintr sts d t = Some (if xs = [] then Inr s2 else start (hd xs) s2) \<and>
    qlist (dbufs s2) (idequeue s2) xs \<and> (\<forall>x. x \<noteq> b \<longrightarrow> dbufs s2 x = dbufs s x) \<and> issued s2 = issued t \<and> platter s2 = platter t \<and>
    waiting s2 = waiting t \<and> havedisk1 s2 = havedisk1 t \<and>
    dbufs s2 b = (dbufs s b)\<lparr>b_data := (if 0 \<le> r \<and> \<not> b_dirty (dbufs s b) then d else b_data (dbufs s b)), b_valid := True, b_dirty := False\<rparr>"
proof -
  have ql: "idequeue s = b" "b \<noteq> 0" "qlist (dbufs s) (b_next (dbufs s b)) xs" "b \<notin> set xs" using q by (auto simp: queue_ok_def)
  define s1 where "s1 = t\<lparr>idequeue := b_next (dbufs t b)\<rparr>"
  define s2 where "s2 = (if 0 \<le> r \<and> \<not> b_dirty (dbufs s b) then upd_buf b (\<lambda>x. x\<lparr>b_data := d\<rparr>) s1 else s1)"
  define s3 where "s3 = upd_buf b (\<lambda>x. x\<lparr>b_valid := True, b_dirty := False\<rparr>) s2"
  have i: "ideintr sts d t = Some (if idequeue s3 \<noteq> 0 then start (idequeue s3) s3 else Inr s3)"
    using ql(1,2) st sel unfolding ideintr_def Let_def s3_def s2_def s1_def by auto
  have o: "\<forall>x. x \<noteq> b \<longrightarrow> dbufs s3 x = dbufs s x" by (simp add: s3_def s2_def s1_def sel)
  have "idequeue s3 = b_next (dbufs s b)" by (simp add: s3_def s2_def s1_def sel)
  then have q3: "qlist (dbufs s3) (idequeue s3) xs" using ql(3,4) o by (subst qlist_cong[of xs _ "dbufs s"]) auto
  then have "ideintr sts d t = Some (if xs = [] then Inr s3 else start (hd xs) s3)" using i qlist_zero(1)[OF q3] by (cases xs) auto
  then show ?thesis using q3 o by (intro exI[of _ s3]) (auto simp: s3_def s2_def s1_def sel)
qed

lemma done_queue_ok:
  assumes q: "queue_ok s (b # xs)" and st: "idewait True sts = Some r" and sel: "dbufs t = dbufs s" "idequeue t = idequeue s" "waiting t = waiting s" "issued t = None"
    and i: "ideintr sts d t = Some (Inr s')"
  shows "queue_ok s' xs"
proof -
  obtain s2 where s2: "ideintr sts d t = Some (if xs = [] then Inr s2 else start (hd xs) s2)" "qlist (dbufs s2) (idequeue s2) xs"
    "\<forall>x. x \<noteq> b \<longrightarrow> dbufs s2 x = dbufs s x" "issued s2 = None" "waiting s2 = waiting s" "finished b s2"
    using ideintr_ok[OF q st sel(1,2), of d] sel(3,4) by (auto simp: finished_def)
  have e: "(if xs = [] then Inr s2 else start (hd xs) s2) = Inr s'" using i s2(1) by simp
  have s': "dbufs s' = dbufs s2" "idequeue s' = idequeue s2" "waiting s' = waiting s"
    "issued s' = (case xs of [] \<Rightarrow> None | x # _ \<Rightarrow> Some (request_of (dbufs s2 x)))"
  proof -
    have "xs = [] \<Longrightarrow> s' = s2" "xs \<noteq> [] \<Longrightarrow> start (hd xs) s2 = Inr s'" using e by (auto split: if_splits)
    then show "dbufs s' = dbufs s2" "idequeue s' = idequeue s2" "waiting s' = waiting s"
      "issued s' = (case xs of [] \<Rightarrow> None | x # _ \<Rightarrow> Some (request_of (dbufs s2 x)))"
      using s2(4,5) start_fields[of "hd xs" s2 s'] by (cases xs; fastforce)+
  qed
  have f: "finished x s' = (x = b \<or> finished x s)" for x using s2(3,6) s'(1) by (cases "x = b") (auto simp: finished_def)
  have "set xs = {x \<in> waiting s. \<not> finished x s'}" using q f by (auto simp: queue_ok_def)
  then show ?thesis using q s2(2) s' by (cases xs) (auto simp: queue_ok_def)
qed

lemma istep_queue_ok:
  assumes "istep s s'" "queue_ok s xs"
  shows "\<exists>ys. queue_ok s' ys"
  using assms
proof cases
  case (i_enter b s1)
  then show ?thesis using enter_queue_ok[OF assms(2)] by blast
next
  case (i_leave b)
  have "{x \<in> waiting s'. \<not> finished x s'} = {x \<in> waiting s. \<not> finished x s}" using i_leave by (auto simp: finished_def)
  moreover have "dbufs s' = dbufs s" "idequeue s' = idequeue s" "issued s' = issued s" using i_leave(1) by simp_all
  ultimately have "queue_ok s' xs" using assms(2) by (cases xs) (simp_all add: queue_ok_def)
  then show ?thesis by blast
next
  case (i_owner b f)
  have b: "b \<notin> set xs" using assms(2) i_owner(2) by (auto simp: queue_ok_def)
  have "qlist (dbufs s') (idequeue s') xs" using assms(2) b i_owner(1) by (subst qlist_cong[of xs _ "dbufs s"]) (auto simp: queue_ok_def)
  moreover have "{x \<in> waiting s'. \<not> finished x s'} = {x \<in> waiting s. \<not> finished x s}" using i_owner by (auto simp: finished_def)
  ultimately have "queue_ok s' xs" using assms(2) b i_owner(1) by (cases xs) (auto simp: queue_ok_def)
  then show ?thesis by blast
next
  case (i_done r sts)
  then obtain b ys where "xs = b # ys" using assms(2) by (cases xs) (auto simp: queue_ok_def)
  then show ?thesis using done_queue_ok[OF _ i_done(2) _ _ _ _ i_done(3)] assms(2) by fastforce
next
  case (i_error r sts d)
  then obtain b ys where "xs = b # ys" using assms(2) by (cases xs) (auto simp: queue_ok_def)
  then show ?thesis using done_queue_ok[OF _ i_error(2) _ _ _ _ i_error(3)] assms(2) by fastforce
next
  case (i_spurious sts d)
  then have "xs = []" using assms(2) by (cases xs) (auto simp: queue_ok_def)
  then have "s' = s" using assms(2) i_spurious(2) by (simp add: queue_ok_def ideintr_def)
  then show ?thesis using assms(2) by blast
qed

section \<open>What the driver guarantees\<close>

text \<open>
  C21: Whatever the order of requests and interrupts, the queue holds exactly the waiting buffers that are not finished,
  none twice, and the controller works on the request of its head, or on nothing when it is empty: no waiting
  process is forgotten, and every interrupt is taken for the buffer it belongs to.
\<close>

theorem ide_queue_sound:
  assumes "ireach s"
  shows "\<exists>xs. queue_ok s xs"
  using assms
proof induction
  case (ir_init bufs p h)
  have "queue_ok (idle bufs p h) []" by (simp add: queue_ok_def idle_def)
  then show ?case by blast
next
  case (ir_step s s')
  then show ?case using istep_queue_ok by blast
qed

text \<open>The controller carries out its command, and the handler runs; \<open>n\<close> times.\<close>

definition complete :: "ide \<Rightarrow> ide kernel option" where
  "complete s =
     (case issued s of
        None \<Rightarrow> Some (Inr s)
      | Some r \<Rightarrow> ideintr [0x40] (data_of r (platter s)) (s\<lparr>issued := None, platter := carry_out r (platter s)\<rparr>))"

fun run_disk :: "nat \<Rightarrow> ide \<Rightarrow> ide kernel option" where
  "run_disk 0 s = Some (Inr s)"
| "run_disk (Suc n) s = Option.bind (complete s) (\<lambda>x. case x of Inl e \<Rightarrow> Some (Inl e) | Inr s1 \<Rightarrow> run_disk n s1)"

abbreviation after :: "ide \<Rightarrow> nat list \<Rightarrow> (nat \<Rightarrow> nat \<Rightarrow> byte list)" where
  "after s xs \<equiv> fold (\<lambda>b. carry_out (request_of (dbufs s b))) xs (platter s)"

lemma complete_ok:
  assumes q: "queue_ok s (b # xs)" and n: "\<forall>x \<in> set xs. b_no (dbufs s x) < FSSIZE"
  shows "\<exists>s'. complete s = Some (Inr s') \<and> queue_ok s' xs \<and> (\<forall>x. x \<noteq> b \<longrightarrow> dbufs s' x = dbufs s x) \<and> finished b s' \<and>
    platter s' = carry_out (request_of (dbufs s b)) (platter s) \<and>
    b_data (dbufs s' b) = (if b_dirty (dbufs s b) then b_data (dbufs s b) else platter s (b_dev (dbufs s b) mod 2) (b_no (dbufs s b)))"
proof -
  define r where "r = request_of (dbufs s b)"
  define t where "t = s\<lparr>issued := None, platter := carry_out r (platter s)\<rparr>"
  have i: "issued s = Some r" using q by (simp add: queue_ok_def r_def)
  have st: "idewait True [0x40] = Some 0" by simp
  have sel: "dbufs t = dbufs s" "idequeue t = idequeue s" "waiting t = waiting s" "issued t = None" by (simp_all add: t_def)
  obtain s2 where s2: "ideintr [0x40] (data_of r (platter s)) t = Some (if xs = [] then Inr s2 else start (hd xs) s2)" "\<forall>x. x \<noteq> b \<longrightarrow> dbufs s2 x = dbufs s x"
    "platter s2 = platter t"
    "dbufs s2 b = (dbufs s b)\<lparr>b_data := (if \<not> b_dirty (dbufs s b) then data_of r (platter s) else b_data (dbufs s b)), b_valid := True, b_dirty := False\<rparr>"
    using ideintr_ok[OF q st sel(1,2), of "data_of r (platter s)"] by auto
  have c: "complete s = ideintr [0x40] (data_of r (platter s)) t" by (simp add: complete_def i t_def)
  have "b \<notin> set xs" "0 \<notin> set xs" using q qlist_zero(2) by (auto simp: queue_ok_def)
  then have hd: "xs \<noteq> [] \<Longrightarrow> hd xs \<noteq> 0 \<and> b_no (dbufs s2 (hd xs)) < FSSIZE" using n s2(2) hd_in_set[of xs] by metis
  obtain s' where s': "complete s = Some (Inr s')" "dbufs s' = dbufs s2" "platter s' = platter s2"
  proof (cases "xs = []")
    case False
    then show thesis using that s2(1) c start_ok[of "hd xs" s2] hd by simp
  qed (use that s2(1) c in simp)
  have "queue_ok s' xs" by (rule done_queue_ok[OF q st sel s'(1)[unfolded c]])
  then show ?thesis using s' s2(2,3,4) by (auto simp: finished_def t_def r_def request_of_def data_of_def)
qed

lemma fold_cong_requests: "\<forall>x \<in> set xs. dbufs t x = dbufs s x \<Longrightarrow>
    fold (\<lambda>b. carry_out (request_of (dbufs t b))) xs p = fold (\<lambda>b. carry_out (request_of (dbufs s b))) xs p"
  by (rule List.fold_cong) auto

text \<open>
  C22: The requests of a queue are served first in, first out, one interrupt each: afterwards the disk holds the blocks
  written, the last of each, every buffer of the queue is finished, and one that was read has the contents its
  block had after the writes before it. Other buffers are left alone.
\<close>

theorem ide_serves:
  assumes "queue_ok s xs" "\<forall>x \<in> set xs. b_no (dbufs s x) < FSSIZE"
  shows "\<exists>s'. run_disk (length xs) s = Some (Inr s') \<and> queue_ok s' [] \<and> platter s' = after s xs \<and>
    (\<forall>x. x \<notin> set xs \<longrightarrow> dbufs s' x = dbufs s x) \<and>
    (\<forall>ys b zs. xs = ys @ b # zs \<longrightarrow> finished b s' \<and>
       b_data (dbufs s' b) = (if b_dirty (dbufs s b) then b_data (dbufs s b) else after s ys (b_dev (dbufs s b) mod 2) (b_no (dbufs s b))))"
  using assms
proof (induction xs arbitrary: s)
  case (Cons b xs)
  have n: "\<forall>x \<in> set xs. b_no (dbufs s x) < FSSIZE" using Cons.prems(2) by simp
  obtain t where t: "complete s = Some (Inr t)" "queue_ok t xs" "\<forall>x. x \<noteq> b \<longrightarrow> dbufs t x = dbufs s x" "finished b t"
    "platter t = carry_out (request_of (dbufs s b)) (platter s)"
    "b_data (dbufs t b) = (if b_dirty (dbufs s b) then b_data (dbufs s b) else platter s (b_dev (dbufs s b) mod 2) (b_no (dbufs s b)))"
    using complete_ok[OF Cons.prems(1) n] by blast
  have b: "b \<notin> set xs" using Cons.prems(1) by (simp add: queue_ok_def)
  have same: "\<forall>x \<in> set xs. dbufs t x = dbufs s x" using t(3) b by auto
  have "\<forall>x \<in> set xs. b_no (dbufs t x) < FSSIZE" using n same by simp
  from Cons.IH[OF t(2) this] obtain s' where s': "run_disk (length xs) t = Some (Inr s')" "queue_ok s' []" "platter s' = after t xs"
    "\<forall>x. x \<notin> set xs \<longrightarrow> dbufs s' x = dbufs t x"
    "\<forall>ys c zs. xs = ys @ c # zs \<longrightarrow> finished c s' \<and>
       b_data (dbufs s' c) = (if b_dirty (dbufs t c) then b_data (dbufs t c) else after t ys (b_dev (dbufs t c) mod 2) (b_no (dbufs t c)))"
    by blast
  have aft: "after t ys = after s (b # ys)" if "set ys \<subseteq> set xs" for ys
    using fold_cong_requests[of ys t s] same that t(5) by (auto simp: subset_iff)
  have run: "run_disk (length (b # xs)) s = Some (Inr s')" using t(1) s'(1) by simp
  have bb: "dbufs s' b = dbufs t b" using s'(4) b by blast
  have "finished c s' \<and> b_data (dbufs s' c) = (if b_dirty (dbufs s c) then b_data (dbufs s c) else after s ys (b_dev (dbufs s c) mod 2) (b_no (dbufs s c)))"
    if "b # xs = ys @ c # zs" for ys c zs
  proof (cases ys)
    case Nil
    then have "c = b" using that by simp
    then show ?thesis using bb t(4,6) Nil by (simp add: finished_def)
  next
    case (Cons y ys')
    then have e: "y = b" "xs = ys' @ c # zs" using that by simp_all
    then have "set ys' \<subseteq> set xs" "dbufs t c = dbufs s c" using same by auto
    then show ?thesis using s'(5)[rule_format, OF e(2)] aft[of ys'] Cons e(1) by simp
  qed
  moreover have "dbufs s' x = dbufs s x" if "x \<notin> set (b # xs)" for x using that s'(4) t(3) by auto
  ultimately show ?case using run s'(2,3) aft[of xs] by (intro exI[of _ s']) auto
qed simp

text \<open>
  After an error of the controller a read is reported as done all the same: the buffer is marked valid with the
  contents it had before.
\<close>

theorem read_error_unnoticed:
  assumes "queue_ok s (b # xs)" "\<not> b_dirty (dbufs s b)" "idewait True sts = Some (-1)" "ideintr sts d (s\<lparr>issued := None\<rparr>) = Some (Inr s')"
  shows "finished b s' \<and> b_data (dbufs s' b) = b_data (dbufs s b)"
proof -
  obtain s2 where s2: "ideintr sts d (s\<lparr>issued := None\<rparr>) = Some (if xs = [] then Inr s2 else start (hd xs) s2)" "finished b s2"
    "b_data (dbufs s2 b) = b_data (dbufs s b)"
    using ideintr_ok[OF assms(1,3), of "s\<lparr>issued := None\<rparr>" d] by (auto simp: finished_def)
  have "dbufs s' = dbufs s2" using s2(1) assms(4) start_fields[of "hd xs" s2 s'] by (auto split: if_splits)
  then show ?thesis using s2(2,3) by (simp add: finished_def)
qed

section \<open>A concrete run\<close>

text \<open>Two owners: buffer 1 writes block 7 of the second disk, buffer 2 reads it.\<close>

definition bufs12 :: "nat \<Rightarrow> dbuf" where
  "bufs12 i = \<lparr>b_dev = 1, b_no = 7, b_busy = True, b_valid = False, b_dirty = (i = 1), b_data = [of_nat i], b_next = 0\<rparr>"

lemma two_requests: "\<exists>s. ireach s \<and> queue_ok s [1, 2] \<and> (\<forall>x. same_buf (dbufs s x) (bufs12 x))"
proof -
  define s0 where "s0 = idle bufs12 (\<lambda>_ _. []) True"
  have q0: "queue_ok s0 []" "waiting s0 = {}" "havedisk1 s0" "dbufs s0 = bufs12" by (simp_all add: s0_def idle_def queue_ok_def)
  have n0: "1 \<notin> waiting s0" "(1 :: nat) \<noteq> 0" "b_busy (dbufs s0 1)" "\<not> finished 1 s0" "b_dev (dbufs s0 1) = 0 \<or> havedisk1 s0"
    using q0 by (simp_all add: finished_def bufs12_def)
  obtain s1 where s1: "iderw 1 s0 = Some (if [] = ([] :: nat list) then start 1 s1 else Inr s1)" "\<forall>x. same_buf (dbufs s1 x) (dbufs s0 x)"
    "waiting s1 = waiting s0" "havedisk1 s1 = havedisk1 s0"
    using iderw_ok[OF q0(1) n0] by blast
  have f: "b_no (dbufs s1 1) < FSSIZE" using same_bufD(5)[OF s1(2)[rule_format, of 1]] q0(4) by (simp add: bufs12_def)
  define s2 where "s2 = s1\<lparr>issued := Some (request_of (dbufs s1 1))\<rparr>"
  have i1: "iderw 1 s0 = Some (Inr s2)" using s1(1) start_ok[OF _ f] by (simp add: s2_def)
  define s3 where "s3 = s2\<lparr>waiting := insert 1 (waiting s2)\<rparr>"
  have q3: "queue_ok s3 [1]" using enter_queue_ok[OF q0(1) n0(1,2) i1] by (simp add: s3_def)
  have b3: "same_buf (dbufs s3 x) (bufs12 x)" for x using s1(2) q0(4) by (simp add: s3_def s2_def)
  have n3: "2 \<notin> waiting s3" "(2 :: nat) \<noteq> 0" "\<not> finished 2 s3" "b_dev (dbufs s3 2) = 0 \<or> havedisk1 s3" "b_busy (dbufs s3 2)"
    using same_bufD[OF b3[of 2]] s1(3,4) q0(2,3) b3[of 2] unfolding same_buf_def
    by (auto simp: s3_def s2_def finished_def bufs12_def dest: arg_cong[of _ _ b_busy])
  obtain s4 where s4: "iderw 2 s3 = Some (if [1] = ([] :: nat list) then start 2 s4 else Inr s4)" "\<forall>x. same_buf (dbufs s4 x) (dbufs s3 x)"
    using iderw_ok[OF q3 n3(1,2,5,3,4)] by blast
  then have i2: "iderw 2 s3 = Some (Inr s4)" by simp
  define s5 where "s5 = s4\<lparr>waiting := insert 2 (waiting s4)\<rparr>"
  have q5: "queue_ok s5 [1, 2]" using enter_queue_ok[OF q3 n3(1,2) i2] by (simp add: s5_def)
  have b5: "same_buf (dbufs s5 x) (bufs12 x)" for x using s4(2) b3 unfolding s5_def same_buf_def by simp
  have "ireach s0" unfolding s0_def by (rule ir_init)
  then have "ireach s3" unfolding s3_def by (rule ir_step) (rule i_enter[OF n0(1,2) i1])
  then have "ireach s5" unfolding s5_def by (rule ir_step) (rule i_enter[OF n3(1,2) i2])
  then show ?thesis using q5 b5 by blast
qed

theorem ide_queue_sound_witness:
  "\<exists>s xs. ireach s \<and> queue_ok s xs \<and> 2 \<in> waiting s"
proof -
  obtain s where s: "ireach s" "queue_ok s [1, 2]" using two_requests by blast
  then have "2 \<in> waiting s" by (auto simp: queue_ok_def)
  then show ?thesis using ide_queue_sound[OF s(1)] s(1) by blast
qed

theorem ide_serves_witness:
  "\<exists>s s'. queue_ok s [1, 2] \<and> run_disk 2 s = Some (Inr s') \<and> platter s' 1 7 = [1] \<and> finished 2 s' \<and> b_data (dbufs s' 2) = [1]"
proof -
  obtain s where s: "queue_ok s [1, 2]" "\<forall>x. same_buf (dbufs s x) (bufs12 x)" using two_requests by blast
  note B = same_bufD[OF s(2)[rule_format]]
  have v: "b_dev (dbufs s x) = 1" "b_no (dbufs s x) = 7" "b_dirty (dbufs s x) = (x = 1)" "b_data (dbufs s x) = [of_nat x]" for x
    using B(3-6)[of x] by (simp_all add: bufs12_def)
  have n: "\<forall>x \<in> set [1, 2]. b_no (dbufs s x) < FSSIZE" by (simp add: v)
  obtain s' where s': "run_disk (length [1 :: nat, 2]) s = Some (Inr s')" "platter s' = after s [1, 2]"
    "\<forall>ys b zs. [1, 2] = ys @ b # zs \<longrightarrow> finished b s' \<and>
       b_data (dbufs s' b) = (if b_dirty (dbufs s b) then b_data (dbufs s b) else after s ys (b_dev (dbufs s b) mod 2) (b_no (dbufs s b)))"
    using ide_serves[OF s(1) n] by blast
  have "[1, 2] = [1] @ 2 # ([] :: nat list)" by simp
  note d = s'(3)[rule_format, OF this]
  show ?thesis using s'(1,2) d s(1) by (intro exI[of _ s] exI[of _ s']) (simp add: v request_of_def carry_out_def numeral_2_eq_2)
qed

theorem read_error_unnoticed_witness:
  "\<exists>s s'. queue_ok s [2] \<and> ideintr [0x41] [] (s\<lparr>issued := None\<rparr>) = Some (Inr s') \<and> finished 2 s' \<and> b_data (dbufs s' 2) = [2]"
proof -
  define s where "s = \<lparr>dbufs = bufs12, idequeue = 2, havedisk1 = True, issued = Some (request_of (bufs12 2)), platter = (\<lambda>_ _. []), waiting = {2}\<rparr>"
  have q: "queue_ok s [2]" by (auto simp: queue_ok_def s_def bufs12_def finished_def)
  have d: "\<not> b_dirty (dbufs s 2)" by (simp add: s_def bufs12_def)
  have st: "idewait True [0x41] = Some (-1)" by simp
  obtain s' where "ideintr [0x41] [] (s\<lparr>issued := None\<rparr>) = Some (Inr s')"
    using ideintr_ok[OF q st, of "s\<lparr>issued := None\<rparr>" "[]"] by auto
  then show ?thesis using read_error_unnoticed[OF q d st, of "[]" s'] q by (auto simp: s_def bufs12_def)
qed

end
