(* ===== verification/Bootmain.thy ===== *)
theory Bootmain
  imports Mp Ide
begin

text \<open>
  The boot loader (\<open>bootmain.c\<close>): it reads the kernel from the disk, where it starts at sector 1, and puts its segments
  where the ELF headers say, always in whole sectors. The controller gets ready when it is waited for; addresses are integers
  that do not wrap around at 4 GB. Shown: when the segments are in increasing order the kernel is loaded exactly.
\<close>

section \<open>The code\<close>

abbreviation (input) SECTSIZE :: nat where "SECTSIZE \<equiv> 512"
abbreviation (input) ELF_MAGIC :: nat where "ELF_MAGIC \<equiv> 0x464C457F"

text \<open>A disk is what the controller delivers for a read command: the drive, the sector and its 512 bytes.\<close>

type_synonym disk = "nat \<Rightarrow> nat \<Rightarrow> byte list"

definition readsect_ports :: "nat \<Rightarrow> (nat \<times> nat) list" where
  "readsect_ports offset =
     [(0x1F2, 1), (0x1F3, offset mod 256), (0x1F4, offset div 2 ^ 8 mod 256), (0x1F5, offset div 2 ^ 16 mod 256),
      (0x1F6, unat ((of_nat (offset div 2 ^ 24) :: byte) OR 0xE0)), (0x1F7, 0x20)]"

definition sector_data :: "disk \<Rightarrow> request \<Rightarrow> byte list" where
  "sector_data D r = (case r of Read dr s \<Rightarrow> D dr s | Write dr s d \<Rightarrow> [])"

definition readsect :: "disk \<Rightarrow> int \<Rightarrow> nat \<Rightarrow> memory \<Rightarrow> memory" where
  "readsect D dst offset m =
     (let d = sector_data D (latch (readsect_ports offset, None))
      in (\<lambda>a. if dst \<le> a \<and> a < dst + int SECTSIZE then d ! nat (a - dst) else m a))"

function readseg_loop :: "disk \<Rightarrow> int \<Rightarrow> int \<Rightarrow> nat \<Rightarrow> memory \<Rightarrow> memory" where
  "readseg_loop D pa epa offset m =
     (if pa < epa then readseg_loop D (pa + int SECTSIZE) epa (offset + 1) (readsect D pa offset m) else m)"
  by pat_completeness auto
termination by (relation "measure (\<lambda>(D, pa, epa, offset, m). nat (epa - pa))") auto

declare readseg_loop.simps [simp del]

definition readseg :: "disk \<Rightarrow> int \<Rightarrow> nat \<Rightarrow> nat \<Rightarrow> memory \<Rightarrow> memory" where
  "readseg D pa count offset m =
     (let epa = pa + int count; pa1 = pa - int (offset mod SECTSIZE); offset1 = offset div SECTSIZE + 1
      in readseg_loop D pa1 epa offset1 m)"

text \<open>The program headers are read from memory, which the loop itself writes.\<close>

fun boot_loop :: "disk \<Rightarrow> int \<Rightarrow> nat \<Rightarrow> memory \<Rightarrow> memory" where
  "boot_loop D ph 0 m = m"
| "boot_loop D ph (Suc n) m =
     (let pa = int (le32 m (ph + 12)); filesz = le32 m (ph + 16); memsz = le32 m (ph + 20);
          m1 = readseg D pa filesz (le32 m (ph + 4)) m
      in boot_loop D (ph + 32) n (if filesz < memsz then stosb m1 (pa + int filesz) 0 (memsz - filesz) else m1))"

text \<open>The scratch space for the headers.\<close>

definition elf_base :: int where "elf_base = 0x10000"

text \<open>The entry point that is called, and memory then; \<open>None\<close> when the file is no ELF file.\<close>

definition bootmain :: "disk \<Rightarrow> memory \<Rightarrow> (nat \<times> memory) option" where
  "bootmain D m =
     (let elf = elf_base; m1 = readseg D elf 4096 0 m
      in if le32 m1 elf \<noteq> ELF_MAGIC then None
         else let m2 = boot_loop D (elf + int (le32 m1 (elf + 28))) (le16 m1 (elf + 44)) m1
              in Some (le32 m2 (elf + 24), m2))"

section \<open>Reading sectors\<close>

lemma latch_readsect: "s < 2 ^ 24 \<Longrightarrow> latch (readsect_ports s, None) = Read 0 s"
proof -
  assume "s < 2 ^ 24"
  then have "s div 2 ^ 24 = 0" by simp
  moreover have "s mod 256 + 2 ^ 8 * (s div 2 ^ 8 mod 256) + 2 ^ 16 * (s div 2 ^ 16 mod 256) = s"
  proof -
    define q r t where "q = s div 2 ^ 8" and "r = s div 2 ^ 8 mod 256" and "t = s div 2 ^ 16"
    have "s div 2 ^ 16 mod 256 = t" using \<open>s < 2 ^ 24\<close> by (simp add: less_mult_imp_div_less t_def)
    moreover have "q = r + 256 * t" using div_mult2_eq[of s 256 256] by (simp add: q_def r_def t_def)
    moreover have "s = s mod 256 + 256 * q" by (simp add: q_def)
    ultimately show ?thesis unfolding r_def[symmetric] by simp
  qed
  ultimately show ?thesis by (simp add: latch_def readsect_ports_def port_def Let_def)
qed

text \<open>The disk holds the file \<open>F\<close> from sector 1 on.\<close>

definition holds :: "disk \<Rightarrow> byte list \<Rightarrow> bool" where
  "holds D F \<longleftrightarrow> (\<forall>i < length F. D 0 (1 + i div SECTSIZE) ! (i mod SECTSIZE) = F ! i)"

lemma readsect_at: "s < 2 ^ 24 \<Longrightarrow> readsect D p s m a = (if p \<le> a \<and> a < p + 512 then D 0 s ! nat (a - p) else m a)"
  by (simp add: readsect_def latch_readsect sector_data_def)

lemma readseg_loop_at:
  assumes "int s * 512 + (e - p) < 2 ^ 32"
  shows "p \<le> a \<Longrightarrow> a < e \<Longrightarrow> readseg_loop D p e s m a = D 0 (s + nat (a - p) div 512) ! (nat (a - p) mod 512)" (is "_ \<Longrightarrow> _ \<Longrightarrow> ?in")
    "a < p \<Longrightarrow> readseg_loop D p e s m a = m a"
proof -
  have "(p \<le> a \<and> a < e \<longrightarrow> ?in) \<and> (a < p \<longrightarrow> readseg_loop D p e s m a = m a)" using assms
  proof (induction D p e s m rule: readseg_loop.induct)
    case (1 D p e s m)
    show ?case
    proof (cases "p < e")
      case True
      have s: "s < 2 ^ 24" using "1.prems" True by simp
      let ?m = "readsect D p s m"
      have l: "readseg_loop D p e s m = readseg_loop D (p + 512) e (s + 1) ?m" using True by (subst readseg_loop.simps) simp
      have b: "int (s + 1) * 512 + (e - (p + 512)) < 2 ^ 32" using "1.prems" by simp
      note I = "1.IH"[OF True, simplified, OF b[simplified]]
      show ?thesis
      proof (intro conjI impI)
        assume a: "p \<le> a \<and> a < e"
        show "readseg_loop D p e s m a = D 0 (s + nat (a - p) div 512) ! (nat (a - p) mod 512)"
        proof (cases "a < p + 512")
          case True
          then have "readseg_loop D p e s m a = ?m a" using I l by simp
          moreover have "?m a = D 0 s ! nat (a - p)" "nat (a - p) < 512" using True a by (simp_all add: readsect_at[OF s])
          ultimately show ?thesis by simp
        next
          case False
          have n: "nat (a - p) = nat (a - (p + 512)) + 512" using False by simp
          have "nat (a - p) div 512 = nat (a - (p + 512)) div 512 + 1" "nat (a - p) mod 512 = nat (a - (p + 512)) mod 512"
            unfolding n by simp_all
          then show ?thesis using I l a False by simp
        qed
      next
        assume "a < p"
        moreover have "?m a = m a" using \<open>a < p\<close> by (simp add: readsect_at[OF s])
        ultimately show "readseg_loop D p e s m a = m a" using I l by simp
      qed
    qed (auto simp: readseg_loop.simps[of D p e s m])
  qed
  then show "p \<le> a \<Longrightarrow> a < e \<Longrightarrow> ?in" "a < p \<Longrightarrow> readseg_loop D p e s m a = m a" by blast+
qed

text \<open>A segment read from offset \<open>off\<close>: its bytes are in place, and nothing before its first sector has changed.\<close>

lemma readseg_at:
  assumes h: "holds D F" and o: "off + n \<le> length F" "length F < 2 ^ 31"
  shows "i < n \<Longrightarrow> readseg D pa n off m (pa + int i) = F ! (off + i)" "a < pa - int (off mod 512) \<Longrightarrow> readseg D pa n off m a = m a"
proof -
  let ?p = "pa - int (off mod 512)" and ?s = "off div 512 + 1"
  have od: "off = off div 512 * 512 + off mod 512" by simp
  have b: "int ?s * 512 + (pa + int n - ?p) < 2 ^ 32"
  proof -
    have "int off = int (off div 512) * 512 + int (off mod 512)" by (simp add: of_nat_div of_nat_mod)
    then have "int ?s * 512 + (pa + int n - ?p) = int (off + n + 512)" unfolding of_nat_add of_nat_1 by (simp add: algebra_simps)
    also have "\<dots> < 2 ^ 32" using o by simp
    finally show ?thesis .
  qed
  show "readseg D pa n off m (pa + int i) = F ! (off + i)" if "i < n"
  proof -
    have k: "nat (pa + int i - ?p) = off mod 512 + i" by simp
    have dm: "(off + i) div 512 = off div 512 + (off mod 512 + i) div 512" "(off + i) mod 512 = (off mod 512 + i) mod 512"
      by (simp_all add: div_add1_eq[of off i] mod_simps) (simp add: div_add1_eq[of "off mod 512" i])
    have "readseg_loop D ?p (pa + int n) ?s m (pa + int i) = D 0 (?s + (off mod 512 + i) div 512) ! ((off mod 512 + i) mod 512)"
      using readseg_loop_at(1)[OF b, of "pa + int i"] that unfolding k by simp
    also have "\<dots> = D 0 (1 + (off + i) div 512) ! ((off + i) mod 512)" unfolding dm by simp
    also have "\<dots> = F ! (off + i)" using h that o(1) by (simp add: holds_def)
    finally show ?thesis by (simp add: readseg_def Let_def)
  qed
  show "a < ?p \<Longrightarrow> readseg D pa n off m a = m a" using readseg_loop_at(2)[OF b, of a] by (simp add: readseg_def Let_def)
qed

section \<open>The kernel file\<close>

text \<open>The file as a memory from address 0, and the fields of its headers.\<close>

definition fmem :: "byte list \<Rightarrow> memory" where
  "fmem F = (\<lambda>a. F ! nat a)"

definition seg_num :: "byte list \<Rightarrow> nat" where "seg_num F = le16 (fmem F) 44"
definition seg_hdr :: "byte list \<Rightarrow> nat \<Rightarrow> nat" where "seg_hdr F k = le32 (fmem F) 28 + 32 * k"
definition seg_off :: "byte list \<Rightarrow> nat \<Rightarrow> nat" where "seg_off F k = le32 (fmem F) (int (seg_hdr F k) + 4)"
definition seg_addr :: "byte list \<Rightarrow> nat \<Rightarrow> nat" where "seg_addr F k = le32 (fmem F) (int (seg_hdr F k) + 12)"
definition seg_filesz :: "byte list \<Rightarrow> nat \<Rightarrow> nat" where "seg_filesz F k = le32 (fmem F) (int (seg_hdr F k) + 16)"
definition seg_memsz :: "byte list \<Rightarrow> nat \<Rightarrow> nat" where "seg_memsz F k = le32 (fmem F) (int (seg_hdr F k) + 20)"

text \<open>The first byte that is written for a segment, which is rounded down to a sector of the file.\<close>

definition seg_start :: "byte list \<Rightarrow> nat \<Rightarrow> int" where
  "seg_start F k = int (seg_addr F k) - int (seg_off F k mod SECTSIZE)"

text \<open>The headers are in the first page and no segment reaches into the place they are read to; the segments are in increasing order.\<close>

definition loadable :: "byte list \<Rightarrow> bool" where
  "loadable F \<longleftrightarrow> 4096 \<le> length F \<and> length F < 2 ^ 31 \<and> seg_hdr F (seg_num F) \<le> 4096 \<and>
     (\<forall>k < seg_num F. seg_off F k + seg_filesz F k \<le> length F \<and> seg_filesz F k \<le> seg_memsz F k \<and> 0x11000 \<le> seg_start F k \<and>
        (k + 1 < seg_num F \<longrightarrow> int (seg_addr F k) + int (seg_memsz F k) \<le> seg_start F (k + 1)))"

lemma loadableD:
  assumes "loadable F"
  shows "4096 \<le> length F" "length F < 2 ^ 31" "seg_hdr F (seg_num F) \<le> 4096"
    "k < seg_num F \<Longrightarrow> seg_off F k + seg_filesz F k \<le> length F" "k < seg_num F \<Longrightarrow> seg_filesz F k \<le> seg_memsz F k"
    "k < seg_num F \<Longrightarrow> 0x11000 \<le> seg_start F k"
    "k + 1 < seg_num F \<Longrightarrow> int (seg_addr F k) + int (seg_memsz F k) \<le> seg_start F (k + 1)"
  using assms by (auto simp: loadable_def)

text \<open>The first page of the file is in memory at \<open>elf_base\<close>.\<close>

definition header_in :: "byte list \<Rightarrow> memory \<Rightarrow> bool" where
  "header_in F m \<longleftrightarrow> (\<forall>i < 4096. m (elf_base + int i) = F ! i)"

lemma header_le16: "header_in F m \<Longrightarrow> k + 2 \<le> 4096 \<Longrightarrow> le16 m (elf_base + int k) = le16 (fmem F) (int k)"
proof -
  assume h: "header_in F m" "k + 2 \<le> 4096"
  have e: "elf_base + int k + 1 = elf_base + int (k + 1)" "nat (int k + 1) = k + 1" by simp_all
  have "m (elf_base + int k) = F ! k" "m (elf_base + int (k + 1)) = F ! (k + 1)" using h by (simp_all only: header_in_def)
  then show "le16 m (elf_base + int k) = le16 (fmem F) (int k)" unfolding le16_def fmem_def e nat_int by simp
qed

lemma header_le32: "header_in F m \<Longrightarrow> k + 4 \<le> 4096 \<Longrightarrow> le32 m (elf_base + int k) = le32 (fmem F) (int k)"
proof -
  assume h: "header_in F m" "k + 4 \<le> 4096"
  have e: "elf_base + int k + 2 = elf_base + int (k + 2)" "int k + 2 = int (k + 2)" by simp_all
  have "k + 2 \<le> 4096" "k + 2 + 2 \<le> 4096" using h(2) by simp_all
  note this[THEN header_le16[OF h(1)]]
  then show "le32 m (elf_base + int k) = le32 (fmem F) (int k)" unfolding le32_def e by (simp only:)
qed

lemma header_mono: "header_in F m \<Longrightarrow> (\<And>a. a < elf_base + 4096 \<Longrightarrow> m' a = m a) \<Longrightarrow> header_in F m'"
  by (simp add: header_in_def)

definition seg_byte :: "byte list \<Rightarrow> nat \<Rightarrow> nat \<Rightarrow> byte" where
  "seg_byte F k i = (if i < seg_filesz F k then F ! (seg_off F k + i) else 0)"

lemma boot_loop_at:
  assumes D: "holds D F" and F: "loadable F"
  shows "k + n = seg_num F \<Longrightarrow> header_in F m \<Longrightarrow>
    (\<forall>j i. k \<le> j \<and> j < seg_num F \<and> i < seg_memsz F j \<longrightarrow> boot_loop D (elf_base + int (seg_hdr F k)) n m (int (seg_addr F j) + int i) = seg_byte F j i) \<and>
    (\<forall>a. n = 0 \<or> a < seg_start F k \<longrightarrow> boot_loop D (elf_base + int (seg_hdr F k)) n m a = m a)"
proof (induction n arbitrary: k m)
  case (Suc n)
  note L = loadableD[OF F]
  let ?h = "elf_base + int (seg_hdr F k)" and ?pa = "int (seg_addr F k)"
  have k: "k < seg_num F" using Suc.prems(1) by simp
  have "seg_hdr F (k + 1) \<le> seg_hdr F (seg_num F)" using k by (simp add: seg_hdr_def)
  then have hk: "seg_hdr F k + 32 \<le> 4096" using L(3) by (simp add: seg_hdr_def)
  have f: "le32 m (?h + 4) = seg_off F k" "le32 m (?h + 12) = seg_addr F k" "le32 m (?h + 16) = seg_filesz F k" "le32 m (?h + 20) = seg_memsz F k"
    using header_le32[OF Suc.prems(2), of "seg_hdr F k + 4"] header_le32[OF Suc.prems(2), of "seg_hdr F k + 12"]
      header_le32[OF Suc.prems(2), of "seg_hdr F k + 16"] header_le32[OF Suc.prems(2), of "seg_hdr F k + 20"] hk
    by (simp_all add: seg_off_def seg_addr_def seg_filesz_def seg_memsz_def add.assoc)
  define m1 where "m1 = readseg D ?pa (seg_filesz F k) (seg_off F k) m"
  define m2 where "m2 = (if seg_filesz F k < seg_memsz F k then stosb m1 (?pa + int (seg_filesz F k)) 0 (seg_memsz F k - seg_filesz F k) else m1)"
  note R = readseg_at[OF D L(4)[OF k] L(2), where pa = ?pa and m = m, folded m1_def]
  have nx: "?h + 32 = elf_base + int (seg_hdr F (k + 1))" by (simp add: seg_hdr_def)
  have b: "boot_loop D ?h (Suc n) m = boot_loop D (elf_base + int (seg_hdr F (k + 1))) n m2"
    unfolding nx[symmetric] by (simp add: Let_def f m1_def m2_def)
  have lo: "m2 a = m a" if "a < seg_start F k" for a
    using R(2)[of a] that by (simp add: m2_def stosb_def seg_start_def)
  have seg: "m2 (?pa + int i) = seg_byte F k i" if "i < seg_memsz F k" for i
    using R(1)[of i] that L(5)[OF k] by (auto simp: m2_def stosb_def seg_byte_def)
  have h2: "header_in F m2" by (rule header_mono[OF Suc.prems(2)]) (use lo L(6)[OF k] in \<open>simp add: elf_base_def\<close>)
  have "k + 1 + n = seg_num F" using Suc.prems(1) by simp
  note I = Suc.IH[OF this h2]
  show ?case
  proof (intro conjI allI impI)
    fix j i assume j: "k \<le> j \<and> j < seg_num F \<and> i < seg_memsz F j"
    show "boot_loop D ?h (Suc n) m (int (seg_addr F j) + int i) = seg_byte F j i"
    proof (cases "j = k")
      case True
      have "n = 0 \<or> ?pa + int i < seg_start F (k + 1)" using L(7)[of k] Suc.prems(1) j True by (cases n) auto
      then show ?thesis using I seg j True unfolding b by auto
    next
      case False
      then show ?thesis using I j unfolding b by simp
    qed
  next
    fix a assume a: "Suc n = 0 \<or> a < seg_start F k"
    have "n = 0 \<or> a < seg_start F (k + 1)"
      using L(7)[of k] Suc.prems(1) a by (cases n) (auto simp: seg_start_def)
    then have "boot_loop D (elf_base + int (seg_hdr F (k + 1))) n m2 a = m2 a" using I by blast
    then show "boot_loop D ?h (Suc n) m a = m a" unfolding b using lo a by simp
  qed
qed auto


section \<open>Example\<close>

text \<open>A disk with a file, and a file with one segment of three bytes, of five in memory, at 1 MB.\<close>

definition disk_of :: "byte list \<Rightarrow> disk" where
  "disk_of F = (\<lambda>d s. map (\<lambda>j. F ! (512 * (s - 1) + j)) [0..<512])"

lemma disk_of_holds: "holds (disk_of F) F"
  by (simp add: holds_def disk_of_def)

definition tiny_kernel :: "byte list" where
  "tiny_kernel =
     ([0x7F, 0x45, 0x4C, 0x46] @ replicate 20 0 @ [0xC, 0, 0x10, 0] @ [52, 0, 0, 0] @ replicate 12 0 @ [1, 0] @ replicate 6 0 @
      [1, 0, 0, 0] @ [0, 16, 0, 0] @ [0, 0, 0x10, 0] @ [0, 0, 0x10, 0] @ [3, 0, 0, 0] @ [5, 0, 0, 0]) @ replicate 4020 0 @ [7, 8, 9]"

lemma tiny_length: "length tiny_kernel = 4099"
  by (simp add: tiny_kernel_def)

lemma tiny_fields:
  "seg_num tiny_kernel = 1" "le32 (fmem tiny_kernel) 28 = 52" "le32 (fmem tiny_kernel) 0 = ELF_MAGIC" "le32 (fmem tiny_kernel) 24 = 0x10000C"
  "seg_off tiny_kernel 0 = 4096" "seg_addr tiny_kernel 0 = 0x100000" "seg_filesz tiny_kernel 0 = 3" "seg_memsz tiny_kernel 0 = 5"
proof -
  show p: "le32 (fmem tiny_kernel) 28 = 52" by (simp add: le32_def le16_def fmem_def tiny_kernel_def nth_append)
  show "seg_num tiny_kernel = 1" "le32 (fmem tiny_kernel) 0 = ELF_MAGIC" "le32 (fmem tiny_kernel) 24 = 0x10000C"
    by (simp_all add: seg_num_def le32_def le16_def fmem_def tiny_kernel_def nth_append)
  show "seg_off tiny_kernel 0 = 4096" "seg_addr tiny_kernel 0 = 0x100000" "seg_filesz tiny_kernel 0 = 3" "seg_memsz tiny_kernel 0 = 5"
    by (simp_all add: seg_off_def seg_addr_def seg_filesz_def seg_memsz_def seg_hdr_def p)
      (simp_all add: le32_def le16_def fmem_def tiny_kernel_def nth_append)
qed


end
