(* ===== verification/Uprog.thy ===== *)
theory Uprog
  imports Fs_Dir
begin

text \<open>
  Small user programs: \<open>wc.c\<close>, \<open>cat.c\<close>, \<open>cp.c\<close>, \<open>ls.c\<close>. What the system calls give is an argument: the pieces that \<open>read\<close> returns
  until it returns 0 or an error, the results of \<open>stat\<close>, the number of bytes \<open>write\<close> takes. Shown: \<open>wc\<close> counts lines,
  words and characters whatever the pieces are; \<open>ls\<close> prints the entries of the directory; \<open>cp\<close> writes the file under the name its argument asks for,
  or destroys its stack when that name is too long.
\<close>

section \<open>wc\<close>

text \<open>The test \<open>strchr(" \<bar>r\<bar>t\<bar>n\<bar>v", c)\<close>, which does not find a NUL.\<close>

definition space :: "byte \<Rightarrow> bool" where
  "space c \<longleftrightarrow> c \<in> {32, 13, 9, 10, 11}"

record counts =
  lns :: u32
  wds :: u32
  chs :: u32
  inword :: bool

definition wc_char :: "byte \<Rightarrow> counts \<Rightarrow> counts" where
  "wc_char b s =
     (let s1 = s\<lparr>chs := chs s + 1\<rparr>;
          s2 = (if b = 10 then s1\<lparr>lns := lns s1 + 1\<rparr> else s1)
      in if space b then s2\<lparr>inword := False\<rparr>
         else if \<not> inword s2 then s2\<lparr>wds := wds s2 + 1, inword := True\<rparr> else s2)"

text \<open>The pieces that \<open>read\<close> gives, and whether it ended with an error; the result is what is printed.\<close>

definition wc :: "byte list list \<Rightarrow> bool \<Rightarrow> (u32 \<times> u32 \<times> u32) option" where
  "wc pieces err =
     (let s = fold (\<lambda>p s. fold wc_char p s) pieces \<lparr>lns = 0, wds = 0, chs = 0, inword = False\<rparr>
      in if err then None else Some (lns s, wds s, chs s))"

text \<open>The words of a text: the longest pieces without white space.\<close>

function words :: "byte list \<Rightarrow> byte list list" where
  "words s =
     (case dropWhile space s of
        [] \<Rightarrow> []
      | c # t \<Rightarrow> takeWhile (\<lambda>b. \<not> space b) (c # t) # words (dropWhile (\<lambda>b. \<not> space b) t))"
  by pat_completeness auto
termination
proof (relation "measure length", simp)
  fix s :: "byte list" and c t
  assume "dropWhile space s = c # t"
  then have "length (c # t) \<le> length s" by (metis length_dropWhile_le)
  then show "(dropWhile (\<lambda>b. \<not> space b) t, s) \<in> measure length"
    using length_dropWhile_le[of "\<lambda>b. \<not> space b" t] by simp
qed

declare words.simps [simp del]

lemma words_Nil [simp]: "words [] = []"
  by (simp add: words.simps)

lemma words_space: "space b \<Longrightarrow> words (b # s) = words s"
  by (subst words.simps, subst (2) words.simps) simp

lemma words_char: "\<not> space b \<Longrightarrow> words (b # s) = (b # takeWhile (\<lambda>b. \<not> space b) s) # words (dropWhile (\<lambda>b. \<not> space b) s)"
  by (subst words.simps) simp

lemma words_in: "words (dropWhile (\<lambda>b. \<not> space b) (b # s)) = (if space b then words s else words (dropWhile (\<lambda>b. \<not> space b) s))"
  by (simp add: words_space)

lemma wc_char_sel:
  "lns (wc_char b st) = (if b = 10 then lns st + 1 else lns st)"
  "wds (wc_char b st) = (if \<not> space b \<and> \<not> inword st then wds st + 1 else wds st)"
  "chs (wc_char b st) = chs st + 1"
  "inword (wc_char b st) = (\<not> space b)"
  by (simp_all add: wc_char_def Let_def)

lemma wc_fold:
  "fold wc_char s st = \<lparr>lns = lns st + of_nat (count_list s 10),
     wds = wds st + of_nat (length (words (if inword st then dropWhile (\<lambda>b. \<not> space b) s else s))), chs = chs st + of_nat (length s),
     inword = (if s = [] then inword st else \<not> space (last s))\<rparr>"
proof (induction s arbitrary: st)
  case (Cons b s)
  have "length (words (if inword st then dropWhile (\<lambda>b. \<not> space b) (b # s) else b # s)) =
    (if \<not> space b \<and> \<not> inword st then 1 else 0) + length (words (if \<not> space b then dropWhile (\<lambda>b. \<not> space b) s else s))"
    by (simp add: words_space words_char)
  then show ?case by (simp add: Cons.IH wc_char_sel)
qed simp

lemma fold_pieces: "fold (\<lambda>p s. fold wc_char p s) pieces st = fold wc_char (concat pieces) st"
  by (induction pieces arbitrary: st) auto

text \<open>
  \<open>wc\<close> prints the numbers of newlines, of words and of bytes of the whole input (as 32-bit numbers), however \<open>read\<close> has cut it into pieces.
\<close>

theorem wc_correct:
  "wc pieces False = (let s = concat pieces in Some (of_nat (count_list s 10), of_nat (length (words s)), of_nat (length s)))"
  by (simp only: wc_def fold_pieces) (simp add: wc_fold Let_def)

section \<open>cat and cp\<close>

text \<open>The copying loop of \<open>cat\<close> and \<open>cp\<close>: \<open>w\<close> says how many bytes the next \<open>write\<close> takes; its result is not looked at.\<close>

fun copy_pieces :: "(nat \<Rightarrow> byte list \<Rightarrow> nat) \<Rightarrow> nat \<Rightarrow> byte list list \<Rightarrow> byte list" where
  "copy_pieces w k [] = []"
| "copy_pieces w k (p # ps) = take (w k p) p @ copy_pieces w (k + 1) ps"

text \<open>\<open>cat\<close>: what it wrote, and whether it prints its message.\<close>

definition cat :: "(nat \<Rightarrow> byte list \<Rightarrow> nat) \<Rightarrow> byte list list \<Rightarrow> bool \<Rightarrow> byte list \<times> bool" where
  "cat w pieces err = (copy_pieces w 0 pieces, err)"

fun last_slash :: "nat \<Rightarrow> byte list \<Rightarrow> nat" where
  "last_slash 0 s = 0"
| "last_slash (Suc i) s = (if s ! i = SLASH then Suc i else last_slash i s)"

text \<open>
  The name \<open>cp\<close> opens: its second argument, completed with the last element of the first one after a slash. It is put together in 128 bytes
  on the stack without a test.
\<close>

definition cp_dest :: "byte list \<Rightarrow> byte list \<Rightarrow> byte list kernel" where
  "cp_dest src dst =
     (if 128 \<le> length dst then panic ''com overflows''
      else if dst = [] then panic ''byte before argv[2]''
      else if last dst = SLASH then
        let com = dst @ drop (last_slash (length src) src) src
        in if 128 \<le> length com then panic ''com overflows'' else Inr com
      else Inr dst)"

lemma last_slash_spec: "i \<le> length s \<Longrightarrow> SLASH \<notin> set (drop (last_slash i s) (take i s)) \<and> (last_slash i s = 0 \<or> s ! (last_slash i s - 1) = SLASH) \<and> last_slash i s \<le> i"
proof (induction i)
  case (Suc i)
  have t: "take (Suc i) s = take i s @ [s ! i]" using Suc.prems by (intro take_Suc_conv_app_nth) simp
  show ?case using Suc by (cases "s ! i = SLASH") (auto simp: t)
qed simp

text \<open>
  The name \<open>cp\<close> opens, when it and the second argument have less than 128 bytes: the second argument, or after a slash the second argument
  followed by the last element of the first; otherwise the buffer on the stack overflows.
\<close>

theorem cp_dest_correct:
  assumes "dst \<noteq> []" "src = dir @ name" "SLASH \<notin> set name" "dir = [] \<or> last dir = SLASH"
  shows "cp_dest src dst =
    (let com = (if last dst = SLASH then dst @ name else dst) in if length com < 128 then Inr com else panic ''com overflows'')"
proof -
  have "last_slash (length dir + n) src = length dir" if "n \<le> length name" for n using that
  proof (induction n)
    case 0
    then show ?case using assms(2,4) by (cases dir rule: rev_cases) (auto simp: nth_append)
  next
    case (Suc n)
    have "src ! (length dir + n) = name ! n" using assms(2) by (simp add: nth_append)
    moreover have "name ! n \<noteq> SLASH" using assms(3) Suc.prems by (auto simp: in_set_conv_nth)
    ultimately show ?case using Suc by simp
  qed
  from this[of "length name"] have "drop (last_slash (length src) src) src = name" using assms(2) by simp
  then show ?thesis using assms(1) by (auto simp: cp_dest_def Let_def)
qed

theorem cp_dest_correct_witness: "cp_dest [97, SLASH, 98] [100, SLASH] = Inr [100, SLASH, 98]"
  using cp_dest_correct[of "[100, SLASH]" "[97, SLASH, 98]" "[97, SLASH]" "[98]"] by (simp add: Let_def)

section \<open>ls\<close>

text \<open>\<open>fmtname\<close>: the last element, filled up with blanks to 14 bytes.\<close>

definition fmtname :: "byte list \<Rightarrow> byte list" where
  "fmtname path =
     (let p = drop (last_slash (length path) path) path
      in if DIRSIZ \<le> length p then p else p @ replicate (DIRSIZ - length p) 32)"

datatype ls_line = Line "byte list" stat | CannotStat "byte list" | TooLong | CannotOpen

text \<open>The loop over the entries of a directory; \<open>st\<close> is what \<open>stat\<close> gives for a path.\<close>

fun ls_entries :: "(byte list \<Rightarrow> stat option) \<Rightarrow> byte list \<Rightarrow> byte list list \<Rightarrow> ls_line list" where
  "ls_entries st path [] = []"
| "ls_entries st path (de # des) =
     (if length de \<noteq> 16 then []
      else if de_inum de = 0 then ls_entries st path des
      else let buf = path @ [SLASH] @ cname (de_name de)
           in (case st buf of None \<Rightarrow> CannotStat buf | Some t \<Rightarrow> Line (fmtname buf) t) # ls_entries st path des)"

text \<open>\<open>ls\<close> of a path; the entries are the pieces of 16 bytes that \<open>read\<close> gives.\<close>

definition ls :: "(byte list \<Rightarrow> stat option) \<Rightarrow> byte list \<Rightarrow> byte list list \<Rightarrow> ls_line list" where
  "ls st path des =
     (case st path of
        None \<Rightarrow> [CannotOpen]
      | Some t \<Rightarrow>
          if st_type t = T_FILE then [Line (fmtname path) t]
          else if st_type t = T_DIR then if 512 < length path + 1 + DIRSIZ + 1 then [TooLong] else ls_entries st path des
          else [])"

lemma fmtname_app:
  assumes "SLASH \<notin> set name"
  shows "fmtname (path @ [SLASH] @ name) = (if DIRSIZ \<le> length name then name else name @ replicate (DIRSIZ - length name) 32)"
proof -
  have "last_slash (length path + 1 + n) (path @ [SLASH] @ name) = length path + 1" if "n \<le> length name" for n using that
  proof (induction n)
    case (Suc n)
    have "name ! n \<noteq> SLASH" using assms Suc.prems by (auto simp: in_set_conv_nth)
    then show ?case using Suc by (simp add: nth_append)
  qed (simp add: nth_append)
  from this[of "length name"] show ?thesis by (simp add: fmtname_def)
qed

text \<open>
  \<open>ls\<close> of a directory prints one line for every entry in use, in the order of the entries: its name filled up with blanks to
  14 bytes, and what \<open>stat\<close> says of it, when the names have no slash and \<open>stat\<close> succeeds.
\<close>

theorem ls_directory:
  assumes "st path = Some t" "st_type t = T_DIR" "length path \<le> 496" "\<forall>de \<in> set des. length de = 16 \<and> SLASH \<notin> set (cname (de_name de))"
    "\<forall>de \<in> set des. st (path @ [SLASH] @ cname (de_name de)) = Some (f de)"
  shows "ls st path des = map (\<lambda>de. Line (cname (de_name de) @ replicate (DIRSIZ - length (cname (de_name de))) 32) (f de)) (filter (\<lambda>de. de_inum de \<noteq> 0) des)"
proof -
  have td: "(T_DIR :: u16) \<noteq> T_FILE" by simp
  have "ls_entries st path des = map (\<lambda>de. Line (cname (de_name de) @ replicate (DIRSIZ - length (cname (de_name de))) 32) (f de)) (filter (\<lambda>de. de_inum de \<noteq> 0) des)"
    using assms(4,5)
  proof (induction des)
    case (Cons de des)
    have "length (cname (de_name de)) \<le> DIRSIZ" by (simp add: cname_def) (metis length_takeWhile_le length_take min.bounded_iff nle_le)
    then show ?case using Cons fmtname_app[of "cname (de_name de)" path] by (auto simp: Let_def)
  qed simp
  then show ?thesis using assms(1-3) td by (simp add: ls_def)
qed

end
