(* ===== verification/Proc_Inv.thy ===== *)
theory Proc_Inv
  imports Sysfile
begin

text \<open>
  Invariants of the process table and of the file table, kept by every step of every process:
  process ids are unique, every process but \<open>init\<close> has a live parent, no parent sleeps in \<open>wait\<close> while
  it has a zombie child, and the reference count of every open file is the number of descriptors
  that refer to it.
\<close>

section \<open>The invariants\<close>

definition alive :: "procstate \<Rightarrow> bool" where
  "alive st \<longleftrightarrow> st = SLEEPING \<or> st = RUNNABLE \<or> st = RUNNING"

definition entries_ok :: "'d kern \<Rightarrow> bool" where
  "entries_ok k \<longleftrightarrow> length (ptable k) = NPROC \<and> initproc k < NPROC \<and> alive (p_state (ptable k ! initproc k)) \<and> 0 < nextpid k \<and>
     (\<forall>i < NPROC. p_state (ptable k ! i) \<noteq> EMBRYO \<and> length (p_ofile (ptable k ! i)) = NOFILE \<and>
        (p_state (ptable k ! i) = UNUSED \<longrightarrow> p_parent (ptable k ! i) = None) \<and>
        (p_state (ptable k ! i) \<in> {UNUSED, ZOMBIE} \<longrightarrow> p_ofile (ptable k ! i) = replicate NOFILE None))"

definition pids_ok :: "'d kern \<Rightarrow> bool" where
  "pids_ok k \<longleftrightarrow>
     (\<forall>i < NPROC. 0 \<le> p_pid (ptable k ! i) \<and> p_pid (ptable k ! i) < nextpid k \<and>
        (p_state (ptable k ! i) \<noteq> UNUSED \<longrightarrow> 0 < p_pid (ptable k ! i))) \<and>
     (\<forall>i < NPROC. \<forall>j < NPROC. i \<noteq> j \<and> p_pid (ptable k ! i) = p_pid (ptable k ! j) \<longrightarrow> p_pid (ptable k ! i) = 0)"

definition parents_ok :: "'d kern \<Rightarrow> bool" where
  "parents_ok k \<longleftrightarrow>
     (\<forall>i < NPROC. p_state (ptable k ! i) \<noteq> UNUSED \<and> i \<noteq> initproc k \<longrightarrow> p_parent (ptable k ! i) \<noteq> None) \<and>
     (\<forall>i < NPROC. \<forall>q. p_parent (ptable k ! i) = Some q \<longrightarrow> q < NPROC \<and> q \<noteq> i \<and> alive (p_state (ptable k ! q))) \<and>
     p_parent (ptable k ! initproc k) = None"

definition no_lost_exit :: "'d kern \<Rightarrow> bool" where
  "no_lost_exit k \<longleftrightarrow>
     (\<forall>q < NPROC. \<forall>i < NPROC. p_state (ptable k ! q) = SLEEPING \<and> p_chan (ptable k ! q) = ProcChan q \<and>
        p_parent (ptable k ! i) = Some q \<longrightarrow> p_state (ptable k ! i) \<noteq> ZOMBIE)"

text \<open>The number of descriptors on a file; \<open>e\<close> counts references held by code in progress.\<close>

definition descriptors :: "'d kern \<Rightarrow> nat \<Rightarrow> nat" where
  "descriptors k f = sum_list (map (\<lambda>p. count_list (p_ofile p) (Some f)) (ptable k))"

definition refs_ok :: "(nat \<Rightarrow> int) \<Rightarrow> 'd kern \<Rightarrow> bool" where
  "refs_ok e k \<longleftrightarrow> length (ftable k) = NFILE \<and>
     (\<forall>f < NFILE. f_ref (ftable k ! f) = int (descriptors k f) + e f) \<and>
     (\<forall>p \<in> set (ptable k). \<forall>f. Some f \<in> set (p_ofile p) \<longrightarrow> f < NFILE)"

definition table_ok :: "'d kern \<Rightarrow> bool" where
  "table_ok k \<longleftrightarrow> entries_ok k \<and> pids_ok k \<and> parents_ok k \<and> no_lost_exit k"

lemma table_ok_fields:
  assumes "ptable k' = ptable k" "initproc k' = initproc k" "nextpid k' = nextpid k"
  shows "table_ok k' = table_ok k"
  by (simp add: table_ok_def entries_ok_def pids_ok_def parents_ok_def no_lost_exit_def assms)

lemma refs_ok_fields: "ptable k' = ptable k \<Longrightarrow> ftable k' = ftable k \<Longrightarrow> refs_ok e k' = refs_ok e k"
  by (simp add: refs_ok_def descriptors_def)

lemma table_ok_upd [simp]:
  "table_ok (k\<lparr>fs := s\<rparr>) = table_ok k" "table_ok (k\<lparr>ftable := ft\<rparr>) = table_ok k" "table_ok (k\<lparr>pipes := pp\<rparr>) = table_ok k"
  "table_ok (k\<lparr>ticks := t\<rparr>) = table_ok k"
  by (rule table_ok_fields; simp)+

lemma refs_ok_upd [simp]:
  "refs_ok e (k\<lparr>fs := s\<rparr>) = refs_ok e k" "refs_ok e (k\<lparr>pipes := pp\<rparr>) = refs_ok e k" "refs_ok e (k\<lparr>ticks := t\<rparr>) = refs_ok e k"
  "refs_ok e (k\<lparr>nextpid := n\<rparr>) = refs_ok e k" "refs_ok e (k\<lparr>initproc := m\<rparr>) = refs_ok e k"
  by (rule refs_ok_fields; simp)+

lemma table_okD:
  assumes "table_ok k"
  shows "length (ptable k) = NPROC" "initproc k < NPROC" "alive (p_state (ptable k ! initproc k))" "0 < nextpid k"
    "i < NPROC \<Longrightarrow> p_state (ptable k ! i) \<noteq> EMBRYO" "i < NPROC \<Longrightarrow> length (p_ofile (ptable k ! i)) = NOFILE"
    "i < NPROC \<Longrightarrow> p_state (ptable k ! i) = UNUSED \<Longrightarrow> p_parent (ptable k ! i) = None"
    "i < NPROC \<Longrightarrow> p_state (ptable k ! i) \<in> {UNUSED, ZOMBIE} \<Longrightarrow> p_ofile (ptable k ! i) = replicate NOFILE None"
    "i < NPROC \<Longrightarrow> p_parent (ptable k ! i) = Some q \<Longrightarrow> q < NPROC \<and> q \<noteq> i \<and> alive (p_state (ptable k ! q))"
    "i < NPROC \<Longrightarrow> p_pid (ptable k ! i) < nextpid k" "i < NPROC \<Longrightarrow> 0 \<le> p_pid (ptable k ! i)"
    "p_parent (ptable k ! initproc k) = None"
  using assms unfolding table_ok_def entries_ok_def pids_ok_def parents_ok_def by blast+

lemma pids_distinct:
  "table_ok k \<Longrightarrow> i < NPROC \<Longrightarrow> j < NPROC \<Longrightarrow> i \<noteq> j \<Longrightarrow> p_pid (ptable k ! i) = p_pid (ptable k ! j) \<Longrightarrow> p_pid (ptable k ! i) = 0"
  "table_ok k \<Longrightarrow> i < NPROC \<Longrightarrow> p_state (ptable k ! i) \<noteq> UNUSED \<Longrightarrow> 0 < p_pid (ptable k ! i)"
  "table_ok k \<Longrightarrow> i < NPROC \<Longrightarrow> p_state (ptable k ! i) \<noteq> UNUSED \<Longrightarrow> i \<noteq> initproc k \<Longrightarrow> p_parent (ptable k ! i) \<noteq> None"
  unfolding table_ok_def pids_ok_def parents_ok_def by blast+

section \<open>Wake-ups\<close>

text \<open>Two states that differ in the process table only by sleepers woken.\<close>

definition woken :: "'d kern \<Rightarrow> 'd kern \<Rightarrow> bool" where
  "woken k k' \<longleftrightarrow> length (ptable k') = length (ptable k) \<and> initproc k' = initproc k \<and> nextpid k' = nextpid k \<and>
     (\<forall>i < length (ptable k). ptable k' ! i = ptable k ! i \<or>
        p_state (ptable k ! i) = SLEEPING \<and> ptable k' ! i = (ptable k ! i)\<lparr>p_state := RUNNABLE\<rparr>)"

lemma wokenI: "ptable k' = ptable k \<Longrightarrow> initproc k' = initproc k \<Longrightarrow> nextpid k' = nextpid k \<Longrightarrow> woken k k'"
  by (simp add: woken_def)

lemma woken_trans: "woken k k1 \<Longrightarrow> woken k1 k2 \<Longrightarrow> woken k k2"
proof -
  assume a: "woken k k1" "woken k1 k2"
  have "ptable k2 ! i = ptable k ! i \<or> p_state (ptable k ! i) = SLEEPING \<and> ptable k2 ! i = (ptable k ! i)\<lparr>p_state := RUNNABLE\<rparr>"
    if "i < length (ptable k)" for i
    using a that unfolding woken_def by fastforce
  then show "woken k k2" using a by (simp add: woken_def)
qed

lemma woken_wakeup1: "woken k (wakeup1 ch k)"
  by (auto simp: woken_def wakeup1_def)

lemma wokenD:
  assumes "woken k k'" "i < length (ptable k)"
  shows "p_parent (ptable k' ! i) = p_parent (ptable k ! i)" "p_pid (ptable k' ! i) = p_pid (ptable k ! i)"
    "p_ofile (ptable k' ! i) = p_ofile (ptable k ! i)" "p_chan (ptable k' ! i) = p_chan (ptable k ! i)"
    "p_cwd (ptable k' ! i) = p_cwd (ptable k ! i)" "p_killed (ptable k' ! i) = p_killed (ptable k ! i)"
    "p_state (ptable k' ! i) = p_state (ptable k ! i) \<or> p_state (ptable k ! i) = SLEEPING \<and> p_state (ptable k' ! i) = RUNNABLE"
proof -
  from assms have "ptable k' ! i = ptable k ! i \<or>
      p_state (ptable k ! i) = SLEEPING \<and> ptable k' ! i = (ptable k ! i)\<lparr>p_state := RUNNABLE\<rparr>" by (simp add: woken_def)
  then show "p_parent (ptable k' ! i) = p_parent (ptable k ! i)" "p_pid (ptable k' ! i) = p_pid (ptable k ! i)"
    "p_ofile (ptable k' ! i) = p_ofile (ptable k ! i)" "p_chan (ptable k' ! i) = p_chan (ptable k ! i)"
    "p_cwd (ptable k' ! i) = p_cwd (ptable k ! i)" "p_killed (ptable k' ! i) = p_killed (ptable k ! i)"
    "p_state (ptable k' ! i) = p_state (ptable k ! i) \<or> p_state (ptable k ! i) = SLEEPING \<and> p_state (ptable k' ! i) = RUNNABLE" by auto
qed

text \<open>Changes of single entries that keep what the invariants are about; states may move between the live ones.\<close>

definition tame_proc :: "nat \<Rightarrow> proc \<Rightarrow> proc \<Rightarrow> bool" where
  "tame_proc i p p' \<longleftrightarrow> p_parent p' = p_parent p \<and> p_pid p' = p_pid p \<and>
     (p_state p' = p_state p \<or> alive (p_state p) \<and> alive (p_state p')) \<and>
     (length (p_ofile p) = NOFILE \<longrightarrow> length (p_ofile p') = NOFILE) \<and>
     (\<not> alive (p_state p) \<longrightarrow> p_ofile p' = p_ofile p) \<and>
     (p_state p' = SLEEPING \<and> p_chan p' = ProcChan i \<longrightarrow> p_state p = SLEEPING \<and> p_chan p = ProcChan i)"

definition tame :: "'d kern \<Rightarrow> 'd kern \<Rightarrow> bool" where
  "tame k k' \<longleftrightarrow> length (ptable k') = length (ptable k) \<and> initproc k' = initproc k \<and> nextpid k' = nextpid k \<and>
     (\<forall>i < length (ptable k). tame_proc i (ptable k ! i) (ptable k' ! i))"

lemma tame_proc_refl [simp]: "tame_proc i p p"
  by (simp add: tame_proc_def)

lemma tame_proc_trans: "tame_proc i p q \<Longrightarrow> tame_proc i q r \<Longrightarrow> tame_proc i p r"
  unfolding tame_proc_def by metis

lemma tame_refl: "ptable k' = ptable k \<Longrightarrow> initproc k' = initproc k \<Longrightarrow> nextpid k' = nextpid k \<Longrightarrow> tame k k'"
  by (simp add: tame_def)

lemma tame_trans: "tame k k1 \<Longrightarrow> tame k1 k2 \<Longrightarrow> tame k k2"
  unfolding tame_def using tame_proc_trans by metis

lemma alive_cases: "\<not> alive st \<longleftrightarrow> st \<in> {UNUSED, EMBRYO, ZOMBIE}"
  by (cases st) (auto simp: alive_def)

lemma alive_simps [simp]: "alive SLEEPING" "alive RUNNABLE" "alive RUNNING" "\<not> alive UNUSED" "\<not> alive ZOMBIE" "\<not> alive EMBRYO"
  by (simp_all add: alive_def)

lemma tame_table:
  assumes "tame k k'" "table_ok k"
  shows "table_ok k'"
proof -
  note d = table_okD[OF assms(2)]
  have t: "length (ptable k') = 64" "initproc k' = initproc k" "nextpid k' = nextpid k" using assms d(1) by (auto simp: tame_def)
  have e: "p_parent (ptable k' ! i) = p_parent (ptable k ! i)" "p_pid (ptable k' ! i) = p_pid (ptable k ! i)"
    "p_state (ptable k' ! i) = p_state (ptable k ! i) \<or> alive (p_state (ptable k ! i)) \<and> alive (p_state (ptable k' ! i))"
    "length (p_ofile (ptable k' ! i)) = NOFILE" "\<not> alive (p_state (ptable k ! i)) \<longrightarrow> p_ofile (ptable k' ! i) = p_ofile (ptable k ! i)"
    "p_state (ptable k' ! i) = SLEEPING \<and> p_chan (ptable k' ! i) = ProcChan i \<longrightarrow>
       p_state (ptable k ! i) = SLEEPING \<and> p_chan (ptable k ! i) = ProcChan i" if "i < 64" for i
    using assms(1) d(1) d(6)[OF that] that by (auto simp: tame_def tame_proc_def)
  have al: "alive (p_state (ptable k' ! i)) = alive (p_state (ptable k ! i))" if "i < 64" for i using e(3)[OF that] by auto
  have st: "p_state (ptable k' ! i) = x \<longleftrightarrow> p_state (ptable k ! i) = x" if "i < 64" "\<not> alive x" for i x using e(3)[OF that(1)] that(2) by auto
  have "entries_ok k'"
    unfolding entries_ok_def t(2,3) using t(1) d(2-4) e(1,4,5) al st d(5,7,8) by simp
  moreover have "pids_ok k'"
    using assms(2) e(2) st by (simp add: table_ok_def pids_ok_def t)
  moreover have "parents_ok k'"
    unfolding parents_ok_def t(2)
  proof (intro conjI allI impI)
    show "p_parent (ptable k' ! initproc k) = None" using e(1)[OF d(2)] d(12) by simp
  next
    fix i assume "i < 64" "p_state (ptable k' ! i) \<noteq> UNUSED \<and> i \<noteq> initproc k"
    then show "p_parent (ptable k' ! i) \<noteq> None" using e(1)[of i] st[of i UNUSED] pids_distinct(3)[OF assms(2), of i] by simp
  next
    fix i q assume "i < 64" "p_parent (ptable k' ! i) = Some q"
    then have "q < 64 \<and> q \<noteq> i \<and> alive (p_state (ptable k ! q))" using e(1)[of i] d(9)[of i q] by simp
    then show "q < 64" "q \<noteq> i" "alive (p_state (ptable k' ! q))" using al[of q] by simp_all
  qed
  moreover have "no_lost_exit k'"
    using assms(2) e(1,6) st by (simp add: table_ok_def no_lost_exit_def)
  ultimately show ?thesis by (simp add: table_ok_def)
qed

lemma woken_tame: "woken k k' \<Longrightarrow> tame k k'"
  unfolding tame_def tame_proc_def using wokenD[of k k'] by (auto simp: woken_def)

lemma tame_upd: "i < length (ptable k) \<Longrightarrow> tame_proc i (ptable k ! i) (g (ptable k ! i)) \<Longrightarrow> tame k (upd_proc i g k)"
  by (auto simp: tame_def nth_list_update)

section \<open>References\<close>

lemma refs_ok_ofiles:
  fixes k k' :: "'a kern"
  assumes "map p_ofile (ptable k') = map p_ofile (ptable k)" "ftable k' = ftable k"
  shows "refs_ok e k' = refs_ok e k"
proof -
  have d: "descriptors k'' = (\<lambda>f. sum_list (map (\<lambda>os. count_list os (Some f)) (map p_ofile (ptable k''))))" for k'' :: "'a kern"
    by (simp add: descriptors_def comp_def fun_eq_iff)
  have "descriptors k' = descriptors k" using d[of k] d[of k'] assms(1) by metis
  moreover have "p_ofile ` set (ptable k') = p_ofile ` set (ptable k)" using assms(1) by (metis list.set_map)
  then have "(\<forall>p \<in> set (ptable k'). \<forall>f. Some f \<in> set (p_ofile p) \<longrightarrow> f < NFILE) \<longleftrightarrow>
    (\<forall>p \<in> set (ptable k). \<forall>f. Some f \<in> set (p_ofile p) \<longrightarrow> f < NFILE)"
    by (metis (no_types, lifting) image_iff)
  ultimately show ?thesis unfolding refs_ok_def assms(2) by simp
qed

lemma woken_refs: "woken k k' \<Longrightarrow> ftable k' = ftable k \<Longrightarrow> refs_ok e k' = refs_ok e k"
  by (rule refs_ok_ofiles) (auto simp: list_eq_iff_nth_eq woken_def)

lemma refs_ok_upd_proc:
  "i < length (ptable k) \<Longrightarrow> p_ofile (g (ptable k ! i)) = p_ofile (ptable k ! i) \<Longrightarrow> refs_ok e (upd_proc i g k) = refs_ok e k"
  by (rule refs_ok_ofiles) (auto simp: list_eq_iff_nth_eq nth_list_update)

lemma count_list_update:
  "i < length xs \<Longrightarrow> int (count_list (xs[i := v]) x) = int (count_list xs x) - (if xs ! i = x then 1 else 0) + (if v = x then 1 else 0)"
proof (induction xs arbitrary: i)
  case (Cons y ys)
  show ?case
  proof (cases i)
    case (Suc j)
    then show ?thesis using Cons.IH[of j] Cons.prems by (auto split: if_splits)
  qed simp
qed simp

lemma sum_list_map_update:
  "i < length xs \<Longrightarrow> int (sum_list (map h (xs[i := v]))) = int (sum_list (map h xs)) - int (h (xs ! i)) + int (h v)"
proof (induction xs arbitrary: i)
  case (Cons y ys)
  then show ?case by (cases i) auto
qed simp

lemma descriptors_set_fd:
  assumes "i < length (ptable k)" "fd < length (p_ofile (ptable k ! i))"
  shows "int (descriptors (upd_proc i (\<lambda>p. p\<lparr>p_ofile := (p_ofile p)[fd := v]\<rparr>) k) f) =
    int (descriptors k f) - (if p_ofile (ptable k ! i) ! fd = Some f then 1 else 0) + (if v = Some f then 1 else 0)"
  unfolding descriptors_def using sum_list_map_update[OF assms(1)] count_list_update[OF assms(2)] by simp

text \<open>A reference moves between a descriptor and the code in progress.\<close>

lemma refs_ok_store:
  assumes "refs_ok e k" "i < length (ptable k)" "fd < length (p_ofile (ptable k ! i))" "p_ofile (ptable k ! i) ! fd = None" "f < NFILE"
  shows "refs_ok (e(f := e f - 1)) (upd_proc i (\<lambda>p. p\<lparr>p_ofile := (p_ofile p)[fd := Some f]\<rparr>) k)"
proof -
  have "Some g \<in> set ((p_ofile (ptable k ! i))[fd := Some f]) \<Longrightarrow> g < NFILE" for g
    using set_update_subset_insert[of "p_ofile (ptable k ! i)" fd "Some f"] assms(1,2,5) by (force simp: refs_ok_def)
  moreover have "p \<in> set ((ptable k)[i := x]) \<Longrightarrow> p = x \<or> p \<in> set (ptable k)" for p x
    using set_update_subset_insert[of "ptable k" i x] by blast
  ultimately show ?thesis
    using assms descriptors_set_fd[OF assms(2,3), of "Some f"] unfolding refs_ok_def by fastforce
qed

lemma refs_ok_clear:
  assumes "refs_ok e k" "i < length (ptable k)" "fd < length (p_ofile (ptable k ! i))" "p_ofile (ptable k ! i) ! fd = Some f"
  shows "refs_ok (e(f := e f + 1)) (clear_fd i fd k)" "f < NFILE"
proof -
  show f: "f < NFILE" using assms nth_mem[OF assms(3)] nth_mem[OF assms(2)] by (auto simp: refs_ok_def)
  have "Some g \<in> set ((p_ofile (ptable k ! i))[fd := None]) \<Longrightarrow> g < NFILE" for g
    using set_update_subset_insert[of "p_ofile (ptable k ! i)" fd "None"] assms(1,2) by (force simp: refs_ok_def)
  moreover have "p \<in> set ((ptable k)[i := x]) \<Longrightarrow> p = x \<or> p \<in> set (ptable k)" for p x
    using set_update_subset_insert[of "ptable k" i x] by blast
  ultimately show "refs_ok (e(f := e f + 1)) (clear_fd i fd k)"
    using assms descriptors_set_fd[OF assms(2,3), of None] unfolding refs_ok_def clear_fd_def by fastforce
qed

lemma refs_ok_ref:
  assumes "refs_ok e k" "f < NFILE" "f_ref x = f_ref (ftable k ! f) + d"
  shows "refs_ok (e(f := e f + d)) (k\<lparr>ftable := (ftable k)[f := x]\<rparr>)"
  using assms by (auto simp: refs_ok_def descriptors_def nth_list_update)

lemma filealloc_ok:
  assumes "filealloc k = (Some f, k')" "refs_ok e k"
  shows "f < NFILE" "f_ref (ftable k ! f) = 0" "refs_ok (e(f := e f + 1)) k'" "k' = upd_file f (\<lambda>x. x\<lparr>f_ref := 1\<rparr>) k"
proof -
  have L: "length (ftable k) = 100" using assms(2) by (simp add: refs_ok_def)
  obtain g where fd: "List.find (\<lambda>f. f_ref (ftable k ! f) = 0) [0..<length (ftable k)] = Some g"
    using assms(1) by (auto simp: filealloc_def split: option.splits)
  with assms(1) have g: "g = f" "f < 100" "f_ref (ftable k ! f) = 0" "k' = upd_file f (\<lambda>x. x\<lparr>f_ref := 1\<rparr>) k"
    using L fd[unfolded find_upt_Some] by (auto simp: filealloc_def fd)
  then show "f < NFILE" "f_ref (ftable k ! f) = 0" "k' = upd_file f (\<lambda>x. x\<lparr>f_ref := 1\<rparr>) k" by simp_all
  show "refs_ok (e(f := e f + 1)) k'" unfolding g(4) by (rule refs_ok_ref[OF assms(2)]) (use g in simp_all)
qed

lemma filedup_ok:
  assumes "filedup f k = Inr k'" "refs_ok e k" "f < NFILE"
  shows "refs_ok (e(f := e f + 1)) k'" "ptable k' = ptable k" "initproc k' = initproc k" "nextpid k' = nextpid k" "fs k' = fs k"
    "pipes k' = pipes k"
  using assms refs_ok_ref[OF assms(2,3), of "(ftable k ! f)\<lparr>f_ref := f_ref (ftable k ! f) + 1\<rparr>" 1]
  by (auto simp: filedup_def split: if_splits)

lemma do_fs_Inr: "do_fs g k = Inr k' \<Longrightarrow> \<exists>s. k' = k\<lparr>fs := s\<rparr>"
  by (auto simp: do_fs_def kbind_Inr)

lemma in_fs_Inr: "in_fs g k = Inr (a, k') \<Longrightarrow> \<exists>s. k' = k\<lparr>fs := s\<rparr>"
  by (auto simp: in_fs_def kbind_Inr)

lemma close_pipe_woken: "close_pipe i w k = Inr k' \<Longrightarrow> woken k k' \<and> ftable k' = ftable k"
proof -
  assume h: "close_pipe i w k = Inr k'"
  then obtain p where p: "pipes k i = Some p" by (auto simp: close_pipe_def split: option.splits)
  obtain p' wr ww free where pc: "pipeclose p w = (p', wr, ww, free)" by (cases "pipeclose p w")
  let ?k1 = "if wr then wakeup (PipeRead i) k else k" and ?k2 = "\<lambda>k1. if ww then wakeup (PipeWrite i) k1 else k1"
  have k': "k' = (?k2 ?k1)\<lparr>pipes := (pipes (?k2 ?k1))(i := if free then None else Some p')\<rparr>"
    using h p pc by (simp add: close_pipe_def Let_def)
  have w1: "woken k ?k1" using woken_wakeup1[of k] by (simp add: wakeup_def wokenI)
  have w2: "woken k1 (?k2 k1)" for k1 :: "'a kern" using woken_wakeup1[of k1] by (simp add: wakeup_def wokenI)
  have "woken (?k2 ?k1) k'" unfolding k' by (rule wokenI) simp_all
  then have "woken k k'" using woken_trans w1 w2 by blast
  moreover have "ftable k' = ftable k" unfolding k' by (simp add: wakeup_def wakeup1_def)
  ultimately show ?thesis by blast
qed

lemma fileclose_ok:
  assumes "fileclose f k = Inr k'" "refs_ok e k" "f < NFILE"
  shows "woken k k' \<and> refs_ok (e(f := e f - 1)) k'"
proof -
  let ?ff = "ftable k ! f"
  have ref: "1 \<le> f_ref ?ff" using assms(1) by (auto simp: fileclose_def Let_def split: if_splits)
  show ?thesis
  proof (cases "1 < f_ref ?ff")
    case True
    then have "k' = upd_file f (\<lambda>x. x\<lparr>f_ref := f_ref x - 1\<rparr>) k" using assms(1) ref by (simp add: fileclose_def Let_def)
    then show ?thesis using refs_ok_ref[OF assms(2,3), of "?ff\<lparr>f_ref := f_ref ?ff - 1\<rparr>" "-1"] by (simp add: wokenI)
  next
    case False
    define k1 where "k1 = upd_file f (\<lambda>x. x\<lparr>f_ref := 0, f_type := FD_NONE\<rparr>) k"
    have r1: "refs_ok (e(f := e f - 1)) k1"
      using refs_ok_ref[OF assms(2,3), of "?ff\<lparr>f_ref := 0, f_type := FD_NONE\<rparr>" "-1"] False ref by (simp add: k1_def)
    have w1: "woken k k1" by (simp add: wokenI k1_def)
    have "woken k1 k' \<and> refs_ok (e(f := e f - 1)) k'"
    proof (cases "f_type ?ff")
      case FD_NONE
      then have "k' = k1" using assms(1) False ref by (simp add: fileclose_def Let_def k1_def)
      then show ?thesis using r1 by (simp add: wokenI)
    next
      case FD_PIPE
      then have "close_pipe (f_pipe ?ff) (f_writable ?ff) k1 = Inr k'" using assms(1) False ref by (simp add: fileclose_def Let_def k1_def)
      then show ?thesis using close_pipe_woken woken_refs r1 by blast
    next
      case FD_INODE
      then obtain k2 k3 where "do_fs fs_begin_op k1 = Inr k2" "do_fs (iput (f_ip ?ff)) k2 = Inr k3" "do_fs fs_end_op k3 = Inr k'"
        using assms(1) False ref by (auto simp: fileclose_def Let_def k1_def kbind_Inr)
      then obtain s where "k' = k1\<lparr>fs := s\<rparr>" by (auto dest!: do_fs_Inr)
      then show ?thesis using r1 by (simp add: wokenI)
    qed
    then show ?thesis using w1 woken_trans by blast
  qed
qed

section \<open>Process operations\<close>

lemma dispatch_tame: "dispatch i k = Some k' \<Longrightarrow> i < length (ptable k) \<Longrightarrow> tame k k' \<and> (refs_ok e k' = refs_ok e k)"
proof -
  assume h: "dispatch i k = Some k'" "i < length (ptable k)"
  then have st: "p_state (ptable k ! i) = RUNNABLE" and k': "k' = upd_proc i (\<lambda>p. p\<lparr>p_state := RUNNING, p_chan := NoChan\<rparr>) k"
    by (auto simp: dispatch_def sleep_return_def split: if_splits)
  have "tame k k'" unfolding k' by (rule tame_upd[OF h(2)]) (simp add: tame_proc_def st)
  moreover have "refs_ok e k' = refs_ok e k" unfolding k' by (rule refs_ok_upd_proc[OF h(2)]) simp
  ultimately show ?thesis ..
qed

lemma yield_tame:
  assumes "yield me k = Inr k'" "me < length (ptable k)" "alive (p_state (ptable k ! me))"
  shows "tame k k' \<and> (refs_ok e k' = refs_ok e k)"
proof -
  have k': "k' = upd_proc me (\<lambda>p. p\<lparr>p_state := RUNNABLE\<rparr>) k" using assms(1) by (auto simp: yield_def sched_def split: if_splits)
  have "tame k k'" unfolding k' by (rule tame_upd[OF assms(2)]) (simp add: tame_proc_def assms(3))
  moreover have "refs_ok e k' = refs_ok e k" unfolding k' by (rule refs_ok_upd_proc[OF assms(2)]) simp
  ultimately show ?thesis ..
qed

lemma sleep_tame:
  assumes "sleep me ch k = Inr k'" "me < length (ptable k)" "alive (p_state (ptable k ! me))" "ch \<noteq> ProcChan me"
  shows "tame k k' \<and> (refs_ok e k' = refs_ok e k)"
proof -
  have k': "k' = upd_proc me (\<lambda>p. p\<lparr>p_chan := ch, p_state := SLEEPING\<rparr>) k" using assms(1) by (auto simp: sleep_def sched_def split: if_splits)
  have "tame k k'" unfolding k' by (rule tame_upd[OF assms(2)]) (simp add: tame_proc_def assms(3,4))
  moreover have "refs_ok e k' = refs_ok e k" unfolding k' by (rule refs_ok_upd_proc[OF assms(2)]) simp
  ultimately show ?thesis ..
qed

lemma wakeup_tame: "tame k (wakeup ch k) \<and> (refs_ok e (wakeup ch k) = refs_ok e k)"
proof -
  have "woken k (wakeup ch k)" by (simp add: wakeup_def woken_wakeup1)
  then show ?thesis using woken_tame woken_refs[of k "wakeup ch k"] by (auto simp: wakeup_def wakeup1_def)
qed

lemma kill_tame:
  assumes "kill pid k = (r, k')"
  shows "tame k k' \<and> (refs_ok e k' = refs_ok e k)"
proof (cases "List.find (\<lambda>i. p_pid (ptable k ! i) = pid) [0..<length (ptable k)]")
  case (Some i)
  let ?g = "\<lambda>p. p\<lparr>p_killed := True, p_state := (if p_state p = SLEEPING then RUNNABLE else p_state p)\<rparr>"
  have i: "i < length (ptable k)" using Some unfolding find_upt_Some by simp
  have k': "k' = upd_proc i ?g k" using assms Some by (simp add: kill_def)
  have "tame k k'" unfolding k' by (rule tame_upd[OF i]) (auto simp: tame_proc_def)
  moreover have "refs_ok e k' = refs_ok e k" unfolding k' by (rule refs_ok_upd_proc[OF i]) simp
  ultimately show ?thesis ..
qed (use assms in \<open>auto simp: kill_def tame_refl\<close>)

text \<open>A new child in a free entry.\<close>

lemma spawn_ok:
  assumes t: "table_ok k" and np: "np < NPROC" "p_state (ptable k ! np) = UNUSED" and me: "me < NPROC" "alive (p_state (ptable k ! me))"
    and p': "p_parent p' = Some me" "p_state p' = RUNNABLE" "p_pid p' = nextpid k" "length (p_ofile p') = NOFILE"
    and k': "ptable k' = (ptable k)[np := p']" "nextpid k' = nextpid k + 1" "initproc k' = initproc k"
  shows "table_ok k'"
proof -
  note d = table_okD[OF t]
  have ne: "np \<noteq> me" "np \<noteq> initproc k" using np me d(3) by (auto simp: alive_def)
  have nth: "ptable k' ! i = (if i = np then p' else ptable k ! i)" if "i < 64" for i
    using that np d(1) by (simp add: k' nth_list_update)
  have len: "length (ptable k') = 64" using d(1) by (simp add: k')
  have nochild: "p_parent (ptable k ! i) \<noteq> Some np" if "i < 64" for i using d(9)[OF that, of np] np by auto
  have "entries_ok k'"
    unfolding entries_ok_def k'(2,3) using t np me p' ne d(2) by (simp add: table_ok_def entries_ok_def nth len)
  moreover have "pids_ok k'"
    unfolding pids_ok_def
  proof (intro conjI allI impI)
    fix i assume "i < (64 :: nat)"
    then show "0 \<le> p_pid (ptable k' ! i)" "p_pid (ptable k' ! i) < nextpid k'" "p_state (ptable k' ! i) \<noteq> UNUSED \<Longrightarrow> 0 < p_pid (ptable k' ! i)"
      using d(10,11)[of i] pids_distinct(2)[OF t, of i] d(4) p'(2,3) k'(2) nth[of i] by auto
  next
    fix i j assume "i < (64 :: nat)" "j < (64 :: nat)" "i \<noteq> j \<and> p_pid (ptable k' ! i) = p_pid (ptable k' ! j)"
    then show "p_pid (ptable k' ! i) = 0"
      using d(10)[of i] d(10)[of j] pids_distinct(1)[OF t, of i j] p'(2,3) k'(2) nth[of i] nth[of j] by (auto split: if_splits)
  qed
  moreover have "parents_ok k'"
    unfolding parents_ok_def k'(3)
  proof (intro conjI allI impI)
    show "p_parent (ptable k' ! initproc k) = None" using nth[OF d(2)] ne(2) d(12) by simp
  next
    fix i assume "i < (64 :: nat)" "p_state (ptable k' ! i) \<noteq> UNUSED \<and> i \<noteq> initproc k"
    then show "p_parent (ptable k' ! i) \<noteq> None"
      using nth[of i] pids_distinct(3)[OF t, of i] p'(1,2) by (cases "i = np") simp_all
  next
    fix i q assume i: "i < (64 :: nat)" "p_parent (ptable k' ! i) = Some q"
    have "q < 64 \<and> q \<noteq> i \<and> q \<noteq> np \<and> alive (p_state (ptable k ! q))"
    proof (cases "i = np")
      case True
      then show ?thesis using i nth[of i] p'(1) me ne(1) by simp
    next
      case False
      then have "p_parent (ptable k ! i) = Some q" using i nth[of i] by simp
      then show ?thesis using d(9)[OF i(1), of q] nochild[OF i(1)] by auto
    qed
    then show "q < 64" "q \<noteq> i" "alive (p_state (ptable k' ! q))" using nth[of q] by simp_all
  qed
  moreover have "no_lost_exit k'"
    using t np me p' nochild by (auto simp: table_ok_def no_lost_exit_def nth)
  ultimately show ?thesis by (simp add: table_ok_def)
qed

text \<open>A free entry that only gets a process id, and an entry that becomes free.\<close>

lemma free_entry_ok:
  assumes t: "table_ok k" and np: "np < NPROC" "p_state (ptable k ! np) \<in> {UNUSED, ZOMBIE}"
    and p': "p_parent p' = None" "p_state p' = UNUSED" "p_ofile p' = p_ofile (ptable k ! np)"
      "p_pid p' = 0 \<and> nextpid k' = nextpid k \<or> p_pid p' = nextpid k \<and> nextpid k' = nextpid k + 1"
    and k': "ptable k' = (ptable k)[np := p']" "initproc k' = initproc k"
  shows "table_ok k'"
proof -
  note d = table_okD[OF t]
  have ne: "np \<noteq> initproc k" using np d(3) by (auto simp: alive_def)
  have nth: "ptable k' ! i = (if i = np then p' else ptable k ! i)" if "i < 64" for i
    using that np d(1) by (simp add: k' nth_list_update)
  have len: "length (ptable k') = 64" using d(1) by (simp add: k')
  have nochild: "p_parent (ptable k ! i) \<noteq> Some np" if "i < 64" for i using d(9)[OF that, of np] np by auto
  have "entries_ok k'"
    unfolding entries_ok_def k'(2) using t np p' ne d(2,4) d(8)[OF np] by (auto simp: table_ok_def entries_ok_def nth len)
  moreover have "pids_ok k'"
    unfolding pids_ok_def
  proof (intro conjI allI impI)
    fix i assume "i < (64 :: nat)"
    then show "0 \<le> p_pid (ptable k' ! i)" "p_pid (ptable k' ! i) < nextpid k'" "p_state (ptable k' ! i) \<noteq> UNUSED \<Longrightarrow> 0 < p_pid (ptable k' ! i)"
      using d(10,11)[of i] pids_distinct(2)[OF t, of i] d(4) p'(2,4) nth[of i] by auto
  next
    fix i j assume "i < (64 :: nat)" "j < (64 :: nat)" "i \<noteq> j \<and> p_pid (ptable k' ! i) = p_pid (ptable k' ! j)"
    then show "p_pid (ptable k' ! i) = 0"
      using d(10)[of i] d(10)[of j] pids_distinct(1)[OF t, of i j] p'(2,4) nth[of i] nth[of j] by (auto split: if_splits)
  qed
  moreover have "parents_ok k'"
    unfolding parents_ok_def k'(2)
  proof (intro conjI allI impI)
    show "p_parent (ptable k' ! initproc k) = None" using nth[OF d(2)] ne d(12) by simp
  next
    fix i assume "i < (64 :: nat)" "p_state (ptable k' ! i) \<noteq> UNUSED \<and> i \<noteq> initproc k"
    then show "p_parent (ptable k' ! i) \<noteq> None"
      using nth[of i] pids_distinct(3)[OF t, of i] p'(1,2) by (cases "i = np") simp_all
  next
    fix i q assume i: "i < (64 :: nat)" "p_parent (ptable k' ! i) = Some q"
    have "q < 64 \<and> q \<noteq> i \<and> q \<noteq> np \<and> alive (p_state (ptable k ! q))"
    proof (cases "i = np")
      case True
      then show ?thesis using i nth[of i] p'(1) by simp
    next
      case False
      then have "p_parent (ptable k ! i) = Some q" using i nth[of i] by simp
      then show ?thesis using d(9)[OF i(1), of q] nochild[OF i(1)] by auto
    qed
    then show "q < 64" "q \<noteq> i" "alive (p_state (ptable k' ! q))" using nth[of q] by simp_all
  qed
  moreover have "no_lost_exit k'"
    using t np p' nochild by (auto simp: table_ok_def no_lost_exit_def nth)
  ultimately show ?thesis by (simp add: table_ok_def)
qed

section \<open>Fork\<close>

lemma allocproc_free:
  assumes "allocproc kst k = (r, k1)" "table_ok k"
  shows "r = None \<and> k1 = k \<or>
    (\<exists>np. np < NPROC \<and> p_state (ptable k ! np) = UNUSED \<and> (\<forall>i < np. p_state (ptable k ! i) \<noteq> UNUSED) \<and>
       (case kst of
          None \<Rightarrow> r = None \<and> k1 = k\<lparr>ptable := (ptable k)[np := (ptable k ! np)\<lparr>p_pid := nextpid k, p_kstack := None, p_state := UNUSED\<rparr>],
            nextpid := nextpid k + 1\<rparr>
        | Some a \<Rightarrow> r = Some np \<and> k1 = k\<lparr>ptable := (ptable k)[np := (ptable k ! np)\<lparr>p_state := EMBRYO, p_pid := nextpid k, p_kstack := Some a\<rparr>],
            nextpid := nextpid k + 1\<rparr>))"
proof (cases "List.find (\<lambda>i. p_state (ptable k ! i) = UNUSED) [0..<length (ptable k)]")
  case None
  then show ?thesis using assms by (simp add: allocproc_def)
next
  case (Some np)
  note f = Some[unfolded find_upt_Some table_okD(1)[OF assms(2)]]
  have "np < length (ptable k)" using f table_okD(1)[OF assms(2)] by simp
  then show ?thesis using assms f by (intro disjI2 exI[of _ np]) (cases kst; auto simp: allocproc_def Some Let_def)
qed

lemma fork_files_ok:
  assumes "fork_files fds me np k = Inr k'" "refs_ok e k" "me \<noteq> np" "np < length (ptable k)" "distinct fds"
    "\<forall>fd \<in> set fds. fd < length (p_ofile (ptable k ! np)) \<and> fd < length (p_ofile (ptable k ! me)) \<and> p_ofile (ptable k ! np) ! fd = None"
    "me < length (ptable k)"
  shows "refs_ok e k' \<and> initproc k' = initproc k \<and> nextpid k' = nextpid k \<and>
    (\<exists>os. ptable k' = (ptable k)[np := (ptable k ! np)\<lparr>p_ofile := os\<rparr>] \<and> length os = length (p_ofile (ptable k ! np)) \<and>
       (\<forall>fd < length os. os ! fd = (if fd \<in> set fds then p_ofile (ptable k ! me) ! fd else p_ofile (ptable k ! np) ! fd)))"
  using assms
proof (induction fds arbitrary: k)
  case Nil
  then show ?case by (auto intro!: exI[of _ "p_ofile (ptable k ! np)"])
next
  case (Cons fd fds)
  show ?case
  proof (cases "p_ofile (ptable k ! me) ! fd")
    case None
    then obtain os where "refs_ok e k' \<and> initproc k' = initproc k \<and> nextpid k' = nextpid k"
      and os: "ptable k' = (ptable k)[np := (ptable k ! np)\<lparr>p_ofile := os\<rparr>]" "length os = length (p_ofile (ptable k ! np))"
        "\<forall>fd < length os. os ! fd = (if fd \<in> set fds then p_ofile (ptable k ! me) ! fd else p_ofile (ptable k ! np) ! fd)"
      using Cons.IH[of k] Cons.prems by auto
    then show ?thesis using None Cons.prems(6) by (intro conjI exI[of _ os]) auto
  next
    case (Some f)
    then obtain k1 where k1: "filedup f k = Inr k1"
      "fork_files fds me np (upd_proc np (\<lambda>p. p\<lparr>p_ofile := (p_ofile p)[fd := Some f]\<rparr>) k1) = Inr k'"
      using Cons.prems(1) by (auto simp: kbind_Inr)
    let ?k2 = "upd_proc np (\<lambda>p. p\<lparr>p_ofile := (p_ofile p)[fd := Some f]\<rparr>) k1"
    have "Some f \<in> set (p_ofile (ptable k ! me))" using Some Cons.prems(6) nth_mem[of fd "p_ofile (ptable k ! me)"] by auto
    then have f: "f < NFILE" using Cons.prems(2,7) unfolding refs_ok_def by (meson nth_mem)
    note d = filedup_ok[OF k1(1) Cons.prems(2) f]
    have "refs_ok ((e(f := e f + 1))(f := (e(f := e f + 1)) f - 1)) ?k2"
      by (rule refs_ok_store[OF d(1)]) (use Cons.prems f d(2) in auto)
    then have r2: "refs_ok e ?k2" by simp
    have me: "ptable ?k2 ! me = ptable k ! me" "ptable ?k2 ! np = (ptable k ! np)\<lparr>p_ofile := (p_ofile (ptable k ! np))[fd := Some f]\<rparr>"
      using Cons.prems(3,4) d(2) by auto
    have "\<forall>fd' \<in> set fds. fd' < length (p_ofile (ptable ?k2 ! np)) \<and> fd' < length (p_ofile (ptable ?k2 ! me)) \<and> p_ofile (ptable ?k2 ! np) ! fd' = None"
      using Cons.prems(5,6) unfolding me by (auto simp: nth_list_update)
    then obtain os where r: "refs_ok e k' \<and> initproc k' = initproc ?k2 \<and> nextpid k' = nextpid ?k2"
      and os: "ptable k' = (ptable ?k2)[np := (ptable ?k2 ! np)\<lparr>p_ofile := os\<rparr>]" "length os = length (p_ofile (ptable ?k2 ! np))"
        "\<forall>fd < length os. os ! fd = (if fd \<in> set fds then p_ofile (ptable ?k2 ! me) ! fd else p_ofile (ptable ?k2 ! np) ! fd)"
      using Cons.IH[OF k1(2) r2] Cons.prems(3,4,5,7) d(2) by auto
    have "ptable k' = (ptable k)[np := (ptable k ! np)\<lparr>p_ofile := os\<rparr>]" using os(1) d(2) Cons.prems(4) unfolding me by simp
    moreover have "\<forall>fd' < length os. os ! fd' = (if fd' \<in> set (fd # fds) then p_ofile (ptable k ! me) ! fd' else p_ofile (ptable k ! np) ! fd')"
      using os(2,3) Some unfolding me by (auto simp: nth_list_update)
    moreover have "length os = length (p_ofile (ptable k ! np))" using os(2) unfolding me by simp
    ultimately show ?thesis using r d(3,4) by auto
  qed
qed

lemma dup_cwd_eq: "\<exists>s. dup_cwd me k = (p_cwd (ptable k ! me), k\<lparr>fs := s\<rparr>)"
proof (cases "p_cwd (ptable k ! me)")
  case None
  then show ?thesis by (intro exI[of _ "fs k"]) (simp add: dup_cwd_def)
qed (auto simp: dup_cwd_def idup_def)

text \<open>What a successful fork leaves: the first free entry is the child.\<close>

definition forked :: "nat \<Rightarrow> nat \<Rightarrow> 'd kern \<Rightarrow> 'd kern \<Rightarrow> bool" where
  "forked me np k k' \<longleftrightarrow> np < NPROC \<and> p_state (ptable k ! np) = UNUSED \<and> (\<forall>i < np. p_state (ptable k ! i) \<noteq> UNUSED) \<and> nextpid k' = nextpid k + 1 \<and> initproc k' = initproc k \<and>
     (\<forall>i < NPROC. i \<noteq> np \<longrightarrow> ptable k' ! i = ptable k ! i) \<and>
     (let c = ptable k' ! np; p = ptable k ! me
      in p_state c = RUNNABLE \<and> p_pid c = nextpid k \<and> p_parent c = Some me \<and> p_ofile c = p_ofile p \<and> p_cwd c = p_cwd p \<and>
         p_sz c = p_sz p \<and> p_tf c = (p_tf p)\<lparr>tf_eax := 0\<rparr> \<and> p_killed c = p_killed (ptable k ! np))"

lemma fork_ok:
  fixes k k' :: "'a kern"
  assumes f: "fork kst pgd me k = Inr (r, k')" and t: "table_ok k" "refs_ok e k" and me: "me < NPROC" "alive (p_state (ptable k ! me))"
  shows "table_ok k' \<and> refs_ok e k' \<and> (r = -1 \<or> r = nextpid k \<and> (\<exists>np. forked me np k k'))"
proof -
  obtain o1 k1 where a: "allocproc kst k = (o1, k1)" by (cases "allocproc kst k")
  note d = table_okD[OF t(1)]
  from allocproc_free[OF a t(1)] consider "o1 = None" "k1 = k" |
    np where "np < NPROC" "p_state (ptable k ! np) = UNUSED" "kst = None" "o1 = None"
      "k1 = k\<lparr>ptable := (ptable k)[np := (ptable k ! np)\<lparr>p_pid := nextpid k, p_kstack := None, p_state := UNUSED\<rparr>], nextpid := nextpid k + 1\<rparr>" |
    np st where "np < NPROC" "p_state (ptable k ! np) = UNUSED" "o1 = Some np" "\<forall>i < np. p_state (ptable k ! i) \<noteq> UNUSED"
      "k1 = k\<lparr>ptable := (ptable k)[np := (ptable k ! np)\<lparr>p_state := EMBRYO, p_pid := nextpid k, p_kstack := Some st\<rparr>], nextpid := nextpid k + 1\<rparr>"
    by (cases kst) auto
  then show ?thesis
  proof cases
    case 1
    then show ?thesis using f a t by (simp add: fork_def)
  next
    case 2
    let ?p = "(ptable k ! np)\<lparr>p_pid := nextpid k, p_kstack := None, p_state := UNUSED\<rparr>"
    have k': "k' = k1" "r = -1" using f a 2 by (simp_all add: fork_def)
    have "table_ok k'" using free_entry_ok[OF t(1) 2(1), of ?p k'] 2 d(7)[OF 2(1,2)] k' by simp
    moreover have "refs_ok e (k\<lparr>ptable := (ptable k)[np := ?p]\<rparr>) = refs_ok e k" using refs_ok_upd_proc[of np k "\<lambda>_. ?p" e] 2(1) d(1) by simp
    ultimately show ?thesis using k' 2 t by simp
  next
    case (3)
    have np: "np < length (ptable k)" "me < length (ptable k)" "me \<noteq> np" using 3 me d(1) by auto
    show ?thesis
    proof (cases pgd)
      case None
      let ?p = "(ptable k ! np)\<lparr>p_pid := nextpid k, p_pgdir := None, p_kstack := None, p_state := UNUSED\<rparr>"
      have k': "k' = k\<lparr>ptable := (ptable k)[np := ?p], nextpid := nextpid k + 1\<rparr>" "r = -1"
        using f a 3 None np by (auto simp: fork_def)
      have "table_ok k'" using free_entry_ok[OF t(1) 3(1), of ?p k'] 3 d(7)[OF 3(1,2)] k' by simp
      moreover have "refs_ok e (k\<lparr>ptable := (ptable k)[np := ?p]\<rparr>) = refs_ok e k" using refs_ok_upd_proc[of np k "\<lambda>_. ?p" e] np by simp
      ultimately show ?thesis using k' t by simp
    next
      case (Some pg)
      let ?cur = "ptable k ! me"
      let ?p2 = "(ptable k ! np)\<lparr>p_state := EMBRYO, p_pid := nextpid k, p_kstack := Some st, p_pgdir := Some pg, p_sz := p_sz ?cur, p_parent := Some me,
        p_tf := (p_tf ?cur)\<lparr>tf_eax := 0\<rparr>\<rparr>"
      define k2 where "k2 = k\<lparr>nextpid := nextpid k + 1, ptable := (ptable k)[np := ?p2]\<rparr>"
      obtain k3 where k3: "fork_files [0..<NOFILE] me np k2 = Inr k3" "(case dup_cwd me k3 of (wd, k4) \<Rightarrow> Inr (p_pid (ptable k4 ! np),
          upd_proc np (\<lambda>p. p\<lparr>p_cwd := wd, p_name := set_name (p_name p) (p_name ?cur), p_state := RUNNABLE\<rparr>) k4)) = (Inr (r, k') :: (int \<times> 'a kern) kernel)"
        using f a 3 Some np by (auto simp: fork_def Let_def kbind_Inr k2_def split del: prod.splits)
      have "refs_ok e (k\<lparr>ptable := (ptable k)[np := ?p2]\<rparr>) = refs_ok e k" using refs_ok_upd_proc[of np k "\<lambda>_. ?p2" e] np by simp
      moreover have "refs_ok e k2 = refs_ok e (k\<lparr>ptable := (ptable k)[np := ?p2]\<rparr>)" by (rule refs_ok_fields) (simp_all add: k2_def)
      ultimately have r2: "refs_ok e k2" using t by simp
      have o2: "p_ofile (ptable k2 ! np) = replicate 16 None" "ptable k2 ! me = ?cur" "length (p_ofile ?cur) = 16" "length (ptable k2) = length (ptable k)"
        using d(8)[OF 3(1)] 3(2) d(6)[OF me(1)] np by (simp_all add: k2_def)
      obtain os where r3: "refs_ok e k3" "initproc k3 = initproc k2" "nextpid k3 = nextpid k2"
        and os: "ptable k3 = (ptable k2)[np := (ptable k2 ! np)\<lparr>p_ofile := os\<rparr>]" "length os = 16" "\<forall>fd < 16. os ! fd = p_ofile ?cur ! fd"
        using fork_files_ok[OF k3(1) r2 np(3)] np o2 by auto
      have os': "os = p_ofile ?cur" using os(2,3) o2(3) by (simp add: list_eq_iff_nth_eq)
      have cwd3: "p_cwd (ptable k3 ! me) = p_cwd ?cur" using os(1) o2(2) np by simp
      define wd where "wd = p_cwd ?cur"
      obtain s where wd: "dup_cwd me k3 = (wd, k3\<lparr>fs := s\<rparr>)" using dup_cwd_eq[of me k3] unfolding cwd3 wd_def by blast
      let ?p = "?p2\<lparr>p_ofile := os, p_cwd := wd, p_name := set_name (p_name (ptable k ! np)) (p_name ?cur), p_state := RUNNABLE\<rparr>"
      let ?h = "\<lambda>p. p\<lparr>p_cwd := wd, p_name := set_name (p_name p) (p_name ?cur), p_state := RUNNABLE\<rparr>"
      have e0: "p_pid (ptable (k3\<lparr>fs := s\<rparr>) ! np) = r \<and> upd_proc np ?h (k3\<lparr>fs := s\<rparr>) = k'"
        using k3(2) unfolding wd by (simp only: prod.case sum.inject prod.inject)
      have e: "r = p_pid (ptable k3 ! np)" "k' = upd_proc np ?h (k3\<lparr>fs := s\<rparr>)"
        using conjunct1[OF e0] conjunct2[OF e0, symmetric] by simp_all
      have n2: "ptable k2 = (ptable k)[np := ?p2]" "ptable k2 ! np = ?p2" "nextpid k2 = nextpid k + 1" "initproc k2 = initproc k"
        using np by (simp_all add: k2_def)
      have n3: "ptable k3 = (ptable k)[np := ?p2\<lparr>p_ofile := os\<rparr>]" using os(1) unfolding n2(2) unfolding n2(1) by simp
      then have n4: "ptable k3 ! np = ?p2\<lparr>p_ofile := os\<rparr>" using np by simp
      have "ptable k' = (ptable k3)[np := ?h (ptable k3 ! np)]" unfolding e(2) by simp
      also have "\<dots> = (ptable k)[np := ?h (?p2\<lparr>p_ofile := os\<rparr>)]" unfolding n4 unfolding n3 by simp
      also have "?h (?p2\<lparr>p_ofile := os\<rparr>) = ?p" by simp
      finally have pt: "ptable k' = (ptable k)[np := ?p]" .
      have k': "r = nextpid k" "initproc k' = initproc k" "nextpid k' = nextpid k + 1"
        using e n4 n2 r3 by simp_all
      have "table_ok k'" by (rule spawn_ok[OF t(1) 3(1,2) me, of ?p]) (use k' pt os(2) in simp_all)
      moreover have "refs_ok e (upd_proc np (\<lambda>p. p\<lparr>p_cwd := wd, p_name := set_name (p_name p) (p_name ?cur), p_state := RUNNABLE\<rparr>) (k3\<lparr>fs := s\<rparr>)) = refs_ok e (k3\<lparr>fs := s\<rparr>)"
        by (rule refs_ok_upd_proc) (use np os o2 in simp_all)
      then have "refs_ok e k'" using e(2) r3(1) by simp
      moreover have "forked me np k k'" using 3(1,2,4) k' pt np os' wd_def by (simp add: forked_def Let_def)
      ultimately show ?thesis using k'(1) by blast
    qed
  qed
qed

section \<open>Wait\<close>

text \<open>Only the wake-up invariant looks at channels.\<close>

lemma nth_chan:
  "p_state (xs[j := (xs ! j)\<lparr>p_chan := c\<rparr>] ! i) = p_state (xs ! i)" "p_parent (xs[j := (xs ! j)\<lparr>p_chan := c\<rparr>] ! i) = p_parent (xs ! i)"
  "p_pid (xs[j := (xs ! j)\<lparr>p_chan := c\<rparr>] ! i) = p_pid (xs ! i)" "p_ofile (xs[j := (xs ! j)\<lparr>p_chan := c\<rparr>] ! i) = p_ofile (xs ! i)"
  by (cases "j < length xs"; cases "i = j"; simp add: list_update_beyond)+

lemma core_chan:
  "entries_ok (upd_proc j (\<lambda>p. p\<lparr>p_chan := c\<rparr>) k) = entries_ok k" "pids_ok (upd_proc j (\<lambda>p. p\<lparr>p_chan := c\<rparr>) k) = pids_ok k"
  "parents_ok (upd_proc j (\<lambda>p. p\<lparr>p_chan := c\<rparr>) k) = parents_ok k"
  by (simp_all add: entries_ok_def pids_ok_def parents_ok_def nth_chan)

lemma wait_scan_Some: "wait_scan is me h k = (Some i, h') \<Longrightarrow> i \<in> set is \<and> p_parent (ptable k ! i) = Some me \<and> p_state (ptable k ! i) = ZOMBIE"
  by (induction "is" me h k rule: wait_scan.induct) (auto split: if_splits)

lemma wait_scan_None:
  "wait_scan is me h k = (None, h') \<Longrightarrow>
   (\<forall>i \<in> set is. p_parent (ptable k ! i) = Some me \<longrightarrow> p_state (ptable k ! i) \<noteq> ZOMBIE) \<and>
   (h' \<longleftrightarrow> h \<or> (\<exists>i \<in> set is. p_parent (ptable k ! i) = Some me))"
  by (induction "is" me h k rule: wait_scan.induct) (auto split: if_splits)

lemma wait_ok:
  assumes w: "wait me k = Inr (r, k')" and t: "table_ok k" "refs_ok e k" and me: "me < NPROC" "alive (p_state (ptable k ! me))"
  shows "table_ok k' \<and> refs_ok e k'"
proof -
  note d = table_okD[OF t(1)]
  obtain oi h where sc: "wait_scan [0..<length (ptable k)] me False k = (oi, h)" by (cases "wait_scan [0..<length (ptable k)] me False k")
  show ?thesis
  proof (cases oi)
    case (Some i)
    let ?p = "(ptable k ! i)\<lparr>p_kstack := None, p_pid := 0, p_parent := None, p_name := (p_name (ptable k ! i))[0 := 0], p_killed := False, p_state := UNUSED\<rparr>"
    have i: "i < NPROC" "p_state (ptable k ! i) = ZOMBIE" using wait_scan_Some[OF sc[unfolded Some]] d(1) by simp_all
    have k': "k' = k\<lparr>ptable := (ptable k)[i := ?p]\<rparr>" using w sc Some by (simp add: wait_def)
    have "table_ok k'" by (rule free_entry_ok[OF t(1) i(1), of ?p]) (use i k' in simp_all)
    moreover have "refs_ok e (k\<lparr>ptable := (ptable k)[i := ?p]\<rparr>) = refs_ok e k" using refs_ok_upd_proc[of i k "\<lambda>_. ?p" e] i d(1) by simp
    ultimately show ?thesis using k' t by simp
  next
    case None
    note nz = wait_scan_None[OF sc[unfolded None]]
    show ?thesis
    proof (cases "\<not> h \<or> p_killed (ptable k ! me)")
      case True
      then show ?thesis using w sc None t by (auto simp: wait_def)
    next
      case False
      let ?p = "(ptable k ! me)\<lparr>p_chan := ProcChan me, p_state := SLEEPING\<rparr>"
      have k': "k' = k\<lparr>ptable := (ptable k)[me := ?p]\<rparr>"
        using w sc None False by (auto simp: wait_def sleep_def sched_def kbind_Inr split: if_splits)
      have L: "me < length (ptable k)" using me d(1) by simp
      have tame: "tame k (k\<lparr>ptable := (ptable k)[me := ?p\<lparr>p_chan := NoChan\<rparr>]\<rparr>)"
        using tame_upd[of me k "\<lambda>_. ?p\<lparr>p_chan := NoChan\<rparr>"] L me(2) by (simp add: tame_proc_def)
      note t1 = tame_table[OF tame t(1)]
      have nth: "ptable k' ! j = (if j = me then ?p else ptable k ! j)" if "j < 64" for j using that L by (simp add: k' nth_list_update)
      have len: "length (ptable k') = 64" "initproc k' = initproc k" "nextpid k' = nextpid k" using d(1) by (simp_all add: k')
      have pe: "(ptable k ! me)\<lparr>p_state := SLEEPING, p_chan := ProcChan me\<rparr> = ?p" by simp
      have "upd_proc me (\<lambda>p. p\<lparr>p_chan := ProcChan me\<rparr>) (k\<lparr>ptable := (ptable k)[me := ?p\<lparr>p_chan := NoChan\<rparr>]\<rparr>) =
          k\<lparr>ptable := (ptable k)[me := (ptable k ! me)\<lparr>p_state := SLEEPING, p_chan := ProcChan me\<rparr>]\<rparr>"
        using L by simp
      then have k1: "k' = upd_proc me (\<lambda>p. p\<lparr>p_chan := ProcChan me\<rparr>) (k\<lparr>ptable := (ptable k)[me := ?p\<lparr>p_chan := NoChan\<rparr>]\<rparr>)"
        unfolding k' pe by (rule sym)
      have "entries_ok k' \<and> pids_ok k' \<and> parents_ok k'"
        using t1 unfolding k1 core_chan by (simp add: table_ok_def)
      moreover have "no_lost_exit k'"
        unfolding no_lost_exit_def
      proof (intro allI impI)
        fix q i
        assume q: "q < (64 :: nat)" "i < (64 :: nat)"
          "p_state (ptable k' ! q) = SLEEPING \<and> p_chan (ptable k' ! q) = ProcChan q \<and> p_parent (ptable k' ! i) = Some q"
        show "p_state (ptable k' ! i) \<noteq> ZOMBIE"
        proof (cases "i = me")
          case True
          then show ?thesis using nth[OF q(2)] by simp
        next
          case False
          then have pi: "ptable k' ! i = ptable k ! i" using nth[OF q(2)] by simp
          show ?thesis
          proof (cases "q = me")
            case True
            then show ?thesis using nz q pi d(1) by auto
          next
            case False
            then show ?thesis using t(1) q pi nth[OF q(1)] unfolding table_ok_def no_lost_exit_def by auto
          qed
        qed
      qed
      moreover have "refs_ok e k'" unfolding k' using refs_ok_upd_proc[of me k "\<lambda>_. ?p" e] L t(2) by simp
      ultimately show ?thesis by (simp add: table_ok_def)
    qed
  qed
qed

section \<open>Exit\<close>

lemma exit_files_ok:
  assumes "exit_files fds me k = Inr k'" "table_ok k" "refs_ok e k" "me < NPROC" "alive (p_state (ptable k ! me))" "\<forall>fd \<in> set fds. fd < NOFILE"
  shows "tame k k' \<and> refs_ok e k' \<and>
    (\<forall>fd < NOFILE. p_ofile (ptable k' ! me) ! fd = (if fd \<in> set fds then None else p_ofile (ptable k ! me) ! fd))"
  using assms
proof (induction fds arbitrary: k)
  case Nil
  then show ?case by (simp add: tame_refl)
next
  case (Cons fd fds)
  note d = table_okD[OF Cons.prems(2)]
  show ?case
  proof (cases "p_ofile (ptable k ! me) ! fd")
    case None
    then have "exit_files fds me k = Inr k'" using Cons.prems(1) by simp
    from Cons.IH[OF this Cons.prems(2-5)] Cons.prems(6) None show ?thesis by auto
  next
    case (Some f)
    then obtain k1 where k1: "fileclose f k = Inr k1" "exit_files fds me (clear_fd me fd k1) = Inr k'"
      using Cons.prems(1) by (auto simp: kbind_Inr clear_fd_def)
    have L: "me < length (ptable k)" "fd < length (p_ofile (ptable k ! me))" using Cons.prems(4,6) d(1) d(6)[OF Cons.prems(4)] by simp_all
    have f: "f < NFILE" using refs_ok_clear(2)[OF Cons.prems(3) L Some] .
    have c: "woken k k1" "refs_ok (e(f := e f - 1)) k1" using fileclose_ok[OF k1(1) Cons.prems(3) f] by blast+
    note w = wokenD[OF c(1) L(1)]
    have L1: "me < length (ptable k1)" "length (ptable k1) = length (ptable k)" using c(1) L(1) by (simp_all add: woken_def)
    have "refs_ok ((e(f := e f - 1))(f := (e(f := e f - 1)) f + 1)) (clear_fd me fd k1)"
      by (rule refs_ok_clear(1)[OF c(2) L1(1)]) (use w(3) L(2) Some in simp_all)
    then have r1: "refs_ok e (clear_fd me fd k1)" by simp
    have al: "alive (p_state (ptable k1 ! me))" using w(7) Cons.prems(5) by auto
    have tm: "tame k (clear_fd me fd k1)"
      unfolding clear_fd_def by (rule tame_trans[OF woken_tame[OF c(1)] tame_upd[OF L1(1)]]) (simp add: tame_proc_def al)
    have me1: "p_ofile (ptable (clear_fd me fd k1) ! me) = (p_ofile (ptable k ! me))[fd := None]" "p_state (ptable (clear_fd me fd k1) ! me) = p_state (ptable k1 ! me)"
      using L1 w(3) by (simp_all add: clear_fd_def)
    have "tame (clear_fd me fd k1) k' \<and> refs_ok e k' \<and>
      (\<forall>fd' < NOFILE. p_ofile (ptable k' ! me) ! fd' = (if fd' \<in> set fds then None else p_ofile (ptable (clear_fd me fd k1) ! me) ! fd'))"
      using Cons.IH[OF k1(2) tame_table[OF tm Cons.prems(2)] r1 Cons.prems(4)] Cons.prems(6) al me1(2) by simp
    then show ?thesis using tame_trans[OF tm] L(2) d(6)[OF Cons.prems(4)] unfolding me1 by (auto simp: nth_list_update)
  qed
qed

text \<open>What the loop of \<open>exit\<close> over the children does.\<close>

lemma reparent_ok:
  assumes "\<forall>i \<in> set is. i < length (ptable k)" "distinct is" "me \<noteq> initproc k" "initproc k < length (ptable k)"
  shows "length (ptable (reparent is me k)) = length (ptable k) \<and> initproc (reparent is me k) = initproc k \<and> nextpid (reparent is me k) = nextpid k \<and>
    ftable (reparent is me k) = ftable k \<and>
    (\<forall>i < length (ptable k). let p = ptable k ! i; p' = ptable (reparent is me k) ! i in
       p_pid p' = p_pid p \<and> p_ofile p' = p_ofile p \<and> p_chan p' = p_chan p \<and>
       p_parent p' = (if i \<in> set is \<and> p_parent p = Some me then Some (initproc k) else p_parent p) \<and>
       (p_state p' = p_state p \<or> p_state p = SLEEPING \<and> p_state p' = RUNNABLE)) \<and>
    ((\<exists>i \<in> set is. p_parent (ptable k ! i) = Some me \<and> p_state (ptable k ! i) = ZOMBIE) \<longrightarrow>
       \<not> (p_state (ptable (reparent is me k) ! initproc k) = SLEEPING \<and> p_chan (ptable (reparent is me k) ! initproc k) = ProcChan (initproc k)))"
  using assms
proof (induction "is" arbitrary: k)
  case Nil
  then show ?case by (simp add: Let_def)
next
  case (Cons j js)
  show ?case
  proof (cases "p_parent (ptable k ! j) = Some me")
    case False
    then have "reparent (j # js) me k = reparent js me k" by simp
    with Cons.IH[of k] Cons.prems False show ?thesis by (auto simp: Let_def)
  next
    case True
    define k1 where "k1 = upd_proc j (\<lambda>p. p\<lparr>p_parent := Some (initproc k)\<rparr>) k"
    define k2 where "k2 = (if p_state (ptable k1 ! j) = ZOMBIE then wakeup1 (ProcChan (initproc k1)) k1 else k1)"
    have rp: "reparent (j # js) me k = reparent js me k2" using True by (simp add: k1_def k2_def Let_def)
    have j: "j < length (ptable k)" "j \<notin> set js" using Cons.prems(1,2) by simp_all
    have w: "woken k1 k2" using woken_wakeup1[of k1] by (simp add: k2_def wokenI)
    have L: "length (ptable k2) = length (ptable k)" "initproc k2 = initproc k" "nextpid k2 = nextpid k" "length (ptable k1) = length (ptable k)"
      using w by (simp_all add: woken_def k1_def)
    have ft: "ftable k2 = ftable k" by (simp add: k2_def k1_def wakeup1_def)
    have k1: "ptable k1 ! i = (if i = j then (ptable k ! j)\<lparr>p_parent := Some (initproc k)\<rparr> else ptable k ! i)" if "i < length (ptable k)" for i
      using that j by (simp add: k1_def nth_list_update)
    have e2: "p_pid (ptable k2 ! i) = p_pid (ptable k ! i)" "p_ofile (ptable k2 ! i) = p_ofile (ptable k ! i)" "p_chan (ptable k2 ! i) = p_chan (ptable k ! i)"
      "p_parent (ptable k2 ! i) = (if i = j then Some (initproc k) else p_parent (ptable k ! i))"
      "p_state (ptable k2 ! i) = p_state (ptable k ! i) \<or> p_state (ptable k ! i) = SLEEPING \<and> p_state (ptable k2 ! i) = RUNNABLE"
      if "i < length (ptable k)" for i
      using wokenD[OF w, unfolded L(4), OF that] k1[OF that] by (auto split: if_splits)
    have zk: "\<not> (p_state (ptable k2 ! initproc k) = SLEEPING \<and> p_chan (ptable k2 ! initproc k) = ProcChan (initproc k))"
      if "p_state (ptable k ! j) = ZOMBIE"
      using that j(1) Cons.prems(4) k1[OF j(1)] L(4) by (auto simp: k2_def wakeup1_def k1_def)
    have pre: "\<forall>i \<in> set js. i < length (ptable k2)" "distinct js" "me \<noteq> initproc k2" "initproc k2 < length (ptable k2)"
      using Cons.prems L by simp_all
    note IH0 = Cons.IH[OF pre, unfolded L ft]
    note IH5 = conjunct1[OF conjunct2[OF conjunct2[OF conjunct2[OF conjunct2[OF IH0]]]]]
    note IH6 = conjunct2[OF conjunct2[OF conjunct2[OF conjunct2[OF conjunct2[OF IH0]]]]]
    let ?r = "reparent js me k2"
    have e3: "p_pid (ptable ?r ! i) = p_pid (ptable k ! i)" "p_ofile (ptable ?r ! i) = p_ofile (ptable k ! i)" "p_chan (ptable ?r ! i) = p_chan (ptable k ! i)"
      "p_parent (ptable ?r ! i) = (if i \<in> set (j # js) \<and> p_parent (ptable k ! i) = Some me then Some (initproc k) else p_parent (ptable k ! i))"
      "p_state (ptable ?r ! i) = p_state (ptable k ! i) \<or> p_state (ptable k ! i) = SLEEPING \<and> p_state (ptable ?r ! i) = RUNNABLE"
      if "i < length (ptable k)" for i
      using IH5[rule_format, OF that] e2[OF that] j(2) True Cons.prems(3) by (auto simp: Let_def)
    have "\<not> (p_state (ptable ?r ! initproc k) = SLEEPING \<and> p_chan (ptable ?r ! initproc k) = ProcChan (initproc k))"
      if z: "\<exists>i \<in> set (j # js). p_parent (ptable k ! i) = Some me \<and> p_state (ptable k ! i) = ZOMBIE"
    proof (cases "p_state (ptable k ! j) = ZOMBIE")
      case True
      from zk[OF this] IH5[rule_format, OF Cons.prems(4)] show ?thesis by (auto simp: Let_def)
    next
      case False
      then obtain i where i: "i \<in> set js" "p_parent (ptable k ! i) = Some me" "p_state (ptable k ! i) = ZOMBIE" using z by auto
      then have "i < length (ptable k)" "i \<noteq> j" using Cons.prems(1,2) by auto
      then have "p_parent (ptable k2 ! i) = Some me" "p_state (ptable k2 ! i) = ZOMBIE" using e2(4,5)[of i] i by auto
      with IH6 i(1) show ?thesis by blast
    qed
    then show ?thesis unfolding rp using IH0 e3 by (auto simp: Let_def)
  qed
qed

lemma exit_final_ok:
  assumes x: "exit_final me k = Inr k'" and t: "table_ok k" "refs_ok e k" and me: "me < NPROC" "alive (p_state (ptable k ! me))" "me \<noteq> initproc k"
    and os: "p_ofile (ptable k ! me) = replicate NOFILE None"
  shows "table_ok k' \<and> refs_ok e k' \<and> p_state (ptable k' ! me) = ZOMBIE"
proof -
  note d = table_okD[OF t(1)]
  define k1 where "k1 = wakeup1 (parent_chan (p_parent (ptable k ! me))) k"
  have w1: "woken k k1" "ftable k1 = ftable k" unfolding k1_def by (rule woken_wakeup1) (simp add: wakeup1_def)
  note t1 = tame_table[OF woken_tame[OF w1(1)] t(1)]
  note d1 = table_okD[OF t1]
  have L1: "length (ptable k1) = 64" "initproc k1 = initproc k" "nextpid k1 = nextpid k" using w1(1) d(1) by (simp_all add: woken_def)
  have e1: "p_parent (ptable k1 ! i) = p_parent (ptable k ! i)" "p_ofile (ptable k1 ! i) = p_ofile (ptable k ! i)"
    "p_state (ptable k1 ! i) = p_state (ptable k ! i) \<or> p_state (ptable k ! i) = SLEEPING \<and> p_state (ptable k1 ! i) = RUNNABLE" if "i < 64" for i
    using wokenD[OF w1(1)] that d(1) by auto
  have par: "\<not> (p_state (ptable k1 ! q) = SLEEPING \<and> p_chan (ptable k1 ! q) = ProcChan q)" if "p_parent (ptable k ! me) = Some q" "q < 64" for q
    using that d(1) by (auto simp: k1_def wakeup1_def parent_chan_def)
  define k2 where "k2 = reparent [0..<length (ptable k1)] me k1"
  have pre: "\<forall>i \<in> set [0..<length (ptable k1)]. i < length (ptable k1)" "distinct [0..<length (ptable k1)]" "me \<noteq> initproc k1"
    "initproc k1 < length (ptable k1)" using L1 me(3) d(2) by simp_all
  note R = reparent_ok[OF pre, folded k2_def, unfolded L1 w1(2)]
  have L2: "length (ptable k2) = 64" "initproc k2 = initproc k" "nextpid k2 = nextpid k" "ftable k2 = ftable k" using R by blast+
  have e2: "p_pid (ptable k2 ! i) = p_pid (ptable k1 ! i)" "p_ofile (ptable k2 ! i) = p_ofile (ptable k1 ! i)" "p_chan (ptable k2 ! i) = p_chan (ptable k1 ! i)"
    "p_parent (ptable k2 ! i) = (if p_parent (ptable k1 ! i) = Some me then Some (initproc k) else p_parent (ptable k1 ! i))"
    "p_state (ptable k2 ! i) = p_state (ptable k1 ! i) \<or> p_state (ptable k1 ! i) = SLEEPING \<and> p_state (ptable k2 ! i) = RUNNABLE" if "i < 64" for i
    using conjunct1[OF conjunct2[OF conjunct2[OF conjunct2[OF conjunct2[OF R]]]], rule_format, OF that] that by (simp_all add: Let_def)
  have k': "k' = upd_proc me (\<lambda>p. p\<lparr>p_state := ZOMBIE\<rparr>) k2"
    using x by (auto simp: exit_final_def sched_def Let_def k1_def k2_def split: if_splits)
  have L: "length (ptable k') = 64" "initproc k' = initproc k" "nextpid k' = nextpid k" "ftable k' = ftable k" using L2 by (simp_all add: k')
  have nth: "ptable k' ! i = (if i = me then (ptable k2 ! me)\<lparr>p_state := ZOMBIE\<rparr> else ptable k2 ! i)" if "i < 64" for i
    using that L2(1) me(1) by (simp add: k' nth_list_update)
  have e: "p_pid (ptable k' ! i) = p_pid (ptable k1 ! i)" "p_ofile (ptable k' ! i) = p_ofile (ptable k ! i)"
    "p_parent (ptable k' ! i) = (if p_parent (ptable k1 ! i) = Some me then Some (initproc k) else p_parent (ptable k1 ! i))"
    "i \<noteq> me \<Longrightarrow> p_state (ptable k' ! i) = p_state (ptable k1 ! i) \<or> p_state (ptable k1 ! i) = SLEEPING \<and> p_state (ptable k' ! i) = RUNNABLE"
    "p_chan (ptable k' ! i) = p_chan (ptable k1 ! i)" if "i < 64" for i
    using nth[OF that] e2[OF that] e1(2)[OF that] by auto
  have me': "p_state (ptable k' ! me) = ZOMBIE" "alive (p_state (ptable k1 ! me))" using nth[OF me(1)] e1(3)[OF me(1)] me(2) by auto
  have al: "alive (p_state (ptable k' ! q))" if "q < 64" "q \<noteq> me" "alive (p_state (ptable k1 ! q))" for q
    using e(4)[OF that(1,2)] that(3) by auto
  have st: "p_state (ptable k' ! i) = s \<longleftrightarrow> p_state (ptable k1 ! i) = s" if "i < 64" "i \<noteq> me" "\<not> alive s" for i s
    using e(4)[OF that(1,2)] that(3) by auto
  have "entries_ok k'"
    unfolding entries_ok_def L(2,3)
  proof (intro conjI allI impI)
    show "length (ptable k') = 64" "initproc k < 64" "0 < nextpid k" using L(1) d(2,4) by simp_all
    show "alive (p_state (ptable k' ! initproc k))" using al[OF d(2)] me(3) d1(3) L1(2) by simp
  next
    fix i assume i: "i < (64 :: nat)"
    show "p_state (ptable k' ! i) \<noteq> EMBRYO" using me' st[OF i, of EMBRYO] d1(5)[OF i] by (cases "i = me") simp_all
    show "length (p_ofile (ptable k' ! i)) = 16" using e(2)[OF i] d(6)[OF i] by simp
    show "p_state (ptable k' ! i) = UNUSED \<Longrightarrow> p_parent (ptable k' ! i) = None"
      using me' st[OF i, of UNUSED] d1(7)[OF i] e(3)[OF i] by (cases "i = me") simp_all
    show "p_state (ptable k' ! i) \<in> {UNUSED, ZOMBIE} \<Longrightarrow> p_ofile (ptable k' ! i) = replicate 16 None"
      using os st[OF i, of UNUSED] st[OF i, of ZOMBIE] d1(8)[OF i] e(2)[OF i] e1(2)[OF i] by (cases "i = me") auto
  qed
  moreover have "pids_ok k'"
    unfolding pids_ok_def L(3)
  proof (intro conjI allI impI)
    fix i assume i: "i < (64 :: nat)"
    have "p_state (ptable k1 ! me) \<noteq> UNUSED" using me'(2) by auto
    then show "0 \<le> p_pid (ptable k' ! i)" "p_pid (ptable k' ! i) < nextpid k" "p_state (ptable k' ! i) \<noteq> UNUSED \<Longrightarrow> 0 < p_pid (ptable k' ! i)"
      using e(1)[OF i] d1(10,11)[OF i] L1(3) pids_distinct(2)[OF t1 i] st[OF i, of UNUSED] by (cases "i = me"; simp)+
  next
    fix i j assume "i < (64 :: nat)" "j < (64 :: nat)" "i \<noteq> j \<and> p_pid (ptable k' ! i) = p_pid (ptable k' ! j)"
    then show "p_pid (ptable k' ! i) = 0" using e(1) pids_distinct(1)[OF t1, of i j] by simp
  qed
  moreover have "parents_ok k'"
    unfolding parents_ok_def L(2)
  proof (intro conjI allI impI)
    show "p_parent (ptable k' ! initproc k) = None" using e(3)[OF d(2)] d1(12) L1(2) by simp
  next
    fix i assume i: "i < (64 :: nat)" "p_state (ptable k' ! i) \<noteq> UNUSED \<and> i \<noteq> initproc k"
    have "p_state (ptable k1 ! i) \<noteq> UNUSED" using i me'(2) st[OF i(1), of UNUSED] by (cases "i = me") auto
    then show "p_parent (ptable k' ! i) \<noteq> None" using pids_distinct(3)[OF t1 i(1)] i(2) e(3)[OF i(1)] L1(2) by simp
  next
    fix i q assume i: "i < (64 :: nat)" "p_parent (ptable k' ! i) = Some q"
    have "q < 64 \<and> q \<noteq> i \<and> q \<noteq> me \<and> alive (p_state (ptable k1 ! q))"
    proof (cases "p_parent (ptable k1 ! i) = Some me")
      case True
      then have "i \<noteq> initproc k" using d1(12) L1(2) by auto
      then show ?thesis using True i e(3)[OF i(1)] d(2) me(3) d1(3) L1(2) by auto
    next
      case False
      then show ?thesis using i e(3)[OF i(1)] d1(9)[OF i(1), of q] by auto
    qed
    then show "q < 64" "q \<noteq> i" "alive (p_state (ptable k' ! q))" using al[of q] by simp_all
  qed
  moreover have "no_lost_exit k'"
    unfolding no_lost_exit_def
  proof (intro allI impI)
    fix q i
    assume q: "q < (64 :: nat)" "i < (64 :: nat)" "p_state (ptable k' ! q) = SLEEPING \<and> p_chan (ptable k' ! q) = ProcChan q \<and> p_parent (ptable k' ! i) = Some q"
    then have qm: "q \<noteq> me" using me'(1) by auto
    then have s1: "p_state (ptable k1 ! q) = SLEEPING" "p_chan (ptable k1 ! q) = ProcChan q" using q(3) e(4)[OF q(1)] e(5)[OF q(1)] by auto
    have s2: "p_state (ptable k2 ! q) = SLEEPING" "p_chan (ptable k2 ! q) = ProcChan q" using q(3) qm nth[OF q(1)] by auto
    show "p_state (ptable k' ! i) \<noteq> ZOMBIE"
    proof (cases "p_parent (ptable k1 ! i) = Some me")
      case True
      then have "q = initproc k" using q(3) e(3)[OF q(2)] by simp
      then have "p_state (ptable k1 ! i) \<noteq> ZOMBIE"
        using conjunct2[OF conjunct2[OF conjunct2[OF conjunct2[OF conjunct2[OF R]]]]] True q(2) s2 by auto
      moreover have "i \<noteq> me" using True d1(9)[OF q(2)] by blast
      ultimately show ?thesis using st[OF q(2), of ZOMBIE] by simp
    next
      case False
      then have pq: "p_parent (ptable k1 ! i) = Some q" using q(3) e(3)[OF q(2)] by simp
      have "i \<noteq> me" using par[of q] pq q(1) s1 e1(1)[OF q(2)] by auto
      moreover have "p_state (ptable k1 ! i) \<noteq> ZOMBIE" using t1 q s1 pq unfolding table_ok_def no_lost_exit_def by blast
      ultimately show ?thesis using st[OF q(2), of ZOMBIE] by simp
    qed
  qed
  moreover have "refs_ok e k' = refs_ok e k"
    by (rule refs_ok_ofiles) (use L d(1) e(2) in \<open>auto simp: list_eq_iff_nth_eq\<close>)
  ultimately show ?thesis using t(2) me'(1) by (simp add: table_ok_def)
qed

lemma exit_ok:
  assumes x: "exit me k = Inr k'" and t: "table_ok k" "refs_ok e k" and me: "me < NPROC" "alive (p_state (ptable k ! me))"
  shows "table_ok k' \<and> refs_ok e k' \<and> p_state (ptable k' ! me) = ZOMBIE"
proof -
  from x obtain k1 k2 where k: "me \<noteq> initproc k" "exit_files [0..<NOFILE] me k = Inr k1" "put_cwd me k1 = Inr k2" "exit_final me k2 = Inr k'"
    by (auto simp: exit_def kbind_Inr split: if_splits)
  note d = table_okD[OF t(1)]
  have c: "tame k k1" "refs_ok e k1" "\<forall>fd < NOFILE. p_ofile (ptable k1 ! me) ! fd = None"
    using exit_files_ok[OF k(2) t me] by auto
  note t1 = tame_table[OF c(1) t(1)]
  have L1: "length (ptable k1) = 64" "initproc k1 = initproc k" using c(1) d(1) by (simp_all add: tame_def)
  have "tame_proc me (ptable k ! me) (ptable k1 ! me)" using c(1) me(1) d(1) by (simp add: tame_def)
  then have a1: "alive (p_state (ptable k1 ! me))" using me(2) by (auto simp: tame_proc_def)
  have o1: "p_ofile (ptable k1 ! me) = replicate NOFILE None"
    using c(3) table_okD(6)[OF t1 me(1)] by (simp add: list_eq_iff_nth_eq)
  obtain s where "k2 = upd_proc me (\<lambda>p. p\<lparr>p_cwd := None\<rparr>) (k1\<lparr>fs := s\<rparr>)"
    using k(3) by (auto simp: put_cwd_def kbind_Inr split: option.splits dest!: do_fs_Inr)
  then have k2: "k2 = upd_proc me (\<lambda>p. p\<lparr>p_cwd := None\<rparr>) (k1\<lparr>fs := s\<rparr>)" .
  have L: "me < length (ptable (k1\<lparr>fs := s\<rparr>))" using me(1) L1 by simp
  have "tame (k1\<lparr>fs := s\<rparr>) k2" unfolding k2 by (rule tame_upd[OF L]) (simp add: tame_proc_def a1)
  then have t2: "table_ok k2" using tame_table t1 by fastforce
  have r2: "refs_ok e k2" unfolding k2 using refs_ok_upd_proc[OF L, of "\<lambda>p. p\<lparr>p_cwd := None\<rparr>" e] c(2) by simp
  have m2: "alive (p_state (ptable k2 ! me))" "p_ofile (ptable k2 ! me) = replicate NOFILE None" "me \<noteq> initproc k2"
    using a1 o1 me(1) L1 k(1) by (simp_all add: k2)
  show ?thesis by (rule exit_final_ok[OF k(4) t2 r2 me(1) m2(1,3,2)])
qed

section \<open>File system calls\<close>

text \<open>The two invariants together; \<open>kinv\<close> is kept by an operation of a live process.\<close>

definition kinv :: "(nat \<Rightarrow> int) \<Rightarrow> nat \<Rightarrow> 'd kern \<Rightarrow> bool" where
  "kinv e me k \<longleftrightarrow> table_ok k \<and> refs_ok e k \<and> me < NPROC \<and> alive (p_state (ptable k ! me))"

lemma kinvD:
  assumes "kinv e me k"
  shows "table_ok k" "refs_ok e k" "me < NPROC" "alive (p_state (ptable k ! me))" "me < length (ptable k)" "length (p_ofile (ptable k ! me)) = NOFILE"
  using assms table_okD(1,6)[of k] by (auto simp: kinv_def)

lemma kinv_fs [simp]: "kinv e me (k\<lparr>fs := s\<rparr>) = kinv e me k" "kinv e me (k\<lparr>pipes := pp\<rparr>) = kinv e me k"
  by (simp_all add: kinv_def)

lemma kinv_tame: "kinv e me k \<Longrightarrow> tame k k' \<Longrightarrow> refs_ok e' k' \<Longrightarrow> kinv e' me k'"
proof -
  assume h: "kinv e me k" "tame k k'" "refs_ok e' k'"
  note d = kinvD[OF h(1)]
  have "tame_proc me (ptable k ! me) (ptable k' ! me)" using h(2) d(5) by (simp add: tame_def)
  then have "alive (p_state (ptable k' ! me))" using d(4) by (auto simp: tame_proc_def)
  then show "kinv e' me k'" using tame_table[OF h(2) d(1)] h(3) d(3) by (simp add: kinv_def)
qed

lemma kinv_do_fs: "do_fs g k = Inr k' \<Longrightarrow> kinv e me k \<Longrightarrow> kinv e me k'"
  using do_fs_Inr by fastforce

lemma kinv_in_fs: "in_fs g k = Inr (a, k') \<Longrightarrow> kinv e me k \<Longrightarrow> kinv e me k'"
  using in_fs_Inr by fastforce

lemma kinv_file: "kinv e me k \<Longrightarrow> f_ref (h (ftable k ! f)) = f_ref (ftable k ! f) \<Longrightarrow> kinv e me (upd_file f h k)"
proof -
  assume k: "kinv e me k" "f_ref (h (ftable k ! f)) = f_ref (ftable k ! f)"
  have "refs_ok e (upd_file f h k)"
  proof (cases "f < NFILE")
    case True
    then show ?thesis using refs_ok_ref[OF kinvD(2)[OF k(1)] True, of "h (ftable k ! f)" 0] k(2) by simp
  next
    case False
    then show ?thesis using kinvD(2)[OF k(1)] by (simp add: refs_ok_def descriptors_def list_update_beyond)
  qed
  then show ?thesis by (intro kinv_tame[OF k(1)] tame_refl) simp_all
qed

lemma kinv_fileclose: "fileclose f k = Inr k' \<Longrightarrow> kinv e me k \<Longrightarrow> f < NFILE \<Longrightarrow> kinv (e(f := e f - 1)) me k'"
  using fileclose_ok kinv_tame woken_tame kinvD(2) by blast

lemma kinv_filedup: "filedup f k = Inr k' \<Longrightarrow> kinv e me k \<Longrightarrow> f < NFILE \<Longrightarrow> kinv (e(f := e f + 1)) me k'"
  using filedup_ok[of f k k' e] kinv_tame[of e me k k'] tame_refl[of k' k] kinvD(2) by metis

lemma kinv_filealloc: "filealloc k = (Some f, k') \<Longrightarrow> kinv e me k \<Longrightarrow> kinv (e(f := e f + 1)) me k' \<and> f < NFILE"
proof -
  assume h: "filealloc k = (Some f, k')" "kinv e me k"
  note a = filealloc_ok[OF h(1) kinvD(2)[OF h(2)]]
  have "tame k k'" unfolding a(4) by (rule tame_refl) simp_all
  then show ?thesis using kinv_tame[OF h(2) _ a(3)] a(1) by blast
qed

lemma filealloc_None: "filealloc k = (None, k') \<Longrightarrow> k' = k"
  by (auto simp: filealloc_def split: option.splits)

lemma kinv_clear:
  assumes "kinv e me k" "fd < NOFILE" "p_ofile (ptable k ! me) ! fd = Some f"
  shows "kinv (e(f := e f + 1)) me (clear_fd me fd k)" "f < NFILE"
proof -
  note d = kinvD[OF assms(1)]
  have L: "fd < length (p_ofile (ptable k ! me))" using d(6) assms(2) by simp
  note r = refs_ok_clear[OF d(2,5) L assms(3)]
  show "f < NFILE" by (rule r(2))
  have "tame k (clear_fd me fd k)" unfolding clear_fd_def by (rule tame_upd[OF d(5)]) (simp add: tame_proc_def d(4))
  then show "kinv (e(f := e f + 1)) me (clear_fd me fd k)" by (rule kinv_tame[OF assms(1) _ r(1)])
qed

lemma fdalloc_None: "fdalloc me f k = (None, k') \<Longrightarrow> k' = k"
  by (auto simp: fdalloc_def split: option.splits)

lemma fdalloc_Some:
  assumes "fdalloc me f k = (Some fd, k')"
  shows "fd < NOFILE" "p_ofile (ptable k ! me) ! fd = None" "\<forall>j < fd. p_ofile (ptable k ! me) ! j \<noteq> None"
    "k' = upd_proc me (\<lambda>p. p\<lparr>p_ofile := (p_ofile p)[fd := Some f]\<rparr>) k"
proof -
  obtain g where fd: "List.find (\<lambda>fd. p_ofile (ptable k ! me) ! fd = None) [0..<NOFILE] = Some g"
    using assms unfolding fdalloc_def by (cases "List.find (\<lambda>fd. p_ofile (ptable k ! me) ! fd = None) [0..<NOFILE]") auto
  then have g: "g = fd" "k' = upd_proc me (\<lambda>p. p\<lparr>p_ofile := (p_ofile p)[fd := Some f]\<rparr>) k" using assms unfolding fdalloc_def by auto
  show "fd < NOFILE" "p_ofile (ptable k ! me) ! fd = None" "\<forall>j < fd. p_ofile (ptable k ! me) ! j \<noteq> None"
    using fd[unfolded find_upt_Some] g(1) by auto
  show "k' = upd_proc me (\<lambda>p. p\<lparr>p_ofile := (p_ofile p)[fd := Some f]\<rparr>) k" by (rule g(2))
qed

lemma kinv_fdalloc:
  assumes "fdalloc me f k = (Some fd, k')" "kinv e me k" "f < NFILE"
  shows "kinv (e(f := e f - 1)) me k'" "p_ofile (ptable k' ! me) ! fd = Some f"
proof -
  note d = kinvD[OF assms(2)] and a = fdalloc_Some[OF assms(1)]
  have L: "fd < length (p_ofile (ptable k ! me))" using d(6) a(1) by simp
  have "refs_ok (e(f := e f - 1)) k'" unfolding a(4) by (rule refs_ok_store[OF d(2,5) L a(2) assms(3)])
  moreover have "tame k k'" unfolding a(4) by (rule tame_upd[OF d(5)]) (simp add: tame_proc_def d(4))
  ultimately show "kinv (e(f := e f - 1)) me k'" using kinv_tame[OF assms(2)] by blast
  show "p_ofile (ptable k' ! me) ! fd = Some f" using d(5) L by (simp add: a(4))
qed

lemma kinv_dup:
  assumes "dup_file me f k = Inr (r, k')" "kinv e me k" "f < NFILE"
  shows "kinv e me k'"
proof -
  obtain o1 k1 where a: "fdalloc me f k = (o1, k1)" by (cases "fdalloc me f k")
  show ?thesis
  proof (cases o1)
    case None
    then show ?thesis using a assms fdalloc_None[of me f k k1] by (simp add: dup_file_def)
  next
    case (Some fd)
    then have "filedup f k1 = Inr k'" using assms(1) a by (auto simp: dup_file_def kbind_Inr)
    from kinv_filedup[OF this kinv_fdalloc(1)[OF a[unfolded Some] assms(2,3)] assms(3)] show ?thesis by simp
  qed
qed

lemma kinv_close:
  assumes "close_fd me fd f k = Inr (r, k')" "kinv e me k" "fd < NOFILE" "p_ofile (ptable k ! me) ! fd = Some f"
  shows "kinv e me k'"
proof -
  have "fileclose f (clear_fd me fd k) = Inr k'" using assms(1) by (auto simp: close_fd_def kbind_Inr)
  from kinv_fileclose[OF this kinv_clear[OF assms(2-4)]] show ?thesis by simp
qed

lemma kinv_open_fail: "open_fail ip k = Inr (r, k') \<Longrightarrow> kinv e me k \<Longrightarrow> kinv e me k'"
  by (auto simp: open_fail_def kbind_Inr intro: kinv_do_fs)

lemma kinv_open:
  assumes "open_path me path omode k = Inr (r, k')" "kinv e me k"
  shows "kinv e me k'"
proof -
  from assms(1) obtain k0 ri k1 where k: "do_fs fs_begin_op k = Inr k0" "in_fs (open_inode (cwd_of me k0) path omode) k0 = Inr (ri, k1)"
    by (auto simp: open_path_def kbind_Inr)
  have v1: "kinv e me k1" using kinv_in_fs[OF k(2) kinv_do_fs[OF k(1) assms(2)]] .
  show ?thesis
  proof (cases ri)
    case None
    then show ?thesis using assms(1) k v1 by (auto simp: open_path_def kbind_Inr intro: kinv_do_fs)
  next
    case (Some ip)
    obtain fo k2 where a: "filealloc k1 = (fo, k2)" by (cases "filealloc k1")
    show ?thesis
    proof (cases fo)
      case None
      then have "open_fail ip k2 = Inr (r, k')" using assms(1) k Some a by (simp add: open_path_def)
      then show ?thesis using kinv_open_fail v1 filealloc_None[OF a[unfolded None]] by blast
    next
      case fo: (Some f)
      note v2 = kinv_filealloc[OF a[unfolded fo] v1]
      obtain fdo k3 where b: "fdalloc me f k2 = (fdo, k3)" by (cases "fdalloc me f k2")
      show ?thesis
      proof (cases fdo)
        case None
        then obtain k4 where k4: "fileclose f k3 = Inr k4" "open_fail ip k4 = Inr (r, k')"
          using assms(1) k Some a fo b by (auto simp: open_path_def kbind_Inr)
        have "k3 = k2" using fdalloc_None b None by blast
        then have "kinv e me k4" using kinv_fileclose[OF k4(1)[unfolded \<open>k3 = k2\<close>], of "e(f := e f + 1)" me] v2 by simp
        then show ?thesis using kinv_open_fail k4(2) by blast
      next
        case fdo: (Some fd)
        have "kinv e me k3" using kinv_fdalloc(1)[OF b[unfolded fdo], of "e(f := e f + 1)"] v2 by simp
        then show ?thesis using assms(1) k Some a fo b fdo
          by (auto simp: open_path_def kbind_Inr intro!: kinv_file intro: kinv_do_fs)
      qed
    qed
  qed
qed

lemma kinv_pipealloc:
  assumes "pipealloc page k = Inr (r, k')" "kinv e me k"
  shows "case r of None \<Rightarrow> kinv e me k'
    | Some (f0, f1) \<Rightarrow> f0 < NFILE \<and> f1 < NFILE \<and> f0 \<noteq> f1 \<and> kinv (e(f0 := e f0 + 1, f1 := e f1 + 1)) me k'"
proof -
  obtain o0 k1 where a: "filealloc k = (o0, k1)" by (cases "filealloc k")
  show ?thesis
  proof (cases o0)
    case None
    then show ?thesis using assms a filealloc_None[of k k1] by (auto simp: pipealloc_def)
  next
    case (Some f0)
    note v1 = kinv_filealloc[OF a[unfolded Some] assms(2)]
    obtain o1 k2 where b: "filealloc k1 = (o1, k2)" by (cases "filealloc k1")
    show ?thesis
    proof (cases o1)
      case None
      then obtain k3 where k3: "fileclose f0 k2 = Inr k3" "k' = k3" "r = None" using assms a Some b by (auto simp: pipealloc_def kbind_Inr)
      have "kinv (e(f0 := e f0 + 1)) me k2" using v1 filealloc_None b None by blast
      then have "kinv e me k3" using kinv_fileclose[OF k3(1)] v1 by fastforce
      then show ?thesis using k3 by simp
    next
      case o1: (Some f1)
      note v2 = kinv_filealloc[OF b[unfolded o1] conjunct1[OF v1]]
      have r0: "f_ref (ftable k1 ! f0) = 1"
        using filealloc_ok[OF a[unfolded Some] kinvD(2)[OF assms(2)]] kinvD(2)[OF assms(2)] by (simp add: refs_ok_def)
      have "f_ref (ftable k1 ! f1) = 0" using filealloc_ok(2)[OF b[unfolded o1] kinvD(2)[OF conjunct1[OF v1]]] .
      then have ne: "f0 \<noteq> f1" using r0 by auto
      show ?thesis
      proof (cases page)
        case None
        then obtain k3 k4 where k3: "fileclose f0 k2 = Inr k3" "fileclose f1 k3 = Inr k4" "k' = k4" "r = None"
          using assms a Some b o1 by (auto simp: pipealloc_def kbind_Inr)
        have "kinv (e(f1 := e f1 + 1)) me k3"
          using kinv_fileclose[OF k3(1) conjunct1[OF v2]] v1 ne by (simp add: fun_upd_twist)
        then have "kinv e me k4" using kinv_fileclose[OF k3(2)] v2 by fastforce
        then show ?thesis using k3 by simp
      next
        case pg: (Some q)
        obtain i junk where q: "q = (i, junk)" by (cases q)
        have r: "r = Some (f0, f1)" "k' = upd_file f1 (\<lambda>x. x\<lparr>f_type := FD_PIPE, f_readable := False, f_writable := True, f_pipe := i\<rparr>)
            (upd_file f0 (\<lambda>x. x\<lparr>f_type := FD_PIPE, f_readable := True, f_writable := False, f_pipe := i\<rparr>)
              (k2\<lparr>pipes := (pipes k2)(i := Some (pipe_init junk))\<rparr>))"
          using assms(1) a Some b o1 pg q by (simp_all add: pipealloc_def)
        have "kinv (e(f0 := e f0 + 1, f1 := (e(f0 := e f0 + 1)) f1 + 1)) me k'"
          unfolding r(2) by (rule kinv_file[OF kinv_file]) (simp_all only: kinv_fs v2, simp_all)
        then show ?thesis using r(1) v1 v2 ne by simp
      qed
    qed
  qed
qed

lemma kinv_make_pipe:
  assumes "make_pipe page me k = Inr (r, k')" "kinv e me k"
  shows "kinv e me k'"
proof -
  obtain r1 k1 where p: "pipealloc page k = Inr (r1, k1)" using assms(1) by (auto simp: make_pipe_def kbind_Inr)
  note v = kinv_pipealloc[OF p assms(2)]
  show ?thesis
  proof (cases r1)
    case None
    then show ?thesis using v p assms(1) by (auto simp: make_pipe_def)
  next
    case (Some q)
    obtain f0 f1 where q: "q = (f0, f1)" by (cases q)
    have v1: "f0 < NFILE" "f1 < NFILE" "f0 \<noteq> f1" "kinv (e(f0 := e f0 + 1, f1 := e f1 + 1)) me k1" using v Some q by auto
    obtain o0 k2 where a: "fdalloc me f0 k1 = (o0, k2)" by (cases "fdalloc me f0 k1")
    have close: "kinv e me k4"
      if "kinv (e(f0 := e f0 + 1, f1 := e f1 + 1)) me k2" "fileclose f0 k2 = Inr k3" "fileclose f1 k3 = Inr k4" for k2 k3 k4
    proof -
      have "kinv (e(f1 := e f1 + 1)) me k3" using kinv_fileclose[OF that(2,1) v1(1)] v1(3) by (simp add: fun_upd_twist)
      then show ?thesis using kinv_fileclose[OF that(3) _ v1(2)] by fastforce
    qed
    show ?thesis
    proof (cases o0)
      case None
      then obtain k3 k4 where "fileclose f0 k2 = Inr k3" "fileclose f1 k3 = Inr k4" "k' = k4"
        using assms(1) p Some q a by (auto simp: make_pipe_def kbind_Inr)
      moreover have "k2 = k1" using fdalloc_None a None by blast
      ultimately show ?thesis using close v1(4) by blast
    next
      case o0: (Some fd0)
      have v2: "kinv (e(f1 := e f1 + 1)) me k2" "p_ofile (ptable k2 ! me) ! fd0 = Some f0"
        using kinv_fdalloc[OF a[unfolded o0] v1(4,1)] v1(3) by (simp_all add: fun_upd_twist)
      obtain o1 k3 where b: "fdalloc me f1 k2 = (o1, k3)" by (cases "fdalloc me f1 k2")
      show ?thesis
      proof (cases o1)
        case None
        then obtain k4 k5 where k4: "fileclose f0 (clear_fd me fd0 k3) = Inr k4" "fileclose f1 k4 = Inr k5" "k' = k5"
          using assms(1) p Some q a o0 b by (auto simp: make_pipe_def kbind_Inr)
        have "k3 = k2" using fdalloc_None b None by blast
        then have "kinv (e(f1 := e f1 + 1, f0 := (e(f1 := e f1 + 1)) f0 + 1)) me (clear_fd me fd0 k3)"
          using kinv_clear(1)[OF v2(1) fdalloc_Some(1)[OF a[unfolded o0]] v2(2)] by simp
        then show ?thesis using close[OF _ k4(1,2)] k4(3) v1(3) by (simp add: fun_upd_twist)
      next
        case o1: (Some fd1)
        then have "k' = k3" using assms(1) p Some q a o0 b by (simp add: make_pipe_def)
        then show ?thesis using kinv_fdalloc(1)[OF b[unfolded o1] v2(1) v1(2)] by simp
      qed
    qed
  qed
qed

lemma kinv_wake: "kinv e me k \<Longrightarrow> kinv e me (if b then wakeup ch k else k)"
  using wakeup_tame[of k ch e] kinv_tame[of e me k] kinvD(2)[of e me k] by auto

lemma kinv_sleep: "sleep me ch k = Inr k' \<Longrightarrow> kinv e me k \<Longrightarrow> ch \<noteq> ProcChan me \<Longrightarrow> kinv e me k'"
  using sleep_tame[of me ch k k' e] kinv_tame[of e me k k'] kinvD by metis

text \<open>A run of a pipe call, as read and write have it: wake, store the pipe, maybe sleep.\<close>

lemma kinv_pipe_run:
  assumes "kinv e me k" "ch \<noteq> ProcChan me"
    "(if out = Sleep then kbind (sleep me ch ((if wake then wakeup c k else k)\<lparr>pipes := pp\<rparr>)) (\<lambda>k2. Inr (out, bs, k2))
      else Inr (out, bs, (if wake then wakeup c k else k)\<lparr>pipes := pp\<rparr>)) = Inr (r, bs', k')"
  shows "kinv e me k'"
proof -
  have v: "kinv e me ((if wake then wakeup c k else k)\<lparr>pipes := pp\<rparr>)" using kinv_wake[OF assms(1)] by (simp only: kinv_fs)
  show ?thesis
  proof (cases "out = Sleep")
    case True
    then obtain k2 where "sleep me ch ((if wake then wakeup c k else k)\<lparr>pipes := pp\<rparr>) = Inr k2" "k' = k2"
      using assms(3) by (auto simp: kbind_Inr)
    then show ?thesis using kinv_sleep[OF _ v assms(2)] by blast
  next
    case False
    then show ?thesis using assms(3) v by auto
  qed
qed

lemma kinv_read_pipe: "read_pipe me i n k = Inr (r, bs, k') \<Longrightarrow> kinv e me k \<Longrightarrow> kinv e me k'"
  unfolding read_pipe_def Let_def by (auto split: option.splits prod.splits elim!: kinv_pipe_run[rotated 2])

lemma kinv_write_pipe: "write_pipe me i n bs k = Inr (r, rest, k') \<Longrightarrow> kinv e me k \<Longrightarrow> kinv e me k'"
  unfolding write_pipe_def Let_def by (auto split: option.splits prod.splits elim!: kinv_pipe_run[rotated 2])

lemma kinv_off: "kinv e me k \<Longrightarrow> kinv e me (if b then upd_file f (\<lambda>x. x\<lparr>f_off := g x\<rparr>) k else k)"
  by (auto intro!: kinv_file)

lemma kinv_fileread:
  assumes "fileread me f n k = Inr (r, bs, k')" "kinv e me k"
  shows "kinv e me k'"
proof (cases "f_readable (ftable k ! f)")
  case False
  then show ?thesis using assms by (simp add: fileread_def Let_def)
next
  case True
  show ?thesis
  proof (cases "f_type (ftable k ! f)")
    case FD_PIPE
    then show ?thesis using assms True kinv_read_pipe by (simp add: fileread_def Let_def) blast
  next
    case FD_INODE
    then obtain k1 r1 b1 s1 k4 where k: "do_fs (ilock (f_ip (ftable k ! f))) k = Inr k1" "k' = k4"
      "do_fs (iunlock (f_ip (ftable k ! f))) (if 0 < r1 then upd_file f (\<lambda>x. x\<lparr>f_off := (f_off x + nat r1) mod 2 ^ 32\<rparr>) (k1\<lparr>fs := s1\<rparr>) else k1\<lparr>fs := s1\<rparr>) = Inr k4"
      using assms(1) True by (auto simp: fileread_def Let_def kbind_Inr)
    have v1: "kinv e me (k1\<lparr>fs := s1\<rparr>)" using kinv_do_fs[OF k(1) assms(2)] by simp
    show ?thesis unfolding k(2) by (rule kinv_do_fs[OF k(3)], rule kinv_off, rule v1)
  next
    case FD_NONE
    then show ?thesis using assms True by (simp add: fileread_def Let_def)
  qed
qed

lemma kinv_write_chunk:
  assumes "write_chunk f bs k = Inr (r, k')" "kinv e me k"
  shows "kinv e me k'"
proof -
  let ?ip = "f_ip (ftable k ! f)"
  obtain k1 k2 k3 k5 where k: "do_fs fs_begin_op k = Inr k1" "do_fs (ilock ?ip) k1 = Inr k2"
    "in_fs (writei ?ip bs (f_off (ftable k ! f))) k2 = Inr (r, k3)"
    "do_fs (iunlock ?ip) (if 0 < r then upd_file f (\<lambda>x. x\<lparr>f_off := (f_off x + nat r) mod 2 ^ 32\<rparr>) k3 else k3) = Inr k5"
    "do_fs fs_end_op k5 = Inr k'"
    using assms(1) by (auto simp: write_chunk_def Let_def kbind_Inr)
  have v3: "kinv e me k3" using kinv_in_fs[OF k(3) kinv_do_fs[OF k(2) kinv_do_fs[OF k(1) assms(2)]]] .
  show ?thesis by (rule kinv_do_fs[OF k(5)], rule kinv_do_fs[OF k(4)], rule kinv_off, rule v3)
qed

lemma kinv_write_loop: "write_loop f bs k = Inr (ok, k') \<Longrightarrow> kinv e me k \<Longrightarrow> kinv e me k'"
proof (induction f bs k arbitrary: ok k' rule: write_loop.induct)
  case (1 f bs k)
  show ?case
  proof (cases "bs = []")
    case True
    then show ?thesis using 1 by (simp add: write_loop.simps)
  next
    case False
    let ?n = "min (length bs) wmax"
    from 1(2) False obtain r k1 where c: "write_chunk f (take ?n bs) k = Inr (r, k1)" and
      l: "(if r < 0 then Inr (False, k1) else if r \<noteq> int ?n then panic ''short filewrite'' else write_loop f (drop ?n bs) k1) = Inr (ok, k')"
      by (subst (asm) write_loop.simps) (auto simp: Let_def kbind_Inr)
    note v1 = kinv_write_chunk[OF c 1(3)]
    show ?thesis
    proof (cases "r < 0 \<or> r \<noteq> int ?n")
      case True
      then show ?thesis using l v1 by (auto split: if_splits)
    next
      case False
      then have "write_loop f (drop ?n bs) k1 = Inr (ok, k')" using l by simp
      then show ?thesis using 1(1)[OF \<open>bs \<noteq> []\<close> refl _ _ _ v1] False by simp
    qed
  qed
qed

lemma kinv_filewrite:
  assumes "filewrite me f n bs k = Inr (r, rest, k')" "kinv e me k"
  shows "kinv e me k'"
proof (cases "f_writable (ftable k ! f)")
  case False
  then show ?thesis using assms by (simp add: filewrite_def Let_def)
next
  case True
  show ?thesis
  proof (cases "f_type (ftable k ! f)")
    case FD_PIPE
    then show ?thesis using assms True kinv_write_pipe by (simp add: filewrite_def Let_def) blast
  next
    case FD_INODE
    then obtain ok where "write_loop f bs k = Inr (ok, k')" using assms(1) True by (auto simp: filewrite_def Let_def kbind_Inr)
    then show ?thesis using kinv_write_loop assms(2) by blast
  next
    case FD_NONE
    then show ?thesis using assms True by (simp add: filewrite_def Let_def)
  qed
qed

lemma kinv_filestat: "filestat f k = Inr (st, k') \<Longrightarrow> kinv e me k \<Longrightarrow> kinv e me k'"
  by (auto simp: filestat_def Let_def kbind_Inr split: if_splits intro: kinv_do_fs)

lemma kinv_upd:
  assumes "kinv e me k" "tame_proc me (ptable k ! me) (g (ptable k ! me))" "p_ofile (g (ptable k ! me)) = p_ofile (ptable k ! me)"
  shows "kinv e me (upd_proc me g k)"
proof -
  have "tame k (upd_proc me g k)" by (rule tame_upd[OF kinvD(5)[OF assms(1)]]) (rule assms(2))
  moreover have "refs_ok e (upd_proc me g k)" using refs_ok_upd_proc[OF kinvD(5)[OF assms(1)], of g e] assms(3) kinvD(2)[OF assms(1)] by simp
  ultimately show ?thesis using kinv_tame[OF assms(1)] by blast
qed

lemma kinv_chdir: "sys_chdir me m k = Inr (r, k') \<Longrightarrow> kinv e me k \<Longrightarrow> kinv e me k'"
proof -
  assume h: "sys_chdir me m k = Inr (r, k')" "kinv e me k"
  show ?thesis
  proof (cases "argstr me m 0 k")
    case None
    then show ?thesis using h kinv_in_fs[of empty_op k r k'] by (simp add: sys_chdir_def)
  next
    case (Some path)
    then obtain k0 ri k1 where k: "do_fs fs_begin_op k = Inr k0" "in_fs (namei (cwd_of me k0) path) k0 = Inr (ri, k1)"
      using h(1) by (auto simp: sys_chdir_def kbind_Inr)
    have v1: "kinv e me k1" using kinv_in_fs[OF k(2) kinv_do_fs[OF k(1) h(2)]] .
    show ?thesis
    proof (cases ri)
      case None
      then show ?thesis using h(1) Some k v1 by (auto simp: sys_chdir_def kbind_Inr intro: kinv_do_fs)
    next
      case ip: (Some ip)
      then obtain k2 where k2: "do_fs (ilock ip) k1 = Inr k2" using h(1) Some k by (auto simp: sys_chdir_def kbind_Inr)
      note v2 = kinv_do_fs[OF k2 v1]
      show ?thesis
      proof (cases "i_type (icache (fs k2) ! ip) = T_DIR")
        case False
        then show ?thesis using h(1) Some k ip k2 v2 by (auto simp: sys_chdir_def kbind_Inr intro: kinv_do_fs)
      next
        case True
        then obtain k3 k4 k5 where k3: "do_fs (iunlock ip) k2 = Inr k3" "do_fs (iput (cwd_of me k3)) k3 = Inr k4" "do_fs fs_end_op k4 = Inr k5"
          "k' = upd_proc me (\<lambda>p. p\<lparr>p_cwd := Some ip\<rparr>) k5"
          using h(1) Some k ip k2 by (auto simp: sys_chdir_def kbind_Inr)
        have v5: "kinv e me k5" using kinv_do_fs[OF k3(3) kinv_do_fs[OF k3(2) kinv_do_fs[OF k3(1) v2]]] .
        show ?thesis unfolding k3(4) by (rule kinv_upd[OF v5]) (simp_all add: tame_proc_def)
      qed
    qed
  qed
qed

end
