(* ===== verification/Proc_Run.thy ===== *)
theory Proc_Run
  imports Proc_Inv
begin

text \<open>
  Runs of the kernel: the steps of the processes that are running, in any order, from the state
  that \<open>userinit\<close> leaves. A system call is one step; a call that sleeps ends with the sleep and is
  made again when the process runs (a resumed call is one of the calls the process could make
  anew). Results: the invariants of \<open>Proc_Inv\<close> hold in every reachable state.
\<close>

section \<open>Steps\<close>

inductive syscall :: "nat \<Rightarrow> 'd kern \<Rightarrow> 'd kern \<Rightarrow> bool" where
  sc_fork: "fork kst pgd me k = Inr (r, k') \<Longrightarrow> syscall me k k'"
| sc_exit: "exit me k = Inr k' \<Longrightarrow> syscall me k k'"
| sc_wait: "wait me k = Inr (w, k') \<Longrightarrow> syscall me k k'"
| sc_kill: "kill pid k = (r, k') \<Longrightarrow> syscall me k k'"
| sc_sbrk: "sys_sbrk alloc dealloc me n k = (r, k') \<Longrightarrow> syscall me k k'"
| sc_sleep: "sys_sleep_pass me t0 n k = Inr (w, k') \<Longrightarrow> syscall me k k'"
| sc_dup: "sys_dup me m k = Inr (r, k') \<Longrightarrow> syscall me k k'"
| sc_close: "sys_close me m k = Inr (r, k') \<Longrightarrow> syscall me k k'"
| sc_read: "sys_read me m k = Inr (w, bs, k') \<Longrightarrow> syscall me k k'"
| sc_write: "sys_write me m k = Inr (w, rest, k') \<Longrightarrow> syscall me k k'"
| sc_write_more: "write_pipe me i n bs k = Inr (w, rest, k') \<Longrightarrow> syscall me k k'"
| sc_fstat: "sys_fstat me m k = Inr (r, st, k') \<Longrightarrow> syscall me k k'"
| sc_link: "sys_link me m k = Inr (r, k') \<Longrightarrow> syscall me k k'"
| sc_unlink: "sys_unlink me m k = Inr (r, k') \<Longrightarrow> syscall me k k'"
| sc_open: "sys_open me m k = Inr (r, k') \<Longrightarrow> syscall me k k'"
| sc_mkdir: "sys_mkdir me m k = Inr (r, k') \<Longrightarrow> syscall me k k'"
| sc_mknod: "sys_mknod me m k = Inr (r, k') \<Longrightarrow> syscall me k k'"
| sc_chdir: "sys_chdir me m k = Inr (r, k') \<Longrightarrow> syscall me k k'"
| sc_pipe: "sys_pipe page me m k = Inr (r, fds, k') \<Longrightarrow> syscall me k k'"

text \<open>A step: the scheduler dispatches a process, a running process gives up the processor, sleeps
  on something else than itself or makes a call, or an interrupt wakes sleepers.\<close>

inductive kstep :: "'d kern \<Rightarrow> 'd kern \<Rightarrow> bool" where
  k_dispatch: "i < NPROC \<Longrightarrow> dispatch i k = Some k' \<Longrightarrow> kstep k k'"
| k_yield: "me < NPROC \<Longrightarrow> p_state (ptable k ! me) = RUNNING \<Longrightarrow> yield me k = Inr k' \<Longrightarrow> kstep k k'"
| k_sleep: "me < NPROC \<Longrightarrow> p_state (ptable k ! me) = RUNNING \<Longrightarrow> \<forall>i. ch \<noteq> ProcChan i \<Longrightarrow> sleep me ch k = Inr k' \<Longrightarrow> kstep k k'"
| k_syscall: "me < NPROC \<Longrightarrow> p_state (ptable k ! me) = RUNNING \<Longrightarrow> syscall me k k' \<Longrightarrow> kstep k k'"
| k_wakeup: "kstep k (wakeup ch k)"
| k_clock: "kstep k (clock_tick k)"

text \<open>The tables at boot: static data.\<close>

definition free_proc :: proc where
  "free_proc = \<lparr>p_sz = 0, p_pgdir = None, p_kstack = None, p_state = UNUSED, p_pid = 0, p_parent = None,
     p_tf = \<lparr>tf_eax = 0, tf_esp = 0, tf_eip = 0, tf_eflags = 0\<rparr>, p_chan = NoChan, p_killed = False,
     p_ofile = replicate NOFILE None, p_cwd = None, p_name = replicate 16 0\<rparr>"

definition free_file :: open_file where
  "free_file = \<lparr>f_type = FD_NONE, f_ref = 0, f_readable = False, f_writable = False, f_pipe = 0, f_ip = 0, f_off = 0\<rparr>"

definition boot_kern :: "'d fsys \<Rightarrow> 'd kern" where
  "boot_kern s = \<lparr>fs = s, ftable = replicate NFILE free_file, pipes = (\<lambda>_. None), ptable = replicate NPROC free_proc,
     nextpid = 1, initproc = 0, ticks = 0\<rparr>"

inductive kreach :: "'d kern \<Rightarrow> bool" where
  kr_boot: "userinit kst pgd (boot_kern s) = Inr k \<Longrightarrow> kreach k"
| kr_step: "kreach k \<Longrightarrow> kstep k k' \<Longrightarrow> kreach k'"

inductive_cases kstepE: "kstep k k'"

section \<open>The invariants hold in every reachable state\<close>

lemma boot_find: "List.find (\<lambda>i. p_state (ptable (boot_kern s) ! i) = UNUSED) [0..<length (ptable (boot_kern s))] = Some 0"
  by (simp add: find_upt_Some boot_kern_def free_proc_def)

lemma userinit_shape:
  assumes "userinit kst pgd (boot_kern s) = Inr k"
  shows "\<exists>p st. ptable k = (replicate NPROC free_proc)[0 := p] \<and> ftable k = replicate NFILE free_file \<and> nextpid k = 2 \<and> initproc k = 0 \<and>
    p_state p = RUNNABLE \<and> p_pid p = 1 \<and> p_parent p = None \<and> p_ofile p = replicate NOFILE None \<and> k = k\<lparr>fs := st\<rparr>"
proof (cases kst)
  case None
  then show ?thesis using assms by (simp add: userinit_def allocproc_def boot_find)
next
  case (Some a)
  show ?thesis
  proof (cases pgd)
    case None
    then show ?thesis using assms Some by (simp add: userinit_def allocproc_def boot_find)
  next
    case pg: (Some d)
    define k2 where "k2 = boot_kern s"
    obtain ip t where "k = upd_proc 0 (\<lambda>p. p\<lparr>p_cwd := ip, p_state := RUNNABLE\<rparr>)
        (boot_kern s\<lparr>fs := t, nextpid := 2, initproc := 0,
           ptable := (replicate NPROC free_proc)[0 := free_proc\<lparr>p_state := EMBRYO, p_pid := 1, p_kstack := Some a, p_pgdir := Some d, p_sz := 4096,
             p_tf := \<lparr>tf_eax = 0, tf_esp = 4096, tf_eip = 0, tf_eflags = FL_IF\<rparr>,
             p_name := set_name (p_name free_proc) (bytes_of ''initcode'')\<rparr>]\<rparr>)"
      using assms Some pg
      by (auto simp: userinit_def allocproc_def boot_find in_fs_def kbind_Inr Let_def) (simp add: boot_kern_def)
    then show ?thesis
      by (intro exI[of _ "ptable k ! 0"] exI[of _ t]) (simp add: boot_kern_def free_proc_def)
  qed
qed

lemma userinit_ok:
  assumes "userinit kst pgd (boot_kern s) = Inr k"
  shows "table_ok k \<and> refs_ok (\<lambda>_. 0) k"
proof -
  obtain p where p: "ptable k = (replicate NPROC free_proc)[0 := p]" "ftable k = replicate NFILE free_file" "nextpid k = 2" "initproc k = 0"
    "p_state p = RUNNABLE" "p_pid p = 1" "p_parent p = None" "p_ofile p = replicate NOFILE None"
    using userinit_shape[OF assms] by blast
  have nth: "ptable k ! i = (if i = 0 then p else free_proc)" if "i < 64" for i using that p(1) by (simp add: nth_list_update)
  have L: "length (ptable k) = 64" by (simp add: p(1))
  have "entries_ok k" unfolding entries_ok_def L p(3,4) using p(5-8) by (simp add: nth free_proc_def)
  moreover have "pids_ok k" unfolding pids_ok_def p(3) using p(5-8) by (simp add: nth free_proc_def)
  moreover have "parents_ok k" unfolding parents_ok_def p(4) using p(5-8) by (simp add: nth free_proc_def)
  moreover have "no_lost_exit k" unfolding no_lost_exit_def using p(5-8) by (auto simp: nth free_proc_def)
  moreover have "refs_ok (\<lambda>_. 0) k"
  proof -
    have all: "p_ofile q = replicate 16 None" if "q \<in> set (ptable k)" for q
      using that nth L p(8) by (auto simp: in_set_conv_nth free_proc_def)
    have c0: "count_list (replicate n (None :: nat option)) (Some f) = 0" for n f by (induction n) auto
    have m: "map (\<lambda>q. count_list (p_ofile q) (Some f)) (ptable k) = map (\<lambda>_. 0) (ptable k)" for f using all by (simp add: c0)
    have "descriptors k f = 0" for f unfolding descriptors_def m by simp
    then show ?thesis using p(2) all by (auto simp: refs_ok_def free_file_def)
  qed
  ultimately show ?thesis by (simp add: table_ok_def)
qed

lemma argfd_Some: "argfd me m n k = Some (fd, f) \<Longrightarrow> fd < NOFILE \<and> p_ofile (ptable k ! me) ! fd = Some f"
  by (auto simp: argfd_def split: option.splits if_splits)

lemma open_file_bound:
  assumes "kinv e me k" "fd < NOFILE" "p_ofile (ptable k ! me) ! fd = Some f"
  shows "f < NFILE"
  using kinv_clear(2)[OF assms] .

lemma syscall_kinv:
  assumes "syscall me k k'" "kinv (\<lambda>_. 0) me k"
  shows "table_ok k' \<and> refs_ok (\<lambda>_. 0) k'"
proof -
  note d = kinvD[OF assms(2)]
  have fin: "kinv (\<lambda>_. 0) me k' \<Longrightarrow> ?thesis" by (simp add: kinv_def)
  have ins: ?thesis if "in_fs g k = Inr (a :: int, k')" for g a using kinv_in_fs[OF that assms(2)] by (rule fin)
  from assms(1) show ?thesis
  proof cases
    case (sc_fork kst pgd r)
    then show ?thesis using fork_ok[OF _ d(1-4)] by blast
  next
    case sc_exit
    then show ?thesis using exit_ok[OF _ d(1-4)] by blast
  next
    case (sc_wait w)
    then show ?thesis using wait_ok[OF _ d(1-4)] by blast
  next
    case (sc_kill pid r)
    then show ?thesis using kill_tame[of pid k r k' "\<lambda>_. 0"] tame_table d(1,2) by blast
  next
    case (sc_sbrk alloc dealloc n r)
    then consider "k' = k" | v where "k' = upd_proc me (\<lambda>p. p\<lparr>p_sz := v\<rparr>) k"
      by (auto simp: sys_sbrk_def growproc_def Let_def split: prod.splits if_splits)
    then show ?thesis
    proof cases
      case 1
      then show ?thesis using d by simp
    next
      case 2
      have "kinv (\<lambda>_. 0) me k'" unfolding 2 by (rule kinv_upd[OF assms(2)]) (simp_all add: tame_proc_def)
      then show ?thesis by (rule fin)
    qed
  next
    case (sc_sleep t0 n w)
    then have "k' = k \<or> sleep me TicksChan k = Inr k'" by (auto simp: sys_sleep_pass_def kbind_Inr split: if_splits)
    then show ?thesis using kinv_sleep[OF _ assms(2)] d fin by fastforce
  next
    case (sc_dup m r)
    then show ?thesis
      using kinv_dup[OF _ assms(2) open_file_bound[OF assms(2)]] argfd_Some d fin
      by (auto simp: sys_dup_def split: option.splits) blast+
  next
    case (sc_close m r)
    then show ?thesis
      using kinv_close[OF _ assms(2)] argfd_Some d fin by (auto simp: sys_close_def split: option.splits) blast+
  next
    case (sc_read m w bs)
    then have "k' = k \<or> (\<exists>f n w' b. fileread me f n k = Inr (w', b, k'))"
      by (auto simp: sys_read_def kbind_Inr split: option.splits)
    then show ?thesis using kinv_fileread[OF _ assms(2)] d fin by blast
  next
    case (sc_write m w rest)
    then have "k' = k \<or> (\<exists>f n w' b b'. filewrite me f n b k = Inr (w', b', k'))"
      by (auto simp: sys_write_def kbind_Inr split: option.splits)
    then show ?thesis using kinv_filewrite[OF _ assms(2)] d fin by blast
  next
    case (sc_write_more i n bs w rest)
    then show ?thesis using kinv_write_pipe[OF _ assms(2)] fin by blast
  next
    case (sc_fstat m r st)
    then have "k' = k \<or> (\<exists>f s. filestat f k = Inr (s, k'))"
      by (auto simp: sys_fstat_def kbind_Inr split: option.splits)
    then show ?thesis using kinv_filestat[OF _ assms(2)] d fin by blast
  next
    case (sc_link m r)
    then have "k' = k \<or> (\<exists>g a. in_fs g k = Inr (a :: int, k'))" by (auto simp: sys_link_def split: option.splits)
    then show ?thesis using ins d(1,2) by (elim disjE exE) simp_all
  next
    case (sc_unlink m r)
    then have "k' = k \<or> (\<exists>g a. in_fs g k = Inr (a :: int, k'))" by (auto simp: sys_unlink_def split: option.splits)
    then show ?thesis using ins d(1,2) by (elim disjE exE) simp_all
  next
    case (sc_open m r)
    then have "k' = k \<or> (\<exists>path md. open_path me path md k = Inr (r, k'))" by (auto simp: sys_open_def split: option.splits)
    then show ?thesis using kinv_open[OF _ assms(2)] d fin by blast
  next
    case (sc_mkdir m r)
    then have "\<exists>g a. in_fs g k = Inr (a :: int, k')" by (auto simp: sys_mkdir_def split: option.splits)
    then show ?thesis using ins by (elim exE)
  next
    case (sc_mknod m r)
    then have "\<exists>g a. in_fs g k = Inr (a :: int, k')" by (auto simp: sys_mknod_def split: option.splits)
    then show ?thesis using ins by (elim exE)
  next
    case (sc_chdir m r)
    then show ?thesis using kinv_chdir[OF _ assms(2)] fin by blast
  next
    case (sc_pipe page m r fds)
    then have "k' = k \<or> (\<exists>q. make_pipe page me k = Inr (q, k'))" by (auto simp: sys_pipe_def kbind_Inr split: option.splits)
    then show ?thesis using kinv_make_pipe[OF _ assms(2)] d fin by blast
  qed
qed

lemma kstep_ok: "kstep k k' \<Longrightarrow> table_ok k \<and> refs_ok (\<lambda>_. 0) k \<Longrightarrow> table_ok k' \<and> refs_ok (\<lambda>_. 0) k'"
proof (induction rule: kstep.induct)
  case (k_dispatch i k k')
  then show ?case using dispatch_tame[of i k k' "\<lambda>_. 0"] tame_table table_okD(1)[of k] by auto
next
  case (k_yield me k k')
  then show ?case using yield_tame[of me k k' "\<lambda>_. 0"] tame_table table_okD(1)[of k] by auto
next
  case (k_sleep me k ch k')
  then show ?case using sleep_tame[of me ch k k' "\<lambda>_. 0"] tame_table table_okD(1)[of k] by auto
next
  case (k_syscall me k k')
  then show ?case using syscall_kinv[of me k k'] by (simp add: kinv_def)
next
  case (k_wakeup k ch)
  then show ?case using wakeup_tame[of k ch "\<lambda>_. 0"] tame_table by blast
next
  case (k_clock k)
  let ?k = "k\<lparr>ticks := ticks k + 1\<rparr>"
  show ?case using k_clock wakeup_tame[of ?k TicksChan "\<lambda>_. 0"] tame_table[of ?k "wakeup TicksChan ?k"] by (simp add: clock_tick_def)
qed

lemma kreach_ok: "kreach k \<Longrightarrow> table_ok k \<and> refs_ok (\<lambda>_. 0) k"
  by (induction rule: kreach.induct) (use userinit_ok kstep_ok in blast)+

section \<open>What the invariants say\<close>

lemma count_list_card: "count_list xs x = card {i. i < length xs \<and> xs ! i = x}"
proof (induction xs rule: rev_induct)
  case (snoc y ys)
  have "{i. i < length (ys @ [y]) \<and> (ys @ [y]) ! i = x} =
    {i. i < length ys \<and> ys ! i = x} \<union> (if y = x then {length ys} else {})"
    by (auto simp: nth_append less_Suc_eq)
  then show ?case using snoc by (auto simp: card_insert_if)
qed simp

lemma descriptors_card:
  "descriptors k f = card {(i, fd). i < length (ptable k) \<and> fd < length (p_ofile (ptable k ! i)) \<and> p_ofile (ptable k ! i) ! fd = Some f}"
proof -
  let ?S = "\<lambda>i. {fd. fd < length (p_ofile (ptable k ! i)) \<and> p_ofile (ptable k ! i) ! fd = Some f}"
  have "descriptors k f = (\<Sum>i = 0..<length (ptable k). card (?S i))"
    unfolding descriptors_def by (simp add: sum_list_sum_nth count_list_card)
  also have "\<dots> = card (SIGMA i:{0..<length (ptable k)}. ?S i)" by (rule card_SigmaI[symmetric]) auto
  also have "(SIGMA i:{0..<length (ptable k)}. ?S i) =
    {(i, fd). i < length (ptable k) \<and> fd < length (p_ofile (ptable k ! i)) \<and> p_ofile (ptable k ! i) ! fd = Some f}" by auto
  finally show ?thesis .
qed

text \<open>
  C3: in every reachable state, an exited process that has not been waited for has a live parent,
  and that parent is not asleep in \<open>wait\<close>: no exit is missed, whatever the order of the steps.
\<close>

theorem wait_misses_no_exit:
  assumes "kreach k" "i < NPROC" "p_state (ptable k ! i) = ZOMBIE"
  shows "\<exists>q < NPROC. p_parent (ptable k ! i) = Some q \<and> alive (p_state (ptable k ! q)) \<and>
    \<not> (p_state (ptable k ! q) = SLEEPING \<and> p_chan (ptable k ! q) = ProcChan q)"
proof -
  have t: "table_ok k" using kreach_ok[OF assms(1)] by blast
  have "i \<noteq> initproc k" using table_okD(3)[OF t] assms(3) by auto
  then obtain q where q: "p_parent (ptable k ! i) = Some q" using pids_distinct(3)[OF t assms(2)] assms(3) by auto
  note d = table_okD(9)[OF t assms(2) q]
  have "\<not> (p_state (ptable k ! q) = SLEEPING \<and> p_chan (ptable k ! q) = ProcChan q)"
    using t d assms(2,3) q unfolding table_ok_def no_lost_exit_def by blast
  then show ?thesis using d q by blast
qed



text \<open>
  C27: \<open>fork\<close> by a live process either fails with -1 or returns a fresh id; then exactly the first
  free entry changes: it is a runnable child of the caller with the caller's files, directory,
  size and registers, except that its own \<open>fork\<close> returns 0. The invariants hold again.
\<close>

theorem fork_correct:
  assumes "fork kst pgd me k = Inr (r, k')" "table_ok k" "refs_ok (\<lambda>_. 0) k" "me < NPROC" "alive (p_state (ptable k ! me))"
  shows "table_ok k' \<and> refs_ok (\<lambda>_. 0) k' \<and> (r = -1 \<or> r = nextpid k \<and> (\<exists>np. forked me np k k'))"
  by (rule fork_ok[OF assms])

text \<open>
  C28: \<open>wait\<close> returns the id of an exited child and frees exactly its entry; without children, or
  when the caller was killed, it returns -1 and changes nothing; otherwise the caller goes to
  sleep on itself, having no exited child.
\<close>

theorem wait_correct:
  assumes "table_ok k" "me < NPROC"
  shows "if \<exists>i < NPROC. p_parent (ptable k ! i) = Some me \<and> p_state (ptable k ! i) = ZOMBIE
    then \<exists>i k'. i < NPROC \<and> p_parent (ptable k ! i) = Some me \<and> p_state (ptable k ! i) = ZOMBIE \<and>
      wait me k = Inr (Return (p_pid (ptable k ! i)), k') \<and> p_state (ptable k' ! i) = UNUSED \<and>
      (\<forall>j. j \<noteq> i \<longrightarrow> ptable k' ! j = ptable k ! j)
    else if (\<forall>i < NPROC. p_parent (ptable k ! i) \<noteq> Some me) \<or> p_killed (ptable k ! me)
    then wait me k = Inr (Return (-1), k)
    else \<exists>k'. wait me k = Inr (Sleep, k') \<and> p_state (ptable k' ! me) = SLEEPING \<and> p_chan (ptable k' ! me) = ProcChan me"
proof -
  note L = table_okD(1)[OF assms(1)]
  obtain oi h where sc: "wait_scan [0..<length (ptable k)] me False k = (oi, h)" by (cases "wait_scan [0..<length (ptable k)] me False k")
  show ?thesis
  proof (cases oi)
    case (Some i)
    have i: "i < NPROC" "p_parent (ptable k ! i) = Some me" "p_state (ptable k ! i) = ZOMBIE" using wait_scan_Some[OF sc[unfolded Some]] L by simp_all
    then have ex: "\<exists>i < NPROC. p_parent (ptable k ! i) = Some me \<and> p_state (ptable k ! i) = ZOMBIE" by blast
    show ?thesis unfolding if_P[OF ex]
      by (intro exI[of _ i] exI[of _ "snd (projr (wait me k))"]) (use i sc Some L in \<open>simp add: wait_def\<close>)
  next
    case None
    note nz = wait_scan_None[OF sc[unfolded None], unfolded L]
    have ex: "\<not> (\<exists>i < NPROC. p_parent (ptable k ! i) = Some me \<and> p_state (ptable k ! i) = ZOMBIE)" using nz by auto
    have h: "h \<longleftrightarrow> (\<exists>i < NPROC. p_parent (ptable k ! i) = Some me)" using nz by auto
    show ?thesis unfolding if_not_P[OF ex]
      using sc None h L assms(2) by (auto simp: wait_def sleep_def sched_def kbind_def)
  qed
qed

text \<open>
  \<open>kill(0)\<close> matches a free table entry, whose process id is 0: it returns 0 as for a living
  process, and the next process forked into that entry is born killed, so it dies before it runs
  any of its own code.
\<close>

theorem kill_zero_kills_unborn:
  assumes "table_ok k" "refs_ok (\<lambda>_. 0) k" "np < NPROC" "p_state (ptable k ! np) = UNUSED" "\<forall>i < np. p_state (ptable k ! i) \<noteq> UNUSED"
    "p_pid (ptable k ! np) = 0" "me < NPROC" "alive (p_state (ptable k ! me))"
  shows "\<exists>k1. kill 0 k = (0, k1) \<and>
    (\<forall>kst pgd r k2. fork kst pgd me k1 = Inr (r, k2) \<and> r \<noteq> -1 \<longrightarrow> p_pid (ptable k2 ! np) = r \<and> p_killed (ptable k2 ! np))"
proof -
  note L = table_okD(1)[OF assms(1)]
  define k1 where "k1 = upd_proc np (\<lambda>p. p\<lparr>p_killed := True, p_state := (if p_state p = SLEEPING then RUNNABLE else p_state p)\<rparr>) k"
  have "List.find (\<lambda>i. p_pid (ptable k ! i) = 0) [0..<length (ptable k)] = Some np"
    unfolding find_upt_Some
  proof (intro conjI allI impI)
    fix i assume "i < np"
    then show "p_pid (ptable k ! i) \<noteq> 0" using pids_distinct(2)[OF assms(1), of i] assms(3,5) by simp
  qed (use assms(3,6) L in simp_all)
  then have kill: "kill 0 k = (0, k1)" by (simp add: kill_def k1_def)
  have t1: "table_ok k1" "refs_ok (\<lambda>_. 0) k1" using kill_tame[OF kill, of "\<lambda>_. 0"] tame_table assms(1,2) by blast+
  have st: "p_state (ptable k1 ! i) = (if i = np then UNUSED else p_state (ptable k ! i))" if "i < NPROC" for i
    using that assms(3,4) L by (simp add: k1_def nth_list_update)
  have me: "alive (p_state (ptable k1 ! me))" using st[OF assms(7)] assms(4,8) by (auto split: if_splits)
  have "p_pid (ptable k2 ! np) = r \<and> p_killed (ptable k2 ! np)" if f: "fork kst pgd me k1 = Inr (r, k2)" "r \<noteq> -1" for kst pgd r k2
  proof -
    obtain np' where r: "r = nextpid k1" "forked me np' k1 k2" using fork_ok[OF f(1) t1 assms(7) me] f(2) by blast
    have n: "np' < 64" "p_state (ptable k1 ! np') = UNUSED" "\<And>i. i < np' \<Longrightarrow> p_state (ptable k1 ! i) \<noteq> UNUSED"
      using r(2) by (simp_all add: forked_def)
    have "\<not> np < np'" using n(3)[of np] st[OF assms(3)] by auto
    moreover have "\<not> np' < np" using n(1,2) st[of np'] assms(5) by auto
    ultimately have "np' = np" by simp
    then show ?thesis using r assms(3) L by (simp add: forked_def Let_def k1_def)
  qed
  then show ?thesis using kill by blast
qed

section \<open>A run: \<open>init\<close> forks a child, which exits\<close>

lemma sample_namei: "\<exists>ip s. namei 0 [SLASH] (sample_fs T_FILE) = Inr (Some ip, s) \<and> hdr s = [] \<and> ops s = 1 \<and> \<not> i_valid (icache s ! ip)"
proof -
  let ?s = "sample_fs T_FILE"
  have nc: "\<not> cached ?s 1 1 i" for i
  proof (cases i)
    case (Suc j)
    then show ?thesis by (auto simp: cached_def free_inode_def)
  qed (simp add: cached_def)
  have free: "i_ref (icache ?s ! 1) = 0" by (simp add: free_inode_def)
  have "\<exists>i < NINODE. i_ref (icache ?s ! i) = 0" by (rule exI[of _ 1], rule conjI[OF _ free]) simp
  then have free1: "(\<exists>i. cached ?s 1 1 i) \<or> (\<exists>i < NINODE. i_ref (icache ?s ! i) = 0)" by (rule disjI2)
  obtain ip s where g: "iget 1 1 ?s = Inr (ip, s)" "iget_result 1 1 ip ?s s"
    using iget_ok[OF sample_fs_ok(7)[of T_FILE], of 1 1] free1 by blast
  have "if cached ?s 1 1 ip then icache s ! ip = (icache ?s ! ip)\<lparr>i_ref := i_ref (icache ?s ! ip) + 1\<rparr>
      else i_ref (icache s ! ip) = 1 \<and> \<not> i_valid (icache s ! ip) \<and> \<not> i_busy (icache s ! ip) \<and>
        i_ref (icache ?s ! ip) = 0 \<and> (\<forall>k < ip. 0 < i_ref (icache ?s ! k))"
    using g(2) unfolding iget_result_def by blast
  then have v: "\<not> i_valid (icache s ! ip)" unfolding if_not_P[OF nc] by blast
  have eq: "s = ?s\<lparr>icache := icache s\<rparr>" using g(2) unfolding iget_result_def by blast
  have h: "hdr s = []" "ops s = 1" by (subst eq, simp)+
  have "namei 0 [SLASH] ?s = Inr (Some ip, s)"
    using g(1) by (simp add: namei_def namex_def namex_loop.simps[of "[SLASH]"] skipelem_def)
  then show ?thesis using v h by blast
qed

text \<open>What the sample run needs to know of its states.\<close>

definition calm :: "nat \<Rightarrow> nat \<Rightarrow> unit kern \<Rightarrow> bool" where
  "calm me ip k \<longleftrightarrow> kreach k \<and> p_ofile (ptable k ! me) = replicate NOFILE None \<and> p_cwd (ptable k ! me) = Some ip \<and>
     hdr (fs k) = [] \<and> ops (fs k) = 1 \<and> \<not> i_valid (icache (fs k) ! ip)"

lemma boot_calm: "\<exists>k ip. calm 0 ip k \<and> p_state (ptable k ! 0) = RUNNABLE \<and> (\<forall>i < NPROC. 0 < i \<longrightarrow> ptable k ! i = free_proc) \<and> initproc k = 0 \<and> nextpid k = 2"
proof -
  obtain ip s where n: "namei 0 [SLASH] (sample_fs T_FILE) = Inr (Some ip, s)" "hdr s = []" "ops s = 1" "\<not> i_valid (icache s ! ip)"
    using sample_namei by blast
  obtain k where k: "userinit (Some 1) (Some 2) (boot_kern (sample_fs T_FILE)) = Inr k" and kf: "fs k = s" "p_cwd (ptable k ! 0) = Some ip"
    using n(1) by (auto simp: userinit_def allocproc_def boot_find in_fs_def Let_def) (simp_all add: boot_kern_def)
  obtain p where p: "ptable k = (replicate NPROC free_proc)[0 := p]" "p_state p = RUNNABLE" "p_ofile p = replicate NOFILE None" "initproc k = 0" "nextpid k = 2"
    using userinit_shape[OF k] by blast
  have "calm 0 ip k" using kr_boot[OF k] kf n p by (simp add: calm_def)
  moreover have "\<forall>i < NPROC. 0 < i \<longrightarrow> ptable k ! i = free_proc" using p(1) by (simp add: nth_list_update)
  ultimately show ?thesis using p by (intro exI[of _ k] exI[of _ ip]) simp
qed

lemma calm_dispatch:
  assumes "calm me ip k" "me < NPROC" "p_state (ptable k ! me) = RUNNABLE"
  shows "\<exists>k'. calm me ip k' \<and> p_state (ptable k' ! me) = RUNNING \<and> (\<forall>i. i \<noteq> me \<longrightarrow> ptable k' ! i = ptable k ! i) \<and>
    initproc k' = initproc k \<and> nextpid k' = nextpid k \<and> fs k' = fs k"
proof -
  have r: "kreach k" using assms(1) by (simp add: calm_def)
  have L: "me < length (ptable k)" using kreach_ok[OF r] table_okD(1)[of k] assms(2) by simp
  let ?k = "upd_proc me (\<lambda>p. p\<lparr>p_state := RUNNING, p_chan := NoChan\<rparr>) k"
  have d: "dispatch me k = Some ?k" using assms(3) L by (simp add: dispatch_def sleep_return_def)
  have "kreach ?k" using kr_step[OF r k_dispatch[OF assms(2) d]] .
  then show ?thesis using assms(1) L by (intro exI[of _ ?k]) (simp add: calm_def)
qed

lemma fork_files_none: "p_ofile (ptable k ! me) = replicate NOFILE None \<Longrightarrow> \<forall>fd \<in> set fds. fd < NOFILE \<Longrightarrow> fork_files fds me np k = Inr k"
  by (induction fds) auto

lemma exit_files_none: "p_ofile (ptable k ! me) = replicate NOFILE None \<Longrightarrow> \<forall>fd \<in> set fds. fd < NOFILE \<Longrightarrow> exit_files fds me k = Inr k"
  by (induction fds) auto

lemma free_proc_sel [simp]:
  "p_state free_proc = UNUSED" "p_ofile free_proc = replicate NOFILE None" "p_pid free_proc = 0" "p_parent free_proc = None" "\<not> p_killed free_proc"
  by (simp_all add: free_proc_def)

lemma idup_kept:
  fixes s :: "'d fsys"
  shows "hdr (snd (idup ip s)) = hdr s" "ops (snd (idup ip s)) = ops s" "i_valid (icache (snd (idup ip s)) ! ip) = i_valid (icache s ! ip)"
proof -
  show "i_valid (icache (snd (idup ip s)) ! ip) = i_valid (icache s ! ip)"
    by (cases "ip < length (icache s)") (simp_all add: idup_def list_update_beyond not_less)
qed (simp_all add: idup_def)

lemma calm_fork:
  assumes c: "calm 0 ip k" "p_state (ptable k ! 0) = RUNNING" "\<forall>i < NPROC. 0 < i \<longrightarrow> ptable k ! i = free_proc"
  shows "\<exists>r k'. fork (Some 3) (Some 4) 0 k = Inr (r, k') \<and> r \<noteq> -1 \<and> calm 1 ip k' \<and> forked 0 1 k k'"
proof -
  have r: "kreach k" using c(1) by (simp add: calm_def)
  have t: "table_ok k" "refs_ok (\<lambda>_. 0) k" using kreach_ok[OF r] by blast+
  note L = table_okD(1)[OF t(1)]
  have p1: "ptable k ! 1 = free_proc" using c(3) by simp
  have f1: "List.find (\<lambda>i. p_state (ptable k ! i) = UNUSED) [0..<length (ptable k)] = Some 1"
    unfolding find_upt_Some using c(2,3) L by simp
  define k1 where "k1 = snd (allocproc (Some 3) k)"
  have ap: "allocproc (Some 3) k = (Some 1, k1)" by (simp add: k1_def allocproc_def f1[unfolded L] L Let_def)
  have k1: "fs k1 = fs k" "p_ofile (ptable k1 ! 1) = replicate NOFILE None" "ptable k1 ! 0 = ptable k ! 0" "length (ptable k1) = 64" "p_pid (ptable k1 ! 1) = nextpid k"
    unfolding k1_def using p1 L by (simp_all add: allocproc_def f1[unfolded L] Let_def)
  define cur where "cur = ptable k1 ! 0"
  define k2 where "k2 = upd_proc 1 (\<lambda>p. p\<lparr>p_pgdir := Some 4, p_sz := p_sz cur, p_parent := Some 0, p_tf := (p_tf cur)\<lparr>tf_eax := 0\<rparr>\<rparr>) k1"
  have k2: "fs k2 = fs k" "p_ofile (ptable k2 ! 1) = replicate NOFILE None" "ptable k2 ! 0 = ptable k ! 0" "length (ptable k2) = 64" "p_pid (ptable k2 ! 1) = nextpid k"
    using k1 by (simp_all add: k2_def)
  have ff: "fork_files [0..<NOFILE] 0 1 k2 = Inr k2" by (rule fork_files_none) (use c(1) k2(3) in \<open>simp_all add: calm_def\<close>)
  have cwd: "p_cwd (ptable k ! 0) = Some ip" using c(1) by (simp add: calm_def)
  define s where "s = snd (idup ip (fs k))"
  have dc: "dup_cwd 0 k2 = (Some ip, k2\<lparr>fs := s\<rparr>)" using cwd k2(1,3) by (simp add: dup_cwd_def idup_def s_def)
  define k' where "k' = upd_proc 1 (\<lambda>p. p\<lparr>p_cwd := Some ip, p_name := set_name (p_name p) (p_name cur), p_state := RUNNABLE\<rparr>) (k2\<lparr>fs := s\<rparr>)"
  define r0 where "r0 = p_pid (ptable k2 ! 1)"
  have f: "fork (Some 3) (Some 4) 0 k = Inr (r0, k')"
    unfolding fork_def ap prod.case option.case Let_def cur_def[symmetric] k2_def[symmetric] ff kbind_simps dc r0_def k'_def by simp
  have k': "r0 = nextpid k" "p_ofile (ptable k' ! 1) = replicate NOFILE None" "p_cwd (ptable k' ! 1) = Some ip" "fs k' = s"
    using k2 by (simp_all add: k'_def r0_def)
  have np: "r0 \<noteq> -1" using k'(1) table_okD(4)[OF t(1)] by simp
  have "forked 0 1 k k'"
  proof -
    obtain np where fk: "forked 0 np k k'" using fork_ok[OF f t] np c(2) by auto
    then have n: "np < 64" "p_state (ptable k ! np) = UNUSED" "\<forall>i < np. p_state (ptable k ! i) \<noteq> UNUSED" by (simp_all add: forked_def)
    have "np \<noteq> 0" using n(2) c(2) by (cases np) auto
    moreover have "\<not> 1 < np" using n(3) p1 by auto
    ultimately show ?thesis using fk by (cases "np = 1") auto
  qed
  moreover have "kreach k'" using kr_step[OF r k_syscall[OF _ c(2) sc_fork[OF f]]] by simp
  moreover have "hdr s = []" "ops s = 1" "\<not> i_valid (icache s ! ip)"
    using c(1) by (simp_all add: calm_def s_def idup_kept)
  ultimately show ?thesis using f np k' by (simp add: calm_def)
qed

lemma calm_exit:
  assumes c: "calm 1 ip k" "p_state (ptable k ! 1) = RUNNING" "initproc k = 0"
  shows "\<exists>k'. exit 1 k = Inr k' \<and> kreach k' \<and> p_state (ptable k' ! 1) = ZOMBIE"
proof -
  have r: "kreach k" using c(1) by (simp add: calm_def)
  have t: "table_ok k" "refs_ok (\<lambda>_. 0) k" using kreach_ok[OF r] by blast+
  note L = table_okD(1)[OF t(1)]
  have ef: "exit_files [0..<NOFILE] 1 k = Inr k" by (rule exit_files_none) (use c(1) in \<open>simp_all add: calm_def\<close>)
  have "\<exists>k2. put_cwd 1 k = Inr k2 \<and> length (ptable k2) = 64 \<and> initproc k2 = 0"
    using c L by (simp add: put_cwd_def calm_def do_fs_def fs_begin_op_def fs_end_op_def iput_def Let_def)
  then obtain k2 where k2: "put_cwd 1 k = Inr k2" "length (ptable k2) = 64" by blast
  define k3 where "k3 = upd_proc 1 (\<lambda>p. p\<lparr>p_state := ZOMBIE\<rparr>)
    (reparent [0..<length (ptable (wakeup1 (parent_chan (p_parent (ptable k2 ! 1))) k2))] 1 (wakeup1 (parent_chan (p_parent (ptable k2 ! 1))) k2))"
  have len: "length (ptable (reparent js me q)) = length (ptable q)" for js me and q :: "'a kern"
    by (induction js arbitrary: q) (auto simp: Let_def wakeup1_def)
  have z: "p_state (ptable k3 ! 1) = ZOMBIE" using k2(2) by (simp add: k3_def len wakeup1_def)
  have x: "exit 1 k = Inr k3" using c(3) ef k2(1) z by (simp add: exit_def exit_final_def Let_def sched_def k3_def)
  have "kreach k3" using kr_step[OF r k_syscall[OF _ c(2) sc_exit[OF x]]] by simp
  then show ?thesis using x z by blast
qed

text \<open>The run: the scheduler picks \<open>init\<close>, which forks and yields; the child runs and exits.\<close>

lemma sample_fork:
  "\<exists>(k0 :: unit kern) k1 ip r. kreach k0 \<and> p_state (ptable k0 ! 0) = RUNNING \<and> initproc k0 = 0 \<and> (\<forall>i < NPROC. 0 < i \<longrightarrow> ptable k0 ! i = free_proc) \<and>
     fork (Some 3) (Some 4) 0 k0 = Inr (r, k1) \<and> r \<noteq> -1 \<and> calm 1 ip k1 \<and> forked 0 1 k0 k1"
proof -
  obtain kb :: "unit kern" and ip where b: "calm 0 ip kb" "p_state (ptable kb ! 0) = RUNNABLE"
    "\<forall>i < NPROC. 0 < i \<longrightarrow> ptable kb ! i = free_proc" "initproc kb = 0"
    using boot_calm by blast
  obtain k0 where k0: "calm 0 ip k0" "p_state (ptable k0 ! 0) = RUNNING" "\<forall>i. i \<noteq> 0 \<longrightarrow> ptable k0 ! i = ptable kb ! i" "initproc k0 = 0"
    using calm_dispatch[OF b(1) _ b(2)] b(4) by auto
  have fr: "\<forall>i < NPROC. 0 < i \<longrightarrow> ptable k0 ! i = free_proc" using k0(3) b(3) by simp
  have "kreach k0" using k0(1) by (simp add: calm_def)
  then show ?thesis using calm_fork[OF k0(1,2) fr] k0(2,4) fr by blast
qed

lemma sample_exit: "\<exists>k :: unit kern. kreach k \<and> p_state (ptable k ! 1) = ZOMBIE"
proof -
  obtain k0 k1 :: "unit kern" and ip where k1: "initproc k0 = 0" "calm 1 ip k1" "forked 0 1 k0 k1" using sample_fork by blast
  have s1: "p_state (ptable k1 ! 1) = RUNNABLE" "initproc k1 = 0" using k1(1,3) by (simp_all add: forked_def Let_def)
  obtain k3 where k3: "calm 1 ip k3" "p_state (ptable k3 ! 1) = RUNNING" "initproc k3 = 0"
    using calm_dispatch[OF k1(2) _ s1(1)] s1(2) by auto
  show ?thesis using calm_exit[OF k3] by blast
qed

theorem wait_misses_no_exit_witness:
  "\<exists>k :: unit kern. kreach k \<and> p_state (ptable k ! 1) = ZOMBIE \<and>
    (\<exists>q < NPROC. p_parent (ptable k ! 1) = Some q \<and> alive (p_state (ptable k ! q)) \<and>
      \<not> (p_state (ptable k ! q) = SLEEPING \<and> p_chan (ptable k ! q) = ProcChan q))"
proof -
  obtain k :: "unit kern" where k: "kreach k" "p_state (ptable k ! 1) = ZOMBIE" using sample_exit by blast
  show ?thesis using k wait_misses_no_exit[OF k(1) _ k(2)] by (intro exI[of _ k]) simp
qed



theorem fork_correct_witness:
  "\<exists>(k :: unit kern) k' r. fork (Some 3) (Some 4) 0 k = Inr (r, k') \<and> r \<noteq> -1 \<and> table_ok k' \<and> r = nextpid k \<and> (\<exists>np. forked 0 np k k')"
proof -
  obtain k0 k1 :: "unit kern" and r where k: "kreach k0" "p_state (ptable k0 ! 0) = RUNNING"
    "fork (Some 3) (Some 4) 0 k0 = Inr (r, k1)" "r \<noteq> -1" using sample_fork by blast
  have t: "table_ok k0" "refs_ok (\<lambda>_. 0) k0" using kreach_ok[OF k(1)] by blast+
  show ?thesis using k(3,4) fork_correct[OF k(3) t] k(2) by (intro exI[of _ k0] exI[of _ k1] exI[of _ r]) simp
qed

theorem wait_correct_witness:
  "\<exists>(k :: unit kern) q i k'. p_state (ptable k ! 1) = ZOMBIE \<and> p_parent (ptable k ! 1) = Some q \<and> wait q k = Inr (Return (p_pid (ptable k ! i)), k') \<and>
    p_state (ptable k ! i) = ZOMBIE \<and> p_state (ptable k' ! i) = UNUSED"
proof -
  obtain k :: "unit kern" where k: "kreach k" "p_state (ptable k ! 1) = ZOMBIE" using sample_exit by blast
  have t: "table_ok k" using kreach_ok[OF k(1)] by blast
  have "1 \<noteq> initproc k" using table_okD(3)[OF t] k(2) by auto
  then obtain q where q: "p_parent (ptable k ! 1) = Some q" using pids_distinct(3)[OF t, of 1] k(2) by auto
  have "q < NPROC" using table_okD(9)[OF t _ q] by simp
  note w = wait_correct[OF t this]
  have ex: "\<exists>i < NPROC. p_parent (ptable k ! i) = Some q \<and> p_state (ptable k ! i) = ZOMBIE" using q k(2) by (intro exI[of _ 1]) simp
  show ?thesis using w[unfolded if_P[OF ex]] k(2) q by blast
qed

theorem kill_zero_kills_unborn_witness:
  "\<exists>(k :: unit kern) k1. kill 0 k = (0, k1) \<and>
    (\<forall>kst pgd r k2. fork kst pgd 0 k1 = Inr (r, k2) \<and> r \<noteq> -1 \<longrightarrow> p_pid (ptable k2 ! 1) = r \<and> p_killed (ptable k2 ! 1))"
proof -
  obtain k0 :: "unit kern" where k: "kreach k0" "p_state (ptable k0 ! 0) = RUNNING" "\<forall>i < NPROC. 0 < i \<longrightarrow> ptable k0 ! i = free_proc"
    using sample_fork by blast
  have t: "table_ok k0" "refs_ok (\<lambda>_. 0) k0" using kreach_ok[OF k(1)] by blast+
  have p: "p_state (ptable k0 ! 1) = UNUSED" "p_pid (ptable k0 ! 1) = 0" using k(3) by simp_all
  have u: "\<forall>i < 1. p_state (ptable k0 ! i) \<noteq> UNUSED" using k(2) by simp
  have a: "alive (p_state (ptable k0 ! 0))" using k(2) by simp
  show ?thesis by (rule exI[of _ k0], rule kill_zero_kills_unborn[OF t _ p(1) u p(2) _ a]) simp_all
qed

end
