(* ===== verification/Kbd.thy ===== *)
theory Kbd
  imports Console
begin

text \<open>
  The keyboard: scan codes to characters (\<open>kbd.c\<close>, \<open>kbd.h\<close>), and their way into the line discipline of the
  console. The status and data ports are arguments: the bytes the controller holds when an interrupt comes.
\<close>

section \<open>The tables\<close>

abbreviation (input) SHIFT :: u32 where "SHIFT \<equiv> 1"
abbreviation (input) CTL :: u32 where "CTL \<equiv> 2"
abbreviation (input) ALT :: u32 where "ALT \<equiv> 4"
abbreviation (input) CAPSLOCK :: u32 where "CAPSLOCK \<equiv> 8"
abbreviation (input) NUMLOCK :: u32 where "NUMLOCK \<equiv> 16"
abbreviation (input) SCROLLLOCK :: u32 where "SCROLLLOCK \<equiv> 32"
abbreviation (input) E0ESC :: u32 where "E0ESC \<equiv> 64"

definition shiftcode :: "byte \<Rightarrow> u32" where
  "shiftcode d =
     (if d = 0x1D then CTL else if d = 0x2A then SHIFT else if d = 0x36 then SHIFT else if d = 0x38 then ALT
      else if d = 0x9D then CTL else if d = 0xB8 then ALT else 0)"

definition togglecode :: "byte \<Rightarrow> u32" where
  "togglecode d = (if d = 0x3A then CAPSLOCK else if d = 0x45 then NUMLOCK else if d = 0x46 then SCROLLLOCK else 0)"

text \<open>The keys behind an E0 escape have the same codes in all maps but for two.\<close>

definition extended :: "byte \<Rightarrow> byte \<Rightarrow> byte \<Rightarrow> byte" where
  "extended enter slash d =
     (if d = 0x9C then enter else if d = 0xB5 then slash else if d = 0xC8 then 0xE2 else if d = 0xD0 then 0xE3
      else if d = 0xC9 then 0xE6 else if d = 0xD1 then 0xE7 else if d = 0xCB then 0xE4 else if d = 0xCD then 0xE5
      else if d = 0x97 then 0xE0 else if d = 0xCF then 0xE1 else if d = 0xD2 then 0xE8 else if d = 0xD3 then 0xE9 else 0)"

definition keymap :: "byte list \<Rightarrow> byte \<Rightarrow> byte \<Rightarrow> byte \<Rightarrow> byte" where
  "keymap tab enter slash d = (if unat d < length tab then tab ! unat d else extended enter slash d)"

definition normal_tab :: "byte list" where
  "normal_tab =
     [0, 27] @ bytes_of ''1234567890-='' @ [8, 9] @ bytes_of ''qwertyuiop[]'' @ [10, 0] @ bytes_of ''asdfghjkl;'' @ [39, 96, 0, 92] @
     bytes_of ''zxcvbnm,./'' @ [0] @ bytes_of ''*'' @ [0] @ bytes_of '' '' @ replicate 13 0 @ bytes_of ''789-456+1230.'' @ replicate 4 0"

definition shift_tab :: "byte list" where
  "shift_tab =
     [0, 27] @ bytes_of ''!@#$%^&*()_+'' @ [8, 9] @ bytes_of ''QWERTYUIOP{}'' @ [10, 0] @ bytes_of ''ASDFGHJKL:'' @ [34, 126, 0, 124] @
     bytes_of ''ZXCVBNM<>?'' @ [0] @ bytes_of ''*'' @ [0] @ bytes_of '' '' @ replicate 13 0 @ bytes_of ''789-456+1230.'' @ replicate 4 0"

definition ctl_tab :: "byte list" where
  "ctl_tab =
     replicate 16 0 @ map (\<lambda>c. c - 64) (bytes_of ''QWERTYUIOP'') @ [0, 0, 13, 0] @ map (\<lambda>c. c - 64) (bytes_of ''ASDFGHJKL'') @
     [0, 0, 0, 0] @ map (\<lambda>c. c - 64) ([92] @ bytes_of ''ZXCVBNM'') @ [0, 0] @ map (\<lambda>c. c - 64) (bytes_of ''/'') @ [0, 0]"

definition normalmap :: "byte \<Rightarrow> byte" where
  "normalmap = keymap normal_tab 10 47"

definition shiftmap :: "byte \<Rightarrow> byte" where
  "shiftmap = keymap shift_tab 10 47"

definition ctlmap :: "byte \<Rightarrow> byte" where
  "ctlmap = keymap ctl_tab 13 (47 - 64)"

section \<open>Decoding\<close>

text \<open>\<open>kbdgetc\<close> on what the status and the data port return; \<open>shift\<close> is its static variable.\<close>

definition charcode :: "u32 \<Rightarrow> byte \<Rightarrow> byte" where
  "charcode m = (if m = 0 then normalmap else if m = 1 then shiftmap else ctlmap)"

definition swap_case :: "int \<Rightarrow> int" where
  "swap_case c = (if 97 \<le> c \<and> c \<le> 122 then c + (65 - 97) else if 65 \<le> c \<and> c \<le> 90 then c + (97 - 65) else c)"

definition kbdgetc :: "byte \<Rightarrow> byte \<Rightarrow> u32 \<Rightarrow> int \<times> u32" where
  "kbdgetc st data shift =
     (if st AND 1 = 0 then (-1, shift)
      else if data = 0xE0 then (0, shift OR E0ESC)
      else if data AND 0x80 \<noteq> 0 then
        let data = (if shift AND E0ESC \<noteq> 0 then data else data AND 0x7F)
        in (0, shift AND NOT (shiftcode data OR E0ESC))
      else
        let (data, shift) = (if shift AND E0ESC \<noteq> 0 then (data OR 0x80, shift AND NOT E0ESC) else (data, shift));
            shift = shift OR shiftcode data; shift = shift XOR togglecode data;
            c = uint (charcode (shift AND (CTL OR SHIFT)) data)
        in (if shift AND CAPSLOCK \<noteq> 0 then swap_case c else c, shift))"

text \<open>\<open>consoleintr\<close> calls it until it returns \<open>-1\<close>: once for each byte the controller holds and once more.\<close>

fun kbd_codes :: "byte list \<Rightarrow> u32 \<Rightarrow> int list \<times> u32" where
  "kbd_codes [] shift = (let (c, shift) = kbdgetc 0 0 shift in ([c], shift))"
| "kbd_codes (d # ds) shift = (let (c, shift) = kbdgetc 1 d shift; (cs, shift) = kbd_codes ds shift in (c # cs, shift))"

definition kbdintr :: "byte list \<Rightarrow> u32 \<Rightarrow> console \<Rightarrow> (console \<times> bool) kernel \<times> u32" where
  "kbdintr ds shift con = (let (cs, shift) = kbd_codes ds shift in (consoleintr cs con, shift))"

section \<open>Typing\<close>

lemma normal_tab_code [code]: "normal_tab =
    [0, 27, 49, 50, 51, 52, 53, 54, 55, 56, 57, 48, 45, 61, 8, 9, 113, 119, 101, 114, 116, 121, 117, 105, 111, 112, 91, 93, 10, 0, 97, 115, 100, 102, 103, 104, 106, 107, 108, 59, 39, 96, 0, 92, 122, 120, 99, 118, 98, 110, 109, 44, 46, 47, 0, 42, 0, 32, 0, 0, 0, 0, 0, 0, 0, 0, 0, 0, 0, 0, 0, 55, 56, 57, 45, 52, 53, 54, 43, 49, 50, 51, 48, 46, 0, 0, 0, 0]"
  by (simp add: normal_tab_def bytes_of_def numeral_eq_Suc)

lemma shift_tab_code [code]: "shift_tab =
    [0, 27, 33, 64, 35, 36, 37, 94, 38, 42, 40, 41, 95, 43, 8, 9, 81, 87, 69, 82, 84, 89, 85, 73, 79, 80, 123, 125, 10, 0, 65, 83, 68, 70, 71, 72, 74, 75, 76, 58, 34, 126, 0, 124, 90, 88, 67, 86, 66, 78, 77, 60, 62, 63, 0, 42, 0, 32, 0, 0, 0, 0, 0, 0, 0, 0, 0, 0, 0, 0, 0, 55, 56, 57, 45, 52, 53, 54, 43, 49, 50, 51, 48, 46, 0, 0, 0, 0]"
  by (simp add: shift_tab_def bytes_of_def numeral_eq_Suc)

text \<open>The scan codes of a typist: a key and its release, with the left shift key around it where needed.\<close>

fun key_from :: "byte \<Rightarrow> byte list \<Rightarrow> byte \<Rightarrow> byte option" where
  "key_from d [] ch = None"
| "key_from d (c # tab) ch = (if c = ch then Some d else key_from (d + 1) tab ch)"

definition strokes :: "byte \<Rightarrow> byte list" where
  "strokes ch =
     (case key_from 0 normal_tab ch of Some d \<Rightarrow> [d, d OR 0x80]
      | None \<Rightarrow> (case key_from 0 shift_tab ch of Some d \<Rightarrow> [0x2A, d, d OR 0x80, 0xAA] | None \<Rightarrow> []))"

definition typable :: "byte \<Rightarrow> bool" where
  "typable ch \<longleftrightarrow> 32 \<le> ch \<and> ch \<le> 126 \<or> ch \<in> {8, 9, 10, 27}"

definition typed_ok :: "byte \<Rightarrow> bool" where
  "typed_ok ch \<longleftrightarrow> (case kbd_codes (strokes ch) 0 of (cs, shift) \<Rightarrow> filter (\<lambda>c. 0 < c) cs = [uint ch] \<and> shift = 0)"

text \<open>Every key of the layout, by evaluation.\<close>

lemma typed_ok_low: "list_all typed_ok ([8, 9, 10, 27] @ map of_nat [32..<64])"
  by code_simp

lemma typed_ok_upper: "list_all typed_ok (map of_nat [64..<96])"
  by code_simp

lemma typed_ok_lower: "list_all typed_ok (map of_nat [96..<127])"
  by code_simp

lemma typed_ok_all:
  assumes "typable ch"
  shows "typed_ok ch"
proof -
  have "ch \<in> set ([8, 9, 10, 27] @ map of_nat [32..<64]) \<union> set (map of_nat [64..<96]) \<union> set (map of_nat [96..<127])"
  proof (cases "ch \<in> {8, 9, 10, 27}")
    case False
    then have "32 \<le> unat ch" "unat ch \<le> 126" using assms by (auto simp: typable_def word_le_nat_alt)
    then have "unat ch \<in> {32..<64} \<union> {64..<96} \<union> {96..<127}" by auto
    moreover have "ch = of_nat (unat ch)" by simp
    ultimately show ?thesis unfolding set_append set_map set_upt by blast
  qed auto
  then show ?thesis using typed_ok_low typed_ok_upper typed_ok_lower unfolding list_all_iff by blast
qed

lemma kbdgetc_none: "kbdgetc 0 0 shift = (-1, shift)"
  by (simp add: kbdgetc_def)

lemma kbd_codes_append:
  "kbd_codes (xs @ ys) shift = (butlast (fst (kbd_codes xs shift)) @ fst (kbd_codes ys (snd (kbd_codes xs shift))), snd (kbd_codes ys (snd (kbd_codes xs shift))))"
proof (induction xs arbitrary: shift)
  case (Cons x xs)
  have "fst (kbd_codes xs t) \<noteq> []" for t by (cases xs) (simp_all add: kbdgetc_none split_def Let_def)
  then show ?case using Cons by (simp add: split_def Let_def)
qed (simp add: kbdgetc_none)

lemma kbd_codes_nonneg:
  shows "0 \<le> fst (kbdgetc 1 d shift)" "\<exists>cs. fst (kbd_codes ds shift) = cs @ [-1] \<and> (\<forall>c \<in> set cs. 0 \<le> c)"
proof -
  have nn: "0 \<le> fst (kbdgetc 1 d shift)" for d shift by (simp add: kbdgetc_def swap_case_def Let_def split_def)
  show "0 \<le> fst (kbdgetc 1 d shift)" by (rule nn)
  show "\<exists>cs. fst (kbd_codes ds shift) = cs @ [-1] \<and> (\<forall>c \<in> set cs. 0 \<le> c)"
  proof (induction ds arbitrary: shift)
    case (Cons d ds)
    obtain cs where "fst (kbd_codes ds (snd (kbdgetc 1 d shift))) = cs @ [-1]" "\<forall>c \<in> set cs. 0 \<le> c" using Cons by blast
    then show ?case using nn[of d shift] by (intro exI[of _ "fst (kbdgetc 1 d shift) # cs"]) (simp add: split_def Let_def)
  qed (simp add: kbdgetc_none)
qed

lemma typed_codes:
  "\<forall>ch \<in> set txs. typable ch \<Longrightarrow> filter (\<lambda>c. 0 < c) (fst (kbd_codes (concat (map strokes txs)) 0)) = map uint txs \<and>
     snd (kbd_codes (concat (map strokes txs)) 0) = 0"
proof (induction txs)
  case (Cons ch txs)
  then have t: "filter (\<lambda>c. 0 < c) (fst (kbd_codes (strokes ch) 0)) = [uint ch]" "snd (kbd_codes (strokes ch) 0) = 0"
    using typed_ok_all[of ch] by (auto simp: typed_ok_def split_def)
  obtain cs where cs: "fst (kbd_codes (strokes ch) 0) = cs @ [-1]" using kbd_codes_nonneg(2) by blast
  then have "filter (\<lambda>c. 0 < c) (butlast (fst (kbd_codes (strokes ch) 0))) = [uint ch]" using t(1) by simp
  then show ?case using Cons t(2) by (simp add: kbd_codes_append)
qed (simp add: kbdgetc_none)

section \<open>From the keyboard to the line\<close>

lemma ld_key_0 [simp]: "ld_key b 0 d = d"
  by (simp add: ld_key_def ld_put_def)

lemma consoleintr_ld:
  "input_inv con \<Longrightarrow> \<forall>c \<in> set cs. 0 \<le> c \<Longrightarrow> consoleintr (cs @ [-1]) con = Inr (con', dump) \<Longrightarrow>
     input_abs con' = fold (ld_key (bufferFlag con \<noteq> 0)) (filter (\<lambda>c. 0 < c) cs) (input_abs con) \<and> input_inv con'"
proof (induction cs arbitrary: con dump)
  case (Cons c cs)
  obtain con1 d1 d2 where c1: "consoleintr_key c con = Inr (con1, d1)" "consoleintr (cs @ [-1]) con1 = Inr (con', d2)"
    using Cons.prems(2,3) by (auto simp: kbind_Inr)
  note k = consoleintr_key_ld[OF Cons.prems(1) c1(1)]
  have "input_abs con' = fold (ld_key (bufferFlag con1 \<noteq> 0)) (filter (\<lambda>c. 0 < c) cs) (input_abs con1) \<and> input_inv con'"
    using Cons.IH[OF _ _ c1(2)] k Cons.prems(2) by simp
  moreover have "c = 0 \<or> 0 < c" using Cons.prems(2) by auto
  ultimately show ?case using k by auto
qed simp



end
