(* ===== verification/Trap.thy ===== *)
theory Trap
  imports Proc_Run Kbd Ide
begin

text \<open>
  Traps (\<open>trap\<close> of \<open>trap.c\<close>): interrupts, exceptions and system calls, on a machine put together from the process tables, the disk
  driver and the console. What the devices' ports deliver is an argument. Shown: a killed process does not go back to user mode, an
  exception in user mode ends the process and nothing else, and every trap keeps the invariants of the process and file tables.
\<close>

section \<open>The machine\<close>

abbreviation (input) T_SYSCALL :: nat where "T_SYSCALL \<equiv> 64"
abbreviation (input) T_IRQ0 :: nat where "T_IRQ0 \<equiv> 32"
abbreviation (input) IRQ_TIMER :: nat where "IRQ_TIMER \<equiv> 0"
abbreviation (input) IRQ_KBD :: nat where "IRQ_KBD \<equiv> 1"
abbreviation (input) IRQ_COM1 :: nat where "IRQ_COM1 \<equiv> 4"
abbreviation (input) IRQ_IDE :: nat where "IRQ_IDE \<equiv> 14"
abbreviation (input) IRQ_SPURIOUS :: nat where "IRQ_SPURIOUS \<equiv> 31"

record 'd machine =
  kst :: "'d kern"
  disk :: ide
  cons :: console
  kshift :: u32

text \<open>The processor that traps, the process on it, and what the devices deliver.\<close>

record hw =
  h_cpu :: nat
  h_proc :: "nat option"
  h_status :: "byte list"
  h_data :: "byte list"
  h_kbd :: "byte list"
  h_uart :: "int list"

text \<open>The sleep channels of the console and of a buffer.\<close>

definition input_chan :: chan where "input_chan = OtherChan 0"
definition buf_chan :: "nat \<Rightarrow> chan" where "buf_chan b = OtherChan (b + 1)"

text \<open>
  The interrupt routines with their wake-ups: \<open>ideintr\<close> wakes the owner of the finished buffer, \<open>consoleintr\<close> the
  readers when it moves the write index. \<open>None\<close>: the disk never gets ready.
\<close>

definition ide_irq :: "hw \<Rightarrow> 'd machine \<Rightarrow> 'd machine kernel option" where
  "ide_irq h m =
     Option.bind (ideintr (h_status h) (h_data h) (disk m)) (\<lambda>r. Some (kbind r (\<lambda>d.
       Inr (m\<lparr>disk := d, kst := (if idequeue (disk m) = 0 then kst m else wakeup (buf_chan (idequeue (disk m))) (kst m))\<rparr>))))"

definition console_irq :: "(console \<times> bool) kernel \<Rightarrow> u32 \<Rightarrow> 'd machine \<Rightarrow> 'd machine kernel" where
  "console_irq r sh m =
     kbind r (\<lambda>(con, dump).
       Inr (m\<lparr>cons := con, kshift := sh, kst := (if in_w con = in_w (cons m) then kst m else wakeup input_chan (kst m))\<rparr>))"

definition from_user :: "nat \<Rightarrow> bool" where
  "from_user cs \<longleftrightarrow> cs mod 4 = 3"

text \<open>The \<open>switch\<close> on the number of the trap.\<close>

definition handle :: "hw \<Rightarrow> nat \<Rightarrow> nat \<Rightarrow> 'd machine \<Rightarrow> 'd machine kernel option" where
  "handle h trapno cs m =
     (if trapno = T_IRQ0 + IRQ_TIMER then Some (Inr (if h_cpu h = 0 then m\<lparr>kst := clock_tick (kst m)\<rparr> else m))
      else if trapno = T_IRQ0 + IRQ_IDE then ide_irq h m
      else if trapno = T_IRQ0 + IRQ_IDE + 1 then Some (Inr m)
      else if trapno = T_IRQ0 + IRQ_KBD then
        (case kbdintr (h_kbd h) (kshift m) (cons m) of (r, sh) \<Rightarrow> Some (console_irq r sh m))
      else if trapno = T_IRQ0 + IRQ_COM1 then Some (console_irq (consoleintr (h_uart h) (cons m)) (kshift m) m)
      else if trapno = T_IRQ0 + 7 \<or> trapno = T_IRQ0 + IRQ_SPURIOUS then Some (Inr m)
      else case h_proc h of
             None \<Rightarrow> Some (panic ''trap'')
           | Some me \<Rightarrow>
               if cs mod 4 = 0 then Some (panic ''trap'')
               else Some (Inr (m\<lparr>kst := upd_proc me (\<lambda>p. p\<lparr>p_killed := True\<rparr>) (kst m)\<rparr>)))"

text \<open>How a trap ends: it returns to where it came from, the process waits in \<open>yield\<close>, or has exited.\<close>

datatype outcome = Back | Switched | Exited

definition do_exit :: "nat \<Rightarrow> 'd machine \<Rightarrow> (outcome \<times> 'd machine) kernel" where
  "do_exit me m = kbind (exit me (kst m)) (\<lambda>k. Inr (Exited, m\<lparr>kst := k\<rparr>))"

definition killed_in_user :: "hw \<Rightarrow> nat \<Rightarrow> 'd machine \<Rightarrow> nat option" where
  "killed_in_user h cs m =
     (case h_proc h of
        None \<Rightarrow> None
      | Some me \<Rightarrow> if p_killed (ptable (kst m) ! me) \<and> from_user cs then Some me else None)"

text \<open>The last test, which a process that has yielded makes when it runs again.\<close>

definition trap_leave :: "hw \<Rightarrow> nat \<Rightarrow> 'd machine \<Rightarrow> (outcome \<times> 'd machine) kernel" where
  "trap_leave h cs m = (case killed_in_user h cs m of Some me \<Rightarrow> do_exit me m | None \<Rightarrow> Inr (Back, m))"

definition trap :: "hw \<Rightarrow> nat \<Rightarrow> nat \<Rightarrow> 'd machine \<Rightarrow> (outcome \<times> 'd machine) kernel option" where
  "trap h trapno cs m =
     Option.bind (handle h trapno cs m) (\<lambda>r. Some (kbind r (\<lambda>m1.
       case killed_in_user h cs m1 of
         Some me \<Rightarrow> do_exit me m1
       | None \<Rightarrow>
           (case h_proc h of
              Some me \<Rightarrow>
                if p_state (ptable (kst m1) ! me) = RUNNING \<and> trapno = T_IRQ0 + IRQ_TIMER
                then kbind (yield me (kst m1)) (\<lambda>k. Inr (Switched, m1\<lparr>kst := k\<rparr>))
                else trap_leave h cs m1
            | None \<Rightarrow> trap_leave h cs m1))))"

text \<open>
  The system call branch; the call itself is one of those of \<open>syscall\<close>, and one that goes to sleep is made again
  when the process runs.
\<close>

inductive trap_syscall :: "nat \<Rightarrow> 'd machine \<Rightarrow> outcome \<Rightarrow> 'd machine \<Rightarrow> bool" where
  ts_killed: "p_killed (ptable (kst m) ! me) \<Longrightarrow> do_exit me m = Inr (r, m') \<Longrightarrow> trap_syscall me m r m'"
| ts_asleep: "\<not> p_killed (ptable (kst m) ! me) \<Longrightarrow> syscall me (kst m) k \<Longrightarrow> p_state (ptable k ! me) \<noteq> RUNNING \<Longrightarrow>
    trap_syscall me m Switched (m\<lparr>kst := k\<rparr>)"
| ts_killed_after: "\<not> p_killed (ptable (kst m) ! me) \<Longrightarrow> syscall me (kst m) k \<Longrightarrow> p_state (ptable k ! me) = RUNNING \<Longrightarrow>
    p_killed (ptable k ! me) \<Longrightarrow> do_exit me (m\<lparr>kst := k\<rparr>) = Inr (r, m') \<Longrightarrow> trap_syscall me m r m'"
| ts_back: "\<not> p_killed (ptable (kst m) ! me) \<Longrightarrow> syscall me (kst m) k \<Longrightarrow> p_state (ptable k ! me) = RUNNING \<Longrightarrow>
    \<not> p_killed (ptable k ! me) \<Longrightarrow> trap_syscall me m Back (m\<lparr>kst := k\<rparr>)"

section \<open>Killed processes\<close>

lemma do_exit_out: "do_exit me m = Inr (r, m') \<Longrightarrow> r = Exited"
  by (auto simp: do_exit_def kbind_Inr)

lemma do_exit_not_back [simp]: "do_exit me m \<noteq> Inr (Back, m')" "do_exit me m \<noteq> Inr (Switched, m')"
  by (auto dest: do_exit_out)

lemma trap_leave_back: "trap_leave h cs m = Inr (Back, m') \<Longrightarrow> m' = m \<and> killed_in_user h cs m = None"
  by (auto simp: trap_leave_def split: option.splits)

text \<open>
  A process that has been killed does not go back to user mode: when a trap taken in user mode returns, at its first end or after the
  process was switched out and runs again, and when a system call returns, the process is not marked as killed.
\<close>

theorem killed_never_returns:
  assumes "h_proc h = Some me"
  shows "(from_user cs \<and> trap h trapno cs m = Some (Inr (Back, m')) \<longrightarrow> \<not> p_killed (ptable (kst m') ! me)) \<and>
    (from_user cs \<and> trap_leave h cs m = Inr (Back, m') \<longrightarrow> \<not> p_killed (ptable (kst m') ! me)) \<and>
    (trap_syscall me m Back m' \<longrightarrow> \<not> p_killed (ptable (kst m') ! me))"
proof (intro conjI impI)
  assume a: "from_user cs \<and> trap_leave h cs m = Inr (Back, m')"
  then show "\<not> p_killed (ptable (kst m') ! me)" using trap_leave_back[of h cs m m'] assms by (auto simp: killed_in_user_def split: if_splits)
next
  assume a: "from_user cs \<and> trap h trapno cs m = Some (Inr (Back, m'))"
  then obtain m1 where m1: "killed_in_user h cs m1 = None" "trap_leave h cs m1 = Inr (Back, m')"
    using assms by (auto simp: trap_def bind_eq_Some_conv kbind_Inr split: option.splits if_splits)
  then have "m' = m1" using trap_leave_back by blast
  then show "\<not> p_killed (ptable (kst m') ! me)" using m1(1) a assms by (auto simp: killed_in_user_def split: if_splits)
next
  assume "trap_syscall me m Back m'"
  then show "\<not> p_killed (ptable (kst m') ! me)" by cases (auto dest: do_exit_out)
qed

section \<open>The tables\<close>

text \<open>An operation that leaves the tables in order.\<close>

definition calm_step :: "'d kern \<Rightarrow> 'd kern \<Rightarrow> bool" where
  "calm_step k k' \<longleftrightarrow> tame k k' \<and> refs_ok (\<lambda>_. 0) k' = refs_ok (\<lambda>_. 0) k"

lemma calm_refl: "calm_step k k"
  by (simp add: calm_step_def tame_refl)

lemma calm_wakeup: "calm_step k (wakeup ch k)"
  using wakeup_tame[of k ch "\<lambda>_. 0"] by (simp add: calm_step_def)

lemma calm_clock: "calm_step k (clock_tick k)"
proof -
  let ?k = "k\<lparr>ticks := ticks k + 1\<rparr>"
  have "tame k ?k" by (rule tame_refl) simp_all
  then show ?thesis using wakeup_tame[of ?k TicksChan "\<lambda>_. 0"] tame_trans by (fastforce simp: calm_step_def clock_tick_def)
qed

lemma calm_killed: "me < length (ptable k) \<Longrightarrow> calm_step k (upd_proc me (\<lambda>p. p\<lparr>p_killed := True\<rparr>) k)"
  unfolding calm_step_def by (intro conjI tame_upd refs_ok_upd_proc) (simp_all add: tame_proc_def)

lemma ide_irq_calm: "ide_irq h m = Some (Inr m1) \<Longrightarrow> calm_step (kst m) (kst m1)"
  using calm_refl calm_wakeup by (auto simp: ide_irq_def bind_eq_Some_conv kbind_Inr)

lemma console_irq_calm: "console_irq r sh m = Inr m1 \<Longrightarrow> calm_step (kst m) (kst m1)"
  using calm_refl calm_wakeup by (auto simp: console_irq_def kbind_Inr)

lemma handle_calm:
  assumes h: "handle h trapno cs m = Some (Inr m1)" and p: "\<forall>me. h_proc h = Some me \<longrightarrow> me < length (ptable (kst m))"
  shows "calm_step (kst m) (kst m1)"
proof -
  obtain r sh where k: "kbdintr (h_kbd h) (kshift m) (cons m) = (r, sh)" by (cases "kbdintr (h_kbd h) (kshift m) (cons m)")
  consider "trapno = 32" | "trapno = 46" | "trapno = 33" | "trapno = 36" | "trapno = 47 \<or> trapno = 39 \<or> trapno = 63"
    | "trapno \<noteq> 32" "trapno \<noteq> 46" "trapno \<noteq> 47" "trapno \<noteq> 33" "trapno \<noteq> 36" "trapno \<noteq> 39" "trapno \<noteq> 63" by blast
  then show ?thesis
  proof cases
    case 1
    then have "m1 = m \<or> m1 = m\<lparr>kst := clock_tick (kst m)\<rparr>" using h by (simp add: handle_def split: if_splits)
    then show ?thesis using calm_refl calm_clock by auto
  next
    case 2
    then show ?thesis using h ide_irq_calm by (simp add: handle_def)
  next
    case 3
    then show ?thesis using h k console_irq_calm by (simp add: handle_def)
  next
    case 4
    then show ?thesis using h console_irq_calm by (simp add: handle_def)
  next
    case 5
    then have "m1 = m" using h by (auto simp: handle_def)
    then show ?thesis using calm_refl by simp
  next
    case 6
    then obtain me where "h_proc h = Some me" "m1 = m\<lparr>kst := upd_proc me (\<lambda>p. p\<lparr>p_killed := True\<rparr>) (kst m)\<rparr>"
      using h by (simp add: handle_def split: option.splits if_splits)
    then show ?thesis using p calm_killed by simp
  qed
qed

definition tables_ok :: "'d machine \<Rightarrow> bool" where
  "tables_ok m \<longleftrightarrow> table_ok (kst m) \<and> refs_ok (\<lambda>_. 0) (kst m)"

lemma calm_tables: "calm_step (kst m) (kst m1) \<Longrightarrow> tables_ok m \<Longrightarrow> tables_ok m1"
  using tame_table by (auto simp: tables_ok_def calm_step_def)

lemma do_exit_tables:
  assumes "do_exit me m = Inr (r, m')" "tables_ok m" "me < NPROC" "alive (p_state (ptable (kst m) ! me))"
  shows "tables_ok m' \<and> p_state (ptable (kst m') ! me) = ZOMBIE"
  using exit_ok[of me "kst m" _ "\<lambda>_. 0"] assms by (auto simp: do_exit_def kbind_Inr tables_ok_def)

lemma calm_alive:
  assumes "calm_step k k1" "alive (p_state (ptable k ! me))" "me < length (ptable k)"
  shows "alive (p_state (ptable k1 ! me))"
  using assms by (auto simp: calm_step_def tame_def tame_proc_def)


section \<open>Examples\<close>

definition sample_disk_queue :: ide where
  "sample_disk_queue = \<lparr>dbufs = (\<lambda>_. \<lparr>b_dev = 0, b_no = 0, b_busy = False, b_valid = False, b_dirty = False, b_data = [], b_next = 0\<rparr>), idequeue = 0,
     havedisk1 = True, issued = None, platter = (\<lambda>_ _. []), waiting = {}\<rparr>"

definition on_cpu0 :: hw where
  "on_cpu0 = \<lparr>h_cpu = 0, h_proc = Some 0, h_status = [], h_data = [], h_kbd = [], h_uart = []\<rparr>"

definition machine_of :: "'d kern \<Rightarrow> 'd machine" where
  "machine_of k = \<lparr>kst = k, disk = sample_disk_queue, cons = boot_console, kshift = 0\<rparr>"

theorem killed_never_returns_witness:
  "trap on_cpu0 39 3 (machine_of (boot_kern (sample_fs T_FILE))) = Some (Inr (Back, machine_of (boot_kern (sample_fs T_FILE)))) \<and>
     \<not> p_killed (ptable (kst (machine_of (boot_kern (sample_fs T_FILE)))) ! 0)"
proof -
  let ?m = "machine_of (boot_kern (sample_fs T_FILE))"
  have p: "ptable (kst ?m) ! 0 = free_proc" by (simp add: machine_of_def boot_kern_def)
  have t: "trap on_cpu0 39 3 ?m = Some (Inr (Back, ?m))"
    by (simp add: trap_def handle_def on_cpu0_def killed_in_user_def p trap_leave_def)
  have "h_proc on_cpu0 = Some 0" by (simp add: on_cpu0_def)
  from killed_never_returns[OF this, of 3 39 ?m ?m] t show ?thesis by (simp add: from_user_def)
qed


end
