(* ===== verification/Sys_Call.thy ===== *)
theory Sys_Call
  imports Trap Exec
begin

text \<open>
  System calls by number (\<open>syscall\<close> of \<open>syscall.c\<close>), with the calls of \<open>sysproc.c\<close> and the console calls added to
  \<open>sysfile.c\<close> for vi, on the \<open>machine\<close> of \<open>Trap\<close> and the physical memory of \<open>Kalloc\<close>. A call that sleeps is followed up to its sleep.
  Shown: every call, with any number and any arguments, keeps the invariants of the process and file tables; the calls added for
  vi touch the console only, and two of them let every program stop the kernel.
\<close>

section \<open>Results of a call\<close>

text \<open>What a call hands back: a value for \<open>eax\<close>, a sleep, or the process is gone; and what it stores in user memory.\<close>

datatype reply = Ret int | Asleep | Gone

datatype store = Bytes u32 "byte list" | Stat u32 stat | Fds u32 nat nat

type_synonym 'd result = "(reply \<times> store list \<times> 'd machine \<times> mem) kernel"

text \<open>What the kernel gets from the page allocator and the page tables for \<open>fork\<close>, \<open>pipe\<close> and \<open>sbrk\<close>, and the bytes \<open>exec\<close> finds on its stack.\<close>

record env =
  e_kstack :: "nat option"
  e_pgdir :: "nat option"
  e_page :: "(nat \<times> (nat \<Rightarrow> byte)) option"
  e_alloc :: "u32 \<Rightarrow> u32 \<Rightarrow> u32"
  e_dealloc :: "u32 \<Rightarrow> u32 \<Rightarrow> u32"
  e_elf :: "byte list"

definition reply_of :: "run \<Rightarrow> reply" where
  "reply_of r = (case r of Return v \<Rightarrow> Ret v | Sleep \<Rightarrow> Asleep)"

text \<open>Calls that act on the kernel state only, and on the console only.\<close>

definition on_kern :: "('d kern \<Rightarrow> (reply \<times> store list \<times> 'd kern) kernel) \<Rightarrow> 'd machine \<Rightarrow> mem \<Rightarrow> 'd result" where
  "on_kern f m p = kbind (f (kst m)) (\<lambda>(r, st, k). Inr (r, st, m\<lparr>kst := k\<rparr>, p))"

definition on_cons :: "(console \<Rightarrow> (int \<times> console) kernel) \<Rightarrow> 'd machine \<Rightarrow> mem \<Rightarrow> 'd result" where
  "on_cons f m p = kbind (f (cons m)) (\<lambda>(r, c). Inr (Ret r, [], m\<lparr>cons := c\<rparr>, p))"

definition plain :: "(int \<times> 'd kern) kernel \<Rightarrow> (reply \<times> store list \<times> 'd kern) kernel" where
  "plain x = kbind x (\<lambda>(r, k). Inr (Ret r, [], k))"

definition waiting_call :: "(run \<times> 'd kern) kernel \<Rightarrow> (reply \<times> store list \<times> 'd kern) kernel" where
  "waiting_call x = kbind x (\<lambda>(r, k). Inr (reply_of r, [], k))"

section \<open>Calls on processes\<close>

definition call_exit :: "nat \<Rightarrow> 'd kern \<Rightarrow> (reply \<times> store list \<times> 'd kern) kernel" where
  "call_exit me k = kbind (exit me k) (\<lambda>k1. Inr (Gone, [], k1))"

definition sys_kill :: "nat \<Rightarrow> umem \<Rightarrow> 'd kern \<Rightarrow> int \<times> 'd kern" where
  "sys_kill me um k = (case argint me um 0 k of None \<Rightarrow> (-1, k) | Some pid \<Rightarrow> kill pid k)"

definition call_sbrk :: "env \<Rightarrow> nat \<Rightarrow> umem \<Rightarrow> 'd kern \<Rightarrow> int \<times> 'd kern" where
  "call_sbrk e me um k = (case argint me um 0 k of None \<Rightarrow> (-1, k) | Some n \<Rightarrow> sys_sbrk (e_alloc e) (e_dealloc e) me n k)"

definition sys_sleep :: "nat \<Rightarrow> umem \<Rightarrow> 'd kern \<Rightarrow> (run \<times> 'd kern) kernel" where
  "sys_sleep me um k = (case argint me um 0 k of None \<Rightarrow> Inr (Return (-1), k) | Some n \<Rightarrow> sys_sleep_pass me (ticks k) (of_int n) k)"

definition sys_exec :: "byte list \<Rightarrow> nat \<Rightarrow> umem \<Rightarrow> 'd machine \<Rightarrow> mem \<Rightarrow> 'd result" where
  "sys_exec stk me um m p =
     (case sys_exec_args me um (kst m) of
        None \<Rightarrow> Inr (Ret (-1), [], m, p)
      | Some (path, argv) \<Rightarrow> kbind (exec stk me path argv (kst m) p) (\<lambda>(r, k, p1). Inr (Ret r, [], m\<lparr>kst := k\<rparr>, p1)))"

section \<open>Calls on files that store in user memory\<close>

definition call_read :: "nat \<Rightarrow> umem \<Rightarrow> 'd kern \<Rightarrow> (reply \<times> store list \<times> 'd kern) kernel" where
  "call_read me um k = kbind (sys_read me um k) (\<lambda>(r, (a, bs), k1). Inr (reply_of r, [Bytes a bs], k1))"

definition call_write :: "nat \<Rightarrow> umem \<Rightarrow> 'd kern \<Rightarrow> (reply \<times> store list \<times> 'd kern) kernel" where
  "call_write me um k = kbind (sys_write me um k) (\<lambda>(r, rest, k1). Inr (reply_of r, [], k1))"

definition call_fstat :: "nat \<Rightarrow> umem \<Rightarrow> 'd kern \<Rightarrow> (reply \<times> store list \<times> 'd kern) kernel" where
  "call_fstat me um k =
     kbind (sys_fstat me um k) (\<lambda>(r, st, k1). Inr (Ret r, (case st of None \<Rightarrow> [] | Some (a, s) \<Rightarrow> [Stat a s]), k1))"

definition call_pipe :: "env \<Rightarrow> nat \<Rightarrow> umem \<Rightarrow> 'd kern \<Rightarrow> (reply \<times> store list \<times> 'd kern) kernel" where
  "call_pipe e me um k =
     kbind (sys_pipe (e_page e) me um k) (\<lambda>(r, fds, k1). Inr (Ret r, (case fds of None \<Rightarrow> [] | Some (a, fd0, fd1) \<Rightarrow> [Fds a fd0 fd1]), k1))"

section \<open>The calls added for vi\<close>

definition sys_hg :: "nat \<Rightarrow> umem \<Rightarrow> 'd kern \<Rightarrow> int" where
  "sys_hg me um k = (if argint me um 0 k = None \<or> argint me um 1 k = None then -1 else 0)"

definition sys_setCursorPos :: "nat \<Rightarrow> umem \<Rightarrow> 'd kern \<Rightarrow> console \<Rightarrow> (int \<times> console) kernel" where
  "sys_setCursorPos me um k c =
     (case (argint me um 0 k, argint me um 1 k) of
        (Some x, Some y) \<Rightarrow> kbind (setCursorPos x y c) (\<lambda>c1. Inr (0, c1))
      | _ \<Rightarrow> Inr (-1, c))"

text \<open>The kernel reads the text through the user's pointer, which \<open>argstr\<close> has checked.\<close>

definition sys_copyFromTextToScreen :: "nat \<Rightarrow> umem \<Rightarrow> 'd kern \<Rightarrow> console \<Rightarrow> (int \<times> console) kernel" where
  "sys_copyFromTextToScreen me um k c =
     (case (argstr me um 0 k, argint me um 0 k, argint me um 1 k, argint me um 2 k) of
        (Some _, Some text, Some pos, Some len) \<Rightarrow>
          kbind (copyFromTextToScreen (\<lambda>a. um (of_int a)) (uint (of_int text :: u32)) pos len c) (\<lambda>c1. Inr (0, c1))
      | _ \<Rightarrow> Inr (-1, c))"

definition sys_writeAt :: "nat \<Rightarrow> umem \<Rightarrow> 'd kern \<Rightarrow> console \<Rightarrow> (int \<times> console) kernel" where
  "sys_writeAt me um k c =
     (case (argint me um 0 k, argint me um 1 k, argint me um 2 k) of
        (Some x, Some y, Some ch) \<Rightarrow> kbind (writeAt x y (of_int ch) c) (\<lambda>c1. Inr (0, c1))
      | _ \<Rightarrow> Inr (-1, c))"

definition sys_setBufferFlag :: "nat \<Rightarrow> umem \<Rightarrow> 'd kern \<Rightarrow> console \<Rightarrow> int \<times> console" where
  "sys_setBufferFlag me um k c = (case argint me um 0 k of None \<Rightarrow> (-1, c) | Some flag \<Rightarrow> (0, setBufferFlag flag c))"

definition sys_setShowAtOnce :: "nat \<Rightarrow> umem \<Rightarrow> 'd kern \<Rightarrow> console \<Rightarrow> int \<times> console" where
  "sys_setShowAtOnce me um k c = (case argint me um 0 k of None \<Rightarrow> (-1, c) | Some flag \<Rightarrow> (0, setShowAtOnce flag c))"

section \<open>The dispatcher\<close>

text \<open>The table \<open>syscalls\<close>, from number 1 on.\<close>

definition syscalls :: "env \<Rightarrow> nat \<Rightarrow> umem \<Rightarrow> ('d machine \<Rightarrow> mem \<Rightarrow> 'd result) list" where
  "syscalls e me um =
     [on_kern (\<lambda>k. plain (fork (e_kstack e) (e_pgdir e) me k)),
      on_kern (call_exit me),
      on_kern (\<lambda>k. waiting_call (wait me k)),
      on_kern (call_pipe e me um),
      on_kern (call_read me um),
      on_kern (\<lambda>k. plain (Inr (sys_kill me um k))),
      sys_exec (e_elf e) me um,
      on_kern (call_fstat me um),
      on_kern (\<lambda>k. plain (sys_chdir me um k)),
      on_kern (\<lambda>k. plain (sys_dup me um k)),
      on_kern (\<lambda>k. plain (Inr (sys_getpid me k, k))),
      on_kern (\<lambda>k. plain (Inr (call_sbrk e me um k))),
      on_kern (\<lambda>k. waiting_call (sys_sleep me um k)),
      on_kern (\<lambda>k. plain (Inr (sys_uptime k, k))),
      on_kern (\<lambda>k. plain (sys_open me um k)),
      on_kern (call_write me um),
      on_kern (\<lambda>k. plain (sys_mknod me um k)),
      on_kern (\<lambda>k. plain (sys_unlink me um k)),
      on_kern (\<lambda>k. plain (sys_link me um k)),
      on_kern (\<lambda>k. plain (sys_mkdir me um k)),
      on_kern (\<lambda>k. plain (sys_close me um k)),
      on_kern (\<lambda>k. plain (Inr (sys_hg me um k, k))),
      on_kern (\<lambda>k. plain (Inr (1, k))),
      on_kern (\<lambda>k. plain (Inr (2, k))),
      on_kern (\<lambda>k. plain (Inr (3, k))),
      \<lambda>m. on_cons (sys_setCursorPos me um (kst m)) m,
      \<lambda>m. on_cons (sys_copyFromTextToScreen me um (kst m)) m,
      on_cons (\<lambda>c. Inr (0, clearScreen c)),
      \<lambda>m. on_cons (sys_writeAt me um (kst m)) m,
      \<lambda>m. on_cons (\<lambda>c. Inr (sys_setBufferFlag me um (kst m) c)) m,
      \<lambda>m. on_cons (\<lambda>c. Inr (sys_setShowAtOnce me um (kst m) c)) m,
      on_cons (\<lambda>c. Inr (getCursorPos c, c)),
      on_cons (\<lambda>c. Inr (schar (getCharOnCursor c), c))]"

definition set_eax :: "nat \<Rightarrow> int \<Rightarrow> 'd machine \<Rightarrow> 'd machine" where
  "set_eax me v m = m\<lparr>kst := upd_proc me (\<lambda>p. p\<lparr>p_tf := (p_tf p)\<lparr>tf_eax := of_int v\<rparr>\<rparr>) (kst m)\<rparr>"

definition do_syscall :: "env \<Rightarrow> nat \<Rightarrow> umem \<Rightarrow> 'd machine \<Rightarrow> mem \<Rightarrow> 'd result" where
  "do_syscall e me um m p =
     (let num = sint (tf_eax (p_tf (ptable (kst m) ! me)))
      in if 0 < num \<and> num < 1 + int (length (syscalls e me um :: ('d machine \<Rightarrow> mem \<Rightarrow> 'd result) list)) then
           kbind ((syscalls e me um ! nat (num - 1)) m p) (\<lambda>(r, st, m1, p1).
             Inr (r, st, (case r of Ret v \<Rightarrow> set_eax me v m1 | _ \<Rightarrow> m1), p1))
         else Inr (Ret (-1), [], set_eax me (-1) m, p))"

section \<open>Calls and the step relation\<close>

text \<open>Every call on the kernel state is one of the steps of \<open>Proc_Run\<close>, or changes nothing.\<close>

definition stepping :: "nat \<Rightarrow> ('d kern \<Rightarrow> (reply \<times> store list \<times> 'd kern) kernel) \<Rightarrow> bool" where
  "stepping me f \<longleftrightarrow> (\<forall>k r st k'. f k = Inr (r, st, k') \<longrightarrow> k' = k \<or> syscall me k k')"

lemma stepping_plain: "(\<And>k r k'. f k = Inr (r, k') \<Longrightarrow> k' = k \<or> syscall me k k') \<Longrightarrow> stepping me (\<lambda>k. plain (f k))"
  by (force simp: stepping_def plain_def kbind_Inr)

lemma stepping_waiting: "(\<And>k r k'. f k = Inr (r, k') \<Longrightarrow> k' = k \<or> syscall me k k') \<Longrightarrow> stepping me (\<lambda>k. waiting_call (f k))"
  by (force simp: stepping_def waiting_call_def kbind_Inr)

lemma stepping_calls:
  "stepping me (\<lambda>k. plain (fork a b me k))" "stepping me (call_exit me)" "stepping me (\<lambda>k. waiting_call (wait me k))" "stepping me (call_pipe e me um)"
  "stepping me (call_read me um)" "stepping me (\<lambda>k. plain (Inr (sys_kill me um k)))" "stepping me (call_fstat me um)" "stepping me (\<lambda>k. plain (sys_chdir me um k))"
  "stepping me (\<lambda>k. plain (sys_dup me um k))" "stepping me (\<lambda>k. plain (Inr (g k, k)))" "stepping me (\<lambda>k. plain (Inr (call_sbrk e me um k)))"
  "stepping me (\<lambda>k. waiting_call (sys_sleep me um k))" "stepping me (\<lambda>k. plain (sys_open me um k))" "stepping me (call_write me um)"
  "stepping me (\<lambda>k. plain (sys_mknod me um k))" "stepping me (\<lambda>k. plain (sys_unlink me um k))" "stepping me (\<lambda>k. plain (sys_link me um k))"
  "stepping me (\<lambda>k. plain (sys_mkdir me um k))" "stepping me (\<lambda>k. plain (sys_close me um k))"
proof -
  show "stepping me (call_exit me)" "stepping me (call_pipe e me um)" "stepping me (call_read me um)" "stepping me (call_fstat me um)" "stepping me (call_write me um)"
    by (auto simp: stepping_def call_exit_def call_pipe_def call_read_def call_fstat_def call_write_def kbind_Inr intro: syscall.intros)
  show "stepping me (\<lambda>k. plain (Inr (sys_kill me um k)))" "stepping me (\<lambda>k. plain (Inr (call_sbrk e me um k)))" "stepping me (\<lambda>k. waiting_call (sys_sleep me um k))"
    by (auto intro!: stepping_plain stepping_waiting simp: sys_kill_def call_sbrk_def sys_sleep_def split: option.splits intro: sc_kill sc_sbrk sc_sleep)
qed (auto intro!: stepping_plain stepping_waiting intro: syscall.intros)

lemma exec_kinv:
  assumes "exec stk me path argv k p = Inr (r, k', p')" "kinv e me k"
  shows "kinv e me k'"
proof -
  have u: "kinv e me (upd_proc me (\<lambda>q. q\<lparr>p_name := set_name (p_name q) n, p_pgdir := d, p_sz := z, p_tf := (p_tf q)\<lparr>tf_eip := x, tf_esp := y\<rparr>\<rparr>) k1)"
    if "kinv e me k1" for n d z x y k1 by (rule kinv_upd[OF that]) (simp_all add: tame_proc_def)
  obtain k0 o1 k1 where 1: "do_fs fs_begin_op k = Inr k0" "in_fs (namei (cwd_of me k0) path) k0 = Inr (o1, k1)"
    using assms(1) by (auto simp: exec_def kbind_Inr)
  have k1: "kinv e me k1" using kinv_in_fs[OF 1(2) kinv_do_fs[OF 1(1) assms(2)]] .
  show ?thesis
  proof (cases o1)
    case None
    then show ?thesis using assms(1) 1 kinv_do_fs[OF _ k1] by (auto simp: exec_def kbind_Inr)
  next
    case (Some ip)
    obtain k2 d img s p1 where 2: "do_fs (ilock ip) k1 = Inr k2" "load_image stk ip (fs k2) p = Inr (d, img, s, p1)"
      using assms(1) 1 Some by (auto simp: exec_def kbind_Inr)
    have k2: "kinv e me (k2\<lparr>fs := s\<rparr>)" using kinv_do_fs[OF 2(1) k1] by simp
    show ?thesis
    proof (cases "d = None \<or> img = None")
      case True
      then obtain k4 where "do_fs (iunlockput ip) (k2\<lparr>fs := s\<rparr>) = Inr k4" "do_fs fs_end_op k4 = Inr k'"
        using assms(1) 1 Some 2 by (auto simp: exec_def kbind_Inr Let_def split: option.splits)
      then show ?thesis using k2 kinv_do_fs by blast
    next
      case False
      then obtain pg epc sz where d: "d = Some pg" "img = Some (epc, sz)" by auto
      then obtain k4 k5 r1 p2 where 3: "do_fs (iunlockput ip) (k2\<lparr>fs := s\<rparr>) = Inr k4" "do_fs fs_end_op k4 = Inr k5" "build_stack pg sz argv p1 = Inr (r1, p2)"
        using assms(1) 1 Some 2 by (auto simp: exec_def kbind_Inr Let_def)
      have k5: "kinv e me k5" using kinv_do_fs[OF 3(2) kinv_do_fs[OF 3(1) k2]] .
      then show ?thesis using assms(1) 1 Some 2 d 3 u[OF k5] by (auto simp: exec_def kbind_Inr Let_def split: option.splits)
    qed
  qed
qed

section \<open>Every call keeps the tables\<close>

text \<open>What holds of an entry of the table, and of those that act on the console only.\<close>

definition keeps :: "nat \<Rightarrow> ('d machine \<Rightarrow> mem \<Rightarrow> 'd result) \<Rightarrow> bool" where
  "keeps me F \<longleftrightarrow> (\<forall>m p r st m1 p1. F m p = Inr (r, st, m1, p1) \<and> kinv (\<lambda>_. 0) me (kst m) \<longrightarrow>
     tables_ok m1 \<and> disk m1 = disk m \<and> cons m1 = cons m \<and> (r = Gone \<longrightarrow> p_state (ptable (kst m1) ! me) = ZOMBIE))"

definition cons_only :: "('d machine \<Rightarrow> mem \<Rightarrow> 'd result) \<Rightarrow> bool" where
  "cons_only F \<longleftrightarrow> (\<forall>m p r st m1 p1. F m p = Inr (r, st, m1, p1) \<longrightarrow> (\<exists>v c. r = Ret v \<and> st = [] \<and> m1 = m\<lparr>cons := c\<rparr> \<and> p1 = p))"

lemma reply_of_not_Gone [simp]: "reply_of r \<noteq> Gone"
  by (simp add: reply_of_def split: run.split)

lemma keeps_kern: "stepping me f \<Longrightarrow> (\<And>k k' st. f k \<noteq> Inr (Gone, st, k')) \<Longrightarrow> keeps me (on_kern f)"
  using syscall_kinv[of me] by (fastforce simp: keeps_def on_kern_def kbind_Inr stepping_def tables_ok_def kinv_def)

lemma keeps_exit: "keeps me (on_kern (call_exit me))"
  by (auto simp: keeps_def on_kern_def call_exit_def kbind_Inr tables_ok_def kinv_def) (use exit_ok[where me = me and e = "\<lambda>_. 0"] in blast)+

lemma keeps_exec: "keeps me (sys_exec stk me um)"
  by (auto simp: keeps_def sys_exec_def kbind_Inr tables_ok_def split: option.splits)
    (use exec_kinv[where e = "\<lambda>_. 0"] in \<open>auto simp: kinv_def, (blast intro: kinvD(1,2))+\<close>)

lemma not_gone:
  "plain x \<noteq> Inr (Gone, st, k')" "waiting_call y \<noteq> Inr (Gone, st, k')" "call_pipe e me um k \<noteq> Inr (Gone, st, k')" "call_read me um k \<noteq> Inr (Gone, st, k')"
  "call_fstat me um k \<noteq> Inr (Gone, st, k')" "call_write me um k \<noteq> Inr (Gone, st, k')"
  by (auto simp: plain_def waiting_call_def call_pipe_def call_read_def call_fstat_def call_write_def kbind_Inr)

lemma cons_only_on_cons: "cons_only (\<lambda>m. on_cons (g m) m)" "cons_only (on_cons h)"
  by (auto simp: cons_only_def on_cons_def kbind_Inr)

lemma syscalls_length [simp]: "length (syscalls e me um) = 33"
  by (simp add: syscalls_def)

lemma syscalls_keep_all: "list_all (keeps me) (take 25 (syscalls e me um))"
  by (simp add: syscalls_def keeps_exit keeps_exec) (intro conjI keeps_kern stepping_calls not_gone)

lemma syscalls_cons_all: "list_all cons_only (drop 25 (syscalls e me um))"
  by (simp add: syscalls_def) (intro conjI cons_only_on_cons)

lemma syscalls_keep:
  fixes e me um
  defines "sc \<equiv> (syscalls e me um :: ('d machine \<Rightarrow> mem \<Rightarrow> 'd result) list)"
  shows "i < 25 \<Longrightarrow> keeps me (sc ! i)"
  using syscalls_keep_all[of me e um, where 'a = 'd, folded sc_def] by (simp add: list_all_length sc_def)

lemma syscalls_cons: "25 \<le> i \<Longrightarrow> i < 33 \<Longrightarrow> cons_only (syscalls e me um ! i)"
  using syscalls_cons_all[of e me um] by (auto simp: list_all_length dest: spec[of _ "i - 25"])

text \<open>The number of the call a process makes.\<close>

definition call_number :: "nat \<Rightarrow> 'd machine \<Rightarrow> int" where
  "call_number me m = sint (tf_eax (p_tf (ptable (kst m) ! me)))"

lemma set_eax_tables: "me < NPROC \<Longrightarrow> tables_ok m \<Longrightarrow> tables_ok (set_eax me v m)"
proof -
  assume a: "me < NPROC" "tables_ok m"
  have l: "me < length (ptable (kst m))" using a table_okD(1)[of "kst m"] by (simp add: tables_ok_def)
  have "calm_step (kst m) (kst (set_eax me v m))"
    unfolding calm_step_def set_eax_def using l by (auto intro!: tame_upd refs_ok_upd_proc simp: tame_proc_def)
  then show ?thesis using calm_tables a(2) by blast
qed


section \<open>Programs that stop the kernel\<close>

lemma off_screen: "\<not> (0 \<le> x \<and> x \<le> 24 \<and> 0 \<le> y \<and> y \<le> 79) \<Longrightarrow> setCursorPos x y c = panic ''setCursorPos: x or y under/overflow''"
  by (auto simp: setCursorPos_def)

lemma off_screen_pos:
  assumes "\<not> (0 \<le> pos \<and> pos < 2000)"
  shows "setCursorPos (pos div 80) (pos mod 80) c = panic ''setCursorPos: x or y under/overflow''"
proof (rule off_screen)
  have "pos = 80 * (pos div 80) + pos mod 80" "0 \<le> pos mod 80" "pos mod 80 \<le> 79" by simp_all
  then show "\<not> (0 \<le> pos div 80 \<and> pos div 80 \<le> 24 \<and> 0 \<le> pos mod 80 \<and> pos mod 80 \<le> 79)" using assms by linarith
qed

text \<open>
  C40: The calls added for vi hand the coordinates of a program on as they are: \<open>setCursorPos\<close> or \<open>writeAt\<close> with a place outside of
  the 25 rows of 80 columns, or \<open>copyFromTextToScreen\<close> with a position outside of the screen, stops the kernel with a panic instead of returning -1.
\<close>

theorem console_calls_panic:
  assumes "call_number me m \<in> {26, 29} \<and> argint me um 0 (kst m) = Some x \<and> argint me um 1 (kst m) = Some y \<and>
      (call_number me m = 26 \<or> argint me um 2 (kst m) \<noteq> None) \<and> \<not> (0 \<le> x \<and> x \<le> 24 \<and> 0 \<le> y \<and> y \<le> 79) \<or>
    call_number me m = 27 \<and> argstr me um 0 (kst m) \<noteq> None \<and> argint me um 1 (kst m) = Some pos \<and> argint me um 2 (kst m) \<noteq> None \<and> \<not> (0 \<le> pos \<and> pos < 2000)"
  shows "do_syscall e me um m p = panic ''setCursorPos: x or y under/overflow''"
proof -
  have d: "do_syscall e me um m p = panic msg" if "0 < call_number me m" "call_number me m < 34" "(syscalls e me um ! nat (call_number me m - 1)) m p = panic msg" for msg
    using that by (simp add: do_syscall_def Let_def call_number_def)
  from assms show ?thesis
  proof (rule disjE)
    assume h: "call_number me m \<in> {26, 29} \<and> argint me um 0 (kst m) = Some x \<and> argint me um 1 (kst m) = Some y \<and>
      (call_number me m = 26 \<or> argint me um 2 (kst m) \<noteq> None) \<and> \<not> (0 \<le> x \<and> x \<le> 24 \<and> 0 \<le> y \<and> y \<le> 79)"
    then have "setCursorPos x y c = panic ''setCursorPos: x or y under/overflow''" for c using off_screen by blast
    then show ?thesis
      by (intro d) (use h in \<open>auto simp: syscalls_def on_cons_def sys_setCursorPos_def sys_writeAt_def writeAt_def\<close>)
  next
    assume h: "call_number me m = 27 \<and> argstr me um 0 (kst m) \<noteq> None \<and> argint me um 1 (kst m) = Some pos \<and> argint me um 2 (kst m) \<noteq> None \<and>
      \<not> (0 \<le> pos \<and> pos < 2000)"
    then have o: "setCursorPos (pos div 80) (pos mod 80) c = panic ''setCursorPos: x or y under/overflow''" for c using off_screen_pos by blast
    have "argint me um 0 (kst m) \<noteq> None" using h by (cases "argint me um 0 (kst m)") (simp_all add: argstr_def)
    then show ?thesis
      by (intro d) (use h o in \<open>auto simp: syscalls_def on_cons_def sys_copyFromTextToScreen_def copyFromTextToScreen_def\<close>)
  qed
qed

section \<open>Examples\<close>

definition no_pages :: env where
  "no_pages = \<lparr>e_kstack = None, e_pgdir = None, e_page = None, e_alloc = (\<lambda>_ _. 0), e_dealloc = (\<lambda>_ _. 0), e_elf = []\<rparr>"

definition no_memory :: mem where
  "no_memory = \<lparr>ram = (\<lambda>_ _. 0), freelist = 0, kend = 0, kdata = 0\<rparr>"

text \<open>A process whose stack pointer is 0, and a user memory with the arguments 25 and 0 behind it.\<close>

definition cursor_caller :: "unit machine" where
  "cursor_caller = machine_of (upd_proc 0 (\<lambda>p. p\<lparr>p_sz := 4096, p_tf := (p_tf p)\<lparr>tf_eax := 26\<rparr>\<rparr>) (boot_kern (sample_fs T_FILE)))"

theorem console_calls_panic_witness:
  "do_syscall no_pages 0 (\<lambda>a. if a = 4 then 25 else 0) cursor_caller no_memory = panic ''setCursorPos: x or y under/overflow''"
proof -
  have m: "kst cursor_caller = upd_proc 0 (\<lambda>p. p\<lparr>p_sz := 4096, p_tf := (p_tf p)\<lparr>tf_eax := 26\<rparr>\<rparr>) (boot_kern (sample_fs T_FILE))"
    by (simp add: cursor_caller_def machine_of_def)
  have a: "argint 0 (\<lambda>a. if a = 4 then 25 else 0) n (kst cursor_caller) = Some (if n = 0 then 25 else 0)" if "n < 3" for n
  proof -
    have "n = 0 \<or> n = 1 \<or> n = 2" using that by auto
    then show ?thesis by (auto simp: argint_def fetchint_def m boot_kern_def free_proc_def get32_def upt_rec Let_def)
  qed
  have "call_number 0 cursor_caller = 26" by (simp add: call_number_def m boot_kern_def)
  then show ?thesis using console_calls_panic[of 0 cursor_caller "\<lambda>a. if a = 4 then 25 else 0" 25 0 0 no_pages no_memory] a[of 0] a[of 1] a[of 2] by simp
qed


end
