(* ===== verification/Scheduler.thy ===== *)
theory Scheduler
  imports Proc_Run
begin

text \<open>
  The loop of \<open>scheduler\<close> (\<open>proc.c\<close>): a pass of one processor over the process table, while processes run, make system calls and are
  dispatched by other processors. Shown: no call and no interrupt takes the processor from a runnable process that waits for its turn, so
  one pass dispatches every process that was runnable when it began, each at most once and in the order of the table.
\<close>

section \<open>A pass of the scheduler\<close>

text \<open>Steps of the machine, with the entries that are dispatched in them.\<close>

inductive steps :: "'d kern \<Rightarrow> nat list \<Rightarrow> 'd kern \<Rightarrow> bool" where
  st_none: "steps k [] k"
| st_dispatch: "i < NPROC \<Longrightarrow> dispatch i k = Some k1 \<Longrightarrow> steps k1 ds k2 \<Longrightarrow> steps k (i # ds) k2"
| st_step: "kstep k k1 \<Longrightarrow> \<forall>i. dispatch i k \<noteq> Some k1 \<Longrightarrow> steps k1 ds k2 \<Longrightarrow> steps k ds k2"

text \<open>
  The loop from entry \<open>i\<close> on. The lock is held except while the chosen process runs, up to the switch back, when it has changed
  its state. The lists are the entries this processor has dispatched, and those that others have.
\<close>

inductive sched_pass :: "nat \<Rightarrow> 'd kern \<Rightarrow> nat list \<Rightarrow> nat list \<Rightarrow> 'd kern \<Rightarrow> bool" where
  sp_end: "sched_pass NPROC k [] [] k"
| sp_skip: "i < NPROC \<Longrightarrow> p_state (ptable k ! i) \<noteq> RUNNABLE \<Longrightarrow> sched_pass (i + 1) k own oth k' \<Longrightarrow> sched_pass i k own oth k'"
| sp_run: "i < NPROC \<Longrightarrow> dispatch i k = Some k1 \<Longrightarrow> steps k1 ds k2 \<Longrightarrow> p_state (ptable k2 ! i) \<noteq> RUNNING \<Longrightarrow>
    sched_pass (i + 1) k2 own oth k' \<Longrightarrow> sched_pass i k (i # own) (ds @ oth) k'"

section \<open>Runnable processes stay runnable\<close>

definition ready :: "nat \<Rightarrow> 'd kern \<Rightarrow> bool" where
  "ready j k \<longleftrightarrow> j < length (ptable k) \<and> p_state (ptable k ! j) = RUNNABLE"

lemma ready_upd [simp]:
  "ready j (k\<lparr>fs := s\<rparr>) = ready j k" "ready j (k\<lparr>ftable := ft\<rparr>) = ready j k" "ready j (k\<lparr>pipes := pp\<rparr>) = ready j k"
  "ready j (k\<lparr>ticks := t\<rparr>) = ready j k" "ready j (k\<lparr>nextpid := n\<rparr>) = ready j k" "ready j (k\<lparr>initproc := i\<rparr>) = ready j k"
  by (simp_all add: ready_def)

lemma ready_proc [simp]:
  assumes "j \<noteq> me"
  shows "ready j (k\<lparr>ptable := (ptable k)[me := x]\<rparr>) = ready j k" "ready j (k\<lparr>fs := s, ptable := (ptable k)[me := x]\<rparr>) = ready j k"
    "ready j (k\<lparr>nextpid := n, ptable := (ptable k)[me := x]\<rparr>) = ready j k"
  using assms by (simp_all add: ready_def)

text \<open>An update of an entry that does not make it less runnable.\<close>

lemma ready_any: "ready j k \<Longrightarrow> (p_state (ptable k ! i) = RUNNABLE \<Longrightarrow> p_state (g (ptable k ! i)) = RUNNABLE) \<Longrightarrow> ready j (upd_proc i g k)"
  by (cases "j = i") (simp_all add: ready_def)

lemma ready_wakeup: "ready j k \<Longrightarrow> ready j (wakeup1 ch k)" "ready j k \<Longrightarrow> ready j (wakeup ch k)"
  by (simp_all add: ready_def wakeup_def wakeup1_def)

lemma ready_wake_if: "ready j k \<Longrightarrow> ready j (if b then wakeup ch k else k)"
  by (simp add: ready_wakeup)

lemma ready_fs: "do_fs g k = Inr k' \<Longrightarrow> ready j k \<Longrightarrow> ready j k'" "in_fs h k = Inr (a, k') \<Longrightarrow> ready j k \<Longrightarrow> ready j k'"
  using do_fs_Inr in_fs_Inr by fastforce+

lemma ready_sleep: "sleep me ch k = Inr k' \<Longrightarrow> j \<noteq> me \<Longrightarrow> ready j k \<Longrightarrow> ready j k'"
  by (auto simp: sleep_def sched_def split: if_splits)

lemma ready_filealloc: "filealloc k = (r, k') \<Longrightarrow> ready j k \<Longrightarrow> ready j k'"
  by (auto simp: filealloc_def split: option.splits)

lemma ready_filedup: "filedup f k = Inr k' \<Longrightarrow> ready j k \<Longrightarrow> ready j k'"
  by (auto simp: filedup_def split: if_splits)

lemma ready_close_pipe: "close_pipe i w k = Inr k' \<Longrightarrow> ready j k \<Longrightarrow> ready j k'"
  by (auto simp: close_pipe_def Let_def ready_wakeup split: option.splits prod.splits)

lemma ready_fileclose: "fileclose f k = Inr k' \<Longrightarrow> ready j k \<Longrightarrow> ready j k'"
  by (auto simp: fileclose_def Let_def kbind_Inr split: if_splits filetype.splits dest!: ready_close_pipe ready_fs(1))

lemma ready_filestat: "filestat f k = Inr (st, k') \<Longrightarrow> ready j k \<Longrightarrow> ready j k'"
  by (auto simp: filestat_def Let_def kbind_Inr split: if_splits dest!: ready_fs(1))

lemma ready_pipe_run:
  assumes "ready j k" "j \<noteq> me"
    "(if out = Sleep then kbind (sleep me ch ((if wake then wakeup c k else k)\<lparr>pipes := pp\<rparr>)) (\<lambda>k2. Inr (out, bs, k2))
      else Inr (out, bs, (if wake then wakeup c k else k)\<lparr>pipes := pp\<rparr>)) = Inr (r, bs', k')"
  shows "ready j k'"
proof -
  have "ready j ((if wake then wakeup c k else k)\<lparr>pipes := pp\<rparr>)" using ready_wake_if[OF assms(1)] by (simp only: ready_upd)
  then show ?thesis using assms(2,3) ready_sleep by (auto simp only: kbind_Inr sum.inject prod.inject split: if_splits)
qed

lemma ready_read_pipe: "read_pipe me i n k = Inr (r, bs, k') \<Longrightarrow> j \<noteq> me \<Longrightarrow> ready j k \<Longrightarrow> ready j k'"
  unfolding read_pipe_def Let_def by (auto split: option.splits prod.splits elim!: ready_pipe_run[rotated 2])

lemma ready_write_pipe: "write_pipe me i n bs k = Inr (r, rest, k') \<Longrightarrow> j \<noteq> me \<Longrightarrow> ready j k \<Longrightarrow> ready j k'"
  unfolding write_pipe_def Let_def by (auto split: option.splits prod.splits elim!: ready_pipe_run[rotated 2])

lemma ready_fileread: "fileread me f n k = Inr (r, bs, k') \<Longrightarrow> j \<noteq> me \<Longrightarrow> ready j k \<Longrightarrow> ready j k'"
  by (auto simp: fileread_def Let_def kbind_Inr split: if_splits filetype.splits dest!: ready_fs(1) ready_read_pipe)

lemma ready_write_chunk: "write_chunk f bs k = Inr (r, k') \<Longrightarrow> ready j k \<Longrightarrow> ready j k'"
  by (auto simp: write_chunk_def Let_def kbind_Inr split: if_splits dest!: ready_fs)

lemma ready_write_loop: "write_loop f bs k = Inr (ok, k') \<Longrightarrow> ready j k \<Longrightarrow> ready j k'"
proof (induction f bs k arbitrary: ok k' rule: write_loop.induct)
  case (1 f bs k)
  show ?case
  proof (cases "bs = []")
    case False
    let ?n = "min (length bs) wmax"
    from 1(2) False obtain r k1 where c: "write_chunk f (take ?n bs) k = Inr (r, k1)" and
      l: "(if r < 0 then Inr (False, k1) else if r \<noteq> int ?n then panic ''short filewrite'' else write_loop f (drop ?n bs) k1) = Inr (ok, k')"
      by (subst (asm) write_loop.simps) (auto simp: Let_def kbind_Inr)
    note v1 = ready_write_chunk[OF c 1(3)]
    show ?thesis using l v1 1(1)[OF False refl _ _ _ v1] by (auto split: if_splits)
  qed (use 1 in \<open>simp add: write_loop.simps\<close>)
qed

lemma ready_filewrite: "filewrite me f n bs k = Inr (r, rest, k') \<Longrightarrow> j \<noteq> me \<Longrightarrow> ready j k \<Longrightarrow> ready j k'"
  by (auto simp: filewrite_def Let_def kbind_Inr split: if_splits filetype.splits dest!: ready_write_loop ready_write_pipe)

lemma ready_pipealloc: "pipealloc page k = Inr (r, k') \<Longrightarrow> ready j k \<Longrightarrow> ready j k'"
  by (auto simp: pipealloc_def kbind_Inr split: option.splits prod.splits dest!: ready_filealloc ready_fileclose)

lemma ready_fdalloc: "fdalloc me f k = (r, k') \<Longrightarrow> j \<noteq> me \<Longrightarrow> ready j k \<Longrightarrow> ready j k'"
  by (auto simp: fdalloc_def split: option.splits)

section \<open>System calls\<close>

lemma ready_fork_files: "fork_files fds me np k = Inr k' \<Longrightarrow> j \<noteq> np \<Longrightarrow> ready j k \<Longrightarrow> ready j k'"
  by (induction fds me np k arbitrary: k' rule: fork_files.induct) (auto simp: kbind_Inr split: option.splits dest!: ready_filedup)

lemma ready_allocproc:
  assumes "allocproc a k = (r, k')" "ready j k"
  shows "ready j k'" "r \<noteq> Some j"
proof -
  have "p_state (ptable k ! i) = UNUSED" if "List.find (\<lambda>i. p_state (ptable k ! i) = UNUSED) xs = Some i" for i xs
    using that by (auto simp: find_Some_iff)
  then have "i \<noteq> j" if "List.find (\<lambda>i. p_state (ptable k ! i) = UNUSED) xs = Some i" for i xs using that assms(2) by (auto simp: ready_def)
  note ne = this
  show "ready j k'" using assms by (auto simp: allocproc_def Let_def split: option.splits dest: ne ne[OF sym])
  show "r \<noteq> Some j" using assms by (auto simp: allocproc_def Let_def split: option.splits dest: ne ne[OF sym])
qed

lemma ready_fork: "fork a b me k = Inr (r, k') \<Longrightarrow> ready j k \<Longrightarrow> ready j k'"
proof -
  assume h: "fork a b me k = Inr (r, k')" "ready j k"
  obtain o1 k1 where a: "allocproc a k = (o1, k1)" by (cases "allocproc a k")
  note k1 = ready_allocproc[OF a h(2)]
  show ?thesis
  proof (cases o1)
    case None
    then show ?thesis using h(1) a k1 by (simp add: fork_def)
  next
    case (Some np)
    have ne: "j \<noteq> np" using k1(2) Some by auto
    show ?thesis
    proof (cases b)
      case None
      then show ?thesis using h(1) a Some k1(1) ne by (auto simp: fork_def)
    next
      case b: (Some d)
      let ?k2 = "upd_proc np (\<lambda>p. p\<lparr>p_pgdir := Some d, p_sz := p_sz (ptable k1 ! me), p_parent := Some me, p_tf := (p_tf (ptable k1 ! me))\<lparr>tf_eax := 0\<rparr>\<rparr>) k1"
      obtain k3 where k3: "fork_files [0..<NOFILE] me np ?k2 = Inr k3" using h(1) a Some b by (auto simp: fork_def kbind_Inr Let_def)
      have "ready j k3" using ready_fork_files[OF k3 ne] k1(1) ne by simp
      moreover obtain s where "dup_cwd me k3 = (p_cwd (ptable k3 ! me), k3\<lparr>fs := s\<rparr>)" using dup_cwd_eq by blast
      ultimately show ?thesis using h(1) a Some b k3 ne by (auto simp: fork_def kbind_Inr Let_def)
    qed
  qed
qed

lemma ready_exit_files: "exit_files fds me k = Inr k' \<Longrightarrow> j \<noteq> me \<Longrightarrow> ready j k \<Longrightarrow> ready j k'"
  by (induction fds me k arbitrary: k' rule: exit_files.induct) (auto simp: kbind_Inr split: option.splits dest!: ready_fileclose)

lemma ready_put_cwd: "put_cwd me k = Inr k' \<Longrightarrow> j \<noteq> me \<Longrightarrow> ready j k \<Longrightarrow> ready j k'"
  by (auto simp: put_cwd_def kbind_Inr split: option.splits dest!: ready_fs(1))

lemma ready_reparent: "ready j k \<Longrightarrow> ready j (reparent is me k)"
  by (induction "is" me k rule: reparent.induct) (simp add: Let_def ready_wakeup ready_any)+

lemma ready_exit: "exit me k = Inr k' \<Longrightarrow> j \<noteq> me \<Longrightarrow> ready j k \<Longrightarrow> ready j k'"
  by (auto simp: exit_def exit_final_def sched_def kbind_Inr Let_def split: if_splits dest!: ready_exit_files ready_put_cwd intro!: ready_reparent ready_wakeup)

lemma ready_wait: "wait me k = Inr (w, k') \<Longrightarrow> j \<noteq> me \<Longrightarrow> ready j k \<Longrightarrow> ready j k'"
proof -
  assume h: "wait me k = Inr (w, k')" "j \<noteq> me" "ready j k"
  obtain o1 b where s: "wait_scan [0..<length (ptable k)] me False k = (o1, b)" by (cases "wait_scan [0..<length (ptable k)] me False k")
  show ?thesis
  proof (cases o1)
    case None
    then show ?thesis using h s ready_sleep by (auto simp: wait_def kbind_Inr split: if_splits)
  next
    case (Some i)
    then have "p_state (ptable k ! i) = ZOMBIE" using wait_scan_Some s by blast
    then have "j \<noteq> i" using h(3) by (auto simp: ready_def)
    then show ?thesis using h s Some by (auto simp: wait_def)
  qed
qed

lemma ready_kill: "kill pid k = (r, k') \<Longrightarrow> ready j k \<Longrightarrow> ready j k'"
  by (auto simp: kill_def split: option.splits intro!: ready_any)

lemma ready_open_fail: "open_fail ip k = Inr (r, k') \<Longrightarrow> ready j k \<Longrightarrow> ready j k'"
  by (auto simp: open_fail_def kbind_Inr dest!: ready_fs)

lemma ready_open:
  assumes "open_path me path omode k = Inr (r, k')" "j \<noteq> me" "ready j k"
  shows "ready j k'"
proof -
  obtain k0 o1 k1 where 1: "do_fs fs_begin_op k = Inr k0" "in_fs (open_inode (cwd_of me k0) path omode) k0 = Inr (o1, k1)"
    using assms(1) by (auto simp: open_path_def kbind_Inr)
  obtain o2 k2 where 2: "filealloc k1 = (o2, k2)" by (cases "filealloc k1")
  have r: "ready j k1" "ready j k2" using ready_fs(2)[OF 1(2) ready_fs(1)[OF 1(1) assms(3)]] ready_filealloc[OF 2] by blast+
  show ?thesis
  proof (cases o1)
    case None
    then show ?thesis using assms(1) 1 r(1) ready_fs(1) by (auto simp: open_path_def kbind_Inr)
  next
    case (Some ip)
    show ?thesis
    proof (cases o2)
      case None
      then show ?thesis using assms(1) 1 2 Some r(2) ready_open_fail by (auto simp: open_path_def kbind_Inr)
    next
      case f: (Some f)
      obtain o3 k3 where 3: "fdalloc me f k2 = (o3, k3)" by (cases "fdalloc me f k2")
      have "ready j k3" using ready_fdalloc[OF 3 assms(2) r(2)] .
      then show ?thesis using assms(1) 1 2 3 Some f
        by (cases o3) (auto simp: open_path_def kbind_Inr dest!: ready_fs(1) ready_fileclose ready_open_fail)
    qed
  qed
qed

lemma ready_make_pipe:
  assumes "make_pipe page me k = Inr (r, k')" "j \<noteq> me" "ready j k"
  shows "ready j k'"
proof -
  obtain o1 k1 where 1: "pipealloc page k = Inr (o1, k1)" using assms(1) by (auto simp: make_pipe_def kbind_Inr)
  have r1: "ready j k1" by (rule ready_pipealloc[OF 1 assms(3)])
  show ?thesis
  proof (cases o1)
    case None
    then show ?thesis using assms(1) 1 r1 by (simp add: make_pipe_def)
  next
    case (Some q)
    obtain a b where q: "q = (a, b)" by (cases q)
    obtain o2 k2 where 2: "fdalloc me a k1 = (o2, k2)" by (cases "fdalloc me a k1")
    obtain o3 k3 where 3: "fdalloc me b k2 = (o3, k3)" by (cases "fdalloc me b k2")
    have r: "ready j k2" "ready j k3" using ready_fdalloc[OF 2 assms(2) r1] ready_fdalloc[OF 3 assms(2)] by blast+
    then show ?thesis using assms(1,2) 1 2 3 Some q
      by (cases o2; cases o3) (auto simp: make_pipe_def clear_fd_def kbind_Inr dest!: ready_fileclose)
  qed
qed

lemma ready_chdir:
  assumes "sys_chdir me m k = Inr (r, k')" "j \<noteq> me" "ready j k"
  shows "ready j k'"
proof (cases "argstr me m 0 k")
  case None
  then have "in_fs empty_op k = Inr (r, k')" using assms(1) by (simp add: sys_chdir_def)
  then show ?thesis by (rule ready_fs(2)[OF _ assms(3)])
next
  case (Some path)
  then obtain k0 o1 k1 where 1: "do_fs fs_begin_op k = Inr k0" "in_fs (namei (cwd_of me k0) path) k0 = Inr (o1, k1)"
    using assms(1) by (auto simp: sys_chdir_def kbind_Inr)
  have r1: "ready j k1" using ready_fs(2)[OF 1(2) ready_fs(1)[OF 1(1) assms(3)]] .
  show ?thesis
  proof (cases o1)
    case None
    then show ?thesis using assms(1) 1 Some r1 ready_fs(1) by (auto simp: sys_chdir_def kbind_Inr)
  next
    case ip: (Some ip)
    then obtain k2 where 2: "do_fs (ilock ip) k1 = Inr k2" using assms(1) 1 Some by (auto simp: sys_chdir_def kbind_Inr)
    have r2: "ready j k2" by (rule ready_fs(1)[OF 2 r1])
    show ?thesis
    proof (cases "i_type (icache (fs k2) ! ip) = T_DIR")
      case True
      then obtain k3 k4 k5 where "do_fs (iunlock ip) k2 = Inr k3" "do_fs (iput (cwd_of me k3)) k3 = Inr k4" "do_fs fs_end_op k4 = Inr k5"
        "k' = upd_proc me (\<lambda>p. p\<lparr>p_cwd := Some ip\<rparr>) k5" using assms(1) 1 2 Some ip by (auto simp: sys_chdir_def kbind_Inr)
      then show ?thesis using ready_fs(1)[OF _ ready_fs(1)[OF _ ready_fs(1)[OF _ r2]]] assms(2) by simp
    next
      case False
      then obtain k3 where "do_fs (iunlockput ip) k2 = Inr k3" "do_fs fs_end_op k3 = Inr k'" using assms(1) 1 2 Some ip by (auto simp: sys_chdir_def kbind_Inr)
      then show ?thesis using ready_fs(1)[OF _ ready_fs(1)[OF _ r2]] by blast
    qed
  qed
qed

lemma ready_syscall:
  assumes "syscall me k k'" "j \<noteq> me" "ready j k"
  shows "ready j k'"
  using assms(1)
proof cases
  case (sc_dup m r)
  then show ?thesis using assms(2,3) by (auto simp: sys_dup_def dup_file_def kbind_Inr split: option.splits prod.splits dest!: ready_fdalloc ready_filedup)
next
  case (sc_close m r)
  then have "k' = k \<or> (\<exists>fd f. fileclose f (clear_fd me fd k) = Inr k')" by (auto simp: sys_close_def close_fd_def kbind_Inr split: option.splits)
  moreover have "ready j (clear_fd me fd k)" for fd using assms(2,3) by (simp add: clear_fd_def)
  ultimately show ?thesis using assms(3) ready_fileclose by blast
next
  case (sc_read m w bs)
  then show ?thesis using assms(2,3) ready_fileread by (auto simp: sys_read_def kbind_Inr split: option.splits)
next
  case (sc_write m w rest)
  then show ?thesis using assms(2,3) ready_filewrite by (auto simp: sys_write_def split: option.splits)
next
  case (sc_fstat m r st)
  then show ?thesis using assms(3) ready_filestat by (auto simp: sys_fstat_def kbind_Inr split: option.splits)
next
  case (sc_link m r)
  then show ?thesis using assms(3) ready_fs(2) by (auto simp: sys_link_def split: option.splits)
next
  case (sc_unlink m r)
  then show ?thesis using assms(3) ready_fs(2) by (auto simp: sys_unlink_def split: option.splits)
next
  case (sc_mkdir m r)
  then show ?thesis using assms(3) ready_fs(2) by (auto simp: sys_mkdir_def split: option.splits)
next
  case (sc_mknod m r)
  then show ?thesis using assms(3) ready_fs(2) by (auto simp: sys_mknod_def split: option.splits)
next
  case (sc_open m r)
  then show ?thesis using assms(2,3) ready_open by (auto simp: sys_open_def split: option.splits)
next
  case (sc_pipe page m r fds)
  then show ?thesis using assms(2,3) ready_make_pipe by (auto simp: sys_pipe_def kbind_Inr split: option.splits)
next
  case (sc_sbrk alloc dealloc n r)
  then show ?thesis using assms(2,3) by (auto simp: sys_sbrk_def growproc_def Let_def split: prod.splits if_splits)
next
  case (sc_sleep t0 n w)
  then show ?thesis using assms(2,3) ready_sleep by (auto simp: sys_sleep_pass_def kbind_Inr split: if_splits)
next
  case sc_fork
  then show ?thesis by (rule ready_fork[OF _ assms(3)])
next
  case sc_exit
  then show ?thesis by (rule ready_exit[OF _ assms(2,3)])
next
  case sc_wait
  then show ?thesis by (rule ready_wait[OF _ assms(2,3)])
next
  case sc_kill
  then show ?thesis by (rule ready_kill[OF _ assms(3)])
next
  case sc_write_more
  then show ?thesis by (rule ready_write_pipe[OF _ assms(2,3)])
next
  case sc_chdir
  then show ?thesis by (rule ready_chdir[OF _ assms(2,3)])
qed

text \<open>A step of the machine leaves a runnable process runnable or dispatches it.\<close>

lemma ready_kstep:
  assumes "kstep k k'" "ready j k"
  shows "ready j k' \<or> dispatch j k = Some k'"
  using assms(1)
proof cases
  case (k_dispatch i)
  then show ?thesis using assms(2) by (cases "i = j") (auto simp: dispatch_def sleep_return_def split: if_splits)
next
  case (k_yield me)
  then have "j \<noteq> me" using assms(2) by (auto simp: ready_def)
  then show ?thesis using k_yield assms(2) by (auto simp: yield_def sched_def split: if_splits)
next
  case (k_sleep me ch)
  then have "j \<noteq> me" using assms(2) by (auto simp: ready_def)
  then show ?thesis using k_sleep assms(2) ready_sleep by blast
next
  case (k_syscall me)
  then have "j \<noteq> me" using assms(2) by (auto simp: ready_def)
  then show ?thesis using k_syscall assms(2) ready_syscall by blast
next
  case (k_wakeup ch)
  then show ?thesis using assms(2) ready_wakeup by blast
next
  case k_clock
  then show ?thesis using assms(2) by (simp add: clock_tick_def ready_wakeup)
qed

section \<open>Every runnable process gets its turn\<close>

lemma steps_ready: "steps k ds k' \<Longrightarrow> ready j k \<Longrightarrow> ready j k' \<or> j \<in> set ds"
proof (induction rule: steps.induct)
  case (st_dispatch i k k1 ds k2)
  then show ?case
  proof (cases "i = j")
    case False
    then have "ready j k1" using st_dispatch by (auto simp: dispatch_def sleep_return_def split: if_splits)
    then show ?thesis using st_dispatch.IH by auto
  qed simp
next
  case (st_step k k1 ds k2)
  then show ?case using ready_kstep[OF st_step(1)] by blast
qed simp

lemma steps_kreach: "steps k ds k' \<Longrightarrow> kreach k \<Longrightarrow> kreach k'"
  by (induction rule: steps.induct) (blast intro: kr_step k_dispatch)+

lemma pass_above: "sched_pass i k own oth k' \<Longrightarrow> \<forall>j \<in> set own. i \<le> j"
  by (induction rule: sched_pass.induct) auto

lemma pass_sorted: "sched_pass i k own oth k' \<Longrightarrow> sorted_wrt (<) own"
proof (induction rule: sched_pass.induct)
  case (sp_run i k k1 ds k2 own oth k')
  then show ?case using pass_above[OF sp_run(5)] by auto
qed simp_all

lemma pass_ready: "sched_pass i k own oth k' \<Longrightarrow> ready j k \<Longrightarrow> i \<le> j \<Longrightarrow> j < NPROC \<Longrightarrow> j \<in> set own \<union> set oth"
proof (induction rule: sched_pass.induct)
  case (sp_skip i k own oth k')
  then have "i \<noteq> j" by (auto simp: ready_def)
  then show ?case using sp_skip by simp
next
  case (sp_run i k k1 ds k2 own oth k')
  show ?case
  proof (cases "i = j")
    case False
    then have "ready j k1" using sp_run by (auto simp: dispatch_def sleep_return_def split: if_splits)
    then have "ready j k2 \<or> j \<in> set ds" using steps_ready sp_run(3) by blast
    then show ?thesis using sp_run False by auto
  qed simp
qed simp

lemma pass_kreach: "sched_pass i k own oth k' \<Longrightarrow> kreach k \<Longrightarrow> kreach k'"
  by (induction rule: sched_pass.induct) (blast intro: kr_step k_dispatch steps_kreach)+

text \<open>
  C5: No runnable process is starved: while one pass of the scheduler goes on, in which the processes run, call the kernel and are dispatched by
  other processors in any way, every process that was runnable at its start is dispatched, by this processor or by another one; this processor
  dispatches every entry at most once, in the order of the table, and the state after the pass is again one that can be reached.
\<close>

theorem scheduler_starves_nobody:
  assumes "kreach k" "sched_pass 0 k own oth k'"
  shows "kreach k' \<and> sorted_wrt (<) own \<and> (\<forall>j. j < NPROC \<and> p_state (ptable k ! j) = RUNNABLE \<longrightarrow> j \<in> set own \<union> set oth)"
proof (intro conjI allI impI)
  show "kreach k'" "sorted_wrt (<) own" using pass_kreach pass_sorted assms by blast+
  fix j assume j: "j < NPROC \<and> p_state (ptable k ! j) = RUNNABLE"
  then have "ready j k" using table_okD(1)[of k] kreach_ok[OF assms(1)] by (simp add: ready_def)
  then show "j \<in> set own \<union> set oth" using pass_ready[OF assms(2)] j by simp
qed

text \<open>A pass after the start: the first process runs and gives up the processor.\<close>

lemma pass_skips: "i \<le> NPROC \<Longrightarrow> \<forall>j. i \<le> j \<and> j < NPROC \<longrightarrow> p_state (ptable k ! j) \<noteq> RUNNABLE \<Longrightarrow> sched_pass i k [] [] k"
proof (induction n \<equiv> "NPROC - i" arbitrary: i)
  case 0
  then have "i = NPROC" by linarith
  then show ?case using sp_end[of k] by simp
next
  case (Suc n)
  have i: "i < NPROC" "n = NPROC - (i + 1)" "i + 1 \<le> NPROC" using Suc.hyps(2) by linarith+
  have "p_state (ptable k ! i) \<noteq> RUNNABLE" using Suc.prems(2) i(1) by blast
  moreover have "\<forall>j. i + 1 \<le> j \<and> j < NPROC \<longrightarrow> p_state (ptable k ! j) \<noteq> RUNNABLE" using Suc.prems(2) by (meson add_leD1)
  ultimately show ?case using sp_skip[OF i(1)] Suc.hyps(1)[OF i(2,3)] by blast
qed

theorem scheduler_starves_nobody_witness:
  "\<exists>(k :: unit kern) k'. kreach k \<and> sched_pass 0 k [0] [] k' \<and> p_state (ptable k ! 0) = RUNNABLE \<and> kreach k'"
proof -
  obtain k ip where k: "calm 0 ip k" "p_state (ptable k ! 0) = RUNNABLE" "\<forall>i < NPROC. 0 < i \<longrightarrow> ptable k ! i = free_proc" using boot_calm by blast
  have r: "kreach k" using k(1) by (simp add: calm_def)
  have L: "length (ptable k) = 64" using kreach_ok[OF r] table_okD(1)[of k] by simp
  define k1 where "k1 = sleep_return 0 (upd_proc 0 (\<lambda>p. p\<lparr>p_state := RUNNING\<rparr>) k)"
  have d: "dispatch 0 k = Some k1" using k(2) by (simp add: dispatch_def k1_def)
  have s1: "p_state (ptable k1 ! 0) = RUNNING" "length (ptable k1) = 64" "\<forall>i < NPROC. 0 < i \<longrightarrow> ptable k1 ! i = free_proc"
    using L k(3) by (auto simp: sleep_return_def k1_def)
  obtain k2 where y: "yield 0 k1 = Inr k2" "k2 = upd_proc 0 (\<lambda>p. p\<lparr>p_state := RUNNABLE\<rparr>) k1"
    using s1(2) by (simp add: yield_def sched_def)
  have s2: "p_state (ptable k2 ! 0) = RUNNABLE" "\<forall>i < NPROC. 0 < i \<longrightarrow> ptable k2 ! i = free_proc"
    using s1(2,3) y(2) by auto
  have "dispatch i k1 \<noteq> Some k2" for i
  proof
    assume a: "dispatch i k1 = Some k2"
    then have i: "p_state (ptable k1 ! i) = RUNNABLE" by (auto simp: dispatch_def split: if_splits)
    then have "i \<noteq> 0" using s1(1) by (cases "i = 0") simp_all
    then have "p_state (ptable k2 ! 0) = p_state (ptable k1 ! 0)" using a i by (auto simp: dispatch_def sleep_return_def)
    then show False using s1(1) s2(1) by simp
  qed
  then have st: "steps k1 [] k2" using st_step[OF k_yield[OF _ s1(1) y(1)] _ st_none] by simp
  have "sched_pass 1 k2 [] [] k2" by (rule pass_skips) (use s2(2) in \<open>auto simp: free_proc_def\<close>)
  then have p: "sched_pass 0 k [0] ([] @ []) k2" by (intro sp_run[OF _ d st]) (use s2(1) in simp_all)
  from scheduler_starves_nobody[OF r p[simplified]] show ?thesis using r p k(2) by (intro exI[of _ k] exI[of _ k2]) simp
qed

end
