(* ===== verification/Irq.thy ===== *)
theory Irq
  imports Mp
begin

text \<open>
  Interrupt controllers and timer (\<open>picirq.c\<close>, \<open>ioapic.c\<close>, \<open>timer.c\<close>). The code is the sequence of bytes it writes to ports and
  registers; the controllers answer as their data sheets say. Shown: after \<open>picinit\<close>, and wherever \<open>picenable\<close> was called before or
  after it, exactly the enabled lines reach the processor, line \<open>i\<close> as vector 32 + \<open>i\<close>; and the same for the I/O controller of a
  multiprocessor, with the processor an interrupt is sent to.
\<close>

unbundle bit_operations_syntax

section \<open>The 8259A controllers\<close>

text \<open>One chip: vector base, mask, cascade word, and which initialisation word it expects next on its data port (0: none, the mask).\<close>

record chip =
  vbase :: byte
  imr :: byte
  casc :: byte
  next_word :: nat
  single :: bool
  need4 :: bool

definition chip_command :: "byte \<Rightarrow> chip \<Rightarrow> chip" where
  "chip_command v c = (if bit v 4 then c\<lparr>imr := 0, next_word := 2, single := bit v 1, need4 := bit v 0\<rparr> else c)"

definition chip_data :: "byte \<Rightarrow> chip \<Rightarrow> chip" where
  "chip_data v c =
     (let after3 = (if need4 c then 4 else 0)
      in if next_word c = 2 then c\<lparr>vbase := v AND 0xF8, next_word := (if single c then after3 else 3)\<rparr>
         else if next_word c = 3 then c\<lparr>casc := v, next_word := after3\<rparr>
         else if next_word c = 4 then c\<lparr>next_word := 0\<rparr>
         else c\<lparr>imr := v\<rparr>)"

text \<open>The variable \<open>irqmask\<close> and the two chips.\<close>

record pic =
  irqmask :: u16
  master :: chip
  slave :: chip

abbreviation (input) IO_PIC1 :: nat where "IO_PIC1 \<equiv> 0x20"
abbreviation (input) IO_PIC2 :: nat where "IO_PIC2 \<equiv> 0xA0"
abbreviation (input) IRQ_SLAVE :: nat where "IRQ_SLAVE \<equiv> 2"

definition pic_outb :: "nat \<times> byte \<Rightarrow> pic \<Rightarrow> pic" where
  "pic_outb w s = (case w of (port, v) \<Rightarrow>
     if port = IO_PIC1 then s\<lparr>master := chip_command v (master s)\<rparr>
     else if port = IO_PIC1 + 1 then s\<lparr>master := chip_data v (master s)\<rparr>
     else if port = IO_PIC2 then s\<lparr>slave := chip_command v (slave s)\<rparr>
     else if port = IO_PIC2 + 1 then s\<lparr>slave := chip_data v (slave s)\<rparr>
     else s)"

definition picsetmask :: "u16 \<Rightarrow> pic \<Rightarrow> pic" where
  "picsetmask mk s = fold pic_outb [(IO_PIC1 + 1, ucast mk), (IO_PIC2 + 1, ucast (drop_bit 8 mk))] (s\<lparr>irqmask := mk\<rparr>)"

definition picenable :: "nat \<Rightarrow> pic \<Rightarrow> pic" where
  "picenable irq s = picsetmask (irqmask s AND NOT (push_bit irq 1)) s"

definition picinit :: "pic \<Rightarrow> pic" where
  "picinit s =
     (let s1 = fold pic_outb
        [(IO_PIC1 + 1, 0xFF), (IO_PIC2 + 1, 0xFF),
         (IO_PIC1, 0x11), (IO_PIC1 + 1, 32), (IO_PIC1 + 1, push_bit IRQ_SLAVE 1), (IO_PIC1 + 1, 3),
         (IO_PIC2, 0x11), (IO_PIC2 + 1, 32 + 8), (IO_PIC2 + 1, 2), (IO_PIC2 + 1, 3),
         (IO_PIC1, 0x68), (IO_PIC1, 0x0a), (IO_PIC2, 0x68), (IO_PIC2, 0x0a)] s
      in if irqmask s1 \<noteq> 0xFFFF then picsetmask (irqmask s1) s1 else s1)"

definition boot_mask :: u16 where
  "boot_mask = 0xFFFF AND NOT (push_bit IRQ_SLAVE 1)"

text \<open>The vector with which a request on line \<open>i\<close> reaches the processor; the lines of the slave pass through line 2 of the master.\<close>

definition delivers :: "pic \<Rightarrow> nat \<Rightarrow> nat option" where
  "delivers s i =
     (if i < 8 then if bit (imr (master s)) i \<or> bit (casc (master s)) i then None else Some (unat (vbase (master s)) + i)
      else if i < 16 then
        if bit (imr (slave s)) (i - 8) \<or> bit (imr (master s)) (unat (casc (slave s))) \<or> \<not> bit (casc (master s)) (unat (casc (slave s))) then None
        else Some (unat (vbase (slave s)) + (i - 8))
      else None)"

text \<open>Both chips are past their initialisation and hold the mask.\<close>

definition pic_ready :: "pic \<Rightarrow> bool" where
  "pic_ready s \<longleftrightarrow> next_word (master s) = 0 \<and> next_word (slave s) = 0 \<and> vbase (master s) = 32 \<and> vbase (slave s) = 40 \<and>
     casc (master s) = 4 \<and> casc (slave s) = 2 \<and> imr (master s) = ucast (irqmask s) \<and> imr (slave s) = ucast (drop_bit 8 (irqmask s))"

definition mask_is :: "nat set \<Rightarrow> pic \<Rightarrow> bool" where
  "mask_is E s \<longleftrightarrow> (\<forall>i < 16. bit (irqmask s) i \<longleftrightarrow> i \<noteq> 2 \<and> i \<notin> E)"

lemma picsetmask_irqmask [simp]: "irqmask (picsetmask m s) = m"
  by (simp add: picsetmask_def pic_outb_def)

lemma picsetmask_ready: "pic_ready s \<Longrightarrow> pic_ready (picsetmask m s)"
  by (simp add: pic_ready_def picsetmask_def pic_outb_def chip_data_def)

lemma picinit_ready: "irqmask s \<noteq> 0xFFFF \<Longrightarrow> pic_ready (picinit s) \<and> irqmask (picinit s) = irqmask s"
  by (simp add: picinit_def pic_ready_def picsetmask_def pic_outb_def chip_data_def chip_command_def Let_def)

lemma mask_boot: "irqmask s = boot_mask \<Longrightarrow> mask_is {} s"
proof -
  assume s: "irqmask s = boot_mask"
  have "(0xFFFF :: u16) = - 1" by simp
  then have "bit boot_mask i \<longleftrightarrow> i \<noteq> 2" if "i < 16" for i
    using that unfolding boot_mask_def by (simp only: bit_and_iff bit_not_iff bit_push_bit_iff bit_minus_1_iff) (auto simp: bit_1_iff)
  then show ?thesis using s by (simp add: mask_is_def)
qed

lemma mask_enable: "mask_is E s \<Longrightarrow> mask_is (insert irq E) (picenable irq s)"
  by (auto simp: mask_is_def picenable_def bit_simps)

lemma mask_enables: "mask_is E s \<Longrightarrow> mask_is (E \<union> set es) (fold picenable es s)"
proof (induction es arbitrary: E s)
  case (Cons e es)
  show ?case using Cons.IH[OF mask_enable[OF Cons.prems]] by simp
qed simp

lemma ready_enables: "pic_ready s \<Longrightarrow> pic_ready (fold picenable es s)"
  by (induction es arbitrary: s) (simp_all add: picenable_def picsetmask_ready)

text \<open>
  After \<open>picinit\<close> exactly the lines that \<open>picenable\<close> was called for, before it or after it, reach the processor, and line \<open>i\<close>
  as vector 32 + \<open>i\<close>; the line between the two chips is open.
\<close>

theorem pic_delivers_enabled:
  assumes "irqmask s = boot_mask" "i \<noteq> 2"
  shows "delivers (fold picenable later (picinit (fold picenable early s))) i = (if i < 16 \<and> i \<in> set early \<union> set later then Some (32 + i) else None)"
proof -
  let ?s1 = "fold picenable early s" and ?s = "fold picenable later (picinit (fold picenable early s))"
  have m1: "mask_is (set early) ?s1" using mask_enables[OF mask_boot[OF assms(1)], of early] by simp
  have "\<not> bit (irqmask ?s1) 2" using m1 by (simp add: mask_is_def)
  moreover have "bit (0xFFFF :: u16) 2" by simp
  ultimately have "irqmask ?s1 \<noteq> 0xFFFF" by metis
  note r1 = picinit_ready[OF this]
  have "mask_is (set early) (picinit ?s1)" using m1 r1 by (simp add: mask_is_def)
  then have m: "mask_is (set early \<union> set later) ?s" by (rule mask_enables)
  have r: "pic_ready ?s" using ready_enables r1 by blast
  have b: "bit (irqmask ?s) j = (j \<noteq> 2 \<and> j \<notin> set early \<union> set later)" if "j < 16" for j using m that by (simp add: mask_is_def)
  have c: "bit (4 :: byte) j \<longleftrightarrow> j = 2" for j using bit_push_bit_iff[of 2 "1 :: byte" j] by (auto simp: bit_simps dest: bit_imp_le_length)
  consider "i < 8" | "8 \<le> i" "i < 16" | "16 \<le> i" by linarith
  then show ?thesis
  proof cases
    case 1
    have "bit (imr (master ?s)) i = bit (irqmask ?s) i" using r 1 by (simp add: pic_ready_def bit_simps)
    then show ?thesis using 1 r b[of i] assms(2) c[of i] by (simp add: delivers_def pic_ready_def)
  next
    case 2
    have "bit (imr (slave ?s)) (i - 8) = bit (irqmask ?s) i" using r 2 less_diff_conv2[of 8 i 8] by (simp add: pic_ready_def bit_simps)
    moreover have "\<not> bit (imr (master ?s)) 2" using r b[of 2] by (simp add: pic_ready_def bit_simps)
    ultimately show ?thesis using 2 r b[of i] assms(2) by (simp add: delivers_def pic_ready_def c)
  qed (simp add: delivers_def)
qed

theorem pic_delivers_enabled_witness:
  "delivers (picenable 14 (picinit (picenable 1 \<lparr>irqmask = boot_mask, master = \<lparr>vbase = 8, imr = 0, casc = 0, next_word = 0, single = False, need4 = False\<rparr>,
     slave = \<lparr>vbase = 0x70, imr = 0, casc = 0, next_word = 0, single = False, need4 = False\<rparr>\<rparr>))) 14 = Some 46"
  using pic_delivers_enabled[of "\<lparr>irqmask = boot_mask, master = \<lparr>vbase = 8, imr = 0, casc = 0, next_word = 0, single = False, need4 = False\<rparr>,
     slave = \<lparr>vbase = 0x70, imr = 0, casc = 0, next_word = 0, single = False, need4 = False\<rparr>\<rparr>" 14 "[14]" "[1]"] by simp

section \<open>The timer\<close>

text \<open>The 8253: counter 0 is loaded with two bytes, the low one first, after the mode byte asks for that.\<close>

definition TIMER_DIV :: "nat \<Rightarrow> nat" where
  "TIMER_DIV x = (1193182 + x div 2) div x"

definition timer_writes :: "(nat \<times> nat) list" where
  "timer_writes = [(0x43, unat (0 OR 0x04 OR 0x30 :: byte)), (0x40, TIMER_DIV 100 mod 256), (0x40, TIMER_DIV 100 div 256)]"

definition timerinit :: "pic \<Rightarrow> (nat \<times> nat) list \<times> pic" where
  "timerinit s = (timer_writes, picenable 0 s)"

definition pit_reload :: "(nat \<times> nat) list \<Rightarrow> nat option" where
  "pit_reload ws = (case ws of
     [(c, m), (a, lo), (b, hi)] \<Rightarrow> if c = 0x43 \<and> m = 0x34 \<and> a = 0x40 \<and> b = 0x40 \<and> lo < 256 \<and> hi < 256 then Some (lo + 256 * hi) else None
   | _ \<Rightarrow> None)"

text \<open>
  \<open>timerinit\<close> loads a count whose rate is 100 interrupts per second, up to rounding of the count, and opens line 0.
\<close>

theorem timer_rate:
  assumes "irqmask s = boot_mask"
  shows "(\<exists>c. pit_reload (fst (timerinit s)) = Some c \<and> \<bar>1193182 - 100 * int c\<bar> \<le> 50) \<and> delivers (snd (timerinit (picinit s))) 0 = Some 32"
proof
  show "\<exists>c. pit_reload (fst (timerinit s)) = Some c \<and> \<bar>1193182 - 100 * int c\<bar> \<le> 50"
    by (simp add: timerinit_def timer_writes_def pit_reload_def TIMER_DIV_def)
  show "delivers (snd (timerinit (picinit s))) 0 = Some 32"
    using pic_delivers_enabled[OF assms, of 0 "[0]" "[]"] by (simp add: timerinit_def)
qed

section \<open>The I/O controller of a multiprocessor\<close>

text \<open>Its registers by index; the code selects one and then reads or writes it.\<close>

type_synonym ioregs = "nat \<Rightarrow> u32"

abbreviation (input) REG_ID :: nat where "REG_ID \<equiv> 0"
abbreviation (input) REG_VER :: nat where "REG_VER \<equiv> 1"
abbreviation (input) REG_TABLE :: nat where "REG_TABLE \<equiv> 16"
abbreviation (input) INT_DISABLED :: u32 where "INT_DISABLED \<equiv> 0x00010000"

definition ioapicread :: "nat \<Rightarrow> ioregs \<Rightarrow> u32" where
  "ioapicread reg r = r reg"

definition ioapicwrite :: "nat \<Rightarrow> u32 \<Rightarrow> ioregs \<Rightarrow> ioregs" where
  "ioapicwrite reg v r = r(reg := v)"

fun disable_loop :: "nat \<Rightarrow> ioregs \<Rightarrow> ioregs" where
  "disable_loop 0 r = r"
| "disable_loop (Suc i) r = ioapicwrite (REG_TABLE + 2 * i + 1) 0 (ioapicwrite (REG_TABLE + 2 * i) (INT_DISABLED OR of_nat (32 + i)) (disable_loop i r))"

text \<open>Also whether it prints that the identifier is not the one of the tables.\<close>

definition ioapicinit :: "mpst \<Rightarrow> ioregs \<Rightarrow> ioregs \<times> bool" where
  "ioapicinit st r =
     (if \<not> ismp st then (r, False)
      else let maxintr = drop_bit 16 (ioapicread REG_VER r) AND 0xFF; id = drop_bit 24 (ioapicread REG_ID r)
           in (disable_loop (unat maxintr + 1) r, id \<noteq> ucast (ioapicid st)))"

definition ioapicenable :: "mpst \<Rightarrow> nat \<Rightarrow> nat \<Rightarrow> ioregs \<Rightarrow> ioregs" where
  "ioapicenable st irq cpunum r =
     (if \<not> ismp st then r
      else ioapicwrite (REG_TABLE + 2 * irq + 1) (push_bit 24 (of_nat cpunum)) (ioapicwrite (REG_TABLE + 2 * irq) (of_nat (32 + irq)) r))"

text \<open>Where a request on line \<open>i\<close> goes: the vector and the processor, unless it is disabled.\<close>

definition io_route :: "ioregs \<Rightarrow> nat \<Rightarrow> (nat \<times> nat) option" where
  "io_route r i =
     (if bit (r (REG_TABLE + 2 * i)) 16 then None
      else Some (unat (r (REG_TABLE + 2 * i)) mod 256, unat (drop_bit 24 (r (REG_TABLE + 2 * i + 1)))))"

lemma disable_loop_table: "i < n \<Longrightarrow> disable_loop n r (16 + 2 * i) = INT_DISABLED OR of_nat (32 + i)"
  by (induction n) (auto simp: ioapicwrite_def less_Suc_eq)

lemma io_route_disabled: "i < n \<Longrightarrow> io_route (disable_loop n r) i = None"
  by (simp add: io_route_def disable_loop_table bit_or_iff)

lemma bit_small: "n < 2 ^ k \<Longrightarrow> k \<le> j \<Longrightarrow> \<not> bit (of_nat n :: u32) j"
proof -
  assume n: "n < 2 ^ k" "k \<le> j"
  then have "n < 2 ^ j" using order_less_le_trans[of n "2 ^ k" "2 ^ j"] by simp
  then have "\<not> bit n j" by (simp add: bit_iff_odd)
  then show ?thesis by (simp add: bit_of_nat_iff)
qed

lemma io_route_enable:
  assumes "ismp st" "irq < 224" "cpu < 256"
  shows "io_route (ioapicenable st irq cpu r) i = (if i = irq then Some (32 + irq, cpu) else io_route r i)"
proof -
  have v: "unat (of_nat (32 + irq) :: u32) = 32 + irq" using assms(2) by (simp only: unat_of_nat) simp
  have d: "\<not> bit (of_nat (32 + irq) :: u32) 16" by (rule bit_small[of _ 16]) (use assms(2) in simp_all)
  have "drop_bit 24 (push_bit 24 (of_nat cpu :: u32)) = of_nat cpu"
  proof (rule bit_word_eqI)
    fix j assume "j < LENGTH(32)"
    show "bit (drop_bit 24 (push_bit 24 (of_nat cpu :: u32))) j = bit (of_nat cpu :: u32) j"
      using bit_small[of cpu 8 j] assms(3) by (cases "j < 8") (auto simp: bit_drop_bit_eq bit_push_bit_iff)
  qed
  moreover have "unat (of_nat cpu :: u32) = cpu" using assms(3) by (simp only: unat_of_nat) simp
  moreover have "16 + 2 * i \<noteq> 16 + 2 * irq + 1" "16 + 2 * i + 1 \<noteq> 16 + 2 * irq" by presburger+
  ultimately show ?thesis using assms v d by (simp add: io_route_def ioapicenable_def ioapicwrite_def)
qed

lemma io_route_enables:
  assumes "ismp st"
  shows "\<forall>(irq, cpu) \<in> set es. irq < 224 \<and> cpu < 256 \<Longrightarrow>
    io_route (fold (\<lambda>(irq, cpu). ioapicenable st irq cpu) es r) i = (case map_of (rev es) i of Some cpu \<Rightarrow> Some (32 + i, cpu) | None \<Rightarrow> io_route r i)"
proof (induction es arbitrary: r)
  case (Cons e es)
  obtain irq cpu where e: "e = (irq, cpu)" by (cases e)
  show ?case using Cons io_route_enable[OF assms, of irq cpu r i] e
    by (auto simp: map_add_def split: option.splits)
qed simp

text \<open>
  On a multiprocessor a line of the I/O controller is delivered after \<open>ioapicinit\<close> exactly if it was enabled afterwards, with vector 32 plus
  its number, to the processor it was enabled for last.
\<close>

theorem ioapic_routes_enabled:
  assumes "ismp st" "\<forall>(irq, cpu) \<in> set es. irq < 224 \<and> cpu < 256" "i \<le> unat (drop_bit 16 (r REG_VER) AND 0xFF)"
  shows "io_route (fold (\<lambda>(irq, cpu). ioapicenable st irq cpu) es (fst (ioapicinit st r))) i = map_option (\<lambda>cpu. (32 + i, cpu)) (map_of (rev es) i)"
proof -
  have "io_route (fst (ioapicinit st r)) i = None"
    unfolding ioapicinit_def Let_def ioapicread_def using assms(1,3) by (simp add: io_route_disabled del: disable_loop.simps)
  then show ?thesis using io_route_enables[OF assms(1,2), of "fst (ioapicinit st r)" i] by (simp split: option.split)
qed

theorem ioapic_routes_enabled_witness:
  "io_route (ioapicenable \<lparr>cpus = (\<lambda>_. 0), ismp = True, ncpu = 2, ioapicid = 0, lapic = 0\<rparr> 14 1
     (fst (ioapicinit \<lparr>cpus = (\<lambda>_. 0), ismp = True, ncpu = 2, ioapicid = 0, lapic = 0\<rparr> (\<lambda>_. 0x00170011)))) 14 = Some (46, 1)"
proof -
  have "14 \<le> unat (drop_bit 16 (0x00170011 :: u32) AND 0xFF)" by simp
  then show ?thesis
    using ioapic_routes_enabled[of "\<lparr>cpus = (\<lambda>_. 0), ismp = True, ncpu = 2, ioapicid = 0, lapic = 0\<rparr>" "[(14, 1)]" 14 "\<lambda>_. 0x00170011"] by simp
qed

end
