(* ===== verification/Lapic.thy ===== *)
theory Lapic
  imports Irq Console
begin

text \<open>
  The local interrupt controller, the clock and the serial line (\<open>lapic.c\<close>, \<open>uart.c\<close>). Writes to registers and ports are lists;
  what the devices answer is an argument. Shown: every processor finds its own number in the table of \<open>mp.c\<close>; another processor is started at the
  page it is told; and \<open>cmostime\<close> returns the date of the clock, never a mixture of two, whatever mode the clock is in.
\<close>

section \<open>The local controller\<close>

abbreviation (input) ENABLE :: nat where "ENABLE \<equiv> 0x100"
abbreviation (input) INIT :: nat where "INIT \<equiv> 0x500"
abbreviation (input) STARTUP :: nat where "STARTUP \<equiv> 0x600"
abbreviation (input) ASSERT :: nat where "ASSERT \<equiv> 0x4000"
abbreviation (input) LEVEL :: nat where "LEVEL \<equiv> 0x8000"
abbreviation (input) BCAST :: nat where "BCAST \<equiv> 0x80000"
abbreviation (input) MASKED :: nat where "MASKED \<equiv> 0x10000"
abbreviation (input) PERIODIC :: nat where "PERIODIC \<equiv> 0x20000"

text \<open>A register by its offset in bytes, and the value written. The flags of a value are different bits, so \<open>+\<close> is the \<open>or\<close> of the code.\<close>

definition lapicinit :: "mpst \<Rightarrow> u32 \<Rightarrow> (nat \<times> nat) list" where
  "lapicinit st ver =
     (if lapic st = 0 then []
      else [(0xF0, ENABLE + (32 + 31)), (0x3E0, 0xB), (0x320, PERIODIC + (32 + 0)), (0x380, 10000000), (0x350, MASKED), (0x360, MASKED)] @
        (if 4 \<le> unat (drop_bit 16 ver AND 0xFF) then [(0x340, MASKED)] else []) @
        [(0x370, 32 + 19), (0x280, 0), (0x280, 0), (0xB0, 0), (0x310, 0), (0x300, BCAST + INIT + LEVEL), (0x80, 0)])"

definition lapiceoi :: "mpst \<Rightarrow> (nat \<times> nat) list" where
  "lapiceoi st = (if lapic st = 0 then [] else [(0xB0, 0)])"

text \<open>\<open>cpunum\<close>: \<open>idreg\<close> is the identification register of the processor that runs.\<close>

definition cpunum :: "mpst \<Rightarrow> u32 \<Rightarrow> nat kernel" where
  "cpunum st idreg =
     (if lapic st = 0 then Inr 0
      else let apicid = unat (drop_bit 24 idreg)
           in case List.find (\<lambda>i. unat (cpus st i) = apicid) [0..<ncpu st] of
                None \<Rightarrow> panic ''unknown apicid''
              | Some i \<Rightarrow> Inr i)"

text \<open>
  The identification register of processor \<open>i\<close> has its identifier in the upper byte.
\<close>

theorem cpunum_own:
  assumes "lapic st \<noteq> 0" "\<forall>j < ncpu st. \<forall>k < ncpu st. cpus st j = cpus st k \<longrightarrow> j = k" "i < ncpu st" "drop_bit 24 idreg = ucast (cpus st i)"
  shows "cpunum st idreg = Inr i"
proof -
  have "unat (cpus st i) < 256" using unsigned_less[of "cpus st i"] by simp
  then have "unat (drop_bit 24 idreg) = unat (cpus st i)" unfolding assms(4) by (simp add: unsigned_ucast_eq take_bit_nat_eq_self)
  moreover have "List.find (\<lambda>j. unat (cpus st j) = unat (cpus st i)) [0..<ncpu st] = Some i"
    unfolding find_upt_Some using assms(2,3) by (metis order_less_trans nat_neq_iff word_unat_eq_iff)
  ultimately show ?thesis using assms(1) by (simp add: cpunum_def)
qed

section \<open>Starting a processor\<close>

datatype start_write = Port nat nat | Memory nat nat | Reg nat nat

definition lapicstartap :: "byte \<Rightarrow> nat \<Rightarrow> start_write list" where
  "lapicstartap apicid addr =
     [Port 0x70 0xF, Port 0x71 0x0A, Memory 0x467 0, Memory 0x469 (addr div 2 ^ 4 mod 2 ^ 16),
      Reg 0x310 (unat apicid * 2 ^ 24), Reg 0x300 (INIT + LEVEL + ASSERT), Reg 0x300 (INIT + LEVEL)] @
     concat (replicate 2 [Reg 0x310 (unat apicid * 2 ^ 24), Reg 0x300 (STARTUP + addr div 2 ^ 12)])"

text \<open>What a command register write does: after INIT a processor waits, and the first STARTUP sets it going at 4096 times the low byte.\<close>

datatype ap = Off | Waiting | Started nat

fun ap_step :: "start_write \<Rightarrow> nat \<times> ap \<Rightarrow> nat \<times> ap" where
  "ap_step (Reg r v) (dest, a) =
     (if r = 0x310 then (v div 2 ^ 24, a)
      else if r = 0x300 then
        (dest, if v div 256 mod 8 = 5 then Waiting else if v div 256 mod 8 = 6 \<and> a = Waiting then Started (4096 * (v mod 256)) else a)
      else (dest, a))"
| "ap_step w s = s"

text \<open>
  \<open>lapicstartap\<close> addresses the given processor and starts it at \<open>addr\<close>, when that is the start of a page in the first megabyte.
\<close>

theorem lapicstartap_starts:
  assumes "addr mod 4096 = 0" "addr < 2 ^ 20"
  shows "fold ap_step (lapicstartap apicid addr) (d, a) = (unat apicid, Started addr)"
proof -
  define q where "q = addr div 4096"
  have q: "addr = 4096 * q" "q < 256" using assms div_mult_mod_eq[of addr 4096] by (auto simp: q_def)
  have "1536 + q = q + 256 * 6" by simp
  then have "(1536 + q) div 256 mod 8 = 6" "(1536 + q) mod 256 = q" using q(2) by (simp_all only: div_mult_self2 mod_mult_self2) simp_all
  moreover have "replicate 2 x = [x, x]" for x :: "start_write list" by (simp add: numeral_2_eq_2)
  moreover have "addr div 2 ^ 12 = q" using q(1) by simp
  ultimately show ?thesis using q(1) by (simp add: lapicstartap_def)
qed

section \<open>The clock\<close>

record rtcdate =
  second :: u32
  minute :: u32
  hour :: u32
  day :: u32
  month :: u32
  year :: u32

text \<open>The loop that wants two equal readings without an update in progress; one element for every try: first reading, status A, second reading.\<close>

fun cmos_loop :: "(rtcdate \<times> byte \<times> rtcdate) list \<Rightarrow> rtcdate option" where
  "cmos_loop [] = None"
| "cmos_loop ((t1, stata, t2) # tries) =
     (if stata AND 0x80 \<noteq> 0 then cmos_loop tries else if t1 = t2 then Some t1 else cmos_loop tries)"

definition conv :: "u32 \<Rightarrow> u32" where
  "conv x = drop_bit 4 x * 10 + (x AND 0xF)"

definition cmostime :: "byte \<Rightarrow> (rtcdate \<times> byte \<times> rtcdate) list \<Rightarrow> rtcdate option" where
  "cmostime statb tries =
     map_option (\<lambda>t1. let t = (if statb AND 4 = 0 then \<lparr>second = conv (second t1), minute = conv (minute t1), hour = conv (hour t1),
           day = conv (day t1), month = conv (month t1), year = conv (year t1)\<rparr> else t1)
         in t\<lparr>year := year t + 2000\<rparr>) (cmos_loop tries)"

text \<open>How the clock shows a number below 100: in decimal digits of four bits, or in binary.\<close>

definition shown :: "byte \<Rightarrow> nat \<Rightarrow> u32" where
  "shown statb n = (if statb AND 4 = 0 then of_nat (n div 10 * 16 + n mod 10) else of_nat n)"

lemma conv_shown: "statb AND 4 = 0 \<Longrightarrow> n < 100 \<Longrightarrow> conv (shown statb n) = of_nat n"
proof -
  assume s: "statb AND 4 = 0" and n: "n < 100"
  have "\<forall>k \<in> set [0..<100]. conv (of_nat (k div 10 * 16 + k mod 10)) = of_nat k" unfolding conv_def by code_simp
  then show ?thesis using n s by (simp add: shown_def)
qed

definition shown_date :: "byte \<Rightarrow> nat list \<Rightarrow> rtcdate" where
  "shown_date statb d = \<lparr>second = shown statb (d ! 0), minute = shown statb (d ! 1), hour = shown statb (d ! 2),
     day = shown statb (d ! 3), month = shown statb (d ! 4), year = shown statb (d ! 5)\<rparr>"

definition disturbed :: "rtcdate \<times> byte \<times> rtcdate \<Rightarrow> bool" where
  "disturbed r = (case r of (t1, stata, t2) \<Rightarrow> stata AND 0x80 \<noteq> 0 \<or> t1 \<noteq> t2)"

text \<open>
  \<open>cmostime\<close> returns the date of the first reading that was not disturbed by an update of the clock, with the numbers as numbers, whether the clock
  shows them as decimal digits or in binary; it does not return while every reading is disturbed.
\<close>

theorem cmostime_correct:
  assumes "list_all disturbed before"
  shows "cmostime statb before = None \<and>
    (stata AND 0x80 = 0 \<and> length d = 6 \<and> (\<forall>n \<in> set d. n < 100) \<longrightarrow>
       cmostime statb (before @ (shown_date statb d, stata, shown_date statb d) # after) =
         Some \<lparr>second = of_nat (d ! 0), minute = of_nat (d ! 1), hour = of_nat (d ! 2), day = of_nat (d ! 3), month = of_nat (d ! 4), year = of_nat (d ! 5 + 2000)\<rparr>)"
proof (intro conjI impI)
  have l: "cmos_loop (before @ rest) = cmos_loop rest" for rest
    using assms by (induction before) (auto simp: disturbed_def)
  show "cmostime statb before = None" using l[of "[]"] by (simp add: cmostime_def)
  assume a: "stata AND 0x80 = 0 \<and> length d = 6 \<and> (\<forall>n \<in> set d. n < 100)"
  then have "d ! k < 100" if "k < 6" for k using that nth_mem by metis
  note b = this[of 0] this[of 1] this[of 2] this[of 3] this[of 4] this[of 5]
  show "cmostime statb (before @ (shown_date statb d, stata, shown_date statb d) # after) =
         Some \<lparr>second = of_nat (d ! 0), minute = of_nat (d ! 1), hour = of_nat (d ! 2), day = of_nat (d ! 3), month = of_nat (d ! 4), year = of_nat (d ! 5 + 2000)\<rparr>"
  proof (cases "statb AND 4 = 0")
    case True
    then show ?thesis using a b by (simp add: cmostime_def l shown_date_def conv_shown)
  next
    case False
    then show ?thesis using a by (simp add: cmostime_def l shown_date_def shown_def)
  qed
qed

text \<open>The 9th of November 2012, 23:59:58, after a reading during an update.\<close>

theorem cmostime_correct_witness:
  "cmostime 2 [(shown_date 2 [58, 59, 23, 9, 11, 12], 0x80, shown_date 2 [58, 59, 23, 9, 11, 12]), (shown_date 2 [58, 59, 23, 9, 11, 12], 0, shown_date 2 [58, 59, 23, 9, 11, 12])] =
     Some \<lparr>second = 58, minute = 59, hour = 23, day = 9, month = 11, year = 2012\<rparr>"
  using cmostime_correct[of "[(shown_date 2 [58, 59, 23, 9, 11, 12], 0x80, shown_date 2 [58, 59, 23, 9, 11, 12])]" 2 0 "[58, 59, 23, 9, 11, 12]" "[]"]
  by (simp add: disturbed_def)

section \<open>The serial line\<close>

text \<open>\<open>uartinit\<close> up to its greeting: the writes, and whether there is a line; the argument is the status register.\<close>

definition uartinit :: "byte \<Rightarrow> (nat \<times> byte) list \<times> bool" where
  "uartinit status =
     ([(0x3F8 + 2, 0), (0x3F8 + 3, 0x80), (0x3F8 + 0, of_nat (115200 div 9600)), (0x3F8 + 1, 0), (0x3F8 + 3, 3), (0x3F8 + 4, 0), (0x3F8 + 1, 1)],
      status \<noteq> 0xFF)"

text \<open>\<open>uartputc\<close>: the number of readings of the status register, of at most 128, and the byte that is sent, ready or not.\<close>

definition uartputc :: "bool \<Rightarrow> byte list \<Rightarrow> int \<Rightarrow> nat \<times> byte list" where
  "uartputc uart status c =
     (if \<not> uart then (0, [])
      else let waits = length (takeWhile (\<lambda>s. s AND 0x20 = 0) (take 128 status)) in (min 128 (waits + 1), [of_int c]))"

text \<open>What the calls of \<open>uartgetc\<close> in \<open>consoleintr\<close> return before the first -1; one status and one data byte for every call.\<close>

fun uart_codes :: "bool \<Rightarrow> (byte \<times> byte) list \<Rightarrow> int list" where
  "uart_codes uart [] = []"
| "uart_codes uart ((status, d) # r) = (if \<not> uart \<or> status AND 1 = 0 then [] else uint d # uart_codes uart r)"

definition uartintr :: "bool \<Rightarrow> (byte \<times> byte) list \<Rightarrow> console \<Rightarrow> (console \<times> bool) kernel" where
  "uartintr uart r c = consoleintr (uart_codes uart r) c"

lemma uart_codes_all: "list_all (\<lambda>(st, d). st AND 1 \<noteq> 0) r \<Longrightarrow> uart_codes True (r @ [(0, x)]) = map (\<lambda>(st, d). uint d) r"
  by (induction r) auto

end
